(* ===== verification/Prelude.thy ===== *)
theory Prelude
  imports Main "HOL-Library.Word" "HOL-Library.Sublist"
begin

text \<open>
  Shared vocabulary of the development: the C library functions the sources call
  (character classes of the C locale, \<open>strchr\<close>, \<open>strrchr\<close>, \<open>strstr\<close>, \<open>strcasecmp\<close>,
  \<open>strtol\<close>), the types that name machine integers and nullable strings, the collections
  of facts the component theories extend, and the generic list lemmas they share.

  A C string is the list of its bytes up to, and without, the terminating NUL; a
  \<open>char *\<close> that the code compares with NULL is an \<open>option\<close>.
\<close>

section \<open>Types\<close>

type_synonym u8 = "8 word"
type_synonym u32 = "32 word"
type_synonym u64 = "64 word"
type_synonym size_t = "64 word"
type_synonym cstr = "string option"

named_theorems char_class \<open>definitions of the C character classes\<close>

section \<open>Bytes and character classes of the C locale\<close>

definition byte :: "char \<Rightarrow> nat" where
  "byte c = of_char c"

definition schar :: "char \<Rightarrow> int" where
  \<comment> \<open>a plain \<open>char\<close> read as a number: signed on the x86-64 targets\<close>
  "schar c = (if byte c < 128 then int (byte c) else int (byte c) - 256)"

definition NUL :: char where
  "NUL = CHR 0x00"

definition isdigit :: "char \<Rightarrow> bool" where
  [char_class]: "isdigit c \<longleftrightarrow> 48 \<le> byte c \<and> byte c \<le> 57"

definition isupper :: "char \<Rightarrow> bool" where
  [char_class]: "isupper c \<longleftrightarrow> 65 \<le> byte c \<and> byte c \<le> 90"

definition islower :: "char \<Rightarrow> bool" where
  [char_class]: "islower c \<longleftrightarrow> 97 \<le> byte c \<and> byte c \<le> 122"

definition isalpha :: "char \<Rightarrow> bool" where
  [char_class]: "isalpha c \<longleftrightarrow> isupper c \<or> islower c"

definition isalnum :: "char \<Rightarrow> bool" where
  [char_class]: "isalnum c \<longleftrightarrow> isalpha c \<or> isdigit c"

definition isspace :: "char \<Rightarrow> bool" where
  [char_class]: "isspace c \<longleftrightarrow> byte c = 32 \<or> (9 \<le> byte c \<and> byte c \<le> 13)"

definition tolower :: "char \<Rightarrow> char" where
  "tolower c = (if isupper c then char_of (byte c + 32) else c)"

lemma byte_inject [simp]: "byte c = byte d \<longleftrightarrow> c = d"
  by (simp add: byte_def of_char_eq_iff)

lemma byte_lt [simp]: "byte c < 256"
  by (simp add: byte_def)

lemma schar_le_ascii:
  "byte c < 128 \<Longrightarrow> 0 \<le> schar c"
  by (simp add: schar_def)

section \<open>String functions of the C library\<close>

definition strcasecmp_eq :: "string \<Rightarrow> string \<Rightarrow> bool" where
  \<comment> \<open>\<open>strcasecmp(a, b) == 0\<close>\<close>
  "strcasecmp_eq a b \<longleftrightarrow> map tolower a = map tolower b"

fun strchr :: "string \<Rightarrow> char \<Rightarrow> nat option" where
  \<comment> \<open>offset of the first occurrence\<close>
  "strchr [] c = None"
| "strchr (x # xs) c = (if x = c then Some 0 else map_option Suc (strchr xs c))"

fun strrchr :: "string \<Rightarrow> char \<Rightarrow> nat option" where
  \<comment> \<open>offset of the last occurrence\<close>
  "strrchr [] c = None"
| "strrchr (x # xs) c =
     (case strrchr xs c of
        Some i \<Rightarrow> Some (Suc i)
      | None \<Rightarrow> (if x = c then Some 0 else None))"

fun strstr :: "string \<Rightarrow> string \<Rightarrow> bool" where
  \<comment> \<open>\<open>strstr(s, sub) != NULL\<close>\<close>
  "strstr [] sub \<longleftrightarrow> sub = []"
| "strstr (x # xs) sub \<longleftrightarrow> prefix sub (x # xs) \<or> strstr xs sub"

definition digit_val :: "char \<Rightarrow> int" where
  "digit_val c = int (byte c) - 48"

definition LONG_MAX :: int where "LONG_MAX = 9223372036854775807"
definition LONG_MIN :: int where "LONG_MIN = - 9223372036854775808"

definition strtol :: "string \<Rightarrow> int" where
  \<comment> \<open>\<open>strtol(s, NULL, 10)\<close>: white space, an optional sign, digits; saturates\<close>
  "strtol s =
     (let s1 = dropWhile isspace s;
          neg = (case s1 of [] \<Rightarrow> False | c # _ \<Rightarrow> c = CHR ''-'');
          s2 = (case s1 of [] \<Rightarrow> [] | c # cs \<Rightarrow> if c = CHR ''-'' \<or> c = CHR ''+'' then cs else s1);
          v = foldl (\<lambda>acc c. 10 * acc + digit_val c) 0 (takeWhile isdigit s2)
      in max LONG_MIN (min LONG_MAX (if neg then - v else v)))"

definition to_int32 :: "int \<Rightarrow> int" where
  \<comment> \<open>the cast \<open>(int)\<close> of a wider signed value: two's complement truncation\<close>
  "to_int32 x = (x + 2 ^ 31) mod 2 ^ 32 - 2 ^ 31"

lemma to_int32_bounds: "- (2 ^ 31) \<le> to_int32 x \<and> to_int32 x < 2 ^ 31"
proof -
  have "0 \<le> (x + 2 ^ 31) mod 2 ^ 32" and "(x + 2 ^ 31) mod 2 ^ 32 < (2 ^ 32 :: int)"
    by simp_all
  then show ?thesis unfolding to_int32_def by simp
qed

lemma to_int32_id: "- (2 ^ 31) \<le> x \<Longrightarrow> x < 2 ^ 31 \<Longrightarrow> to_int32 x = x"
  by (simp add: to_int32_def)

subsection \<open>Facts about the string functions\<close>

lemma strchr_None: "strchr s c = None \<longleftrightarrow> c \<notin> set s"
  by (induction s) auto

lemma strchr_SomeD:
  "strchr s c = Some i \<Longrightarrow> i < length s \<and> s ! i = c \<and> c \<notin> set (take i s)"
  by (induction s arbitrary: i) (auto split: if_splits)

lemma strchr_lt [dest]: "strchr s c = Some i \<Longrightarrow> i < length s"
  by (blast dest: strchr_SomeD)

lemma strrchr_None: "strrchr s c = None \<longleftrightarrow> c \<notin> set s"
  by (induction s) (auto split: option.splits)

lemma strrchr_SomeD:
  "strrchr s c = Some i \<Longrightarrow> i < length s \<and> s ! i = c \<and> c \<notin> set (drop (Suc i) s)"
  by (induction s arbitrary: i) (auto simp: strrchr_None split: if_splits option.splits)

lemma strrchr_lt [dest]: "strrchr s c = Some i \<Longrightarrow> i < length s"
  by (blast dest: strrchr_SomeD)

lemma strchr_decomp:
  "strchr s c = Some i \<Longrightarrow> s = take i s @ c # drop (i + 1) s \<and> c \<notin> set (take i s)"
  by (metis Suc_eq_plus1 id_take_nth_drop strchr_SomeD)

lemma strrchr_decomp:
  "strrchr s c = Some i \<Longrightarrow> s = take i s @ c # drop (i + 1) s \<and> c \<notin> set (drop (i + 1) s)"
  by (metis Suc_eq_plus1 id_take_nth_drop strrchr_SomeD)

lemma strchr_append_first: "c \<notin> set xs \<Longrightarrow> strchr (xs @ c # ys) c = Some (length xs)"
  by (induction xs) auto

lemma strrchr_append_last: "c \<notin> set ys \<Longrightarrow> strrchr (xs @ c # ys) c = Some (length xs)"
proof (induction xs)
  case Nil
  then have "strrchr ys c = None" by (simp add: strrchr_None)
  then show ?case by simp
qed simp

lemma strstr_sublist: "strstr s sub \<longleftrightarrow> sublist sub s"
  by (induction s) (auto simp: sublist_Cons_right)

lemma sublist_conv_nth:
  "sublist xs ys \<longleftrightarrow> (\<exists>i \<le> length ys. prefix xs (drop i ys))"
proof
  assume "sublist xs ys"
  then obtain ps ss where "ys = ps @ xs @ ss" by (auto simp: sublist_def)
  then have "length ps \<le> length ys" and "prefix xs (drop (length ps) ys)" by simp_all
  then show "\<exists>i \<le> length ys. prefix xs (drop i ys)" by blast
next
  assume "\<exists>i \<le> length ys. prefix xs (drop i ys)"
  then obtain i ss where "drop i ys = xs @ ss" by (auto elim: prefixE)
  then have "ys = take i ys @ xs @ ss" by (metis append_take_drop_id)
  then show "sublist xs ys" unfolding sublist_def by blast
qed

section \<open>Printed numbers\<close>

definition digit_char :: "nat \<Rightarrow> char" where
  "digit_char d = char_of (48 + d)"

fun dec :: "nat \<Rightarrow> string" where
  "dec n = (if n < 10 then [digit_char n] else dec (n div 10) @ [digit_char (n mod 10)])"

declare dec.simps [simp del]

lemma digit_char_byte: "d < 10 \<Longrightarrow> byte (digit_char d) = 48 + d"
  by (simp add: byte_def digit_char_def)

lemma digit_char_digit: "d < 10 \<Longrightarrow> isdigit (digit_char d)"
  by (simp add: isdigit_def digit_char_byte)

lemma dec_digits: "dec n \<noteq> [] \<and> list_all isdigit (dec n)"
proof (induction n rule: dec.induct)
  case (1 n)
  then show ?case by (subst (1 2) dec.simps) (auto simp: digit_char_digit)
qed

lemma dec_value: "foldl (\<lambda>acc c. 10 * acc + digit_val c) 0 (dec n) = int n"
proof (induction n rule: dec.induct)
  case (1 n)
  show ?case
  proof (cases "n < 10")
    case True
    then show ?thesis by (subst dec.simps) (simp add: digit_val_def digit_char_byte)
  next
    case False
    have "int n = 10 * int (n div 10) + int (n mod 10)" by (metis mult_div_mod_eq of_nat_add of_nat_mult of_nat_numeral)
    with 1 False show ?thesis by (subst dec.simps) (simp add: digit_val_def digit_char_byte)
  qed
qed

lemma dec_inject: "dec m = dec n \<longleftrightarrow> m = n"
  using dec_value by (metis of_nat_eq_iff)

lemma dec_length: "n < 10 ^ Suc k \<Longrightarrow> length (dec n) \<le> Suc k"
proof (induction k arbitrary: n)
  case 0
  then show ?case by (subst dec.simps) simp
next
  case (Suc k)
  then have "length (dec (n div 10)) \<le> Suc k" using Suc.IH [of "n div 10"] by simp
  then show ?case by (subst dec.simps) simp
qed

definition print_int :: "int \<Rightarrow> string" where
  \<comment> \<open>\<open>%lld\<close>\<close>
  "print_int i = (if i < 0 then CHR ''-'' # dec (nat (- i)) else dec (nat i))"

definition CBM_SZ_32 :: nat where "CBM_SZ_32 = 32"
definition CBM_SZ_64 :: nat where "CBM_SZ_64 = 64"
definition CBM_SZ_128 :: nat where "CBM_SZ_128 = 128"
definition CBM_SZ_256 :: nat where "CBM_SZ_256 = 256"
definition CBM_SZ_512 :: nat where "CBM_SZ_512 = 512"
definition CBM_SZ_1K :: nat where "CBM_SZ_1K = 1024"

definition snprintf_into :: "nat \<Rightarrow> string \<Rightarrow> string" where
  \<comment> \<open>the text that a buffer of the given size holds\<close>
  "snprintf_into n s = take (n - 1) s"

definition int64 :: "int \<Rightarrow> bool" where
  "int64 i \<longleftrightarrow> LONG_MIN \<le> i \<and> i \<le> LONG_MAX"

lemma dec_no_char: "\<not> isdigit c \<Longrightarrow> c \<notin> set (dec n)"
  using dec_digits [of n] by (auto simp: list_all_iff)

lemma print_int_no_colon: "CHR '':'' \<notin> set (print_int i)"
  using dec_no_char [of "CHR '':''"] by (auto simp: print_int_def isdigit_def byte_def)

lemma print_int_inject: "print_int i = print_int j \<longleftrightarrow> i = j"
proof -
  have "CHR ''-'' \<notin> set (dec n)" for n by (rule dec_no_char) (simp add: isdigit_def byte_def)
  then have "dec n \<noteq> CHR ''-'' # w" for n w by (metis list.set_intros(1))
  then show ?thesis by (auto simp: print_int_def dec_inject dest: sym)
qed

lemma print_int_length: "int64 i \<Longrightarrow> length (print_int i) \<le> 20"
  using dec_length [of "nat (- i)" 18] dec_length [of "nat i" 18]
  by (auto simp: print_int_def int64_def LONG_MAX_def LONG_MIN_def nat_less_iff)

section \<open>Generic lemmas\<close>

lemma option_extI: "(\<And>v. x = Some v \<longleftrightarrow> y = Some v) \<Longrightarrow> x = y"
  by (cases x; cases y) auto

lemma takeWhile_neq_Nil_iff:
  "takeWhile P xs \<noteq> [] \<longleftrightarrow> xs \<noteq> [] \<and> P (hd xs)"
  by (cases xs) auto

lemma length_dropWhile_lt:
  "xs \<noteq> [] \<Longrightarrow> P (hd xs) \<Longrightarrow> length (dropWhile P xs) < length xs"
  by (cases xs) (auto simp: length_dropWhile_le le_imp_less_Suc)

lemma ex_split_Cons:
  "(\<exists>u v. c # s = u @ v \<and> P u v) \<longleftrightarrow> P [] (c # s) \<or> (\<exists>u v. s = u @ v \<and> P (c # u) v)"
  by (metis append_Cons append_Nil append_eq_Cons_conv)

lemma ex_split_Cons_mid:
  "(\<exists>u v. c # s = u @ d # v \<and> P u v) \<longleftrightarrow>
     (c = d \<and> P [] s) \<or> (\<exists>u v. s = u @ d # v \<and> P (c # u) v)"
proof
  assume "\<exists>u v. c # s = u @ d # v \<and> P u v"
  then obtain u v where "c # s = u @ d # v" "P u v" by blast
  then show "(c = d \<and> P [] s) \<or> (\<exists>u v. s = u @ d # v \<and> P (c # u) v)" by (cases u) auto
next
  assume "(c = d \<and> P [] s) \<or> (\<exists>u v. s = u @ d # v \<and> P (c # u) v)"
  then show "\<exists>u v. c # s = u @ d # v \<and> P u v" by (metis append_Cons append_Nil)
qed

lemma hd_butlast: "butlast xs \<noteq> [] \<Longrightarrow> hd (butlast xs) = hd xs"
  by (cases xs) auto

lemma rev_dropWhile_decomp:
  "xs = rev (dropWhile P (rev xs)) @ rev (takeWhile P (rev xs))"
  by (metis rev_append rev_rev_ident takeWhile_dropWhile_id)

lemma set_rev_dropWhile:
  "set (rev (dropWhile P (rev xs))) \<subseteq> set xs"
  by (metis set_dropWhileD set_rev subsetI)

lemma split_at_char:
  assumes "xs @ c # ys = xs' @ c # ys'" and "c \<notin> set xs" "c \<notin> set xs'"
  shows "xs = xs' \<and> ys = ys'"
  using assms by (induction xs arbitrary: xs') (case_tac xs'; auto)+

end
