(* ===== verification/Arena.thy ===== *)
theory Arena
  imports Prelude
begin

unbundle bit_operations_syntax

text \<open>
  The bump allocator of \<open>foundation/arena.c\<close>: its state, every operation, the invariant
  they keep, and the contract its clients rely on (locale \<open>string_store\<close>).

  A block is named by its index in \<open>blocks[]\<close>, a pointer is a block index and an offset,
  and \<open>mem\<close> holds the bytes of the blocks. \<open>size_t\<close> is a 64-bit word, so every sum below
  wraps as the C one does. The outcome of a \<open>malloc\<close> is an argument of the operation that
  makes the call: \<open>ok\<close> is the system's decision, and a request above \<open>PTRDIFF_MAX\<close> always
  fails, as the C library documents.
\<close>

section \<open>State\<close>

type_synonym ptr = "nat \<times> nat"

record CBMArena =
  nblocks :: nat
  block_sizes :: "size_t list"
  block_size :: size_t
  used :: size_t
  total_alloc :: size_t
  mem :: "nat \<Rightarrow> nat \<Rightarrow> char"

definition CBM_ARENA_MAX_BLOCKS :: nat where "CBM_ARENA_MAX_BLOCKS = 256"
definition CBM_ARENA_DEFAULT_BLOCK_SIZE :: size_t where "CBM_ARENA_DEFAULT_BLOCK_SIZE = 64 * 1024"
definition PTRDIFF_MAX :: nat where "PTRDIFF_MAX = 2 ^ 63 - 1"

definition malloc_ok :: "bool \<Rightarrow> size_t \<Rightarrow> bool" where
  "malloc_ok ok n \<longleftrightarrow> ok \<and> unat n \<le> PTRDIFF_MAX"

definition zero_arena :: "(nat \<Rightarrow> nat \<Rightarrow> char) \<Rightarrow> CBMArena" where
  "zero_arena m = \<lparr>nblocks = 0, block_sizes = [], block_size = 0, used = 0, total_alloc = 0, mem = m\<rparr>"

section \<open>Operations\<close>

definition cbm_arena_init_sized :: "bool \<Rightarrow> (nat \<Rightarrow> nat \<Rightarrow> char) \<Rightarrow> size_t \<Rightarrow> CBMArena" where
  "cbm_arena_init_sized ok m bs =
     (let a = zero_arena m;
          bs = (if bs < 64 then 64 else bs);
          a = a\<lparr>block_size := bs\<rparr>
      in if malloc_ok ok bs then a\<lparr>block_sizes := [bs], nblocks := 1\<rparr> else a)"

definition cbm_arena_init :: "bool \<Rightarrow> (nat \<Rightarrow> nat \<Rightarrow> char) \<Rightarrow> CBMArena" where
  "cbm_arena_init ok m = cbm_arena_init_sized ok m CBM_ARENA_DEFAULT_BLOCK_SIZE"

definition arena_grow :: "bool \<Rightarrow> CBMArena \<Rightarrow> size_t \<Rightarrow> CBMArena option" where
  \<comment> \<open>\<open>None\<close> is the return value 0: the arena is unchanged\<close>
  "arena_grow ok a min_size =
     (if nblocks a \<ge> CBM_ARENA_MAX_BLOCKS then None
      else let new_size = block_size a * 2;
               new_size = (if new_size < min_size then min_size else new_size)
           in if \<not> malloc_ok ok new_size then None
              else Some (a\<lparr>block_sizes := block_sizes a @ [new_size],
                           nblocks := nblocks a + 1,
                           block_size := new_size,
                           used := 0\<rparr>))"

definition arena_bump :: "CBMArena \<Rightarrow> size_t \<Rightarrow> ptr option \<times> CBMArena" where
  "arena_bump a n =
     (Some (nblocks a - 1, unat (used a)),
      a\<lparr>used := used a + n, total_alloc := total_alloc a + n\<rparr>)"

definition align8 :: "size_t \<Rightarrow> size_t" where
  "align8 n = (n + 7) AND NOT 7"

definition cbm_arena_alloc :: "bool \<Rightarrow> CBMArena \<Rightarrow> size_t \<Rightarrow> ptr option \<times> CBMArena" where
  "cbm_arena_alloc ok a n =
     (if n = 0 then (None, a)
      else let n = align8 n
           in if nblocks a = 0 then (None, a)
              else if used a + n > block_size a
                   then (case arena_grow ok a n of
                           None \<Rightarrow> (None, a)
                         | Some a' \<Rightarrow> arena_bump a' n)
                   else arena_bump a n)"

definition mem_write :: "CBMArena \<Rightarrow> ptr \<Rightarrow> char list \<Rightarrow> CBMArena" where
  "mem_write a p s =
     a\<lparr>mem := (mem a)(fst p := (\<lambda>i. if snd p \<le> i \<and> i < snd p + length s
                                      then s ! (i - snd p) else mem a (fst p) i))\<rparr>"

definition arena_str :: "CBMArena \<Rightarrow> ptr \<Rightarrow> nat \<Rightarrow> char list" where
  \<comment> \<open>the \<open>n\<close> bytes stored at a pointer\<close>
  "arena_str a p n = map (\<lambda>i. mem a (fst p) (snd p + i)) [0..<n]"

definition cbm_arena_calloc :: "bool \<Rightarrow> CBMArena \<Rightarrow> size_t \<Rightarrow> ptr option \<times> CBMArena" where
  "cbm_arena_calloc ok a n =
     (case cbm_arena_alloc ok a n of
        (None, a') \<Rightarrow> (None, a')
      | (Some p, a') \<Rightarrow> (Some p, mem_write a' p (replicate (unat n) NUL)))"

definition cbm_arena_strndup :: "bool \<Rightarrow> CBMArena \<Rightarrow> cstr \<Rightarrow> size_t \<Rightarrow> ptr option \<times> CBMArena" where
  "cbm_arena_strndup ok a s len =
     (case s of
        None \<Rightarrow> (None, a)
      | Some s \<Rightarrow>
          (case cbm_arena_alloc ok a (len + 1) of
             (None, a') \<Rightarrow> (None, a')
           | (Some dst, a') \<Rightarrow> (Some dst, mem_write a' dst (take (unat len) s @ [NUL]))))"

definition cbm_arena_strdup :: "bool \<Rightarrow> CBMArena \<Rightarrow> cstr \<Rightarrow> ptr option \<times> CBMArena" where
  "cbm_arena_strdup ok a s =
     (case s of
        None \<Rightarrow> (None, a)
      | Some s \<Rightarrow>
          (let len = of_nat (length s) in
           case cbm_arena_alloc ok a (len + 1) of
             (None, a') \<Rightarrow> (None, a')
           | (Some dst, a') \<Rightarrow> (Some dst, mem_write a' dst (s @ [NUL]))))"

definition cbm_arena_sprintf :: "bool \<Rightarrow> CBMArena \<Rightarrow> cstr \<Rightarrow> ptr option \<times> CBMArena" where
  \<comment> \<open>the argument is what \<open>vsnprintf\<close> makes of the format: \<open>None\<close> for a negative result\<close>
  "cbm_arena_sprintf ok a formatted =
     (case formatted of
        None \<Rightarrow> (None, a)
      | Some text \<Rightarrow>
          (case cbm_arena_alloc ok a (of_nat (length text) + 1) of
             (None, a') \<Rightarrow> (None, a')
           | (Some dst, a') \<Rightarrow> (Some dst, mem_write a' dst (text @ [NUL]))))"

definition cbm_arena_reset :: "CBMArena \<Rightarrow> CBMArena" where
  "cbm_arena_reset a =
     (let a = a\<lparr>block_sizes := take 1 (block_sizes a),
                nblocks := (if nblocks a > 1 then 1 else nblocks a),
                used := 0, total_alloc := 0\<rparr>
      in if nblocks a = 1 then a\<lparr>block_size := block_sizes a ! 0\<rparr> else a)"

definition cbm_arena_destroy :: "CBMArena \<Rightarrow> CBMArena" where
  "cbm_arena_destroy a = zero_arena (mem a)"

definition cbm_arena_total :: "CBMArena \<Rightarrow> size_t" where
  "cbm_arena_total a = total_alloc a"

section \<open>Invariant\<close>

definition arena_inv :: "CBMArena \<Rightarrow> bool" where
  "arena_inv a \<longleftrightarrow>
     length (block_sizes a) = nblocks a \<and> nblocks a \<le> CBM_ARENA_MAX_BLOCKS \<and>
     (\<forall>s \<in> set (block_sizes a). unat s \<le> PTRDIFF_MAX) \<and>
     (nblocks a > 0 \<longrightarrow> last (block_sizes a) = block_size a \<and> used a \<le> block_size a) \<and>
     8 dvd unat (used a)"

text \<open>
  A region (block, offset, length) is allocated when it lies inside its block and, in the
  block being filled, below the bump pointer.
\<close>

definition allocated :: "CBMArena \<Rightarrow> nat \<Rightarrow> nat \<Rightarrow> nat \<Rightarrow> bool" where
  "allocated a b off len \<longleftrightarrow>
     b < nblocks a \<and> off + len \<le> unat (block_sizes a ! b) \<and>
     (Suc b = nblocks a \<longrightarrow> off + len \<le> unat (used a))"

definition disjoint_regions :: "nat \<times> nat \<times> nat \<Rightarrow> nat \<times> nat \<times> nat \<Rightarrow> bool" where
  "disjoint_regions r1 r2 =
     (case (r1, r2) of ((b1, o1, l1), (b2, o2, l2)) \<Rightarrow>
        b1 \<noteq> b2 \<or> o1 + l1 \<le> o2 \<or> o2 + l2 \<le> o1)"

subsection \<open>Alignment arithmetic\<close>

lemma unat_and_not_7: "unat (w AND NOT (7 :: size_t)) = unat w div 8 * 8"
proof -
  have lt: "unat w < 2 ^ 64" using unsigned_less [of w] by simp
  have "w AND NOT (7 :: size_t) = push_bit 3 (drop_bit 3 w)"
  proof (rule bit_word_eqI)
    fix n assume "n < LENGTH(64)"
    then have "bit (7 :: size_t) n \<longleftrightarrow> n < 3"
      using bit_mask_iff [where 'a = size_t and m = 3 and n = n]
      by (simp add: mask_eq_exp_minus_1)
    with \<open>n < LENGTH(64)\<close> show "bit (w AND NOT (7 :: size_t)) n = bit (push_bit 3 (drop_bit 3 w)) n"
      by (auto simp: bit_simps)
  qed
  then have "unat (w AND NOT (7 :: size_t)) = take_bit 64 (push_bit 3 (drop_bit 3 (unat w)))"
    using lt by (simp add: unsigned_push_bit_eq unsigned_drop_bit_eq take_bit_nat_eq_self)
  also have "\<dots> = unat w div 8 * 8"
  proof -
    have "unat w div 8 * 8 \<le> unat w" by simp
    with lt show ?thesis
      by (simp add: push_bit_eq_mult drop_bit_eq_div take_bit_nat_eq_self)
  qed
  finally show ?thesis .
qed

lemma unat_align8:
  "unat n + 8 \<le> 2 ^ 64 \<Longrightarrow> unat (align8 n) = (unat n + 7) div 8 * 8"
  unfolding align8_def unat_and_not_7 by (simp add: unat_word_ariths)

lemma align8_wraps: "2 ^ 64 < unat n + 8 \<Longrightarrow> align8 n = 0"
proof -
  assume n: "2 ^ 64 < unat n + 8"
  have "unat n < 2 ^ 64" using unsigned_less [of n] by simp
  with n have "(unat n + 7) mod 2 ^ 64 < 8" by (simp add: mod_if) linarith
  then have "unat (align8 n) = 0"
    unfolding align8_def unat_and_not_7 by (simp add: unat_word_ariths)
  then show ?thesis by (simp add: unat_eq_0)
qed

lemma align8_bounds:
  assumes "unat n \<le> 2 ^ 63"
  shows "unat n \<le> unat (align8 n)" and "unat (align8 n) \<le> 2 ^ 63" and "8 dvd unat (align8 n)"
proof -
  have eq: "unat (align8 n) = (unat n + 7) div 8 * 8"
    using assms by (intro unat_align8) simp
  show "unat n \<le> unat (align8 n)" unfolding eq by presburger
  show "8 dvd unat (align8 n)" unfolding eq by simp
  show "unat (align8 n) \<le> 2 ^ 63" unfolding eq using assms by simp
qed

subsection \<open>Every operation keeps the invariant\<close>

lemma arena_inv_init_sized: "arena_inv (cbm_arena_init_sized ok m bs)"
  by (auto simp: arena_inv_def cbm_arena_init_sized_def zero_arena_def malloc_ok_def Let_def
      CBM_ARENA_MAX_BLOCKS_def)

lemma arena_inv_reset: "arena_inv a \<Longrightarrow> arena_inv (cbm_arena_reset a)"
  by (cases "block_sizes a")
    (auto simp: arena_inv_def cbm_arena_reset_def Let_def CBM_ARENA_MAX_BLOCKS_def)

lemma arena_inv_destroy: "arena_inv (cbm_arena_destroy a)"
  by (simp add: arena_inv_def cbm_arena_destroy_def zero_arena_def)

lemma arena_inv_mem_write [simp]: "arena_inv (mem_write a p s) = arena_inv a"
  by (simp add: arena_inv_def mem_write_def)

lemma arena_inv_used_plus:
  assumes "arena_inv a" "0 < nblocks a" "unat n \<le> 2 ^ 63"
  shows "unat (used a + n) = unat (used a) + unat n"
proof -
  from assms have "block_size a \<in> set (block_sizes a)" and "used a \<le> block_size a"
    by (auto simp: arena_inv_def) (metis last_in_set length_greater_0_conv)
  with assms(1) have "unat (used a) \<le> PTRDIFF_MAX"
    by (auto simp: arena_inv_def word_le_nat_alt)
  with assms(3) show ?thesis
    by (simp add: unat_word_ariths PTRDIFF_MAX_def)
qed

lemma arena_growD:
  assumes "arena_inv a" "0 < nblocks a" "arena_grow ok a n = Some a'"
  shows "arena_inv a'" "nblocks a' = Suc (nblocks a)" "used a' = 0"
    "block_sizes a' = block_sizes a @ [block_size a']" "n \<le> block_size a'"
    "mem a' = mem a" "total_alloc a' = total_alloc a"
  using assms
  by (auto simp: arena_grow_def arena_inv_def malloc_ok_def Let_def CBM_ARENA_MAX_BLOCKS_def
      split: if_splits)

lemma arena_bump_inv:
  assumes "arena_inv a" "0 < nblocks a" "unat n \<le> 2 ^ 63" "8 dvd unat n"
    and "used a + n \<le> block_size a" "arena_bump a n = (r, a')"
  shows "arena_inv a' \<and> nblocks a' = nblocks a \<and> block_sizes a' = block_sizes a \<and>
     unat (used a') = unat (used a) + unat n \<and> mem a' = mem a \<and>
     r = Some (nblocks a - 1, unat (used a))"
  using assms arena_inv_used_plus [OF assms(1,2,3)]
  by (auto simp: arena_bump_def arena_inv_def)

subsection \<open>What an allocation returns\<close>

lemma arena_alloc_Some:
  assumes inv: "arena_inv a" and n: "unat n \<le> 2 ^ 63"
    and ret: "cbm_arena_alloc ok a n = (Some p, a')"
  obtains a1 where "arena_inv a1" "0 < nblocks a1" "align8 n \<noteq> 0"
    "used a1 + align8 n \<le> block_size a1" "(Some p, a') = arena_bump a1 (align8 n)"
    "mem a1 = mem a"
    "a1 = a \<or> (used a1 = 0 \<and> nblocks a1 = Suc (nblocks a) \<and>
               block_sizes a1 = block_sizes a @ [block_size a1])"
proof -
  from ret have nz: "n \<noteq> 0" and nb: "0 < nblocks a"
    by (auto simp: cbm_arena_alloc_def Let_def split: if_splits)
  have al: "align8 n \<noteq> 0"
    using align8_bounds(1) [OF n] nz by (metis unat_eq_0 le_zero_eq)
  show thesis
  proof (cases "used a + align8 n > block_size a")
    case True
    with ret nz nb obtain a1 where g: "arena_grow ok a (align8 n) = Some a1"
      and b: "(Some p, a') = arena_bump a1 (align8 n)"
      by (auto simp: cbm_arena_alloc_def Let_def split: option.splits)
    note gd = arena_growD [OF inv nb g]
    show thesis by (rule that [of a1]) (use gd b al in auto)
  next
    case False
    with ret nz nb have b: "(Some p, a') = arena_bump a (align8 n)"
      by (auto simp: cbm_arena_alloc_def Let_def)
    show thesis by (rule that [of a]) (use False inv nb b al in auto)
  qed
qed

lemma arena_alloc_fail: "cbm_arena_alloc ok a n = (None, a') \<Longrightarrow> a' = a"
  by (auto simp: cbm_arena_alloc_def arena_bump_def Let_def split: if_splits option.splits)

lemma arena_alloc_spec:
  assumes inv: "arena_inv a" and n: "unat n \<le> 2 ^ 63"
    and ret: "cbm_arena_alloc ok a n = (Some (b, off), a')"
  shows "arena_inv a' \<and> mem a' = mem a \<and> 8 dvd off \<and> allocated a' b off (unat n) \<and>
    (\<forall>b' o' l'. allocated a b' o' l' \<longrightarrow>
       allocated a' b' o' l' \<and> disjoint_regions (b', o', l') (b, off, unat n))"
proof -
  from inv n ret obtain a1 where a1: "arena_inv a1" "0 < nblocks a1"
      "used a1 + align8 n \<le> block_size a1" "(Some (b, off), a') = arena_bump a1 (align8 n)"
      "mem a1 = mem a"
    and old: "a1 = a \<or> (used a1 = 0 \<and> nblocks a1 = Suc (nblocks a) \<and>
               block_sizes a1 = block_sizes a @ [block_size a1])"
    by (rule arena_alloc_Some)
  note al = align8_bounds [OF n]
  from arena_bump_inv [OF a1(1,2) al(2,3) a1(3) a1(4) [symmetric]]
  have bump: "arena_inv a'" "nblocks a' = nblocks a1" "block_sizes a' = block_sizes a1"
      "unat (used a') = unat (used a1) + unat (align8 n)" "mem a' = mem a1"
      "b = nblocks a1 - 1" "off = unat (used a1)"
    by auto
  have last: "block_sizes a1 ! b = block_size a1"
    using a1(1,2) bump(6) by (metis arena_inv_def last_conv_nth length_greater_0_conv)
  have fits: "unat (used a1) + unat (align8 n) \<le> unat (block_size a1)"
    using a1(3) arena_inv_used_plus [OF a1(1,2) al(2)] by (simp add: word_le_nat_alt)
  have "allocated a' b off (unat n)"
    using a1(2) bump al(1) fits last by (simp add: allocated_def)
  moreover have "allocated a' b' o' l' \<and> disjoint_regions (b', o', l') (b, off, unat n)"
    if "allocated a b' o' l'" for b' o' l'
  proof -
    have len: "length (block_sizes a) = nblocks a" using inv by (simp add: arena_inv_def)
    from old show ?thesis
      using that bump a1(2) len
      by (auto simp: allocated_def disjoint_regions_def nth_append)
  qed
  moreover have "8 dvd off" using a1(1) bump(7) by (simp add: arena_inv_def)
  ultimately show ?thesis using bump(1,5) a1(5) by simp
qed

subsection \<open>Sequences of allocations\<close>

fun arena_allocs :: "CBMArena \<Rightarrow> (bool \<times> size_t) list \<Rightarrow> (nat \<times> nat \<times> nat) list \<times> CBMArena" where
  \<comment> \<open>serve the requests in order and collect the regions handed out\<close>
  "arena_allocs a [] = ([], a)"
| "arena_allocs a ((ok, n) # rs) =
     (case cbm_arena_alloc ok a n of
        (None, a1) \<Rightarrow> arena_allocs a1 rs
      | (Some (b, off), a1) \<Rightarrow>
          (case arena_allocs a1 rs of (regs, a2) \<Rightarrow> ((b, off, unat n) # regs, a2)))"

lemma arena_allocs_general:
  assumes "arena_inv a" "\<forall>(ok, n) \<in> set rs. unat n \<le> 2 ^ 63" "arena_allocs a rs = (regs, a')"
  shows "arena_inv a' \<and> sorted_wrt disjoint_regions regs \<and>
    (\<forall>(b, off, l) \<in> set regs. allocated a' b off l \<and> 8 dvd off) \<and>
    (\<forall>b off l. allocated a b off l \<longrightarrow>
       allocated a' b off l \<and> (\<forall>r \<in> set regs. disjoint_regions (b, off, l) r))"
  using assms
proof (induction a rs arbitrary: regs rule: arena_allocs.induct)
  case (1 a)
  then show ?case by simp
next
  case (2 a ok n rs)
  have n: "unat n \<le> 2 ^ 63" and rs: "\<forall>(ok, n) \<in> set rs. unat n \<le> 2 ^ 63"
    using "2.prems"(2) by auto
  obtain r a1 where ret: "cbm_arena_alloc ok a n = (r, a1)" by fastforce
  show ?case
  proof (cases r)
    case None
    with ret have "a1 = a" by (simp add: arena_alloc_fail)
    with "2.prems" None ret rs show ?thesis
      using "2.IH"(1) [OF ret [symmetric] None _ rs] by simp
  next
    case (Some p)
    obtain b off where p: "p = (b, off)" by fastforce
    note ret' = ret [unfolded Some p]
    note sp = arena_alloc_spec [OF "2.prems"(1) n ret']
    obtain regs' a2 where rest: "arena_allocs a1 rs = (regs', a2)" by fastforce
    with "2.prems"(3) ret' have eqs: "regs = (b, off, unat n) # regs'" "a' = a2" by auto
    have IH: "arena_inv a' \<and> sorted_wrt disjoint_regions regs' \<and>
      (\<forall>(b, off, l) \<in> set regs'. allocated a' b off l \<and> 8 dvd off) \<and>
      (\<forall>b off l. allocated a1 b off l \<longrightarrow>
         allocated a' b off l \<and> (\<forall>r \<in> set regs'. disjoint_regions (b, off, l) r))"
      using "2.IH"(2) [OF ret' [symmetric] refl refl _ rs] sp rest eqs by simp
    with sp show ?thesis unfolding eqs(1) by auto
  qed
qed

section \<open>The contract of a string store\<close>

text \<open>
  What a client that keeps strings in the arena relies on: a stored string reads back, it
  keeps reading back whatever is stored later, and its address is not that of another
  stored string.
\<close>

locale string_store =
  fixes inv :: "'s \<Rightarrow> bool"
    and dup :: "bool \<Rightarrow> 's \<Rightarrow> string \<Rightarrow> 'p option \<times> 's"
    and content :: "'s \<Rightarrow> 'p \<Rightarrow> nat \<Rightarrow> string"
    and live :: "'s \<Rightarrow> 'p \<Rightarrow> nat \<Rightarrow> bool"
  assumes dup_inv: "inv s \<Longrightarrow> length x < 2 ^ 63 \<Longrightarrow> dup ok s x = (Some p, s') \<Longrightarrow> inv s'"
    and dup_content: "inv s \<Longrightarrow> length x < 2 ^ 63 \<Longrightarrow> dup ok s x = (Some p, s') \<Longrightarrow>
      live s' p (length x) \<and> content s' p (length x) = x"
    and dup_keeps: "inv s \<Longrightarrow> length x < 2 ^ 63 \<Longrightarrow> dup ok s x = (Some p, s') \<Longrightarrow> live s q m \<Longrightarrow>
      live s' q m \<and> content s' q m = content s q m \<and> q \<noteq> p"
    and dup_fail: "dup ok s x = (None, s') \<Longrightarrow> s' = s"
begin

definition stored :: "'s \<Rightarrow> 'p \<Rightarrow> string \<Rightarrow> bool" where
  "stored s p x \<longleftrightarrow> live s p (length x) \<and> content s p (length x) = x"

lemma stored_dup:
  assumes "inv s" "length x < 2 ^ 63" "dup ok s x = (Some p, s')"
  shows "stored s' p x" and "stored s q y \<Longrightarrow> stored s' q y \<and> q \<noteq> p"
  using dup_content [OF assms] dup_keeps [OF assms] by (auto simp: stored_def)

lemma stored_dup_cases:
  assumes "inv s" "length x < 2 ^ 63" "dup ok s x = (r, s')" "stored s q y"
  shows "stored s' q y"
  using assms stored_dup(2) dup_fail by (cases r) blast+

lemma inv_dup_cases:
  assumes "inv s" "length x < 2 ^ 63" "dup ok s x = (r, s')"
  shows "inv s'"
  using assms dup_inv dup_fail by (cases r) blast+

end

subsection \<open>The arena is a string store\<close>

definition arena_dup :: "bool \<Rightarrow> CBMArena \<Rightarrow> string \<Rightarrow> ptr option \<times> CBMArena" where
  "arena_dup ok a x = cbm_arena_strndup ok a (Some x) (of_nat (length x))"

definition arena_live :: "CBMArena \<Rightarrow> ptr \<Rightarrow> nat \<Rightarrow> bool" where
  "arena_live a p n \<longleftrightarrow> allocated a (fst p) (snd p) (Suc n)"

lemma allocated_mem_write [simp]: "allocated (mem_write a p s) b off l = allocated a b off l"
  by (simp add: allocated_def mem_write_def)

lemma arena_str_write_same:
  "arena_str (mem_write a p (s @ t)) p (length s) = s"
  by (rule nth_equalityI) (auto simp: arena_str_def mem_write_def nth_append)

lemma arena_str_write_other:
  assumes "disjoint_regions (fst q, snd q, m) (fst p, snd p, length s)"
  shows "arena_str (mem_write a p s) q m = arena_str a q m"
  using assms by (auto simp: arena_str_def mem_write_def disjoint_regions_def)

lemma arena_str_mem_cong: "mem a' = mem a \<Longrightarrow> arena_str a' p n = arena_str a p n"
  by (simp add: arena_str_def)

lemma unat_of_nat_len: "n < 2 ^ 63 \<Longrightarrow> unat (of_nat n :: size_t) = n"
  by (simp add: unat_of_nat take_bit_nat_eq_self)

lemma unat_of_nat_Suc: "n < 2 ^ 63 \<Longrightarrow> unat (of_nat n + 1 :: size_t) = Suc n"
  by (simp add: unat_word_ariths unat_of_nat_len)

lemma arena_dup_SomeD:
  assumes "arena_inv a" "length x < 2 ^ 63" "arena_dup ok a x = (Some p, a')"
  obtains a1 where "cbm_arena_alloc ok a (of_nat (length x) + 1) = (Some p, a1)"
    "a' = mem_write a1 p (x @ [NUL])"
  using assms
  by (auto simp: arena_dup_def cbm_arena_strndup_def unat_of_nat_len
      split: prod.splits option.splits)

lemma arena_dup_spec:
  assumes "arena_inv a" "length x < 2 ^ 63" "arena_dup ok a x = (Some p, a')"
  shows "arena_inv a'" "arena_live a' p (length x)" "arena_str a' p (length x) = x"
    "arena_live a q m \<Longrightarrow> arena_live a' q m \<and> arena_str a' q m = arena_str a q m \<and> q \<noteq> p"
proof -
  from assms obtain a1 where al: "cbm_arena_alloc ok a (of_nat (length x) + 1) = (Some p, a1)"
    and a': "a' = mem_write a1 p (x @ [NUL])" by (rule arena_dup_SomeD)
  obtain b off where p: "p = (b, off)" by fastforce
  have len: "unat (of_nat (length x) + 1 :: size_t) = Suc (length x)"
    using assms(2) by (rule unat_of_nat_Suc)
  with assms(2) have le: "unat (of_nat (length x) + 1 :: size_t) \<le> 2 ^ 63" by simp
  note sp = arena_alloc_spec [OF assms(1) le al [unfolded p], unfolded len]
  from sp a' show "arena_inv a'" by simp
  from sp a' p show "arena_live a' p (length x)" by (simp add: arena_live_def)
  from a' show "arena_str a' p (length x) = x" by (simp add: arena_str_write_same)
  assume q: "arena_live a q m"
  with sp p have dis: "disjoint_regions (fst q, snd q, Suc m) (fst p, snd p, Suc (length x))"
    and "arena_live a1 q m"
    by (auto simp: arena_live_def)
  then have "arena_str a' q m = arena_str a1 q m"
    unfolding a' by (intro arena_str_write_other) (auto simp: disjoint_regions_def)
  moreover have "q \<noteq> p" using dis by (cases q; cases p) (auto simp: disjoint_regions_def)
  moreover have "arena_live a' q m" using \<open>arena_live a1 q m\<close> a' by (simp add: arena_live_def)
  moreover have "arena_str a1 q m = arena_str a q m" using sp by (intro arena_str_mem_cong) simp
  ultimately show "arena_live a' q m \<and> arena_str a' q m = arena_str a q m \<and> q \<noteq> p" by simp
qed

lemma arena_dup_fail: "arena_dup ok a x = (None, a') \<Longrightarrow> a' = a"
  by (auto simp: arena_dup_def cbm_arena_strndup_def dest: arena_alloc_fail
      split: prod.splits option.splits)

interpretation ar: string_store arena_inv arena_dup arena_str arena_live
  by unfold_locales
    (simp_all only: arena_dup_spec arena_dup_fail not_False_eq_True conj_absorb simp_thms)

subsection \<open>When an allocation succeeds\<close>

text \<open>
  The blocks double, so that the \<open>T\<close> bytes handed out so far bound the size of a block, and the
  size of a block bounds the number of blocks: neither the limit on the blocks nor the largest size
  \<open>malloc\<close> takes is reached by strings shorter than \<open>2 ^ 32\<close> that sum up to \<open>2 ^ 59\<close> bytes.
\<close>

definition arena_room :: "nat \<Rightarrow> CBMArena \<Rightarrow> bool" where
  "arena_room T a \<longleftrightarrow> 0 < nblocks a \<and> unat (used a) \<le> T \<and> unat (block_size a) \<le> 2 ^ 35 + 2 * T \<and>
     2 ^ (nblocks a + 15) \<le> unat (block_size a)"

lemma arena_grow_room:
  assumes room: "arena_room T a" and T: "T \<le> 2 ^ 59" and n: "unat n \<le> 2 ^ 32 + 8"
    and full: "unat (block_size a) < T + unat n"
  shows "case arena_grow ok a n of None \<Rightarrow> \<not> ok
    | Some a1 \<Rightarrow> 0 < nblocks a1 \<and> used a1 = 0 \<and> unat (block_size a1) \<le> 2 ^ 35 + 2 * (T + 2 ^ 33) \<and>
        2 ^ (nblocks a1 + 15) \<le> unat (block_size a1)"
proof -
  let ?B = "unat (block_size a)"
  have B: "?B < 2 ^ 60" using full T n by simp
  have twice: "unat (block_size a * 2) = 2 * ?B" using B by (simp add: unat_word_ariths)
  have "(2 :: nat) ^ (nblocks a + 15) < 2 ^ 60" using room B unfolding arena_room_def by linarith
  then have "nblocks a < 45" by (simp only: power_strict_increasing_iff)
  moreover define new where "new = (if block_size a * 2 < n then n else block_size a * 2)"
  have "2 * ?B \<le> unat new" "unat new \<le> 2 * (T + 2 ^ 33)"
    using twice full n by (auto simp: new_def word_less_nat_alt)
  moreover from this T have "unat new \<le> PTRDIFF_MAX" by (simp add: PTRDIFF_MAX_def)
  moreover have "(2 :: nat) ^ (16 + nblocks a) = 2 * 2 ^ (nblocks a + 15)" by (simp add: power_add)
  then have "2 ^ (16 + nblocks a) \<le> unat new" using calculation(2) room unfolding arena_room_def by linarith
  ultimately show ?thesis
    using room by (auto simp: arena_grow_def Let_def malloc_ok_def CBM_ARENA_MAX_BLOCKS_def arena_room_def
        new_def [symmetric])
qed

lemma arena_alloc_room:
  assumes room: "arena_room T a" and T: "T \<le> 2 ^ 59" and n: "n \<noteq> 0" "unat n \<le> 2 ^ 32"
    and al: "cbm_arena_alloc ok a n = (r, a')"
  shows "arena_room (T + 2 ^ 33) a' \<and> (ok \<longrightarrow> r \<noteq> None)"
proof -
  define m where "m = align8 n"
  have "unat m = (unat n + 7) div 8 * 8" unfolding m_def using n(2) by (intro unat_align8) simp
  then have m: "unat m \<le> 2 ^ 32 + 8" using n(2) by linarith
  have u: "unat (used a) \<le> T" and nb: "0 < nblocks a" using room by (simp_all add: arena_room_def)
  then have sum: "unat (used a + m) = unat (used a) + unat m" using m T by (simp add: unat_word_ariths)
  show ?thesis
  proof (cases "block_size a < used a + m")
    case True
    then have "unat (block_size a) < T + unat m" using sum u by (simp add: word_less_nat_alt)
    note g = arena_grow_room [OF room T m this, of ok]
    show ?thesis
      using al g True nb n(1) m
      by (auto simp: cbm_arena_alloc_def Let_def m_def [symmetric] arena_bump_def arena_room_def
          split: option.splits) (use room in \<open>auto simp: arena_room_def\<close>)
  next
    case False
    then have "r = Some (nblocks a - 1, unat (used a))" "nblocks a' = nblocks a" "block_size a' = block_size a"
      "used a' = used a + m"
      using al nb n(1) by (auto simp: cbm_arena_alloc_def Let_def m_def [symmetric] arena_bump_def)
    then show ?thesis using room sum u m by (simp add: arena_room_def)
  qed
qed

lemma arena_strndup_room:
  assumes "arena_room T a" "T \<le> 2 ^ 59" "length x < 2 ^ 32"
    and dup: "cbm_arena_strndup ok a (Some x) (of_nat (length x)) = (r, a')"
  shows "arena_room (T + 2 ^ 33) a' \<and> (ok \<longrightarrow> r \<noteq> None)"
proof -
  have len: "unat (of_nat (length x) + 1 :: size_t) = Suc (length x)" using assms(3) by (intro unat_of_nat_Suc) simp
  obtain r1 a1 where al: "cbm_arena_alloc ok a (of_nat (length x) + 1) = (r1, a1)" by fastforce
  have "arena_room (T + 2 ^ 33) a1 \<and> (ok \<longrightarrow> r1 \<noteq> None)"
    using len assms(3) by (intro arena_alloc_room [OF assms(1,2) _ _ al]) (auto simp: unat_eq_0 [symmetric])
  then show ?thesis
    using dup al by (auto simp: cbm_arena_strndup_def arena_room_def mem_write_def split: option.splits)
qed

lemma arena_strndup_none: "nblocks a = 0 \<Longrightarrow> cbm_arena_strndup ok a s n = (r, a') \<Longrightarrow> r = None \<and> a' = a"
  by (auto simp: cbm_arena_strndup_def cbm_arena_alloc_def Let_def split: option.splits if_splits)

lemma arena_init_room: "if ok then arena_room 0 (cbm_arena_init ok m) else nblocks (cbm_arena_init ok m) = 0"
  by (simp add: arena_room_def cbm_arena_init_def cbm_arena_init_sized_def zero_arena_def malloc_ok_def
      PTRDIFF_MAX_def CBM_ARENA_DEFAULT_BLOCK_SIZE_def)

section \<open>Properties\<close>

text \<open>
  C1. Whatever sequence of requests an arena serves, and whichever of its \<open>malloc\<close> calls
  fail, the regions it hands out are pairwise disjoint, each lies inside its block below
  the bump pointer, and each starts at a multiple of 8, for requests up to \<open>2 ^ 63\<close> bytes.
\<close>

theorem arena_regions_disjoint:
  assumes "arena_inv a" "\<forall>(ok, n) \<in> set rs. unat n \<le> 2 ^ 63" "arena_allocs a rs = (regs, a')"
  shows "arena_inv a' \<and> sorted_wrt disjoint_regions regs \<and>
    (\<forall>(b, off, l) \<in> set regs. allocated a' b off l \<and> 8 dvd off)"
  using arena_allocs_general [OF assms] by simp

lemmas arena_sim =
  cbm_arena_alloc_def arena_grow_def arena_bump_def align8_def cbm_arena_init_sized_def
  zero_arena_def malloc_ok_def PTRDIFF_MAX_def CBM_ARENA_MAX_BLOCKS_def Let_def

definition demo_arena :: CBMArena where
  "demo_arena = cbm_arena_init_sized True (\<lambda>_ _. NUL) 64"

lemma arena_regions_disjoint_witness:
  "fst (arena_allocs demo_arena [(True, 24), (True, 60), (False, 1000), (True, 3)]) =
     [(0, 0, 24), (1, 0, 60), (1, 64, 3)] \<and>
   sorted_wrt disjoint_regions [(0, 0, 24), (1, 0, 60), (1, 64, 3)]"
proof -
  let ?rs = "[(True, 24), (True, 60), (False, 1000), (True, 3)] :: (bool \<times> size_t) list"
  have r: "fst (arena_allocs demo_arena ?rs) = [(0, 0, 24), (1, 0, 60), (1, 64, 3)]"
    by (simp add: arena_sim demo_arena_def)
  obtain regs a' where e: "arena_allocs demo_arena ?rs = (regs, a')" by fastforce
  have "arena_inv demo_arena" by (simp add: demo_arena_def arena_inv_init_sized)
  moreover have "\<forall>(ok, n) \<in> set ?rs. unat n \<le> 2 ^ 63" by simp
  ultimately have "sorted_wrt disjoint_regions regs"
    using e arena_regions_disjoint [of demo_arena ?rs regs a'] by blast
  with r e show ?thesis by simp
qed

text \<open>
  A request within 7 bytes of \<open>SIZE_MAX\<close> wraps to size 0 when it is rounded up, so
  the allocator answers it with a non-NULL pointer and reserves nothing.
\<close>

theorem arena_alloc_size_wraps:
  assumes "arena_inv a" "0 < nblocks a" "2 ^ 64 < unat n + 8"
  shows "cbm_arena_alloc ok a n = (Some (nblocks a - 1, unat (used a)), a)"
proof -
  have "n \<noteq> 0" using assms(3) by auto
  moreover have "used a \<le> block_size a" using assms(1,2) by (simp add: arena_inv_def)
  ultimately show ?thesis
    using assms(2) align8_wraps [OF assms(3)]
    by (simp add: cbm_arena_alloc_def arena_bump_def not_less [symmetric])
qed

lemma arena_alloc_size_wraps_witness:
  "cbm_arena_alloc True demo_arena 18446744073709551615 = (Some (0, 0), demo_arena)"
proof -
  have "arena_inv demo_arena" by (simp add: demo_arena_def arena_inv_init_sized)
  moreover have "0 < nblocks demo_arena" "nblocks demo_arena = 1" "used demo_arena = 0"
    by (simp_all add: demo_arena_def cbm_arena_init_sized_def zero_arena_def malloc_ok_def
        PTRDIFF_MAX_def)
  moreover have "2 ^ 64 < unat (18446744073709551615 :: size_t) + 8" by simp
  ultimately show ?thesis
    using arena_alloc_size_wraps [of demo_arena 18446744073709551615 True] by simp
qed

text \<open>
  A string duplicated into the arena reads back unchanged, at an address none of the
  strings stored before has, and duplicating it changes none of them.
\<close>

theorem arena_strndup_store:
  assumes "arena_inv a" "length x < 2 ^ 63"
    and "cbm_arena_strndup ok a (Some x) (of_nat (length x)) = (Some p, a')"
  shows "arena_str a' p (length x) = x \<and>
    (\<forall>q m. arena_live a q m \<longrightarrow> arena_live a' q m \<and> arena_str a' q m = arena_str a q m \<and> q \<noteq> p)"
  using ar.dup_content [of a x ok p a'] ar.dup_keeps [of a x ok p a'] assms
  by (simp add: arena_dup_def)

lemma arena_strndup_store_witness:
  "\<exists>p a'. cbm_arena_strndup True demo_arena (Some ''main'') 4 = (Some p, a') \<and>
     arena_str a' p 4 = ''main''"
proof -
  let ?r = "cbm_arena_strndup True demo_arena (Some ''main'') 4"
  have "arena_inv demo_arena" by (simp add: demo_arena_def arena_inv_init_sized)
  moreover obtain p a' where r: "?r = (Some p, a')"
    by (auto simp: cbm_arena_strndup_def cbm_arena_alloc_def demo_arena_def cbm_arena_init_sized_def
        zero_arena_def malloc_ok_def PTRDIFF_MAX_def align8_def arena_bump_def)
  moreover have "cbm_arena_strndup True demo_arena (Some ''main'') (of_nat (length ''main'')) = (Some p, a')"
    using r by simp
  moreover have "length ''main'' < 2 ^ 63" by simp
  ultimately have "arena_str a' p (length ''main'') = ''main''"
    using arena_strndup_store by blast
  then have "arena_str a' p 4 = ''main''" by (simp add: eval_nat_numeral)
  with r show ?thesis by blast
qed

end
