(* ===== verification/StrUtil.thy ===== *)
theory StrUtil
  imports Arena
begin

text \<open>
  The string helpers of \<open>foundation/str_util.c\<close> and the path normalisation of
  \<open>foundation/platform.c\<close>. Functions that return arena memory thread the arena and return a
  pointer; the others are functions of the strings. The two validators are stated here
  with the facts their callers rely on.
\<close>

section \<open>Path normalisation (platform.c)\<close>

definition cbm_canonicalize_drive :: "string \<Rightarrow> string" where
  "cbm_canonicalize_drive path =
     (case path of
        c # d # rest \<Rightarrow>
          (if 97 \<le> schar c \<and> schar c \<le> 122 \<and> d = CHR '':'' \<and>
              (case rest of [] \<Rightarrow> True | e # _ \<Rightarrow> e = CHR ''/'')
           then char_of (byte c - 97 + 65) # d # rest else path)
      | _ \<Rightarrow> path)"

definition cbm_normalize_path_sep :: "string \<Rightarrow> string" where
  "cbm_normalize_path_sep path =
     cbm_canonicalize_drive (map (\<lambda>c. if c = CHR 0x5C then CHR ''/'' else c) path)"

section \<open>Joining and taking paths apart\<close>

definition rstrip_slash :: "string \<Rightarrow> string" where
  \<comment> \<open>the loop that lowers \<open>blen\<close> over trailing slashes\<close>
  "rstrip_slash s = rev (dropWhile (\<lambda>c. c = CHR ''/'') (rev s))"

definition lstrip_slash :: "string \<Rightarrow> string" where
  "lstrip_slash s = dropWhile (\<lambda>c. c = CHR ''/'') s"

definition cbm_path_join :: "bool \<Rightarrow> CBMArena \<Rightarrow> cstr \<Rightarrow> cstr \<Rightarrow> ptr option \<times> CBMArena" where
  "cbm_path_join ok a base name =
     (case (base, name) of
        (Some base, Some name) \<Rightarrow>
          (if base = [] then cbm_arena_strdup ok a (Some name)
           else if name = [] then cbm_arena_strdup ok a (Some base)
           else let b = rstrip_slash base; n = lstrip_slash name in
             if b = [] then cbm_arena_strndup ok a (Some n) (of_nat (length n))
             else if n = [] then cbm_arena_strndup ok a (Some base) (of_nat (length b))
             else (case cbm_arena_alloc ok a (of_nat (length b) + 1 + of_nat (length n) + 1) of
                     (None, a') \<Rightarrow> (None, a')
                   | (Some r, a') \<Rightarrow> (Some r, mem_write a' r (b @ CHR ''/'' # n @ [NUL]))))
      | _ \<Rightarrow> (None, a))"

definition arena_cstr :: "CBMArena \<Rightarrow> ptr \<Rightarrow> string" where
  \<comment> \<open>a pointer used as a C string: the bytes up to the NUL\<close>
  "arena_cstr a p =
     takeWhile (\<lambda>c. c \<noteq> NUL)
       (map (mem a (fst p)) [snd p ..< unat (block_sizes a ! fst p)])"

fun path_join_loop :: "(nat \<Rightarrow> bool) \<Rightarrow> nat \<Rightarrow> CBMArena \<Rightarrow> ptr option \<Rightarrow> cstr list \<Rightarrow> ptr option \<times> CBMArena" where
  "path_join_loop ok i a result [] = (result, a)"
| "path_join_loop ok i a result (part # parts) =
     (case cbm_path_join (ok i) a (map_option (arena_cstr a) result) part of
        (r, a') \<Rightarrow> path_join_loop ok (Suc i) a' r parts)"

definition cbm_path_join_n :: "(nat \<Rightarrow> bool) \<Rightarrow> CBMArena \<Rightarrow> cstr list \<Rightarrow> ptr option \<times> CBMArena" where
  \<comment> \<open>\<open>ok i\<close> is the outcome of the \<open>malloc\<close> of the call for part \<open>i\<close>; a NULL or empty array is \<open>[]\<close>\<close>
  "cbm_path_join_n ok a parts =
     (case parts of
        [] \<Rightarrow> cbm_arena_strdup (ok 0) a (Some [])
      | [p] \<Rightarrow> cbm_arena_strdup (ok 0) a p
      | p # ps \<Rightarrow>
          (case cbm_arena_strdup (ok 0) a p of (r, a') \<Rightarrow> path_join_loop ok 1 a' r ps))"

definition cbm_path_ext :: "cstr \<Rightarrow> string" where
  "cbm_path_ext path =
     (case path of
        None \<Rightarrow> []
      | Some p \<Rightarrow>
          (case strrchr p CHR ''.'' of
             None \<Rightarrow> []
           | Some dot \<Rightarrow>
               (case strrchr p CHR ''/'' of
                  Some slash \<Rightarrow> (if dot < slash then [] else drop (dot + 1) p)
                | None \<Rightarrow> drop (dot + 1) p)))"

definition cbm_path_base :: "cstr \<Rightarrow> string" where
  "cbm_path_base path =
     (case path of
        None \<Rightarrow> []
      | Some p \<Rightarrow> (case strrchr p CHR ''/'' of Some i \<Rightarrow> drop (i + 1) p | None \<Rightarrow> p))"

definition cbm_path_dir :: "bool \<Rightarrow> CBMArena \<Rightarrow> cstr \<Rightarrow> ptr option \<times> CBMArena" where
  "cbm_path_dir ok a path =
     (case path of
        None \<Rightarrow> cbm_arena_strdup ok a (Some ''.'')
      | Some p \<Rightarrow>
          (case strrchr p CHR ''/'' of
             None \<Rightarrow> cbm_arena_strdup ok a (Some ''.'')
           | Some i \<Rightarrow> cbm_arena_strndup ok a (Some p) (of_nat i)))"

definition cbm_str_strip_ext :: "bool \<Rightarrow> CBMArena \<Rightarrow> cstr \<Rightarrow> ptr option \<times> CBMArena" where
  "cbm_str_strip_ext ok a path =
     (case path of
        None \<Rightarrow> (None, a)
      | Some p \<Rightarrow>
          (case strrchr p CHR ''.'' of
             None \<Rightarrow> cbm_arena_strdup ok a (Some p)
           | Some dot \<Rightarrow>
               (case strrchr p CHR ''/'' of
                  Some slash \<Rightarrow>
                    (if dot < slash then cbm_arena_strdup ok a (Some p)
                     else cbm_arena_strndup ok a (Some p) (of_nat dot))
                | None \<Rightarrow> cbm_arena_strndup ok a (Some p) (of_nat dot))))"

section \<open>Predicates and copies\<close>

definition cbm_str_starts_with :: "cstr \<Rightarrow> cstr \<Rightarrow> bool" where
  "cbm_str_starts_with s pre =
     (case (s, pre) of
        (Some s, Some pre) \<Rightarrow> take (length pre) s = pre
      | _ \<Rightarrow> False)"

definition cbm_str_ends_with :: "cstr \<Rightarrow> cstr \<Rightarrow> bool" where
  "cbm_str_ends_with s suf =
     (case (s, suf) of
        (Some s, Some suf) \<Rightarrow>
          (if length suf > length s then False else drop (length s - length suf) s = suf)
      | _ \<Rightarrow> False)"

definition cbm_str_contains :: "cstr \<Rightarrow> cstr \<Rightarrow> bool" where
  "cbm_str_contains s sub =
     (case (s, sub) of
        (Some s, Some sub) \<Rightarrow> (if sub = [] then True else strstr s sub)
      | _ \<Rightarrow> False)"

definition cbm_str_tolower :: "bool \<Rightarrow> CBMArena \<Rightarrow> cstr \<Rightarrow> ptr option \<times> CBMArena" where
  "cbm_str_tolower ok a s =
     (case s of
        None \<Rightarrow> (None, a)
      | Some s \<Rightarrow>
          (case cbm_arena_alloc ok a (of_nat (length s) + 1) of
             (None, a') \<Rightarrow> (None, a')
           | (Some r, a') \<Rightarrow> (Some r, mem_write a' r (map tolower s @ [NUL]))))"

definition cbm_str_replace_char :: "bool \<Rightarrow> CBMArena \<Rightarrow> cstr \<Rightarrow> char \<Rightarrow> char \<Rightarrow> ptr option \<times> CBMArena" where
  "cbm_str_replace_char ok a s from to =
     (case s of
        None \<Rightarrow> (None, a)
      | Some s \<Rightarrow>
          (case cbm_arena_alloc ok a (of_nat (length s) + 1) of
             (None, a') \<Rightarrow> (None, a')
           | (Some r, a') \<Rightarrow>
               (Some r, mem_write a' r (map (\<lambda>c. if c = from then to else c) s @ [NUL]))))"

subsection \<open>Splitting\<close>

fun split_scan :: "char \<Rightarrow> string \<Rightarrow> string \<Rightarrow> string list" where
  \<comment> \<open>the scanning loop of \<open>cbm_str_split\<close>: \<open>cur\<close> is the text from \<open>start\<close> to \<open>p\<close>\<close>
  "split_scan d cur [] = [cur]"
| "split_scan d cur (c # cs) =
     (if c = d then cur # split_scan d [] cs else split_scan d (cur @ [c]) cs)"

fun split_store :: "(nat \<Rightarrow> bool) \<Rightarrow> nat \<Rightarrow> CBMArena \<Rightarrow> string list \<Rightarrow> ptr option list \<times> CBMArena" where
  "split_store ok i a [] = ([], a)"
| "split_store ok i a (x # xs) =
     (case cbm_arena_strndup (ok i) a (Some x) (of_nat (length x)) of
        (r, a1) \<Rightarrow> (case split_store ok (Suc i) a1 xs of (rs, a2) \<Rightarrow> (r # rs, a2)))"

definition cbm_str_split ::
  "(nat \<Rightarrow> bool) \<Rightarrow> CBMArena \<Rightarrow> cstr \<Rightarrow> char \<Rightarrow> (ptr option list \<times> nat) option \<times> CBMArena" where
  \<comment> \<open>\<open>ok 0\<close> is the \<open>malloc\<close> for the array, \<open>ok (i + 1)\<close> that of part \<open>i\<close>; the result is the array
    (without its NULL terminator) and \<open>*out_count\<close>\<close>
  "cbm_str_split ok a s delim =
     (case s of
        None \<Rightarrow> (None, a)
      | Some s \<Rightarrow>
          (let count = 1 + length (filter (\<lambda>c. c = delim) s) in
           case cbm_arena_alloc (ok 0) a (of_nat (count + 1) * 8) of
             (None, a') \<Rightarrow> (None, a')
           | (Some _, a') \<Rightarrow>
               (case split_store ok 1 a' (split_scan delim [] s) of
                  (rs, a'') \<Rightarrow> (Some (rs, count), a''))))"

section \<open>Validation and escaping\<close>

definition shell_meta :: "char list" where
  "shell_meta = [CHR 0x27, CHR 0x22, CHR '';'', CHR ''|'', CHR ''&'', CHR ''$'', CHR 0x60,
     CHR ''<'', CHR ''>'', CHR 0x0A, CHR 0x0D, CHR 0x5C]"

definition cbm_validate_shell_arg :: "cstr \<Rightarrow> bool" where
  \<comment> \<open>the POSIX build, where a backslash is rejected too\<close>
  "cbm_validate_shell_arg s =
     (case s of None \<Rightarrow> False | Some s \<Rightarrow> list_all (\<lambda>c. c \<notin> set shell_meta) s)"

definition name_char :: "char \<Rightarrow> bool" where
  "name_char c \<longleftrightarrow> (97 \<le> schar c \<and> schar c \<le> 122) \<or> (65 \<le> schar c \<and> schar c \<le> 90) \<or>
     (48 \<le> schar c \<and> schar c \<le> 57) \<or> c = CHR ''-'' \<or> c = CHR ''_'' \<or> c = CHR ''.''"

definition cbm_validate_project_name :: "cstr \<Rightarrow> bool" where
  "cbm_validate_project_name name =
     (case name of
        None \<Rightarrow> False
      | Some n \<Rightarrow>
          (if n = [] then False
           else if n = ''..'' \<or> strstr n ''..'' then False
           else if strchr n CHR ''/'' \<noteq> None \<or> strchr n CHR 0x5C \<noteq> None then False
           else if n ! 0 = CHR ''.'' then False
           else list_all name_char n))"

fun json_escape_loop :: "nat \<Rightarrow> string \<Rightarrow> string \<Rightarrow> string" where
  \<comment> \<open>\<open>lim\<close> is \<open>bufsize - 1\<close>, \<open>buf\<close> what has been written, so \<open>pos\<close> is \<open>length buf\<close>\<close>
  "json_escape_loop lim buf [] = buf"
| "json_escape_loop lim buf (c # cs) =
     (if \<not> length buf < lim then buf
      else if c = CHR 0x22 \<or> c = CHR 0x5C
        then (if length buf + 2 > lim then buf else json_escape_loop lim (buf @ [CHR 0x5C, c]) cs)
      else if c = CHR 0x0A
        then (if length buf + 2 > lim then buf else json_escape_loop lim (buf @ [CHR 0x5C, CHR ''n'']) cs)
      else if c = CHR 0x0D
        then (if length buf + 2 > lim then buf else json_escape_loop lim (buf @ [CHR 0x5C, CHR ''r'']) cs)
      else if c = CHR 0x09
        then (if length buf + 2 > lim then buf else json_escape_loop lim (buf @ [CHR 0x5C, CHR ''t'']) cs)
      else if byte c < 32 then json_escape_loop lim buf cs
      else json_escape_loop lim (buf @ [c]) cs)"

definition cbm_json_escape :: "int \<Rightarrow> cstr \<Rightarrow> cstr \<times> int" where
  \<comment> \<open>what \<open>buf\<close> holds afterwards (\<open>None\<close>: not written) and the return value, for a non-NULL \<open>buf\<close>\<close>
  "cbm_json_escape bufsize src =
     (if bufsize \<le> 0 then (None, 0)
      else case src of
        None \<Rightarrow> (Some [], 0)
      | Some s \<Rightarrow> (let out = json_escape_loop (nat (bufsize - 1)) [] s in (Some out, int (length out))))"

section \<open>Strings stored by the arena functions\<close>

lemma strdup_eq_dup: "length x < 2 ^ 63 \<Longrightarrow> cbm_arena_strdup ok a (Some x) = arena_dup ok a x"
  by (simp add: cbm_arena_strdup_def arena_dup_def cbm_arena_strndup_def unat_of_nat_len Let_def
      split: prod.split option.split)

lemma strndup_eq_dup:
  "n \<le> length x \<Longrightarrow> n < 2 ^ 63 \<Longrightarrow>
   cbm_arena_strndup ok a (Some x) (of_nat n) = arena_dup ok a (take n x)"
  by (simp add: arena_dup_def cbm_arena_strndup_def unat_of_nat_len min_absorb2
      split: prod.split option.split)

lemma alloc_write_eq_dup:
  assumes "n = of_nat (length x) + 1" "length x < 2 ^ 63"
  shows "(case cbm_arena_alloc ok a n of (None, a') \<Rightarrow> (None, a')
          | (Some r, a') \<Rightarrow> (Some r, mem_write a' r (x @ [NUL]))) = arena_dup ok a x"
  using assms
  by (simp add: arena_dup_def cbm_arena_strndup_def unat_of_nat_len split: prod.split option.split)

subsection \<open>Path components\<close>

definition path_components :: "string \<Rightarrow> string list" where
  "path_components s = filter (\<lambda>x. x \<noteq> []) (split_scan CHR ''/'' [] s)"

definition path_join_text :: "string \<Rightarrow> string \<Rightarrow> string" where
  "path_join_text base name =
     (if base = [] then name else if name = [] then base
      else let b = rstrip_slash base; n = lstrip_slash name in
        if b = [] then n else if n = [] then b else b @ CHR ''/'' # n)"

lemma split_scan_append:
  "split_scan d cur (xs @ d # ys) = split_scan d cur xs @ split_scan d [] ys"
  by (induction d cur xs rule: split_scan.induct) auto

lemma path_components_slash:
  "path_components (xs @ CHR ''/'' # ys) = path_components xs @ path_components ys"
  by (simp add: path_components_def split_scan_append)

lemma path_components_Nil [simp]: "path_components [] = []"
  by (simp add: path_components_def)

lemma path_components_slashes_left:
  "list_all (\<lambda>c. c = CHR ''/'') ps \<Longrightarrow> path_components (ps @ xs) = path_components xs"
proof (induction ps)
  case (Cons c ps)
  then show ?case using path_components_slash [of "[]" "ps @ xs"] by simp
qed simp

lemma path_components_slashes_right:
  "list_all (\<lambda>c. c = CHR ''/'') ps \<Longrightarrow> path_components (xs @ ps) = path_components xs"
proof (induction ps rule: rev_induct)
  case (snoc c ps)
  then show ?case using path_components_slash [of "xs @ ps" "[]"] by simp
qed simp

lemma path_components_lstrip [simp]: "path_components (lstrip_slash s) = path_components s"
proof -
  have "s = takeWhile (\<lambda>c. c = CHR ''/'') s @ lstrip_slash s" by (simp add: lstrip_slash_def)
  moreover have "list_all (\<lambda>c. c = CHR ''/'') (takeWhile (\<lambda>c. c = CHR ''/'') s)"
    by (auto simp: list_all_iff dest: set_takeWhileD)
  ultimately show ?thesis using path_components_slashes_left by metis
qed

lemma path_components_rstrip [simp]: "path_components (rstrip_slash s) = path_components s"
proof -
  have "s = rstrip_slash s @ rev (takeWhile (\<lambda>c. c = CHR ''/'') (rev s))"
    unfolding rstrip_slash_def by (rule rev_dropWhile_decomp)
  moreover have "list_all (\<lambda>c. c = CHR ''/'') (rev (takeWhile (\<lambda>c. c = CHR ''/'') (rev s)))"
    by (auto simp: list_all_iff dest: set_takeWhileD)
  ultimately show ?thesis using path_components_slashes_right by metis
qed

lemma path_components_join:
  "path_components (path_join_text b n) = path_components b @ path_components n"
proof -
  have "rstrip_slash b = [] \<Longrightarrow> path_components b = []"
    using path_components_rstrip [of b] by simp
  moreover have "lstrip_slash n = [] \<Longrightarrow> path_components n = []"
    using path_components_lstrip [of n] by simp
  ultimately show ?thesis
    by (simp add: path_join_text_def path_components_slash Let_def)
qed

lemma length_rstrip: "length (rstrip_slash s) \<le> length s"
  by (metis rstrip_slash_def length_dropWhile_le length_rev)

lemma rstrip_take: "take (length (rstrip_slash s)) s = rstrip_slash s"
proof -
  have "s = rstrip_slash s @ rev (takeWhile (\<lambda>c. c = CHR ''/'') (rev s))"
    unfolding rstrip_slash_def by (rule rev_dropWhile_decomp)
  then show ?thesis by (metis append_eq_conv_conj)
qed

lemma path_join_eq_dup:
  assumes "length base + length name < 2 ^ 62"
  shows "cbm_path_join ok a (Some base) (Some name) = arena_dup ok a (path_join_text base name)"
proof -
  let ?b = "rstrip_slash base" and ?n = "lstrip_slash name"
  have lb: "length ?b \<le> length base" by (rule length_rstrip)
  have ln: "length ?n \<le> length name" by (simp add: lstrip_slash_def length_dropWhile_le)
  have "(case cbm_arena_alloc ok a (of_nat (length ?b) + 1 + of_nat (length ?n) + 1) of
           (None, a') \<Rightarrow> (None, a')
         | (Some r, a') \<Rightarrow> (Some r, mem_write a' r (?b @ CHR ''/'' # ?n @ [NUL]))) =
         arena_dup ok a (?b @ CHR ''/'' # ?n)"
    using assms lb ln
      alloc_write_eq_dup [of "of_nat (length ?b) + 1 + of_nat (length ?n) + 1" "?b @ CHR ''/'' # ?n" ok a,
        unfolded append_assoc append_Cons]
    by simp
  then show ?thesis
    using assms lb ln strdup_eq_dup [of name] strdup_eq_dup [of base]
      strndup_eq_dup [of "length ?n" ?n] strndup_eq_dup [of "length ?b" base]
    by (simp only: cbm_path_join_def path_join_text_def Let_def rstrip_take prod.case option.case
        split: if_split) (auto simp: rstrip_take)
qed

subsection \<open>Splitting and reading back\<close>

fun join_with :: "char \<Rightarrow> string list \<Rightarrow> string" where
  "join_with d [] = []"
| "join_with d [x] = x"
| "join_with d (x # y # ys) = x @ d # join_with d (y # ys)"

lemma split_scan_ne [simp]: "split_scan d cur s \<noteq> []"
  by (induction d cur s rule: split_scan.induct) auto

lemma join_split_scan: "join_with d (split_scan d cur s) = cur @ s"
proof (induction d cur s rule: split_scan.induct)
  case (2 d cur c cs)
  show ?case
  proof (cases "c = d")
    case True
    obtain y ys where y: "split_scan d [] cs = y # ys" by (cases "split_scan d [] cs") auto
    with 2(1) [OF True] True show ?thesis by simp
  qed (use 2 in simp)
qed simp

lemma length_split_scan: "length (split_scan d cur s) = Suc (length (filter (\<lambda>c. c = d) s))"
  by (induction d cur s rule: split_scan.induct) auto

lemma split_scan_no_delim:
  "x \<in> set (split_scan d cur s) \<Longrightarrow> d \<notin> set cur \<Longrightarrow> d \<notin> set x"
  by (induction d cur s rule: split_scan.induct) (auto split: if_splits)

lemma split_scan_length:
  "x \<in> set (split_scan d cur s) \<Longrightarrow> length x \<le> length cur + length s"
  by (induction d cur s rule: split_scan.induct) (auto split: if_splits)

lemma split_store_spec:
  assumes "arena_inv a" "\<forall>x \<in> set xs. length x < 2 ^ 63" "split_store ok i a xs = (rs, a')"
  shows "arena_inv a' \<and> (\<forall>q y. ar.stored a q y \<longrightarrow> ar.stored a' q y) \<and> length rs = length xs \<and>
    (\<forall>k < length xs. \<forall>p. rs ! k = Some p \<longrightarrow> ar.stored a' p (xs ! k))"
  using assms
proof (induction ok i a xs arbitrary: rs rule: split_store.induct)
  case (1 ok i a)
  then show ?case by simp
next
  case (2 ok i a x xs)
  obtain r a1 where d: "arena_dup (ok i) a x = (r, a1)" by fastforce
  obtain rs' a2 where t: "split_store ok (Suc i) a1 xs = (rs', a2)" by fastforce
  have c: "cbm_arena_strndup (ok i) a (Some x) (of_nat (length x)) = (r, a1)"
    using d by (simp add: arena_dup_def)
  have eqs: "rs = r # rs'" "a' = a2" using "2.prems"(3) c t by auto
  have lx: "length x < 2 ^ 63" using "2.prems"(2) by simp
  have inv1: "arena_inv a1" using ar.inv_dup_cases [OF "2.prems"(1) lx d] .
  have IH: "arena_inv a' \<and> (\<forall>q y. ar.stored a1 q y \<longrightarrow> ar.stored a' q y) \<and> length rs' = length xs \<and>
    (\<forall>k < length xs. \<forall>p. rs' ! k = Some p \<longrightarrow> ar.stored a' p (xs ! k))"
    using "2.IH" [OF c [symmetric] inv1] "2.prems"(2) t eqs by simp
  have keep: "ar.stored a q y \<Longrightarrow> ar.stored a1 q y" for q y
    using ar.stored_dup_cases [OF "2.prems"(1) lx d] .
  have new: "r = Some p \<Longrightarrow> ar.stored a1 p x" for p
    using ar.stored_dup(1) [OF "2.prems"(1) lx] d by simp
  show ?case unfolding eqs(1)
    using IH keep new by (auto simp: nth_Cons split: nat.splits)
qed

section \<open>JSON escaping\<close>

definition json_keeps :: "char \<Rightarrow> bool" where
  \<comment> \<open>the bytes \<open>cbm_json_escape\<close> does not drop\<close>
  "json_keeps c \<longleftrightarrow> 32 \<le> byte c \<or> c = CHR 0x0A \<or> c = CHR 0x0D \<or> c = CHR 0x09"

fun json_body :: "string \<Rightarrow> string option" where
  \<comment> \<open>decode the text between the quotes of a JSON string; \<open>None\<close> when it is not one\<close>
  "json_body [] = Some []"
| "json_body (c # cs) =
     (if c = CHR 0x5C
      then (case cs of
              [] \<Rightarrow> None
            | e # es \<Rightarrow>
                (if e = CHR 0x22 \<or> e = CHR 0x5C then map_option ((#) e) (json_body es)
                 else if e = CHR ''n'' then map_option ((#) CHR 0x0A) (json_body es)
                 else if e = CHR ''r'' then map_option ((#) CHR 0x0D) (json_body es)
                 else if e = CHR ''t'' then map_option ((#) CHR 0x09) (json_body es)
                 else None))
      else if c = CHR 0x22 \<or> byte c < 32 then None
      else map_option ((#) c) (json_body cs))"

lemma append_Cons_fun: "(@) (x # z) = (\<lambda>y. x # z @ y)"
  by auto

lemma json_body_append:
  "json_body xs = Some d \<Longrightarrow> json_body (xs @ ys) = map_option ((@) d) (json_body ys)"
proof (induction xs arbitrary: d rule: json_body.induct)
  case 1
  then show ?case by (simp add: option.map_ident)
next
  case (2 c cs)
  show ?case
  proof (cases "c = CHR 0x5C")
    case True
    with "2.prems" obtain e es where cs: "cs = e # es" by (cases cs) auto
    consider "e = CHR 0x22 \<or> e = CHR 0x5C" | "e = CHR ''n''" | "e = CHR ''r''" | "e = CHR ''t''"
      using "2.prems" True cs by (auto split: if_splits)
    then show ?thesis
      by cases (use True cs "2.prems" "2.IH"(1-4) [OF True cs] in \<open>auto simp: option.map_comp comp_def append_Cons_fun\<close>)
  next
    case False
    with "2.prems" have ok: "\<not> (c = CHR 0x22 \<or> byte c < 32)" by (auto split: if_splits)
    with False "2.prems" obtain d' where "json_body cs = Some d'" "d = c # d'" by auto
    with False ok "2.IH"(5) [OF False ok] show ?thesis by (simp add: option.map_comp comp_def append_Cons_fun)
  qed
qed

lemma byte_JSON [simp]:
  "byte CHR 0x22 = 34" "byte CHR 0x5C = 92" "byte CHR 0x0A = 10" "byte CHR 0x0D = 13"
  "byte CHR 0x09 = 9"
  by (simp_all add: byte_def)

definition json_esc :: "char \<Rightarrow> string" where
  \<comment> \<open>what one source byte is written as\<close>
  "json_esc c =
     (if c = CHR 0x22 \<or> c = CHR 0x5C then [CHR 0x5C, c]
      else if c = CHR 0x0A then [CHR 0x5C, CHR ''n'']
      else if c = CHR 0x0D then [CHR 0x5C, CHR ''r'']
      else if c = CHR 0x09 then [CHR 0x5C, CHR ''t'']
      else if byte c < 32 then [] else [c])"

lemma json_escape_loop_Cons:
  "json_escape_loop lim buf (c # cs) =
     (if \<not> length buf < lim \<or> lim < length buf + length (json_esc c) then buf
      else json_escape_loop lim (buf @ json_esc c) cs)"
  by (simp add: json_esc_def)

lemma json_esc_body: "json_body (json_esc c) = Some (filter json_keeps [c])"
  by (simp add: json_esc_def json_keeps_def)

lemma length_json_esc: "length (json_esc c) \<le> 2"
  by (simp add: json_esc_def)

declare json_escape_loop.simps(2) [simp del]

lemma json_escape_loop_length:
  "length buf \<le> lim \<Longrightarrow> length (json_escape_loop lim buf s) \<le> lim"
  by (induction s arbitrary: buf) (auto simp: json_escape_loop_Cons)

lemma json_escape_loop_body:
  assumes "json_body buf = Some d"
  shows "\<exists>k \<le> length s. json_body (json_escape_loop lim buf s) = Some (d @ filter json_keeps (take k s)) \<and>
     (k < length s \<longrightarrow> lim < length (json_escape_loop lim buf s) + 2) \<and>
     (length buf + 2 * length s \<le> lim \<longrightarrow> k = length s)"
  using assms
proof (induction s arbitrary: buf d)
  case Nil
  then show ?case by simp
next
  case (Cons c cs)
  show ?case
  proof (cases "\<not> length buf < lim \<or> lim < length buf + length (json_esc c)")
    case True
    with Cons.prems length_json_esc [of c] show ?thesis
      by (intro exI [of _ 0]) (auto simp: json_escape_loop_Cons)
  next
    case False
    have "json_body (buf @ json_esc c) = Some (d @ filter json_keeps [c])"
      using Cons.prems by (simp add: json_body_append json_esc_body)
    from Cons.IH [OF this] obtain k where k: "k \<le> length cs"
      "json_body (json_escape_loop lim (buf @ json_esc c) cs) =
         Some ((d @ filter json_keeps [c]) @ filter json_keeps (take k cs))"
      "k < length cs \<longrightarrow> lim < length (json_escape_loop lim (buf @ json_esc c) cs) + 2"
      "length (buf @ json_esc c) + 2 * length cs \<le> lim \<longrightarrow> k = length cs" by blast
    show ?thesis
      by (rule exI [of _ "Suc k"]) (use k False length_json_esc [of c] in \<open>auto simp: json_escape_loop_Cons\<close>)
  qed
qed

section \<open>Properties\<close>

text \<open>
  Joining two paths yields a string whose components are those of the first path
  followed by those of the second, however many slashes end the one or start the other,
  and the returned pointer holds exactly that string.
\<close>

theorem path_join_components:
  assumes "arena_inv a" "length base + length name < 2 ^ 62"
    and "cbm_path_join ok a (Some base) (Some name) = (Some p, a')"
  shows "\<exists>t. arena_str a' p (length t) = t \<and>
     path_components t = path_components base @ path_components name"
proof -
  let ?t = "path_join_text base name"
  have "length ?t \<le> length base + length name + 1"
    using length_rstrip [of base] length_dropWhile_le [of "\<lambda>c. c = CHR ''/''" name]
    by (auto simp: path_join_text_def Let_def lstrip_slash_def)
  with assms(2) have "length ?t < 2 ^ 63" by simp
  moreover have "arena_dup ok a ?t = (Some p, a')"
    using assms(2,3) by (simp add: path_join_eq_dup)
  ultimately have "arena_str a' p (length ?t) = ?t"
    using ar.dup_content [OF assms(1)] by blast
  then show ?thesis using path_components_join by blast
qed

lemma path_join_components_witness:
  "\<exists>p a' t. cbm_path_join True demo_arena (Some ''src//'') (Some ''/a/b.c'') = (Some p, a') \<and>
     arena_str a' p (length t) = t \<and> path_components t = [''src'', ''a'', ''b.c'']"
proof -
  have inv: "arena_inv demo_arena" by (simp add: demo_arena_def arena_inv_init_sized)
  have "fst (cbm_path_join True demo_arena (Some ''src//'') (Some ''/a/b.c'')) = Some (0, 0)"
    by (simp add: cbm_path_join_def rstrip_slash_def lstrip_slash_def arena_sim demo_arena_def)
  then obtain p a' where r: "cbm_path_join True demo_arena (Some ''src//'') (Some ''/a/b.c'') = (Some p, a')"
    by (metis prod.collapse)
  have "length ''src//'' + length ''/a/b.c'' < 2 ^ 62" by simp
  from path_join_components [OF inv this r] obtain t where t: "arena_str a' p (length t) = t"
    "path_components t = path_components ''src//'' @ path_components ''/a/b.c''" by blast
  have "path_components ''src//'' @ path_components ''/a/b.c'' = [''src'', ''a'', ''b.c'']"
    by (simp add: path_components_def)
  with r t show ?thesis by auto
qed

text \<open>
  Splitting returns as many parts as it reports; the parts contain no delimiter, read
  back from the arena, and joined with the delimiter they are the original string, when no
  allocation failed.
\<close>

theorem str_split_roundtrip:
  assumes "arena_inv a" "length s < 2 ^ 59" "cbm_str_split ok a (Some s) d = (Some (rs, n), a')"
    and "\<forall>r \<in> set rs. r \<noteq> None"
  shows "\<exists>parts. n = length parts \<and> length rs = n \<and> join_with d parts = s \<and>
    (\<forall>x \<in> set parts. d \<notin> set x) \<and>
    (\<forall>k < n. arena_str a' (the (rs ! k)) (length (parts ! k)) = parts ! k)"
proof -
  let ?parts = "split_scan d [] s" and ?n = "Suc (length (filter (\<lambda>c. c = d) s))"
  from assms(3) obtain q a1 where al: "cbm_arena_alloc (ok 0) a (of_nat (?n + 1) * 8) = (Some q, a1)"
    and st: "split_store ok 1 a1 ?parts = (rs, a')" and n: "n = ?n"
    by (auto simp: cbm_str_split_def Let_def split: prod.splits option.splits)
  have "?n \<le> Suc (length s)" by simp
  then have "(?n + 1) * 8 < 2 ^ 63" using assms(2) length_filter_le [of "\<lambda>c. c = d" s]
    by (simp del: length_filter_le)
  then have "unat (of_nat ((?n + 1) * 8) :: size_t) \<le> 2 ^ 63"
    by (simp only: unat_of_nat_len less_imp_le)
  then have "unat (of_nat (?n + 1) * 8 :: size_t) \<le> 2 ^ 63" by (simp add: algebra_simps)
  with assms(1) al have inv1: "arena_inv a1"
    using arena_alloc_spec [of a _ "ok 0" "fst q" "snd q" a1] by simp
  have "\<forall>x \<in> set ?parts. length x < 2 ^ 63"
    using split_scan_length [of _ d "[]" s] assms(2) by fastforce
  note sp = split_store_spec [OF inv1 this st]
  have "arena_str a' (the (rs ! k)) (length (?parts ! k)) = ?parts ! k" if "k < n" for k
  proof -
    have k: "k < length ?parts" "k < length rs"
      using that sp n length_split_scan [of d "[]" s] by simp_all
    then obtain p where p: "rs ! k = Some p" using assms(4) by (metis nth_mem option.exhaust)
    with k sp have "ar.stored a' p (?parts ! k)" by blast
    with p show ?thesis by (simp add: ar.stored_def)
  qed
  moreover have "\<forall>x \<in> set ?parts. d \<notin> set x" using split_scan_no_delim [of _ d "[]" s] by simp
  moreover have "n = length ?parts" "length rs = n"
    using sp n length_split_scan [of d "[]" s] by simp_all
  moreover have "join_with d ?parts = s" using join_split_scan [of d "[]" s] by simp
  ultimately show ?thesis by blast
qed

lemma str_split_roundtrip_witness:
  "\<exists>rs a' parts. cbm_str_split (\<lambda>_. True) demo_arena (Some ''a.b'') CHR ''.'' = (Some (rs, 2), a') \<and>
     join_with CHR ''.'' parts = ''a.b'' \<and> length parts = 2"
proof -
  have inv: "arena_inv demo_arena" by (simp add: demo_arena_def arena_inv_init_sized)
  have f: "fst (cbm_str_split (\<lambda>_. True) demo_arena (Some ''a.b'') CHR ''.'') =
      Some ([Some (0, 24), Some (0, 32)], 2)"
    by (simp add: cbm_str_split_def cbm_arena_strndup_def mem_write_def arena_sim demo_arena_def)
  then obtain a' where r: "cbm_str_split (\<lambda>_. True) demo_arena (Some ''a.b'') CHR ''.'' =
      (Some ([Some (0, 24), Some (0, 32)], 2), a')"
    by (metis prod.collapse)
  have "length ''a.b'' < 2 ^ 59" "\<forall>r \<in> set [Some (0, 24), Some (0, 32)]. r \<noteq> (None :: ptr option)"
    by simp_all
  from str_split_roundtrip [OF inv this(1) r this(2)] r show ?thesis by metis
qed

text \<open>
  C34. The JSON escaper never writes past its buffer: its output and the NUL fit in
  \<open>bufsize\<close> bytes. It drops the control bytes other than newline, carriage return and tab,
  although the header of the function promises to escape them. Its output is never cut inside an
  escape sequence, and read as the body of a JSON string, byte by byte, it stands for a prefix of the source without the
  dropped bytes; a shorter prefix than the whole source only if at most one byte of the buffer is left. So
  a source without dropped bytes is what the output stands for when the buffer has two bytes per source byte
  and one more.
  A cut may fall between the bytes of one UTF-8 character.
\<close>

theorem json_escape_decodes:
  assumes "0 < bufsize" "cbm_json_escape bufsize (Some s) = (Some out, n)"
  shows "n = int (length out) \<and> n + 1 \<le> bufsize \<and>
    (\<exists>k \<le> length s. json_body out = Some (filter json_keeps (take k s)) \<and>
      (k < length s \<longrightarrow> bufsize \<le> n + 2) \<and> (2 * int (length s) < bufsize \<longrightarrow> k = length s)) \<and>
    ((\<forall>c \<in> set s. json_keeps c) \<and> 2 * int (length s) < bufsize \<longrightarrow> json_body out = Some s)"
proof -
  let ?lim = "nat (bufsize - 1)"
  have out: "out = json_escape_loop ?lim [] s" and n: "n = int (length out)"
    using assms by (auto simp: cbm_json_escape_def Let_def)
  have fits: "length out \<le> ?lim" unfolding out by (rule json_escape_loop_length) simp
  obtain k where k: "k \<le> length s" "json_body out = Some (filter json_keeps (take k s))"
    "k < length s \<longrightarrow> ?lim < length out + 2" "2 * length s \<le> ?lim \<longrightarrow> k = length s"
    using json_escape_loop_body [of "[]" "[]" s ?lim] out by auto
  have "k < length s \<longrightarrow> bufsize \<le> n + 2" "2 * int (length s) < bufsize \<longrightarrow> k = length s" "n + 1 \<le> bufsize"
    using assms(1) n k(3,4) fits by auto
  moreover have "filter json_keeps s = s" if "\<forall>c \<in> set s. json_keeps c" using that by simp
  ultimately show ?thesis using n k(1,2) by fastforce
qed

lemma json_escape_decodes_witness:
  "\<exists>out n. cbm_json_escape 6 (Some [CHR ''a'', CHR 0x22, CHR 0x01, CHR ''b'', CHR 0x0A]) = (Some out, n) \<and>
     n = 4 \<and> (\<exists>k. json_body out = Some (filter json_keeps (take k [CHR ''a'', CHR 0x22, CHR 0x01, CHR ''b'', CHR 0x0A])))"
proof -
  let ?s = "[CHR ''a'', CHR 0x22, CHR 0x01, CHR ''b'', CHR 0x0A]"
  have e: "cbm_json_escape 6 (Some ?s) = (Some [CHR ''a'', CHR 0x5C, CHR 0x22, CHR ''b''], 4)"
    by (simp add: cbm_json_escape_def json_escape_loop_Cons json_esc_def byte_def)
  have "(0 :: int) < 6" by simp
  from json_escape_decodes [OF this e] e show ?thesis by blast
qed

end
