(* ===== verification/StrIntern.thy ===== *)
theory StrIntern
  imports Arena
begin

unbundle bit_operations_syntax

text \<open>
  The string interning pool of \<open>foundation/str_intern.c\<close>: an open-addressing hash table over
  strings kept in an arena. The table is modelled with the 32-bit arithmetic of the code, the strings
  are the bytes of the arena model, and the two allocations that can fail (the larger table and a
  block of the arena) are arguments. Probing is a loop without bound in the code: here it is a
  partial function, whose value \<open>None\<close> says that the loop never ends.

  The pool refines a finite map from strings to pointers (\<open>pool_map\<close>).
\<close>

section \<open>State\<close>

definition FNV_OFFSET_BASIS :: u32 where "FNV_OFFSET_BASIS = 2166136261"
definition FNV_PRIME :: u32 where "FNV_PRIME = 16777619"

definition intern_hash :: "string \<Rightarrow> u32" where
  "intern_hash s = foldl (\<lambda>h c. (h XOR of_nat (byte c)) * FNV_PRIME) FNV_OFFSET_BASIS s"

record InternEntry =
  e_str :: "ptr option"
  e_hash :: u32
  e_len :: u32

record CBMInternPool =
  arena :: CBMArena
  buckets :: "InternEntry list"
  pcapacity :: u32
  pcount :: u32
  pmask :: u32
  total_bytes :: size_t

definition zero_entry :: InternEntry where
  "zero_entry = \<lparr>e_str = None, e_hash = 0, e_len = 0\<rparr>"

section \<open>Operations\<close>

definition cbm_intern_create :: "bool \<Rightarrow> bool \<Rightarrow> bool \<Rightarrow> (nat \<Rightarrow> nat \<Rightarrow> char) \<Rightarrow> CBMInternPool option" where
  \<comment> \<open>the flags are the outcomes of the three allocations: the pool, the arena's first block, the buckets\<close>
  "cbm_intern_create ok_pool ok_arena ok_buckets m =
     (if \<not> ok_pool then None
      else if \<not> ok_buckets then None
      else Some \<lparr>arena = cbm_arena_init ok_arena m, buckets = replicate 256 zero_entry, pcapacity = 256,
                 pcount = 0, pmask = 255, total_bytes = 0\<rparr>)"

partial_function (option) probe ::
    "InternEntry list \<Rightarrow> u32 \<Rightarrow> (InternEntry \<Rightarrow> bool) \<Rightarrow> u32 \<Rightarrow> (u32 \<times> ptr option) option" where
  \<comment> \<open>stops at an empty bucket or at one that is \<open>hit\<close>: its index and its string\<close>
  "probe bs msk hit idx =
     (let e = bs ! unat idx
      in if e_str e = None then Some (idx, None)
         else if hit e then Some (idx, e_str e)
         else probe bs msk hit ((idx + 1) AND msk))"

declare probe.simps [code]

definition free_slot :: "InternEntry list \<Rightarrow> u32 \<Rightarrow> u32 \<Rightarrow> u32 option" where
  \<comment> \<open>\<open>while (buckets[idx].str) idx = (idx + 1) & mask\<close>\<close>
  "free_slot bs msk idx = map_option fst (probe bs msk (\<lambda>_. False) idx)"

definition rehash_entry :: "u32 \<Rightarrow> InternEntry \<Rightarrow> InternEntry list \<Rightarrow> InternEntry list option" where
  "rehash_entry new_mask e new_buckets =
     (if e_str e = None then Some new_buckets
      else map_option (\<lambda>idx. new_buckets[unat idx := e]) (free_slot new_buckets new_mask (e_hash e AND new_mask)))"

fun rehash_loop :: "u32 \<Rightarrow> InternEntry list \<Rightarrow> InternEntry list \<Rightarrow> InternEntry list option" where
  "rehash_loop new_mask [] nb = Some nb"
| "rehash_loop new_mask (e # es) nb =
     (case rehash_entry new_mask e nb of None \<Rightarrow> None | Some nb \<Rightarrow> rehash_loop new_mask es nb)"

definition intern_resize :: "bool \<Rightarrow> CBMInternPool \<Rightarrow> CBMInternPool option" where
  \<comment> \<open>without memory for the new table the pool stays as it is\<close>
  "intern_resize ok p =
     (let new_cap = pcapacity p * 2;
          new_mask = new_cap - 1
      in if \<not> ok then Some p
         else map_option (\<lambda>nb. p\<lparr>buckets := nb, pcapacity := new_cap, pmask := new_mask\<rparr>)
                (rehash_loop new_mask (buckets p) (replicate (unat new_cap) zero_entry)))"

definition entry_is :: "CBMArena \<Rightarrow> u32 \<Rightarrow> string \<Rightarrow> InternEntry \<Rightarrow> bool" where
  \<comment> \<open>the comparison of hash, length and bytes\<close>
  "entry_is a h s e \<longleftrightarrow> e_hash e = h \<and> e_len e = of_nat (length s) \<and>
     (case e_str e of None \<Rightarrow> False | Some p \<Rightarrow> arena_str a p (length s) = s)"

definition intern_store :: "bool \<Rightarrow> CBMInternPool \<Rightarrow> u32 \<Rightarrow> u32 \<Rightarrow> string \<Rightarrow> ptr option \<times> CBMInternPool" where
  \<comment> \<open>the copy into the arena and the new bucket\<close>
  "intern_store ok pool h idx s =
     (case cbm_arena_strndup ok (arena pool) (Some s) (of_nat (length s)) of
        (None, a) \<Rightarrow> (None, pool\<lparr>arena := a\<rparr>)
      | (Some copy, a) \<Rightarrow>
          (Some copy, pool\<lparr>arena := a,
             buckets := (buckets pool)[unat idx := \<lparr>e_str = Some copy, e_hash = h, e_len = of_nat (length s)\<rparr>],
             pcount := pcount pool + 1, total_bytes := total_bytes pool + of_nat (length s)\<rparr>))"

definition cbm_intern_n ::
    "bool \<Rightarrow> bool \<Rightarrow> CBMInternPool \<Rightarrow> cstr \<Rightarrow> (ptr option \<times> CBMInternPool) option" where
  \<comment> \<open>\<open>ok_table\<close>: the larger table can be allocated, \<open>ok_block\<close>: so can a block of the arena\<close>
  "cbm_intern_n ok_table ok_block pool s =
     (case s of
        None \<Rightarrow> Some (None, pool)
      | Some s \<Rightarrow>
          (let h = intern_hash s
           in case probe (buckets pool) (pmask pool) (entry_is (arena pool) h s) (h AND pmask pool) of
                None \<Rightarrow> None
              | Some (idx, Some str) \<Rightarrow> Some (Some str, pool)
              | Some (idx, None) \<Rightarrow>
                  (if pcount pool * 10 \<ge> pcapacity pool * 7
                   then (case intern_resize ok_table pool of
                           None \<Rightarrow> None
                         | Some pool \<Rightarrow>
                             (case free_slot (buckets pool) (pmask pool) (h AND pmask pool) of
                                None \<Rightarrow> None
                              | Some idx \<Rightarrow> Some (intern_store ok_block pool h idx s)))
                   else Some (intern_store ok_block pool h idx s))))"

definition cbm_intern :: "bool \<Rightarrow> bool \<Rightarrow> CBMInternPool \<Rightarrow> cstr \<Rightarrow> (ptr option \<times> CBMInternPool) option" where
  "cbm_intern ok_table ok_block pool s =
     (case s of None \<Rightarrow> Some (None, pool) | Some s \<Rightarrow> cbm_intern_n ok_table ok_block pool (Some s))"

definition cbm_intern_count :: "CBMInternPool option \<Rightarrow> u32" where
  "cbm_intern_count pool = (case pool of Some p \<Rightarrow> pcount p | None \<Rightarrow> 0)"

definition cbm_intern_bytes :: "CBMInternPool option \<Rightarrow> size_t" where
  "cbm_intern_bytes pool = (case pool of Some p \<Rightarrow> total_bytes p | None \<Rightarrow> 0)"

section \<open>Probing\<close>

lemma and_mask_index:
  assumes "k < 32"
  shows "unat ((w :: u32) AND (2 ^ k - 1)) = unat w mod 2 ^ k"
proof -
  have "w AND (2 ^ k - 1) = take_bit k w" by (simp add: take_bit_eq_mask mask_eq_decr_exp)
  then have "unat (w AND (2 ^ k - 1)) = take_bit k (unat w)" by (simp only: unsigned_take_bit_eq)
  then show ?thesis by (simp add: take_bit_eq_mod)
qed

lemma unat_pow: "n < 32 \<Longrightarrow> unat (2 ^ n :: u32) = 2 ^ n"
proof -
  assume "n < 32"
  then have "(2 :: nat) ^ n < 2 ^ 32" by (intro power_strict_increasing) simp_all
  then have "unat (of_nat (2 ^ n) :: u32) = 2 ^ n" by (simp only: unat_of_nat) (simp add: take_bit_nat_eq_self)
  then show ?thesis by simp
qed

lemma next_index:
  assumes "k < 32" "unat idx < 2 ^ k"
  shows "unat ((idx + 1 :: u32) AND (2 ^ k - 1)) = (unat idx + 1) mod 2 ^ k"
proof -
  have "(2 :: nat) ^ k \<le> 2 ^ 31" using assms(1) by (intro power_increasing) simp_all
  then have "unat (idx + 1) = unat idx + 1" using assms(2) by (simp add: unat_word_ariths)
  then show ?thesis using and_mask_index [OF assms(1)] by simp
qed

definition slot :: "nat \<Rightarrow> nat \<Rightarrow> nat \<Rightarrow> nat" where
  \<comment> \<open>the bucket \<open>d\<close> steps after \<open>i\<close> in a table of size \<open>N\<close>\<close>
  "slot N i d = (i + d) mod N"

definition stops :: "InternEntry list \<Rightarrow> (InternEntry \<Rightarrow> bool) \<Rightarrow> nat \<Rightarrow> bool" where
  "stops bs hit i \<longleftrightarrow> e_str (bs ! i) = None \<or> hit (bs ! i)"

lemma slot_lt [simp]: "0 < N \<Longrightarrow> slot N i d < N"
  by (simp add: slot_def)

lemma slot_0 [simp]: "i < N \<Longrightarrow> slot N i 0 = i"
  by (simp add: slot_def)

lemma slot_Suc: "slot N i (Suc d) = slot N ((i + 1) mod N) d"
  by (simp add: slot_def mod_add_left_eq)

lemma slot_surj: "i < N \<Longrightarrow> j < N \<Longrightarrow> \<exists>d < N. slot N i d = j"
proof -
  assume "i < N" "j < N"
  show ?thesis
  proof (cases "i \<le> j")
    case True
    then show ?thesis using \<open>j < N\<close> by (intro exI [of _ "j - i"]) (simp add: slot_def)
  next
    case False
    then show ?thesis
      using \<open>i < N\<close> \<open>j < N\<close> by (intro exI [of _ "N - i + j"]) (simp add: slot_def)
  qed
qed

lemma probe_first:
  assumes "k < 32" "unat idx < 2 ^ k" "stops bs hit (slot (2 ^ k) (unat idx) d)"
    "\<forall>d' < d. \<not> stops bs hit (slot (2 ^ k) (unat idx) d')"
  shows "\<exists>idx'. probe bs (2 ^ k - 1) hit idx = Some (idx', e_str (bs ! unat idx')) \<and>
    unat idx' = slot (2 ^ k) (unat idx) d"
  using assms
proof (induction d arbitrary: idx)
  case 0
  then show ?case by (subst probe.simps) (auto simp: stops_def Let_def)
next
  case (Suc d)
  let ?idx = "(idx + 1) AND (2 ^ k - 1)"
  have i: "unat ?idx = (unat idx + 1) mod 2 ^ k" using next_index [OF Suc.prems(1,2)] .
  have "\<not> stops bs hit (unat idx)" using Suc.prems(2) Suc.prems(4) [rule_format, of 0] by simp
  then have "probe bs (2 ^ k - 1) hit idx = probe bs (2 ^ k - 1) hit ?idx"
    by (subst probe.simps) (auto simp: stops_def Let_def)
  moreover have "unat ?idx < 2 ^ k" by (simp add: i)
  moreover have "stops bs hit (slot (2 ^ k) (unat ?idx) d)" using Suc.prems(3) by (simp add: i slot_Suc)
  moreover have "\<forall>d' < d. \<not> stops bs hit (slot (2 ^ k) (unat ?idx) d')"
  proof safe
    fix d' assume "d' < d" "stops bs hit (slot (2 ^ k) (unat ?idx) d')"
    then show False using Suc.prems(4) [rule_format, of "Suc d'"] by (simp add: i slot_Suc)
  qed
  ultimately show ?case using Suc.IH [of ?idx] Suc.prems(1) by (simp add: i slot_Suc)
qed

lemma probe_stops:
  assumes "k < 32" "unat idx < 2 ^ k" "j < 2 ^ k" "stops bs hit j"
  obtains d idx' where "probe bs (2 ^ k - 1) hit idx = Some (idx', e_str (bs ! unat idx'))"
    "unat idx' = slot (2 ^ k) (unat idx) d" "stops bs hit (unat idx')" "d < 2 ^ k"
    "\<forall>d' < d. \<not> stops bs hit (slot (2 ^ k) (unat idx) d')"
proof -
  obtain d0 where d0: "d0 < 2 ^ k" "stops bs hit (slot (2 ^ k) (unat idx) d0)"
    using slot_surj [OF assms(2,3)] assms(4) by auto
  define d where "d = (LEAST d. stops bs hit (slot (2 ^ k) (unat idx) d))"
  let ?S = "\<lambda>d. stops bs hit (slot (2 ^ k) (unat idx) d)"
  have d: "?S d" "d \<le> d0" "\<forall>d' < d. \<not> ?S d'"
    using LeastI [of ?S, OF d0(2)] Least_le [of ?S, OF d0(2)] not_less_Least [of _ ?S] unfolding d_def by blast+
  obtain idx' where "probe bs (2 ^ k - 1) hit idx = Some (idx', e_str (bs ! unat idx'))" "unat idx' = slot (2 ^ k) (unat idx) d"
    using probe_first [OF assms(1,2) d(1,3)] by blast
  then show ?thesis using that [of idx' d] d d0(1) by simp
qed

lemma probe_diverges:
  assumes "k < 32" "unat idx < 2 ^ k" "\<forall>j < 2 ^ k. \<not> stops bs hit j"
  shows "probe bs (2 ^ k - 1) hit idx = None"
proof -
  let ?P = "\<lambda>bs' (m :: u32) hit' (i :: u32) (r :: u32 \<times> ptr option). bs' = bs \<and> hit' = hit \<and> m = 2 ^ k - 1 \<longrightarrow> \<not> unat i < 2 ^ k"
  have "?P bs (2 ^ k - 1) hit idx r" if "probe bs (2 ^ k - 1) hit idx = Some r" for r
  proof (rule probe.raw_induct [of ?P, OF _ that], intro impI notI, elim conjE)
    fix probe' bs' m hit' i r
    assume IH: "\<And>bs' m hit' i r. probe' bs' m hit' i = Some r \<Longrightarrow> ?P bs' m hit' i r"
      and e: "(let e = bs' ! unat i in if e_str e = None then Some (i, None) else if hit' e then Some (i, e_str e)
               else probe' bs' m hit' ((i + 1) AND m)) = Some r"
      and eqs: "bs' = bs" "hit' = hit" "m = 2 ^ k - 1" and i: "unat i < 2 ^ k"
    have "\<not> stops bs hit (unat i)" using assms(3) i by simp
    then have "probe' bs m hit ((i + 1) AND m) = Some r" using e by (auto simp: eqs stops_def Let_def)
    from IH [OF this] show False using next_index [OF assms(1) i] by (simp add: eqs)
  qed
  then show ?thesis using assms(2) by (cases "probe bs (2 ^ k - 1) hit idx") auto
qed

section \<open>Invariant\<close>

definition key :: "CBMArena \<Rightarrow> InternEntry \<Rightarrow> string" where
  \<comment> \<open>the string of an entry\<close>
  "key a e = (case e_str e of None \<Rightarrow> [] | Some p \<Rightarrow> arena_str a p (unat (e_len e)))"

definition entry_ok :: "CBMArena \<Rightarrow> InternEntry \<Rightarrow> bool" where
  "entry_ok a e \<longleftrightarrow> (case e_str e of
      None \<Rightarrow> True
    | Some p \<Rightarrow> arena_live a p (unat (e_len e)) \<and> e_hash e = intern_hash (key a e))"

definition apart :: "CBMArena \<Rightarrow> InternEntry \<Rightarrow> InternEntry \<Rightarrow> bool" where
  \<comment> \<open>two entries hold different strings at different addresses\<close>
  "apart a e e' \<longleftrightarrow> e_str e \<noteq> None \<longrightarrow> e_str e' \<noteq> None \<longrightarrow> key a e \<noteq> key a e' \<and> e_str e \<noteq> e_str e'"

definition live :: "InternEntry list \<Rightarrow> InternEntry list" where
  "live bs = filter (\<lambda>e. e_str e \<noteq> None) bs"

definition path_full :: "nat \<Rightarrow> InternEntry list \<Rightarrow> InternEntry \<Rightarrow> nat \<Rightarrow> bool" where
  \<comment> \<open>no empty bucket in the \<open>d\<close> steps from the home bucket of the entry\<close>
  "path_full k bs e d \<longleftrightarrow> (\<forall>d' < d. e_str (bs ! slot (2 ^ k) (unat (e_hash e) mod 2 ^ k) d') \<noteq> None)"

definition table_ok :: "CBMArena \<Rightarrow> nat \<Rightarrow> InternEntry list \<Rightarrow> bool" where
  "table_ok a k bs \<longleftrightarrow> length bs = 2 ^ k \<and> (\<forall>e \<in> set bs. entry_ok a e) \<and> sorted_wrt (apart a) bs \<and>
     (\<forall>i < 2 ^ k. e_str (bs ! i) \<noteq> None \<longrightarrow>
        (\<exists>d < 2 ^ k. slot (2 ^ k) (unat (e_hash (bs ! i)) mod 2 ^ k) d = i \<and> path_full k bs (bs ! i) d))"

definition pool_ok :: "nat \<Rightarrow> CBMInternPool \<Rightarrow> bool" where
  "pool_ok k pool \<longleftrightarrow> k < 32 \<and> arena_inv (arena pool) \<and> table_ok (arena pool) k (buckets pool) \<and>
     pcapacity pool = 2 ^ k \<and> pmask pool = 2 ^ k - 1 \<and> unat (pcount pool) = length (live (buckets pool))"

definition pool_map :: "CBMInternPool \<Rightarrow> string \<Rightarrow> ptr option" where
  \<comment> \<open>the abstract contents: string to pointer\<close>
  "pool_map pool = map_of (map (\<lambda>e. (key (arena pool) e, the (e_str e))) (live (buckets pool)))"

lemma live_set: "e \<in> set (live bs) \<longleftrightarrow> e \<in> set bs \<and> e_str e \<noteq> None"
  by (auto simp: live_def)

lemma apart_sym: "apart a e e' \<Longrightarrow> apart a e' e"
  by (auto simp: apart_def)

lemma entry_is_iff:
  assumes "entry_ok a e" "length s < 2 ^ 32"
  shows "entry_is a (intern_hash s) s e \<longleftrightarrow> e_str e \<noteq> None \<and> key a e = s"
proof -
  have u: "unat (of_nat (length s) :: u32) = length s" using assms(2) by (simp add: unat_of_nat take_bit_nat_eq_self)
  have len: "length (arena_str a p n) = n" for p n by (simp add: arena_str_def)
  show ?thesis
  proof
    assume "entry_is a (intern_hash s) s e"
    then show "e_str e \<noteq> None \<and> key a e = s" using u by (auto simp: entry_is_def key_def split: option.splits)
  next
    assume r: "e_str e \<noteq> None \<and> key a e = s"
    then obtain p where p: "e_str e = Some p" "arena_str a p (unat (e_len e)) = s" by (auto simp: key_def)
    then have "unat (e_len e) = length s" using len by metis
    moreover from this have "e_len e = of_nat (length s)" using u by (simp add: word_unat_eq_iff)
    ultimately show "entry_is a (intern_hash s) s e" using p r assms(1) by (auto simp: entry_is_def entry_ok_def)
  qed
qed

lemma pool_map_iff:
  assumes "sorted_wrt (apart (arena pool)) (buckets pool)"
  shows "pool_map pool x = Some p \<longleftrightarrow> (\<exists>e \<in> set (buckets pool). e_str e = Some p \<and> key (arena pool) e = x)"
proof -
  let ?a = "arena pool"
  have "sorted_wrt (apart ?a) (live (buckets pool))" using assms by (simp add: live_def sorted_wrt_filter)
  then have "sorted_wrt (\<lambda>e e'. key ?a e \<noteq> key ?a e') (live (buckets pool))"
    by (rule sorted_wrt_mono_rel [rotated]) (auto simp: live_set apart_def)
  then have "distinct (map (key ?a) (live (buckets pool)))"
    by (auto simp: distinct_conv_nth sorted_wrt_iff_nth_less) (metis linorder_neqE_nat)
  then have "distinct (map fst (map (\<lambda>e. (key ?a e, the (e_str e))) (live (buckets pool))))" by (simp add: comp_def)
  then show ?thesis unfolding pool_map_def by (auto simp: map_of_eq_Some_iff live_set)
qed

lemma pool_map_live:
  assumes "sorted_wrt (apart (arena pool)) (buckets pool)"
  shows "pool_map pool x = Some p \<longleftrightarrow> (\<exists>e \<in> set (live (buckets pool)). e_str e = Some p \<and> key (arena pool) e = x)"
  using pool_map_iff [OF assms] by (auto simp: live_set)

lemma apart_nth:
  assumes "sorted_wrt (apart a) bs" "i < length bs" "j < length bs" "i \<noteq> j"
  shows "apart a (bs ! i) (bs ! j)"
  using assms apart_sym by (cases "i < j") (auto simp: sorted_wrt_iff_nth_less)

lemma live_update:
  assumes "i < length bs" "e_str (bs ! i) = None" "e_str e \<noteq> None"
  shows "set (live (bs[i := e])) = insert e (set (live bs))" "length (live (bs[i := e])) = Suc (length (live bs))"
proof -
  have bs: "bs = take i bs @ bs ! i # drop (Suc i) bs" using assms(1) by (rule id_take_nth_drop)
  have "live (bs[i := e]) = live (take i bs) @ e # live (drop (Suc i) bs)"
    using assms by (simp add: upd_conv_take_nth_drop live_def)
  moreover have "live bs = live (take i bs) @ live (drop (Suc i) bs)"
    using assms(2) by (subst bs) (simp add: live_def)
  ultimately show "set (live (bs[i := e])) = insert e (set (live bs))" "length (live (bs[i := e])) = Suc (length (live bs))"
    by auto
qed

lemma table_insert:
  assumes ok: "table_ok a k bs" and e: "entry_ok a e" "e_str e \<noteq> None" and new: "\<forall>e' \<in> set bs. apart a e' e"
    and j: "j = slot (2 ^ k) (unat (e_hash e) mod 2 ^ k) d" "d < 2 ^ k" "path_full k bs e d" "e_str (bs ! j) = None"
  shows "table_ok a k (bs[j := e])"
proof -
  have len: "length bs = 2 ^ k" using ok by (simp add: table_ok_def)
  have j': "j < 2 ^ k" using j(1) by simp
  have full: "path_full k (bs[j := e]) e' n" if "path_full k bs e' n" for e' n
    using that e(2) j' len by (auto simp: path_full_def nth_list_update)
  have "sorted_wrt (apart a) (bs[j := e])"
    unfolding sorted_wrt_iff_nth_less
  proof (intro allI impI)
    fix i i' assume "i < i'" "i' < length (bs[j := e])"
    then show "apart a (bs[j := e] ! i) (bs[j := e] ! i')"
      using ok new apart_sym len j' by (auto simp: table_ok_def sorted_wrt_iff_nth_less nth_list_update)
  qed
  moreover have "\<exists>d < 2 ^ k. slot (2 ^ k) (unat (e_hash (bs[j := e] ! i)) mod 2 ^ k) d = i \<and> path_full k (bs[j := e]) (bs[j := e] ! i) d"
    if "i < 2 ^ k" "e_str (bs[j := e] ! i) \<noteq> None" for i
  proof (cases "i = j")
    case True
    then show ?thesis using j full len j' by auto
  next
    case False
    then show ?thesis using ok full that by (fastforce simp: table_ok_def)
  qed
  moreover have "\<forall>e' \<in> set (bs[j := e]). entry_ok a e'"
    using ok e(1) by (auto simp: table_ok_def dest: subsetD [OF set_update_subset_insert])
  ultimately show ?thesis using len by (simp add: table_ok_def)
qed

section \<open>Lookup and insertion\<close>

lemma home_index: "k < 32 \<Longrightarrow> unat (h AND (2 ^ k - 1 :: u32)) = unat h mod 2 ^ k"
  by (rule and_mask_index)

lemma probe_home:
  assumes "k < 32" "j < 2 ^ k" "stops bs hit j"
  obtains d idx where "probe bs (2 ^ k - 1) hit (h AND (2 ^ k - 1)) = Some (idx, e_str (bs ! unat idx))"
    "unat idx = slot (2 ^ k) (unat h mod 2 ^ k) d" "stops bs hit (unat idx)" "d < 2 ^ k"
    "\<forall>d' < d. \<not> stops bs hit (slot (2 ^ k) (unat h mod 2 ^ k) d')"
proof -
  have "unat (h AND (2 ^ k - 1)) < 2 ^ k" by (simp add: home_index [OF assms(1)])
  from probe_stops [OF assms(1) this assms(2,3)] that show thesis unfolding home_index [OF assms(1)] by blast
qed

lemma room_stops:
  assumes "length bs = 2 ^ k" "length (live bs) < 2 ^ k"
  shows "\<exists>j < 2 ^ k. e_str (bs ! j) = None"
proof (rule ccontr)
  assume "\<not> ?thesis"
  then have "live bs = bs" using assms(1) by (auto simp: live_def filter_id_conv in_set_conv_nth)
  then show False using assms by simp
qed

lemma probe_lookup:
  assumes k: "k < 32" and ok: "table_ok a k bs" and room: "length (live bs) < 2 ^ k" and s: "length s < 2 ^ 32"
  shows "(\<exists>idx e. e \<in> set bs \<and> key a e = s \<and> e_str e \<noteq> None \<and>
            probe bs (2 ^ k - 1) (entry_is a (intern_hash s) s) (intern_hash s AND (2 ^ k - 1)) = Some (idx, e_str e)) \<or>
         (\<exists>idx d. probe bs (2 ^ k - 1) (entry_is a (intern_hash s) s) (intern_hash s AND (2 ^ k - 1)) = Some (idx, None) \<and>
            e_str (bs ! unat idx) = None \<and> unat idx = slot (2 ^ k) (unat (intern_hash s) mod 2 ^ k) d \<and> d < 2 ^ k \<and>
            (\<forall>d' < d. e_str (bs ! slot (2 ^ k) (unat (intern_hash s) mod 2 ^ k) d') \<noteq> None) \<and>
            (\<forall>e \<in> set bs. e_str e \<noteq> None \<longrightarrow> key a e \<noteq> s))"
proof -
  let ?h = "intern_hash s" and ?hit = "entry_is a (intern_hash s) s"
  let ?home = "unat ?h mod 2 ^ k"
  have len: "length bs = 2 ^ k" using ok by (simp add: table_ok_def)
  obtain j where j: "j < 2 ^ k" "stops bs ?hit j" using room_stops [OF len room] by (auto simp: stops_def)
  obtain d idx where p: "probe bs (2 ^ k - 1) ?hit (?h AND (2 ^ k - 1)) = Some (idx, e_str (bs ! unat idx))"
    and i: "unat idx = slot (2 ^ k) ?home d" and st: "stops bs ?hit (unat idx)" and d: "d < 2 ^ k"
    and before: "\<forall>d' < d. \<not> stops bs ?hit (slot (2 ^ k) ?home d')"
    using probe_home [OF k j] by blast
  have lt: "unat idx < 2 ^ k" by (simp add: i)
  then have mem: "bs ! unat idx \<in> set bs" using len by simp
  have hit: "?hit e \<longleftrightarrow> e_str e \<noteq> None \<and> key a e = s" if "e \<in> set bs" for e
    using ok that s by (simp add: table_ok_def entry_is_iff)
  show ?thesis
  proof (cases "e_str (bs ! unat idx)")
    case (Some q)
    then have "key a (bs ! unat idx) = s" using st hit [OF mem] by (simp add: stops_def)
    then show ?thesis using p Some mem by fastforce
  next
    case None
    have "key a e \<noteq> s" if e: "e \<in> set bs" "e_str e \<noteq> None" for e
    proof
      assume eq: "key a e = s"
      obtain i where i': "i < 2 ^ k" "e = bs ! i" using e(1) len by (auto simp: in_set_conv_nth)
      have he: "e_hash e = ?h" using ok e eq by (auto simp: table_ok_def entry_ok_def)
      obtain d0 where d0: "slot (2 ^ k) ?home d0 = i" "path_full k bs e d0"
        using ok i' e(2) he unfolding table_ok_def by metis
      have "\<not> d0 < d" using before hit [OF e(1)] e(2) eq d0(1) i'(2) by (auto simp: stops_def)
      moreover have "d \<noteq> d0" using None i d0(1) i'(2) e(2) by auto
      ultimately have "d < d0" by simp
      then show False using d0(2) None i he by (auto simp: path_full_def)
    qed
    then show ?thesis using p None i d before by (auto simp: stops_def)
  qed
qed

lemma free_slot_found:
  assumes k: "k < 32" and ok: "table_ok a k bs" and room: "length (live bs) < 2 ^ k"
  shows "\<exists>idx d. free_slot bs (2 ^ k - 1) (h AND (2 ^ k - 1)) = Some idx \<and> unat idx = slot (2 ^ k) (unat h mod 2 ^ k) d \<and>
    d < 2 ^ k \<and> e_str (bs ! unat idx) = None \<and> (\<forall>d' < d. e_str (bs ! slot (2 ^ k) (unat h mod 2 ^ k) d') \<noteq> None)"
proof -
  have "length bs = 2 ^ k" using ok by (simp add: table_ok_def)
  then obtain j where j: "j < 2 ^ k" "stops bs (\<lambda>_. False) j" using room_stops room by (auto simp: stops_def)
  show ?thesis by (rule probe_home [OF k j, of h]) (auto simp: free_slot_def stops_def)
qed

lemma free_slot_insert:
  assumes k: "k < 32" and ok: "table_ok a k bs" and room: "length (live bs) < 2 ^ k"
    and e: "entry_ok a e" "e_str e \<noteq> None" "\<forall>e' \<in> set bs. apart a e' e"
  shows "\<exists>idx. free_slot bs (2 ^ k - 1) (e_hash e AND (2 ^ k - 1)) = Some idx \<and> unat idx < 2 ^ k \<and>
    e_str (bs ! unat idx) = None \<and> table_ok a k (bs[unat idx := e])"
proof -
  obtain idx d where "free_slot bs (2 ^ k - 1) (e_hash e AND (2 ^ k - 1)) = Some idx"
    "unat idx = slot (2 ^ k) (unat (e_hash e) mod 2 ^ k) d" "d < 2 ^ k" "e_str (bs ! unat idx) = None" "path_full k bs e d"
    using free_slot_found [OF k ok room, of "e_hash e"] unfolding path_full_def by blast
  then show ?thesis using table_insert [OF ok e, of "unat idx" d] by simp
qed

lemma rehash_loop_ok:
  assumes k: "k < 32" and "table_ok a k nb" "\<forall>e \<in> set es. entry_ok a e" "sorted_wrt (apart a) es"
    "\<forall>e \<in> set es. \<forall>e' \<in> set nb. apart a e' e" "length (live nb) + length (live es) < 2 ^ k"
  shows "\<exists>nb'. rehash_loop (2 ^ k - 1) es nb = Some nb' \<and> table_ok a k nb' \<and>
    set (live nb') = set (live nb) \<union> set (live es) \<and> length (live nb') = length (live nb) + length (live es)"
  using assms(2-)
proof (induction es arbitrary: nb)
  case Nil
  then show ?case by (simp add: live_def)
next
  case (Cons e es)
  show ?case
  proof (cases "e_str e = None")
    case True
    then have "live (e # es) = live es" by (simp add: live_def)
    then show ?thesis using Cons True by (simp add: rehash_entry_def)
  next
    case False
    then have live: "live (e # es) = e # live es" by (simp add: live_def)
    have "length (live nb) < 2 ^ k" using Cons.prems(5) live by simp
    then obtain idx where idx: "free_slot nb (2 ^ k - 1) (e_hash e AND (2 ^ k - 1)) = Some idx" "unat idx < 2 ^ k"
      "e_str (nb ! unat idx) = None" "table_ok a k (nb[unat idx := e])"
      using free_slot_insert [OF k Cons.prems(1), of e] Cons.prems(2,4) False by auto
    let ?nb = "nb[unat idx := e]"
    have "unat idx < length nb" using idx(2) Cons.prems(1) by (simp add: table_ok_def)
    note up = live_update [OF this idx(3) False]
    have "\<forall>e1 \<in> set es. \<forall>e' \<in> set ?nb. apart a e' e1"
      using Cons.prems(3,4) by (auto dest: subsetD [OF set_update_subset_insert])
    then obtain nb' where "rehash_loop (2 ^ k - 1) es ?nb = Some nb'" "table_ok a k nb'"
      "set (live nb') = set (live ?nb) \<union> set (live es)" "length (live nb') = length (live ?nb) + length (live es)"
      using Cons.IH [OF idx(4)] Cons.prems up live by auto
    then show ?thesis using False idx(1) up live by (auto simp: rehash_entry_def)
  qed
qed

lemma empty_table_ok: "table_ok a k (replicate (2 ^ k) zero_entry)" "live (replicate n zero_entry) = []"
  by (auto simp: table_ok_def zero_entry_def entry_ok_def apart_def live_def sorted_wrt_iff_nth_less)

lemma intern_create_ok: "cbm_intern_create p a b m = Some pool \<Longrightarrow> pool_ok 8 pool \<and> pool_map pool = Map.empty"
  using empty_table_ok(1) [of _ 8]
  by (auto simp: cbm_intern_create_def pool_ok_def pool_map_def empty_table_ok(2) cbm_arena_init_def arena_inv_init_sized
      split: if_splits)

lemma intern_resize_ok:
  assumes ok: "pool_ok k pool" and k: "k < 31" and room: "length (live (buckets pool)) < 2 ^ k"
  shows "\<exists>pool'. intern_resize ok pool = Some pool' \<and> pool_ok (if ok then Suc k else k) pool' \<and>
    set (live (buckets pool')) = set (live (buckets pool)) \<and> arena pool' = arena pool \<and> pcount pool' = pcount pool"
proof (cases ok)
  case False
  then show ?thesis using assms(1) by (auto simp: intern_resize_def)
next
  case True
  let ?a = "arena pool" and ?nb = "replicate (2 ^ Suc k) zero_entry :: InternEntry list"
  have cap: "pcapacity pool * 2 = 2 ^ Suc k" using ok by (simp add: pool_ok_def)
  have "unat (2 ^ Suc k :: u32) = 2 ^ Suc k" using k by (simp only: unat_pow)
  moreover have t: "table_ok ?a k (buckets pool)" using ok by (simp add: pool_ok_def)
  have "length (live ?nb) + length (live (buckets pool)) < 2 ^ Suc k" using room by (simp add: empty_table_ok(2))
  then obtain nb where "rehash_loop (2 ^ Suc k - 1) (buckets pool) ?nb = Some nb" "table_ok ?a (Suc k) nb"
    "set (live nb) = set (live (buckets pool))" "length (live nb) = length (live (buckets pool))"
    using rehash_loop_ok [of "Suc k" ?a ?nb "buckets pool"] k t empty_table_ok
    by (auto simp: table_ok_def apart_def zero_entry_def simp del: power_Suc)
  ultimately show ?thesis
    using True ok k cap by (auto simp: intern_resize_def pool_ok_def Let_def simp del: power_Suc)
qed

section \<open>Interning\<close>

lemma option_eqI: "(\<And>q. x = Some q \<longleftrightarrow> y = Some q) \<Longrightarrow> x = y"
  by (cases x; cases y) auto

lemma store_ok:
  assumes ok: "pool_ok k pool" and s: "length s < 2 ^ 32" and room: "length (live (buckets pool)) < 2 ^ k"
    and idx: "unat idx < 2 ^ k" "e_str (buckets pool ! unat idx) = None"
    and place: "\<And>a e. table_ok a k (buckets pool) \<Longrightarrow> entry_ok a e \<Longrightarrow> e_str e \<noteq> None \<Longrightarrow> e_hash e = intern_hash s \<Longrightarrow>
      \<forall>e' \<in> set (buckets pool). apart a e' e \<Longrightarrow> table_ok a k ((buckets pool)[unat idx := e])"
    and new: "\<forall>e \<in> set (buckets pool). e_str e \<noteq> None \<longrightarrow> key (arena pool) e \<noteq> s"
    and st: "intern_store okb pool (intern_hash s) idx s = (r, pool')"
  shows "pool_ok k pool' \<and> (case r of
      None \<Rightarrow> pool' = pool
    | Some p \<Rightarrow> pool_map pool' = (pool_map pool)(s \<mapsto> p) \<and> p \<notin> ran (pool_map pool) \<and> arena_str (arena pool') p (length s) = s \<and>
        length (live (buckets pool')) = Suc (length (live (buckets pool))))"
proof -
  let ?a = "arena pool" and ?bs = "buckets pool"
  have inv: "arena_inv ?a" and t: "table_ok ?a k ?bs" and k: "k < 32" using ok by (simp_all add: pool_ok_def)
  have s63: "length s < 2 ^ 63" using s by simp
  have u: "unat (of_nat (length s) :: u32) = length s" using s by (simp add: unat_of_nat take_bit_nat_eq_self)
  obtain r' a' where dup: "arena_dup okb ?a s = (r', a')" by (cases "arena_dup okb ?a s") auto
  show ?thesis
  proof (cases r')
    case None
    then have "a' = ?a" using dup ar.dup_fail by blast
    then show ?thesis using None dup st ok by (auto simp: intern_store_def arena_dup_def)
  next
    case (Some p)
    let ?e = "\<lparr>e_str = Some p, e_hash = intern_hash s, e_len = of_nat (length s)\<rparr> :: InternEntry"
    have p': "pool' = pool\<lparr>arena := a', buckets := ?bs[unat idx := ?e], pcount := pcount pool + 1,
        total_bytes := total_bytes pool + of_nat (length s)\<rparr>" "r = Some p"
      using Some dup st by (auto simp: intern_store_def arena_dup_def)
    note d = dup [unfolded Some]
    have inv': "arena_inv a'" using ar.dup_inv [OF inv s63 d] .
    have cont: "arena_live a' p (length s)" "arena_str a' p (length s) = s" using ar.dup_content [OF inv s63 d] by simp_all
    have keeps: "entry_ok a' e \<and> key a' e = key ?a e \<and> e_str e \<noteq> Some p" if "entry_ok ?a e" for e
      using that ar.dup_keeps [OF inv s63 d] by (auto simp: entry_ok_def key_def split: option.splits)
    have all: "entry_ok ?a e" if "e \<in> set ?bs" for e using t that by (simp add: table_ok_def)
    have "apart a' e1 e2" if "e1 \<in> set ?bs" "e2 \<in> set ?bs" "apart ?a e1 e2" for e1 e2
      using that(3) keeps [OF all [OF that(1)]] keeps [OF all [OF that(2)]] by (simp add: apart_def)
    then have "sorted_wrt (apart a') ?bs"
      using t sorted_wrt_mono_rel [of ?bs "apart ?a" "apart a'"] by (simp add: table_ok_def)
    then have t': "table_ok a' k ?bs" using t keeps all by (auto simp: table_ok_def)
    have e: "entry_ok a' ?e" "key a' ?e = s" using cont u by (simp_all add: entry_ok_def key_def)
    have ap: "\<forall>e' \<in> set ?bs. apart a' e' ?e" using new keeps all e(2) by (auto simp: apart_def)
    have t2: "table_ok a' k (?bs[unat idx := ?e])" using place [OF t' e(1) _ _ ap] by simp
    have len: "length ?bs = 2 ^ k" using t by (simp add: table_ok_def)
    note up = live_update [of "unat idx" ?bs ?e, OF _ idx(2)]
    have "(2 :: nat) ^ k \<le> 2 ^ 31" using k by (intro power_increasing) simp_all
    then have "unat (pcount pool + 1) = Suc (length (live ?bs))"
      using ok room by (simp add: pool_ok_def unat_word_ariths)
    then have "pool_ok k pool'" using ok p' inv' t2 up idx(1) len by (simp add: pool_ok_def)
    have "sorted_wrt (apart ?a) ?bs" using t by (simp add: table_ok_def)
    note m = pool_map_live [OF this]
    have sel: "arena pool' = a'" "set (live (buckets pool')) = insert ?e (set (live ?bs))"
      and "sorted_wrt (apart (arena pool')) (buckets pool')"
      using p'(1) up(1) idx(1) len t2 by (simp_all add: table_ok_def)
    note m' = pool_map_live [OF this(3), unfolded sel]
    have old: "key a' e = key ?a e" "key a' e \<noteq> s" "e_str e \<noteq> Some p" if "e \<in> set (live ?bs)" for e
      using that keeps all new by (auto simp: live_set)
    have "pool_map pool' x = Some q \<longleftrightarrow> ((pool_map pool)(s \<mapsto> p)) x = Some q" for x q
      using old e(2) by (auto simp: m m')
    then have "pool_map pool' = (pool_map pool)(s \<mapsto> p)" by (intro ext option_eqI) blast
    moreover have "p \<notin> ran (pool_map pool)" using old(3) by (auto simp: ran_def m)
    ultimately show ?thesis using \<open>pool_ok k pool'\<close> p' cont(2) up(2) idx(1) len by simp
  qed
qed

lemma pool_map_cong:
  assumes "pool_ok k pool" "pool_ok k' pool'" "set (live (buckets pool')) = set (live (buckets pool))" "arena pool' = arena pool"
  shows "pool_map pool' = pool_map pool"
proof -
  have "sorted_wrt (apart (arena pool)) (buckets pool)" "sorted_wrt (apart (arena pool')) (buckets pool')"
    using assms(1,2) by (simp_all add: pool_ok_def table_ok_def)
  then have "pool_map pool' x = Some q \<longleftrightarrow> pool_map pool x = Some q" for x q
    using assms(3,4) by (simp add: pool_map_live)
  then show ?thesis by (intro ext option_eqI) blast
qed

text \<open>
  The pool with room for one more string; the table is never more than about three times as large as its
  contents need, so the 32-bit comparison of the load does not wrap below \<open>2 ^ 26\<close> strings.
\<close>

definition pool_inv :: "CBMInternPool \<Rightarrow> bool" where
  "pool_inv pool \<longleftrightarrow> (\<exists>k. pool_ok k pool \<and> 8 \<le> k \<and> unat (pcount pool) < 2 ^ k \<and>
     (k = 8 \<or> 7 * 2 ^ k \<le> 20 * unat (pcount pool)))"

lemma load_test:
  assumes "k \<le> 28" "unat c < 2 ^ k"
  shows "c * 10 \<ge> (2 ^ k :: u32) * 7 \<longleftrightarrow> 7 * 2 ^ k \<le> 10 * unat c"
proof -
  have le: "(2 :: nat) ^ k \<le> 2 ^ 28" using assms(1) by (intro power_increasing) simp_all
  have "unat (c * 10) = unat c * 10" using assms(2) le by (simp add: unat_word_ariths)
  moreover have "unat ((2 ^ k :: u32) * 7) = 2 ^ k * 7"
    using assms(1) le by (simp add: unat_word_ariths unat_pow)
  ultimately show ?thesis by (simp add: word_le_nat_alt mult.commute)
qed

lemma small_table:
  assumes "k = 8 \<or> 7 * 2 ^ k \<le> 20 * n" "n < (2 :: nat) ^ 26"
  shows "k \<le> 27"
proof (rule ccontr)
  assume "\<not> k \<le> 27"
  then have "(2 :: nat) ^ 28 \<le> 2 ^ k" by (intro power_increasing) simp_all
  then show False using assms \<open>\<not> k \<le> 27\<close> by auto
qed

lemma store_found_slot:
  assumes ok: "pool_ok k pool" and room: "unat (pcount pool) < 2 ^ k" and s: "length s < 2 ^ 32"
    and new: "\<forall>e \<in> set (buckets pool). e_str e \<noteq> None \<longrightarrow> key (arena pool) e \<noteq> s"
    and slot: "unat idx = slot (2 ^ k) (unat (intern_hash s) mod 2 ^ k) d" "d < 2 ^ k" "e_str (buckets pool ! unat idx) = None"
      "\<forall>d' < d. e_str (buckets pool ! slot (2 ^ k) (unat (intern_hash s) mod 2 ^ k) d') \<noteq> None"
    and st: "intern_store okb pool (intern_hash s) idx s = (r, pool')"
  shows "pool_ok k pool' \<and> (case r of
      None \<Rightarrow> pool' = pool
    | Some p \<Rightarrow> pool_map pool' = (pool_map pool)(s \<mapsto> p) \<and> p \<notin> ran (pool_map pool) \<and> arena_str (arena pool') p (length s) = s \<and>
        length (live (buckets pool')) = Suc (length (live (buckets pool))))"
proof (rule store_ok [OF ok s _ _ slot(3) _ new st])
  show "length (live (buckets pool)) < 2 ^ k" using ok room by (simp add: pool_ok_def)
  show "unat idx < 2 ^ k" by (simp add: slot(1))
  fix a e
  assume "table_ok a k (buckets pool)" "entry_ok a e" "e_str e \<noteq> None" "e_hash e = intern_hash s"
    "\<forall>e' \<in> set (buckets pool). apart a e' e"
  then show "table_ok a k ((buckets pool)[unat idx := e])"
    using slot table_insert [of a k "buckets pool" e "unat idx" d] by (simp add: path_full_def)
qed

definition intern_post :: "CBMInternPool \<Rightarrow> string \<Rightarrow> ptr option \<Rightarrow> CBMInternPool \<Rightarrow> bool" where
  \<comment> \<open>what interning \<open>s\<close> promises: the old pointer of a known string, a new one otherwise\<close>
  "intern_post pool s r pool' \<longleftrightarrow> (case r of
      None \<Rightarrow> pool_map pool s = None \<and> pool_map pool' = pool_map pool
    | Some p \<Rightarrow> pool_map pool' = (pool_map pool)(s \<mapsto> p) \<and> arena_str (arena pool') p (length s) = s \<and>
        (case pool_map pool s of Some q \<Rightarrow> p = q | None \<Rightarrow> p \<notin> ran (pool_map pool)))"

lemma store_post:
  assumes ok: "pool_ok k pool" and ok1: "pool_ok k1 pool1"
    and same: "set (live (buckets pool1)) = set (live (buckets pool))" "arena pool1 = arena pool" "pcount pool1 = pcount pool"
    and room: "unat (pcount pool) < 2 ^ k1" and s: "length s < 2 ^ 32"
    and new: "\<forall>e \<in> set (buckets pool). e_str e \<noteq> None \<longrightarrow> key (arena pool) e \<noteq> s"
    and slot: "unat idx = slot (2 ^ k1) (unat (intern_hash s) mod 2 ^ k1) d" "d < 2 ^ k1" "e_str (buckets pool1 ! unat idx) = None"
      "\<forall>d' < d. e_str (buckets pool1 ! slot (2 ^ k1) (unat (intern_hash s) mod 2 ^ k1) d') \<noteq> None"
    and st: "intern_store okb pool1 (intern_hash s) idx s = (r, pool')"
  shows "pool_ok k1 pool' \<and> intern_post pool s r pool' \<and> unat (pcount pool') \<le> Suc (unat (pcount pool)) \<and>
    unat (pcount pool) \<le> unat (pcount pool')"
proof -
  have new1: "\<forall>e \<in> set (buckets pool1). e_str e \<noteq> None \<longrightarrow> key (arena pool1) e \<noteq> s"
    using new same(1,2) by (metis live_set)
  have map1: "pool_map pool1 = pool_map pool" using pool_map_cong [OF ok ok1 same(1,2)] .
  have fresh: "pool_map pool s = None"
  proof (rule ccontr)
    assume "pool_map pool s \<noteq> None"
    then obtain q where "pool_map pool s = Some q" by blast
    moreover have "sorted_wrt (apart (arena pool)) (buckets pool)" using ok by (simp add: pool_ok_def table_ok_def)
    ultimately show False using new pool_map_iff [of pool s q] by auto
  qed
  note st' = store_found_slot [OF ok1 _ s new1 slot st, unfolded map1 same(3)]
  have "unat (pcount pool1) = length (live (buckets pool1))" "pool_ok k1 pool' \<Longrightarrow> unat (pcount pool') = length (live (buckets pool'))"
    using ok1 by (simp_all add: pool_ok_def)
  then show ?thesis
    using st' [OF room] fresh map1 same(3) by (auto simp: intern_post_def split: option.splits)
qed

lemma intern_n_ok:
  assumes inv: "pool_inv pool" and small: "unat (pcount pool) < 2 ^ 26" and s: "length s < 2 ^ 32"
  shows "\<exists>r pool' k. cbm_intern_n okt okb pool (Some s) = Some (r, pool') \<and> pool_ok k pool' \<and>
    (okt \<or> unat (pcount pool) < 255 \<longrightarrow> pool_inv pool') \<and>
    intern_post pool s r pool' \<and> unat (pcount pool') \<le> Suc (unat (pcount pool))"
proof -
  let ?a = "arena pool" and ?bs = "buckets pool" and ?h = "intern_hash s" and ?c = "unat (pcount pool)"
  obtain k where ok: "pool_ok k pool" and k8: "8 \<le> k" and room: "?c < 2 ^ k" and size: "k = 8 \<or> 7 * 2 ^ k \<le> 20 * ?c"
    using inv unfolding pool_inv_def by blast
  have k: "k \<le> 27" using small_table [OF size small] .
  have t: "table_ok ?a k ?bs" and msk: "pmask pool = 2 ^ k - 1" and cap: "pcapacity pool = 2 ^ k"
    and cnt: "?c = length (live ?bs)" using ok by (simp_all add: pool_ok_def)
  have k32: "k < 32" using k by simp
  have big: "256 \<le> (2 :: nat) ^ k" using power_increasing [OF k8, of "2 :: nat"] by simp
  have "length (live ?bs) < 2 ^ k" using room cnt by simp
  from probe_lookup [OF k32 t this s] show ?thesis
  proof (elim disjE exE conjE)
    fix idx e
    assume e: "e \<in> set ?bs" "key ?a e = s" "e_str e \<noteq> None"
      and p: "probe ?bs (2 ^ k - 1) (entry_is ?a ?h s) (?h AND (2 ^ k - 1)) = Some (idx, e_str e)"
    obtain q where q: "e_str e = Some q" using e(3) by blast
    then have "pool_map pool s = Some q" using pool_map_iff [of pool s q] t e by (auto simp: table_ok_def)
    moreover from this have "(pool_map pool)(s \<mapsto> q) = pool_map pool" by auto
    moreover have "arena_str ?a q (length s) = s"
      using e(2) q by (auto simp: key_def arena_str_def)
    ultimately show ?thesis
      using p q msk ok inv by (auto simp: cbm_intern_n_def Let_def intern_post_def)
  next
    fix idx d
    assume p: "probe ?bs (2 ^ k - 1) (entry_is ?a ?h s) (?h AND (2 ^ k - 1)) = Some (idx, None)"
      and slot: "e_str (?bs ! unat idx) = None" "unat idx = slot (2 ^ k) (unat ?h mod 2 ^ k) d" "d < 2 ^ k"
        "\<forall>d' < d. e_str (?bs ! slot (2 ^ k) (unat ?h mod 2 ^ k) d') \<noteq> None"
      and new: "\<forall>e \<in> set ?bs. e_str e \<noteq> None \<longrightarrow> key ?a e \<noteq> s"
    have load: "pcount pool * 10 \<ge> pcapacity pool * 7 \<longleftrightarrow> 7 * 2 ^ k \<le> 10 * ?c"
      using load_test [of k "pcount pool"] k room cap by simp
    show ?thesis
    proof (cases "7 * 2 ^ k \<le> 10 * ?c")
      case False
      obtain r pool' where st: "intern_store okb pool ?h idx s = (r, pool')" by (cases "intern_store okb pool ?h idx s") auto
      note post = store_post [OF ok ok refl refl refl room s new slot(2,3,1,4) st]
      have "unat (pcount pool') < 2 ^ k" using post False big by linarith
      then have "pool_inv pool'" using post k8 size unfolding pool_inv_def by (intro exI [of _ k]) auto
      moreover have "cbm_intern_n okt okb pool (Some s) = Some (r, pool')"
        using p msk st load False by (simp add: cbm_intern_n_def Let_def)
      ultimately show ?thesis using post by blast
    next
      case True
      obtain pool1 where rs: "intern_resize okt pool = Some pool1" "pool_ok (if okt then Suc k else k) pool1"
        and same: "set (live (buckets pool1)) = set (live ?bs)" "arena pool1 = ?a" "pcount pool1 = pcount pool"
        using intern_resize_ok [OF ok, of okt] k room cnt by auto
      define k1 where "k1 = (if okt then Suc k else k)"
      have ok1: "pool_ok k1 pool1" using rs(2) by (simp add: k1_def)
      have room1: "?c < 2 ^ k1" using room by (simp add: k1_def)
      have "table_ok (arena pool1) k1 (buckets pool1)" "pmask pool1 = 2 ^ k1 - 1" "k1 < 32" "length (live (buckets pool1)) < 2 ^ k1"
        using ok1 room1 same(3) by (simp_all add: pool_ok_def)
      then obtain idx1 d1 where fs: "free_slot (buckets pool1) (pmask pool1) (?h AND pmask pool1) = Some idx1"
        and slot1: "unat idx1 = slot (2 ^ k1) (unat ?h mod 2 ^ k1) d1" "d1 < 2 ^ k1" "e_str (buckets pool1 ! unat idx1) = None"
          "\<forall>d' < d1. e_str (buckets pool1 ! slot (2 ^ k1) (unat ?h mod 2 ^ k1) d') \<noteq> None"
        using free_slot_found [of k1 "arena pool1" "buckets pool1" ?h] by auto
      obtain r pool' where st: "intern_store okb pool1 ?h idx1 s = (r, pool')" by (cases "intern_store okb pool1 ?h idx1 s") auto
      note post = store_post [OF ok ok1 same room1 s new slot1 st]
      have "pool_inv pool'" if "okt \<or> ?c < 255"
      proof -
        have "unat (pcount pool') < 2 ^ k1" "k1 = 8 \<or> 7 * 2 ^ k1 \<le> 20 * unat (pcount pool')"
          using post room big True that size by (auto simp: k1_def)
        then show ?thesis using post k8 unfolding pool_inv_def by (intro exI [of _ k1]) (simp add: k1_def)
      qed
      moreover have "cbm_intern_n okt okb pool (Some s) = Some (r, pool')"
        using p msk st load True rs(1) fs by (simp add: cbm_intern_n_def Let_def)
      ultimately show ?thesis using post by blast
    qed
  qed
qed

section \<open>What clients rely on\<close>

fun run_ops :: "('s \<Rightarrow> 'x \<Rightarrow> ('r \<times> 's) option) \<Rightarrow> 's \<Rightarrow> 'x list \<Rightarrow> ('r list \<times> 's) option" where
  \<comment> \<open>a sequence of calls and their results\<close>
  "run_ops f s [] = Some ([], s)"
| "run_ops f s (x # xs) =
     (case f s x of
        None \<Rightarrow> None
      | Some (r, s) \<Rightarrow> (case run_ops f s xs of None \<Rightarrow> None | Some (rs, s) \<Rightarrow> Some (r # rs, s)))"

text \<open>
  A call is its string together with what becomes of the two allocations it may make: that of a
  larger table and that of a block of the arena. \<open>inv n\<close> holds of a pool after at most \<open>n\<close> calls.
\<close>

type_synonym intern_call = "bool \<times> bool \<times> string"

abbreviation grows_table :: "intern_call \<Rightarrow> bool" where "grows_table x \<equiv> fst x"
abbreviation gets_block :: "intern_call \<Rightarrow> bool" where "gets_block x \<equiv> fst (snd x)"
abbreviation interned :: "intern_call \<Rightarrow> string" where "interned x \<equiv> snd (snd x)"

locale interner =
  fixes inv :: "nat \<Rightarrow> 's \<Rightarrow> bool"
    and usable :: "'s \<Rightarrow> bool"
    and small limit :: nat
    and intern :: "'s \<Rightarrow> intern_call \<Rightarrow> ('p option \<times> 's) option"
    and contents :: "'s \<Rightarrow> string \<Rightarrow> 'p option"
    and text_at :: "'s \<Rightarrow> 'p \<Rightarrow> nat \<Rightarrow> string"
  assumes intern_law: "inv n s \<Longrightarrow> n < limit \<Longrightarrow> grows_table x \<or> n < small \<Longrightarrow> length (interned x) < 2 ^ 32 \<Longrightarrow>
      \<exists>r s'. intern s x = Some (r, s') \<and> inv (Suc n) s' \<and> usable s' = usable s \<and> contents s \<subseteq>\<^sub>m contents s' \<and>
        (\<forall>p. r = Some p \<longrightarrow> contents s' (interned x) = Some p) \<and> (r = None \<longrightarrow> \<not> (usable s \<and> gets_block x))"
    and injective: "inv n s \<Longrightarrow> contents s t = Some p \<Longrightarrow> contents s u = Some p \<Longrightarrow> t = u"
    and readable: "inv n s \<Longrightarrow> contents s t = Some p \<Longrightarrow> text_at s p (length t) = t"
begin

lemma run_law:
  assumes "inv n s" "n + length xs \<le> limit" "n + length xs \<le> small \<or> (\<forall>x \<in> set xs. grows_table x)"
    "\<forall>x \<in> set xs. length (interned x) < 2 ^ 32"
  shows "\<exists>rs s'. run_ops intern s xs = Some (rs, s') \<and> inv (n + length xs) s' \<and> length rs = length xs \<and>
    contents s \<subseteq>\<^sub>m contents s' \<and>
    (\<forall>i < length xs. (\<forall>p. rs ! i = Some p \<longrightarrow> contents s' (interned (xs ! i)) = Some p) \<and>
       (rs ! i = None \<longrightarrow> \<not> (usable s \<and> gets_block (xs ! i))))"
  using assms
proof (induction xs arbitrary: s n)
  case Nil
  then show ?case by simp
next
  case (Cons x xs)
  have "n < limit" "grows_table x \<or> n < small" "length (interned x) < 2 ^ 32" using Cons.prems by auto
  from intern_law [OF Cons.prems(1) this]
  obtain r s1 where 1: "intern s x = Some (r, s1)" "inv (Suc n) s1" "usable s1 = usable s" "contents s \<subseteq>\<^sub>m contents s1"
    "\<forall>p. r = Some p \<longrightarrow> contents s1 (interned x) = Some p" "r = None \<longrightarrow> \<not> (usable s \<and> gets_block x)" by blast
  have "Suc n + length xs \<le> limit" "Suc n + length xs \<le> small \<or> (\<forall>x \<in> set xs. grows_table x)"
    "\<forall>x \<in> set xs. length (interned x) < 2 ^ 32" using Cons.prems by auto
  from Cons.IH [OF 1(2) this]
  obtain rs s2 where 2: "run_ops intern s1 xs = Some (rs, s2)" "inv (Suc n + length xs) s2" "length rs = length xs"
    "contents s1 \<subseteq>\<^sub>m contents s2"
    and at: "\<forall>i < length xs. (\<forall>p. rs ! i = Some p \<longrightarrow> contents s2 (interned (xs ! i)) = Some p) \<and>
       (rs ! i = None \<longrightarrow> \<not> (usable s1 \<and> gets_block (xs ! i)))" by blast
  have "contents s2 (interned x) = Some p" if "r = Some p" for p
    using 1(5) 2(4) that by (metis domI map_le_def)
  then have "\<forall>i < length (x # xs). (\<forall>p. (r # rs) ! i = Some p \<longrightarrow> contents s2 (interned ((x # xs) ! i)) = Some p) \<and>
       ((r # rs) ! i = None \<longrightarrow> \<not> (usable s \<and> gets_block ((x # xs) ! i)))"
    using at 1(3,6) by (auto simp: nth_Cons split: nat.splits)
  moreover have "contents s \<subseteq>\<^sub>m contents s2" using 1(4) 2(4) by (rule map_le_trans)
  ultimately show ?case using 1(1) 2(1-3) by simp
qed

lemma run_agrees:
  assumes "inv 0 s" "length xs \<le> limit" "length xs \<le> small \<or> (\<forall>x \<in> set xs. grows_table x)"
    "\<forall>x \<in> set xs. length (interned x) < 2 ^ 32"
  shows "\<exists>rs s'. run_ops intern s xs = Some (rs, s') \<and> length rs = length xs \<and>
    (\<forall>i < length xs. rs ! i = None \<longrightarrow> \<not> (usable s \<and> gets_block (xs ! i))) \<and>
    (\<forall>i < length xs. \<forall>p. rs ! i = Some p \<longrightarrow> text_at s' p (length (interned (xs ! i))) = interned (xs ! i)) \<and>
    (\<forall>i < length xs. \<forall>j < length xs. \<forall>p q. rs ! i = Some p \<longrightarrow> rs ! j = Some q \<longrightarrow>
       (p = q \<longleftrightarrow> interned (xs ! i) = interned (xs ! j)))"
proof -
  obtain rs s' where run: "run_ops intern s xs = Some (rs, s')" "length rs = length xs" "inv (length xs) s'"
    and at: "\<forall>i < length xs. (\<forall>p. rs ! i = Some p \<longrightarrow> contents s' (interned (xs ! i)) = Some p) \<and>
       (rs ! i = None \<longrightarrow> \<not> (usable s \<and> gets_block (xs ! i)))"
    using run_law [OF assms(1), of xs] assms(2-4) by auto
  have "p = q \<longleftrightarrow> interned (xs ! i) = interned (xs ! j)"
    if "i < length xs" "j < length xs" "rs ! i = Some p" "rs ! j = Some q" for i j p q
    using that at injective [OF run(3)] by (metis option.inject)
  then show ?thesis using run at readable [OF run(3)] by blast
qed

end

lemma pool_map_inj:
  assumes "pool_inv pool" "pool_map pool x = Some p" "pool_map pool y = Some p"
  shows "x = y"
proof -
  have srt: "sorted_wrt (apart (arena pool)) (buckets pool)"
    using assms(1) by (auto simp: pool_inv_def pool_ok_def table_ok_def)
  obtain e where e: "e \<in> set (buckets pool)" "e_str e = Some p" "key (arena pool) e = x"
    using assms(2) pool_map_iff [OF srt] by blast
  obtain e' where e': "e' \<in> set (buckets pool)" "e_str e' = Some p" "key (arena pool) e' = y"
    using assms(3) pool_map_iff [OF srt] by blast
  obtain i j where "i < length (buckets pool)" "e = buckets pool ! i" "j < length (buckets pool)" "e' = buckets pool ! j"
    using e(1) e'(1) by (auto simp: in_set_conv_nth)
  then show ?thesis using e e' apart_nth [OF srt, of i j] by (cases "i = j") (auto simp: apart_def)
qed

lemma intern_post_grows: "intern_post pool s r pool' \<Longrightarrow> pool_map pool \<subseteq>\<^sub>m pool_map pool' \<and> (\<forall>p. r = Some p \<longrightarrow> pool_map pool' s = Some p)"
  by (auto simp: intern_post_def map_le_def split: option.splits)

lemma pool_map_text:
  assumes "pool_inv pool" "pool_map pool x = Some p"
  shows "arena_str (arena pool) p (length x) = x"
proof -
  have srt: "sorted_wrt (apart (arena pool)) (buckets pool)"
    using assms(1) by (auto simp: pool_inv_def pool_ok_def table_ok_def)
  obtain e where "e_str e = Some p" "key (arena pool) e = x"
    using assms(2) pool_map_iff [OF srt] by blast
  then show ?thesis by (auto simp: key_def arena_str_def)
qed

lemma intern_store_arena:
  "intern_store okb pool h idx s = (r, pool') \<Longrightarrow>
     cbm_arena_strndup okb (arena pool) (Some s) (of_nat (length s)) = (r, arena pool')"
  by (auto simp: intern_store_def split: prod.splits option.splits)

lemma intern_n_arena:
  assumes "cbm_intern_n okt okb pool (Some s) = Some (r, pool')"
  shows "arena pool' = arena pool \<and> r \<noteq> None \<or>
    cbm_arena_strndup okb (arena pool) (Some s) (of_nat (length s)) = (r, arena pool')"
proof -
  have "arena pool1 = arena pool" if "intern_resize okt pool = Some pool1" for pool1
    using that by (auto simp: intern_resize_def Let_def split: if_splits)
  then show ?thesis
    using assms by (auto simp: cbm_intern_n_def Let_def dest!: intern_store_arena split: option.splits if_splits)
qed

definition intern_op :: "CBMInternPool \<Rightarrow> intern_call \<Rightarrow> (ptr option \<times> CBMInternPool) option" where
  "intern_op pool = (\<lambda>(okt, okb, s). cbm_intern okt okb pool (Some s))"

definition called_inv :: "nat \<Rightarrow> CBMInternPool \<Rightarrow> bool" where
  \<comment> \<open>the state of a pool after at most \<open>n\<close> calls: an arena without its first block stays without\<close>
  "called_inv n pool \<longleftrightarrow> pool_inv pool \<and> unat (pcount pool) \<le> n \<and>
     (nblocks (arena pool) = 0 \<or> arena_room (n * 2 ^ 33) (arena pool))"

lemma called_step:
  assumes "called_inv n pool" "n < 2 ^ 26" "okt \<or> n < 255" "length s < 2 ^ 32"
  shows "\<exists>r pool'. intern_op pool (okt, okb, s) = Some (r, pool') \<and> called_inv (Suc n) pool' \<and>
    (nblocks (arena pool') = 0) = (nblocks (arena pool) = 0) \<and> intern_post pool s r pool' \<and>
    (r = None \<longrightarrow> nblocks (arena pool) = 0 \<or> \<not> okb)"
proof -
  have inv: "pool_inv pool" and cnt: "unat (pcount pool) \<le> n" using assms(1) by (simp_all add: called_inv_def)
  obtain r pool' where op: "cbm_intern_n okt okb pool (Some s) = Some (r, pool')" "pool_inv pool'" "intern_post pool s r pool'"
    "unat (pcount pool') \<le> Suc n"
    using intern_n_ok [OF inv _ assms(4), of okt okb] cnt assms(2,3) by fastforce
  have T: "n * 2 ^ 33 \<le> 2 ^ 59" using assms(2) by simp
  have room: "arena_room (Suc n * 2 ^ 33) a'"
    if "arena_room (n * 2 ^ 33) a'" for a' using that by (simp add: arena_room_def)
  have "(if nblocks (arena pool) = 0 then nblocks (arena pool') = 0
         else arena_room (Suc n * 2 ^ 33) (arena pool') \<and> (okb \<longrightarrow> r \<noteq> None))"
  proof (cases "nblocks (arena pool) = 0")
    case True
    then show ?thesis using intern_n_arena [OF op(1)] arena_strndup_none [OF True] by fastforce
  next
    case False
    then have "arena_room (n * 2 ^ 33) (arena pool)" using assms(1) by (simp add: called_inv_def)
    then show ?thesis
      using intern_n_arena [OF op(1)] room arena_strndup_room [OF _ T assms(4)] False by (auto simp: add.commute)
  qed
  then have "called_inv (Suc n) pool'" "(nblocks (arena pool') = 0) = (nblocks (arena pool) = 0)"
    "r = None \<longrightarrow> nblocks (arena pool) = 0 \<or> \<not> okb"
    using op(2,4) by (auto simp: called_inv_def arena_room_def split: if_splits)
  then show ?thesis using op by (auto simp: intern_op_def cbm_intern_def)
qed

interpretation pool: interner called_inv "\<lambda>pool. nblocks (arena pool) \<noteq> 0" 255 "2 ^ 26" intern_op pool_map
  "\<lambda>pool. arena_str (arena pool)"
proof (unfold_locales, goal_cases)
  case (1 n s x)
  then show ?case
    using called_step [of n s "fst x" "interned x" "gets_block x"] intern_post_grows by (cases x) fastforce
next
  case (2 n s t p u)
  then show ?case using pool_map_inj [of s t p u] by (simp add: called_inv_def)
next
  case (3 n s t p)
  then show ?case using pool_map_text by (simp add: called_inv_def)
qed

lemma intern_create_inv:
  "cbm_intern_create p a b m = Some pool \<Longrightarrow> pool_inv pool \<and> pcount pool = 0"
  using intern_create_ok [of p a b m pool] by (auto simp: pool_inv_def cbm_intern_create_def split: if_splits)

lemma intern_create_called:
  assumes "cbm_intern_create p ok_arena b m = Some pool"
  shows "called_inv 0 pool \<and> (nblocks (arena pool) \<noteq> 0 \<longleftrightarrow> ok_arena)"
proof -
  have "arena pool = cbm_arena_init ok_arena m" using assms by (auto simp: cbm_intern_create_def split: if_splits)
  then show ?thesis
    using intern_create_inv [OF assms] arena_init_room [of ok_arena m]
    by (auto simp: called_inv_def arena_room_def split: if_splits)
qed

section \<open>Properties\<close>

text \<open>
  C18. Interning refines a finite map from strings to pointers. On a pool with a free bucket and fewer than \<open>2 ^ 26\<close> strings,
  \<open>cbm_intern_n\<close> returns, whichever allocations fail. A known string gives its old pointer and changes
  nothing; a new one gives a pointer no other string has, where the string can be read back, and every
  other string keeps its pointer. NULL is returned only for a string that is not in the pool. When the
  larger table can be allocated, the pool again has a free bucket.
\<close>

theorem intern_refines_map:
  assumes "pool_inv pool" "unat (pcount pool) < 2 ^ 26" "length s < 2 ^ 32"
  shows "\<exists>r pool' k. cbm_intern_n okt okb pool (Some s) = Some (r, pool') \<and> pool_ok k pool' \<and> (okt \<longrightarrow> pool_inv pool') \<and>
    intern_post pool s r pool' \<and> unat (pcount pool') \<le> Suc (unat (pcount pool))"
  using intern_n_ok [OF assms, of okt okb] by blast

theorem intern_refines_map_witness:
  "\<exists>pool r pool'. cbm_intern_create True True True (\<lambda>_ _. NUL) = Some pool \<and>
     cbm_intern_n False True pool (Some ''main'') = Some (r, pool') \<and> intern_post pool ''main'' r pool'"
proof -
  obtain pool where pool: "cbm_intern_create True True True (\<lambda>_ _. NUL) = Some pool" by (simp add: cbm_intern_create_def)
  then have "pool_inv pool" "unat (pcount pool) < 2 ^ 26" using intern_create_inv [OF pool] by simp_all
  then show ?thesis using intern_refines_map [of pool "''main''" False True] pool by auto
qed

text \<open>
  C19. Pointer equality decides string equality. On a new pool a sequence of at most \<open>2 ^ 26\<close> calls of
  \<open>cbm_intern\<close> on strings shorter than \<open>2 ^ 32\<close> returns, provided that every larger table that is asked
  for can be allocated or that there are at most 255 calls. A call returns NULL only if the arena
  did not get its first block or the block it asked for in that call. At the end of the sequence every pointer that
  was returned points to its string, and two pointers are the same exactly when the strings are.
\<close>

theorem intern_pointer_equality:
  assumes "cbm_intern_create ok_pool ok_arena ok_buckets m = Some pool" "length xs \<le> 2 ^ 26"
    and "length xs \<le> 255 \<or> (\<forall>x \<in> set xs. grows_table x)" "\<forall>x \<in> set xs. length (interned x) < 2 ^ 32"
  shows "\<exists>rs pool'. run_ops intern_op pool xs = Some (rs, pool') \<and> length rs = length xs \<and>
    (\<forall>i < length xs. rs ! i = None \<longrightarrow> \<not> (ok_arena \<and> gets_block (xs ! i))) \<and>
    (\<forall>i < length xs. \<forall>p. rs ! i = Some p \<longrightarrow> arena_str (arena pool') p (length (interned (xs ! i))) = interned (xs ! i)) \<and>
    (\<forall>i < length xs. \<forall>j < length xs. \<forall>p q. rs ! i = Some p \<longrightarrow> rs ! j = Some q \<longrightarrow>
       (p = q \<longleftrightarrow> interned (xs ! i) = interned (xs ! j)))"
proof -
  have called: "called_inv 0 pool" and ok: "nblocks (arena pool) \<noteq> 0 \<longleftrightarrow> ok_arena"
    using intern_create_called [OF assms(1)] by simp_all
  show ?thesis using pool.run_agrees [OF called assms(2-4)] unfolding ok .
qed

theorem intern_pointer_equality_witness:
  "\<exists>pool p q pool'. cbm_intern_create True True True (\<lambda>_ _. NUL) = Some pool \<and>
     run_ops intern_op pool [(False, True, ''a''), (False, True, ''b''), (False, True, ''a'')] = Some ([Some p, Some q, Some p], pool') \<and>
     p \<noteq> q \<and> arena_str (arena pool') p 1 = ''a'' \<and> arena_str (arena pool') q 1 = ''b''"
proof -
  let ?xs = "[(False, True, ''a''), (False, True, ''b''), (False, True, ''a'')]"
  obtain pool where pool: "cbm_intern_create True True True (\<lambda>_ _. NUL) = Some pool" by (simp add: cbm_intern_create_def)
  have len: "length ?xs = 3" by simp
  have "\<forall>x \<in> set ?xs. length (interned x) < 2 ^ 32" by simp
  from intern_pointer_equality [OF pool _ _ this, unfolded len] obtain rs pool' where
    run: "run_ops intern_op pool ?xs = Some (rs, pool')" "length rs = 3"
    and some: "\<forall>i < 3. rs ! i = None \<longrightarrow> \<not> (True \<and> gets_block (?xs ! i))"
    and txt1: "\<forall>i < 3. \<forall>p. rs ! i = Some p \<longrightarrow> arena_str (arena pool') p (length (interned (?xs ! i))) = interned (?xs ! i)"
    and eq: "\<forall>i < 3. \<forall>j < 3. \<forall>p q. rs ! i = Some p \<longrightarrow> rs ! j = Some q \<longrightarrow> (p = q \<longleftrightarrow> interned (?xs ! i) = interned (?xs ! j))"
    by auto
  obtain p where p: "rs ! 0 = Some p" using some [rule_format, of 0] by (cases "rs ! 0") simp_all
  obtain q where q: "rs ! 1 = Some q" using some [rule_format, of 1] by (cases "rs ! 1") simp_all
  obtain p' where p': "rs ! 2 = Some p'" using some [rule_format, of 2] by (cases "rs ! 2") simp_all
  have "p' = p" "p \<noteq> q" using eq [rule_format, of 0 2 p p'] eq [rule_format, of 0 1 p q] p q p' by simp_all
  moreover have "rs = [rs ! 0, rs ! 1, rs ! 2]" using run(2) by (auto simp: numeral_3_eq_3 length_Suc_conv)
  ultimately show ?thesis
    using pool run(1) p q p' txt1 [rule_format, of 0 p] txt1 [rule_format, of 1 q]
    by (intro exI [of _ pool] exI [of _ p] exI [of _ q] exI [of _ pool']) simp
qed

text \<open>
  C37. A full table hangs: once every bucket is taken, which a failed \<open>calloc\<close> in \<open>intern_resize\<close>
  permits, interning a string that is not in the pool never returns.
\<close>

theorem intern_full_table_hangs:
  assumes "pool_ok k pool" "length (live (buckets pool)) = 2 ^ k" "pool_map pool s = None" "length s < 2 ^ 32"
  shows "cbm_intern_n okt okb pool (Some s) = None"
proof -
  let ?a = "arena pool" and ?bs = "buckets pool" and ?h = "intern_hash s"
  have k: "k < 32" and t: "table_ok ?a k ?bs" and msk: "pmask pool = 2 ^ k - 1" using assms(1) by (simp_all add: pool_ok_def)
  have len: "length ?bs = 2 ^ k" and srt: "sorted_wrt (apart ?a) ?bs" using t by (simp_all add: table_ok_def)
  have full: "\<forall>e \<in> set ?bs. e_str e \<noteq> None"
    using length_filter_less [of _ ?bs "\<lambda>e. e_str e \<noteq> None"] assms(2) len unfolding live_def by (metis less_irrefl)
  have "\<not> stops ?bs (entry_is ?a ?h s) j" if "j < 2 ^ k" for j
  proof -
    have "?bs ! j \<in> set ?bs" using that len by simp
    moreover from this have "entry_ok ?a (?bs ! j)" using t by (simp add: table_ok_def)
    ultimately show ?thesis
      using full assms(3,4) pool_map_iff [OF srt, of s] by (auto simp: stops_def entry_is_iff)
  qed
  moreover have "unat (?h AND (2 ^ k - 1)) < 2 ^ k" by (simp add: home_index [OF k])
  ultimately have "probe ?bs (2 ^ k - 1) (entry_is ?a ?h s) (?h AND (2 ^ k - 1)) = None"
    using probe_diverges [OF k] by blast
  then show ?thesis using msk by (simp add: cbm_intern_n_def Let_def)
qed

theorem intern_full_table_hangs_witness:
  "\<exists>pool. pool_ok 0 pool \<and> length (live (buckets pool)) = 1 \<and> cbm_intern_n True True pool (Some ''y'') = None"
proof -
  have inv: "arena_inv demo_arena" by (simp add: demo_arena_def arena_inv_init_sized)
  obtain p a where d: "arena_dup True demo_arena ''x'' = (Some p, a)"
    by (auto simp: arena_dup_def cbm_arena_strndup_def demo_arena_def arena_sim)
  have a: "arena_inv a" "arena_live a p 1" "arena_str a p 1 = ''x''"
    using ar.dup_inv [OF inv _ d] ar.dup_content [OF inv _ d] by simp_all
  define e :: InternEntry where "e = \<lparr>e_str = Some p, e_hash = intern_hash ''x'', e_len = 1\<rparr>"
  define pool :: CBMInternPool where
    "pool = \<lparr>arena = a, buckets = [e], pcapacity = 1, pcount = 1, pmask = 0, total_bytes = 1\<rparr>"
  have "key a e = ''x''" using a(3) by (simp add: key_def e_def)
  then have ok: "pool_ok 0 pool" and full: "length (live (buckets pool)) = 2 ^ 0" and new: "pool_map pool ''y'' = None"
    using a by (auto simp: pool_ok_def pool_def table_ok_def entry_ok_def live_def e_def path_full_def pool_map_def slot_def)
  show ?thesis
    using intern_full_table_hangs [OF ok full new, of True True] ok full by auto
qed

end
