(* ===== verification/Fqn.thy ===== *)
theory Fqn
  imports StrUtil
begin

text \<open>
  Qualified names of graph nodes, \<open>pipeline/fqn.c\<close>: the dotted name of a symbol, module or
  folder, the resolution of relative imports against the directory of the importing file,
  and the project name derived from a repository path. Heap allocation is taken to succeed
  (the code does not test \<open>strdup\<close>).
\<close>

section \<open>Helpers\<close>

definition FQN_MAX_PATH_SEGS :: nat where "FQN_MAX_PATH_SEGS = 254"
definition FQN_MAX_DIR_SEGS :: nat where "FQN_MAX_DIR_SEGS = 255"
definition FQN_PATH_BUF :: nat where "FQN_PATH_BUF = 1024"

fun join_segments :: "string list \<Rightarrow> string" where
  "join_segments [] = []"
| "join_segments [s] = s"
| "join_segments (s # t # ts) = s @ CHR ''.'' # join_segments (t # ts)"

definition strip_file_extension :: "string \<Rightarrow> string" where
  "strip_file_extension path =
     (let start = (case strrchr path CHR ''/'' of Some i \<Rightarrow> i + 1 | None \<Rightarrow> 0)
      in case strrchr (drop start path) CHR ''.'' of
           Some e \<Rightarrow> take (start + e) path
         | None \<Rightarrow> path)"

function tokenize_path :: "string \<Rightarrow> nat \<Rightarrow> string list" where
  \<comment> \<open>\<open>max_segs\<close> counts the segments that may still be added\<close>
  "tokenize_path tok max_segs =
     (if tok = [] \<or> max_segs = 0 then []
      else case strchr tok CHR ''/'' of
             Some i \<Rightarrow>
               (if i = 0 then tokenize_path (drop 1 tok) max_segs
                else take i tok # tokenize_path (drop (i + 1) tok) (max_segs - 1))
           | None \<Rightarrow> [tok])"
  by pat_completeness auto
termination
  by (relation "measure (\<lambda>(tok, _). length tok)") auto

declare tokenize_path.simps [simp del]

definition strip_init_or_index :: "string list \<Rightarrow> cstr \<Rightarrow> string list" where
  "strip_init_or_index segments name =
     (if length segments \<le> 1 then segments
      else if last segments \<noteq> ''__init__'' \<and> last segments \<noteq> ''index'' then segments
      else case name of
             Some n \<Rightarrow> (if n \<noteq> [] then butlast segments else segments)
           | None \<Rightarrow> segments)"

section \<open>Names of symbols, modules and folders\<close>

definition cbm_pipeline_fqn_compute :: "cstr \<Rightarrow> cstr \<Rightarrow> cstr \<Rightarrow> string" where
  "cbm_pipeline_fqn_compute project rel_path name =
     (case project of
        None \<Rightarrow> []
      | Some project \<Rightarrow>
          (let path = (case rel_path of Some p \<Rightarrow> p | None \<Rightarrow> []);
               path = strip_file_extension (cbm_normalize_path_sep path);
               segments = project # tokenize_path path FQN_MAX_PATH_SEGS;
               segments = strip_init_or_index segments name;
               segments = (case name of
                             Some n \<Rightarrow> (if n \<noteq> [] then segments @ [n] else segments)
                           | None \<Rightarrow> segments)
           in join_segments segments))"

definition cbm_pipeline_fqn_module :: "cstr \<Rightarrow> cstr \<Rightarrow> string" where
  "cbm_pipeline_fqn_module project rel_path = cbm_pipeline_fqn_compute project rel_path None"

definition cbm_pipeline_fqn_folder :: "cstr \<Rightarrow> cstr \<Rightarrow> string" where
  \<comment> \<open>the loop is that of \<open>tokenize_path\<close>; the bound counts the project segment too\<close>
  "cbm_pipeline_fqn_folder project rel_dir =
     (case project of
        None \<Rightarrow> []
      | Some project \<Rightarrow>
          (let dir = cbm_normalize_path_sep (case rel_dir of Some d \<Rightarrow> d | None \<Rightarrow> [])
           in join_segments (project # tokenize_path dir (FQN_MAX_DIR_SEGS - 1))))"

section \<open>Relative imports\<close>

definition path_append_segment :: "string \<Rightarrow> nat \<Rightarrow> string \<Rightarrow> string option" where
  \<comment> \<open>\<open>None\<close> is the return value false: the buffer would overflow\<close>
  "path_append_segment buf buf_size seg =
     (let cur = length buf;
          need = cur + (if cur > 0 then 1 else 0) + length seg + 1
      in if need > buf_size then None
         else Some (if cur > 0 then buf @ CHR ''/'' # seg else buf @ seg))"

definition path_pop_segment :: "string \<Rightarrow> string" where
  "path_pop_segment buf = (case strrchr buf CHR ''/'' of Some i \<Rightarrow> take i buf | None \<Rightarrow> [])"

definition seed_source_dir :: "nat \<Rightarrow> cstr \<Rightarrow> string" where
  "seed_source_dir buf_size source_rel =
     (let buf = take (buf_size - 1) (case source_rel of Some s \<Rightarrow> s | None \<Rightarrow> []);
          buf = map (\<lambda>c. if c = CHR 0x5C then CHR ''/'' else c) buf
      in case strrchr buf CHR ''/'' of Some i \<Rightarrow> take i buf | None \<Rightarrow> [])"

datatype rel_kind = FQN_REL_KIND_NONE | FQN_REL_KIND_PYTHON | FQN_REL_KIND_JS

definition classify_relative_import :: "cstr \<Rightarrow> rel_kind" where
  "classify_relative_import module_path =
     (case module_path of
        None \<Rightarrow> FQN_REL_KIND_NONE
      | Some m \<Rightarrow>
          (if m = [] \<or> m ! 0 \<noteq> CHR ''.'' then FQN_REL_KIND_NONE
           else let has_slash = (strchr m CHR ''/'' \<noteq> None);
                    js_like = (1 < length m \<and> m ! 1 = CHR ''/'') \<or>
                              (2 < length m \<and> m ! 1 = CHR ''.'' \<and> m ! 2 = CHR ''/'')
                in if has_slash \<or> js_like then FQN_REL_KIND_JS else FQN_REL_KIND_PYTHON))"

function python_segments :: "string \<Rightarrow> nat \<Rightarrow> string \<Rightarrow> string option" where
  \<comment> \<open>the loop over the dotted rest of the module path\<close>
  "python_segments buf buf_size p =
     (if p = [] then Some buf
      else let seg = takeWhile (\<lambda>c. c \<noteq> CHR ''.'') p;
               rest = dropWhile (\<lambda>c. c \<noteq> CHR ''.'') p
           in if length seg > 0
              then (case path_append_segment buf buf_size seg of
                      None \<Rightarrow> None
                    | Some buf' \<Rightarrow> python_segments buf' buf_size (drop 1 rest))
              else python_segments buf buf_size (drop 1 rest))"
  by pat_completeness auto
termination
proof (relation "measure (\<lambda>(_, _, p). length p)", goal_cases)
  case 1
  show ?case by simp
next
  case (2 buf buf_size p seg rest buf')
  then have "length rest < length p" 
    by (metis length_append length_greater_0_conv less_add_same_cancel2 takeWhile_dropWhile_id)
  then show ?case by simp
next
  case (3 buf buf_size p seg rest)
  then have "length rest \<le> length p" by (simp add: length_dropWhile_le)
  moreover have "0 < length p" using 3 by simp
  ultimately have "length rest - 1 < length p" by linarith
  then show ?case by simp
qed

declare python_segments.simps [simp del]

definition resolve_python_relative :: "string \<Rightarrow> nat \<Rightarrow> string \<Rightarrow> string option" where
  "resolve_python_relative buf buf_size module_path =
     (let dot_count = length (takeWhile (\<lambda>c. c = CHR ''.'') module_path);
          p = dropWhile (\<lambda>c. c = CHR ''.'') module_path;
          buf = (path_pop_segment ^^ (dot_count - 1)) buf
      in python_segments buf buf_size p)"

definition strip_ext :: "string \<Rightarrow> string" where
  \<comment> \<open>the segment cut to the returned length\<close>
  "strip_ext seg =
     (case strrchr seg CHR ''.'' of
        Some dot \<Rightarrow> (if dot > 0 then take dot seg else seg)
      | None \<Rightarrow> seg)"

function js_segments :: "string \<Rightarrow> nat \<Rightarrow> string \<Rightarrow> string option" where
  "js_segments buf buf_size p =
     (let p = dropWhile (\<lambda>c. c = CHR ''/'') p in
      if p = [] then Some buf
      else let seg = takeWhile (\<lambda>c. c \<noteq> CHR ''/'') p;
               rest = dropWhile (\<lambda>c. c \<noteq> CHR ''/'') p
           in if seg = ''.'' then js_segments buf buf_size rest
              else if seg = ''..'' then js_segments (path_pop_segment buf) buf_size rest
              else let seg = (if rest = [] then strip_ext seg else seg)
                   in if length seg > 0
                      then (case path_append_segment buf buf_size seg of
                              None \<Rightarrow> None
                            | Some buf' \<Rightarrow> js_segments buf' buf_size rest)
                      else js_segments buf buf_size rest)"
  by pat_completeness auto
termination
proof -
  have dec: "length rest < length p"
    if q: "q = dropWhile (\<lambda>c. c = CHR ''/'') p" "q \<noteq> []"
      and rest: "rest = dropWhile (\<lambda>c. c \<noteq> CHR ''/'') q" for p q rest
  proof -
    have "hd q \<noteq> CHR ''/''" using hd_dropWhile q by blast
    then have "length rest < length q"
      unfolding rest using q(2) by (intro length_dropWhile_lt) auto
    also have "length q \<le> length p" unfolding q(1) by (rule length_dropWhile_le)
    finally show ?thesis .
  qed
  show ?thesis
    by (relation "measure (\<lambda>(_, _, p). length p)", rule wf_measure,
        unfold in_measure prod.case, (rule dec, assumption, assumption, assumption)+)
qed

declare js_segments.simps [simp del]

definition resolve_js_relative :: "string \<Rightarrow> nat \<Rightarrow> string \<Rightarrow> string option" where
  "resolve_js_relative buf buf_size module_path = js_segments buf buf_size module_path"

definition cbm_pipeline_resolve_relative_import :: "cstr \<Rightarrow> cstr \<Rightarrow> cstr" where
  "cbm_pipeline_resolve_relative_import source_rel module_path =
     (case (classify_relative_import module_path, module_path) of
        (FQN_REL_KIND_PYTHON, Some m) \<Rightarrow>
          resolve_python_relative (seed_source_dir FQN_PATH_BUF source_rel) FQN_PATH_BUF m
      | (FQN_REL_KIND_JS, Some m) \<Rightarrow>
          resolve_js_relative (seed_source_dir FQN_PATH_BUF source_rel) FQN_PATH_BUF m
      | _ \<Rightarrow> None)"

section \<open>Project names\<close>

definition safe_name_char :: "char \<Rightarrow> bool" where
  "safe_name_char c \<longleftrightarrow> (97 \<le> byte c \<and> byte c \<le> 122) \<or> (65 \<le> byte c \<and> byte c \<le> 90) \<or>
     (48 \<le> byte c \<and> byte c \<le> 57) \<or> c = CHR ''.'' \<or> c = CHR ''_'' \<or> c = CHR ''-''"

fun collapse_runs :: "char option \<Rightarrow> string \<Rightarrow> string" where
  \<comment> \<open>\<open>prev\<close> starts as 0, here \<open>None\<close>\<close>
  "collapse_runs prev [] = []"
| "collapse_runs prev (c # cs) =
     (if (c = CHR ''-'' \<and> prev = Some CHR ''-'') \<or> (c = CHR ''.'' \<and> prev = Some CHR ''.'')
      then collapse_runs prev cs
      else c # collapse_runs (Some c) cs)"

definition cbm_project_name_from_path :: "cstr \<Rightarrow> string" where
  "cbm_project_name_from_path abs_path =
     (case abs_path of
        None \<Rightarrow> ''root''
      | Some p \<Rightarrow>
          (if p = [] then ''root''
           else let path = cbm_normalize_path_sep p;
                    path = map (\<lambda>c. if safe_name_char c then c else CHR ''-'') path;
                    path = collapse_runs None path;
                    start = dropWhile (\<lambda>c. c = CHR ''-'' \<or> c = CHR ''.'') path;
                    start = rev (dropWhile (\<lambda>c. c = CHR ''-'') (rev start))
                in if start = [] then ''root'' else start))"

section \<open>Facts about project names\<close>

lemma safe_name_char_dash [simp]: "safe_name_char CHR ''-''"
  by (simp add: safe_name_char_def)

lemma safe_imp_name_char: "safe_name_char c \<Longrightarrow> name_char c"
  by (auto simp: safe_name_char_def name_char_def schar_def)

lemma set_collapse_runs: "set (collapse_runs prev s) \<subseteq> set s"
  by (induction prev s rule: collapse_runs.induct) auto

text \<open>No two equal dashes or dots are adjacent.\<close>

fun run_free :: "char option \<Rightarrow> string \<Rightarrow> bool" where
  "run_free prev [] = True"
| "run_free prev (c # cs) =
     (\<not> (c = CHR ''-'' \<and> prev = Some CHR ''-'') \<and> \<not> (c = CHR ''.'' \<and> prev = Some CHR ''.'') \<and>
      run_free (Some c) cs)"

lemma run_free_collapse: "run_free prev (collapse_runs prev s)"
  by (induction prev s rule: collapse_runs.induct) auto

lemma run_free_weaken: "run_free prev s \<Longrightarrow> run_free None s"
  by (cases s) auto

lemma run_free_suffix: "run_free prev (xs @ ys) \<Longrightarrow> run_free None ys"
  by (induction prev xs rule: run_free.induct) (auto dest: run_free_weaken)

lemma run_free_prefix: "run_free prev (xs @ ys) \<Longrightarrow> run_free prev xs"
  by (induction prev xs rule: run_free.induct) auto

lemma run_free_no_dotdot: "run_free prev s \<Longrightarrow> \<not> strstr s ''..''"
proof (induction prev s rule: run_free.induct)
  case (2 prev c cs)
  then show ?case by (cases cs) (auto simp: prefix_Cons)
qed simp

lemma collapse_id: "run_free prev s \<Longrightarrow> collapse_runs prev s = s"
  by (induction prev s rule: run_free.induct) auto

definition trim_name :: "string \<Rightarrow> string" where
  \<comment> \<open>the two trimming steps at the end of \<open>cbm_project_name_from_path\<close>\<close>
  "trim_name path =
     (let start = dropWhile (\<lambda>c. c = CHR ''-'' \<or> c = CHR ''.'') path
      in rev (dropWhile (\<lambda>c. c = CHR ''-'') (rev start)))"

lemma trim_name_decomp:
  "dropWhile (\<lambda>c. c = CHR ''-'' \<or> c = CHR ''.'') path =
     trim_name path @ rev (takeWhile (\<lambda>c. c = CHR ''-'')
       (rev (dropWhile (\<lambda>c. c = CHR ''-'' \<or> c = CHR ''.'') path)))"
  unfolding trim_name_def Let_def by (rule rev_dropWhile_decomp)

lemma trim_name_split: "\<exists>ps qs. path = ps @ trim_name path @ qs"
proof -
  have "path = takeWhile (\<lambda>c. c = CHR ''-'' \<or> c = CHR ''.'') path @
      dropWhile (\<lambda>c. c = CHR ''-'' \<or> c = CHR ''.'') path"
    by (rule takeWhile_dropWhile_id [symmetric])
  moreover obtain qs where "dropWhile (\<lambda>c. c = CHR ''-'' \<or> c = CHR ''.'') path = trim_name path @ qs"
    using trim_name_decomp by blast
  ultimately show ?thesis by metis
qed

lemma trim_name_set: "set (trim_name path) \<subseteq> set path"
  using trim_name_split [of path] by (metis Un_iff set_append subsetI)

lemma trim_name_run_free: "run_free None path \<Longrightarrow> run_free None (trim_name path)"
  using trim_name_split [of path] by (metis run_free_prefix run_free_suffix)

lemma trim_name_hd:
  assumes "trim_name path \<noteq> []"
  shows "hd (trim_name path) \<noteq> CHR ''-'' \<and> hd (trim_name path) \<noteq> CHR ''.''"
proof -
  let ?P = "\<lambda>c. c = CHR ''-'' \<or> c = CHR ''.''"
  obtain qs where eq: "dropWhile ?P path = trim_name path @ qs" using trim_name_decomp by blast
  with assms have "dropWhile ?P path \<noteq> []" by simp
  then have "\<not> ?P (hd (dropWhile ?P path))" by (rule hd_dropWhile)
  with eq assms show ?thesis by simp
qed

lemma trim_name_last:
  assumes "trim_name path \<noteq> []"
  shows "last (trim_name path) \<noteq> CHR ''-''"
proof -
  let ?s = "dropWhile (\<lambda>c. c = CHR ''-'' \<or> c = CHR ''.'') path"
  have eq: "trim_name path = rev (dropWhile (\<lambda>c. c = CHR ''-'') (rev ?s))"
    by (simp add: trim_name_def)
  with assms have "dropWhile (\<lambda>c. c = CHR ''-'') (rev ?s) \<noteq> []" by simp
  then have "\<not> hd (dropWhile (\<lambda>c. c = CHR ''-'') (rev ?s)) = CHR ''-''" by (rule hd_dropWhile)
  with eq show ?thesis by (simp add: last_rev)
qed

lemma trim_name_id:
  assumes "s \<noteq> []" "hd s \<noteq> CHR ''-''" "hd s \<noteq> CHR ''.''" "last s \<noteq> CHR ''-''"
  shows "trim_name s = s"
proof -
  have "dropWhile (\<lambda>c. c = CHR ''-'' \<or> c = CHR ''.'') s = s" using assms by (cases s) auto
  moreover have "dropWhile (\<lambda>c. c = CHR ''-'') (rev s) = rev s"
    using assms by (intro dropWhile_eq_self_iff [THEN iffD2]) (simp add: hd_rev)
  ultimately show ?thesis by (simp add: trim_name_def)
qed

definition raw_name :: "string \<Rightarrow> string" where
  "raw_name p = collapse_runs None
     (map (\<lambda>c. if safe_name_char c then c else CHR ''-'') (cbm_normalize_path_sep p))"

lemma project_name_eq:
  "p \<noteq> [] \<Longrightarrow> cbm_project_name_from_path (Some p) =
     (if trim_name (raw_name p) = [] then ''root'' else trim_name (raw_name p))"
  unfolding cbm_project_name_from_path_def trim_name_def raw_name_def Let_def option.case by simp

text \<open>What every derived name looks like.\<close>

definition proper_name :: "string \<Rightarrow> bool" where
  "proper_name n \<longleftrightarrow> n \<noteq> [] \<and> list_all safe_name_char n \<and> run_free None n \<and>
     hd n \<noteq> CHR ''-'' \<and> hd n \<noteq> CHR ''.'' \<and> last n \<noteq> CHR ''-''"

lemma proper_root: "proper_name ''root''"
  by code_simp

lemma proper_project_name: "proper_name (cbm_project_name_from_path abs_path)"
proof (cases "abs_path = None \<or> abs_path = Some []")
  case True
  then have "cbm_project_name_from_path abs_path = ''root''"
    by (auto simp: cbm_project_name_from_path_def)
  with proper_root show ?thesis by (simp only:)
next
  case False
  then obtain p where p: "abs_path = Some p" "p \<noteq> []" by auto
  let ?n = "trim_name (raw_name p)"
  show ?thesis
  proof (cases "?n = []")
    case True
    with p have "cbm_project_name_from_path abs_path = ''root''" by (simp add: project_name_eq)
    with proper_root show ?thesis by (simp only:)
  next
    case False
    have "\<forall>c \<in> set (raw_name p). safe_name_char c"
      using set_collapse_runs by (fastforce simp: raw_name_def)
    then have "list_all safe_name_char ?n"
      using trim_name_set [of "raw_name p"] by (auto simp: list_all_iff)
    moreover have "run_free None ?n"
      by (rule trim_name_run_free) (simp add: raw_name_def run_free_collapse)
    ultimately have "proper_name ?n"
      using False trim_name_hd [OF False] trim_name_last [OF False] by (simp add: proper_name_def)
    with False p project_name_eq [of p] show ?thesis by simp
  qed
qed

lemma proper_valid: "proper_name n \<Longrightarrow> cbm_validate_project_name (Some n)"
proof -
  assume n: "proper_name n"
  then have safe: "\<forall>c \<in> set n. safe_name_char c" by (simp add: proper_name_def list_all_iff)
  have "CHR ''/'' \<notin> set n" "CHR 0x5C \<notin> set n"
    using safe by (auto simp: safe_name_char_def byte_def)
  moreover have "\<not> strstr n ''..''" using n run_free_no_dotdot by (auto simp: proper_name_def)
  moreover from this have "n \<noteq> ''..''" by auto
  moreover have "list_all name_char n" using safe safe_imp_name_char by (auto simp: list_all_iff)
  moreover have "n ! 0 \<noteq> CHR ''.''" using n by (auto simp: proper_name_def hd_conv_nth)
  ultimately show ?thesis
    using n by (simp add: cbm_validate_project_name_def proper_name_def strchr_None)
qed

lemma normalize_safe: "list_all safe_name_char n \<Longrightarrow> cbm_normalize_path_sep n = n"
proof -
  assume n: "list_all safe_name_char n"
  have "map (\<lambda>c. if c = CHR 0x5C then CHR ''/'' else c) n = n"
    using n by (intro map_idI) (auto simp: list_all_iff safe_name_char_def byte_def)
  moreover have "CHR '':'' \<notin> set n" using n by (auto simp: list_all_iff safe_name_char_def byte_def)
  ultimately show ?thesis
    by (auto simp: cbm_normalize_path_sep_def cbm_canonicalize_drive_def split: list.splits)
qed

lemma project_name_proper_id:
  assumes "proper_name n" shows "cbm_project_name_from_path (Some n) = n"
proof -
  have safe: "list_all safe_name_char n" using assms by (simp add: proper_name_def)
  then have "map (\<lambda>c. if safe_name_char c then c else CHR ''-'') n = n"
    by (intro map_idI) (auto simp: list_all_iff)
  then have "raw_name n = n"
    using assms safe by (simp add: raw_name_def normalize_safe collapse_id proper_name_def)
  moreover have "trim_name n = n" using assms by (intro trim_name_id) (auto simp: proper_name_def)
  ultimately show ?thesis using assms by (simp add: project_name_eq proper_name_def)
qed

section \<open>Tokenizing against the reference split\<close>

lemma split_scan_free: "d \<notin> set s \<Longrightarrow> split_scan d cur s = [cur @ s]"
  by (induction d cur s rule: split_scan.induct) auto

lemma path_components_free: "CHR ''/'' \<notin> set s \<Longrightarrow> path_components s = (if s = [] then [] else [s])"
  by (simp add: path_components_def split_scan_free)

lemma path_components_strchr:
  assumes "strchr s CHR ''/'' = Some i"
  shows "path_components s =
    (if i = 0 then [] else [take i s]) @ path_components (drop (i + 1) s)"
proof -
  note d = strchr_decomp [OF assms]
  have "i < length s" using assms by auto
  then have "take i s = [] \<longleftrightarrow> i = 0" by (cases s) auto
  then show ?thesis
    using d path_components_slash [of "take i s" "drop (i + 1) s"] path_components_free [of "take i s"]
    by auto
qed

lemma tokenize_path_components: "tokenize_path tok n = take n (path_components tok)"
proof (induction tok n rule: tokenize_path.induct)
  case (1 tok n)
  show ?case
  proof (cases "tok = [] \<or> n = 0")
    case True
    then show ?thesis by (subst tokenize_path.simps) auto
  next
    case ne: False
    show ?thesis
    proof (cases "strchr tok CHR ''/''")
      case None
      then have "CHR ''/'' \<notin> set tok" by (simp add: strchr_None)
      with ne None show ?thesis
        by (subst tokenize_path.simps) (cases n; simp add: path_components_free)
    next
      case (Some i)
      from ne obtain m where "n = Suc m" by (cases n) auto
      with "1.IH"(1) [OF ne Some] "1.IH"(2) [OF ne Some] ne Some show ?thesis
        by (subst tokenize_path.simps) (auto simp: path_components_strchr)
    qed
  qed
qed

section \<open>Relative imports against a stack of directories\<close>

definition dir_seg :: "string \<Rightarrow> bool" where
  "dir_seg s \<longleftrightarrow> s \<noteq> [] \<and> CHR ''/'' \<notin> set s"

abbreviation join_dirs :: "string list \<Rightarrow> string" where
  "join_dirs \<equiv> join_with CHR ''/''"

lemma join_with_snoc: "xs \<noteq> [] \<Longrightarrow> join_with d (xs @ [x]) = join_with d xs @ d # x"
  by (induction d xs rule: join_with.induct) auto

lemma join_with_eq_Nil: "\<forall>s \<in> set xs. s \<noteq> [] \<Longrightarrow> join_with d xs = [] \<longleftrightarrow> xs = []"
  by (induction d xs rule: join_with.induct) auto

lemma path_pop_join:
  assumes "\<forall>s \<in> set segs. dir_seg s"
  shows "path_pop_segment (join_dirs segs) = join_dirs (butlast segs)"
proof (cases segs rule: rev_cases)
  case Nil
  then show ?thesis by (simp add: path_pop_segment_def)
next
  case (snoc xs x)
  then have x: "CHR ''/'' \<notin> set x" using assms by (simp add: dir_seg_def)
  show ?thesis
  proof (cases "xs = []")
    case True
    with snoc x strrchr_None [of x "CHR ''/''"] show ?thesis
      by (simp add: path_pop_segment_def)
  next
    case False
    with snoc x show ?thesis
      by (simp add: path_pop_segment_def join_with_snoc strrchr_append_last)
  qed
qed

lemma path_append_join:
  assumes "\<forall>s \<in> set segs. dir_seg s"
  shows "path_append_segment (join_dirs segs) n seg =
    (if length (join_dirs segs) + (if segs = [] then 0 else 1) + length seg + 1 > n then None
     else Some (join_dirs (segs @ [seg])))"
  using join_with_eq_Nil [of segs "CHR ''/''"] assms
  by (cases "segs = []") (auto simp: path_append_segment_def join_with_snoc dir_seg_def)

text \<open>
  The reference: walk the components of the import, keeping the directory as a stack. The last
  component loses its extension (the last dot and what follows it, unless nothing stands
  before the dot), but only if no slash follows it.
\<close>

definition without_ext :: "string \<Rightarrow> string" where
  "without_ext s =
     (let stem = butlast (rev (dropWhile (\<lambda>c. c \<noteq> CHR ''.'') (rev s)))
      in if stem = [] then s else stem)"

fun js_ref :: "bool \<Rightarrow> string list \<Rightarrow> string list \<Rightarrow> string list" where
  "js_ref is_file dirs [] = dirs"
| "js_ref is_file dirs (s # ss) =
     (if s = ''.'' then js_ref is_file dirs ss
      else if s = ''..'' then js_ref is_file (butlast dirs) ss
      else js_ref is_file (dirs @ [if ss = [] \<and> is_file then without_ext s else s]) ss)"

definition js_import_target :: "string list \<Rightarrow> string \<Rightarrow> string list" where
  "js_import_target dirs module_path =
     js_ref (last module_path \<noteq> CHR ''/'') dirs (path_components module_path)"

lemma strip_ext_without_ext: "strip_ext s = without_ext s"
proof (cases "strrchr s CHR ''.''")
  case None
  then have none: "dropWhile (\<lambda>c. c \<noteq> CHR ''.'') (rev s) = []" by (auto simp: strrchr_None)
  show ?thesis unfolding strip_ext_def without_ext_def none None by simp
next
  case (Some i)
  note d = strrchr_SomeD [OF Some]
  have dec: "s = take i s @ CHR ''.'' # drop (Suc i) s" using d by (metis id_take_nth_drop)
  have "rev s = rev (drop (Suc i) s) @ CHR ''.'' # rev (take i s)" using arg_cong [OF dec, of rev] by simp
  moreover have "dropWhile (\<lambda>c. c \<noteq> CHR ''.'') (xs @ CHR ''.'' # ys) = CHR ''.'' # ys"
    if "CHR ''.'' \<notin> set xs" for xs ys using that by (induction xs) auto
  moreover have "CHR ''.'' \<notin> set (rev (drop (Suc i) s))" using d by simp
  ultimately have "dropWhile (\<lambda>c. c \<noteq> CHR ''.'') (rev s) = CHR ''.'' # rev (take i s)" by metis
  moreover have "take i s = [] \<longleftrightarrow> i = 0" using d by (cases s) auto
  ultimately show ?thesis using Some by (simp add: strip_ext_def without_ext_def Let_def)
qed

lemma strip_ext_dir_seg: "dir_seg s \<Longrightarrow> dir_seg (strip_ext s) \<and> length (strip_ext s) \<le> length s"
  by (auto simp: strip_ext_def dir_seg_def split: option.splits dest: in_set_takeD)

lemma path_components_eq_Nil: "path_components s = [] \<Longrightarrow> s \<noteq> [] \<Longrightarrow> last s = CHR ''/''"
proof (rule ccontr)
  assume s: "path_components s = []" "s \<noteq> []" "last s \<noteq> CHR ''/''"
  show False
  proof (cases "strrchr s CHR ''/''")
    case None
    with s show False by (simp add: strrchr_None path_components_free)
  next
    case (Some i)
    note d = strrchr_SomeD [OF Some]
    have dec: "s = take i s @ CHR ''/'' # drop (Suc i) s" using d by (metis id_take_nth_drop)
    then have "drop (Suc i) s \<noteq> []" using s(2,3) by (metis last_snoc)
    then have "path_components (drop (Suc i) s) \<noteq> []" using d by (simp add: path_components_free)
    then show False using s(1) path_components_slash [of "take i s" "drop (Suc i) s"] dec by simp
  qed
qed

lemma path_components_seg:
  assumes "q \<noteq> []" "hd q \<noteq> CHR ''/''"
  defines "seg \<equiv> takeWhile (\<lambda>c. c \<noteq> CHR ''/'') q" and "rest \<equiv> dropWhile (\<lambda>c. c \<noteq> CHR ''/'') q"
  shows "path_components q = seg # path_components rest" "dir_seg seg" "q = seg @ rest"
    "rest = [] \<or> (\<exists>r. rest = CHR ''/'' # r)"
proof -
  show q: "q = seg @ rest" by (simp add: seg_def rest_def)
  show seg: "dir_seg seg"
    using assms(1,2) by (cases q) (auto simp: dir_seg_def seg_def dest: set_takeWhileD)
  show rest: "rest = [] \<or> (\<exists>r. rest = CHR ''/'' # r)"
    by (cases rest) (auto simp: rest_def dropWhile_eq_Cons_conv)
  have "CHR ''/'' \<notin> set seg" "seg \<noteq> []" using seg by (auto simp: dir_seg_def)
  with rest q show "path_components q = seg # path_components rest"
    using path_components_slash [of seg] path_components_slash [of "[]"]
    by (auto simp: path_components_free)
qed

lemma js_segments_step:
  "js_segments buf n p =
     (let q = lstrip_slash p; seg = takeWhile (\<lambda>c. c \<noteq> CHR ''/'') q;
          rest = dropWhile (\<lambda>c. c \<noteq> CHR ''/'') q
      in if q = [] then Some buf
         else if seg = ''.'' then js_segments buf n rest
         else if seg = ''..'' then js_segments (path_pop_segment buf) n rest
         else let seg' = (if rest = [] then strip_ext seg else seg)
              in if length seg' > 0
                 then (case path_append_segment buf n seg' of
                         None \<Rightarrow> None | Some buf' \<Rightarrow> js_segments buf' n rest)
                 else js_segments buf n rest)"
  unfolding js_segments.simps [of buf n p] lstrip_slash_def Let_def by (rule refl)

lemma js_segments_ref:
  assumes "\<forall>s \<in> set segs. dir_seg s" "p = [] \<or> (last p \<noteq> CHR ''/'') = f"
    and "lstrip_slash p \<noteq> [] \<longrightarrow> length (join_dirs segs) + length (lstrip_slash p) + 2 \<le> n"
  shows "js_segments (join_dirs segs) n p = Some (join_dirs (js_ref f segs (path_components p)))"
  using assms
proof (induction "length p" arbitrary: segs p rule: less_induct)
  case less
  let ?q = "lstrip_slash p"
  show ?case
  proof (cases "?q = []")
    case True
    then have "path_components p = []" using path_components_lstrip [of p] by simp
    with True show ?thesis by (subst js_segments_step) simp
  next
    case False
    define seg where "seg = takeWhile (\<lambda>c. c \<noteq> CHR ''/'') ?q"
    define rest where "rest = dropWhile (\<lambda>c. c \<noteq> CHR ''/'') ?q"
    have hd: "hd ?q \<noteq> CHR ''/''" using hd_dropWhile False unfolding lstrip_slash_def by blast
    note pc = path_components_seg [OF False hd, folded seg_def rest_def]
    have comps: "path_components p = seg # path_components rest"
      using pc(1) path_components_lstrip [of p] by simp
    obtain pre where pre: "p = pre @ ?q"
      using takeWhile_dropWhile_id [of "\<lambda>c. c = CHR ''/''" p] unfolding lstrip_slash_def by metis
    have seg_ne: "seg \<noteq> []" using pc(2) by (simp add: dir_seg_def)
    have shorter: "length rest < length p"
      using arg_cong [OF pre, of length] arg_cong [OF pc(3), of length] seg_ne by simp
    have last: "rest = [] \<or> (last rest \<noteq> CHR ''/'') = f"
      using less.prems(2) pre pc(3) seg_ne by (metis append_is_Nil_conv last_appendR)
    have f if "rest = []"
    proof -
      have "p \<noteq> []" "last p = last seg" using pre pc(3) seg_ne that by (metis append_Nil2 append_is_Nil_conv last_appendR)+
      moreover have "last seg \<noteq> CHR ''/''" using pc(2) by (auto simp: dir_seg_def dest: last_in_set)
      ultimately show f using less.prems(2) by simp
    qed
    then have none: "path_components rest = [] \<and> f \<longleftrightarrow> rest = []"
      using last path_components_eq_Nil [of rest] by auto
    have fits: "length (join_dirs segs) + length seg + length rest + 2 \<le> n"
      using less.prems(3) False pc(3) by (metis add.assoc length_append)
    have rlen: "lstrip_slash rest \<noteq> [] \<longrightarrow> Suc (length (lstrip_slash rest)) \<le> length rest"
      using pc(4) by (auto simp: lstrip_slash_def length_dropWhile_le)
    have IH: "js_segments (join_dirs segs') n rest = Some (join_dirs (js_ref f segs' (path_components rest)))"
      if "\<forall>s \<in> set segs'. dir_seg s" "length (join_dirs segs') \<le> length (join_dirs segs) + Suc (length seg)"
      for segs'
      using that fits rlen by (intro less.hyps shorter last) auto
    have pop: "length (join_dirs (butlast segs)) \<le> length (join_dirs segs)"
      by (cases segs rule: rev_cases; cases "butlast segs = []") (auto simp: join_with_snoc)
    have bl: "\<forall>s \<in> set (butlast segs). dir_seg s"
      using less.prems(1) by (auto dest: in_set_butlastD)
    let ?seg' = "if rest = [] then strip_ext seg else seg"
    have seg': "dir_seg ?seg'" "length ?seg' \<le> length seg" using strip_ext_dir_seg [OF pc(2)] pc(2) by auto
    have app: "path_append_segment (join_dirs segs) n ?seg' = Some (join_dirs (segs @ [?seg']))"
      unfolding path_append_join [OF less.prems(1)] using fits seg'(2) by auto
    have joined: "length (join_dirs (segs @ [?seg'])) \<le> length (join_dirs segs) + Suc (length seg)"
      using seg'(2) by (cases "segs = []") (auto simp: join_with_snoc)
    have step: "js_segments (join_dirs segs) n p =
       (if seg = ''.'' then js_segments (join_dirs segs) n rest
        else if seg = ''..'' then js_segments (path_pop_segment (join_dirs segs)) n rest
        else js_segments (join_dirs (segs @ [?seg'])) n rest)"
      using False app seg'(1)
      by (subst js_segments_step) (auto simp: Let_def seg_def [symmetric] rest_def [symmetric] dir_seg_def)
    show ?thesis
      unfolding step comps path_pop_join [OF less.prems(1)] js_ref.simps none strip_ext_without_ext [symmetric]
      using IH [of segs] IH [of "butlast segs"] IH [of "segs @ [?seg']"] less.prems(1) bl pop joined seg'(1)
      by auto
  qed
qed

lemma seed_source_join:
  assumes src: "map (\<lambda>c. if c = CHR 0x5C then CHR ''/'' else c) source_rel = join_dirs (dirs @ [src_file])"
    and segs: "dir_seg src_file" and n: "length (join_dirs dirs) + 2 \<le> n"
  shows "seed_source_dir n (Some source_rel) = join_dirs dirs"
proof -
  let ?buf = "take (n - 1) (join_dirs (dirs @ [src_file]))"
  have src_file: "CHR ''/'' \<notin> set (take k src_file)" for k using segs by (auto simp: dir_seg_def dest: in_set_takeD)
  have "(case strrchr ?buf CHR ''/'' of Some i \<Rightarrow> take i ?buf | None \<Rightarrow> []) = join_dirs dirs"
  proof (cases "dirs = []")
    case True
    with src_file [of "n - 1"] show ?thesis by (simp add: strrchr_None [THEN iffD2])
  next
    case False
    then obtain k where "?buf = join_dirs dirs @ CHR ''/'' # take k src_file"
      using n by (cases "n - 1 - length (join_dirs dirs)") (auto simp: join_with_snoc)
    with src_file [of k] show ?thesis by (simp add: strrchr_append_last)
  qed
  then show ?thesis unfolding seed_source_dir_def Let_def option.case take_map [symmetric] src .
qed

subsection \<open>The buffer is never overrun\<close>

lemma path_append_bound: "path_append_segment buf n seg = Some r \<Longrightarrow> length r < n"
  by (auto simp: path_append_segment_def Let_def split: if_splits)

lemma path_pop_length: "length (path_pop_segment buf) \<le> length buf"
  by (auto simp: path_pop_segment_def split: option.splits)

lemma path_pops_length: "length ((path_pop_segment ^^ k) buf) \<le> length buf"
  by (induction k) (auto intro: order_trans [OF path_pop_length])

lemma python_segments_bound:
  "python_segments buf n p = Some r \<Longrightarrow> length buf < n \<Longrightarrow> length r < n"
proof (induction buf n p rule: python_segments.induct)
  case (1 buf n p)
  show ?case
  proof (cases "p = []")
    case True
    with "1.prems" show ?thesis by (simp add: python_segments.simps [of buf n "[]"])
  next
    case False
    with "1.prems" show ?thesis
      using "1.IH" [OF False refl refl] path_append_bound [of buf n]
      by (auto simp: python_segments.simps [of buf n p] Let_def split: if_splits option.splits)
  qed
qed

lemma js_segments_SomeD:
  assumes "js_segments buf n p = Some r"
  shows "r = buf \<or> (\<exists>buf' rest. length rest < length p \<and> js_segments buf' n rest = Some r \<and>
    (buf' = buf \<or> buf' = path_pop_segment buf \<or> (\<exists>seg. path_append_segment buf n seg = Some buf')))"
proof (cases "lstrip_slash p = []")
  case True
  with assms show ?thesis by (simp add: js_segments_step [of buf n p])
next
  case False
  define seg where "seg = takeWhile (\<lambda>c. c \<noteq> CHR ''/'') (lstrip_slash p)"
  define rest where "rest = dropWhile (\<lambda>c. c \<noteq> CHR ''/'') (lstrip_slash p)"
  have "hd (lstrip_slash p) \<noteq> CHR ''/''" using hd_dropWhile False unfolding lstrip_slash_def by blast
  then have "length rest < length (lstrip_slash p)"
    unfolding rest_def using False by (intro length_dropWhile_lt) auto
  then have "length rest < length p"
    using length_dropWhile_le [of "\<lambda>c. c = CHR ''/''" p] by (simp add: lstrip_slash_def)
  moreover have "\<exists>buf'. js_segments buf' n rest = Some r \<and>
    (buf' = buf \<or> buf' = path_pop_segment buf \<or> (\<exists>seg. path_append_segment buf n seg = Some buf'))"
    using assms False
    unfolding js_segments_step [of buf n p] Let_def seg_def [symmetric] rest_def [symmetric]
    by (simp split: if_splits option.splits) blast+
  ultimately show ?thesis by blast
qed

lemma js_segments_bound: "js_segments buf n p = Some r \<Longrightarrow> length buf < n \<Longrightarrow> length r < n"
proof (induction "length p" arbitrary: buf p rule: less_induct)
  case less
  from js_segments_SomeD [OF less.prems(1)] show ?case
  proof (elim disjE exE conjE)
    assume "r = buf"
    with less.prems(2) show ?thesis by simp
  next
    fix buf' rest
    assume "length rest < length p" "js_segments buf' n rest = Some r" "buf' = buf"
    with less show ?thesis by simp
  next
    fix buf' rest
    assume "length rest < length p" "js_segments buf' n rest = Some r" "buf' = path_pop_segment buf"
    with less path_pop_length [of buf] show ?thesis by (simp add: order_le_less_trans)
  next
    fix buf' rest seg
    assume "length rest < length p" "js_segments buf' n rest = Some r"
      "path_append_segment buf n seg = Some buf'"
    with less.hyps path_append_bound show ?thesis by blast
  qed
qed

lemma resolve_python_bound:
  "resolve_python_relative buf n m = Some r \<Longrightarrow> length buf < n \<Longrightarrow> length r < n"
  unfolding resolve_python_relative_def Let_def
  by (erule python_segments_bound) (rule order_le_less_trans [OF path_pops_length])

lemma seed_source_dir_length: "length (seed_source_dir n s) \<le> n - 1"
  by (auto simp: seed_source_dir_def Let_def split: option.splits)

section \<open>Properties\<close>

text \<open>
  The project name derived from any path, NULL included, passes the validator that the
  store applies before it builds a database file name from it.
\<close>

theorem project_name_validates:
  "cbm_validate_project_name (Some (cbm_project_name_from_path abs_path))"
  by (rule proper_valid [OF proper_project_name])

text \<open>
  Deriving a project name is idempotent: a name obtained from a path, given again as a
  path, is returned unchanged.
\<close>

theorem project_name_idempotent:
  "cbm_project_name_from_path (Some (cbm_project_name_from_path abs_path)) =
   cbm_project_name_from_path abs_path"
  by (rule project_name_proper_id [OF proper_project_name])

text \<open>
  The name of a folder, and that of a symbol in a file, are the project, the non-empty
  path components (at most 254) of the normalised path, for a symbol with the extension
  dropped and a final \<open>__init__\<close> or \<open>index\<close> removed, and the symbol, joined by dots.
\<close>

theorem fqn_from_components:
  "cbm_pipeline_fqn_folder (Some project) (Some dir) =
     join_segments (project # take 254 (path_components (cbm_normalize_path_sep dir))) \<and>
   (name \<noteq> [] \<longrightarrow>
    cbm_pipeline_fqn_compute (Some project) (Some path) (Some name) =
     (let comps = take 254 (path_components (strip_file_extension (cbm_normalize_path_sep path)));
          comps = (if comps \<noteq> [] \<and> last comps \<in> {''__init__'', ''index''} then butlast comps else comps)
      in join_segments (project # comps @ [name])))"
proof -
  have folder: "cbm_pipeline_fqn_folder (Some project) (Some dir) =
      join_segments (project # take 254 (path_components (cbm_normalize_path_sep dir)))"
    by (simp add: cbm_pipeline_fqn_folder_def tokenize_path_components FQN_MAX_DIR_SEGS_def)
  have strip: "strip_init_or_index (project # comps) (Some name) =
      project # (if comps \<noteq> [] \<and> last comps \<in> {''__init__'', ''index''} then butlast comps else comps)"
    if "name \<noteq> []" for comps
    using that by (cases comps) (auto simp: strip_init_or_index_def)
  show ?thesis
    unfolding folder cbm_pipeline_fqn_compute_def tokenize_path_components FQN_MAX_PATH_SEGS_def Let_def
    using strip by (simp only: option.case if_True simp_thms) simp
qed

lemma fqn_from_components_witness:
  "cbm_pipeline_fqn_compute (Some ''p'') (Some ''a//b/__init__.py'') (Some ''f'') = ''p.a.b.f''"
  using fqn_from_components [of "''p''" "[]" "''f''" "''a//b/__init__.py''"]
  by (simp add: path_components_def strip_file_extension_def cbm_normalize_path_sep_def
      cbm_canonicalize_drive_def schar_def byte_def)

text \<open>
  Resolving a relative import never writes past its 1024-byte buffer: what it returns
  has room for its NUL, whatever the source path and the module path are.
\<close>

theorem resolve_relative_import_bound:
  assumes "cbm_pipeline_resolve_relative_import source_rel module_path = Some r"
  shows "length r < FQN_PATH_BUF"
proof -
  have "length (seed_source_dir FQN_PATH_BUF source_rel) < FQN_PATH_BUF"
    using seed_source_dir_length [of FQN_PATH_BUF source_rel] by (simp add: FQN_PATH_BUF_def)
  then show ?thesis
    using assms resolve_python_bound js_segments_bound
    by (auto simp: cbm_pipeline_resolve_relative_import_def resolve_js_relative_def
        split: rel_kind.splits option.splits)
qed

lemma resolve_relative_import_bound_witness:
  "cbm_pipeline_resolve_relative_import (Some ''src/app/main.ts'') (Some ''../lib/util.ts'') =
     Some ''src/lib/util'' \<and> length ''src/lib/util'' < FQN_PATH_BUF"
proof -
  have e: "cbm_pipeline_resolve_relative_import (Some ''src/app/main.ts'') (Some ''../lib/util.ts'') =
      Some ''src/lib/util''"
    by code_simp
  with resolve_relative_import_bound [OF e] show ?thesis by simp
qed

text \<open>
  C33. A JavaScript import (it starts with a dot and has a slash) resolves like a walk over a stack of
  directories. The importing file is given by its path from the root of the repository, without empty components,
  and backslashes count as slashes. The walk starts at the directory of that file; each component
  of the import is pushed, \<open>..\<close> pops and \<open>.\<close> does nothing. A last component with no slash
  after it loses its extension: the last dot, unless it is the first character, and what follows.
  The directory and the import have to fit into the 1024 bytes of the buffer.
\<close>

theorem js_import_resolves:
  assumes "map (\<lambda>c. if c = CHR 0x5C then CHR ''/'' else c) source_rel = join_dirs (dirs @ [src_file])"
    and "\<forall>s \<in> set (dirs @ [src_file]). dir_seg s"
    and "module_path \<noteq> []" "hd module_path = CHR ''.''" "CHR ''/'' \<in> set module_path"
    and "length (join_dirs dirs) + length module_path + 2 \<le> FQN_PATH_BUF"
  shows "cbm_pipeline_resolve_relative_import (Some source_rel) (Some module_path) =
    Some (join_dirs (js_import_target dirs module_path))"
proof -
  have "length (lstrip_slash module_path) \<le> length module_path"
    by (simp add: lstrip_slash_def length_dropWhile_le)
  with assms have "resolve_js_relative (join_dirs dirs) FQN_PATH_BUF module_path =
      Some (join_dirs (js_import_target dirs module_path))"
    unfolding resolve_js_relative_def js_import_target_def by (intro js_segments_ref) auto
  moreover have "seed_source_dir FQN_PATH_BUF (Some source_rel) = join_dirs dirs"
    using assms(2,6) by (intro seed_source_join [OF assms(1)]) auto
  moreover have "classify_relative_import (Some module_path) = FQN_REL_KIND_JS"
    using assms(3-5) by (auto simp: classify_relative_import_def hd_conv_nth strchr_None)
  ultimately show ?thesis by (simp add: cbm_pipeline_resolve_relative_import_def)
qed

lemma js_import_resolves_witness:
  "cbm_pipeline_resolve_relative_import (Some (''src'' @ [CHR 0x5C] @ ''app/main.ts'')) (Some ''../lib/util.ts'') =
     Some ''src/lib/util''"
proof -
  have "cbm_pipeline_resolve_relative_import (Some (''src'' @ [CHR 0x5C] @ ''app/main.ts'')) (Some ''../lib/util.ts'') =
      Some (join_dirs (js_import_target [''src'', ''app''] ''../lib/util.ts''))"
    by (rule js_import_resolves [of _ _ "''main.ts''"]) (simp_all add: dir_seg_def FQN_PATH_BUF_def)
  moreover have "js_import_target [''src'', ''app''] ''../lib/util.ts'' = [''src'', ''lib'', ''util'']"
    by code_simp
  ultimately show ?thesis by simp
qed

end
