(* ===== verification/Gitignore.thy ===== *)
theory Gitignore
  imports Prelude
begin

text \<open>
  Ignore files, \<open>discover/gitignore.c\<close>: the glob matcher, the parser of ignore files and
  the decision whether a path is ignored. Heap allocation is taken to succeed.

  The matcher is compared with a declarative reading of patterns (\<open>glob_tokens\<close> and
  \<open>tokens_match\<close>); the parser with a printer of patterns; the decision with the rule that
  the last applicable pattern wins.
\<close>

section \<open>Patterns\<close>

record gi_pattern_t =
  pattern :: string
  negated :: bool
  dir_only :: bool
  rooted :: bool

record cbm_gitignore =
  patterns :: "gi_pattern_t list"
  capacity :: nat

definition GI_INIT_CAP :: nat where "GI_INIT_CAP = 16"

section \<open>The glob matcher\<close>

fun class_loop :: "char \<Rightarrow> char option \<Rightarrow> bool \<Rightarrow> string \<Rightarrow> bool \<times> string" where
  \<comment> \<open>the loop of \<open>glob_match_charclass\<close>: \<open>prev\<close> is \<open>None\<close> while it is 0\<close>
  "class_loop ch prev matched [] = (matched, [])"
| "class_loop ch prev matched (c # cs) =
     (if c = CHR '']'' then (matched, c # cs)
      else if c = CHR ''-'' \<and> prev \<noteq> None \<and> cs \<noteq> [] \<and> hd cs \<noteq> CHR '']''
      then class_loop ch (Some (hd cs))
             (matched \<or> (schar ch \<ge> schar (the prev) \<and> schar ch \<le> schar (hd cs))) (tl cs)
      else class_loop ch (Some c) (matched \<or> ch = c) cs)"

definition glob_match_charclass :: "string \<Rightarrow> char \<Rightarrow> bool \<times> string" where
  \<comment> \<open>whether \<open>ch\<close> is in the class, and the pattern after the class\<close>
  "glob_match_charclass pat ch =
     (let negate_class = (pat \<noteq> [] \<and> (hd pat = CHR ''!'' \<or> hd pat = CHR ''^''));
          pat = (if negate_class then tl pat else pat)
      in case class_loop ch None False pat of
           (matched, rest) \<Rightarrow>
             (if negate_class then \<not> matched else matched,
              if rest \<noteq> [] \<and> hd rest = CHR '']'' then tl rest else rest))"

lemma class_loop_length: "length (snd (class_loop ch prev m pat)) \<le> length pat"
proof (induction ch prev m pat rule: class_loop.induct)
  case (2 ch prev matched c cs)
  then show ?case by (cases cs) (auto intro: le_SucI)
qed simp

lemma charclass_length: "length (snd (glob_match_charclass pat ch)) \<le> length pat"
proof -
  let ?p = "if pat \<noteq> [] \<and> (hd pat = CHR ''!'' \<or> hd pat = CHR ''^'') then tl pat else pat"
  have "length ?p \<le> length pat" by simp
  moreover have "length (snd (class_loop ch None False ?p)) \<le> length ?p" by (rule class_loop_length)
  ultimately have "length (snd (class_loop ch None False ?p)) \<le> length pat" by linarith
  then show ?thesis
    by (auto simp: glob_match_charclass_def Let_def split: prod.split)
qed

text \<open>
  The loops that try the rest of a pattern at successive positions of the string. \<open>m\<close> is
  \<open>glob_match\<close> for that rest. Where C reads the terminating NUL the list is empty.
\<close>

fun glob_match_star :: "(string \<Rightarrow> bool) \<Rightarrow> string \<Rightarrow> bool" where
  "glob_match_star m [] = m []"
| "glob_match_star m (s # str) =
     (if m (s # str) then True
      else if s = CHR ''/'' then False
      else glob_match_star m str)"

fun glob_match_doublestar_any :: "(string \<Rightarrow> bool) \<Rightarrow> string \<Rightarrow> bool" where
  "glob_match_doublestar_any m [] = m []"
| "glob_match_doublestar_any m (s # str) =
     (if m (s # str) then True else glob_match_doublestar_any m str)"

fun doublestar_boundaries :: "(string \<Rightarrow> bool) \<Rightarrow> string \<Rightarrow> bool" where
  "doublestar_boundaries m [] = False"
| "doublestar_boundaries m (s # str) =
     (if s = CHR ''/'' \<and> m str then True else doublestar_boundaries m str)"

definition glob_match_doublestar_slash :: "(string \<Rightarrow> bool) \<Rightarrow> string \<Rightarrow> bool" where
  "glob_match_doublestar_slash m str = (if m str then True else doublestar_boundaries m str)"

text \<open>\<open>glob_match\<close>, with \<open>glob_match_doublestar\<close> in its place: what follows the two stars.\<close>

function glob_match :: "string \<Rightarrow> string \<Rightarrow> bool" where
  "glob_match pat [] = (dropWhile (\<lambda>c. c = CHR ''*'') pat = [])"
| "glob_match [] (s # str) = False"
| "glob_match (p # pat) (s # str) =
     (if p = CHR ''*'' \<and> pat \<noteq> [] \<and> hd pat = CHR ''*''
      then (if tl pat \<noteq> [] \<and> hd (tl pat) = CHR ''/''
            then glob_match_doublestar_slash (\<lambda>t. glob_match (drop 2 pat) t) (s # str)
            else if tl pat = [] then True
            else glob_match_doublestar_any (\<lambda>t. glob_match (drop 1 pat) t) (s # str))
      else if p = CHR ''*'' then glob_match_star (\<lambda>t. glob_match pat t) (s # str)
      else if p = CHR ''?'' then (if s = CHR ''/'' then False else glob_match pat str)
      else if p = CHR ''['' then
        (if \<not> fst (glob_match_charclass pat s) then False
         else glob_match (snd (glob_match_charclass pat s)) str)
      else if p \<noteq> s then False
      else glob_match pat str)"
  by pat_completeness auto
termination
  by (relation "measure (\<lambda>(p, _). length p)") (auto simp: le_imp_less_Suc charclass_length)

declare glob_match.simps(3) [simp del]

section \<open>Parsing ignore files\<close>

definition gi_add_pattern :: "cbm_gitignore \<Rightarrow> string \<Rightarrow> cbm_gitignore" where
  "gi_add_pattern gi line =
     (let line = rev (dropWhile (\<lambda>c. c = CHR '' '' \<or> c = CHR 0x09 \<or> c = CHR 0x0D) (rev line)) in
      if line = [] then gi
      else let neg = (hd line = CHR ''!'');
               start = (if neg then tl line else line) in
      if start = [] then gi
      else let dir = (last start = CHR ''/'');
               start = (if dir then butlast start else start) in
      if start = [] then gi
      else let root = (hd start = CHR ''/'');
               start = (if root then tl start else start) in
      if start = [] then gi
      else let root = (if \<not> root then list_ex (\<lambda>c. c = CHR ''/'') start else root);
               p = \<lparr>pattern = start, negated = neg, dir_only = dir, rooted = root\<rparr>;
               cap = (if length (patterns gi) \<ge> capacity gi
                      then (if capacity gi \<noteq> 0 then capacity gi * 2 else GI_INIT_CAP)
                      else capacity gi)
           in gi\<lparr>capacity := cap, patterns := patterns gi @ [p]\<rparr>)"

function gitignore_lines :: "cbm_gitignore \<Rightarrow> string \<Rightarrow> cbm_gitignore" where
  \<comment> \<open>the loop of \<open>cbm_gitignore_parse\<close>\<close>
  "gitignore_lines gi content =
     (if content = [] then gi
      else let eol = strchr content CHR 0x0A;
               line = (case eol of Some i \<Rightarrow> take i content | None \<Rightarrow> content);
               gi = (if length line > 0 \<and> hd line \<noteq> CHR ''#'' then gi_add_pattern gi line else gi)
           in case eol of
                None \<Rightarrow> gi
              | Some i \<Rightarrow> gitignore_lines gi (drop (i + 1) content))"
  by pat_completeness auto
termination
  by (relation "measure (\<lambda>(_, c). length c)") auto

declare gitignore_lines.simps [simp del]

definition cbm_gitignore_parse :: "cstr \<Rightarrow> cbm_gitignore option" where
  "cbm_gitignore_parse content =
     (case content of
        None \<Rightarrow> None
      | Some c \<Rightarrow> Some (gitignore_lines \<lparr>patterns = [], capacity = 0\<rparr> c))"

definition cbm_gitignore_load :: "(string \<Rightarrow> string option) \<Rightarrow> cstr \<Rightarrow> cbm_gitignore option" where
  \<comment> \<open>the first argument gives the bytes of the files that can be opened; the text ends at the first NUL\<close>
  "cbm_gitignore_load fopen path =
     (case path of
        None \<Rightarrow> None
      | Some name \<Rightarrow>
          (case fopen name of
             None \<Rightarrow> None
           | Some bytes \<Rightarrow>
               (if bytes = [] then cbm_gitignore_parse (Some [])
                else cbm_gitignore_parse (Some (takeWhile (\<lambda>c. c \<noteq> CHR 0x00) bytes)))))"

section \<open>Deciding whether a path is ignored\<close>

function unrooted_loop :: "string \<Rightarrow> string \<Rightarrow> bool" where
  "unrooted_loop pat s =
     (if s = [] then False
      else if glob_match pat s then True
      else case strchr s CHR ''/'' of
             None \<Rightarrow> False
           | Some i \<Rightarrow> unrooted_loop pat (drop (i + 1) s))"
  by pat_completeness auto
termination
  by (relation "measure (\<lambda>(_, s). length s)") auto

declare unrooted_loop.simps [simp del]

definition match_unrooted :: "string \<Rightarrow> string \<Rightarrow> string \<Rightarrow> bool" where
  "match_unrooted pat rel_path base =
     (if glob_match pat base then True
      else if strchr rel_path CHR ''/'' = None then False
      else unrooted_loop pat rel_path)"

fun gitignore_fold :: "string \<Rightarrow> string \<Rightarrow> bool \<Rightarrow> bool \<Rightarrow> gi_pattern_t list \<Rightarrow> bool" where
  "gitignore_fold rel_path base is_dir matched [] = matched"
| "gitignore_fold rel_path base is_dir matched (p # ps) =
     (if dir_only p \<and> \<not> is_dir then gitignore_fold rel_path base is_dir matched ps
      else let this_match = (if rooted p then glob_match (pattern p) rel_path
                             else match_unrooted (pattern p) rel_path base)
           in gitignore_fold rel_path base is_dir (if this_match then \<not> negated p else matched) ps)"

definition cbm_gitignore_matches :: "cbm_gitignore option \<Rightarrow> cstr \<Rightarrow> bool \<Rightarrow> bool" where
  "cbm_gitignore_matches gi rel_path is_dir =
     (case (gi, rel_path) of
        (Some gi, Some p) \<Rightarrow>
          (let base = (case strrchr p CHR ''/'' of Some i \<Rightarrow> drop (i + 1) p | None \<Rightarrow> p)
           in gitignore_fold p base is_dir False (patterns gi))
      | _ \<Rightarrow> False)"

section \<open>What a pattern means\<close>

text \<open>
  The reading of a pattern that does not use the matcher. The body of a class is the text up
  to the first \<open>]\<close> (or the end of the pattern), after a leading \<open>!\<close> or \<open>^\<close> that
  complements it. It is a list of single characters and ranges: a \<open>-\<close> with a character
  before and after it in the body is a range from the one to the other, any other character
  stands for itself. A range denotes the characters between its ends in the order of signed
  chars.
\<close>

datatype class_item = Single char | Range char char

primrec item_chars :: "class_item \<Rightarrow> char set" where
  "item_chars (Single c) = {c}"
| "item_chars (Range a b) = {c. schar a \<le> schar c \<and> schar c \<le> schar b}"

fun class_items_after :: "char \<Rightarrow> string \<Rightarrow> class_item list" where
  \<comment> \<open>the items of a body whose character before this point is \<open>a\<close>\<close>
  "class_items_after a [] = []"
| "class_items_after a [c] = [Single c]"
| "class_items_after a (c # d # cs) =
     (if c = CHR ''-'' then Range a d # class_items_after d cs
      else Single c # class_items_after c (d # cs))"

fun class_items :: "string \<Rightarrow> class_item list" where
  "class_items [] = []"
| "class_items (c # cs) = Single c # class_items_after c cs"

datatype gtok =
    Lit char
  | AnyChar
  | CharClass bool "class_item list" \<comment> \<open>complemented or not, its items\<close>
  | Star
  | DoubleStar
  | DoubleStarSlash

definition class_negated :: "string \<Rightarrow> bool" where
  "class_negated pat \<longleftrightarrow> (\<exists>pat'. pat = CHR ''!'' # pat' \<or> pat = CHR ''^'' # pat')"

definition class_text :: "string \<Rightarrow> string" where
  "class_text pat = (if class_negated pat then tl pat else pat)"

abbreviation class_body :: "string \<Rightarrow> string" where
  "class_body pat \<equiv> takeWhile (\<lambda>c. c \<noteq> CHR '']'') (class_text pat)"

abbreviation after_class :: "string \<Rightarrow> string" where
  "after_class pat \<equiv> drop 1 (dropWhile (\<lambda>c. c \<noteq> CHR '']'') (class_text pat))"

lemma class_text_length: "length (class_text pat) \<le> length pat"
  by (simp add: class_text_def)

lemma after_class_length: "length (after_class pat) \<le> length pat"
proof -
  have "length (after_class pat) \<le> length (class_text pat)"
    using length_dropWhile_le [of "\<lambda>c. c \<noteq> CHR '']''" "class_text pat"] by simp
  then show ?thesis using class_text_length [of pat] by linarith
qed

function glob_tokens :: "string \<Rightarrow> gtok list" where
  "glob_tokens [] = []"
| "glob_tokens (p # pat) =
     (if p = CHR ''*'' \<and> pat \<noteq> [] \<and> hd pat = CHR ''*''
      then (if tl pat \<noteq> [] \<and> hd (tl pat) = CHR ''/'' then DoubleStarSlash # glob_tokens (drop 2 pat)
            else DoubleStar # glob_tokens (drop 1 pat))
      else if p = CHR ''*'' then Star # glob_tokens pat
      else if p = CHR ''?'' then AnyChar # glob_tokens pat
      else if p = CHR ''['' then
        CharClass (class_negated pat) (class_items (class_body pat)) # glob_tokens (after_class pat)
      else Lit p # glob_tokens pat)"
  by pat_completeness auto
termination
  by (relation "measure length")
    (use after_class_length in \<open>auto simp: less_Suc_eq_le\<close>)

declare glob_tokens.simps(2) [simp del]

fun tokens_match :: "gtok list \<Rightarrow> string \<Rightarrow> bool" where
  "tokens_match [] s = (s = [])"
| "tokens_match (Lit c # ts) s = (\<exists>s'. s = c # s' \<and> tokens_match ts s')"
| "tokens_match (AnyChar # ts) s = (\<exists>c s'. s = c # s' \<and> c \<noteq> CHR ''/'' \<and> tokens_match ts s')"
| "tokens_match (CharClass neg items # ts) s =
     (\<exists>c s'. s = c # s' \<and> c \<in> (if neg then - \<Union> (item_chars ` set items) else \<Union> (item_chars ` set items)) \<and>
        tokens_match ts s')"
| "tokens_match (Star # ts) s = (\<exists>u v. s = u @ v \<and> CHR ''/'' \<notin> set u \<and> tokens_match ts v)"
| "tokens_match (DoubleStar # ts) s = (\<exists>u v. s = u @ v \<and> tokens_match ts v)"
| "tokens_match (DoubleStarSlash # ts) s =
     (s \<noteq> [] \<and> (tokens_match ts s \<or> (\<exists>u v. s = u @ CHR ''/'' # v \<and> tokens_match ts v)))"

section \<open>The matcher follows the reading of patterns\<close>

lemma star_iff: "glob_match_star m s \<longleftrightarrow> (\<exists>u v. s = u @ v \<and> CHR ''/'' \<notin> set u \<and> m v)"
  by (induction m s rule: glob_match_star.induct) (auto simp: ex_split_Cons)

lemma doublestar_any_iff: "glob_match_doublestar_any m s \<longleftrightarrow> (\<exists>u v. s = u @ v \<and> m v)"
  by (induction m s rule: glob_match_doublestar_any.induct) (auto simp: ex_split_Cons)

lemma doublestar_boundaries_iff:
  "doublestar_boundaries m s \<longleftrightarrow> (\<exists>u v. s = u @ CHR ''/'' # v \<and> m v)"
  by (induction m s rule: doublestar_boundaries.induct) (auto simp: ex_split_Cons_mid)

lemma class_loop_after:
  "class_loop ch (Some a) m pat =
     (m \<or> ch \<in> \<Union> (item_chars ` set (class_items_after a (takeWhile (\<lambda>c. c \<noteq> CHR '']'') pat))),
      dropWhile (\<lambda>c. c \<noteq> CHR '']'') pat)"
proof (induction pat arbitrary: a m rule: induct_list012)
  case (2 c)
  then show ?case by auto
next
  case (3 c d cs)
  show ?case
  proof (cases "c = CHR ''-'' \<and> d \<noteq> CHR '']''")
    case True
    then show ?thesis using "3.IH"(1) [of d] by auto
  next
    case False
    then show ?thesis
      using "3.IH"(2) [of c "m \<or> ch = c"] by (cases "d = CHR '']''") auto
  qed
qed simp

lemma charclass_denotes:
  "glob_match_charclass pat ch =
     ((ch \<in> \<Union> (item_chars ` set (class_items (class_body pat)))) \<noteq> class_negated pat, after_class pat)"
proof -
  have loop: "class_loop ch None False body =
     (ch \<in> \<Union> (item_chars ` set (class_items (takeWhile (\<lambda>c. c \<noteq> CHR '']'') body))),
      dropWhile (\<lambda>c. c \<noteq> CHR '']'') body)" for body
    by (cases body) (auto simp: class_loop_after)
  have neg: "pat \<noteq> [] \<and> (hd pat = CHR ''!'' \<or> hd pat = CHR ''^'') \<longleftrightarrow> class_negated pat"
    by (cases pat) (auto simp: class_negated_def)
  have closing: "(if r \<noteq> [] \<and> hd r = CHR '']'' then tl r else r) = drop 1 r"
    if "r = dropWhile (\<lambda>c. c \<noteq> CHR '']'') body" for r body :: string
  proof (cases r)
    case (Cons c cs)
    with that hd_dropWhile [of "\<lambda>c. c \<noteq> CHR '']''" body] have "c = CHR '']''" by (metis list.distinct(1) list.sel(1))
    with Cons show ?thesis by simp
  qed simp
  show ?thesis
    unfolding glob_match_charclass_def neg Let_def class_text_def [symmetric] loop
    by (simp only: prod.case closing [OF refl]) auto
qed

lemma tokens_match_Nil:
  "tokens_match (glob_tokens pat) [] \<longleftrightarrow> dropWhile (\<lambda>c. c = CHR ''*'') pat = []"
proof (induction pat rule: glob_tokens.induct)
  case 1
  then show ?case by simp
next
  case (2 p pat)
  show ?case
  proof (cases "p = CHR ''*''")
    case star: True
    show ?thesis
    proof (cases pat)
      case Nil
      with 2 star show ?thesis by (simp add: glob_tokens.simps(2))
    next
      case (Cons q qs)
      show ?thesis
      proof (cases "q = CHR ''*''")
        case True
        show ?thesis
        proof (cases "qs \<noteq> [] \<and> hd qs = CHR ''/''")
          case slash: True
          then obtain rs where "qs = CHR ''/'' # rs" by (cases qs) auto
          with Cons star True show ?thesis by (simp add: glob_tokens.simps(2))
        next
          case False
          then have "glob_tokens (p # pat) = DoubleStar # glob_tokens qs"
            using Cons star True by (simp add: glob_tokens.simps(2))
          then show ?thesis using "2.IH"(2) Cons star True False by simp
        qed
      next
        case False
        with Cons star "2.IH"(3) show ?thesis by (simp add: glob_tokens.simps(2))
      qed
    qed
  next
    case False
    then show ?thesis by (auto simp: glob_tokens.simps(2))
  qed
qed

lemma glob_match_tokens: "glob_match pat str \<longleftrightarrow> tokens_match (glob_tokens pat) str"
proof (induction pat str rule: glob_match.induct)
  case (1 pat)
  then show ?case by (simp add: tokens_match_Nil)
next
  case (2 s str)
  then show ?case by simp
next
  case (3 p pat s str)
  consider (dslash) "p = CHR ''*''" "pat \<noteq> [] \<and> hd pat = CHR ''*''" "tl pat \<noteq> [] \<and> hd (tl pat) = CHR ''/''"
    | (dend) "p = CHR ''*''" "pat \<noteq> [] \<and> hd pat = CHR ''*''" "tl pat = []"
    | (dany) "p = CHR ''*''" "pat \<noteq> [] \<and> hd pat = CHR ''*''" "tl pat \<noteq> []" "hd (tl pat) \<noteq> CHR ''/''"
    | (star) "p = CHR ''*''" "\<not> (pat \<noteq> [] \<and> hd pat = CHR ''*'')"
    | (other) "p \<noteq> CHR ''*''" by blast
  then show ?case
  proof cases
    case dslash
    then show ?thesis
      using "3.IH"(1)
      by (simp add: glob_match.simps(3) glob_tokens.simps(2) glob_match_doublestar_slash_def
          doublestar_boundaries_iff)
  next
    case dend
    then have "drop 1 pat = []" by (simp add: drop_Suc)
    with dend show ?thesis
      by (simp add: glob_match.simps(3) glob_tokens.simps(2))
  next
    case dany
    then show ?thesis
      using "3.IH"(2) by (simp add: glob_match.simps(3) glob_tokens.simps(2) doublestar_any_iff)
  next
    case star
    then have "glob_match (p # pat) (s # str) = glob_match_star (glob_match pat) (s # str)"
      and "glob_tokens (p # pat) = Star # glob_tokens pat"
      by (cases pat; simp add: glob_match.simps(3) glob_tokens.simps(2))+
    then show ?thesis using "3.IH"(3) star by (simp add: star_iff)
  next
    case other
    show ?thesis
    proof (cases "p = CHR ''[''")
      case True
      with "3.IH"(5) show ?thesis
        by (auto simp: glob_match.simps(3) glob_tokens.simps(2) charclass_denotes)
    next
      case False
      with other "3.IH"(4,6) show ?thesis
        by (auto simp: glob_match.simps(3) glob_tokens.simps(2))
    qed
  qed
qed

section \<open>Unanchored patterns\<close>

lemma unrooted_loop_iff:
  "unrooted_loop pat s \<longleftrightarrow>
     (\<exists>v. (v = s \<or> (\<exists>u. s = u @ CHR ''/'' # v)) \<and> v \<noteq> [] \<and> glob_match pat v)"
proof (induction pat s rule: unrooted_loop.induct)
  case (1 pat s)
  show ?case
  proof (cases "s = [] \<or> glob_match pat s")
    case True
    then show ?thesis by (subst unrooted_loop.simps) auto
  next
    case no: False
    show ?thesis
    proof (cases "strchr s CHR ''/''")
      case None
      then have "CHR ''/'' \<notin> set s" by (simp add: strchr_None)
      with no None show ?thesis by (subst unrooted_loop.simps) auto
    next
      case (Some i)
      define w where "w = take i s"
      have s: "s = w @ CHR ''/'' # drop (i + 1) s" "CHR ''/'' \<notin> set w"
        using strchr_decomp [OF Some] by (auto simp: w_def)
      have "(\<exists>u. s = u @ CHR ''/'' # v) \<longleftrightarrow>
          v = drop (i + 1) s \<or> (\<exists>u. drop (i + 1) s = u @ CHR ''/'' # v)" for v
      proof
        assume "\<exists>u. s = u @ CHR ''/'' # v"
        then obtain u where u: "w @ CHR ''/'' # drop (i + 1) s = u @ CHR ''/'' # v" using s(1) by metis
        then show "v = drop (i + 1) s \<or> (\<exists>u. drop (i + 1) s = u @ CHR ''/'' # v)"
          using s(2) by (auto simp: append_eq_append_conv2 Cons_eq_append_conv append_eq_Cons_conv)
      next
        assume "v = drop (i + 1) s \<or> (\<exists>u. drop (i + 1) s = u @ CHR ''/'' # v)"
        then show "\<exists>u. s = u @ CHR ''/'' # v" using s(1) by (metis append.assoc append_Cons)
      qed
      with no Some 1 [OF _ _ Some] show ?thesis by (subst unrooted_loop.simps) auto
    qed
  qed
qed

definition path_basename :: "string \<Rightarrow> string" where
  "path_basename p = (case strrchr p CHR ''/'' of Some i \<Rightarrow> drop (i + 1) p | None \<Rightarrow> p)"

lemma path_basename_suffix: "path_basename p = p \<or> (\<exists>u. p = u @ CHR ''/'' # path_basename p)"
proof (cases "strrchr p CHR ''/''")
  case (Some i)
  with strrchr_decomp [OF Some] show ?thesis by (auto simp: path_basename_def)
qed (simp add: path_basename_def)

lemma path_basename_Nil: "path_basename (u @ [CHR ''/'']) = []"
  using strrchr_append_last [of "CHR ''/''" "[]" u] by (simp add: path_basename_def)

lemma match_unrooted_iff:
  "match_unrooted pat p (path_basename p) \<longleftrightarrow>
     (\<exists>v. (v = p \<or> (\<exists>u. p = u @ CHR ''/'' # v)) \<and> glob_match pat v)"
proof (cases "strchr p CHR ''/''")
  case None
  then have "CHR ''/'' \<notin> set p" by (simp add: strchr_None)
  then have "path_basename p = p" by (simp add: path_basename_def strrchr_None [THEN iffD2])
  with \<open>CHR ''/'' \<notin> set p\<close> None show ?thesis by (auto simp: match_unrooted_def)
next
  case (Some i)
  then have ne: "p \<noteq> []" by auto
  have "path_basename p = []" if "p = u @ [CHR ''/'']" for u
    using that by (simp add: path_basename_Nil)
  then show ?thesis
    using Some ne path_basename_suffix [of p] unrooted_loop_iff [of pat p]
    by (auto simp: match_unrooted_def)
qed

section \<open>The last applicable pattern decides\<close>

definition gi_applies :: "string \<Rightarrow> bool \<Rightarrow> gi_pattern_t \<Rightarrow> bool" where
  "gi_applies path is_dir p \<longleftrightarrow> (dir_only p \<longrightarrow> is_dir) \<and>
     (if rooted p then tokens_match (glob_tokens (pattern p)) path
      else (\<exists>v. (v = path \<or> (\<exists>u. path = u @ CHR ''/'' # v)) \<and>
              tokens_match (glob_tokens (pattern p)) v))"

lemma gitignore_fold_last:
  "gitignore_fold path (path_basename path) is_dir m ps =
     (case find (gi_applies path is_dir) (rev ps) of None \<Rightarrow> m | Some p \<Rightarrow> \<not> negated p)"
proof (induction path "path_basename path" is_dir m ps rule: gitignore_fold.induct)
  case (1 path is_dir m)
  then show ?case by simp
next
  case (2 path is_dir m p ps)
  have applies: "gi_applies path is_dir p \<longleftrightarrow> \<not> (dir_only p \<and> \<not> is_dir) \<and>
      (if rooted p then glob_match (pattern p) path else match_unrooted (pattern p) path (path_basename path))"
    by (auto simp: gi_applies_def glob_match_tokens match_unrooted_iff)
  have "find Q (xs @ [p]) = (case find Q xs of None \<Rightarrow> (if Q p then Some p else None) | Some q \<Rightarrow> Some q)"
    for Q xs by (induction xs) auto
  with 2 applies show ?case by (auto simp: Let_def split: option.splits)
qed

section \<open>Printing patterns\<close>

definition gi_print :: "gi_pattern_t \<Rightarrow> string" where
  "gi_print p = (if negated p then ''!'' else []) @ (if rooted p then ''/'' else []) @ pattern p @
     (if dir_only p then ''/'' else [])"

definition gi_print_all :: "gi_pattern_t list \<Rightarrow> string" where
  "gi_print_all ps = concat (map (\<lambda>p. gi_print p @ [CHR 0x0A]) ps)"

definition trailing_blank :: "char \<Rightarrow> bool" where
  "trailing_blank c \<longleftrightarrow> c = CHR '' '' \<or> c = CHR 0x09 \<or> c = CHR 0x0D"

definition wf_pattern :: "gi_pattern_t \<Rightarrow> bool" where
  "wf_pattern p \<longleftrightarrow> pattern p \<noteq> [] \<and> CHR 0x0A \<notin> set (pattern p) \<and>
     (\<not> dir_only p \<longrightarrow> \<not> trailing_blank (last (pattern p)) \<and> last (pattern p) \<noteq> CHR ''/'') \<and>
     (\<not> rooted p \<longrightarrow> CHR ''/'' \<notin> set (pattern p)) \<and>
     (\<not> rooted p \<and> \<not> negated p \<longrightarrow> hd (pattern p) \<noteq> CHR ''!'' \<and> hd (pattern p) \<noteq> CHR ''#'')"

text \<open>The stages of \<open>gi_add_pattern\<close>, as one function of the trimmed line.\<close>

definition gi_read :: "string \<Rightarrow> gi_pattern_t option" where
  "gi_read line =
     (if line = [] then None
      else let neg = (hd line = CHR ''!''); a = (if neg then tl line else line) in
      if a = [] then None
      else let dir = (last a = CHR ''/''); b = (if dir then butlast a else a) in
      if b = [] then None
      else let root = (hd b = CHR ''/''); c = (if root then tl b else b) in
      if c = [] then None
      else Some \<lparr>pattern = c, negated = neg, dir_only = dir, rooted = root \<or> CHR ''/'' \<in> set c\<rparr>)"

definition gi_trim :: "string \<Rightarrow> string" where
  "gi_trim line = rev (dropWhile trailing_blank (rev line))"

lemma gi_add_pattern_read:
  "gi_add_pattern gi line =
     (case gi_read (gi_trim line) of
        None \<Rightarrow> gi
      | Some p \<Rightarrow>
          gi\<lparr>capacity := (if length (patterns gi) \<ge> capacity gi
                         then (if capacity gi \<noteq> 0 then capacity gi * 2 else GI_INIT_CAP)
                         else capacity gi),
             patterns := patterns gi @ [p]\<rparr>)"
proof -
  have tb: "(\<lambda>c. c = CHR '' '' \<or> c = CHR 0x09 \<or> c = CHR 0x0D) = trailing_blank"
    by (rule ext) (simp add: trailing_blank_def)
  have ex: "list_ex (\<lambda>c. c = CHR ''/'') xs \<longleftrightarrow> CHR ''/'' \<in> set xs" for xs by (auto simp: list_ex_iff)
  have root: "(if \<not> r then b else r) = (r \<or> b)" for r b by simp
  show ?thesis
    unfolding gi_add_pattern_def tb gi_trim_def [symmetric] gi_read_def Let_def ex root
    by (simp only: option.case if_distrib [where f = "case_option _ _"])
qed

lemma gi_trim_decomp: "line = gi_trim line @ rev (takeWhile trailing_blank (rev line))"
  unfolding gi_trim_def by (rule rev_dropWhile_decomp)

lemma gi_trim_id: "line \<noteq> [] \<Longrightarrow> \<not> trailing_blank (last line) \<Longrightarrow> gi_trim line = line"
proof -
  assume "line \<noteq> []" "\<not> trailing_blank (last line)"
  then have "dropWhile trailing_blank (rev line) = rev line"
    by (intro dropWhile_eq_self_iff [THEN iffD2]) (simp add: hd_rev)
  then show ?thesis by (simp add: gi_trim_def)
qed

lemma gi_trim_last: "gi_trim line \<noteq> [] \<Longrightarrow> \<not> trailing_blank (last (gi_trim line))"
  unfolding gi_trim_def by (simp add: last_rev hd_dropWhile)

lemma gi_trim_hd: "gi_trim line \<noteq> [] \<Longrightarrow> hd (gi_trim line) = hd line"
  using gi_trim_decomp [of line] by (metis hd_append2)

lemma gi_read_print: "wf_pattern p \<Longrightarrow> gi_read (gi_trim (gi_print p)) = Some p"
proof -
  assume p: "wf_pattern p"
  then have ne: "pattern p \<noteq> []" by (simp add: wf_pattern_def)
  have lst: "last (gi_print p) = (if dir_only p then CHR ''/'' else last (pattern p))"
    using ne by (simp add: gi_print_def)
  have "\<not> trailing_blank (last (gi_print p))"
    using p unfolding lst by (auto simp: wf_pattern_def trailing_blank_def)
  moreover have "gi_print p \<noteq> []" using ne by (simp add: gi_print_def)
  ultimately have trim: "gi_trim (gi_print p) = gi_print p" by (intro gi_trim_id)
  have "\<not> rooted p \<Longrightarrow> hd (pattern p) \<noteq> CHR ''/''" using p ne by (metis wf_pattern_def hd_in_set)
  then show ?thesis
    unfolding trim using p ne
    by (cases p; cases "negated p"; cases "rooted p"; cases "dir_only p")
      (auto simp: gi_read_def gi_print_def wf_pattern_def Let_def butlast_append)
qed

lemma gi_read_wf:
  assumes line: "CHR 0x0A \<notin> set line" "hd line \<noteq> CHR ''#''"
    and read: "gi_read (gi_trim line) = Some p"
  shows "wf_pattern p"
proof -
  define t where "t = gi_trim line"
  define a where "a = (if hd t = CHR ''!'' then tl t else t)"
  define b where "b = (if last a = CHR ''/'' then butlast a else a)"
  define c where "c = (if hd b = CHR ''/'' then tl b else b)"
  have sub: "set t \<subseteq> set line" using gi_trim_decomp [of line] unfolding t_def by (metis Un_iff set_append subsetI)
  from read have ne: "t \<noteq> []" "a \<noteq> []" "b \<noteq> []" "c \<noteq> []"
    and p: "p = \<lparr>pattern = c, negated = (hd t = CHR ''!''), dir_only = (last a = CHR ''/''),
        rooted = (hd b = CHR ''/'' \<or> CHR ''/'' \<in> set c)\<rparr>"
    unfolding t_def [symmetric] gi_read_def Let_def a_def [symmetric] b_def [symmetric] c_def [symmetric]
    by (auto split: if_splits)
  have nb: "\<not> trailing_blank (last t)" "hd t \<noteq> CHR ''#''"
    using gi_trim_last [of line] gi_trim_hd [of line] ne(1) line(2) unfolding t_def by auto
  have la: "last a = last t" using ne(1,2) unfolding a_def by (auto simp: last_tl)
  have cb: "last c = last b" using ne(3,4) unfolding c_def by (auto simp: last_tl)
  have tl: "set (tl xs) \<subseteq> set xs" for xs :: string by (cases xs) auto
  have "set a \<subseteq> set line" using sub tl [of t] unfolding a_def by auto
  moreover have "set c \<subseteq> set b" using tl [of b] unfolding c_def by auto
  moreover have "set b \<subseteq> set a" unfolding b_def by (auto dest: in_set_butlastD)
  ultimately have "set c \<subseteq> set line" by blast
  moreover have "last c = last a" if "last a \<noteq> CHR ''/''" using that cb unfolding b_def by simp
  moreover have "hd c = hd t" if "hd t \<noteq> CHR ''!''" "hd b \<noteq> CHR ''/''"
    using that ne(3) unfolding c_def b_def a_def by (auto simp: hd_butlast split: if_splits)
  ultimately show ?thesis
    using ne nb la line(1) unfolding p wf_pattern_def by auto
qed

lemma gitignore_lines_Cons:
  assumes "CHR 0x0A \<notin> set line"
  shows "gitignore_lines gi (line @ CHR 0x0A # rest) =
    gitignore_lines (if length line > 0 \<and> hd line \<noteq> CHR ''#'' then gi_add_pattern gi line else gi) rest"
  using strchr_append_first [OF assms, of rest]
  by (subst gitignore_lines.simps) (simp add: Let_def)

lemma gi_print_line:
  "wf_pattern p \<Longrightarrow> gi_print p \<noteq> [] \<and> CHR 0x0A \<notin> set (gi_print p) \<and> hd (gi_print p) \<noteq> CHR ''#''"
  by (cases "negated p"; cases "rooted p") (auto simp: wf_pattern_def gi_print_def)

lemma gitignore_lines_print:
  "\<forall>p \<in> set ps. wf_pattern p \<Longrightarrow> patterns (gitignore_lines gi (gi_print_all ps)) = patterns gi @ ps"
proof (induction ps arbitrary: gi)
  case Nil
  then show ?case by (simp add: gi_print_all_def gitignore_lines.simps)
next
  case (Cons p ps)
  then have p: "wf_pattern p" by simp
  have "gi_print_all (p # ps) = gi_print p @ CHR 0x0A # gi_print_all ps" by (simp add: gi_print_all_def)
  moreover have "patterns (gi_add_pattern gi (gi_print p)) = patterns gi @ [p]"
    by (simp add: gi_add_pattern_read gi_read_print [OF p])
  ultimately show ?case
    using Cons gi_print_line [OF p] by (simp add: gitignore_lines_Cons)
qed

lemma gitignore_lines_inv:
  assumes "\<forall>p \<in> set (patterns gi). wf_pattern p" "length (patterns gi) \<le> capacity gi"
  shows "(\<forall>p \<in> set (patterns (gitignore_lines gi c)). wf_pattern p) \<and>
    length (patterns (gitignore_lines gi c)) \<le> capacity (gitignore_lines gi c)"
  using assms
proof (induction gi c rule: gitignore_lines.induct)
  case (1 gi c)
  define line where "line = (case strchr c CHR 0x0A of Some i \<Rightarrow> take i c | None \<Rightarrow> c)"
  define gi' where "gi' = (if length line > 0 \<and> hd line \<noteq> CHR ''#'' then gi_add_pattern gi line else gi)"
  have line: "CHR 0x0A \<notin> set line"
    using strchr_decomp [of c "CHR 0x0A"] strchr_None [of c "CHR 0x0A"]
    by (auto simp: line_def split: option.splits)
  have inv: "(\<forall>p \<in> set (patterns gi'). wf_pattern p) \<and> length (patterns gi') \<le> capacity gi'"
    using "1.prems" gi_read_wf [OF line]
    by (auto simp: gi'_def gi_add_pattern_read GI_INIT_CAP_def split: option.splits)
  have eq: "gitignore_lines gi c = (if c = [] then gi else case strchr c CHR 0x0A of
      None \<Rightarrow> gi' | Some i \<Rightarrow> gitignore_lines gi' (drop (i + 1) c))"
    unfolding gitignore_lines.simps [of gi c] Let_def line_def [symmetric] gi'_def [symmetric] by (rule refl)
  show ?case
  proof (cases "c = [] \<or> strchr c CHR 0x0A = None")
    case True
    with inv "1.prems" show ?thesis unfolding eq by auto
  next
    case False
    then obtain i where i: "strchr c CHR 0x0A = Some i" by auto
    have "(\<forall>p \<in> set (patterns (gitignore_lines gi' (drop (i + 1) c))). wf_pattern p) \<and>
      length (patterns (gitignore_lines gi' (drop (i + 1) c))) \<le> capacity (gitignore_lines gi' (drop (i + 1) c))"
      using False inv by (intro "1.IH" [OF _ refl line_def _ i]) (auto simp: gi'_def)
    with False i show ?thesis unfolding eq by simp
  qed
qed

section \<open>Properties\<close>

text \<open>
  C20. The backtracking matcher accepts exactly the strings its pattern denotes: \<open>*\<close> and
  \<open>?\<close> never match a slash, \<open>**\<close> matches anything, \<open>**/\<close> (unless the string has
  ended) matches nothing or any text that ends in a slash, and a class matches one character
  that is, or with \<open>!\<close> or \<open>^\<close> is not, among the single characters and inclusive ranges
  written in it, a slash included; the class ends at its first \<open>]\<close>, even where that is its
  first character.
\<close>

theorem glob_match_denotes: "glob_match pat str \<longleftrightarrow> tokens_match (glob_tokens pat) str"
  by (rule glob_match_tokens)

text \<open>
  A path is ignored exactly when the last pattern of the file that applies to it is
  not negated; a pattern applies when it is not restricted to directories or the path is
  one, and it matches the whole path (anchored) or the path from some component on.
\<close>

theorem gitignore_last_match_wins:
  "cbm_gitignore_matches (Some gi) (Some path) is_dir \<longleftrightarrow>
     (case find (gi_applies path is_dir) (rev (patterns gi)) of
        None \<Rightarrow> False
      | Some p \<Rightarrow> \<not> negated p)"
  using gitignore_fold_last [of path is_dir False "patterns gi"]
  by (simp add: cbm_gitignore_matches_def path_basename_def)

text \<open>
  Every pattern the parser stores is well formed and within the array it has grown,
  and writing the stored patterns out one per line and parsing that text gives the same
  patterns again.
\<close>

theorem gitignore_parse_roundtrip:
  assumes "cbm_gitignore_parse (Some content) = Some gi"
  shows "length (patterns gi) \<le> capacity gi \<and> (\<forall>p \<in> set (patterns gi). wf_pattern p) \<and>
    map_option patterns (cbm_gitignore_parse (Some (gi_print_all (patterns gi)))) = Some (patterns gi)"
proof -
  have gi: "gi = gitignore_lines \<lparr>patterns = [], capacity = 0\<rparr> content"
    using assms by (simp add: cbm_gitignore_parse_def)
  have inv: "(\<forall>p \<in> set (patterns gi). wf_pattern p) \<and> length (patterns gi) \<le> capacity gi"
    unfolding gi by (rule gitignore_lines_inv) simp_all
  then show ?thesis
    using gitignore_lines_print [of "patterns gi" "\<lparr>patterns = [], capacity = 0\<rparr>"]
    by (simp add: cbm_gitignore_parse_def)
qed

lemma gitignore_parse_roundtrip_witness:
  "\<exists>gi. cbm_gitignore_parse (Some (''!/a'' @ [CHR 0x0A] @ ''#x'' @ [CHR 0x0A] @ ''b/ '')) = Some gi \<and>
     length (patterns gi) = 2 \<and> (\<forall>p \<in> set (patterns gi). wf_pattern p)"
proof -
  let ?c = "''!/a'' @ [CHR 0x0A] @ ''#x'' @ [CHR 0x0A] @ ''b/ ''"
  obtain gi where gi: "cbm_gitignore_parse (Some ?c) = Some gi" by (simp add: cbm_gitignore_parse_def)
  have "map_option (\<lambda>g. length (patterns g)) (cbm_gitignore_parse (Some ?c)) = Some 2" by code_simp
  with gi gitignore_parse_roundtrip [OF gi] show ?thesis by auto
qed

end
