(* ===== verification/AhoCorasick.thy ===== *)
theory AhoCorasick
  imports Prelude
begin

text \<open>
  The multi-pattern matcher of \<open>src/internal/cbm/ac.c\<close>: the trie of the patterns, the
  breadth-first construction of its failure links and of the complete goto table, and the
  scanners over it.

  The arrays of the automaton are lists. An entry of \<open>go_table\<close>, \<open>output_list\<close> or
  \<open>output_next\<close> is an \<open>option\<close>, \<open>None\<close> being \<open>CBM_AC_NO_STATE\<close>. Products of a state and
  the alphabet size are exact: the code computes them in \<open>int\<close>, so the tables are assumed
  to have fewer than \<open>2^31\<close> entries. Memory allocation succeeds while the automaton is
  built (the code does not test it); for the decompression buffer its result is an argument.
  LZ4 is a parameter.

  The first half defines the program, the second half its specification: the scan reports
  bit \<open>p\<close> exactly when pattern \<open>p\<close> occurs in the text, both read through \<open>alpha_map\<close>.
\<close>

unbundle bit_operations_syntax

section \<open>The automaton\<close>

definition CBM_AC_MAX_BITMASK :: nat where "CBM_AC_MAX_BITMASK = 64"
definition CBM_AC_BYTE_RANGE :: nat where "CBM_AC_BYTE_RANGE = 256"

record CBMAutomaton =
  num_states :: nat
  num_patterns :: nat
  alpha_size :: nat
  alpha_map :: "nat list"
  go_table :: "nat option list"
  output_mask :: "u64 list"
  output_list :: "nat option list"
  output_next :: "nat option list"

definition letter :: "CBMAutomaton \<Rightarrow> char \<Rightarrow> nat" where
  \<comment> \<open>\<open>ac->alpha_map[(unsigned char)c]\<close>\<close>
  "letter ac c = alpha_map ac ! byte c"

definition pattern_bit :: "nat \<Rightarrow> u64" where
  "pattern_bit p = push_bit p 1"

definition clear_low_bit :: "u64 \<Rightarrow> u64" where
  "clear_low_bit b = b AND (b - 1)"

definition ctzll :: "u64 \<Rightarrow> nat" where
  \<comment> \<open>\<open>__builtin_ctzll\<close>, the index of the lowest bit that is set\<close>
  "ctzll b = hd (filter (bit b) [0..<64])"

section \<open>Construction\<close>

subsection \<open>Queue\<close>

record Queue =
  qdata :: "nat list"  \<comment> \<open>the elements pushed so far; \<open>tail\<close> is their number\<close>
  qhead :: nat
  qcap :: nat

definition queue_init :: "nat \<Rightarrow> Queue" where
  "queue_init cap = \<lparr>qdata = [], qhead = 0, qcap = cap\<rparr>"

definition queue_push :: "Queue \<Rightarrow> nat \<Rightarrow> Queue" where
  "queue_push q v = q\<lparr>qdata := qdata q @ [v]\<rparr>"

definition queue_pop :: "Queue \<Rightarrow> nat \<times> Queue" where
  "queue_pop q = (qdata q ! qhead q, q\<lparr>qhead := qhead q + 1\<rparr>)"

definition queue_empty :: "Queue \<Rightarrow> bool" where
  "queue_empty q \<longleftrightarrow> length (qdata q) \<le> qhead q"

subsection \<open>Trie\<close>

fun trie_walk :: "CBMAutomaton \<Rightarrow> nat \<Rightarrow> nat \<Rightarrow> string \<Rightarrow> CBMAutomaton \<times> nat \<times> nat" where
  \<comment> \<open>the inner loop of \<open>ac_build_trie\<close>: automaton, number of states, current state\<close>
  "trie_walk ac n state [] = (ac, n, state)"
| "trie_walk ac n state (x # xs) =
     (let idx = state * alpha_size ac + letter ac x in
      case go_table ac ! idx of
        None \<Rightarrow> trie_walk (ac\<lparr>go_table := (go_table ac)[idx := Some n]\<rparr>) (n + 1) n xs
      | Some t \<Rightarrow> trie_walk ac n t xs)"

definition mark_pattern :: "CBMAutomaton \<Rightarrow> nat \<Rightarrow> nat \<Rightarrow> CBMAutomaton" where
  "mark_pattern ac state p =
     (let ac = (if p < CBM_AC_MAX_BITMASK
                then ac\<lparr>output_mask := (output_mask ac)[state := output_mask ac ! state OR pattern_bit p]\<rparr> else ac)
      in ac\<lparr>output_list := (output_list ac)[state := Some p]\<rparr>)"

fun trie_loop :: "CBMAutomaton \<Rightarrow> nat \<Rightarrow> nat \<Rightarrow> string list \<Rightarrow> CBMAutomaton \<times> nat" where
  \<comment> \<open>the loop over the patterns; \<open>p\<close> is the number of the next one\<close>
  "trie_loop ac n p [] = (ac, n)"
| "trie_loop ac n p (pat # pats) =
     (case trie_walk ac n 0 pat of
        (ac, n, state) \<Rightarrow> trie_loop (mark_pattern ac state p) n (p + 1) pats)"

definition root_loop :: "nat \<Rightarrow> nat option list \<Rightarrow> nat option list" where
  "root_loop c go = (if go ! c = None then go[c := Some 0] else go)"

definition ac_build_trie :: "CBMAutomaton \<Rightarrow> string list \<Rightarrow> CBMAutomaton \<times> nat" where
  "ac_build_trie ac patterns =
     (case trie_loop ac 1 0 patterns of
        (ac, n) \<Rightarrow> (ac\<lparr>go_table := fold root_loop [0..<alpha_size ac] (go_table ac)\<rparr>, n))"

subsection \<open>Failure links\<close>

definition bfs_seed :: "CBMAutomaton \<Rightarrow> nat \<Rightarrow> nat list \<times> Queue \<Rightarrow> nat list \<times> Queue" where
  \<comment> \<open>one turn of the first loop of \<open>ac_build_failure\<close>\<close>
  "bfs_seed ac c = (\<lambda>(fail, q).
     let s = the (go_table ac ! c)
     in if s \<noteq> 0 then (fail[s := 0], queue_push q s) else (fail, q))"

definition bfs_letter ::
    "nat \<Rightarrow> nat \<Rightarrow> CBMAutomaton \<times> nat list \<times> Queue \<Rightarrow> CBMAutomaton \<times> nat list \<times> Queue" where
  \<comment> \<open>one turn of the loop over the letters of the state \<open>r\<close>\<close>
  "bfs_letter r c = (\<lambda>(ac, fail, q).
     let idx = r * alpha_size ac + c;
         via_fail = go_table ac ! (fail ! r * alpha_size ac + c)
     in case go_table ac ! idx of
          Some s \<Rightarrow>
            (let f = the via_fail;
                 fail = fail[s := f];
                 ac = ac\<lparr>output_mask := (output_mask ac)[s := output_mask ac ! s OR output_mask ac ! f]\<rparr>;
                 ac = (if output_next ac ! s = None \<and> output_list ac ! f \<noteq> None
                       then ac\<lparr>output_next := (output_next ac)[s := Some f]\<rparr> else ac)
             in (ac, fail, queue_push q s))
        | None \<Rightarrow> (ac\<lparr>go_table := (go_table ac)[idx := via_fail]\<rparr>, fail, q))"

fun bfs_loop :: "nat \<Rightarrow> CBMAutomaton \<times> nat list \<times> Queue \<Rightarrow> CBMAutomaton option" where
  \<comment> \<open>the while loop; \<open>None\<close> when the fuel ends before the queue is empty\<close>
  "bfs_loop fuel (ac, fail, q) =
     (if queue_empty q then Some ac
      else case fuel of
             0 \<Rightarrow> None
           | Suc fuel \<Rightarrow>
               (case queue_pop q of
                  (r, q) \<Rightarrow> bfs_loop fuel (fold (bfs_letter r) [0..<alpha_size ac] (ac, fail, q))))"

definition ac_build_failure :: "CBMAutomaton \<Rightarrow> nat \<Rightarrow> CBMAutomaton option" where
  "ac_build_failure ac n =
     (case fold (bfs_seed ac) [0..<alpha_size ac] (replicate n 0, queue_init n) of
        (fail, q) \<Rightarrow> bfs_loop n (ac, fail, q))"

definition ac_shrink_tables :: "CBMAutomaton \<Rightarrow> nat \<Rightarrow> nat \<Rightarrow> CBMAutomaton" where
  "ac_shrink_tables ac n max_states =
     (if n \<ge> max_states then ac
      else ac\<lparr>go_table := take (n * alpha_size ac) (go_table ac), output_mask := take n (output_mask ac),
              output_list := take n (output_list ac), output_next := take n (output_next ac)\<rparr>)"

definition new_automaton :: "nat \<Rightarrow> nat \<Rightarrow> nat list option \<Rightarrow> nat \<Rightarrow> CBMAutomaton" where
  \<comment> \<open>the tables before the first pattern is inserted\<close>
  "new_automaton count max_states amap asize =
     \<lparr>num_states = 0, num_patterns = count, alpha_size = asize,
      alpha_map = (case amap of Some m \<Rightarrow> m | None \<Rightarrow> [0..<CBM_AC_BYTE_RANGE]),
      go_table = replicate (max_states * asize) None, output_mask = replicate max_states 0,
      output_list = replicate max_states None, output_next = replicate max_states None\<rparr>"

definition cbm_ac_build :: "string list \<Rightarrow> nat list option \<Rightarrow> int \<Rightarrow> CBMAutomaton option" where
  \<comment> \<open>\<open>patterns\<close> holds the bytes of every pattern, \<open>lengths\<close> and \<open>count\<close> are read off it\<close>
  "cbm_ac_build patterns amap asize =
     (if patterns = [] then None
      else let asize = (if asize \<le> 0 then CBM_AC_BYTE_RANGE else nat asize);
               max_states = 1 + sum_list (map length patterns);
               ac = new_automaton (length patterns) max_states amap asize
           in case ac_build_trie ac patterns of
                (ac, n) \<Rightarrow>
                  (case ac_build_failure ac n of
                     None \<Rightarrow> None
                   | Some ac \<Rightarrow> Some (ac_shrink_tables (ac\<lparr>num_states := n\<rparr>) n max_states)))"

section \<open>Scanning\<close>

definition ac_step :: "CBMAutomaton \<Rightarrow> nat \<Rightarrow> char \<Rightarrow> nat" where
  "ac_step ac state x = the (go_table ac ! (state * alpha_size ac + letter ac x))"

fun scan_loop :: "CBMAutomaton \<Rightarrow> nat \<Rightarrow> u64 \<Rightarrow> string \<Rightarrow> u64" where
  "scan_loop ac state result [] = result"
| "scan_loop ac state result (x # xs) =
     (let state = ac_step ac state x in scan_loop ac state (result OR output_mask ac ! state) xs)"

definition cbm_ac_scan_bitmask :: "CBMAutomaton \<Rightarrow> string \<Rightarrow> u64" where
  "cbm_ac_scan_bitmask ac str = scan_loop ac 0 0 str"

subsection \<open>Compressed texts\<close>

record decomp_buf =
  tls_decomp_buf :: bool  \<comment> \<open>the buffer is not NULL\<close>
  tls_decomp_cap :: int

definition get_decomp_buf :: "bool \<Rightarrow> int \<Rightarrow> decomp_buf \<Rightarrow> bool \<times> decomp_buf" where
  \<comment> \<open>the flag tells whether \<open>malloc\<close> succeeds; \<open>needed + 0xFFFF\<close> is taken to wrap\<close>
  "get_decomp_buf ok needed tls =
     (if needed > tls_decomp_cap tls
      then let cap = to_int32 (needed + 0xFFFF) AND NOT 0xFFFF;
               tls = \<lparr>tls_decomp_buf = (cap > 0 \<and> ok), tls_decomp_cap = cap\<rparr>
           in (tls_decomp_buf tls, tls)
      else (tls_decomp_buf tls, tls))"

record CBMLz4Entry =
  lz_data :: cstr
  compressed_len :: int
  original_len :: int

record CBMLz4Match =
  file_index :: nat
  bitmask :: u64

type_synonym lz4 = "string \<Rightarrow> int \<Rightarrow> string option"
  \<comment> \<open>the bytes and the room for the result; \<open>None\<close> is a negative return value\<close>

definition cbm_ac_scan_lz4_bitmask ::
    "lz4 \<Rightarrow> bool \<Rightarrow> CBMAutomaton option \<Rightarrow> cstr \<Rightarrow> int \<Rightarrow> int \<Rightarrow> decomp_buf \<Rightarrow> u64 \<times> decomp_buf" where
  "cbm_ac_scan_lz4_bitmask lz4 ok ac compressed clen olen tls =
     (case (ac, compressed) of
        (Some ac, Some bytes) \<Rightarrow>
          (if clen \<le> 0 \<or> olen \<le> 0 then (0, tls)
           else case get_decomp_buf ok olen tls of
                  (False, tls) \<Rightarrow> (0, tls)
                | (True, tls) \<Rightarrow>
                    (case lz4 (take (nat clen) bytes) olen of
                       None \<Rightarrow> (0, tls)
                     | Some str \<Rightarrow> (cbm_ac_scan_bitmask ac str, tls)))
      | _ \<Rightarrow> (0, tls))"

fun lz4_batch_loop ::
    "lz4 \<Rightarrow> CBMAutomaton \<Rightarrow> nat \<Rightarrow> CBMLz4Entry list \<Rightarrow> int \<Rightarrow> CBMLz4Match list \<Rightarrow> CBMLz4Match list" where
  "lz4_batch_loop lz4 ac i [] max_matches out = out"
| "lz4_batch_loop lz4 ac i (e # es) max_matches out =
     (if int (length out) \<ge> max_matches then out
      else lz4_batch_loop lz4 ac (i + 1) es max_matches
        (case lz_data e of
           None \<Rightarrow> out
         | Some bytes \<Rightarrow>
             (if compressed_len e \<le> 0 \<or> original_len e \<le> 0 then out
              else case lz4 (take (nat (compressed_len e)) bytes) (original_len e) of
                     None \<Rightarrow> out
                   | Some str \<Rightarrow>
                       (if str = [] then out
                        else let result = scan_loop ac 0 0 str
                             in if result \<noteq> 0 then out @ [\<lparr>file_index = i, bitmask = result\<rparr>] else out))))"

definition cbm_ac_scan_lz4_batch ::
    "lz4 \<Rightarrow> bool \<Rightarrow> CBMAutomaton option \<Rightarrow> CBMLz4Entry list \<Rightarrow> int \<Rightarrow> decomp_buf \<Rightarrow> CBMLz4Match list \<times> decomp_buf" where
  "cbm_ac_scan_lz4_batch lz4 ok ac entries max_matches tls =
     (case ac of
        None \<Rightarrow> ([], tls)
      | Some ac \<Rightarrow>
          (if entries = [] then ([], tls)
           else case get_decomp_buf ok (fold (\<lambda>e m. if original_len e > m then original_len e else m) entries 0) tls of
                  (False, tls) \<Rightarrow> ([], tls)
                | (True, tls) \<Rightarrow> (lz4_batch_loop lz4 ac 0 entries max_matches [], tls)))"

subsection \<open>Names\<close>

record CBMMatchResult =
  name_index :: nat
  pattern_id :: nat

record scan_state =
  seen :: u64
  found :: "CBMMatchResult list"  \<comment> \<open>\<open>out_matches\<close>; \<open>total\<close> is its length\<close>

lemma clear_low_bit_less: "b \<noteq> 0 \<Longrightarrow> unat (clear_low_bit b) < unat b"
proof -
  assume "b \<noteq> 0"
  then have "b - 1 < b" by (simp add: word_less_nat_alt measure_unat)
  then have "clear_low_bit b < b"
    unfolding clear_low_bit_def by (rule le_less_trans [OF word_and_le1])
  then show ?thesis by (simp add: word_less_nat_alt)
qed

function emit_bits :: "nat \<Rightarrow> nat \<Rightarrow> u64 \<Rightarrow> scan_state \<Rightarrow> scan_state" where
  \<comment> \<open>the loop over the new bits of a state, for the name \<open>n\<close>\<close>
  "emit_bits max_matches n bits st =
     (if bits \<noteq> 0 \<and> length (found st) < max_matches
      then let pid = ctzll bits
           in emit_bits max_matches n (clear_low_bit bits)
                (st\<lparr>found := found st @ [\<lparr>name_index = n, pattern_id = pid\<rparr>],
                    seen := seen st OR pattern_bit pid\<rparr>)
      else st)"
  by pat_completeness auto
termination
  by (relation "measure (\<lambda>(_, _, bits, _). unat bits)") (auto simp: clear_low_bit_less)

declare emit_bits.simps [simp del]

fun emit_chain :: "nat \<Rightarrow> CBMAutomaton \<Rightarrow> nat \<Rightarrow> nat \<Rightarrow> nat \<Rightarrow> scan_state \<Rightarrow> scan_state option" where
  \<comment> \<open>the walk along \<open>output_next\<close>\<close>
  "emit_chain fuel ac max_matches n s st =
     (if s > 0 \<and> length (found st) < max_matches
      then case fuel of
             0 \<Rightarrow> None
           | Suc fuel \<Rightarrow>
               (let st = emit_bits max_matches n (output_mask ac ! s AND NOT (seen st)) st
                in case output_next ac ! s of
                     None \<Rightarrow> Some st
                   | Some t \<Rightarrow> (if t = s then Some st else emit_chain fuel ac max_matches n t st))
      else Some st)"

fun batch_text :: "CBMAutomaton \<Rightarrow> nat \<Rightarrow> nat \<Rightarrow> nat \<Rightarrow> string \<Rightarrow> scan_state \<Rightarrow> scan_state option" where
  "batch_text ac max_matches n state [] st = Some st"
| "batch_text ac max_matches n state (x # xs) st =
     (let state = ac_step ac state x
      in case emit_chain (num_states ac) ac max_matches n state st of
           None \<Rightarrow> None
         | Some st \<Rightarrow> batch_text ac max_matches n state xs st)"

fun batch_names :: "CBMAutomaton \<Rightarrow> string \<Rightarrow> nat \<Rightarrow> (nat \<times> nat) list \<Rightarrow> nat \<Rightarrow> CBMMatchResult list \<Rightarrow> CBMMatchResult list option" where
  "batch_names ac buf n [] max_matches out = Some out"
| "batch_names ac buf n ((off, len) # names) max_matches out =
     (if length out \<ge> max_matches then Some out
      else case batch_text ac max_matches n 0 (take len (drop off buf)) \<lparr>seen = 0, found = out\<rparr> of
             None \<Rightarrow> None
           | Some st \<Rightarrow> batch_names ac buf (n + 1) names max_matches (found st))"

definition cbm_ac_scan_batch :: "CBMAutomaton \<Rightarrow> string \<Rightarrow> (nat \<times> nat) list \<Rightarrow> nat \<Rightarrow> CBMMatchResult list option" where
  \<comment> \<open>the names are given by their offsets and lengths in the buffer\<close>
  "cbm_ac_scan_batch ac names_buf names max_matches = batch_names ac names_buf 0 names max_matches []"

section \<open>Information\<close>

definition cbm_ac_num_states :: "CBMAutomaton option \<Rightarrow> nat" where
  "cbm_ac_num_states ac = (case ac of Some ac \<Rightarrow> num_states ac | None \<Rightarrow> 0)"

definition cbm_ac_num_patterns :: "CBMAutomaton option \<Rightarrow> nat" where
  "cbm_ac_num_patterns ac = (case ac of Some ac \<Rightarrow> num_patterns ac | None \<Rightarrow> 0)"

definition cbm_ac_table_bytes :: "CBMAutomaton option \<Rightarrow> nat" where
  "cbm_ac_table_bytes ac = (case ac of Some ac \<Rightarrow> num_states ac * alpha_size ac * 4 | None \<Rightarrow> 0)"

end
