(* ===== verification/AhoCorasickProof.thy ===== *)
theory AhoCorasickProof
  imports AhoCorasick
begin

text \<open>
  Correctness of the matcher of \<open>AhoCorasick\<close>. Every state is named by the word that leads to
  it from the root; the goto table of the finished automaton takes a state to the longest
  suffix of its word and the letter that is again a word of the trie.
\<close>

section \<open>Longest suffix in a prefix-closed set\<close>

fun longest :: "'a list set \<Rightarrow> 'a list \<Rightarrow> 'a list" where
  "longest D [] = []"
| "longest D (x # xs) = (if x # xs \<in> D then x # xs else longest D xs)"

definition prefix_closed :: "'a list set \<Rightarrow> bool" where
  "prefix_closed D \<longleftrightarrow> [] \<in> D \<and> (\<forall>w c. w @ [c] \<in> D \<longrightarrow> w \<in> D)"

lemma longest_suffix: "suffix (longest D w) w"
  by (induction w) (auto simp: suffix_Cons)

lemma longest_mem: "[] \<in> D \<Longrightarrow> longest D w \<in> D"
  by (induction w) auto

lemma longest_id: "w \<in> D \<Longrightarrow> longest D w = w"
  by (cases w) auto

lemma longest_tl: "w \<notin> D \<Longrightarrow> longest D w = longest D (tl w)"
  by (cases w) auto

lemma longest_max: "suffix v w \<Longrightarrow> v \<in> D \<Longrightarrow> suffix v (longest D w)"
  by (induction w) (auto simp: suffix_Cons)

lemma longest_suffix_iff: "v \<in> D \<Longrightarrow> suffix v (longest D w) \<longleftrightarrow> suffix v w"
  using longest_max longest_suffix suffix_order.trans by blast

lemma longest_snoc:
  "prefix_closed D \<Longrightarrow> longest D (longest D u @ [c]) = longest D (u @ [c])"
proof (induction u)
  case (Cons x xs)
  then show ?case by (auto simp: prefix_closed_def dest: spec [of _ "x # xs"])
qed simp

lemma longest_length: "length (longest D w) \<le> length w"
  using longest_suffix by (rule suffix_length_le)

lemma suffix_snocs: "suffix v w \<Longrightarrow> w = tl v' \<Longrightarrow> suffix v v'"
  using suffix_order.trans suffix_tl by blast

lemma suffix_tl_iff: "suffix v w \<longleftrightarrow> v = w \<or> (w \<noteq> [] \<and> suffix v (tl w))"
  by (cases w) (auto simp: suffix_Cons)

lemma sublist_suffix_take: "sublist v t \<longleftrightarrow> (\<exists>i \<le> length t. suffix v (take i t))"
proof
  assume "sublist v t"
  then obtain ps ss where t: "t = ps @ v @ ss" by (auto simp: sublist_def)
  then have "suffix v (take (length (ps @ v)) t)" by (simp add: suffix_def)
  then show "\<exists>i \<le> length t. suffix v (take i t)" using t by (metis append.assoc le_add1 length_append)
next
  assume "\<exists>i \<le> length t. suffix v (take i t)"
  then obtain i ps where "take i t = ps @ v" by (auto simp: suffix_def)
  then have "t = ps @ v @ drop i t" by (metis append.assoc append_take_drop_id)
  then show "sublist v t" unfolding sublist_def by blast
qed

section \<open>Bits of a mask\<close>

lemma bit_pattern_bit [simp]: "p < 64 \<Longrightarrow> bit (pattern_bit p) i \<longleftrightarrow> i = p"
  by (auto simp: pattern_bit_def bit_simps)

lemma ctzll_bit:
  assumes "b \<noteq> 0"
  shows "ctzll b < 64" "bit b (ctzll b)" "i < ctzll b \<Longrightarrow> \<not> bit b i"
proof -
  obtain j where j: "bit b j" using assms by (auto simp: bit_eq_iff)
  then have "j < 64" using bit_imp_le_length by fastforce
  then have "\<exists>j < 64. bit b j" using j by blast
  then obtain k where k: "k < 64" "bit b k" "\<And>i. i < k \<Longrightarrow> \<not> bit b i"
    using LeastI_ex [of "bit b"] not_less_Least Least_le [of "bit b"] by (metis le_less_trans)
  have "[0..<64] = [0..<k] @ k # [Suc k..<64]"
    using k(1) by (metis le_add_same_cancel1 less_imp_add_positive upt_add_eq_append upt_conv_Cons zero_le less_imp_le)
  moreover have "filter (bit b) [0..<k] = []" using k(3) by (simp add: filter_empty_conv)
  ultimately have "ctzll b = k" using k(2) by (simp add: ctzll_def)
  with k show "ctzll b < 64" "bit b (ctzll b)" "i < ctzll b \<Longrightarrow> \<not> bit b i" by auto
qed

lemma bit_clear_low_bit:
  assumes "b \<noteq> 0"
  shows "bit (clear_low_bit b) i \<longleftrightarrow> bit b i \<and> i \<noteq> ctzll b"
proof -
  define k where "k = ctzll b"
  define h where "h = b AND NOT (mask (Suc k))"
  note k = ctzll_bit [OF assms, folded k_def]
  have b: "b = h OR 2 ^ k"
    using k by (auto intro!: bit_eqI simp: h_def bit_simps less_Suc_eq not_less)
  have "h AND 2 ^ k = 0" by (auto intro!: bit_eqI simp: h_def bit_simps)
  then have "b = h + 2 ^ k" using b by (simp add: disjunctive_add_eq_or)
  then have "b - 1 = h + mask k" by (simp add: mask_eq_decr_exp)
  moreover have "h AND mask k = 0" by (auto intro!: bit_eqI simp: h_def bit_simps)
  ultimately have "b - 1 = h OR mask k" by (simp add: disjunctive_add_eq_or)
  then have "clear_low_bit b = (h OR 2 ^ k) AND (h OR mask k)"
    unfolding clear_low_bit_def by (metis b)
  also have "\<dots> = h" by (auto intro!: bit_eqI simp: bit_simps)
  finally show ?thesis
    using k by (cases "i < k") (auto simp: h_def bit_simps k_def [symmetric] less_Suc_eq not_less dest: bit_imp_le_length)
qed

section \<open>The trie\<close>

definition cell :: "nat \<Rightarrow> 'a list \<Rightarrow> nat \<Rightarrow> nat \<Rightarrow> 'a" where
  \<comment> \<open>row \<open>s\<close>, column \<open>c\<close> of a table of width \<open>A\<close>\<close>
  "cell A tab s c = tab ! (s * A + c)"

lemma idx_inj: "c < A \<Longrightarrow> c' < A \<Longrightarrow> s * A + c = s' * A + c' \<longleftrightarrow> s = s' \<and> c = (c' :: nat)"
  by (metis add_right_cancel div_mult_self3 div_less add.commute add_cancel_right_left mod_less mod_mult_self3 not_less_zero)

lemma idx_lt: "s < n \<Longrightarrow> c < A \<Longrightarrow> s * A + c < n * (A :: nat)"
proof -
  assume "s < n" "c < A"
  then have "s * A + c < Suc s * A" by simp
  also have "\<dots> \<le> n * A" using \<open>s < n\<close> by (intro mult_le_mono1) simp
  finally show ?thesis .
qed

lemma cell_update:
  assumes "c < A" "c' < A" "s < n" "n * A \<le> length tab"
  shows "cell A (tab[s * A + c := v]) s' c' = (if s' = s \<and> c' = c then v else cell A tab s' c')"
proof -
  have "s * A + c < length tab" using idx_lt [OF assms(3) assms(1)] assms(4) by linarith
  then show ?thesis using idx_inj [of c A c' s s'] assms by (auto simp: cell_def nth_list_update)
qed

text \<open>
  \<open>trie_ok A W go\<close>: the words \<open>W\<close> name the states, and a cell of the table leads to the state of
  the extended word, or is empty when that word is not in the trie.
\<close>

definition words_ok :: "nat \<Rightarrow> nat list list \<Rightarrow> bool" where
  "words_ok A W \<longleftrightarrow> W \<noteq> [] \<and> W ! 0 = [] \<and> distinct W \<and> prefix_closed (set W) \<and> (\<forall>w \<in> set W. \<forall>c \<in> set w. c < A)"

definition trie_ok :: "nat \<Rightarrow> nat list list \<Rightarrow> nat option list \<Rightarrow> bool" where
  "trie_ok A W go \<longleftrightarrow> words_ok A W \<and> length W * A \<le> length go \<and>
     (\<forall>s < length W. \<forall>c < A. case cell A go s c of
        Some t \<Rightarrow> t < length W \<and> W ! t = W ! s @ [c]
      | None \<Rightarrow> W ! s @ [c] \<notin> set W) \<and>
     (\<forall>i. length W * A \<le> i \<longrightarrow> i < length go \<longrightarrow> go ! i = None)"

lemma trie_ok_init: "length go = m * A \<Longrightarrow> 0 < m \<Longrightarrow> set go \<subseteq> {None} \<Longrightarrow> trie_ok A [[]] go"
proof -
  assume "length go = m * A" "0 < m" and none: "set go \<subseteq> {None}"
  then have "A \<le> length go" by simp
  moreover have "go ! i = None" if "i < length go" for i using none nth_mem [OF that] by blast
  ultimately show ?thesis by (auto simp: trie_ok_def words_ok_def cell_def prefix_closed_def)
qed

lemma trie_ok_cell:
  assumes "trie_ok A W go" "s < length W" "c < A"
  shows "cell A go s c = Some t \<Longrightarrow> t < length W \<and> W ! t = W ! s @ [c]"
    and "cell A go s c = None \<Longrightarrow> W ! s @ [c] \<notin> set W"
  using assms unfolding trie_ok_def by (fastforce split: option.splits)+

lemma trie_ok_extend:
  assumes ok: "trie_ok A W go" and s: "s < length W" and c: "c < A"
    and empty: "cell A go s c = None" and room: "Suc (length W) * A \<le> length go"
  shows "trie_ok A (W @ [W ! s @ [c]]) (go[s * A + c := Some (length W)])"
proof -
  let ?W = "W @ [W ! s @ [c]]" and ?go = "go[s * A + c := Some (length W)]"
  have new: "W ! s @ [c] \<notin> set W" using trie_ok_cell(2) [OF ok s c empty] .
  have words: "words_ok A W" using ok by (simp add: trie_ok_def)
  have at: "cell A ?go s' c' = (if s' = s \<and> c' = c then Some (length W) else cell A go s' c')"
    if "c' < A" for s' c'
    using ok by (intro cell_update [OF c that s]) (simp add: trie_ok_def)
  have fresh: "cell A go (length W) c' = None" if "c' < A" for c'
    using ok room that idx_lt [of "length W" "Suc (length W)" c' A] by (simp add: trie_ok_def cell_def)
  have closed: "\<not> (\<exists>c'. (W ! s @ [c]) @ [c'] \<in> set W)"
    using words new unfolding words_ok_def prefix_closed_def by blast
  have 1: "words_ok A ?W"
    using words new s c by (auto simp: words_ok_def prefix_closed_def nth_append)
  have 2: "case cell A ?go s' c' of Some t \<Rightarrow> t < length ?W \<and> ?W ! t = ?W ! s' @ [c'] | None \<Rightarrow> ?W ! s' @ [c'] \<notin> set ?W"
    if s': "s' < length ?W" and c': "c' < A" for s' c'
  proof (cases "s' = length W")
    case True
    then show ?thesis using s closed fresh [OF c'] at [OF c'] by (auto simp: nth_append)
  next
    case False
    then have lt: "s' < length W" using s' by simp
    have inj: "W ! s' = W ! s \<longleftrightarrow> s' = s" using words lt s by (simp add: words_ok_def nth_eq_iff_index_eq)
    show ?thesis
      using trie_ok_cell [OF ok lt c'] at [OF c'] lt s inj by (auto simp: nth_append split: option.splits)
  qed
  have 3: "?go ! i = None" if "length ?W * A \<le> i" "i < length ?go" for i
  proof -
    have "s * A + c < length W * A" using idx_lt [OF s c] .
    then have "s * A + c \<noteq> i" "length W * A \<le> i" using that(1) by auto
    then show ?thesis using ok that(2) by (simp add: trie_ok_def)
  qed
  show ?thesis unfolding trie_ok_def using 1 2 3 room by auto
qed

lemma trie_walk_ok:
  assumes "trie_ok A W (go_table ac)" "alpha_size ac = A" "s < length W" "\<forall>x \<in> set xs. letter ac x < A"
    "(length W + length xs) * A \<le> length (go_table ac)"
  shows "\<exists>W' go' s'. trie_walk ac (length W) s xs = (ac\<lparr>go_table := go'\<rparr>, length W', s') \<and>
    trie_ok A W' go' \<and> length go' = length (go_table ac) \<and> prefix W W' \<and> length W' \<le> length W + length xs \<and>
    s' < length W' \<and> W' ! s' = W ! s @ map (letter ac) xs"
  using assms
proof (induction xs arbitrary: ac W s)
  case Nil
  then show ?case by (intro exI [of _ W] exI [of _ "go_table ac"] exI [of _ s]) simp
next
  case (Cons x xs)
  let ?c = "letter ac x"
  have c: "?c < A" using Cons.prems(4) by simp
  show ?case
  proof (cases "cell A (go_table ac) s ?c")
    case None
    let ?W = "W @ [W ! s @ [?c]]" and ?ac = "ac\<lparr>go_table := (go_table ac)[s * A + ?c := Some (length W)]\<rparr>"
    have "trie_ok A ?W (go_table ?ac)"
      using trie_ok_extend [OF Cons.prems(1,3) c None] Cons.prems(5) by (simp add: algebra_simps)
    moreover have "\<forall>x \<in> set xs. letter ?ac x < A" using Cons.prems(4) by (simp add: letter_def)
    ultimately obtain W' go' s' where
      "trie_walk ?ac (length ?W) (length W) xs = (?ac\<lparr>go_table := go'\<rparr>, length W', s')" "trie_ok A W' go'"
      "length go' = length (go_table ?ac)" "prefix ?W W'" "length W' \<le> length ?W + length xs" "s' < length W'"
      "W' ! s' = ?W ! length W @ map (letter ?ac) xs"
      using Cons.IH [of ?W ?ac "length W"] Cons.prems(2,5) by (auto simp: algebra_simps)
    moreover have "letter ?ac = letter ac" by (simp add: letter_def fun_eq_iff)
    ultimately show ?thesis
      using None Cons.prems(2) by (intro exI [of _ W'] exI [of _ go'] exI [of _ s']) (auto simp: cell_def Let_def dest: append_prefixD)
  next
    case (Some t)
    then have t: "t < length W" "W ! t = W ! s @ [?c]" using trie_ok_cell(1) [OF Cons.prems(1,3) c] by simp_all
    have "(length W + length xs) * A \<le> length (go_table ac)" using Cons.prems(5) by simp
    then obtain W' go' s' where
      "trie_walk ac (length W) t xs = (ac\<lparr>go_table := go'\<rparr>, length W', s')" "trie_ok A W' go'"
      "length go' = length (go_table ac)" "prefix W W'" "length W' \<le> length W + length xs" "s' < length W'"
      "W' ! s' = W ! t @ map (letter ac) xs"
      using Cons.IH [of W ac t] Cons.prems t by auto
    then show ?thesis
      using Some Cons.prems(2) t(2) by (intro exI [of _ W'] exI [of _ go'] exI [of _ s']) (auto simp: cell_def Let_def)
  qed
qed

text \<open>
  \<open>marks W ws out\<close>: bit \<open>p\<close> of a state says that the state spells pattern \<open>p\<close>.
\<close>

definition marks :: "nat list list \<Rightarrow> nat list list \<Rightarrow> u64 list \<Rightarrow> bool" where
  "marks W ws out \<longleftrightarrow> (\<forall>p < length ws. ws ! p \<in> set W) \<and> length W \<le> length out \<and>
     (\<forall>s < length out. \<forall>p < 64. bit (out ! s) p \<longleftrightarrow> p < length ws \<and> s < length W \<and> W ! s = ws ! p)"

lemma marks_extend:
  assumes "marks W ws out" "prefix W W'" "length W' \<le> length out" "distinct W'"
  shows "marks W' ws out"
proof -
  obtain V where V: "W' = W @ V" using assms(2) by (auto elim: prefixE)
  have "W' ! s = ws ! p \<longleftrightarrow> s < length W \<and> W ! s = ws ! p" if sp: "s < length W'" "p < length ws" for s p
  proof -
    obtain t where t: "t < length W" "W ! t = ws ! p"
      using assms(1) sp(2) unfolding marks_def by (metis in_set_conv_nth)
    then have "W' ! s = ws ! p \<longleftrightarrow> s = t"
      using assms(4) sp(1) V by (metis length_append nth_append nth_eq_iff_index_eq trans_less_add1)
    then show ?thesis using t V sp(1) assms(4) by (metis distinct_append nth_eq_iff_index_eq)
  qed
  then show ?thesis using assms(1,3) V by (auto simp: marks_def)
qed

lemma marks_add:
  assumes "marks W ws out" "s < length W" "W ! s = w" "distinct W"
  shows "marks W (ws @ [w]) (if length ws < 64 then out[s := out ! s OR pattern_bit (length ws)] else out)"
proof -
  have "W ! t = w \<longleftrightarrow> t = s" if "t < length W" for t
    using assms that by (metis nth_eq_iff_index_eq)
  moreover have "w \<in> set W" "s < length out" using assms by (auto simp: marks_def)
  ultimately show ?thesis
    using assms(1,2) by (auto simp: marks_def nth_append nth_list_update bit_simps less_Suc_eq)
qed

text \<open>
  What the construction keeps of the automaton: the number of states is that of the words, the
  tables have room for \<open>m\<close> states.
\<close>

definition trie_inv :: "nat \<Rightarrow> nat list list \<Rightarrow> nat list list \<Rightarrow> CBMAutomaton \<Rightarrow> bool" where
  "trie_inv m W ws ac \<longleftrightarrow> trie_ok (alpha_size ac) W (go_table ac) \<and> marks W ws (output_mask ac) \<and>
     length (go_table ac) = m * alpha_size ac \<and> length (output_mask ac) = m \<and>
     length (output_list ac) = m \<and> output_next ac = replicate m None"

lemma mark_pattern_sel [simp]:
  "go_table (mark_pattern ac s p) = go_table ac" "alpha_size (mark_pattern ac s p) = alpha_size ac"
  "alpha_map (mark_pattern ac s p) = alpha_map ac" "output_next (mark_pattern ac s p) = output_next ac"
  "length (output_list (mark_pattern ac s p)) = length (output_list ac)"
  "output_mask (mark_pattern ac s p) =
     (if p < 64 then (output_mask ac)[s := output_mask ac ! s OR pattern_bit p] else output_mask ac)"
  by (simp_all add: mark_pattern_def Let_def CBM_AC_MAX_BITMASK_def)

lemma trie_loop_ok:
  assumes "trie_inv m W ws ac" "\<forall>pat \<in> set pats. \<forall>x \<in> set pat. letter ac x < alpha_size ac"
    "length W + sum_list (map length pats) \<le> m"
  shows "\<exists>W' ac'. trie_loop ac (length W) (length ws) pats = (ac', length W') \<and>
    trie_inv m W' (ws @ map (map (letter ac)) pats) ac' \<and> alpha_size ac' = alpha_size ac \<and>
    alpha_map ac' = alpha_map ac \<and> num_patterns ac' = num_patterns ac \<and> length W' \<le> m"
  using assms
proof (induction pats arbitrary: ac W ws)
  case Nil
  then show ?case by auto
next
  case (Cons pat pats)
  let ?A = "alpha_size ac" and ?w = "map (letter ac) pat"
  have ok: "trie_ok ?A W (go_table ac)" and len: "length (go_table ac) = m * ?A"
    and mk: "marks W ws (output_mask ac)" and out: "length (output_mask ac) = m"
    using Cons.prems(1) by (simp_all add: trie_inv_def)
  have "0 < length W" "W ! 0 = []" using ok by (simp_all add: trie_ok_def words_ok_def)
  moreover have "length W + length pat \<le> m" using Cons.prems(3) by simp
  then have "(length W + length pat) * ?A \<le> length (go_table ac)" unfolding len by (rule mult_le_mono1)
  ultimately obtain W1 go1 s1 where walk: "trie_walk ac (length W) 0 pat = (ac\<lparr>go_table := go1\<rparr>, length W1, s1)"
    and 1: "trie_ok ?A W1 go1" "length go1 = length (go_table ac)" "prefix W W1" "length W1 \<le> length W + length pat"
      "s1 < length W1" "W1 ! s1 = ?w"
    using trie_walk_ok [OF ok refl, of 0 pat] Cons.prems(2) by auto
  let ?ac = "mark_pattern (ac\<lparr>go_table := go1\<rparr>) s1 (length ws)"
  have dist: "distinct W1" using 1(1) by (simp add: trie_ok_def words_ok_def)
  have "length W1 \<le> length (output_mask ac)" using 1(4) Cons.prems(3) out by simp
  from marks_add [OF marks_extend [OF mk 1(3) this dist] 1(5,6) dist]
  have "trie_inv m W1 (ws @ [?w]) ?ac"
    using Cons.prems(1) 1(1,2) by (auto simp: trie_inv_def split: if_splits)
  moreover have "letter ?ac = letter ac" by (simp add: letter_def fun_eq_iff)
  moreover have "num_patterns ?ac = num_patterns ac" by (simp add: mark_pattern_def Let_def)
  ultimately show ?case
    using Cons.IH [of W1 "ws @ [?w]" ?ac] Cons.prems(2,3) 1(4) walk by simp
qed

section \<open>The failure links\<close>

text \<open>
  The construction is described by the set \<open>D\<close> of cells that are final: a final cell leads to the
  longest suffix in the trie, any other cell is still that of the trie. The queue holds the states
  behind the final cells; their failure links and masks are final.
\<close>

definition named :: "nat list list \<Rightarrow> nat \<Rightarrow> nat list \<Rightarrow> bool" where
  "named W t w \<longleftrightarrow> t < length W \<and> W ! t = w"

definition go_ok :: "nat \<Rightarrow> nat list list \<Rightarrow> (nat \<times> nat) set \<Rightarrow> nat option list \<Rightarrow> bool" where
  "go_ok A W D go \<longleftrightarrow> length W * A \<le> length go \<and>
     (\<forall>s < length W. \<forall>c < A.
        if (s, c) \<in> D then \<exists>t. cell A go s c = Some t \<and> named W t (longest (set W) (W ! s @ [c]))
        else case cell A go s c of
               Some t \<Rightarrow> named W t (W ! s @ [c])
             | None \<Rightarrow> W ! s @ [c] \<notin> set W)"

definition queue_ok :: "nat list list \<Rightarrow> (nat \<times> nat) set \<Rightarrow> nat list \<Rightarrow> bool" where
  "queue_ok W D qd \<longleftrightarrow> distinct qd \<and> sorted (map (\<lambda>t. length (W ! t)) qd) \<and>
     (\<forall>t. t \<in> set qd \<longleftrightarrow> t < length W \<and> (\<exists>s c. s < length W \<and> W ! t = W ! s @ [c] \<and> (s, c) \<in> D))"

definition fail_ok :: "nat list list \<Rightarrow> nat list \<Rightarrow> nat list \<Rightarrow> bool" where
  "fail_ok W qd fail \<longleftrightarrow> length fail = length W \<and> (\<forall>t \<in> set qd. named W (fail ! t) (longest (set W) (tl (W ! t))))"

definition mask_ok :: "nat list list \<Rightarrow> nat list list \<Rightarrow> nat set \<Rightarrow> u64 list \<Rightarrow> bool" where
  "mask_ok W ws Q out \<longleftrightarrow> length W \<le> length out \<and>
     (\<forall>t < length W. \<forall>p < 64.
        (if p < length ws
         then ws ! p \<noteq> [] \<longrightarrow> bit (out ! t) p = (if t \<in> Q then suffix (ws ! p) (W ! t) else W ! t = ws ! p)
         else \<not> bit (out ! t) p))"

definition next_ok :: "nat list list \<Rightarrow> nat option list \<Rightarrow> bool" where
  "next_ok W nx \<longleftrightarrow> length W \<le> length nx \<and>
     (\<forall>t < length W. \<forall>f. nx ! t = Some f \<longrightarrow> f < length W \<and> strict_suffix (W ! f) (W ! t))"

lemmas bfs_defs = go_ok_def queue_ok_def fail_ok_def mask_ok_def next_ok_def

lemma go_ok_done: "go_ok A W D go \<Longrightarrow> s < length W \<Longrightarrow> c < A \<Longrightarrow> (s, c) \<in> D \<Longrightarrow>
    \<exists>t. cell A go s c = Some t \<and> named W t (longest (set W) (W ! s @ [c]))"
  by (fastforce simp: go_ok_def)

lemma go_ok_todo: "go_ok A W D go \<Longrightarrow> s < length W \<Longrightarrow> c < A \<Longrightarrow> (s, c) \<notin> D \<Longrightarrow>
    case cell A go s c of Some t \<Rightarrow> named W t (W ! s @ [c]) | None \<Rightarrow> W ! s @ [c] \<notin> set W"
  by (fastforce simp: go_ok_def)

lemma named_inj: "words_ok A W \<Longrightarrow> named W s w \<Longrightarrow> named W t w \<Longrightarrow> s = t"
  by (auto simp: named_def words_ok_def nth_eq_iff_index_eq)

lemma words_state: "words_ok A W \<Longrightarrow> w \<in> set W \<Longrightarrow> \<exists>t. named W t w"
  by (auto simp: named_def in_set_conv_nth)

lemma word_parent:
  assumes "words_ok A W" "s < length W" "W ! s \<noteq> []"
  obtains g d where "g < length W" "d < A" "W ! s = W ! g @ [d]"
proof -
  obtain w d where w: "W ! s = w @ [d]" using assms(3) by (metis append_butlast_last_id)
  have "W ! s \<in> set W" using assms(2) by simp
  then have "w \<in> set W" "d < A" using assms(1) w unfolding words_ok_def prefix_closed_def by fastforce+
  then show ?thesis using that w by (auto simp: in_set_conv_nth)
qed

lemma root_iff: "words_ok A W \<Longrightarrow> s < length W \<Longrightarrow> W ! s = [] \<longleftrightarrow> s = 0"
  using nth_eq_iff_index_eq [of W s 0] by (auto simp: words_ok_def)

lemma state_induct:
  assumes W: "words_ok A W" and "s < length W" and root: "P 0"
    and child: "\<And>s g d. s < length W \<Longrightarrow> g < length W \<Longrightarrow> d < A \<Longrightarrow> W ! s = W ! g @ [d] \<Longrightarrow> P g \<Longrightarrow> P s"
  shows "P s"
  using assms(2)
proof (induction "length (W ! s)" arbitrary: s rule: less_induct)
  case less
  show ?case
  proof (cases "W ! s = []")
    case True
    then show ?thesis using root root_iff [OF W less.prems] by simp
  next
    case False
    then obtain g d where g: "g < length W" "d < A" "W ! s = W ! g @ [d]"
      using word_parent [OF W less.prems] by blast
    then show ?thesis using child [OF less.prems g] less.hyps by simp
  qed
qed

lemma go_ok_final:
  assumes "go_ok A W D go" "s < length W" "c < A"
    "\<exists>t. v = Some t \<and> named W t (longest (set W) (W ! s @ [c]))"
  shows "go_ok A W (insert (s, c) D) (go[s * A + c := v])"
proof -
  have "cell A (go[s * A + c := v]) s' c' = (if s' = s \<and> c' = c then v else cell A go s' c')" if "c' < A" for s' c'
    using assms(1) by (intro cell_update [OF assms(3) that assms(2)]) (simp add: go_ok_def)
  then show ?thesis using assms by (auto simp: go_ok_def)
qed

lemma go_ok_keep:
  assumes "go_ok A W D go" "\<exists>t. cell A go s c = Some t \<and> named W t (longest (set W) (W ! s @ [c]))"
  shows "go_ok A W (insert (s, c) D) go"
  using assms by (auto simp: go_ok_def)

lemma queue_ok_push:
  assumes "queue_ok W D qd" "words_ok A W" "r < length W" "named W s (W ! r @ [c])" "(r, c) \<notin> D"
    "\<forall>t \<in> set qd. length (W ! t) \<le> Suc (length (W ! r))"
  shows "queue_ok W (insert (r, c) D) (qd @ [s])" "s \<notin> set qd"
proof -
  have inj: "W ! t = W ! t' \<longleftrightarrow> t = t'" if "t < length W" "t' < length W" for t t'
    using assms(2) that by (simp add: words_ok_def nth_eq_iff_index_eq)
  have one: "t = s" if "t < length W" "W ! t = W ! r @ [c]" for t
    using assms(4) inj [of t s] that by (simp add: named_def)
  show "s \<notin> set qd"
    using assms(1,3,4,5) inj by (auto simp: queue_ok_def named_def)
  then show "queue_ok W (insert (r, c) D) (qd @ [s])"
    using assms(1,3,4,6) one by (auto simp: queue_ok_def named_def sorted_append)
qed

text \<open>
  The state \<open>r\<close> can be processed: all shorter words are.
\<close>

definition ready :: "nat \<Rightarrow> nat list list \<Rightarrow> (nat \<times> nat) set \<Rightarrow> nat list \<Rightarrow> nat \<Rightarrow> bool" where
  "ready A W D qd r \<longleftrightarrow> r \<in> set qd \<and> (\<forall>t \<in> set qd. length (W ! t) \<le> Suc (length (W ! r))) \<and>
     (\<forall>s c. s < length W \<longrightarrow> c < A \<longrightarrow> length (W ! s) < length (W ! r) \<longrightarrow> (s, c) \<in> D)"

lemma queue_mem:
  "queue_ok W D qd \<Longrightarrow> t < length W \<Longrightarrow> s < length W \<Longrightarrow> W ! t = W ! s @ [c] \<Longrightarrow> (s, c) \<in> D \<Longrightarrow> t \<in> set qd"
  unfolding queue_ok_def by blast

lemma queue_memE:
  assumes "queue_ok W D qd" "t \<in> set qd"
  obtains s c where "s < length W" "W ! t = W ! s @ [c]" "(s, c) \<in> D"
  using assms unfolding queue_ok_def by blast

lemma queue_word: "queue_ok W D qd \<Longrightarrow> t \<in> set qd \<Longrightarrow> t < length W \<and> W ! t \<noteq> []"
  by (auto simp: queue_ok_def)

lemma ready_queued:
  assumes "words_ok A W" "queue_ok W D qd" "ready A W D qd r" "f < length W" "W ! f \<noteq> []"
    "length (W ! f) \<le> length (W ! r)"
  shows "f \<in> set qd"
proof -
  obtain g c where g: "g < length W" "c < A" "W ! f = W ! g @ [c]" using word_parent [OF assms(1,4,5)] .
  then have "(g, c) \<in> D" using assms(3,6) by (simp add: ready_def)
  then show ?thesis using assms(2,4) g by (auto simp: queue_ok_def)
qed

lemma via_fail:
  assumes W: "words_ok A W" and "go_ok A W D go" and q: "queue_ok W D qd" and "fail_ok W qd fail"
    and r: "ready A W D qd r" and c: "c < A"
  shows "\<exists>f. cell A go (fail ! r) c = Some f \<and> named W f (longest (set W) (tl (W ! r) @ [c])) \<and>
    length (W ! f) \<le> length (W ! r)"
proof -
  have r': "r \<in> set qd" "r < length W" "W ! r \<noteq> []" using r queue_word [OF q] by (auto simp: ready_def)
  then have f0: "named W (fail ! r) (longest (set W) (tl (W ! r)))" using assms(4) by (simp add: fail_ok_def)
  have short: "length (longest (set W) (tl (W ! r))) < length (W ! r)"
    using r'(3) longest_length [of "set W" "tl (W ! r)"] by (cases "W ! r") auto
  then have "(fail ! r, c) \<in> D" using r c f0 by (simp add: ready_def named_def)
  then obtain f where f: "cell A go (fail ! r) c = Some f" "named W f (longest (set W) (W ! (fail ! r) @ [c]))"
    using go_ok_done [OF assms(2) _ c, of "fail ! r"] f0 by (auto simp: named_def)
  have "longest (set W) (W ! (fail ! r) @ [c]) = longest (set W) (tl (W ! r) @ [c])"
    using W f0 by (simp add: named_def longest_snoc words_ok_def)
  moreover have "length (longest (set W) (tl (W ! r) @ [c])) \<le> length (W ! r)"
    using longest_length [of "set W" "tl (W ! r) @ [c]"] r'(3) by (cases "W ! r") auto
  ultimately show ?thesis using f by (auto simp: named_def)
qed

definition bfs_inv :: "nat list list \<Rightarrow> nat list list \<Rightarrow> (nat \<times> nat) set \<Rightarrow> CBMAutomaton \<times> nat list \<times> Queue \<Rightarrow> bool" where
  "bfs_inv W ws D = (\<lambda>(ac, fail, q).
     go_ok (alpha_size ac) W D (go_table ac) \<and> queue_ok W D (qdata q) \<and> fail_ok W (qdata q) fail \<and>
     mask_ok W ws (set (qdata q)) (output_mask ac) \<and> next_ok W (output_next ac))"

definition same_shape :: "CBMAutomaton \<times> nat list \<times> Queue \<Rightarrow> CBMAutomaton \<times> nat list \<times> Queue \<Rightarrow> bool" where
  \<comment> \<open>what a turn leaves alone\<close>
  "same_shape = (\<lambda>(ac, fail, q) (ac', fail', q').
     alpha_size ac' = alpha_size ac \<and> alpha_map ac' = alpha_map ac \<and> num_patterns ac' = num_patterns ac \<and>
     qhead q' = qhead q \<and> prefix (qdata q) (qdata q') \<and>
     length (go_table ac') = length (go_table ac) \<and> length (output_mask ac') = length (output_mask ac))"

lemma same_shape_trans: "same_shape s t \<Longrightarrow> same_shape t u \<Longrightarrow> same_shape s u"
  by (auto simp: same_shape_def)

lemma mask_ok_push:
  assumes "mask_ok W ws Q out" "\<forall>p < length ws. ws ! p \<in> set W" "s < length W" "s \<notin> Q" "W ! s \<noteq> []"
    "f < length W" "f \<in> Q \<or> W ! f = []" "W ! f = longest (set W) (tl (W ! s))"
  shows "mask_ok W ws (insert s Q) (out[s := out ! s OR out ! f])"
proof -
  have "bit (out ! s OR out ! f) p \<longleftrightarrow> suffix (ws ! p) (W ! s)"
    if p: "p < 64" "p < length ws" "ws ! p \<noteq> []" for p
  proof -
    have "bit (out ! f) p \<longleftrightarrow> suffix (ws ! p) (W ! f)"
      using assms(1,6,7) p by (auto simp: mask_ok_def)
    also have "\<dots> \<longleftrightarrow> suffix (ws ! p) (tl (W ! s))"
      using assms(2,8) p(2) by (simp add: longest_suffix_iff)
    finally have "bit (out ! f) p \<longleftrightarrow> suffix (ws ! p) (tl (W ! s))" .
    then show ?thesis
      using assms(1,3,4,5) p suffix_tl_iff [of "ws ! p" "W ! s"] by (auto simp: mask_ok_def bit_simps)
  qed
  then show ?thesis
    using assms(1,3,6) by (auto simp: mask_ok_def nth_list_update bit_simps)
qed

lemma bfs_letter_ok:
  assumes W: "words_ok (alpha_size ac) W" and ws: "\<forall>p < length ws. ws ! p \<in> set W"
    and inv: "bfs_inv W ws D (ac, fail, q)" and r: "ready (alpha_size ac) W D (qdata q) r"
    and c: "c < alpha_size ac" and new: "(r, c) \<notin> D"
    and st: "bfs_letter r c (ac, fail, q) = (ac', fail', q')"
  shows "bfs_inv W ws (insert (r, c) D) (ac', fail', q') \<and> ready (alpha_size ac) W (insert (r, c) D) (qdata q') r \<and>
    same_shape (ac, fail, q) (ac', fail', q')"
proof -
  let ?A = "alpha_size ac" and ?qd = "qdata q" and ?go = "go_table ac"
  have go: "go_ok ?A W D ?go" and qo: "queue_ok W D ?qd" and fo: "fail_ok W ?qd fail"
    and mo: "mask_ok W ws (set ?qd) (output_mask ac)" and no: "next_ok W (output_next ac)"
    using inv by (simp_all add: bfs_inv_def)
  have r': "r < length W" "W ! r \<noteq> []" using r queue_word [OF qo] by (auto simp: ready_def)
  obtain f where f: "cell ?A ?go (fail ! r) c = Some f" "named W f (longest (set W) (tl (W ! r) @ [c]))"
    "length (W ! f) \<le> length (W ! r)"
    using via_fail [OF W go qo fo r c] by auto
  have f': "f < length W" using f(2) by (simp add: named_def)
  show ?thesis
  proof (cases "cell ?A ?go r c")
    case None
    then have "W ! r @ [c] \<notin> set W" using go_ok_todo [OF go r'(1) c new] by simp
    then have "longest (set W) (W ! r @ [c]) = longest (set W) (tl (W ! r) @ [c])"
      using r'(2) by (subst longest_tl) simp_all
    then have "go_ok ?A W (insert (r, c) D) (?go[r * ?A + c := Some f])"
      using f(2) by (intro go_ok_final [OF go r'(1) c]) simp
    moreover have "queue_ok W (insert (r, c) D) ?qd"
      using qo \<open>W ! r @ [c] \<notin> set W\<close> by (auto simp: queue_ok_def dest: nth_mem)
    moreover have "ac' = ac\<lparr>go_table := ?go[r * ?A + c := Some f]\<rparr>" "fail' = fail" "q' = q"
      using st None f(1) by (simp_all add: bfs_letter_def cell_def)
    ultimately show ?thesis using fo mo no r by (auto simp: bfs_inv_def ready_def same_shape_def)
  next
    case (Some s)
    then have s: "named W s (W ! r @ [c])" using go_ok_todo [OF go r'(1) c new] by simp
    then have s': "s < length W" "W ! s = W ! r @ [c]" by (simp_all add: named_def)
    have mem: "W ! r @ [c] \<in> set W" using nth_mem [OF s'(1)] s'(2) by simp
    have tl: "tl (W ! s) = tl (W ! r) @ [c]" using s'(2) r'(2) by simp
    have "\<forall>t \<in> set ?qd. length (W ! t) \<le> Suc (length (W ! r))" using r by (simp add: ready_def)
    note push = queue_ok_push [OF qo W r'(1) s new this]
    have "go_ok ?A W (insert (r, c) D) ?go"
      using Some s mem by (intro go_ok_keep [OF go]) (auto simp: longest_id)
    moreover have "fail_ok W (?qd @ [s]) (fail[s := f])"
      using fo push(2) f(2) tl s'(1) by (auto simp: fail_ok_def nth_list_update)
    moreover have "f \<in> set ?qd \<or> W ! f = []" using ready_queued [OF W qo r f' _ f(3)] by blast
    then have "mask_ok W ws (insert s (set ?qd)) ((output_mask ac)[s := output_mask ac ! s OR output_mask ac ! f])"
      using f(2) tl s' by (intro mask_ok_push [OF mo ws s'(1) push(2) _ f']) (auto simp: named_def)
    moreover have "strict_suffix (W ! f) (W ! s)"
      using f(2,3) tl s'(2) longest_suffix [of "set W" "tl (W ! r) @ [c]"]
      by (auto simp: named_def strict_suffix_def intro: suffix_snocs)
    then have "next_ok W ((output_next ac)[s := Some f])"
      using no f' s'(1) by (auto simp: next_ok_def nth_list_update split: if_splits)
    moreover have "fail' = fail[s := f]" "q' = queue_push q s" "go_table ac' = ?go"
      "output_mask ac' = (output_mask ac)[s := output_mask ac ! s OR output_mask ac ! f]"
      "output_next ac' = output_next ac \<or> output_next ac' = (output_next ac)[s := Some f]"
      "alpha_size ac' = ?A" "alpha_map ac' = alpha_map ac" "num_patterns ac' = num_patterns ac"
      using st Some f(1) by (auto simp: bfs_letter_def cell_def Let_def split: if_splits)
    ultimately show ?thesis
      using push(1) no r s' by (auto simp: bfs_inv_def ready_def queue_push_def same_shape_def)
  qed
qed

lemma bfs_row_ok:
  assumes W: "words_ok (alpha_size ac) W" and ws: "\<forall>p < length ws. ws ! p \<in> set W"
    and inv: "bfs_inv W ws D (ac, fail, q)" and r: "ready (alpha_size ac) W D (qdata q) r"
    and k: "k \<le> alpha_size ac" and new: "\<forall>c. (r, c) \<notin> D"
  shows "bfs_inv W ws (D \<union> {r} \<times> {..<k}) (fold (bfs_letter r) [0..<k] (ac, fail, q)) \<and>
    (\<forall>ac' fail' q'. fold (bfs_letter r) [0..<k] (ac, fail, q) = (ac', fail', q') \<longrightarrow>
       ready (alpha_size ac) W (D \<union> {r} \<times> {..<k}) (qdata q') r \<and> same_shape (ac, fail, q) (ac', fail', q'))"
  using k
proof (induction k)
  case 0
  then show ?case using inv r by (simp add: same_shape_def)
next
  case (Suc k)
  obtain ac1 fail1 q1 where 1: "fold (bfs_letter r) [0..<k] (ac, fail, q) = (ac1, fail1, q1)"
    by (cases "fold (bfs_letter r) [0..<k] (ac, fail, q)") auto
  let ?D = "D \<union> {r} \<times> {..<k}"
  have IH: "bfs_inv W ws ?D (ac1, fail1, q1)" "ready (alpha_size ac) W ?D (qdata q1) r" "same_shape (ac, fail, q) (ac1, fail1, q1)"
    using Suc 1 by simp_all
  have A: "alpha_size ac1 = alpha_size ac" using IH(3) by (simp add: same_shape_def)
  obtain ac2 fail2 q2 where 2: "bfs_letter r k (ac1, fail1, q1) = (ac2, fail2, q2)"
    by (cases "bfs_letter r k (ac1, fail1, q1)") auto
  have D: "insert (r, k) ?D = D \<union> {r} \<times> {..<Suc k}" by auto
  have "bfs_inv W ws (insert (r, k) ?D) (ac2, fail2, q2) \<and> ready (alpha_size ac1) W (insert (r, k) ?D) (qdata q2) r \<and>
      same_shape (ac1, fail1, q1) (ac2, fail2, q2)"
    using bfs_letter_ok [OF _ ws IH(1) _ _ _ 2] W IH(2) new Suc.prems by (simp add: A)
  then show ?case
    using 1 2 A same_shape_trans [OF IH(3)] unfolding D by simp
qed

text \<open>
  Breadth first: when a state is taken from the queue, every shorter word has been processed.
\<close>

definition popped :: "nat \<Rightarrow> Queue \<Rightarrow> (nat \<times> nat) set" where
  "popped A q = (insert 0 (set (take (qhead q) (qdata q)))) \<times> {..<A}"

lemma bfs_order:
  assumes W: "words_ok A W" and q: "queue_ok W (popped A q) (qdata q)" and h: "qhead q < length (qdata q)"
  shows "ready A W (popped A q) (qdata q) (qdata q ! qhead q)"
proof -
  let ?qd = "qdata q" and ?h = "qhead q" and ?D = "popped A q"
  let ?r = "?qd ! ?h"
  have sorted: "length (W ! (?qd ! i)) \<le> length (W ! (?qd ! j))" if "i \<le> j" "j < length ?qd" for i j
    using q that sorted_nth_mono [of "map (\<lambda>t. length (W ! t)) ?qd" i j] by (simp add: queue_ok_def)
  have done_le: "length (W ! s) \<le> length (W ! ?r)" if sc: "(s, c) \<in> ?D" for s c
  proof (cases "s = 0")
    case True
    then show ?thesis using W by (simp add: words_ok_def)
  next
    case False
    then obtain i where "i < ?h" "s = ?qd ! i"
      using sc h by (auto simp: popped_def in_set_conv_nth)
    then show ?thesis using sorted [of i ?h] h by simp
  qed
  have "length (W ! t) \<le> Suc (length (W ! ?r))" if "t \<in> set ?qd" for t
    using q that done_le by (fastforce simp: queue_ok_def)
  moreover have "length (W ! s) < length (W ! ?r) \<longrightarrow> (\<forall>c < A. (s, c) \<in> ?D)" if "s < length W" for s
  proof (rule state_induct [OF W that])
    show "length (W ! 0) < length (W ! ?r) \<longrightarrow> (\<forall>c < A. (0, c) \<in> ?D)" by (simp add: popped_def)
    fix s g d
    assume g: "s < length W" "g < length W" "d < A" "W ! s = W ! g @ [d]"
      and IH: "length (W ! g) < length (W ! ?r) \<longrightarrow> (\<forall>c < A. (g, c) \<in> ?D)"
    show "length (W ! s) < length (W ! ?r) \<longrightarrow> (\<forall>c < A. (s, c) \<in> ?D)"
    proof
      assume less: "length (W ! s) < length (W ! ?r)"
      then have "s \<in> set ?qd" using q g IH by (auto simp: queue_ok_def)
      then obtain i where i: "i < length ?qd" "s = ?qd ! i" by (auto simp: in_set_conv_nth)
      then have "i < ?h" using sorted [of ?h i] less by (metis leD leI)
      then show "\<forall>c < A. (s, c) \<in> ?D" using i by (auto simp: popped_def in_set_conv_nth)
    qed
  qed
  ultimately show ?thesis using h by (simp add: ready_def)
qed

definition final :: "nat list list \<Rightarrow> nat list list \<Rightarrow> CBMAutomaton \<Rightarrow> bool" where
  "final W ws ac \<longleftrightarrow> go_ok (alpha_size ac) W UNIV (go_table ac) \<and> mask_ok W ws UNIV (output_mask ac) \<and>
     next_ok W (output_next ac)"

declare bfs_loop.simps [simp del]

lemma bfs_end:
  assumes W: "words_ok (alpha_size ac) W" and inv: "bfs_inv W ws (popped (alpha_size ac) q) (ac, fail, q)"
    and e: "queue_empty q"
  shows "final W ws ac"
proof -
  let ?A = "alpha_size ac" and ?qd = "qdata q" and ?D = "popped (alpha_size ac) q"
  have qo: "queue_ok W ?D ?qd" and go: "go_ok ?A W ?D (go_table ac)"
    and mo: "mask_ok W ws (set ?qd) (output_mask ac)" and no: "next_ok W (output_next ac)"
    using inv by (simp_all add: bfs_inv_def)
  have D: "?D = insert 0 (set ?qd) \<times> {..<?A}" using e by (simp add: popped_def queue_empty_def)
  have all: "s \<in> insert 0 (set ?qd)" if "s < length W" for s
  proof (rule state_induct [OF W that])
    fix s g d
    assume "s < length W" "g < length W" "d < ?A" "W ! s = W ! g @ [d]" "g \<in> insert 0 (set ?qd)"
    then show "s \<in> insert 0 (set ?qd)" using queue_mem [OF qo, of s g d] D by simp
  qed simp
  have "go_ok ?A W UNIV (go_table ac)"
    using go all unfolding go_ok_def D by auto
  moreover have "W ! t = []" if "t < length W" "t \<notin> set ?qd" for t
    using all [OF that(1)] that root_iff [OF W] by auto
  then have "suffix (ws ! p) (W ! t) \<longleftrightarrow> W ! t = ws ! p"
    if "t < length W" "t \<notin> set ?qd" "ws ! p \<noteq> []" for t p using that by auto
  then have "mask_ok W ws UNIV (output_mask ac)"
    using mo unfolding mask_ok_def by (simp cong: if_cong)
  ultimately show ?thesis using no by (simp add: final_def)
qed

lemma queue_length: "queue_ok W D qd \<Longrightarrow> words_ok A W \<Longrightarrow> length qd < length W"
proof -
  assume q: "queue_ok W D qd" and W: "words_ok A W"
  have "set qd \<subseteq> {1..<length W}"
    using queue_word [OF q] W by (auto simp: words_ok_def) (metis Suc_leI neq0_conv)
  then have "card (set qd) \<le> length W - 1" using card_mono [of "{1..<length W}"] by simp
  moreover have "card (set qd) = length qd" using q by (simp add: queue_ok_def distinct_card)
  moreover have "0 < length W" using W by (simp add: words_ok_def)
  ultimately show ?thesis by linarith
qed

lemma bfs_loop_ok:
  assumes "words_ok (alpha_size ac) W" "\<forall>p < length ws. ws ! p \<in> set W"
    "bfs_inv W ws (popped (alpha_size ac) q) (ac, fail, q)" "qhead q \<le> length (qdata q)" "length W \<le> fuel + qhead q"
  shows "\<exists>ac'. bfs_loop fuel (ac, fail, q) = Some ac' \<and> final W ws ac' \<and> alpha_size ac' = alpha_size ac \<and>
    alpha_map ac' = alpha_map ac \<and> num_patterns ac' = num_patterns ac \<and>
    length (go_table ac') = length (go_table ac) \<and> length (output_mask ac') = length (output_mask ac)"
  using assms
proof (induction fuel arbitrary: ac fail q)
  case 0
  then have "queue_empty q" using queue_length [of W _ "qdata q"] by (fastforce simp: bfs_inv_def)
  then show ?case using bfs_end [OF 0(1,3)] by (simp add: bfs_loop.simps [of 0])
next
  case (Suc fuel)
  show ?case
  proof (cases "queue_empty q")
    case True
    then show ?thesis using bfs_end [OF Suc.prems(1,3)] by (simp add: bfs_loop.simps [of "Suc fuel"])
  next
    case False
    let ?A = "alpha_size ac" and ?D = "popped (alpha_size ac) q"
    define r where "r = qdata q ! qhead q"
    define q0 where "q0 = q\<lparr>qhead := qhead q + 1\<rparr>"
    have h: "qhead q < length (qdata q)" using False by (simp add: queue_empty_def)
    have qo: "queue_ok W ?D (qdata q)" using Suc.prems(3) by (simp add: bfs_inv_def)
    have ready: "ready ?A W ?D (qdata q0) r" using bfs_order [OF Suc.prems(1) qo h] by (simp add: r_def q0_def)
    have "r \<noteq> 0" using queue_word [OF qo, of r] ready root_iff [OF Suc.prems(1)] by (auto simp: ready_def q0_def)
    moreover have "r \<notin> set (take (qhead q) (qdata q))"
      using qo h by (auto simp: queue_ok_def r_def in_set_conv_nth nth_eq_iff_index_eq)
    ultimately have new: "\<forall>c. (r, c) \<notin> ?D" by (simp add: popped_def)
    have inv0: "bfs_inv W ws ?D (ac, fail, q0)" using Suc.prems(3) by (simp add: bfs_inv_def q0_def)
    obtain ac1 fail1 q1 where 1: "fold (bfs_letter r) [0..<?A] (ac, fail, q0) = (ac1, fail1, q1)"
      by (cases "fold (bfs_letter r) [0..<?A] (ac, fail, q0)") auto
    have row: "bfs_inv W ws (?D \<union> {r} \<times> {..<?A}) (ac1, fail1, q1)" "same_shape (ac, fail, q0) (ac1, fail1, q1)"
      using bfs_row_ok [OF Suc.prems(1,2) inv0 ready le_refl new] 1 by simp_all
    have shape: "alpha_size ac1 = ?A" "alpha_map ac1 = alpha_map ac" "num_patterns ac1 = num_patterns ac"
      "qhead q1 = Suc (qhead q)" "prefix (qdata q) (qdata q1)" "length (go_table ac1) = length (go_table ac)"
      "length (output_mask ac1) = length (output_mask ac)"
      using row(2) by (simp_all add: same_shape_def q0_def)
    obtain zs where zs: "qdata q1 = qdata q @ zs" using shape(5) by (auto elim: prefixE)
    have "take (Suc (qhead q)) (qdata q1) = take (qhead q) (qdata q) @ [r]"
      using h zs by (simp add: take_Suc_conv_app_nth r_def)
    then have "popped ?A q1 = ?D \<union> {r} \<times> {..<?A}" using shape(4) by (auto simp: popped_def)
    moreover have "qhead q1 \<le> length (qdata q1)" using h zs shape(4) by simp
    ultimately have "\<exists>ac'. bfs_loop fuel (ac1, fail1, q1) = Some ac' \<and> final W ws ac' \<and> alpha_size ac' = alpha_size ac1 \<and>
        alpha_map ac' = alpha_map ac1 \<and> num_patterns ac' = num_patterns ac1 \<and>
        length (go_table ac') = length (go_table ac1) \<and> length (output_mask ac') = length (output_mask ac1)"
      using Suc.IH [of ac1 q1 fail1] Suc.prems(1,2,5) row(1) shape(1,4) by simp
    moreover have "bfs_loop (Suc fuel) (ac, fail, q) = bfs_loop fuel (ac1, fail1, q1)"
      using False 1 by (subst bfs_loop.simps) (simp add: queue_pop_def r_def q0_def)
    ultimately show ?thesis using shape by simp
  qed
qed

subsection \<open>The two phases\<close>

lemma root_loop_ok:
  assumes W: "words_ok A W" and "go_ok A W {} go" "k \<le> A"
  shows "go_ok A W ({0} \<times> {..<k}) (fold root_loop [0..<k] go) \<and> length (fold root_loop [0..<k] go) = length go"
  using assms(3)
proof (induction k)
  case 0
  then show ?case using assms(2) by simp
next
  case (Suc k)
  let ?go = "fold root_loop [0..<k] go" and ?D = "{0} \<times> {..<k}"
  have go: "go_ok A W ?D ?go" using Suc by simp
  have W0: "0 < length W" "W ! 0 = []" using W by (simp_all add: words_ok_def)
  note todo = go_ok_todo [OF go W0(1), of k]
  have D: "insert (0, k) ?D = {0} \<times> {..<Suc k}" by auto
  have "go_ok A W (insert (0, k) ?D) (root_loop k ?go)"
  proof (cases "?go ! k")
    case None
    then have "[k] \<notin> set W" using todo Suc.prems W0 by (simp add: cell_def)
    then have "go_ok A W (insert (0, k) ?D) (?go[0 * A + k := Some 0])"
      using Suc.prems W0 by (intro go_ok_final [OF go]) (auto simp: named_def)
    then show ?thesis using None by (simp add: root_loop_def)
  next
    case (Some t)
    then have "named W t [k]" using todo Suc.prems W0 by (simp add: cell_def)
    moreover then have "[k] \<in> set W" using nth_mem by (fastforce simp: named_def)
    ultimately show ?thesis
      using Some W0 by (auto intro!: go_ok_keep [OF go] simp: cell_def root_loop_def)
  qed
  moreover have "length (root_loop k ?go) = length ?go" by (simp add: root_loop_def)
  ultimately show ?case using Suc unfolding D by simp
qed

lemma mask_ok_seed:
  assumes "words_ok A W" "queue_ok W ({0} \<times> {..<k}) qd" "mask_ok W ws {} out"
  shows "mask_ok W ws (set qd) out"
proof -
  have "suffix w (W ! t) \<longleftrightarrow> W ! t = w" if "t \<in> set qd" "w \<noteq> []" for t w
    using assms(1,2) that by (auto simp: queue_ok_def words_ok_def suffix_Cons)
  then show ?thesis using assms(3) by (auto simp: mask_ok_def)
qed

lemma bfs_seed_ok:
  assumes W: "words_ok (alpha_size ac) W" and go: "go_ok (alpha_size ac) W ({0} \<times> {..<alpha_size ac}) (go_table ac)"
    and "k \<le> alpha_size ac" "fold (bfs_seed ac) [0..<k] (replicate (length W) 0, queue_init m) = (fail, q)"
  shows "queue_ok W ({0} \<times> {..<k}) (qdata q) \<and> fail_ok W (qdata q) fail \<and> qhead q = 0"
  using assms(3,4)
proof (induction k arbitrary: fail q)
  case 0
  then show ?case by (auto simp: queue_ok_def fail_ok_def queue_init_def)
next
  case (Suc k)
  let ?A = "alpha_size ac" and ?D = "{0} \<times> {..<k}"
  obtain fail1 q1 where 1: "fold (bfs_seed ac) [0..<k] (replicate (length W) 0, queue_init m) = (fail1, q1)"
    by (cases "fold (bfs_seed ac) [0..<k] (replicate (length W) 0, queue_init m)") auto
  have IH: "queue_ok W ?D (qdata q1)" "fail_ok W (qdata q1) fail1" "qhead q1 = 0" using Suc.IH [OF _ 1] Suc.prems(1) by simp_all
  have W0: "0 < length W" "W ! 0 = []" using W by (simp_all add: words_ok_def)
  obtain t where t: "go_table ac ! k = Some t" "named W t (longest (set W) [k])"
    using go_ok_done [OF go W0(1), of k] Suc.prems(1) W0 by (auto simp: cell_def)
  have D: "insert (0, k) ?D = {0} \<times> {..<Suc k}" by auto
  have turn: "(fail, q) = (if t \<noteq> 0 then (fail1[t := 0], queue_push q1 t) else (fail1, q1))"
    using Suc.prems(2) 1 t(1) by (simp add: bfs_seed_def [of ac k])
  show ?case
  proof (cases "t = 0")
    case True
    then have "[k] \<notin> set W" using t(2) W0(2) by (auto simp: named_def split: if_splits)
    then have "queue_ok W (insert (0, k) ?D) (qdata q1)"
      using IH(1) W0 by (auto simp: queue_ok_def dest: nth_mem)
    then show ?thesis using turn True IH by (simp add: D)
  next
    case False
    then have nk: "named W t (W ! 0 @ [k])" using t(2) W0 root_iff [OF W, of t] by (auto simp: named_def split: if_splits)
    have "\<forall>u \<in> set (qdata q1). length (W ! u) \<le> Suc (length (W ! 0))"
      by (auto elim: queue_memE [OF IH(1)])
    then have "queue_ok W (insert (0, k) ?D) (qdata q1 @ [t])" "t \<notin> set (qdata q1)"
      using queue_ok_push [OF IH(1) W W0(1) nk] by simp_all
    moreover have "fail_ok W (qdata q1 @ [t]) (fail1[t := 0])"
      using IH(2) W0 nk by (auto simp: fail_ok_def named_def nth_list_update)
    ultimately show ?thesis using turn False IH by (simp add: D queue_push_def)
  qed
qed

section \<open>The finished automaton\<close>

definition alphabet_ok :: "nat list option \<Rightarrow> int \<Rightarrow> bool" where
  \<comment> \<open>every byte is mapped below the alphabet size, as \<open>cbm_ac_build\<close> documents\<close>
  "alphabet_ok amap asize \<longleftrightarrow>
     (let A = (if asize \<le> 0 then CBM_AC_BYTE_RANGE else nat asize)
      in case amap of None \<Rightarrow> 256 \<le> A | Some m \<Rightarrow> length m = 256 \<and> (\<forall>c \<in> set m. c < A))"

definition amap_of :: "nat list option \<Rightarrow> char \<Rightarrow> nat" where
  \<comment> \<open>the letter of a byte\<close>
  "amap_of amap x = (case amap of None \<Rightarrow> byte x | Some m \<Rightarrow> m ! byte x)"

definition built :: "nat list list \<Rightarrow> nat list list \<Rightarrow> CBMAutomaton \<Rightarrow> bool" where
  "built W ws ac \<longleftrightarrow> words_ok (alpha_size ac) W \<and> final W ws ac \<and> (\<forall>p < length ws. ws ! p \<in> set W) \<and>
     num_states ac = length W \<and> (\<forall>x. letter ac x < alpha_size ac)"

lemma final_shrink:
  assumes "final W ws ac" "length W \<le> m"
  shows "final W ws (ac_shrink_tables ac (length W) m)"
proof -
  have "cell A (take (length W * A) go) s c = cell A go s c" if "s < length W" "c < A" for A s c and go :: "nat option list"
    using idx_lt [OF that] by (simp add: cell_def)
  then show ?thesis
    using assms by (auto simp: final_def ac_shrink_tables_def go_ok_def mask_ok_def next_ok_def)
qed

lemma trie_inv_go: "trie_inv m W ws ac \<Longrightarrow> go_ok (alpha_size ac) W {} (go_table ac)"
  unfolding trie_inv_def trie_ok_def go_ok_def named_def by auto

lemma trie_inv_mask: "trie_inv m W ws ac \<Longrightarrow> mask_ok W ws {} (output_mask ac)"
  by (auto simp: trie_inv_def marks_def mask_ok_def)

lemma ac_build_failure_ok:
  assumes W: "words_ok (alpha_size ac) W" and ws: "\<forall>p < length ws. ws ! p \<in> set W"
    and go: "go_ok (alpha_size ac) W ({0} \<times> {..<alpha_size ac}) (go_table ac)" and m: "mask_ok W ws {} (output_mask ac)"
    and nx: "next_ok W (output_next ac)"
  shows "\<exists>ac'. ac_build_failure ac (length W) = Some ac' \<and> final W ws ac' \<and> alpha_size ac' = alpha_size ac \<and>
    alpha_map ac' = alpha_map ac \<and> num_patterns ac' = num_patterns ac"
proof -
  let ?A = "alpha_size ac"
  obtain fail q where seed: "fold (bfs_seed ac) [0..<?A] (replicate (length W) 0, queue_init (length W)) = (fail, q)"
    by (cases "fold (bfs_seed ac) [0..<?A] (replicate (length W) 0, queue_init (length W))") auto
  note s = bfs_seed_ok [OF W go le_refl seed]
  have "popped ?A q = {0} \<times> {..<?A}" using s by (simp add: popped_def)
  moreover have "mask_ok W ws (set (qdata q)) (output_mask ac)" using mask_ok_seed [OF W _ m] s by blast
  ultimately have "bfs_inv W ws (popped ?A q) (ac, fail, q)" using s go nx by (simp add: bfs_inv_def)
  from bfs_loop_ok [OF W ws this, of "length W"] s seed show ?thesis
    by (auto simp: ac_build_failure_def)
qed

lemma ac_build_built:
  assumes "patterns \<noteq> []" "alphabet_ok amap asize"
  shows "\<exists>ac W. cbm_ac_build patterns amap asize = Some ac \<and> built W (map (map (amap_of amap)) patterns) ac \<and>
    letter ac = amap_of amap \<and> num_patterns ac = length patterns"
proof -
  define A where "A = (if asize \<le> 0 then CBM_AC_BYTE_RANGE else nat asize)"
  define m where "m = 1 + sum_list (map length patterns)"
  define ac0 where "ac0 = new_automaton (length patterns) m amap A"
  let ?ws = "map (map (amap_of amap)) patterns"
  have letter0: "letter ac0 = amap_of amap"
    by (simp add: fun_eq_iff ac0_def new_automaton_def letter_def amap_of_def CBM_AC_BYTE_RANGE_def split: option.splits)
  have lt: "amap_of amap x < A" for x
    using assms(2) by (auto simp: alphabet_ok_def A_def amap_of_def Let_def split: option.splits if_splits
        intro: less_le_trans [OF byte_lt])
  have sel: "alpha_size ac0 = A" "num_patterns ac0 = length patterns" by (simp_all add: ac0_def new_automaton_def)
  have "trie_ok A [[]] (go_table ac0)"
    by (rule trie_ok_init [of _ m]) (auto simp: ac0_def new_automaton_def m_def)
  moreover have "0 < m" by (simp add: m_def)
  then have "marks [[]] [] (output_mask ac0)" by (auto simp: marks_def ac0_def new_automaton_def)
  ultimately have "trie_inv m [[]] [] ac0" by (simp add: trie_inv_def ac0_def new_automaton_def)
  then obtain W ac1 where loop: "trie_loop ac0 1 0 patterns = (ac1, length W)" and inv: "trie_inv m W ?ws ac1"
    and shape: "alpha_size ac1 = A" "alpha_map ac1 = alpha_map ac0" "num_patterns ac1 = length patterns" "length W \<le> m"
    using trie_loop_ok [of m "[[]]" "[]" ac0 patterns] letter0 lt sel by (auto simp: m_def)
  define ac2 where "ac2 = ac1\<lparr>go_table := fold root_loop [0..<A] (go_table ac1)\<rparr>"
  have trie: "ac_build_trie ac0 patterns = (ac2, length W)"
    using loop shape(1) by (simp add: ac_build_trie_def ac2_def)
  have W: "words_ok A W" and ws: "\<forall>p < length ?ws. ?ws ! p \<in> set W" and nx: "next_ok W (output_next ac1)"
    using inv shape(1,4) by (auto simp: trie_inv_def trie_ok_def marks_def next_ok_def)
  have "go_ok A W ({0} \<times> {..<A}) (go_table ac2)"
    using root_loop_ok [OF W] trie_inv_go [OF inv] shape(1) by (simp add: ac2_def)
  then obtain ac3 where ac3: "ac_build_failure ac2 (length W) = Some ac3" "final W ?ws ac3"
    "alpha_size ac3 = A" "alpha_map ac3 = alpha_map ac0" "num_patterns ac3 = length patterns"
    using ac_build_failure_ok [of ac2 W ?ws] W ws nx trie_inv_mask [OF inv] shape by (auto simp: ac2_def)
  define ac4 where "ac4 = ac_shrink_tables (ac3\<lparr>num_states := length W\<rparr>) (length W) m"
  have "final W ?ws (ac3\<lparr>num_states := length W\<rparr>)" using ac3(2) by (simp add: final_def)
  then have "final W ?ws ac4" unfolding ac4_def using shape(4) by (rule final_shrink)
  moreover have sel4: "alpha_size ac4 = A" "alpha_map ac4 = alpha_map ac0" "num_patterns ac4 = length patterns" "num_states ac4 = length W"
    using ac3 by (simp_all add: ac4_def ac_shrink_tables_def)
  moreover have "letter ac4 = amap_of amap" using sel4(2) letter0 by (simp add: letter_def fun_eq_iff)
  moreover have "cbm_ac_build patterns amap asize = Some ac4"
    using assms(1) trie ac3(1) unfolding ac4_def ac0_def m_def A_def by (simp add: cbm_ac_build_def Let_def)
  ultimately show ?thesis using W ws lt by (auto simp: built_def)
qed

section \<open>Scanning\<close>

text \<open>
  What a scanner relies on: states named by words, steps to the longest suffix, masks that tell the
  patterns a state ends with.
\<close>

locale suffix_automaton =
  fixes built :: "nat list list \<Rightarrow> nat list list \<Rightarrow> 'a \<Rightarrow> bool"
    and letter :: "'a \<Rightarrow> char \<Rightarrow> nat"
    and step :: "'a \<Rightarrow> nat \<Rightarrow> char \<Rightarrow> nat"
    and mask :: "'a \<Rightarrow> nat \<Rightarrow> u64"
  assumes root: "built W ws a \<Longrightarrow> named W 0 []"
    and closed: "built W ws a \<Longrightarrow> prefix_closed (set W)"
    and step: "built W ws a \<Longrightarrow> s < length W \<Longrightarrow> named W (step a s x) (longest (set W) (W ! s @ [letter a x]))"
    and pattern: "built W ws a \<Longrightarrow> p < length ws \<Longrightarrow> ws ! p \<in> set W"
    and mask: "built W ws a \<Longrightarrow> s < length W \<Longrightarrow> p < 64 \<Longrightarrow> p < length ws \<Longrightarrow> ws ! p \<noteq> [] \<Longrightarrow>
      bit (mask a s) p \<longleftrightarrow> suffix (ws ! p) (W ! s)"
    and no_mask: "built W ws a \<Longrightarrow> s < length W \<Longrightarrow> length ws \<le> p \<Longrightarrow> \<not> bit (mask a s) p"
begin

lemma run_named:
  assumes "built W ws a"
  shows "named W (foldl (step a) 0 xs) (longest (set W) (map (letter a) xs))"
proof (induction xs rule: rev_induct)
  case Nil
  then show ?case using root [OF assms] by simp
next
  case (snoc x xs)
  then show ?case
    using step [OF assms, of "foldl (step a) 0 xs" x] longest_snoc [OF closed [OF assms]]
    by (simp add: named_def)
qed

lemma run_mask:
  assumes "built W ws a" "p < 64" "p < length ws" "ws ! p \<noteq> []"
  shows "bit (mask a (foldl (step a) 0 xs)) p \<longleftrightarrow> suffix (ws ! p) (map (letter a) xs)"
  using run_named [OF assms(1), of xs] mask [OF assms(1) _ assms(2-4)] pattern [OF assms(1,3)]
  by (simp add: named_def longest_suffix_iff)

lemma run_no_mask: "built W ws a \<Longrightarrow> length ws \<le> p \<Longrightarrow> \<not> bit (mask a (foldl (step a) 0 xs)) p"
  using run_named [of W ws a xs] no_mask by (simp add: named_def)

lemma run_occurs:
  assumes "built W ws a" "p < 64" "p < length ws" "ws ! p \<noteq> []"
  shows "(\<exists>i < length xs. bit (mask a (foldl (step a) 0 (take (Suc i) xs))) p) \<longleftrightarrow> sublist (ws ! p) (map (letter a) xs)"
proof -
  have "(\<exists>i < length xs. suffix (ws ! p) (take (Suc i) (map (letter a) xs))) \<longleftrightarrow>
      (\<exists>i \<le> length xs. suffix (ws ! p) (take i (map (letter a) xs)))"
    using assms(4) by (metis Suc_le_eq not0_implies_Suc suffix_bot.le_bot take0)
  then show ?thesis
    by (simp add: run_mask [OF assms] sublist_suffix_take take_map)
qed

end

lemma built_step:
  assumes "built W ws ac" "s < length W"
  shows "named W (ac_step ac s x) (longest (set W) (W ! s @ [letter ac x]))"
  using assms go_ok_done [of "alpha_size ac" W UNIV "go_table ac" s "letter ac x"]
  by (auto simp: built_def final_def ac_step_def cell_def)

interpretation ac: suffix_automaton built letter ac_step "\<lambda>ac s. output_mask ac ! s"
proof (unfold_locales, goal_cases)
  case (1 W ws a)
  then show ?case by (simp add: built_def words_ok_def named_def)
next
  case (2 W ws a)
  then show ?case by (simp add: built_def words_ok_def)
next
  case (3 W ws a s x)
  then show ?case by (rule built_step)
next
  case (4 W ws a p)
  then show ?case by (simp add: built_def)
next
  case (5 W ws a s p)
  then show ?case by (auto simp: built_def final_def mask_ok_def)
next
  case (6 W ws a s p)
  then have "p < 64 \<Longrightarrow> \<not> bit (output_mask a ! s) p" by (auto simp: built_def final_def mask_ok_def)
  then show ?case using bit_imp_le_length by fastforce
qed

lemma scan_loop_bits:
  "bit (scan_loop ac s result xs) p \<longleftrightarrow>
     bit result p \<or> (\<exists>i < length xs. bit (output_mask ac ! foldl (ac_step ac) s (take (Suc i) xs)) p)"
proof (induction xs arbitrary: s result)
  case (Cons x xs)
  show ?case by (simp add: Cons.IH Let_def bit_simps Ex_less_Suc2)
qed simp

text \<open>
  C17. The automaton finds exactly the patterns that occur: for every non-empty list of patterns and
  every alphabet map below the alphabet size, \<open>cbm_ac_build\<close> returns an automaton, and scanning a
  text sets bit \<open>p\<close>, for each of the first 64 patterns that is not empty, exactly when pattern
  \<open>p\<close> occurs in the text, both read through the alphabet map. No bit beyond the number of the patterns is set.
\<close>

theorem ac_scan_finds_patterns:
  assumes "patterns \<noteq> []" "alphabet_ok amap asize"
  shows "\<exists>ac. cbm_ac_build patterns amap asize = Some ac \<and>
    (\<forall>str p. bit (cbm_ac_scan_bitmask ac str) p \<longrightarrow> p < length patterns) \<and>
    (\<forall>str p. p < 64 \<longrightarrow> p < length patterns \<longrightarrow> patterns ! p \<noteq> [] \<longrightarrow>
       bit (cbm_ac_scan_bitmask ac str) p =
         sublist (map (amap_of amap) (patterns ! p)) (map (amap_of amap) str))"
proof -
  obtain ac W where ac: "cbm_ac_build patterns amap asize = Some ac" "letter ac = amap_of amap"
    and b: "built W (map (map (amap_of amap)) patterns) ac"
    using ac_build_built [OF assms] by blast
  have "p < length patterns" if "bit (cbm_ac_scan_bitmask ac str) p" for str p
    using that ac.run_no_mask [OF b, of p] by (auto simp: cbm_ac_scan_bitmask_def scan_loop_bits not_le [symmetric])
  then show ?thesis
    using ac ac.run_occurs [OF b] by (simp add: cbm_ac_scan_bitmask_def scan_loop_bits)
qed

theorem ac_scan_finds_patterns_witness:
  "\<exists>ac. cbm_ac_build [''she'', ''he'', ''hers''] None 0 = Some ac \<and>
    bit (cbm_ac_scan_bitmask ac ''ushe'') 0 \<and> bit (cbm_ac_scan_bitmask ac ''ushe'') 1 \<and> \<not> bit (cbm_ac_scan_bitmask ac ''ushe'') 2"
proof -
  have "alphabet_ok None 0" by (simp add: alphabet_ok_def CBM_AC_BYTE_RANGE_def)
  from ac_scan_finds_patterns [OF _ this, of "[''she'', ''he'', ''hers'']"] obtain ac where
    "cbm_ac_build [''she'', ''he'', ''hers''] None 0 = Some ac"
    "p < 3 \<Longrightarrow> bit (cbm_ac_scan_bitmask ac ''ushe'') p =
      sublist (map byte ([''she'', ''he'', ''hers''] ! p)) (map byte ''ushe'')" for p
    by (fastforce simp: amap_of_def less_Suc_eq numeral_3_eq_3)
  then show ?thesis by (intro exI [of _ ac]) (simp add: sublist_Cons_right byte_def)
qed

section \<open>Batch scanning\<close>

definition mk_match :: "nat \<Rightarrow> nat \<Rightarrow> CBMMatchResult" where
  "mk_match n p = \<lparr>name_index = n, pattern_id = p\<rparr>"

definition emitted :: "nat \<Rightarrow> CBMMatchResult list \<Rightarrow> scan_state \<Rightarrow> nat list \<Rightarrow> bool" where
  \<comment> \<open>the matches written for the name \<open>n\<close> are those of the patterns \<open>ps\<close>, which the mask records\<close>
  "emitted n out0 st ps \<longleftrightarrow> found st = out0 @ map (mk_match n) ps \<and> distinct ps \<and> (\<forall>p. bit (seen st) p \<longleftrightarrow> p \<in> set ps)"

definition reported :: "nat \<Rightarrow> nat set \<Rightarrow> nat list \<Rightarrow> nat \<Rightarrow> CBMMatchResult list \<Rightarrow> scan_state \<Rightarrow> bool" where
  \<comment> \<open>new matches come from \<open>P\<close>, and all of \<open>P\<close> is there unless the output is full\<close>
  "reported max_matches P ps n out0 st \<longleftrightarrow> (\<exists>ps'. emitted n out0 st ps' \<and> set ps \<subseteq> set ps' \<and> set ps' \<subseteq> set ps \<union> P \<and>
     (length (found st) < max_matches \<longrightarrow> set ps' = set ps \<union> P) \<and> length (found st) \<le> max_matches)"

lemma emit_bits_ok:
  assumes "emitted n out0 st ps" "\<forall>p. bit bits p \<longrightarrow> p \<notin> set ps" "length (found st) \<le> max_matches"
  shows "reported max_matches {p. bit bits p} ps n out0 (emit_bits max_matches n bits st)"
  using assms
proof (induction max_matches n bits st arbitrary: ps rule: emit_bits.induct)
  case (1 max_matches n bits st)
  show ?case
  proof (cases "bits \<noteq> 0 \<and> length (found st) < max_matches")
    case False
    then show ?thesis using 1(2-4) by (auto simp: emit_bits.simps [of _ _ bits] reported_def)
  next
    case True
    let ?pid = "ctzll bits"
    let ?st = "st\<lparr>found := found st @ [\<lparr>name_index = n, pattern_id = ?pid\<rparr>], seen := seen st OR pattern_bit ?pid\<rparr>"
    note low = ctzll_bit [of bits]
    have bits: "{p. bit bits p} = insert ?pid {p. bit (clear_low_bit bits) p}"
      using True low(2) by (auto simp: bit_clear_low_bit)
    have "emitted n out0 ?st (ps @ [?pid])"
      using 1(2,3) True low(1,2) by (auto simp: emitted_def mk_match_def bit_simps)
    moreover have "\<forall>p. bit (clear_low_bit bits) p \<longrightarrow> p \<notin> set (ps @ [?pid])"
      using 1(3) True by (auto simp: bit_clear_low_bit)
    moreover have "length (found ?st) \<le> max_matches" using True by simp
    ultimately have "reported max_matches {p. bit (clear_low_bit bits) p} (ps @ [?pid]) n out0
        (emit_bits max_matches n (clear_low_bit bits) ?st)"
      using 1(1) [OF True refl] by blast
    moreover have "emit_bits max_matches n bits st = emit_bits max_matches n (clear_low_bit bits) ?st"
      using True by (subst emit_bits.simps) (simp add: Let_def)
    ultimately show ?thesis unfolding reported_def bits by auto
  qed
qed

lemma words_length:
  assumes "words_ok A W" "s < length W"
  shows "length (W ! s) < length W"
proof -
  have "\<forall>i. take i (W ! s) \<in> set W"
  proof (rule state_induct [OF assms])
    show "\<forall>i. take i (W ! 0) \<in> set W" using assms(1) nth_mem [of 0 W] by (simp add: words_ok_def)
  next
    fix s g d
    assume s: "s < length W" "W ! s = W ! g @ [d]" and IH: "\<forall>i. take i (W ! g) \<in> set W"
    have "W ! g @ [d] \<in> set W" using nth_mem [OF s(1)] s(2) by simp
    then show "\<forall>i. take i (W ! s) \<in> set W"
      using IH s(2) by (auto simp: take_Cons')
  qed
  then have "(\<lambda>i. take i (W ! s)) ` {..length (W ! s)} \<subseteq> set W" by blast
  moreover have "inj_on (\<lambda>i. take i (W ! s)) {..length (W ! s)}"
    by (rule inj_onI) (metis atMost_iff length_take min.absorb2)
  ultimately have "card {..length (W ! s)} \<le> card (set W)" by (metis List.finite_set card_inj_on_le)
  then show ?thesis using card_length [of W] by simp
qed

definition ends_with :: "nat list list \<Rightarrow> nat list \<Rightarrow> nat set" where
  "ends_with ws u = {p. p < 64 \<and> p < length ws \<and> suffix (ws ! p) u}"

definition occurs :: "nat list list \<Rightarrow> nat list \<Rightarrow> nat set" where
  "occurs ws u = {p. p < 64 \<and> p < length ws \<and> sublist (ws ! p) u}"

lemma occurs_snoc: "occurs ws (u @ [c]) = occurs ws u \<union> ends_with ws (u @ [c])"
proof -
  have "sublist v (u @ [c]) \<longleftrightarrow> sublist v u \<or> suffix v (u @ [c])" for v
    using sublist_Cons_right [of "rev v" c "rev u"] by (auto simp: suffix_to_prefix simp flip: sublist_rev_left sublist_rev_right)
  then show ?thesis by (auto simp: occurs_def ends_with_def)
qed

lemma reported_refl: "emitted n out0 st ps \<Longrightarrow> length (found st) \<le> m \<Longrightarrow> P \<subseteq> set ps \<or> m \<le> length (found st) \<Longrightarrow>
    reported m P ps n out0 st"
  unfolding reported_def by (intro exI [of _ ps]) auto

lemma reported_grows:
  assumes "emitted n out0 st ps" "reported m P ps n out0 st'"
  shows "length (found st) \<le> length (found st')"
proof -
  obtain ps' where "emitted n out0 st' ps'" "set ps \<subseteq> set ps'" using assms(2) unfolding reported_def by blast
  moreover from this(2) have "card (set ps) \<le> card (set ps')" by (intro card_mono) simp_all
  ultimately show ?thesis using assms(1) by (simp add: emitted_def distinct_card)
qed

lemma reported_trans:
  assumes "emitted n out0 st ps'" "set ps \<subseteq> set ps'" "set ps' \<subseteq> set ps \<union> P" "reported m Q ps' n out0 st'" "Q \<subseteq> P"
    "length (found st') < m \<Longrightarrow> P \<subseteq> set ps' \<union> Q"
  shows "reported m P ps n out0 st'"
  using assms unfolding reported_def by blast

lemma chain_ok:
  assumes b: "built W ws ac" and ne: "\<forall>p < length ws. ws ! p \<noteq> []"
    and "s < length W" "length (W ! s) \<le> fuel" "emitted n out0 st ps" "length (found st) \<le> m"
  shows "\<exists>st'. emit_chain fuel ac m n s st = Some st' \<and> reported m (ends_with ws (W ! s)) ps n out0 st'"
  using assms(3-)
proof (induction fuel arbitrary: s st ps)
  case 0
  have W: "words_ok (alpha_size ac) W" using b by (simp add: built_def)
  then have s0: "s = 0" "W ! s = []" using 0 root_iff [OF W] by simp_all
  then have "ends_with ws (W ! s) = {}" using ne by (auto simp: ends_with_def)
  then show ?case using 0 s0 reported_refl by auto
next
  case (Suc fuel)
  have W: "words_ok (alpha_size ac) W" using b by (simp add: built_def)
  show ?case
  proof (cases "s > 0 \<and> length (found st) < m")
    case False
    then have "ends_with ws (W ! s) = {} \<or> m \<le> length (found st)"
      using ne root_iff [OF W Suc.prems(1)] by (auto simp: ends_with_def)
    then show ?thesis using False Suc.prems(3,4) reported_refl by auto
  next
    case True
    let ?bits = "output_mask ac ! s AND NOT (seen st)" and ?P = "ends_with ws (W ! s)"
    define st1 where "st1 = emit_bits m n ?bits st"
    have "bit (output_mask ac ! s) p \<longleftrightarrow> p \<in> ?P" for p
      using ac.mask [OF b Suc.prems(1), of p] ac.no_mask [OF b Suc.prems(1), of p] ne bit_imp_le_length [of "output_mask ac ! s" p]
      by (auto simp: ends_with_def not_less [symmetric])
    then have bits: "{p. bit ?bits p} = ?P - set ps"
      using Suc.prems(3) bit_imp_le_length [of "output_mask ac ! s"] by (fastforce simp: bit_simps emitted_def)
    have "reported m (?P - set ps) ps n out0 st1"
      using emit_bits_ok [OF Suc.prems(3) _ Suc.prems(4), of ?bits] bits by (auto simp: st1_def)
    then obtain ps1 where 1: "emitted n out0 st1 ps1" "set ps \<subseteq> set ps1" "set ps1 \<subseteq> set ps \<union> ?P"
      "length (found st1) < m \<longrightarrow> set ps1 = set ps \<union> ?P" "length (found st1) \<le> m"
      unfolding reported_def by blast
    have stop: "reported m ?P ps n out0 st1" unfolding reported_def using 1 by blast
    have chain: "emit_chain (Suc fuel) ac m n s st = (case output_next ac ! s of None \<Rightarrow> Some st1
        | Some t \<Rightarrow> if t = s then Some st1 else emit_chain fuel ac m n t st1)"
      using True unfolding st1_def by (simp add: Let_def)
    show ?thesis
    proof (cases "output_next ac ! s")
      case None
      then show ?thesis using chain stop by simp
    next
      case (Some t)
      then have t: "t < length W" "strict_suffix (W ! t) (W ! s)"
        using b Suc.prems(1) by (auto simp: built_def final_def next_ok_def)
      then have "length (W ! t) \<le> fuel" "t \<noteq> s" using suffix_length_less [OF t(2)] Suc.prems(2) by auto
      then obtain st2 where 2: "emit_chain fuel ac m n t st1 = Some st2" "reported m (ends_with ws (W ! t)) ps1 n out0 st2"
        using Suc.IH [OF t(1) _ 1(1,5)] by blast
      have sub: "ends_with ws (W ! t) \<subseteq> ?P"
        using t(2) by (auto simp: ends_with_def strict_suffix_def intro: suffix_order.trans)
      have "length (found st1) \<le> length (found st2)"
        using reported_grows [OF 1(1) 2(2)] .
      then have "reported m ?P ps n out0 st2"
        by (intro reported_trans [OF 1(1-3) 2(2) sub]) (use 1(4) in auto)
      then show ?thesis using chain Some 2(1) \<open>t \<noteq> s\<close> by simp
    qed
  qed
qed

lemma batch_text_ok:
  assumes b: "built W ws ac" and ne: "\<forall>p < length ws. ws ! p \<noteq> []"
    and "named W s (longest (set W) u)" "reported m (occurs ws u) [] n out0 st"
  shows "\<exists>st'. batch_text ac m n s xs st = Some st' \<and> reported m (occurs ws (u @ map (letter ac) xs)) [] n out0 st'"
  using assms(3-)
proof (induction xs arbitrary: s u st)
  case Nil
  then show ?case by simp
next
  case (Cons x xs)
  let ?t = "ac_step ac s x" and ?u = "u @ [letter ac x]"
  have W: "words_ok (alpha_size ac) W" using b by (simp add: built_def)
  have s: "s < length W" "W ! s = longest (set W) u" using Cons.prems(1) by (simp_all add: named_def)
  have t: "named W ?t (longest (set W) ?u)"
    using built_step [OF b s(1), of x] longest_snoc [of "set W" u] W s(2) by (simp add: words_ok_def)
  then have t': "?t < length W" "W ! ?t = longest (set W) ?u" by (simp_all add: named_def)
  obtain ps where ps: "emitted n out0 st ps" "set ps \<subseteq> occurs ws u" "length (found st) < m \<longrightarrow> set ps = occurs ws u"
    "length (found st) \<le> m"
    using Cons.prems(2) unfolding reported_def by auto
  have "length (W ! ?t) \<le> num_states ac"
    using words_length [OF W t'(1)] b by (simp add: built_def)
  from chain_ok [OF b ne t'(1) this ps(1,4)] obtain st1 where
    1: "emit_chain (num_states ac) ac m n ?t st = Some st1" "reported m (ends_with ws (W ! ?t)) ps n out0 st1"
    by blast
  have ends: "ends_with ws (W ! ?t) = ends_with ws ?u"
    using b t'(2) by (auto simp: ends_with_def built_def longest_suffix_iff)
  have "length (found st) \<le> length (found st1)"
    using reported_grows [OF ps(1) 1(2)] .
  then have "reported m (occurs ws ?u) [] n out0 st1"
    using ps reported_trans [OF ps(1) _ _ 1(2), of "[]" "occurs ws ?u"] by (auto simp: ends occurs_snoc)
  from Cons.IH [OF t this] show ?case using 1(1) by (simp add: Let_def)
qed

definition name_at :: "string \<Rightarrow> nat \<times> nat \<Rightarrow> string" where
  "name_at buf nm = take (snd nm) (drop (fst nm) buf)"

lemma batch_names_ok:
  assumes b: "built W ws ac" and ne: "\<forall>p < length ws. ws ! p \<noteq> []"
    and "length out \<le> m" "distinct out" "\<forall>r \<in> set out. name_index r < n"
  shows "\<exists>out'. batch_names ac buf n names m out = Some (out @ out') \<and> length (out @ out') \<le> m \<and> distinct (out @ out') \<and>
    (let Occ = (\<Union>i < length names. mk_match (n + i) ` occurs ws (map (letter ac) (name_at buf (names ! i))))
     in set out' \<subseteq> Occ \<and> (length (out @ out') < m \<longrightarrow> set out' = Occ))"
  using assms(3-)
proof (induction names arbitrary: n out)
  case Nil
  then show ?case by simp
next
  case (Cons nm names)
  obtain off len where nm: "nm = (off, len)" by (cases nm) auto
  let ?occ = "\<lambda>nm. occurs ws (map (letter ac) (name_at buf nm))"
  have split: "(\<Union>i < length (nm # names). mk_match (n + i) ` ?occ ((nm # names) ! i)) =
      mk_match n ` ?occ nm \<union> (\<Union>i < length names. mk_match (Suc n + i) ` ?occ (names ! i))" (is "_ = _ \<union> ?rest")
    by (simp add: lessThan_Suc_eq_insert_0 image_image)
  show ?case
  proof (cases "m \<le> length out")
    case True
    then show ?thesis using Cons.prems nm by (intro exI [of _ "[]"]) simp
  next
    case False
    have "emitted n out \<lparr>seen = 0, found = out\<rparr> []" by (simp add: emitted_def)
    then have start: "reported m (occurs ws []) [] n out \<lparr>seen = 0, found = out\<rparr>"
      using Cons.prems(1) ne by (intro reported_refl) (auto simp: occurs_def)
    have "named W 0 (longest (set W) [])" using ac.root [OF b] by simp
    from batch_text_ok [OF b ne this start, of "take len (drop off buf)"] obtain st where
      run: "batch_text ac m n 0 (take len (drop off buf)) \<lparr>seen = 0, found = out\<rparr> = Some st"
        and rep: "reported m (?occ nm) [] n out st"
      by (auto simp: nm name_at_def)
    from rep obtain ps where st: "emitted n out st ps" "set ps \<subseteq> ?occ nm"
        "length (found st) < m \<longrightarrow> set ps = ?occ nm" "length (found st) \<le> m"
      unfolding reported_def by auto
    have found: "found st = out @ map (mk_match n) ps" "distinct ps" using st(1) by (simp_all add: emitted_def)
    have inj: "inj_on (mk_match n) A" for A by (auto simp: inj_on_def mk_match_def)
    have "distinct (found st)"
      using Cons.prems(2,3) found inj by (auto simp: distinct_map mk_match_def)
    moreover have "\<forall>r \<in> set (found st). name_index r < Suc n"
      using Cons.prems(3) found(1) by (auto simp: mk_match_def less_Suc_eq)
    ultimately obtain out' where IH: "batch_names ac buf (Suc n) names m (found st) = Some (found st @ out')"
      "length (found st @ out') \<le> m" "distinct (found st @ out')" "set out' \<subseteq> ?rest"
      "length (found st @ out') < m \<longrightarrow> set out' = ?rest"
      using Cons.IH [of "found st" "Suc n"] st(4) by (auto simp: Let_def)
    have "batch_names ac buf n (nm # names) m out = Some (out @ map (mk_match n) ps @ out')"
      using False run IH(1) found(1) nm by simp
    moreover have "set (map (mk_match n) ps @ out') \<subseteq> mk_match n ` ?occ nm \<union> ?rest"
      using st(2) IH(4) by auto
    moreover have "length (found st @ out') < m \<longrightarrow> set (map (mk_match n) ps @ out') = mk_match n ` ?occ nm \<union> ?rest"
      using st(3) IH(5) by simp
    ultimately show ?thesis
      using IH(2,3) found(1) unfolding split Let_def by (intro exI [of _ "map (mk_match n) ps @ out'"]) auto
  qed
qed

text \<open>
  Batch scanning of names is sound and, as long as the output has room, complete: with
  patterns that are not empty, \<open>cbm_ac_scan_batch\<close> ends, writes at most \<open>max_matches\<close> results,
  no result twice, and every result names a name and one of the first 64 patterns that occurs in
  it; when fewer than \<open>max_matches\<close> results are written, all such pairs are there.
\<close>

theorem ac_scan_batch_reports:
  assumes "patterns \<noteq> []" "alphabet_ok amap asize" "\<forall>pat \<in> set patterns. pat \<noteq> []"
    "cbm_ac_build patterns amap asize = Some ac"
  shows "\<exists>ms. cbm_ac_scan_batch ac buf names max_matches = Some ms \<and> length ms \<le> max_matches \<and> distinct ms \<and>
    (let Occ = {mk_match i p | i p. i < length names \<and> p < 64 \<and> p < length patterns \<and>
                  sublist (map (amap_of amap) (patterns ! p)) (map (amap_of amap) (name_at buf (names ! i)))}
     in set ms \<subseteq> Occ \<and> (length ms < max_matches \<longrightarrow> set ms = Occ))"
proof -
  let ?ws = "map (map (amap_of amap)) patterns"
  obtain W where b: "built W ?ws ac" and l: "letter ac = amap_of amap"
    using ac_build_built [OF assms(1,2)] assms(4) by auto
  have "\<forall>p < length ?ws. ?ws ! p \<noteq> []" using assms(3) by simp
  moreover have "(\<Union>i < length names. mk_match i ` occurs ?ws (map (letter ac) (name_at buf (names ! i)))) =
      {mk_match i p | i p. i < length names \<and> p < 64 \<and> p < length patterns \<and>
         sublist (map (amap_of amap) (patterns ! p)) (map (amap_of amap) (name_at buf (names ! i)))}"
    unfolding occurs_def l by (auto 0 3)
  ultimately show ?thesis
    using batch_names_ok [OF b, of "[]" max_matches 0 buf names] by (simp add: cbm_ac_scan_batch_def Let_def)
qed

theorem ac_scan_batch_reports_witness:
  "\<exists>ac ms. cbm_ac_build [''ab'', ''b''] None 0 = Some ac \<and> cbm_ac_scan_batch ac ''xabb'' [(0, 3), (3, 1)] 10 = Some ms \<and>
    distinct ms \<and> set ms = {mk_match 0 0, mk_match 0 1, mk_match 1 1}"
proof -
  let ?P = "[''ab'', ''b'']" and ?N = "[(0, 3), (3, 1)] :: (nat \<times> nat) list"
  let ?Occ = "{mk_match i p | i p. i < length ?N \<and> p < 64 \<and> p < length ?P \<and>
    sublist (map (amap_of None) (?P ! p)) (map (amap_of None) (name_at ''xabb'' (?N ! i)))}"
  have a: "alphabet_ok None 0" by (simp add: alphabet_ok_def CBM_AC_BYTE_RANGE_def)
  then obtain ac where ac: "cbm_ac_build ?P None 0 = Some ac" using ac_build_built [of ?P None 0] by blast
  obtain ms where ms: "cbm_ac_scan_batch ac ''xabb'' ?N 10 = Some ms" "distinct ms" "set ms \<subseteq> ?Occ"
    "length ms < 10 \<longrightarrow> set ms = ?Occ"
    using ac_scan_batch_reports [OF _ a _ ac, of "''xabb''" ?N 10] by (auto simp: Let_def)
  note eval = name_at_def amap_of_def sublist_Cons_right byte_def
  have "?Occ = {mk_match 0 0, mk_match 0 1, mk_match 1 1}"
  proof
    have "mk_match 0 0 \<in> ?Occ" by (intro CollectI exI [of _ 0]) (simp add: eval)
    moreover have "mk_match 0 1 \<in> ?Occ" by (intro CollectI exI [of _ 0] exI [of _ 1]) (simp add: eval)
    moreover have "mk_match 1 1 \<in> ?Occ" by (intro CollectI exI [of _ 1]) (simp add: eval)
    ultimately show "{mk_match 0 0, mk_match 0 1, mk_match 1 1} \<subseteq> ?Occ" by blast
  qed (auto simp: less_Suc_eq eval)
  moreover from this have "length ms \<le> 3"
    using ms(2,3) card_mono [of ?Occ "set ms"] by (simp add: distinct_card card_insert_if split: if_splits)
  ultimately show ?thesis using ac ms by auto
qed

section \<open>Compressed texts\<close>

definition entry_mask :: "lz4 \<Rightarrow> CBMAutomaton \<Rightarrow> CBMLz4Entry \<Rightarrow> u64" where
  \<comment> \<open>what the scan of a single text returns when the buffer is there\<close>
  "entry_mask lz4 ac e = fst (cbm_ac_scan_lz4_bitmask lz4 True (Some ac) (lz_data e) (compressed_len e) (original_len e)
     \<lparr>tls_decomp_buf = True, tls_decomp_cap = original_len e\<rparr>)"

definition lz4_hits :: "lz4 \<Rightarrow> CBMAutomaton \<Rightarrow> nat \<Rightarrow> CBMLz4Entry list \<Rightarrow> CBMLz4Match list" where
  "lz4_hits lz4 ac i es = map (\<lambda>(j, e). \<lparr>file_index = j, bitmask = entry_mask lz4 ac e\<rparr>)
     (filter (\<lambda>(j, e). entry_mask lz4 ac e \<noteq> 0) (zip [i..<i + length es] es))"

lemma lz4_hits_Cons:
  "lz4_hits lz4 ac i (e # es) =
     (if entry_mask lz4 ac e \<noteq> 0 then [\<lparr>file_index = i, bitmask = entry_mask lz4 ac e\<rparr>] else []) @ lz4_hits lz4 ac (i + 1) es"
  by (simp add: lz4_hits_def upt_conv_Cons del: upt_Suc)

lemma lz4_batch_loop_hits:
  "int (length out) \<le> mx \<Longrightarrow> lz4_batch_loop lz4 ac i es mx out = out @ take (nat mx - length out) (lz4_hits lz4 ac i es)"
proof (induction es arbitrary: i out)
  case Nil
  then show ?case by (simp add: lz4_hits_def)
next
  case (Cons e es)
  define out' where "out' = (if entry_mask lz4 ac e \<noteq> 0 then out @ [\<lparr>file_index = i, bitmask = entry_mask lz4 ac e\<rparr>] else out)"
  show ?case
  proof (cases "int (length out) \<ge> mx")
    case True
    then show ?thesis using Cons.prems by simp
  next
    case False
    have "lz4_batch_loop lz4 ac i (e # es) mx out = lz4_batch_loop lz4 ac (i + 1) es mx out'"
      using False by (auto simp: out'_def entry_mask_def cbm_ac_scan_lz4_bitmask_def get_decomp_buf_def cbm_ac_scan_bitmask_def
          Let_def split: option.splits)
    moreover have "int (length out') \<le> mx" using False Cons.prems by (simp add: out'_def)
    moreover obtain k where "nat mx - length out = Suc k" "nat mx - Suc (length out) = k"
      using False by (metis Suc_diff_Suc linorder_not_le nat_int zless_nat_conj zless_nat_eq_int_zless)
    ultimately show ?thesis
      by (simp add: Cons.IH lz4_hits_Cons out'_def del: lz4_batch_loop.simps)
  qed
qed

text \<open>
  The batch over compressed files agrees with scanning the files one at a time: once the
  buffer is there, the result lists, in order, the files whose single scan is not zero with the mask
  of that scan, cut off at \<open>max_matches\<close>.
\<close>

theorem ac_lz4_batch_agrees:
  assumes "entries \<noteq> []" "0 \<le> max_matches" "tls_decomp_buf tls" "\<forall>e \<in> set entries. original_len e \<le> tls_decomp_cap tls"
    "0 \<le> tls_decomp_cap tls"
  shows "cbm_ac_scan_lz4_batch lz4 ok (Some ac) entries max_matches tls = (take (nat max_matches) (lz4_hits lz4 ac 0 entries), tls)"
proof -
  have "fold (\<lambda>e m. if original_len e > m then original_len e else m) es m0 \<le> tls_decomp_cap tls"
    if "set es \<subseteq> set entries" "m0 \<le> tls_decomp_cap tls" for es m0
    using that assms(4) by (induction es arbitrary: m0) auto
  from this [of entries 0] have "get_decomp_buf ok (fold (\<lambda>e m. if original_len e > m then original_len e else m) entries 0) tls = (True, tls)"
    using assms(3,5) by (simp add: get_decomp_buf_def)
  then show ?thesis
    using assms(1,2) by (simp add: cbm_ac_scan_lz4_batch_def lz4_batch_loop_hits)
qed

theorem ac_lz4_batch_agrees_witness:
  "cbm_ac_scan_lz4_batch (\<lambda>bytes n. Some (take (nat n) bytes)) True
     (Some \<lparr>num_states = 2, num_patterns = 1, alpha_size = 1, alpha_map = replicate 256 0, go_table = [Some 1, Some 1],
        output_mask = [0, 1], output_list = [None, Some 0], output_next = [None, None]\<rparr>)
     [\<lparr>lz_data = None, compressed_len = 1, original_len = 1\<rparr>, \<lparr>lz_data = Some ''xy'', compressed_len = 2, original_len = 2\<rparr>]
     5 \<lparr>tls_decomp_buf = True, tls_decomp_cap = 65536\<rparr> =
   ([\<lparr>file_index = 1, bitmask = 1\<rparr>], \<lparr>tls_decomp_buf = True, tls_decomp_cap = 65536\<rparr>)"
  by (subst ac_lz4_batch_agrees)
    (simp_all add: lz4_hits_def entry_mask_def cbm_ac_scan_lz4_bitmask_def get_decomp_buf_def cbm_ac_scan_bitmask_def
      ac_step_def letter_def byte_def upt_rec)

text \<open>
  A failed allocation of the decompression buffer is not retried: the capacity is recorded, so every
  later request that fits in it returns NULL, whether or not memory has become available.
\<close>

lemma decomp_buf_stuck:
  assumes "get_decomp_buf False needed tls = (False, tls')" "needed' \<le> tls_decomp_cap tls'"
  shows "get_decomp_buf ok needed' tls' = (False, tls')"
  using assms by (auto simp: get_decomp_buf_def Let_def split: if_splits)

end
