(* ===== verification/CypherLexer.thy ===== *)
theory CypherLexer
  imports Prelude
begin

text \<open>
  The lexer of the query engine, the first part of \<open>cypher/cypher.c\<close>, and the token types
  of \<open>cypher/cypher.h\<close>. The C code walks an index over the input; here each function takes
  the rest of the input and returns what is left, and the position is counted along. Heap
  allocation is taken to succeed, and the input to be shorter than \<open>2 ^ 31\<close> bytes, so that
  positions are exact.
\<close>

section \<open>Tokens\<close>

text \<open>
  The enumeration of the header, with one datatype per group of the header's comments and the
  names of the source as abbreviations.
\<close>

datatype tok_keyword =
    KW_MATCH | KW_WHERE | KW_RETURN | KW_ORDER | KW_BY | KW_LIMIT | KW_AND | KW_OR | KW_AS
  | KW_DISTINCT | KW_COUNT | KW_CONTAINS | KW_STARTS | KW_WITH | KW_NOT | KW_ASC | KW_DESC
  | KW_NEQ | KW_ENDS | KW_IN | KW_IS | KW_NULL_KW | KW_XOR | KW_SKIP | KW_UNION | KW_UNWIND

datatype tok_aggregate =
    AG_SUM | AG_AVG | AG_MIN_KW | AG_MAX_KW | AG_COLLECT

datatype tok_function =
    FN_TOLOWER | FN_TOUPPER | FN_TOSTRING

datatype tok_case =
    CS_CASE | CS_WHEN | CS_THEN | CS_ELSE | CS_END

datatype tok_reserved =
    RS_CREATE | RS_DELETE | RS_DETACH | RS_SET | RS_REMOVE | RS_MERGE | RS_OPTIONAL
  | RS_YIELD | RS_CALL | RS_ALL | RS_TRUE | RS_FALSE | RS_EXISTS | RS_MANDATORY | RS_FOREACH
  | RS_ON | RS_ADD | RS_CONSTRAINT | RS_DO | RS_DROP | RS_FOR | RS_FROM | RS_GRAPH | RS_OF
  | RS_REQUIRE | RS_SCALAR | RS_UNIQUE

datatype tok_symbol =
    SY_LPAREN | SY_RPAREN | SY_LBRACKET | SY_RBRACKET | SY_DASH | SY_GT | SY_LT | SY_COLON
  | SY_DOT | SY_LBRACE | SY_RBRACE | SY_STAR | SY_COMMA | SY_EQ | SY_EQTILDE | SY_GTE
  | SY_LTE | SY_PIPE | SY_DOTDOT

datatype tok_literal =
    LI_IDENT | LI_STRING | LI_NUMBER

datatype cbm_token_type_t =
    Keyword tok_keyword | Aggregate tok_aggregate | StringFn tok_function | CaseExpr tok_case
  | Reserved tok_reserved | Symbol tok_symbol | Literal tok_literal | TOK_EOF

abbreviation "TOK_MATCH \<equiv> Keyword KW_MATCH"
abbreviation "TOK_WHERE \<equiv> Keyword KW_WHERE"
abbreviation "TOK_RETURN \<equiv> Keyword KW_RETURN"
abbreviation "TOK_ORDER \<equiv> Keyword KW_ORDER"
abbreviation "TOK_BY \<equiv> Keyword KW_BY"
abbreviation "TOK_LIMIT \<equiv> Keyword KW_LIMIT"
abbreviation "TOK_AND \<equiv> Keyword KW_AND"
abbreviation "TOK_OR \<equiv> Keyword KW_OR"
abbreviation "TOK_AS \<equiv> Keyword KW_AS"
abbreviation "TOK_DISTINCT \<equiv> Keyword KW_DISTINCT"
abbreviation "TOK_COUNT \<equiv> Keyword KW_COUNT"
abbreviation "TOK_CONTAINS \<equiv> Keyword KW_CONTAINS"
abbreviation "TOK_STARTS \<equiv> Keyword KW_STARTS"
abbreviation "TOK_WITH \<equiv> Keyword KW_WITH"
abbreviation "TOK_NOT \<equiv> Keyword KW_NOT"
abbreviation "TOK_ASC \<equiv> Keyword KW_ASC"
abbreviation "TOK_DESC \<equiv> Keyword KW_DESC"
abbreviation "TOK_NEQ \<equiv> Keyword KW_NEQ"
abbreviation "TOK_ENDS \<equiv> Keyword KW_ENDS"
abbreviation "TOK_IN \<equiv> Keyword KW_IN"
abbreviation "TOK_IS \<equiv> Keyword KW_IS"
abbreviation "TOK_NULL_KW \<equiv> Keyword KW_NULL_KW"
abbreviation "TOK_XOR \<equiv> Keyword KW_XOR"
abbreviation "TOK_SKIP \<equiv> Keyword KW_SKIP"
abbreviation "TOK_UNION \<equiv> Keyword KW_UNION"
abbreviation "TOK_UNWIND \<equiv> Keyword KW_UNWIND"
abbreviation "TOK_SUM \<equiv> Aggregate AG_SUM"
abbreviation "TOK_AVG \<equiv> Aggregate AG_AVG"
abbreviation "TOK_MIN_KW \<equiv> Aggregate AG_MIN_KW"
abbreviation "TOK_MAX_KW \<equiv> Aggregate AG_MAX_KW"
abbreviation "TOK_COLLECT \<equiv> Aggregate AG_COLLECT"
abbreviation "TOK_TOLOWER \<equiv> StringFn FN_TOLOWER"
abbreviation "TOK_TOUPPER \<equiv> StringFn FN_TOUPPER"
abbreviation "TOK_TOSTRING \<equiv> StringFn FN_TOSTRING"
abbreviation "TOK_CASE \<equiv> CaseExpr CS_CASE"
abbreviation "TOK_WHEN \<equiv> CaseExpr CS_WHEN"
abbreviation "TOK_THEN \<equiv> CaseExpr CS_THEN"
abbreviation "TOK_ELSE \<equiv> CaseExpr CS_ELSE"
abbreviation "TOK_END \<equiv> CaseExpr CS_END"
abbreviation "TOK_CREATE \<equiv> Reserved RS_CREATE"
abbreviation "TOK_DELETE \<equiv> Reserved RS_DELETE"
abbreviation "TOK_DETACH \<equiv> Reserved RS_DETACH"
abbreviation "TOK_SET \<equiv> Reserved RS_SET"
abbreviation "TOK_REMOVE \<equiv> Reserved RS_REMOVE"
abbreviation "TOK_MERGE \<equiv> Reserved RS_MERGE"
abbreviation "TOK_OPTIONAL \<equiv> Reserved RS_OPTIONAL"
abbreviation "TOK_YIELD \<equiv> Reserved RS_YIELD"
abbreviation "TOK_CALL \<equiv> Reserved RS_CALL"
abbreviation "TOK_ALL \<equiv> Reserved RS_ALL"
abbreviation "TOK_TRUE \<equiv> Reserved RS_TRUE"
abbreviation "TOK_FALSE \<equiv> Reserved RS_FALSE"
abbreviation "TOK_EXISTS \<equiv> Reserved RS_EXISTS"
abbreviation "TOK_MANDATORY \<equiv> Reserved RS_MANDATORY"
abbreviation "TOK_FOREACH \<equiv> Reserved RS_FOREACH"
abbreviation "TOK_ON \<equiv> Reserved RS_ON"
abbreviation "TOK_ADD \<equiv> Reserved RS_ADD"
abbreviation "TOK_CONSTRAINT \<equiv> Reserved RS_CONSTRAINT"
abbreviation "TOK_DO \<equiv> Reserved RS_DO"
abbreviation "TOK_DROP \<equiv> Reserved RS_DROP"
abbreviation "TOK_FOR \<equiv> Reserved RS_FOR"
abbreviation "TOK_FROM \<equiv> Reserved RS_FROM"
abbreviation "TOK_GRAPH \<equiv> Reserved RS_GRAPH"
abbreviation "TOK_OF \<equiv> Reserved RS_OF"
abbreviation "TOK_REQUIRE \<equiv> Reserved RS_REQUIRE"
abbreviation "TOK_SCALAR \<equiv> Reserved RS_SCALAR"
abbreviation "TOK_UNIQUE \<equiv> Reserved RS_UNIQUE"
abbreviation "TOK_LPAREN \<equiv> Symbol SY_LPAREN"
abbreviation "TOK_RPAREN \<equiv> Symbol SY_RPAREN"
abbreviation "TOK_LBRACKET \<equiv> Symbol SY_LBRACKET"
abbreviation "TOK_RBRACKET \<equiv> Symbol SY_RBRACKET"
abbreviation "TOK_DASH \<equiv> Symbol SY_DASH"
abbreviation "TOK_GT \<equiv> Symbol SY_GT"
abbreviation "TOK_LT \<equiv> Symbol SY_LT"
abbreviation "TOK_COLON \<equiv> Symbol SY_COLON"
abbreviation "TOK_DOT \<equiv> Symbol SY_DOT"
abbreviation "TOK_LBRACE \<equiv> Symbol SY_LBRACE"
abbreviation "TOK_RBRACE \<equiv> Symbol SY_RBRACE"
abbreviation "TOK_STAR \<equiv> Symbol SY_STAR"
abbreviation "TOK_COMMA \<equiv> Symbol SY_COMMA"
abbreviation "TOK_EQ \<equiv> Symbol SY_EQ"
abbreviation "TOK_EQTILDE \<equiv> Symbol SY_EQTILDE"
abbreviation "TOK_GTE \<equiv> Symbol SY_GTE"
abbreviation "TOK_LTE \<equiv> Symbol SY_LTE"
abbreviation "TOK_PIPE \<equiv> Symbol SY_PIPE"
abbreviation "TOK_DOTDOT \<equiv> Symbol SY_DOTDOT"
abbreviation "TOK_IDENT \<equiv> Literal LI_IDENT"
abbreviation "TOK_STRING \<equiv> Literal LI_STRING"
abbreviation "TOK_NUMBER \<equiv> Literal LI_NUMBER"

record cbm_token_t =
  tok_type :: cbm_token_type_t
  tok_text :: string
  tok_pos :: nat

type_synonym cbm_lex_result_t = "cbm_token_t list"

definition lex_push :: "cbm_lex_result_t \<Rightarrow> cbm_token_type_t \<Rightarrow> string \<Rightarrow> nat \<Rightarrow> cbm_lex_result_t" where
  "lex_push r type str pos = r @ [\<lparr>tok_type = type, tok_text = str, tok_pos = pos\<rparr>]"

section \<open>Keywords\<close>

definition keyword_table :: "(string \<times> cbm_token_type_t) list" where
  "keyword_table = [
    (''MATCH'', TOK_MATCH), (''WHERE'', TOK_WHERE), (''RETURN'', TOK_RETURN),
    (''ORDER'', TOK_ORDER), (''BY'', TOK_BY), (''LIMIT'', TOK_LIMIT), (''AND'', TOK_AND),
    (''OR'', TOK_OR), (''AS'', TOK_AS), (''DISTINCT'', TOK_DISTINCT), (''COUNT'', TOK_COUNT),
    (''CONTAINS'', TOK_CONTAINS), (''STARTS'', TOK_STARTS), (''WITH'', TOK_WITH),
    (''NOT'', TOK_NOT), (''ASC'', TOK_ASC), (''DESC'', TOK_DESC), (''ENDS'', TOK_ENDS),
    (''IN'', TOK_IN), (''IS'', TOK_IS), (''NULL'', TOK_NULL_KW), (''XOR'', TOK_XOR),
    (''SKIP'', TOK_SKIP), (''UNION'', TOK_UNION), (''UNWIND'', TOK_UNWIND), (''SUM'', TOK_SUM),
    (''AVG'', TOK_AVG), (''MIN'', TOK_MIN_KW), (''MAX'', TOK_MAX_KW), (''COLLECT'', TOK_COLLECT),
    (''toLower'', TOK_TOLOWER), (''toUpper'', TOK_TOUPPER), (''toString'', TOK_TOSTRING),
    (''tolower'', TOK_TOLOWER), (''toupper'', TOK_TOUPPER), (''tostring'', TOK_TOSTRING),
    (''CASE'', TOK_CASE), (''WHEN'', TOK_WHEN), (''THEN'', TOK_THEN), (''ELSE'', TOK_ELSE),
    (''END'', TOK_END), (''OPTIONAL'', TOK_OPTIONAL), (''CREATE'', TOK_CREATE),
    (''DELETE'', TOK_DELETE), (''DETACH'', TOK_DETACH), (''SET'', TOK_SET),
    (''REMOVE'', TOK_REMOVE), (''MERGE'', TOK_MERGE), (''YIELD'', TOK_YIELD),
    (''CALL'', TOK_CALL), (''ALL'', TOK_ALL), (''TRUE'', TOK_TRUE), (''FALSE'', TOK_FALSE),
    (''EXISTS'', TOK_EXISTS), (''MANDATORY'', TOK_MANDATORY), (''FOREACH'', TOK_FOREACH),
    (''ON'', TOK_ON), (''ADD'', TOK_ADD), (''CONSTRAINT'', TOK_CONSTRAINT), (''DO'', TOK_DO),
    (''DROP'', TOK_DROP), (''FOR'', TOK_FOR), (''FROM'', TOK_FROM), (''GRAPH'', TOK_GRAPH),
    (''OF'', TOK_OF), (''REQUIRE'', TOK_REQUIRE), (''SCALAR'', TOK_SCALAR),
    (''UNIQUE'', TOK_UNIQUE)]"

definition keyword_lookup :: "string \<Rightarrow> cbm_token_type_t" where
  "keyword_lookup word =
     (case find (\<lambda>(name, _). strcasecmp_eq word name) keyword_table of
        Some (_, type) \<Rightarrow> type
      | None \<Rightarrow> TOK_IDENT)"

section \<open>Recognisers\<close>

definition lex_unescape :: "char \<Rightarrow> char" where
  "lex_unescape e =
     (if e = CHR ''n'' then CHR 0x0A else if e = CHR ''t'' then CHR 0x09
      else if e = CHR 0x5C then CHR 0x5C else e)"

definition lex_put :: "string \<Rightarrow> char \<Rightarrow> string" where
  "lex_put buf c = (if length buf < 4095 then buf @ [c] else buf)"

fun lex_string_loop :: "char \<Rightarrow> string \<Rightarrow> string \<Rightarrow> string \<times> string" where
  \<comment> \<open>\<open>buf\<close> holds at most 4095 bytes; the result is the text and the input from the closing quote on\<close>
  "lex_string_loop quote buf [] = (buf, [])"
| "lex_string_loop quote buf (c # cs) =
     (if c = quote then (buf, c # cs)
      else if c = CHR 0x5C \<and> cs \<noteq> []
      then lex_string_loop quote (lex_put buf (lex_unescape (hd cs))) (tl cs)
      else lex_string_loop quote (lex_put buf c) cs)"

definition lex_string_literal :: "char \<Rightarrow> string \<Rightarrow> string \<times> string" where
  \<comment> \<open>the argument starts after the opening quote; the result's rest after the closing one\<close>
  "lex_string_literal quote rest =
     (case lex_string_loop quote [] rest of (buf, rest') \<Rightarrow> (buf, drop 1 rest'))"

definition lex_pairs :: "(char \<times> char \<times> cbm_token_type_t \<times> string) list" where
  "lex_pairs =
    [(CHR ''!'', CHR ''='', TOK_NEQ, ''!=''), (CHR ''<'', CHR ''>'', TOK_NEQ, ''<>''),
     (CHR ''='', CHR ''~'', TOK_EQTILDE, ''=~''), (CHR ''>'', CHR ''='', TOK_GTE, ''>=''),
     (CHR ''<'', CHR ''='', TOK_LTE, ''<=''), (CHR ''.'', CHR ''.'', TOK_DOTDOT, ''..'')]"

definition lex_try_two_char :: "string \<Rightarrow> (cbm_token_type_t \<times> string) option" where
  "lex_try_two_char rest =
     (case rest of
        c # c2 # _ \<Rightarrow>
          (case find (\<lambda>(a, b, _). c = a \<and> c2 = b) lex_pairs of
             Some (_, _, type, str) \<Rightarrow> Some (type, str)
           | None \<Rightarrow> None)
      | _ \<Rightarrow> None)"

definition lex_single_char :: "char \<Rightarrow> cbm_token_type_t" where
  "lex_single_char c =
     (if c = CHR ''('' then TOK_LPAREN else if c = CHR '')'' then TOK_RPAREN
      else if c = CHR ''['' then TOK_LBRACKET else if c = CHR '']'' then TOK_RBRACKET
      else if c = CHR ''-'' then TOK_DASH else if c = CHR ''>'' then TOK_GT
      else if c = CHR ''<'' then TOK_LT else if c = CHR '':'' then TOK_COLON
      else if c = CHR ''.'' then TOK_DOT else if c = CHR ''{'' then TOK_LBRACE
      else if c = CHR ''}'' then TOK_RBRACE else if c = CHR ''*'' then TOK_STAR
      else if c = CHR '','' then TOK_COMMA else if c = CHR ''='' then TOK_EQ
      else if c = CHR ''|'' then TOK_PIPE else TOK_EOF)"

definition ident_char :: "char \<Rightarrow> bool" where
  "ident_char c \<longleftrightarrow> isalnum c \<or> c = CHR ''_''"

definition lex_try_ident :: "string \<Rightarrow> (cbm_token_type_t \<times> string \<times> string) option" where
  \<comment> \<open>type, text and rest; a word longer than its buffer is compared by its first 255 bytes\<close>
  "lex_try_ident rest =
     (case rest of
        [] \<Rightarrow> None
      | c # _ \<Rightarrow>
          (if \<not> isalpha c \<and> c \<noteq> CHR ''_'' then None
           else let word = takeWhile ident_char rest
                in Some (keyword_lookup (take 255 word), word, dropWhile ident_char rest)))"

fun lex_number_loop :: "string \<Rightarrow> string \<times> string" where
  "lex_number_loop [] = ([], [])"
| "lex_number_loop (c # cs) =
     (if isdigit c \<or> (c = CHR ''.'' \<and> cs \<noteq> [] \<and> hd cs \<noteq> CHR ''.'')
      then (case lex_number_loop cs of (str, rest) \<Rightarrow> (c # str, rest))
      else ([], c # cs))"

definition lex_try_number :: "string \<Rightarrow> (string \<times> string) option" where
  "lex_try_number rest =
     (case rest of
        [] \<Rightarrow> None
      | c # cs \<Rightarrow>
          (if \<not> isdigit c \<and> \<not> (c = CHR ''.'' \<and> cs \<noteq> [] \<and> isdigit (hd cs)) then None
           else Some (lex_number_loop rest)))"

fun lex_block_comment :: "string \<Rightarrow> string" where
  \<comment> \<open>the search for the end of a block comment: stops at \<open>*/\<close> or with less than two bytes left\<close>
  "lex_block_comment (c # d # cs) =
     (if c = CHR ''*'' \<and> d = CHR ''/'' then c # d # cs else lex_block_comment (d # cs))"
| "lex_block_comment cs = cs"

definition lex_skip_whitespace_comments :: "string \<Rightarrow> string option" where
  "lex_skip_whitespace_comments rest =
     (case rest of
        [] \<Rightarrow> None
      | c # cs \<Rightarrow>
          (if isspace c then Some cs
           else if cs \<noteq> [] \<and> c = CHR ''/'' \<and> hd cs = CHR ''/''
             then Some (dropWhile (\<lambda>x. x \<noteq> CHR 0x0A) rest)
           else if cs \<noteq> [] \<and> c = CHR ''-'' \<and> hd cs = CHR ''-''
             then Some (dropWhile (\<lambda>x. x \<noteq> CHR 0x0A) rest)
           else if cs \<noteq> [] \<and> c = CHR ''/'' \<and> hd cs = CHR ''*''
             then let r = lex_block_comment (tl cs)
                  in Some (if length r > 1 then drop 2 r else r)
           else None))"

section \<open>The main loop\<close>

text \<open>
  One turn of the loop of \<open>cbm_lex\<close>: the token it pushes, if any, and the rest of the input.
\<close>

definition lex_turn :: "nat \<Rightarrow> string \<Rightarrow> cbm_token_t option \<times> string" where
  "lex_turn i rest =
     (case lex_skip_whitespace_comments rest of
        Some rest' \<Rightarrow> (None, rest')
      | None \<Rightarrow>
          (let c = hd rest;
               tok = (\<lambda>type str. Some \<lparr>tok_type = type, tok_text = str, tok_pos = i\<rparr>) in
           if c = CHR 0x22 \<or> c = CHR 0x27
           then (case lex_string_literal c (tl rest) of (buf, rest') \<Rightarrow> (tok TOK_STRING buf, rest'))
           else case lex_try_number rest of
             Some (str, rest') \<Rightarrow> (tok TOK_NUMBER str, rest')
           | None \<Rightarrow>
             (case lex_try_ident rest of
                Some (type, str, rest') \<Rightarrow> (tok type str, rest')
              | None \<Rightarrow>
                (case lex_try_two_char rest of
                   Some (type, str) \<Rightarrow> (tok type str, drop 2 rest)
                 | None \<Rightarrow>
                   (if lex_single_char c \<noteq> TOK_EOF then (tok (lex_single_char c) [c], tl rest)
                    else (None, tl rest))))))"

lemma lex_string_loop_length: "length (snd (lex_string_loop q buf s)) \<le> length s"
proof (induction q buf s rule: lex_string_loop.induct)
  case (2 q buf c cs)
  have "length (tl cs) \<le> Suc (length cs)" by simp
  with 2 show ?case by (auto simp del: length_tl)
qed simp

lemma lex_number_loop_split: "lex_number_loop s = (str, rest) \<Longrightarrow> s = str @ rest"
  by (induction s arbitrary: str rest) (auto split: if_splits prod.splits)

lemma lex_block_comment_length: "length (lex_block_comment s) \<le> length s"
  by (induction s rule: lex_block_comment.induct) auto

lemma lex_skip_shorter:
  "lex_skip_whitespace_comments rest = Some rest' \<Longrightarrow> length rest' < length rest"
proof (cases rest)
  case (Cons c cs)
  assume s: "lex_skip_whitespace_comments rest = Some rest'"
  have "length (dropWhile (\<lambda>x. x \<noteq> CHR 0x0A) cs) \<le> length cs" by (rule length_dropWhile_le)
  moreover have "length (lex_block_comment (tl cs)) \<le> length cs"
    using lex_block_comment_length [of "tl cs"] by (simp add: le_diff_conv)
  ultimately show ?thesis
    using s Cons by (auto simp: lex_skip_whitespace_comments_def Let_def split: if_splits)
qed (simp add: lex_skip_whitespace_comments_def)

lemma lex_number_shorter: "lex_try_number rest = Some (str, rest') \<Longrightarrow> length rest' < length rest"
proof (cases rest)
  case (Cons c cs)
  assume "lex_try_number rest = Some (str, rest')"
  then have e: "lex_number_loop rest = (str, rest')" and
    c: "isdigit c \<or> (c = CHR ''.'' \<and> cs \<noteq> [] \<and> isdigit (hd cs))"
    using Cons by (auto simp: lex_try_number_def split: if_splits)
  have "\<not> isdigit CHR ''.''" by (simp add: isdigit_def byte_def)
  with c e Cons have "str \<noteq> []" by (auto split: prod.splits if_splits)
  with lex_number_loop_split [OF e] show ?thesis by simp
qed (simp add: lex_try_number_def)

lemma lex_ident_shorter: "lex_try_ident rest = Some (type, str, rest') \<Longrightarrow> length rest' < length rest"
  by (cases rest)
    (auto simp: lex_try_ident_def ident_char_def isalnum_def Let_def length_dropWhile_le le_imp_less_Suc
      split: if_splits)

lemma lex_turn_shorter:
  assumes "rest \<noteq> []" "lex_turn i rest = (t, rest')"
  shows "length rest' < length rest"
proof (cases "lex_skip_whitespace_comments rest")
  case (Some r)
  with assms(2) lex_skip_shorter show ?thesis by (simp add: lex_turn_def)
next
  case skip: None
  have len: "length (tl rest) < length rest" "length (drop 2 rest) < length rest" using assms(1) by auto
  have str: "length (snd (lex_string_literal q (tl rest))) < length rest" for q
    using lex_string_loop_length [of q "[]" "tl rest"] assms(1)
    by (auto simp: lex_string_literal_def split: prod.splits) (metis One_nat_def Suc_pred length_greater_0_conv less_Suc_eq_le diff_le_self le_trans)
  show ?thesis
    using assms(2) skip len str lex_number_shorter [of rest] lex_ident_shorter [of rest]
    by (auto simp: lex_turn_def Let_def split: if_splits option.splits prod.splits) (metis snd_conv)+
qed

function lex_loop :: "nat \<Rightarrow> string \<Rightarrow> cbm_lex_result_t" where
  "lex_loop i rest =
     (if rest = [] then lex_push [] TOK_EOF [] i
      else case lex_turn i rest of
             (t, rest') \<Rightarrow>
               (case t of None \<Rightarrow> [] | Some tok \<Rightarrow> [tok]) @
               lex_loop (i + (length rest - length rest')) rest')"
  by pat_completeness auto
termination
  by (relation "measure (\<lambda>(_, rest). length rest)") (auto dest!: lex_turn_shorter [OF _ sym])

declare lex_loop.simps [simp del]

definition cbm_lex :: "cstr \<Rightarrow> cbm_lex_result_t option" where
  \<comment> \<open>\<open>None\<close> is the return value -1\<close>
  "cbm_lex input = (case input of None \<Rightarrow> None | Some s \<Rightarrow> Some (lex_loop 0 s))"


section \<open>Every token is spelled by the input\<close>

definition tok_spelled :: "string \<Rightarrow> nat \<Rightarrow> cbm_token_t \<Rightarrow> bool" where
  \<comment> \<open>the token stands in \<open>input\<close>, whose first byte has position \<open>i\<close>\<close>
  "tok_spelled input i t \<longleftrightarrow>
     i \<le> tok_pos t \<and> tok_pos t < i + length input \<and> tok_type t \<noteq> TOK_EOF \<and>
     (if tok_type t = TOK_STRING
      then input ! (tok_pos t - i) = CHR 0x22 \<or> input ! (tok_pos t - i) = CHR 0x27
      else tok_text t \<noteq> [] \<and>
           take (length (tok_text t)) (drop (tok_pos t - i) input) = tok_text t)"

lemma tok_spelled_shift:
  assumes "tok_spelled rest (i + length pre) t"
  shows "tok_spelled (pre @ rest) i t"
  using assms by (auto simp: tok_spelled_def nth_append diff_diff_add)

lemma keyword_table_types: "(name, type) \<in> set keyword_table \<Longrightarrow> type \<noteq> TOK_EOF \<and> type \<noteq> TOK_STRING"
  by (auto simp: keyword_table_def)

lemma keyword_lookup_types: "keyword_lookup w \<noteq> TOK_EOF" "keyword_lookup w \<noteq> TOK_STRING"
  using keyword_table_types
  by (auto simp: keyword_lookup_def find_Some_iff split: option.splits) (metis nth_mem)+

lemma lex_two_char_spelled:
  assumes "lex_try_two_char rest = Some (type, str)"
  shows "type \<noteq> TOK_EOF \<and> type \<noteq> TOK_STRING \<and> str \<noteq> [] \<and> take 2 rest = str \<and> length str = 2"
  using assms
  by (auto simp: lex_try_two_char_def lex_pairs_def split: list.splits option.splits if_splits)

lemma suffix_tlI: "suffix xs (tl ys) \<Longrightarrow> suffix xs ys"
  by (cases ys) (auto intro: suffix_ConsI)

lemma lex_string_suffix: "suffix (snd (lex_string_loop q buf s)) s"
  by (induction q buf s rule: lex_string_loop.induct) (auto intro: suffix_ConsI suffix_tlI)

lemma lex_block_comment_suffix: "suffix (lex_block_comment s) s"
  by (induction s rule: lex_block_comment.induct) (auto intro: suffix_ConsI)

lemma lex_skip_suffix:
  assumes "lex_skip_whitespace_comments rest = Some rest'"
  shows "suffix rest' rest"
proof -
  obtain c cs where r: "rest = c # cs" using assms by (cases rest) (auto simp: lex_skip_whitespace_comments_def)
  have b: "suffix (lex_block_comment (tl cs)) rest"
    using lex_block_comment_suffix [of "tl cs"] by (auto simp: r intro: suffix_ConsI suffix_tlI)
  then have "suffix (drop n (lex_block_comment (tl cs))) rest" for n
    using suffix_drop suffix_order.trans by blast
  with b show ?thesis
    using assms suffix_dropWhile [of "\<lambda>x. x \<noteq> CHR 0x0A" rest]
    by (auto simp: r lex_skip_whitespace_comments_def Let_def suffix_ConsI simp del: dropWhile.simps
        split: if_splits)
qed

lemma lex_number_SomeD:
  assumes "lex_try_number rest = Some (str, r)"
  shows "rest = str @ r \<and> str \<noteq> []"
proof -
  have e: "lex_number_loop rest = (str, r)" using assms
    by (auto simp: lex_try_number_def simp del: lex_number_loop.simps split: list.splits if_splits)
  then show ?thesis using lex_number_loop_split [OF e] lex_number_shorter [OF assms] by auto
qed

lemma lex_ident_SomeD:
  assumes "lex_try_ident rest = Some (type, str, r)"
  shows "rest = str @ r \<and> str \<noteq> [] \<and> type \<noteq> TOK_EOF \<and> type \<noteq> TOK_STRING"
proof -
  have s: "rest = str @ r \<and> type = keyword_lookup (take 255 str)" using assms
    by (auto simp: lex_try_ident_def Let_def simp del: takeWhile.simps dropWhile.simps
        split: list.splits if_splits)
  with lex_ident_shorter [OF assms] show ?thesis by (auto simp: keyword_lookup_types)
qed

lemma lex_turn_token:
  assumes "rest \<noteq> []" "lex_turn i rest = (Some t, rest')"
  shows "tok_spelled rest i t \<and> tok_pos t = i"
proof -
  have two: "take (length str) rest = str \<and> str \<noteq> [] \<and> type \<noteq> TOK_EOF \<and> type \<noteq> TOK_STRING"
    if "lex_try_two_char rest = Some (type, str)" for type str
    using lex_two_char_spelled [OF that] by auto
  have one: "lex_single_char c \<noteq> TOK_STRING" for c by (simp add: lex_single_char_def)
  have hd0: "rest ! 0 = hd rest" "take (Suc 0) rest = [hd rest]" using assms(1) by (cases rest; simp)+
  show ?thesis
    using assms two one hd0
    by (auto simp: lex_turn_def Let_def tok_spelled_def split: if_splits option.splits prod.splits
        dest: lex_number_SomeD lex_ident_SomeD)
qed

lemma lex_turn_suffix:
  assumes "rest \<noteq> []" "lex_turn i rest = (t, rest')"
  shows "suffix rest' rest"
proof (cases "lex_skip_whitespace_comments rest")
  case (Some r)
  with assms lex_skip_suffix show ?thesis by (simp add: lex_turn_def)
next
  case None
  have str: "suffix (snd (lex_string_literal q (tl rest))) rest" for q
    using lex_string_suffix [of q "[]" "tl rest"] suffix_drop suffix_order.trans suffix_tlI
    by (auto simp: lex_string_literal_def split: prod.splits) blast
  have num: "suffix r rest" if "lex_try_number rest = Some (x, r)" for x r
    using lex_number_SomeD [OF that] by (simp add: suffix_def)
  have idt: "suffix r rest" if "lex_try_ident rest = Some (type, x, r)" for type x r
    using lex_ident_SomeD [OF that] by (simp add: suffix_def)
  show ?thesis
    using assms None str num idt suffix_drop [of 2 rest] suffix_drop [of 1 rest]
    by (auto simp: lex_turn_def Let_def drop_Suc split: if_splits option.splits prod.splits) (metis snd_conv)+
qed

definition lexed :: "string \<Rightarrow> nat \<Rightarrow> cbm_lex_result_t \<Rightarrow> bool" where
  "lexed input i ts \<longleftrightarrow>
     ts \<noteq> [] \<and> last ts = \<lparr>tok_type = TOK_EOF, tok_text = [], tok_pos = i + length input\<rparr> \<and>
     list_all (tok_spelled input i) (butlast ts) \<and> sorted_wrt (<) (map tok_pos ts)"

lemma lex_loop_lexed: "lexed s i (lex_loop i s)"
proof (induction i s rule: lex_loop.induct)
  case (1 i rest)
  show ?case
  proof (cases "rest = []")
    case True
    then show ?thesis by (simp add: lex_loop.simps lex_push_def lexed_def)
  next
    case False
    obtain t rest' where turn: "lex_turn i rest = (t, rest')" by fastforce
    obtain pre where pre: "rest = pre @ rest'" using lex_turn_suffix [OF False turn] by (auto simp: suffix_def)
    have ne: "0 < length pre" using lex_turn_shorter [OF False turn] pre by simp
    let ?ts = "lex_loop (i + length pre) rest'"
    have ih: "lexed rest' (i + length pre) ?ts" using 1 [OF False turn [symmetric]] pre by simp
    have eq: "lex_loop i rest = (case t of None \<Rightarrow> [] | Some tok \<Rightarrow> [tok]) @ ?ts"
      using False turn ne pre by (subst lex_loop.simps) auto
    have all: "list_all (tok_spelled rest i) (butlast ?ts)"
      using ih tok_spelled_shift [of rest' i pre] by (auto simp: lexed_def pre list_all_iff)
    have pos: "i < tok_pos u" if "u \<in> set ?ts" for u
    proof -
      have "u \<in> set (butlast ?ts) \<or> u = last ?ts"
        using that by (metis append_butlast_last_id empty_iff list.set(1) rotate1.simps(2) set_ConsD set_rotate1)
      then have "i + length pre \<le> tok_pos u" using ih by (auto simp: lexed_def list_all_iff tok_spelled_def)
      with ne show ?thesis by linarith
    qed
    show ?thesis
    proof (cases t)
      case None
      with eq ih all pre show ?thesis by (simp add: lexed_def add.assoc)
    next
      case (Some u)
      with lex_turn_token [of rest i u rest'] False turn have "tok_spelled rest i u" "tok_pos u = i" by auto
      with eq ih all pos pre Some show ?thesis by (auto simp: lexed_def add.assoc)
    qed
  qed
qed

text \<open>
  The lexer never fails on a string: its result ends with the end-of-input token, which stands
  at the length of the input; no other token has that type; token positions strictly increase
  and stay in the input; and at the position of a token other than a string literal the input
  reads the token's text, a string literal's position being that of its opening quote.
\<close>

theorem lex_tokens_spelled:
  "\<exists>toks. cbm_lex (Some s) = Some (toks @ [\<lparr>tok_type = TOK_EOF, tok_text = [], tok_pos = length s\<rparr>]) \<and>
     list_all (tok_spelled s 0) toks \<and> sorted_wrt (<) (map tok_pos toks)"
proof -
  let ?ts = "lex_loop 0 s"
  have l: "lexed s 0 ?ts" by (rule lex_loop_lexed)
  then have e: "?ts = butlast ?ts @ [\<lparr>tok_type = TOK_EOF, tok_text = [], tok_pos = length s\<rparr>]"
    by (metis append_butlast_last_id add_0 lexed_def)
  have "sorted_wrt (<) (map tok_pos (butlast ?ts))"
    using l by (subst (asm) lexed_def, subst (asm) e) (simp add: sorted_wrt_append)
  with l e show ?thesis by (intro exI [of _ "butlast ?ts"]) (simp add: lexed_def cbm_lex_def)
qed

section \<open>Lexing printed tokens\<close>

definition tok_print :: "cbm_token_type_t \<times> string \<Rightarrow> string" where
  "tok_print = (\<lambda>(type, str).
     if type = TOK_STRING
     then CHR 0x22 # concat (map (\<lambda>c. if c = CHR 0x22 \<or> c = CHR 0x5C then [CHR 0x5C, c] else [c]) str)
          @ [CHR 0x22]
     else str)"

definition tokens_print :: "(cbm_token_type_t \<times> string) list \<Rightarrow> string" where
  "tokens_print ts = concat (map (\<lambda>t. tok_print t @ '' '') ts)"

definition wf_tok :: "cbm_token_type_t \<times> string \<Rightarrow> bool" where
  "wf_tok = (\<lambda>(type, str).
     (type = TOK_STRING \<and> length str \<le> 4095) \<or>
     (type = TOK_NUMBER \<and> lex_try_number str = Some (str, [])) \<or>
     lex_try_ident str = Some (type, str, []) \<or>
     lex_try_two_char str = Some (type, str) \<or>
     (length str = 1 \<and> type \<noteq> TOK_EOF \<and> lex_single_char (hd str) = type))"

lemma keyword_lookup_short:
  assumes "length w < 2"
  shows "keyword_lookup w = TOK_IDENT"
proof -
  have "2 \<le> length name" if "(name, type) \<in> set keyword_table" for name type
    using that by (auto simp: keyword_table_def)
  then have "\<not> strcasecmp_eq w name" if "(name, type) \<in> set keyword_table" for name type
    using that assms by (fastforce simp: strcasecmp_eq_def dest: map_eq_imp_length_eq)
  then have "find (\<lambda>(name, _). strcasecmp_eq w name) keyword_table = None"
    by (auto simp: find_None_iff)
  then show ?thesis by (simp add: keyword_lookup_def)
qed

lemma wf_tok_word:
  assumes "str \<noteq> []" "isalpha (hd str) \<or> hd str = CHR ''_''" "list_all ident_char str"
    "keyword_lookup (take 255 str) = type"
  shows "wf_tok (type, str)"
proof -
  obtain c cs where str: "str = c # cs" using assms(1) by (cases str) auto
  have run: "takeWhile ident_char str = str" "dropWhile ident_char str = []"
    using assms(3) by (simp_all add: takeWhile_eq_all_conv list_all_iff)
  have "lex_try_ident str =
      Some (keyword_lookup (take 255 (takeWhile ident_char str)), takeWhile ident_char str, dropWhile ident_char str)"
    using assms(2) str by (auto simp: lex_try_ident_def Let_def simp del: takeWhile.simps dropWhile.simps)
  then show ?thesis unfolding run assms(4) by (simp add: wf_tok_def)
qed

lemma lex_string_print:
  "length (buf @ str) \<le> 4095 \<Longrightarrow>
   lex_string_loop CHR 0x22 buf
     (concat (map (\<lambda>c. if c = CHR 0x22 \<or> c = CHR 0x5C then [CHR 0x5C, c] else [c]) str) @ CHR 0x22 # r)
   = (buf @ str, CHR 0x22 # r)"
  by (induction str arbitrary: buf) (auto simp: lex_put_def lex_unescape_def)

lemma lex_turn_string:
  assumes "length str \<le> 4095"
  shows "lex_turn i (tok_print (TOK_STRING, str) @ CHR '' '' # r) =
    (Some \<lparr>tok_type = TOK_STRING, tok_text = str, tok_pos = i\<rparr>, CHR '' '' # r)"
  using assms lex_string_print [of "[]" str "CHR '' '' # r"]
  by (simp add: lex_turn_def tok_print_def lex_skip_whitespace_comments_def lex_string_literal_def
      isspace_def byte_def)

lemma lex_number_loop_app:
  "lex_number_loop str = (str, []) \<Longrightarrow> lex_number_loop (str @ CHR '' '' # r) = (str, CHR '' '' # r)"
  by (induction str) (auto simp: isdigit_def byte_def split: if_splits prod.splits)

lemma lex_turn_number:
  assumes "lex_try_number str = Some (str, [])"
  shows "lex_turn i (str @ CHR '' '' # r) = (Some \<lparr>tok_type = TOK_NUMBER, tok_text = str, tok_pos = i\<rparr>, CHR '' '' # r)"
proof -
  obtain c cs where str: "str = c # cs" using lex_number_SomeD [OF assms] by (cases str) auto
  have loop: "lex_number_loop (str @ CHR '' '' # r) = (str, CHR '' '' # r)"
    using assms str lex_number_loop_app [of str]
    by (simp add: lex_try_number_def del: lex_number_loop.simps split: if_splits)
  have c: "isdigit c \<or> (c = CHR ''.'' \<and> cs \<noteq> [] \<and> isdigit (hd cs))"
    using assms str by (simp add: lex_try_number_def split: if_splits)
  then have tried: "lex_try_number (str @ CHR '' '' # r) = Some (str, CHR '' '' # r)"
    using loop str by (auto simp: lex_try_number_def simp del: lex_number_loop.simps)
  have "lex_skip_whitespace_comments (str @ CHR '' '' # r) = None" "c \<noteq> CHR 0x22" "c \<noteq> CHR 0x27"
    using c str by (auto simp: lex_skip_whitespace_comments_def isdigit_def isspace_def byte_def)
  with tried str show ?thesis by (simp add: lex_turn_def)
qed

lemma lex_skip_word:
  "\<not> isspace c \<Longrightarrow> c \<noteq> CHR ''/'' \<Longrightarrow> c \<noteq> CHR ''-'' \<Longrightarrow> lex_skip_whitespace_comments (c # cs) = None"
  by (simp add: lex_skip_whitespace_comments_def)

lemma lex_turn_ident:
  assumes "lex_try_ident str = Some (type, str, [])"
  shows "lex_turn i (str @ CHR '' '' # r) = (Some \<lparr>tok_type = type, tok_text = str, tok_pos = i\<rparr>, CHR '' '' # r)"
proof -
  obtain c cs where str: "str = c # cs" using lex_ident_SomeD [OF assms] by (cases str) auto
  have c: "isalpha c \<or> c = CHR ''_''" and type: "type = keyword_lookup (take 255 str)"
    and all: "\<forall>x\<in>set str. ident_char x"
  proof -
    have tw: "takeWhile ident_char str = str" and rest: "isalpha c \<or> c = CHR ''_''"
      "type = keyword_lookup (take 255 (takeWhile ident_char str))"
      using assms unfolding str lex_try_ident_def
      by (simp_all add: Let_def del: takeWhile.simps dropWhile.simps split: if_splits)
    show "isalpha c \<or> c = CHR ''_''" "type = keyword_lookup (take 255 str)" "\<forall>x\<in>set str. ident_char x"
      using rest [unfolded tw] tw takeWhile_eq_all_conv [of ident_char str] by blast+
  qed
  have sp: "\<not> ident_char CHR '' ''" by (simp add: ident_char_def char_class byte_def)
  have tw: "takeWhile ident_char (str @ CHR '' '' # r) = str" "dropWhile ident_char (str @ CHR '' '' # r) = CHR '' '' # r"
    using all sp by (simp_all add: takeWhile_append2 dropWhile_append2)
  then have tried: "lex_try_ident (str @ CHR '' '' # r) = Some (type, str, CHR '' '' # r)"
    using str c type by (simp add: lex_try_ident_def Let_def del: takeWhile.simps dropWhile.simps)
  have num: "lex_try_number (str @ CHR '' '' # r) = None"
    using c by (auto simp: str lex_try_number_def char_class byte_def)
  have skip: "lex_skip_whitespace_comments (str @ CHR '' '' # r) = None" "c \<noteq> CHR 0x22" "c \<noteq> CHR 0x27"
    using c by (auto simp: str lex_skip_whitespace_comments_def char_class byte_def)
  then show ?thesis using tried num str by (simp add: lex_turn_def)
qed

lemma lex_turn_two_char:
  assumes "lex_try_two_char str = Some (type, str)"
  shows "lex_turn i (str @ CHR '' '' # r) = (Some \<lparr>tok_type = type, tok_text = str, tok_pos = i\<rparr>, CHR '' '' # r)"
proof -
  have "(type, str) \<in> {(TOK_NEQ, ''!=''), (TOK_NEQ, ''<>''), (TOK_EQTILDE, ''=~''), (TOK_GTE, ''>=''),
      (TOK_LTE, ''<=''), (TOK_DOTDOT, ''..'')}"
    using assms
    by (auto simp: lex_try_two_char_def lex_pairs_def split: list.splits option.splits if_splits)
  then show ?thesis
    by (auto simp: lex_turn_def lex_try_two_char_def lex_pairs_def lex_skip_word lex_try_number_def
        lex_try_ident_def char_class byte_def Let_def)
qed

lemma lex_turn_single_char:
  assumes "lex_single_char c = type" "type \<noteq> TOK_EOF"
  shows "lex_turn i (c # CHR '' '' # r) = (Some \<lparr>tok_type = type, tok_text = [c], tok_pos = i\<rparr>, CHR '' '' # r)"
proof -
  have c: "c \<in> set ''()[]-><:.{}*,=|''" using assms by (simp add: lex_single_char_def split: if_splits)
  have "lex_skip_whitespace_comments (c # CHR '' '' # r) = None" "c \<noteq> CHR 0x22 \<and> c \<noteq> CHR 0x27"
    using c by (auto simp: lex_skip_whitespace_comments_def isspace_def byte_def)
  moreover have "\<not> isdigit c" "\<not> isalpha c \<and> c \<noteq> CHR ''_''" "\<not> isdigit CHR '' ''"
    using c by (auto simp: char_class byte_def)
  moreover have "lex_try_two_char (c # CHR '' '' # r) = None"
    by (simp add: lex_try_two_char_def lex_pairs_def)
  ultimately show ?thesis using assms by (simp add: lex_turn_def lex_try_number_def lex_try_ident_def)
qed

lemma lex_turn_print:
  assumes "wf_tok (type, str)"
  shows "lex_turn i (tok_print (type, str) @ CHR '' '' # r) =
    (Some \<lparr>tok_type = type, tok_text = str, tok_pos = i\<rparr>, CHR '' '' # r)"
proof (cases "type = TOK_STRING")
  case True
  then have "length str \<le> 4095"
    using assms lex_ident_SomeD [of str TOK_STRING str "[]"] lex_two_char_spelled [of str TOK_STRING str]
    by (auto simp: wf_tok_def lex_single_char_def split: if_splits)
  then show ?thesis using True lex_turn_string by simp
next
  case False
  then have p: "tok_print (type, str) = str" by (simp add: tok_print_def)
  consider "type = TOK_NUMBER" "lex_try_number str = Some (str, [])" | "lex_try_ident str = Some (type, str, [])"
    | "lex_try_two_char str = Some (type, str)" | "str = [hd str]" "type \<noteq> TOK_EOF" "lex_single_char (hd str) = type"
    using assms False by (auto simp: wf_tok_def length_Suc_conv)
  then show ?thesis
  proof cases
    case 4
    with lex_turn_single_char [of "hd str" type i r] show ?thesis unfolding p by (metis append_Cons append_Nil)
  qed (unfold p, simp_all add: lex_turn_number lex_turn_ident lex_turn_two_char)
qed

lemma lex_loop_print:
  "list_all wf_tok ts \<Longrightarrow>
   map (\<lambda>t. (tok_type t, tok_text t)) (lex_loop i (tokens_print ts)) = ts @ [(TOK_EOF, [])]"
proof (induction ts arbitrary: i)
  case Nil
  show ?case by (simp add: tokens_print_def lex_loop.simps lex_push_def)
next
  case (Cons t ts)
  obtain type str where t: "t = (type, str)" by fastforce
  let ?rest = "tokens_print ts"
  have e: "tokens_print (t # ts) = tok_print t @ CHR '' '' # ?rest" by (simp add: tokens_print_def)
  have sp: "lex_loop j (CHR '' '' # ?rest) = lex_loop (Suc j) ?rest" for j
    by (subst lex_loop.simps) (simp add: lex_turn_def lex_skip_whitespace_comments_def char_class byte_def)
  show ?case
    using Cons lex_turn_print [of type str i ?rest]
    unfolding e by (subst lex_loop.simps) (simp add: t sp)
qed

text \<open>
  Lexing undoes printing: a list of tokens, printed with a space after each token and string
  literals quoted and escaped, is lexed to the same types and texts followed by the end of
  input. Well-formed tokens are string literals that fit the 4096 byte buffer, numbers,
  identifiers and keywords, and the symbols.
\<close>

theorem lex_print_roundtrip:
  assumes "list_all wf_tok ts"
  shows "map_option (map (\<lambda>t. (tok_type t, tok_text t))) (cbm_lex (Some (tokens_print ts))) =
    Some (ts @ [(TOK_EOF, [])])"
  using lex_loop_print [OF assms] by (simp add: cbm_lex_def)

theorem lex_print_roundtrip_witness:
  "map_option (map (\<lambda>t. (tok_type t, tok_text t)))
     (cbm_lex (Some (tokens_print
       [(TOK_MATCH, ''match''), (TOK_LPAREN, ''(''), (TOK_STRING, [CHR 0x22, CHR 0x5C]),
        (TOK_GTE, ''>=''), (TOK_NUMBER, ''1.5'')]))) =
   Some ([(TOK_MATCH, ''match''), (TOK_LPAREN, ''(''), (TOK_STRING, [CHR 0x22, CHR 0x5C]),
        (TOK_GTE, ''>=''), (TOK_NUMBER, ''1.5'')] @ [(TOK_EOF, [])])"
  by (rule lex_print_roundtrip) code_simp

end
