(* ===== verification/CypherParser.thy ===== *)
theory CypherParser
  imports CypherLexer
begin

text \<open>
  The recursive descent parser of \<open>cypher/cypher.c\<close> and the syntax tree of
  \<open>cypher/cypher.h\<close>. The parser state is the token array, the cursor and the error slot. A
  parsing function returns \<open>None\<close> in its first component where the C function returns \<open>-1\<close> or
  \<open>NULL\<close>, and the new state in the second.

  Every loop of the parser ends on a token array that ends with the end-of-input token; on
  another array it may run forever, because \<open>advance\<close> stays on the last token. The functions
  with a loop below therefore take fuel, and \<open>None\<close> as a whole result says it ran out.

  The formatted text of an error message is kept as a constructor with its arguments. The
  write that may leave the buffer of \<open>parse_unwind_clause\<close> sets the mark \<open>poob\<close>, which the C
  state does not have. Heap allocation is taken to succeed.
\<close>

section \<open>Syntax tree\<close>

record cbm_prop_filter_t =
  pf_key :: string
  pf_value :: string

record cbm_node_pattern_t =
  n_variable :: cstr
  n_label :: cstr
  n_props :: "cbm_prop_filter_t list"

record cbm_rel_pattern_t =
  r_variable :: cstr
  r_types :: "string list"
  r_direction :: cstr
  r_min_hops :: int
  r_max_hops :: int

record cbm_pattern_t =
  pat_nodes :: "cbm_node_pattern_t list"
  pat_rels :: "cbm_rel_pattern_t list"

record cbm_condition_t =
  c_variable :: cstr
  c_property :: cstr
  c_op :: cstr
  c_value :: cstr
  c_negated :: bool
  c_in_values :: "string list"
  c_exists_dir :: int

datatype cbm_expr_t =
    EXPR_CONDITION cbm_condition_t
  | EXPR_AND cbm_expr_t cbm_expr_t
  | EXPR_OR cbm_expr_t cbm_expr_t
  | EXPR_NOT cbm_expr_t
  | EXPR_XOR cbm_expr_t cbm_expr_t

record cbm_where_clause_t =
  \<comment> \<open>the fields of the older flat form are never set by the parser\<close>
  w_root :: "cbm_expr_t option"

record cbm_case_branch_t =
  cb_when_expr :: "cbm_expr_t option"
  cb_then_val :: cstr

record cbm_case_expr_t =
  ce_branches :: "cbm_case_branch_t list"
  ce_else_val :: cstr

record cbm_func_arg_t =
  fa_variable :: cstr
  fa_property :: cstr
  fa_literal :: cstr

record cbm_return_item_t =
  ri_variable :: cstr
  ri_property :: cstr
  ri_alias :: cstr
  ri_func :: cstr
  ri_distinct :: bool
  ri_kase :: "cbm_case_expr_t option"
  ri_args :: "cbm_func_arg_t list"

record cbm_return_clause_t =
  rc_items :: "cbm_return_item_t list"
  rc_distinct :: bool
  rc_star :: bool
  rc_order_by :: cstr
  rc_order_dir :: cstr
  rc_skip :: int
  rc_limit :: int

datatype cbm_query_t = cbm_query
  (q_patterns: "cbm_pattern_t list")
  (q_pattern_optional: "bool list")
  (q_where: "cbm_where_clause_t option")
  (q_with_clause: "cbm_return_clause_t option")
  (q_post_with_where: "cbm_where_clause_t option")
  (q_ret: "cbm_return_clause_t option")
  (q_union_next: "cbm_query_t option")
  (q_union_all: bool)
  (q_unwind_expr: cstr)
  (q_unwind_alias: cstr)

section \<open>Parser state\<close>

datatype parse_error =
    NoError
  | ExpectedToken cbm_token_type_t cbm_token_type_t nat
  | ExpectedBrace nat
  | UnsupportedExists
  | UnexpectedOperator nat
  | ExpectedValue nat
  | UnsupportedFunction string
  | UnsupportedIndexing
  | ErrorText string

record parser_t =
  ptokens :: "cbm_token_t list"
  ppos :: nat
  perror :: parse_error
  poob :: bool

type_synonym 'a pres = "('a option \<times> parser_t) option"

definition peek :: "parser_t \<Rightarrow> cbm_token_t" where
  "peek p = (if ppos p \<ge> length (ptokens p) then ptokens p ! (length (ptokens p) - 1)
             else ptokens p ! ppos p)"

definition advance :: "parser_t \<Rightarrow> cbm_token_t \<times> parser_t" where
  "advance p = (if ppos p \<ge> length (ptokens p) then (ptokens p ! (length (ptokens p) - 1), p)
                else (ptokens p ! ppos p, p\<lparr>ppos := ppos p + 1\<rparr>))"

definition check :: "parser_t \<Rightarrow> cbm_token_type_t \<Rightarrow> bool" where
  "check p type \<longleftrightarrow> tok_type (peek p) = type"

definition match :: "parser_t \<Rightarrow> cbm_token_type_t \<Rightarrow> bool \<times> parser_t" where
  "match p type = (if check p type then (True, snd (advance p)) else (False, p))"

definition set_error :: "parser_t \<Rightarrow> parse_error \<Rightarrow> parser_t" where
  "set_error p e = p\<lparr>perror := e\<rparr>"

definition expect :: "parser_t \<Rightarrow> cbm_token_type_t \<Rightarrow> cbm_token_t option \<times> parser_t" where
  "expect p type =
     (if check p type then (case advance p of (t, p') \<Rightarrow> (Some t, p'))
      else (None, set_error p (ExpectedToken type (tok_type (peek p)) (tok_pos (peek p)))))"

text \<open>
  The two early returns of the parser: a missing token, and a failed call.
\<close>

definition need :: "cbm_token_t option \<times> parser_t \<Rightarrow> (cbm_token_t \<Rightarrow> parser_t \<Rightarrow> 'a pres) \<Rightarrow> 'a pres" where
  "need r k = (case r of (None, p) \<Rightarrow> Some (None, p) | (Some t, p) \<Rightarrow> k t p)"

definition call :: "'a pres \<Rightarrow> ('a \<Rightarrow> parser_t \<Rightarrow> 'b pres) \<Rightarrow> 'b pres" where
  "call r k = (case r of None \<Rightarrow> None | Some (None, p) \<Rightarrow> Some (None, p) | Some (Some x, p) \<Rightarrow> k x p)"

definition call_opt :: "'a pres \<Rightarrow> ('a option \<Rightarrow> parser_t \<Rightarrow> 'b pres) \<Rightarrow> 'b pres" where
  \<comment> \<open>a call whose failure the caller does not test\<close>
  "call_opt r k = (case r of None \<Rightarrow> None | Some (x, p) \<Rightarrow> k x p)"

definition skip_tok :: "parser_t \<Rightarrow> parser_t" where
  "skip_tok p = snd (advance p)"

definition opt_text :: "cbm_token_t option \<Rightarrow> cstr" where
  "opt_text t = map_option tok_text t"

section \<open>Node and relationship patterns\<close>

fun parse_props_loop :: "nat \<Rightarrow> parser_t \<Rightarrow> cbm_prop_filter_t list \<Rightarrow> cbm_prop_filter_t list pres" where
  "parse_props_loop 0 p arr = None"
| "parse_props_loop (Suc n) p arr =
     (if \<not> check p TOK_RBRACE \<and> \<not> check p TOK_EOF
      then need (expect p TOK_IDENT) (\<lambda>key p.
           need (expect p TOK_COLON) (\<lambda>_ p.
           need (expect p TOK_STRING) (\<lambda>val p.
             parse_props_loop n (snd (match p TOK_COMMA))
               (arr @ [\<lparr>pf_key = tok_text key, pf_value = tok_text val\<rparr>]))))
      else Some (Some arr, snd (expect p TOK_RBRACE)))"

definition parse_props :: "nat \<Rightarrow> parser_t \<Rightarrow> cbm_prop_filter_t list pres" where
  "parse_props n p =
     (case match p TOK_LBRACE of (False, p) \<Rightarrow> Some (Some [], p) | (True, p) \<Rightarrow> parse_props_loop n p [])"

fun parse_label_loop :: "nat \<Rightarrow> parser_t \<Rightarrow> string \<Rightarrow> string pres" where
  \<comment> \<open>\<open>str\<close> is the text of length \<open>ll\<close> the code formats; the buffer keeps its first 255 bytes\<close>
  "parse_label_loop 0 p str = None"
| "parse_label_loop (Suc n) p str =
     (case match p TOK_PIPE of
        (False, p) \<Rightarrow> Some (Some (take 255 str), p)
      | (True, p) \<Rightarrow>
          need (expect p TOK_IDENT) (\<lambda>alt p.
            let str' = str @ CHR ''|'' # tok_text alt
            in if length str' \<ge> 256 then Some (Some (take 255 str'), p)
               else parse_label_loop n p str'))"

definition parse_label :: "nat \<Rightarrow> parser_t \<Rightarrow> cstr pres" where
  "parse_label n p =
     (case match p TOK_COLON of
        (False, p) \<Rightarrow> Some (Some None, p)
      | (True, p) \<Rightarrow>
          need (expect p TOK_IDENT) (\<lambda>label p.
            call (parse_label_loop n p (tok_text label)) (\<lambda>l p. Some (Some (Some l), p))))"

definition opt_ident :: "parser_t \<Rightarrow> cstr \<times> parser_t" where
  \<comment> \<open>the optional variable of a node or relationship\<close>
  "opt_ident p =
     (if check p TOK_IDENT then (case advance p of (t, p') \<Rightarrow> (Some (tok_text t), p')) else (None, p))"

definition parse_node :: "nat \<Rightarrow> parser_t \<Rightarrow> cbm_node_pattern_t pres" where
  "parse_node n p =
     need (expect p TOK_LPAREN) (\<lambda>_ p.
       case opt_ident p of (var, p) \<Rightarrow>
         call (parse_label n p) (\<lambda>label p.
         call (if check p TOK_LBRACE then parse_props n p else Some (Some [], p)) (\<lambda>props p.
         need (expect p TOK_RPAREN) (\<lambda>_ p.
           Some (Some \<lparr>n_variable = var, n_label = label, n_props = props\<rparr>, p)))))"

definition parse_number :: "cbm_token_t \<Rightarrow> int" where
  "parse_number t = to_int32 (strtol (tok_text t))"

definition hop_bound :: "parser_t \<Rightarrow> int \<times> parser_t" where
  "hop_bound p =
     (if check p TOK_NUMBER then (case advance p of (t, p') \<Rightarrow> (parse_number t, p')) else (0, p))"

definition parse_hop_range :: "parser_t \<Rightarrow> int \<times> int \<times> parser_t" where
  "parse_hop_range p =
     (if check p TOK_NUMBER
      then (let val = parse_number (peek p); p = skip_tok p in
            case match p TOK_DOTDOT of
              (True, p) \<Rightarrow> (case hop_bound p of (mx, p) \<Rightarrow> (val, mx, p))
            | (False, p) \<Rightarrow> (1, val, p))
      else case match p TOK_DOTDOT of
             (True, p) \<Rightarrow> (case hop_bound p of (mx, p) \<Rightarrow> (1, mx, p))
           | (False, p) \<Rightarrow> (1, 0, p))"

fun parse_rel_types_loop :: "nat \<Rightarrow> parser_t \<Rightarrow> string list \<Rightarrow> string list pres" where
  "parse_rel_types_loop 0 p types = None"
| "parse_rel_types_loop (Suc n) p types =
     (case match p TOK_PIPE of
        (False, p) \<Rightarrow> Some (Some types, p)
      | (True, p) \<Rightarrow>
          need (expect p TOK_IDENT) (\<lambda>t p. parse_rel_types_loop n p (types @ [tok_text t])))"

definition parse_rel_types :: "nat \<Rightarrow> parser_t \<Rightarrow> string list pres" where
  "parse_rel_types n p =
     need (expect p TOK_IDENT) (\<lambda>t p. parse_rel_types_loop n p [tok_text t])"

definition parse_rel_bracket :: "nat \<Rightarrow> parser_t \<Rightarrow> cbm_rel_pattern_t \<Rightarrow> cbm_rel_pattern_t pres" where
  "parse_rel_bracket n p out =
     (case (if check p TOK_IDENT \<and> \<not> check p TOK_COLON
            then (case advance p of (t, p') \<Rightarrow> (out\<lparr>r_variable := Some (tok_text t)\<rparr>, p')) else (out, p))
      of (out, p) \<Rightarrow>
        call (case match p TOK_COLON of
                (False, p) \<Rightarrow> Some (Some out, p)
              | (True, p) \<Rightarrow> call (parse_rel_types n p) (\<lambda>ts p. Some (Some (out\<lparr>r_types := ts\<rparr>), p)))
          (\<lambda>out p.
            case (case match p TOK_STAR of
                    (False, p) \<Rightarrow> (out, p)
                  | (True, p) \<Rightarrow> (case parse_hop_range p of
                       (mn, mx, p) \<Rightarrow> (out\<lparr>r_min_hops := mn, r_max_hops := mx\<rparr>, p)))
            of (out, p) \<Rightarrow> need (expect p TOK_RBRACKET) (\<lambda>_ p. Some (Some out, p))))"

definition rel_direction :: "bool \<Rightarrow> bool \<Rightarrow> string" where
  "rel_direction leading_lt trailing_gt =
     (if leading_lt \<and> \<not> trailing_gt then ''inbound''
      else if \<not> leading_lt \<and> trailing_gt then ''outbound'' else ''any'')"

definition parse_rel :: "nat \<Rightarrow> parser_t \<Rightarrow> cbm_rel_pattern_t pres" where
  "parse_rel n p =
     (case match p TOK_LT of (leading_lt, p) \<Rightarrow>
        need (expect p TOK_DASH) (\<lambda>_ p.
        call (let out = \<lparr>r_variable = None, r_types = [], r_direction = None, r_min_hops = 1, r_max_hops = 1\<rparr>
              in case match p TOK_LBRACKET of
                   (False, p) \<Rightarrow> Some (Some out, p)
                 | (True, p) \<Rightarrow> parse_rel_bracket n p out) (\<lambda>out p.
        need (expect p TOK_DASH) (\<lambda>_ p.
        case match p TOK_GT of (trailing_gt, p) \<Rightarrow>
          Some (Some (out\<lparr>r_direction := Some (rel_direction leading_lt trailing_gt)\<rparr>), p)))))"

section \<open>Conditions\<close>

definition unsupported_clause_error :: "cbm_token_type_t \<Rightarrow> cstr" where
  "unsupported_clause_error type =
     (if type = TOK_CREATE then Some ''unsupported Cypher feature: CREATE clause (write operations not supported)''
      else if type = TOK_DELETE then Some ''unsupported Cypher feature: DELETE clause (write operations not supported)''
      else if type = TOK_DETACH then Some ''unsupported Cypher feature: DETACH DELETE (write operations not supported)''
      else if type = TOK_SET then Some ''unsupported Cypher feature: SET clause (write operations not supported)''
      else if type = TOK_REMOVE then Some ''unsupported Cypher feature: REMOVE clause (write operations not supported)''
      else if type = TOK_MERGE then Some ''unsupported Cypher feature: MERGE clause (write operations not supported)''
      else if type = TOK_YIELD then Some ''unsupported Cypher feature: YIELD clause''
      else if type = TOK_CALL then Some ''unsupported Cypher feature: CALL clause (stored procedures not supported)''
      else if type = TOK_FOREACH then Some ''unsupported Cypher feature: FOREACH clause''
      else if type = TOK_MANDATORY then Some ''unsupported Cypher feature: MANDATORY MATCH''
      else if type = TOK_DROP then Some ''unsupported Cypher feature: DROP (schema operations not supported)''
      else if type = TOK_CONSTRAINT then Some ''unsupported Cypher feature: CONSTRAINT (schema operations not supported)''
      else None)"

definition zero_condition :: cbm_condition_t where
  "zero_condition = \<lparr>c_variable = None, c_property = None, c_op = None, c_value = None,
     c_negated = False, c_in_values = [], c_exists_dir = 0\<rparr>"

definition expr_leaf :: "cbm_condition_t \<Rightarrow> cbm_expr_t" where
  "expr_leaf c = EXPR_CONDITION c"

fun parse_in_loop :: "nat \<Rightarrow> parser_t \<Rightarrow> string list \<Rightarrow> string list pres" where
  "parse_in_loop 0 p vals = None"
| "parse_in_loop (Suc n) p vals =
     (if \<not> check p TOK_RBRACKET \<and> \<not> check p TOK_EOF
      then (let p = (if vals \<noteq> [] then snd (match p TOK_COMMA) else p) in
            if check p TOK_STRING \<or> check p TOK_NUMBER
            then (case advance p of (t, p) \<Rightarrow> parse_in_loop n p (vals @ [tok_text t]))
            else Some (Some vals, p))
      else Some (Some vals, p))"

definition parse_in_list :: "nat \<Rightarrow> parser_t \<Rightarrow> cbm_condition_t \<Rightarrow> cbm_expr_t pres" where
  "parse_in_list n p c =
     (let p = skip_tok p; c = c\<lparr>c_op := Some ''IN''\<rparr> in
      need (expect p TOK_LBRACKET) (\<lambda>_ p.
      call (parse_in_loop n p []) (\<lambda>vals p.
        Some (Some (expr_leaf (c\<lparr>c_in_values := vals\<rparr>)), snd (expect p TOK_RBRACKET)))))"

definition simple_ops :: "(cbm_token_type_t \<times> string) list" where
  "simple_ops = [(TOK_EQ, ''=''), (TOK_NEQ, ''<>''), (TOK_EQTILDE, ''=~''), (TOK_GTE, ''>=''),
     (TOK_LTE, ''<=''), (TOK_GT, ''>''), (TOK_LT, ''<''), (TOK_CONTAINS, ''CONTAINS'')]"

definition parse_comparison_op :: "parser_t \<Rightarrow> cstr \<times> parser_t" where
  "parse_comparison_op p =
     (case find (\<lambda>(type, _). check p type) simple_ops of
        Some (_, op) \<Rightarrow> (Some op, skip_tok p)
      | None \<Rightarrow>
          (if check p TOK_STARTS then (Some ''STARTS WITH'', snd (expect (skip_tok p) TOK_WITH))
           else if check p TOK_ENDS then (Some ''ENDS WITH'', snd (expect (skip_tok p) TOK_WITH))
           else (None, p)))"

definition or_error :: "'a pres \<Rightarrow> parse_error \<Rightarrow> 'a pres" where
  \<comment> \<open>a failed call that is reported with a message of its own\<close>
  "or_error r e = (case r of Some (None, p) \<Rightarrow> Some (None, set_error p e) | _ \<Rightarrow> r)"

definition exists_dir_of :: "cstr \<Rightarrow> int" where
  "exists_dir_of d = (if d = Some ''inbound'' then 1 else if d = Some ''any'' then 2 else 0)"

definition parse_exists_predicate :: "nat \<Rightarrow> parser_t \<Rightarrow> bool \<Rightarrow> cbm_expr_t pres" where
  "parse_exists_predicate n p negated =
     (let p = skip_tok p in
      case match p TOK_LBRACE of
        (False, p) \<Rightarrow> Some (None, set_error p (ExpectedBrace (tok_pos (peek p))))
      | (True, p) \<Rightarrow>
          call (or_error
                 (call (parse_node n p) (\<lambda>anchor p.
                  call (parse_rel n p) (\<lambda>rel p.
                  call (parse_node n p) (\<lambda>far p. Some (Some (anchor, rel), p)))))
                 UnsupportedExists)
            (\<lambda>(anchor, rel) p.
              Some (Some (expr_leaf (zero_condition\<lparr>c_negated := negated, c_op := Some ''EXISTS'',
                c_variable := Some (case n_variable anchor of None \<Rightarrow> [] | Some v \<Rightarrow> v),
                c_value := (case r_types rel of [] \<Rightarrow> None | t # _ \<Rightarrow> Some t),
                c_exists_dir := exists_dir_of (r_direction rel)\<rparr>)), snd (expect p TOK_RBRACE))))"

definition parse_condition_value :: "parser_t \<Rightarrow> cbm_condition_t \<Rightarrow> cbm_expr_t pres" where
  "parse_condition_value p c =
     (if check p TOK_STRING \<or> check p TOK_NUMBER
      then (case advance p of (t, p) \<Rightarrow> Some (Some (expr_leaf (c\<lparr>c_value := Some (tok_text t)\<rparr>)), p))
      else if check p TOK_TRUE
      then Some (Some (expr_leaf (c\<lparr>c_value := Some ''true''\<rparr>)), skip_tok p)
      else if check p TOK_FALSE
      then Some (Some (expr_leaf (c\<lparr>c_value := Some ''false''\<rparr>)), skip_tok p)
      else Some (None, set_error p (ExpectedValue (tok_pos (peek p)))))"

definition parse_condition_tail :: "nat \<Rightarrow> parser_t \<Rightarrow> cbm_condition_t \<Rightarrow> cbm_expr_t pres" where
  \<comment> \<open>what follows the variable and property: \<open>IS\<close>, \<open>IN\<close>, or an operator and a value\<close>
  "parse_condition_tail n p c =
     (if check p TOK_IS
      then (case match (skip_tok p) TOK_NOT of
              (True, p) \<Rightarrow>
                Some (Some (expr_leaf (c\<lparr>c_op := Some ''IS NOT NULL''\<rparr>)), snd (expect p TOK_NULL_KW))
            | (False, p) \<Rightarrow>
                Some (Some (expr_leaf (c\<lparr>c_op := Some ''IS NULL''\<rparr>)), snd (expect p TOK_NULL_KW)))
      else if check p TOK_IN then parse_in_list n p c
      else case parse_comparison_op p of
             (None, p) \<Rightarrow> Some (None, set_error p (UnexpectedOperator (tok_pos (peek p))))
           | (Some op, p) \<Rightarrow> parse_condition_value p (c\<lparr>c_op := Some op\<rparr>))"

definition parse_condition_expr :: "nat \<Rightarrow> parser_t \<Rightarrow> cbm_expr_t pres" where
  "parse_condition_expr n p =
     (case match p TOK_NOT of (negated, p) \<Rightarrow>
        if check p TOK_EXISTS then parse_exists_predicate n p negated
        else need (expect p TOK_IDENT) (\<lambda>var p.
          let c = zero_condition\<lparr>c_negated := negated, c_variable := Some (tok_text var)\<rparr> in
          if check p TOK_COLON
          then need (expect (skip_tok p) TOK_IDENT) (\<lambda>lbl p.
                 Some (Some (expr_leaf (c\<lparr>c_op := Some ''HAS_LABEL'', c_value := Some (tok_text lbl)\<rparr>)), p))
          else case match p TOK_DOT of
                 (True, p) \<Rightarrow>
                   need (expect p TOK_IDENT) (\<lambda>prop p.
                     parse_condition_tail n p (c\<lparr>c_property := Some (tok_text prop)\<rparr>))
               | (False, p) \<Rightarrow> parse_condition_tail n p c))"

section \<open>Boolean expressions\<close>

fun parse_or_expr :: "nat \<Rightarrow> parser_t \<Rightarrow> cbm_expr_t pres"
and parse_or_loop :: "nat \<Rightarrow> cbm_expr_t \<Rightarrow> parser_t \<Rightarrow> cbm_expr_t pres"
and parse_xor_expr :: "nat \<Rightarrow> parser_t \<Rightarrow> cbm_expr_t pres"
and parse_xor_loop :: "nat \<Rightarrow> cbm_expr_t \<Rightarrow> parser_t \<Rightarrow> cbm_expr_t pres"
and parse_and_expr :: "nat \<Rightarrow> parser_t \<Rightarrow> cbm_expr_t pres"
and parse_and_loop :: "nat \<Rightarrow> cbm_expr_t \<Rightarrow> parser_t \<Rightarrow> cbm_expr_t pres"
and parse_not_expr :: "nat \<Rightarrow> parser_t \<Rightarrow> cbm_expr_t pres"
and parse_atom_expr :: "nat \<Rightarrow> parser_t \<Rightarrow> cbm_expr_t pres" where
  "parse_or_expr 0 p = None"
| "parse_or_expr (Suc n) p = call (parse_xor_expr n p) (\<lambda>left p. parse_or_loop n left p)"
| "parse_or_loop 0 left p = None"
| "parse_or_loop (Suc n) left p =
     (if check p TOK_OR
      then call (parse_xor_expr n (skip_tok p)) (\<lambda>right p. parse_or_loop n (EXPR_OR left right) p)
      else Some (Some left, p))"
| "parse_xor_expr 0 p = None"
| "parse_xor_expr (Suc n) p = call (parse_and_expr n p) (\<lambda>left p. parse_xor_loop n left p)"
| "parse_xor_loop 0 left p = None"
| "parse_xor_loop (Suc n) left p =
     (if check p TOK_XOR
      then call (parse_and_expr n (skip_tok p)) (\<lambda>right p. parse_xor_loop n (EXPR_XOR left right) p)
      else Some (Some left, p))"
| "parse_and_expr 0 p = None"
| "parse_and_expr (Suc n) p = call (parse_not_expr n p) (\<lambda>left p. parse_and_loop n left p)"
| "parse_and_loop 0 left p = None"
| "parse_and_loop (Suc n) left p =
     (if check p TOK_AND
      then call (parse_not_expr n (skip_tok p)) (\<lambda>right p. parse_and_loop n (EXPR_AND left right) p)
      else Some (Some left, p))"
| "parse_not_expr 0 p = None"
| "parse_not_expr (Suc n) p =
     (case match p TOK_NOT of
        (True, p) \<Rightarrow> call (parse_not_expr n p) (\<lambda>child p. Some (Some (EXPR_NOT child), p))
      | (False, p) \<Rightarrow> parse_atom_expr n p)"
| "parse_atom_expr 0 p = None"
| "parse_atom_expr (Suc n) p =
     (case match p TOK_LPAREN of
        (True, p) \<Rightarrow> call_opt (parse_or_expr n p) (\<lambda>e p. Some (e, snd (expect p TOK_RPAREN)))
      | (False, p) \<Rightarrow> parse_condition_expr n p)"

definition parse_where :: "nat \<Rightarrow> parser_t \<Rightarrow> cbm_where_clause_t option pres" where
  "parse_where n p =
     (case match p TOK_WHERE of
        (False, p) \<Rightarrow> Some (Some None, p)
      | (True, p) \<Rightarrow>
          call_opt (parse_or_expr n p) (\<lambda>root p.
            if root = None \<and> perror p \<noteq> NoError then Some (None, p)
            else Some (Some (Some \<lparr>w_root = root\<rparr>), p)))"

section \<open>Return items\<close>

definition is_aggregate_tok :: "cbm_token_type_t \<Rightarrow> bool" where
  "is_aggregate_tok t \<longleftrightarrow> t = TOK_COUNT \<or> t = TOK_SUM \<or> t = TOK_AVG \<or> t = TOK_MIN_KW \<or> t = TOK_MAX_KW \<or>
     t = TOK_COLLECT"

definition is_string_func_tok :: "cbm_token_type_t \<Rightarrow> bool" where
  "is_string_func_tok t \<longleftrightarrow> t = TOK_TOLOWER \<or> t = TOK_TOUPPER \<or> t = TOK_TOSTRING"

definition agg_func_name :: "cbm_token_type_t \<Rightarrow> string" where
  "agg_func_name t =
     (if t = TOK_COUNT then ''COUNT'' else if t = TOK_SUM then ''SUM'' else if t = TOK_AVG then ''AVG''
      else if t = TOK_MIN_KW then ''MIN'' else if t = TOK_MAX_KW then ''MAX''
      else if t = TOK_COLLECT then ''COLLECT'' else ''COUNT'')"

definition str_func_name :: "cbm_token_type_t \<Rightarrow> string" where
  "str_func_name t =
     (if t = TOK_TOLOWER then ''toLower'' else if t = TOK_TOUPPER then ''toUpper''
      else if t = TOK_TOSTRING then ''toString'' else [])"

definition dotted :: "string \<Rightarrow> string \<Rightarrow> string" where
  "dotted a b = a @ CHR ''.'' # b"

definition parse_value_literal :: "parser_t \<Rightarrow> cstr \<times> parser_t" where
  "parse_value_literal p =
     (if check p TOK_STRING \<or> check p TOK_NUMBER
      then (case advance p of (t, p) \<Rightarrow> (Some (tok_text t), p))
      else if check p TOK_IDENT
      then (case advance p of (v, p) \<Rightarrow>
              (case match p TOK_DOT of
                 (True, p) \<Rightarrow>
                   (case expect p TOK_IDENT of (pr, p) \<Rightarrow>
                      (Some (take 255 (dotted (tok_text v) (case pr of None \<Rightarrow> [] | Some t \<Rightarrow> tok_text t))), p))
               | (False, p) \<Rightarrow> (Some (take 255 (tok_text v)), p)))
      else if check p TOK_TRUE then (Some ''true'', skip_tok p)
      else if check p TOK_FALSE then (Some ''false'', skip_tok p)
      else (None, p))"

fun parse_case_loop :: "nat \<Rightarrow> parser_t \<Rightarrow> cbm_case_branch_t list \<Rightarrow> cbm_case_branch_t list pres" where
  "parse_case_loop 0 p bs = None"
| "parse_case_loop (Suc n) p bs =
     (if check p TOK_WHEN
      then call_opt (parse_or_expr n (skip_tok p)) (\<lambda>when p.
             case expect p TOK_THEN of
               (None, p) \<Rightarrow> Some (Some bs, p)
             | (Some _, p) \<Rightarrow>
                 (case parse_value_literal p of (then_val, p) \<Rightarrow>
                    parse_case_loop n p (bs @ [\<lparr>cb_when_expr = when, cb_then_val = then_val\<rparr>])))
      else Some (Some bs, p))"

definition parse_case_expr :: "nat \<Rightarrow> parser_t \<Rightarrow> cbm_case_expr_t pres" where
  "parse_case_expr n p =
     call (parse_case_loop n p []) (\<lambda>bs p.
       case (case match p TOK_ELSE of
               (True, p) \<Rightarrow> parse_value_literal p
             | (False, p) \<Rightarrow> (None, p))
       of (else_val, p) \<Rightarrow>
         Some (Some \<lparr>ce_branches = bs, ce_else_val = else_val\<rparr>, snd (expect p TOK_END)))"

definition cyp_ci_eq :: "cstr \<Rightarrow> cstr \<Rightarrow> bool" where
  "cyp_ci_eq a b =
     (case (a, b) of (Some s, Some t) \<Rightarrow> map tolower s = map tolower t | _ \<Rightarrow> False)"

definition scalar_func_canonical :: "cstr \<Rightarrow> cstr" where
  "scalar_func_canonical s = find (\<lambda>name. cyp_ci_eq s (Some name))
     [''labels'', ''type'', ''id'', ''keys'', ''properties'', ''toInteger'', ''toFloat'', ''toBoolean'',
      ''size'', ''length'', ''trim'', ''ltrim'', ''rtrim'', ''reverse'']"

definition multiarg_func_canonical :: "cstr \<Rightarrow> cstr" where
  "multiarg_func_canonical s = find (\<lambda>name. cyp_ci_eq s (Some name))
     [''coalesce'', ''substring'', ''replace'', ''left'', ''right'']"

definition zero_item :: cbm_return_item_t where
  "zero_item = \<lparr>ri_variable = None, ri_property = None, ri_alias = None, ri_func = None,
     ri_distinct = False, ri_kase = None, ri_args = []\<rparr>"

definition parse_var_dot_prop :: "parser_t \<Rightarrow> cbm_return_item_t \<Rightarrow> cbm_return_item_t pres" where
  "parse_var_dot_prop p item =
     need (expect p TOK_IDENT) (\<lambda>var p.
       let item = item\<lparr>ri_variable := Some (tok_text var)\<rparr> in
       case match p TOK_DOT of
         (True, p) \<Rightarrow>
           (case expect p TOK_IDENT of
              (Some prop, p) \<Rightarrow> Some (Some (item\<lparr>ri_property := Some (tok_text prop)\<rparr>), p)
            | (None, p) \<Rightarrow> Some (Some item, p))
       | (False, p) \<Rightarrow> Some (Some item, p))"

definition next_is_lparen :: "parser_t \<Rightarrow> bool" where
  "next_is_lparen p \<longleftrightarrow> check p TOK_IDENT \<and> ppos p + 1 < length (ptokens p) \<and>
     tok_type (ptokens p ! (ppos p + 1)) = TOK_LPAREN"

definition is_named_func_call :: "parser_t \<Rightarrow> bool" where
  "is_named_func_call p \<longleftrightarrow> next_is_lparen p \<and> scalar_func_canonical (Some (tok_text (peek p))) \<noteq> None"

definition is_multiarg_func_call :: "parser_t \<Rightarrow> bool" where
  "is_multiarg_func_call p \<longleftrightarrow> next_is_lparen p \<and> multiarg_func_canonical (Some (tok_text (peek p))) \<noteq> None"

definition parse_named_func_item :: "parser_t \<Rightarrow> cbm_return_item_t \<Rightarrow> cbm_return_item_t pres" where
  "parse_named_func_item p item =
     (let canon = scalar_func_canonical (Some (tok_text (peek p)));
          p = snd (expect (skip_tok p) TOK_LPAREN) in
      call (parse_var_dot_prop p item) (\<lambda>item p.
        Some (Some (item\<lparr>ri_func := canon\<rparr>), snd (expect p TOK_RPAREN))))"

definition parse_func_arg :: "parser_t \<Rightarrow> cbm_func_arg_t pres" where
  "parse_func_arg p =
     (if check p TOK_STRING \<or> check p TOK_NUMBER
      then Some (Some \<lparr>fa_variable = None, fa_property = None, fa_literal = Some (tok_text (peek p))\<rparr>,
             skip_tok p)
      else need (expect p TOK_IDENT) (\<lambda>var p.
        case match p TOK_DOT of
          (True, p) \<Rightarrow>
            (case expect p TOK_IDENT of (prop, p) \<Rightarrow>
               Some (Some \<lparr>fa_variable = Some (tok_text var), fa_property = opt_text prop, fa_literal = None\<rparr>, p))
        | (False, p) \<Rightarrow>
            Some (Some \<lparr>fa_variable = Some (tok_text var), fa_property = None, fa_literal = None\<rparr>, p)))"

fun parse_args_loop :: "nat \<Rightarrow> parser_t \<Rightarrow> cbm_func_arg_t list \<Rightarrow> cbm_func_arg_t list pres" where
  "parse_args_loop 0 p args = None"
| "parse_args_loop (Suc n) p args =
     (if \<not> check p TOK_RPAREN \<and> \<not> check p TOK_EOF
      then if args \<noteq> [] \<and> \<not> check p TOK_COMMA then Some (Some args, p)
           else (let p = (if args \<noteq> [] then snd (match p TOK_COMMA) else p) in
                 call (parse_func_arg p) (\<lambda>a p. parse_args_loop n p (args @ [a])))
      else Some (Some args, p))"

definition parse_multiarg_func_item :: "nat \<Rightarrow> parser_t \<Rightarrow> cbm_return_item_t \<Rightarrow> cbm_return_item_t pres" where
  "parse_multiarg_func_item n p item =
     (let canon = multiarg_func_canonical (Some (tok_text (peek p)));
          p = snd (expect (skip_tok p) TOK_LPAREN) in
      call (parse_args_loop n p []) (\<lambda>args p.
        let item = item\<lparr>ri_args := args, ri_func := canon\<rparr> in
        Some (Some (case args of
                      [] \<Rightarrow> item
                    | a # _ \<Rightarrow> (if fa_variable a = None then item
                               else if fa_property a = None then item\<lparr>ri_variable := fa_variable a\<rparr>
                               else item\<lparr>ri_variable := fa_variable a, ri_property := fa_property a\<rparr>)),
              snd (expect p TOK_RPAREN))))"

definition parse_aggregate_item :: "parser_t \<Rightarrow> cbm_return_item_t \<Rightarrow> cbm_return_item_t pres" where
  "parse_aggregate_item p item =
     (let ft = tok_type (peek p); p = snd (expect (skip_tok p) TOK_LPAREN) in
      case match p TOK_DISTINCT of (dist, p) \<Rightarrow>
        (let item = item\<lparr>ri_distinct := dist\<rparr> in
         call (case match p TOK_STAR of
                 (True, p) \<Rightarrow> Some (Some (item\<lparr>ri_variable := Some ''*''\<rparr>), p)
               | (False, p) \<Rightarrow> parse_var_dot_prop p item) (\<lambda>item p.
           Some (Some (item\<lparr>ri_func := Some (agg_func_name ft)\<rparr>), snd (expect p TOK_RPAREN)))))"

definition parse_string_func_item :: "parser_t \<Rightarrow> cbm_return_item_t \<Rightarrow> cbm_return_item_t pres" where
  "parse_string_func_item p item =
     (let ft = tok_type (peek p); p = snd (expect (skip_tok p) TOK_LPAREN) in
      call (parse_var_dot_prop p item) (\<lambda>item p.
        Some (Some (item\<lparr>ri_func := Some (str_func_name ft)\<rparr>), snd (expect p TOK_RPAREN))))"

definition parse_item_body :: "nat \<Rightarrow> parser_t \<Rightarrow> cbm_return_item_t \<Rightarrow> cbm_return_item_t pres" where
  \<comment> \<open>the branches of \<open>parse_return_item\<close>\<close>
  "parse_item_body n p item =
     (if check p TOK_CASE
      then call_opt (parse_case_expr n (skip_tok p)) (\<lambda>kase p.
             Some (Some (item\<lparr>ri_kase := kase, ri_variable := Some ''CASE''\<rparr>), p))
      else if is_aggregate_tok (tok_type (peek p)) then parse_aggregate_item p item
      else if is_string_func_tok (tok_type (peek p)) then parse_string_func_item p item
      else if is_multiarg_func_call p then parse_multiarg_func_item n p item
      else if is_named_func_call p then parse_named_func_item p item
      else parse_var_dot_prop p item)"

definition parse_return_item :: "nat \<Rightarrow> parser_t \<Rightarrow> cbm_return_item_t pres" where
  "parse_return_item n p =
     call (parse_item_body n p zero_item) (\<lambda>item p.
       if ri_func item = None \<and> ri_kase item = None \<and> (check p TOK_LPAREN \<or> check p TOK_LBRACKET)
       then Some (None, set_error p
              (if check p TOK_LPAREN
               then UnsupportedFunction (case ri_variable item of None \<Rightarrow> ''?'' | Some v \<Rightarrow> v)
               else UnsupportedIndexing))
       else case match p TOK_AS of
              (True, p) \<Rightarrow>
                (case expect p TOK_IDENT of
                   (Some alias, p) \<Rightarrow> Some (Some (item\<lparr>ri_alias := Some (tok_text alias)\<rparr>), p)
                 | (None, p) \<Rightarrow> Some (Some item, p))
            | (False, p) \<Rightarrow> Some (Some item, p))"

section \<open>RETURN and WITH\<close>

definition parse_order_by_agg :: "parser_t \<Rightarrow> string \<times> parser_t" where
  "parse_order_by_agg p =
     (let fn = agg_func_name (tok_type (peek p)); p = snd (expect (skip_tok p) TOK_LPAREN) in
      case (case match p TOK_STAR of
              (True, p) \<Rightarrow> (take 255 (fn @ ''(*)''), p)
            | (False, p) \<Rightarrow> (case expect p TOK_IDENT of (var, p) \<Rightarrow>
                 (take 255 (fn @ CHR ''('' # (case var of None \<Rightarrow> [] | Some t \<Rightarrow> tok_text t) @ '')''), p)))
      of (buf, p) \<Rightarrow> (buf, snd (expect p TOK_RPAREN)))"

definition parse_order_by_var :: "parser_t \<Rightarrow> string \<times> parser_t" where
  "parse_order_by_var p =
     (case expect p TOK_IDENT of
        (None, p) \<Rightarrow> ([], p)
      | (Some var, p) \<Rightarrow>
          (case match p TOK_DOT of
             (True, p) \<Rightarrow>
               (case expect p TOK_IDENT of
                  (Some prop, p) \<Rightarrow> (take 255 (dotted (tok_text var) (tok_text prop)), p)
                | (None, p) \<Rightarrow> (take 255 (tok_text var), p))
           | (False, p) \<Rightarrow> (take 255 (tok_text var), p)))"

definition parse_order_by_expr :: "parser_t \<Rightarrow> string \<times> parser_t" where
  "parse_order_by_expr p =
     (if is_aggregate_tok (tok_type (peek p)) then parse_order_by_agg p else parse_order_by_var p)"

definition parse_order_by_clause :: "parser_t \<Rightarrow> cbm_return_clause_t \<Rightarrow> cbm_return_clause_t \<times> parser_t" where
  "parse_order_by_clause p r =
     (case parse_order_by_expr (snd (expect p TOK_BY)) of (buf, p) \<Rightarrow>
        let r = r\<lparr>rc_order_by := Some buf\<rparr> in
        case match p TOK_ASC of
          (True, p) \<Rightarrow> (r\<lparr>rc_order_dir := Some ''ASC''\<rparr>, p)
        | (False, p) \<Rightarrow>
            (case match p TOK_DESC of
               (True, p) \<Rightarrow> (r\<lparr>rc_order_dir := Some ''DESC''\<rparr>, p)
             | (False, p) \<Rightarrow> (r, p)))"

fun parse_items_loop :: "nat \<Rightarrow> parser_t \<Rightarrow> cbm_return_item_t list \<Rightarrow> cbm_return_item_t list pres" where
  "parse_items_loop 0 p items = None"
| "parse_items_loop (Suc n) p items =
     (if items \<noteq> [] \<and> \<not> check p TOK_COMMA then Some (Some items, p)
      else (let p = (if items \<noteq> [] then snd (match p TOK_COMMA) else p) in
            call (parse_return_item n p) (\<lambda>item p.
              if check p TOK_COMMA then parse_items_loop n p (items @ [item])
              else Some (Some (items @ [item]), p))))"

definition clause_number :: "parser_t \<Rightarrow> cbm_token_type_t \<Rightarrow> int \<times> parser_t" where
  \<comment> \<open>\<open>SKIP n\<close> and \<open>LIMIT n\<close>; 0 without the clause or without its number\<close>
  "clause_number p kw =
     (case match p kw of
        (False, p) \<Rightarrow> (0, p)
      | (True, p) \<Rightarrow>
          (case expect p TOK_NUMBER of (None, p) \<Rightarrow> (0, p) | (Some num, p) \<Rightarrow> (parse_number num, p)))"

definition zero_return :: cbm_return_clause_t where
  "zero_return = \<lparr>rc_items = [], rc_distinct = False, rc_star = False, rc_order_by = None,
     rc_order_dir = None, rc_skip = 0, rc_limit = 0\<rparr>"

definition parse_return_tail :: "parser_t \<Rightarrow> cbm_return_clause_t \<Rightarrow> cbm_return_clause_t option pres" where
  "parse_return_tail p r =
     (case (case match p TOK_ORDER of
              (True, p) \<Rightarrow> parse_order_by_clause p r
            | (False, p) \<Rightarrow> (r, p))
      of (r, p) \<Rightarrow>
        (case clause_number p TOK_SKIP of (sk, p) \<Rightarrow>
        (case clause_number p TOK_LIMIT of (lim, p) \<Rightarrow>
           Some (Some (Some (r\<lparr>rc_skip := sk, rc_limit := lim\<rparr>)), p))))"

definition parse_return_or_with :: "nat \<Rightarrow> parser_t \<Rightarrow> bool \<Rightarrow> cbm_return_clause_t option pres" where
  "parse_return_or_with n p is_with =
     (case match p (if is_with then TOK_WITH else TOK_RETURN) of
        (False, p) \<Rightarrow> Some (Some None, p)
      | (True, p) \<Rightarrow>
          (case match p TOK_DISTINCT of (dist, p) \<Rightarrow>
             let r = zero_return\<lparr>rc_distinct := dist\<rparr> in
             if \<not> is_with \<and> check p TOK_STAR
             then parse_return_tail (snd (match p TOK_STAR)) (r\<lparr>rc_star := True\<rparr>)
             else call (parse_items_loop n p []) (\<lambda>items p.
                    parse_return_tail p (r\<lparr>rc_items := items\<rparr>))))"

definition parse_return :: "nat \<Rightarrow> parser_t \<Rightarrow> cbm_return_clause_t option pres" where
  "parse_return n p = parse_return_or_with n p False"

section \<open>Queries\<close>

fun parse_pattern_loop :: "nat \<Rightarrow> parser_t \<Rightarrow> cbm_pattern_t \<Rightarrow> cbm_pattern_t pres" where
  "parse_pattern_loop 0 p pat = None"
| "parse_pattern_loop (Suc n) p pat =
     (if check p TOK_DASH \<or> check p TOK_LT
      then call (parse_rel n p) (\<lambda>rel p.
           call (parse_node n p) (\<lambda>node p.
             parse_pattern_loop n p
               \<lparr>pat_nodes = pat_nodes pat @ [node], pat_rels = pat_rels pat @ [rel]\<rparr>))
      else Some (Some pat, p))"

definition parse_match_pattern :: "nat \<Rightarrow> parser_t \<Rightarrow> cbm_pattern_t pres" where
  "parse_match_pattern n p =
     call (parse_node n p) (\<lambda>node p. parse_pattern_loop n p \<lparr>pat_nodes = [node], pat_rels = []\<rparr>)"

definition UNWIND_BUF :: nat where "UNWIND_BUF = 2048"

fun unwind_loop :: "nat \<Rightarrow> parser_t \<Rightarrow> string \<Rightarrow> string pres" where
  \<comment> \<open>\<open>str\<close> is the text of length \<open>blen\<close> formatted so far\<close>
  "unwind_loop 0 p str = None"
| "unwind_loop (Suc n) p str =
     (if \<not> check p TOK_RBRACKET \<and> \<not> check p TOK_EOF
      then (let str = (if length str > 1 then str @ '','' else str);
                str = (if check p TOK_STRING then str @ CHR 0x22 # tok_text (peek p) @ [CHR 0x22]
                       else if check p TOK_NUMBER then str @ tok_text (peek p) else str)
            in unwind_loop n (snd (match (skip_tok p) TOK_COMMA)) str)
      else Some (Some str, p))"

definition parse_unwind_clause :: "nat \<Rightarrow> parser_t \<Rightarrow> (cstr \<times> cstr) pres" where
  \<comment> \<open>\<open>unwind_expr\<close> and \<open>unwind_alias\<close>; the text with its brackets and NUL has to fit the buffer\<close>
  "parse_unwind_clause n p =
     (let p = skip_tok p in
      call (if check p TOK_LBRACKET
            then call (unwind_loop n (skip_tok p) ''['') (\<lambda>str p.
                   let p = snd (expect p TOK_RBRACKET); str = str @ '']''
                   in Some (Some (Some str), p\<lparr>poob := poob p \<or> UNWIND_BUF \<le> length str\<rparr>))
            else if check p TOK_IDENT
            then (case advance p of (t, p) \<Rightarrow> Some (Some (Some (tok_text t)), p))
            else Some (Some None, p)) (\<lambda>expr p.
        case expect (snd (expect p TOK_AS)) TOK_IDENT of (alias, p) \<Rightarrow>
          Some (Some (expr, opt_text alias), p)))"

fun parse_match_chain ::
  "nat \<Rightarrow> parser_t \<Rightarrow> cbm_pattern_t list \<Rightarrow> bool list \<Rightarrow> (cbm_pattern_t list \<times> bool list) pres" where
  "parse_match_chain 0 p pats opts = None"
| "parse_match_chain (Suc n) p pats opts =
     (if check p TOK_MATCH \<or> check p TOK_OPTIONAL
      then (let opt = check p TOK_OPTIONAL; p = (if opt then skip_tok p else p) in
            case expect p TOK_MATCH of
              (None, p) \<Rightarrow> Some (Some (pats, opts), p)
            | (Some _, p) \<Rightarrow>
                call (parse_match_pattern n p) (\<lambda>pat p.
                  parse_match_chain n p (pats @ [pat]) (opts @ [opt])))
      else Some (Some (pats, opts), p))"

definition parse_with_part ::
  "nat \<Rightarrow> parser_t \<Rightarrow> (cbm_return_clause_t option \<times> cbm_where_clause_t option) pres" where
  \<comment> \<open>the optional \<open>WITH\<close> clause and its \<open>WHERE\<close>\<close>
  "parse_with_part n p =
     (if check p TOK_WITH \<and> (ppos p < 2 \<or> tok_type (ptokens p ! (ppos p - 1)) \<noteq> TOK_STARTS)
      then call (parse_return_or_with n p True) (\<lambda>wc p.
           call (parse_where n p) (\<lambda>pw p. Some (Some (wc, pw), p)))
      else Some (Some (None, None), p))"

definition start_parser :: "cbm_token_t list \<Rightarrow> parser_t" where
  "start_parser tokens = \<lparr>ptokens = tokens, ppos = 0, perror = NoError, poob = False\<rparr>"

definition error_or :: "parser_t \<Rightarrow> string \<Rightarrow> parse_error" where
  "error_or p msg = (if perror p \<noteq> NoError then perror p else ErrorText msg)"

definition returned :: "'a pres \<Rightarrow> string \<Rightarrow> ('a \<Rightarrow> parser_t \<Rightarrow> ((parse_error + 'b) \<times> bool) option) \<Rightarrow>
    ((parse_error + 'b) \<times> bool) option" where
  \<comment> \<open>a call of \<open>cbm_parse\<close>: its failure becomes the result's error\<close>
  "returned r msg k =
     (case r of None \<Rightarrow> None
      | Some (None, p) \<Rightarrow> Some (Inl (error_or p msg), poob p)
      | Some (Some x, p) \<Rightarrow> k x p)"

definition parse_head :: "nat \<Rightarrow> parser_t \<Rightarrow> (cstr \<times> cstr) pres" where
  "parse_head n p = (if check p TOK_UNWIND then parse_unwind_clause n p else Some (Some (None, None), p))"

text \<open>
  \<open>parse_post_where\<close> and \<open>cbm_parse\<close> call each other for \<open>UNION\<close>, so the first takes the call it makes of
  the second as an argument. \<open>parse_post_where\<close> here returns
  the fields it sets, in the order patterns, their optional marks, \<open>WITH\<close>, its \<open>WHERE\<close>, \<open>RETURN\<close>,
  the next query and \<open>ALL\<close>.
\<close>

type_synonym post_where_t =
  "cbm_pattern_t list \<times> bool list \<times> cbm_return_clause_t option \<times> cbm_where_clause_t option \<times>
   cbm_return_clause_t option \<times> cbm_query_t option \<times> bool"

definition parse_post_where :: "(cbm_token_t list \<Rightarrow> ((parse_error + cbm_query_t) \<times> bool) option) \<Rightarrow>
    nat \<Rightarrow> parser_t \<Rightarrow> cbm_pattern_t list \<Rightarrow> bool list \<Rightarrow> post_where_t pres" where
  "parse_post_where parse_rest n p pats opts =
     call (parse_match_chain n p pats opts) (\<lambda>(pats, opts) p.
       case unsupported_clause_error (tok_type (peek p)) of
         Some unsup \<Rightarrow> Some (None, set_error p (ErrorText unsup))
       | None \<Rightarrow>
           call (parse_with_part n p) (\<lambda>(wc, pw) p.
           call (parse_return n p) (\<lambda>ret p.
             if check p TOK_UNION
             then (case match (skip_tok p) TOK_ALL of (all, p) \<Rightarrow>
                     (case parse_rest (drop (ppos p) (ptokens p)) of
                        None \<Rightarrow> None
                      | Some (Inl e, oob) \<Rightarrow> Some (None, set_error (p\<lparr>poob := poob p \<or> oob\<rparr>) e)
                      | Some (Inr q, oob) \<Rightarrow>
                          Some (Some (pats, opts, wc, pw, ret, Some q, all), p\<lparr>poob := poob p \<or> oob\<rparr>)))
             else Some (Some (pats, opts, wc, pw, ret, None, False), p))))"

fun cbm_parse :: "nat \<Rightarrow> cbm_token_t list \<Rightarrow> ((parse_error + cbm_query_t) \<times> bool) option" where
  "cbm_parse 0 tokens = None"
| "cbm_parse (Suc n) tokens =
     (let p = start_parser tokens in
      case unsupported_clause_error (tok_type (peek p)) of
        Some unsup \<Rightarrow> Some (Inl (ErrorText unsup), poob p)
      | None \<Rightarrow>
          returned (parse_head n p) [] (\<lambda>(uexpr, ualias) p.
            let first_optional = check p TOK_OPTIONAL;
                p = (if first_optional then skip_tok p else p) in
            case expect p TOK_MATCH of
              (None, p) \<Rightarrow> Some (Inl (error_or p ''expected MATCH''), poob p)
            | (Some _, p) \<Rightarrow>
                returned (parse_match_pattern n p) ''failed to parse pattern'' (\<lambda>pat p.
                returned (parse_match_chain n p [pat] [first_optional])
                  ''failed to parse additional pattern'' (\<lambda>(pats, opts) p.
                returned (parse_where n p) ''failed to parse WHERE'' (\<lambda>w p.
                returned (parse_post_where (cbm_parse n) n p pats opts) ''failed to parse query''
                  (\<lambda>(pats, opts, wc, pw, ret, un, all) p.
                    Some (Inr (cbm_query pats opts w wc pw ret un all uexpr ualias), poob p)))))))"

definition parse_fuel :: "cbm_token_t list \<Rightarrow> nat" where
  "parse_fuel tokens = 8 * length tokens + 16"

definition cbm_cypher_parse :: "cstr \<Rightarrow> ((parse_error + cbm_query_t) \<times> bool) option" where
  "cbm_cypher_parse query =
     (case cbm_lex query of
        None \<Rightarrow> Some (Inl (ErrorText ''lex error''), False)
      | Some tokens \<Rightarrow> cbm_parse (parse_fuel tokens) tokens)"

end
