(* ===== verification/CypherCursor.thy ===== *)
theory CypherCursor
  imports CypherParser
begin

text \<open>
  The cursor of the query parser. On a token array that ends with the end-of-input token every
  parsing function returns, with the same array and a cursor that has not moved back and
  still stands on a token; so no read of the array is out of bounds and no loop runs on
  forever. The fuel that is enough is a multiple of the number of tokens left.
\<close>

named_theorems cursor

section \<open>The cursor discipline\<close>

definition cur_ok :: "parser_t \<Rightarrow> bool" where
  "cur_ok p \<longleftrightarrow> ptokens p \<noteq> [] \<and> tok_type (last (ptokens p)) = TOK_EOF \<and> ppos p < length (ptokens p)"

definition left :: "parser_t \<Rightarrow> nat" where
  "left p = length (ptokens p) - ppos p"

definition reach :: "cbm_token_t list \<Rightarrow> nat \<Rightarrow> nat \<Rightarrow> 'a pres \<Rightarrow> bool" where
  \<comment> \<open>the call returns; its cursor is at \<open>a\<close> or later, and at \<open>b\<close> or later if it succeeds\<close>
  "reach ts a b m \<longleftrightarrow>
     (case m of None \<Rightarrow> False
      | Some (r, p) \<Rightarrow> cur_ok p \<and> ptokens p = ts \<and> a \<le> ppos p \<and> (r \<noteq> None \<longrightarrow> b \<le> ppos p))"

definition onward :: "parser_t \<Rightarrow> parser_t \<Rightarrow> bool" where
  "onward p q \<longleftrightarrow> cur_ok q \<and> ptokens q = ptokens p \<and> ppos p \<le> ppos q"

lemma cur_ok_peek: "cur_ok p \<Longrightarrow> peek p = ptokens p ! ppos p"
  by (simp add: cur_ok_def peek_def)

lemma cur_ok_set_error [cursor]: "cur_ok (set_error p e) = cur_ok p" "ptokens (set_error p e) = ptokens p"
  "ppos (set_error p e) = ppos p" "poob (set_error p e) = poob p"
  by (simp_all add: cur_ok_def set_error_def)

lemma cur_ok_advance:
  assumes "cur_ok p" "\<not> check p TOK_EOF"
  shows "cur_ok (snd (advance p))" "ptokens (snd (advance p)) = ptokens p" "ppos (snd (advance p)) = Suc (ppos p)"
proof -
  have "ppos p \<noteq> length (ptokens p) - 1"
    using assms by (auto simp: check_def cur_ok_peek cur_ok_def last_conv_nth)
  with assms(1) show "cur_ok (snd (advance p))" "ptokens (snd (advance p)) = ptokens p"
    "ppos (snd (advance p)) = Suc (ppos p)"
    by (auto simp: cur_ok_def advance_def)
qed

lemma check_not_EOF: "check p T \<Longrightarrow> T \<noteq> TOK_EOF \<Longrightarrow> \<not> check p TOK_EOF"
  by (simp add: check_def)

lemma skip_tok_cursor [cursor]:
  assumes "cur_ok p" "\<not> check p TOK_EOF"
  shows "cur_ok (skip_tok p)" "ptokens (skip_tok p) = ptokens p" "ppos (skip_tok p) = Suc (ppos p)"
  using cur_ok_advance [OF assms] by (simp_all add: skip_tok_def)

lemma match_cursor [cursor]:
  assumes "cur_ok p" "T \<noteq> TOK_EOF"
  shows "cur_ok (snd (match p T))" "ptokens (snd (match p T)) = ptokens p"
  using assms cur_ok_advance [OF assms(1)] check_not_EOF [OF _ assms(2)] by (auto simp: match_def)

lemma match_le:
  assumes "cur_ok p" "T \<noteq> TOK_EOF"
  shows "ppos p \<le> ppos (snd (match p T))"
  using assms cur_ok_advance [OF assms(1)] check_not_EOF [OF _ assms(2)] by (auto simp: match_def)

lemma expect_cursor [cursor]:
  assumes "cur_ok p" "T \<noteq> TOK_EOF"
  shows "cur_ok (snd (expect p T))" "ptokens (snd (expect p T)) = ptokens p"
  using assms cur_ok_advance [OF assms(1)] check_not_EOF [OF _ assms(2)]
  by (auto simp: expect_def cursor split: prod.splits)

lemma expect_le:
  assumes "cur_ok p" "T \<noteq> TOK_EOF"
  shows "ppos p \<le> ppos (snd (expect p T))"
  using assms cur_ok_advance [OF assms(1)] check_not_EOF [OF _ assms(2)]
  by (auto simp: expect_def cursor split: prod.splits)

section \<open>Rules for the parsing combinators\<close>

lemma reach_SomeI:
  "\<lbrakk>cur_ok p; ptokens p = ts; a \<le> ppos p; r \<noteq> None \<Longrightarrow> b \<le> ppos p\<rbrakk> \<Longrightarrow> reach ts a b (Some (r, p))"
  by (simp add: reach_def)

lemma reachE:
  assumes "reach ts a b m"
  obtains r p where "m = Some (r, p)" "cur_ok p" "ptokens p = ts" "a \<le> ppos p" "r \<noteq> None \<longrightarrow> b \<le> ppos p"
  using assms by (auto simp: reach_def split: option.splits prod.splits)

lemma reach_fail:
  "\<lbrakk>cur_ok p; ptokens p = ts; a \<le> ppos p\<rbrakk> \<Longrightarrow> reach ts a b (Some (None, set_error p e))"
  by (simp add: reach_def cursor)

lemma reach_need:
  assumes "cur_ok p" "ptokens p = ts" "a \<le> ppos p" "T \<noteq> TOK_EOF"
    and "\<And>t q. \<lbrakk>cur_ok q; ptokens q = ts; ppos q = Suc (ppos p)\<rbrakk> \<Longrightarrow> reach ts a b (f t q)"
  shows "reach ts a b (need (expect p T) f)"
proof (cases "check p T")
  case True
  then obtain t q where q: "advance p = (t, q)" by fastforce
  with True assms cur_ok_advance [OF assms(1)] check_not_EOF [OF True assms(4)] show ?thesis
    by (auto simp: need_def expect_def)
next
  case False
  with assms show ?thesis by (auto simp: need_def expect_def cursor intro: reach_SomeI)
qed

lemma reach_call:
  assumes "reach ts a c m"
    and "\<And>x q. \<lbrakk>cur_ok q; ptokens q = ts; a \<le> ppos q; c \<le> ppos q\<rbrakk> \<Longrightarrow> reach ts a b (f x q)"
  shows "reach ts a b (call m f)"
proof (rule reachE [OF assms(1)])
  fix r q
  assume q: "m = Some (r, q)" "cur_ok q" "ptokens q = ts" "a \<le> ppos q" "r \<noteq> None \<longrightarrow> c \<le> ppos q"
  then show ?thesis using assms(2) [of q] by (cases r) (auto simp: call_def intro: reach_SomeI)
qed

lemma reach_call_opt:
  assumes "reach ts d d m"
    and "\<And>x q. \<lbrakk>cur_ok q; ptokens q = ts; d \<le> ppos q\<rbrakk> \<Longrightarrow> reach ts a b (f x q)"
  shows "reach ts a b (call_opt m f)"
  by (rule reachE [OF assms(1)]) (simp add: call_opt_def assms(2))

lemma reach_match:
  assumes "cur_ok p" "ptokens p = ts" "T \<noteq> TOK_EOF"
    and "\<And>q. \<lbrakk>cur_ok q; ptokens q = ts; ppos q = Suc (ppos p)\<rbrakk> \<Longrightarrow> reach ts a b (f True q)"
    and "reach ts a b (f False p)"
  shows "reach ts a b (case match p T of (x, q) \<Rightarrow> f x q)"
  using assms cur_ok_advance [OF assms(1)] check_not_EOF [OF _ assms(3)] by (simp add: match_def)

lemma reach_advance:
  assumes "cur_ok p" "ptokens p = ts" "\<not> check p TOK_EOF"
    and "\<And>t q. \<lbrakk>cur_ok q; ptokens q = ts; ppos q = Suc (ppos p)\<rbrakk> \<Longrightarrow> reach ts a b (f t q)"
  shows "reach ts a b (case advance p of (x, q) \<Rightarrow> f x q)"
  using assms(2) assms(4) [of "snd (advance p)"] cur_ok_advance [OF assms(1,3)] by (cases "advance p") simp

lemma reach_expect:
  assumes "cur_ok p" "ptokens p = ts" "T \<noteq> TOK_EOF"
    and "\<And>t q. \<lbrakk>cur_ok q; ptokens q = ts; ppos q = Suc (ppos p)\<rbrakk> \<Longrightarrow> reach ts a b (f (Some t) q)"
    and "\<And>q. \<lbrakk>cur_ok q; ptokens q = ts; ppos q = ppos p\<rbrakk> \<Longrightarrow> reach ts a b (f None q)"
  shows "reach ts a b (case expect p T of (x, q) \<Rightarrow> f x q)"
  using assms cur_ok_advance [OF assms(1)] check_not_EOF [OF _ assms(3)]
  by (auto simp: expect_def cursor split: prod.splits)

lemma reach_pair:
  assumes "onward p (snd r)" "ptokens p = ts"
    and "\<And>x q. \<lbrakk>cur_ok q; ptokens q = ts; ppos p \<le> ppos q\<rbrakk> \<Longrightarrow> reach ts a b (f x q)"
  shows "reach ts a b (case r of (x, q) \<Rightarrow> f x q)"
  using assms by (cases r) (auto simp: onward_def)

lemma reach_mono: "reach ts a c m \<Longrightarrow> a' \<le> a \<Longrightarrow> b \<le> c \<Longrightarrow> reach ts a' b m"
  by (auto simp: reach_def split: option.splits prod.splits)

lemma reach_if: "\<lbrakk>c \<Longrightarrow> reach ts a b m; \<not> c \<Longrightarrow> reach ts a b m'\<rbrakk> \<Longrightarrow> reach ts a b (if c then m else m')"
  by simp

lemmas reach_rules = reach_SomeI reach_need reach_match reach_if

section \<open>Patterns\<close>

lemma cur_ok_length: "cur_ok p \<Longrightarrow> ppos p < length (ptokens p)"
  by (simp add: cur_ok_def)

lemma parse_props_loop_reach:
  "\<lbrakk>cur_ok p; ptokens p = ts; a \<le> ppos p; b \<le> ppos p; length ts < ppos p + n\<rbrakk> \<Longrightarrow>
   reach ts a b (parse_props_loop n p arr)"
proof (induction n arbitrary: p arr ts)
  case 0
  then show ?case using cur_ok_length by fastforce
next
  case (Suc n)
  have next_ok: "reach (ptokens p) a b (parse_props_loop n (snd (match q TOK_COMMA)) arr')"
    if "cur_ok q" "ptokens q = ptokens p" "ppos p < ppos q" for q arr'
    using that Suc.prems match_le [of q TOK_COMMA] by (intro Suc.IH) (auto simp: cursor)
  show ?case
    using Suc.prems expect_le [of p TOK_RBRACE]
    by (auto intro!: reach_rules next_ok simp: cursor)
qed

lemma parse_props_reach:
  "\<lbrakk>cur_ok p; ptokens p = ts; a \<le> ppos p; b \<le> ppos p; length ts < ppos p + n\<rbrakk> \<Longrightarrow>
   reach ts a b (parse_props n p)"
  by (simp add: parse_props_def, rule reach_match)
    (auto intro!: reach_rules parse_props_loop_reach)

lemma parse_label_loop_reach:
  "\<lbrakk>cur_ok p; ptokens p = ts; a \<le> ppos p; b \<le> ppos p; length ts < ppos p + n\<rbrakk> \<Longrightarrow>
   reach ts a b (parse_label_loop n p str)"
proof (induction n arbitrary: p str)
  case 0
  then show ?case using cur_ok_length by fastforce
next
  case (Suc n)
  then show ?case
    by (simp, intro reach_match) (auto intro!: reach_rules Suc.IH simp: Let_def)
qed

lemma parse_label_reach:
  assumes "cur_ok p" "ptokens p = ts" "a \<le> ppos p" "b \<le> ppos p" "length ts < ppos p + n"
  shows "reach ts a b (parse_label n p)"
  unfolding parse_label_def using assms
  by (intro reach_match) (auto intro!: reach_rules reach_call [where c = b] parse_label_loop_reach)

lemma opt_ident_onward: "cur_ok p \<Longrightarrow> onward p (snd (opt_ident p))"
  using cur_ok_advance [of p] check_not_EOF [of p TOK_IDENT]
  by (auto simp: opt_ident_def onward_def split: prod.splits)

lemma parse_node_reach:
  assumes "cur_ok p" "ptokens p = ts" "a \<le> ppos p" "b \<le> Suc (ppos p)" "length ts < ppos p + n"
  shows "reach ts a b (parse_node n p)"
  unfolding parse_node_def
proof (rule reach_need)
  fix t q
  assume q: "cur_ok q" "ptokens q = ts" "ppos q = Suc (ppos p)"
  show "reach ts a b (case opt_ident q of (var, p) \<Rightarrow>
         call (parse_label n p) (\<lambda>label p.
         call (if check p TOK_LBRACE then parse_props n p else Some (Some [], p)) (\<lambda>props p.
         need (expect p TOK_RPAREN) (\<lambda>_ p.
           Some (Some \<lparr>n_variable = var, n_label = label, n_props = props\<rparr>, p)))))"
    using assms q
    by (intro reach_pair [OF opt_ident_onward])
      (auto intro!: reach_rules reach_call [where c = "Suc (ppos p)"] parse_label_reach parse_props_reach)
qed (use assms in simp_all)

lemma hop_bound_onward: "cur_ok p \<Longrightarrow> onward p (snd (hop_bound p))"
  using cur_ok_advance [of p] check_not_EOF [of p TOK_NUMBER]
  by (auto simp: hop_bound_def onward_def split: prod.splits)

lemma onward_refl: "cur_ok p \<Longrightarrow> onward p p"
  by (simp add: onward_def)

lemma onward_trans: "onward p q \<Longrightarrow> onward q r \<Longrightarrow> onward p r"
  by (auto simp: onward_def)

lemma onward_skip: "cur_ok p \<Longrightarrow> check p T \<Longrightarrow> T \<noteq> TOK_EOF \<Longrightarrow> onward p (skip_tok p)"
  using check_not_EOF [of p T] by (auto simp: onward_def cursor)

lemma onward_match: "cur_ok p \<Longrightarrow> T \<noteq> TOK_EOF \<Longrightarrow> onward p (snd (match p T))"
  using match_le [of p T] by (simp add: onward_def cursor)

lemma onward_expect: "cur_ok p \<Longrightarrow> T \<noteq> TOK_EOF \<Longrightarrow> onward p (snd (expect p T))"
  using expect_le [of p T] by (simp add: onward_def cursor)

lemma onward_caseI:
  "onward p (snd r) \<Longrightarrow> (\<And>x q. r = (x, q) \<Longrightarrow> onward p q \<Longrightarrow> onward p (g (f x q))) \<Longrightarrow>
   onward p (g (case r of (x, q) \<Rightarrow> f x q))"
  by (cases r) simp

lemma onward_ok: "onward p q \<Longrightarrow> cur_ok q"
  by (simp add: onward_def)

lemma parse_hop_range_onward:
  assumes "cur_ok p"
  shows "onward p (snd (snd (parse_hop_range p)))"
proof -
  have dots: "onward p (snd (snd (case match q TOK_DOTDOT of
      (True, q) \<Rightarrow> (case hop_bound q of (mx, q) \<Rightarrow> (v, mx, q)) | (False, q) \<Rightarrow> (v', w, q))))"
    if q: "onward p q" for q and v v' w :: int
  proof -
    have m: "onward p (snd (match q TOK_DOTDOT))"
      using onward_trans [OF q onward_match] onward_ok [OF q] by simp
    then show ?thesis using onward_trans [OF m hop_bound_onward] onward_ok [OF m]
      by (auto split: prod.splits bool.splits)
  qed
  show ?thesis
    unfolding parse_hop_range_def Let_def
    using dots [OF onward_refl [OF assms]] dots [OF onward_skip [OF assms, of TOK_NUMBER]]
    by (cases "check p TOK_NUMBER") (simp_all only: if_True if_False simp_thms cbm_token_type_t.distinct)
qed

lemma parse_rel_types_loop_reach:
  "\<lbrakk>cur_ok p; ptokens p = ts; a \<le> ppos p; b \<le> ppos p; length ts < ppos p + n\<rbrakk> \<Longrightarrow>
   reach ts a b (parse_rel_types_loop n p types)"
proof (induction n arbitrary: p types)
  case 0
  then show ?case using cur_ok_length by fastforce
next
  case (Suc n)
  then show ?case by (simp, intro reach_match) (auto intro!: reach_rules Suc.IH)
qed

lemma parse_rel_types_reach:
  assumes "cur_ok p" "ptokens p = ts" "a \<le> ppos p" "b \<le> ppos p" "length ts < ppos p + n"
  shows "reach ts a b (parse_rel_types n p)"
  unfolding parse_rel_types_def using assms
  by (auto intro!: reach_rules parse_rel_types_loop_reach)

lemma parse_rel_bracket_reach:
  assumes "cur_ok p" "ptokens p = ts" "a \<le> ppos p" "b \<le> ppos p" "length ts < ppos p + n"
  shows "reach ts a b (parse_rel_bracket n p out)"
proof -
  have var: "onward p (snd (if check p TOK_IDENT \<and> \<not> check p TOK_COLON
      then (case advance p of (t, q) \<Rightarrow> (out\<lparr>r_variable := Some (tok_text t)\<rparr>, q)) else (out, p)))"
    using assms cur_ok_advance [of p] check_not_EOF [of p TOK_IDENT] by (auto simp: onward_def split: prod.splits)
  have star: "onward q (snd (case match q TOK_STAR of (False, q) \<Rightarrow> (out', q)
      | (True, q) \<Rightarrow> (case parse_hop_range q of (mn, mx, q) \<Rightarrow> (out'\<lparr>r_min_hops := mn, r_max_hops := mx\<rparr>, q))))"
    if q: "cur_ok q" for q out'
  proof -
    have m: "onward q (snd (match q TOK_STAR))" using q by (simp add: onward_match)
    show ?thesis using m onward_trans [OF m parse_hop_range_onward] onward_ok [OF m]
      by (auto split: prod.splits bool.splits)
  qed
  show ?thesis
    unfolding parse_rel_bracket_def
    using assms
    by (intro reach_pair [OF var])
      (auto intro!: reach_pair [OF star] reach_call [where c = "ppos p"] reach_rules parse_rel_types_reach)
qed

lemma parse_rel_reach:
  assumes "cur_ok p" "ptokens p = ts" "a \<le> ppos p" "b \<le> Suc (ppos p)" "length ts < ppos p + n"
  shows "reach ts a b (parse_rel n p)"
proof -
  have gt: "reach ts a b (case match q TOK_GT of (g, q) \<Rightarrow> Some (Some (h g), q))"
    if "cur_ok q" "ptokens q = ts" "a \<le> ppos q" "b \<le> ppos q" for q and h :: "bool \<Rightarrow> cbm_rel_pattern_t"
    using that by (intro reach_match) (auto intro!: reach_rules)
  show ?thesis
    unfolding parse_rel_def Let_def
    using assms
    by (intro reach_match)
      (auto intro!: reach_rules reach_call [where c = "Suc (ppos p)"] gt parse_rel_bracket_reach)
qed

section \<open>Conditions\<close>

lemma parse_in_loop_reach:
  "\<lbrakk>cur_ok p; ptokens p = ts; a \<le> ppos p; b \<le> ppos p; length ts < ppos p + n\<rbrakk> \<Longrightarrow>
   reach ts a b (parse_in_loop n p vals)"
proof (induction n arbitrary: p vals)
  case 0
  then show ?case using cur_ok_length by fastforce
next
  case (Suc n)
  let ?q = "if vals \<noteq> [] then snd (match p TOK_COMMA) else p"
  have q: "cur_ok ?q" "ptokens ?q = ts" "ppos p \<le> ppos ?q"
    using Suc.prems match_le [of p TOK_COMMA] by (auto simp: cursor)
  have lit: "\<not> check ?q TOK_EOF" if "check ?q TOK_STRING \<or> check ?q TOK_NUMBER"
    using that by (auto simp: check_def)
  show ?case
    unfolding parse_in_loop.simps Let_def using Suc.prems q
    by (intro reach_if reach_advance lit Suc.IH reach_SomeI) auto
qed

lemma reach_end:
  assumes "cur_ok q" "ptokens q = ts" "a \<le> ppos q" "b \<le> ppos q" "T \<noteq> TOK_EOF"
  shows "reach ts a b (Some (x, snd (expect q T)))"
  using assms expect_le [of q T] by (intro reach_SomeI) (auto simp: cursor)

lemma parse_in_list_reach:
  assumes "cur_ok p" "ptokens p = ts" "a \<le> ppos p" "b \<le> ppos p" "length ts < ppos p + n" "check p TOK_IN"
  shows "reach ts a b (parse_in_list n p c)"
proof -
  have "\<not> check p TOK_EOF" using assms(6) by (simp add: check_def)
  then have q: "cur_ok (skip_tok p)" "ptokens (skip_tok p) = ts" "ppos (skip_tok p) = Suc (ppos p)"
    using assms by (simp_all add: cursor)
  show ?thesis
    unfolding parse_in_list_def Let_def
    using assms q by (auto intro!: reach_need reach_call [where c = b] reach_end parse_in_loop_reach)
qed

lemma simple_ops_check: "find (\<lambda>(type, _). check p type) simple_ops = Some (T, op) \<Longrightarrow> \<not> check p TOK_EOF"
  by (auto simp: simple_ops_def check_def split: if_splits)

lemma parse_comparison_op_onward:
  assumes "cur_ok p"
  shows "onward p (snd (parse_comparison_op p))"
proof -
  have "onward p (skip_tok p)" if "\<not> check p TOK_EOF" using assms that by (simp add: onward_def cursor)
  then have "onward p (skip_tok p)" "onward p (snd (expect (skip_tok p) TOK_WITH))" if "\<not> check p TOK_EOF"
    using that onward_trans [OF _ onward_expect] onward_ok by simp_all
  moreover have "check p TOK_STARTS \<Longrightarrow> \<not> check p TOK_EOF" "check p TOK_ENDS \<Longrightarrow> \<not> check p TOK_EOF"
    by (simp_all add: check_def)
  ultimately show ?thesis
    using simple_ops_check [of p] onward_refl [OF assms]
    by (auto simp: parse_comparison_op_def split: option.splits)
qed

lemma reach_or_error: "reach ts a b m \<Longrightarrow> reach ts a b (or_error m e)"
  by (erule reachE) (auto simp: or_error_def reach_def cursor split: option.splits)

lemma parse_exists_predicate_reach:
  assumes "cur_ok p" "ptokens p = ts" "a \<le> ppos p" "b \<le> ppos p" "length ts < ppos p + n" "check p TOK_EXISTS"
  shows "reach ts a b (parse_exists_predicate n p negated)"
proof -
  have "\<not> check p TOK_EOF" using assms(6) by (simp add: check_def)
  then have q: "cur_ok (skip_tok p)" "ptokens (skip_tok p) = ts" "ppos (skip_tok p) = Suc (ppos p)"
    using assms by (simp_all add: cursor)
  have pat: "reach (ptokens p) a (ppos p) (or_error
                 (call (parse_node n q) (\<lambda>anchor p.
                  call (parse_rel n p) (\<lambda>rel p.
                  call (parse_node n p) (\<lambda>far p. Some (Some (anchor, rel), p))))) UnsupportedExists)"
    if "cur_ok q" "ptokens q = ptokens p" "ppos p \<le> ppos q" for q
    using that assms
    by (auto intro!: reach_or_error reach_call [where c = "ppos p"] reach_SomeI parse_node_reach parse_rel_reach)
  show ?thesis
    unfolding parse_exists_predicate_def Let_def
    using assms q
    by (intro reach_match) (auto intro!: reach_call [OF pat] reach_end reach_fail split: prod.splits)
qed

lemma parse_condition_value_reach:
  assumes "cur_ok p" "ptokens p = ts" "a \<le> ppos p" "b \<le> ppos p"
  shows "reach ts a b (parse_condition_value p c)"
proof -
  have lit: "\<not> check p TOK_EOF" if "check p TOK_STRING \<or> check p TOK_NUMBER"
    using that by (auto simp: check_def)
  have kw: "\<not> check p TOK_EOF" if "check p TOK_TRUE \<or> check p TOK_FALSE"
    using that by (auto simp: check_def)
  show ?thesis
    unfolding parse_condition_value_def
    using assms kw by (intro reach_if reach_advance lit reach_SomeI) (auto simp: cursor)
qed

lemma parse_condition_tail_reach:
  assumes "cur_ok p" "ptokens p = ts" "a \<le> ppos p" "b \<le> ppos p" "length ts < ppos p + n"
  shows "reach ts a b (parse_condition_tail n p c)"
  unfolding parse_condition_tail_def
proof (intro reach_if)
  assume "check p TOK_IS"
  then have "\<not> check p TOK_EOF" by (simp add: check_def)
  with assms show "reach ts a b (case match (skip_tok p) TOK_NOT of
              (True, p) \<Rightarrow>
                Some (Some (expr_leaf (c\<lparr>c_op := Some ''IS NOT NULL''\<rparr>)), snd (expect p TOK_NULL_KW))
            | (False, p) \<Rightarrow>
                Some (Some (expr_leaf (c\<lparr>c_op := Some ''IS NULL''\<rparr>)), snd (expect p TOK_NULL_KW)))"
    by (intro reach_match) (auto intro!: reach_end simp: cursor)
next
  assume "check p TOK_IN"
  then show "reach ts a b (parse_in_list n p c)" using assms by (intro parse_in_list_reach)
next
  show "reach ts a b (case parse_comparison_op p of
             (None, p) \<Rightarrow> Some (None, set_error p (UnexpectedOperator (tok_pos (peek p))))
           | (Some op, p) \<Rightarrow> parse_condition_value p (c\<lparr>c_op := Some op\<rparr>))"
    using assms
    by (intro reach_pair [OF parse_comparison_op_onward])
      (auto intro!: reach_SomeI parse_condition_value_reach simp: cursor split: option.splits)
qed

lemma parse_condition_expr_reach:
  assumes "cur_ok p" "ptokens p = ts" "a \<le> ppos p" "b \<le> ppos p" "length ts < ppos p + n"
  shows "reach ts a b (parse_condition_expr n p)"
proof -
  have main: "reach ts a b (if check q TOK_EXISTS then parse_exists_predicate n q negated
        else need (expect q TOK_IDENT) (\<lambda>var p.
          let c = zero_condition\<lparr>c_negated := negated, c_variable := Some (tok_text var)\<rparr> in
          if check p TOK_COLON
          then need (expect (skip_tok p) TOK_IDENT) (\<lambda>lbl p.
                 Some (Some (expr_leaf (c\<lparr>c_op := Some ''HAS_LABEL'', c_value := Some (tok_text lbl)\<rparr>)), p))
          else case match p TOK_DOT of
                 (True, p) \<Rightarrow>
                   need (expect p TOK_IDENT) (\<lambda>prop p.
                     parse_condition_tail n p (c\<lparr>c_property := Some (tok_text prop)\<rparr>))
               | (False, p) \<Rightarrow> parse_condition_tail n p c))"
    if q: "cur_ok q" "ptokens q = ts" "ppos p \<le> ppos q" for q negated
    unfolding Let_def using assms q
    by (auto intro!: reach_if reach_need parse_exists_predicate_reach reach_match reach_SomeI
        parse_condition_tail_reach simp: cursor check_def)
  show ?thesis
    unfolding parse_condition_expr_def
    using assms by (intro reach_match main) auto
qed

section \<open>The levels of boolean expressions\<close>

definition fuel_ok :: "(nat \<Rightarrow> parser_t \<Rightarrow> 'a pres) \<Rightarrow> nat \<Rightarrow> nat \<Rightarrow> bool" where
  \<comment> \<open>with fuel \<open>n\<close>, the function returns wherever \<open>8 * tokens left + d\<close> is at most \<open>n\<close>\<close>
  "fuel_ok f d n \<longleftrightarrow>
     (\<forall>p ts a b. cur_ok p \<and> ptokens p = ts \<and> a \<le> ppos p \<and> b \<le> ppos p \<and>
        8 * length ts + d \<le> 8 * ppos p + n \<longrightarrow> reach ts a b (f n p))"

lemma fuel_okD:
  assumes "fuel_ok f d n" "cur_ok p" "ptokens p = ts" "a \<le> ppos p" "b \<le> ppos p"
    "8 * length ts + d \<le> 8 * ppos p + n"
  shows "reach ts a b (f n p)"
  using assms unfolding fuel_ok_def by blast

lemma fuel_okI:
  assumes "\<And>p ts a b. \<lbrakk>cur_ok p; ptokens p = ts; a \<le> ppos p; b \<le> ppos p;
    8 * length ts + d \<le> 8 * ppos p + n\<rbrakk> \<Longrightarrow> reach ts a b (f n p)"
  shows "fuel_ok f d n"
  using assms unfolding fuel_ok_def by blast

lemma fuel_ok_0: "0 < d \<Longrightarrow> fuel_ok f d 0"
  using cur_ok_length by (fastforce simp: fuel_ok_def)

text \<open>
  The three binary levels have one shape: an operand, then a loop over an operator token and
  another operand that builds a tree leaning to the left. The locale states that shape.
\<close>

locale binop_level =
  fixes lower :: "nat \<Rightarrow> parser_t \<Rightarrow> cbm_expr_t pres"
    and level :: "nat \<Rightarrow> parser_t \<Rightarrow> cbm_expr_t pres"
    and loop :: "nat \<Rightarrow> cbm_expr_t \<Rightarrow> parser_t \<Rightarrow> cbm_expr_t pres"
    and tok :: cbm_token_type_t
    and con :: "cbm_expr_t \<Rightarrow> cbm_expr_t \<Rightarrow> cbm_expr_t"
  assumes tok_not_EOF: "tok \<noteq> TOK_EOF"
    and level_Suc: "level (Suc n) p = call (lower n p) (\<lambda>l q. loop n l q)"
    and loop_Suc: "loop (Suc n) l p =
      (if check p tok then call (lower n (skip_tok p)) (\<lambda>r q. loop n (con l r) q)
       else Some (Some l, p))"
begin

lemma loop_returns:
  assumes "\<And>m. m < n \<Longrightarrow> fuel_ok lower d m" "d \<le> 8" "cur_ok p" "ptokens p = ts" "a \<le> ppos p" "b \<le> ppos p"
    "8 * length ts + 1 \<le> 8 * ppos p + n"
  shows "reach ts a b (loop n l p)"
  using assms
proof (induction n arbitrary: l p)
  case 0
  then show ?case using cur_ok_length by fastforce
next
  case (Suc n)
  have lower: "fuel_ok lower d n" using Suc.prems(1) by simp
  show ?case
    unfolding loop_Suc
  proof (intro reach_if reach_call)
    assume c: "check p tok"
    then have q: "cur_ok (skip_tok p)" "ptokens (skip_tok p) = ts" "ppos (skip_tok p) = Suc (ppos p)"
      using Suc.prems check_not_EOF [OF c tok_not_EOF] by (simp_all add: cursor)
    show "reach ts a (Suc (ppos p)) (lower n (skip_tok p))"
      using q Suc.prems by (intro fuel_okD [OF lower]) auto
    show "reach ts a b (loop n (con l r) q)"
      if "cur_ok q" "ptokens q = ts" "a \<le> ppos q" "Suc (ppos p) \<le> ppos q" for r q
      using that Suc.prems by (intro Suc.IH) auto
  qed (use Suc.prems in \<open>auto intro: reach_SomeI\<close>)
qed

lemma level_returns:
  assumes "\<And>m. m < n \<Longrightarrow> fuel_ok lower d m" "0 < d" "d \<le> 8"
  shows "fuel_ok level (Suc d) n"
proof (cases n)
  case 0
  then show ?thesis by (simp add: fuel_ok_0)
next
  case (Suc m)
  show ?thesis
  proof (rule fuel_okI)
    fix p ts a b
    assume p: "cur_ok p" "ptokens p = ts" "a \<le> ppos p" "b \<le> ppos p" "8 * length ts + Suc d \<le> 8 * ppos p + n"
    have "reach ts a (ppos p) (lower m p)"
      using p Suc assms(1) [of m] by (intro fuel_okD [where d = d]) auto
    moreover have "reach ts a b (loop m l q)"
      if "cur_ok q" "ptokens q = ts" "a \<le> ppos q" "ppos p \<le> ppos q" for l q
      using that p Suc assms by (intro loop_returns [where d = d]) auto
    ultimately show "reach ts a b (level n p)"
      unfolding Suc level_Suc by (rule reach_call)
  qed
qed

end

interpretation or_level: binop_level parse_xor_expr parse_or_expr parse_or_loop TOK_OR EXPR_OR
  by unfold_locales simp_all

interpretation xor_level: binop_level parse_and_expr parse_xor_expr parse_xor_loop TOK_XOR EXPR_XOR
  by unfold_locales simp_all

interpretation and_level: binop_level parse_not_expr parse_and_expr parse_and_loop TOK_AND EXPR_AND
  by unfold_locales simp_all

lemma parse_atom_returns:
  assumes "\<And>m. m < n \<Longrightarrow> fuel_ok parse_or_expr 5 m"
  shows "fuel_ok parse_atom_expr 1 n"
proof (cases n)
  case (Suc m)
  show ?thesis
  proof (rule fuel_okI)
    fix p ts a b
    assume p: "cur_ok p" "ptokens p = ts" "a \<le> ppos p" "b \<le> ppos p" "8 * length ts + 1 \<le> 8 * ppos p + n"
    have m: "length ts < ppos p + m" using p Suc cur_ok_length [of p] by simp
    have paren: "reach (ptokens p) a b (call_opt (parse_or_expr m q) (\<lambda>e p. Some (e, snd (expect p TOK_RPAREN))))"
      if "cur_ok q" "ptokens q = ptokens p" "ppos q = Suc (ppos p)" for q
      using that p Suc expect_le
      by (intro reach_call_opt [where d = "ppos p"] fuel_okD [OF assms]) (auto intro!: reach_SomeI simp: cursor intro: le_trans)
    show "reach ts a b (parse_atom_expr n p)"
      unfolding Suc parse_atom_expr.simps
      using p m by (intro reach_match) (auto intro!: paren parse_condition_expr_reach)
  qed
qed (simp add: fuel_ok_0)

lemma parse_not_returns:
  assumes "\<And>m. m < n \<Longrightarrow> fuel_ok parse_not_expr 2 m" "\<And>m. m < n \<Longrightarrow> fuel_ok parse_atom_expr 1 m"
  shows "fuel_ok parse_not_expr 2 n"
proof (cases n)
  case (Suc m)
  show ?thesis
  proof (rule fuel_okI)
    fix p ts a b
    assume p: "cur_ok p" "ptokens p = ts" "a \<le> ppos p" "b \<le> ppos p" "8 * length ts + 2 \<le> 8 * ppos p + n"
    show "reach ts a b (parse_not_expr n p)"
      unfolding Suc parse_not_expr.simps
      using p Suc
      by (intro reach_match)
        (auto intro!: reach_call [where c = b] reach_SomeI fuel_okD [OF assms(1)] fuel_okD [OF assms(2)])
  qed
qed (simp add: fuel_ok_0)

lemma expr_returns:
  "fuel_ok parse_or_expr 5 n \<and> fuel_ok parse_xor_expr 4 n \<and> fuel_ok parse_and_expr 3 n \<and>
   fuel_ok parse_not_expr 2 n \<and> fuel_ok parse_atom_expr 1 n"
proof (induction n rule: less_induct)
  case (less n)
  have "fuel_ok parse_or_expr (Suc 4) n" by (rule or_level.level_returns) (use less in simp_all)
  moreover have "fuel_ok parse_xor_expr (Suc 3) n" by (rule xor_level.level_returns) (use less in simp_all)
  moreover have "fuel_ok parse_and_expr (Suc 2) n" by (rule and_level.level_returns) (use less in simp_all)
  ultimately show ?case
    using parse_not_returns [of n] parse_atom_returns [of n] less by simp
qed

lemma parse_or_expr_reach:
  assumes "cur_ok p" "ptokens p = ts" "a \<le> ppos p" "b \<le> ppos p" "8 * length ts + 5 \<le> 8 * ppos p + n"
  shows "reach ts a b (parse_or_expr n p)"
  using assms expr_returns [of n] by (intro fuel_okD [where d = 5]) auto

lemma parse_where_reach:
  assumes "cur_ok p" "ptokens p = ts" "a \<le> ppos p" "b \<le> ppos p" "8 * length ts + 1 \<le> 8 * ppos p + n"
  shows "reach ts a b (parse_where n p)"
  unfolding parse_where_def
  using assms
  by (intro reach_match)
    (auto intro!: reach_call_opt [where d = "ppos p"] reach_SomeI reach_if parse_or_expr_reach)

section \<open>Return items\<close>

lemma onward_advance: "cur_ok p \<Longrightarrow> \<not> check p TOK_EOF \<Longrightarrow> onward p (snd (advance p))"
  using cur_ok_advance [of p] by (simp add: onward_def)

lemma parse_value_literal_onward:
  assumes "cur_ok p"
  shows "onward p (snd (parse_value_literal p))"
proof -
  have ident: "onward p (snd (case advance p of (v, p) \<Rightarrow>
              (case match p TOK_DOT of
                 (True, p) \<Rightarrow>
                   (case expect p TOK_IDENT of (pr, p) \<Rightarrow>
                      (Some (take 255 (dotted (tok_text v) (case pr of None \<Rightarrow> [] | Some t \<Rightarrow> tok_text t))), p))
               | (False, p) \<Rightarrow> (Some (take 255 (tok_text v)), p))))"
    if "check p TOK_IDENT"
  proof -
    have a: "onward p (snd (advance p))" using that assms by (intro onward_advance) (simp_all add: check_def)
    then have m: "onward p (snd (match (snd (advance p)) TOK_DOT))"
      using onward_trans [OF a onward_match] onward_ok by simp
    then have e: "onward p (snd (expect (snd (match (snd (advance p)) TOK_DOT)) TOK_IDENT))"
      using onward_trans [OF m onward_expect] onward_ok by simp
    from m e show ?thesis by (auto split: prod.splits bool.splits)
  qed
  show ?thesis
    using ident assms onward_refl [OF assms] onward_advance [OF assms]
    by (auto simp: parse_value_literal_def onward_def cursor check_def split: prod.splits)
qed

lemma parse_case_loop_reach:
  "\<lbrakk>cur_ok p; ptokens p = ts; a \<le> ppos p; b \<le> ppos p; 8 * length ts + 1 \<le> 8 * ppos p + n\<rbrakk> \<Longrightarrow>
   reach ts a b (parse_case_loop n p bs)"
proof (induction n arbitrary: p bs)
  case 0
  then show ?case using cur_ok_length by fastforce
next
  case (Suc n)
  show ?case
    unfolding parse_case_loop.simps
  proof (intro reach_if)
    assume "check p TOK_WHEN"
    then have "\<not> check p TOK_EOF" by (simp add: check_def)
    then have q: "cur_ok (skip_tok p)" "ptokens (skip_tok p) = ts" "ppos (skip_tok p) = Suc (ppos p)"
      using Suc.prems by (simp_all add: cursor)
    have step: "reach ts a b (case expect r TOK_THEN of
               (None, p) \<Rightarrow> Some (Some bs, p)
             | (Some _, p) \<Rightarrow>
                 (case parse_value_literal p of (then_val, p) \<Rightarrow>
                    parse_case_loop n p (bs @ [\<lparr>cb_when_expr = w, cb_then_val = then_val\<rparr>])))"
      if "cur_ok r" "ptokens r = ts" "Suc (ppos p) \<le> ppos r" for r w
    proof (rule reach_expect)
      fix t q
      assume "cur_ok q" "ptokens q = ts" "ppos q = Suc (ppos r)"
      with that Suc.prems show "reach ts a b (case Some t of None \<Rightarrow> Some (Some bs, q)
          | Some _ \<Rightarrow> (case parse_value_literal q of (then_val, p) \<Rightarrow>
              parse_case_loop n p (bs @ [\<lparr>cb_when_expr = w, cb_then_val = then_val\<rparr>])))"
        unfolding option.case by (intro reach_pair [OF parse_value_literal_onward] Suc.IH) auto
    qed (use that Suc.prems in \<open>auto intro: reach_SomeI\<close>)
    have "reach ts (Suc (ppos p)) (Suc (ppos p)) (parse_or_expr n (skip_tok p))"
      using q Suc.prems by (intro parse_or_expr_reach) auto
    then show "reach ts a b (call_opt (parse_or_expr n (skip_tok p)) (\<lambda>w p.
             case expect p TOK_THEN of
               (None, p) \<Rightarrow> Some (Some bs, p)
             | (Some _, p) \<Rightarrow>
                 (case parse_value_literal p of (then_val, p) \<Rightarrow>
                    parse_case_loop n p (bs @ [\<lparr>cb_when_expr = w, cb_then_val = then_val\<rparr>]))))"
      by (rule reach_call_opt) (rule step)
  qed (use Suc.prems in \<open>auto intro: reach_SomeI\<close>)
qed

lemma parse_case_expr_reach:
  assumes "cur_ok p" "ptokens p = ts" "a \<le> ppos p" "b \<le> ppos p" "8 * length ts + 1 \<le> 8 * ppos p + n"
  shows "reach ts a b (parse_case_expr n p)"
proof -
  have els: "onward q (snd (case match q TOK_ELSE of
      (True, p) \<Rightarrow> parse_value_literal p | (False, p) \<Rightarrow> (None, p)))" if "cur_ok q" for q
    using onward_match [OF that, of TOK_ELSE]
      onward_trans [OF onward_match [OF that, of TOK_ELSE] parse_value_literal_onward] onward_ok
    by (auto split: prod.splits bool.splits)
  show ?thesis
    unfolding parse_case_expr_def
    using assms
    by (intro reach_call [where c = "ppos p"] parse_case_loop_reach)
      (auto intro!: reach_pair [OF els] reach_end)
qed

lemma parse_var_dot_prop_reach:
  assumes "cur_ok p" "ptokens p = ts" "a \<le> ppos p" "b \<le> Suc (ppos p)"
  shows "reach ts a b (parse_var_dot_prop p item)"
  unfolding parse_var_dot_prop_def Let_def
  using assms by (intro reach_need reach_match) (auto intro!: reach_expect reach_SomeI)

lemma open_call_cursor:
  assumes "cur_ok p" "\<not> check p TOK_EOF"
  shows "cur_ok (snd (expect (skip_tok p) TOK_LPAREN))" "ptokens (snd (expect (skip_tok p) TOK_LPAREN)) = ptokens p"
    "Suc (ppos p) \<le> ppos (snd (expect (skip_tok p) TOK_LPAREN))"
  using assms expect_le [of "skip_tok p" TOK_LPAREN] by (simp_all add: cursor)

lemma parse_named_func_item_reach:
  assumes "cur_ok p" "ptokens p = ts" "a \<le> ppos p" "b \<le> Suc (ppos p)" "\<not> check p TOK_EOF"
  shows "reach ts a b (parse_named_func_item p item)"
  unfolding parse_named_func_item_def Let_def
  using assms open_call_cursor [OF assms(1,5)]
  by (auto intro!: reach_call [where c = b] reach_end parse_var_dot_prop_reach)

lemma parse_string_func_item_reach:
  assumes "cur_ok p" "ptokens p = ts" "a \<le> ppos p" "b \<le> Suc (ppos p)" "\<not> check p TOK_EOF"
  shows "reach ts a b (parse_string_func_item p item)"
  unfolding parse_string_func_item_def Let_def
  using assms open_call_cursor [OF assms(1,5)]
  by (auto intro!: reach_call [where c = b] reach_end parse_var_dot_prop_reach)

lemma parse_aggregate_item_reach:
  assumes "cur_ok p" "ptokens p = ts" "a \<le> ppos p" "b \<le> Suc (ppos p)" "\<not> check p TOK_EOF"
  shows "reach ts a b (parse_aggregate_item p item)"
proof -
  let ?q = "snd (expect (skip_tok p) TOK_LPAREN)"
  have arg: "reach ts a b (call (case match q TOK_STAR of
                 (True, p) \<Rightarrow> Some (Some (it\<lparr>ri_variable := Some ''*''\<rparr>), p)
               | (False, p) \<Rightarrow> parse_var_dot_prop p it) (\<lambda>item p.
           Some (Some (item\<lparr>ri_func := Some (agg_func_name ft)\<rparr>), snd (expect p TOK_RPAREN))))"
    if "cur_ok q" "ptokens q = ts" "Suc (ppos p) \<le> ppos q" for q it ft
    using that assms
    by (intro reach_call [where c = b] reach_match reach_end) (auto intro!: reach_SomeI parse_var_dot_prop_reach)
  show ?thesis
    unfolding parse_aggregate_item_def Let_def
    using assms open_call_cursor [OF assms(1,5)] by (intro reach_match arg) auto
qed

lemma parse_func_arg_reach:
  assumes "cur_ok p" "ptokens p = ts" "a \<le> ppos p" "b \<le> Suc (ppos p)"
  shows "reach ts a b (parse_func_arg p)"
  unfolding parse_func_arg_def
  using assms
  by (intro reach_if reach_need reach_match)
    (auto intro!: reach_expect reach_SomeI simp: cursor check_def)

lemma parse_args_loop_reach:
  "\<lbrakk>cur_ok p; ptokens p = ts; a \<le> ppos p; b \<le> ppos p; length ts < ppos p + n\<rbrakk> \<Longrightarrow>
   reach ts a b (parse_args_loop n p args)"
proof (induction n arbitrary: p args)
  case 0
  then show ?case using cur_ok_length by fastforce
next
  case (Suc n)
  let ?q = "if args \<noteq> [] then snd (match p TOK_COMMA) else p"
  have q: "cur_ok ?q" "ptokens ?q = ts" "ppos p \<le> ppos ?q"
    using Suc.prems match_le [of p TOK_COMMA] by (auto simp: cursor)
  show ?case
    unfolding parse_args_loop.simps Let_def
    using Suc.prems q
    by (intro reach_if reach_SomeI reach_call [where c = "Suc (ppos p)"] parse_func_arg_reach Suc.IH) auto
qed

lemma parse_multiarg_func_item_reach:
  assumes "cur_ok p" "ptokens p = ts" "a \<le> ppos p" "b \<le> Suc (ppos p)" "\<not> check p TOK_EOF"
    "length ts < ppos p + n"
  shows "reach ts a b (parse_multiarg_func_item n p item)"
  unfolding parse_multiarg_func_item_def Let_def
  using assms open_call_cursor [OF assms(1,5)]
  by (auto intro!: reach_call [where c = b] reach_end parse_args_loop_reach)

lemma parse_item_body_reach:
  assumes "cur_ok p" "ptokens p = ts" "a \<le> ppos p" "b \<le> Suc (ppos p)" "8 * length ts + 1 \<le> 8 * ppos p + n"
  shows "reach ts a b (parse_item_body n p item)"
proof -
  have n: "length ts < ppos p + n" using assms cur_ok_length [of p] by simp
  have agg: "\<not> check p TOK_EOF" if "is_aggregate_tok (tok_type (peek p)) \<or> is_string_func_tok (tok_type (peek p))"
    using that by (auto simp: check_def is_aggregate_tok_def is_string_func_tok_def)
  have call: "\<not> check p TOK_EOF" if "is_multiarg_func_call p \<or> is_named_func_call p"
    using that by (auto simp: check_def is_multiarg_func_call_def is_named_func_call_def next_is_lparen_def)
  have kase: "reach ts a b (call_opt (parse_case_expr n (skip_tok p)) (\<lambda>kase p.
      Some (Some (item\<lparr>ri_kase := kase, ri_variable := Some ''CASE''\<rparr>), p)))" if "check p TOK_CASE"
  proof (rule reach_call_opt)
    have "\<not> check p TOK_EOF" using that by (simp add: check_def)
    then show "reach ts (Suc (ppos p)) (Suc (ppos p)) (parse_case_expr n (skip_tok p))"
      using assms by (intro parse_case_expr_reach) (simp_all add: cursor)
  qed (use assms in \<open>auto intro!: reach_SomeI\<close>)
  show ?thesis
    unfolding parse_item_body_def
    using assms n agg call kase
    by (intro reach_if kase parse_aggregate_item_reach parse_string_func_item_reach
        parse_multiarg_func_item_reach parse_named_func_item_reach parse_var_dot_prop_reach) auto
qed

lemma parse_return_item_reach:
  assumes "cur_ok p" "ptokens p = ts" "a \<le> ppos p" "b \<le> Suc (ppos p)" "8 * length ts + 1 \<le> 8 * ppos p + n"
  shows "reach ts a b (parse_return_item n p)"
  unfolding parse_return_item_def
  using assms
  by (intro reach_call [where c = b] parse_item_body_reach reach_if reach_match)
    (auto intro!: reach_fail reach_expect reach_SomeI)

section \<open>RETURN and WITH\<close>

lemma onward_case_match:
  assumes "onward p q" "T \<noteq> TOK_EOF" "\<And>r. onward p r \<Longrightarrow> onward p (snd (f True r))" "onward p (snd (f False q))"
  shows "onward p (snd (case match q T of (x, r) \<Rightarrow> f x r))"
proof (cases "check q T")
  case True
  then have "onward p (snd (advance q))"
    using onward_trans [OF assms(1) onward_advance] onward_ok [OF assms(1)] check_not_EOF [OF True assms(2)] by blast
  then show ?thesis using True assms(3) by (simp add: match_def)
qed (use assms in \<open>simp add: match_def\<close>)

lemma onward_case_expect:
  assumes "onward p q" "T \<noteq> TOK_EOF" "\<And>x r. onward p r \<Longrightarrow> onward p (snd (f x r))"
  shows "onward p (snd (case expect q T of (x, r) \<Rightarrow> f x r))"
proof -
  have "onward p (snd (expect q T))" using onward_trans [OF assms(1) onward_expect] onward_ok assms by blast
  then show ?thesis using assms(3) by (cases "expect q T") simp
qed

lemma parse_order_by_expr_onward:
  assumes "onward p q"
  shows "onward p (snd (parse_order_by_expr q))"
proof -
  have var: "onward p (snd (parse_order_by_var q))"
    unfolding parse_order_by_var_def
    using assms by (intro onward_case_expect) (auto intro!: onward_case_match onward_case_expect split: option.splits)
  have agg: "onward p (snd (parse_order_by_agg q))" if "is_aggregate_tok (tok_type (peek q))"
  proof -
    have ne: "\<not> check q TOK_EOF" using that by (auto simp: check_def is_aggregate_tok_def)
    let ?q = "snd (expect (skip_tok q) TOK_LPAREN)"
    have o: "onward p ?q" using assms open_call_cursor [OF onward_ok [OF assms] ne] by (auto simp: onward_def)
    have close: "onward p (snd (case r of (buf, p) \<Rightarrow> (buf, snd (expect p TOK_RPAREN))))"
      if "onward p (snd r)" for r :: "string \<times> parser_t"
      using that onward_trans [OF that onward_expect] onward_ok by (cases r) auto
    show ?thesis
      unfolding parse_order_by_agg_def Let_def
      using o by (intro close onward_case_match) (auto intro!: onward_case_expect)
  qed
  show ?thesis using var agg by (simp add: parse_order_by_expr_def)
qed

lemma parse_order_by_clause_onward:
  assumes "onward p q"
  shows "onward p (snd (parse_order_by_clause q r))"
proof -
  have "onward p (snd (expect q TOK_BY))" using onward_trans [OF assms onward_expect] onward_ok assms by blast
  then have e: "onward p (snd (parse_order_by_expr (snd (expect q TOK_BY))))" by (rule parse_order_by_expr_onward)
  then show ?thesis
    unfolding parse_order_by_clause_def Let_def
    by (cases "parse_order_by_expr (snd (expect q TOK_BY))")
      (auto intro!: onward_case_match)
qed

lemma clause_number_onward:
  assumes "onward p q" "T \<noteq> TOK_EOF"
  shows "onward p (snd (clause_number q T))"
  unfolding clause_number_def
  using assms by (intro onward_case_match) (auto intro!: onward_case_expect split: option.splits)

lemma parse_return_tail_reach:
  assumes "cur_ok p" "ptokens p = ts" "a \<le> ppos p" "b \<le> ppos p"
  shows "reach ts a b (parse_return_tail p r)"
proof -
  have o: "onward p p" using assms by (simp add: onward_refl)
  have order: "onward p (snd (case match p TOK_ORDER of (True, p) \<Rightarrow> parse_order_by_clause p r | (False, p) \<Rightarrow> (r, p)))"
    using o by (intro onward_case_match) (auto intro: parse_order_by_clause_onward)
  have cn: "onward q (snd (clause_number q T))" if "cur_ok q" "T \<noteq> TOK_EOF" for q T
    using that by (intro clause_number_onward onward_refl)
  show ?thesis
    unfolding parse_return_tail_def
    using assms by (intro reach_pair [OF order] reach_pair [OF cn] reach_SomeI) auto
qed

lemma parse_items_loop_reach:
  "\<lbrakk>cur_ok p; ptokens p = ts; a \<le> ppos p; b \<le> ppos p; 8 * length ts + 2 \<le> 8 * ppos p + n\<rbrakk> \<Longrightarrow>
   reach ts a b (parse_items_loop n p items)"
proof (induction n arbitrary: p items)
  case 0
  then show ?case using cur_ok_length by fastforce
next
  case (Suc n)
  let ?q = "if items \<noteq> [] then snd (match p TOK_COMMA) else p"
  have q: "cur_ok ?q" "ptokens ?q = ts" "ppos p \<le> ppos ?q"
    using Suc.prems match_le [of p TOK_COMMA] by (auto simp: cursor)
  show ?case
    unfolding parse_items_loop.simps Let_def
    using Suc.prems q
    by (intro reach_if reach_SomeI reach_call [where c = "Suc (ppos p)"] parse_return_item_reach Suc.IH) auto
qed

lemma parse_return_or_with_reach:
  assumes "cur_ok p" "ptokens p = ts" "a \<le> ppos p" "b \<le> ppos p" "8 * length ts + 2 \<le> 8 * ppos p + n"
  shows "reach ts a b (parse_return_or_with n p is_with)"
proof -
  have star: "reach ts a b (parse_return_tail (snd (match q TOK_STAR)) r)"
    if "cur_ok q" "ptokens q = ts" "ppos p \<le> ppos q" for q r
    using that assms match_le [of q TOK_STAR] by (intro parse_return_tail_reach) (auto simp: cursor)
  have body: "reach ts a b (if \<not> is_with \<and> check q TOK_STAR
             then parse_return_tail (snd (match q TOK_STAR)) (r\<lparr>rc_star := True\<rparr>)
             else call (parse_items_loop n q []) (\<lambda>items p. parse_return_tail p (r\<lparr>rc_items := items\<rparr>)))"
    if "cur_ok q" "ptokens q = ts" "ppos p \<le> ppos q" for q r
    using that assms
    by (intro reach_if star reach_call [where c = b] parse_items_loop_reach parse_return_tail_reach) auto
  have dist: "reach ts a b (case match q TOK_DISTINCT of (dist, p) \<Rightarrow>
             if \<not> is_with \<and> check p TOK_STAR
             then parse_return_tail (snd (match p TOK_STAR)) (zero_return\<lparr>rc_distinct := dist, rc_star := True\<rparr>)
             else call (parse_items_loop n p []) (\<lambda>items p.
                    parse_return_tail p (zero_return\<lparr>rc_distinct := dist, rc_items := items\<rparr>)))"
    if "cur_ok q" "ptokens q = ts" "ppos p \<le> ppos q" for q
    using that by (intro reach_match body) auto
  show ?thesis
    unfolding parse_return_or_with_def Let_def bool.case
    using assms dist by (intro reach_match) (simp_all add: reach_SomeI)
qed

section \<open>Queries\<close>

lemma parse_pattern_loop_reach:
  "\<lbrakk>cur_ok p; ptokens p = ts; a \<le> ppos p; b \<le> ppos p; Suc (length ts) < ppos p + n\<rbrakk> \<Longrightarrow>
   reach ts a b (parse_pattern_loop n p pat)"
proof (induction n arbitrary: p pat)
  case 0
  then show ?case using cur_ok_length by fastforce
next
  case (Suc n)
  show ?case
    unfolding parse_pattern_loop.simps
    using Suc.prems
    by (intro reach_if reach_SomeI reach_call [where c = "Suc (ppos p)"] parse_rel_reach parse_node_reach Suc.IH) auto
qed

lemma parse_match_pattern_reach:
  assumes "cur_ok p" "ptokens p = ts" "a \<le> ppos p" "b \<le> ppos p" "Suc (length ts) < ppos p + n"
  shows "reach ts a b (parse_match_pattern n p)"
  unfolding parse_match_pattern_def
  using assms by (intro reach_call [where c = "ppos p"] parse_node_reach parse_pattern_loop_reach) auto

lemma unwind_loop_reach:
  "\<lbrakk>cur_ok p; ptokens p = ts; a \<le> ppos p; b \<le> ppos p; length ts < ppos p + n\<rbrakk> \<Longrightarrow>
   reach ts a b (unwind_loop n p str)"
proof (induction n arbitrary: p str)
  case 0
  then show ?case using cur_ok_length by fastforce
next
  case (Suc n)
  have step: "reach ts a b (unwind_loop n (snd (match (skip_tok p) TOK_COMMA)) str')"
    if "\<not> check p TOK_EOF" for str'
    using that Suc.prems match_le [of "skip_tok p" TOK_COMMA] by (intro Suc.IH) (auto simp: cursor)
  show ?case
    unfolding unwind_loop.simps Let_def
    using Suc.prems by (intro reach_if step reach_SomeI) auto
qed

lemma reach_oob: "reach ts a b (Some (r, p)) \<Longrightarrow> reach ts a b (Some (r, p\<lparr>poob := x\<rparr>))"
  by (auto simp: reach_def cur_ok_def)

lemma parse_unwind_clause_reach:
  assumes "cur_ok p" "ptokens p = ts" "a \<le> ppos p" "b \<le> ppos p" "length ts < ppos p + n" "\<not> check p TOK_EOF"
  shows "reach ts a b (parse_unwind_clause n p)"
proof -
  let ?q = "skip_tok p"
  have q: "cur_ok ?q" "ptokens ?q = ts" "ppos ?q = Suc (ppos p)" using assms by (simp_all add: cursor)
  have lst: "reach ts a (ppos p) (call (unwind_loop n (skip_tok ?q) ''['') (\<lambda>str p.
      Some (Some (Some (str @ '']'')), (snd (expect p TOK_RBRACKET))
        \<lparr>poob := poob (snd (expect p TOK_RBRACKET)) \<or> UNWIND_BUF \<le> length (str @ '']'')\<rparr>)))"
    if "check ?q TOK_LBRACKET"
  proof -
    have "\<not> check ?q TOK_EOF" using that by (simp add: check_def)
    then show ?thesis
      using assms q
      by (intro reach_call [where c = "ppos p"] unwind_loop_reach reach_oob reach_end) (simp_all add: cursor)
  qed
  have idt: "reach ts a (ppos p) (case advance ?q of (t, p) \<Rightarrow> Some (Some (Some (tok_text t)), p))"
    if "check ?q TOK_IDENT"
    using that assms q by (intro reach_advance) (auto intro!: reach_SomeI simp: check_def)
  have src: "reach ts a (ppos p) (if check ?q TOK_LBRACKET
            then call (unwind_loop n (skip_tok ?q) ''['') (\<lambda>str p.
                   let p = snd (expect p TOK_RBRACKET); str = str @ '']''
                   in Some (Some (Some str), p\<lparr>poob := poob p \<or> UNWIND_BUF \<le> length str\<rparr>))
            else if check ?q TOK_IDENT
            then (case advance ?q of (t, p) \<Rightarrow> Some (Some (Some (tok_text t)), p))
            else Some (Some None, ?q))"
    unfolding Let_def using assms q by (intro reach_if lst idt reach_SomeI) auto
  have fin: "reach ts a b (case expect (snd (expect q TOK_AS)) TOK_IDENT of (alias, p) \<Rightarrow>
          Some (Some (expr, opt_text alias), p))"
    if "cur_ok q" "ptokens q = ts" "a \<le> ppos q" "ppos p \<le> ppos q" for q and expr :: cstr
    using that assms expect_le [of q TOK_AS] by (intro reach_expect) (auto intro!: reach_SomeI simp: cursor)
  show ?thesis
    unfolding parse_unwind_clause_def Let_def
    using reach_call [OF src [unfolded Let_def] fin] .
qed

lemma parse_match_chain_reach:
  "\<lbrakk>cur_ok p; ptokens p = ts; a \<le> ppos p; b \<le> ppos p; Suc (length ts) < ppos p + n\<rbrakk> \<Longrightarrow>
   reach ts a b (parse_match_chain n p pats opts)"
proof (induction n arbitrary: p pats opts)
  case 0
  then show ?case using cur_ok_length by fastforce
next
  case (Suc n)
  let ?q = "if check p TOK_OPTIONAL then skip_tok p else p"
  have q: "cur_ok ?q" "ptokens ?q = ts" "ppos p \<le> ppos ?q"
    using Suc.prems check_not_EOF [of p TOK_OPTIONAL] by (auto simp: cursor)
  have pat: "reach ts a b (call (parse_match_pattern n r) (\<lambda>pat p.
      parse_match_chain n p (pats @ [pat]) (opts @ [check p0 TOK_OPTIONAL])))"
    if "cur_ok r" "ptokens r = ts" "ppos r = Suc (ppos ?q)" for r p0
    using that q Suc.prems
    by (intro reach_call [where c = "ppos r"] parse_match_pattern_reach Suc.IH) auto
  show ?case
    unfolding parse_match_chain.simps Let_def
    using Suc.prems q by (intro reach_if reach_expect) (simp_all add: pat reach_SomeI)
qed

lemma parse_with_part_reach:
  assumes "cur_ok p" "ptokens p = ts" "a \<le> ppos p" "b \<le> ppos p" "8 * length ts + 2 \<le> 8 * ppos p + n"
  shows "reach ts a b (parse_with_part n p)"
  unfolding parse_with_part_def
  using assms
  by (intro reach_if reach_call [where c = "ppos p"] parse_return_or_with_reach parse_where_reach reach_SomeI) auto

lemma parse_head_reach:
  assumes "cur_ok p" "ptokens p = ts" "a \<le> ppos p" "b \<le> ppos p" "length ts < ppos p + n"
  shows "reach ts a b (parse_head n p)"
  unfolding parse_head_def
  using assms by (intro reach_if parse_unwind_clause_reach reach_SomeI) (auto simp: check_def)

definition ends_EOF :: "cbm_token_t list \<Rightarrow> bool" where
  "ends_EOF tokens \<longleftrightarrow> tokens \<noteq> [] \<and> tok_type (last tokens) = TOK_EOF"

lemma start_parser_ok: "ends_EOF tokens \<Longrightarrow> cur_ok (start_parser tokens)"
  "ptokens (start_parser tokens) = tokens" "ppos (start_parser tokens) = 0"
  by (simp_all add: cur_ok_def start_parser_def ends_EOF_def)

lemma returned_terminates:
  assumes "reach ts a b m" "\<And>x q. \<lbrakk>cur_ok q; ptokens q = ts; a \<le> ppos q\<rbrakk> \<Longrightarrow> k x q \<noteq> None"
  shows "returned m msg k \<noteq> None"
proof (rule reachE [OF assms(1)])
  fix r q
  assume "m = Some (r, q)" "cur_ok q" "ptokens q = ts" "a \<le> ppos q"
  with assms(2) show ?thesis by (cases r) (auto simp: returned_def)
qed

lemma parse_post_where_reach:
  assumes "cur_ok p" "ptokens p = ts" "a \<le> ppos p" "b \<le> ppos p" "8 * length ts + 4 \<le> 8 * ppos p + n"
    and sub: "\<And>k. \<lbrakk>ppos p < k; k < length ts\<rbrakk> \<Longrightarrow> rest (drop k ts) \<noteq> None"
  shows "reach ts a b (parse_post_where rest n p pats opts)"
proof -
  define un where "un = (\<lambda>(all, p :: parser_t) pats opts wc pw ret.
     case rest (drop (ppos p) (ptokens p)) of
       None \<Rightarrow> None
     | Some (Inl e, oob) \<Rightarrow> Some (None, set_error (p\<lparr>poob := poob p \<or> oob\<rparr>) e)
     | Some (Inr q, oob) \<Rightarrow>
         Some (Some (pats, opts, wc, pw, ret, Some q, all) :: post_where_t option, p\<lparr>poob := poob p \<or> oob\<rparr>))"
  have un: "reach ts a b (un (match (skip_tok q) TOK_ALL) pats opts wc pw ret)"
    if "cur_ok q" "ptokens q = ts" "ppos p \<le> ppos q" "check q TOK_UNION" for q pats opts wc pw ret
  proof -
    let ?r = "snd (match (skip_tok q) TOK_ALL)"
    have "\<not> check q TOK_EOF" using that by (simp add: check_def)
    then have r: "cur_ok ?r" "ptokens ?r = ts" "Suc (ppos q) \<le> ppos ?r"
      using that match_le [of "skip_tok q" TOK_ALL] by (simp_all add: cursor)
    have "rest (drop (ppos ?r) (ptokens ?r)) \<noteq> None"
      unfolding r(2) using r that cur_ok_length [of ?r] by (intro sub) simp_all
    with r that assms show ?thesis
      by (auto simp: un_def split_def split: option.splits sum.splits prod.splits
          intro!: reach_oob reach_SomeI reach_fail [of "parser_t.poob_update _ _"])
        (auto simp: reach_def cur_ok_def set_error_def)
  qed
  have rest: "reach ts a b (if check q TOK_UNION then un (match (skip_tok q) TOK_ALL) pats opts wc pw ret
      else Some (Some (pats, opts, wc, pw, ret, None, False), q))"
    if "cur_ok q" "ptokens q = ts" "a \<le> ppos q" "ppos p \<le> ppos q" for q pats opts wc pw ret
    using that assms by (intro reach_if un reach_SomeI) auto
  have tail: "reach ts a b (call (parse_with_part n q) (\<lambda>(wc, pw) p.
           call (parse_return n p) (\<lambda>ret p.
             if check p TOK_UNION then un (match (skip_tok p) TOK_ALL) pats opts wc pw ret
             else Some (Some (pats, opts, wc, pw, ret, None, False), p))))"
    if q: "cur_ok q" "ptokens q = ts" "a \<le> ppos q" "ppos p \<le> ppos q" for q pats opts
  proof -
    have w: "reach ts a (ppos p) (parse_with_part n q)" using q assms by (intro parse_with_part_reach) auto
    have r: "reach ts a (ppos p) (parse_return n q')"
      if "cur_ok q'" "ptokens q' = ts" "a \<le> ppos q'" "ppos p \<le> ppos q'" for q'
      unfolding parse_return_def using that assms by (intro parse_return_or_with_reach) auto
    have c: "reach ts a b (call (parse_return n q') (\<lambda>ret p.
             if check p TOK_UNION then un (match (skip_tok p) TOK_ALL) pats opts wc pw ret
             else Some (Some (pats, opts, wc, pw, ret, None, False), p)))"
      if "cur_ok q'" "ptokens q' = ts" "a \<le> ppos q'" "ppos p \<le> ppos q'" for q' wc pw
      by (rule reach_call [OF r [OF that]]) (rule rest)
    show ?thesis by (rule reach_call [OF w]) (simp add: split_def c)
  qed
  have "reach ts a (ppos p) (parse_match_chain n p pats opts)"
    using assms cur_ok_length [of p] by (intro parse_match_chain_reach) auto
  then have "reach ts a b (call (parse_match_chain n p pats opts) (\<lambda>(pats, opts) p.
       case unsupported_clause_error (tok_type (peek p)) of
         Some unsup \<Rightarrow> Some (None, set_error p (ErrorText unsup))
       | None \<Rightarrow> call (parse_with_part n p) (\<lambda>(wc, pw) p.
           call (parse_return n p) (\<lambda>ret p.
             if check p TOK_UNION then un (match (skip_tok p) TOK_ALL) pats opts wc pw ret
             else Some (Some (pats, opts, wc, pw, ret, None, False), p)))))"
    by (rule reach_call) (simp add: split_def reach_fail tail [unfolded split_def] split: option.split)
  then show ?thesis unfolding parse_post_where_def un_def split_def by simp
qed

lemma cbm_parse_step:
  assumes "ends_EOF tokens" "8 * length tokens + 8 \<le> n"
    and sub: "\<And>m toks. \<lbrakk>m < n; ends_EOF toks; 8 * length toks + 8 \<le> m\<rbrakk> \<Longrightarrow> cbm_parse m toks \<noteq> None"
  shows "cbm_parse n tokens \<noteq> None"
proof -
  obtain m where n: "n = Suc m" using assms(2) by (cases n) auto
  let ?p = "start_parser tokens"
  note st = start_parser_ok(1) [OF assms(1)] start_parser_ok(2,3) [of tokens]
  have len: "0 < length tokens" using assms(1) by (simp add: ends_EOF_def)
  have post: "returned (parse_post_where (cbm_parse m) m q pats opts) msg (\<lambda>(pats, opts, wc, pw, ret, un, all) p.
      Some (Inr (cbm_query pats opts w wc pw ret un all ue ua), poob p)) \<noteq> None"
    if "cur_ok q" "ptokens q = tokens" for q pats opts msg w ue ua
  proof (rule returned_terminates)
    have "cbm_parse m (drop k tokens) \<noteq> None" if "0 < k" "k < length tokens" for k
      using that assms(1,2) n by (intro sub) (auto simp: ends_EOF_def)
    then show "reach tokens 0 0 (parse_post_where (cbm_parse m) m q pats opts)"
      using that assms(2) n by (intro parse_post_where_reach) auto
  qed (simp add: split_def)
  have wh: "returned (parse_where m q) msg k \<noteq> None"
    if "cur_ok q" "ptokens q = tokens" "\<And>w r. \<lbrakk>cur_ok r; ptokens r = tokens\<rbrakk> \<Longrightarrow> k w r \<noteq> None" for q msg
      and k :: "cbm_where_clause_t option \<Rightarrow> parser_t \<Rightarrow> ((parse_error + cbm_query_t) \<times> bool) option"
    by (rule returned_terminates [OF parse_where_reach [of q tokens 0 0]]) (use that assms n in auto)
  have ch: "returned (parse_match_chain m q pats opts) msg k \<noteq> None"
    if "cur_ok q" "ptokens q = tokens" "\<And>w r. \<lbrakk>cur_ok r; ptokens r = tokens\<rbrakk> \<Longrightarrow> k w r \<noteq> None" for q msg pats opts
      and k :: "(cbm_pattern_t list \<times> bool list) \<Rightarrow> parser_t \<Rightarrow> ((parse_error + cbm_query_t) \<times> bool) option"
    by (rule returned_terminates [OF parse_match_chain_reach [of q tokens 0 0]]) (use that assms n len in auto)
  have pa: "returned (parse_match_pattern m q) msg k \<noteq> None"
    if "cur_ok q" "ptokens q = tokens" "\<And>w r. \<lbrakk>cur_ok r; ptokens r = tokens\<rbrakk> \<Longrightarrow> k w r \<noteq> None" for q msg
      and k :: "cbm_pattern_t \<Rightarrow> parser_t \<Rightarrow> ((parse_error + cbm_query_t) \<times> bool) option"
    by (rule returned_terminates [OF parse_match_pattern_reach [of q tokens 0 0]]) (use that assms n len in auto)
  have hd: "returned (parse_head m q) msg k \<noteq> None"
    if "cur_ok q" "ptokens q = tokens" "\<And>w r. \<lbrakk>cur_ok r; ptokens r = tokens\<rbrakk> \<Longrightarrow> k w r \<noteq> None" for q msg
      and k :: "(cstr \<times> cstr) \<Rightarrow> parser_t \<Rightarrow> ((parse_error + cbm_query_t) \<times> bool) option"
    by (rule returned_terminates [OF parse_head_reach [of q tokens 0 0]]) (use that assms n len in auto)
  have mt: "(case fst (expect q TOK_MATCH) of None \<Rightarrow> Some (Inl (error_or (snd (expect q TOK_MATCH)) msg), poob (snd (expect q TOK_MATCH)))
      | Some t \<Rightarrow> k (snd (expect q TOK_MATCH))) \<noteq> None"
    if "cur_ok q" "ptokens q = tokens" "\<And>r. \<lbrakk>cur_ok r; ptokens r = tokens\<rbrakk> \<Longrightarrow> k r \<noteq> None" for q msg
      and k :: "parser_t \<Rightarrow> ((parse_error + cbm_query_t) \<times> bool) option"
    using that expect_cursor [of q TOK_MATCH] by (auto split: prod.splits option.splits)
  have opt: "cur_ok (if check q TOK_OPTIONAL then skip_tok q else q)"
    "ptokens (if check q TOK_OPTIONAL then skip_tok q else q) = tokens" if "cur_ok q" "ptokens q = tokens" for q
    using that check_not_EOF [of q TOK_OPTIONAL] by (auto simp: cursor)
  show ?thesis
  proof (cases "unsupported_clause_error (tok_type (peek ?p))")
    case None
    show ?thesis
      unfolding n cbm_parse.simps Let_def None option.case
      by (rule hd [OF st(1,2)], unfold split_def, rule mt, (erule (1) opt)+, rule pa, assumption+,
          rule ch, assumption+, rule wh, assumption+, rule post [unfolded split_def])
  qed (simp add: n Let_def)
qed

lemma cbm_parse_terminates:
  "ends_EOF tokens \<Longrightarrow> 8 * length tokens + 8 \<le> n \<Longrightarrow> cbm_parse n tokens \<noteq> None"
  by (induction n arbitrary: tokens rule: less_induct) (rule cbm_parse_step)

lemma lex_ends_EOF: "cbm_lex s = Some tokens \<Longrightarrow> ends_EOF tokens"
  using lex_loop_lexed by (auto simp: cbm_lex_def ends_EOF_def lexed_def split: option.splits)

text \<open>
  C31. Parsing a query ends, whatever the query is: every loop and every recursion of the parser
  uses up tokens, so fuel proportional to the number of tokens is always enough.
\<close>

theorem cypher_parse_terminates: "\<exists>r. cbm_cypher_parse query = Some r"
proof -
  have "cbm_cypher_parse query \<noteq> None"
    using cbm_parse_terminates lex_ends_EOF [of query]
    by (auto simp: cbm_cypher_parse_def parse_fuel_def split: option.splits)
  then show ?thesis by blast
qed

definition in_bounds :: "parser_t \<Rightarrow> 'a pres \<Rightarrow> bool" where
  \<comment> \<open>a parser that started at \<open>p\<close> has returned, and its cursor is where it may be\<close>
  "in_bounds p m \<longleftrightarrow> (\<exists>r q. m = Some (r, q) \<and> ptokens q = ptokens p \<and> ppos p \<le> ppos q \<and> ppos q < length (ptokens p))"

lemma reach_in_bounds: "reach (ptokens p) (ppos p) b m \<Longrightarrow> in_bounds p m"
  by (auto simp: in_bounds_def elim!: reachE dest: cur_ok_length)

text \<open>
  C32. From a cursor inside a token array that ends with the end-of-input token, each of the parsers that
  \<open>cbm_parse\<close> puts together (\<open>UNWIND\<close>, a pattern, the chain of further patterns, \<open>WHERE\<close>, \<open>RETURN\<close> or \<open>WITH\<close>, \<open>WITH\<close> with its
  look behind the cursor, and all that follows the first \<open>WHERE\<close>) returns, whether it
  succeeds or fails, with the array unchanged and a cursor that has not moved back and is still inside the
  array. For \<open>UNION\<close> the rest of the array is parsed by a call of \<open>cbm_parse\<close>: nothing is asked of that call (\<open>rest\<close>) except that it
  returns on proper suffixes of the array that are not empty, so no other array is ever passed to it. The fuel is what \<open>cbm_cypher_parse\<close> provides.
\<close>

theorem parser_cursor_in_bounds:
  assumes "ends_EOF (ptokens p)" "ppos p < length (ptokens p)" "8 * length (ptokens p) + 8 \<le> n"
    and "\<forall>k. ppos p < k \<and> k < length (ptokens p) \<longrightarrow> rest (drop k (ptokens p)) \<noteq> None"
  shows "in_bounds p (parse_head n p) \<and> in_bounds p (parse_match_pattern n p) \<and> in_bounds p (parse_match_chain n p pats opts) \<and>
    in_bounds p (parse_where n p) \<and> in_bounds p (parse_return_or_with n p is_with) \<and> in_bounds p (parse_with_part n p) \<and>
    in_bounds p (parse_post_where rest n p pats opts)"
proof -
  have ok: "cur_ok p" using assms by (simp add: cur_ok_def ends_EOF_def)
  show ?thesis
    using ok assms
    by (intro conjI reach_in_bounds [where b = 0] parse_head_reach parse_match_pattern_reach parse_match_chain_reach parse_where_reach
        parse_return_or_with_reach parse_with_part_reach parse_post_where_reach) auto
qed

theorem parser_cursor_in_bounds_witness:
  "in_bounds (start_parser [\<lparr>tok_type = TOK_UNWIND, tok_text = ''UNWIND'', tok_pos = 0\<rparr>, \<lparr>tok_type = TOK_EOF, tok_text = [], tok_pos = 6\<rparr>])
     (parse_head 24 (start_parser [\<lparr>tok_type = TOK_UNWIND, tok_text = ''UNWIND'', tok_pos = 0\<rparr>, \<lparr>tok_type = TOK_EOF, tok_text = [], tok_pos = 6\<rparr>])) \<and>
   in_bounds (start_parser [\<lparr>tok_type = TOK_UNION, tok_text = ''UNION'', tok_pos = 0\<rparr>, \<lparr>tok_type = TOK_EOF, tok_text = [], tok_pos = 5\<rparr>])
     (parse_post_where (cbm_parse 24) 24
       (start_parser [\<lparr>tok_type = TOK_UNION, tok_text = ''UNION'', tok_pos = 0\<rparr>, \<lparr>tok_type = TOK_EOF, tok_text = [], tok_pos = 5\<rparr>]) [] [])"
proof -
  let ?p = "start_parser [\<lparr>tok_type = TOK_UNWIND, tok_text = ''UNWIND'', tok_pos = 0\<rparr>, \<lparr>tok_type = TOK_EOF, tok_text = [], tok_pos = 6\<rparr>]"
  let ?q = "start_parser [\<lparr>tok_type = TOK_UNION, tok_text = ''UNION'', tok_pos = 0\<rparr>, \<lparr>tok_type = TOK_EOF, tok_text = [], tok_pos = 5\<rparr>]"
  have fit: "ends_EOF (ptokens r)" "ppos r < length (ptokens r)" "8 * length (ptokens r) + 8 \<le> 24" if "r = ?p \<or> r = ?q" for r
    using that by (auto simp: ends_EOF_def start_parser_def)
  have rest: "\<forall>k. ppos r < k \<and> k < length (ptokens r) \<longrightarrow> cbm_parse 24 (drop k (ptokens r)) \<noteq> None" if "r = ?p \<or> r = ?q" for r
    using fit [OF that] cbm_parse_terminates [of "drop k (ptokens r)" 24 for k] by (auto simp: ends_EOF_def)
  show ?thesis
    using parser_cursor_in_bounds [OF fit rest, of ?p] parser_cursor_in_bounds [OF fit rest, of ?q] by simp
qed

end
