(* ===== verification/CypherPrint.thy ===== *)
theory CypherPrint
  imports CypherCursor
begin

text \<open>
  Printing of patterns and boolean expressions as tokens, and the proof that the parser reads
  back what was printed: precedence and association of the boolean operators, and every
  part of node and relationship patterns.
\<close>

named_theorems viewing

section \<open>The tokens ahead\<close>

type_synonym ptok = "cbm_token_type_t \<times> string"

definition view :: "parser_t \<Rightarrow> ptok list" where
  \<comment> \<open>what the parser sees of the tokens from its cursor on\<close>
  "view p = map (\<lambda>t. (tok_type t, tok_text t)) (drop (ppos p) (ptokens p))"

definition nxt :: "parser_t \<Rightarrow> parser_t" where
  "nxt p = p\<lparr>ppos := Suc (ppos p)\<rparr>"

definition same :: "parser_t \<Rightarrow> parser_t \<Rightarrow> bool" where
  "same p q \<longleftrightarrow> ptokens q = ptokens p \<and> perror q = perror p \<and> poob q = poob p"

lemma same_refl [viewing]: "same p p"
  by (simp add: same_def)

lemma same_nxt [viewing]: "same p (nxt q) = same p q" "same (nxt p) q = same p q"
  by (simp_all add: same_def nxt_def)

lemma same_trans: "same p q \<Longrightarrow> same q r \<Longrightarrow> same p r"
  by (simp add: same_def)

lemma view_nxt [viewing]: "view (nxt p) = tl (view p)"
  by (simp add: view_def nxt_def drop_Suc drop_tl flip: map_tl)

lemma view_pos: "view p \<noteq> [] \<Longrightarrow> ppos p < length (ptokens p)"
  by (simp add: view_def)

lemma view_hd:
  assumes "view p \<noteq> []"
  shows "hd (view p) = (tok_type (peek p), tok_text (peek p))"
proof -
  have "drop (ppos p) (ptokens p) = (ptokens p ! ppos p) # drop (Suc (ppos p)) (ptokens p)"
    using view_pos [OF assms] by (simp add: Cons_nth_drop_Suc)
  then show ?thesis using view_pos [OF assms] by (simp add: view_def peek_def)
qed

lemma view_peek [viewing]:
  assumes "view p \<noteq> []"
  shows "tok_type (peek p) = fst (hd (view p))" "tok_text (peek p) = snd (hd (view p))"
  by (simp_all add: view_hd [OF assms])

lemma view_check [viewing]: "view p \<noteq> [] \<Longrightarrow> check p T \<longleftrightarrow> fst (hd (view p)) = T"
  by (simp add: check_def viewing)

lemma view_advance [viewing]: "view p \<noteq> [] \<Longrightarrow> advance p = (peek p, nxt p)"
  using view_pos [of p] by (simp add: advance_def peek_def nxt_def)

lemma view_skip [viewing]: "view p \<noteq> [] \<Longrightarrow> skip_tok p = nxt p"
  by (simp add: skip_tok_def viewing)

lemma view_match [viewing]:
  "view p \<noteq> [] \<Longrightarrow> match p T = (if fst (hd (view p)) = T then (True, nxt p) else (False, p))"
  by (simp add: match_def viewing)

lemma view_expect [viewing]:
  "view p \<noteq> [] \<Longrightarrow> fst (hd (view p)) = T \<Longrightarrow> expect p T = (Some (peek p), nxt p)"
  by (simp add: expect_def viewing)

lemma need_Some [viewing]: "need (Some t, p) k = k t p"
  by (simp add: need_def)

lemma call_Some [viewing]: "call (Some (Some x, p)) k = k x p" "call_opt (Some (x', p)) k' = k' x' p"
  by (simp_all add: call_def call_opt_def)

definition yields :: "'a pres \<Rightarrow> parser_t \<Rightarrow> 'a \<Rightarrow> ptok list \<Rightarrow> bool" where
  \<comment> \<open>the call succeeds with \<open>x\<close>, reports nothing and leaves \<open>rest\<close> ahead\<close>
  "yields m p x rest \<longleftrightarrow> (\<exists>q. m = Some (Some x, q) \<and> view q = rest \<and> same p q)"

lemma yields_nxt [viewing]: "yields m (nxt p) x rest = yields m p x rest"
  by (simp add: yields_def viewing)

lemma yieldsI: "view q = rest \<Longrightarrow> same p q \<Longrightarrow> yields (Some (Some x, q)) p x rest"
  by (auto simp: yields_def)

lemma yieldsE:
  assumes "yields m p x rest"
  obtains q where "m = Some (Some x, q)" "view q = rest" "same p q"
  using assms by (auto simp: yields_def)

section \<open>Boolean expressions\<close>

definition reads :: "(nat \<Rightarrow> parser_t \<Rightarrow> 'a pres) \<Rightarrow> nat \<Rightarrow> cbm_token_type_t set \<Rightarrow> 'a \<Rightarrow> ptok list \<Rightarrow> bool" where
  \<comment> \<open>\<open>f\<close> reads \<open>x\<close> from the tokens \<open>ts\<close>, if a token outside \<open>stop\<close> follows and the fuel is enough\<close>
  "reads f d stop x ts \<longleftrightarrow>
     (\<forall>n p rest. view p = ts @ rest \<and> rest \<noteq> [] \<and> fst (hd rest) \<notin> stop \<and> 8 * length (view p) + d \<le> n \<longrightarrow>
        yields (f n p) p x rest)"

lemma readsD:
  "\<lbrakk>reads f d stop x ts; view p = ts @ rest; rest \<noteq> []; fst (hd rest) \<notin> stop; 8 * length (ts @ rest) + d \<le> n\<rbrakk>
   \<Longrightarrow> yields (f n p) p x rest"
  by (simp add: reads_def)

context binop_level
begin

definition continues :: "nat \<Rightarrow> cbm_token_type_t set \<Rightarrow> cbm_expr_t \<Rightarrow> ptok list \<Rightarrow> bool" where
  \<comment> \<open>after \<open>ts\<close> the level is in its loop with the tree \<open>e\<close> built so far\<close>
  "continues d stop e ts \<longleftrightarrow>
     (\<forall>n p rest. view p = ts @ rest \<and> rest \<noteq> [] \<and> fst (hd rest) \<notin> stop \<and> 8 * length (view p) + Suc d \<le> n \<longrightarrow>
        (\<exists>m q. level n p = loop m e q \<and> view q = rest \<and> same p q \<and> 8 * length rest + 1 \<le> m))"

lemma continues_operand:
  assumes "reads lower d stop e ts" "0 < d"
  shows "continues d stop e ts"
  unfolding continues_def
proof (intro allI impI)
  fix n p rest
  assume p: "view p = ts @ rest \<and> rest \<noteq> [] \<and> fst (hd rest) \<notin> stop \<and> 8 * length (view p) + Suc d \<le> n"
  then obtain m where n: "n = Suc m" by (cases n) auto
  have "yields (lower m p) p e rest" using p n assms by (intro readsD [OF assms(1)]) auto
  then obtain q where "lower m p = Some (Some e, q)" "view q = rest" "same p q" by (rule yieldsE)
  with p n assms(2) show "\<exists>m q. level n p = loop m e q \<and> view q = rest \<and> same p q \<and> 8 * length rest + 1 \<le> m"
    by (intro exI [of _ m] exI [of _ q]) (auto simp: level_Suc viewing)
qed

lemma continues_operator:
  assumes "continues d stop l lts" "reads lower d stop r rts" "tok \<notin> stop" "d \<le> 8"
  shows "continues d stop (con l r) (lts @ (tok, x) # rts)"
  unfolding continues_def
proof (intro allI impI)
  fix n p rest
  assume p: "view p = (lts @ (tok, x) # rts) @ rest \<and> rest \<noteq> [] \<and> fst (hd rest) \<notin> stop \<and> 8 * length (view p) + Suc d \<le> n"
  let ?r = "(tok, x) # rts @ rest"
  have "\<exists>m q. level n p = loop m l q \<and> view q = ?r \<and> same p q \<and> 8 * length ?r + 1 \<le> m"
    using assms(1) [unfolded continues_def, rule_format, of p ?r n] assms(3) p by auto
  then obtain m q where m: "level n p = loop m l q" "view q = ?r" "same p q" "8 * length ?r + 1 \<le> m" by blast
  then obtain k where k: "m = Suc k" by (cases m) auto
  have "yields (lower k (nxt q)) (nxt q) r rest"
    using m k p assms(4) by (intro readsD [OF assms(2)]) (auto simp: viewing)
  then obtain q' where q': "lower k (nxt q) = Some (Some r, q')" "view q' = rest" "same (nxt q) q'" by (rule yieldsE)
  have "level n p = loop k (con l r) q'" using m k q' by (simp add: loop_Suc viewing)
  moreover have "same p q'" using m q' by (auto simp: same_def nxt_def)
  ultimately show "\<exists>m q. level n p = loop m (con l r) q \<and> view q = rest \<and> same p q \<and> 8 * length rest + 1 \<le> m"
    using q' m k by (intro exI [of _ k] exI [of _ q']) simp
qed

lemma continues_reads:
  assumes "continues d stop e ts"
  shows "reads level (Suc d) (insert tok stop) e ts"
  unfolding reads_def
proof (intro allI impI)
  fix n p rest
  assume p: "view p = ts @ rest \<and> rest \<noteq> [] \<and> fst (hd rest) \<notin> insert tok stop \<and> 8 * length (view p) + Suc d \<le> n"
  then obtain m q where m: "level n p = loop m e q" "view q = rest" "same p q" "8 * length rest + 1 \<le> m"
    using assms unfolding continues_def by blast
  then obtain k where "m = Suc k" by (cases m) auto
  with m p show "yields (level n p) p e rest" by (auto simp: loop_Suc viewing intro: yieldsI)
qed

end

section \<open>Conditions\<close>

definition op_tokens :: "(string \<times> ptok list) list" where
  "op_tokens = [(''='', [(TOK_EQ, ''='')]), (''<>'', [(TOK_NEQ, ''<>'')]), (''=~'', [(TOK_EQTILDE, ''=~'')]),
     (''>='', [(TOK_GTE, ''>='')]), (''<='', [(TOK_LTE, ''<='')]), (''>'', [(TOK_GT, ''>'')]),
     (''<'', [(TOK_LT, ''<'')]), (''CONTAINS'', [(TOK_CONTAINS, ''CONTAINS'')]),
     (''STARTS WITH'', [(TOK_STARTS, ''STARTS''), (TOK_WITH, ''WITH'')]),
     (''ENDS WITH'', [(TOK_ENDS, ''ENDS''), (TOK_WITH, ''WITH'')])]"

definition pr_values :: "string list \<Rightarrow> ptok list" where
  "pr_values vs = tl (concat (map (\<lambda>v. [(TOK_COMMA, '',''), (TOK_STRING, v)]) vs))"

definition pr_path :: "cbm_condition_t \<Rightarrow> ptok list" where
  "pr_path c = (TOK_IDENT, the (c_variable c)) #
     (case c_property c of None \<Rightarrow> [] | Some q \<Rightarrow> [(TOK_DOT, ''.''), (TOK_IDENT, q)])"

definition pr_exists :: "cbm_condition_t \<Rightarrow> ptok list" where
  "pr_exists c =
     [(TOK_EXISTS, ''EXISTS''), (TOK_LBRACE, ''{''), (TOK_LPAREN, ''(''), (TOK_IDENT, the (c_variable c)), (TOK_RPAREN, '')'')] @
     (if c_exists_dir c = 1 then [(TOK_LT, ''<'')] else []) @ [(TOK_DASH, ''-'')] @
     (case c_value c of None \<Rightarrow> []
      | Some t \<Rightarrow> [(TOK_LBRACKET, ''[''), (TOK_COLON, '':''), (TOK_IDENT, t), (TOK_RBRACKET, '']'')]) @
     [(TOK_DASH, ''-'')] @ (if c_exists_dir c = 0 then [(TOK_GT, ''>'')] else []) @
     [(TOK_LPAREN, ''(''), (TOK_RPAREN, '')''), (TOK_RBRACE, ''}'')]"

definition pr_cond :: "cbm_condition_t \<Rightarrow> ptok list" where
  "pr_cond c =
     (let op = the (c_op c) in
      if op = ''HAS_LABEL'' then pr_path c @ [(TOK_COLON, '':''), (TOK_IDENT, the (c_value c))]
      else if op = ''IS NULL'' then pr_path c @ [(TOK_IS, ''IS''), (TOK_NULL_KW, ''NULL'')]
      else if op = ''IS NOT NULL'' then pr_path c @ [(TOK_IS, ''IS''), (TOK_NOT, ''NOT''), (TOK_NULL_KW, ''NULL'')]
      else if op = ''IN'' then pr_path c @ [(TOK_IN, ''IN''), (TOK_LBRACKET, ''['')] @
        pr_values (c_in_values c) @ [(TOK_RBRACKET, '']'')]
      else if op = ''EXISTS'' then pr_exists c
      else pr_path c @ the (map_of op_tokens op) @ [(TOK_STRING, the (c_value c))])"

definition wf_cond :: "cbm_condition_t \<Rightarrow> bool" where
  "wf_cond c \<longleftrightarrow>
     c_variable c \<noteq> None \<and> \<not> c_negated c \<and> c_op c \<noteq> None \<and>
     (let op = the (c_op c) in
      if op = ''HAS_LABEL''
      then c_property c = None \<and> c_value c \<noteq> None \<and> c_in_values c = [] \<and> c_exists_dir c = 0
      else if op = ''IS NULL'' \<or> op = ''IS NOT NULL''
      then c_value c = None \<and> c_in_values c = [] \<and> c_exists_dir c = 0
      else if op = ''IN'' then c_value c = None \<and> c_exists_dir c = 0
      else if op = ''EXISTS''
      then c_property c = None \<and> c_in_values c = [] \<and> c_exists_dir c \<in> {0, 1, 2}
      else op \<in> set (map fst op_tokens) \<and> c_value c \<noteq> None \<and> c_in_values c = [] \<and> c_exists_dir c = 0)"

lemma in_loop_view:
  "\<lbrakk>view p = concat (map (\<lambda>v. [(TOK_COMMA, '',''), (TOK_STRING, v)]) vs) @ (TOK_RBRACKET, x) # rest;
    acc \<noteq> []; length vs < n\<rbrakk> \<Longrightarrow>
   yields (parse_in_loop n p acc) p (acc @ vs) ((TOK_RBRACKET, x) # rest)"
proof (induction vs arbitrary: p acc n)
  case Nil
  then obtain m where "n = Suc m" by (cases n) auto
  with Nil show ?case by (auto simp: viewing intro: yieldsI)
next
  case (Cons v vs)
  then obtain m where n: "n = Suc m" by (cases n) auto
  have "yields (parse_in_loop m (nxt (nxt p)) (acc @ [v])) (nxt (nxt p)) ((acc @ [v]) @ vs) ((TOK_RBRACKET, x) # rest)"
    using Cons.prems n by (intro Cons.IH) (simp_all add: viewing)
  then show ?case using Cons.prems n by (simp add: viewing)
qed

lemma in_list_view:
  assumes "view p = (TOK_IN, y) # (TOK_LBRACKET, z) # pr_values vs @ (TOK_RBRACKET, x) # rest" "length vs < n" "rest \<noteq> []"
  shows "yields (parse_in_list n p c) p (expr_leaf (c\<lparr>c_op := Some ''IN'', c_in_values := vs\<rparr>)) rest"
proof -
  have "yields (parse_in_loop n (nxt (nxt p)) []) (nxt (nxt p)) vs ((TOK_RBRACKET, x) # rest)"
  proof (cases vs)
    case Nil
    then obtain m where "n = Suc m" using assms by (cases n) auto
    with Nil assms show ?thesis by (auto simp: viewing pr_values_def intro: yieldsI)
  next
    case (Cons v ws)
    then obtain m where n: "n = Suc m" using assms by (cases n) auto
    have "yields (parse_in_loop m (nxt (nxt (nxt p))) [v]) (nxt (nxt (nxt p))) ([v] @ ws) ((TOK_RBRACKET, x) # rest)"
      using assms n Cons by (intro in_loop_view) (simp_all add: viewing pr_values_def)
    then show ?thesis using assms n Cons by (simp add: viewing pr_values_def)
  qed
  then obtain q where "parse_in_loop n (nxt (nxt p)) [] = Some (Some vs, q)" "view q = (TOK_RBRACKET, x) # rest"
    "same (nxt (nxt p)) q" by (rule yieldsE)
  with assms show ?thesis
    by (auto simp: parse_in_list_def viewing intro!: yieldsI)
qed

lemma label_condition_view:
  assumes "view p = (TOK_IDENT, v) # (TOK_COLON, x) # (TOK_IDENT, l) # rest" "rest \<noteq> []"
  shows "yields (parse_condition_expr n p) p
    (EXPR_CONDITION (zero_condition\<lparr>c_variable := Some v, c_op := Some ''HAS_LABEL'', c_value := Some l\<rparr>)) rest"
  using assms
  by (auto simp: parse_condition_expr_def viewing expr_leaf_def zero_condition_def intro!: yieldsI)

lemma path_condition_view:
  assumes "view p = pr_path c @ rest" "rest \<noteq> []" "fst (hd rest) \<notin> {TOK_DOT, TOK_COLON}" "c_variable c \<noteq> None"
  shows "\<exists>q. parse_condition_expr n p =
      parse_condition_tail n q (zero_condition\<lparr>c_variable := c_variable c, c_property := c_property c\<rparr>) \<and>
    view q = rest \<and> same p q"
proof (cases "c_property c")
  case None
  with assms show ?thesis
    by (intro exI [of _ "nxt p"])
      (auto simp: parse_condition_expr_def viewing pr_path_def zero_condition_def)
next
  case (Some f)
  with assms show ?thesis
    by (intro exI [of _ "nxt (nxt (nxt p))"])
      (auto simp: parse_condition_expr_def viewing pr_path_def zero_condition_def)
qed

lemma value_view:
  assumes "view p = (TOK_STRING, v) # rest" "rest \<noteq> []"
  shows "yields (parse_condition_value p c) p (EXPR_CONDITION (c\<lparr>c_value := Some v\<rparr>)) rest"
  using assms by (auto simp: parse_condition_value_def viewing expr_leaf_def intro!: yieldsI)

lemma op_pair_view:
  assumes "(op, ts) \<in> set op_tokens" "view p = ts @ rest" "rest \<noteq> []"
  shows "(\<exists>q. parse_comparison_op p = (Some op, q) \<and> view q = rest \<and> same p q) \<and> \<not> check p TOK_IS \<and> \<not> check p TOK_IN"
  using assms(1) unfolding op_tokens_def list.set insert_iff prod.inject empty_iff
  by (elim disjE conjE FalseE)
    (use assms(2,3) in \<open>simp add: parse_comparison_op_def simple_ops_def viewing\<close>)+

lemma op_view:
  assumes "op \<in> set (map fst op_tokens)" "view p = the (map_of op_tokens op) @ rest" "rest \<noteq> []"
  shows "(\<exists>q. parse_comparison_op p = (Some op, q) \<and> view q = rest \<and> same p q) \<and> \<not> check p TOK_IS \<and> \<not> check p TOK_IN"
proof -
  have "op \<in> fst ` set op_tokens" using assms(1) by simp
  then have "map_of op_tokens op \<noteq> None" by (simp only: map_of_eq_None_iff not_not)
  then obtain ts where ts: "map_of op_tokens op = Some ts" by blast
  show ?thesis by (rule op_pair_view [OF map_of_SomeD [OF ts] _ assms(3)]) (use assms(2) ts in simp)
qed

definition exists_condition :: "string \<Rightarrow> cstr \<Rightarrow> int \<Rightarrow> cbm_condition_t" where
  "exists_condition v t d = zero_condition\<lparr>c_op := Some ''EXISTS'', c_variable := Some v, c_value := t, c_exists_dir := d\<rparr>"

lemma bare_node_view:
  assumes "view p = (TOK_LPAREN, x) # (case v of None \<Rightarrow> [] | Some w \<Rightarrow> [(TOK_IDENT, w)]) @ (TOK_RPAREN, y) # rest"
    "rest \<noteq> []"
  shows "\<exists>q. parse_node n p = Some (Some \<lparr>n_variable = v, n_label = None, n_props = []\<rparr>, q) \<and> view q = rest \<and> same p q"
  using assms
  by (cases v) (simp_all add: parse_node_def opt_ident_def parse_label_def viewing)

lemma typed_rel_view:
  assumes "view p = (if d = 1 then [(TOK_LT, a)] else []) @ (TOK_DASH, b) #
     (case t of None \<Rightarrow> [] | Some w \<Rightarrow> [(TOK_LBRACKET, e), (TOK_COLON, f), (TOK_IDENT, w), (TOK_RBRACKET, g)]) @
     (TOK_DASH, h) # (if d = 0 then [(TOK_GT, i)] else []) @ (TOK_LPAREN, x) # rest"
    "d \<in> {0, 1, 2 :: int}" "0 < n"
  shows "\<exists>q. parse_rel n p = Some (Some \<lparr>r_variable = None, r_types = (case t of None \<Rightarrow> [] | Some w \<Rightarrow> [w]),
      r_direction = Some (if d = 1 then ''inbound'' else if d = 0 then ''outbound'' else ''any''),
      r_min_hops = 1, r_max_hops = 1\<rparr>, q) \<and> view q = (TOK_LPAREN, x) # rest \<and> same p q"
proof -
  obtain m where n: "n = Suc m" using assms(3) by (cases n) auto
  show ?thesis
    using assms(1,2) unfolding n
    by (cases t; elim insertE emptyE)
      (simp_all add: parse_rel_def parse_rel_bracket_def parse_rel_types_def rel_direction_def viewing)
qed

lemma exists_view:
  assumes "view p = pr_exists (exists_condition v t d) @ rest" "rest \<noteq> []" "d \<in> {0, 1, 2}" "0 < n"
  shows "yields (parse_condition_expr n p) p (EXPR_CONDITION (exists_condition v t d)) rest"
proof -
  let ?far = "(TOK_LPAREN, ''('') # (TOK_RPAREN, '')'') # (TOK_RBRACE, ''}'') # rest"
  define mid where "mid = (if d = 1 then [(TOK_LT, ''<'')] else []) @ (TOK_DASH, ''-'') #
     (case t of None \<Rightarrow> [] | Some w \<Rightarrow> [(TOK_LBRACKET, ''[''), (TOK_COLON, '':''), (TOK_IDENT, w), (TOK_RBRACKET, '']'')]) @
     (TOK_DASH, ''-'') # (if d = 0 then [(TOK_GT, ''>'')] else []) @ ?far"
  have mid_ne: "mid \<noteq> []" by (simp add: mid_def)
  have p: "view p = (TOK_EXISTS, ''EXISTS'') # (TOK_LBRACE, ''{'') # (TOK_LPAREN, ''('') # (TOK_IDENT, v) # (TOK_RPAREN, '')'') # mid"
    using assms(1) by (simp add: pr_exists_def exists_condition_def zero_condition_def mid_def)
  obtain q1 where q1: "parse_node n (nxt (nxt p)) = Some (Some \<lparr>n_variable = Some v, n_label = None, n_props = []\<rparr>, q1)"
      "view q1 = mid" "same p q1"
    using bare_node_view [of "nxt (nxt p)" _ "Some v"] p mid_ne by (auto simp: viewing)
  obtain q2 where q2: "parse_rel n q1 = Some (Some \<lparr>r_variable = None, r_types = (case t of None \<Rightarrow> [] | Some w \<Rightarrow> [w]),
      r_direction = Some (if d = 1 then ''inbound'' else if d = 0 then ''outbound'' else ''any''),
      r_min_hops = 1, r_max_hops = 1\<rparr>, q2)" "view q2 = ?far" "same q1 q2"
    using typed_rel_view [OF q1(2) [unfolded mid_def] assms(3,4)] by blast
  obtain q3 where q3: "parse_node n q2 = Some (Some \<lparr>n_variable = None, n_label = None, n_props = []\<rparr>, q3)"
      "view q3 = (TOK_RBRACE, ''}'') # rest" "same q2 q3"
    using bare_node_view [of q2 _ None] q2 by auto
  have "same p q3" using q1(3) q2(3) q3(3) same_trans by blast
  moreover have "exists_dir_of (Some (if d = 1 then ''inbound'' else if d = 0 then ''outbound'' else ''any'')) = d"
    using assms(3) by (auto simp: exists_dir_of_def)
  ultimately show ?thesis
    using p q1 q2 q3
    by (cases t)
      (simp_all add: parse_condition_expr_def parse_exists_predicate_def viewing or_error_def expr_leaf_def
        exists_condition_def zero_condition_def yields_def)
qed

lemma pr_path_length: "0 < length (pr_path c)"
  by (simp add: pr_path_def)

lemma pr_values_length: "length vs \<le> Suc (length (pr_values vs))"
  by (cases vs) (simp_all add: pr_values_def length_concat o_def sum_list_triv)

lemma yields_same: "yields m q x rest \<Longrightarrow> same p q \<Longrightarrow> yields m p x rest"
  unfolding yields_def using same_trans by blast

lemma tail_view:
  assumes "wf_cond c" "the (c_op c) \<noteq> ''HAS_LABEL''" "the (c_op c) \<noteq> ''EXISTS''"
    "view p = pr_cond c @ rest" "rest \<noteq> []" "length (view p) \<le> n"
  shows "yields (parse_condition_expr n p) p (EXPR_CONDITION c) rest"
proof -
  define ts where "ts = drop (length (pr_path c)) (pr_cond c)"
  have c: "c_variable c \<noteq> None" "\<not> c_negated c" "c_op c \<noteq> None" using assms(1) by (auto simp: wf_cond_def)
  obtain op where op: "c_op c = Some op" using c by blast
  have ts: "pr_cond c = pr_path c @ ts" using assms(2,3) by (simp add: ts_def pr_cond_def Let_def)
  have c_eq: "c = zero_condition\<lparr>c_variable := c_variable c, c_property := c_property c, c_op := c_op c,
      c_value := c_value c, c_in_values := c_in_values c\<rparr>"
    using assms(1-3) op by (auto simp: wf_cond_def zero_condition_def Let_def split: if_splits)
  let ?z = "zero_condition\<lparr>c_variable := c_variable c, c_property := c_property c\<rparr>"
  have tail: "ts \<noteq> [] \<and> fst (hd (ts @ rest)) \<notin> {TOK_DOT, TOK_COLON} \<and>
      (\<forall>q. view q = ts @ rest \<longrightarrow> yields (parse_condition_tail n q ?z) q (EXPR_CONDITION c) rest)"
  proof (cases "op \<in> {''IS NULL'', ''IS NOT NULL'', ''IN''}")
    case True
    then consider "op = ''IS NULL''" | "op = ''IS NOT NULL''" | "op = ''IN''" by blast
    then show ?thesis
    proof cases
      case 1
      then have t: "ts = [(TOK_IS, ''IS''), (TOK_NULL_KW, ''NULL'')]" using op by (simp add: ts_def pr_cond_def)
      have "c = ?z\<lparr>c_op := Some ''IS NULL''\<rparr>" using assms(1) op 1 by (subst c_eq) (auto simp: wf_cond_def zero_condition_def)
      then show ?thesis using t assms(5)
        by (auto simp: parse_condition_tail_def viewing expr_leaf_def intro!: yieldsI)
    next
      case 2
      then have t: "ts = [(TOK_IS, ''IS''), (TOK_NOT, ''NOT''), (TOK_NULL_KW, ''NULL'')]"
        using op by (simp add: ts_def pr_cond_def)
      have "c = ?z\<lparr>c_op := Some ''IS NOT NULL''\<rparr>" using assms(1) op 2 by (subst c_eq) (auto simp: wf_cond_def zero_condition_def)
      then show ?thesis using t assms(5)
        by (auto simp: parse_condition_tail_def viewing expr_leaf_def intro!: yieldsI)
    next
      case 3
      then have t: "ts = (TOK_IN, ''IN'') # (TOK_LBRACKET, ''['') # pr_values (c_in_values c) @ [(TOK_RBRACKET, '']'')]"
        using op by (simp add: ts_def pr_cond_def)
      have e: "c = ?z\<lparr>c_op := Some ''IN'', c_in_values := c_in_values c\<rparr>"
        using assms(1) op 3 by (subst c_eq) (auto simp: wf_cond_def zero_condition_def)
      have n: "length (c_in_values c) < n"
        using assms(4,6) ts t pr_values_length [of "c_in_values c"] by simp
      have "yields (parse_condition_tail n q ?z) q (EXPR_CONDITION c) rest" if "view q = ts @ rest" for q
        using in_list_view [of q "''IN''" "''[''" "c_in_values c" "'']''" rest n ?z] that t n assms(5) e
        by (simp add: parse_condition_tail_def viewing expr_leaf_def)
      then show ?thesis using t by simp
    qed
  next
    case False
    then have mem: "op \<in> set (map fst op_tokens)" "c_value c \<noteq> None" and e: "c = ?z\<lparr>c_op := Some op, c_value := c_value c\<rparr>"
      using assms(1-3) op by (auto simp: wf_cond_def Let_def zero_condition_def)
    have t: "ts = the (map_of op_tokens op) @ [(TOK_STRING, the (c_value c))]"
      using op False assms(2,3) by (simp add: ts_def pr_cond_def)
    have h: "fst (hd (ts @ rest)) \<notin> {TOK_DOT, TOK_COLON}"
      using mem(1) t by (auto simp: op_tokens_def)
    have "yields (parse_condition_tail n q ?z) q (EXPR_CONDITION c) rest" if v: "view q = ts @ rest" for q
    proof -
      obtain r where r: "parse_comparison_op q = (Some op, r)" "view r = (TOK_STRING, the (c_value c)) # rest" "same q r"
        and "\<not> check q TOK_IS" "\<not> check q TOK_IN"
        using op_view [OF mem(1), of q "(TOK_STRING, the (c_value c)) # rest"] v t by auto
      then have "parse_condition_tail n q ?z = parse_condition_value r (?z\<lparr>c_op := Some op\<rparr>)"
        by (simp add: parse_condition_tail_def)
      moreover have "yields (parse_condition_value r (?z\<lparr>c_op := Some op\<rparr>)) r
          (EXPR_CONDITION (?z\<lparr>c_op := Some op, c_value := Some (the (c_value c))\<rparr>)) rest"
        using value_view [OF r(2) assms(5)] by simp
      ultimately show ?thesis using e mem(2) r(3) yields_same by fastforce
    qed
    then show ?thesis using h t by simp
  qed
  obtain q where q: "parse_condition_expr n p = parse_condition_tail n q ?z" "view q = ts @ rest" "same p q"
    using path_condition_view [of p c "ts @ rest" n] tail assms(4) c ts by auto
  then show ?thesis using tail yields_same by metis
qed

lemma cond_view:
  assumes "wf_cond c" "view p = pr_cond c @ rest" "rest \<noteq> []" "length (view p) \<le> n"
  shows "yields (parse_condition_expr n p) p (EXPR_CONDITION c) rest"
proof -
  have n: "0 < n" using assms(2-4) by (cases rest) auto
  consider "the (c_op c) = ''HAS_LABEL''" | "the (c_op c) = ''EXISTS''"
    | "the (c_op c) \<noteq> ''HAS_LABEL''" "the (c_op c) \<noteq> ''EXISTS''" by blast
  then show ?thesis
  proof cases
    case 1
    then have "c = zero_condition\<lparr>c_variable := Some (the (c_variable c)), c_op := Some ''HAS_LABEL'', c_value := Some (the (c_value c))\<rparr>"
      "c_property c = None"
      using assms(1) by (auto simp: wf_cond_def zero_condition_def)
    then show ?thesis
      using label_condition_view [of p "the (c_variable c)" "'':''" "the (c_value c)" rest n] assms(2,3) 1
      by (simp add: pr_cond_def pr_path_def)
  next
    case 2
    then have "c = exists_condition (the (c_variable c)) (c_value c) (c_exists_dir c)" "c_exists_dir c \<in> {0, 1, 2}"
      using assms(1) by (auto simp: wf_cond_def zero_condition_def exists_condition_def)
    then show ?thesis
      using exists_view [of p "the (c_variable c)" "c_value c" "c_exists_dir c" rest n] assms(2,3) 2 n
      by (simp add: pr_cond_def)
  qed (use assms tail_view in blast)
qed

section \<open>Printing with the parentheses precedence needs\<close>

definition parens :: "bool \<Rightarrow> ptok list \<Rightarrow> ptok list" where
  "parens b ts = (if b then (TOK_LPAREN, ''('') # ts @ [(TOK_RPAREN, '')'')] else ts)"

fun pr_expr :: "nat \<Rightarrow> cbm_expr_t \<Rightarrow> ptok list" where
  \<comment> \<open>levels: 0 for OR, 1 for XOR, 2 for AND, 3 for NOT and atoms\<close>
  "pr_expr k (EXPR_OR l r) = parens (0 < k) (pr_expr 0 l @ (TOK_OR, ''OR'') # pr_expr 1 r)"
| "pr_expr k (EXPR_XOR l r) = parens (1 < k) (pr_expr 1 l @ (TOK_XOR, ''XOR'') # pr_expr 2 r)"
| "pr_expr k (EXPR_AND l r) = parens (2 < k) (pr_expr 2 l @ (TOK_AND, ''AND'') # pr_expr 3 r)"
| "pr_expr k (EXPR_NOT e) = (TOK_NOT, ''NOT'') # pr_expr 3 e"
| "pr_expr k (EXPR_CONDITION c) = pr_cond c"

fun wf_expr :: "cbm_expr_t \<Rightarrow> bool" where
  "wf_expr (EXPR_OR l r) \<longleftrightarrow> wf_expr l \<and> wf_expr r"
| "wf_expr (EXPR_XOR l r) \<longleftrightarrow> wf_expr l \<and> wf_expr r"
| "wf_expr (EXPR_AND l r) \<longleftrightarrow> wf_expr l \<and> wf_expr r"
| "wf_expr (EXPR_NOT e) \<longleftrightarrow> wf_expr e"
| "wf_expr (EXPR_CONDITION c) \<longleftrightarrow> wf_cond c"

lemma pr_cond_head: "wf_cond c \<Longrightarrow> pr_cond c \<noteq> [] \<and> fst (hd (pr_cond c @ rest)) \<in> {TOK_IDENT, TOK_EXISTS}"
  by (auto simp: pr_cond_def pr_path_def pr_exists_def Let_def)

lemma cond_reads: "wf_cond c \<Longrightarrow> reads parse_not_expr 2 {} (EXPR_CONDITION c) (pr_cond c)"
  unfolding reads_def
proof (intro allI impI)
  fix n p rest
  assume c: "wf_cond c" and p: "view p = pr_cond c @ rest \<and> rest \<noteq> [] \<and> fst (hd rest) \<notin> {} \<and> 8 * length (view p) + 2 \<le> n"
  obtain m where n: "n = Suc (Suc m)" using p by (metis add_2_eq_Suc' le_Suc_ex add_Suc_right add_Suc)
  have h: "view p \<noteq> []" "fst (hd (view p)) \<in> {TOK_IDENT, TOK_EXISTS}" using p pr_cond_head [OF c, of rest] by auto
  then have "parse_not_expr n p = parse_condition_expr m p" by (auto simp: n viewing)
  moreover have "yields (parse_condition_expr m p) p (EXPR_CONDITION c) rest"
    using c p n by (intro cond_view) auto
  ultimately show "yields (parse_not_expr n p) p (EXPR_CONDITION c) rest" by simp
qed

lemma not_reads:
  assumes "reads parse_not_expr 2 {} e ts"
  shows "reads parse_not_expr 2 {} (EXPR_NOT e) ((TOK_NOT, x) # ts)"
  unfolding reads_def
proof (intro allI impI)
  fix n p rest
  assume p: "view p = ((TOK_NOT, x) # ts) @ rest \<and> rest \<noteq> [] \<and> fst (hd rest) \<notin> {} \<and> 8 * length (view p) + 2 \<le> n"
  then obtain m where n: "n = Suc m" by (cases n) auto
  have "yields (parse_not_expr m (nxt p)) (nxt p) e rest"
    using p n by (intro readsD [OF assms]) (auto simp: viewing)
  then obtain q where "parse_not_expr m (nxt p) = Some (Some e, q)" "view q = rest" "same (nxt p) q" by (rule yieldsE)
  then show "yields (parse_not_expr n p) p (EXPR_NOT e) rest"
    using p n by (auto simp: viewing intro!: yieldsI)
qed

lemma paren_reads:
  assumes "reads parse_or_expr 5 {TOK_OR, TOK_XOR, TOK_AND} e ts"
  shows "reads parse_not_expr 2 {} e ((TOK_LPAREN, x) # ts @ [(TOK_RPAREN, y)])"
  unfolding reads_def
proof (intro allI impI)
  fix n p rest
  assume p: "view p = ((TOK_LPAREN, x) # ts @ [(TOK_RPAREN, y)]) @ rest \<and> rest \<noteq> [] \<and> fst (hd rest) \<notin> {} \<and>
    8 * length (view p) + 2 \<le> n"
  obtain m where n: "n = Suc (Suc m)" using p by (metis add_2_eq_Suc' le_Suc_ex add_Suc_right add_Suc)
  have "yields (parse_or_expr m (nxt p)) (nxt p) e ((TOK_RPAREN, y) # rest)"
    using p n by (intro readsD [OF assms]) (auto simp: viewing)
  then obtain q where "parse_or_expr m (nxt p) = Some (Some e, q)" "view q = (TOK_RPAREN, y) # rest" "same (nxt p) q"
    by (rule yieldsE)
  then show "yields (parse_not_expr n p) p e rest"
    using p n by (auto simp: viewing intro!: yieldsI)
qed

lemma and_reads: "and_level.continues 2 {} e ts \<Longrightarrow> reads parse_and_expr 3 {TOK_AND} e ts"
  using and_level.continues_reads [of 2 "{}" e ts] by (simp add: eval_nat_numeral)

lemma xor_reads: "xor_level.continues 3 {TOK_AND} e ts \<Longrightarrow> reads parse_xor_expr 4 {TOK_XOR, TOK_AND} e ts"
  using xor_level.continues_reads [of 3 "{TOK_AND}" e ts] by (simp add: eval_nat_numeral)

lemma or_reads:
  "or_level.continues 4 {TOK_XOR, TOK_AND} e ts \<Longrightarrow> reads parse_or_expr 5 {TOK_OR, TOK_XOR, TOK_AND} e ts"
  using or_level.continues_reads [of 4 "{TOK_XOR, TOK_AND}" e ts] by (simp add: eval_nat_numeral)

lemmas xor_operand = xor_level.continues_operand [of 3 "{TOK_AND}", simplified]
lemmas or_operand = or_level.continues_operand [of 4 "{TOK_XOR, TOK_AND}", simplified]
lemmas and_operand = and_level.continues_operand [of 2 "{}", simplified]

definition expr_reads :: "cbm_expr_t \<Rightarrow> bool" where
  \<comment> \<open>each level reads the expression from its own printing of it\<close>
  "expr_reads e \<longleftrightarrow>
     or_level.continues 4 {TOK_XOR, TOK_AND} e (pr_expr 0 e) \<and>
     xor_level.continues 3 {TOK_AND} e (pr_expr 1 e) \<and>
     and_level.continues 2 {} e (pr_expr 2 e) \<and>
     reads parse_not_expr 2 {} e (pr_expr 3 e)"

lemma expr_reads_wf: "wf_expr e \<Longrightarrow> expr_reads e"
proof (induction e)
  case (EXPR_CONDITION c)
  then have "reads parse_not_expr 2 {} (EXPR_CONDITION c) (pr_cond c)" by (simp add: cond_reads)
  then show ?case
    by (simp add: expr_reads_def and_operand xor_operand or_operand and_reads xor_reads)
next
  case (EXPR_NOT e)
  then have "reads parse_not_expr 2 {} (EXPR_NOT e) ((TOK_NOT, ''NOT'') # pr_expr 3 e)"
    by (simp add: expr_reads_def not_reads)
  then show ?case
    by (simp add: expr_reads_def and_operand xor_operand or_operand and_reads xor_reads)
next
  case (EXPR_AND l r)
  then have a: "and_level.continues 2 {} (EXPR_AND l r) (pr_expr 2 (EXPR_AND l r))"
    using and_level.continues_operator [of 2 "{}" l "pr_expr 2 l" r "pr_expr 3 r" "''AND''"]
    by (simp add: expr_reads_def parens_def)
  then have o: "or_level.continues 4 {TOK_XOR, TOK_AND} (EXPR_AND l r) (pr_expr 0 (EXPR_AND l r))"
    and x: "xor_level.continues 3 {TOK_AND} (EXPR_AND l r) (pr_expr 1 (EXPR_AND l r))"
    by (simp_all add: xor_operand or_operand and_reads xor_reads parens_def)
  then show ?case using a paren_reads [OF or_reads [OF o]] by (simp add: expr_reads_def parens_def)
next
  case (EXPR_XOR l r)
  then have x: "xor_level.continues 3 {TOK_AND} (EXPR_XOR l r) (pr_expr 1 (EXPR_XOR l r))"
    using xor_level.continues_operator [of 3 "{TOK_AND}" l "pr_expr 1 l" r "pr_expr 2 r" "''XOR''"] and_reads
    by (simp add: expr_reads_def parens_def)
  then have o: "or_level.continues 4 {TOK_XOR, TOK_AND} (EXPR_XOR l r) (pr_expr 0 (EXPR_XOR l r))"
    by (simp add: or_operand xor_reads parens_def)
  then show ?case using x paren_reads [OF or_reads [OF o]] and_operand by (simp add: expr_reads_def parens_def)
next
  case (EXPR_OR l r)
  then have o: "or_level.continues 4 {TOK_XOR, TOK_AND} (EXPR_OR l r) (pr_expr 0 (EXPR_OR l r))"
    using or_level.continues_operator [of 4 "{TOK_XOR, TOK_AND}" l "pr_expr 0 l" r "pr_expr 1 r" "''OR''"] xor_reads
    by (simp add: expr_reads_def parens_def)
  then have "reads parse_not_expr 2 {} (EXPR_OR l r) (pr_expr 3 (EXPR_OR l r))"
    using paren_reads [OF or_reads [OF o]] by (simp add: parens_def)
  then show ?case using o and_operand xor_operand and_reads by (simp add: expr_reads_def parens_def)
qed

section \<open>Numbers\<close>

lemma strtol_dec: "int n \<le> LONG_MAX \<Longrightarrow> strtol (dec n) = int n"
proof -
  assume n: "int n \<le> LONG_MAX"
  obtain c cs where d: "dec n = c # cs" using dec_digits [of n] by (cases "dec n") auto
  have c: "isdigit c" and all: "list_all isdigit (c # cs)" using dec_digits [of n] d by auto
  then have "\<not> isspace c" "c \<noteq> CHR ''-''" "c \<noteq> CHR ''+''"
    by (auto simp: isdigit_def isspace_def byte_def)
  moreover have tw: "takeWhile isdigit cs = cs" using all by (simp add: takeWhile_eq_all_conv list_all_iff)
  moreover have "0 \<le> int n" by simp
  ultimately show ?thesis
    using n dec_value [of n] unfolding strtol_def d LONG_MAX_def LONG_MIN_def
    by (simp add: Let_def c tw)
qed

lemma parse_number_dec:
  assumes "tok_text t = dec n" "n < 2 ^ 31"
  shows "parse_number t = int n"
proof -
  have "int n \<le> LONG_MAX" using assms(2) by (simp add: LONG_MAX_def)
  then show ?thesis using assms by (simp add: parse_number_def strtol_dec to_int32_def)
qed

section \<open>Patterns\<close>

definition pipes :: "string list \<Rightarrow> ptok list" where
  "pipes xs = concat (map (\<lambda>x. [(TOK_PIPE, ''|''), (TOK_IDENT, x)]) xs)"

fun pr_props :: "cbm_prop_filter_t list \<Rightarrow> ptok list" where
  "pr_props [] = []"
| "pr_props [f] = [(TOK_IDENT, pf_key f), (TOK_COLON, '':''), (TOK_STRING, pf_value f)]"
| "pr_props (f # fs) = [(TOK_IDENT, pf_key f), (TOK_COLON, '':''), (TOK_STRING, pf_value f), (TOK_COMMA, '','')] @ pr_props fs"

text \<open>A node as written: its variable, its label alternatives and its properties.\<close>

type_synonym node_src = "cstr \<times> string list \<times> cbm_prop_filter_t list"

definition label_of :: "string list \<Rightarrow> cstr" where
  "label_of alts = (case alts of [] \<Rightarrow> None | a # as \<Rightarrow> Some (a @ concat (map (\<lambda>x. CHR ''|'' # x) as)))"

definition node_of :: "node_src \<Rightarrow> cbm_node_pattern_t" where
  "node_of = (\<lambda>(v, alts, ps). \<lparr>n_variable = v, n_label = label_of alts, n_props = ps\<rparr>)"

definition wf_node :: "node_src \<Rightarrow> bool" where
  "wf_node = (\<lambda>(v, alts, ps). case label_of alts of None \<Rightarrow> True | Some l \<Rightarrow> length l < 256)"

definition pr_node :: "node_src \<Rightarrow> ptok list" where
  "pr_node = (\<lambda>(v, alts, ps).
     (TOK_LPAREN, ''('') # (case v of None \<Rightarrow> [] | Some x \<Rightarrow> [(TOK_IDENT, x)]) @
     (case alts of [] \<Rightarrow> [] | a # as \<Rightarrow> (TOK_COLON, '':'') # (TOK_IDENT, a) # pipes as) @
     (if ps = [] then [] else (TOK_LBRACE, ''{'') # pr_props ps @ [(TOK_RBRACE, ''}'')]) @ [(TOK_RPAREN, '')'')])"

definition pr_hops :: "cbm_rel_pattern_t \<Rightarrow> ptok list" where
  "pr_hops r =
     (if r_min_hops r = 1 \<and> r_max_hops r = 1 then []
      else [(TOK_STAR, ''*''), (TOK_NUMBER, dec (nat (r_min_hops r))), (TOK_DOTDOT, ''..'')] @
           (if r_max_hops r = 0 then [] else [(TOK_NUMBER, dec (nat (r_max_hops r)))]))"

definition pr_rel :: "cbm_rel_pattern_t \<Rightarrow> ptok list" where
  "pr_rel r =
     (if r_direction r = Some ''inbound'' then [(TOK_LT, ''<'')] else []) @ [(TOK_DASH, ''-''), (TOK_LBRACKET, ''['')] @
     (case r_variable r of None \<Rightarrow> [] | Some x \<Rightarrow> [(TOK_IDENT, x)]) @
     (case r_types r of [] \<Rightarrow> [] | t # ts \<Rightarrow> (TOK_COLON, '':'') # (TOK_IDENT, t) # pipes ts) @
     pr_hops r @ [(TOK_RBRACKET, '']''), (TOK_DASH, ''-'')] @
     (if r_direction r = Some ''outbound'' then [(TOK_GT, ''>'')] else [])"

definition wf_rel :: "cbm_rel_pattern_t \<Rightarrow> bool" where
  "wf_rel r \<longleftrightarrow> r_direction r \<in> {Some ''inbound'', Some ''outbound'', Some ''any''} \<and>
     0 \<le> r_min_hops r \<and> r_min_hops r < 2 ^ 31 \<and> 0 \<le> r_max_hops r \<and> r_max_hops r < 2 ^ 31"

lemma label_loop_view:
  "\<lbrakk>view p = pipes alts @ rest; rest \<noteq> []; fst (hd rest) \<noteq> TOK_PIPE; length alts < n;
    length (str @ concat (map (\<lambda>x. CHR ''|'' # x) alts)) < 256\<rbrakk> \<Longrightarrow>
   yields (parse_label_loop n p str) p (str @ concat (map (\<lambda>x. CHR ''|'' # x) alts)) rest"
proof (induction alts arbitrary: p str n)
  case Nil
  then obtain m where "n = Suc m" by (cases n) auto
  with Nil show ?case by (simp add: viewing pipes_def yieldsI)
next
  case (Cons a alts)
  then obtain m where n: "n = Suc m" by (cases n) auto
  have "yields (parse_label_loop m (nxt (nxt p)) (str @ CHR ''|'' # a)) (nxt (nxt p))
      ((str @ CHR ''|'' # a) @ concat (map (\<lambda>x. CHR ''|'' # x) alts)) rest"
    using Cons.prems n by (intro Cons.IH) (simp_all add: viewing pipes_def)
  then show ?case using Cons.prems n by (simp add: viewing pipes_def Let_def)
qed

lemma types_loop_view:
  "\<lbrakk>view p = pipes ts @ rest; rest \<noteq> []; fst (hd rest) \<noteq> TOK_PIPE; length ts < n\<rbrakk> \<Longrightarrow>
   yields (parse_rel_types_loop n p acc) p (acc @ ts) rest"
proof (induction ts arbitrary: p acc n)
  case Nil
  then obtain m where "n = Suc m" by (cases n) auto
  with Nil show ?case by (simp add: viewing pipes_def yieldsI)
next
  case (Cons t ts)
  then obtain m where n: "n = Suc m" by (cases n) auto
  have "yields (parse_rel_types_loop m (nxt (nxt p)) (acc @ [t])) (nxt (nxt p)) ((acc @ [t]) @ ts) rest"
    using Cons.prems n by (intro Cons.IH) (simp_all add: viewing pipes_def)
  then show ?case using Cons.prems n by (simp add: viewing pipes_def)
qed

lemma props_loop_view:
  "\<lbrakk>view p = pr_props fs @ (TOK_RBRACE, x) # rest; rest \<noteq> []; length fs < n\<rbrakk> \<Longrightarrow>
   yields (parse_props_loop n p acc) p (acc @ fs) rest"
proof (induction fs arbitrary: p acc n rule: pr_props.induct)
  case 1
  then obtain m where "n = Suc m" by (cases n) auto
  with 1 show ?case by (simp add: viewing yieldsI)
next
  case (2 f)
  then obtain m where "n = Suc (Suc m)" by (cases n; cases "n - 1") auto
  with 2 show ?case by (cases f) (simp add: viewing yieldsI)
next
  case (3 f g fs)
  then obtain m where n: "n = Suc m" by (cases n) auto
  let ?q = "nxt (nxt (nxt (nxt p)))"
  have "yields (parse_props_loop m ?q (acc @ [f])) ?q ((acc @ [f]) @ g # fs) rest"
    using "3.prems" n by (intro "3.IH") (simp_all add: viewing)
  moreover have f: "\<lparr>pf_key = pf_key f, pf_value = pf_value f\<rparr> = f" by simp
  ultimately show ?case using "3.prems" n by (simp add: viewing f)
qed

lemma yields_call:
  assumes "yields m p x rest" "\<And>q. \<lbrakk>view q = rest; same p q\<rbrakk> \<Longrightarrow> yields (k x q) p y rest'"
  shows "yields (call m k) p y rest'"
  using assms by (auto elim!: yieldsE simp: viewing)

lemma label_view:
  assumes "view p = (case alts of [] \<Rightarrow> [] | a # as \<Rightarrow> (TOK_COLON, '':'') # (TOK_IDENT, a) # pipes as) @ rest"
    "rest \<noteq> []" "fst (hd rest) \<noteq> TOK_PIPE" "fst (hd rest) \<noteq> TOK_COLON" "length (view p) \<le> n"
    "case label_of alts of None \<Rightarrow> True | Some l \<Rightarrow> length l < 256"
  shows "yields (parse_label n p) p (label_of alts) rest"
proof (cases alts)
  case Nil
  with assms show ?thesis by (simp add: parse_label_def label_of_def viewing yieldsI)
next
  case (Cons a as)
  have "length as < n" using assms(1,5) Cons by (simp add: pipes_def length_concat o_def sum_list_triv)
  then have "yields (parse_label_loop n (nxt (nxt p)) a) p (a @ concat (map (\<lambda>x. CHR ''|'' # x) as)) rest"
    using assms Cons label_loop_view [of "nxt (nxt p)" as rest n a] by (simp add: viewing label_of_def)
  then show ?thesis
    using assms Cons by (auto simp: parse_label_def label_of_def viewing intro!: yields_call yieldsI)
qed

lemma props_view:
  assumes "view p = (if ps = [] then [] else (TOK_LBRACE, ''{'') # pr_props ps @ [(TOK_RBRACE, ''}'')]) @ rest"
    "rest \<noteq> []" "fst (hd rest) \<noteq> TOK_LBRACE" "length (view p) \<le> n"
  shows "yields (if check p TOK_LBRACE then parse_props n p else Some (Some [], p)) p ps rest"
proof (cases "ps = []")
  case True
  with assms show ?thesis by (simp add: viewing yieldsI)
next
  case False
  have "length ps \<le> length (pr_props ps)" by (induction ps rule: pr_props.induct) auto
  then have "length ps < n" using assms False by auto
  then show ?thesis
    using assms False props_loop_view [of "nxt p" ps "''}''" rest n "[]"]
    by (simp add: viewing parse_props_def)
qed

lemma node_view:
  assumes "wf_node nd" "view p = pr_node nd @ rest" "rest \<noteq> []" "length (view p) \<le> n"
  shows "yields (parse_node n p) p (node_of nd) rest"
proof -
  obtain v alts ps where nd: "nd = (v, alts, ps)" by (cases nd) auto
  define R where "R = (if ps = [] then [] else (TOK_LBRACE, ''{'') # pr_props ps @ [(TOK_RBRACE, ''}'')]) @ (TOK_RPAREN, '')'') # rest"
  define L where "L = (case alts of [] \<Rightarrow> [] | a # as \<Rightarrow> (TOK_COLON, '':'') # (TOK_IDENT, a) # pipes as) @ R"
  have R: "R \<noteq> []" "fst (hd R) \<noteq> TOK_PIPE" "fst (hd R) \<noteq> TOK_COLON" "fst (hd R) \<noteq> TOK_IDENT"
    by (simp_all add: R_def)
  have L: "L \<noteq> []" "fst (hd L) \<noteq> TOK_IDENT" using R by (auto simp: L_def split: list.splits)
  have p: "view p = (TOK_LPAREN, ''('') # (case v of None \<Rightarrow> [] | Some x \<Rightarrow> [(TOK_IDENT, x)]) @ L"
    using assms(2) by (simp add: nd pr_node_def L_def R_def)
  obtain q where q: "opt_ident (nxt p) = (v, q)" "view q = L" "same p q"
    using p L by (cases v) (auto simp: opt_ident_def viewing)
  have lenL: "length L \<le> n" using p assms(4) by (cases v) auto
  have lenR: "length R \<le> n" using lenL by (simp add: L_def)
  have lab: "yields (parse_label n q) q (label_of alts) R"
    using q R lenL assms(1) by (intro label_view) (auto simp: L_def nd wf_node_def)
  have pro: "yields (if check r TOK_LBRACE then parse_props n r else Some (Some [], r)) r ps ((TOK_RPAREN, '')'') # rest)"
    if "view r = R" for r
    using that lenR by (intro props_view) (auto simp: R_def)
  have "yields (call (parse_label n q) (\<lambda>label p.
         call (if check p TOK_LBRACE then parse_props n p else Some (Some [], p)) (\<lambda>props p.
         need (expect p TOK_RPAREN) (\<lambda>_ p.
           Some (Some \<lparr>n_variable = v, n_label = label, n_props = props\<rparr>, p))))) p (node_of nd) rest"
    using q(3) assms(3)
    by (intro yields_call [OF yields_same [OF lab]] yields_call [OF yields_same [OF pro]])
      (auto simp: viewing nd node_of_def intro!: yieldsI)
  then show ?thesis using p q by (simp add: parse_node_def viewing)
qed

lemma hops_view:
  assumes "view p = pr_hops r @ (TOK_RBRACKET, x) # rest" "wf_rel r" "rest \<noteq> []"
    "r_min_hops out = 1" "r_max_hops out = 1"
  shows "\<exists>q. (case match p TOK_STAR of (False, p) \<Rightarrow> (out, p)
      | (True, p) \<Rightarrow> (case parse_hop_range p of (mn, mx, p) \<Rightarrow> (out\<lparr>r_min_hops := mn, r_max_hops := mx\<rparr>, p))) =
      (out\<lparr>r_min_hops := r_min_hops r, r_max_hops := r_max_hops r\<rparr>, q) \<and>
    view q = (TOK_RBRACKET, x) # rest \<and> same p q"
proof (cases "r_min_hops r = 1 \<and> r_max_hops r = 1")
  case True
  then show ?thesis using assms by (cases out) (simp add: pr_hops_def viewing)
next
  case False
  have num: "parse_number t = r_min_hops r" if "tok_text t = dec (nat (r_min_hops r))" for t
    using parse_number_dec [OF that] assms(2) by (auto simp: wf_rel_def nat_less_iff)
  have num': "parse_number t = r_max_hops r" if "tok_text t = dec (nat (r_max_hops r))" for t
    using parse_number_dec [OF that] assms(2) by (auto simp: wf_rel_def nat_less_iff)
  show ?thesis
    using assms False num num'
    by (cases "r_max_hops r = 0")
      (simp_all add: pr_hops_def viewing parse_hop_range_def hop_bound_def Let_def)
qed

lemma rel_types_view:
  assumes "view p = (case ts of [] \<Rightarrow> [] | t # us \<Rightarrow> (TOK_COLON, '':'') # (TOK_IDENT, t) # pipes us) @ rest"
    "rest \<noteq> []" "fst (hd rest) \<noteq> TOK_PIPE" "fst (hd rest) \<noteq> TOK_COLON" "length (view p) \<le> n" "r_types out = []"
  shows "yields (case match p TOK_COLON of
                (False, p) \<Rightarrow> Some (Some out, p)
              | (True, p) \<Rightarrow> call (parse_rel_types n p) (\<lambda>ts p. Some (Some (out\<lparr>r_types := ts\<rparr>), p)))
    p (out\<lparr>r_types := ts\<rparr>) rest"
proof (cases ts)
  case Nil
  with assms show ?thesis by (cases out) (simp add: viewing yieldsI)
next
  case (Cons t us)
  have "length us < n" using assms(1,5) Cons by (simp add: pipes_def length_concat o_def sum_list_triv)
  then have "yields (parse_rel_types n (nxt p)) p ts rest"
    using assms Cons types_loop_view [of "nxt (nxt p)" us rest n "[t]"] by (simp add: parse_rel_types_def viewing)
  then show ?thesis using assms Cons by (auto simp: viewing intro!: yields_call yieldsI)
qed

lemma rel_bracket_view:
  assumes "view p = (case r_variable r of None \<Rightarrow> [] | Some v \<Rightarrow> [(TOK_IDENT, v)]) @
     (case r_types r of [] \<Rightarrow> [] | t # ts \<Rightarrow> (TOK_COLON, '':'') # (TOK_IDENT, t) # pipes ts) @
     pr_hops r @ (TOK_RBRACKET, x) # rest"
    "wf_rel r" "rest \<noteq> []" "length (view p) \<le> n"
  shows "yields (parse_rel_bracket n p
      \<lparr>r_variable = None, r_types = [], r_direction = None, r_min_hops = 1, r_max_hops = 1\<rparr>) p
    (r\<lparr>r_direction := None\<rparr>) rest"
proof -
  define H where "H = pr_hops r @ (TOK_RBRACKET, x) # rest"
  define T where "T = (case r_types r of [] \<Rightarrow> [] | t # ts \<Rightarrow> (TOK_COLON, '':'') # (TOK_IDENT, t) # pipes ts) @ H"
  have H: "H \<noteq> []" "fst (hd H) \<noteq> TOK_PIPE" "fst (hd H) \<noteq> TOK_COLON" "fst (hd H) \<noteq> TOK_IDENT"
    by (simp_all add: H_def pr_hops_def)
  have T: "T \<noteq> []" "fst (hd T) \<noteq> TOK_IDENT" using H by (auto simp: T_def split: list.splits)
  let ?o = "\<lparr>r_variable = None, r_types = [], r_direction = None, r_min_hops = 1, r_max_hops = 1\<rparr>"
  let ?o1 = "?o\<lparr>r_variable := r_variable r\<rparr>"
  have p: "view p = (case r_variable r of None \<Rightarrow> [] | Some v \<Rightarrow> [(TOK_IDENT, v)]) @ T"
    using assms(1) by (simp add: T_def H_def)
  obtain q where q: "(if check p TOK_IDENT \<and> \<not> check p TOK_COLON
      then (case advance p of (t, p') \<Rightarrow> (?o\<lparr>r_variable := Some (tok_text t)\<rparr>, p')) else (?o, p)) = (?o1, q)"
      "view q = T" "same p q"
    using p T by (cases "r_variable r") (auto simp: viewing)
  have len: "length T \<le> n" using p assms(4) by (cases "r_variable r") auto
  have ty: "yields (case match q TOK_COLON of
                (False, p) \<Rightarrow> Some (Some ?o1, p)
              | (True, p) \<Rightarrow> call (parse_rel_types n p) (\<lambda>ts p. Some (Some (?o1\<lparr>r_types := ts\<rparr>), p)))
      p (?o1\<lparr>r_types := r_types r\<rparr>) H"
    using q H len by (intro yields_same [OF rel_types_view]) (auto simp: T_def)
  have fin: "yields (case (case match s TOK_STAR of
                    (False, p) \<Rightarrow> (?o1\<lparr>r_types := r_types r\<rparr>, p)
                  | (True, p) \<Rightarrow> (case parse_hop_range p of
                       (mn, mx, p) \<Rightarrow> (?o1\<lparr>r_types := r_types r, r_min_hops := mn, r_max_hops := mx\<rparr>, p)))
            of (out, p) \<Rightarrow> need (expect p TOK_RBRACKET) (\<lambda>_ p. Some (Some out, p))) p (r\<lparr>r_direction := None\<rparr>) rest"
    if s: "view s = H" "same p s" for s
  proof -
    obtain u where u: "(case match s TOK_STAR of (False, p) \<Rightarrow> (?o1\<lparr>r_types := r_types r\<rparr>, p)
      | (True, p) \<Rightarrow> (case parse_hop_range p of
          (mn, mx, p) \<Rightarrow> (?o1\<lparr>r_types := r_types r, r_min_hops := mn, r_max_hops := mx\<rparr>, p))) =
        (?o1\<lparr>r_types := r_types r, r_min_hops := r_min_hops r, r_max_hops := r_max_hops r\<rparr>, u)"
      "view u = (TOK_RBRACKET, x) # rest" "same s u"
      using hops_view [of s r x rest "?o1\<lparr>r_types := r_types r\<rparr>"] s assms(2,3) by (auto simp: H_def)
    have "same p u" using s(2) u(3) by (rule same_trans)
    then show ?thesis unfolding u(1) prod.case using u(2) assms(3)
      by (cases r) (simp add: viewing yieldsI)
  qed
  show ?thesis
    unfolding parse_rel_bracket_def q(1) prod.case
    by (rule yields_call [OF ty]) (use fin in simp)
qed

lemma yields_need:
  assumes "view p = (T, x) # rest" "\<And>t. yields (k t (nxt p)) p y rest'"
  shows "yields (need (expect p T) k) p y rest'"
  using assms by (simp add: viewing)

lemma rel_view:
  assumes "wf_rel r" "view p = pr_rel r @ rest" "rest \<noteq> []" "fst (hd rest) \<noteq> TOK_GT" "length (view p) \<le> n"
  shows "yields (parse_rel n p) p r rest"
proof -
  let ?o = "\<lparr>r_variable = None, r_types = [], r_direction = None, r_min_hops = 1, r_max_hops = 1\<rparr>"
  define lt where "lt = (r_direction r = Some ''inbound'')"
  define gt where "gt = (r_direction r = Some ''outbound'')"
  define E where "E = (TOK_DASH, ''-'') # (if gt then [(TOK_GT, ''>'')] else []) @ rest"
  define B where "B = (case r_variable r of None \<Rightarrow> [] | Some v \<Rightarrow> [(TOK_IDENT, v)]) @
     (case r_types r of [] \<Rightarrow> [] | t # ts \<Rightarrow> (TOK_COLON, '':'') # (TOK_IDENT, t) # pipes ts) @
     pr_hops r @ (TOK_RBRACKET, '']'') # E"
  have dir: "Some (rel_direction lt gt) = r_direction r"
    using assms(1) by (auto simp: wf_rel_def rel_direction_def lt_def gt_def)
  have p: "view p = (if lt then [(TOK_LT, ''<'')] else []) @ (TOK_DASH, ''-'') # (TOK_LBRACKET, ''['') # B"
    using assms(2) by (simp add: pr_rel_def B_def E_def lt_def gt_def)
  obtain q where q: "match p TOK_LT = (lt, q)" "view q = (TOK_DASH, ''-'') # (TOK_LBRACKET, ''['') # B" "same p q"
    using p by (cases lt) (auto simp: viewing)
  have B: "B \<noteq> []" "E \<noteq> []" "length B \<le> n" using p assms(5) by (auto simp: B_def E_def split: if_splits)
  have br: "yields (parse_rel_bracket n (nxt (nxt q)) ?o) p (r\<lparr>r_direction := None\<rparr>) E"
    using q B assms(1)
    by (intro yields_same [OF rel_bracket_view [where x = "'']''"]]) (auto simp: viewing B_def)
  have fin: "yields (need (expect s TOK_DASH) (\<lambda>_ p. case match p TOK_GT of (g, p) \<Rightarrow>
      Some (Some (r\<lparr>r_direction := Some (rel_direction lt g)\<rparr>), p))) p r rest" if s: "view s = E" "same p s" for s
    using s assms(3,4) dir by (cases gt) (auto simp: E_def viewing intro!: yieldsI)
  have "yields (call (parse_rel_bracket n (nxt (nxt q)) ?o) (\<lambda>out p.
        need (expect p TOK_DASH) (\<lambda>_ p. case match p TOK_GT of (g, p) \<Rightarrow>
          Some (Some (out\<lparr>r_direction := Some (rel_direction lt g)\<rparr>), p)))) p r rest"
    by (rule yields_call [OF br]) (use fin in simp)
  then show ?thesis using q B by (simp add: parse_rel_def viewing)
qed

text \<open>A pattern as written: a node, and a list of relationships each with the node it leads to.\<close>

type_synonym pattern_src = "node_src \<times> (cbm_rel_pattern_t \<times> node_src) list"

definition pr_steps :: "(cbm_rel_pattern_t \<times> node_src) list \<Rightarrow> ptok list" where
  "pr_steps steps = concat (map (\<lambda>(r, nd). pr_rel r @ pr_node nd) steps)"

definition pr_pattern :: "pattern_src \<Rightarrow> ptok list" where
  "pr_pattern = (\<lambda>(nd, steps). pr_node nd @ pr_steps steps)"

definition pattern_of :: "pattern_src \<Rightarrow> cbm_pattern_t" where
  "pattern_of = (\<lambda>(nd, steps).
     \<lparr>pat_nodes = node_of nd # map (\<lambda>s. node_of (snd s)) steps, pat_rels = map fst steps\<rparr>)"

definition wf_pattern_src :: "pattern_src \<Rightarrow> bool" where
  "wf_pattern_src = (\<lambda>(nd, steps). wf_node nd \<and> list_all (\<lambda>(r, nd). wf_rel r \<and> wf_node nd) steps)"

lemma pr_node_head: "pr_node nd \<noteq> []" "hd (pr_node nd @ rest) = (TOK_LPAREN, ''('')"
  by (cases nd; simp add: pr_node_def)+

lemma pr_rel_head: "pr_rel r \<noteq> []" "fst (hd (pr_rel r @ rest)) \<in> {TOK_DASH, TOK_LT}"
  by (simp_all add: pr_rel_def)

lemma pattern_loop_view:
  "\<lbrakk>view p = pr_steps steps @ rest; rest \<noteq> []; fst (hd rest) \<notin> {TOK_DASH, TOK_LT};
    list_all (\<lambda>(r, nd). wf_rel r \<and> wf_node nd) steps; length (view p) + length steps < n\<rbrakk> \<Longrightarrow>
   yields (parse_pattern_loop n p pat) p
     \<lparr>pat_nodes = pat_nodes pat @ map (\<lambda>s. node_of (snd s)) steps, pat_rels = pat_rels pat @ map fst steps\<rparr> rest"
proof (induction steps arbitrary: p pat n)
  case Nil
  then obtain m where "n = Suc m" by (cases n) auto
  with Nil show ?case by (cases pat) (auto simp: pr_steps_def viewing intro!: yieldsI)
next
  case (Cons s steps)
  obtain r nd where s: "s = (r, nd)" by (rule prod.exhaust)
  obtain m where n: "n = Suc m" using Cons.prems by (cases n) auto
  let ?rest = "pr_steps steps @ rest"
  have p: "view p = pr_rel r @ pr_node nd @ ?rest" using Cons.prems(1) by (simp add: s pr_steps_def)
  have ne: "view p \<noteq> []" "fst (hd (view p)) \<in> {TOK_DASH, TOK_LT}" using p pr_rel_head [of r] by auto
  have wf: "wf_rel r" "wf_node nd" using Cons.prems(4) s by auto
  have r: "yields (parse_rel m p) p r (pr_node nd @ ?rest)"
    using p n wf Cons.prems(5) pr_node_head [of nd] by (intro rel_view) auto
  have nd: "yields (parse_node m q) p (node_of nd) ?rest" if "view q = pr_node nd @ ?rest" "same p q" for q
    using that p n wf Cons.prems(2,5) by (intro yields_same [OF node_view]) auto
  have loop: "yields (parse_pattern_loop m q \<lparr>pat_nodes = pat_nodes pat @ [node_of nd], pat_rels = pat_rels pat @ [r]\<rparr>) p
      \<lparr>pat_nodes = pat_nodes pat @ map (\<lambda>s. node_of (snd s)) (s # steps), pat_rels = pat_rels pat @ map fst (s # steps)\<rparr> rest"
    if "view q = ?rest" "same p q" for q
  proof -
    have "yields (parse_pattern_loop m q \<lparr>pat_nodes = pat_nodes pat @ [node_of nd], pat_rels = pat_rels pat @ [r]\<rparr>) q
      \<lparr>pat_nodes = (pat_nodes pat @ [node_of nd]) @ map (\<lambda>s. node_of (snd s)) steps,
       pat_rels = (pat_rels pat @ [r]) @ map fst steps\<rparr> rest"
      using Cons.IH [of q m "\<lparr>pat_nodes = pat_nodes pat @ [node_of nd], pat_rels = pat_rels pat @ [r]\<rparr>"] that Cons.prems n p s
      by (auto simp: comp_def)
    then show ?thesis using yields_same [OF _ that(2)] s by simp
  qed
  have "yields (call (parse_rel m p) (\<lambda>rel p. call (parse_node m p) (\<lambda>node p.
             parse_pattern_loop m p \<lparr>pat_nodes = pat_nodes pat @ [node], pat_rels = pat_rels pat @ [rel]\<rparr>))) p
      \<lparr>pat_nodes = pat_nodes pat @ map (\<lambda>s. node_of (snd s)) (s # steps), pat_rels = pat_rels pat @ map fst (s # steps)\<rparr> rest"
    by (rule yields_call [OF r], rule yields_call [OF nd], assumption+, rule loop)
  then show ?case using ne n by (auto simp: viewing)
qed

lemma pattern_view:
  assumes "wf_pattern_src src" "view p = pr_pattern src @ rest" "rest \<noteq> []"
    "fst (hd rest) \<notin> {TOK_DASH, TOK_LT}" "2 * length (view p) < n"
  shows "yields (parse_match_pattern n p) p (pattern_of src) rest"
proof -
  obtain nd steps where src: "src = (nd, steps)" by (rule prod.exhaust)
  have p: "view p = pr_node nd @ pr_steps steps @ rest" using assms(2) by (simp add: src pr_pattern_def)
  have "length steps \<le> length (pr_steps steps)"
    by (induction steps) (auto simp: pr_steps_def pr_rel_def Suc_le_eq split: prod.splits)
  then have n: "length (pr_steps steps @ rest) + length steps < n" "length (view p) \<le> n" using p assms(5) by auto
  have nd: "yields (parse_node n p) p (node_of nd) (pr_steps steps @ rest)"
    using assms p n by (intro node_view) (auto simp: src wf_pattern_src_def)
  have loop: "yields (parse_pattern_loop n q \<lparr>pat_nodes = [node_of nd], pat_rels = []\<rparr>) p (pattern_of src) rest"
    if "view q = pr_steps steps @ rest" "same p q" for q
    using pattern_loop_view [of q steps rest n "\<lparr>pat_nodes = [node_of nd], pat_rels = []\<rparr>"] that assms n
      yields_same [OF _ that(2)]
    by (auto simp: src wf_pattern_src_def pattern_of_def)
  show ?thesis unfolding parse_match_pattern_def by (rule yields_call [OF nd]) (rule loop)
qed

section \<open>RETURN clauses\<close>

text \<open>A return item as written: a variable, its property and its alias.\<close>

type_synonym item_src = "string \<times> cstr \<times> cstr"

definition pr_item :: "item_src \<Rightarrow> ptok list" where
  "pr_item = (\<lambda>(v, f, a).
     (TOK_IDENT, v) # (case f of None \<Rightarrow> [] | Some x \<Rightarrow> [(TOK_DOT, ''.''), (TOK_IDENT, x)]) @
     (case a of None \<Rightarrow> [] | Some x \<Rightarrow> [(TOK_AS, ''AS''), (TOK_IDENT, x)]))"

definition item_of :: "item_src \<Rightarrow> cbm_return_item_t" where
  "item_of = (\<lambda>(v, f, a). zero_item\<lparr>ri_variable := Some v, ri_property := f, ri_alias := a\<rparr>)"

definition pr_items :: "item_src list \<Rightarrow> ptok list" where
  "pr_items items = tl (concat (map (\<lambda>i. (TOK_COMMA, '','') # pr_item i) items))"

text \<open>A RETURN clause as written: DISTINCT, its items, and the numbers of SKIP and LIMIT.\<close>

type_synonym return_src = "bool \<times> item_src list \<times> nat \<times> nat"

definition pr_clause :: "cbm_token_type_t \<Rightarrow> string \<Rightarrow> nat \<Rightarrow> ptok list" where
  "pr_clause T x n = (if n = 0 then [] else [(T, x), (TOK_NUMBER, dec n)])"

definition pr_return :: "return_src \<Rightarrow> ptok list" where
  "pr_return = (\<lambda>(d, items, sk, lim).
     (TOK_RETURN, ''RETURN'') # (if d then [(TOK_DISTINCT, ''DISTINCT'')] else []) @ pr_items items @
     pr_clause TOK_SKIP ''SKIP'' sk @ pr_clause TOK_LIMIT ''LIMIT'' lim)"

definition return_of :: "return_src \<Rightarrow> cbm_return_clause_t" where
  "return_of = (\<lambda>(d, items, sk, lim).
     zero_return\<lparr>rc_distinct := d, rc_items := map item_of items, rc_skip := int sk, rc_limit := int lim\<rparr>)"

definition wf_return :: "return_src \<Rightarrow> bool" where
  "wf_return = (\<lambda>(d, items, sk, lim). items \<noteq> [] \<and> sk < 2 ^ 31 \<and> lim < 2 ^ 31)"

lemma view_next_lparen:
  assumes "view p = a # b # rest" "fst b \<noteq> TOK_LPAREN"
  shows "\<not> next_is_lparen p"
proof -
  have l: "ppos p + 1 < length (ptokens p)" using assms(1) by (auto simp: view_def dest: arg_cong [where f = length])
  have "view p ! 1 = (tok_type (ptokens p ! (ppos p + 1)), tok_text (ptokens p ! (ppos p + 1)))"
    using l nth_drop [of "ppos p" "ptokens p" 1] by (simp add: view_def)
  with assms show ?thesis by (auto simp: next_is_lparen_def)
qed

lemma item_view:
  assumes "view p = pr_item i @ rest" "rest \<noteq> []" "fst (hd rest) \<notin> {TOK_DOT, TOK_LPAREN, TOK_LBRACKET, TOK_AS}"
  shows "yields (parse_return_item n p) p (item_of i) rest"
proof -
  obtain v f a where i: "i = (v, f, a)" by (cases i) auto
  obtain h t where r: "rest = h # t" using assms(2) by (cases rest) auto
  have "\<not> next_is_lparen p"
    using assms i r by (cases f; cases a) (auto simp: pr_item_def dest: view_next_lparen)
  then have body: "parse_item_body n p zero_item = parse_var_dot_prop p zero_item"
    using assms(1) by (simp add: parse_item_body_def is_multiarg_func_call_def is_named_func_call_def viewing i
        pr_item_def is_aggregate_tok_def is_string_func_tok_def)
  show ?thesis
    unfolding parse_return_item_def body
    using assms i r
    by (cases f; cases a)
      (auto simp: parse_var_dot_prop_def pr_item_def item_of_def zero_item_def viewing Let_def intro!: yieldsI)
qed

lemma items_loop_view:
  "\<lbrakk>view p = concat (map (\<lambda>i. (TOK_COMMA, '','') # pr_item i) items) @ rest; acc \<noteq> []; items \<noteq> []; rest \<noteq> [];
    fst (hd rest) \<notin> {TOK_DOT, TOK_LPAREN, TOK_LBRACKET, TOK_AS, TOK_COMMA}; length items < n\<rbrakk> \<Longrightarrow>
   yields (parse_items_loop n p acc) p (acc @ map item_of items) rest"
proof (induction items arbitrary: p acc n)
  case (Cons i items)
  obtain m where n: "n = Suc m" using Cons.prems by (cases n) auto
  define R where "R = concat (map (\<lambda>i. (TOK_COMMA, '','') # pr_item i) items) @ rest"
  have p: "view p = (TOK_COMMA, '','') # pr_item i @ R" using Cons.prems(1) by (simp add: R_def)
  have R: "R \<noteq> []" "fst (hd R) \<notin> {TOK_DOT, TOK_LPAREN, TOK_LBRACKET, TOK_AS}" "fst (hd R) = TOK_COMMA \<longleftrightarrow> items \<noteq> []"
    using Cons.prems by (cases items; simp add: R_def)+
  have it: "yields (parse_return_item m (nxt p)) p (item_of i) R"
    using item_view [of "nxt p" i R m] p R by (simp add: viewing)
  have loop: "yields (if check q TOK_COMMA then parse_items_loop m q (acc @ [item_of i])
      else Some (Some (acc @ [item_of i]), q)) p (acc @ map item_of (i # items)) rest" if q: "view q = R" "same p q" for q
  proof (cases "items = []")
    case True
    then show ?thesis using q R Cons.prems by (auto simp: viewing R_def intro!: yieldsI)
  next
    case False
    have "yields (parse_items_loop m q (acc @ [item_of i])) q ((acc @ [item_of i]) @ map item_of items) rest"
      using Cons.prems False n q by (intro Cons.IH) (auto simp: R_def)
    then show ?thesis using q R False yields_same [OF _ q(2)] by (simp add: viewing)
  qed
  have "yields (call (parse_return_item m (nxt p)) (\<lambda>item p.
      if check p TOK_COMMA then parse_items_loop m p (acc @ [item]) else Some (Some (acc @ [item]), p))) p
      (acc @ map item_of (i # items)) rest"
    by (rule yields_call [OF it]) (rule loop)
  then show ?case using p n Cons.prems(2) by (simp add: viewing)
qed simp

lemma items_view:
  assumes "view p = pr_items items @ rest" "items \<noteq> []" "rest \<noteq> []"
    "fst (hd rest) \<notin> {TOK_DOT, TOK_LPAREN, TOK_LBRACKET, TOK_AS, TOK_COMMA}" "length items < n"
  shows "yields (parse_items_loop n p []) p (map item_of items) rest"
proof -
  obtain i its where items: "items = i # its" using assms(2) by (cases items) auto
  obtain m where n: "n = Suc m" using assms(5) by (cases n) auto
  define R where "R = concat (map (\<lambda>i. (TOK_COMMA, '','') # pr_item i) its) @ rest"
  have p: "view p = pr_item i @ R" using assms(1) by (simp add: R_def items pr_items_def)
  have R: "R \<noteq> []" "fst (hd R) \<notin> {TOK_DOT, TOK_LPAREN, TOK_LBRACKET, TOK_AS}" "fst (hd R) = TOK_COMMA \<longleftrightarrow> its \<noteq> []"
    using assms by (cases its; simp add: R_def)+
  have it: "yields (parse_return_item m p) p (item_of i) R"
    using p R by (intro item_view) auto
  have loop: "yields (if check q TOK_COMMA then parse_items_loop m q [item_of i]
      else Some (Some [item_of i], q)) p (map item_of items) rest" if q: "view q = R" "same p q" for q
  proof (cases "its = []")
    case True
    then show ?thesis using q R assms by (auto simp: items viewing R_def intro!: yieldsI)
  next
    case False
    have "yields (parse_items_loop m q [item_of i]) q ([item_of i] @ map item_of its) rest"
      using assms False n q items by (intro items_loop_view) (auto simp: R_def)
    then show ?thesis using q R False items yields_same [OF _ q(2)] by (simp add: viewing)
  qed
  have "yields (call (parse_return_item m p) (\<lambda>item p.
      if check p TOK_COMMA then parse_items_loop m p [item] else Some (Some [item], p))) p (map item_of items) rest"
    by (rule yields_call [OF it]) (rule loop)
  then show ?thesis using n by (simp cong: if_cong)
qed

lemma clause_view:
  assumes "view p = pr_clause T x k @ rest" "rest \<noteq> []" "fst (hd rest) \<noteq> T" "k < 2 ^ 31"
  shows "\<exists>q. clause_number p T = (int k, q) \<and> view q = rest \<and> same p q"
proof (cases "k = 0")
  case True
  then show ?thesis using assms by (simp add: clause_number_def pr_clause_def viewing)
next
  case False
  have "parse_number t = int k" if "tok_text t = dec k" for t using parse_number_dec that assms(4) by blast
  then show ?thesis using False assms by (simp add: clause_number_def pr_clause_def viewing)
qed

lemma return_tail_view:
  assumes "view p = pr_clause TOK_SKIP ''SKIP'' sk @ pr_clause TOK_LIMIT ''LIMIT'' lim @ rest" "rest \<noteq> []"
    "fst (hd rest) \<notin> {TOK_ORDER, TOK_SKIP, TOK_LIMIT}" "sk < 2 ^ 31" "lim < 2 ^ 31"
  shows "yields (parse_return_tail p r) p (Some (r\<lparr>rc_skip := int sk, rc_limit := int lim\<rparr>)) rest"
proof -
  let ?L = "pr_clause TOK_LIMIT ''LIMIT'' lim @ rest"
  have L: "?L \<noteq> []" "fst (hd ?L) \<notin> {TOK_ORDER, TOK_SKIP}" using assms by (auto simp: pr_clause_def)
  have p: "view p \<noteq> []" "fst (hd (view p)) \<noteq> TOK_ORDER" using assms(1) L by (auto simp: pr_clause_def split: if_splits)
  obtain q where q: "clause_number p TOK_SKIP = (int sk, q)" "view q = ?L" "same p q"
    using clause_view [of p TOK_SKIP "''SKIP''" sk ?L] assms L by auto
  obtain u where u: "clause_number q TOK_LIMIT = (int lim, u)" "view u = rest" "same q u"
    using clause_view [OF q(2)] assms by auto
  show ?thesis using p q u same_trans [OF q(3) u(3)] by (simp add: parse_return_tail_def viewing yieldsI)
qed

lemma return_view:
  assumes "view p = pr_return rs @ rest" "rest \<noteq> []" "wf_return rs" "length (view p) \<le> n"
    "fst (hd rest) \<notin> {TOK_DOT, TOK_LPAREN, TOK_LBRACKET, TOK_AS, TOK_COMMA, TOK_ORDER, TOK_SKIP, TOK_LIMIT}"
  shows "yields (parse_return n p) p (Some (return_of rs)) rest"
proof -
  obtain d items sk lim where rs: "rs = (d, items, sk, lim)" by (cases rs) auto
  define C where "C = pr_clause TOK_SKIP ''SKIP'' sk @ pr_clause TOK_LIMIT ''LIMIT'' lim @ rest"
  have C: "C \<noteq> []" "fst (hd C) \<notin> {TOK_DOT, TOK_LPAREN, TOK_LBRACKET, TOK_AS, TOK_COMMA}"
    using assms by (auto simp: C_def pr_clause_def)
  have p: "view p = (TOK_RETURN, ''RETURN'') # (if d then [(TOK_DISTINCT, ''DISTINCT'')] else []) @ pr_items items @ C"
    using assms(1) by (simp add: rs pr_return_def C_def)
  have wf: "items \<noteq> []" "sk < 2 ^ 31" "lim < 2 ^ 31" using assms(3) by (auto simp: rs wf_return_def)
  obtain i its where its: "items = i # its" using wf by (cases items) auto
  have I: "pr_items items \<noteq> []" "fst (hd (pr_items items @ C)) = TOK_IDENT"
    by (simp_all add: its pr_items_def pr_item_def split: prod.splits)
  have "length its \<le> length (concat (map (\<lambda>i. (TOK_COMMA, '','') # pr_item i) its))" by (induction its) auto
  then have "length items \<le> length (pr_items items)" by (cases i) (simp add: its pr_items_def pr_item_def)
  then have len: "length items < n" using p assms(4) by auto
  obtain q where q: "match (nxt p) TOK_DISTINCT = (d, q)" "view q = pr_items items @ C" "same p q"
    using p I by (cases d) (auto simp: viewing)
  let ?r = "zero_return\<lparr>rc_distinct := d\<rparr>"
  have it: "yields (parse_items_loop n q []) p (map item_of items) C"
    using q C wf len by (intro yields_same [OF items_view]) auto
  have tail: "yields (parse_return_tail s (?r\<lparr>rc_items := map item_of items\<rparr>)) p (Some (return_of rs)) rest"
    if "view s = C" "same p s" for s
    using yields_same [OF return_tail_view [of s sk lim rest "?r\<lparr>rc_items := map item_of items\<rparr>"] that(2)] that assms wf
    by (simp add: C_def rs return_of_def)
  have "yields (call (parse_items_loop n q []) (\<lambda>items p. parse_return_tail p (?r\<lparr>rc_items := items\<rparr>))) p
      (Some (return_of rs)) rest"
    by (rule yields_call [OF it]) (rule tail)
  moreover have "\<not> check q TOK_STAR" using q I by (simp add: viewing)
  ultimately show ?thesis using p q by (simp add: parse_return_def parse_return_or_with_def viewing Let_def)
qed

section \<open>Queries\<close>

text \<open>A query as written: a pattern, a condition and a RETURN clause.\<close>

type_synonym query_src = "pattern_src \<times> cbm_expr_t option \<times> return_src"

definition pr_where :: "cbm_expr_t option \<Rightarrow> ptok list" where
  "pr_where w = (case w of None \<Rightarrow> [] | Some e \<Rightarrow> (TOK_WHERE, ''WHERE'') # pr_expr 0 e)"

definition pr_query :: "query_src \<Rightarrow> ptok list" where
  "pr_query = (\<lambda>(pat, w, rs). (TOK_MATCH, ''MATCH'') # pr_pattern pat @ pr_where w @ pr_return rs)"

definition query_of :: "query_src \<Rightarrow> cbm_query_t" where
  "query_of = (\<lambda>(pat, w, rs).
     cbm_query [pattern_of pat] [False] (map_option (\<lambda>e. \<lparr>w_root = Some e\<rparr>) w) None None
       (Some (return_of rs)) None False None None)"

definition wf_query :: "query_src \<Rightarrow> bool" where
  "wf_query = (\<lambda>(pat, w, rs).
     wf_pattern_src pat \<and> (case w of None \<Rightarrow> True | Some e \<Rightarrow> wf_expr e) \<and> wf_return rs)"

lemma where_view:
  assumes "view p = pr_where w @ rest" "rest \<noteq> []" "fst (hd rest) \<notin> {TOK_WHERE, TOK_OR, TOK_XOR, TOK_AND}"
    "case w of None \<Rightarrow> True | Some e \<Rightarrow> wf_expr e" "8 * length (view p) \<le> n"
  shows "yields (parse_where n p) p (map_option (\<lambda>e. \<lparr>w_root = Some e\<rparr>) w) rest"
proof (cases w)
  case None
  with assms show ?thesis by (simp add: pr_where_def parse_where_def viewing yieldsI)
next
  case (Some e)
  then have "or_level.continues 4 {TOK_XOR, TOK_AND} e (pr_expr 0 e)"
    using assms(4) expr_reads_wf by (simp add: expr_reads_def)
  then have "reads parse_or_expr 5 {TOK_OR, TOK_XOR, TOK_AND} e (pr_expr 0 e)" by (rule or_reads)
  then have "yields (parse_or_expr n (nxt p)) (nxt p) e rest"
    using assms Some by (intro readsD) (auto simp: pr_where_def viewing)
  then obtain q where "parse_or_expr n (nxt p) = Some (Some e, q)" "view q = rest" "same p q"
    by (auto elim!: yieldsE simp: viewing)
  then show ?thesis using assms Some by (simp add: parse_where_def pr_where_def viewing yieldsI)
qed

lemma returned_yields:
  "yields m p x rest \<Longrightarrow> (\<And>q. view q = rest \<Longrightarrow> same p q \<Longrightarrow> k x q = R) \<Longrightarrow> returned m msg k = R"
  by (auto elim!: yieldsE simp: returned_def)

lemma chain_stops:
  assumes "view p \<noteq> []" "fst (hd (view p)) \<notin> {TOK_MATCH, TOK_OPTIONAL}" "0 < n"
  shows "yields (parse_match_chain n p pats opts) p (pats, opts) (view p)"
  using assms by (cases n) (simp_all add: viewing yieldsI)

definition ends_return :: "ptok list \<Rightarrow> bool" where
  \<comment> \<open>the next token continues neither a RETURN clause nor, with UNION, the query\<close>
  "ends_return rest \<longleftrightarrow> rest \<noteq> [] \<and>
     fst (hd rest) \<notin> {TOK_DOT, TOK_LPAREN, TOK_LBRACKET, TOK_AS, TOK_COMMA, TOK_ORDER, TOK_SKIP, TOK_LIMIT, TOK_UNION}"

lemma post_where_view:
  assumes "view p = pr_return rs @ rest" "ends_return rest" "wf_return rs" "Suc (length (view p)) < n"
  shows "yields (parse_post_where sub n p pats opts) p (pats, opts, None, None, Some (return_of rs), None, False) rest"
proof -
  have h: "view p \<noteq> []" "fst (hd (view p)) = TOK_RETURN" using assms(1) by (cases rs; simp add: pr_return_def)+
  have c: "yields (parse_match_chain n p pats opts) p (pats, opts) (view p)"
    using h assms(4) by (intro chain_stops) auto
  have r: "yields (parse_return n q) p (Some (return_of rs)) rest" if "view q = view p" "same p q" for q
    using that assms by (intro yields_same [OF return_view]) (auto simp: ends_return_def)
  have fin: "yields (call (parse_return n q) (\<lambda>ret p.
             if check p TOK_UNION
             then (case match (skip_tok p) TOK_ALL of (all, p) \<Rightarrow>
                     (case sub (drop (ppos p) (ptokens p)) of
                        None \<Rightarrow> None
                      | Some (Inl e, oob) \<Rightarrow> Some (None, set_error (p\<lparr>poob := poob p \<or> oob\<rparr>) e)
                      | Some (Inr q, oob) \<Rightarrow>
                          Some (Some (pats, opts, None, None, ret, Some q, all), p\<lparr>poob := poob p \<or> oob\<rparr>)))
             else Some (Some (pats, opts, None, None, ret, None, False), p))) p
      (pats, opts, None, None, Some (return_of rs), None, False) rest"
    if "view q = view p" "same p q" for q
    by (rule yields_call [OF r [OF that]]) (use assms(2) in \<open>auto simp: ends_return_def viewing intro!: yieldsI\<close>)
  have "unsupported_clause_error (tok_type (peek q)) = None"
    "parse_with_part n q = Some (Some (None, None), q)" if "view q = view p" for q
    using that h by (simp_all add: viewing unsupported_clause_error_def parse_with_part_def)
  then show ?thesis
    unfolding parse_post_where_def
    by (intro yields_call [OF c]) (simp add: viewing fin)
qed

lemma cbm_parse_view:
  assumes "wf_query qs" "view (start_parser tokens) = pr_query qs @ rest" "ends_return rest"
    "8 * length tokens + 8 \<le> n"
  shows "cbm_parse n tokens = Some (Inr (query_of qs), False)"
proof -
  obtain pat w rs where qs: "qs = (pat, w, rs)" by (cases qs) auto
  obtain m where n: "n = Suc m" using assms(4) by (cases n) auto
  let ?p = "start_parser tokens"
  let ?R = "pr_return rs @ rest"
  have wf: "wf_pattern_src pat" "case w of None \<Rightarrow> True | Some e \<Rightarrow> wf_expr e" "wf_return rs"
    using assms(1) by (auto simp: qs wf_query_def)
  have p: "view ?p = (TOK_MATCH, ''MATCH'') # pr_pattern pat @ pr_where w @ ?R"
    using assms(2) by (simp add: qs pr_query_def)
  have len: "length (view ?p) = length tokens" by (simp add: view_def start_parser_def)
  then have m: "8 * length (pr_pattern pat @ pr_where w @ ?R) + 15 \<le> m" using p assms(4) n by simp
  have R: "fst (hd ?R) = TOK_RETURN" "?R \<noteq> []" by (cases rs; simp add: pr_return_def)+
  have WR: "pr_where w @ ?R \<noteq> []" "fst (hd (pr_where w @ ?R)) \<in> {TOK_WHERE, TOK_RETURN}"
    using R by (auto simp: pr_where_def split: option.splits)
  have pt: "yields (parse_match_pattern m (nxt ?p)) ?p (pattern_of pat) (pr_where w @ ?R)"
    using pattern_view [OF wf(1), of "nxt ?p" "pr_where w @ ?R" m] p m WR by (auto simp: viewing)
  have ch: "yields (parse_match_chain m q pats opts) ?p (pats, opts) (pr_where w @ ?R)"
    if "view q = pr_where w @ ?R" "same ?p q" for q pats opts
    using yields_same [OF chain_stops [of q m pats opts] that(2)] that WR m by auto
  have wh: "yields (parse_where m q) ?p (map_option (\<lambda>e. \<lparr>w_root = Some e\<rparr>) w) ?R"
    if "view q = pr_where w @ ?R" "same ?p q" for q
    using that R wf m by (intro yields_same [OF where_view]) auto
  have po: "yields (parse_post_where (cbm_parse m) m q pats opts) ?p
      (pats, opts, None, None, Some (return_of rs), None, False) rest" if "view q = ?R" "same ?p q" for q pats opts
    using that wf m assms(3) by (intro yields_same [OF post_where_view]) auto
  have ok: "\<not> poob q" if "same ?p q" for q using that by (simp add: same_def start_parser_def)
  have "returned (parse_match_pattern m (nxt ?p)) ''failed to parse pattern'' (\<lambda>pat p.
                returned (parse_match_chain m p [pat] [False])
                  ''failed to parse additional pattern'' (\<lambda>(pats, opts) p.
                returned (parse_where m p) ''failed to parse WHERE'' (\<lambda>w p.
                returned (parse_post_where (cbm_parse m) m p pats opts) ''failed to parse query''
                  (\<lambda>(pats, opts, wc, pw, ret, un, all) p.
                    Some (Inr (cbm_query pats opts w wc pw ret un all None None), poob p))))) =
        Some (Inr (query_of qs), False)"
    by (rule returned_yields [OF pt], rule returned_yields [OF ch], assumption+, unfold prod.case,
        rule returned_yields [OF wh], assumption+, rule returned_yields [OF po], assumption+)
      (simp add: query_of_def qs ok)
  moreover have "parse_head m ?p = Some (Some (None, None), ?p)" "unsupported_clause_error (tok_type (peek ?p)) = None"
    using p by (simp_all add: parse_head_def viewing unsupported_clause_error_def)
  ultimately show ?thesis
    using p unfolding n cbm_parse.simps Let_def by (simp add: viewing returned_def [of "Some (Some (None, None), _)"])
qed

text \<open>
  C30. Lexing and parsing undo printing: a query of a \<open>MATCH\<close> pattern (nodes with variables, label
  alternatives and properties; relationships with variables, types, hop ranges and
  direction), a \<open>WHERE\<close> expression printed with only the parentheses that the precedence
  OR, XOR, AND, NOT needs, and a \<open>RETURN\<close> clause, is printed as text and parsed back to the
  same syntax tree, with no buffer overrun.
\<close>

theorem cypher_print_parse:
  assumes "wf_query qs" "list_all wf_tok (pr_query qs)"
  shows "cbm_cypher_parse (Some (tokens_print (pr_query qs))) = Some (Inr (query_of qs), False)"
proof -
  let ?ts = "lex_loop 0 (tokens_print (pr_query qs))"
  have "view (start_parser ?ts) = pr_query qs @ [(TOK_EOF, [])]"
    using lex_loop_print [OF assms(2)] by (simp add: view_def start_parser_def)
  from cbm_parse_view [OF assms(1) this] show ?thesis
    by (simp add: cbm_cypher_parse_def cbm_lex_def parse_fuel_def ends_return_def)
qed

definition demo_query :: query_src where
  "demo_query = (((Some ''f'', [''A'', ''B''], []),
      [(\<lparr>r_variable = None, r_types = [''C''], r_direction = Some ''outbound'', r_min_hops = 1, r_max_hops = 3\<rparr>,
        (Some ''g'', [], []))]),
     Some (EXPR_AND (EXPR_OR
        (EXPR_CONDITION (zero_condition\<lparr>c_variable := Some ''f'', c_op := Some ''='', c_value := Some ''x''\<rparr>))
        (EXPR_CONDITION (zero_condition\<lparr>c_variable := Some ''g'', c_op := Some ''HAS_LABEL'', c_value := Some ''B''\<rparr>)))
        (EXPR_NOT (EXPR_CONDITION (zero_condition\<lparr>c_variable := Some ''g'', c_op := Some ''HAS_LABEL'', c_value := Some ''A''\<rparr>)))),
     (False, [(''f'', None, None)], 0, 7))"

lemma keyword_eval:
  "keyword_lookup ''MATCH'' = TOK_MATCH" "keyword_lookup ''WHERE'' = TOK_WHERE"
  "keyword_lookup ''RETURN'' = TOK_RETURN" "keyword_lookup ''LIMIT'' = TOK_LIMIT"
  "keyword_lookup ''AND'' = TOK_AND" "keyword_lookup ''OR'' = TOK_OR" "keyword_lookup ''NOT'' = TOK_NOT"
  by (simp_all add: keyword_lookup_def keyword_table_def strcasecmp_eq_def tolower_def char_class byte_def)

lemma digit_eval: "char_of (49::nat) = CHR ''1''" "char_of (51::nat) = CHR ''3''" "char_of (55::nat) = CHR ''7''"
  by (simp_all add: char_of_def odd_iff_mod_2_eq_one bit_0)

lemma demo_tokens:
  "pr_query demo_query =
    [(TOK_MATCH, ''MATCH''), (TOK_LPAREN, ''(''), (TOK_IDENT, ''f''), (TOK_COLON, '':''), (TOK_IDENT, ''A''),
     (TOK_PIPE, ''|''), (TOK_IDENT, ''B''), (TOK_RPAREN, '')''), (TOK_DASH, ''-''), (TOK_LBRACKET, ''[''),
     (TOK_COLON, '':''), (TOK_IDENT, ''C''), (TOK_STAR, ''*''), (TOK_NUMBER, ''1''), (TOK_DOTDOT, ''..''),
     (TOK_NUMBER, ''3''), (TOK_RBRACKET, '']''), (TOK_DASH, ''-''), (TOK_GT, ''>''), (TOK_LPAREN, ''(''),
     (TOK_IDENT, ''g''), (TOK_RPAREN, '')''), (TOK_WHERE, ''WHERE''), (TOK_LPAREN, ''(''), (TOK_IDENT, ''f''),
     (TOK_EQ, ''=''), (TOK_STRING, ''x''), (TOK_OR, ''OR''), (TOK_IDENT, ''g''), (TOK_COLON, '':''),
     (TOK_IDENT, ''B''), (TOK_RPAREN, '')''), (TOK_AND, ''AND''), (TOK_NOT, ''NOT''), (TOK_IDENT, ''g''),
     (TOK_COLON, '':''), (TOK_IDENT, ''A''), (TOK_RETURN, ''RETURN''), (TOK_IDENT, ''f''), (TOK_LIMIT, ''LIMIT''),
     (TOK_NUMBER, ''7'')]"
  by (simp add: pr_query_def demo_query_def pr_pattern_def pr_node_def pr_steps_def pr_rel_def pr_hops_def pipes_def
      pr_where_def parens_def pr_cond_def pr_path_def zero_condition_def op_tokens_def pr_return_def pr_items_def
      pr_item_def pr_clause_def dec.simps digit_char_def digit_eval)

lemma wf_tok_symbol: "lex_single_char c = type \<Longrightarrow> type \<noteq> TOK_EOF \<Longrightarrow> wf_tok (type, [c])"
  by (simp add: wf_tok_def)

lemma wf_tok_letter: "isalpha c \<Longrightarrow> wf_tok (TOK_IDENT, [c])"
  by (rule wf_tok_word) (simp_all add: keyword_lookup_short ident_char_def isalnum_def)

lemma wf_tok_digit: "isdigit c \<Longrightarrow> wf_tok (TOK_NUMBER, [c])"
  by (simp add: wf_tok_def lex_try_number_def)

lemma demo_query_ok: "wf_query demo_query" "list_all wf_tok (pr_query demo_query)"
proof -
  show "wf_query demo_query"
    by (simp add: demo_query_def wf_query_def wf_pattern_src_def wf_node_def label_of_def wf_rel_def wf_return_def
        wf_cond_def zero_condition_def op_tokens_def)
  have kw: "wf_tok (TOK_MATCH, ''MATCH'')" "wf_tok (TOK_WHERE, ''WHERE'')" "wf_tok (TOK_RETURN, ''RETURN'')"
    "wf_tok (TOK_LIMIT, ''LIMIT'')" "wf_tok (TOK_AND, ''AND'')" "wf_tok (TOK_OR, ''OR'')" "wf_tok (TOK_NOT, ''NOT'')"
    by (rule wf_tok_word; simp add: keyword_eval ident_char_def char_class byte_def)+
  have two: "wf_tok (TOK_DOTDOT, ''..'')" "wf_tok (TOK_STRING, ''x'')"
    by (simp_all add: wf_tok_def lex_try_two_char_def lex_pairs_def)
  show "list_all wf_tok (pr_query demo_query)"
    unfolding demo_tokens
    by (simp add: kw two wf_tok_letter wf_tok_digit wf_tok_symbol lex_single_char_def char_class byte_def)
qed

theorem cypher_print_parse_witness:
  "cbm_cypher_parse (Some (tokens_print (pr_query demo_query))) = Some (Inr (query_of demo_query), False)"
  by (rule cypher_print_parse [OF demo_query_ok])

text \<open>
  Whatever follows a complete query is ignored: after the \<open>RETURN\<close> clause the parser stops
  without looking at the next token, unless that token continues the clause or is \<open>UNION\<close>. A
  \<open>DELETE\<close> or \<open>CREATE\<close> clause that stands there is neither executed nor reported, although the
  same clause in front of \<open>RETURN\<close> is refused.
\<close>

theorem cypher_trailing_tokens_ignored:
  assumes "wf_query qs" "list_all wf_tok (pr_query qs @ junk)" "ends_return (junk @ [(TOK_EOF, [])])"
  shows "cbm_cypher_parse (Some (tokens_print (pr_query qs @ junk))) = Some (Inr (query_of qs), False)"
proof -
  let ?ts = "lex_loop 0 (tokens_print (pr_query qs @ junk))"
  have "view (start_parser ?ts) = pr_query qs @ junk @ [(TOK_EOF, [])]"
    using lex_loop_print [OF assms(2)] by (simp add: view_def start_parser_def)
  from cbm_parse_view [OF assms(1) this assms(3)] show ?thesis
    by (simp add: cbm_cypher_parse_def cbm_lex_def parse_fuel_def)
qed

theorem cypher_trailing_tokens_ignored_witness:
  "cbm_cypher_parse (Some (tokens_print (pr_query demo_query @ [(TOK_DELETE, ''DELETE'')]))) =
   Some (Inr (query_of demo_query), False)"
proof (rule cypher_trailing_tokens_ignored)
  have "wf_tok (TOK_DELETE, ''DELETE'')"
    by (rule wf_tok_word)
      (simp_all add: keyword_lookup_def keyword_table_def strcasecmp_eq_def tolower_def ident_char_def char_class byte_def)
  then show "list_all wf_tok (pr_query demo_query @ [(TOK_DELETE, ''DELETE'')])"
    using demo_query_ok(2) by simp
qed (simp_all add: demo_query_ok ends_return_def)

end
