(* ===== verification/CypherExec.thy ===== *)
theory CypherExec
  imports CypherParser
begin

text \<open>
  The query executor of \<open>cypher/cypher.c\<close>: bindings of variables to nodes and edges, evaluation of
  conditions, matching of patterns against the store, \<open>WITH\<close> and \<open>RETURN\<close> with aggregation, sorting and
  paging, and \<open>cbm_cypher_execute\<close>.

  The store, the regular expressions of the C library and floating point arithmetic are the fields of an
  environment that the functions take. Strings are values: the buffers that \<open>node_prop\<close> and \<open>edge_prop\<close> use
  in rotation are not modelled, but the lengths at which they cut a value off are. A write outside an array
  or an access through a null pointer sets a mark that the C program does not have; what is computed after
  it is what the code would compute with enough room. Heap allocation is taken to succeed, and
  counts of nodes and bindings to stay in the range of \<open>int\<close>.
\<close>

section \<open>The environment\<close>

record cbm_node_t =
  nd_id :: int
  nd_project :: cstr
  nd_label :: cstr
  nd_name :: cstr
  nd_qn :: cstr
  nd_file :: cstr
  nd_start :: int
  nd_end :: int
  nd_props :: cstr

record cbm_edge_t =
  ed_id :: int
  ed_project :: cstr
  ed_source :: int
  ed_target :: int
  ed_type :: cstr
  ed_props :: cstr

record 'd cbm_env =
  \<comment> \<open>the queries of the store\<close>
  nodes_by_label :: "cstr \<Rightarrow> string \<Rightarrow> cbm_node_t list"
  store_search :: "cstr \<Rightarrow> int \<Rightarrow> cbm_node_t list"
  node_by_id :: "int \<Rightarrow> cbm_node_t option"
  edges_by_source :: "int \<Rightarrow> cbm_edge_t list"
  edges_by_target :: "int \<Rightarrow> cbm_edge_t list"
  edges_by_source_type :: "int \<Rightarrow> string \<Rightarrow> cbm_edge_t list"
  edges_by_target_type :: "int \<Rightarrow> string \<Rightarrow> cbm_edge_t list"
  store_bfs :: "int \<Rightarrow> string \<Rightarrow> string list \<Rightarrow> int \<Rightarrow> int \<Rightarrow> (cbm_node_t \<times> int) list"
  node_degree :: "int \<Rightarrow> int \<times> int"
  \<comment> \<open>\<open>cbm_regcomp\<close>, \<open>None\<close> for a pattern it refuses, with \<open>cbm_regexec\<close>\<close>
  regex :: "string \<Rightarrow> (string \<Rightarrow> bool) option"
  \<comment> \<open>\<open>strtod\<close> with the number of characters it reads, arithmetic on doubles and their formats\<close>
  fp_strtod :: "string \<Rightarrow> 'd \<times> nat"
  fp_add :: "'d \<Rightarrow> 'd \<Rightarrow> 'd"
  fp_div :: "'d \<Rightarrow> 'd \<Rightarrow> 'd"
  fp_lt :: "'d \<Rightarrow> 'd \<Rightarrow> bool"
  fp_le :: "'d \<Rightarrow> 'd \<Rightarrow> bool"
  fp_of_int :: "int \<Rightarrow> 'd"
  fp_to_ll :: "'d \<Rightarrow> int"
  fp_max :: 'd
  fp_min :: 'd
  fp_fmt_g :: "'d \<Rightarrow> string"
  fp_fmt_10g :: "'d \<Rightarrow> string"

definition CYP_MAX_VARS :: nat where "CYP_MAX_VARS = 16"
definition CYP_MAX_EDGE_VARS :: nat where "CYP_MAX_EDGE_VARS = 8"
definition CYP_GROWTH_10 :: nat where "CYP_GROWTH_10 = 10"
definition CYP_MAX_DEPTH :: int where "CYP_MAX_DEPTH = 10"
definition CBM_PERCENT :: int where "CBM_PERCENT = 100"
definition CYPHER_RESULT_CEILING :: nat where "CYPHER_RESULT_CEILING = 100000"

record binding_t =
  b_vars :: "(string \<times> cbm_node_t) list"
  b_edges :: "(string \<times> cbm_edge_t) list"
  b_store :: bool  \<comment> \<open>whether the pointer to the store is set\<close>

definition str_of :: "cstr \<Rightarrow> string" where
  \<comment> \<open>\<open>s ? s : ""\<close>, and fields that the parser always sets\<close>
  "str_of s = (case s of Some s \<Rightarrow> s | None \<Rightarrow> [])"

definition fmt_s :: "cstr \<Rightarrow> string" where
  \<comment> \<open>what \<open>%s\<close> prints\<close>
  "fmt_s s = (case s of Some s \<Rightarrow> s | None \<Rightarrow> ''(null)'')"

section \<open>Properties\<close>

definition node_string_field :: "cbm_node_t \<Rightarrow> string \<Rightarrow> cstr" where
  "node_string_field n prop =
     (if prop = ''name'' then Some (str_of (nd_name n))
      else if prop = ''qualified_name'' then Some (str_of (nd_qn n))
      else if prop = ''label'' then Some (str_of (nd_label n))
      else if prop = ''file_path'' then Some (str_of (nd_file n)) else None)"

fun strstr_at :: "string \<Rightarrow> string \<Rightarrow> nat option" where
  \<comment> \<open>the offset of the first occurrence\<close>
  "strstr_at [] sub = (if sub = [] then Some 0 else None)"
| "strstr_at (x # xs) sub = (if prefix sub (x # xs) then Some 0 else map_option Suc (strstr_at xs sub))"

definition json_extract_prop :: "cstr \<Rightarrow> string \<Rightarrow> nat \<Rightarrow> string" where
  "json_extract_prop json key buf_sz =
     (case json of
        None \<Rightarrow> []
      | Some json \<Rightarrow>
          (let pattern = snprintf_into CBM_SZ_256 (CHR 0x22 # key @ [CHR 0x22, CHR '':''])
           in case strstr_at json pattern of
                None \<Rightarrow> []
              | Some i \<Rightarrow>
                  (let p = dropWhile (\<lambda>c. c = CHR '' '' \<or> c = CHR 0x09) (drop (i + length pattern) json)
                   in if p \<noteq> [] \<and> hd p = CHR 0x22
                      then take (buf_sz - 1) (takeWhile (\<lambda>c. c \<noteq> CHR 0x22) (tl p))
                      else take (buf_sz - 1) (takeWhile (\<lambda>c. c \<noteq> CHR '','' \<and> c \<noteq> CHR ''}'' \<and> c \<noteq> CHR '' '') p))))"

definition node_prop :: "'d cbm_env \<Rightarrow> cbm_node_t \<Rightarrow> string \<Rightarrow> bool \<Rightarrow> string" where
  \<comment> \<open>the last argument says whether there is a store\<close>
  "node_prop env n prop st =
     (case node_string_field n prop of
        Some str \<Rightarrow> str
      | None \<Rightarrow>
          (if prop = ''start_line'' then print_int (nd_start n)
           else if prop = ''end_line'' then print_int (nd_end n)
           else if st \<and> (prop = ''in_degree'' \<or> prop = ''out_degree'')
           then print_int (if prop = ''in_degree'' then fst (node_degree env (nd_id n)) else snd (node_degree env (nd_id n)))
           else case nd_props n of
             Some (c # cs) \<Rightarrow> (if c = CHR ''{'' then json_extract_prop (Some (c # cs)) prop CBM_SZ_512 else [])
           | _ \<Rightarrow> []))"

definition edge_prop :: "cbm_edge_t \<Rightarrow> cstr \<Rightarrow> string" where
  "edge_prop e prop =
     (case prop of
        None \<Rightarrow> []
      | Some prop \<Rightarrow> (if prop = ''type'' then str_of (ed_type e) else json_extract_prop (ed_props e) prop CBM_SZ_512))"

section \<open>Bindings\<close>

definition zero_binding :: binding_t where
  "zero_binding = \<lparr>b_vars = [], b_edges = [], b_store = False\<rparr>"

definition binding_get_edge :: "binding_t \<Rightarrow> string \<Rightarrow> cbm_edge_t option" where
  "binding_get_edge b var = map_of (b_edges b) var"

definition binding_get :: "binding_t \<Rightarrow> string \<Rightarrow> cbm_node_t option" where
  "binding_get b var = map_of (b_vars b) var"

fun assoc_set :: "nat \<Rightarrow> (string \<times> 'a) list \<Rightarrow> string \<Rightarrow> 'a \<Rightarrow> (string \<times> 'a) list" where
  \<comment> \<open>replaces the first entry of the name, or appends one while there is room\<close>
  "assoc_set room [] var x = (if room = 0 then [] else [(var, x)])"
| "assoc_set room ((v, y) # xs) var x = (if v = var then (v, x) # xs else (v, y) # assoc_set (room - 1) xs var x)"

definition binding_set_edge :: "binding_t \<Rightarrow> string \<Rightarrow> cbm_edge_t \<Rightarrow> binding_t" where
  "binding_set_edge b var e = b\<lparr>b_edges := assoc_set CYP_MAX_EDGE_VARS (b_edges b) var e\<rparr>"

definition binding_set :: "binding_t \<Rightarrow> string \<Rightarrow> cbm_node_t \<Rightarrow> binding_t" where
  "binding_set b var n = b\<lparr>b_vars := assoc_set CYP_MAX_VARS (b_vars b) var n\<rparr>"

section \<open>Conditions\<close>

definition resolve_condition_value :: "'d cbm_env \<Rightarrow> cbm_condition_t \<Rightarrow> binding_t \<Rightarrow> cstr" where
  "resolve_condition_value env c b =
     (case binding_get_edge b (str_of (c_variable c)) of
        Some e \<Rightarrow> Some (edge_prop e (c_property c))
      | None \<Rightarrow>
          (case binding_get b (str_of (c_variable c)) of
             None \<Rightarrow> None
           | Some n \<Rightarrow>
               (case c_property c of
                  Some prop \<Rightarrow> Some (node_prop env n prop (b_store b))
                | None \<Rightarrow> Some (str_of (nd_name n)))))"

definition eval_comparison_op :: "'d cbm_env \<Rightarrow> string \<Rightarrow> string \<Rightarrow> string \<Rightarrow> bool" where
  "eval_comparison_op env opr actual expected =
     (if opr = ''='' then actual = expected
      else if opr = ''<>'' then actual \<noteq> expected
      else if opr = ''=~'' then (case regex env expected of None \<Rightarrow> False | Some m \<Rightarrow> m actual)
      else if opr = ''CONTAINS'' then strstr actual expected
      else if opr = ''STARTS WITH'' then prefix expected actual
      else if opr = ''ENDS WITH'' then suffix expected actual
      else if opr = ''>'' \<or> opr = ''<'' \<or> opr = ''>='' \<or> opr = ''<=''
      then let a = fst (fp_strtod env actual); exp_val = fst (fp_strtod env expected)
           in if opr = ''>='' then fp_le env exp_val a
              else if opr = ''<='' then fp_le env a exp_val
              else if opr = ''>'' then fp_lt env exp_val a else fp_lt env a exp_val
      else False)"

definition exists_edge :: "'d cbm_env \<Rightarrow> cbm_condition_t \<Rightarrow> cbm_node_t \<Rightarrow> bool" where
  "exists_edge env c n \<longleftrightarrow>
     (c_exists_dir c \<noteq> 1 \<and>
        (case c_value c of Some t \<Rightarrow> edges_by_source_type env (nd_id n) t | None \<Rightarrow> edges_by_source env (nd_id n)) \<noteq> []) \<or>
     (c_exists_dir c \<noteq> 0 \<and>
        (case c_value c of Some t \<Rightarrow> edges_by_target_type env (nd_id n) t | None \<Rightarrow> edges_by_target env (nd_id n)) \<noteq> [])"

definition negate :: "cbm_condition_t \<Rightarrow> bool \<Rightarrow> bool" where
  "negate c result = (if c_negated c then \<not> result else result)"

definition eval_condition :: "'d cbm_env \<Rightarrow> cbm_condition_t \<Rightarrow> binding_t \<Rightarrow> bool" where
  "eval_condition env c b =
     (let opr = str_of (c_op c) in
      if opr = ''HAS_LABEL''
      then negate c (case binding_get b (str_of (c_variable c)) of
                       None \<Rightarrow> False
                     | Some n \<Rightarrow> nd_label n \<noteq> None \<and> c_value c \<noteq> None \<and> nd_label n = c_value c)
      else if opr = ''EXISTS''
      then negate c (case binding_get b (str_of (c_variable c)) of
                       None \<Rightarrow> False
                     | Some n \<Rightarrow> b_store b \<and> exists_edge env c n)
      else case resolve_condition_value env c b of
        None \<Rightarrow> True
      | Some actual \<Rightarrow>
          (if opr = ''IS NULL'' then negate c (actual = [])
           else if opr = ''IS NOT NULL'' then negate c (actual \<noteq> [])
           else if opr = ''IN'' then negate c (list_ex (\<lambda>v. actual = v) (c_in_values c))
           else negate c (eval_comparison_op env opr actual (str_of (c_value c)))))"

fun eval_expr :: "'d cbm_env \<Rightarrow> cbm_expr_t \<Rightarrow> binding_t \<Rightarrow> bool" where
  "eval_expr env (EXPR_CONDITION c) b = eval_condition env c b"
| "eval_expr env (EXPR_AND l r) b = (eval_expr env l b \<and> eval_expr env r b)"
| "eval_expr env (EXPR_OR l r) b = (eval_expr env l b \<or> eval_expr env r b)"
| "eval_expr env (EXPR_NOT l) b = (\<not> eval_expr env l b)"
| "eval_expr env (EXPR_XOR l r) b = (eval_expr env l b \<noteq> eval_expr env r b)"

definition eval_where :: "'d cbm_env \<Rightarrow> cbm_where_clause_t option \<Rightarrow> binding_t \<Rightarrow> bool" where
  \<comment> \<open>without a root there are no flat conditions either\<close>
  "eval_where env w b =
     (case w of None \<Rightarrow> True | Some w \<Rightarrow> (case w_root w of None \<Rightarrow> True | Some e \<Rightarrow> eval_expr env e b))"

definition looks_like_regex :: "string \<Rightarrow> bool" where
  "looks_like_regex s \<longleftrightarrow> strstr s ''.*'' \<or> strstr s ''.+'' \<or> CHR ''['' \<in> set s \<or> CHR ''('' \<in> set s \<or>
     CHR ''|'' \<in> set s \<or> CHR ''^'' \<in> set s \<or> CHR ''$'' \<in> set s"

definition check_inline_props :: "'d cbm_env \<Rightarrow> cbm_node_t \<Rightarrow> cbm_prop_filter_t list \<Rightarrow> bool" where
  "check_inline_props env n props \<longleftrightarrow>
     list_all (\<lambda>f. let actual = node_prop env n (pf_key f) True in
                 if looks_like_regex (pf_value f)
                 then (case regex env (pf_value f) of Some m \<Rightarrow> m actual | None \<Rightarrow> actual = pf_value f)
                 else actual = pf_value f) props"

definition binding_get_virtual :: "'d cbm_env \<Rightarrow> binding_t \<Rightarrow> cstr \<Rightarrow> cstr \<Rightarrow> string" where
  "binding_get_virtual env b var prop =
     (let full = snprintf_into CBM_SZ_256 (case prop of Some p \<Rightarrow> fmt_s var @ ''.'' @ p | None \<Rightarrow> fmt_s var) in
      case map_of (b_vars b) full of
        Some n \<Rightarrow> str_of (nd_name n)
      | None \<Rightarrow>
          (case binding_get_edge b (str_of var) of
             Some e \<Rightarrow> (if prop \<noteq> None then edge_prop e prop else (case ed_props e of Some p \<Rightarrow> p | None \<Rightarrow> ''{}''))
           | None \<Rightarrow>
               (case binding_get b (str_of var) of
                  Some n \<Rightarrow> (case prop of Some p \<Rightarrow> node_prop env n p (b_store b) | None \<Rightarrow> str_of (nd_name n))
                | None \<Rightarrow> [])))"

section \<open>Functions of values\<close>

definition toupper :: "char \<Rightarrow> char" where
  "toupper c = (if islower c then char_of (byte c - 32) else c)"

definition has_digits :: "string \<Rightarrow> bool" where
  \<comment> \<open>whether \<open>strtoll\<close> reads a number\<close>
  "has_digits s =
     (let s1 = dropWhile isspace s
      in takeWhile isdigit (case s1 of [] \<Rightarrow> [] | c # cs \<Rightarrow> if c = CHR ''-'' \<or> c = CHR ''+'' then cs else s1) \<noteq> [])"

definition trim_char :: "char \<Rightarrow> bool" where
  "trim_char c \<longleftrightarrow> c = CHR '' '' \<or> c = CHR 0x09 \<or> c = CHR 0x0A \<or> c = CHR 0x0D"

definition apply_string_func :: "'d cbm_env \<Rightarrow> string \<Rightarrow> string \<Rightarrow> nat \<Rightarrow> string" where
  "apply_string_func env func val buf_sz =
     (if func = ''toLower'' then map tolower (take (buf_sz - 1) val)
      else if func = ''toUpper'' then map toupper (take (buf_sz - 1) val)
      else if func = ''toString'' then val
      else if func = ''toInteger''
      then (if has_digits val then snprintf_into buf_sz (print_int (strtol val))
            else case fp_strtod env val of
              (d, n) \<Rightarrow> (if n = 0 then [] else snprintf_into buf_sz (print_int (fp_to_ll env d))))
      else if func = ''toFloat''
      then (case fp_strtod env val of (d, n) \<Rightarrow> (if n = 0 then [] else snprintf_into buf_sz (fp_fmt_g env d)))
      else if func = ''toBoolean''
      then (if cyp_ci_eq (Some val) (Some ''true'') then ''true''
            else if cyp_ci_eq (Some val) (Some ''false'') then ''false'' else [])
      else if func = ''size'' \<or> func = ''length'' then snprintf_into buf_sz (dec (length val))
      else if func = ''trim'' \<or> func = ''ltrim'' \<or> func = ''rtrim''
      then let s = (if func = ''trim'' \<or> func = ''ltrim'' then dropWhile trim_char val else val);
               s = (if func = ''trim'' \<or> func = ''rtrim'' then rev (dropWhile trim_char (rev s)) else s)
           in take (buf_sz - 1) s
      else if func = ''reverse'' then rev (take (buf_sz - 1) val)
      else val)"

fun eval_branches :: "'d cbm_env \<Rightarrow> cbm_case_branch_t list \<Rightarrow> cstr \<Rightarrow> binding_t \<Rightarrow> string" where
  "eval_branches env [] else_val b = str_of else_val"
| "eval_branches env (k # ks) else_val b =
     (if (case cb_when_expr k of Some e \<Rightarrow> eval_expr env e b | None \<Rightarrow> True) then str_of (cb_then_val k)
      else eval_branches env ks else_val b)"

definition eval_case_expr :: "'d cbm_env \<Rightarrow> cbm_case_expr_t \<Rightarrow> binding_t \<Rightarrow> string" where
  "eval_case_expr env k b = eval_branches env (ce_branches k) (ce_else_val k) b"

section \<open>Matching patterns\<close>

function alt_loop :: "string \<Rightarrow> string \<Rightarrow> bool" where
  \<comment> \<open>the segments of a label alternation from the given one on\<close>
  "alt_loop actual seg =
     (if seg = [] then False
      else case strchr seg CHR ''|'' of
        Some bar \<Rightarrow> (if take bar seg = actual then True else alt_loop actual (drop (bar + 1) seg))
      | None \<Rightarrow> seg = actual)"
  by pat_completeness auto

termination
  by (relation "measure (\<lambda>(a, seg). length seg)") auto

declare alt_loop.simps [simp del]

definition label_alt_matches :: "cstr \<Rightarrow> cstr \<Rightarrow> bool" where
  "label_alt_matches actual pat =
     (case pat of
        None \<Rightarrow> True
      | Some pat \<Rightarrow>
          (case actual of
             None \<Rightarrow> False
           | Some actual \<Rightarrow> (if strchr pat CHR ''|'' = None then actual = pat else alt_loop actual pat)))"

lemma length_dropWhile_Cons: "dropWhile P s = c # cs \<Longrightarrow> length (dropWhile Q cs) < length s"
  using length_dropWhile_le [of P s] length_dropWhile_le [of Q cs] by simp

function strtok_bars :: "string \<Rightarrow> string list" where
  \<comment> \<open>the tokens that \<open>strtok_r\<close> finds between bars\<close>
  "strtok_bars s =
     (case dropWhile (\<lambda>c. c = CHR ''|'') s of
        [] \<Rightarrow> []
      | c # cs \<Rightarrow> takeWhile (\<lambda>c. c \<noteq> CHR ''|'') (c # cs) # strtok_bars (dropWhile (\<lambda>c. c \<noteq> CHR ''|'') cs))"
  by pat_completeness auto

termination
  by (relation "measure length") (auto dest: length_dropWhile_Cons)

declare strtok_bars.simps [simp del]

definition scan_alternation_labels :: "'d cbm_env \<Rightarrow> cstr \<Rightarrow> string \<Rightarrow> cbm_node_t list" where
  "scan_alternation_labels env project labels = concat (map (nodes_by_label env project) (strtok_bars labels))"

definition scan_pattern_nodes :: "'d cbm_env \<Rightarrow> cstr \<Rightarrow> nat \<Rightarrow> cbm_node_pattern_t \<Rightarrow> cbm_node_t list" where
  "scan_pattern_nodes env project max_rows np =
     filter (\<lambda>n. n_props np = [] \<or> check_inline_props env n (n_props np))
       (case n_label np of
          Some l \<Rightarrow> (if strchr l CHR ''|'' \<noteq> None then scan_alternation_labels env project l else nodes_by_label env project l)
        | None \<Rightarrow> store_search env project (to_int32 (int (max_rows * CYP_GROWTH_10))))"

definition accepts :: "'d cbm_env \<Rightarrow> cbm_node_pattern_t \<Rightarrow> cbm_node_t \<Rightarrow> bool" where
  \<comment> \<open>the label and the properties of a target\<close>
  "accepts env np n \<longleftrightarrow> label_alt_matches (nd_label n) (n_label np) \<and> check_inline_props env n (n_props np)"

fun process_edges :: "'d cbm_env \<Rightarrow> bool \<Rightarrow> cbm_node_pattern_t \<Rightarrow> binding_t \<Rightarrow> string \<Rightarrow> cstr \<Rightarrow> nat \<Rightarrow>
    cbm_edge_t list \<Rightarrow> binding_t list" where
  \<comment> \<open>the bindings it adds, with the room left in their array\<close>
  "process_edges env inbound np b to_var rel_var room [] = []"
| "process_edges env inbound np b to_var rel_var room (e # es) =
     (if room = 0 then []
      else case node_by_id env (if inbound then ed_source e else ed_target e) of
        None \<Rightarrow> process_edges env inbound np b to_var rel_var room es
      | Some n \<Rightarrow>
          (if \<not> accepts env np n then process_edges env inbound np b to_var rel_var room es
           else let nb = binding_set b to_var n;
                    nb = (case rel_var of Some v \<Rightarrow> binding_set_edge nb v e | None \<Rightarrow> nb)
                in nb # process_edges env inbound np b to_var rel_var (room - 1) es))"

fun visit_hops :: "'d cbm_env \<Rightarrow> int \<Rightarrow> cbm_node_pattern_t \<Rightarrow> binding_t \<Rightarrow> string \<Rightarrow> nat \<Rightarrow>
    (cbm_node_t \<times> int) list \<Rightarrow> binding_t list" where
  "visit_hops env min_hops np b to_var room [] = []"
| "visit_hops env min_hops np b to_var room ((n, hop) # hs) =
     (if room = 0 then []
      else if hop < min_hops \<or> \<not> accepts env np n then visit_hops env min_hops np b to_var room hs
      else binding_set b to_var n # visit_hops env min_hops np b to_var (room - 1) hs)"

definition expand_var_length :: "'d cbm_env \<Rightarrow> cbm_rel_pattern_t \<Rightarrow> cbm_node_pattern_t \<Rightarrow> binding_t \<Rightarrow> cbm_node_t \<Rightarrow>
    string \<Rightarrow> nat \<Rightarrow> binding_t list" where
  "expand_var_length env rel np b src to_var room =
     (let max_depth = (if r_max_hops rel > 0 then r_max_hops rel else CYP_MAX_DEPTH);
          dir = (case r_direction rel of Some d \<Rightarrow> d | None \<Rightarrow> ''outbound'')
      in visit_hops env (r_min_hops rel) np b to_var room
           (store_bfs env (nd_id src) dir (r_types rel) max_depth CBM_PERCENT))"

definition edge_batches :: "'d cbm_env \<Rightarrow> cbm_rel_pattern_t \<Rightarrow> int \<Rightarrow> (cbm_edge_t list \<times> bool) list" where
  \<comment> \<open>the queries of \<open>expand_fixed_length\<close> in their order, with the end of the edge that is the target\<close>
  "edge_batches env rel i =
     (let is_inbound = (r_direction rel = Some ''inbound''); is_any = (r_direction rel = Some ''any'') in
      if r_types rel \<noteq> []
      then map (\<lambda>t. (if is_inbound then edges_by_target_type env i t else edges_by_source_type env i t, is_inbound)) (r_types rel) @
           (if is_any then map (\<lambda>t. (edges_by_target_type env i t, True)) (r_types rel) else [])
      else (if is_inbound then edges_by_target env i else edges_by_source env i, is_inbound) #
           (if is_any then [(edges_by_target env i, True)] else []))"

fun process_batches :: "'d cbm_env \<Rightarrow> cbm_node_pattern_t \<Rightarrow> binding_t \<Rightarrow> string \<Rightarrow> cstr \<Rightarrow> nat \<Rightarrow>
    (cbm_edge_t list \<times> bool) list \<Rightarrow> binding_t list" where
  "process_batches env np b to_var rel_var room [] = []"
| "process_batches env np b to_var rel_var room ((es, inbound) # batches) =
     (let new = process_edges env inbound np b to_var rel_var room es
      in new @ process_batches env np b to_var rel_var (room - length new) batches)"

definition expand_fixed_length :: "'d cbm_env \<Rightarrow> cbm_rel_pattern_t \<Rightarrow> cbm_node_pattern_t \<Rightarrow> binding_t \<Rightarrow> cbm_node_t \<Rightarrow>
    string \<Rightarrow> nat \<Rightarrow> binding_t list" where
  "expand_fixed_length env rel np b src to_var room =
     process_batches env np b to_var (r_variable rel) room (edge_batches env rel (nd_id src))"

fun expand_bindings :: "(binding_t \<Rightarrow> cbm_node_t \<Rightarrow> nat \<Rightarrow> binding_t list) \<Rightarrow> string \<Rightarrow> bool \<Rightarrow> nat \<Rightarrow>
    binding_t list \<Rightarrow> binding_t list \<Rightarrow> bool \<Rightarrow> binding_t list \<times> bool" where
  \<comment> \<open>the loop over the bindings: an array with room for one more than \<open>max_new\<close>, the bindings added and the mark so far\<close>
  "expand_bindings expand var_name is_optional max_new [] new ub = (new, ub)"
| "expand_bindings expand var_name is_optional max_new (b # bs) new ub =
     (case binding_get b var_name of
        None \<Rightarrow> expand_bindings expand var_name is_optional max_new bs new ub
      | Some src \<Rightarrow>
          (let matched = expand b src (max_new - length new) in
           if is_optional \<and> matched = []
           then expand_bindings expand var_name is_optional max_new bs (new @ [b]) (ub \<or> max_new < length new)
           else expand_bindings expand var_name is_optional max_new bs (new @ matched) ub))"

definition var_or :: "cstr \<Rightarrow> string \<Rightarrow> string" where
  "var_or v d = (case v of Some v \<Rightarrow> v | None \<Rightarrow> d)"

fun expand_pattern_rels :: "'d cbm_env \<Rightarrow> nat \<Rightarrow> bool \<Rightarrow> (cbm_rel_pattern_t \<times> cbm_node_pattern_t) list \<Rightarrow> string \<Rightarrow>
    binding_t list \<Rightarrow> binding_t list \<times> bool" where
  \<comment> \<open>the relationships with their targets\<close>
  "expand_pattern_rels env bind_cap is_optional [] var_name bs = (bs, False)"
| "expand_pattern_rels env bind_cap is_optional ((rel, np) # rest) var_name bs =
     (let to_var = var_or (n_variable np) ''_n_t'';
          expand = (if r_min_hops rel \<noteq> 1 \<or> r_max_hops rel \<noteq> 1
                    then (\<lambda>b src room. expand_var_length env rel np b src to_var room)
                    else (\<lambda>b src room. expand_fixed_length env rel np b src to_var room))
      in case expand_bindings expand var_name is_optional (bind_cap * CYP_GROWTH_10) bs [] False of
           (bs, ub) \<Rightarrow>
             (case expand_pattern_rels env bind_cap is_optional rest to_var bs of (bs, ub') \<Rightarrow> (bs, ub \<or> ub')))"

definition pattern_steps :: "cbm_pattern_t \<Rightarrow> (cbm_rel_pattern_t \<times> cbm_node_pattern_t) list" where
  "pattern_steps pat = zip (pat_rels pat) (tl (pat_nodes pat))"

definition cross_join_nodes :: "binding_t list \<Rightarrow> cbm_node_t list \<Rightarrow> string \<Rightarrow> bool \<Rightarrow> binding_t list \<times> bool" where
  \<comment> \<open>the array has room for one binding more than there are pairs\<close>
  "cross_join_nodes bs extra nvar opt =
     (let new = concat (map (\<lambda>b. map (binding_set b nvar) extra @ (if opt \<and> extra = [] then [b] else [])) bs)
      in (new, length bs * length extra + 1 < length new))"

definition cross_join_with_rels :: "'d cbm_env \<Rightarrow> cbm_pattern_t \<Rightarrow> binding_t list \<Rightarrow> cbm_node_t list \<Rightarrow> string \<Rightarrow> bool \<Rightarrow>
    binding_t list \<times> bool" where
  "cross_join_with_rels env patn bs extra nvar opt =
     (let expanded = map (\<lambda>b. map (\<lambda>n. expand_pattern_rels env 1 opt (pattern_steps patn) nvar [binding_set b nvar n]) extra) bs;
          new = concat (map (\<lambda>(b, es). concat (map fst es) @ (if opt \<and> extra = [] then [b] else [])) (zip bs expanded))
      in (new, list_ex (list_ex snd) expanded \<or> length bs * length extra * CYP_GROWTH_10 + 1 < length new))"

fun expand_additional_patterns :: "'d cbm_env \<Rightarrow> cstr \<Rightarrow> nat \<Rightarrow> nat \<Rightarrow> (cbm_pattern_t \<times> bool) list \<Rightarrow> binding_t list \<Rightarrow>
    binding_t list \<times> bool" where
  "expand_additional_patterns env project max_rows bind_cap [] bs = (bs, False)"
| "expand_additional_patterns env project max_rows bind_cap ((patn, opt) # pats) bs =
     (let start = hd (pat_nodes patn);
          nvar = var_or (n_variable start) ''_n_extra'';
          start_bound = (bs \<noteq> [] \<and> binding_get (hd bs) nvar \<noteq> None)
      in case (if start_bound \<and> pat_rels patn \<noteq> []
               then expand_pattern_rels env bind_cap opt (pattern_steps patn) nvar bs
               else let extra = scan_pattern_nodes env project max_rows start
                    in if pat_rels patn = [] then cross_join_nodes bs extra nvar opt
                       else cross_join_with_rels env patn bs extra nvar opt)
         of (bs, ub) \<Rightarrow>
           (case expand_additional_patterns env project max_rows bind_cap pats bs of (bs, ub') \<Rightarrow> (bs, ub \<or> ub')))"

section \<open>Rows\<close>

record result_builder_t =
  rb_columns :: "string list"
  rb_rows :: "string list list"
  rb_ub :: bool

definition rb_init :: result_builder_t where
  "rb_init = \<lparr>rb_columns = [], rb_rows = [], rb_ub = False\<rparr>"

definition rb_set_columns :: "result_builder_t \<Rightarrow> string list \<Rightarrow> result_builder_t" where
  "rb_set_columns rb cols = rb\<lparr>rb_columns := cols\<rparr>"

definition rb_add_row :: "result_builder_t \<Rightarrow> string list \<Rightarrow> result_builder_t" where
  \<comment> \<open>reads as many values as there are columns\<close>
  "rb_add_row rb values =
     rb\<lparr>rb_rows := rb_rows rb @ [take (length (rb_columns rb)) values],
        rb_ub := (rb_ub rb \<or> length values < length (rb_columns rb))\<rparr>"

fun strcmp_lt :: "string \<Rightarrow> string \<Rightarrow> bool" where
  \<comment> \<open>\<open>strcmp(a, b) < 0\<close>\<close>
  "strcmp_lt a [] = False"
| "strcmp_lt [] (y # b) = True"
| "strcmp_lt (x # a) (y # b) = (if x = y then strcmp_lt a b else byte x < byte y)"

fun index_where :: "('a \<Rightarrow> bool) \<Rightarrow> 'a list \<Rightarrow> nat option" where
  "index_where P [] = None"
| "index_where P (x # xs) = (if P x then Some 0 else map_option Suc (index_where P xs))"

definition rb_find_order_column :: "result_builder_t \<Rightarrow> cbm_return_clause_t \<Rightarrow> string \<Rightarrow> nat option" where
  "rb_find_order_column rb ret order_by =
     (case index_where (\<lambda>c. c = order_by) (rb_columns rb) of
        Some ci \<Rightarrow> Some ci
      | None \<Rightarrow> index_where (\<lambda>item. ri_alias item = Some order_by) (rc_items ret))"

definition numeric_text :: "string \<Rightarrow> bool" where
  "numeric_text v = (let p2 = (if hd v = CHR ''-'' then tl v else v) in p2 \<noteq> [] \<and> list_all isdigit p2)"

definition rb_is_numeric_column :: "result_builder_t \<Rightarrow> nat \<Rightarrow> bool" where
  \<comment> \<open>decided by the first value that is not empty\<close>
  "rb_is_numeric_column rb col =
     (case find (\<lambda>v. v \<noteq> []) (map (\<lambda>row. row ! col) (rb_rows rb)) of None \<Rightarrow> False | Some v \<Rightarrow> numeric_text v)"

fun bubble_pass :: "('a \<Rightarrow> 'a \<Rightarrow> bool) \<Rightarrow> nat \<Rightarrow> 'a list \<Rightarrow> 'a list" where
  \<comment> \<open>the inner loop over the given number of neighbours\<close>
  "bubble_pass swap (Suc k) (x # y # xs) =
     (if swap x y then y # bubble_pass swap k (x # xs) else x # bubble_pass swap k (y # xs))"
| "bubble_pass swap k xs = xs"

fun bubble_loop :: "('a \<Rightarrow> 'a \<Rightarrow> bool) \<Rightarrow> nat \<Rightarrow> 'a list \<Rightarrow> 'a list" where
  "bubble_loop swap 0 xs = xs"
| "bubble_loop swap (Suc k) xs = bubble_loop swap k (bubble_pass swap (Suc k) xs)"

definition bubble_sort :: "('a \<Rightarrow> 'a \<Rightarrow> bool) \<Rightarrow> 'a list \<Rightarrow> 'a list" where
  "bubble_sort swap xs = bubble_loop swap (length xs - 1) xs"

definition col_greater :: "bool \<Rightarrow> string \<Rightarrow> string \<Rightarrow> bool" where
  \<comment> \<open>\<open>cmp > 0\<close>: the difference of two \<open>int\<close> values, or \<open>strcmp\<close>\<close>
  "col_greater numeric a b =
     (if numeric then to_int32 (to_int32 (strtol a) - to_int32 (strtol b)) > 0 else strcmp_lt b a)"

definition col_less :: "bool \<Rightarrow> string \<Rightarrow> string \<Rightarrow> bool" where
  "col_less numeric a b =
     (if numeric then to_int32 (to_int32 (strtol a) - to_int32 (strtol b)) < 0 else strcmp_lt a b)"

definition rb_apply_order_by :: "result_builder_t \<Rightarrow> cbm_return_clause_t \<Rightarrow> result_builder_t" where
  "rb_apply_order_by rb ret =
     (case rc_order_by ret of
        None \<Rightarrow> rb
      | Some order_by \<Rightarrow>
          (case rb_find_order_column rb ret order_by of
             None \<Rightarrow> rb
           | Some col \<Rightarrow>
               (let desc = (rc_order_dir ret = Some ''DESC''); numeric = rb_is_numeric_column rb col
                in rb\<lparr>rb_rows := bubble_sort (\<lambda>x y. if desc then col_less numeric (x ! col) (y ! col)
                                               else col_greater numeric (x ! col) (y ! col)) (rb_rows rb)\<rparr>)))"

definition skip_limit :: "int \<Rightarrow> int \<Rightarrow> 'a list \<Rightarrow> 'a list" where
  \<comment> \<open>the same code for rows and for bindings\<close>
  "skip_limit skip_n limit xs =
     (let xs = (if skip_n > 0 \<and> skip_n < int (length xs) then drop (nat skip_n) xs
                else if skip_n \<ge> int (length xs) then [] else xs)
      in if limit > 0 \<and> int (length xs) > limit then take (nat limit) xs else xs)"

definition rb_apply_skip_limit :: "result_builder_t \<Rightarrow> int \<Rightarrow> int \<Rightarrow> result_builder_t" where
  "rb_apply_skip_limit rb skip_n limit = rb\<lparr>rb_rows := skip_limit skip_n limit (rb_rows rb)\<rparr>"

fun distinct_loop :: "('a \<Rightarrow> 'a \<Rightarrow> bool) \<Rightarrow> 'a list \<Rightarrow> 'a list \<Rightarrow> 'a list" where
  \<comment> \<open>the entries kept so far and the rest\<close>
  "distinct_loop same kept [] = kept"
| "distinct_loop same kept (x # xs) =
     (if list_ex (\<lambda>y. same x y) kept then distinct_loop same kept xs else distinct_loop same (kept @ [x]) xs)"

definition rb_apply_distinct :: "result_builder_t \<Rightarrow> result_builder_t" where
  "rb_apply_distinct rb =
     rb\<lparr>rb_rows := distinct_loop (\<lambda>x y. take (length (rb_columns rb)) x = take (length (rb_columns rb)) y) [] (rb_rows rb)\<rparr>"

section \<open>Projection\<close>

definition keys_text :: "cbm_node_t \<Rightarrow> string list" where
  "keys_text n =
     (if str_of (nd_name n) \<noteq> [] then [''name''] else []) @
     (if str_of (nd_qn n) \<noteq> [] then [''qualified_name''] else []) @
     (if str_of (nd_label n) \<noteq> [] then [''label''] else []) @
     (if str_of (nd_file n) \<noteq> [] then [''file_path''] else []) @
     (if nd_start n > 0 then [''start_line''] else []) @
     (if nd_end n > 0 then [''end_line''] else [])"

fun keys_loop :: "nat \<Rightarrow> string \<Rightarrow> string list \<Rightarrow> string" where
  \<comment> \<open>the text so far, starting with the bracket; a key that does not fit ends the loop\<close>
  "keys_loop buf_sz txt [] = txt"
| "keys_loop buf_sz txt (k # ks) =
     (if length txt < buf_sz - 1
      then let w = (if length txt \<le> 1 then [] else '','') @ CHR 0x22 # k @ [CHR 0x22]
           in if length w \<ge> buf_sz - length txt then txt else keys_loop buf_sz (txt @ w) ks
      else txt)"

definition node_keys_list :: "cbm_node_t \<Rightarrow> nat \<Rightarrow> string" where
  "node_keys_list n buf_sz =
     (let txt = keys_loop buf_sz (if 0 < buf_sz - 1 then ''['' else []) (keys_text n)
      in if length txt < buf_sz - 1 then txt @ '']'' else txt)"

definition eval_func_arg :: "'d cbm_env \<Rightarrow> binding_t \<Rightarrow> cbm_func_arg_t \<Rightarrow> string" where
  "eval_func_arg env b a =
     (case fa_literal a of Some l \<Rightarrow> l | None \<Rightarrow> binding_get_virtual env b (fa_variable a) (fa_property a))"

function replace_loop :: "nat \<Rightarrow> string \<Rightarrow> string \<Rightarrow> string \<Rightarrow> string \<Rightarrow> string" where
  \<comment> \<open>the output so far and the rest of the input\<close>
  "replace_loop bufsz from to_s out s =
     (if s \<noteq> [] \<and> length out < bufsz - 1
      then if from \<noteq> [] \<and> prefix from s
           then replace_loop bufsz from to_s
                  (out @ take (if length out + length to_s \<ge> bufsz then bufsz - 1 - length out else length to_s) to_s)
                  (drop (length from) s)
           else replace_loop bufsz from to_s (out @ [hd s]) (tl s)
      else out)"
  by pat_completeness auto

termination
  by (relation "measure (\<lambda>(n, f, t, o', s). length s)") auto

declare replace_loop.simps [simp del]

definition eval_multiarg_func :: "'d cbm_env \<Rightarrow> binding_t \<Rightarrow> cbm_return_item_t \<Rightarrow> nat \<Rightarrow> string" where
  "eval_multiarg_func env b item bufsz =
     (let f = str_of (ri_func item); vs = map (eval_func_arg env b) (ri_args item); n = length vs in
      if f = ''coalesce'' then (case find (\<lambda>v. v \<noteq> []) vs of Some v \<Rightarrow> v | None \<Rightarrow> [])
      else if f = ''substring'' \<and> n \<ge> 2
      then let s = vs ! 0; start = strtol (vs ! 1) in
           if start < 0 \<or> start \<ge> int (length s) then []
           else let tk = length s - nat start;
                    tk = (if n \<ge> 3 then min tk (nat (max 0 (strtol (vs ! 2)))) else tk)
                in take (min tk (bufsz - 1)) (drop (nat start) s)
      else if (f = ''left'' \<or> f = ''right'') \<and> n \<ge> 2
      then let s = vs ! 0; tk = min (min (nat (max 0 (strtol (vs ! 1)))) (length s)) (bufsz - 1)
           in if f = ''left'' then take tk s else take tk (drop (length s - tk) s)
      else if f = ''replace'' \<and> n \<ge> 3
      then (if vs ! 1 = [] then snprintf_into bufsz (vs ! 0) else replace_loop bufsz (vs ! 1) (vs ! 2) [] (vs ! 0))
      else [])"

definition has_args :: "cbm_return_item_t \<Rightarrow> bool" where
  \<comment> \<open>the array of arguments exists, even if it is empty, for the functions of several arguments\<close>
  "has_args item \<longleftrightarrow> ri_args item \<noteq> [] \<or> multiarg_func_canonical (ri_func item) \<noteq> None"

definition is_scalar_value_func :: "cstr \<Rightarrow> bool" where
  "is_scalar_value_func f \<longleftrightarrow> f \<in> Some ` set [''toLower'', ''toUpper'', ''toString'', ''toInteger'', ''toFloat'', ''toBoolean'',
     ''size'', ''length'', ''trim'', ''ltrim'', ''rtrim'', ''reverse'']"

definition props_or_empty :: "cstr \<Rightarrow> string" where
  "props_or_empty p = (case p of Some p \<Rightarrow> p | None \<Rightarrow> ''{}'')"

definition project_value :: "'d cbm_env \<Rightarrow> binding_t \<Rightarrow> cbm_return_item_t \<Rightarrow> nat \<Rightarrow> string" where
  \<comment> \<open>the end of \<open>project_item\<close>: a variable or property, or a function of one\<close>
  "project_value env b item buf_sz =
     (let raw = binding_get_virtual env b (ri_variable item) (ri_property item) in
      if is_scalar_value_func (ri_func item) then apply_string_func env (str_of (ri_func item)) raw buf_sz
      else take (buf_sz - 1) raw)"

definition project_item :: "'d cbm_env \<Rightarrow> binding_t \<Rightarrow> cbm_return_item_t \<Rightarrow> nat \<Rightarrow> string" where
  "project_item env b item buf_sz =
     (let node = binding_get b (str_of (ri_variable item)); edge = binding_get_edge b (str_of (ri_variable item)) in
      case ri_kase item of
        Some k \<Rightarrow> eval_case_expr env k b
      | None \<Rightarrow>
          (if has_args item then eval_multiarg_func env b item buf_sz
           else if ri_func item = Some ''labels''
           then (case node of
                   Some n \<Rightarrow> (case nd_label n of
                       Some l \<Rightarrow> snprintf_into buf_sz (CHR ''['' # CHR 0x22 # l @ [CHR 0x22, CHR '']'']) | None \<Rightarrow> ''[]'')
                 | None \<Rightarrow> ''[]'')
           else if ri_func item = Some ''type'' then (case edge of Some e \<Rightarrow> str_of (ed_type e) | None \<Rightarrow> [])
           else if ri_func item = Some ''id''
           then (case node of
                   Some n \<Rightarrow> snprintf_into buf_sz (print_int (nd_id n))
                 | None \<Rightarrow> (case edge of Some e \<Rightarrow> snprintf_into buf_sz (print_int (ed_id e)) | None \<Rightarrow> []))
           else if ri_func item = Some ''keys'' then (case node of Some n \<Rightarrow> node_keys_list n buf_sz | None \<Rightarrow> ''[]'')
           else if ri_func item = Some ''properties''
           then (case node of
                   Some n \<Rightarrow> props_or_empty (nd_props n)
                 | None \<Rightarrow> (case edge of Some e \<Rightarrow> props_or_empty (ed_props e) | None \<Rightarrow> ''{}''))
           else project_value env b item buf_sz))"

section \<open>Aggregation\<close>

definition is_aggregate_func :: "cstr \<Rightarrow> bool" where
  "is_aggregate_func func \<longleftrightarrow> func \<in> Some ` set [''COUNT'', ''SUM'', ''AVG'', ''MIN'', ''MAX'', ''COLLECT'']"

definition distinct_list_add :: "string list \<Rightarrow> string \<Rightarrow> string list" where
  "distinct_list_add xs val = (if list_ex (\<lambda>x. x = val) xs then xs else xs @ [val])"

record 'd agg_cell =
  \<comment> \<open>what the arrays of an aggregation group hold for one item\<close>
  ac_count :: nat
  ac_sum :: 'd
  ac_min :: 'd
  ac_max :: 'd
  ac_list :: "string list"

record 'd agg_entry =
  ag_key :: string
  ag_vals :: "string list"
  ag_cells :: "'d agg_cell list"

definition zero_cell :: "'d cbm_env \<Rightarrow> 'd agg_cell" where
  "zero_cell env = \<lparr>ac_count = 0, ac_sum = fp_of_int env 0, ac_min = fp_max env, ac_max = fp_min env, ac_list = []\<rparr>"

definition add_value :: "'d cbm_env \<Rightarrow> string \<Rightarrow> 'd agg_cell \<Rightarrow> 'd agg_cell" where
  "add_value env raw cell =
     (let dv = fst (fp_strtod env raw)
      in cell\<lparr>ac_count := ac_count cell + 1, ac_sum := fp_add env (ac_sum cell) dv,
              ac_min := (if fp_lt env dv (ac_min cell) then dv else ac_min cell),
              ac_max := (if fp_lt env (ac_max cell) dv then dv else ac_max cell)\<rparr>)"

definition counts_distinct :: "cbm_return_item_t \<Rightarrow> bool" where
  "counts_distinct item \<longleftrightarrow> ri_distinct item \<and> ri_func item = Some ''COUNT''"

definition item_raw :: "'d cbm_env \<Rightarrow> binding_t \<Rightarrow> cbm_return_item_t \<Rightarrow> string" where
  "item_raw env b item = binding_get_virtual env b (ri_variable item) (ri_property item)"

definition with_cell :: "'d cbm_env \<Rightarrow> binding_t \<Rightarrow> cbm_return_item_t \<Rightarrow> 'd agg_cell \<Rightarrow> 'd agg_cell" where
  "with_cell env b item cell =
     (if ri_func item = None then cell
      else let raw = item_raw env b item; cell = add_value env raw cell
           in if counts_distinct item then cell\<lparr>ac_list := distinct_list_add (ac_list cell) raw\<rparr> else cell)"

definition ret_cell :: "'d cbm_env \<Rightarrow> binding_t \<Rightarrow> cbm_return_item_t \<Rightarrow> 'd agg_cell \<Rightarrow> 'd agg_cell" where
  "ret_cell env b item cell =
     (if ri_func item = None then cell
      else let raw = item_raw env b item; cell = add_value env raw cell
           in if ri_func item = Some ''COLLECT'' then cell\<lparr>ac_list := ac_list cell @ [raw]\<rparr>
              else if counts_distinct item then cell\<lparr>ac_list := distinct_list_add (ac_list cell) raw\<rparr> else cell)"

definition with_agg_accumulate :: "'d cbm_env \<Rightarrow> cbm_return_item_t list \<Rightarrow> binding_t \<Rightarrow> 'd agg_entry \<Rightarrow> 'd agg_entry" where
  "with_agg_accumulate env items b agg = agg\<lparr>ag_cells := map2 (with_cell env b) items (ag_cells agg)\<rparr>"

definition ret_agg_accumulate :: "'d cbm_env \<Rightarrow> cbm_return_item_t list \<Rightarrow> binding_t \<Rightarrow> 'd agg_entry \<Rightarrow> 'd agg_entry" where
  "ret_agg_accumulate env items b agg = agg\<lparr>ag_cells := map2 (ret_cell env b) items (ag_cells agg)\<rparr>"

definition join_key :: "string list \<Rightarrow> string" where
  \<comment> \<open>the values, each with a bar after it, in a buffer of 1 KiB\<close>
  "join_key vs = snprintf_into CBM_SZ_1K (concat (map (\<lambda>v. v @ ''|'') vs))"

definition with_agg_build_key :: "'d cbm_env \<Rightarrow> cbm_return_item_t list \<Rightarrow> binding_t \<Rightarrow> string" where
  "with_agg_build_key env items b = join_key (map (item_raw env b) (filter (\<lambda>i. ri_func i = None) items))"

fun agg_update :: "string \<Rightarrow> 'd agg_entry \<Rightarrow> ('d agg_entry \<Rightarrow> 'd agg_entry) \<Rightarrow> 'd agg_entry list \<Rightarrow> 'd agg_entry list" where
  \<comment> \<open>finds the group of a key or appends the new one, and accumulates into it\<close>
  "agg_update key new upd [] = [upd new]"
| "agg_update key new upd (e # es) = (if ag_key e = key then upd e # es else e # agg_update key new upd es)"

definition with_new_group :: "'d cbm_env \<Rightarrow> cbm_return_item_t list \<Rightarrow> binding_t \<Rightarrow> string \<Rightarrow> 'd agg_entry" where
  "with_new_group env items b key =
     \<lparr>ag_key = key, ag_vals = map (\<lambda>i. if ri_func i \<noteq> None then ''0'' else item_raw env b i) items,
      ag_cells = map (\<lambda>_. zero_cell env) items\<rparr>"

definition ret_agg_init_group :: "'d cbm_env \<Rightarrow> string \<Rightarrow> string list \<Rightarrow> 'd agg_entry" where
  "ret_agg_init_group env key vals = \<lparr>ag_key = key, ag_vals = vals, ag_cells = map (\<lambda>_. zero_cell env) vals\<rparr>"

definition with_agg_format :: "'d cbm_env \<Rightarrow> string \<Rightarrow> 'd agg_cell \<Rightarrow> nat \<Rightarrow> string" where
  "with_agg_format env func cell buf_sz =
     snprintf_into buf_sz
       (if func = ''SUM'' then fp_fmt_10g env (ac_sum cell)
        else if func = ''AVG''
        then fp_fmt_10g env (if ac_count cell > 0 then fp_div env (ac_sum cell) (fp_of_int env (int (ac_count cell))) else fp_of_int env 0)
        else if func = ''MIN'' then fp_fmt_10g env (ac_min cell)
        else if func = ''MAX'' then fp_fmt_10g env (ac_max cell)
        else dec (ac_count cell))"

fun quoted_list :: "string list \<Rightarrow> string" where
  "quoted_list [] = []"
| "quoted_list [x] = CHR 0x22 # x @ [CHR 0x22]"
| "quoted_list (x # y # xs) = CHR 0x22 # x @ [CHR 0x22, CHR '',''] @ quoted_list (y # xs)"

definition format_collect_list :: "string list \<Rightarrow> nat \<Rightarrow> string" where
  "format_collect_list items buf_sz = snprintf_into buf_sz (snprintf_into 2048 (''['' @ quoted_list items @ '']''))"

definition format_agg_value :: "'d cbm_env \<Rightarrow> string \<Rightarrow> 'd agg_cell \<Rightarrow> nat \<Rightarrow> string" where
  "format_agg_value env func cell buf_sz =
     (if func = ''COLLECT'' then format_collect_list (ac_list cell) buf_sz else with_agg_format env func cell buf_sz)"

definition null_args :: "cbm_return_item_t list \<Rightarrow> bool" where
  \<comment> \<open>a function without a variable: the accumulation compares names with a null pointer\<close>
  "null_args items \<longleftrightarrow> list_ex (\<lambda>i. ri_func i \<noteq> None \<and> ri_variable i = None) items"

section \<open>The WITH clause\<close>

definition cmp_values :: "'d cbm_env \<Rightarrow> string \<Rightarrow> string \<Rightarrow> bool" where
  \<comment> \<open>\<open>cmp > 0\<close> in \<open>sort_bindings\<close>\<close>
  "cmp_values env va vb =
     (case (fp_strtod env va, fp_strtod env vb) of
        ((da, ea), (db, eb)) \<Rightarrow> (if ea \<noteq> 0 \<and> eb \<noteq> 0 then fp_lt env db da \<and> \<not> fp_lt env da db else strcmp_lt vb va))"

definition sort_bindings :: "'d cbm_env \<Rightarrow> string \<Rightarrow> bool \<Rightarrow> binding_t list \<Rightarrow> binding_t list" where
  "sort_bindings env key desc bs =
     bubble_sort (\<lambda>x y. let va = binding_get_virtual env x (Some key) None; vb = binding_get_virtual env y (Some key) None
                        in if desc then cmp_values env vb va else cmp_values env va vb) bs"

definition with_sort_skip_limit :: "'d cbm_env \<Rightarrow> cbm_return_clause_t \<Rightarrow> binding_t list \<Rightarrow> binding_t list" where
  "with_sort_skip_limit env wc bs =
     skip_limit (rc_skip wc) (rc_limit wc)
       (case rc_order_by wc of Some k \<Rightarrow> sort_bindings env k (rc_order_dir wc = Some ''DESC'') bs | None \<Rightarrow> bs)"

definition resolve_item_alias :: "cbm_return_item_t \<Rightarrow> string" where
  "resolve_item_alias item =
     (case ri_alias item of
        Some a \<Rightarrow> a
      | None \<Rightarrow> snprintf_into CBM_SZ_256
          (case ri_property item of Some p \<Rightarrow> fmt_s (ri_variable item) @ ''.'' @ p | None \<Rightarrow> fmt_s (ri_variable item)))"

definition zero_node :: cbm_node_t where
  "zero_node = \<lparr>nd_id = 0, nd_project = None, nd_label = None, nd_name = None, nd_qn = None, nd_file = None,
     nd_start = 0, nd_end = 0, nd_props = None\<rparr>"

definition with_add_vbinding_var :: "binding_t \<Rightarrow> string \<times> string \<Rightarrow> binding_t" where
  "with_add_vbinding_var vb av =
     (if length (b_vars vb) < CYP_MAX_VARS
      then vb\<lparr>b_vars := b_vars vb @ [(fst av, zero_node\<lparr>nd_name := Some (snd av), nd_qn := Some (fst av)\<rparr>)]\<rparr>
      else vb)"

definition virtual_binding :: "(string \<times> string) list \<Rightarrow> binding_t" where
  "virtual_binding avs = foldl with_add_vbinding_var zero_binding avs"

definition execute_with_aggregate :: "'d cbm_env \<Rightarrow> cbm_return_clause_t \<Rightarrow> binding_t list \<Rightarrow> binding_t list \<times> bool" where
  "execute_with_aggregate env wc bs =
     (let items = rc_items wc;
          aggs = foldl (\<lambda>aggs b. let key = with_agg_build_key env items b
                  in agg_update key (with_new_group env items b key) (with_agg_accumulate env items b) aggs) [] bs
      in (map (\<lambda>agg. virtual_binding
            (map (\<lambda>(item, val, cell). (resolve_item_alias item,
                case ri_func item of
                  None \<Rightarrow> val
                | Some func \<Rightarrow> (if counts_distinct item then snprintf_into CBM_SZ_64 (dec (length (ac_list cell)))
                               else with_agg_format env func cell CBM_SZ_64)))
              (zip items (zip (ag_vals agg) (ag_cells agg))))) aggs,
          bs \<noteq> [] \<and> null_args items))"

definition execute_with_simple :: "'d cbm_env \<Rightarrow> cbm_return_clause_t \<Rightarrow> binding_t list \<Rightarrow> binding_t list" where
  "execute_with_simple env wc bs =
     map (\<lambda>b. virtual_binding (map (\<lambda>item. (resolve_item_alias item, project_item env b item CBM_SZ_512)) (rc_items wc))) bs"

definition filter_bindings_where :: "'d cbm_env \<Rightarrow> cbm_where_clause_t option \<Rightarrow> binding_t list \<Rightarrow> binding_t list" where
  "filter_bindings_where env w bs = filter (eval_where env w) bs"

definition with_proj_key :: "'d cbm_env \<Rightarrow> cbm_return_clause_t \<Rightarrow> binding_t \<Rightarrow> string" where
  "with_proj_key env wc b = join_key (map (\<lambda>item. binding_get_virtual env b (Some (resolve_item_alias item)) None) (rc_items wc))"

definition with_apply_distinct :: "'d cbm_env \<Rightarrow> cbm_return_clause_t \<Rightarrow> binding_t list \<Rightarrow> binding_t list" where
  "with_apply_distinct env wc bs = distinct_loop (\<lambda>x y. with_proj_key env wc x = with_proj_key env wc y) [] bs"

definition execute_with_clause :: "'d cbm_env \<Rightarrow> cbm_query_t \<Rightarrow> binding_t list \<Rightarrow> binding_t list \<times> bool" where
  "execute_with_clause env q bs =
     (case q_with_clause q of
        None \<Rightarrow> (bs, False)
      | Some wc \<Rightarrow>
          (case (if list_ex (\<lambda>i. is_aggregate_func (ri_func i)) (rc_items wc) then execute_with_aggregate env wc bs
                 else (execute_with_simple env wc bs, False))
           of (vbs, ub) \<Rightarrow>
             (let vbs = (if rc_distinct wc then with_apply_distinct env wc vbs else vbs);
                  vbs = with_sort_skip_limit env wc vbs
              in (if q_post_with_where q \<noteq> None then filter_bindings_where env (q_post_with_where q) vbs else vbs, ub))))"

section \<open>The RETURN clause\<close>

definition collect_pattern_vars :: "cbm_query_t \<Rightarrow> nat \<Rightarrow> string list" where
  "collect_pattern_vars q max_vars =
     take max_vars (concat (map (\<lambda>p. List.map_filter n_variable (pat_nodes p) @ List.map_filter r_variable (pat_rels p)) (q_patterns q)))"

definition build_star_columns :: "string list \<Rightarrow> string list" where
  "build_star_columns vars =
     concat (map (\<lambda>v. map (\<lambda>f. snprintf_into CBM_SZ_128 (v @ f)) [''.name'', ''.qualified_name'', ''.label'', ''.file_path'']) vars)"

definition project_star_var :: "binding_t \<Rightarrow> string \<Rightarrow> string list" where
  "project_star_var b var =
     (case binding_get_edge b var of
        Some e \<Rightarrow> [edge_prop e (Some ''type''), [], [], []]
      | None \<Rightarrow>
          (case binding_get b var of
             Some n \<Rightarrow> [str_of (nd_name n), str_of (nd_qn n), str_of (nd_label n), str_of (nd_file n)]
           | None \<Rightarrow> [[], [], [], []]))"

definition project_star_row :: "binding_t \<Rightarrow> string list \<Rightarrow> string list" where
  "project_star_row b vars = concat (map (project_star_var b) vars)"

definition execute_return_star :: "cbm_query_t \<Rightarrow> binding_t list \<Rightarrow> nat \<Rightarrow> result_builder_t \<Rightarrow> result_builder_t" where
  "execute_return_star q bs max_rows rb =
     (let vars = collect_pattern_vars q CBM_SZ_32
      in foldl (\<lambda>rb b. rb_add_row rb (project_star_row b vars)) (rb_set_columns rb (build_star_columns vars)) (take max_rows bs))"

definition ret_agg_vals :: "'d cbm_env \<Rightarrow> cbm_return_item_t list \<Rightarrow> binding_t \<Rightarrow> string list" where
  "ret_agg_vals env items b =
     map (\<lambda>i. if ri_func i \<noteq> None then ''0'' else snprintf_into CBM_SZ_512 (project_item env b i CBM_SZ_512)) items"

definition ret_agg_build_key :: "'d cbm_env \<Rightarrow> cbm_return_item_t list \<Rightarrow> binding_t \<Rightarrow> string" where
  "ret_agg_build_key env items b = join_key (ret_agg_vals env (filter (\<lambda>i. ri_func i = None) items) b)"

definition ret_agg_row :: "'d cbm_env \<Rightarrow> cbm_return_item_t list \<Rightarrow> 'd agg_entry \<Rightarrow> string list" where
  "ret_agg_row env items agg =
     map (\<lambda>(item, val, cell).
            case ri_func item of
              None \<Rightarrow> val
            | Some func \<Rightarrow> (if counts_distinct item then snprintf_into CBM_SZ_64 (dec (length (ac_list cell)))
                           else format_agg_value env func cell CBM_SZ_64))
       (zip items (zip (ag_vals agg) (ag_cells agg)))"

definition ret_agg_emit_row :: "'d cbm_env \<Rightarrow> cbm_return_item_t list \<Rightarrow> result_builder_t \<Rightarrow> 'd agg_entry \<Rightarrow> result_builder_t" where
  "ret_agg_emit_row env items rb agg = rb_add_row rb (ret_agg_row env items agg)"

definition ret_agg_groups :: "'d cbm_env \<Rightarrow> cbm_return_item_t list \<Rightarrow> binding_t list \<Rightarrow> 'd agg_entry list" where
  "ret_agg_groups env items bs =
     foldl (\<lambda>aggs b. let key = ret_agg_build_key env items b
       in agg_update key (ret_agg_init_group env key (ret_agg_vals env items b)) (ret_agg_accumulate env items b) aggs) [] bs"

definition mark :: "bool \<Rightarrow> result_builder_t \<Rightarrow> result_builder_t" where
  "mark bad rb = rb\<lparr>rb_ub := (rb_ub rb \<or> bad)\<rparr>"

definition execute_return_agg :: "'d cbm_env \<Rightarrow> cbm_return_clause_t \<Rightarrow> binding_t list \<Rightarrow> result_builder_t \<Rightarrow> result_builder_t" where
  "execute_return_agg env ret bs rb =
     mark (bs \<noteq> [] \<and> (length (rc_items ret) > CBM_SZ_32 \<or> null_args (rc_items ret)))
       (foldl (ret_agg_emit_row env (rc_items ret)) rb (ret_agg_groups env (rc_items ret) bs))"

definition column_name :: "cbm_return_item_t \<Rightarrow> string" where
  "column_name item =
     (case ri_alias item of
        Some a \<Rightarrow> a
      | None \<Rightarrow>
          (case ri_func item of
             Some f \<Rightarrow> snprintf_into CBM_SZ_128 (f @ ''('' @ fmt_s (ri_variable item) @ '')'')
           | None \<Rightarrow>
               (if ri_kase item \<noteq> None then ''CASE''
                else case ri_property item of
                  Some p \<Rightarrow> snprintf_into CBM_SZ_128 (fmt_s (ri_variable item) @ ''.'' @ p)
                | None \<Rightarrow> str_of (ri_variable item))))"

definition build_return_columns :: "result_builder_t \<Rightarrow> cbm_return_clause_t \<Rightarrow> result_builder_t" where
  \<comment> \<open>the array of names has 32 entries\<close>
  "build_return_columns rb ret =
     mark (length (rc_items ret) > CBM_SZ_32) (rb_set_columns rb (map column_name (rc_items ret)))"

definition execute_return_simple :: "'d cbm_env \<Rightarrow> cbm_return_clause_t \<Rightarrow> binding_t list \<Rightarrow> nat \<Rightarrow> result_builder_t \<Rightarrow> result_builder_t" where
  "execute_return_simple env ret bs max_rows rb =
     (let proj_cap = (if rc_limit ret > 0 \<and> rc_order_by ret = None \<and> rc_skip ret \<le> 0 then nat (rc_limit ret) else max_rows)
      in mark (take proj_cap bs \<noteq> [] \<and> length (rc_items ret) > CBM_SZ_32)
           (foldl (\<lambda>rb b. rb_add_row rb (map (\<lambda>item. project_item env b item CBM_SZ_512) (rc_items ret))) rb (take proj_cap bs)))"

definition build_default_columns :: "string list \<Rightarrow> string list" where
  "build_default_columns vars =
     concat (map (\<lambda>v. map (\<lambda>f. snprintf_into CBM_SZ_128 (v @ f)) [''.name'', ''.qualified_name'', ''.label'']) vars)"

definition execute_default_projection :: "cbm_pattern_t \<Rightarrow> binding_t list \<Rightarrow> nat \<Rightarrow> result_builder_t \<Rightarrow> result_builder_t" where
  "execute_default_projection pat0 bs max_rows rb =
     (let vars = take CYP_MAX_VARS (List.map_filter n_variable (pat_nodes pat0))
      in foldl (\<lambda>rb b. rb_add_row rb (concat (map (\<lambda>v.
             case binding_get b v of
               Some n \<Rightarrow> [str_of (nd_name n), str_of (nd_qn n), str_of (nd_label n)]
             | None \<Rightarrow> [[], [], []]) vars)))
           (rb_set_columns rb (build_default_columns vars)) (take max_rows bs))"

definition execute_return_clause :: "'d cbm_env \<Rightarrow> cbm_query_t \<Rightarrow> cbm_return_clause_t \<Rightarrow> binding_t list \<Rightarrow> nat \<Rightarrow>
    result_builder_t \<Rightarrow> result_builder_t" where
  "execute_return_clause env q ret bs max_rows rb =
     (let rb = (if rc_star ret then execute_return_star q bs max_rows rb
                else if list_ex (\<lambda>i. is_aggregate_func (ri_func i)) (rc_items ret)
                then execute_return_agg env ret bs (build_return_columns rb ret)
                else execute_return_simple env ret bs max_rows (build_return_columns rb ret));
          rb = rb_apply_order_by rb ret;
          rb = rb_apply_skip_limit rb (rc_skip ret) (if rc_limit ret > 0 then rc_limit ret else int max_rows)
      in if rc_distinct ret then rb_apply_distinct rb else rb)"

section \<open>Execution\<close>

definition start_var :: "cbm_pattern_t \<Rightarrow> string" where
  "start_var pat0 = var_or (n_variable (hd (pat_nodes pat0))) ''_n0''"

definition initial_bindings :: "'d cbm_env \<Rightarrow> cbm_query_t \<Rightarrow> cbm_node_t list \<Rightarrow> binding_t list" where
  \<comment> \<open>one variable bound, and the \<open>WHERE\<close> clause tested on that\<close>
  "initial_bindings env q scanned =
     filter (eval_where env (q_where q))
       (map (binding_set (zero_binding\<lparr>b_store := True\<rparr>) (start_var (hd (q_patterns q)))) scanned)"

definition match_bindings :: "'d cbm_env \<Rightarrow> cbm_query_t \<Rightarrow> cstr \<Rightarrow> nat \<Rightarrow> binding_t list \<times> bool" where
  \<comment> \<open>the steps 1 to 3 of \<open>execute_single\<close>\<close>
  "match_bindings env q project max_rows =
     (let pat0 = hd (q_patterns q);
          scanned = scan_pattern_nodes env project max_rows (hd (pat_nodes pat0));
          bind_cap = (if length scanned > 0 then length scanned else 1);
          bs = initial_bindings env q scanned
      in case expand_pattern_rels env bind_cap (hd (q_pattern_optional q)) (pattern_steps pat0) (start_var pat0) bs of
           (bs, ub) \<Rightarrow>
             (case expand_additional_patterns env project max_rows bind_cap
                     (zip (tl (q_patterns q)) (tl (q_pattern_optional q))) bs of
                (bs, ub') \<Rightarrow>
                  (if q_where q \<noteq> None \<and> (pat_rels pat0 \<noteq> [] \<or> length (q_patterns q) > 1)
                   then filter_bindings_where env (q_where q) bs else bs, ub \<or> ub')))"

definition execute_single :: "'d cbm_env \<Rightarrow> cbm_query_t \<Rightarrow> cstr \<Rightarrow> nat \<Rightarrow> result_builder_t" where
  "execute_single env q project max_rows =
     (case match_bindings env q project max_rows of
        (bs, ub) \<Rightarrow>
          (case execute_with_clause env q bs of
             (bs, ub') \<Rightarrow>
               mark (ub \<or> ub')
                 (case q_ret q of
                    Some ret \<Rightarrow> execute_return_clause env q ret bs max_rows rb_init
                  | None \<Rightarrow> execute_default_projection (hd (q_patterns q)) bs max_rows rb_init)))"

fun union_chain :: "cbm_query_t \<Rightarrow> cbm_query_t list" where
  "union_chain (cbm_query ps os w wc pw r un ua ue al) = (case un of None \<Rightarrow> [] | Some q \<Rightarrow> q # union_chain q)"

definition append_union :: "'d cbm_env \<Rightarrow> cstr \<Rightarrow> nat \<Rightarrow> result_builder_t \<Rightarrow> cbm_query_t \<Rightarrow> result_builder_t" where
  "append_union env project max_rows rb uq =
     (let rb2 = execute_single env uq project max_rows in mark (rb_ub rb2) (foldl rb_add_row rb (rb_rows rb2)))"

record cbm_cypher_result_t =
  cr_columns :: "string list"
  cr_rows :: "string list list"

definition union_results :: "'d cbm_env \<Rightarrow> cbm_query_t \<Rightarrow> cstr \<Rightarrow> nat \<Rightarrow> result_builder_t" where
  "union_results env q project max_rows =
     (let rb = foldl (append_union env project max_rows) (execute_single env q project max_rows) (union_chain q)
      in if q_union_next q \<noteq> None \<and> \<not> q_union_all q then rb_apply_distinct rb else rb)"

definition execute_query :: "'d cbm_env \<Rightarrow> cbm_query_t \<Rightarrow> cstr \<Rightarrow> nat \<Rightarrow> (parse_error + cbm_cypher_result_t) \<times> bool" where
  \<comment> \<open>\<open>cbm_cypher_execute\<close> after parsing\<close>
  "execute_query env q project max_rows =
     (let rb = union_results env q project max_rows
      in (if length (rb_rows rb) \<ge> CYPHER_RESULT_CEILING
          then Inl (ErrorText (''result exceeded 100k rows '' @ [CHR 0xE2, CHR 0x80, CHR 0x94] @ '' use narrower filters or add LIMIT''))
          else Inr \<lparr>cr_columns = rb_columns rb, cr_rows = rb_rows rb\<rparr>, rb_ub rb))"

definition cbm_cypher_execute :: "'d cbm_env \<Rightarrow> cstr \<Rightarrow> cstr \<Rightarrow> int \<Rightarrow> ((parse_error + cbm_cypher_result_t) \<times> bool) option" where
  "cbm_cypher_execute env query project max_rows =
     (let max_rows = (if max_rows \<le> 0 then CYPHER_RESULT_CEILING else nat max_rows) in
      case cbm_cypher_parse query of
        None \<Rightarrow> None
      | Some (Inl err, oob) \<Rightarrow> Some (Inl err, oob)
      | Some (Inr q, oob) \<Rightarrow> (case execute_query env q project max_rows of (res, ub) \<Rightarrow> Some (res, oob \<or> ub)))"

end
