(* ===== verification/CypherRows.thy ===== *)
theory CypherRows
  imports CypherExec "HOL-Library.Multiset"
begin

text \<open>
  The rows of a result: sorting, removal of duplicates and paging, groups of an aggregation, and the shape of
  what \<open>cbm_cypher_execute\<close> returns.
\<close>

section \<open>Bubble sort\<close>

lemma bubble_pass_append:
  "length xs = Suc k \<Longrightarrow> bubble_pass swap k (xs @ zs) = bubble_pass swap k xs @ zs"
proof (induction k arbitrary: xs)
  case 0
  then obtain x where "xs = [x]" by (cases xs) auto
  then show ?case by (cases zs) simp_all
next
  case (Suc k)
  then obtain x y ys where "xs = x # y # ys" by (cases xs; cases "tl xs") auto
  then show ?case using Suc.prems Suc.IH [of "x # ys"] Suc.IH [of "y # ys"] by simp
qed

lemma length_bubble_pass [simp]: "length (bubble_pass swap k xs) = length xs"
  by (induction swap k xs rule: bubble_pass.induct) auto

lemma mset_bubble_pass [simp]: "mset (bubble_pass swap k xs) = mset xs"
  by (induction swap k xs rule: bubble_pass.induct) auto

lemma bubble_pass_cong:
  assumes "\<And>x y. x \<in> A \<Longrightarrow> y \<in> A \<Longrightarrow> swap x y = swap' x y" and "set xs \<subseteq> A"
  shows "bubble_pass swap k xs = bubble_pass swap' k xs"
  using assms(2)
proof (induction k arbitrary: xs)
  case (Suc k)
  consider "length xs < 2" | x y ys where "xs = x # y # ys" by (cases xs; cases "tl xs") auto
  then show ?case
  proof cases
    case 1
    then show ?thesis by (cases xs; cases "tl xs") auto
  next
    case 2
    then show ?thesis using Suc.IH [of "x # ys"] Suc.IH [of "y # ys"] Suc.prems assms(1) [of x y] by simp
  qed
qed simp

lemma bubble_loop_append:
  "length xs = Suc k \<Longrightarrow> bubble_loop swap k (xs @ zs) = bubble_loop swap k xs @ zs"
proof (induction k arbitrary: xs zs)
  case (Suc k)
  define ys where "ys = bubble_pass swap (Suc k) xs"
  have ys: "ys = butlast ys @ [last ys]" "length (butlast ys) = Suc k" using Suc.prems by (auto simp: ys_def simp flip: length_0_conv)
  have "bubble_loop swap k (ys @ zs) = bubble_loop swap k (butlast ys @ ([last ys] @ zs))" using ys(1) by (metis append_assoc)
  also have "\<dots> = bubble_loop swap k (butlast ys @ [last ys]) @ zs" using Suc.IH [OF ys(2)] by simp
  finally show ?case using ys(1) bubble_pass_append [OF Suc.prems] by (simp add: ys_def)
qed simp

lemma mset_bubble_loop [simp]: "mset (bubble_loop swap k xs) = mset xs"
  by (induction k arbitrary: xs) auto

lemma bubble_loop_cong:
  assumes "\<And>x y. x \<in> A \<Longrightarrow> y \<in> A \<Longrightarrow> swap x y = swap' x y"
  shows "set xs \<subseteq> A \<Longrightarrow> bubble_loop swap k xs = bubble_loop swap' k xs"
proof (induction k arbitrary: xs)
  case (Suc k)
  have "set (bubble_pass swap' (Suc k) xs) \<subseteq> A" using Suc.prems by (metis mset_bubble_pass set_mset_mset)
  then show ?case using Suc.IH bubble_pass_cong [OF assms Suc.prems] by simp
qed simp

locale bubble_order =
  fixes swap :: "'a \<Rightarrow> 'a \<Rightarrow> bool"
  assumes swap_asym: "swap x y \<Longrightarrow> \<not> swap y x"
    and in_order_trans: "\<lbrakk>\<not> swap x y; \<not> swap y z\<rbrakk> \<Longrightarrow> \<not> swap x z"
begin

lemma pass_last:
  "length xs = Suc k \<Longrightarrow> \<exists>ys m. bubble_pass swap k xs = ys @ [m] \<and> (\<forall>y \<in> set ys. \<not> swap y m)"
proof (induction k arbitrary: xs)
  case 0
  then obtain x where "xs = [x]" by (cases xs) auto
  then show ?case by auto
next
  case (Suc k)
  then obtain x y zs where xs: "xs = x # y # zs" by (cases xs; cases "tl xs") auto
  define lo hi where "lo = (if swap x y then y else x)" and "hi = (if swap x y then x else y)"
  have step: "bubble_pass swap (Suc k) xs = lo # bubble_pass swap k (hi # zs)" by (simp add: xs lo_def hi_def)
  obtain ys m where ys: "bubble_pass swap k (hi # zs) = ys @ [m]" "\<forall>y \<in> set ys. \<not> swap y m"
    using Suc.IH [of "hi # zs"] Suc.prems xs by auto
  have "hi \<in> set (ys @ [m])" using ys(1) by (metis list.set_intros(1) mset_bubble_pass set_mset_mset)
  moreover have "\<not> swap m m" using swap_asym by blast
  ultimately have "\<not> swap hi m" using ys(2) by auto
  moreover have "\<not> swap lo hi" using swap_asym by (auto simp: lo_def hi_def)
  ultimately have "\<not> swap lo m" using in_order_trans by blast
  then have "bubble_pass swap (Suc k) xs = (lo # ys) @ [m] \<and> (\<forall>y \<in> set (lo # ys). \<not> swap y m)"
    using step ys by simp
  then show ?case by blast
qed

lemma loop_sorted:
  "length xs = Suc k \<Longrightarrow> sorted_wrt (\<lambda>x y. \<not> swap x y) (bubble_loop swap k xs)"
proof (induction k arbitrary: xs)
  case 0
  then obtain x where "xs = [x]" by (cases xs) auto
  then show ?case by simp
next
  case (Suc k)
  obtain ys m where ys: "bubble_pass swap (Suc k) xs = ys @ [m]" "\<forall>y \<in> set ys. \<not> swap y m"
    using pass_last [OF Suc.prems] by blast
  have "length (ys @ [m]) = length xs" using ys(1) by (metis length_bubble_pass)
  then have len: "length ys = Suc k" using Suc.prems by simp
  have "set (bubble_loop swap k ys) = set ys" by (metis mset_bubble_loop set_mset_mset)
  then show ?case using ys Suc.IH [OF len] by (simp add: bubble_loop_append [OF len] sorted_wrt_append)
qed

lemma pass_stable: "filter (\<lambda>y. \<not> swap x y \<and> \<not> swap y x) (bubble_pass swap k xs) = filter (\<lambda>y. \<not> swap x y \<and> \<not> swap y x) xs"
proof (induction k arbitrary: xs)
  case (Suc k)
  consider "length xs < 2" | u v ys where "xs = u # v # ys" by (cases xs; cases "tl xs") auto
  then show ?case
  proof cases
    case 1
    then show ?thesis by (cases xs; cases "tl xs") auto
  next
    case 2
    have "\<not> (\<not> swap u x \<and> \<not> swap x v)" if "swap u v" using that in_order_trans by blast
    then show ?thesis using Suc.IH [of "u # ys"] Suc.IH [of "v # ys"] 2 by auto
  qed
qed simp

lemma sort_spec:
  "mset (bubble_sort swap xs) = mset xs"
  "sorted_wrt (\<lambda>x y. \<not> swap x y) (bubble_sort swap xs)"
  "filter (\<lambda>y. \<not> swap x y \<and> \<not> swap y x) (bubble_sort swap xs) = filter (\<lambda>y. \<not> swap x y \<and> \<not> swap y x) xs"
proof -
  show "mset (bubble_sort swap xs) = mset xs" by (simp add: bubble_sort_def)
  show "sorted_wrt (\<lambda>x y. \<not> swap x y) (bubble_sort swap xs)"
    using loop_sorted [of xs "length xs - 1"] by (cases xs) (simp_all add: bubble_sort_def)
  have "filter (\<lambda>y. \<not> swap x y \<and> \<not> swap y x) (bubble_loop swap k xs) = filter (\<lambda>y. \<not> swap x y \<and> \<not> swap y x) xs" for k xs
    by (induction k arbitrary: xs) (simp_all add: pass_stable)
  then show "filter (\<lambda>y. \<not> swap x y \<and> \<not> swap y x) (bubble_sort swap xs) = filter (\<lambda>y. \<not> swap x y \<and> \<not> swap y x) xs"
    by (simp add: bubble_sort_def)
qed

end

section \<open>ORDER BY\<close>

lemma strcmp_lt_asym: "strcmp_lt a b \<Longrightarrow> \<not> strcmp_lt b a"
  by (induction a b rule: strcmp_lt.induct) (auto split: if_splits)

lemma strcmp_le_trans: "\<lbrakk>\<not> strcmp_lt a b; \<not> strcmp_lt b c\<rbrakk> \<Longrightarrow> \<not> strcmp_lt a c"
proof (induction a b arbitrary: c rule: strcmp_lt.induct)
  case (1 a)
  then show ?case by (cases c) auto
next
  case (3 x a y b)
  show ?case
  proof (cases c)
    case (Cons z c')
    then show ?thesis using 3 by (auto split: if_splits)
  qed simp
qed simp

definition col_after :: "bool \<Rightarrow> bool \<Rightarrow> string \<Rightarrow> string \<Rightarrow> bool" where
  \<comment> \<open>whether the first value belongs strictly after the second\<close>
  "col_after numeric desc a b =
     (if desc then if numeric then strtol a < strtol b else strcmp_lt a b
      else if numeric then strtol b < strtol a else strcmp_lt b a)"

interpretation col_order: bubble_order "\<lambda>x y. col_after numeric desc (x ! c) (y ! c)" for numeric desc c
proof
  show "col_after numeric desc (x ! c) (y ! c) \<Longrightarrow> \<not> col_after numeric desc (y ! c) (x ! c)" for numeric desc c x y
    using strcmp_lt_asym by (cases numeric; cases desc) (auto simp: col_after_def)
  show "\<not> col_after numeric desc (x ! c) (y ! c) \<Longrightarrow> \<not> col_after numeric desc (y ! c) (z ! c) \<Longrightarrow>
      \<not> col_after numeric desc (x ! c) (z ! c)" for numeric desc c x y z
    using strcmp_le_trans [of "x ! c" "y ! c" "z ! c"] strcmp_le_trans [of "z ! c" "y ! c" "x ! c"]
    by (cases numeric; cases desc) (simp_all add: col_after_def)
qed

lemma int32_diff:
  assumes "- (2 ^ 30) < strtol a" "strtol a < 2 ^ 30" "- (2 ^ 30) < strtol b" "strtol b < 2 ^ 30"
  shows "to_int32 (to_int32 (strtol a) - to_int32 (strtol b)) = strtol a - strtol b"
proof -
  have "to_int32 (strtol a) = strtol a" "to_int32 (strtol b) = strtol b" using assms by (auto intro!: to_int32_id)
  moreover have "to_int32 (strtol a - strtol b) = strtol a - strtol b" using assms by (intro to_int32_id) auto
  ultimately show ?thesis by simp
qed

text \<open>
  C23. \<open>ORDER BY\<close>. The rows come back in the order of the chosen column, ascending or descending, no row is
  lost or added, and rows that agree in the column keep their order. A column is compared as
  numbers when its first value that is not empty is one, provided all its values are less than \<open>2 ^ 30\<close> in
  size (the code subtracts them as \<open>int\<close>), and as bytes otherwise.
\<close>

theorem order_by_sorts:
  assumes "rc_order_by ret = Some k" and "rb_find_order_column rb ret k = Some c"
    and "\<forall>row \<in> set (rb_rows rb). - (2 ^ 30) < strtol (row ! c) \<and> strtol (row ! c) < 2 ^ 30 \<or> \<not> rb_is_numeric_column rb c"
  shows "let out = rb_rows (rb_apply_order_by rb ret);
             after = col_after (rb_is_numeric_column rb c) (rc_order_dir ret = Some ''DESC'')
         in mset out = mset (rb_rows rb) \<and> sorted_wrt (\<lambda>x y. \<not> after (x ! c) (y ! c)) out \<and>
            (\<forall>v. filter (\<lambda>y. \<not> after (v ! c) (y ! c) \<and> \<not> after (y ! c) (v ! c)) out =
                 filter (\<lambda>y. \<not> after (v ! c) (y ! c) \<and> \<not> after (y ! c) (v ! c)) (rb_rows rb))"
proof -
  let ?num = "rb_is_numeric_column rb c" and ?desc = "rc_order_dir ret = Some ''DESC''"
  have eq: "(if ?desc then col_less ?num (x ! c) (y ! c) else col_greater ?num (x ! c) (y ! c)) = col_after ?num ?desc (x ! c) (y ! c)"
    if "x \<in> set (rb_rows rb)" "y \<in> set (rb_rows rb)" for x y
    using assms(3) that int32_diff [of "x ! c" "y ! c"] by (cases ?num) (auto simp: col_less_def col_greater_def col_after_def)
  have "rb_rows (rb_apply_order_by rb ret) =
      bubble_sort (\<lambda>x y. if ?desc then col_less ?num (x ! c) (y ! c) else col_greater ?num (x ! c) (y ! c)) (rb_rows rb)"
    using assms(1,2) by (simp add: rb_apply_order_by_def Let_def)
  also have "\<dots> = bubble_sort (\<lambda>x y. col_after ?num ?desc (x ! c) (y ! c)) (rb_rows rb)"
    unfolding bubble_sort_def by (rule bubble_loop_cong [OF eq subset_refl])
  finally have "rb_rows (rb_apply_order_by rb ret) = bubble_sort (\<lambda>x y. col_after ?num ?desc (x ! c) (y ! c)) (rb_rows rb)" .
  then show ?thesis by (simp add: col_order.sort_spec)
qed

theorem order_by_sorts_witness:
  "let rb = \<lparr>rb_columns = [''n''], rb_rows = [[''10''], [''9'']], rb_ub = False\<rparr>; ret = zero_return\<lparr>rc_order_by := Some ''n''\<rparr>
   in sorted_wrt (\<lambda>x y. \<not> col_after (rb_is_numeric_column rb 0) False (x ! 0) (y ! 0)) (rb_rows (rb_apply_order_by rb ret))"
proof -
  let ?rb = "\<lparr>rb_columns = [''n''], rb_rows = [[''10''], [''9'']], rb_ub = False\<rparr>"
  have "strtol ''10'' = 10" "strtol ''9'' = 9"
    by (simp_all add: strtol_def LONG_MAX_def LONG_MIN_def digit_val_def char_class byte_def)
  then show ?thesis
    using order_by_sorts [of "zero_return\<lparr>rc_order_by := Some ''n''\<rparr>" "''n''" ?rb 0]
    by (simp add: zero_return_def rb_find_order_column_def Let_def)
qed

section \<open>The shape of a result\<close>

definition rb_ok :: "result_builder_t \<Rightarrow> bool" where
  "rb_ok rb \<longleftrightarrow> rb_ub rb \<or> (\<forall>row \<in> set (rb_rows rb). length row = length (rb_columns rb))"

lemma rb_ok_subset:
  "rb_ok rb \<Longrightarrow> set (rb_rows rb') \<subseteq> set (rb_rows rb) \<Longrightarrow> rb_columns rb' = rb_columns rb \<Longrightarrow> rb_ub rb' = rb_ub rb \<Longrightarrow> rb_ok rb'"
  by (auto simp: rb_ok_def)

lemma rb_ok_init: "rb_ok rb_init"
  by (simp add: rb_ok_def rb_init_def)

lemma rb_ok_set_columns: "rb_rows rb = [] \<Longrightarrow> rb_ok (rb_set_columns rb cols)"
  by (simp add: rb_ok_def rb_set_columns_def)

lemma rb_ok_mark: "rb_ok rb \<Longrightarrow> rb_ok (mark bad rb)"
  by (auto simp: rb_ok_def mark_def)

lemma rb_ok_add_row: "rb_ok rb \<Longrightarrow> rb_ok (rb_add_row rb vs)"
  by (auto simp: rb_ok_def rb_add_row_def)

lemma rb_ok_add_rows: "rb_ok rb \<Longrightarrow> rb_ok (foldl (\<lambda>rb x. rb_add_row rb (f x)) rb xs)"
  by (induction xs arbitrary: rb) (auto simp: rb_ok_add_row)

lemma set_bubble_sort: "set (bubble_sort swap xs) = set xs"
  by (metis bubble_sort_def mset_bubble_loop set_mset_mset)

lemma rb_ok_order_by: "rb_ok rb \<Longrightarrow> rb_ok (rb_apply_order_by rb ret)"
  by (erule rb_ok_subset) (auto simp: rb_apply_order_by_def Let_def set_bubble_sort split: option.splits)

lemma set_skip_limit: "set (skip_limit s l xs) \<subseteq> set xs"
  by (auto simp: skip_limit_def Let_def dest: in_set_takeD in_set_dropD split: if_splits)

lemma rb_ok_skip_limit: "rb_ok rb \<Longrightarrow> rb_ok (rb_apply_skip_limit rb s l)"
  by (erule rb_ok_subset) (auto simp: rb_apply_skip_limit_def dest: set_skip_limit [THEN subsetD])

lemma set_distinct_loop: "set (distinct_loop same kept xs) \<subseteq> set kept \<union> set xs"
  by (induction same kept xs rule: distinct_loop.induct) auto

lemma rb_ok_distinct: "rb_ok rb \<Longrightarrow> rb_ok (rb_apply_distinct rb)"
  by (erule rb_ok_subset) (auto simp: rb_apply_distinct_def dest: set_distinct_loop [THEN subsetD])

lemma rows_set_columns [simp]: "rb_rows (rb_set_columns rb cols) = rb_rows rb" "rb_rows (mark bad rb) = rb_rows rb"
  "rb_rows rb_init = []" "rb_columns (mark bad rb) = rb_columns rb" "rb_columns (rb_set_columns rb cols) = cols"
  "rb_columns (rb_add_row rb vs) = rb_columns rb"
  by (simp_all add: rb_set_columns_def mark_def rb_init_def rb_add_row_def)

lemma rb_ok_return_columns: "rb_rows rb = [] \<Longrightarrow> rb_ok (build_return_columns rb ret)"
  by (simp add: build_return_columns_def rb_ok_mark rb_ok_set_columns)

lemma emit_rows_eq: "ret_agg_emit_row env items = (\<lambda>rb agg. rb_add_row rb (ret_agg_row env items agg))"
  by (intro ext) (simp add: ret_agg_emit_row_def)

lemmas rb_ok_intros = rb_ok_mark rb_ok_add_rows rb_ok_return_columns rb_ok_set_columns rb_ok_order_by rb_ok_skip_limit rb_ok_distinct

lemma rb_ok_return_clause: "rb_ok (execute_return_clause env q ret bs max_rows rb_init)"
  unfolding execute_return_clause_def Let_def execute_return_star_def execute_return_agg_def execute_return_simple_def emit_rows_eq
  by (auto intro!: rb_ok_intros)

lemma rb_ok_default: "rb_ok (execute_default_projection pat bs max_rows rb_init)"
  unfolding execute_default_projection_def Let_def by (auto intro!: rb_ok_intros)

lemma rb_ok_single: "rb_ok (execute_single env q project max_rows)"
  by (auto simp: execute_single_def rb_ok_return_clause rb_ok_default intro!: rb_ok_mark split: prod.splits option.splits)

lemma rb_ok_union: "rb_ok rb \<Longrightarrow> rb_ok (foldl (append_union env project max_rows) rb qs)"
proof (induction qs arbitrary: rb)
  case (Cons q qs)
  have "rb_ok (append_union env project max_rows rb q)"
    unfolding append_union_def Let_def by (rule rb_ok_mark) (rule rb_ok_add_rows [where f = "\<lambda>x. x", OF Cons.prems])
  then show ?case using Cons.IH by simp
qed simp

lemma length_skip_limit: "0 < l \<Longrightarrow> int (length (skip_limit s l xs)) \<le> l"
  by (auto simp: skip_limit_def Let_def)

lemma length_distinct_loop: "length (distinct_loop same kept xs) \<le> length kept + length xs"
proof (induction same kept xs rule: distinct_loop.induct)
  case (2 same kept x xs)
  then show ?case by (auto simp: le_SucI)
qed simp

lemma length_return_clause:
  assumes "0 < max_rows"
  shows "int (length (rb_rows (execute_return_clause env q ret bs max_rows rb))) \<le> (if rc_limit ret > 0 then rc_limit ret else int max_rows)"
proof -
  define l where "l = (if rc_limit ret > 0 then rc_limit ret else int max_rows)"
  define rb' where "rb' = rb_apply_order_by (if rc_star ret then execute_return_star q bs max_rows rb
      else if list_ex (\<lambda>i. is_aggregate_func (ri_func i)) (rc_items ret) then execute_return_agg env ret bs (build_return_columns rb ret)
      else execute_return_simple env ret bs max_rows (build_return_columns rb ret)) ret"
  have rb': "execute_return_clause env q ret bs max_rows rb =
      (if rc_distinct ret then rb_apply_distinct (rb_apply_skip_limit rb' (rc_skip ret) l) else rb_apply_skip_limit rb' (rc_skip ret) l)"
    by (simp only: execute_return_clause_def Let_def rb'_def l_def)
  have "0 < l" using assms by (simp add: l_def)
  then have lim: "int (length (rb_rows (rb_apply_skip_limit rb' (rc_skip ret) l))) \<le> l"
    by (simp add: rb_apply_skip_limit_def length_skip_limit)
  have "length (rb_rows (rb_apply_distinct r)) \<le> length (rb_rows r)" for r
    using length_distinct_loop [where kept = "[]"] by (simp add: rb_apply_distinct_def)
  then have "int (length (rb_rows (rb_apply_distinct (rb_apply_skip_limit rb' (rc_skip ret) l)))) \<le> l"
    by (rule order_trans [OF of_nat_mono lim])
  then show ?thesis using lim unfolding rb' l_def [symmetric] by simp
qed

lemma single_rows:
  "q_ret q = Some ret \<Longrightarrow> rb_rows (execute_single env q project max_rows) =
     rb_rows (execute_return_clause env q ret (fst (execute_with_clause env q (fst (match_bindings env q project max_rows)))) max_rows rb_init)"
  by (simp add: execute_single_def split_def)

text \<open>
  C24. The shape of a result. When a query is executed without a memory error, every row it
  returns has one value per column and there are fewer than 100000 rows; a query without
  \<open>UNION\<close> returns at most the number of rows of its \<open>LIMIT\<close>, or \<open>max_rows\<close> when it has none.
\<close>

theorem cypher_result_shape:
  assumes "execute_query env q project max_rows = (Inr res, False)"
  shows "(\<forall>row \<in> set (cr_rows res). length row = length (cr_columns res)) \<and> length (cr_rows res) < CYPHER_RESULT_CEILING \<and>
    (\<forall>ret. q_union_next q = None \<longrightarrow> q_ret q = Some ret \<longrightarrow> 0 < max_rows \<longrightarrow>
      int (length (cr_rows res)) \<le> (if rc_limit ret > 0 then rc_limit ret else int max_rows))"
proof -
  define rb where "rb = union_results env q project max_rows"
  have "rb_ok rb" using rb_ok_union [OF rb_ok_single, of env project max_rows env q project max_rows "union_chain q"] by (simp add: rb_def union_results_def Let_def rb_ok_distinct)
  moreover have "cr_rows res = rb_rows rb" "cr_columns res = rb_columns rb" "\<not> rb_ub rb" "length (rb_rows rb) < CYPHER_RESULT_CEILING"
    using assms by (auto simp: execute_query_def Let_def rb_def [symmetric] split: if_splits)
  moreover have "rb_rows rb = rb_rows (execute_single env q project max_rows)" if "q_union_next q = None"
    using that by (cases q) (simp add: rb_def union_results_def)
  moreover have "int (length (rb_rows (execute_single env q project max_rows))) \<le> (if rc_limit ret > 0 then rc_limit ret else int max_rows)"
    if "q_ret q = Some ret" "0 < max_rows" for ret
    unfolding single_rows [OF that(1)] by (rule length_return_clause [OF that(2)])
  ultimately show ?thesis by (auto simp: rb_ok_def)
qed

section \<open>A store of lists\<close>

definition list_env :: "cbm_node_t list \<Rightarrow> cbm_edge_t list \<Rightarrow> int cbm_env" where
  \<comment> \<open>an environment for examples: no regular expressions and no traversals, numbers are integers\<close>
  "list_env ns es =
     \<lparr>nodes_by_label = (\<lambda>p l. filter (\<lambda>n. nd_project n = p \<and> nd_label n = Some l) ns),
      store_search = (\<lambda>p k. take (nat k) (filter (\<lambda>n. nd_project n = p) ns)),
      node_by_id = (\<lambda>i. find (\<lambda>n. nd_id n = i) ns),
      edges_by_source = (\<lambda>i. filter (\<lambda>e. ed_source e = i) es),
      edges_by_target = (\<lambda>i. filter (\<lambda>e. ed_target e = i) es),
      edges_by_source_type = (\<lambda>i t. filter (\<lambda>e. ed_source e = i \<and> ed_type e = Some t) es),
      edges_by_target_type = (\<lambda>i t. filter (\<lambda>e. ed_target e = i \<and> ed_type e = Some t) es),
      store_bfs = (\<lambda>_ _ _ _ _. []),
      node_degree = (\<lambda>i. (int (length (filter (\<lambda>e. ed_target e = i \<and> ed_type e = Some ''CALLS'') es)),
                          int (length (filter (\<lambda>e. ed_source e = i \<and> ed_type e = Some ''CALLS'') es)))),
      regex = (\<lambda>_. None),
      fp_strtod = (\<lambda>s. if has_digits s then (strtol s, 1) else (0, 0)),
      fp_add = (+), fp_div = (div), fp_lt = (<), fp_le = (\<le>), fp_of_int = (\<lambda>i. i), fp_to_ll = (\<lambda>i. i),
      fp_max = LONG_MAX, fp_min = LONG_MIN, fp_fmt_g = print_int, fp_fmt_10g = print_int\<rparr>"

definition demo_node :: "int \<Rightarrow> string \<Rightarrow> string \<Rightarrow> cbm_node_t" where
  "demo_node i lab nam = zero_node\<lparr>nd_id := i, nd_label := Some lab, nd_name := Some nam\<rparr>"

definition demo_pattern :: "string \<Rightarrow> string \<Rightarrow> cbm_pattern_t" where
  "demo_pattern var lab = \<lparr>pat_nodes = [\<lparr>n_variable = Some var, n_label = Some lab, n_props = []\<rparr>], pat_rels = []\<rparr>"

definition demo_return :: "string \<Rightarrow> cbm_return_clause_t" where
  "demo_return var = zero_return\<lparr>rc_items := [zero_item\<lparr>ri_variable := Some var, ri_property := Some ''name''\<rparr>]\<rparr>"

definition demo_names :: cbm_query_t where
  \<comment> \<open>\<open>MATCH (n:F) RETURN n.name\<close>\<close>
  "demo_names = cbm_query [demo_pattern ''n'' ''F''] [False] None None None (Some (demo_return ''n'')) None False None None"

lemmas demo_defs = list_env_def demo_node_def demo_pattern_def demo_return_def zero_node_def zero_return_def zero_item_def zero_binding_def

lemmas exec_defs = union_results_def execute_single_def match_bindings_def scan_pattern_nodes_def initial_bindings_def start_var_def
  var_or_def pattern_steps_def eval_where_def binding_set_def CYP_MAX_VARS_def execute_with_clause_def execute_return_clause_def
  execute_return_simple_def build_return_columns_def rb_set_columns_def rb_init_def mark_def rb_add_row_def rb_apply_order_by_def
  rb_apply_skip_limit_def skip_limit_def column_name_def CBM_SZ_32_def Let_def

lemma demo_names_run:
  "execute_query (list_env [demo_node 1 ''F'' ''a'', demo_node 2 ''G'' ''b''] []) demo_names None 10 =
     (Inr \<lparr>cr_columns = [''n.name''], cr_rows = [[''a'']]\<rparr>, False)"
  by (simp add: execute_query_def exec_defs demo_names_def demo_defs project_item_def project_value_def has_args_def multiarg_func_canonical_def
      cyp_ci_eq_def is_aggregate_func_def is_scalar_value_func_def binding_get_virtual_def binding_get_edge_def binding_get_def fmt_s_def
      str_of_def node_prop_def node_string_field_def snprintf_into_def CBM_SZ_128_def CBM_SZ_256_def CBM_SZ_512_def CYPHER_RESULT_CEILING_def)

theorem cypher_result_shape_witness:
  "list_all (\<lambda>row. length row = length (cr_columns \<lparr>cr_columns = [''n.name''], cr_rows = [[''a'']]\<rparr>))
      (cr_rows \<lparr>cr_columns = [''n.name''], cr_rows = [[''a'']]\<rparr>) \<and>
    execute_query (list_env [demo_node 1 ''F'' ''a'', demo_node 2 ''G'' ''b''] []) demo_names None 10 =
     (Inr \<lparr>cr_columns = [''n.name''], cr_rows = [[''a'']]\<rparr>, False)"
  using cypher_result_shape [OF demo_names_run] demo_names_run by (simp add: list_all_iff)

end
