(* ===== verification/CypherMatch.thy ===== *)
theory CypherMatch
  imports CypherRows
begin

text \<open>
  Matching: the bindings that a \<open>MATCH\<close> pattern produces are the walks of the graph that fit the pattern
  and satisfy the \<open>WHERE\<close> clause, as long as no array is full; the executor stays inside its arrays when no
  pattern is optional; and what happens when these conditions do not hold.
\<close>

section \<open>Expansion without limits\<close>

definition bind_hop :: "binding_t \<Rightarrow> string \<Rightarrow> cstr \<Rightarrow> cbm_edge_t \<Rightarrow> cbm_node_t \<Rightarrow> binding_t" where
  "bind_hop b to_var rel_var e n =
     (case rel_var of Some v \<Rightarrow> binding_set_edge (binding_set b to_var n) v e | None \<Rightarrow> binding_set b to_var n)"

definition target :: "'d cbm_env \<Rightarrow> bool \<Rightarrow> cbm_node_pattern_t \<Rightarrow> cbm_edge_t \<Rightarrow> cbm_node_t option" where
  "target env inbound np e =
     (case node_by_id env (if inbound then ed_source e else ed_target e) of
        Some n \<Rightarrow> (if accepts env np n then Some n else None) | None \<Rightarrow> None)"

definition batch_bindings :: "'d cbm_env \<Rightarrow> cbm_node_pattern_t \<Rightarrow> binding_t \<Rightarrow> string \<Rightarrow> cstr \<Rightarrow> cbm_edge_t list \<times> bool \<Rightarrow> binding_t list" where
  "batch_bindings env np b to_var rel_var batch =
     List.map_filter (\<lambda>e. map_option (bind_hop b to_var rel_var e) (target env (snd batch) np e)) (fst batch)"

lemma process_edges_Cons:
  "process_edges env inbound np b to_var rel_var (Suc r) (e # es) =
     (case target env inbound np e of
        None \<Rightarrow> process_edges env inbound np b to_var rel_var (Suc r) es
      | Some n \<Rightarrow> bind_hop b to_var rel_var e n # process_edges env inbound np b to_var rel_var r es)"
  by (cases rel_var) (simp_all add: target_def bind_hop_def Let_def split: option.split)

lemma batch_bindings_Cons:
  "batch_bindings env np b to_var rel_var (e # es, inbound) =
     (case target env inbound np e of
        None \<Rightarrow> batch_bindings env np b to_var rel_var (es, inbound)
      | Some n \<Rightarrow> bind_hop b to_var rel_var e n # batch_bindings env np b to_var rel_var (es, inbound))"
  by (simp add: batch_bindings_def map_filter_simps split: option.split)

declare process_edges.simps(2) [simp del]

lemma process_edges_take:
  "process_edges env inbound np b to_var rel_var room es = take room (batch_bindings env np b to_var rel_var (es, inbound))"
proof (induction es arbitrary: room)
  case (Cons e es)
  show ?case
  proof (cases room)
    case 0
    then show ?thesis by (simp add: process_edges.simps)
  next
    case (Suc r)
    then show ?thesis by (simp add: Cons.IH process_edges_Cons batch_bindings_Cons split: option.split)
  qed
qed (simp add: batch_bindings_def map_filter_simps)

lemma process_batches_take:
  "process_batches env np b to_var rel_var room batches = take room (concat (map (batch_bindings env np b to_var rel_var) batches))"
proof (induction batches arbitrary: room)
  case (Cons batch batches)
  obtain es inbound where "batch = (es, inbound)" by (cases batch)
  then show ?case by (simp add: Cons.IH process_edges_take Let_def min_def)
qed simp

definition hop_bindings :: "'d cbm_env \<Rightarrow> int \<Rightarrow> cbm_node_pattern_t \<Rightarrow> binding_t \<Rightarrow> string \<Rightarrow> (cbm_node_t \<times> int) list \<Rightarrow> binding_t list" where
  "hop_bindings env min_hops np b to_var hs = map (\<lambda>(n, hop). binding_set b to_var n) (filter (\<lambda>(n, hop). \<not> hop < min_hops \<and> accepts env np n) hs)"

lemma visit_hops_take: "visit_hops env min_hops np b to_var room hs = take room (hop_bindings env min_hops np b to_var hs)"
proof (induction hs arbitrary: room)
  case (Cons h hs)
  obtain n hop where "h = (n, hop)" by (cases h)
  then show ?case by (cases room) (simp_all add: Cons.IH hop_bindings_def)
qed (simp add: hop_bindings_def)

definition step_bindings :: "'d cbm_env \<Rightarrow> cbm_rel_pattern_t \<Rightarrow> cbm_node_pattern_t \<Rightarrow> binding_t \<Rightarrow> cbm_node_t \<Rightarrow> binding_t list" where
  \<comment> \<open>everything that one relationship adds to a binding\<close>
  "step_bindings env rel np b src =
     (let to_var = var_or (n_variable np) ''_n_t'' in
      if r_min_hops rel \<noteq> 1 \<or> r_max_hops rel \<noteq> 1
      then hop_bindings env (r_min_hops rel) np b to_var (store_bfs env (nd_id src) (case r_direction rel of Some d \<Rightarrow> d | None \<Rightarrow> ''outbound'')
             (r_types rel) (if r_max_hops rel > 0 then r_max_hops rel else CYP_MAX_DEPTH) CBM_PERCENT)
      else concat (map (batch_bindings env np b to_var (r_variable rel)) (edge_batches env rel (nd_id src))))"

definition expand_step :: "'d cbm_env \<Rightarrow> string \<Rightarrow> cbm_rel_pattern_t \<Rightarrow> cbm_node_pattern_t \<Rightarrow> binding_t list \<Rightarrow> binding_t list" where
  "expand_step env var_name rel np bs =
     concat (map (\<lambda>b. case binding_get b var_name of None \<Rightarrow> [] | Some src \<Rightarrow> step_bindings env rel np b src) bs)"

lemma expand_bindings_take:
  assumes "\<And>b src room. expand b src room = take room (full b src)"
  shows "length new \<le> max_new \<Longrightarrow> expand_bindings expand var_name False max_new bs new ub =
    (new @ take (max_new - length new) (concat (map (\<lambda>b. case binding_get b var_name of None \<Rightarrow> [] | Some src \<Rightarrow> full b src) bs)), ub)"
proof (induction bs arbitrary: new)
  case (Cons b bs)
  show ?case
  proof (cases "binding_get b var_name")
    case None
    then show ?thesis using Cons by simp
  next
    case (Some src)
    let ?m = "take (max_new - length new) (full b src)"
    have "length (new @ ?m) \<le> max_new" using Cons.prems by simp
    then show ?thesis using Cons.IH [of "new @ ?m"] Some Cons.prems by (simp add: assms Let_def min_def)
  qed
qed simp

lemma expand_pattern_rels_Cons:
  "expand_pattern_rels env cap False ((rel, np) # steps) var_name bs =
     expand_pattern_rels env cap False steps (var_or (n_variable np) ''_n_t'') (take (cap * CYP_GROWTH_10) (expand_step env var_name rel np bs))"
proof -
  define expand where "expand = (if r_min_hops rel \<noteq> 1 \<or> r_max_hops rel \<noteq> 1
      then (\<lambda>b src room. expand_var_length env rel np b src (var_or (n_variable np) ''_n_t'') room)
      else (\<lambda>b src room. expand_fixed_length env rel np b src (var_or (n_variable np) ''_n_t'') room))"
  have "expand b src room = take room (step_bindings env rel np b src)" for b src room
    by (simp add: expand_def step_bindings_def Let_def expand_var_length_def expand_fixed_length_def visit_hops_take process_batches_take)
  then have "expand_bindings expand var_name False (cap * CYP_GROWTH_10) bs [] False = (take (cap * CYP_GROWTH_10) (expand_step env var_name rel np bs), False)"
    using expand_bindings_take [of expand "step_bindings env rel np" "[]"] by (simp add: expand_step_def)
  then show ?thesis by (simp add: Let_def expand_def split_def)
qed

declare expand_pattern_rels.simps(2) [simp del]

section \<open>Walks in a graph\<close>

definition store_laws :: "'d cbm_env \<Rightarrow> cbm_node_t set \<Rightarrow> cbm_edge_t set \<Rightarrow> bool" where
  \<comment> \<open>the queries of the store answer about one graph\<close>
  "store_laws env N E \<longleftrightarrow>
     (\<forall>i n. node_by_id env i = Some n \<longleftrightarrow> n \<in> N \<and> nd_id n = i) \<and>
     (\<forall>p l. set (nodes_by_label env p l) = {n \<in> N. nd_project n = p \<and> nd_label n = Some l}) \<and>
     (\<forall>i. set (edges_by_source env i) = {e \<in> E. ed_source e = i}) \<and>
     (\<forall>i. set (edges_by_target env i) = {e \<in> E. ed_target e = i}) \<and>
     (\<forall>i t. set (edges_by_source_type env i t) = {e \<in> E. ed_source e = i \<and> ed_type e = Some t}) \<and>
     (\<forall>i t. set (edges_by_target_type env i t) = {e \<in> E. ed_target e = i \<and> ed_type e = Some t})"

definition hop_fits :: "cbm_node_t set \<Rightarrow> cbm_edge_t set \<Rightarrow> cbm_rel_pattern_t \<Rightarrow> cbm_node_t \<Rightarrow> cbm_edge_t \<Rightarrow> cbm_node_t \<Rightarrow> bool" where
  \<comment> \<open>the edge leads from the first node to the second in the direction of the relationship\<close>
  "hop_fits N E rel u e v \<longleftrightarrow> e \<in> E \<and> v \<in> N \<and> (r_types rel = [] \<or> ed_type e \<in> Some ` set (r_types rel)) \<and>
     (r_direction rel \<noteq> Some ''inbound'' \<and> ed_source e = nd_id u \<and> ed_target e = nd_id v \<or>
      r_direction rel \<in> {Some ''inbound'', Some ''any''} \<and> ed_target e = nd_id u \<and> ed_source e = nd_id v)"

fun walk :: "'d cbm_env \<Rightarrow> cbm_node_t set \<Rightarrow> cbm_edge_t set \<Rightarrow> (cbm_rel_pattern_t \<times> cbm_node_pattern_t) list \<Rightarrow> cbm_node_t \<Rightarrow>
    (cbm_edge_t \<times> cbm_node_t) list \<Rightarrow> bool" where
  "walk env N E [] u [] = True"
| "walk env N E ((rel, np) # steps) u ((e, v) # w) = (hop_fits N E rel u e v \<and> accepts env np v \<and> walk env N E steps v w)"
| "walk env N E _ _ _ = False"

fun bind_walk :: "(cbm_rel_pattern_t \<times> cbm_node_pattern_t) list \<Rightarrow> binding_t \<Rightarrow> (cbm_edge_t \<times> cbm_node_t) list \<Rightarrow> binding_t" where
  "bind_walk ((rel, np) # steps) b ((e, v) # w) = bind_walk steps (bind_hop b (var_or (n_variable np) ''_n_t'') (r_variable rel) e v) w"
| "bind_walk _ b _ = b"

lemma set_batch_bindings:
  "set (batch_bindings env np b to_var rel_var (es, inbound)) =
     {bind_hop b to_var rel_var e n | e n. e \<in> set es \<and> node_by_id env (if inbound then ed_source e else ed_target e) = Some n \<and> accepts env np n}"
proof -
  have "target env inbound np e = Some n \<longleftrightarrow> node_by_id env (if inbound then ed_source e else ed_target e) = Some n \<and> accepts env np n" for e n
    unfolding target_def by (cases "node_by_id env (if inbound then ed_source e else ed_target e)") auto
  moreover have "set (batch_bindings env np b to_var rel_var (es, inbound)) =
      {bind_hop b to_var rel_var e n | e n. e \<in> set es \<and> target env inbound np e = Some n}"
    by (induction es) (auto simp: batch_bindings_Cons batch_bindings_def [of _ _ _ _ _ "([], _)"] map_filter_simps split: option.splits)
  ultimately show ?thesis by simp
qed

lemma in_set_concat_map: "x \<in> set (concat (map f ys)) \<longleftrightarrow> (\<exists>y. y \<in> set ys \<and> x \<in> set (f y))"
  by auto

lemma step_bindings_walk:
  assumes laws: "store_laws env N E" and fixed: "r_min_hops rel = 1" "r_max_hops rel = 1"
  shows "set (step_bindings env rel np b u) =
    {bind_hop b (var_or (n_variable np) ''_n_t'') (r_variable rel) e v | e v. hop_fits N E rel u e v \<and> accepts env np v}"
proof -
  have node: "node_by_id env i = Some n \<longleftrightarrow> n \<in> N \<and> nd_id n = i" for i n using laws by (simp add: store_laws_def)
  have edges: "set (edges_by_source env i) = {e \<in> E. ed_source e = i}" "set (edges_by_target env i) = {e \<in> E. ed_target e = i}"
    "set (edges_by_source_type env i t) = {e \<in> E. ed_source e = i \<and> ed_type e = Some t}"
    "set (edges_by_target_type env i t) = {e \<in> E. ed_target e = i \<and> ed_type e = Some t}" for i t
    using laws by (simp_all add: store_laws_def)
  have batch: "\<exists>es inbound. (es, inbound) \<in> set (edge_batches env rel (nd_id u)) \<and> e \<in> set es \<and> v \<in> N \<and> nd_id v = (if inbound then ed_source e else ed_target e)"
    if fits: "hop_fits N E rel u e v" for e v
  proof -
    let ?i = "nd_id u"
    have out: "(if r_types rel = [] then edges_by_source env ?i else edges_by_source_type env ?i t, False) \<in> set (edge_batches env rel ?i)"
      if "r_direction rel \<noteq> Some ''inbound''" "r_types rel = [] \<or> t \<in> set (r_types rel)" for t
      using that by (auto simp: edge_batches_def Let_def)
    have inw: "(if r_types rel = [] then edges_by_target env ?i else edges_by_target_type env ?i t, True) \<in> set (edge_batches env rel ?i)"
      if "r_direction rel \<in> {Some ''inbound'', Some ''any''}" "r_types rel = [] \<or> t \<in> set (r_types rel)" for t
      using that by (auto simp: edge_batches_def Let_def)
    obtain t where t: "r_types rel = [] \<or> t \<in> set (r_types rel) \<and> ed_type e = Some t" using fits by (auto simp: hop_fits_def)
    have e: "e \<in> E" "v \<in> N" using fits by (simp_all add: hop_fits_def)
    consider "r_direction rel \<noteq> Some ''inbound''" "ed_source e = ?i" "ed_target e = nd_id v"
      | "r_direction rel \<in> {Some ''inbound'', Some ''any''}" "ed_target e = ?i" "ed_source e = nd_id v"
      using fits unfolding hop_fits_def by blast
    then show ?thesis
    proof cases
      case 1
      then show ?thesis using out [of t] t e by (intro exI [of _ "if r_types rel = [] then _ else _"] exI [of _ False]) (auto simp: edges)
    next
      case 2
      then show ?thesis using inw [of t] t e by (intro exI [of _ "if r_types rel = [] then _ else _"] exI [of _ True]) (auto simp: edges)
    qed
  qed
  have from_batch: "hop_fits N E rel u e v"
    if "(es, inbound) \<in> set (edge_batches env rel (nd_id u))" "e \<in> set es" "v \<in> N" "nd_id v = (if inbound then ed_source e else ed_target e)" for es inbound e v
    using that by (auto simp: hop_fits_def edge_batches_def edges Let_def split: if_splits)
  let ?bind = "\<lambda>e v. bind_hop b (var_or (n_variable np) ''_n_t'') (r_variable rel) e v"
  have eq: "step_bindings env rel np b u =
      concat (map (batch_bindings env np b (var_or (n_variable np) ''_n_t'') (r_variable rel)) (edge_batches env rel (nd_id u)))"
    using fixed by (simp add: step_bindings_def)
  show ?thesis
  proof (intro set_eqI iffI)
    fix x assume "x \<in> set (step_bindings env rel np b u)"
    then obtain es inbound e v where "(es, inbound) \<in> set (edge_batches env rel (nd_id u))" "e \<in> set es" "accepts env np v" "x = ?bind e v"
      "node_by_id env (if inbound then ed_source e else ed_target e) = Some v"
      unfolding eq in_set_concat_map split_paired_Ex set_batch_bindings by blast
    then show "x \<in> {?bind e v | e v. hop_fits N E rel u e v \<and> accepts env np v}" using from_batch unfolding node by blast
  next
    fix x assume "x \<in> {?bind e v | e v. hop_fits N E rel u e v \<and> accepts env np v}"
    then obtain e v where v: "x = ?bind e v" "hop_fits N E rel u e v" "accepts env np v" by blast
    from batch [OF v(2)] obtain es inbound where es: "(es, inbound) \<in> set (edge_batches env rel (nd_id u))" "e \<in> set es"
      "node_by_id env (if inbound then ed_source e else ed_target e) = Some v" unfolding node by blast
    then have "x \<in> set (batch_bindings env np b (var_or (n_variable np) ''_n_t'') (r_variable rel) (es, inbound))"
      unfolding set_batch_bindings using v by blast
    then show "x \<in> set (step_bindings env rel np b u)" unfolding eq in_set_concat_map using es(1) by blast
  qed
qed

fun expand_all :: "'d cbm_env \<Rightarrow> (cbm_rel_pattern_t \<times> cbm_node_pattern_t) list \<Rightarrow> string \<Rightarrow> binding_t list \<Rightarrow> binding_t list" where
  "expand_all env [] var_name bs = bs"
| "expand_all env ((rel, np) # steps) var_name bs = expand_all env steps (var_or (n_variable np) ''_n_t'') (expand_step env var_name rel np bs)"

fun untruncated :: "'d cbm_env \<Rightarrow> nat \<Rightarrow> (cbm_rel_pattern_t \<times> cbm_node_pattern_t) list \<Rightarrow> string \<Rightarrow> binding_t list \<Rightarrow> bool" where
  \<comment> \<open>no step produces more bindings than its array has room for\<close>
  "untruncated env cap [] var_name bs = True"
| "untruncated env cap ((rel, np) # steps) var_name bs =
     (let bs' = expand_step env var_name rel np bs
      in length bs' \<le> cap * CYP_GROWTH_10 \<and> untruncated env cap steps (var_or (n_variable np) ''_n_t'') bs')"

lemma expand_pattern_rels_all:
  "untruncated env cap steps var_name bs \<Longrightarrow> expand_pattern_rels env cap False steps var_name bs = (expand_all env steps var_name bs, False)"
proof (induction steps arbitrary: var_name bs)
  case (Cons s steps)
  obtain rel np where "s = (rel, np)" by (cases s)
  then show ?case using Cons by (simp add: expand_pattern_rels_Cons Let_def)
qed simp

lemma expand_step_mono: "set bs \<subseteq> set bs' \<Longrightarrow> set (expand_step env var_name rel np bs) \<subseteq> set (expand_step env var_name rel np bs')"
  by (auto simp: expand_step_def)

lemma expand_all_mono: "set bs \<subseteq> set bs' \<Longrightarrow> set (expand_all env steps var_name bs) \<subseteq> set (expand_all env steps var_name bs')"
proof (induction steps arbitrary: var_name bs bs')
  case (Cons s steps)
  obtain rel np where "s = (rel, np)" by (cases s)
  then show ?case using Cons.IH [OF expand_step_mono [OF Cons.prems]] by simp
qed simp

lemma expand_pattern_rels_sub:
  "set (fst (expand_pattern_rels env cap False steps var_name bs)) \<subseteq> set (expand_all env steps var_name bs) \<and>
   \<not> snd (expand_pattern_rels env cap False steps var_name bs)"
proof (induction steps arbitrary: var_name bs)
  case (Cons s steps)
  obtain rel np where s: "s = (rel, np)" by (cases s)
  let ?to = "var_or (n_variable np) ''_n_t''" and ?bs = "take (cap * CYP_GROWTH_10) (expand_step env var_name rel np bs)"
  have "set (expand_all env steps ?to ?bs) \<subseteq> set (expand_all env steps ?to (expand_step env var_name rel np bs))"
    by (rule expand_all_mono [OF set_take_subset])
  then show ?case using Cons.IH [of ?to ?bs] by (auto simp: s expand_pattern_rels_Cons)
qed simp

lemma map_of_assoc_set:
  "length xs < room \<or> v \<in> fst ` set xs \<Longrightarrow> map_of (assoc_set room xs v x) = (map_of xs)(v \<mapsto> x)"
proof (induction xs arbitrary: room)
  case (Cons p xs)
  obtain w y where p: "p = (w, y)" by (cases p)
  show ?case
  proof (cases "w = v")
    case False
    then have "length xs < room - 1 \<or> v \<in> fst ` set xs" using Cons.prems by (auto simp: p)
    then have "map_of (assoc_set (room - 1) xs v x) = (map_of xs)(v \<mapsto> x)" by (rule Cons.IH)
    then show ?thesis using False by (auto simp: p fun_eq_iff)
  qed (auto simp: p fun_eq_iff)
qed simp

lemma length_assoc_set: "length (assoc_set room xs v x) \<le> Suc (length xs)"
  by (induction room xs v x rule: assoc_set.induct) auto

lemma bind_hop_sel [simp]:
  "b_vars (bind_hop b to_var rel_var e n) = assoc_set CYP_MAX_VARS (b_vars b) to_var n"
  "b_store (bind_hop b to_var rel_var e n) = b_store b"
  by (cases rel_var; simp add: bind_hop_def binding_set_def binding_set_edge_def)+

definition fixed_hops :: "(cbm_rel_pattern_t \<times> cbm_node_pattern_t) list \<Rightarrow> bool" where
  "fixed_hops steps \<longleftrightarrow> list_all (\<lambda>(rel, np). r_min_hops rel = 1 \<and> r_max_hops rel = 1) steps"

lemma set_case_option: "x \<in> set (case v of None \<Rightarrow> [] | Some s \<Rightarrow> f s) \<longleftrightarrow> (\<exists>s. v = Some s \<and> x \<in> set (f s))"
  by (cases v) auto

lemma set_expand_step:
  assumes "store_laws env N E" and "r_min_hops rel = 1" "r_max_hops rel = 1"
  shows "set (expand_step env var_name rel np bs) =
    {bind_hop b (var_or (n_variable np) ''_n_t'') (r_variable rel) e v | b u e v.
       b \<in> set bs \<and> binding_get b var_name = Some u \<and> hop_fits N E rel u e v \<and> accepts env np v}"
proof -
  have "x \<in> set (expand_step env var_name rel np bs) \<longleftrightarrow>
      (\<exists>b u. b \<in> set bs \<and> binding_get b var_name = Some u \<and> x \<in> set (step_bindings env rel np b u))" for x
    unfolding expand_step_def by (simp only: in_set_concat_map set_case_option) blast
  then show ?thesis unfolding step_bindings_walk [OF assms] by blast
qed

lemma set_expand_all:
  assumes "store_laws env N E"
  shows "fixed_hops steps \<Longrightarrow> \<forall>b \<in> set bs. length (b_vars b) + length steps \<le> CYP_MAX_VARS \<Longrightarrow>
    set (expand_all env steps var_name bs) =
      {bind_walk steps b w | b u w. b \<in> set bs \<and> binding_get b var_name = Some u \<and> walk env N E steps u w} \<union> (if steps = [] then set bs else {})"
proof (induction steps arbitrary: var_name bs)
  case Nil
  have "bind_walk [] b w = b" for b w by simp
  then show ?case by auto
next
  case (Cons s steps)
  obtain rel np where s: "s = (rel, np)" by (cases s)
  let ?to = "var_or (n_variable np) ''_n_t''"
  have hops: "r_min_hops rel = 1" "r_max_hops rel = 1" "fixed_hops steps" using Cons.prems(1) by (auto simp: s fixed_hops_def)
  note step = set_expand_step [OF assms hops(1,2), of var_name np bs]
  have room: "length (b_vars b) < CYP_MAX_VARS" if "b \<in> set bs" for b using Cons.prems(2) that by fastforce
  have get: "binding_get (bind_hop b ?to rv e v) ?to = Some v" if "b \<in> set bs" for b rv e v
    using map_of_assoc_set [of "b_vars b" CYP_MAX_VARS ?to v] room [OF that] by (simp add: binding_get_def)
  have "length (b_vars x) + length steps \<le> CYP_MAX_VARS" if "x \<in> set (expand_step env var_name rel np bs)" for x
  proof -
    obtain b rv e v where "b \<in> set bs" "x = bind_hop b ?to rv e v" using step \<open>x \<in> _\<close> by blast
    then show ?thesis using length_assoc_set [of CYP_MAX_VARS "b_vars b" ?to v] Cons.prems(2) by fastforce
  qed
  then have ih: "set (expand_all env (s # steps) var_name bs) =
      {bind_walk steps x w | x u w. x \<in> set (expand_step env var_name rel np bs) \<and> binding_get x ?to = Some u \<and> walk env N E steps u w} \<union>
      (if steps = [] then set (expand_step env var_name rel np bs) else {})"
    using Cons.IH [OF hops(3)] by (simp add: s)
  have nil: "x \<in> {bind_walk steps x w | x u w. x \<in> set (expand_step env var_name rel np bs) \<and> binding_get x ?to = Some u \<and> walk env N E steps u w}"
    if "steps = []" and x: "x \<in> set (expand_step env var_name rel np bs)" for x
  proof -
    obtain b rv e v where "b \<in> set bs" "x = bind_hop b ?to rv e v" using step x by blast
    then have "binding_get x ?to = Some v" using get by simp
    then show ?thesis using x that(1) by (intro CollectI exI [of _ x] exI [of _ v] exI [of _ "[]"]) simp
  qed
  have one: "(\<exists>x u w. x \<in> set (expand_step env var_name rel np bs) \<and> binding_get x ?to = Some u \<and> walk env N E steps u w \<and> y = bind_walk steps x w) \<longleftrightarrow>
      (\<exists>b u e v w. b \<in> set bs \<and> binding_get b var_name = Some u \<and> hop_fits N E rel u e v \<and> accepts env np v \<and> walk env N E steps v w \<and>
         y = bind_walk steps (bind_hop b ?to (r_variable rel) e v) w)" for y
    unfolding step using get by fastforce
  have two: "(\<exists>b u w. b \<in> set bs \<and> binding_get b var_name = Some u \<and> walk env N E (s # steps) u w \<and> y = bind_walk (s # steps) b w) \<longleftrightarrow>
      (\<exists>b u e v w. b \<in> set bs \<and> binding_get b var_name = Some u \<and> hop_fits N E rel u e v \<and> accepts env np v \<and> walk env N E steps v w \<and>
         y = bind_walk steps (bind_hop b ?to (r_variable rel) e v) w)" for y
  proof -
    have "walk env N E (s # steps) u w \<longleftrightarrow> (\<exists>e v w'. w = (e, v) # w' \<and> hop_fits N E rel u e v \<and> accepts env np v \<and> walk env N E steps v w')" for u w
      by (cases w) (auto simp: s)
    moreover have "bind_walk (s # steps) b ((e, v) # w) = bind_walk steps (bind_hop b ?to (r_variable rel) e v) w" for b e v w by (simp add: s)
    ultimately show ?thesis by metis
  qed
  have "y \<in> set (expand_all env (s # steps) var_name bs) \<longleftrightarrow>
      (\<exists>b u w. b \<in> set bs \<and> binding_get b var_name = Some u \<and> walk env N E (s # steps) u w \<and> y = bind_walk (s # steps) b w)" for y
    unfolding two one [symmetric] ih using nil by auto
  then show ?case by (intro set_eqI) (simp, blast)
qed

section \<open>The early WHERE\<close>

fun only_var :: "string \<Rightarrow> cbm_expr_t \<Rightarrow> bool" where
  "only_var v (EXPR_CONDITION c) \<longleftrightarrow> str_of (c_variable c) = v"
| "only_var v (EXPR_AND l r) \<longleftrightarrow> only_var v l \<and> only_var v r"
| "only_var v (EXPR_OR l r) \<longleftrightarrow> only_var v l \<and> only_var v r"
| "only_var v (EXPR_NOT l) \<longleftrightarrow> only_var v l"
| "only_var v (EXPR_XOR l r) \<longleftrightarrow> only_var v l \<and> only_var v r"

fun early_safe :: "string \<Rightarrow> cbm_expr_t \<Rightarrow> bool" where
  \<comment> \<open>an expression that the test on the first variable alone does not refuse too early\<close>
  "early_safe v (EXPR_CONDITION c) \<longleftrightarrow> str_of (c_variable c) = v \<or> str_of (c_op c) \<notin> {''HAS_LABEL'', ''EXISTS''}"
| "early_safe v (EXPR_AND l r) \<longleftrightarrow> early_safe v l \<and> early_safe v r"
| "early_safe v (EXPR_OR l r) \<longleftrightarrow> early_safe v l \<and> early_safe v r"
| "early_safe v (EXPR_NOT l) \<longleftrightarrow> only_var v l"
| "early_safe v (EXPR_XOR l r) \<longleftrightarrow> only_var v l \<and> only_var v r"

definition where_safe :: "string \<Rightarrow> cbm_where_clause_t option \<Rightarrow> bool" where
  "where_safe v w \<longleftrightarrow> (case w of None \<Rightarrow> True | Some w \<Rightarrow> (case w_root w of None \<Rightarrow> True | Some e \<Rightarrow> early_safe v e))"

definition first_binding :: "string \<Rightarrow> cbm_node_t \<Rightarrow> binding_t" where
  "first_binding v u = binding_set (zero_binding\<lparr>b_store := True\<rparr>) v u"

lemma first_binding_sel [simp]: "b_vars (first_binding v u) = [(v, u)]" "b_edges (first_binding v u) = []" "b_store (first_binding v u)"
  by (simp_all add: first_binding_def binding_set_def zero_binding_def CYP_MAX_VARS_def)

definition extends :: "binding_t \<Rightarrow> string \<Rightarrow> cbm_node_t \<Rightarrow> bool" where
  \<comment> \<open>the binding still gives the first variable its node\<close>
  "extends b v u \<longleftrightarrow> map_of (b_vars b) v = Some u \<and> map_of (b_edges b) v = None \<and> b_store b"

lemma eval_condition_first:
  assumes "extends b v u" and "str_of (c_variable c) = v"
  shows "eval_condition env c (first_binding v u) = eval_condition env c b"
proof -
  have same: "binding_get (first_binding v u) v = binding_get b v" "binding_get_edge (first_binding v u) v = binding_get_edge b v"
    "b_store (first_binding v u) = b_store b"
    using assms(1) by (simp_all add: extends_def binding_get_def binding_get_edge_def)
  then have "resolve_condition_value env c (first_binding v u) = resolve_condition_value env c b"
    by (simp only: resolve_condition_value_def assms(2))
  then show ?thesis by (simp only: eval_condition_def assms(2) same)
qed

lemma eval_only_var: "extends b v u \<Longrightarrow> only_var v e \<Longrightarrow> eval_expr env e (first_binding v u) = eval_expr env e b"
  by (induction e) (auto simp: eval_condition_first)

lemma eval_unbound:
  "str_of (c_variable c) \<noteq> v \<Longrightarrow> str_of (c_op c) \<notin> {''HAS_LABEL'', ''EXISTS''} \<Longrightarrow> eval_condition env c (first_binding v u)"
  by (simp add: eval_condition_def resolve_condition_value_def binding_get_def binding_get_edge_def Let_def)

lemma early_expr: "extends b v u \<Longrightarrow> early_safe v e \<Longrightarrow> eval_expr env e b \<Longrightarrow> eval_expr env e (first_binding v u)"
proof (induction e)
  case (EXPR_CONDITION c)
  then show ?case using eval_unbound [of c v] eval_condition_first [OF EXPR_CONDITION.prems(1)] by (cases "str_of (c_variable c) = v") auto
qed (auto simp: eval_only_var)

lemma early_where: "extends b v u \<Longrightarrow> where_safe v w \<Longrightarrow> eval_where env w b \<Longrightarrow> eval_where env w (first_binding v u)"
  by (auto simp: where_safe_def eval_where_def early_expr split: option.splits)

lemma map_of_assoc_set_other: "v \<noteq> w \<Longrightarrow> map_of (assoc_set room xs v x) w = map_of xs w"
  by (induction room xs v x rule: assoc_set.induct) auto

lemma extends_hop: "extends b v u \<Longrightarrow> to_var \<noteq> v \<Longrightarrow> rel_var \<noteq> Some v \<Longrightarrow> extends (bind_hop b to_var rel_var e n) v u"
  by (cases rel_var) (auto simp: extends_def bind_hop_def binding_set_def binding_set_edge_def map_of_assoc_set_other)

lemma extends_walk:
  "extends b v u \<Longrightarrow> \<forall>(rel, np) \<in> set steps. var_or (n_variable np) ''_n_t'' \<noteq> v \<and> r_variable rel \<noteq> Some v \<Longrightarrow> extends (bind_walk steps b w) v u"
proof (induction steps b w rule: bind_walk.induct)
  case (1 rel np steps b e n w)
  then show ?case using extends_hop by simp
qed auto

definition start_nodes :: "'d cbm_env \<Rightarrow> cbm_node_t set \<Rightarrow> cstr \<Rightarrow> cbm_node_pattern_t \<Rightarrow> cbm_node_t set" where
  \<comment> \<open>the nodes of a project that fit the first node of a pattern\<close>
  "start_nodes env N project np =
     {u \<in> N. nd_project u = project \<and> nd_label u = n_label np \<and> check_inline_props env u (n_props np)}"

definition pattern_walks :: "'d cbm_env \<Rightarrow> cbm_node_t set \<Rightarrow> cbm_edge_t set \<Rightarrow> cstr \<Rightarrow> cbm_pattern_t \<Rightarrow> cbm_where_clause_t option \<Rightarrow> binding_t set" where
  \<comment> \<open>what a pattern means: its walks, as bindings, that satisfy the condition\<close>
  "pattern_walks env N E project pat w =
     {b. \<exists>u p. b = bind_walk (pattern_steps pat) (first_binding (start_var pat) u) p \<and> u \<in> start_nodes env N project (hd (pat_nodes pat)) \<and>
        walk env N E (pattern_steps pat) u p \<and> eval_where env w b}"

definition simple_pattern :: "cbm_pattern_t \<Rightarrow> bool" where
  \<comment> \<open>one label on the first node, single hops, and a first variable that is not bound again\<close>
  "simple_pattern pat \<longleftrightarrow> (\<exists>l. n_label (hd (pat_nodes pat)) = Some l \<and> strchr l CHR ''|'' = None) \<and> fixed_hops (pattern_steps pat) \<and>
     length (pattern_steps pat) < CYP_MAX_VARS \<and>
     (\<forall>(rel, np) \<in> set (pattern_steps pat). var_or (n_variable np) ''_n_t'' \<noteq> start_var pat \<and> r_variable rel \<noteq> Some (start_var pat))"

lemma set_scan:
  assumes "store_laws env N E" and "simple_pattern pat"
  shows "set (scan_pattern_nodes env project max_rows (hd (pat_nodes pat))) = start_nodes env N project (hd (pat_nodes pat))"
proof -
  obtain l where l: "n_label (hd (pat_nodes pat)) = Some l" "strchr l CHR ''|'' = None" using assms(2) by (auto simp: simple_pattern_def)
  have "set (nodes_by_label env project l) = {n \<in> N. nd_project n = project \<and> nd_label n = Some l}" using assms(1) by (simp add: store_laws_def)
  then show ?thesis using l by (auto simp: scan_pattern_nodes_def start_nodes_def check_inline_props_def)
qed

text \<open>
  C21. Matching. For a pattern of single hops whose first node has one label and whose first variable is not bound
  twice, every binding that a query with this one pattern produces is a walk of the stored graph that fits the pattern's labels,
  properties, types and directions and satisfies the \<open>WHERE\<close> clause. When no array of bindings was full and the
  clause is one that the early test on the first variable does not spoil, all such walks are produced.
  No write leaves an array.
\<close>

theorem match_finds_walks:
  assumes laws: "store_laws env N E" and q: "q_patterns q = [pat]" "q_pattern_optional q = [False]" and pat: "simple_pattern pat"
  shows "let found = match_bindings env q project max_rows;
             scanned = scan_pattern_nodes env project max_rows (hd (pat_nodes pat))
    in \<not> snd found \<and> set (fst found) \<subseteq> pattern_walks env N E project pat (q_where q) \<and>
      (untruncated env (max 1 (length scanned)) (pattern_steps pat) (start_var pat) (initial_bindings env q scanned) \<and>
       where_safe (start_var pat) (q_where q) \<longrightarrow> set (fst found) = pattern_walks env N E project pat (q_where q))"
proof -
  define steps v w where "steps = pattern_steps pat" and "v = start_var pat" and "w = q_where q"
  define scanned where "scanned = scan_pattern_nodes env project max_rows (hd (pat_nodes pat))"
  define cap where "cap = max 1 (length scanned)"
  define ib where "ib = initial_bindings env q scanned"
  define S where "S = start_nodes env N project (hd (pat_nodes pat))"
  have cap: "cap = (if length scanned > 0 then length scanned else 1)" by (cases scanned) (simp_all add: cap_def)
  have ib: "set ib = {first_binding v u | u. u \<in> S \<and> eval_where env w (first_binding v u)}"
    using set_scan [OF laws pat, of project max_rows] q(1)
    by (auto simp: ib_def initial_bindings_def scanned_def S_def v_def w_def first_binding_def)
  have found: "match_bindings env q project max_rows =
      (if w \<noteq> None \<and> pat_rels pat \<noteq> [] then filter (eval_where env w) (fst (expand_pattern_rels env cap False steps v ib))
       else fst (expand_pattern_rels env cap False steps v ib), snd (expand_pattern_rels env cap False steps v ib))"
    by (simp add: match_bindings_def q Let_def split_def filter_bindings_where_def cap steps_def [symmetric] v_def [symmetric]
        w_def [symmetric] scanned_def [symmetric] ib_def [symmetric])
  have all: "set (expand_all env steps v ib) = {bind_walk steps (first_binding v u) p | u p. u \<in> S \<and> eval_where env w (first_binding v u) \<and> walk env N E steps u p}"
  proof -
    have "\<forall>b \<in> set ib. length (b_vars b) + length steps \<le> CYP_MAX_VARS" using pat ib by (auto simp: simple_pattern_def steps_def)
    moreover have "fixed_hops steps" using pat by (simp add: simple_pattern_def steps_def)
    ultimately have "set (expand_all env steps v ib) = {bind_walk steps b p | b u p. b \<in> set ib \<and> binding_get b v = Some u \<and> walk env N E steps u p} \<union>
        (if steps = [] then set ib else {})" using set_expand_all [OF laws] by blast
    moreover have "binding_get (first_binding v u) v = Some u" for u by (simp add: binding_get_def)
    moreover have "walk env N E [] u p \<longleftrightarrow> p = []" for u p by (cases p) auto
    ultimately show ?thesis unfolding ib by (cases "steps = []") (auto, blast+)
  qed
  have ext: "extends (bind_walk steps (first_binding v u) p) v u" for u p
    using pat by (intro extends_walk) (auto simp: extends_def simple_pattern_def steps_def v_def)
  have walks: "pattern_walks env N E project pat w = {b. \<exists>u p. b = bind_walk steps (first_binding v u) p \<and> u \<in> S \<and> walk env N E steps u p \<and> eval_where env w b}"
    by (simp add: pattern_walks_def steps_def v_def S_def)
  have last: "eval_where env w b" if "b \<in> set (fst (match_bindings env q project max_rows))" "b \<in> set (expand_all env steps v ib)" for b
  proof (cases "w \<noteq> None \<and> pat_rels pat \<noteq> []")
    case False
    then show ?thesis using that(2) unfolding all by (cases w) (auto simp: steps_def pattern_steps_def eval_where_def)
  qed (use that found in auto)
  have sub: "set (fst (match_bindings env q project max_rows)) \<subseteq> set (expand_all env steps v ib)" "\<not> snd (match_bindings env q project max_rows)"
    using expand_pattern_rels_sub [of env cap steps v ib] unfolding found by (auto split: if_splits)
  have sound: "set (fst (match_bindings env q project max_rows)) \<subseteq> pattern_walks env N E project pat w"
    using sub(1) last unfolding walks all by blast
  have complete: "b \<in> set (fst (match_bindings env q project max_rows))"
    if b: "b \<in> pattern_walks env N E project pat w" and full: "untruncated env cap steps v ib" "where_safe v w" for b
  proof -
    obtain u p where u: "b = bind_walk steps (first_binding v u) p" "u \<in> S" "walk env N E steps u p" "eval_where env w b" using b unfolding walks by blast
    then have "b \<in> set (expand_all env steps v ib)" unfolding all using early_where [OF ext full(2)] by blast
    then show ?thesis using u(4) unfolding found expand_pattern_rels_all [OF full(1)] by simp
  qed
  show ?thesis using sub(2) sound complete
    by (auto simp: Let_def w_def [symmetric] steps_def [symmetric] v_def [symmetric] scanned_def [symmetric] cap_def ib_def [symmetric])
qed

lemma list_env_laws:
  assumes "distinct (map nd_id ns)"
  shows "store_laws (list_env ns es) (set ns) (set es)"
proof -
  have "find (\<lambda>n. nd_id n = i) ns = Some n \<longleftrightarrow> n \<in> set ns \<and> nd_id n = i" for i n
    using assms by (induction ns) auto
  then show ?thesis by (auto simp: store_laws_def list_env_def)
qed

definition demo_edge :: "int \<Rightarrow> int \<Rightarrow> cbm_edge_t" where
  "demo_edge s t = \<lparr>ed_id = 1, ed_project = None, ed_source = s, ed_target = t, ed_type = Some ''CALLS'', ed_props = None\<rparr>"

definition demo_calls :: cbm_pattern_t where
  \<comment> \<open>\<open>(a:F)-[:CALLS]->(b)\<close>\<close>
  "demo_calls = \<lparr>pat_nodes = [\<lparr>n_variable = Some ''a'', n_label = Some ''F'', n_props = []\<rparr>, \<lparr>n_variable = Some ''b'', n_label = None, n_props = []\<rparr>],
     pat_rels = [\<lparr>r_variable = None, r_types = [''CALLS''], r_direction = Some ''outbound'', r_min_hops = 1, r_max_hops = 1\<rparr>]\<rparr>"

abbreviation demo_env :: "int cbm_env" where
  "demo_env \<equiv> list_env [demo_node 1 ''F'' ''f'', demo_node 2 ''G'' ''g''] [demo_edge 1 2]"

definition demo_match :: "cbm_where_clause_t option \<Rightarrow> cbm_query_t" where
  "demo_match w = cbm_query [demo_calls] [False] w None None (Some (demo_return ''b'')) None False None None"

lemma demo_laws: "store_laws demo_env {demo_node 1 ''F'' ''f'', demo_node 2 ''G'' ''g''} {demo_edge 1 2}"
  using list_env_laws [of "[demo_node 1 ''F'' ''f'', demo_node 2 ''G'' ''g'']" "[demo_edge 1 2]"] by (simp add: demo_node_def zero_node_def)

lemma demo_simple: "simple_pattern demo_calls"
  by (simp add: simple_pattern_def demo_calls_def pattern_steps_def fixed_hops_def start_var_def var_or_def CYP_MAX_VARS_def)

theorem match_finds_walks_witness:
  "set (fst (match_bindings demo_env (demo_match None) None 10)) =
     pattern_walks demo_env {demo_node 1 ''F'' ''f'', demo_node 2 ''G'' ''g''} {demo_edge 1 2} None demo_calls None"
proof -
  let ?scan = "scan_pattern_nodes demo_env None 10 (hd (pat_nodes demo_calls))"
  have scan: "?scan = [demo_node 1 ''F'' ''f'']" by (simp add: scan_pattern_nodes_def demo_calls_def demo_defs)
  have "initial_bindings demo_env (demo_match None) [demo_node 1 ''F'' ''f''] = [first_binding ''a'' (demo_node 1 ''F'' ''f'')]"
    by (simp add: initial_bindings_def demo_match_def eval_where_def first_binding_def start_var_def demo_calls_def var_or_def)
  moreover have "length (expand_step demo_env ''a'' (hd (pat_rels demo_calls)) (pat_nodes demo_calls ! 1) [first_binding ''a'' (demo_node 1 ''F'' ''f'')]) = 1"
    by (simp add: expand_step_def binding_get_def step_bindings_def edge_batches_def demo_calls_def demo_defs demo_edge_def batch_bindings_Cons
        batch_bindings_def [of _ _ _ _ _ "([], _)"] map_filter_simps target_def accepts_def label_alt_matches_def check_inline_props_def)
  ultimately have "untruncated demo_env (max 1 (length ?scan)) (pattern_steps demo_calls) (start_var demo_calls)
      (initial_bindings demo_env (demo_match None) ?scan)"
    unfolding scan by (simp add: demo_calls_def pattern_steps_def start_var_def var_or_def CYP_GROWTH_10_def Let_def)
  then show ?thesis
    using match_finds_walks [OF demo_laws, of "demo_match None" demo_calls None 10] demo_simple
    by (simp add: demo_match_def where_safe_def Let_def)
qed

section \<open>What the early WHERE loses\<close>

lemma expand_bindings_Nil: "expand_pattern_rels env cap opt steps v [] = ([], False)"
proof (induction steps arbitrary: v)
  case (Cons s steps)
  obtain rel np where "s = (rel, np)" by (cases s)
  then show ?case by (simp add: Cons.IH expand_pattern_rels.simps(2) Let_def)
qed simp

lemma expand_additional_Nil: "fst (expand_additional_patterns env project max_rows cap pats []) = []"
  by (induction pats) (auto simp: cross_join_nodes_def cross_join_with_rels_def Let_def split: prod.splits)

text \<open>
  C36. The early test spoils some conditions. A query whose \<open>WHERE\<close> clause is the negation of a comparison on a
  variable other than the first one, or a label test or an \<open>EXISTS\<close> on such a variable, matches nothing, whatever is in
  the store: the clause is tested before that variable is bound, when a comparison counts as true and the other
  two as false.
\<close>

theorem where_on_later_variable_matches_nothing:
  assumes "q_where q = Some \<lparr>w_root = Some e\<rparr>" and "str_of (c_variable c) \<noteq> start_var (hd (q_patterns q))"
    and "e = EXPR_NOT (EXPR_CONDITION c) \<and> str_of (c_op c) \<notin> {''HAS_LABEL'', ''EXISTS''} \<or>
         e = EXPR_CONDITION c \<and> str_of (c_op c) \<in> {''HAS_LABEL'', ''EXISTS''} \<and> \<not> c_negated c"
  shows "fst (match_bindings env q project max_rows) = []"
proof -
  let ?v = "start_var (hd (q_patterns q))"
  have "\<not> eval_where env (q_where q) (first_binding ?v u)" for u
    using assms(3)
  proof
    assume "e = EXPR_NOT (EXPR_CONDITION c) \<and> str_of (c_op c) \<notin> {''HAS_LABEL'', ''EXISTS''}"
    then show ?thesis using eval_unbound [OF assms(2)] by (simp add: assms(1) eval_where_def)
  next
    assume "e = EXPR_CONDITION c \<and> str_of (c_op c) \<in> {''HAS_LABEL'', ''EXISTS''} \<and> \<not> c_negated c"
    then show ?thesis using assms(2) by (auto simp: assms(1) eval_where_def eval_condition_def binding_get_def negate_def Let_def)
  qed
  then have "initial_bindings env q scanned = []" for scanned by (simp add: initial_bindings_def first_binding_def [symmetric])
  then show ?thesis
    by (simp add: match_bindings_def Let_def split_def expand_bindings_Nil expand_additional_Nil filter_bindings_where_def)
qed

definition demo_label_test :: cbm_condition_t where
  \<comment> \<open>\<open>b:G\<close>\<close>
  "demo_label_test = \<lparr>c_variable = Some ''b'', c_property = None, c_op = Some ''HAS_LABEL'', c_value = Some ''G'', c_negated = False,
     c_in_values = [], c_exists_dir = 0\<rparr>"

theorem where_on_later_variable_matches_nothing_witness:
  "let w = Some \<lparr>w_root = Some (EXPR_CONDITION demo_label_test)\<rparr>; n1 = demo_node 1 ''F'' ''f''; n2 = demo_node 2 ''G'' ''g'' in
     fst (match_bindings demo_env (demo_match w) None 10) = [] \<and> pattern_walks demo_env {n1, n2} {demo_edge 1 2} None demo_calls w \<noteq> {}"
proof -
  let ?w = "Some \<lparr>w_root = Some (EXPR_CONDITION demo_label_test)\<rparr>" and ?n1 = "demo_node 1 ''F'' ''f''" and ?n2 = "demo_node 2 ''G'' ''g''"
  let ?p = "[(demo_edge 1 2, ?n2)]"
  have empty: "fst (match_bindings demo_env (demo_match ?w) None 10) = []"
    by (rule where_on_later_variable_matches_nothing [where c = demo_label_test and e = "EXPR_CONDITION demo_label_test"])
      (simp_all add: demo_match_def demo_label_test_def str_of_def start_var_def demo_calls_def var_or_def)
  have "?n1 \<in> start_nodes demo_env {?n1, ?n2} None (hd (pat_nodes demo_calls))"
    by (simp add: start_nodes_def demo_calls_def demo_node_def zero_node_def check_inline_props_def)
  moreover have "walk demo_env {?n1, ?n2} {demo_edge 1 2} (pattern_steps demo_calls) ?n1 ?p"
    by (simp add: pattern_steps_def demo_calls_def hop_fits_def demo_edge_def demo_node_def zero_node_def accepts_def label_alt_matches_def check_inline_props_def)
  moreover have "eval_where demo_env ?w (bind_walk (pattern_steps demo_calls) (first_binding (start_var demo_calls) ?n1) ?p)"
    by (simp add: pattern_steps_def demo_calls_def start_var_def var_or_def bind_hop_def binding_set_def CYP_MAX_VARS_def eval_where_def
        eval_condition_def demo_label_test_def str_of_def binding_get_def negate_def demo_node_def zero_node_def)
  ultimately have "pattern_walks demo_env {?n1, ?n2} {demo_edge 1 2} None demo_calls ?w \<noteq> {}" unfolding pattern_walks_def by blast
  then show ?thesis using empty by (simp add: Let_def)
qed

end
