(* ===== verification/CypherGroups.thy ===== *)
theory CypherGroups
  imports CypherRows
begin

text \<open>
  Aggregation in \<open>RETURN\<close>: the groups are the different tuples of the plain items, and the counts of a group are
  the numbers of bindings, and of different values, that belong to it.
\<close>

section \<open>Group keys\<close>

lemma bars_inject:
  "\<lbrakk>\<forall>v \<in> set vs. CHR ''|'' \<notin> set v; \<forall>w \<in> set ws. CHR ''|'' \<notin> set w; concat (map (\<lambda>v. v @ ''|'') vs) = concat (map (\<lambda>v. v @ ''|'') ws)\<rbrakk>
    \<Longrightarrow> vs = ws"
proof (induction vs arbitrary: ws)
  case Nil
  then show ?case by (cases ws) auto
next
  case (Cons v vs)
  then obtain w ws' where ws: "ws = w # ws'" by (cases ws) auto
  have "v @ CHR ''|'' # concat (map (\<lambda>v. v @ ''|'') vs) = w @ CHR ''|'' # concat (map (\<lambda>v. v @ ''|'') ws')"
    using Cons.prems(3) ws by simp
  moreover have "CHR ''|'' \<notin> set v" "CHR ''|'' \<notin> set w" using Cons.prems ws by auto
  ultimately have vw: "v = w" "concat (map (\<lambda>v. v @ ''|'') vs) = concat (map (\<lambda>v. v @ ''|'') ws')"
    using split_at_char [of v "CHR ''|''"] by blast+
  have "vs = ws'" by (rule Cons.IH [OF _ _ vw(2)]) (use Cons.prems(1,2) ws in simp_all)
  then show ?case by (simp add: ws vw(1))
qed

definition separable :: "string list \<Rightarrow> bool" where
  \<comment> \<open>values whose key shows where each of them ends\<close>
  "separable vs \<longleftrightarrow> (\<forall>v \<in> set vs. CHR ''|'' \<notin> set v) \<and> length (concat (map (\<lambda>v. v @ ''|'') vs)) < CBM_SZ_1K"

lemma join_key_inject: "separable vs \<Longrightarrow> separable ws \<Longrightarrow> join_key vs = join_key ws \<longleftrightarrow> vs = ws"
  using bars_inject by (auto simp: separable_def join_key_def snprintf_into_def)

section \<open>Groups\<close>

lemma agg_update_found:
  "distinct (map ag_key es) \<Longrightarrow> key \<in> ag_key ` set es \<Longrightarrow>
     agg_update key new upd es = map (\<lambda>e. if ag_key e = key then upd e else e) es"
proof (induction es)
  case (Cons e es)
  have "ag_key x \<noteq> ag_key e" if "x \<in> set es" for x using Cons.prems(1) that by (auto simp: image_iff)
  then have "map (\<lambda>e. if ag_key e = key then upd e else e) es = es" if "ag_key e = key"
    using that by (intro map_idI) simp
  then show ?case using Cons by auto
qed simp

lemma agg_update_new: "key \<notin> ag_key ` set es \<Longrightarrow> agg_update key new upd es = es @ [upd new]"
  by (induction es) auto

definition cell_of :: "'d cbm_env \<Rightarrow> binding_t list \<Rightarrow> cbm_return_item_t \<Rightarrow> 'd agg_cell" where
  "cell_of env bs item = foldl (\<lambda>cell b. ret_cell env b item cell) (zero_cell env) bs"

definition groups_ok :: "'d cbm_env \<Rightarrow> cbm_return_item_t list \<Rightarrow> binding_t list \<Rightarrow> 'd agg_entry list \<Rightarrow> bool" where
  "groups_ok env items bs gs \<longleftrightarrow> distinct (map ag_key gs) \<and> ag_key ` set gs = ret_agg_build_key env items ` set bs \<and>
     (\<forall>g \<in> set gs. (\<exists>b \<in> set bs. ret_agg_build_key env items b = ag_key g \<and> ag_vals g = ret_agg_vals env items b) \<and>
        ag_cells g = map (cell_of env (filter (\<lambda>b. ret_agg_build_key env items b = ag_key g) bs)) items)"

lemma groups_okD:
  assumes "groups_ok env items bs gs"
  shows "distinct (map ag_key gs)" "ag_key ` set gs = ret_agg_build_key env items ` set bs"
    "g \<in> set gs \<Longrightarrow> \<exists>b \<in> set bs. ret_agg_build_key env items b = ag_key g \<and> ag_vals g = ret_agg_vals env items b"
    "g \<in> set gs \<Longrightarrow> ag_cells g = map (cell_of env (filter (\<lambda>b. ret_agg_build_key env items b = ag_key g) bs)) items"
  using assms by (simp_all only: groups_ok_def)

lemma map2_map: "map2 f xs (map g xs) = map (\<lambda>x. f x (g x)) xs"
  by (induction xs) auto

lemma accumulate_sel [simp]: "ag_key (ret_agg_accumulate env items b g) = ag_key g" "ag_vals (ret_agg_accumulate env items b g) = ag_vals g"
  by (simp_all add: ret_agg_accumulate_def)

lemma accumulate_cells:
  "ag_cells g = map (cell_of env bs) items \<Longrightarrow> ag_cells (ret_agg_accumulate env items b g) = map (cell_of env (bs @ [b])) items"
  by (simp add: ret_agg_accumulate_def map2_map cell_of_def)

lemma groups_step:
  assumes ok: "groups_ok env items bs gs" and key: "key = ret_agg_build_key env items b"
  shows "groups_ok env items (bs @ [b])
    (agg_update key (ret_agg_init_group env key (ret_agg_vals env items b)) (ret_agg_accumulate env items b) gs)"
proof (cases "key \<in> ag_key ` set gs")
  case True
  define u where "u = (\<lambda>e. if ag_key e = key then ret_agg_accumulate env items b e else e)"
  have upd: "agg_update key (ret_agg_init_group env key (ret_agg_vals env items b)) (ret_agg_accumulate env items b) gs = map u gs"
    unfolding u_def by (rule agg_update_found [OF groups_okD(1) [OF ok] True])
  have sel: "ag_key (u g) = ag_key g" "ag_vals (u g) = ag_vals g" for g by (simp_all add: u_def)
  have cells: "ag_cells (u g) = map (cell_of env (filter (\<lambda>b. ret_agg_build_key env items b = ag_key g) (bs @ [b]))) items"
    if "g \<in> set gs" for g
    using accumulate_cells [OF groups_okD(4) [OF ok that], of b] groups_okD(4) [OF ok that] key by (simp add: u_def)
  have "\<exists>b' \<in> set (bs @ [b]). ret_agg_build_key env items b' = ag_key g \<and> ag_vals g = ret_agg_vals env items b'" if "g \<in> set gs" for g
    using groups_okD(3) [OF ok that] by auto
  moreover have "distinct (map ag_key (map u gs))" using groups_okD(1) [OF ok] by (simp add: comp_def sel)
  moreover have "ag_key ` set (map u gs) = ret_agg_build_key env items ` set (bs @ [b])"
    using groups_okD(2) [OF ok] True key by (simp add: image_image sel insert_absorb)
  ultimately show ?thesis unfolding upd groups_ok_def by (simp add: sel cells del: filter_append)
next
  case False
  let ?g = "ret_agg_accumulate env items b (ret_agg_init_group env key (ret_agg_vals env items b))"
  have upd: "agg_update key (ret_agg_init_group env key (ret_agg_vals env items b)) (ret_agg_accumulate env items b) gs = gs @ [?g]"
    by (rule agg_update_new [OF False])
  have g: "ag_key ?g = key" "ag_vals ?g = ret_agg_vals env items b" by (simp_all add: ret_agg_init_group_def)
  have "ag_cells (ret_agg_init_group env key (ret_agg_vals env items b)) = map (cell_of env []) items"
    by (simp add: ret_agg_init_group_def ret_agg_vals_def cell_of_def)
  then have "ag_cells ?g = map (cell_of env [b]) items" using accumulate_cells [of _ env "[]" items b] by fastforce
  moreover have "filter (\<lambda>b. ret_agg_build_key env items b = key) bs = []"
    using ok False by (auto simp: groups_ok_def filter_empty_conv)
  moreover have "ag_key h \<noteq> key" if "h \<in> set gs" for h using False that by auto
  ultimately show ?thesis using ok False key g unfolding upd by (auto simp: groups_ok_def)
qed

lemma groups_ok_all: "groups_ok env items bs (ret_agg_groups env items bs)"
proof (induction bs rule: rev_induct)
  case Nil
  then show ?case by (simp add: ret_agg_groups_def groups_ok_def)
next
  case (snoc b bs)
  then show ?case using groups_step [OF snoc refl, of b] by (simp add: ret_agg_groups_def Let_def)
qed

section \<open>Counts\<close>

lemma cell_of_snoc: "cell_of env (bs @ [b]) item = ret_cell env b item (cell_of env bs item)"
  by (simp add: cell_of_def)

lemma cell_count: "ri_func item \<noteq> None \<Longrightarrow> ac_count (cell_of env bs item) = length bs"
proof (induction bs rule: rev_induct)
  case Nil
  then show ?case by (simp add: cell_of_def zero_cell_def)
next
  case (snoc b bs)
  then show ?case by (auto simp: cell_of_snoc ret_cell_def add_value_def Let_def)
qed

lemma cell_list:
  "counts_distinct item \<Longrightarrow> set (ac_list (cell_of env bs item)) = (\<lambda>b. item_raw env b item) ` set bs \<and> distinct (ac_list (cell_of env bs item))"
proof (induction bs rule: rev_induct)
  case Nil
  then show ?case by (simp add: cell_of_def zero_cell_def)
next
  case (snoc b bs)
  then show ?case
    by (auto simp: cell_of_snoc ret_cell_def add_value_def Let_def distinct_list_add_def counts_distinct_def list_ex_iff)
qed

lemma add_rows_rows:
  "rb_rows (foldl (\<lambda>rb x. rb_add_row rb (f x)) rb xs) = rb_rows rb @ map (\<lambda>x. take (length (rb_columns rb)) (f x)) xs"
  by (induction xs arbitrary: rb) (simp_all add: rb_add_row_def)

definition plain :: "cbm_return_item_t list \<Rightarrow> cbm_return_item_t list" where
  "plain items = filter (\<lambda>i. ri_func i = None) items"

fun plain_cols :: "cbm_return_item_t list \<Rightarrow> string list \<Rightarrow> string list" where
  \<comment> \<open>the columns of the items that are not functions\<close>
  "plain_cols (i # items) (v # row) = (if ri_func i = None then v # plain_cols items row else plain_cols items row)"
| "plain_cols _ _ = []"

lemma plain_cols_vals: "plain_cols items (ret_agg_vals env items b) = ret_agg_vals env (plain items) b"
  by (induction items) (auto simp: ret_agg_vals_def plain_def)

lemma plain_cols_row:
  "length vs = length items \<Longrightarrow> length cs = length items \<Longrightarrow>
     plain_cols items (map (\<lambda>(item, val, cell). case ri_func item of None \<Rightarrow> val | Some func \<Rightarrow> f item func cell)
       (zip items (zip vs cs))) = plain_cols items vs"
proof (induction items arbitrary: vs cs)
  case (Cons i items)
  then show ?case by (cases vs; cases cs) (auto split: option.splits)
qed simp

definition agg_rows :: "'d cbm_env \<Rightarrow> cbm_return_clause_t \<Rightarrow> binding_t list \<Rightarrow> string list list" where
  "agg_rows env ret bs = rb_rows (execute_return_agg env ret bs (build_return_columns rb_init ret))"

lemma group_lengths:
  assumes "g \<in> set (ret_agg_groups env items bs)"
  shows "length (ag_vals g) = length items" "length (ag_cells g) = length items"
  using groups_okD(3,4) [OF groups_ok_all assms] by (auto simp: ret_agg_vals_def)

lemma agg_rows_eq: "agg_rows env ret bs = map (ret_agg_row env (rc_items ret)) (ret_agg_groups env (rc_items ret) bs)"
proof -
  have "length (ret_agg_row env (rc_items ret) g) = length (rc_items ret)" if "g \<in> set (ret_agg_groups env (rc_items ret) bs)" for g
    using group_lengths [OF that] by (simp add: ret_agg_row_def)
  then show ?thesis
    by (simp add: agg_rows_def execute_return_agg_def emit_rows_eq add_rows_rows build_return_columns_def)
qed

lemma row_plain: "g \<in> set (ret_agg_groups env items bs) \<Longrightarrow> plain_cols items (ret_agg_row env items g) = plain_cols items (ag_vals g)"
  unfolding ret_agg_row_def by (rule plain_cols_row) (simp_all add: group_lengths)

lemma row_count:
  assumes g: "g \<in> set (ret_agg_groups env items bs)" and j: "j < length items" "ri_func (items ! j) = Some ''COUNT''"
    and few: "length bs < 10 ^ 18"
  shows "ret_agg_row env items g ! j =
    dec (let bs' = filter (\<lambda>b. ret_agg_build_key env items b = ag_key g) bs in
         if ri_distinct (items ! j) then card ((\<lambda>b. item_raw env b (items ! j)) ` set bs') else length bs')"
proof -
  let ?bs = "filter (\<lambda>b. ret_agg_build_key env items b = ag_key g) bs"
  have cell: "ag_cells g ! j = cell_of env ?bs (items ! j)" using groups_okD(4) [OF groups_ok_all g] j by simp
  have le: "length ?bs < 10 ^ 18" using few length_filter_le [of _ bs] by (meson le_less_trans)
  have short: "snprintf_into CBM_SZ_64 (dec n) = dec n" if "n < 10 ^ 18" for n
    using dec_length [of n 17] that by (simp add: snprintf_into_def CBM_SZ_64_def)
  have "card (h ` set ?bs) < 10 ^ 18" for h :: "binding_t \<Rightarrow> string"
    by (rule le_less_trans [OF order_trans [OF card_image_le [OF finite_set] card_length] le])
  moreover have "length (ac_list (cell_of env ?bs (items ! j))) = card ((\<lambda>b. item_raw env b (items ! j)) ` set ?bs)"
    if "counts_distinct (items ! j)" using cell_list [OF that, of env ?bs] by (metis distinct_card)
  moreover have "ac_count (cell_of env ?bs (items ! j)) = length ?bs" using cell_count j by fastforce
  ultimately show ?thesis using le j group_lengths [OF g]
    by (auto simp: ret_agg_row_def cell Let_def format_agg_value_def with_agg_format_def counts_distinct_def
        intro!: short)
qed

text \<open>
  C22. Grouping. The rows of a \<open>RETURN\<close> with aggregates are one per different tuple of values of the plain
  items, and in each of them \<open>COUNT(x)\<close> is the number of bindings with that tuple and \<open>COUNT(DISTINCT x)\<close>
  the number of different values of \<open>x\<close> among them, provided no value of a plain item contains a bar and the tuples
  fit the buffer for the key.
\<close>

theorem return_groups_count:
  assumes sep: "\<forall>b \<in> set bs. separable (ret_agg_vals env (plain (rc_items ret)) b)" and few: "length bs < 10 ^ 18"
  shows "let tuple = ret_agg_vals env (plain (rc_items ret)); rows = agg_rows env ret bs in
    distinct (map (plain_cols (rc_items ret)) rows) \<and> plain_cols (rc_items ret) ` set rows = tuple ` set bs \<and>
    (\<forall>row \<in> set rows. \<forall>j < length (rc_items ret). ri_func (rc_items ret ! j) = Some ''COUNT'' \<longrightarrow>
       row ! j = dec (let bs' = filter (\<lambda>b. tuple b = plain_cols (rc_items ret) row) bs in
         if ri_distinct (rc_items ret ! j) then card ((\<lambda>b. item_raw env b (rc_items ret ! j)) ` set bs') else length bs'))"
proof -
  define items where "items = rc_items ret"
  define tuple where "tuple = ret_agg_vals env (plain items)"
  define gs where "gs = ret_agg_groups env items bs"
  note ok = groups_ok_all [of env items bs, folded gs_def]
  have key: "ret_agg_build_key env items b = join_key (tuple b)" for b by (simp add: ret_agg_build_key_def tuple_def plain_def)
  have rep: "\<exists>b \<in> set bs. plain_cols items (ret_agg_row env items g) = tuple b \<and> ag_key g = join_key (tuple b)" if "g \<in> set gs" for g
    using groups_okD(3) [OF ok that] row_plain [of g env items bs] that
    by (auto simp: gs_def key plain_cols_vals tuple_def)
  have inj: "join_key (tuple a) = join_key (tuple b) \<longleftrightarrow> tuple a = tuple b" if "a \<in> set bs" "b \<in> set bs" for a b
    using sep that by (intro join_key_inject) (simp_all add: tuple_def items_def)
  have kc: "ag_key g = join_key (plain_cols items (ret_agg_row env items g))" if "g \<in> set gs" for g using rep [OF that] by auto
  have "inj_on (\<lambda>g. plain_cols items (ret_agg_row env items g)) (set gs)"
  proof (rule inj_onI)
    fix g h assume "g \<in> set gs" "h \<in> set gs" "plain_cols items (ret_agg_row env items g) = plain_cols items (ret_agg_row env items h)"
    moreover from this have "ag_key g = ag_key h" using kc by simp
    ultimately show "g = h" using groups_okD(1) [OF ok] by (simp add: distinct_map inj_on_def)
  qed
  moreover have "distinct gs" using groups_okD(1) [OF ok] by (simp add: distinct_map)
  ultimately have "distinct (map (\<lambda>g. plain_cols items (ret_agg_row env items g)) gs)" by (simp add: distinct_map)
  moreover have "(\<lambda>g. plain_cols items (ret_agg_row env items g)) ` set gs = tuple ` set bs"
  proof (intro equalityI subsetI)
    fix t assume "t \<in> tuple ` set bs"
    then obtain b where b: "b \<in> set bs" "t = tuple b" by auto
    then obtain g where g: "g \<in> set gs" "ag_key g = join_key (tuple b)" using groups_okD(2) [OF ok] key by (metis (no_types) image_iff)
    then show "t \<in> (\<lambda>g. plain_cols items (ret_agg_row env items g)) ` set gs" using rep [OF g(1)] inj b by force
  qed (use rep in auto)
  moreover have "ret_agg_row env items g ! j = dec (let bs' = filter (\<lambda>b. tuple b = plain_cols items (ret_agg_row env items g)) bs in
         if ri_distinct (items ! j) then card ((\<lambda>b. item_raw env b (items ! j)) ` set bs') else length bs')"
    if g: "g \<in> set gs" and j: "j < length items" "ri_func (items ! j) = Some ''COUNT''" for g j
  proof -
    have "filter (\<lambda>b. ret_agg_build_key env items b = ag_key g) bs = filter (\<lambda>b. tuple b = plain_cols items (ret_agg_row env items g)) bs"
      using rep [OF g] inj by (intro filter_cong) (auto simp: key)
    then show ?thesis using row_count [OF g [unfolded gs_def] j few] by simp
  qed
  ultimately show ?thesis
    by (simp add: agg_rows_eq items_def [symmetric] tuple_def [symmetric] gs_def [symmetric] Let_def comp_def image_image)
qed

definition demo_bindings :: "binding_t list" where
  "demo_bindings = map (\<lambda>n. zero_binding\<lparr>b_vars := [(''n'', n)]\<rparr>)
     [demo_node 1 ''F'' ''a'', demo_node 2 ''F'' ''b'', demo_node 3 ''G'' ''c'']"

definition demo_count :: cbm_return_clause_t where
  \<comment> \<open>\<open>RETURN n.label, COUNT(*)\<close>\<close>
  "demo_count = zero_return\<lparr>rc_items := [zero_item\<lparr>ri_variable := Some ''n'', ri_property := Some ''label''\<rparr>,
     zero_item\<lparr>ri_variable := Some ''*'', ri_func := Some ''COUNT''\<rparr>]\<rparr>"

lemma demo_tuples:
  "map (ret_agg_vals (list_env [] []) (plain (rc_items demo_count))) demo_bindings = [[''F''], [''F''], [''G'']]"
  by (simp add: demo_bindings_def demo_count_def plain_def ret_agg_vals_def demo_defs project_item_def project_value_def has_args_def
      multiarg_func_canonical_def cyp_ci_eq_def is_scalar_value_func_def binding_get_virtual_def binding_get_edge_def binding_get_def
      fmt_s_def str_of_def node_prop_def node_string_field_def snprintf_into_def CBM_SZ_256_def CBM_SZ_512_def)

theorem return_groups_count_witness:
  "plain_cols (rc_items demo_count) ` set (agg_rows (list_env [] []) demo_count demo_bindings) = {[''F''], [''G'']} \<and>
   length (agg_rows (list_env [] []) demo_count demo_bindings) = 2"
proof -
  let ?tuple = "ret_agg_vals (list_env [] []) (plain (rc_items demo_count))"
  have tuples: "?tuple ` set demo_bindings = {[''F''], [''G'']}" using arg_cong [OF demo_tuples, of set] by auto
  have "separable t" if "t \<in> {[''F''], [''G'']}" for t using that by (auto simp: separable_def CBM_SZ_1K_def)
  then have sep: "\<forall>b \<in> set demo_bindings. separable (?tuple b)" using tuples by blast
  have few: "length demo_bindings < 10 ^ 18" by (simp add: demo_bindings_def)
  have grp: "distinct (map (plain_cols (rc_items demo_count)) (agg_rows (list_env [] []) demo_count demo_bindings))"
    "plain_cols (rc_items demo_count) ` set (agg_rows (list_env [] []) demo_count demo_bindings) = {[''F''], [''G'']}"
    using return_groups_count [OF sep few] tuples by (simp_all only: Let_def simp_thms)
  then have "length (agg_rows (list_env [] []) demo_count demo_bindings) = card {[''F''], [''G'']}"
    using distinct_card [OF grp(1)] by (simp only: length_map list.set_map)
  then show ?thesis using grp(2) by simp
qed

end
