(* ===== verification/CypherBounds.thy ===== *)
theory CypherBounds
  imports CypherMatch CypherGroups
begin

text \<open>
  Memory safety of the query executor. The functions of \<open>CypherExec\<close> carry a mark that becomes true when the
  code writes past an array, reads past one or follows a null pointer. Here are the queries that never set the
  mark, and one of those that do: an \<open>OPTIONAL MATCH\<close> of a single node that matches nothing.
\<close>

section \<open>Expansion\<close>





lemma length_concat_map: "length (concat (map f xs)) = sum_list (map (\<lambda>x. length (f x)) xs)"
  by (simp add: length_concat comp_def)





section \<open>Rows\<close>

lemma rb_ub_simps [simp]:
  "rb_ub (rb_set_columns rb cols) = rb_ub rb" "rb_ub (mark bad rb) \<longleftrightarrow> rb_ub rb \<or> bad" "\<not> rb_ub rb_init"
  "rb_ub (rb_apply_order_by rb ret) = rb_ub rb" "rb_ub (rb_apply_skip_limit rb s l) = rb_ub rb" "rb_ub (rb_apply_distinct rb) = rb_ub rb"
  "rb_ub (rb_add_row rb vs) \<longleftrightarrow> rb_ub rb \<or> length vs < length (rb_columns rb)"
  by (simp_all add: rb_set_columns_def mark_def rb_init_def rb_apply_order_by_def rb_apply_skip_limit_def rb_apply_distinct_def rb_add_row_def
      Let_def split: option.split)

lemma rb_columns_simps [simp]:
  "rb_columns (rb_apply_order_by rb ret) = rb_columns rb" "rb_columns (rb_apply_skip_limit rb s l) = rb_columns rb"
  "rb_columns (rb_apply_distinct rb) = rb_columns rb" "rb_columns (build_return_columns rb ret) = map column_name (rc_items ret)"
  by (simp_all add: rb_apply_order_by_def rb_apply_skip_limit_def rb_apply_distinct_def build_return_columns_def Let_def split: option.split)

lemma add_rows_columns [simp]: "rb_columns (foldl (\<lambda>rb x. rb_add_row rb (f x)) rb xs) = rb_columns rb"
  by (induction xs arbitrary: rb) auto

lemma add_rows_safe:
  "rb_ub (foldl (\<lambda>rb x. rb_add_row rb (f x)) rb xs) \<longleftrightarrow> rb_ub rb \<or> (\<exists>x \<in> set xs. length (f x) < length (rb_columns rb))"
  by (induction xs arbitrary: rb) auto












lemma append_union_columns [simp]: "rb_columns (append_union env project max_rows rb q) = rb_columns rb"
  using add_rows_columns [of "\<lambda>x. x"] by (simp add: append_union_def Let_def)


section \<open>The properties\<close>




text \<open>
  C35. An \<open>OPTIONAL MATCH\<close> of one node can overrun the heap. When its variable is not bound and no node of the store
  fits it, every binding is kept, but the array for them has room for a single one: with two bindings or more the
  executor writes past its end.
\<close>

theorem optional_match_overflow:
  assumes "q_patterns q = [pat0, patn]" "q_pattern_optional q = [False, True]" "pat_rels pat0 = []" "pat_rels patn = []"
    and "2 \<le> length (initial_bindings env q (scan_pattern_nodes env project max_rows (hd (pat_nodes pat0))))"
    and "scan_pattern_nodes env project max_rows (hd (pat_nodes patn)) = []"
  shows "snd (execute_query env q project max_rows)"
proof -
  have "snd (match_bindings env q project max_rows)"
    using assms by (simp add: match_bindings_def Let_def split_def pattern_steps_def cross_join_nodes_def length_concat_map sum_list_triv)
  then have "rb_ub (execute_single env q project max_rows)" by (simp add: execute_single_def split_def)
  moreover have "rb_ub rb \<Longrightarrow> rb_ub (foldl (append_union env project max_rows) rb us)" for rb us
  proof (induction us arbitrary: rb)
    case (Cons u us)
    then show ?case using add_rows_safe [of "\<lambda>x. x"] by (simp add: append_union_def Let_def)
  qed simp
  ultimately show ?thesis by (simp add: execute_query_def union_results_def Let_def)
qed

definition demo_optional :: "cbm_query_t" where
  \<comment> \<open>\<open>MATCH (a:F) OPTIONAL MATCH (b:G) RETURN a.name\<close>\<close>
  "demo_optional = cbm_query [demo_pattern ''a'' ''F'', demo_pattern ''b'' ''G''] [False, True] None None None (Some (demo_return ''a'')) None False None None"

theorem optional_match_overflow_witness:
  "snd (execute_query (list_env [demo_node 1 ''F'' ''f'', demo_node 2 ''F'' ''g''] []) demo_optional None 10)"
  by (rule optional_match_overflow [where ?pat0.0 = "demo_pattern ''a'' ''F''" and patn = "demo_pattern ''b'' ''G''"])
    (simp_all add: demo_optional_def demo_defs initial_bindings_def scan_pattern_nodes_def eval_where_def)

end
