(* ===== verification/GraphBuffer.thy ===== *)
theory GraphBuffer
  imports Prelude
begin

text \<open>
  The in-memory graph of \<open>graph_buffer/graph_buffer.c\<close>, which the indexing passes fill and the
  dump writes out: nodes found by qualified name and by id, edges without duplicates, the secondary
  indexes, cascading deletion, merging of two buffers and the preparation of the rows of a dump.

  Nodes and edges are allocated one by one and shared between the arrays and the indexes, so the
  model keeps two heaps, \<open>gb_nodes\<close> and \<open>edge_heap\<close>, and a pointer is a position in its heap. A
  node is released only with the buffer, so the heap of the nodes is also their array. A released
  edge is never referred to again (that is part of the invariant) and its cell is not reused.

  A hash table is a map from strings. Keys are the strings the code prints into fixed
  buffers, cut off at the length of the buffer. Strings are values: interning, which shares equal copies, is
  not visible. Allocation is taken to succeed, identifiers stay below \<open>2^63\<close>.
\<close>

section \<open>Types\<close>

record cbm_gbuf_node_t =
  n_id :: int
  n_project :: string
  n_label :: string
  n_name :: string
  n_qn :: cstr
  n_file :: string
  n_start :: int
  n_end :: int
  n_props :: cstr  \<comment> \<open>NULL only after a dump under memory pressure\<close>

record cbm_gbuf_edge_t =
  ge_id :: int
  ge_project :: string
  ge_source :: int
  ge_target :: int
  ge_type :: string
  ge_props :: string

record CBMDumpVector =
  dv_node :: int
  dv_project :: string
  dv_vector :: "u8 list"

record CBMDumpTokenVec =
  tv_id :: nat
  tv_project :: string
  tv_token :: string
  tv_vector :: "u8 list"
  tv_idf :: u32  \<comment> \<open>the bits of the float, which the buffer only stores\<close>

record cbm_gbuf =
  gb_project :: string
  gb_root :: string
  gb_next_id :: int
  shared_ids :: "int option"  \<comment> \<open>the value of the shared counter, if there is one\<close>
  gb_nodes :: "cbm_gbuf_node_t list"
  node_by_qn :: "string \<rightharpoonup> nat"
  node_by_id :: "string \<rightharpoonup> nat"
  nodes_by_label :: "string \<rightharpoonup> nat list"
  nodes_by_name :: "string \<rightharpoonup> nat list"
  edge_heap :: "cbm_gbuf_edge_t list"
  gb_edges :: "nat list"
  edge_by_key :: "string \<rightharpoonup> nat"
  edges_by_source_type :: "string \<rightharpoonup> nat list"
  edges_by_target_type :: "string \<rightharpoonup> nat list"
  edges_by_type :: "string \<rightharpoonup> nat list"
  dump_vectors :: "CBMDumpVector list"
  dump_token_vecs :: "CBMDumpTokenVec list"

section \<open>Helpers\<close>

definition heap_strdup :: "cstr \<Rightarrow> string" where
  "heap_strdup s = (case s of Some s \<Rightarrow> s | None \<Rightarrow> ''{}'')"

definition gb_intern :: "cstr \<Rightarrow> string" where
  "gb_intern s = (case s of Some s \<Rightarrow> s | None \<Rightarrow> ''{}'')"

definition make_id_key :: "int \<Rightarrow> string" where
  "make_id_key nid = take 31 (print_int nid)"

definition make_edge_key :: "int \<Rightarrow> int \<Rightarrow> string \<Rightarrow> string" where
  "make_edge_key src tgt type = take 127 (print_int src @ '':'' @ print_int tgt @ '':'' @ type)"

definition make_src_type_key :: "int \<Rightarrow> string \<Rightarrow> string" where
  "make_src_type_key src type = take 127 (print_int src @ '':'' @ type)"

definition array_at :: "(string \<rightharpoonup> nat list) \<Rightarrow> string \<Rightarrow> nat list" where
  \<comment> \<open>the array of a key, empty when there is none\<close>
  "array_at ht k = (case ht k of Some xs \<Rightarrow> xs | None \<Rightarrow> [])"

definition array_push :: "(string \<rightharpoonup> nat list) \<Rightarrow> string \<Rightarrow> nat \<Rightarrow> (string \<rightharpoonup> nat list)" where
  \<comment> \<open>\<open>get_or_create_node_array\<close> or \<open>get_or_create_edge_array\<close>, then \<open>cbm_da_push\<close>\<close>
  "array_push ht k x = ht(k \<mapsto> array_at ht k @ [x])"

fun swap_remove :: "(nat \<Rightarrow> bool) \<Rightarrow> nat list \<Rightarrow> nat list" where
  \<comment> \<open>the first element with the property is overwritten by the last one\<close>
  "swap_remove P [] = []"
| "swap_remove P (x # xs) =
     (if P x then (if xs = [] then [] else last xs # butlast xs) else x # swap_remove P xs)"

definition array_remove :: "(nat \<Rightarrow> bool) \<Rightarrow> (string \<rightharpoonup> nat list) \<Rightarrow> string \<Rightarrow> (string \<rightharpoonup> nat list)" where
  "array_remove P ht k = (case ht k of None \<Rightarrow> ht | Some xs \<Rightarrow> ht(k \<mapsto> swap_remove P xs))"

definition remove_edge_from_ptr_array ::
    "cbm_gbuf_edge_t list \<Rightarrow> (string \<rightharpoonup> nat list) \<Rightarrow> string \<Rightarrow> int \<Rightarrow> (string \<rightharpoonup> nat list)" where
  "remove_edge_from_ptr_array heap ht k nid = array_remove (\<lambda>x. ge_id (heap ! x) = nid) ht k"

definition remove_node_from_ptr_array ::
    "cbm_gbuf_node_t list \<Rightarrow> (string \<rightharpoonup> nat list) \<Rightarrow> string \<Rightarrow> int \<Rightarrow> (string \<rightharpoonup> nat list)" where
  "remove_node_from_ptr_array heap ht k nid = array_remove (\<lambda>x. n_id (heap ! x) = nid) ht k"

definition alloc_next_id :: "cbm_gbuf \<Rightarrow> int \<times> cbm_gbuf" where
  "alloc_next_id gb =
     (case shared_ids gb of
        Some n \<Rightarrow> (n, gb\<lparr>shared_ids := Some (n + 1)\<rparr>)
      | None \<Rightarrow> (gb_next_id gb, gb\<lparr>gb_next_id := gb_next_id gb + 1\<rparr>))"

definition unindex_edge :: "cbm_gbuf \<Rightarrow> nat \<Rightarrow> cbm_gbuf" where
  "unindex_edge gb x =
     (let e = edge_heap gb ! x in
      gb\<lparr>edge_by_key := (edge_by_key gb)(make_edge_key (ge_source e) (ge_target e) (ge_type e) := None),
         edges_by_source_type := remove_edge_from_ptr_array (edge_heap gb) (edges_by_source_type gb)
           (make_src_type_key (ge_source e) (ge_type e)) (ge_id e),
         edges_by_target_type := remove_edge_from_ptr_array (edge_heap gb) (edges_by_target_type gb)
           (make_src_type_key (ge_target e) (ge_type e)) (ge_id e),
         edges_by_type := remove_edge_from_ptr_array (edge_heap gb) (edges_by_type gb) (ge_type e) (ge_id e)\<rparr>)"

fun cascade_loop :: "(string \<Rightarrow> bool) \<Rightarrow> nat list \<Rightarrow> nat list \<Rightarrow> cbm_gbuf \<Rightarrow> cbm_gbuf" where
  \<comment> \<open>the rest of the edge array and the edges kept so far\<close>
  "cascade_loop deleted [] kept gb = gb\<lparr>gb_edges := kept\<rparr>"
| "cascade_loop deleted (x # xs) kept gb =
     (let e = edge_heap gb ! x in
      if deleted (make_id_key (ge_source e)) \<or> deleted (make_id_key (ge_target e))
      then cascade_loop deleted xs kept (unindex_edge gb x)
      else cascade_loop deleted xs (kept @ [x]) gb)"

definition cascade_delete_edges :: "cbm_gbuf \<Rightarrow> (string \<Rightarrow> bool) \<Rightarrow> cbm_gbuf" where
  "cascade_delete_edges gb deleted = cascade_loop deleted (gb_edges gb) [] gb"

definition register_node_in_indexes :: "cbm_gbuf \<Rightarrow> nat \<Rightarrow> cbm_gbuf" where
  "register_node_in_indexes gb i =
     (let n = gb_nodes gb ! i in
      gb\<lparr>node_by_qn := (case n_qn n of Some q \<Rightarrow> (node_by_qn gb)(q \<mapsto> i) | None \<Rightarrow> node_by_qn gb),
         node_by_id := (node_by_id gb)(make_id_key (n_id n) \<mapsto> i),
         nodes_by_label := array_push (nodes_by_label gb) (n_label n) i,
         nodes_by_name := array_push (nodes_by_name gb) (n_name n) i\<rparr>)"

definition register_edge_in_indexes :: "cbm_gbuf \<Rightarrow> nat \<Rightarrow> cbm_gbuf" where
  "register_edge_in_indexes gb x =
     (let e = edge_heap gb ! x in
      gb\<lparr>edges_by_source_type := array_push (edges_by_source_type gb) (make_src_type_key (ge_source e) (ge_type e)) x,
         edges_by_target_type := array_push (edges_by_target_type gb) (make_src_type_key (ge_target e) (ge_type e)) x,
         edges_by_type := array_push (edges_by_type gb) (ge_type e) x\<rparr>)"

definition rebuild_edge_secondary_indexes :: "cbm_gbuf \<Rightarrow> cbm_gbuf" where
  "rebuild_edge_secondary_indexes gb =
     foldl register_edge_in_indexes
       (gb\<lparr>edges_by_source_type := Map.empty, edges_by_target_type := Map.empty, edges_by_type := Map.empty\<rparr>) (gb_edges gb)"

section \<open>Life cycle\<close>

definition cbm_gbuf_new :: "cstr \<Rightarrow> cstr \<Rightarrow> cbm_gbuf" where
  "cbm_gbuf_new project root =
     \<lparr>gb_project = (case project of Some p \<Rightarrow> p | None \<Rightarrow> []), gb_root = (case root of Some p \<Rightarrow> p | None \<Rightarrow> []),
      gb_next_id = 1, shared_ids = None, gb_nodes = [], node_by_qn = Map.empty, node_by_id = Map.empty,
      nodes_by_label = Map.empty, nodes_by_name = Map.empty, edge_heap = [], gb_edges = [], edge_by_key = Map.empty,
      edges_by_source_type = Map.empty, edges_by_target_type = Map.empty, edges_by_type = Map.empty,
      dump_vectors = [], dump_token_vecs = []\<rparr>"

definition cbm_gbuf_new_shared_ids :: "cstr \<Rightarrow> cstr \<Rightarrow> int option \<Rightarrow> cbm_gbuf" where
  "cbm_gbuf_new_shared_ids project root id_source = (cbm_gbuf_new project root)\<lparr>shared_ids := id_source\<rparr>"

definition cbm_gbuf_store_vector :: "cbm_gbuf \<Rightarrow> int \<Rightarrow> u8 list option \<Rightarrow> int \<times> cbm_gbuf" where
  "cbm_gbuf_store_vector gb node_id vec =
     (case vec of
        None \<Rightarrow> (- 1, gb)
      | Some v \<Rightarrow> (if v = [] then (- 1, gb)
                    else (0, gb\<lparr>dump_vectors := dump_vectors gb @ [\<lparr>dv_node = node_id, dv_project = gb_project gb, dv_vector = v\<rparr>]\<rparr>)))"

definition cbm_gbuf_store_token_vector :: "cbm_gbuf \<Rightarrow> cstr \<Rightarrow> u8 list option \<Rightarrow> u32 \<Rightarrow> int \<times> cbm_gbuf" where
  "cbm_gbuf_store_token_vector gb token vec idf =
     (case (token, vec) of
        (Some t, Some v) \<Rightarrow>
          (if v = [] then (- 1, gb)
           else (0, gb\<lparr>dump_token_vecs := dump_token_vecs gb @
                        [\<lparr>tv_id = length (dump_token_vecs gb) + 1, tv_project = gb_project gb, tv_token = t, tv_vector = v, tv_idf = idf\<rparr>]\<rparr>))
      | _ \<Rightarrow> (- 1, gb))"

definition cbm_gbuf_next_id :: "cbm_gbuf option \<Rightarrow> int" where
  "cbm_gbuf_next_id gb =
     (case gb of None \<Rightarrow> 1 | Some gb \<Rightarrow> (case shared_ids gb of Some n \<Rightarrow> n | None \<Rightarrow> gb_next_id gb))"

definition cbm_gbuf_set_next_id :: "cbm_gbuf \<Rightarrow> int \<Rightarrow> cbm_gbuf" where
  "cbm_gbuf_set_next_id gb next = gb\<lparr>gb_next_id := next\<rparr>"

section \<open>Nodes\<close>

definition cbm_gbuf_upsert_node ::
    "cbm_gbuf \<Rightarrow> cstr \<Rightarrow> cstr \<Rightarrow> cstr \<Rightarrow> cstr \<Rightarrow> int \<Rightarrow> int \<Rightarrow> cstr \<Rightarrow> int \<times> cbm_gbuf" where
  "cbm_gbuf_upsert_node gb label name qn file start_line end_line props =
     (case qn of
        None \<Rightarrow> (0, gb)
      | Some q \<Rightarrow>
          (case node_by_qn gb q of
             Some i \<Rightarrow>
               (let n = gb_nodes gb ! i;
                    n = n\<lparr>n_label := gb_intern label, n_name := heap_strdup name, n_file := gb_intern file,
                          n_start := start_line, n_end := end_line,
                          n_props := (case props of Some p \<Rightarrow> Some p | None \<Rightarrow> n_props n)\<rparr>
                in (n_id n, gb\<lparr>gb_nodes := (gb_nodes gb)[i := n]\<rparr>))
           | None \<Rightarrow>
               (case alloc_next_id gb of
                  (nid, gb) \<Rightarrow>
                    (let n = \<lparr>n_id = nid, n_project = gb_project gb, n_label = gb_intern label, n_name = heap_strdup name, n_qn = Some q,
                              n_file = gb_intern file, n_start = start_line, n_end = end_line, n_props = Some (heap_strdup props)\<rparr>;
                         gb = gb\<lparr>gb_nodes := gb_nodes gb @ [n]\<rparr>
                     in (nid, register_node_in_indexes gb (length (gb_nodes gb) - 1))))))"

definition cbm_gbuf_find_by_qn :: "cbm_gbuf \<Rightarrow> cstr \<Rightarrow> cbm_gbuf_node_t option" where
  "cbm_gbuf_find_by_qn gb qn =
     (case qn of None \<Rightarrow> None | Some q \<Rightarrow> map_option (\<lambda>i. gb_nodes gb ! i) (node_by_qn gb q))"

definition cbm_gbuf_find_by_id :: "cbm_gbuf \<Rightarrow> int \<Rightarrow> cbm_gbuf_node_t option" where
  "cbm_gbuf_find_by_id gb nid = map_option (\<lambda>i. gb_nodes gb ! i) (node_by_id gb (make_id_key nid))"

definition cbm_gbuf_find_by_label :: "cbm_gbuf \<Rightarrow> cstr \<Rightarrow> cbm_gbuf_node_t list" where
  "cbm_gbuf_find_by_label gb label =
     map (\<lambda>i. gb_nodes gb ! i) (array_at (nodes_by_label gb) (case label of Some l \<Rightarrow> l | None \<Rightarrow> []))"

definition cbm_gbuf_find_by_name :: "cbm_gbuf \<Rightarrow> cstr \<Rightarrow> cbm_gbuf_node_t list" where
  "cbm_gbuf_find_by_name gb name =
     map (\<lambda>i. gb_nodes gb ! i) (array_at (nodes_by_name gb) (case name of Some l \<Rightarrow> l | None \<Rightarrow> []))"

definition cbm_gbuf_node_count :: "cbm_gbuf \<Rightarrow> nat" where
  "cbm_gbuf_node_count gb = card (dom (node_by_qn gb))"

definition drop_primary :: "cbm_gbuf \<Rightarrow> nat \<Rightarrow> cbm_gbuf" where
  \<comment> \<open>removal of a node from the two primary indexes\<close>
  "drop_primary gb i =
     (let n = gb_nodes gb ! i in
      gb\<lparr>node_by_qn := (case n_qn n of Some q \<Rightarrow> (node_by_qn gb)(q := None) | None \<Rightarrow> node_by_qn gb),
         node_by_id := (node_by_id gb)(make_id_key (n_id n) := None)\<rparr>)"

definition cbm_gbuf_delete_by_label :: "cbm_gbuf \<Rightarrow> cstr \<Rightarrow> int \<times> cbm_gbuf" where
  "cbm_gbuf_delete_by_label gb label =
     (case label of
        None \<Rightarrow> (- 1, gb)
      | Some l \<Rightarrow>
          (let arr = array_at (nodes_by_label gb) l in
           if arr = [] then (0, gb)
           else let deleted = map (\<lambda>i. make_id_key (n_id (gb_nodes gb ! i))) arr;
                    gb = foldl drop_primary gb arr;
                    gb = gb\<lparr>nodes_by_label := (nodes_by_label gb)(l \<mapsto> [])\<rparr>
                in (0, cascade_delete_edges gb (\<lambda>k. k \<in> set deleted))))"

fun delete_file_loop :: "string \<Rightarrow> nat list \<Rightarrow> string list \<Rightarrow> cbm_gbuf \<Rightarrow> string list \<times> cbm_gbuf" where
  \<comment> \<open>the loop over the node array: the ids of the deleted nodes and the buffer\<close>
  "delete_file_loop file [] deleted gb = (deleted, gb)"
| "delete_file_loop file (i # is) deleted gb =
     (let n = gb_nodes gb ! i in
      case n_qn n of
        None \<Rightarrow> delete_file_loop file is deleted gb
      | Some q \<Rightarrow>
          (if n_file n \<noteq> file \<or> node_by_qn gb q = None then delete_file_loop file is deleted gb
           else let gb = gb\<lparr>nodes_by_label := remove_node_from_ptr_array (gb_nodes gb) (nodes_by_label gb) (n_label n) (n_id n),
                            nodes_by_name := remove_node_from_ptr_array (gb_nodes gb) (nodes_by_name gb) (n_name n) (n_id n)\<rparr>;
                    gb = drop_primary gb i;
                    gb = gb\<lparr>gb_nodes := (gb_nodes gb)[i := n\<lparr>n_qn := None\<rparr>]\<rparr>
                in delete_file_loop file is (deleted @ [make_id_key (n_id n)]) gb))"

definition cbm_gbuf_delete_by_file :: "cbm_gbuf \<Rightarrow> cstr \<Rightarrow> int \<times> cbm_gbuf" where
  "cbm_gbuf_delete_by_file gb file =
     (case file of
        None \<Rightarrow> (- 1, gb)
      | Some f \<Rightarrow>
          (case delete_file_loop f [0..<length (gb_nodes gb)] [] gb of
             (deleted, gb) \<Rightarrow>
               (if deleted = [] then (0, gb)
                else (int (length deleted), cascade_delete_edges gb (\<lambda>k. k \<in> set deleted)))))"

definition live_node :: "cbm_gbuf \<Rightarrow> cbm_gbuf_node_t \<Rightarrow> bool" where
  \<comment> \<open>the test of the loops over the node array\<close>
  "live_node gb n \<longleftrightarrow> (case n_qn n of None \<Rightarrow> False | Some q \<Rightarrow> node_by_qn gb q \<noteq> None)"

definition cbm_gbuf_foreach_node :: "cbm_gbuf \<Rightarrow> (cbm_gbuf_node_t \<Rightarrow> 's \<Rightarrow> 's) \<Rightarrow> 's \<Rightarrow> 's" where
  "cbm_gbuf_foreach_node gb fn userdata = fold fn (filter (live_node gb) (gb_nodes gb)) userdata"

definition cbm_gbuf_foreach_edge :: "cbm_gbuf \<Rightarrow> (cbm_gbuf_edge_t \<Rightarrow> 's \<Rightarrow> 's) \<Rightarrow> 's \<Rightarrow> 's" where
  "cbm_gbuf_foreach_edge gb fn userdata = fold fn (map (\<lambda>x. edge_heap gb ! x) (gb_edges gb)) userdata"

section \<open>Edges\<close>

definition cbm_gbuf_insert_edge :: "cbm_gbuf \<Rightarrow> int \<Rightarrow> int \<Rightarrow> cstr \<Rightarrow> cstr \<Rightarrow> int \<times> cbm_gbuf" where
  "cbm_gbuf_insert_edge gb source target type props =
     (case type of
        None \<Rightarrow> (0, gb)
      | Some t \<Rightarrow>
          (let key = make_edge_key source target t in
           case edge_by_key gb key of
             Some x \<Rightarrow>
               (let e = edge_heap gb ! x;
                    e = (case props of
                           Some p \<Rightarrow> (if p \<noteq> ''{}'' then e\<lparr>ge_props := p\<rparr> else e)
                         | None \<Rightarrow> e)
                in (ge_id e, gb\<lparr>edge_heap := (edge_heap gb)[x := e]\<rparr>))
           | None \<Rightarrow>
               (case alloc_next_id gb of
                  (nid, gb) \<Rightarrow>
                    (let e = \<lparr>ge_id = nid, ge_project = gb_project gb, ge_source = source, ge_target = target, ge_type = gb_intern type, ge_props = heap_strdup props\<rparr>;
                         x = length (edge_heap gb);
                         gb = gb\<lparr>edge_heap := edge_heap gb @ [e], gb_edges := gb_edges gb @ [x],
                                 edge_by_key := (edge_by_key gb)(key \<mapsto> x)\<rparr>
                     in (nid, register_edge_in_indexes gb x)))))"

definition edges_of :: "cbm_gbuf \<Rightarrow> nat list \<Rightarrow> cbm_gbuf_edge_t list" where
  "edges_of gb xs = map (\<lambda>x. edge_heap gb ! x) xs"

definition cbm_gbuf_find_edges_by_source_type :: "cbm_gbuf \<Rightarrow> int \<Rightarrow> string \<Rightarrow> cbm_gbuf_edge_t list" where
  "cbm_gbuf_find_edges_by_source_type gb source type =
     edges_of gb (array_at (edges_by_source_type gb) (make_src_type_key source type))"

definition cbm_gbuf_find_edges_by_target_type :: "cbm_gbuf \<Rightarrow> int \<Rightarrow> string \<Rightarrow> cbm_gbuf_edge_t list" where
  "cbm_gbuf_find_edges_by_target_type gb target type =
     edges_of gb (array_at (edges_by_target_type gb) (make_src_type_key target type))"

definition cbm_gbuf_find_edges_by_type :: "cbm_gbuf \<Rightarrow> string \<Rightarrow> cbm_gbuf_edge_t list" where
  "cbm_gbuf_find_edges_by_type gb type = edges_of gb (array_at (edges_by_type gb) type)"

definition cbm_gbuf_edge_count :: "cbm_gbuf \<Rightarrow> nat" where
  "cbm_gbuf_edge_count gb = length (gb_edges gb)"

definition cbm_gbuf_edge_count_by_type :: "cbm_gbuf \<Rightarrow> cstr \<Rightarrow> nat" where
  "cbm_gbuf_edge_count_by_type gb type =
     (case type of None \<Rightarrow> 0 | Some t \<Rightarrow> length (array_at (edges_by_type gb) t))"

fun delete_type_loop :: "string \<Rightarrow> nat list \<Rightarrow> nat list \<Rightarrow> cbm_gbuf \<Rightarrow> cbm_gbuf" where
  "delete_type_loop type [] kept gb = gb\<lparr>gb_edges := kept\<rparr>"
| "delete_type_loop type (x # xs) kept gb =
     (let e = edge_heap gb ! x in
      if ge_type e = type
      then delete_type_loop type xs kept
             (gb\<lparr>edge_by_key := (edge_by_key gb)(make_edge_key (ge_source e) (ge_target e) (ge_type e) := None)\<rparr>)
      else delete_type_loop type xs (kept @ [x]) gb)"

definition cbm_gbuf_delete_edges_by_type :: "cbm_gbuf \<Rightarrow> cstr \<Rightarrow> int \<times> cbm_gbuf" where
  "cbm_gbuf_delete_edges_by_type gb type =
     (case type of
        None \<Rightarrow> (- 1, gb)
      | Some t \<Rightarrow> (0, rebuild_edge_secondary_indexes (delete_type_loop t (gb_edges gb) [] gb)))"

section \<open>Loading from a database\<close>

text \<open>
  The database is read through SQLite, so its answers are the arguments: whether it opens, the value
  of \<open>MAX(id)\<close>, the rows of the two queries (\<open>None\<close> where the statement cannot be prepared). The
  array \<open>old_to_new\<close> is a function that starts out zero, as \<open>calloc\<close> leaves it.
\<close>

record db_node_row =
  dn_id :: int
  dn_label :: cstr
  dn_name :: cstr
  dn_qn :: cstr
  dn_file :: cstr
  dn_start :: int
  dn_end :: int
  dn_props :: cstr

record db_edge_row =
  de_source :: int
  de_target :: int
  de_type :: cstr
  de_props :: cstr

fun load_nodes :: "int \<Rightarrow> db_node_row list \<Rightarrow> (int \<Rightarrow> int) \<times> cbm_gbuf \<Rightarrow> (int \<Rightarrow> int) \<times> cbm_gbuf" where
  "load_nodes max_old_id [] st = st"
| "load_nodes max_old_id (r # rs) (old_to_new, gb) =
     (case cbm_gbuf_upsert_node gb (dn_label r) (dn_name r) (dn_qn r) (dn_file r) (dn_start r) (dn_end r) (dn_props r) of
        (new_id, gb) \<Rightarrow>
          load_nodes max_old_id rs
            (if new_id > 0 \<and> dn_id r \<le> max_old_id then old_to_new(dn_id r := new_id) else old_to_new, gb))"

fun load_edges :: "int \<Rightarrow> (int \<Rightarrow> int) \<Rightarrow> db_edge_row list \<Rightarrow> cbm_gbuf \<Rightarrow> cbm_gbuf" where
  "load_edges max_old_id old_to_new [] gb = gb"
| "load_edges max_old_id old_to_new (r # rs) gb =
     (let new_src = (if de_source r \<le> max_old_id then old_to_new (de_source r) else 0);
          new_tgt = (if de_target r \<le> max_old_id then old_to_new (de_target r) else 0)
      in load_edges max_old_id old_to_new rs
           (if new_src > 0 \<and> new_tgt > 0 then snd (cbm_gbuf_insert_edge gb new_src new_tgt (de_type r) (de_props r)) else gb))"

definition cbm_gbuf_load_from_db ::
    "cbm_gbuf \<Rightarrow> bool \<Rightarrow> int option \<Rightarrow> db_node_row list option \<Rightarrow> db_edge_row list option \<Rightarrow> int \<times> cbm_gbuf" where
  "cbm_gbuf_load_from_db gb opens max_id node_rows edge_rows =
     (if \<not> opens then (- 1, gb)
      else case max_id of
        None \<Rightarrow> (- 1, gb)
      | Some max_old_id \<Rightarrow>
          (case node_rows of
             None \<Rightarrow> (- 1, gb)
           | Some nrows \<Rightarrow>
               (case load_nodes max_old_id nrows (\<lambda>_. 0, gb) of
                  (old_to_new, gb) \<Rightarrow>
                    (case edge_rows of
                       None \<Rightarrow> (- 1, gb)
                     | Some erows \<Rightarrow> (0, load_edges max_old_id old_to_new erows gb)))))"

section \<open>Merging\<close>

definition merge_update_existing ::
    "cbm_gbuf \<Rightarrow> nat \<Rightarrow> cbm_gbuf_node_t \<Rightarrow> (string \<rightharpoonup> int) \<Rightarrow> cbm_gbuf \<times> (string \<rightharpoonup> int)" where
  "merge_update_existing dst i sn remap =
     (let existing = gb_nodes dst ! i;
          existing = existing\<lparr>n_label := gb_intern (Some (n_label sn)), n_name := heap_strdup (Some (n_name sn)),
                              n_file := gb_intern (Some (n_file sn)), n_start := n_start sn, n_end := n_end sn,
                              n_props := (case n_props sn of Some p \<Rightarrow> Some p | None \<Rightarrow> n_props existing)\<rparr>;
          dst = dst\<lparr>gb_nodes := (gb_nodes dst)[i := existing]\<rparr>
      in (dst, if n_id sn \<noteq> n_id existing then remap(make_id_key (n_id sn) \<mapsto> n_id existing) else remap))"

definition merge_copy_new_node :: "cbm_gbuf \<Rightarrow> cbm_gbuf_node_t \<Rightarrow> cbm_gbuf" where
  "merge_copy_new_node dst sn =
     (let node = \<lparr>n_id = n_id sn, n_project = gb_project dst, n_label = gb_intern (Some (n_label sn)),
                  n_name = heap_strdup (Some (n_name sn)), n_qn = Some (heap_strdup (n_qn sn)),
                  n_file = gb_intern (Some (n_file sn)), n_start = n_start sn, n_end = n_end sn,
                  n_props = Some (heap_strdup (n_props sn))\<rparr>;
          dst = dst\<lparr>gb_nodes := gb_nodes dst @ [node]\<rparr>;
          dst = register_node_in_indexes dst (length (gb_nodes dst) - 1)
      in if n_id node \<ge> gb_next_id dst then dst\<lparr>gb_next_id := n_id node + 1\<rparr> else dst)"

fun merge_nodes :: "(string \<rightharpoonup> nat) \<Rightarrow> cbm_gbuf_node_t list \<Rightarrow> cbm_gbuf \<times> (string \<rightharpoonup> int) \<Rightarrow> cbm_gbuf \<times> (string \<rightharpoonup> int)" where
  \<comment> \<open>the loop of \<open>cbm_gbuf_merge\<close> over the nodes of the source, with its index of qualified names\<close>
  "merge_nodes src_by_qn [] st = st"
| "merge_nodes src_by_qn (sn # sns) (dst, remap) =
     (case n_qn sn of
        None \<Rightarrow> merge_nodes src_by_qn sns (dst, remap)
      | Some q \<Rightarrow>
          (if src_by_qn q = None then merge_nodes src_by_qn sns (dst, remap)
           else case node_by_qn dst q of
             Some i \<Rightarrow> merge_nodes src_by_qn sns (merge_update_existing dst i sn remap)
           | None \<Rightarrow> merge_nodes src_by_qn sns (merge_copy_new_node dst sn, remap)))"

definition remapped :: "(string \<rightharpoonup> int) \<Rightarrow> int \<Rightarrow> int" where
  "remapped remap nid = (case remap (make_id_key nid) of Some v \<Rightarrow> v | None \<Rightarrow> nid)"

fun merge_remap_edges :: "cbm_gbuf_edge_t list \<Rightarrow> (string \<rightharpoonup> int) \<Rightarrow> cbm_gbuf \<Rightarrow> cbm_gbuf" where
  "merge_remap_edges [] remap dst = dst"
| "merge_remap_edges (se # ses) remap dst =
     merge_remap_edges ses remap
       (snd (cbm_gbuf_insert_edge dst (remapped remap (ge_source se)) (remapped remap (ge_target se))
               (Some (ge_type se)) (Some (ge_props se))))"

definition cbm_gbuf_merge :: "cbm_gbuf \<Rightarrow> cbm_gbuf \<Rightarrow> int \<times> cbm_gbuf" where
  "cbm_gbuf_merge dst src =
     (if gb_nodes src = [] \<and> gb_edges src = [] then (0, dst)
      else case merge_nodes (node_by_qn src) (gb_nodes src) (dst, Map.empty) of
        (dst, remap) \<Rightarrow> (0, merge_remap_edges (edges_of src (gb_edges src)) remap dst))"

section \<open>The rows of a dump\<close>

text \<open>
  The JSON library is an argument: \<open>url_of props\<close> is the string that \<open>props\<close>, read as JSON, has
  under the key \<open>url_path\<close>, if any. So is \<open>qsort\<close>, which may order equal keys as it likes.
\<close>

record CBMDumpNode =
  dmn_id :: int
  dmn_project :: string
  dmn_label :: string
  dmn_name :: string
  dmn_qn :: string
  dmn_file :: string
  dmn_start :: int
  dmn_end :: int
  dmn_props :: cstr

record CBMDumpEdge =
  dme_id :: int
  dme_project :: string
  dme_source :: int
  dme_target :: int
  dme_type :: string
  dme_props :: string
  dme_url_path :: string

definition extract_url_path :: "(string \<Rightarrow> string option) \<Rightarrow> string \<Rightarrow> string option" where
  "extract_url_path url_of props =
     (if \<not> strstr props ([CHR 0x22] @ ''url_path'' @ [CHR 0x22]) then None else url_of props)"

definition remap_id :: "(int \<Rightarrow> int) \<Rightarrow> int \<Rightarrow> int \<Rightarrow> int" where
  "remap_id temp_to_final max_temp_id temp_id = (if temp_id < max_temp_id then temp_to_final temp_id else 0)"

fun build_node_rows ::
    "cbm_gbuf \<Rightarrow> int \<Rightarrow> cbm_gbuf_node_t list \<Rightarrow> (int \<Rightarrow> int) \<Rightarrow> int \<Rightarrow> CBMDumpNode list \<times> (int \<Rightarrow> int)" where
  "build_node_rows gb max_temp_id [] temp_to_final idx = ([], temp_to_final)"
| "build_node_rows gb max_temp_id (n # ns) temp_to_final idx =
     (case n_qn n of
        None \<Rightarrow> build_node_rows gb max_temp_id ns temp_to_final idx
      | Some q \<Rightarrow>
          (if node_by_qn gb q = None then build_node_rows gb max_temp_id ns temp_to_final idx
           else let final_id = idx + 1;
                    temp_to_final = (if n_id n < max_temp_id then temp_to_final(n_id n := final_id) else temp_to_final);
                    row = \<lparr>dmn_id = final_id, dmn_project = gb_project gb, dmn_label = n_label n, dmn_name = n_name n,
                           dmn_qn = q, dmn_file = n_file n, dmn_start = n_start n, dmn_end = n_end n, 
                           dmn_props = Some (case n_props n of Some p \<Rightarrow> p | None \<Rightarrow> ''{}'')\<rparr>
                in case build_node_rows gb max_temp_id ns temp_to_final (idx + 1) of
                     (rows, temp_to_final) \<Rightarrow> (row # rows, temp_to_final)))"

definition build_dump_nodes :: "cbm_gbuf \<Rightarrow> int \<Rightarrow> CBMDumpNode list \<times> (int \<Rightarrow> int)" where
  "build_dump_nodes gb max_temp_id = build_node_rows gb max_temp_id (gb_nodes gb) (\<lambda>_. 0) 0"

definition count_valid_edges :: "cbm_gbuf \<Rightarrow> (int \<Rightarrow> int) \<Rightarrow> int \<Rightarrow> nat" where
  \<comment> \<open>the number of rows the array of edges is allocated for\<close>
  "count_valid_edges gb temp_to_final max_temp_id =
     length (filter (\<lambda>e. remap_id temp_to_final max_temp_id (ge_source e) > 0 \<and>
                         remap_id temp_to_final max_temp_id (ge_target e) > 0) (edges_of gb (gb_edges gb)))"

fun build_edge_rows ::
    "(string \<Rightarrow> string option) \<Rightarrow> cbm_gbuf \<Rightarrow> (int \<Rightarrow> int) \<Rightarrow> int \<Rightarrow> cbm_gbuf_edge_t list \<Rightarrow> int \<Rightarrow> CBMDumpEdge list" where
  "build_edge_rows url_of gb temp_to_final max_temp_id [] idx = []"
| "build_edge_rows url_of gb temp_to_final max_temp_id (e # es) idx =
     (let src = remap_id temp_to_final max_temp_id (ge_source e);
          tgt = remap_id temp_to_final max_temp_id (ge_target e)
      in if src = 0 \<or> tgt = 0 then build_edge_rows url_of gb temp_to_final max_temp_id es idx
         else \<lparr>dme_id = idx + 1, dme_project = gb_project gb, dme_source = src, dme_target = tgt, dme_type = ge_type e,
               dme_props = ge_props e,
               dme_url_path = (case extract_url_path url_of (ge_props e) of Some u \<Rightarrow> u | None \<Rightarrow> [])\<rparr>
              # build_edge_rows url_of gb temp_to_final max_temp_id es (idx + 1))"

definition build_dump_edges ::
    "(string \<Rightarrow> string option) \<Rightarrow> cbm_gbuf \<Rightarrow> (int \<Rightarrow> int) \<Rightarrow> int \<Rightarrow> CBMDumpEdge list" where
  "build_dump_edges url_of gb temp_to_final max_temp_id =
     build_edge_rows url_of gb temp_to_final max_temp_id (edges_of gb (gb_edges gb)) 0"

fun dedup_vectors :: "CBMDumpVector list \<Rightarrow> CBMDumpVector list" where
  \<comment> \<open>of neighbours with the same id the last one is kept\<close>
  "dedup_vectors (a # b # vs) = (if dv_node a = dv_node b then dedup_vectors (b # vs) else a # dedup_vectors (b # vs))"
| "dedup_vectors vs = vs"

definition remap_vectors :: "(int \<Rightarrow> int) \<Rightarrow> int \<Rightarrow> CBMDumpVector list \<Rightarrow> CBMDumpVector list" where
  "remap_vectors temp_to_final max_temp_id vs =
     concat (map (\<lambda>v. let old_id = dv_node v;
                          new_id = (if 0 < old_id \<and> old_id < max_temp_id then temp_to_final old_id else 0)
                      in if new_id > 0 then [v\<lparr>dv_node := new_id\<rparr>] else []) vs)"

definition remap_sort_dedup_vectors ::
    "(CBMDumpVector list \<Rightarrow> CBMDumpVector list) \<Rightarrow> cbm_gbuf \<Rightarrow> (int \<Rightarrow> int) \<Rightarrow> int \<Rightarrow> cbm_gbuf" where
  "remap_sort_dedup_vectors qsort gb temp_to_final max_temp_id =
     (let vs = remap_vectors temp_to_final max_temp_id (dump_vectors gb)
      in gb\<lparr>dump_vectors := (if length vs \<ge> 2 then dedup_vectors (qsort vs) else vs)\<rparr>)"

definition count_live_nodes :: "cbm_gbuf \<Rightarrow> nat" where
  "count_live_nodes gb = length (filter (live_node gb) (gb_nodes gb))"

section \<open>Writing the dump\<close>

text \<open>
  The writer of the database file and the memory budget are arguments: the three operations of the
  writer over a state of any type, and whether the budget is exceeded after the \<open>k\<close>-th partition.
\<close>

record 'w db_writer =
  writer_open :: "'w option"
  writer_append_nodes :: "'w \<Rightarrow> CBMDumpNode list \<Rightarrow> int \<times> 'w"
  writer_finalize :: "'w \<Rightarrow> string \<Rightarrow> string \<Rightarrow> string \<Rightarrow> CBMDumpNode list \<Rightarrow> CBMDumpEdge list \<Rightarrow>
                      CBMDumpVector list \<Rightarrow> CBMDumpTokenVec list \<Rightarrow> int \<times> 'w"

definition release_gbuf_indexes :: "cbm_gbuf \<Rightarrow> cbm_gbuf" where
  \<comment> \<open>a lookup in a released table finds nothing\<close>
  "release_gbuf_indexes gb =
     gb\<lparr>node_by_qn := Map.empty, node_by_id := Map.empty, nodes_by_label := Map.empty, nodes_by_name := Map.empty,
        edge_by_key := Map.empty, edges_by_source_type := Map.empty, edges_by_target_type := Map.empty, edges_by_type := Map.empty\<rparr>"

definition release_and_remap_vectors ::
    "(CBMDumpVector list \<Rightarrow> CBMDumpVector list) \<Rightarrow> cbm_gbuf \<Rightarrow> (int \<Rightarrow> int) \<Rightarrow> int \<Rightarrow> cbm_gbuf" where
  "release_and_remap_vectors qsort gb temp_to_final max_temp_id =
     remap_sort_dedup_vectors qsort (release_gbuf_indexes gb) temp_to_final max_temp_id"

definition DUMP_PARTITION_NODES :: nat where
  "DUMP_PARTITION_NODES = 65536"

definition drop_props :: "cbm_gbuf \<Rightarrow> nat \<Rightarrow> cbm_gbuf" where
  "drop_props gb i = gb\<lparr>gb_nodes := (gb_nodes gb)[i := (gb_nodes gb ! i)\<lparr>n_props := None\<rparr>]\<rparr>"

function stream_nodes ::
    "'w db_writer \<Rightarrow> (nat \<Rightarrow> bool) \<Rightarrow> nat \<Rightarrow> bool \<Rightarrow> (CBMDumpNode \<times> nat) list \<Rightarrow> 'w \<Rightarrow> cbm_gbuf \<Rightarrow>
     int \<times> CBMDumpNode list \<times> 'w \<times> cbm_gbuf" where
  \<comment> \<open>the loop over the partitions: each row with the node it comes from\<close>
  "stream_nodes ops over k free_heavy rows w gb =
     (if rows = [] then (0, [], w, gb)
      else let chunk = take DUMP_PARTITION_NODES rows;
               rest = drop DUMP_PARTITION_NODES rows
           in case writer_append_nodes ops w (map fst chunk) of
                (rc, w) \<Rightarrow>
                  (if rc \<noteq> 0 then (rc, map fst rows, w, gb)
                   else let free_heavy = (free_heavy \<or> over k);
                            done_rows = (if free_heavy then map (\<lambda>r. (fst r)\<lparr>dmn_props := None\<rparr>) chunk else map fst chunk);
                            gb = (if free_heavy then foldl drop_props gb (map snd chunk) else gb)
                        in case stream_nodes ops over (k + 1) free_heavy rest w gb of
                             (rc, rows, w, gb) \<Rightarrow> (rc, done_rows @ rows, w, gb)))"
  by pat_completeness auto

termination
  by (relation "measure (\<lambda>(ops, over, k, free_heavy, rows, w, gb). length rows)") (auto simp: DUMP_PARTITION_NODES_def)

declare stream_nodes.simps [simp del]

definition cbm_gbuf_dump_to_sqlite ::
    "(string \<Rightarrow> string option) \<Rightarrow> (CBMDumpVector list \<Rightarrow> CBMDumpVector list) \<Rightarrow> 'w db_writer \<Rightarrow> (nat \<Rightarrow> bool) \<Rightarrow> string \<Rightarrow>
     cbm_gbuf \<Rightarrow> int \<times> 'w option \<times> cbm_gbuf" where
  "cbm_gbuf_dump_to_sqlite url_of qsort ops over indexed_at gb =
     (let max_temp_id = gb_next_id gb in
      case build_dump_nodes gb max_temp_id of
        (dump_nodes, temp_to_final) \<Rightarrow>
          (case writer_open ops of
             None \<Rightarrow> (- 1, None, gb)
           | Some w \<Rightarrow>
               (case stream_nodes ops over 0 False
                       (zip dump_nodes (filter (\<lambda>i. live_node gb (gb_nodes gb ! i)) [0..<length (gb_nodes gb)])) w gb of
                  (rc, dump_nodes, w, gb) \<Rightarrow>
                    (let dump_edges = (if rc = 0 then build_dump_edges url_of gb temp_to_final max_temp_id else []);
                         gb = (if rc = 0 then release_and_remap_vectors qsort gb temp_to_final max_temp_id else gb)
                     in case writer_finalize ops w (gb_project gb) (gb_root gb) indexed_at dump_nodes dump_edges
                               (dump_vectors gb) (dump_token_vecs gb) of
                          (frc, w) \<Rightarrow> (if rc = 0 then frc else rc, Some w, gb)))))"

section \<open>Flushing to the store\<close>

text \<open>
  The store is the argument: its operations over a state of any type, in the order the code calls them.
\<close>

record 'st store_ops =
  store_upsert_project :: "string \<Rightarrow> string \<Rightarrow> 'st \<Rightarrow> 'st"
  store_begin_bulk :: "'st \<Rightarrow> 'st"
  store_drop_indexes :: "'st \<Rightarrow> 'st"
  store_begin :: "'st \<Rightarrow> 'st"
  store_delete_edges_by_project :: "string \<Rightarrow> 'st \<Rightarrow> 'st"
  store_delete_nodes_by_project :: "string \<Rightarrow> 'st \<Rightarrow> 'st"
  store_upsert_node :: "cbm_gbuf_node_t \<Rightarrow> 'st \<Rightarrow> int \<times> 'st"
  store_insert_edge :: "cbm_gbuf_edge_t \<Rightarrow> 'st \<Rightarrow> 'st"
  store_commit :: "'st \<Rightarrow> 'st"
  store_create_indexes :: "'st \<Rightarrow> 'st"
  store_end_bulk :: "'st \<Rightarrow> 'st"

fun flush_nodes ::
    "'st store_ops \<Rightarrow> cbm_gbuf \<Rightarrow> int \<Rightarrow> cbm_gbuf_node_t list \<Rightarrow> (int \<Rightarrow> int) \<times> 'st \<Rightarrow> (int \<Rightarrow> int) \<times> 'st" where
  \<comment> \<open>the record handed to the store has no id\<close>
  "flush_nodes ops gb max_temp_id [] r = r"
| "flush_nodes ops gb max_temp_id (n # ns) (temp_to_real, st) =
     (if \<not> live_node gb n then flush_nodes ops gb max_temp_id ns (temp_to_real, st)
      else case store_upsert_node ops (n\<lparr>n_id := 0, n_project := gb_project gb\<rparr>) st of
        (real_id, st) \<Rightarrow>
          flush_nodes ops gb max_temp_id ns
            (if real_id > 0 \<and> n_id n < max_temp_id then temp_to_real(n_id n := real_id) else temp_to_real, st))"

fun flush_edges ::
    "'st store_ops \<Rightarrow> cbm_gbuf \<Rightarrow> int \<Rightarrow> (int \<Rightarrow> int) \<Rightarrow> cbm_gbuf_edge_t list \<Rightarrow> 'st \<Rightarrow> 'st" where
  "flush_edges ops gb max_temp_id temp_to_real [] st = st"
| "flush_edges ops gb max_temp_id temp_to_real (e # es) st =
     (let real_src = remap_id temp_to_real max_temp_id (ge_source e);
          real_tgt = remap_id temp_to_real max_temp_id (ge_target e)
      in flush_edges ops gb max_temp_id temp_to_real es
           (if real_src = 0 \<or> real_tgt = 0 then st
            else store_insert_edge ops
                   (e\<lparr>ge_id := 0, ge_project := gb_project gb, ge_source := real_src, ge_target := real_tgt\<rparr>) st))"

definition flush_rows :: "'st store_ops \<Rightarrow> cbm_gbuf \<Rightarrow> 'st \<Rightarrow> 'st" where
  \<comment> \<open>the two loops that \<open>cbm_gbuf_flush_to_store\<close> and \<open>cbm_gbuf_merge_into_store\<close> share\<close>
  "flush_rows ops gb st =
     (case flush_nodes ops gb (gb_next_id gb) (gb_nodes gb) (\<lambda>_. 0, st) of
        (temp_to_real, st) \<Rightarrow> flush_edges ops gb (gb_next_id gb) temp_to_real (edges_of gb (gb_edges gb)) st)"

definition cbm_gbuf_flush_to_store :: "'st store_ops \<Rightarrow> cbm_gbuf \<Rightarrow> 'st \<Rightarrow> int \<times> 'st" where
  "cbm_gbuf_flush_to_store ops gb st =
     (let st = store_upsert_project ops (gb_project gb) (gb_root gb) st;
          st = store_begin ops (store_drop_indexes ops (store_begin_bulk ops st));
          st = store_delete_nodes_by_project ops (gb_project gb) (store_delete_edges_by_project ops (gb_project gb) st);
          st = flush_rows ops gb st
      in (0, store_end_bulk ops (store_create_indexes ops (store_commit ops st))))"

definition cbm_gbuf_merge_into_store :: "'st store_ops \<Rightarrow> cbm_gbuf \<Rightarrow> 'st \<Rightarrow> int \<times> 'st" where
  "cbm_gbuf_merge_into_store ops gb st = (0, store_commit ops (flush_rows ops gb (store_begin ops st)))"

end
