(* ===== verification/MultiIndex.thy ===== *)
theory MultiIndex
  imports Main
begin

text \<open>
  The contract of a secondary index: a table that lists under each key the objects with that key. The graph
  buffer and the function registry rely on it; an index of the one also removes, an index of the other only grows.
\<close>

definition exact_index :: "('k \<Rightarrow> 'v list) \<Rightarrow> 'v set \<Rightarrow> ('v \<Rightarrow> 'k) \<Rightarrow> bool" where
  "exact_index ents S key \<longleftrightarrow> (\<forall>k. distinct (ents k) \<and> set (ents k) = {x \<in> S. key x = k})"

lemma exact_index_cong:
  "exact_index ents S key \<Longrightarrow> (\<And>x. x \<in> S \<Longrightarrow> key x = key' x) \<Longrightarrow> exact_index ents S key'"
  by (auto simp: exact_index_def)

lemma exact_indexD:
  "exact_index ents S key \<Longrightarrow> set (ents k) = {x \<in> S. key x = k}"
  "exact_index ents S key \<Longrightarrow> distinct (ents k)"
  by (auto simp: exact_index_def)

locale push_index =
  fixes entries :: "'m \<Rightarrow> 'k \<Rightarrow> 'v list"
    and empty_index :: 'm
    and push :: "'m \<Rightarrow> 'k \<Rightarrow> 'v \<Rightarrow> 'm"
  assumes entries_empty: "entries empty_index k = []"
    and entries_push: "entries (push m k x) k' = (if k' = k then entries m k @ [x] else entries m k')"
begin

lemma exact_empty: "exact_index (entries empty_index) {} key"
  by (simp add: exact_index_def entries_empty)

lemma exact_push:
  assumes "exact_index (entries m) S key" and "x \<notin> S"
  shows "exact_index (entries (push m (key x) x)) (insert x S) key"
  using assms by (auto simp: exact_index_def entries_push)

end

locale multi_index = push_index entries empty_index push
  for entries :: "'m \<Rightarrow> 'k \<Rightarrow> 'v list" and empty_index :: 'm and push :: "'m \<Rightarrow> 'k \<Rightarrow> 'v \<Rightarrow> 'm" +
  fixes remove :: "('v \<Rightarrow> bool) \<Rightarrow> 'm \<Rightarrow> 'k \<Rightarrow> 'm"
  assumes entries_remove_other: "k' \<noteq> k \<Longrightarrow> entries (remove P m k) k' = entries m k'"
    and entries_remove: "distinct (entries m k) \<Longrightarrow> x \<in> set (entries m k) \<Longrightarrow>
          (\<And>y. y \<in> set (entries m k) \<Longrightarrow> P y \<longleftrightarrow> y = x) \<Longrightarrow>
          distinct (entries (remove P m k) k) \<and> set (entries (remove P m k) k) = set (entries m k) - {x}"
    and entries_remove_none: "(\<And>y. y \<in> set (entries m k) \<Longrightarrow> \<not> P y) \<Longrightarrow> entries (remove P m k) k = entries m k"
begin

lemma exact_remove:
  assumes m: "exact_index (entries m) S key" and x: "x \<in> S" and P: "\<And>y. y \<in> S \<Longrightarrow> P y \<longleftrightarrow> y = x"
  shows "exact_index (entries (remove P m (key x))) (S - {x}) key"
  unfolding exact_index_def
proof
  fix k
  show "distinct (entries (remove P m (key x)) k) \<and> set (entries (remove P m (key x)) k) = {y \<in> S - {x}. key y = k}"
  proof (cases "k = key x")
    case True
    have "distinct (entries m (key x))" "x \<in> set (entries m (key x))"
      "y \<in> set (entries m (key x)) \<Longrightarrow> P y \<longleftrightarrow> y = x" for y
      using m x P by (auto simp: exact_index_def)
    from entries_remove [OF this] show ?thesis using m True by (auto simp: exact_index_def)
  next
    case False
    then show ?thesis using m by (auto simp: exact_index_def entries_remove_other)
  qed
qed

end

end
