(* ===== verification/GraphInvariant.thy ===== *)
theory GraphInvariant
  imports GraphBuffer MultiIndex
begin

text \<open>
  The invariant of the graph buffer and what its operations do. A secondary index is specified by
  the locale \<open>multi_index\<close>, which the tables of pointer arrays implement; the client's lemmas say that
  an index stays exact, that is, lists under each key the live objects with that key, each once.
\<close>

section \<open>Secondary indexes\<close>

lemma swap_remove_one:
  assumes "distinct xs" and "x \<in> set xs" and "\<And>y. y \<in> set xs \<Longrightarrow> P y \<longleftrightarrow> y = x"
  shows "distinct (swap_remove P xs) \<and> set (swap_remove P xs) = set xs - {x}"
  using assms
proof (induction xs)
  case (Cons a xs)
  show ?case
  proof (cases "P a")
    case True
    then have a: "a = x" using Cons.prems(3) [of a] by simp
    show ?thesis using True a Cons.prems(1) by (cases xs rule: rev_cases) auto
  next
    case False
    then have "a \<noteq> x" using Cons.prems(3) [of a] by simp
    then show ?thesis using Cons False by auto
  qed
qed simp

lemma swap_remove_none: "(\<And>y. y \<in> set xs \<Longrightarrow> \<not> P y) \<Longrightarrow> swap_remove P xs = xs"
  by (induction xs) auto

lemma array_at_remove:
  "array_at (array_remove P m k) k' = (if k' = k then swap_remove P (array_at m k) else array_at m k')"
  by (simp add: array_at_def array_remove_def split: option.splits)

interpretation ix: multi_index array_at Map.empty array_push array_remove
proof
  fix m :: "string \<rightharpoonup> nat list" and k k' :: string and x :: nat and P :: "nat \<Rightarrow> bool"
  show "array_at Map.empty k = []"
    and "array_at (array_push m k x) k' = (if k' = k then array_at m k @ [x] else array_at m k')"
    by (simp_all add: array_at_def array_push_def)
  show "k' \<noteq> k \<Longrightarrow> array_at (array_remove P m k) k' = array_at m k'" by (simp add: array_at_remove)
  show "(\<And>y. y \<in> set (array_at m k) \<Longrightarrow> \<not> P y) \<Longrightarrow> array_at (array_remove P m k) k = array_at m k"
    by (simp add: array_at_remove swap_remove_none)
  assume "distinct (array_at m k)" "x \<in> set (array_at m k)" "\<And>y. y \<in> set (array_at m k) \<Longrightarrow> P y \<longleftrightarrow> y = x"
  then show "distinct (array_at (array_remove P m k) k) \<and> set (array_at (array_remove P m k) k) = set (array_at m k) - {x}"
    by (simp add: array_at_remove swap_remove_one)
qed

section \<open>The invariant of the edges\<close>

abbreviation edge_at :: "cbm_gbuf \<Rightarrow> nat \<Rightarrow> cbm_gbuf_edge_t" where
  "edge_at gb x \<equiv> edge_heap gb ! x"

definition edge_key_at :: "cbm_gbuf_edge_t list \<Rightarrow> nat \<Rightarrow> string" where
  "edge_key_at heap x = make_edge_key (ge_source (heap ! x)) (ge_target (heap ! x)) (ge_type (heap ! x))"

definition source_key_at :: "cbm_gbuf_edge_t list \<Rightarrow> nat \<Rightarrow> string" where
  "source_key_at heap x = make_src_type_key (ge_source (heap ! x)) (ge_type (heap ! x))"

definition target_key_at :: "cbm_gbuf_edge_t list \<Rightarrow> nat \<Rightarrow> string" where
  "target_key_at heap x = make_src_type_key (ge_target (heap ! x)) (ge_type (heap ! x))"

definition edges_ok :: "cbm_gbuf \<Rightarrow> nat set \<Rightarrow> bool" where
  \<comment> \<open>the tables describe exactly the edges of \<open>S\<close>\<close>
  "edges_ok gb S \<longleftrightarrow>
     (\<forall>x \<in> S. x < length (edge_heap gb)) \<and> inj_on (\<lambda>x. ge_id (edge_at gb x)) S \<and>
     (\<forall>k x. edge_by_key gb k = Some x \<longleftrightarrow> x \<in> S \<and> edge_key_at (edge_heap gb) x = k) \<and>
     exact_index (array_at (edges_by_source_type gb)) S (source_key_at (edge_heap gb)) \<and>
     exact_index (array_at (edges_by_target_type gb)) S (target_key_at (edge_heap gb)) \<and>
     exact_index (array_at (edges_by_type gb)) S (\<lambda>x. ge_type (edge_at gb x))"

lemmas edge_keys = edge_key_at_def source_key_at_def target_key_at_def

definition node_part :: "cbm_gbuf \<Rightarrow> _" where
  \<comment> \<open>what an operation on edges leaves alone\<close>
  "node_part gb = (gb_project gb, gb_root gb, gb_nodes gb, node_by_qn gb, node_by_id gb, nodes_by_label gb, nodes_by_name gb,
     dump_vectors gb, dump_token_vecs gb)"

definition id_part :: "cbm_gbuf \<Rightarrow> int \<times> int option" where
  "id_part gb = (gb_next_id gb, shared_ids gb)"

lemma unindex_edge_frame [simp]:
  "node_part (unindex_edge gb x) = node_part gb" "id_part (unindex_edge gb x) = id_part gb"
  "edge_heap (unindex_edge gb x) = edge_heap gb" "gb_edges (unindex_edge gb x) = gb_edges gb"
  by (simp_all add: unindex_edge_def node_part_def id_part_def Let_def)

lemma unindex_edge_ok:
  assumes ok: "edges_ok gb S" and x: "x \<in> S"
  shows "edges_ok (unindex_edge gb x) (S - {x})"
proof -
  have P: "y \<in> S \<Longrightarrow> ge_id (edge_at gb y) = ge_id (edge_at gb x) \<longleftrightarrow> y = x" for y
    using ok x by (auto simp: edges_ok_def inj_on_def)
  have key: "edge_by_key gb k = Some y \<longleftrightarrow> y \<in> S \<and> edge_key_at (edge_heap gb) y = k" for k y
    using ok by (simp add: edges_ok_def)
  have "edge_by_key (unindex_edge gb x) k = Some y \<longleftrightarrow> y \<in> S - {x} \<and> edge_key_at (edge_heap gb) y = k" for k y
  proof (cases "k = edge_key_at (edge_heap gb) x")
    case True
    moreover have "edge_by_key gb k = Some x" using key [of k x] x True by simp
    ultimately show ?thesis using key [of k y] by (auto simp: unindex_edge_def edge_key_at_def Let_def)
  next
    case False
    then have "edge_by_key (unindex_edge gb x) k = edge_by_key gb k"
      by (simp add: unindex_edge_def edge_key_at_def Let_def)
    then show ?thesis using key [of k y] False by auto
  qed
  moreover have "exact_index (array_at (edges_by_source_type (unindex_edge gb x))) (S - {x}) (source_key_at (edge_heap gb))"
    using ix.exact_remove [of "edges_by_source_type gb" S "source_key_at (edge_heap gb)" x] ok x P
    by (simp add: edges_ok_def unindex_edge_def remove_edge_from_ptr_array_def source_key_at_def Let_def)
  moreover have "exact_index (array_at (edges_by_target_type (unindex_edge gb x))) (S - {x}) (target_key_at (edge_heap gb))"
    using ix.exact_remove [of "edges_by_target_type gb" S "target_key_at (edge_heap gb)" x] ok x P
    by (simp add: edges_ok_def unindex_edge_def remove_edge_from_ptr_array_def target_key_at_def Let_def)
  moreover have "exact_index (array_at (edges_by_type (unindex_edge gb x))) (S - {x}) (\<lambda>x. ge_type (edge_at gb x))"
    using ix.exact_remove [of "edges_by_type gb" S "\<lambda>x. ge_type (edge_at gb x)" x] ok x P
    by (simp add: edges_ok_def unindex_edge_def remove_edge_from_ptr_array_def Let_def)
  ultimately show ?thesis using ok by (auto simp: edges_ok_def intro: inj_on_subset)
qed

lemma edges_ok_edges: "edges_ok (gb\<lparr>gb_edges := xs\<rparr>) S = edges_ok gb S"
  by (simp add: edges_ok_def)

definition touched :: "(string \<Rightarrow> bool) \<Rightarrow> cbm_gbuf_edge_t \<Rightarrow> bool" where
  "touched deleted e \<longleftrightarrow> deleted (make_id_key (ge_source e)) \<or> deleted (make_id_key (ge_target e))"

lemma cascade_loop_Cons:
  "cascade_loop deleted (x # xs) kept gb =
     (if touched deleted (edge_at gb x) then cascade_loop deleted xs kept (unindex_edge gb x)
      else cascade_loop deleted xs (kept @ [x]) gb)"
  by (simp add: touched_def Let_def)

declare cascade_loop.simps(2) [simp del]

lemma cascade_loop_frame:
  "node_part (cascade_loop deleted xs kept gb) = node_part gb \<and>
   id_part (cascade_loop deleted xs kept gb) = id_part gb \<and>
   edge_heap (cascade_loop deleted xs kept gb) = edge_heap gb \<and>
   gb_edges (cascade_loop deleted xs kept gb) = kept @ filter (\<lambda>x. \<not> touched deleted (edge_at gb x)) xs"
proof (induction xs arbitrary: kept gb)
  case Nil
  then show ?case by (simp add: node_part_def id_part_def)
next
  case (Cons x xs)
  then show ?case by (simp add: cascade_loop_Cons)
qed

lemma cascade_loop_ok:
  assumes "edges_ok gb (set (kept @ xs))" and "distinct (kept @ xs)"
  shows "edges_ok (cascade_loop deleted xs kept gb) (set (kept @ filter (\<lambda>x. \<not> touched deleted (edge_at gb x)) xs))"
  using assms
proof (induction xs arbitrary: kept gb)
  case Nil
  then show ?case by (simp add: edges_ok_edges)
next
  case (Cons x xs)
  show ?case
  proof (cases "touched deleted (edge_at gb x)")
    case True
    have "set (kept @ x # xs) - {x} = set (kept @ xs)" using Cons.prems(2) by auto
    then have "edges_ok (unindex_edge gb x) (set (kept @ xs))"
      using unindex_edge_ok [OF Cons.prems(1), of x] by simp
    then show ?thesis using Cons.IH [of "unindex_edge gb x" kept] Cons.prems(2) True
      by (simp add: cascade_loop_Cons)
  next
    case False
    then show ?thesis using Cons.IH [of gb "kept @ [x]"] Cons.prems
      by (simp add: cascade_loop_Cons)
  qed
qed

lemma cascade_delete_edges_ok:
  assumes "edges_ok gb (set (gb_edges gb))" and "distinct (gb_edges gb)"
  shows "edges_ok (cascade_delete_edges gb deleted) (set (gb_edges (cascade_delete_edges gb deleted)))"
  using cascade_loop_ok [of gb "[]" "gb_edges gb" deleted] assms
  by (simp add: cascade_delete_edges_def cascade_loop_frame)

subsection \<open>Insertion and bulk deletion\<close>

definition edge_view :: "cbm_gbuf_edge_t \<Rightarrow> int \<times> int \<times> int \<times> string" where
  \<comment> \<open>the fields the tables depend on\<close>
  "edge_view e = (ge_id e, ge_source e, ge_target e, ge_type e)"

definition edge_tables :: "cbm_gbuf \<Rightarrow> _" where
  "edge_tables gb = (edge_by_key gb, edges_by_source_type gb, edges_by_target_type gb, edges_by_type gb)"

lemma edges_ok_cong:
  assumes ok: "edges_ok gb S" and tables: "edge_tables gb' = edge_tables gb"
    and len: "length (edge_heap gb) \<le> length (edge_heap gb')"
    and view: "\<And>x. x \<in> S \<Longrightarrow> edge_view (edge_at gb' x) = edge_view (edge_at gb x)"
  shows "edges_ok gb' S"
proof -
  have f: "ge_id (edge_at gb' x) = ge_id (edge_at gb x)" "ge_source (edge_at gb' x) = ge_source (edge_at gb x)"
    "ge_target (edge_at gb' x) = ge_target (edge_at gb x)" "ge_type (edge_at gb' x) = ge_type (edge_at gb x)" if "x \<in> S" for x
    using view [OF that] by (simp_all add: edge_view_def)
  have keys: "edge_key_at (edge_heap gb') x = edge_key_at (edge_heap gb) x"
    "source_key_at (edge_heap gb') x = source_key_at (edge_heap gb) x"
    "target_key_at (edge_heap gb') x = target_key_at (edge_heap gb) x" if "x \<in> S" for x
    using f [OF that] by (simp_all add: edge_keys)
  have "inj_on (\<lambda>x. ge_id (edge_at gb' x)) S = inj_on (\<lambda>x. ge_id (edge_at gb x)) S"
    by (rule inj_on_cong) (simp add: f)
  moreover have "exact_index (array_at (edges_by_type gb)) S (\<lambda>x. ge_type (edge_at gb' x))"
    by (rule exact_index_cong [where key = "\<lambda>x. ge_type (edge_at gb x)"]) (use ok in \<open>simp_all add: edges_ok_def f\<close>)
  moreover have "exact_index (array_at (edges_by_source_type gb)) S (source_key_at (edge_heap gb'))"
    by (rule exact_index_cong [where key = "source_key_at (edge_heap gb)"]) (use ok in \<open>simp_all add: edges_ok_def keys\<close>)
  moreover have "exact_index (array_at (edges_by_target_type gb)) S (target_key_at (edge_heap gb'))"
    by (rule exact_index_cong [where key = "target_key_at (edge_heap gb)"]) (use ok in \<open>simp_all add: edges_ok_def keys\<close>)
  moreover have "edge_by_key gb k = Some x \<longleftrightarrow> x \<in> S \<and> edge_key_at (edge_heap gb') x = k" for k x
    using ok keys [of x] by (auto simp: edges_ok_def)
  moreover have "\<forall>x \<in> S. x < length (edge_heap gb')" using ok len by (auto simp: edges_ok_def)
  ultimately show ?thesis using ok tables by (simp add: edges_ok_def edge_tables_def)
qed

definition push_edge :: "cbm_gbuf \<Rightarrow> cbm_gbuf_edge_t \<Rightarrow> cbm_gbuf" where
  \<comment> \<open>a new edge in its array and all its tables\<close>
  "push_edge gb e =
     register_edge_in_indexes
       (gb\<lparr>edge_heap := edge_heap gb @ [e], gb_edges := gb_edges gb @ [length (edge_heap gb)],
           edge_by_key := (edge_by_key gb)(make_edge_key (ge_source e) (ge_target e) (ge_type e) \<mapsto> length (edge_heap gb))\<rparr>)
       (length (edge_heap gb))"

lemma register_edge_frame [simp]:
  "node_part (register_edge_in_indexes gb x) = node_part gb" "id_part (register_edge_in_indexes gb x) = id_part gb"
  "edge_heap (register_edge_in_indexes gb x) = edge_heap gb" "gb_edges (register_edge_in_indexes gb x) = gb_edges gb"
  "edge_by_key (register_edge_in_indexes gb x) = edge_by_key gb"
  by (simp_all add: register_edge_in_indexes_def node_part_def id_part_def Let_def)

lemma push_edge_frame [simp]:
  "node_part (push_edge gb e) = node_part gb" "id_part (push_edge gb e) = id_part gb"
  "edge_heap (push_edge gb e) = edge_heap gb @ [e]" "gb_edges (push_edge gb e) = gb_edges gb @ [length (edge_heap gb)]"
  by (simp_all add: push_edge_def) (simp_all add: node_part_def id_part_def)

lemma register_edge_ok:
  assumes "exact_index (array_at (edges_by_source_type gb)) S (source_key_at (edge_heap gb))"
    and "exact_index (array_at (edges_by_target_type gb)) S (target_key_at (edge_heap gb))"
    and "exact_index (array_at (edges_by_type gb)) S (\<lambda>x. ge_type (edge_at gb x))" and "x \<notin> S"
  shows "exact_index (array_at (edges_by_source_type (register_edge_in_indexes gb x))) (insert x S) (source_key_at (edge_heap gb))"
    and "exact_index (array_at (edges_by_target_type (register_edge_in_indexes gb x))) (insert x S) (target_key_at (edge_heap gb))"
    and "exact_index (array_at (edges_by_type (register_edge_in_indexes gb x))) (insert x S) (\<lambda>x. ge_type (edge_at gb x))"
  using assms ix.exact_push [of "edges_by_source_type gb" S "source_key_at (edge_heap gb)" x]
    ix.exact_push [of "edges_by_target_type gb" S "target_key_at (edge_heap gb)" x]
    ix.exact_push [of "edges_by_type gb" S "\<lambda>x. ge_type (edge_at gb x)" x]
  by (simp_all add: register_edge_in_indexes_def edge_keys Let_def)

lemma push_edge_ok:
  assumes ok: "edges_ok gb S" and new: "edge_by_key gb (make_edge_key (ge_source e) (ge_target e) (ge_type e)) = None"
    and fresh: "\<And>x. x \<in> S \<Longrightarrow> ge_id (edge_at gb x) \<noteq> ge_id e"
  shows "edges_ok (push_edge gb e) (insert (length (edge_heap gb)) S)"
proof -
  define x where "x = length (edge_heap gb)"
  define g where "g = gb\<lparr>edge_heap := edge_heap gb @ [e], gb_edges := gb_edges gb @ [x],
                         edge_by_key := (edge_by_key gb)(make_edge_key (ge_source e) (ge_target e) (ge_type e) \<mapsto> x)\<rparr>"
  have p: "push_edge gb e = register_edge_in_indexes g x" by (simp add: push_edge_def g_def x_def)
  have lt: "y < length (edge_heap gb)" if "y \<in> S" for y using ok that by (simp add: edges_ok_def)
  then have xS: "x \<notin> S" by (auto simp: x_def)
  have "edges_ok (gb\<lparr>edge_heap := edge_heap g, gb_edges := gb_edges g\<rparr>) S"
    by (rule edges_ok_cong [OF ok]) (simp_all add: edge_tables_def g_def nth_append lt)
  then have old: "exact_index (array_at (edges_by_source_type g)) S (source_key_at (edge_heap g))"
    "exact_index (array_at (edges_by_target_type g)) S (target_key_at (edge_heap g))"
    "exact_index (array_at (edges_by_type g)) S (\<lambda>x. ge_type (edge_at g x))"
    "edge_by_key gb k = Some y \<longleftrightarrow> y \<in> S \<and> edge_key_at (edge_heap g) y = k"
    "inj_on (\<lambda>x. ge_id (edge_at g x)) S" for k y
    by (simp_all add: edges_ok_def g_def)
  have ex: "edge_at g x = e" by (simp add: g_def x_def)
  have "edge_by_key g k = Some y \<longleftrightarrow> y \<in> insert x S \<and> edge_key_at (edge_heap g) y = k" for k y
  proof (cases "k = edge_key_at (edge_heap g) x")
    case True
    then have k: "k = make_edge_key (ge_source e) (ge_target e) (ge_type e)" by (simp add: edge_key_at_def ex)
    then have "edge_by_key g k = Some x" "\<not> (y \<in> S \<and> edge_key_at (edge_heap g) y = k)"
      using old(4) [of k y] new by (simp_all add: g_def)
    then show ?thesis using True by auto
  next
    case False
    then have "edge_by_key g k = edge_by_key gb k" by (simp add: edge_key_at_def ex) (simp add: g_def)
    then show ?thesis using old(4) [of k y] False by auto
  qed
  moreover have "inj_on (\<lambda>y. ge_id (edge_at g y)) (insert x S)"
  proof -
    have "ge_id e \<noteq> ge_id (edge_at g y)" if "y \<in> S" for y
      using fresh [OF that] lt [OF that] by (simp add: g_def nth_append)
    then have "\<forall>y \<in> S. ge_id e \<noteq> ge_id (edge_at g y)" by blast
    then show ?thesis using old(5) by (auto simp: ex)
  qed
  moreover have "\<forall>y \<in> insert x S. y < length (edge_heap g)" using lt by (auto simp: g_def x_def less_Suc_eq)
  ultimately show ?thesis using register_edge_ok [OF old(1-3) xS] p by (simp add: edges_ok_def x_def)
qed

lemma rebuild_loop:
  assumes "exact_index (array_at (edges_by_source_type gb)) S (source_key_at (edge_heap gb))"
    and "exact_index (array_at (edges_by_target_type gb)) S (target_key_at (edge_heap gb))"
    and "exact_index (array_at (edges_by_type gb)) S (\<lambda>x. ge_type (edge_at gb x))"
    and "distinct xs" and "set xs \<inter> S = {}"
  shows "exact_index (array_at (edges_by_source_type (foldl register_edge_in_indexes gb xs))) (S \<union> set xs) (source_key_at (edge_heap gb)) \<and>
    exact_index (array_at (edges_by_target_type (foldl register_edge_in_indexes gb xs))) (S \<union> set xs) (target_key_at (edge_heap gb)) \<and>
    exact_index (array_at (edges_by_type (foldl register_edge_in_indexes gb xs))) (S \<union> set xs) (\<lambda>x. ge_type (edge_at gb x))"
  using assms
proof (induction xs arbitrary: gb S)
  case (Cons x xs)
  then have "x \<notin> S" by simp
  note reg = register_edge_ok [OF Cons.prems(1-3) this]
  show ?case using Cons.IH [of "register_edge_in_indexes gb x" "insert x S"] reg Cons.prems(4,5) by auto
qed simp

lemma register_edges_frame [simp]:
  "node_part (foldl register_edge_in_indexes gb xs) = node_part gb" "id_part (foldl register_edge_in_indexes gb xs) = id_part gb"
  "edge_heap (foldl register_edge_in_indexes gb xs) = edge_heap gb" "gb_edges (foldl register_edge_in_indexes gb xs) = gb_edges gb"
  "edge_by_key (foldl register_edge_in_indexes gb xs) = edge_by_key gb"
  by (induction xs arbitrary: gb) simp_all

lemma rebuild_frame [simp]:
  "node_part (rebuild_edge_secondary_indexes gb) = node_part gb" "id_part (rebuild_edge_secondary_indexes gb) = id_part gb"
  "edge_heap (rebuild_edge_secondary_indexes gb) = edge_heap gb" "gb_edges (rebuild_edge_secondary_indexes gb) = gb_edges gb"
  "edge_by_key (rebuild_edge_secondary_indexes gb) = edge_by_key gb"
  by (simp_all add: rebuild_edge_secondary_indexes_def) (simp_all add: node_part_def id_part_def)

definition forget_key :: "cbm_gbuf \<Rightarrow> nat \<Rightarrow> cbm_gbuf" where
  "forget_key gb x = gb\<lparr>edge_by_key := (edge_by_key gb)(edge_key_at (edge_heap gb) x := None)\<rparr>"

lemma forget_key_frame [simp]:
  "node_part (forget_key gb x) = node_part gb" "id_part (forget_key gb x) = id_part gb"
  "edge_heap (forget_key gb x) = edge_heap gb" "gb_edges (forget_key gb x) = gb_edges gb"
  by (simp_all add: forget_key_def node_part_def id_part_def)

lemma delete_type_loop_Cons:
  "delete_type_loop type (x # xs) kept gb =
     (if ge_type (edge_at gb x) = type then delete_type_loop type xs kept (forget_key gb x)
      else delete_type_loop type xs (kept @ [x]) gb)"
  by (simp add: forget_key_def edge_key_at_def Let_def)

declare delete_type_loop.simps(2) [simp del]

lemma delete_type_loop_frame:
  "node_part (delete_type_loop type xs kept gb) = node_part gb \<and> id_part (delete_type_loop type xs kept gb) = id_part gb \<and>
   edge_heap (delete_type_loop type xs kept gb) = edge_heap gb \<and>
   gb_edges (delete_type_loop type xs kept gb) = kept @ filter (\<lambda>x. ge_type (edge_at gb x) \<noteq> type) xs"
proof (induction xs arbitrary: kept gb)
  case Nil
  then show ?case by (simp add: node_part_def id_part_def)
next
  case (Cons x xs)
  then show ?case by (simp add: delete_type_loop_Cons)
qed

lemma delete_type_loop_keys:
  assumes "\<And>k x. edge_by_key gb k = Some x \<longleftrightarrow> x \<in> set (kept @ xs) \<and> edge_key_at (edge_heap gb) x = k" and "distinct (kept @ xs)"
  shows "edge_by_key (delete_type_loop type xs kept gb) k = Some x \<longleftrightarrow>
    x \<in> set (kept @ filter (\<lambda>x. ge_type (edge_at gb x) \<noteq> type) xs) \<and> edge_key_at (edge_heap gb) x = k"
  using assms
proof (induction xs arbitrary: kept gb)
  case (Cons y ys)
  show ?case
  proof (cases "ge_type (edge_at gb y) = type")
    case True
    have inj: "z \<in> set (kept @ y # ys) \<Longrightarrow> edge_key_at (edge_heap gb) z = edge_key_at (edge_heap gb) y \<longleftrightarrow> z = y" for z
      using Cons.prems(1) [of "edge_key_at (edge_heap gb) y" z] Cons.prems(1) [of "edge_key_at (edge_heap gb) y" y] by auto
    have "edge_by_key (forget_key gb y) k = Some z \<longleftrightarrow> z \<in> set (kept @ ys) \<and> edge_key_at (edge_heap gb) z = k" for k z
    proof (cases "k = edge_key_at (edge_heap gb) y")
      case True
      then show ?thesis using inj [of z] Cons.prems(2) by (auto simp: forget_key_def)
    next
      case False
      then show ?thesis using Cons.prems(1) [of k z] by (auto simp: forget_key_def)
    qed
    then show ?thesis using Cons.IH [of "forget_key gb y" kept] Cons.prems(2) True by (simp add: delete_type_loop_Cons)
  next
    case False
    then show ?thesis using Cons.IH [of gb "kept @ [y]"] Cons.prems by (simp add: delete_type_loop_Cons)
  qed
qed simp

lemma delete_edges_by_type_ok:
  assumes ok: "edges_ok gb (set (gb_edges gb))" and d: "distinct (gb_edges gb)"
    and r: "cbm_gbuf_delete_edges_by_type gb (Some t) = (rc, gb')"
  shows "edges_ok gb' (set (gb_edges gb'))"
    and "gb_edges gb' = filter (\<lambda>x. ge_type (edge_at gb x) \<noteq> t) (gb_edges gb)"
    and "edge_heap gb' = edge_heap gb" "node_part gb' = node_part gb" "id_part gb' = id_part gb"
proof -
  define g where "g = delete_type_loop t (gb_edges gb) [] gb"
  have g': "gb' = rebuild_edge_secondary_indexes g" using r by (simp add: cbm_gbuf_delete_edges_by_type_def g_def)
  have fr: "edge_heap g = edge_heap gb" "gb_edges g = filter (\<lambda>x. ge_type (edge_at gb x) \<noteq> t) (gb_edges gb)"
    "node_part g = node_part gb" "id_part g = id_part gb"
    by (simp_all add: g_def delete_type_loop_frame)
  then show "gb_edges gb' = filter (\<lambda>x. ge_type (edge_at gb x) \<noteq> t) (gb_edges gb)"
    "edge_heap gb' = edge_heap gb" "node_part gb' = node_part gb" "id_part gb' = id_part gb" by (simp_all add: g')
  have "edge_by_key g k = Some x \<longleftrightarrow> x \<in> set (gb_edges g) \<and> edge_key_at (edge_heap g) x = k" for k x
    using delete_type_loop_keys [of gb "[]" "gb_edges gb" t k x] ok d fr by (simp add: edges_ok_def g_def)
  moreover have "distinct (gb_edges g)" using d fr by simp
  moreover have "inj_on (\<lambda>x. ge_id (edge_at g x)) (set (gb_edges g))" "\<forall>x \<in> set (gb_edges g). x < length (edge_heap g)"
    using ok fr by (auto simp: edges_ok_def intro: inj_on_subset)
  moreover note rebuild_loop [of "g\<lparr>edges_by_source_type := Map.empty, edges_by_target_type := Map.empty, edges_by_type := Map.empty\<rparr>" "{}" "gb_edges g"]
  ultimately show "edges_ok gb' (set (gb_edges gb'))"
    by (simp add: g' edges_ok_def) (simp add: rebuild_edge_secondary_indexes_def ix.exact_empty)
qed

section \<open>The invariant of the nodes\<close>

lemma make_id_key_inject: "int64 i \<Longrightarrow> int64 j \<Longrightarrow> make_id_key i = make_id_key j \<longleftrightarrow> i = j"
  using print_int_length [of i] print_int_length [of j] by (simp add: make_id_key_def print_int_inject)

abbreviation node_at :: "cbm_gbuf \<Rightarrow> nat \<Rightarrow> cbm_gbuf_node_t" where
  "node_at gb i \<equiv> gb_nodes gb ! i"

definition nodes_ok :: "cbm_gbuf \<Rightarrow> bool" where
  \<comment> \<open>a node is live as long as it has a qualified name; the two primary indexes hold the live nodes\<close>
  "nodes_ok gb \<longleftrightarrow>
     distinct (map n_id (gb_nodes gb)) \<and> (\<forall>n \<in> set (gb_nodes gb). int64 (n_id n)) \<and>
     (\<forall>q i. node_by_qn gb q = Some i \<longleftrightarrow> i < length (gb_nodes gb) \<and> n_qn (node_at gb i) = Some q) \<and>
     (\<forall>k i. node_by_id gb k = Some i \<longleftrightarrow>
        i < length (gb_nodes gb) \<and> n_qn (node_at gb i) \<noteq> None \<and> make_id_key (n_id (node_at gb i)) = k)"

lemma nodes_okD:
  assumes "nodes_ok gb"
  shows "distinct (map n_id (gb_nodes gb))"
    and "i < length (gb_nodes gb) \<Longrightarrow> int64 (n_id (node_at gb i))"
    and "node_by_qn gb q = Some i \<longleftrightarrow> i < length (gb_nodes gb) \<and> n_qn (node_at gb i) = Some q"
    and "node_by_id gb k = Some i \<longleftrightarrow>
           i < length (gb_nodes gb) \<and> n_qn (node_at gb i) \<noteq> None \<and> make_id_key (n_id (node_at gb i)) = k"
    and "i < length (gb_nodes gb) \<Longrightarrow> j < length (gb_nodes gb) \<Longrightarrow> n_id (node_at gb i) = n_id (node_at gb j) \<longleftrightarrow> i = j"
  using assms by (auto simp: nodes_ok_def distinct_conv_nth nth_eq_iff_index_eq)

lemma nodes_ok_part: "node_part gb' = node_part gb \<Longrightarrow> nodes_ok gb' = nodes_ok gb"
  by (simp add: nodes_ok_def node_part_def)

lemma nodes_ok_update:
  assumes ok: "nodes_ok gb" and i: "i < length (gb_nodes gb)"
    and n: "n_id n = n_id (node_at gb i)" "n_qn n = n_qn (node_at gb i)"
  shows "nodes_ok (gb\<lparr>gb_nodes := (gb_nodes gb)[i := n]\<rparr>)"
proof -
  have same: "n_id ((gb_nodes gb)[i := n] ! j) = n_id (node_at gb j)" "n_qn ((gb_nodes gb)[i := n] ! j) = n_qn (node_at gb j)" for j
    using i n by (cases "j = i"; simp)+
  then have "map n_id ((gb_nodes gb)[i := n]) = map n_id (gb_nodes gb)" by (simp add: list_eq_iff_nth_eq)
  then have "distinct (map n_id ((gb_nodes gb)[i := n]))" "n_id ` set ((gb_nodes gb)[i := n]) = n_id ` set (gb_nodes gb)"
    using ok by (simp_all add: nodes_ok_def flip: set_map)
  moreover from this have "\<forall>n \<in> set ((gb_nodes gb)[i := n]). int64 (n_id n)"
    using ok by (metis (mono_tags, lifting) image_iff nodes_ok_def)
  ultimately show ?thesis using ok by (simp add: nodes_ok_def same)
qed

definition push_node :: "cbm_gbuf \<Rightarrow> cbm_gbuf_node_t \<Rightarrow> cbm_gbuf" where
  "push_node gb n = register_node_in_indexes (gb\<lparr>gb_nodes := gb_nodes gb @ [n]\<rparr>) (length (gb_nodes gb))"

definition edge_part :: "cbm_gbuf \<Rightarrow> _" where
  \<comment> \<open>what an operation on nodes leaves alone\<close>
  "edge_part gb = (edge_heap gb, gb_edges gb, edge_tables gb)"

lemma edge_part_eq:
  "edge_part gb' = edge_part gb \<longleftrightarrow>
     edge_heap gb' = edge_heap gb \<and> gb_edges gb' = gb_edges gb \<and> edge_tables gb' = edge_tables gb"
  by (simp add: edge_part_def)

lemma edges_ok_part: "edge_part gb' = edge_part gb \<Longrightarrow> edges_ok gb' S = edges_ok gb S"
  by (simp add: edges_ok_def edge_part_def edge_tables_def)

lemma push_node_frame [simp]:
  "gb_nodes (push_node gb n) = gb_nodes gb @ [n]" "edge_part (push_node gb n) = edge_part gb" "id_part (push_node gb n) = id_part gb"
  by (simp_all add: push_node_def register_node_in_indexes_def edge_part_def edge_tables_def id_part_def Let_def)

lemma nodes_ok_push:
  assumes ok: "nodes_ok gb" and q: "n_qn n = Some q" "node_by_qn gb q = None"
    and fresh: "n_id n \<notin> n_id ` set (gb_nodes gb)" and int64: "int64 (n_id n)"
  shows "nodes_ok (push_node gb n)"
proof -
  let ?m = "length (gb_nodes gb)"
  have key: "make_id_key (n_id (node_at gb i)) \<noteq> make_id_key (n_id n)" if "i < ?m" for i
    using fresh int64 that make_id_key_inject [OF nodes_okD(2) [OF ok that] int64]
    by (metis image_eqI nth_mem)
  have qn: "n_qn (node_at gb i) \<noteq> Some q" if "i < ?m" for i
    using nodes_okD(3) [OF ok, of q i] q(2) that by simp
  have "node_by_qn (push_node gb n) p = Some i \<longleftrightarrow> i < Suc ?m \<and> n_qn ((gb_nodes gb @ [n]) ! i) = Some p" for p i
    using nodes_okD(3) [OF ok, of p i] q(1) qn [of i]
    by (auto simp: push_node_def register_node_in_indexes_def Let_def nth_append less_Suc_eq)
  moreover have "node_by_id (push_node gb n) k = Some i \<longleftrightarrow>
      i < Suc ?m \<and> n_qn ((gb_nodes gb @ [n]) ! i) \<noteq> None \<and> make_id_key (n_id ((gb_nodes gb @ [n]) ! i)) = k" for k i
    using nodes_okD(4) [OF ok, of k i] q(1) key [of i]
    by (auto simp: push_node_def register_node_in_indexes_def Let_def nth_append less_Suc_eq)
  ultimately show ?thesis using ok fresh int64 by (auto simp: nodes_ok_def)
qed

lemma upsert_cases:
  obtains (none) "qn = None" "cbm_gbuf_upsert_node gb label name qn fp s e props = (0, gb)"
  | (existing) q i n where "qn = Some q" "node_by_qn gb q = Some i"
      "n = (node_at gb i)\<lparr>n_label := gb_intern label, n_name := heap_strdup name, n_file := gb_intern fp, n_start := s, n_end := e,
              n_props := (case props of Some p \<Rightarrow> Some p | None \<Rightarrow> n_props (node_at gb i))\<rparr>"
      "cbm_gbuf_upsert_node gb label name qn fp s e props = (n_id (node_at gb i), gb\<lparr>gb_nodes := (gb_nodes gb)[i := n]\<rparr>)"
  | (new) q n where "qn = Some q" "node_by_qn gb q = None"
      "n = \<lparr>n_id = fst (alloc_next_id gb), n_project = gb_project gb, n_label = gb_intern label, n_name = heap_strdup name, n_qn = Some q,
            n_file = gb_intern fp, n_start = s, n_end = e, n_props = Some (heap_strdup props)\<rparr>"
      "cbm_gbuf_upsert_node gb label name qn fp s e props = (n_id n, push_node (snd (alloc_next_id gb)) n)"
proof (cases qn)
  case (Some q)
  show ?thesis
  proof (cases "node_by_qn gb q")
    case None
    have "gb_nodes (snd (alloc_next_id gb)) = gb_nodes gb" "gb_project (snd (alloc_next_id gb)) = gb_project gb"
      by (simp_all add: alloc_next_id_def split: option.splits)
    then show ?thesis using Some None new [OF Some None refl]
      by (simp add: cbm_gbuf_upsert_node_def push_node_def Let_def case_prod_beta)
  next
    case (Some i)
    then show ?thesis using \<open>qn = Some q\<close> existing [OF \<open>qn = Some q\<close> Some refl]
      by (simp add: cbm_gbuf_upsert_node_def Let_def)
  qed
qed (simp add: none cbm_gbuf_upsert_node_def)

section \<open>The invariant of the buffer\<close>

abbreviation next_of :: "cbm_gbuf \<Rightarrow> int" where
  "next_of gb \<equiv> cbm_gbuf_next_id (Some gb)"

definition ids_ok :: "cbm_gbuf \<Rightarrow> bool" where
  "ids_ok gb \<longleftrightarrow> 1 \<le> next_of gb \<and> (\<forall>n \<in> set (gb_nodes gb). 1 \<le> n_id n \<and> n_id n < next_of gb) \<and>
     (\<forall>x \<in> set (gb_edges gb). 1 \<le> ge_id (edge_at gb x) \<and> ge_id (edge_at gb x) < next_of gb)"

definition gb_inv :: "cbm_gbuf \<Rightarrow> bool" where
  "gb_inv gb \<longleftrightarrow> nodes_ok gb \<and> distinct (gb_edges gb) \<and> edges_ok gb (set (gb_edges gb)) \<and> ids_ok gb"

definition live_ids :: "cbm_gbuf \<Rightarrow> int set" where
  "live_ids gb = n_id ` {n \<in> set (gb_nodes gb). n_qn n \<noteq> None}"

definition refs_ok :: "cbm_gbuf \<Rightarrow> bool" where
  \<comment> \<open>referential integrity: the endpoints of every edge are live nodes\<close>
  "refs_ok gb \<longleftrightarrow> (\<forall>x \<in> set (gb_edges gb). ge_source (edge_at gb x) \<in> live_ids gb \<and> ge_target (edge_at gb x) \<in> live_ids gb)"

lemma next_of_part: "id_part gb' = id_part gb \<Longrightarrow> next_of gb' = next_of gb"
  by (simp add: cbm_gbuf_next_id_def id_part_def split: option.splits)

lemma live_ids_part: "gb_nodes gb' = gb_nodes gb \<Longrightarrow> live_ids gb' = live_ids gb"
  by (simp add: live_ids_def)

lemma live_ids_iff:
  "k \<in> live_ids gb \<longleftrightarrow> (\<exists>i < length (gb_nodes gb). n_id (node_at gb i) = k \<and> n_qn (node_at gb i) \<noteq> None)"
  by (auto simp: live_ids_def image_iff in_set_conv_nth)

lemma live_ids_update:
  assumes "i < length (gb_nodes gb)" and "n_id n = n_id (node_at gb i)" "n_qn n = n_qn (node_at gb i)"
  shows "live_ids (gb\<lparr>gb_nodes := (gb_nodes gb)[i := n]\<rparr>) = live_ids gb"
proof -
  have "n_id ((gb_nodes gb)[i := n] ! j) = n_id (node_at gb j)" "n_qn ((gb_nodes gb)[i := n] ! j) = n_qn (node_at gb j)" for j
    using assms by (cases "j = i"; simp)+
  then show ?thesis by (auto simp: live_ids_iff)
qed

lemma live_ids_push:
  "gb_nodes gb' = gb_nodes gb @ [n] \<Longrightarrow> n_qn n \<noteq> None \<Longrightarrow> live_ids gb' = insert (n_id n) (live_ids gb)"
  by (auto simp: live_ids_def image_iff)

lemma node_part_nodes: "node_part gb' = node_part gb \<Longrightarrow> gb_nodes gb' = gb_nodes gb"
  by (simp add: node_part_def)

lemma alloc_next_id [simp]:
  "fst (alloc_next_id gb) = next_of gb" "next_of (snd (alloc_next_id gb)) = next_of gb + 1"
  "node_part (snd (alloc_next_id gb)) = node_part gb" "edge_part (snd (alloc_next_id gb)) = edge_part gb"
  "gb_nodes (snd (alloc_next_id gb)) = gb_nodes gb" "edge_heap (snd (alloc_next_id gb)) = edge_heap gb"
  "gb_edges (snd (alloc_next_id gb)) = gb_edges gb" "node_by_qn (snd (alloc_next_id gb)) = node_by_qn gb"
  by (simp_all add: alloc_next_id_def cbm_gbuf_next_id_def node_part_def edge_part_def edge_tables_def split: option.splits)

lemma next_push_node [simp]: "next_of (push_node gb n) = next_of gb"
  by (rule next_of_part) simp

lemma next_push_edge [simp]: "next_of (push_edge gb e) = next_of gb"
  by (rule next_of_part) simp

lemma next_nodes [simp]: "next_of (gb\<lparr>gb_nodes := ns\<rparr>) = next_of gb"
  by (rule next_of_part) (simp add: id_part_def)

lemma int64_id: "1 \<le> i \<Longrightarrow> i < n \<Longrightarrow> n \<le> LONG_MAX \<Longrightarrow> int64 i"
  by (simp add: int64_def LONG_MIN_def LONG_MAX_def)

lemma upsert_inv:
  assumes inv: "gb_inv gb" and r: "cbm_gbuf_upsert_node gb label name qn fp s e props = (nid, gb')"
    and room: "next_of gb' \<le> LONG_MAX"
  shows "gb_inv gb'" and "edge_part gb' = edge_part gb" and "live_ids gb \<subseteq> live_ids gb'" and "next_of gb \<le> next_of gb'"
    and "qn \<noteq> None \<Longrightarrow> nid \<in> live_ids gb'" and "qn = None \<Longrightarrow> nid = 0"
proof -
  have ok: "nodes_ok gb" and ids: "ids_ok gb" using inv by (auto simp: gb_inv_def)
  have "gb_inv gb' \<and> edge_part gb' = edge_part gb \<and> live_ids gb \<subseteq> live_ids gb' \<and> next_of gb \<le> next_of gb' \<and>
        (qn \<noteq> None \<longrightarrow> nid \<in> live_ids gb') \<and> (qn = None \<longrightarrow> nid = 0)"
  proof (cases rule: upsert_cases [of qn gb label name fp s e props])
    case none
    then show ?thesis using inv r by simp
  next
    case (existing q i n)
    have i: "i < length (gb_nodes gb)" "n_qn (node_at gb i) = Some q" using nodes_okD(3) [OF ok] existing(2) by auto
    have g': "gb' = gb\<lparr>gb_nodes := (gb_nodes gb)[i := n]\<rparr>" "nid = n_id (node_at gb i)" using existing(4) r by auto
    have n: "n_id n = n_id (node_at gb i)" "n_qn n = n_qn (node_at gb i)" by (simp_all add: existing(3))
    have part: "edge_part gb' = edge_part gb" by (simp add: g' edge_part_def edge_tables_def)
    have "ids_ok gb'" using ids i(1) n(1) by (auto simp: ids_ok_def g' dest!: subsetD [OF set_update_subset_insert])
    moreover have "live_ids gb' = live_ids gb" unfolding g' by (rule live_ids_update [OF i(1) n])
    moreover have "nid \<in> live_ids gb" using i by (auto simp: live_ids_iff g')
    ultimately show ?thesis
      using nodes_ok_update [OF ok i(1) n] inv edges_ok_part [OF part] part i existing(1)
      by (auto simp: gb_inv_def g' edge_part_eq)
  next
    case (new q n)
    define g where "g = snd (alloc_next_id gb)"
    have g': "gb' = push_node g n" "nid = n_id n" using new(4) r by (auto simp: g_def)
    have nid: "n_id n = next_of gb" "n_qn n = Some q" by (simp_all add: new(3))
    have room': "next_of gb + 1 \<le> LONG_MAX" using room by (simp add: g' g_def)
    have frame: "gb_nodes g = gb_nodes gb" "node_by_qn g = node_by_qn gb" "edge_part g = edge_part gb" "nodes_ok g"
      using alloc_next_id(3) [of gb] ok nodes_ok_part [of g gb] by (auto simp: g_def node_part_def)
    have "n_id n \<notin> n_id ` set (gb_nodes g)" using ids by (auto simp: ids_ok_def nid frame)
    moreover have "int64 (n_id n)" using ids room' int64_id [of "next_of gb" "next_of gb + 1"] by (simp add: nid ids_ok_def)
    ultimately have "nodes_ok gb'" using nodes_ok_push [OF frame(4) nid(2)] new(2) by (simp add: g' frame)
    moreover have part: "edge_part gb' = edge_part gb" by (simp add: g' frame)
    moreover have res: "gb_nodes gb' = gb_nodes gb @ [n]" "next_of gb' = next_of gb + 1"
      using frame(1) by (simp_all add: g') (simp add: g_def)
    moreover have es: "edge_heap gb' = edge_heap gb" "gb_edges gb' = gb_edges gb" using part by (simp_all add: edge_part_eq)
    moreover have "ids_ok gb'" using ids by (auto simp: ids_ok_def res es nid)
    ultimately show ?thesis using inv edges_ok_part [OF part] nid new(1)
        live_ids_push [of gb' gb n] by (auto simp: gb_inv_def g'(2))
  qed
  then show "gb_inv gb'" "edge_part gb' = edge_part gb" "live_ids gb \<subseteq> live_ids gb'" "next_of gb \<le> next_of gb'"
    "qn \<noteq> None \<Longrightarrow> nid \<in> live_ids gb'" "qn = None \<Longrightarrow> nid = 0" by auto
qed

lemma insert_edge_cases:
  obtains (none) "type = None" "cbm_gbuf_insert_edge gb src tgt type props = (0, gb)"
  | (existing) t x e where "type = Some t" "edge_by_key gb (make_edge_key src tgt t) = Some x"
      "edge_view e = edge_view (edge_at gb x)"
      "ge_props e = (case props of Some p \<Rightarrow> (if p \<noteq> ''{}'' then p else ge_props (edge_at gb x)) | None \<Rightarrow> ge_props (edge_at gb x))"
      "cbm_gbuf_insert_edge gb src tgt type props = (ge_id (edge_at gb x), gb\<lparr>edge_heap := (edge_heap gb)[x := e]\<rparr>)"
  | (new) t e where "type = Some t" "edge_by_key gb (make_edge_key src tgt t) = None"
      "e = \<lparr>ge_id = next_of gb, ge_project = gb_project gb, ge_source = src, ge_target = tgt, ge_type = t, ge_props = heap_strdup props\<rparr>"
      "cbm_gbuf_insert_edge gb src tgt type props = (next_of gb, push_edge (snd (alloc_next_id gb)) e)"
proof (cases type)
  case (Some t)
  show ?thesis
  proof (cases "edge_by_key gb (make_edge_key src tgt t)")
    case None
    have "gb_project (snd (alloc_next_id gb)) = gb_project gb" by (simp add: alloc_next_id_def split: option.splits)
    then show ?thesis using Some None new [OF Some None refl] alloc_next_id(1) [of gb]
      by (simp add: cbm_gbuf_insert_edge_def push_edge_def gb_intern_def Let_def case_prod_beta)
  next
    case (Some x)
    show ?thesis
      by (rule existing [OF \<open>type = Some t\<close> Some,
            of "case props of Some p \<Rightarrow> (if p \<noteq> ''{}'' then (edge_at gb x)\<lparr>ge_props := p\<rparr> else edge_at gb x) | None \<Rightarrow> edge_at gb x"])
         (simp_all add: cbm_gbuf_insert_edge_def \<open>type = Some t\<close> Some Let_def edge_view_def split: option.splits)
  qed
qed (simp add: none cbm_gbuf_insert_edge_def)

lemma insert_edge_inv:
  assumes inv: "gb_inv gb" and r: "cbm_gbuf_insert_edge gb src tgt type props = (nid, gb')"
  shows "gb_inv gb'" and "node_part gb' = node_part gb" and "next_of gb \<le> next_of gb'"
    and "x \<in> set (gb_edges gb') \<Longrightarrow>
      (x \<in> set (gb_edges gb) \<and> edge_view (edge_at gb' x) = edge_view (edge_at gb x)) \<or>
      (ge_source (edge_at gb' x) = src \<and> ge_target (edge_at gb' x) = tgt \<and> type = Some (ge_type (edge_at gb' x)))"
proof -
  have ok: "edges_ok gb (set (gb_edges gb))" and d: "distinct (gb_edges gb)" and ids: "ids_ok gb" and nodes: "nodes_ok gb"
    using inv by (auto simp: gb_inv_def)
  have lt: "y < length (edge_heap gb)" if "y \<in> set (gb_edges gb)" for y using ok that by (simp add: edges_ok_def)
  have "gb_inv gb' \<and> node_part gb' = node_part gb \<and> next_of gb \<le> next_of gb' \<and> (\<forall>x \<in> set (gb_edges gb').
      (x \<in> set (gb_edges gb) \<and> edge_view (edge_at gb' x) = edge_view (edge_at gb x)) \<or>
      (ge_source (edge_at gb' x) = src \<and> ge_target (edge_at gb' x) = tgt \<and> type = Some (ge_type (edge_at gb' x))))"
  proof (cases rule: insert_edge_cases [of type gb src tgt props])
    case none
    then show ?thesis using inv r by simp
  next
    case (existing t x e)
    have g': "gb' = gb\<lparr>edge_heap := (edge_heap gb)[x := e]\<rparr>" using existing r by simp
    have view: "edge_view (edge_at gb' y) = edge_view (edge_at gb y)" for y
      using existing(2,3) ok by (cases "x = y") (auto simp: g' edges_ok_def)
    have "edge_tables gb' = edge_tables gb" "length (edge_heap gb) \<le> length (edge_heap gb')"
      by (simp_all add: g' edge_tables_def)
    then have "edges_ok gb' (set (gb_edges gb))" using view by (rule edges_ok_cong [OF ok])
    moreover have "node_part gb' = node_part gb" by (simp add: g' node_part_def)
    moreover have "next_of gb' = next_of gb" by (rule next_of_part) (simp add: g' id_part_def)
    moreover have "ids_ok gb'"
      using ids view \<open>next_of gb' = next_of gb\<close> by (simp add: ids_ok_def edge_view_def) (simp add: g')
    ultimately show ?thesis using d nodes view nodes_ok_part [of gb' gb] by (simp add: gb_inv_def) (simp add: g')
  next
    case (new t e)
    define g where "g = snd (alloc_next_id gb)"
    have g': "gb' = push_edge g e" using new(4) r by (simp add: g_def)
    have part: "edge_heap g = edge_heap gb" "gb_edges g = gb_edges gb" "edge_by_key g = edge_by_key gb" "edges_ok g (set (gb_edges gb))"
      using alloc_next_id(4) [of gb] edges_ok_part [of g gb] ok by (auto simp: g_def edge_part_def edge_tables_def)
    have "edges_ok gb' (insert (length (edge_heap gb)) (set (gb_edges gb)))"
      using push_edge_ok [OF part(4), of e] new(2,3) ids part by (force simp: g' ids_ok_def)
    moreover have np: "node_part gb' = node_part gb" by (simp add: g' g_def)
    moreover have nx: "next_of gb' = next_of gb + 1" by (simp add: g' g_def)
    moreover have es: "gb_edges gb' = gb_edges gb @ [length (edge_heap gb)]" "edge_heap gb' = edge_heap gb @ [e]"
      using part by (simp_all add: g')
    moreover have "ids_ok gb'" using ids lt new(3) node_part_nodes [OF np] by (auto simp: ids_ok_def nx es nth_append)
    ultimately show ?thesis using d lt nodes nodes_ok_part [OF np] new(1,3) by (auto simp: gb_inv_def nth_append)
  qed
  then show "gb_inv gb'" "node_part gb' = node_part gb" "next_of gb \<le> next_of gb'"
    "x \<in> set (gb_edges gb') \<Longrightarrow>
      (x \<in> set (gb_edges gb) \<and> edge_view (edge_at gb' x) = edge_view (edge_at gb x)) \<or>
      (ge_source (edge_at gb' x) = src \<and> ge_target (edge_at gb' x) = tgt \<and> type = Some (ge_type (edge_at gb' x)))" by auto
qed

lemma insert_edge_refs:
  assumes inv: "gb_inv gb" and r: "cbm_gbuf_insert_edge gb src tgt type props = (nid, gb')"
    and "refs_ok gb" and "src \<in> live_ids gb" and "tgt \<in> live_ids gb"
  shows "refs_ok gb'"
proof -
  have "live_ids gb' = live_ids gb" using insert_edge_inv(2) [OF inv r] node_part_nodes live_ids_part by blast
  then show ?thesis using insert_edge_inv(4) [OF inv r] assms(3-5) by (fastforce simp: refs_ok_def edge_view_def)
qed

section \<open>Deletion by file\<close>

definition drop_file_node :: "cbm_gbuf \<Rightarrow> nat \<Rightarrow> cbm_gbuf" where
  \<comment> \<open>one turn of the loop that deletes\<close>
  "drop_file_node gb i =
     (let n = node_at gb i;
          gb = gb\<lparr>nodes_by_label := remove_node_from_ptr_array (gb_nodes gb) (nodes_by_label gb) (n_label n) (n_id n),
                  nodes_by_name := remove_node_from_ptr_array (gb_nodes gb) (nodes_by_name gb) (n_name n) (n_id n)\<rparr>;
          gb = drop_primary gb i
      in gb\<lparr>gb_nodes := (gb_nodes gb)[i := n\<lparr>n_qn := None\<rparr>]\<rparr>)"

definition doomed :: "cbm_gbuf \<Rightarrow> string \<Rightarrow> nat \<Rightarrow> bool" where
  "doomed gb fp i \<longleftrightarrow> n_file (node_at gb i) = fp \<and> n_qn (node_at gb i) \<noteq> None"

lemma drop_file_node_frame [simp]:
  "edge_part (drop_file_node gb i) = edge_part gb" "id_part (drop_file_node gb i) = id_part gb"
  "length (gb_nodes (drop_file_node gb i)) = length (gb_nodes gb)"
  by (simp_all add: drop_file_node_def drop_primary_def edge_part_def edge_tables_def id_part_def Let_def)

lemma drop_file_node_at:
  "i < length (gb_nodes gb) \<Longrightarrow>
     node_at (drop_file_node gb i) j = (if j = i then (node_at gb i)\<lparr>n_qn := None\<rparr> else node_at gb j)"
  by (simp add: drop_file_node_def drop_primary_def Let_def)

lemma drop_file_node_ok:
  assumes ok: "nodes_ok gb" and i: "i < length (gb_nodes gb)" and q: "n_qn (node_at gb i) = Some q"
  shows "nodes_ok (drop_file_node gb i)"
proof -
  let ?g = "drop_file_node gb i"
  note at = drop_file_node_at [OF i]
  then have idj: "n_id (node_at ?g j) = n_id (node_at gb j)" for j by simp
  then have ids: "map n_id (gb_nodes ?g) = map n_id (gb_nodes gb)" by (simp add: list_eq_iff_nth_eq)
  have qn: "node_by_qn ?g p = (if p = q then None else node_by_qn gb p)" for p
    using q by (simp add: drop_file_node_def drop_primary_def Let_def)
  have bid: "node_by_id ?g k = (if k = make_id_key (n_id (node_at gb i)) then None else node_by_id gb k)" for k
    by (simp add: drop_file_node_def drop_primary_def Let_def)
  have uniq: "j < length (gb_nodes gb) \<Longrightarrow> make_id_key (n_id (node_at gb j)) = make_id_key (n_id (node_at gb i)) \<longleftrightarrow> j = i" for j
    using make_id_key_inject [OF nodes_okD(2) [OF ok] nodes_okD(2) [OF ok i]] nodes_okD(5) [OF ok _ i] by blast
  have uniq_q: "j < length (gb_nodes gb) \<Longrightarrow> n_qn (node_at gb j) = Some q \<longleftrightarrow> j = i" for j
    using nodes_okD(3) [OF ok, of q] q i by (metis option.inject)
  have "node_by_qn ?g p = Some j \<longleftrightarrow> j < length (gb_nodes ?g) \<and> n_qn (node_at ?g j) = Some p" for p j
    using nodes_okD(3) [OF ok, of p j] uniq_q [of j] q by (auto simp: qn at)
  moreover have "node_by_id ?g k = Some j \<longleftrightarrow>
      j < length (gb_nodes ?g) \<and> n_qn (node_at ?g j) \<noteq> None \<and> make_id_key (n_id (node_at ?g j)) = k" for k j
    using nodes_okD(4) [OF ok, of k j] uniq [of j] by (auto simp: bid at)
  moreover have "distinct (map n_id (gb_nodes ?g))" "\<forall>n \<in> set (gb_nodes ?g). int64 (n_id n)"
    using ok ids idj by (simp_all add: nodes_ok_def all_set_conv_all_nth)
  ultimately show ?thesis unfolding nodes_ok_def by blast
qed

lemma delete_file_loop_Cons:
  assumes ok: "nodes_ok gb" and i: "i < length (gb_nodes gb)"
  shows "delete_file_loop fp (i # is) deleted gb =
     (if doomed gb fp i
      then delete_file_loop fp is (deleted @ [make_id_key (n_id (node_at gb i))]) (drop_file_node gb i)
      else delete_file_loop fp is deleted gb)"
proof (cases "n_qn (node_at gb i)")
  case (Some q)
  then have "node_by_qn gb q = Some i" using nodes_okD(3) [OF ok] i by simp
  then show ?thesis using Some by (simp add: doomed_def drop_file_node_def Let_def)
qed (simp add: doomed_def)

declare delete_file_loop.simps(2) [simp del]

definition kill_node :: "string \<Rightarrow> cbm_gbuf_node_t \<Rightarrow> cbm_gbuf_node_t" where
  "kill_node fp n = (if n_file n = fp then n\<lparr>n_qn := None\<rparr> else n)"

lemma drop_dead: "n_qn n = None \<Longrightarrow> n\<lparr>n_qn := None\<rparr> = n"
  by simp

lemma delete_file_loop_spec:
  assumes "nodes_ok gb" and "distinct is" and "\<forall>i \<in> set is. i < length (gb_nodes gb)"
    and "delete_file_loop fp is deleted gb = (deleted', gb')"
  shows "nodes_ok gb' \<and> edge_part gb' = edge_part gb \<and> id_part gb' = id_part gb \<and>
    deleted' = deleted @ map (\<lambda>i. make_id_key (n_id (node_at gb i))) (filter (doomed gb fp) is) \<and>
    length (gb_nodes gb') = length (gb_nodes gb) \<and>
    (\<forall>j. node_at gb' j = (if j \<in> set is \<and> doomed gb fp j then (node_at gb j)\<lparr>n_qn := None\<rparr> else node_at gb j))"
  using assms
proof (induction "is" arbitrary: deleted gb)
  case (Cons i "is")
  have i: "i < length (gb_nodes gb)" and rest: "\<forall>i \<in> set is. i < length (gb_nodes gb)" using Cons.prems(3) by auto
  show ?case
  proof (cases "doomed gb fp i")
    case True
    then obtain q where q: "n_qn (node_at gb i) = Some q" by (auto simp: doomed_def)
    let ?g = "drop_file_node gb i"
    note at = drop_file_node_at [OF i]
    have dm: "j \<in> set is \<Longrightarrow> doomed ?g fp j = doomed gb fp j" "j \<in> set is \<Longrightarrow> node_at ?g j = node_at gb j" for j
      using Cons.prems(2) by (auto simp: doomed_def at)
    have "filter (doomed ?g fp) is = filter (doomed gb fp) is" by (rule filter_cong) (simp_all add: dm)
    moreover have "map (\<lambda>j. make_id_key (n_id (node_at ?g j))) (filter (doomed gb fp) is) =
        map (\<lambda>j. make_id_key (n_id (node_at gb j))) (filter (doomed gb fp) is)"
      by (rule map_cong) (simp_all add: dm(2))
    moreover have "nodes_ok ?g" by (rule drop_file_node_ok [OF Cons.prems(1) i q])
    moreover note Cons.IH [of ?g "deleted @ [make_id_key (n_id (node_at gb i))]"]
    ultimately show ?thesis
      using Cons.prems(2-4) rest True dm(1) at delete_file_loop_Cons [OF Cons.prems(1) i]
      by auto
  next
    case False
    then show ?thesis using Cons.IH [of gb deleted] Cons.prems rest delete_file_loop_Cons [OF Cons.prems(1) i] by auto
  qed
qed auto

definition ids_in_file :: "cbm_gbuf \<Rightarrow> string \<Rightarrow> int set" where
  "ids_in_file gb fp = n_id ` {n \<in> set (gb_nodes gb). n_file n = fp \<and> n_qn n \<noteq> None}"

lemma ids_in_file_iff: "k \<in> ids_in_file gb fp \<longleftrightarrow> (\<exists>i < length (gb_nodes gb). doomed gb fp i \<and> n_id (node_at gb i) = k)"
  by (auto simp: ids_in_file_def doomed_def image_iff in_set_conv_nth)

lemma live_ids_int64: "nodes_ok gb \<Longrightarrow> k \<in> live_ids gb \<Longrightarrow> int64 k"
  by (auto simp: live_ids_def nodes_ok_def)

lemma live_key_iff:
  assumes "nodes_ok gb" and "k \<in> live_ids gb" and "D \<subseteq> live_ids gb"
  shows "make_id_key k \<in> make_id_key ` D \<longleftrightarrow> k \<in> D"
  using assms live_ids_int64 [OF assms(1)] make_id_key_inject by (metis (no_types, lifting) imageE image_eqI subsetD)

definition touches :: "int set \<Rightarrow> cbm_gbuf_edge_t \<Rightarrow> bool" where
  "touches D e \<longleftrightarrow> ge_source e \<in> D \<or> ge_target e \<in> D"

lemma cascade_inv:
  assumes inv: "gb_inv gb"
  shows "gb_inv (cascade_delete_edges gb deleted)"
proof -
  let ?g = "cascade_delete_edges gb deleted"
  have fr: "node_part ?g = node_part gb" "id_part ?g = id_part gb" "edge_heap ?g = edge_heap gb"
    "gb_edges ?g = filter (\<lambda>x. \<not> touched deleted (edge_at gb x)) (gb_edges gb)"
    by (simp_all add: cascade_delete_edges_def cascade_loop_frame)
  have "ids_ok ?g" using inv next_of_part [OF fr(2)] node_part_nodes [OF fr(1)] by (auto simp: gb_inv_def ids_ok_def fr)
  moreover have "edges_ok ?g (set (gb_edges ?g))" using inv by (intro cascade_delete_edges_ok) (auto simp: gb_inv_def)
  moreover have "nodes_ok ?g" using inv nodes_ok_part [OF fr(1)] by (simp add: gb_inv_def)
  ultimately show ?thesis using inv by (simp add: gb_inv_def fr)
qed

lemma delete_by_file_spec:
  assumes inv: "gb_inv gb" and r: "cbm_gbuf_delete_by_file gb (Some fp) = (c, gb')"
  shows "gb_inv gb'" and "next_of gb' = next_of gb"
    and "gb_nodes gb' = map (\<lambda>n. if n_file n = fp then n\<lparr>n_qn := None\<rparr> else n) (gb_nodes gb)"
    and "live_ids gb' = live_ids gb - ids_in_file gb fp"
    and "c = int (card (ids_in_file gb fp))"
    and "edge_heap gb' = edge_heap gb"
    and "refs_ok gb \<Longrightarrow> gb_edges gb' = filter (\<lambda>x. \<not> touches (ids_in_file gb fp) (edge_at gb x)) (gb_edges gb)"
    and "refs_ok gb \<Longrightarrow> refs_ok gb'"
proof -
  have ok: "nodes_ok gb" using inv by (simp add: gb_inv_def)
  let ?is = "[0..<length (gb_nodes gb)]"
  obtain ks g where loop: "delete_file_loop fp ?is [] gb = (ks, g)" by fastforce
  define ds where "ds = filter (doomed gb fp) ?is"
  have sp: "nodes_ok g" "edge_part g = edge_part gb" "id_part g = id_part gb"
    "ks = map (\<lambda>i. make_id_key (n_id (node_at gb i))) ds" "length (gb_nodes g) = length (gb_nodes gb)"
    "node_at g j = (if j < length (gb_nodes gb) \<and> doomed gb fp j then (node_at gb j)\<lparr>n_qn := None\<rparr> else node_at gb j)" for j
    using delete_file_loop_spec [OF ok _ _ loop] by (simp_all add: ds_def)
  define g2 where "g2 = (if ks = [] then g else cascade_delete_edges g (\<lambda>k. k \<in> set ks))"
  have g': "gb' = g2" and c: "c = int (length ds)" using r loop sp(4) by (auto simp: cbm_gbuf_delete_by_file_def g2_def split: if_splits)
  have nodes2: "node_part g2 = node_part g" "id_part g2 = id_part g" "edge_heap g2 = edge_heap g"
    by (simp_all add: g2_def cascade_delete_edges_def cascade_loop_frame)
  have edges2: "gb_edges g2 = filter (\<lambda>x. \<not> touched (\<lambda>k. k \<in> set ks) (edge_at g x)) (gb_edges g)"
    by (simp add: g2_def cascade_delete_edges_def cascade_loop_frame touched_def)
  have ids: "ids_in_file gb fp = (\<lambda>i. n_id (node_at gb i)) ` set ds" by (auto simp: ids_in_file_iff ds_def image_iff)
  have keys: "set ks = make_id_key ` ids_in_file gb fp" by (simp add: sp(4) ids image_image)
  have eq: "edge_heap g = edge_heap gb" "gb_edges g = gb_edges gb" using sp(2) by (simp_all add: edge_part_eq)
  have sub: "ids_in_file gb fp \<subseteq> live_ids gb" by (auto simp: ids_in_file_def live_ids_def)
  show nodes: "gb_nodes gb' = map (\<lambda>n. if n_file n = fp then n\<lparr>n_qn := None\<rparr> else n) (gb_nodes gb)"
    unfolding g' node_part_nodes [OF nodes2(1)]
    by (rule nth_equalityI) (auto simp: sp(5,6) doomed_def)
  have "ids_ok g" using inv next_of_part [OF sp(3)] nodes node_part_nodes [OF nodes2(1)]
    by (auto simp: gb_inv_def ids_ok_def eq g')
  then have "gb_inv g" using inv edges_ok_part [OF sp(2)] by (simp add: gb_inv_def sp(1) eq)
  then show "gb_inv gb'" by (simp add: g' g2_def cascade_inv)
  show "next_of gb' = next_of gb" using next_of_part [OF nodes2(2)] next_of_part [OF sp(3)] by (simp add: g')
  show live: "live_ids gb' = live_ids gb - ids_in_file gb fp"
  proof -
    have "k \<in> live_ids g \<longleftrightarrow>
        (\<exists>i < length (gb_nodes gb). n_id (node_at gb i) = k \<and> n_qn (node_at gb i) \<noteq> None \<and> \<not> doomed gb fp i)" for k
      unfolding live_ids_iff sp(5) by (rule ex_cong1) (auto simp: sp(6))
    then have "k \<in> live_ids g \<longleftrightarrow> k \<in> live_ids gb - ids_in_file gb fp" for k
      unfolding Diff_iff live_ids_iff [of k gb] ids_in_file_iff using nodes_okD(5) [OF ok] by metis
    moreover have "live_ids gb' = live_ids g" unfolding g' by (rule live_ids_part) (rule node_part_nodes [OF nodes2(1)])
    ultimately show ?thesis by blast
  qed
  have "inj_on (\<lambda>i. n_id (node_at gb i)) (set ds)" using nodes_okD(5) [OF ok] by (auto simp: inj_on_def ds_def)
  moreover have "card (set ds) = length ds" by (rule distinct_card) (simp add: ds_def)
  ultimately show "c = int (card (ids_in_file gb fp))" by (simp add: c ids card_image)
  show "edge_heap gb' = edge_heap gb" by (simp add: g' nodes2 eq)
  assume refs: "refs_ok gb"
  have "touched (\<lambda>k. k \<in> set ks) (edge_at gb x) = touches (ids_in_file gb fp) (edge_at gb x)" if "x \<in> set (gb_edges gb)" for x
    using refs that live_key_iff [OF ok _ sub] by (simp add: refs_ok_def touched_def touches_def keys)
  then show es: "gb_edges gb' = filter (\<lambda>x. \<not> touches (ids_in_file gb fp) (edge_at gb x)) (gb_edges gb)"
    by (simp add: g' edges2 eq cong: filter_cong)
  then show "refs_ok gb'" using refs by (auto simp: refs_ok_def live touches_def \<open>edge_heap gb' = edge_heap gb\<close>)
qed

end
