(* ===== verification/GraphMerge.thy ===== *)
theory GraphMerge
  imports GraphInvariant
begin

text \<open>
  The graph a buffer stands for, a map from qualified names to attributes and a set of edges between
  qualified names, the keys of edges, and the merge of two buffers as a union of graphs.
\<close>

section \<open>The graph a buffer stands for\<close>

definition node_attrs :: "cbm_gbuf_node_t \<Rightarrow> string \<times> string \<times> string \<times> int \<times> int \<times> cstr" where
  "node_attrs n = (n_label n, n_name n, n_file n, n_start n, n_end n, n_props n)"

definition abs_nodes :: "cbm_gbuf \<Rightarrow> string \<rightharpoonup> string \<times> string \<times> string \<times> int \<times> int \<times> cstr" where
  \<comment> \<open>the attributes of each qualified name\<close>
  "abs_nodes gb q = map_option node_attrs (cbm_gbuf_find_by_qn gb (Some q))"

definition qn_of :: "cbm_gbuf \<Rightarrow> int \<Rightarrow> cstr" where
  "qn_of gb k = (case cbm_gbuf_find_by_id gb k of Some n \<Rightarrow> n_qn n | None \<Rightarrow> None)"

definition id_edges :: "cbm_gbuf \<Rightarrow> (int \<times> int \<times> string) set" where
  "id_edges gb = (\<lambda>x. (ge_source (edge_at gb x), ge_target (edge_at gb x), ge_type (edge_at gb x))) ` set (gb_edges gb)"

definition abs_edges :: "cbm_gbuf \<Rightarrow> (cstr \<times> cstr \<times> string) set" where
  \<comment> \<open>the edges between qualified names\<close>
  "abs_edges gb = (\<lambda>(s, t, type). (qn_of gb s, qn_of gb t, type)) ` id_edges gb"

lemma abs_nodes_at: "abs_nodes gb q = map_option (\<lambda>i. node_attrs (node_at gb i)) (node_by_qn gb q)"
  by (simp add: abs_nodes_def cbm_gbuf_find_by_qn_def map_option.compositionality comp_def)

lemma find_by_id_at:
  assumes "nodes_ok gb" and "i < length (gb_nodes gb)" and "n_qn (node_at gb i) \<noteq> None"
  shows "cbm_gbuf_find_by_id gb (n_id (node_at gb i)) = Some (node_at gb i)"
  using nodes_okD(4) [OF assms(1), of "make_id_key (n_id (node_at gb i))" i] assms(2,3)
  by (simp add: cbm_gbuf_find_by_id_def)

lemma qn_of_at:
  "nodes_ok gb \<Longrightarrow> i < length (gb_nodes gb) \<Longrightarrow> n_qn (node_at gb i) \<noteq> None \<Longrightarrow> qn_of gb (n_id (node_at gb i)) = n_qn (node_at gb i)"
  by (simp add: qn_of_def find_by_id_at)

definition keeps_nodes :: "cbm_gbuf \<Rightarrow> cbm_gbuf \<Rightarrow> bool" where
  \<comment> \<open>live nodes stay live under the same id and the same qualified name\<close>
  "keeps_nodes gb gb' \<longleftrightarrow> (\<forall>k \<in> live_ids gb. k \<in> live_ids gb' \<and> qn_of gb' k = qn_of gb k)"

lemma keeps_nodes_trans: "keeps_nodes a b \<Longrightarrow> keeps_nodes b c \<Longrightarrow> keeps_nodes a c"
  by (simp add: keeps_nodes_def)

lemma keeps_nodes_refl: "keeps_nodes a a"
  by (simp add: keeps_nodes_def)

lemma keeps_nodesI:
  assumes ok: "nodes_ok gb" "nodes_ok gb'" and len: "length (gb_nodes gb) \<le> length (gb_nodes gb')"
    and same: "\<And>i. i < length (gb_nodes gb) \<Longrightarrow> n_id (node_at gb' i) = n_id (node_at gb i) \<and> n_qn (node_at gb' i) = n_qn (node_at gb i)"
  shows "keeps_nodes gb gb'"
  unfolding keeps_nodes_def
proof
  fix k
  assume "k \<in> live_ids gb"
  then obtain i where i: "i < length (gb_nodes gb)" "n_id (node_at gb i) = k" "n_qn (node_at gb i) \<noteq> None"
    by (auto simp: live_ids_iff)
  moreover from i have "i < length (gb_nodes gb')" "n_id (node_at gb' i) = k" "n_qn (node_at gb' i) = n_qn (node_at gb i)"
    using len same by auto
  ultimately show "k \<in> live_ids gb' \<and> qn_of gb' k = qn_of gb k"
    using qn_of_at [OF ok(1), of i] qn_of_at [OF ok(2), of i] by (auto simp: live_ids_iff)
qed

section \<open>Merging\<close>

lemma merge_update_step:
  assumes inv: "gb_inv dst" and q: "node_by_qn dst q = Some i" and p: "n_props sn \<noteq> None"
    and r: "merge_update_existing dst i sn remap = (dst', remap')"
  shows "gb_inv dst'" "edge_part dst' = edge_part dst" "id_part dst' = id_part dst" "keeps_nodes dst dst'"
    and "n_id ` set (gb_nodes dst') = n_id ` set (gb_nodes dst)"
    and "abs_nodes dst' = (abs_nodes dst)(q \<mapsto> node_attrs sn)"
    and "k \<noteq> make_id_key (n_id sn) \<Longrightarrow> remap' k = remap k"
    and "remap (make_id_key (n_id sn)) = None \<Longrightarrow> remapped remap' (n_id sn) \<in> live_ids dst' \<and> qn_of dst' (remapped remap' (n_id sn)) = Some q"
proof -
  have ok: "nodes_ok dst" using inv by (simp add: gb_inv_def)
  have i: "i < length (gb_nodes dst)" "n_qn (node_at dst i) = Some q" using nodes_okD(3) [OF ok] q by auto
  obtain n where d': "dst' = dst\<lparr>gb_nodes := (gb_nodes dst)[i := n]\<rparr>"
    and n: "n_id n = n_id (node_at dst i)" "n_qn n = n_qn (node_at dst i)" "node_attrs n = node_attrs sn"
    and rm: "remap' = (if n_id sn \<noteq> n_id n then remap(make_id_key (n_id sn) \<mapsto> n_id n) else remap)"
    using r p by (auto simp: merge_update_existing_def Let_def node_attrs_def gb_intern_def heap_strdup_def)
  have at: "node_at dst' j = (if j = i then n else node_at dst j)" for j using i(1) by (auto simp: d')
  have ok': "nodes_ok dst'" unfolding d' by (rule nodes_ok_update [OF ok i(1) n(1,2)])
  have len: "length (gb_nodes dst') = length (gb_nodes dst)" by (simp add: d')
  show part: "edge_part dst' = edge_part dst" "id_part dst' = id_part dst"
    by (simp_all add: d' edge_part_def edge_tables_def id_part_def)
  have "map n_id (gb_nodes dst') = map n_id (gb_nodes dst)" using at n(1) by (simp add: list_eq_iff_nth_eq len)
  then show ids: "n_id ` set (gb_nodes dst') = n_id ` set (gb_nodes dst)" by (metis list.set_map)
  have "ids_ok dst'" using inv next_of_part [OF part(2)] part(1) i(1) n(1)
    by (auto simp: gb_inv_def ids_ok_def edge_part_eq d' dest!: subsetD [OF set_update_subset_insert])
  then show "gb_inv dst'" using inv ok' edges_ok_part [OF part(1)] part(1) by (simp add: gb_inv_def edge_part_eq)
  show "keeps_nodes dst dst'" by (rule keeps_nodesI [OF ok ok']) (auto simp: len at n)
  show "abs_nodes dst' = (abs_nodes dst)(q \<mapsto> node_attrs sn)"
  proof
    fix p
    have "node_by_qn dst' p = node_by_qn dst p" by (simp add: d')
    moreover have "node_by_qn dst p = Some i \<longleftrightarrow> p = q" using nodes_okD(3) [OF ok, of p i] i by auto
    ultimately show "abs_nodes dst' p = ((abs_nodes dst)(q \<mapsto> node_attrs sn)) p"
      by (cases "node_by_qn dst p") (auto simp: abs_nodes_at at n(3))
  qed
  show "k \<noteq> make_id_key (n_id sn) \<Longrightarrow> remap' k = remap k" by (simp add: rm)
  assume "remap (make_id_key (n_id sn)) = None"
  then have "remapped remap' (n_id sn) = n_id (node_at dst' i)" by (cases "n_id sn = n_id n") (simp_all add: remapped_def rm at)
  then show "remapped remap' (n_id sn) \<in> live_ids dst' \<and> qn_of dst' (remapped remap' (n_id sn)) = Some q"
    using qn_of_at [OF ok', of i] i n(2) by (auto simp: live_ids_iff len at)
qed

lemma merge_copy_step:
  assumes inv: "gb_inv dst" and q: "n_qn sn = Some q" "node_by_qn dst q = None" and p: "n_props sn \<noteq> None"
    and sh: "shared_ids dst = None" and fresh: "n_id sn \<notin> n_id ` set (gb_nodes dst)"
    and id: "1 \<le> n_id sn" "n_id sn < LONG_MAX"
  shows "gb_inv (merge_copy_new_node dst sn)" "edge_part (merge_copy_new_node dst sn) = edge_part dst"
    and "shared_ids (merge_copy_new_node dst sn) = None" "keeps_nodes dst (merge_copy_new_node dst sn)"
    and "n_id ` set (gb_nodes (merge_copy_new_node dst sn)) = insert (n_id sn) (n_id ` set (gb_nodes dst))"
    and "abs_nodes (merge_copy_new_node dst sn) = (abs_nodes dst)(q \<mapsto> node_attrs sn)"
    and "n_id sn \<in> live_ids (merge_copy_new_node dst sn)" "qn_of (merge_copy_new_node dst sn) (n_id sn) = Some q"
    and "next_of (merge_copy_new_node dst sn) = max (next_of dst) (n_id sn + 1)"
proof -
  let ?d = "merge_copy_new_node dst sn"
  have ok: "nodes_ok dst" using inv by (simp add: gb_inv_def)
  define n where "n = \<lparr>n_id = n_id sn, n_project = gb_project dst, n_label = gb_intern (Some (n_label sn)),
                  n_name = heap_strdup (Some (n_name sn)), n_qn = Some (heap_strdup (n_qn sn)),
                  n_file = gb_intern (Some (n_file sn)), n_start = n_start sn, n_end = n_end sn,
                  n_props = Some (heap_strdup (n_props sn))\<rparr>"
  have n: "n_id n = n_id sn" "n_qn n = Some q" "node_attrs n = node_attrs sn"
    using q p by (auto simp: n_def node_attrs_def gb_intern_def heap_strdup_def)
  have d: "?d = (if n_id sn \<ge> gb_next_id (push_node dst n) then (push_node dst n)\<lparr>gb_next_id := n_id sn + 1\<rparr> else push_node dst n)"
    by (simp add: merge_copy_new_node_def n_def push_node_def Let_def)
  have np: "node_part ?d = node_part (push_node dst n)" by (simp add: d node_part_def)
  have "gb_next_id (push_node dst n) = gb_next_id dst" "shared_ids (push_node dst n) = None"
    using push_node_frame(3) [of dst n] sh by (simp_all add: id_part_def)
  then show nx: "next_of ?d = max (next_of dst) (n_id sn + 1)" and "shared_ids ?d = None"
    using sh by (simp_all add: d cbm_gbuf_next_id_def max_def)
  have nodes: "gb_nodes ?d = gb_nodes dst @ [n]" using node_part_nodes [OF np] by simp
  show part: "edge_part ?d = edge_part dst"
    using push_node_frame(2) [of dst n] by (auto simp: d edge_part_def edge_tables_def)
  have "nodes_ok (push_node dst n)"
    using nodes_ok_push [OF ok n(2) q(2)] fresh id int64_id [of "n_id sn" LONG_MAX] by (simp add: n(1))
  then have ok': "nodes_ok ?d" using nodes_ok_part [OF np] by simp
  have "ids_ok ?d" using inv part id(1) by (auto simp: gb_inv_def ids_ok_def nx nodes n(1) edge_part_eq less_max_iff_disj)
  then show "gb_inv ?d" using inv ok' edges_ok_part [OF part] part by (simp add: gb_inv_def edge_part_eq)
  show "keeps_nodes dst ?d" by (rule keeps_nodesI [OF ok ok']) (auto simp: nodes nth_append)
  show "n_id ` set (gb_nodes ?d) = insert (n_id sn) (n_id ` set (gb_nodes dst))" by (simp add: nodes n(1))
  show "n_id sn \<in> live_ids ?d" using live_ids_push [OF nodes] n by simp
  show "qn_of ?d (n_id sn) = Some q" using qn_of_at [OF ok', of "length (gb_nodes dst)"] n by (simp add: nodes)
  show "abs_nodes ?d = (abs_nodes dst)(q \<mapsto> node_attrs sn)"
  proof
    fix p
    have "node_by_qn ?d p = ((node_by_qn dst)(q \<mapsto> length (gb_nodes dst))) p"
      using np n(2) by (simp add: node_part_def push_node_def register_node_in_indexes_def Let_def)
    moreover have "node_by_qn dst p = Some i \<Longrightarrow> i < length (gb_nodes dst)" for i using nodes_okD(3) [OF ok] by simp
    ultimately show "abs_nodes ?d p = ((abs_nodes dst)(q \<mapsto> node_attrs sn)) p"
      by (cases "node_by_qn dst p") (auto simp: abs_nodes_at nodes nth_append n(3))
  qed
qed

definition add_node :: "(string \<rightharpoonup> nat) \<Rightarrow> (string \<rightharpoonup> 'a) \<Rightarrow> (cbm_gbuf_node_t \<Rightarrow> 'a) \<Rightarrow> cbm_gbuf_node_t \<Rightarrow> (string \<rightharpoonup> 'a)" where
  "add_node by_qn m f sn = (case n_qn sn of Some q \<Rightarrow> (if by_qn q = None then m else m(q \<mapsto> f sn)) | None \<Rightarrow> m)"

definition src_live :: "(string \<rightharpoonup> nat) \<Rightarrow> cbm_gbuf_node_t \<Rightarrow> bool" where
  "src_live by_qn sn \<longleftrightarrow> (\<exists>q. n_qn sn = Some q \<and> by_qn q \<noteq> None)"

definition merge_pre :: "cbm_gbuf \<Rightarrow> cbm_gbuf_node_t list \<Rightarrow> bool" where
  "merge_pre dst sns \<longleftrightarrow> gb_inv dst \<and> shared_ids dst = None \<and> next_of dst \<le> LONG_MAX \<and> distinct (map n_id sns) \<and>
     (\<forall>sn \<in> set sns. 1 \<le> n_id sn \<and> n_id sn < LONG_MAX \<and> n_props sn \<noteq> None \<and> n_id sn \<notin> n_id ` set (gb_nodes dst))"

lemma id_part_next: "id_part d' = id_part d \<Longrightarrow> next_of d' = next_of d \<and> shared_ids d' = shared_ids d"
  using next_of_part [of d' d] by (simp add: id_part_def)

lemma merge_step:
  assumes pre: "merge_pre dst (sn # sns)" and q: "n_qn sn = Some q"
    and r: "(case node_by_qn dst q of Some i \<Rightarrow> merge_update_existing dst i sn remap
             | None \<Rightarrow> (merge_copy_new_node dst sn, remap)) = (dst', remap')"
  shows "merge_pre dst' sns" and "edge_part dst' = edge_part dst" and "keeps_nodes dst dst'" and "next_of dst \<le> next_of dst'"
    and "abs_nodes dst' = (abs_nodes dst)(q \<mapsto> node_attrs sn)"
    and "k \<noteq> make_id_key (n_id sn) \<Longrightarrow> remap' k = remap k"
    and "remap (make_id_key (n_id sn)) = None \<Longrightarrow> remapped remap' (n_id sn) \<in> live_ids dst' \<and> qn_of dst' (remapped remap' (n_id sn)) = Some q"
proof -
  have inv: "gb_inv dst" and sh: "shared_ids dst = None" and p: "n_props sn \<noteq> None" and fresh: "n_id sn \<notin> n_id ` set (gb_nodes dst)"
    and id: "1 \<le> n_id sn" "n_id sn < LONG_MAX" using pre by (auto simp: merge_pre_def)
  have "merge_pre dst' sns \<and> edge_part dst' = edge_part dst \<and> keeps_nodes dst dst' \<and> next_of dst \<le> next_of dst' \<and>
     abs_nodes dst' = (abs_nodes dst)(q \<mapsto> node_attrs sn) \<and> (\<forall>k. k \<noteq> make_id_key (n_id sn) \<longrightarrow> remap' k = remap k) \<and>
     (remap (make_id_key (n_id sn)) = None \<longrightarrow> remapped remap' (n_id sn) \<in> live_ids dst' \<and> qn_of dst' (remapped remap' (n_id sn)) = Some q)"
  proof (cases "node_by_qn dst q")
    case (Some i)
    then have r': "merge_update_existing dst i sn remap = (dst', remap')" using r by simp
    note st = merge_update_step [OF inv Some p r']
    show ?thesis using st pre id_part_next [OF st(3)] by (simp add: merge_pre_def)
  next
    case None
    then have d: "dst' = merge_copy_new_node dst sn" "remap' = remap" using r by auto
    note st = merge_copy_step [OF inv q None p sh fresh id]
    have "n_id m \<noteq> n_id sn" if "m \<in> set sns" for m
      using pre that by (simp add: merge_pre_def) (metis image_eqI)
    then have "merge_pre dst' sns" using st(1,3,5,9) pre id(2) by (simp add: merge_pre_def d)
    then show ?thesis using st(2,4,6-9) by (simp add: d remapped_def)
  qed
  then show "merge_pre dst' sns" "edge_part dst' = edge_part dst" "keeps_nodes dst dst'" "next_of dst \<le> next_of dst'"
    "abs_nodes dst' = (abs_nodes dst)(q \<mapsto> node_attrs sn)" "k \<noteq> make_id_key (n_id sn) \<Longrightarrow> remap' k = remap k"
    "remap (make_id_key (n_id sn)) = None \<Longrightarrow> remapped remap' (n_id sn) \<in> live_ids dst' \<and> qn_of dst' (remapped remap' (n_id sn)) = Some q"
    by auto
qed

lemma merge_nodes_Cons:
  "merge_nodes by_qn (sn # sns) (dst, remap) =
     (if src_live by_qn sn
      then merge_nodes by_qn sns (case node_by_qn dst (the (n_qn sn)) of Some i \<Rightarrow> merge_update_existing dst i sn remap
             | None \<Rightarrow> (merge_copy_new_node dst sn, remap))
      else merge_nodes by_qn sns (dst, remap))"
  by (auto simp: src_live_def split: option.splits)

lemma merge_nodes_spec:
  assumes "merge_pre dst sns" and "merge_nodes by_qn sns (dst, remap) = (dst', remap')"
    and "\<And>sn. sn \<in> set sns \<Longrightarrow> remap (make_id_key (n_id sn)) = None"
  shows "gb_inv dst' \<and> shared_ids dst' = None \<and> next_of dst' \<le> LONG_MAX \<and> next_of dst \<le> next_of dst' \<and>
    edge_part dst' = edge_part dst \<and> keeps_nodes dst dst' \<and>
    abs_nodes dst' = foldl (\<lambda>m sn. add_node by_qn m node_attrs sn) (abs_nodes dst) sns \<and>
    (\<forall>k. int64 k \<longrightarrow> k \<notin> n_id ` set sns \<longrightarrow> remap' (make_id_key k) = remap (make_id_key k)) \<and>
    (\<forall>sn \<in> set sns. src_live by_qn sn \<longrightarrow>
       remapped remap' (n_id sn) \<in> live_ids dst' \<and> qn_of dst' (remapped remap' (n_id sn)) = n_qn sn)"
  using assms
proof (induction sns arbitrary: dst remap)
  case Nil
  then show ?case by (simp add: merge_pre_def keeps_nodes_refl)
next
  case (Cons sn sns)
  have id: "int64 (n_id sn)" and other: "n_id sn \<notin> n_id ` set sns" and rest: "\<And>m. m \<in> set sns \<Longrightarrow> int64 (n_id m)"
    using Cons.prems(1) int64_id [of _ LONG_MAX] by (auto simp: merge_pre_def)
  then have ids: "int64 (n_id m) \<and> n_id m \<noteq> n_id sn" if "m \<in> set sns" for m using that by (metis image_eqI)
  show ?case
  proof (cases "src_live by_qn sn")
    case True
    then obtain q where q: "n_qn sn = Some q" "by_qn q \<noteq> None" by (auto simp: src_live_def)
    obtain d1 r1 where st: "(case node_by_qn dst q of Some i \<Rightarrow> merge_update_existing dst i sn remap
             | None \<Rightarrow> (merge_copy_new_node dst sn, remap)) = (d1, r1)" by fastforce
    note s1 = merge_step [OF Cons.prems(1) q(1) st]
    have loop: "merge_nodes by_qn sns (d1, r1) = (dst', remap')"
      using Cons.prems(2) st True q(1) by (simp add: merge_nodes_Cons del: merge_nodes.simps)
    have "r1 (make_id_key (n_id m)) = None" if "m \<in> set sns" for m
      using s1(6) [of "make_id_key (n_id m)"] ids [OF that] id Cons.prems(3) [of m] that by (simp add: make_id_key_inject)
    note ih = Cons.IH [OF s1(1) loop this]
    have keep: "remap' (make_id_key (n_id sn)) = r1 (make_id_key (n_id sn))" using ih id ids by fastforce
    have "remapped remap' (n_id sn) \<in> live_ids dst' \<and> qn_of dst' (remapped remap' (n_id sn)) = n_qn sn"
      using s1(7) Cons.prems(3) [of sn] ih keep q(1) by (simp add: remapped_def keeps_nodes_def)
    moreover have "remap' (make_id_key k) = remap (make_id_key k)" if "int64 k" "k \<notin> n_id ` set (sn # sns)" for k
      using ih that s1(6) [of "make_id_key k"] make_id_key_inject [OF that(1) id] by auto
    moreover have "abs_nodes dst' = foldl (\<lambda>m sn. add_node by_qn m node_attrs sn) (abs_nodes dst) (sn # sns)"
    proof -
      have "add_node by_qn (abs_nodes dst) node_attrs sn = abs_nodes d1" using q by (auto simp: add_node_def s1(5))
      then show ?thesis using ih by simp
    qed
    moreover have "next_of dst \<le> next_of dst'" "edge_part dst' = edge_part dst" "keeps_nodes dst dst'"
      using ih s1(2,4) keeps_nodes_trans [OF s1(3)] by simp_all
    ultimately show ?thesis using ih by simp
  next
    case False
    have "merge_pre dst sns" using Cons.prems(1) by (simp add: merge_pre_def)
    moreover have "merge_nodes by_qn sns (dst, remap) = (dst', remap')"
      using Cons.prems(2) False by (simp add: merge_nodes_Cons del: merge_nodes.simps)
    moreover have "add_node by_qn (abs_nodes dst) node_attrs sn = abs_nodes dst"
      using False by (auto simp: add_node_def src_live_def split: option.splits)
    ultimately show ?thesis using Cons.IH [of dst remap] Cons.prems(3) False by simp
  qed
qed

subsection \<open>Keys of edges\<close>

definition short_type :: "string \<Rightarrow> bool" where
  \<comment> \<open>the key of an edge with such a type is not cut off\<close>
  "short_type t \<longleftrightarrow> length t \<le> 85"

lemma make_edge_key_inject:
  assumes "int64 s" "int64 t" "int64 s'" "int64 t'" and "short_type a" "short_type a'"
  shows "make_edge_key s t a = make_edge_key s' t' a' \<longleftrightarrow> s = s' \<and> t = t' \<and> a = a'"
proof -
  have "make_edge_key s t a = print_int s @ CHR '':'' # print_int t @ CHR '':'' # a"
    "make_edge_key s' t' a' = print_int s' @ CHR '':'' # print_int t' @ CHR '':'' # a'"
    using assms print_int_length [of s] print_int_length [of t] print_int_length [of s'] print_int_length [of t']
    by (simp_all add: make_edge_key_def short_type_def)
  then show ?thesis using split_at_char print_int_no_colon print_int_inject by metis
qed

lemma make_src_type_key_inject:
  assumes "int64 s" "int64 s'" and "short_type a" "short_type a'"
  shows "make_src_type_key s a = make_src_type_key s' a' \<longleftrightarrow> s = s' \<and> a = a'"
proof -
  have "make_src_type_key s a = print_int s @ CHR '':'' # a" "make_src_type_key s' a' = print_int s' @ CHR '':'' # a'"
    using assms print_int_length [of s] print_int_length [of s'] by (simp_all add: make_src_type_key_def short_type_def)
  then show ?thesis using split_at_char print_int_no_colon print_int_inject by metis
qed

definition short_edges :: "cbm_gbuf \<Rightarrow> bool" where
  "short_edges gb \<longleftrightarrow> (\<forall>(s, t, type) \<in> id_edges gb. int64 s \<and> int64 t \<and> short_type type)"

lemma insert_edge_ids:
  assumes inv: "gb_inv gb" and short: "short_edges gb" "int64 src" "int64 tgt" "short_type t"
    and r: "cbm_gbuf_insert_edge gb src tgt (Some t) props = (nid, gb')"
  shows "id_edges gb' = insert (src, tgt, t) (id_edges gb)"
proof -
  have ok: "edges_ok gb (set (gb_edges gb))" using inv by (simp add: gb_inv_def)
  show ?thesis
  proof (cases rule: insert_edge_cases [of "Some t" gb src tgt props])
    case (existing t' x e)
    have x: "x \<in> set (gb_edges gb)" "x < length (edge_heap gb)" "edge_key_at (edge_heap gb) x = make_edge_key src tgt t"
      using ok existing(1,2) by (auto simp: edges_ok_def)
    moreover have "int64 (ge_source (edge_at gb x))" "int64 (ge_target (edge_at gb x))" "short_type (ge_type (edge_at gb x))"
      using short(1) x(1) by (auto simp: short_edges_def id_edges_def)
    ultimately have same: "ge_source (edge_at gb x) = src \<and> ge_target (edge_at gb x) = tgt \<and> ge_type (edge_at gb x) = t"
      using short(2-4) make_edge_key_inject by (simp add: edge_key_at_def)
    have "gb' = gb\<lparr>edge_heap := (edge_heap gb)[x := e]\<rparr>" using existing(5) r by simp
    moreover have "edge_view ((edge_heap gb)[x := e] ! y) = edge_view (edge_at gb y)" for y
      using existing(3) x(2) by (cases "x = y") auto
    ultimately have "id_edges gb' = id_edges gb" by (simp add: id_edges_def edge_view_def)
    moreover have "(src, tgt, t) \<in> id_edges gb" using same x(1) by (force simp: id_edges_def)
    ultimately show ?thesis by blast
  next
    case (new t' e)
    have lt: "x \<in> set (gb_edges gb) \<Longrightarrow> x < length (edge_heap gb)" for x using ok by (simp add: edges_ok_def)
    have "gb' = push_edge (snd (alloc_next_id gb)) e" using new(4) r by simp
    then have "edge_heap gb' = edge_heap gb @ [e]" "gb_edges gb' = gb_edges gb @ [length (edge_heap gb)]"
      by simp_all
    moreover have "(\<lambda>x. (ge_source ((edge_heap gb @ [e]) ! x), ge_target ((edge_heap gb @ [e]) ! x), ge_type ((edge_heap gb @ [e]) ! x)))
        ` set (gb_edges gb) = id_edges gb"
      unfolding id_edges_def by (rule image_cong) (simp_all add: nth_append lt)
    ultimately show ?thesis using new(1,3) by (simp add: id_edges_def)
  qed simp
qed

lemma remap_edges_spec:
  assumes "gb_inv dst" and "short_edges dst"
    and "\<And>e. e \<in> set ses \<Longrightarrow> int64 (remapped remap (ge_source e)) \<and> int64 (remapped remap (ge_target e)) \<and> short_type (ge_type e)"
  shows "gb_inv (merge_remap_edges ses remap dst) \<and> node_part (merge_remap_edges ses remap dst) = node_part dst \<and>
    next_of dst \<le> next_of (merge_remap_edges ses remap dst) \<and>
    id_edges (merge_remap_edges ses remap dst) =
      id_edges dst \<union> (\<lambda>e. (remapped remap (ge_source e), remapped remap (ge_target e), ge_type e)) ` set ses"
  using assms
proof (induction ses arbitrary: dst)
  case (Cons e es)
  let ?s = "remapped remap (ge_source e)" and ?t = "remapped remap (ge_target e)"
  obtain nid d1 where r: "cbm_gbuf_insert_edge dst ?s ?t (Some (ge_type e)) (Some (ge_props e)) = (nid, d1)" by fastforce
  have ids: "id_edges d1 = insert (?s, ?t, ge_type e) (id_edges dst)"
    using insert_edge_ids [OF Cons.prems(1,2) _ _ _ r] Cons.prems(3) by simp
  then have "short_edges d1" using Cons.prems(2,3) by (auto simp: short_edges_def)
  then show ?case using Cons.IH [of d1] Cons.prems(3) insert_edge_inv(1-3) [OF Cons.prems(1) r] ids r by auto
qed simp

subsection \<open>The merged graph\<close>

lemma src_live_iff:
  assumes ok: "nodes_ok src" and i: "i < length (gb_nodes src)"
  shows "src_live (node_by_qn src) (node_at src i) \<longleftrightarrow> n_qn (node_at src i) \<noteq> None"
proof (cases "n_qn (node_at src i)")
  case (Some q)
  then show ?thesis using nodes_okD(3) [OF ok, of q i] i by (simp add: src_live_def)
qed (simp add: src_live_def)

lemma fold_add_nodes:
  assumes ok: "nodes_ok src" and n: "n \<le> length (gb_nodes src)"
  shows "foldl (\<lambda>m sn. add_node (node_by_qn src) m node_attrs sn) m (take n (gb_nodes src)) q =
    (case node_by_qn src q of Some i \<Rightarrow> (if i < n then Some (node_attrs (node_at src i)) else m q) | None \<Rightarrow> m q)"
  using n
proof (induction n)
  case (Suc n)
  then have n: "n < length (gb_nodes src)" by simp
  show ?case
  proof (cases "n_qn (node_at src n)")
    case None
    then have "node_by_qn src q \<noteq> Some n" using nodes_okD(3) [OF ok, of q n] by simp
    then show ?thesis using Suc None n
      by (simp add: take_Suc_conv_app_nth add_node_def less_Suc_eq split: option.splits)
  next
    case (Some p)
    then have p: "node_by_qn src p = Some n" using nodes_okD(3) [OF ok, of p n] n by simp
    have "node_by_qn src q = Some n \<longleftrightarrow> q = p" using nodes_okD(3) [OF ok, of q n] n Some by auto
    then show ?thesis using Suc Some p n
      by (auto simp: take_Suc_conv_app_nth add_node_def less_Suc_eq split: option.splits)
  qed
qed (simp split: option.splits)

definition endpoint_qn :: "cbm_gbuf \<Rightarrow> cbm_gbuf \<Rightarrow> int \<Rightarrow> cstr" where
  \<comment> \<open>what an endpoint of an edge of \<open>src\<close> refers to: a node of \<open>src\<close>, or one of \<open>dst\<close> by its id\<close>
  "endpoint_qn dst src k = (if k \<in> live_ids src then qn_of src k else qn_of dst k)"

definition merge_guard :: "cbm_gbuf \<Rightarrow> cbm_gbuf \<Rightarrow> bool" where
  \<comment> \<open>ids come from one counter, so the nodes of the two buffers have different ids\<close>
  "merge_guard dst src \<longleftrightarrow> shared_ids dst = None \<and> next_of dst \<le> LONG_MAX \<and> next_of src \<le> LONG_MAX \<and>
     n_id ` set (gb_nodes src) \<inter> n_id ` set (gb_nodes dst) = {} \<and> (\<forall>n \<in> set (gb_nodes src). n_props n \<noteq> None) \<and>
     (\<forall>(s, t, type) \<in> id_edges dst. short_type type) \<and>
     (\<forall>(s, t, type) \<in> id_edges src. s \<in> live_ids src \<union> live_ids dst \<and> t \<in> live_ids src \<union> live_ids dst \<and> short_type type)"

definition mergeable :: "cbm_gbuf \<Rightarrow> cbm_gbuf \<Rightarrow> bool" where
  "mergeable dst src \<longleftrightarrow> gb_inv dst \<and> gb_inv src \<and> refs_ok dst \<and> merge_guard dst src"

lemma id_edges_at: "id_edges gb = (\<lambda>e. (ge_source e, ge_target e, ge_type e)) ` set (edges_of gb (gb_edges gb))"
  by (auto simp: id_edges_def edges_of_def)

lemma refs_ok_ids: "refs_ok gb \<longleftrightarrow> (\<forall>(s, t, type) \<in> id_edges gb. s \<in> live_ids gb \<and> t \<in> live_ids gb)"
  by (simp add: refs_ok_def id_edges_def)

lemma qn_of_part: "node_part gb' = node_part gb \<Longrightarrow> qn_of gb' = qn_of gb"
  by (simp add: fun_eq_iff qn_of_def cbm_gbuf_find_by_id_def node_part_def)

lemma abs_nodes_part: "node_part gb' = node_part gb \<Longrightarrow> abs_nodes gb' = abs_nodes gb"
  by (simp add: fun_eq_iff abs_nodes_at node_part_def)

lemma merge_pre_src: "mergeable dst src \<Longrightarrow> merge_pre dst (gb_nodes src)"
  by (fastforce simp: merge_pre_def mergeable_def merge_guard_def gb_inv_def nodes_ok_def ids_ok_def)

lemma merge_endpoint:
  assumes m: "mergeable dst src" and nodes: "merge_nodes (node_by_qn src) (gb_nodes src) (dst, Map.empty) = (d1, remap)"
    and k: "k \<in> live_ids src \<union> live_ids dst"
  shows "remapped remap k \<in> live_ids d1 \<and> qn_of d1 (remapped remap k) = endpoint_qn dst src k"
proof (cases "k \<in> live_ids src")
  case True
  note sp = merge_nodes_spec [OF merge_pre_src [OF m] nodes, simplified]
  have ok: "nodes_ok src" using m by (simp add: mergeable_def merge_guard_def gb_inv_def)
  obtain i where i: "i < length (gb_nodes src)" "n_id (node_at src i) = k" "n_qn (node_at src i) \<noteq> None"
    using True by (auto simp: live_ids_iff)
  then show ?thesis using sp src_live_iff [OF ok i(1)] qn_of_at [OF ok i(1)] True by (auto simp: endpoint_qn_def)
next
  case False
  note sp = merge_nodes_spec [OF merge_pre_src [OF m] nodes, simplified]
  have okd: "nodes_ok dst" using m by (simp add: mergeable_def merge_guard_def gb_inv_def)
  have k': "k \<in> live_ids dst" using k False by simp
  then have "k \<notin> n_id ` set (gb_nodes src)" using m by (auto simp: mergeable_def merge_guard_def live_ids_def)
  then have "remap (make_id_key k) = None" using sp live_ids_int64 [OF okd k'] by blast
  then show ?thesis using sp k' False by (simp add: endpoint_qn_def remapped_def keeps_nodes_def)
qed

lemma merged_nodes:
  assumes m: "mergeable dst src" and nodes: "merge_nodes (node_by_qn src) (gb_nodes src) (dst, Map.empty) = (d1, remap)"
  shows "abs_nodes d1 = abs_nodes dst ++ abs_nodes src"
proof
  fix q
  have ok: "nodes_ok src" using m by (simp add: mergeable_def merge_guard_def gb_inv_def)
  have "abs_nodes d1 q = foldl (\<lambda>m sn. add_node (node_by_qn src) m node_attrs sn) (abs_nodes dst) (gb_nodes src) q"
    using merge_nodes_spec [OF merge_pre_src [OF m] nodes] by simp
  moreover have "node_by_qn src q = Some i \<Longrightarrow> i < length (gb_nodes src)" for i using nodes_okD(3) [OF ok, of q i] by simp
  ultimately show "abs_nodes d1 q = (abs_nodes dst ++ abs_nodes src) q"
    using fold_add_nodes [OF ok le_refl, of "abs_nodes dst" q]
    by (cases "node_by_qn src q") (simp_all add: map_add_def abs_nodes_at [of src])
qed

lemma merge_spec:
  assumes m: "mergeable dst src" and r: "cbm_gbuf_merge dst src = (rc, dst')"
  shows "rc = 0" "gb_inv dst'" "refs_ok dst'" "keeps_nodes dst dst'" "abs_nodes dst' = abs_nodes dst ++ abs_nodes src"
    and "abs_edges dst' = abs_edges dst \<union> (\<lambda>(s, t, type). (endpoint_qn dst src s, endpoint_qn dst src t, type)) ` id_edges src"
proof -
  obtain d1 remap where nodes: "merge_nodes (node_by_qn src) (gb_nodes src) (dst, Map.empty) = (d1, remap)" by fastforce
  note sp = merge_nodes_spec [OF merge_pre_src [OF m] nodes, simplified]
  have keep: "k \<in> live_ids dst \<Longrightarrow> k \<in> live_ids d1 \<and> qn_of d1 k = qn_of dst k" for k
    using sp by (simp add: keeps_nodes_def)
  note end_live = merge_endpoint [OF m nodes]
  let ?es = "edges_of src (gb_edges src)"
  have d': "dst' = (if gb_nodes src = [] \<and> gb_edges src = [] then dst else merge_remap_edges ?es remap d1)" and "rc = 0"
    using r nodes by (auto simp: cbm_gbuf_merge_def split: if_splits)
  then have d': "dst' = merge_remap_edges ?es remap d1" and rc: "rc = 0" using nodes by (auto simp: edges_of_def)
  show "rc = 0" by (rule rc)
  have inv1: "gb_inv d1" and ep: "id_edges d1 = id_edges dst" using sp by (auto simp: edge_part_eq id_edges_def)
  have short: "short_edges d1"
    using m ep live_ids_int64 [of dst] by (fastforce simp: mergeable_def merge_guard_def short_edges_def refs_ok_ids gb_inv_def)
  have se: "ge_source e \<in> live_ids src \<union> live_ids dst \<and> ge_target e \<in> live_ids src \<union> live_ids dst \<and> short_type (ge_type e)"
    if "e \<in> set ?es" for e using m that by (auto simp: mergeable_def merge_guard_def id_edges_at)
  have ok1: "nodes_ok d1" using inv1 by (simp add: gb_inv_def)
  have "int64 (remapped remap (ge_source e)) \<and> int64 (remapped remap (ge_target e)) \<and> short_type (ge_type e)" if "e \<in> set ?es" for e
    using se [OF that] end_live live_ids_int64 [OF ok1] by blast
  then have es: "gb_inv dst'" "node_part dst' = node_part d1" "id_edges dst' = id_edges d1 \<union>
      (\<lambda>e. (remapped remap (ge_source e), remapped remap (ge_target e), ge_type e)) ` set ?es"
    unfolding d' using remap_edges_spec [OF inv1 short, of ?es remap] by simp_all
  show "gb_inv dst'" by (rule es(1))
  note np = es(2)
  have lv: "live_ids dst' = live_ids d1" by (rule live_ids_part) (rule node_part_nodes [OF np])
  show "keeps_nodes dst dst'" using sp by (simp add: keeps_nodes_def lv qn_of_part [OF np])
  show "abs_nodes dst' = abs_nodes dst ++ abs_nodes src" using merged_nodes [OF m nodes] by (simp add: abs_nodes_part [OF np])
  have ie: "id_edges dst' = id_edges dst \<union> (\<lambda>(s, t, type). (remapped remap s, remapped remap t, type)) ` id_edges src"
    using es(3) ep by (simp add: id_edges_at [of src] image_image)
  have dl: "s \<in> live_ids dst \<and> t \<in> live_ids dst" if "(s, t, type) \<in> id_edges dst" for s t type
    using m that by (auto simp: mergeable_def merge_guard_def refs_ok_ids)
  have sl: "s \<in> live_ids src \<union> live_ids dst \<and> t \<in> live_ids src \<union> live_ids dst" if "(s, t, type) \<in> id_edges src" for s t type
    using m that by (fastforce simp: mergeable_def merge_guard_def)
  have "s \<in> live_ids d1 \<and> t \<in> live_ids d1" if "(s, t, type) \<in> id_edges dst" for s t type
    using dl [OF that] keep by blast
  moreover have "remapped remap s \<in> live_ids d1 \<and> remapped remap t \<in> live_ids d1" if "(s, t, type) \<in> id_edges src" for s t type
    using sl [OF that] end_live by blast
  ultimately show "refs_ok dst'" unfolding refs_ok_ids ie lv by fast
  have "(\<lambda>(s, t, type). (qn_of d1 s, qn_of d1 t, type)) ` id_edges dst = abs_edges dst"
    unfolding abs_edges_def by (rule image_cong) (use dl keep in auto)
  moreover have "(\<lambda>(s, t, type). (qn_of d1 (remapped remap s), qn_of d1 (remapped remap t), type)) ` id_edges src =
      (\<lambda>(s, t, type). (endpoint_qn dst src s, endpoint_qn dst src t, type)) ` id_edges src"
    by (rule image_cong) (use sl end_live in auto)
  ultimately show "abs_edges dst' = abs_edges dst \<union> (\<lambda>(s, t, type). (endpoint_qn dst src s, endpoint_qn dst src t, type)) ` id_edges src"
    by (simp add: abs_edges_def ie qn_of_part [OF np] image_Un image_image split_def)
qed

end
