(* ===== verification/GraphReach.thy ===== *)
theory GraphReach
  imports GraphMerge
begin

text \<open>
  The reachable buffers and what the operations do to them: loading from a database, the indexes by
  label and name, the invariant of every history, and the claims about upsert, insertion, deletion and
  merge. The last section shows two ways in which the indexes go stale.
\<close>

section \<open>Loading\<close>

lemma upsert_next: "cbm_gbuf_upsert_node gb label name qn fp s e props = (nid, gb') \<Longrightarrow> next_of gb \<le> next_of gb'"
  by (cases rule: upsert_cases [of qn gb label name fp s e props]) auto

lemma insert_edge_next: "cbm_gbuf_insert_edge gb src tgt type props = (nid, gb') \<Longrightarrow> next_of gb \<le> next_of gb'"
proof -
  assume r: "cbm_gbuf_insert_edge gb src tgt type props = (nid, gb')"
  have "next_of (gb\<lparr>edge_heap := es\<rparr>) = next_of gb" for es by (rule next_of_part) (simp add: id_part_def)
  then show ?thesis using r by (cases rule: insert_edge_cases [of type gb src tgt props]) auto
qed

lemma upsert_refs:
  assumes "gb_inv gb" and "cbm_gbuf_upsert_node gb label name qn fp s e props = (nid, gb')" and "next_of gb' \<le> LONG_MAX" and "refs_ok gb"
  shows "refs_ok gb'"
  using upsert_inv(2,3) [OF assms(1-3)] assms(4) by (auto simp: refs_ok_def edge_part_eq)

lemma load_nodes_next: "load_nodes max_id rows (m, gb) = (m', gb') \<Longrightarrow> next_of gb \<le> next_of gb'"
proof (induction rows arbitrary: m gb)
  case (Cons r rs)
  obtain nid g where u: "cbm_gbuf_upsert_node gb (dn_label r) (dn_name r) (dn_qn r) (dn_file r) (dn_start r) (dn_end r) (dn_props r) = (nid, g)"
    by fastforce
  then show ?case using Cons.IH [of _ g] Cons.prems upsert_next [OF u] by fastforce
qed simp

lemma load_nodes_spec:
  assumes "gb_inv gb" and "\<And>k. m k > 0 \<Longrightarrow> m k \<in> live_ids gb"
    and "load_nodes max_id rows (m, gb) = (m', gb')" and "next_of gb' \<le> LONG_MAX"
  shows "gb_inv gb' \<and> (refs_ok gb \<longrightarrow> refs_ok gb') \<and> (\<forall>k. m' k > 0 \<longrightarrow> m' k \<in> live_ids gb')"
  using assms
proof (induction rows arbitrary: m gb)
  case (Cons r rs)
  obtain nid g where u: "cbm_gbuf_upsert_node gb (dn_label r) (dn_name r) (dn_qn r) (dn_file r) (dn_start r) (dn_end r) (dn_props r) = (nid, g)"
    by fastforce
  define m1 where "m1 = (if nid > 0 \<and> dn_id r \<le> max_id then m(dn_id r := nid) else m)"
  have loop: "load_nodes max_id rs (m1, g) = (m', gb')" using Cons.prems(3) u by (simp add: m1_def)
  have room: "next_of g \<le> LONG_MAX" using load_nodes_next [OF loop] Cons.prems(4) by simp
  note inv = upsert_inv [OF Cons.prems(1) u room]
  have "m1 k \<in> live_ids g" if "m1 k > 0" for k
    using that Cons.prems(2) [of k] inv(3,5,6) by (cases "dn_qn r") (auto simp: m1_def split: if_splits)
  then show ?case using Cons.IH [OF inv(1) _ loop Cons.prems(4)] upsert_refs [OF Cons.prems(1) u room] by blast
qed simp

lemma load_edges_next: "next_of gb \<le> next_of (load_edges max_id m rows gb)"
proof (induction rows arbitrary: gb)
  case (Cons r rs)
  have "next_of gb \<le> next_of (snd (cbm_gbuf_insert_edge gb s t type p))" for s t type p
    using insert_edge_next [of gb s t type p] by (cases "cbm_gbuf_insert_edge gb s t type p") simp
  then show ?case using Cons order_trans by (simp add: Let_def) blast
qed simp

lemma load_edges_spec:
  assumes "gb_inv gb" and "\<And>k. m k > 0 \<Longrightarrow> m k \<in> live_ids gb"
  shows "gb_inv (load_edges max_id m rows gb) \<and> (refs_ok gb \<longrightarrow> refs_ok (load_edges max_id m rows gb))"
  using assms
proof (induction rows arbitrary: gb)
  case (Cons r rs)
  define s where "s = (if de_source r \<le> max_id then m (de_source r) else 0)"
  define t where "t = (if de_target r \<le> max_id then m (de_target r) else 0)"
  obtain nid g where i: "cbm_gbuf_insert_edge gb s t (de_type r) (de_props r) = (nid, g)" by fastforce
  have loop: "load_edges max_id m (r # rs) gb = load_edges max_id m rs (if s > 0 \<and> t > 0 then g else gb)"
    using i by (simp add: s_def t_def Let_def)
  have live: "s \<in> live_ids gb \<and> t \<in> live_ids gb" if "s > 0 \<and> t > 0"
    using that Cons.prems(2) by (auto simp: s_def t_def split: if_splits)
  have g: "gb_inv g" "live_ids g = live_ids gb"
    using insert_edge_inv(1,2) [OF Cons.prems(1) i] live_ids_part [OF node_part_nodes] by blast+
  show ?case
  proof (cases "s > 0 \<and> t > 0")
    case True
    then show ?thesis using loop Cons.IH [OF g(1)] Cons.prems(2) g insert_edge_refs [OF Cons.prems(1) i] live by auto
  next
    case False
    then show ?thesis using loop Cons.IH [OF Cons.prems] by auto
  qed
qed simp

lemma load_from_db_spec:
  assumes inv: "gb_inv gb" and r: "cbm_gbuf_load_from_db gb opens max_id nrows erows = (rc, gb')" and room: "next_of gb' \<le> LONG_MAX"
  shows "gb_inv gb'" and "refs_ok gb \<Longrightarrow> refs_ok gb'"
proof -
  have "gb_inv gb' \<and> (refs_ok gb \<longrightarrow> refs_ok gb')"
  proof (cases "opens \<and> max_id \<noteq> None \<and> nrows \<noteq> None")
    case True
    then obtain mx ns where rows: "max_id = Some mx" "nrows = Some ns" by auto
    obtain m g where l: "load_nodes mx ns (\<lambda>_. 0, gb) = (m, g)" by fastforce
    have g': "gb' = (case erows of None \<Rightarrow> g | Some es \<Rightarrow> load_edges mx m es g)"
      using r True rows l by (auto simp: cbm_gbuf_load_from_db_def split: option.splits)
    have "next_of g \<le> next_of gb'" using load_edges_next g' by (simp split: option.splits)
    then have g: "gb_inv g" "refs_ok gb \<Longrightarrow> refs_ok g" "\<And>k. m k > 0 \<Longrightarrow> m k \<in> live_ids g"
      using load_nodes_spec [OF inv _ l] room by auto
    show ?thesis
    proof (cases erows)
      case None
      then show ?thesis using g g' by simp
    next
      case (Some es)
      then show ?thesis using g(1,2) g' load_edges_spec [of g m mx es] g(3) by auto
    qed
  next
    case False
    then have "gb' = gb" using r by (auto simp: cbm_gbuf_load_from_db_def split: option.splits)
    then show ?thesis using inv by simp
  qed
  then show "gb_inv gb'" "refs_ok gb \<Longrightarrow> refs_ok gb'" by auto
qed

section \<open>The indexes by label and by name\<close>

definition live_idx :: "cbm_gbuf \<Rightarrow> nat set" where
  "live_idx gb = {i. i < length (gb_nodes gb) \<and> n_qn (node_at gb i) \<noteq> None}"

definition names_ok :: "cbm_gbuf \<Rightarrow> bool" where
  "names_ok gb \<longleftrightarrow> exact_index (array_at (nodes_by_label gb)) (live_idx gb) (\<lambda>i. n_label (node_at gb i)) \<and>
     exact_index (array_at (nodes_by_name gb)) (live_idx gb) (\<lambda>i. n_name (node_at gb i))"

definition same_names :: "cbm_gbuf \<Rightarrow> cstr \<Rightarrow> cstr \<Rightarrow> cstr \<Rightarrow> bool" where
  \<comment> \<open>an upsert of an existing node does not change its label or its name\<close>
  "same_names gb qn label name \<longleftrightarrow> (\<forall>n. cbm_gbuf_find_by_qn gb qn = Some n \<longrightarrow> n_label n = gb_intern label \<and> n_name n = heap_strdup name)"

lemma names_ok_part: "node_part gb' = node_part gb \<Longrightarrow> names_ok gb' = names_ok gb"
  by (simp add: names_ok_def live_idx_def node_part_def)

lemma names_ok_push:
  assumes ok: "names_ok gb" and n: "n_qn n \<noteq> None"
  shows "names_ok (push_node gb n)"
proof -
  let ?i = "length (gb_nodes gb)" and ?g = "push_node gb n"
  have idx: "live_idx ?g = insert ?i (live_idx gb)" using n by (auto simp: live_idx_def nth_append less_Suc_eq)
  have old: "exact_index (array_at (nodes_by_label gb)) (live_idx gb) (\<lambda>i. n_label (node_at ?g i))"
    "exact_index (array_at (nodes_by_name gb)) (live_idx gb) (\<lambda>i. n_name (node_at ?g i))"
    using ok unfolding names_ok_def
    by (auto intro: exact_index_cong [where key = "\<lambda>i. n_label (node_at gb i)"] exact_index_cong [where key = "\<lambda>i. n_name (node_at gb i)"]
        simp: live_idx_def nth_append)
  have new: "?i \<notin> live_idx gb" by (simp add: live_idx_def)
  show ?thesis using ix.exact_push [OF old(1) new] ix.exact_push [OF old(2) new]
    by (simp add: names_ok_def idx) (simp add: push_node_def register_node_in_indexes_def Let_def)
qed

lemma names_ok_update:
  assumes ok: "names_ok gb" and i: "i < length (gb_nodes gb)"
    and n: "n_qn n = n_qn (node_at gb i)" "n_label n = n_label (node_at gb i)" "n_name n = n_name (node_at gb i)"
  shows "names_ok (gb\<lparr>gb_nodes := (gb_nodes gb)[i := n]\<rparr>)"
proof -
  have at: "n_qn ((gb_nodes gb)[i := n] ! j) = n_qn (node_at gb j)" "n_label ((gb_nodes gb)[i := n] ! j) = n_label (node_at gb j)"
    "n_name ((gb_nodes gb)[i := n] ! j) = n_name (node_at gb j)" for j
    using i n by (cases "j = i"; simp)+
  then show ?thesis using ok by (simp add: names_ok_def live_idx_def)
qed

lemma names_ok_drop:
  assumes ok: "names_ok gb" and nodes: "nodes_ok gb" and i: "i \<in> live_idx gb"
  shows "names_ok (drop_file_node gb i)"
proof -
  let ?g = "drop_file_node gb i"
  have lt: "i < length (gb_nodes gb)" using i by (simp add: live_idx_def)
  note at = drop_file_node_at [OF lt]
  have idx: "live_idx ?g = live_idx gb - {i}" using lt by (auto simp: live_idx_def at)
  have P: "j \<in> live_idx gb \<Longrightarrow> n_id (node_at gb j) = n_id (node_at gb i) \<longleftrightarrow> j = i" for j
    using nodes_okD(5) [OF nodes, of j i] lt by (simp add: live_idx_def)
  have lab: "nodes_by_label ?g = array_remove (\<lambda>x. n_id (node_at gb x) = n_id (node_at gb i)) (nodes_by_label gb) (n_label (node_at gb i))"
    and nam: "nodes_by_name ?g = array_remove (\<lambda>x. n_id (node_at gb x) = n_id (node_at gb i)) (nodes_by_name gb) (n_name (node_at gb i))"
    by (simp_all add: drop_file_node_def drop_primary_def remove_node_from_ptr_array_def Let_def)
  have "exact_index (array_at (nodes_by_label ?g)) (live_idx gb - {i}) (\<lambda>j. n_label (node_at gb j))"
    using ok ix.exact_remove [of "nodes_by_label gb" "live_idx gb" "\<lambda>j. n_label (node_at gb j)" i, OF _ i P] by (simp add: names_ok_def lab)
  moreover have "exact_index (array_at (nodes_by_name ?g)) (live_idx gb - {i}) (\<lambda>j. n_name (node_at gb j))"
    using ok ix.exact_remove [of "nodes_by_name gb" "live_idx gb" "\<lambda>j. n_name (node_at gb j)" i, OF _ i P] by (simp add: names_ok_def nam)
  moreover have "n_label (node_at ?g j) = n_label (node_at gb j)" "n_name (node_at ?g j) = n_name (node_at gb j)" for j
    by (simp_all add: at)
  ultimately show ?thesis unfolding names_ok_def idx by simp
qed

lemma upsert_names:
  assumes ok: "names_ok gb" "nodes_ok gb" and r: "cbm_gbuf_upsert_node gb label name qn fp s e props = (nid, gb')"
    and same: "same_names gb qn label name"
  shows "names_ok gb'"
proof (cases rule: upsert_cases [of qn gb label name fp s e props])
  case none
  then show ?thesis using ok r by simp
next
  case (existing q i n)
  then have "i < length (gb_nodes gb)" "n_label (node_at gb i) = gb_intern label" "n_name (node_at gb i) = heap_strdup name"
    using nodes_okD(3) [OF ok(2), of q i] same by (auto simp: same_names_def cbm_gbuf_find_by_qn_def)
  then show ?thesis using names_ok_update [OF ok(1), of i n] existing r by simp
next
  case (new q n)
  have "names_ok (snd (alloc_next_id gb))" using ok(1) names_ok_part [OF alloc_next_id(3)] by simp
  then show ?thesis using names_ok_push new(3,4) r by simp
qed

lemma delete_file_loop_names:
  assumes "names_ok gb" and "nodes_ok gb" and "\<forall>i \<in> set is. i < length (gb_nodes gb)"
  shows "names_ok (snd (delete_file_loop fp is deleted gb))"
  using assms
proof (induction "is" arbitrary: deleted gb)
  case (Cons i "is")
  then have i: "i < length (gb_nodes gb)" by simp
  show ?case
  proof (cases "doomed gb fp i")
    case True
    then obtain q where q: "n_qn (node_at gb i) = Some q" by (auto simp: doomed_def)
    then have "names_ok (drop_file_node gb i)" "nodes_ok (drop_file_node gb i)"
      using names_ok_drop [OF Cons.prems(1,2)] drop_file_node_ok [OF Cons.prems(2) i q] i by (auto simp: live_idx_def)
    then show ?thesis using Cons.IH [of "drop_file_node gb i"] Cons.prems(3) True delete_file_loop_Cons [OF Cons.prems(2) i] by simp
  next
    case False
    then show ?thesis using Cons delete_file_loop_Cons [OF Cons.prems(2) i] by simp
  qed
qed simp

lemma delete_by_file_names:
  assumes "names_ok gb" "nodes_ok gb" and r: "cbm_gbuf_delete_by_file gb (Some fp) = (c, gb')"
  shows "names_ok gb'"
proof -
  obtain ks g where loop: "delete_file_loop fp [0..<length (gb_nodes gb)] [] gb = (ks, g)" by fastforce
  then have "names_ok g" using delete_file_loop_names [OF assms(1,2), of "[0..<length (gb_nodes gb)]" fp "[]"] by simp
  moreover have "node_part (cascade_delete_edges g d) = node_part g" for d by (simp add: cascade_delete_edges_def cascade_loop_frame)
  then have "names_ok (cascade_delete_edges g d) = names_ok g" for d by (rule names_ok_part)
  ultimately show ?thesis using r loop by (auto simp: cbm_gbuf_delete_by_file_def split: if_splits)
qed

section \<open>The tables of edges alone\<close>

text \<open>
  The tables of edges stay right under every operation, also where the tables of nodes do not. To
  use what is known of insertion, the nodes of a buffer are taken away: an invariant of the edges of a buffer is
  the whole invariant of the buffer without its nodes.
\<close>

definition edge_inv :: "cbm_gbuf \<Rightarrow> bool" where
  "edge_inv gb \<longleftrightarrow> distinct (gb_edges gb) \<and> edges_ok gb (set (gb_edges gb)) \<and> 1 \<le> next_of gb \<and>
     (\<forall>x \<in> set (gb_edges gb). 1 \<le> ge_id (edge_at gb x) \<and> ge_id (edge_at gb x) < next_of gb)"

definition bare :: "cbm_gbuf \<Rightarrow> cbm_gbuf" where
  "bare gb = gb\<lparr>gb_nodes := [], node_by_qn := Map.empty, node_by_id := Map.empty\<rparr>"

lemma bare_frame: "edge_part (bare gb) = edge_part gb" "next_of (bare gb) = next_of gb"
  by (simp_all add: bare_def edge_part_def edge_tables_def cbm_gbuf_next_id_def split: option.splits)

lemma edge_inv_bare: "gb_inv (bare gb) \<longleftrightarrow> edge_inv gb"
  using edges_ok_part [OF bare_frame(1)] bare_frame
  by (auto simp: gb_inv_def edge_inv_def ids_ok_def nodes_ok_def bare_def edge_part_eq)

lemma inv_edge_inv: "gb_inv gb \<Longrightarrow> edge_inv gb"
  by (simp add: gb_inv_def edge_inv_def ids_ok_def)

lemma edge_inv_frame:
  "edge_inv gb \<Longrightarrow> edge_part gb' = edge_part gb \<Longrightarrow> next_of gb \<le> next_of gb' \<Longrightarrow> edge_inv gb'"
  using edges_ok_part [of gb' gb] by (force simp: edge_inv_def edge_part_eq)

lemma insert_edge_bare:
  "cbm_gbuf_insert_edge gb src tgt type props = (nid, gb') \<Longrightarrow> cbm_gbuf_insert_edge (bare gb) src tgt type props = (nid, bare gb')"
  by (auto simp: cbm_gbuf_insert_edge_def bare_def Let_def alloc_next_id_def register_edge_in_indexes_def split: option.splits)

lemma insert_edge_edges:
  "edge_inv gb \<Longrightarrow> cbm_gbuf_insert_edge gb src tgt type props = (nid, gb') \<Longrightarrow> edge_inv gb'"
  using insert_edge_inv(1) [OF _ insert_edge_bare] edge_inv_bare by blast

lemma upsert_edges:
  assumes "cbm_gbuf_upsert_node gb label name qn fp s e props = (nid, gb')"
  shows "edge_part gb' = edge_part gb \<and> next_of gb \<le> next_of gb'"
proof -
  have "edge_part (gb\<lparr>gb_nodes := ns\<rparr>) = edge_part gb" for ns by (simp add: edge_part_def edge_tables_def)
  then show ?thesis
    using assms upsert_next [OF assms] by (cases rule: upsert_cases [of qn gb label name fp s e props]) auto
qed

lemma cascade_edges: "edge_inv gb \<Longrightarrow> edge_inv (cascade_delete_edges gb d)"
  using cascade_delete_edges_ok [of gb d] next_of_part [of "cascade_delete_edges gb d" gb]
  by (auto simp: edge_inv_def cascade_delete_edges_def cascade_loop_frame)

lemma delete_type_edges:
  assumes "edge_inv gb" "cbm_gbuf_delete_edges_by_type gb type = (rc, gb')"
  shows "edge_inv gb'"
proof (cases type)
  case None
  then show ?thesis using assms by (simp add: cbm_gbuf_delete_edges_by_type_def)
next
  case (Some t)
  then show ?thesis
    using assms delete_edges_by_type_ok [of gb t rc gb'] next_of_part [of gb' gb] by (auto simp: edge_inv_def)
qed

lemma drop_primary_edges:
  "edge_part (foldl drop_primary gb is) = edge_part gb \<and> id_part (foldl drop_primary gb is) = id_part gb"
  by (induction "is" arbitrary: gb) (simp_all add: drop_primary_def edge_part_def edge_tables_def id_part_def Let_def)

lemma delete_label_edges:
  assumes "edge_inv gb" "cbm_gbuf_delete_by_label gb label = (rc, gb')"
  shows "edge_inv gb'"
proof (cases label)
  case None
  then show ?thesis using assms by (simp add: cbm_gbuf_delete_by_label_def)
next
  case (Some l)
  let ?g = "(foldl drop_primary gb (array_at (nodes_by_label gb) l))"
  have "edge_part (?g\<lparr>nodes_by_label := m\<rparr>) = edge_part gb \<and> next_of (?g\<lparr>nodes_by_label := m\<rparr>) = next_of gb" for m
    using drop_primary_edges [of gb "array_at (nodes_by_label gb) l"]
    by (simp add: edge_part_def edge_tables_def id_part_def cbm_gbuf_next_id_def split: option.splits)
  then have "edge_inv (?g\<lparr>nodes_by_label := m\<rparr>)" for m using edge_inv_frame [OF assms(1)] by simp
  then show ?thesis using assms Some by (auto simp: cbm_gbuf_delete_by_label_def Let_def cascade_edges split: if_splits)
qed

lemma delete_file_loop_edges:
  "delete_file_loop fp is deleted gb = (ks, gb') \<Longrightarrow> edge_part gb' = edge_part gb \<and> next_of gb' = next_of gb"
proof (induction "is" arbitrary: deleted gb)
  case (Cons i "is")
  have drop: "edge_part (drop_file_node gb i) = edge_part gb" "next_of (drop_file_node gb i) = next_of gb"
    by (simp, rule next_of_part, simp)
  have "delete_file_loop fp (i # is) deleted gb =
      (if n_qn (node_at gb i) = None \<or> n_file (node_at gb i) \<noteq> fp \<or> node_by_qn gb (the (n_qn (node_at gb i))) = None
       then delete_file_loop fp is deleted gb
       else delete_file_loop fp is (deleted @ [make_id_key (n_id (node_at gb i))]) (drop_file_node gb i))"
    by (simp add: delete_file_loop.simps(2) drop_file_node_def Let_def split: option.split)
  then show ?case using Cons.prems Cons.IH [of deleted gb] Cons.IH [of _ "drop_file_node gb i"] drop by (auto split: if_splits)
qed simp

lemma delete_file_edges:
  assumes "edge_inv gb" "cbm_gbuf_delete_by_file gb fp = (c, gb')"
  shows "edge_inv gb'"
proof (cases fp)
  case None
  then show ?thesis using assms by (simp add: cbm_gbuf_delete_by_file_def)
next
  case (Some f)
  obtain ks g where loop: "delete_file_loop f [0..<length (gb_nodes gb)] [] gb = (ks, g)" by fastforce
  have "edge_inv g" using edge_inv_frame [OF assms(1)] delete_file_loop_edges [OF loop] by simp
  then show ?thesis using assms(2) Some loop by (auto simp: cbm_gbuf_delete_by_file_def cascade_edges split: if_splits)
qed

lemma load_nodes_edges: "edge_inv gb \<Longrightarrow> load_nodes max_id rows (m, gb) = (m', gb') \<Longrightarrow> edge_inv gb'"
proof (induction rows arbitrary: m gb)
  case (Cons r rs)
  obtain nid g where u: "cbm_gbuf_upsert_node gb (dn_label r) (dn_name r) (dn_qn r) (dn_file r) (dn_start r) (dn_end r) (dn_props r) = (nid, g)"
    by fastforce
  then have "edge_inv g" using edge_inv_frame [OF Cons.prems(1)] upsert_edges by blast
  then show ?case using Cons.IH Cons.prems(2) u by (auto split: if_splits)
qed simp

lemma load_edges_edges: "edge_inv gb \<Longrightarrow> edge_inv (load_edges max_id m rows gb)"
proof (induction rows arbitrary: gb)
  case (Cons r rs)
  then show ?case using insert_edge_edges [OF Cons.prems surjective_pairing] by (simp add: Let_def)
qed simp

lemma load_from_db_edges:
  assumes "edge_inv gb" "cbm_gbuf_load_from_db gb opens max_id nrows erows = (rc, gb')"
  shows "edge_inv gb'"
  using assms by (auto simp: cbm_gbuf_load_from_db_def intro: load_edges_edges load_nodes_edges split: if_splits option.splits prod.splits)

lemma merge_nodes_edges:
  "merge_nodes by_qn sns (dst, remap) = (dst', remap') \<Longrightarrow> edge_part dst' = edge_part dst \<and> next_of dst \<le> next_of dst'"
proof (induction sns arbitrary: dst remap)
  case (Cons sn sns)
  have new: "edge_part (merge_copy_new_node dst sn) = edge_part dst" "next_of dst \<le> next_of (merge_copy_new_node dst sn)"
    by (auto simp: merge_copy_new_node_def Let_def register_node_in_indexes_def edge_part_def edge_tables_def cbm_gbuf_next_id_def
        split: option.splits)
  have old: "edge_part (fst (merge_update_existing dst i sn remap)) = edge_part dst"
    "next_of (fst (merge_update_existing dst i sn remap)) = next_of dst" for i
    by (simp_all add: merge_update_existing_def Let_def edge_part_def edge_tables_def)
  have upd: "edge_part dst' = edge_part dst \<and> next_of dst \<le> next_of dst'"
    if "merge_nodes by_qn sns (merge_update_existing dst i sn remap) = (dst', remap')" for i
    using Cons.IH [of "fst (merge_update_existing dst i sn remap)"] that old [of i] by (metis prod.collapse)
  show ?case
    using Cons.prems Cons.IH [of dst remap] Cons.IH [of "merge_copy_new_node dst sn" remap] new upd
    by (auto split: option.splits if_splits)
qed simp

lemma merge_remap_edges_edges: "edge_inv dst \<Longrightarrow> edge_inv (merge_remap_edges ses remap dst)"
proof (induction ses arbitrary: dst)
  case (Cons se ses)
  then show ?case using insert_edge_edges [OF Cons.prems surjective_pairing] by simp
qed simp

lemma merge_edges:
  assumes "edge_inv dst" "cbm_gbuf_merge dst src = (rc, dst')"
  shows "edge_inv dst'"
proof -
  obtain d remap where nodes: "merge_nodes (node_by_qn src) (gb_nodes src) (dst, Map.empty) = (d, remap)" by fastforce
  have "edge_inv d" using edge_inv_frame [OF assms(1)] merge_nodes_edges [OF nodes] by simp
  then show ?thesis
    using assms nodes by (auto simp: cbm_gbuf_merge_def merge_remap_edges_edges split: if_splits)
qed

section \<open>Reachable buffers\<close>

text \<open>
  The histories of a buffer: every public operation that changes a buffer, in any order and with any
  arguments, from its creation to its dump (which frees the tables). A history is described by the promises it has
  kept so far, and an operation that breaks one is allowed but removes it from the set.
  \<^item> \<open>Ids_rise\<close>: the next id is at least 1, does not go down and stays within 64 bits.
  \<^item> \<open>No_label_deletes\<close>: no nodes are deleted by label.
  \<^item> \<open>Edges_join_nodes\<close>: edges are inserted between nodes of the buffer. (The buffer of edges of a worker
    refers to nodes of the main buffer instead.)
  \<^item> \<open>Names_stay\<close>: no node gets another label or name.

  A merge keeps the promises of the destination if the two buffers are fit for each other (\<open>merge_guard\<close>), apart from
  the last one; otherwise only the first one can be relied on. A shared counter may be advanced by other buffers at any time.
\<close>

datatype promise = Ids_rise | No_label_deletes | Edges_join_nodes | Names_stay

definition lost :: "bool \<Rightarrow> promise \<Rightarrow> promise set" where
  "lost kept p = (if kept then {} else {p})"

definition merge_keeps :: "promise set \<Rightarrow> promise set \<Rightarrow> cbm_gbuf \<Rightarrow> cbm_gbuf \<Rightarrow> promise set" where
  "merge_keeps R R' dst src =
     (if {Ids_rise, No_label_deletes, Edges_join_nodes} \<subseteq> R \<and> {Ids_rise, No_label_deletes} \<subseteq> R' \<and> merge_guard dst src
      then R - {Names_stay} else R \<inter> {Ids_rise})"

inductive gb_reach :: "promise set \<Rightarrow> cbm_gbuf \<Rightarrow> bool" where
  new: "gb_reach UNIV (cbm_gbuf_new project root)"
| new_shared: "gb_reach (- lost (\<forall>n. id_source = Some n \<longrightarrow> 1 \<le> n) Ids_rise) (cbm_gbuf_new_shared_ids project root id_source)"
| upsert: "gb_reach R gb \<Longrightarrow> cbm_gbuf_upsert_node gb label name qn fp s e props = (nid, gb') \<Longrightarrow>
    gb_reach (R - lost (next_of gb' \<le> LONG_MAX) Ids_rise - lost (same_names gb qn label name) Names_stay) gb'"
| insert: "gb_reach R gb \<Longrightarrow> cbm_gbuf_insert_edge gb src tgt type props = (nid, gb') \<Longrightarrow>
    gb_reach (R - lost (next_of gb' \<le> LONG_MAX) Ids_rise - lost (src \<in> live_ids gb \<and> tgt \<in> live_ids gb) Edges_join_nodes) gb'"
| delete_label: "gb_reach R gb \<Longrightarrow> cbm_gbuf_delete_by_label gb label = (rc, gb') \<Longrightarrow> gb_reach (R - {No_label_deletes}) gb'"
| delete_file: "gb_reach R gb \<Longrightarrow> cbm_gbuf_delete_by_file gb fp = (c, gb') \<Longrightarrow> gb_reach R gb'"
| delete_type: "gb_reach R gb \<Longrightarrow> cbm_gbuf_delete_edges_by_type gb type = (rc, gb') \<Longrightarrow> gb_reach R gb'"
| load: "gb_reach R gb \<Longrightarrow> cbm_gbuf_load_from_db gb opens max_id nrows erows = (rc, gb') \<Longrightarrow>
    gb_reach (R - lost (next_of gb' \<le> LONG_MAX) Ids_rise - {Names_stay}) gb'"
| merge: "gb_reach R dst \<Longrightarrow> gb_reach R' src \<Longrightarrow> cbm_gbuf_merge dst src = (rc, dst') \<Longrightarrow>
    gb_reach (merge_keeps R R' dst src) dst'"
| vector: "gb_reach R gb \<Longrightarrow> cbm_gbuf_store_vector gb nid vec = (rc, gb') \<Longrightarrow> gb_reach R gb'"
| token_vector: "gb_reach R gb \<Longrightarrow> cbm_gbuf_store_token_vector gb tok vec idf = (rc, gb') \<Longrightarrow> gb_reach R gb'"
| set_next: "gb_reach R gb \<Longrightarrow> cbm_gbuf_set_next_id gb m = gb' \<Longrightarrow> gb_reach (R - lost (next_of gb \<le> next_of gb') Ids_rise) gb'"
| other_worker: "gb_reach R gb \<Longrightarrow> shared_ids gb = Some n \<Longrightarrow> n \<le> m \<Longrightarrow> gb_reach R (gb\<lparr>shared_ids := Some m\<rparr>)"

lemma reach_upsert:
  "gb_reach R gb \<Longrightarrow> cbm_gbuf_upsert_node gb label name qn fp s e props = (nid, gb') \<Longrightarrow> next_of gb' \<le> LONG_MAX \<Longrightarrow>
   same_names gb qn label name \<Longrightarrow> gb_reach R gb'"
  using gb_reach.upsert [of R gb label name qn fp s e props nid gb'] by (simp add: lost_def)

lemma reach_insert:
  assumes "gb_reach R gb" and r: "cbm_gbuf_insert_edge gb src tgt type props = (nid, gb')" and "next_of gb < LONG_MAX"
    and "src \<in> live_ids gb" "tgt \<in> live_ids gb"
  shows "gb_reach R gb'"
proof -
  have "next_of (gb\<lparr>edge_heap := es\<rparr>) = next_of gb" for es by (rule next_of_part) (simp add: id_part_def)
  then have "next_of gb' \<le> next_of gb + 1" using r by (cases rule: insert_edge_cases [of type gb src tgt props]) auto
  then show ?thesis using gb_reach.insert [OF assms(1) r] assms(3-5) by (simp add: lost_def)
qed

definition inv_good :: "bool \<Rightarrow> bool \<Rightarrow> cbm_gbuf \<Rightarrow> bool" where
  "inv_good closed steady gb \<longleftrightarrow> gb_inv gb \<and> (closed \<longrightarrow> refs_ok gb) \<and> (steady \<longrightarrow> names_ok gb)"

lemma good_new: "1 \<le> n \<Longrightarrow> inv_good closed steady (cbm_gbuf_new_shared_ids project root (Some n))"
  "inv_good closed steady (cbm_gbuf_new project root)"
  by (simp_all add: inv_good_def gb_inv_def nodes_ok_def edges_ok_def ids_ok_def refs_ok_def names_ok_def live_idx_def
      cbm_gbuf_new_shared_ids_def cbm_gbuf_new_def cbm_gbuf_next_id_def ix.exact_empty)

lemma good_frame:
  assumes good: "inv_good closed steady gb"
    and same: "gb_nodes gb' = gb_nodes gb" "node_by_qn gb' = node_by_qn gb" "node_by_id gb' = node_by_id gb"
      "nodes_by_label gb' = nodes_by_label gb" "nodes_by_name gb' = nodes_by_name gb" "edge_part gb' = edge_part gb"
    and "next_of gb \<le> next_of gb'"
  shows "inv_good closed steady gb'"
proof -
  have "nodes_ok gb' = nodes_ok gb" "names_ok gb' = names_ok gb" "live_ids gb' = live_ids gb"
    by (simp_all add: nodes_ok_def names_ok_def live_idx_def live_ids_def same)
  moreover have "ids_ok gb \<Longrightarrow> ids_ok gb'" using same(1,6) assms(8) by (auto simp: ids_ok_def edge_part_eq)
  moreover have "refs_ok gb' = refs_ok gb" using same(6) \<open>live_ids gb' = live_ids gb\<close> by (simp add: refs_ok_def edge_part_eq)
  ultimately show ?thesis using good edges_ok_part [OF same(6)] same(6) by (auto simp: inv_good_def gb_inv_def edge_part_eq)
qed

lemma good_upsert:
  assumes good: "inv_good closed steady gb" and r: "cbm_gbuf_upsert_node gb label name qn fp s e props = (nid, gb')"
    and "next_of gb' \<le> LONG_MAX"
  shows "inv_good closed (steady \<and> same_names gb qn label name) gb'"
proof -
  have inv: "gb_inv gb" "nodes_ok gb" using good by (auto simp: inv_good_def gb_inv_def)
  show ?thesis using good upsert_inv(1) [OF inv(1) r assms(3)] upsert_refs [OF inv(1) r assms(3)]
      upsert_names [OF _ inv(2) r] by (auto simp: inv_good_def)
qed

lemma good_load:
  assumes "inv_good closed steady gb" "cbm_gbuf_load_from_db gb opens max_id nrows erows = (rc, gb')" "next_of gb' \<le> LONG_MAX"
  shows "inv_good closed False gb'"
  using assms load_from_db_spec [OF _ assms(2,3)] by (auto simp: inv_good_def)

lemma good_merge:
  assumes "inv_good True steady dst" "inv_good closed steady' src" "merge_guard dst src" "cbm_gbuf_merge dst src = (rc, dst')"
  shows "inv_good closed' False dst'"
proof -
  have "mergeable dst src" using assms(1-3) by (simp add: inv_good_def mergeable_def)
  then show ?thesis using merge_spec(2,3) [OF _ assms(4)] by (simp add: inv_good_def)
qed

lemma good_insert:
  assumes good: "inv_good closed steady gb" and r: "cbm_gbuf_insert_edge gb src tgt type props = (nid, gb')"
  shows "inv_good (closed \<and> src \<in> live_ids gb \<and> tgt \<in> live_ids gb) steady gb'"
proof -
  have inv: "gb_inv gb" using good by (simp add: inv_good_def)
  show ?thesis using good insert_edge_inv(1,2) [OF inv r] insert_edge_refs [OF inv r]
      names_ok_part [OF insert_edge_inv(2) [OF inv r]] by (simp add: inv_good_def)
qed

lemma good_delete_type:
  assumes good: "inv_good closed steady gb" and r: "cbm_gbuf_delete_edges_by_type gb type = (rc, gb')"
  shows "inv_good closed steady gb'"
proof (cases type)
  case None
  then show ?thesis using good r by (simp add: cbm_gbuf_delete_edges_by_type_def)
next
  case (Some t)
  have inv: "edges_ok gb (set (gb_edges gb))" "distinct (gb_edges gb)" using good by (auto simp: inv_good_def gb_inv_def)
  note d = delete_edges_by_type_ok [OF inv r [unfolded Some]]
  have live: "live_ids gb' = live_ids gb" by (rule live_ids_part) (rule node_part_nodes [OF d(4)])
  have "ids_ok gb'" using good next_of_part [OF d(5)] node_part_nodes [OF d(4)] by (auto simp: inv_good_def gb_inv_def ids_ok_def d(2,3))
  moreover have "closed \<Longrightarrow> refs_ok gb'" using good live by (auto simp: inv_good_def refs_ok_def d(2,3))
  ultimately show ?thesis using good d(1) inv(2) nodes_ok_part [OF d(4)] names_ok_part [OF d(4)]
    by (simp add: inv_good_def gb_inv_def d(2))
qed

lemma good_delete_file:
  assumes good: "inv_good closed steady gb" and r: "cbm_gbuf_delete_by_file gb fp = (c, gb')"
  shows "inv_good closed steady gb'"
proof (cases fp)
  case None
  then show ?thesis using good r by (simp add: cbm_gbuf_delete_by_file_def)
next
  case (Some f)
  have inv: "gb_inv gb" "nodes_ok gb" using good by (auto simp: inv_good_def gb_inv_def)
  show ?thesis using good delete_by_file_spec(1,8) [OF inv(1) r [unfolded Some]] delete_by_file_names [OF _ inv(2) r [unfolded Some]]
    by (auto simp: inv_good_def)
qed

definition gb_good :: "promise set \<Rightarrow> cbm_gbuf \<Rightarrow> bool" where
  "gb_good R gb \<longleftrightarrow> (Ids_rise \<in> R \<longrightarrow> edge_inv gb) \<and>
     (Ids_rise \<in> R \<and> No_label_deletes \<in> R \<longrightarrow> inv_good (Edges_join_nodes \<in> R) (Names_stay \<in> R) gb)"

lemma in_lost [simp]: "p \<in> lost kept q \<longleftrightarrow> \<not> kept \<and> p = q"
  by (simp add: lost_def)

lemma frame_good:
  assumes "gb_good R gb" and "gb_nodes gb' = gb_nodes gb" "node_by_qn gb' = node_by_qn gb" "node_by_id gb' = node_by_id gb"
    "nodes_by_label gb' = nodes_by_label gb" "nodes_by_name gb' = nodes_by_name gb" "edge_part gb' = edge_part gb"
    and "Ids_rise \<in> R \<Longrightarrow> next_of gb \<le> next_of gb'"
  shows "gb_good R gb'"
  using assms edge_inv_frame [of gb gb'] good_frame [OF _ assms(2-7)] by (simp add: gb_good_def)

lemma reach_good: "gb_reach R gb \<Longrightarrow> gb_good R gb"
proof (induction rule: gb_reach.induct)
  case (new project root)
  show ?case using good_new(2) by (auto simp: gb_good_def inv_good_def intro: inv_edge_inv)
next
  case (new_shared id_source project root)
  have "inv_good c st (cbm_gbuf_new_shared_ids project root id_source)" if "\<forall>n. id_source = Some n \<longrightarrow> 1 \<le> n" for c st
    using good_new(1) [of _ c st project root] good_new(2) [of c st project root] that by (cases id_source) (simp_all add: cbm_gbuf_new_shared_ids_def cbm_gbuf_new_def)
  then show ?case by (auto simp: gb_good_def inv_good_def intro: inv_edge_inv)
next
  case (upsert R gb label name qn fp s e props nid gb')
  then show ?case using edge_inv_frame [of gb gb'] upsert_edges [OF upsert.hyps(2)] good_upsert [OF _ upsert.hyps(2)]
    by (simp add: gb_good_def)
next
  case (insert R gb src tgt type props nid gb')
  then show ?case using insert_edge_edges [OF _ insert.hyps(2)] good_insert [OF _ insert.hyps(2)]
    by (simp add: gb_good_def)
next
  case (delete_label R gb label rc gb')
  then show ?case using delete_label_edges [OF _ delete_label.hyps(2)] by (simp add: gb_good_def)
next
  case (delete_file R gb fp c gb')
  then show ?case using delete_file_edges good_delete_file by (auto simp: gb_good_def)
next
  case (delete_type R gb type rc gb')
  then show ?case using delete_type_edges good_delete_type by (auto simp: gb_good_def)
next
  case (load R gb opens max_id nrows erows rc gb')
  then show ?case using load_from_db_edges [OF _ load.hyps(2)] good_load [OF _ load.hyps(2)] by (auto simp: gb_good_def)
next
  case (merge R dst R' src rc dst')
  then show ?case using merge_edges [OF _ merge.hyps(3)] good_merge [OF _ _ _ merge.hyps(3)]
    by (auto simp: gb_good_def merge_keeps_def)
next
  case (vector R gb nid vec rc gb')
  show ?case by (rule frame_good [OF vector.IH])
      (use vector.hyps in \<open>auto simp: cbm_gbuf_store_vector_def cbm_gbuf_next_id_def edge_part_def edge_tables_def split: option.splits if_splits\<close>)
next
  case (token_vector R gb tok vec idf rc gb')
  show ?case by (rule frame_good [OF token_vector.IH])
      (use token_vector.hyps in \<open>auto simp: cbm_gbuf_store_token_vector_def cbm_gbuf_next_id_def edge_part_def edge_tables_def split: option.splits if_splits\<close>)
next
  case (set_next R gb m gb')
  let ?R = "R - lost (next_of gb \<le> next_of gb') Ids_rise"
  have "gb_good ?R gb" using set_next.IH by (auto simp: gb_good_def)
  then show ?case by (rule frame_good)
      (use set_next.hyps in \<open>auto simp: cbm_gbuf_set_next_id_def edge_part_def edge_tables_def\<close>)
next
  case (other_worker R gb n m)
  show ?case by (rule frame_good [OF other_worker.IH])
      (use other_worker.hyps in \<open>auto simp: cbm_gbuf_next_id_def edge_part_def edge_tables_def\<close>)
qed


subsection \<open>A small buffer\<close>

definition demo0 :: cbm_gbuf where
  "demo0 = cbm_gbuf_new (Some ''p'') (Some ''/r'')"

definition demo1 :: cbm_gbuf where
  "demo1 = snd (cbm_gbuf_upsert_node demo0 (Some ''Function'') (Some ''f'') (Some ''p.f'') (Some ''a.c'') 1 3 None)"

definition demo2 :: cbm_gbuf where
  "demo2 = snd (cbm_gbuf_upsert_node demo1 (Some ''Function'') (Some ''g'') (Some ''p.g'') (Some ''b.c'') 1 2 None)"

definition demo3 :: cbm_gbuf where
  "demo3 = snd (cbm_gbuf_insert_edge demo2 1 2 (Some ''CALLS'') None)"

lemmas demo_defs = demo0_def demo1_def demo2_def cbm_gbuf_upsert_node_def cbm_gbuf_new_def cbm_gbuf_new_shared_ids_def alloc_next_id_def
  register_node_in_indexes_def Let_def gb_intern_def heap_strdup_def cbm_gbuf_next_id_def cbm_gbuf_find_by_qn_def

lemma demo_steps:
  "next_of demo1 = 2" "next_of demo2 = 3"
  "map n_id (gb_nodes demo2) = [1, 2]" "map n_qn (gb_nodes demo2) = [Some ''p.f'', Some ''p.g'']"
  "cbm_gbuf_find_by_qn demo0 (Some ''p.f'') = None" "cbm_gbuf_find_by_qn demo1 (Some ''p.g'') = None"
  by (simp_all add: demo_defs)

lemma demo_live: "live_ids demo2 = {1, 2}"
  using demo_steps(3,4) unfolding live_ids_def by (cases "gb_nodes demo2") auto

lemma demo_reach: "gb_reach UNIV demo2" "gb_reach UNIV demo3"
proof -
  have r0: "gb_reach UNIV demo0" unfolding demo0_def by (rule gb_reach.new)
  have r1: "gb_reach UNIV demo1" unfolding demo1_def
    by (rule reach_upsert [OF r0 surjective_pairing])
       (simp_all add: demo_steps same_names_def LONG_MAX_def flip: demo1_def)
  show r2: "gb_reach UNIV demo2" unfolding demo2_def
    by (rule reach_upsert [OF r1 surjective_pairing])
       (simp_all add: demo_steps same_names_def LONG_MAX_def flip: demo2_def)
  show "gb_reach UNIV demo3" unfolding demo3_def
    by (rule reach_insert [OF r2 surjective_pairing]) (simp_all add: demo_live demo_steps LONG_MAX_def)
qed

lemma demo_inv: "gb_inv demo2" "gb_inv demo3" "refs_ok demo3" "names_ok demo2" "names_ok demo3"
  using reach_good [OF demo_reach(1)] reach_good [OF demo_reach(2)] by (simp_all add: gb_good_def inv_good_def)

lemma demo_edges: "id_edges demo2 = {}" "short_edges demo2" "id_edges demo3 = {(1, 2, ''CALLS'')}"
proof -
  have e: "gb_edges demo2 = []" by (simp add: demo2_def demo1_def demo0_def cbm_gbuf_upsert_node_def cbm_gbuf_new_def alloc_next_id_def
        register_node_in_indexes_def Let_def)
  then show "id_edges demo2 = {}" and short: "short_edges demo2" by (simp_all add: id_edges_def short_edges_def)
  have "int64 1" "int64 2" "short_type ''CALLS''" by (simp_all add: int64_def LONG_MIN_def LONG_MAX_def short_type_def)
  then show "id_edges demo3 = {(1, 2, ''CALLS'')}" unfolding demo3_def
    using insert_edge_ids [OF demo_inv(1) short _ _ _ surjective_pairing] \<open>id_edges demo2 = {}\<close> by simp
qed

lemma demo3_part: "node_part demo3 = node_part demo2" "next_of demo3 = 4" "shared_ids demo3 = None"
proof -
  show "node_part demo3 = node_part demo2" unfolding demo3_def by (rule insert_edge_inv(2) [OF demo_inv(1) surjective_pairing])
  have "edge_by_key demo2 k = None" "shared_ids demo2 = None" for k by (simp_all add: demo_defs)
  then have "id_part demo3 = (4, None)"
    by (simp add: demo3_def cbm_gbuf_insert_edge_def Let_def case_prod_beta id_part_def alloc_next_id_def register_edge_in_indexes_def)
       (simp add: demo_defs)
  then show "next_of demo3 = 4" "shared_ids demo3 = None" by (simp_all add: id_part_def cbm_gbuf_next_id_def)
qed


section \<open>What the operations do\<close>

lemma find_by_qn_iff:
  "nodes_ok gb \<Longrightarrow> cbm_gbuf_find_by_qn gb (Some q) = Some n \<longleftrightarrow> (\<exists>i < length (gb_nodes gb). node_at gb i = n \<and> n_qn n = Some q)"
  using nodes_okD(3) [of gb q] by (auto simp: cbm_gbuf_find_by_qn_def)

lemma find_by_qn_set:
  "nodes_ok gb \<Longrightarrow> cbm_gbuf_find_by_qn gb (Some q) = Some n \<longleftrightarrow> n \<in> set (gb_nodes gb) \<and> n_qn n = Some q"
  using find_by_qn_iff [of gb q n] by (auto simp: in_set_conv_nth)

definition written :: "cbm_gbuf_node_t option \<Rightarrow> cstr \<Rightarrow> cstr \<Rightarrow> string \<Rightarrow> cstr \<Rightarrow> int \<Rightarrow> int \<Rightarrow> cstr \<Rightarrow> cbm_gbuf_node_t \<Rightarrow> bool" where
  \<comment> \<open>the fields of a node after an upsert; \<open>old\<close> is the node before, if there was one\<close>
  "written old label name q fp s e props n \<longleftrightarrow>
     n_qn n = Some q \<and> n_label n = gb_intern label \<and> n_name n = heap_strdup name \<and> n_file n = gb_intern fp \<and>
     n_start n = s \<and> n_end n = e \<and>
     n_props n = (case (props, old) of (None, Some o') \<Rightarrow> n_props o' | _ \<Rightarrow> Some (heap_strdup props))"

lemma upsert_found:
  assumes inv: "gb_inv gb" and r: "cbm_gbuf_upsert_node gb label name (Some q) fp s e props = (nid, gb')"
  shows "(\<exists>n i. i < length (gb_nodes gb') \<and> node_at gb' i = n \<and> n_id n = nid \<and>
      written (cbm_gbuf_find_by_qn gb (Some q)) label name q fp s e props n) \<and>
    nid = (case cbm_gbuf_find_by_qn gb (Some q) of Some old \<Rightarrow> n_id old | None \<Rightarrow> next_of gb) \<and>
    (\<forall>p. p \<noteq> q \<longrightarrow> cbm_gbuf_find_by_qn gb' (Some p) = cbm_gbuf_find_by_qn gb (Some p))"
proof (cases rule: upsert_cases [of "Some q" gb label name fp s e props])
  case (existing q' i n)
  have ok: "nodes_ok gb" using inv by (simp add: gb_inv_def)
  have i: "i < length (gb_nodes gb)" "n_qn (node_at gb i) = Some q" using nodes_okD(3) [OF ok] existing(1,2) by auto
  have g': "gb' = gb\<lparr>gb_nodes := (gb_nodes gb)[i := n]\<rparr>" "nid = n_id (node_at gb i)" using existing(4) r by auto
  have old: "cbm_gbuf_find_by_qn gb (Some q) = Some (node_at gb i)" using existing(1,2) by (simp add: cbm_gbuf_find_by_qn_def)
  have other: "node_by_qn gb p \<noteq> Some i" if "p \<noteq> q" for p using nodes_okD(3) [OF ok, of p i] i that by auto
  have "cbm_gbuf_find_by_qn gb' (Some p) = cbm_gbuf_find_by_qn gb (Some p)" if "p \<noteq> q" for p
    using other [OF that] by (cases "node_by_qn gb p") (auto simp: cbm_gbuf_find_by_qn_def g')
  moreover have "written (Some (node_at gb i)) label name q fp s e props n"
    using i(2) by (auto simp: written_def existing(3) heap_strdup_def split: option.splits)
  moreover have "i < length (gb_nodes gb') \<and> node_at gb' i = n \<and> n_id n = nid" using i(1) by (simp add: g') (simp add: existing(3))
  ultimately show ?thesis by (auto simp: old g'(2))
next
  case (new q' n)
  have ok: "nodes_ok gb" using inv by (simp add: gb_inv_def)
  have g': "gb' = push_node (snd (alloc_next_id gb)) n" "nid = n_id n" using new(4) r by auto
  have old: "cbm_gbuf_find_by_qn gb (Some q) = None" using new(1,2) by (simp add: cbm_gbuf_find_by_qn_def)
  have qn: "node_by_qn gb' p = ((node_by_qn gb)(q \<mapsto> length (gb_nodes gb))) p" for p
    using new(1,3) by (simp add: g' push_node_def register_node_in_indexes_def Let_def)
  have lt: "node_by_qn gb p = Some i \<Longrightarrow> i < length (gb_nodes gb)" for p i using nodes_okD(3) [OF ok] by simp
  have "cbm_gbuf_find_by_qn gb' (Some p) = cbm_gbuf_find_by_qn gb (Some p)" if "p \<noteq> q" for p
  proof -
    have "cbm_gbuf_find_by_qn gb' (Some p) = map_option (\<lambda>i. (gb_nodes gb @ [n]) ! i) (node_by_qn gb p)"
      using that by (simp add: cbm_gbuf_find_by_qn_def qn) (simp add: g')
    then show ?thesis using lt [of p] by (cases "node_by_qn gb p") (simp_all add: cbm_gbuf_find_by_qn_def nth_append)
  qed
  moreover have "written None label name q fp s e props n" using new(1) by (simp add: written_def new(3) split: option.splits)
  moreover have "length (gb_nodes gb) < length (gb_nodes gb') \<and> node_at gb' (length (gb_nodes gb)) = n" by (simp add: g')
  moreover have "nid = next_of gb" "n_id n = nid" by (simp_all add: g'(2) new(3))
  ultimately show ?thesis unfolding old option.case by blast
qed simp

text \<open>
  C12. Upsert and find. An upsert leaves one node under the qualified name, found by the name and by the
  returned id alike, with the given fields; the properties are kept when none are given. The id of
  an existing node does not change, a new node gets the next id, and the nodes of other names stay as they are.
\<close>

theorem gbuf_upsert_find:
  assumes inv: "gb_inv gb" and r: "cbm_gbuf_upsert_node gb label name (Some q) fp s e props = (nid, gb')" and room: "next_of gb' \<le> LONG_MAX"
  shows "(\<exists>n. cbm_gbuf_find_by_qn gb' (Some q) = Some n \<and> cbm_gbuf_find_by_id gb' nid = Some n \<and> n_id n = nid \<and>
      written (cbm_gbuf_find_by_qn gb (Some q)) label name q fp s e props n) \<and>
    nid = (case cbm_gbuf_find_by_qn gb (Some q) of Some old \<Rightarrow> n_id old | None \<Rightarrow> next_of gb) \<and>
    (\<forall>p. p \<noteq> q \<longrightarrow> cbm_gbuf_find_by_qn gb' (Some p) = cbm_gbuf_find_by_qn gb (Some p))"
proof -
  have ok': "nodes_ok gb'" using upsert_inv(1) [OF inv r room] by (simp add: gb_inv_def)
  obtain n i where i: "i < length (gb_nodes gb')" "node_at gb' i = n" "n_id n = nid"
    "written (cbm_gbuf_find_by_qn gb (Some q)) label name q fp s e props n" using upsert_found [OF inv r] by auto
  moreover have "cbm_gbuf_find_by_qn gb' (Some q) = Some n" "cbm_gbuf_find_by_id gb' nid = Some n"
    using find_by_qn_iff [OF ok'] find_by_id_at [OF ok' i(1)] i by (auto simp: written_def)
  ultimately show ?thesis using upsert_found [OF inv r] by blast
qed

theorem gbuf_upsert_find_witness:
  "fst (cbm_gbuf_upsert_node demo2 (Some ''Function'') (Some ''f'') (Some ''p.f'') (Some ''a.c'') 5 9 None) = 1 \<and>
   (\<exists>n. cbm_gbuf_find_by_qn (snd (cbm_gbuf_upsert_node demo2 (Some ''Function'') (Some ''f'') (Some ''p.f'') (Some ''a.c'') 5 9 None)) (Some ''p.f'') = Some n \<and>
      n_id n = 1 \<and> n_start n = 5 \<and> n_end n = 9 \<and> n_props n = Some ''{}'')"
proof -
  have old: "cbm_gbuf_find_by_qn demo2 (Some ''p.f'') =
      Some \<lparr>n_id = 1, n_project = ''p'', n_label = ''Function'', n_name = ''f'', n_qn = Some ''p.f'', n_file = ''a.c'', n_start = 1, n_end = 3, n_props = Some ''{}''\<rparr>"
    by (simp add: demo_defs)
  obtain nid g where u: "cbm_gbuf_upsert_node demo2 (Some ''Function'') (Some ''f'') (Some ''p.f'') (Some ''a.c'') 5 9 None = (nid, g)" by fastforce
  then have "id_part g = id_part demo2" using old
    by (auto simp: cbm_gbuf_upsert_node_def cbm_gbuf_find_by_qn_def id_part_def Let_def)
  then have room: "next_of g \<le> LONG_MAX" using next_of_part [of g demo2] by (simp add: demo_steps LONG_MAX_def)
  show ?thesis using gbuf_upsert_find [OF demo_inv(1) u room] u by (auto simp: old written_def)
qed

lemma edge_triple_inj:
  assumes inv: "gb_inv gb"
  shows "inj_on (\<lambda>x. (ge_source (edge_at gb x), ge_target (edge_at gb x), ge_type (edge_at gb x))) (set (gb_edges gb))"
proof (rule inj_onI)
  fix x y
  assume x: "x \<in> set (gb_edges gb)" and y: "y \<in> set (gb_edges gb)"
    and eq: "(ge_source (edge_at gb x), ge_target (edge_at gb x), ge_type (edge_at gb x)) =
      (ge_source (edge_at gb y), ge_target (edge_at gb y), ge_type (edge_at gb y))"
  have key: "edge_by_key gb k = Some z \<longleftrightarrow> z \<in> set (gb_edges gb) \<and> edge_key_at (edge_heap gb) z = k" for k z
    using inv by (simp add: gb_inv_def edges_ok_def)
  have "edge_key_at (edge_heap gb) x = edge_key_at (edge_heap gb) y" using eq by (simp add: edge_key_at_def)
  then have "edge_by_key gb (edge_key_at (edge_heap gb) x) = Some x" "edge_by_key gb (edge_key_at (edge_heap gb) x) = Some y"
    using key x y by simp_all
  then show "x = y" by simp
qed

lemma find_edges_exact:
  assumes inv: "gb_inv gb" and short: "short_edges gb" "int64 k" "short_type t"
  shows "set (cbm_gbuf_find_edges_by_source_type gb k t) = {e \<in> set (edges_of gb (gb_edges gb)). ge_source e = k \<and> ge_type e = t}"
    and "set (cbm_gbuf_find_edges_by_target_type gb k t) = {e \<in> set (edges_of gb (gb_edges gb)). ge_target e = k \<and> ge_type e = t}"
    and "set (cbm_gbuf_find_edges_by_type gb t) = {e \<in> set (edges_of gb (gb_edges gb)). ge_type e = t}"
proof -
  have ok: "edges_ok gb (set (gb_edges gb))" using inv by (simp add: gb_inv_def)
  have x: "int64 (ge_source (edge_at gb x))" "int64 (ge_target (edge_at gb x))" "short_type (ge_type (edge_at gb x))"
    if "x \<in> set (gb_edges gb)" for x using short(1) that by (auto simp: short_edges_def id_edges_def)
  have "source_key_at (edge_heap gb) x = make_src_type_key k t \<longleftrightarrow> ge_source (edge_at gb x) = k \<and> ge_type (edge_at gb x) = t"
    "target_key_at (edge_heap gb) x = make_src_type_key k t \<longleftrightarrow> ge_target (edge_at gb x) = k \<and> ge_type (edge_at gb x) = t"
    if "x \<in> set (gb_edges gb)" for x
    using x [OF that] short(2,3) make_src_type_key_inject by (simp_all add: edge_keys)
  moreover have "set (array_at (edges_by_source_type gb) (make_src_type_key k t)) =
      {x \<in> set (gb_edges gb). source_key_at (edge_heap gb) x = make_src_type_key k t}"
    "set (array_at (edges_by_target_type gb) (make_src_type_key k t)) =
      {x \<in> set (gb_edges gb). target_key_at (edge_heap gb) x = make_src_type_key k t}"
    "set (array_at (edges_by_type gb) t) = {x \<in> set (gb_edges gb). ge_type (edge_at gb x) = t}"
    using ok by (auto simp: edges_ok_def exact_indexD(1))
  ultimately show "set (cbm_gbuf_find_edges_by_source_type gb k t) = {e \<in> set (edges_of gb (gb_edges gb)). ge_source e = k \<and> ge_type e = t}"
    "set (cbm_gbuf_find_edges_by_target_type gb k t) = {e \<in> set (edges_of gb (gb_edges gb)). ge_target e = k \<and> ge_type e = t}"
    "set (cbm_gbuf_find_edges_by_type gb t) = {e \<in> set (edges_of gb (gb_edges gb)). ge_type e = t}"
    by (auto simp: cbm_gbuf_find_edges_by_source_type_def cbm_gbuf_find_edges_by_target_type_def cbm_gbuf_find_edges_by_type_def edges_of_def)
qed

lemma find_edges_distinct:
  assumes inv: "gb_inv gb"
  shows "distinct (cbm_gbuf_find_edges_by_source_type gb k t)" "distinct (cbm_gbuf_find_edges_by_target_type gb k t)"
    "distinct (cbm_gbuf_find_edges_by_type gb t)"
proof -
  have ok: "edges_ok gb (set (gb_edges gb))" using inv by (simp add: gb_inv_def)
  have "distinct (edges_of gb xs)" if "distinct xs" "set xs \<subseteq> set (gb_edges gb)" for xs
    using ok that by (auto simp: edges_ok_def edges_of_def distinct_map inj_on_def subset_iff)
  moreover have "exact_index (array_at m) (set (gb_edges gb)) key \<Longrightarrow> distinct (array_at m k') \<and> set (array_at m k') \<subseteq> set (gb_edges gb)"
    for m key k' by (auto simp: exact_index_def)
  ultimately show "distinct (cbm_gbuf_find_edges_by_source_type gb k t)" "distinct (cbm_gbuf_find_edges_by_target_type gb k t)"
    "distinct (cbm_gbuf_find_edges_by_type gb t)"
    using ok by (auto simp: edges_ok_def cbm_gbuf_find_edges_by_source_type_def cbm_gbuf_find_edges_by_target_type_def cbm_gbuf_find_edges_by_type_def)
qed

text \<open>
  C13. Edges without duplicates. Inserting an edge adds the triple of source, target and type to the set
  of edges, whether or not it is there; the number of edges is the number of different triples. Afterwards the
  three lookups return, for any node id and any type, exactly the edges with that source and type, that target and type or
  that type, each once; none for a key that no edge has. (Types have at most 85 characters and ids 64 bits, so the keys fit their buffers.)
\<close>

theorem gbuf_edges_deduplicated:
  assumes inv: "gb_inv gb" and short: "short_edges gb" "int64 src" "int64 tgt" "short_type t"
    and r: "cbm_gbuf_insert_edge gb src tgt (Some t) props = (nid, gb')"
  shows "id_edges gb' = insert (src, tgt, t) (id_edges gb) \<and> cbm_gbuf_edge_count gb' = card (id_edges gb') \<and>
    (\<forall>k t'. int64 k \<and> short_type t' \<longrightarrow>
      set (cbm_gbuf_find_edges_by_source_type gb' k t') = {e \<in> set (edges_of gb' (gb_edges gb')). ge_source e = k \<and> ge_type e = t'} \<and>
      set (cbm_gbuf_find_edges_by_target_type gb' k t') = {e \<in> set (edges_of gb' (gb_edges gb')). ge_target e = k \<and> ge_type e = t'} \<and>
      set (cbm_gbuf_find_edges_by_type gb' t') = {e \<in> set (edges_of gb' (gb_edges gb')). ge_type e = t'} \<and>
      distinct (cbm_gbuf_find_edges_by_source_type gb' k t') \<and> distinct (cbm_gbuf_find_edges_by_target_type gb' k t') \<and>
      distinct (cbm_gbuf_find_edges_by_type gb' t'))"
proof -
  have ids: "id_edges gb' = insert (src, tgt, t) (id_edges gb)" by (rule insert_edge_ids [OF inv short r])
  have inv': "gb_inv gb'" by (rule insert_edge_inv(1) [OF inv r])
  have short': "short_edges gb'" using short by (auto simp: short_edges_def ids)
  have "card (id_edges gb') = card (set (gb_edges gb'))" unfolding id_edges_def by (rule card_image [OF edge_triple_inj [OF inv']])
  also have "\<dots> = cbm_gbuf_edge_count gb'" using inv' by (simp add: gb_inv_def cbm_gbuf_edge_count_def distinct_card)
  finally have "cbm_gbuf_edge_count gb' = card (id_edges gb')" by simp
  moreover note exact = find_edges_exact [OF inv' short'] and once = find_edges_distinct [OF inv']
  ultimately show ?thesis using ids exact(1,2) exact(3) [of k t for k t] once by (intro conjI allI impI) (simp_all, metis)
qed

theorem gbuf_edges_deduplicated_witness:
  "cbm_gbuf_edge_count (snd (cbm_gbuf_insert_edge demo2 1 2 (Some ''CALLS'') None)) = 1 \<and>
   cbm_gbuf_edge_count (snd (cbm_gbuf_insert_edge demo3 1 2 (Some ''CALLS'') (Some ''x''))) = 1 \<and>
   cbm_gbuf_find_edges_by_type demo3 ''IMPORTS'' = [] \<and> length (cbm_gbuf_find_edges_by_type demo3 ''CALLS'') = 1"
proof -
  have k: "int64 1" "int64 2" "short_type ''CALLS''" "short_type ''IMPORTS''"
    by (simp_all add: int64_def LONG_MIN_def LONG_MAX_def short_type_def)
  then have "short_edges demo3" by (simp add: short_edges_def demo_edges)
  note 2 = gbuf_edges_deduplicated [OF demo_inv(1) demo_edges(2) k(1-3) surjective_pairing, of None]
  note 3 = gbuf_edges_deduplicated [OF demo_inv(2) \<open>short_edges demo3\<close> k(1-3) surjective_pairing, of "Some ''x''"]
  have look: "set (cbm_gbuf_find_edges_by_type demo3 t) = {e \<in> set (edges_of demo3 (gb_edges demo3)). ge_type e = t} \<and>
      distinct (cbm_gbuf_find_edges_by_type demo3 t)" if "short_type t" for t
    using 2 k(1) that by (simp add: demo3_def)
  have "length (gb_edges demo3) = 1" using 2 by (simp add: demo_edges demo3_def cbm_gbuf_edge_count_def)
  then obtain x where x: "gb_edges demo3 = [x]" by (auto simp: length_Suc_conv)
  then have "ge_type (edge_at demo3 x) = ''CALLS''" using demo_edges(3) by (simp add: id_edges_def)
  then have "set (cbm_gbuf_find_edges_by_type demo3 ''IMPORTS'') = {}" "set (cbm_gbuf_find_edges_by_type demo3 ''CALLS'') = {edge_at demo3 x}"
    using look [OF k(4)] look [OF k(3)] x by (auto simp: edges_of_def)
  then have "cbm_gbuf_find_edges_by_type demo3 ''IMPORTS'' = []" "length (cbm_gbuf_find_edges_by_type demo3 ''CALLS'') = 1"
    using look [OF k(3)] by (simp_all flip: distinct_card)
  then show ?thesis using 2 3 by (simp add: demo_edges)
qed

text \<open>
  C11. Deletion cascades. Deleting a file removes exactly the nodes of that file and returns their number; a
  node of another file keeps its id and its fields. The edges left are exactly those between two
  remaining nodes, so no edge dangles.
\<close>

theorem gbuf_delete_by_file_cascades:
  assumes inv: "gb_inv gb" and refs: "refs_ok gb" and r: "cbm_gbuf_delete_by_file gb (Some fp) = (c, gb')"
  shows "c = int (card (ids_in_file gb fp)) \<and> live_ids gb' = live_ids gb - ids_in_file gb fp \<and>
    (\<forall>q. cbm_gbuf_find_by_qn gb' (Some q) =
       (case cbm_gbuf_find_by_qn gb (Some q) of Some n \<Rightarrow> if n_file n = fp then None else Some n | None \<Rightarrow> None)) \<and>
    edges_of gb' (gb_edges gb') = filter (\<lambda>e. ge_source e \<in> live_ids gb' \<and> ge_target e \<in> live_ids gb') (edges_of gb (gb_edges gb)) \<and>
    refs_ok gb'"
proof -
  note d = delete_by_file_spec [OF inv r]
  have ok: "nodes_ok gb" and ok': "nodes_ok gb'" using inv d(1) by (simp_all add: gb_inv_def)
  have find: "cbm_gbuf_find_by_qn gb' (Some q) =
       (case cbm_gbuf_find_by_qn gb (Some q) of Some n \<Rightarrow> if n_file n = fp then None else Some n | None \<Rightarrow> None)" for q
  proof -
    have "cbm_gbuf_find_by_qn gb' (Some q) = Some n \<longleftrightarrow> cbm_gbuf_find_by_qn gb (Some q) = Some n \<and> n_file n \<noteq> fp" for n
      unfolding find_by_qn_set [OF ok'] find_by_qn_set [OF ok] d(3) by auto
    moreover have "(case cbm_gbuf_find_by_qn gb (Some q) of Some n \<Rightarrow> if n_file n = fp then None else Some n | None \<Rightarrow> None) = Some n \<longleftrightarrow>
        cbm_gbuf_find_by_qn gb (Some q) = Some n \<and> n_file n \<noteq> fp" for n by (auto split: option.splits)
    ultimately show ?thesis by (intro option_extI) simp
  qed
  have "filter (\<lambda>x. \<not> touches (ids_in_file gb fp) (edge_at gb x)) (gb_edges gb) =
      filter (\<lambda>x. ge_source (edge_at gb x) \<in> live_ids gb' \<and> ge_target (edge_at gb x) \<in> live_ids gb') (gb_edges gb)"
    by (rule filter_cong) (use refs d(4) in \<open>auto simp: refs_ok_def touches_def\<close>)
  then have "edges_of gb' (gb_edges gb') =
      filter (\<lambda>e. ge_source e \<in> live_ids gb' \<and> ge_target e \<in> live_ids gb') (edges_of gb (gb_edges gb))"
    using d(7) [OF refs] by (simp add: edges_of_def d(6) filter_map comp_def)
  then show ?thesis using d(4,5) d(8) [OF refs] find by blast
qed

theorem gbuf_delete_by_file_cascades_witness:
  "gb_inv demo3 \<and> refs_ok demo3 \<and> refs_ok (snd (cbm_gbuf_delete_by_file demo3 (Some ''b.c''))) \<and>
   fst (cbm_gbuf_delete_by_file demo3 (Some ''b.c'')) = int (card (ids_in_file demo3 ''b.c''))"
  using gbuf_delete_by_file_cascades [OF demo_inv(2,3) surjective_pairing, of "''b.c''"] demo_inv by simp

text \<open>
  C4. Merging refines the union of graphs. The nodes of the merged buffer are those of both, by qualified
  name, the source's attributes winning; its edges, as edges between qualified names, are those of the
  destination and those of the source, an endpoint of which is a node of the source or, by its id, of the
  destination. Nodes of the destination keep their ids, and no edge dangles.
\<close>

theorem gbuf_merge_unions:
  assumes "gb_inv dst" and "gb_inv src" and "refs_ok dst" and "merge_guard dst src" and "cbm_gbuf_merge dst src = (rc, dst')"
  shows "rc = 0 \<and> gb_inv dst' \<and> refs_ok dst' \<and> keeps_nodes dst dst' \<and> abs_nodes dst' = abs_nodes dst ++ abs_nodes src \<and>
    abs_edges dst' = abs_edges dst \<union> (\<lambda>(s, t, type). (endpoint_qn dst src s, endpoint_qn dst src t, type)) ` id_edges src"
  using merge_spec [OF _ assms(5)] assms(1-4) by (simp add: mergeable_def)

definition demo_src :: cbm_gbuf where
  \<comment> \<open>the buffer of a worker with ids from 10 on, with a node that the main buffer has as well\<close>
  "demo_src = snd (cbm_gbuf_upsert_node (cbm_gbuf_new_shared_ids (Some ''p'') (Some ''/r'') (Some 10))
     (Some ''Function'') (Some ''f'') (Some ''p.f'') (Some ''a.c'') 2 4 None)"

lemma demo_src: "gb_inv demo_src" "map n_id (gb_nodes demo_src) = [10]" "list_all (\<lambda>n. n_props n \<noteq> None) (gb_nodes demo_src)"
  "gb_edges demo_src = []" "next_of demo_src = 11" "map n_id (gb_nodes demo3) = [1, 2]"
proof -
  show nx: "next_of demo_src = 11" by (simp add: demo_src_def demo_defs)
  have "gb_inv (cbm_gbuf_new_shared_ids (Some ''p'') (Some ''/r'') (Some 10))"
    using good_new(1) [of 10] by (simp add: inv_good_def)
  then show "gb_inv demo_src" using upsert_inv(1) [OF _ surjective_pairing] nx by (simp add: demo_src_def LONG_MAX_def)
  show "map n_id (gb_nodes demo3) = [1, 2]" using demo_steps(3) node_part_nodes [OF demo3_part(1)] by simp
qed (simp_all add: demo_src_def demo_defs)

theorem gbuf_merge_unions_witness:
  "abs_nodes (snd (cbm_gbuf_merge demo3 demo_src)) = abs_nodes demo3 ++ abs_nodes demo_src \<and>
   abs_edges (snd (cbm_gbuf_merge demo3 demo_src)) = abs_edges demo3"
proof -
  have "id_edges demo_src = {}" by (simp add: id_edges_def demo_src)
  moreover have "n_id ` set (gb_nodes demo_src) = {10}" "n_id ` set (gb_nodes demo3) = {1, 2}" "\<forall>n \<in> set (gb_nodes demo_src). n_props n \<noteq> None"
    using demo_src(2,3,6) by (metis list.set(1) list.set_map list.simps(15), metis list.set(1) list.set_map list.simps(15), simp add: list_all_iff)
  ultimately have "merge_guard demo3 demo_src"
    by (simp add: merge_guard_def demo_src demo3_part demo_edges LONG_MAX_def short_type_def)
  then show ?thesis
    using gbuf_merge_unions [OF demo_inv(2) demo_src(1) demo_inv(3) _ surjective_pairing] \<open>id_edges demo_src = {}\<close> by simp
qed

section \<open>Where the indexes go stale\<close>

lemma label_index_set:
  "names_ok gb \<Longrightarrow> set (array_at (nodes_by_label gb) k) = {j \<in> live_idx gb. n_label (node_at gb j) = k}"
  by (simp add: names_ok_def exact_index_def)

text \<open>
  C38. Relabelling. The update path of an upsert writes the label but leaves the index by label alone: after an
  upsert that changes the label of a node, the lookup by its new label misses the node and the lookup by its old
  label still returns it.
\<close>

theorem gbuf_relabel_stale:
  assumes inv: "gb_inv gb" and names: "names_ok gb" and old: "cbm_gbuf_find_by_qn gb (Some q) = Some old"
    and r: "cbm_gbuf_upsert_node gb (Some l) name (Some q) fp s e props = (nid, gb')" and l: "l \<noteq> n_label old"
  shows "\<exists>n. cbm_gbuf_find_by_qn gb' (Some q) = Some n \<and> n_label n = l \<and>
    n \<notin> set (cbm_gbuf_find_by_label gb' (Some l)) \<and> n \<in> set (cbm_gbuf_find_by_label gb' (Some (n_label old)))"
proof (cases rule: upsert_cases [of "Some q" gb "Some l" name fp s e props])
  case (existing q' i n)
  have ok: "nodes_ok gb" using inv by (simp add: gb_inv_def)
  have "node_at gb i = old" using existing(1,2) old by (simp add: cbm_gbuf_find_by_qn_def)
  then have i: "i < length (gb_nodes gb)" "n_qn (node_at gb i) = Some q" "node_at gb i = old"
    using nodes_okD(3) [OF ok, of q i] existing(1,2) by simp_all
  have g': "gb' = gb\<lparr>gb_nodes := (gb_nodes gb)[i := n]\<rparr>" using existing(4) r by simp
  have n: "n_label n = l" "n_id n = n_id (node_at gb i)" by (simp_all add: existing(3) gb_intern_def)
  have arr: "set (array_at (nodes_by_label gb) k) = {j \<in> live_idx gb. n_label (node_at gb j) = k}" for k
    by (rule label_index_set [OF names])
  have "n \<noteq> node_at gb' j" if "j \<in> set (array_at (nodes_by_label gb) l)" for j
  proof -
    have j: "j < length (gb_nodes gb)" "j \<noteq> i" using that l i(3) by (auto simp: arr live_idx_def)
    then have "n_id (node_at gb j) \<noteq> n_id n" using nodes_okD(5) [OF ok j(1) i(1)] n(2) by simp
    then show ?thesis using j by (auto simp: g')
  qed
  then have "n \<notin> set (cbm_gbuf_find_by_label gb' (Some l))" by (auto simp: cbm_gbuf_find_by_label_def g')
  moreover have "i \<in> set (array_at (nodes_by_label gb) (n_label old))" using i by (auto simp: arr live_idx_def)
  then have "n \<in> set (cbm_gbuf_find_by_label gb' (Some (n_label old)))"
    using i(1) by (force simp: cbm_gbuf_find_by_label_def g')
  moreover have "cbm_gbuf_find_by_qn gb' (Some q) = Some n"
    using existing(1,2) i(1) by (simp add: cbm_gbuf_find_by_qn_def g')
  ultimately show ?thesis using n(1) by blast
next
  case (new q' n)
  then show ?thesis using old by (simp add: cbm_gbuf_find_by_qn_def)
qed simp

theorem gbuf_relabel_stale_witness:
  "\<exists>n. cbm_gbuf_find_by_qn (snd (cbm_gbuf_upsert_node demo2 (Some ''Method'') (Some ''f'') (Some ''p.f'') (Some ''a.c'') 1 3 None)) (Some ''p.f'') = Some n \<and>
     n_label n = ''Method'' \<and>
     n \<notin> set (cbm_gbuf_find_by_label (snd (cbm_gbuf_upsert_node demo2 (Some ''Method'') (Some ''f'') (Some ''p.f'') (Some ''a.c'') 1 3 None)) (Some ''Method''))"
proof -
  have "cbm_gbuf_find_by_qn demo2 (Some ''p.f'') \<noteq> None" "map_option n_label (cbm_gbuf_find_by_qn demo2 (Some ''p.f'')) = Some ''Function''"
    by (simp_all add: demo_defs)
  then obtain old where old: "cbm_gbuf_find_by_qn demo2 (Some ''p.f'') = Some old" "''Method'' \<noteq> n_label old" by auto
  show ?thesis using gbuf_relabel_stale [OF demo_inv(1,4) old(1) surjective_pairing old(2)] by blast
qed

lemma drop_primary_frame [simp]:
  "gb_nodes (foldl drop_primary gb is) = gb_nodes gb"
  by (induction "is" arbitrary: gb) (simp_all add: drop_primary_def Let_def)

lemma drop_primary_gone:
  "node_by_qn gb q = None \<Longrightarrow> node_by_qn (foldl drop_primary gb is) q = None"
  "i \<in> set is \<Longrightarrow> n_qn (node_at gb i) = Some q \<Longrightarrow> node_by_qn (foldl drop_primary gb is) q = None"
proof -
  have none: "node_by_qn gb q = None \<Longrightarrow> node_by_qn (foldl drop_primary gb is) q = None" for gb "is"
    by (induction "is" arbitrary: gb) (simp_all add: drop_primary_def Let_def split: option.splits)
  show "node_by_qn gb q = None \<Longrightarrow> node_by_qn (foldl drop_primary gb is) q = None" by (rule none)
  show "i \<in> set is \<Longrightarrow> n_qn (node_at gb i) = Some q \<Longrightarrow> node_by_qn (foldl drop_primary gb is) q = None"
  proof (induction "is" arbitrary: gb)
    case (Cons k ks)
    have nodes: "gb_nodes (drop_primary gb k) = gb_nodes gb" by (simp add: drop_primary_def Let_def)
    show ?case
    proof (cases "i = k")
      case True
      then have "node_by_qn (drop_primary gb k) q = None" using Cons.prems(2) by (simp add: drop_primary_def Let_def)
      then show ?thesis using none by simp
    next
      case False
      then show ?thesis using Cons nodes by simp
    qed
  qed simp
qed

lemma node_part_cascade: "node_part (cascade_delete_edges gb d) = node_part gb"
  by (simp add: cascade_delete_edges_def cascade_loop_frame)

text \<open>
  A deleted node comes back. Deleting by label takes a node out of the primary indexes but leaves its
  qualified name in the node array. When the name is inserted again, the old node passes the liveness test
  of the loops over the array (iteration, merge, flush and dump) beside the new one, so the name is
  written twice.
\<close>

theorem gbuf_delete_label_revives:
  assumes inv: "gb_inv gb" and names: "names_ok gb" and old: "cbm_gbuf_find_by_qn gb (Some q) = Some old"
    and d: "cbm_gbuf_delete_by_label gb (Some (n_label old)) = (rc, g1)"
    and r: "cbm_gbuf_upsert_node g1 label name (Some q) fp s e props = (nid, g2)"
  shows "cbm_gbuf_find_by_qn g1 (Some q) = None \<and>
    (\<exists>i j. i < j \<and> j < length (gb_nodes g2) \<and> n_qn (node_at g2 i) = Some q \<and> n_qn (node_at g2 j) = Some q \<and>
       live_node g2 (node_at g2 i) \<and> live_node g2 (node_at g2 j))"
proof -
  have ok: "nodes_ok gb" using inv by (simp add: gb_inv_def)
  obtain i where i: "i < length (gb_nodes gb)" "node_at gb i = old" "n_qn (node_at gb i) = Some q"
    using find_by_qn_iff [OF ok, of q old] old by auto
  have "set (array_at (nodes_by_label gb) (n_label old)) = {j \<in> live_idx gb. n_label (node_at gb j) = n_label old}"
    by (rule label_index_set [OF names])
  then have arr: "i \<in> set (array_at (nodes_by_label gb) (n_label old))" using i by (auto simp: live_idx_def)
  define g where "g = foldl drop_primary gb (array_at (nodes_by_label gb) (n_label old))"
  have "array_at (nodes_by_label gb) (n_label old) \<noteq> []" using arr by auto
  then obtain D where g1: "g1 = cascade_delete_edges (g\<lparr>nodes_by_label := (nodes_by_label g)(n_label old \<mapsto> [])\<rparr>) D"
    using d by (auto simp: cbm_gbuf_delete_by_label_def Let_def g_def)
  have "node_by_qn g q = None" unfolding g_def by (rule drop_primary_gone(2) [OF arr i(3)])
  then have gone: "node_by_qn g1 q = None" "gb_nodes g1 = gb_nodes gb"
    using node_part_cascade [of "g\<lparr>nodes_by_label := (nodes_by_label g)(n_label old \<mapsto> [])\<rparr>" D] by (simp_all add: g1 g_def node_part_def)
  show ?thesis
  proof (cases rule: upsert_cases [of "Some q" g1 label name fp s e props])
    case (new q' n)
    have g2: "g2 = push_node (snd (alloc_next_id g1)) n" and n: "n_qn n = Some q" using new(1,3,4) r by auto
    have nodes: "gb_nodes g2 = gb_nodes gb @ [n]" by (simp add: g2 gone)
    have "node_by_qn g2 q \<noteq> None" using n by (simp add: g2 push_node_def register_node_in_indexes_def Let_def)
    moreover have "node_at g2 i = old" "node_at g2 (length (gb_nodes gb)) = n" using i by (simp_all add: nodes nth_append)
    ultimately have "i < length (gb_nodes gb) \<and> length (gb_nodes gb) < length (gb_nodes g2) \<and> n_qn (node_at g2 i) = Some q \<and>
        n_qn (node_at g2 (length (gb_nodes gb))) = Some q \<and> live_node g2 (node_at g2 i) \<and> live_node g2 (node_at g2 (length (gb_nodes gb)))"
      using i n by (simp add: live_node_def nodes)
    moreover have "cbm_gbuf_find_by_qn g1 (Some q) = None" using gone(1) by (simp add: cbm_gbuf_find_by_qn_def)
    ultimately show ?thesis by blast
  qed (use gone in simp_all)
qed

theorem gbuf_delete_label_revives_witness:
  "\<exists>i j. i < j \<and> n_qn (node_at (snd (cbm_gbuf_upsert_node (snd (cbm_gbuf_delete_by_label demo3 (Some ''Function'')))
      (Some ''Function'') (Some ''f'') (Some ''p.f'') (Some ''a.c'') 1 3 None)) i) = Some ''p.f'' \<and>
     n_qn (node_at (snd (cbm_gbuf_upsert_node (snd (cbm_gbuf_delete_by_label demo3 (Some ''Function'')))
      (Some ''Function'') (Some ''f'') (Some ''p.f'') (Some ''a.c'') 1 3 None)) j) = Some ''p.f''"
proof -
  have "cbm_gbuf_find_by_qn demo3 (Some ''p.f'') = cbm_gbuf_find_by_qn demo2 (Some ''p.f'')"
    using demo3_part by (simp add: cbm_gbuf_find_by_qn_def node_part_def)
  moreover have "map_option n_label (cbm_gbuf_find_by_qn demo2 (Some ''p.f'')) = Some ''Function''" by (simp add: demo_defs)
  ultimately have "map_option n_label (cbm_gbuf_find_by_qn demo3 (Some ''p.f'')) = Some ''Function''" by simp
  then obtain old where old: "cbm_gbuf_find_by_qn demo3 (Some ''p.f'') = Some old" "n_label old = ''Function''" by auto
  show ?thesis
    using gbuf_delete_label_revives [OF demo_inv(2,5) old(1), unfolded old(2), OF surjective_pairing surjective_pairing] by blast
qed

end
