(* ===== verification/GraphDump.thy ===== *)
theory GraphDump
  imports GraphReach "HOL-Library.Multiset"
begin

text \<open>
  The rows of a dump: numbered nodes, edges with remapped endpoints and one vector per node, in the order
  the writer of the database needs.
\<close>

section \<open>Rows of nodes\<close>

lemma build_node_rows_Cons:
  "build_node_rows gb mx (n # ns) m idx =
     (if live_node gb n
      then (let r = build_node_rows gb mx ns (if n_id n < mx then m(n_id n := idx + 1) else m) (idx + 1)
            in (\<lparr>dmn_id = idx + 1, dmn_project = gb_project gb, dmn_label = n_label n, dmn_name = n_name n, dmn_qn = the (n_qn n),
                 dmn_file = n_file n, dmn_start = n_start n, dmn_end = n_end n,
                 dmn_props = Some (case n_props n of Some p \<Rightarrow> p | None \<Rightarrow> ''{}'')\<rparr> # fst r, snd r))
      else build_node_rows gb mx ns m idx)"
  by (auto simp: live_node_def Let_def case_prod_beta split: option.splits)

declare build_node_rows.simps(2) [simp del]

definition row_of :: "cbm_gbuf \<Rightarrow> int \<Rightarrow> cbm_gbuf_node_t \<Rightarrow> CBMDumpNode" where
  "row_of gb k n = \<lparr>dmn_id = k, dmn_project = gb_project gb, dmn_label = n_label n, dmn_name = n_name n, dmn_qn = the (n_qn n),
     dmn_file = n_file n, dmn_start = n_start n, dmn_end = n_end n, dmn_props = Some (case n_props n of Some p \<Rightarrow> p | None \<Rightarrow> ''{}'')\<rparr>"

lemma build_node_rows_spec:
  assumes "distinct (map n_id ns)" and "\<And>n. n \<in> set ns \<Longrightarrow> n_id n < mx" and "build_node_rows gb mx ns m idx = (rows, m')"
  defines "ls \<equiv> filter (live_node gb) ns"
  shows "rows = map (\<lambda>i. row_of gb (idx + 1 + int i) (ls ! i)) [0..<length ls] \<and>
    (\<forall>i < length ls. m' (n_id (ls ! i)) = idx + 1 + int i) \<and> (\<forall>k. k \<notin> n_id ` set ls \<longrightarrow> m' k = m k)"
  unfolding ls_def using assms(1-3)
proof (induction ns arbitrary: m idx rows)
  case (Cons n ns)
  show ?case
  proof (cases "live_node gb n")
    case True
    obtain rs where b: "build_node_rows gb mx ns (m(n_id n := idx + 1)) (idx + 1) = (rs, m')"
      and rows: "rows = row_of gb (idx + 1) n # rs"
      using Cons.prems True by (auto simp: build_node_rows_Cons row_of_def Let_def prod_eq_iff)
    let ?ls = "filter (live_node gb) ns"
    note ih = Cons.IH [OF _ _ b]
    have "rs = map (\<lambda>i. row_of gb (idx + 1 + 1 + int i) (?ls ! i)) [0..<length ?ls]"
      and m': "\<forall>i < length ?ls. m' (n_id (?ls ! i)) = idx + 1 + 1 + int i" "\<forall>k. k \<notin> n_id ` set ?ls \<longrightarrow> m' k = (m(n_id n := idx + 1)) k"
      using ih Cons.prems(1,2) by auto
    then have "rows = map (\<lambda>i. row_of gb (idx + 1 + int i) ((n # ?ls) ! i)) [0..<length (n # ?ls)]"
      by (simp add: rows upt_conv_Cons map_Suc_upt [symmetric] del: upt_Suc) (simp add: comp_def algebra_simps)
    moreover have "n_id n \<notin> n_id ` set ?ls" using Cons.prems(1) by auto
    then have "m' (n_id ((n # ?ls) ! i)) = idx + 1 + int i" if "i < length (n # ?ls)" for i
      using m' that by (cases i) auto
    moreover have "m' k = m k" if "k \<notin> n_id ` set (n # ?ls)" for k using m'(2) that by auto
    ultimately show ?thesis using True by simp
  next
    case False
    then show ?thesis using Cons.IH [of m idx rows] Cons.prems by (simp add: build_node_rows_Cons)
  qed
qed simp

lemma live_node_iff: "nodes_ok gb \<Longrightarrow> n \<in> set (gb_nodes gb) \<Longrightarrow> live_node gb n \<longleftrightarrow> n_qn n \<noteq> None"
  using find_by_qn_set [of gb _ n] by (cases "n_qn n") (auto simp: live_node_def cbm_gbuf_find_by_qn_def)

lemma qn_of_set: "nodes_ok gb \<Longrightarrow> n \<in> set (gb_nodes gb) \<Longrightarrow> n_qn n \<noteq> None \<Longrightarrow> qn_of gb (n_id n) = n_qn n"
  using qn_of_at [of gb] by (auto simp: in_set_conv_nth)

definition row_qn :: "CBMDumpNode list \<Rightarrow> int \<Rightarrow> cstr" where
  \<comment> \<open>the qualified name of the row with an id\<close>
  "row_qn rows k = map_of (map (\<lambda>r. (dmn_id r, dmn_qn r)) rows) k"

lemma map_of_numbered:
  "i < length xs \<Longrightarrow> map_of (map (\<lambda>j. (1 + int j, f (xs ! j))) [0..<length xs]) (1 + int i) = Some (f (xs ! i))"
  by (rule map_of_is_SomeI) (auto simp: comp_def distinct_map inj_on_def)

definition id_counter_ok :: "cbm_gbuf \<Rightarrow> bool" where
  \<comment> \<open>the buffer's own counter is above all ids, as it is without a shared counter and after \<open>cbm_gbuf_set_next_id\<close>\<close>
  "id_counter_ok gb \<longleftrightarrow> (\<forall>n \<in> set (gb_nodes gb). n_id n < gb_next_id gb)"

lemma dump_nodes_spec:
  assumes ok: "nodes_ok gb" and ids: "id_counter_ok gb" and b: "build_dump_nodes gb (gb_next_id gb) = (rows, t2f)"
  shows "length rows = count_live_nodes gb" "map dmn_id rows = map int [1..<Suc (length rows)]"
    and "set rows = {row_of gb (t2f (n_id n)) n | n. n \<in> set (gb_nodes gb) \<and> n_qn n \<noteq> None}"
    and "k \<in> live_ids gb \<Longrightarrow> 0 < t2f k \<and> k < gb_next_id gb \<and> row_qn rows (t2f k) = qn_of gb k"
    and "0 \<le> t2f k"
proof -
  define ls where "ls = filter (live_node gb) (gb_nodes gb)"
  have d: "distinct (map n_id (gb_nodes gb))" using ok by (simp add: nodes_ok_def)
  have lt: "n \<in> set (gb_nodes gb) \<Longrightarrow> n_id n < gb_next_id gb" for n using ids by (simp add: id_counter_ok_def)
  have rows: "rows = map (\<lambda>i. row_of gb (1 + int i) (ls ! i)) [0..<length ls]"
    and m: "\<And>i. i < length ls \<Longrightarrow> t2f (n_id (ls ! i)) = 1 + int i" "\<And>k. k \<notin> n_id ` set ls \<Longrightarrow> t2f k = 0"
    using build_node_rows_spec [OF d lt b [unfolded build_dump_nodes_def]] by (simp_all add: ls_def)
  have ls: "set ls = {n \<in> set (gb_nodes gb). n_qn n \<noteq> None}" using live_node_iff [OF ok] by (auto simp: ls_def)
  show "length rows = count_live_nodes gb" by (simp add: rows count_live_nodes_def ls_def)
  show "map dmn_id rows = map int [1..<Suc (length rows)]"
    by (rule nth_equalityI) (simp_all add: rows row_of_def del: upt_Suc)
  have "rows = map (\<lambda>i. row_of gb (t2f (n_id (ls ! i))) (ls ! i)) [0..<length ls]" by (simp add: rows m(1))
  also have "\<dots> = map (\<lambda>n. row_of gb (t2f (n_id n)) n) ls" by (rule nth_equalityI) simp_all
  finally have "rows = map (\<lambda>n. row_of gb (t2f (n_id n)) n) ls" .
  then show "set rows = {row_of gb (t2f (n_id n)) n | n. n \<in> set (gb_nodes gb) \<and> n_qn n \<noteq> None}" using ls by auto
  show "0 \<le> t2f k"
  proof (cases "k \<in> n_id ` set ls")
    case True
    then obtain i where "i < length ls" "k = n_id (ls ! i)" by (auto simp: in_set_conv_nth)
    then show ?thesis using m(1) by simp
  qed (simp add: m(2))
  assume "k \<in> live_ids gb"
  then have "k \<in> n_id ` set ls" by (simp add: live_ids_def ls)
  then obtain i where i: "i < length ls" "k = n_id (ls ! i)" by (auto simp: in_set_conv_nth)
  have in_ls: "ls ! i \<in> set (gb_nodes gb)" "n_qn (ls ! i) \<noteq> None" using nth_mem [OF i(1)] ls by auto
  have "row_qn rows (t2f k) = Some (the (n_qn (ls ! i)))"
    using map_of_numbered [OF i(1), of "\<lambda>n. the (n_qn n)"] m(1) [OF i(1)]
    by (simp add: row_qn_def rows comp_def row_of_def i(2))
  then show "0 < t2f k \<and> k < gb_next_id gb \<and> row_qn rows (t2f k) = qn_of gb k"
    using qn_of_set [OF ok in_ls] in_ls m(1) [OF i(1)] i(2) ids by (auto simp: id_counter_ok_def)
qed

lemma build_t2f_live:
  assumes ok: "nodes_ok gb" and ids: "id_counter_ok gb" and b: "build_dump_nodes gb (gb_next_id gb) = (rows, t2f)"
    and k: "0 < t2f k"
  shows "k \<in> live_ids gb"
proof (rule ccontr)
  assume dead: "k \<notin> live_ids gb"
  have d: "distinct (map n_id (gb_nodes gb))" using ok by (simp add: nodes_ok_def)
  have lt: "n \<in> set (gb_nodes gb) \<Longrightarrow> n_id n < gb_next_id gb" for n using ids by (simp add: id_counter_ok_def)
  have "set (filter (live_node gb) (gb_nodes gb)) = {n \<in> set (gb_nodes gb). n_qn n \<noteq> None}" using live_node_iff [OF ok] by auto
  then have "k \<notin> n_id ` set (filter (live_node gb) (gb_nodes gb))" using dead by (simp add: live_ids_def)
  then have "t2f k = 0" using build_node_rows_spec [OF d lt b [unfolded build_dump_nodes_def]] by blast
  then show False using k by simp
qed

section \<open>Rows of edges\<close>

definition edge_row :: "(string \<Rightarrow> string option) \<Rightarrow> cbm_gbuf \<Rightarrow> (int \<Rightarrow> int) \<Rightarrow> int \<Rightarrow> int \<Rightarrow> cbm_gbuf_edge_t \<Rightarrow> CBMDumpEdge" where
  "edge_row url_of gb t2f mx k e =
     \<lparr>dme_id = k, dme_project = gb_project gb, dme_source = remap_id t2f mx (ge_source e), dme_target = remap_id t2f mx (ge_target e),
      dme_type = ge_type e, dme_props = ge_props e,
      dme_url_path = (case extract_url_path url_of (ge_props e) of Some u \<Rightarrow> u | None \<Rightarrow> [])\<rparr>"

lemma build_edge_rows_all:
  assumes "\<And>e. e \<in> set es \<Longrightarrow> remap_id t2f mx (ge_source e) \<noteq> 0 \<and> remap_id t2f mx (ge_target e) \<noteq> 0"
  shows "build_edge_rows url_of gb t2f mx es idx = map (\<lambda>i. edge_row url_of gb t2f mx (idx + 1 + int i) (es ! i)) [0..<length es]"
  using assms
proof (induction es arbitrary: idx)
  case (Cons e es)
  then have "build_edge_rows url_of gb t2f mx (e # es) idx =
      edge_row url_of gb t2f mx (idx + 1) e # map (\<lambda>i. edge_row url_of gb t2f mx (idx + 2 + int i) (es ! i)) [0..<length es]"
    by (simp add: edge_row_def Let_def algebra_simps)
  then show ?case
    by (simp add: upt_conv_Cons map_Suc_upt [symmetric] comp_def algebra_simps del: upt_Suc)
qed simp

lemma dump_edges_spec:
  assumes ok: "nodes_ok gb" and refs: "refs_ok gb" and ids: "id_counter_ok gb"
    and b: "build_dump_nodes gb (gb_next_id gb) = (rows, t2f)"
    and e: "build_dump_edges url_of gb t2f (gb_next_id gb) = erows"
  shows "length erows = cbm_gbuf_edge_count gb" "length erows = count_valid_edges gb t2f (gb_next_id gb)"
    and "map dme_id erows = map int [1..<Suc (length erows)]"
    and "(\<lambda>e. (row_qn rows (dme_source e), row_qn rows (dme_target e), dme_type e)) ` set erows = abs_edges gb"
proof -
  note d = dump_nodes_spec [OF ok ids b]
  let ?es = "edges_of gb (gb_edges gb)" and ?mx = "gb_next_id gb"
  have ends: "ge_source e \<in> live_ids gb \<and> ge_target e \<in> live_ids gb" if "e \<in> set ?es" for e
    using refs that by (auto simp: refs_ok_def edges_of_def)
  have rm: "remap_id t2f ?mx k = t2f k" "t2f k > 0" if "k \<in> live_ids gb" for k using d(4) [OF that] by (auto simp: remap_id_def)
  have erows: "erows = map (\<lambda>i. edge_row url_of gb t2f ?mx (1 + int i) (?es ! i)) [0..<length ?es]"
    using build_edge_rows_all [of ?es t2f ?mx url_of gb 0] ends rm e by (fastforce simp: build_dump_edges_def)
  then show "length erows = cbm_gbuf_edge_count gb" by (simp add: cbm_gbuf_edge_count_def edges_of_def)
  have "filter (\<lambda>e. remap_id t2f ?mx (ge_source e) > 0 \<and> remap_id t2f ?mx (ge_target e) > 0) ?es = ?es"
    unfolding filter_id_conv using ends rm by simp
  then show "length erows = count_valid_edges gb t2f ?mx" by (simp add: count_valid_edges_def erows)
  show "map dme_id erows = map int [1..<Suc (length erows)]"
    by (rule nth_equalityI) (simp_all add: erows edge_row_def del: upt_Suc)
  have "(\<lambda>e. (row_qn rows (dme_source e), row_qn rows (dme_target e), dme_type e)) ` set erows =
      (\<lambda>e. (row_qn rows (remap_id t2f ?mx (ge_source e)), row_qn rows (remap_id t2f ?mx (ge_target e)), ge_type e)) ` set ?es"
    by (force simp: erows edge_row_def in_set_conv_nth image_iff)
  also have "\<dots> = (\<lambda>e. (qn_of gb (ge_source e), qn_of gb (ge_target e), ge_type e)) ` set ?es"
    by (rule image_cong) (use ends rm(1) d(4) in auto)
  also have "\<dots> = abs_edges gb" by (simp add: abs_edges_def id_edges_at image_image)
  finally show "(\<lambda>e. (row_qn rows (dme_source e), row_qn rows (dme_target e), dme_type e)) ` set erows = abs_edges gb" .
qed

text \<open>
  C5. The rows of a dump. The node rows are the live nodes, one per qualified name, numbered from 1 on
  without a gap, as many as the array is allocated for. Every edge gets a row, as many as the array of edge
  rows is allocated for, also numbered from 1 on, and its endpoints are the numbers of the rows of its
  nodes: read back by qualified name, the rows are the graph of the buffer.
\<close>

theorem dump_rows_graph:
  assumes inv: "gb_inv gb" and refs: "refs_ok gb" and ids: "id_counter_ok gb"
    and b: "build_dump_nodes gb (gb_next_id gb) = (rows, t2f)"
    and e: "build_dump_edges url_of gb t2f (gb_next_id gb) = erows"
  shows "length rows = count_live_nodes gb \<and> map dmn_id rows = map int [1..<Suc (length rows)] \<and>
    set rows = {row_of gb (t2f (n_id n)) n | n. \<exists>q. cbm_gbuf_find_by_qn gb (Some q) = Some n} \<and>
    length erows = cbm_gbuf_edge_count gb \<and> length erows = count_valid_edges gb t2f (gb_next_id gb) \<and>
    map dme_id erows = map int [1..<Suc (length erows)] \<and>
    (\<lambda>e. (row_qn rows (dme_source e), row_qn rows (dme_target e), dme_type e)) ` set erows = abs_edges gb"
proof -
  have ok: "nodes_ok gb" using inv by (simp add: gb_inv_def)
  note d = dump_nodes_spec [OF ok ids b]
  have "set rows = {row_of gb (t2f (n_id n)) n | n. \<exists>q. cbm_gbuf_find_by_qn gb (Some q) = Some n}"
    unfolding d(3) find_by_qn_set [OF ok] by auto
  then show ?thesis using d(1,2) dump_edges_spec [OF ok refs ids b e] by blast
qed

lemma demo_dump: "id_counter_ok demo3" "build_dump_nodes demo3 (gb_next_id demo3) = (fst (build_dump_nodes demo3 4), snd (build_dump_nodes demo3 4))"
proof -
  have n: "gb_next_id demo3 = 4" using demo3_part(2,3) by (simp add: cbm_gbuf_next_id_def)
  then show "build_dump_nodes demo3 (gb_next_id demo3) = (fst (build_dump_nodes demo3 4), snd (build_dump_nodes demo3 4))" by simp
  have "n_id ` set (gb_nodes demo3) = {1, 2}" using demo_src(6) by (metis list.set(1) list.set_map list.simps(15))
  then have "\<forall>k \<in> n_id ` set (gb_nodes demo3). k < 4" by simp
  then show "id_counter_ok demo3" by (simp add: id_counter_ok_def n)
qed

theorem dump_rows_graph_witness:
  "(\<lambda>e. (row_qn (fst (build_dump_nodes demo3 4)) (dme_source e), row_qn (fst (build_dump_nodes demo3 4)) (dme_target e), dme_type e)) `
     set (build_dump_edges (\<lambda>_. None) demo3 (snd (build_dump_nodes demo3 4)) (gb_next_id demo3)) = abs_edges demo3"
  using dump_rows_graph [OF demo_inv(2,3) demo_dump refl] by blast

section \<open>Vectors\<close>

lemma dedup_vectors_subset: "set (dedup_vectors vs) \<subseteq> set vs"
  by (induction vs rule: dedup_vectors.induct) auto

lemma dedup_vectors_ids: "dv_node ` set (dedup_vectors vs) = dv_node ` set vs"
  by (induction vs rule: dedup_vectors.induct) auto

lemma dedup_vectors_sorted: "sorted (map dv_node vs) \<Longrightarrow> sorted_wrt (<) (map dv_node (dedup_vectors vs))"
proof (induction vs rule: dedup_vectors.induct)
  case (1 a b vs)
  show ?case
  proof (cases "dv_node a = dv_node b")
    case False
    then have "\<forall>k \<in> dv_node ` set (b # vs). dv_node a < k" using 1(3) by force
    then have "\<forall>k \<in> dv_node ` set (dedup_vectors (b # vs)). dv_node a < k" by (simp only: dedup_vectors_ids)
    then show ?thesis using 1(2) [OF False] 1(3) False by simp
  qed (use 1 in simp)
qed simp_all

definition sorts_by_id :: "(CBMDumpVector list \<Rightarrow> CBMDumpVector list) \<Rightarrow> bool" where
  \<comment> \<open>what \<open>qsort\<close> promises with the comparison of node ids\<close>
  "sorts_by_id qsort \<longleftrightarrow> (\<forall>vs. mset (qsort vs) = mset vs \<and> sorted (map dv_node (qsort vs)))"

lemma remap_vectors_mem:
  "v \<in> set (remap_vectors t2f mx vs) \<longleftrightarrow>
     (\<exists>u \<in> set vs. 0 < dv_node u \<and> dv_node u < mx \<and> t2f (dv_node u) > 0 \<and> v = u\<lparr>dv_node := t2f (dv_node u)\<rparr>)"
  by (auto simp: remap_vectors_def Let_def split: if_splits)

text \<open>
  The vectors of a dump. Whatever order \<open>qsort\<close> gives to equal ids, the vectors handed to the
  writer have strictly increasing row ids, each the id of a row, each with the bytes that were stored for
  that node; every node with a stored vector that is still live gets one, and vectors of deleted nodes
  are dropped.
\<close>

theorem dump_vectors_ordered:
  assumes inv: "gb_inv gb" and ids: "id_counter_ok gb" and b: "build_dump_nodes gb (gb_next_id gb) = (rows, t2f)" and q: "sorts_by_id qsort"
  defines "vs \<equiv> dump_vectors (remap_sort_dedup_vectors qsort gb t2f (gb_next_id gb))"
  shows "sorted_wrt (<) (map dv_node vs) \<and>
    (\<forall>v \<in> set vs. \<exists>u \<in> set (dump_vectors gb). dv_node u \<in> live_ids gb \<and> v = u\<lparr>dv_node := t2f (dv_node u)\<rparr> \<and>
       row_qn rows (dv_node v) = qn_of gb (dv_node u)) \<and>
    dv_node ` set vs = t2f ` (dv_node ` set (dump_vectors gb) \<inter> live_ids gb)"
proof -
  have ok: "nodes_ok gb" using inv by (simp add: gb_inv_def)
  note d = dump_nodes_spec [OF ok ids b]
  define rs where "rs = remap_vectors t2f (gb_next_id gb) (dump_vectors gb)"
  have live: "0 < t2f k \<longleftrightarrow> k \<in> live_ids gb" for k
    using d(4) [of k] build_t2f_live [OF ok ids b, of k] by auto
  have pos: "k \<in> live_ids gb \<Longrightarrow> 0 < k \<and> k < gb_next_id gb" for k
    using inv d(4) [of k] by (auto simp: live_ids_def gb_inv_def ids_ok_def)
  have rs: "v \<in> set rs \<longleftrightarrow> (\<exists>u \<in> set (dump_vectors gb). dv_node u \<in> live_ids gb \<and> v = u\<lparr>dv_node := t2f (dv_node u)\<rparr>)" for v
    unfolding rs_def remap_vectors_mem using live pos by auto
  have vs: "vs = (if length rs \<ge> 2 then dedup_vectors (qsort rs) else rs)"
    by (simp add: vs_def remap_sort_dedup_vectors_def rs_def Let_def)
  have "set (qsort rs) = set rs" using q by (metis mset_eq_setD sorts_by_id_def)
  then have sub: "set vs \<subseteq> set rs" and ids_vs: "dv_node ` set vs = dv_node ` set rs"
    using dedup_vectors_subset [of "qsort rs"] dedup_vectors_ids [of "qsort rs"] by (auto simp: vs)
  have sorted: "sorted_wrt (<) (map dv_node vs)"
  proof (cases "length rs \<ge> 2")
    case True
    then show ?thesis using dedup_vectors_sorted q by (simp add: vs sorts_by_id_def)
  next
    case False
    then have "rs = [] \<or> (\<exists>v. rs = [v])" by (cases rs; cases "tl rs") auto
    then show ?thesis by (auto simp: vs)
  qed
  have img: "dv_node ` set rs = t2f ` (dv_node ` set (dump_vectors gb) \<inter> live_ids gb)"
    by (force simp: rs image_iff)
  have stored: "\<exists>u \<in> set (dump_vectors gb). dv_node u \<in> live_ids gb \<and> v = u\<lparr>dv_node := t2f (dv_node u)\<rparr> \<and>
       row_qn rows (dv_node v) = qn_of gb (dv_node u)" if "v \<in> set vs" for v
  proof -
    have "v \<in> set rs" using sub that by blast
    then obtain u where u: "u \<in> set (dump_vectors gb)" "dv_node u \<in> live_ids gb" "v = u\<lparr>dv_node := t2f (dv_node u)\<rparr>"
      unfolding rs by blast
    have "row_qn rows (dv_node v) = qn_of gb (dv_node u)" using d(4) [OF u(2)] by (simp add: u(3))
    then show ?thesis using u by blast
  qed
  show ?thesis by (intro conjI ballI sorted stored) (simp_all add: ids_vs img)
qed

definition demo_vec :: cbm_gbuf where
  "demo_vec = snd (cbm_gbuf_store_vector (snd (cbm_gbuf_store_vector (snd (cbm_gbuf_store_vector demo3 2 (Some [7]))) 1 (Some [8]))) 2 (Some [9]))"

lemma demo_vec: "gb_inv demo_vec" "id_counter_ok demo_vec" "map dv_node (dump_vectors demo_vec) = [2, 1, 2]" "live_ids demo_vec = {1, 2}"
proof -
  have "gb_reach UNIV demo_vec" unfolding demo_vec_def
    by (intro gb_reach.vector [OF _ surjective_pairing] demo_reach(2))
  then show "gb_inv demo_vec" using reach_good by (auto simp: gb_good_def inv_good_def)
  have nodes: "gb_nodes demo_vec = gb_nodes demo3" "gb_next_id demo_vec = gb_next_id demo3"
    by (simp_all add: demo_vec_def cbm_gbuf_store_vector_def)
  then show "id_counter_ok demo_vec" using demo_dump(1) by (simp add: id_counter_ok_def)
  show "live_ids demo_vec = {1, 2}"
    using demo_live live_ids_part [OF node_part_nodes [OF demo3_part(1)]] live_ids_part [OF nodes(1)] by simp
  have "dump_vectors demo3 = []" using demo3_part(1) by (simp add: node_part_def) (simp add: demo_defs)
  then show "map dv_node (dump_vectors demo_vec) = [2, 1, 2]" by (simp add: demo_vec_def cbm_gbuf_store_vector_def)
qed

theorem dump_vectors_ordered_witness:
  "sorted_wrt (<) (map dv_node (dump_vectors (remap_sort_dedup_vectors (sort_key dv_node) demo_vec
     (snd (build_dump_nodes demo_vec (gb_next_id demo_vec))) (gb_next_id demo_vec)))) \<and>
   dv_node ` set (dump_vectors (remap_sort_dedup_vectors (sort_key dv_node) demo_vec
     (snd (build_dump_nodes demo_vec (gb_next_id demo_vec))) (gb_next_id demo_vec))) =
     snd (build_dump_nodes demo_vec (gb_next_id demo_vec)) ` {1, 2}"
proof -
  have q: "sorts_by_id (sort_key dv_node)" by (simp add: sorts_by_id_def)
  have "dv_node ` set (dump_vectors demo_vec) = {1, 2}" using demo_vec(3) by (metis insert_commute insert_absorb2 list.set(1) list.set_map list.simps(15))
  then show ?thesis using dump_vectors_ordered [OF demo_vec(1,2) surjective_pairing q] demo_vec(4) by simp
qed

end
