(* ===== verification/Registry.thy ===== *)
theory Registry
  imports Prelude MultiIndex Complex_Main
begin

text \<open>
  The registry of callable symbols of \<open>pipeline/registry.c\<close>, which resolves the name of a callee to a
  qualified name: by the imports of the file, by its module, by a name that is unique, or by the best of
  several candidates.

  Hash tables are maps, the three caches of a file (thread-local variables in the source) are a record
  that the functions thread. The import map of a file is a list of keys and values, empty where the source
  has NULL or a count of zero. A confidence is a rational number: the source's doubles are only
  multiplied and compared, and rounding is not modelled. Allocation is taken to succeed.
\<close>

section \<open>Types\<close>

record cbm_resolution_t =
  qualified_name :: cstr
  strategy :: cstr
  confidence :: rat
  candidate_count :: nat

record cbm_fuzzy_result_t =
  fuzzy_result :: cbm_resolution_t
  fuzzy_ok :: bool

record cbm_registry =
  exact :: "string \<rightharpoonup> string"  \<comment> \<open>qualified name to label\<close>
  by_name :: "string \<rightharpoonup> string list"

record reg_caches =
  reach_cache :: "(string \<rightharpoonup> bool) option"
  import_map_cache :: "(string \<rightharpoonup> string) option"
  resolve_cache :: "(string \<rightharpoonup> cbm_resolution_t) option"

type_synonym import_map = "(string \<times> string) list"

definition REG_MAX_CANDIDATES :: nat where "REG_MAX_CANDIDATES = 256"
definition REG_TEST_PENALTY :: nat where "REG_TEST_PENALTY = 1000"

section \<open>Names and scores\<close>

definition cbm_confidence_band :: "rat \<Rightarrow> string" where
  "cbm_confidence_band score =
     (if score \<ge> 7 / 10 then ''high''
      else if score \<ge> 45 / 100 then ''medium''
      else if score \<ge> 25 / 100 then ''speculative'' else '''')"

fun last_colons :: "string \<Rightarrow> nat \<Rightarrow> nat option \<Rightarrow> nat option" where
  \<comment> \<open>the search for the last double colon: each match is skipped before the next search\<close>
  "last_colons (c # d # s) i acc =
     (if c = CHR '':'' \<and> d = CHR '':'' then last_colons s (i + 2) (Some i) else last_colons (d # s) (i + 1) acc)"
| "last_colons [c] i acc = acc"
| "last_colons [] i acc = acc"

definition simple_name :: "string \<Rightarrow> string" where
  "simple_name qn =
     (let seg = (case strrchr qn CHR ''.'' of Some i \<Rightarrow> i + 1 | None \<Rightarrow> 0);
          seg = (case last_colons qn 0 None of Some c \<Rightarrow> (if c + 2 > seg then c + 2 else seg) | None \<Rightarrow> seg)
      in drop seg qn)"

definition segment_len :: "string \<Rightarrow> nat" where
  "segment_len s = (case strchr s CHR ''.'' of Some i \<Rightarrow> i | None \<Rightarrow> length s)"

function common_prefix_len :: "string \<Rightarrow> string \<Rightarrow> nat" where
  "common_prefix_len a b =
     (if a = [] \<or> b = [] then 0
      else let alen = segment_len a; blen = segment_len b in
           if alen \<noteq> blen \<or> take alen a \<noteq> take alen b then 0
           else if strchr a CHR ''.'' = None \<or> strchr b CHR ''.'' = None then 1
           else 1 + common_prefix_len (drop (alen + 1) a) (drop (blen + 1) b))"
  by pat_completeness auto

termination
  by (relation "measure (\<lambda>(a, b). length a)") auto

declare common_prefix_len.simps [simp del]

definition is_test_qn :: "string \<Rightarrow> bool" where
  "is_test_qn qn \<longleftrightarrow>
     strstr qn ''Test'' \<or> strstr qn ''test'' \<or> strstr qn ''Mock'' \<or> strstr qn ''mock'' \<or> strstr qn ''Stub'' \<or>
     strstr qn ''stub'' \<or> strstr qn ''Fake'' \<or> strstr qn ''fake'' \<or> strstr qn ''Fixture'' \<or> strstr qn ''spec''"

definition candidate_score :: "string \<Rightarrow> string \<Rightarrow> nat" where
  "candidate_score candidate_qn module_qn =
     (if \<not> is_test_qn candidate_qn then REG_TEST_PENALTY else 0) + common_prefix_len candidate_qn module_qn"

fun best_loop :: "string list \<Rightarrow> string \<Rightarrow> cstr \<Rightarrow> int \<Rightarrow> cstr" where
  "best_loop [] module_qn best best_score = best"
| "best_loop (c # cs) module_qn best best_score =
     (let score = int (candidate_score c module_qn) in
      if score > best_score then best_loop cs module_qn (Some c) score
      else best_loop cs module_qn best best_score)"

definition best_by_import_distance :: "string list \<Rightarrow> string \<Rightarrow> cstr" where
  "best_by_import_distance candidates module_qn = best_loop candidates module_qn None (- 1)"

section \<open>Caches of a file\<close>

definition no_caches :: reg_caches where
  "no_caches = \<lparr>reach_cache = None, import_map_cache = None, resolve_cache = None\<rparr>"

definition cbm_registry_reach_cache_begin :: "reg_caches \<Rightarrow> reg_caches" where
  "cbm_registry_reach_cache_begin st = st\<lparr>reach_cache := Some Map.empty\<rparr>"

definition cbm_registry_reach_cache_end :: "reg_caches \<Rightarrow> reg_caches" where
  "cbm_registry_reach_cache_end st = st\<lparr>reach_cache := None\<rparr>"

definition cbm_registry_import_map_cache_begin :: "import_map \<Rightarrow> reg_caches \<Rightarrow> reg_caches" where
  "cbm_registry_import_map_cache_begin imports st =
     (if imports = [] then st\<lparr>import_map_cache := None\<rparr>
      else st\<lparr>import_map_cache := Some (foldl (\<lambda>m (k, v). m(k \<mapsto> v)) Map.empty imports)\<rparr>)"

definition cbm_registry_import_map_cache_end :: "reg_caches \<Rightarrow> reg_caches" where
  "cbm_registry_import_map_cache_end st = st\<lparr>import_map_cache := None\<rparr>"

definition cbm_registry_resolve_cache_begin :: "reg_caches \<Rightarrow> reg_caches" where
  "cbm_registry_resolve_cache_begin st = st\<lparr>resolve_cache := Some Map.empty\<rparr>"

definition cbm_registry_resolve_cache_end :: "reg_caches \<Rightarrow> reg_caches" where
  "cbm_registry_resolve_cache_end st = st\<lparr>resolve_cache := None\<rparr>"

definition candidate_module :: "string \<Rightarrow> string" where
  "candidate_module qn =
     (case strrchr qn CHR ''.'' of
        Some len \<Rightarrow> take (if len \<ge> CBM_SZ_512 then CBM_SZ_512 - 1 else len) qn
      | None \<Rightarrow> snprintf_into CBM_SZ_512 qn)"

definition import_reachable :: "string \<Rightarrow> string list \<Rightarrow> bool" where
  \<comment> \<open>what \<open>is_import_reachable\<close> computes when the answer is not cached\<close>
  "import_reachable qn vals = list_ex (\<lambda>v. strstr (candidate_module qn) v \<or> strstr v (candidate_module qn)) vals"

definition is_import_reachable :: "string \<Rightarrow> string list \<Rightarrow> reg_caches \<Rightarrow> bool \<times> reg_caches" where
  "is_import_reachable qn vals st =
     (case reach_cache st of
        None \<Rightarrow> (import_reachable qn vals, st)
      | Some m \<Rightarrow>
          (case m qn of
             Some cached \<Rightarrow> (cached, st)
           | None \<Rightarrow> (import_reachable qn vals, st\<lparr>reach_cache := Some (m(qn \<mapsto> import_reachable qn vals))\<rparr>)))"

definition candidate_count_penalty :: "rat \<Rightarrow> nat \<Rightarrow> rat" where
  "candidate_count_penalty base count = (if count \<le> 3 then base else base * min 1 (3 / of_nat count))"

definition empty_result :: cbm_resolution_t where
  "empty_result = \<lparr>qualified_name = None, strategy = None, confidence = 0, candidate_count = 0\<rparr>"

definition found :: "string \<Rightarrow> string \<Rightarrow> rat \<Rightarrow> nat \<Rightarrow> cbm_resolution_t" where
  "found qn how conf count = \<lparr>qualified_name = Some qn, strategy = Some how, confidence = conf, candidate_count = count\<rparr>"

section \<open>Registration and lookup\<close>

definition cbm_registry_new :: cbm_registry where
  "cbm_registry_new = \<lparr>exact = Map.empty, by_name = Map.empty\<rparr>"

definition qn_entries :: "(string \<rightharpoonup> string list) \<Rightarrow> string \<Rightarrow> string list" where
  \<comment> \<open>the array of a name, empty when there is none\<close>
  "qn_entries m k = (case m k of Some xs \<Rightarrow> xs | None \<Rightarrow> [])"

definition qn_push :: "(string \<rightharpoonup> string list) \<Rightarrow> string \<Rightarrow> string \<Rightarrow> (string \<rightharpoonup> string list)" where
  "qn_push m k qn = m(k \<mapsto> qn_entries m k @ [qn])"

definition cbm_registry_add :: "cbm_registry \<Rightarrow> cstr \<Rightarrow> cstr \<Rightarrow> cbm_registry" where
  "cbm_registry_add r qn label =
     (case (qn, label) of
        (Some qn, Some label) \<Rightarrow>
          (if exact r qn \<noteq> None then r
           else r\<lparr>exact := (exact r)(qn \<mapsto> label), by_name := qn_push (by_name r) (simple_name qn) qn\<rparr>)
      | _ \<Rightarrow> r)"

definition cbm_registry_exists :: "cbm_registry \<Rightarrow> cstr \<Rightarrow> bool" where
  "cbm_registry_exists r qn \<longleftrightarrow> (case qn of Some qn \<Rightarrow> exact r qn \<noteq> None | None \<Rightarrow> False)"

definition cbm_registry_label_of :: "cbm_registry \<Rightarrow> cstr \<Rightarrow> cstr" where
  "cbm_registry_label_of r qn = (case qn of Some qn \<Rightarrow> exact r qn | None \<Rightarrow> None)"

definition cbm_registry_find_by_name :: "cbm_registry \<Rightarrow> string \<Rightarrow> string list" where
  "cbm_registry_find_by_name r name = qn_entries (by_name r) name"

definition cbm_registry_size :: "cbm_registry \<Rightarrow> nat" where
  "cbm_registry_size r = card (dom (exact r))"

section \<open>Resolution\<close>

definition suffix_matches :: "string \<Rightarrow> string \<Rightarrow> string \<Rightarrow> bool" where
  \<comment> \<open>the test on the length, the head and the tail of a candidate\<close>
  "suffix_matches resolved_dot dot_suffix qn \<longleftrightarrow>
     length qn \<ge> length resolved_dot + length dot_suffix \<and> take (length resolved_dot) qn = resolved_dot \<and>
     drop (length qn - length dot_suffix) qn = dot_suffix"

definition import_lookup :: "reg_caches \<Rightarrow> import_map \<Rightarrow> string \<Rightarrow> cstr" where
  "import_lookup st imports prefx = (case import_map_cache st of Some m \<Rightarrow> m prefx | None \<Rightarrow> map_of imports prefx)"

definition resolve_import_map :: "cbm_registry \<Rightarrow> string \<Rightarrow> cstr \<Rightarrow> import_map \<Rightarrow> reg_caches \<Rightarrow> cbm_resolution_t" where
  "resolve_import_map r prefx suff imports st =
     (if imports = [] then empty_result
      else case import_lookup st imports prefx of
        None \<Rightarrow> empty_result
      | Some resolved \<Rightarrow>
          (let has_suffix = (suff \<noteq> None \<and> suff \<noteq> Some []);
               candidate = snprintf_into CBM_SZ_512 (resolved @ ''.'' @ (if has_suffix then the suff else prefx))
           in if exact r candidate \<noteq> None then found candidate ''import_map'' (95 / 100) 1
              else if has_suffix
              then let resolved_dot = snprintf_into CBM_SZ_512 (resolved @ ''.'');
                       dot_suffix = snprintf_into CBM_SZ_256 (''.'' @ the suff)
                   in case find (suffix_matches resolved_dot dot_suffix) (qn_entries (by_name r) (simple_name (the suff))) of
                        Some qn \<Rightarrow> found qn ''import_map_suffix'' (85 / 100) 1
                      | None \<Rightarrow> empty_result
              else empty_result))"

definition resolve_same_module :: "cbm_registry \<Rightarrow> string \<Rightarrow> cstr \<Rightarrow> string \<Rightarrow> cbm_resolution_t" where
  "resolve_same_module r callee_name suff module_qn =
     (let candidate = snprintf_into CBM_SZ_512 (module_qn @ ''.'' @ callee_name)
      in if exact r candidate \<noteq> None then found candidate ''same_module'' (90 / 100) 1
         else if suff \<noteq> None \<and> suff \<noteq> Some []
         then let candidate = snprintf_into CBM_SZ_512 (module_qn @ ''.'' @ the suff)
              in if exact r candidate \<noteq> None then found candidate ''same_module'' (90 / 100) 1 else empty_result
         else empty_result)"

fun filter_import_reachable :: "nat \<Rightarrow> string list \<Rightarrow> string list \<Rightarrow> reg_caches \<Rightarrow> string list \<times> reg_caches" where
  \<comment> \<open>with the room left in the array of results\<close>
  "filter_import_reachable room [] vals st = ([], st)"
| "filter_import_reachable room (c # cs) vals st =
     (if room = 0 then ([], st)
      else case is_import_reachable c vals st of
        (True, st) \<Rightarrow> (case filter_import_reachable (room - 1) cs vals st of (out, st) \<Rightarrow> (c # out, st))
      | (False, st) \<Rightarrow> filter_import_reachable room cs vals st)"

definition resolve_multi_with_imports :: "string list \<Rightarrow> string \<Rightarrow> string list \<Rightarrow> reg_caches \<Rightarrow> cbm_resolution_t \<times> reg_caches" where
  "resolve_multi_with_imports arr module_qn vals st =
     (case filter_import_reachable CBM_SZ_256 arr vals st of
        (filtered, st) \<Rightarrow>
          ((if length filtered = 1
            then found (hd filtered) ''suffix_match'' (candidate_count_penalty (55 / 100) (length arr)) (length arr)
            else case (if length filtered > 1 then best_by_import_distance filtered module_qn else None) of
              Some best \<Rightarrow> found best ''suffix_match'' (candidate_count_penalty (55 / 100) (length filtered)) (length filtered)
            | None \<Rightarrow>
                (case best_by_import_distance arr module_qn of
                   Some best \<Rightarrow> found best ''suffix_match'' (candidate_count_penalty (55 / 100 * (1 / 2)) (length arr)) (length arr)
                 | None \<Rightarrow> empty_result)), st))"

definition resolve_name_lookup :: "cbm_registry \<Rightarrow> string \<Rightarrow> string \<Rightarrow> string list \<Rightarrow> reg_caches \<Rightarrow> cbm_resolution_t \<times> reg_caches" where
  "resolve_name_lookup r callee_name module_qn vals st =
     (let arr = qn_entries (by_name r) (simple_name callee_name) in
      if arr = [] then (empty_result, st)
      else if length arr > REG_MAX_CANDIDATES then (empty_result, st)
      else if length arr = 1
      then (if vals \<noteq> []
            then (case is_import_reachable (hd arr) vals st of
                    (reachable, st) \<Rightarrow> (found (hd arr) ''unique_name'' (if reachable then 75 / 100 else 75 / 100 * (1 / 2)) 1, st))
            else (found (hd arr) ''unique_name'' (75 / 100) 1, st))
      else if vals \<noteq> [] then resolve_multi_with_imports arr module_qn vals st
      else case best_by_import_distance arr module_qn of
        Some best \<Rightarrow> (found best ''suffix_match'' (candidate_count_penalty (55 / 100) (length arr)) (length arr), st)
      | None \<Rightarrow> (empty_result, st))"

fun find_colons :: "string \<Rightarrow> nat option" where
  \<comment> \<open>\<open>strstr(s, "::")\<close> as an offset\<close>
  "find_colons (c # d # s) =
     (if c = CHR '':'' \<and> d = CHR '':'' then Some 0 else map_option Suc (find_colons (d # s)))"
| "find_colons [c] = None"
| "find_colons [] = None"

definition split_callee :: "string \<Rightarrow> string \<times> cstr" where
  \<comment> \<open>the prefix, cut off at 255 characters, and the rest after the first separator\<close>
  "split_callee callee_name =
     (let dot = strchr callee_name CHR ''.'';
          colons = find_colons callee_name;
          sep = (case (colons, dot) of
                   (Some c, Some d) \<Rightarrow> (if c < d then Some (c, 2) else Some (d, 1))
                 | (Some c, None) \<Rightarrow> Some (c, 2)
                 | (None, Some d) \<Rightarrow> Some (d, 1)
                 | (None, None) \<Rightarrow> None)
      in case sep of
           Some (plen, sep_len) \<Rightarrow>
             (take (if plen \<ge> CBM_SZ_256 then CBM_SZ_256 - 1 else plen) callee_name, Some (drop (plen + sep_len) callee_name))
         | None \<Rightarrow> (snprintf_into CBM_SZ_256 callee_name, None))"

definition is_resolved :: "cbm_resolution_t \<Rightarrow> bool" where
  "is_resolved res \<longleftrightarrow> qualified_name res \<noteq> None \<and> qualified_name res \<noteq> Some []"

definition resolve_chain :: "cbm_registry \<Rightarrow> string \<Rightarrow> string \<Rightarrow> import_map \<Rightarrow> reg_caches \<Rightarrow> cbm_resolution_t \<times> reg_caches" where
  \<comment> \<open>the strategies in their order, without the cache of results\<close>
  "resolve_chain r callee_name module_qn imports st =
     (case split_callee callee_name of
        (prefx, suff) \<Rightarrow>
          (let res = resolve_import_map r prefx suff imports st in
           if is_resolved res then (res, st)
           else let res = resolve_same_module r callee_name suff module_qn in
                if is_resolved res then (res, st)
                else resolve_name_lookup r callee_name module_qn (map snd imports) st))"

definition cbm_registry_resolve ::
    "cbm_registry \<Rightarrow> cstr \<Rightarrow> string \<Rightarrow> import_map \<Rightarrow> reg_caches \<Rightarrow> cbm_resolution_t \<times> reg_caches" where
  "cbm_registry_resolve r callee module_qn imports st =
     (case callee of
        None \<Rightarrow> (empty_result, st)
      | Some callee_name \<Rightarrow>
          (case (case resolve_cache st of Some m \<Rightarrow> m callee_name | None \<Rightarrow> None) of
             Some cached \<Rightarrow> (cached, st)
           | None \<Rightarrow>
               (case resolve_chain r callee_name module_qn imports st of
                  (res, st) \<Rightarrow>
                    (res, (case resolve_cache st of
                             Some m \<Rightarrow> st\<lparr>resolve_cache := Some (m(callee_name \<mapsto> res))\<rparr>
                           | None \<Rightarrow> st)))))"

section \<open>Fuzzy resolution and search by suffix\<close>

definition no_match :: cbm_fuzzy_result_t where
  "no_match = \<lparr>fuzzy_result = empty_result, fuzzy_ok = False\<rparr>"

definition fuzzy :: "string \<Rightarrow> rat \<Rightarrow> nat \<Rightarrow> cbm_fuzzy_result_t" where
  "fuzzy qn conf count = \<lparr>fuzzy_result = found qn ''fuzzy'' conf count, fuzzy_ok = True\<rparr>"

definition fuzzy_best :: "string list \<Rightarrow> string \<Rightarrow> rat \<Rightarrow> cbm_fuzzy_result_t" where
  "fuzzy_best cands module_qn base =
     (case best_by_import_distance cands module_qn of
        None \<Rightarrow> no_match
      | Some best \<Rightarrow> fuzzy best (candidate_count_penalty base (length cands)) (length cands))"

definition cbm_registry_fuzzy_resolve ::
    "cbm_registry \<Rightarrow> cstr \<Rightarrow> string \<Rightarrow> import_map \<Rightarrow> reg_caches \<Rightarrow> cbm_fuzzy_result_t \<times> reg_caches" where
  "cbm_registry_fuzzy_resolve r callee module_qn imports st =
     (case callee of
        None \<Rightarrow> (no_match, st)
      | Some callee_name \<Rightarrow>
          (let arr = qn_entries (by_name r) (simple_name callee_name); vals = map snd imports in
           if arr = [] then (no_match, st)
           else if length arr > REG_MAX_CANDIDATES then (no_match, st)
           else if length arr = 1
           then (if vals \<noteq> []
                 then (case is_import_reachable (hd arr) vals st of
                         (reachable, st) \<Rightarrow> (fuzzy (hd arr) (if reachable then 40 / 100 else 40 / 100 * (1 / 2)) 1, st))
                 else (fuzzy (hd arr) (40 / 100) 1, st))
           else case (if vals \<noteq> [] then filter_import_reachable CBM_SZ_256 arr vals st else (arr, st)) of
             (cands, st) \<Rightarrow>
               ((if cands = [] then fuzzy_best arr module_qn (30 / 100 * (1 / 2))
                 else if length cands = 1
                 then fuzzy (hd cands) (candidate_count_penalty (40 / 100) (length arr)) (length arr)
                 else fuzzy_best cands module_qn (30 / 100)), st)))"

definition few_match :: "string \<Rightarrow> string \<Rightarrow> bool" where
  "few_match target key \<longleftrightarrow> length key \<ge> length target \<and> drop (length key - length target) key = target"

definition cbm_registry_find_ending_with :: "string list \<Rightarrow> string \<Rightarrow> string list" where
  \<comment> \<open>the first argument is the order in which the table of qualified names is traversed\<close>
  "cbm_registry_find_ending_with traversal suff =
     (let target = ''.'' @ suff
      in filter (few_match target) traversal)"

definition cbm_registry_is_import_reachable :: "string \<Rightarrow> string list \<Rightarrow> reg_caches \<Rightarrow> bool \<times> reg_caches" where
  "cbm_registry_is_import_reachable = is_import_reachable"

end
