(* ===== verification/RegistryProof.thy ===== *)
theory RegistryProof
  imports Registry
begin

text \<open>
  The registry's index by name is exact, the fallback that probes it loses nothing against a scan of the
  whole table, resolution returns registered names of the right last segment with a bounded confidence, and the
  caches of a file do not change any answer.
\<close>

section \<open>The index by name\<close>

interpretation names: push_index qn_entries Map.empty qn_push
  by unfold_locales (simp_all add: qn_entries_def qn_push_def)

definition reg_inv :: "cbm_registry \<Rightarrow> bool" where
  "reg_inv r \<longleftrightarrow> exact_index (qn_entries (by_name r)) (dom (exact r)) simple_name"

definition registry_of :: "(cstr \<times> cstr) list \<Rightarrow> cbm_registry" where
  "registry_of defs = foldl (\<lambda>r (qn, label). cbm_registry_add r qn label) cbm_registry_new defs"

definition given :: "(cstr \<times> cstr) list \<Rightarrow> (string \<times> string) list" where
  \<comment> \<open>the definitions that have both a name and a label\<close>
  "given defs = [(the qn, the label). (qn, label) \<leftarrow> defs, qn \<noteq> None \<and> label \<noteq> None]"

lemma reg_inv_new: "reg_inv cbm_registry_new"
  using names.exact_empty by (simp add: reg_inv_def cbm_registry_new_def)

lemma reg_inv_add:
  assumes "reg_inv r"
  shows "reg_inv (cbm_registry_add r qn label)"
proof (cases "\<exists>q l. qn = Some q \<and> label = Some l \<and> exact r q = None")
  case True
  then obtain q l where q: "qn = Some q" "label = Some l" "exact r q = None" by blast
  then have "q \<notin> dom (exact r)" by auto
  then show ?thesis using names.exact_push [of "by_name r" "dom (exact r)" simple_name q] assms q
    by (simp add: reg_inv_def cbm_registry_add_def)
next
  case False
  then have "cbm_registry_add r qn label = r" by (auto simp: cbm_registry_add_def split: option.splits)
  then show ?thesis using assms by simp
qed

lemma registry_of_snoc: "registry_of (defs @ [d]) = cbm_registry_add (registry_of defs) (fst d) (snd d)"
  by (simp add: registry_of_def case_prod_beta)

lemma reg_inv_registry_of: "reg_inv (registry_of defs)"
proof (induction defs rule: rev_induct)
  case Nil
  then show ?case using reg_inv_new by (simp add: registry_of_def)
next
  case (snoc d defs)
  then show ?case by (simp add: registry_of_snoc reg_inv_add)
qed

lemma exact_registry_of: "exact (registry_of defs) = map_of (given defs)"
proof (induction defs rule: rev_induct)
  case Nil
  then show ?case by (simp add: registry_of_def given_def cbm_registry_new_def)
next
  case (snoc d defs)
  obtain qn label where d: "d = (qn, label)" by (cases d)
  show ?case
  proof (cases "qn \<noteq> None \<and> label \<noteq> None")
    case True
    then obtain q l where q: "qn = Some q" "label = Some l" by auto
    have "given (defs @ [d]) = given defs @ [(q, l)]" by (simp add: given_def d q)
    then show ?thesis using snoc q
      by (auto simp: registry_of_snoc d cbm_registry_add_def map_add_def fun_eq_iff split: option.splits)
  next
    case False
    then have "given (defs @ [d]) = given defs" by (simp add: given_def d)
    then show ?thesis using snoc False by (auto simp: registry_of_snoc d cbm_registry_add_def split: option.splits)
  qed
qed

text \<open>
  The registry. After any sequence of registrations the label of a qualified name is the first one it
  was registered with, a lookup by a simple name returns, without repetition, exactly the registered names
  with that last segment, and the size is the number of different names.
\<close>

theorem registry_lookup_exact:
  "cbm_registry_label_of (registry_of defs) (Some q) = map_of (given defs) q \<and>
   (cbm_registry_exists (registry_of defs) (Some q) \<longleftrightarrow> q \<in> fst ` set (given defs)) \<and>
   set (cbm_registry_find_by_name (registry_of defs) n) = {q. q \<in> fst ` set (given defs) \<and> simple_name q = n} \<and>
   distinct (cbm_registry_find_by_name (registry_of defs) n) \<and>
   cbm_registry_size (registry_of defs) = card (fst ` set (given defs))"
proof -
  have dom: "dom (exact (registry_of defs)) = fst ` set (given defs)" by (simp add: exact_registry_of dom_map_of_conv_image_fst)
  have "exact_index (qn_entries (by_name (registry_of defs))) (fst ` set (given defs)) simple_name"
    using reg_inv_registry_of [of defs] by (simp add: reg_inv_def dom)
  then have "set (cbm_registry_find_by_name (registry_of defs) n) = {q. q \<in> fst ` set (given defs) \<and> simple_name q = n}"
    "distinct (cbm_registry_find_by_name (registry_of defs) n)"
    by (auto simp: exact_index_def cbm_registry_find_by_name_def)
  moreover have "cbm_registry_exists (registry_of defs) (Some q) \<longleftrightarrow> q \<in> fst ` set (given defs)"
    using dom by (auto simp: cbm_registry_exists_def)
  ultimately show ?thesis by (simp add: cbm_registry_label_of_def exact_registry_of cbm_registry_size_def dom_map_of_conv_image_fst)
qed

section \<open>The last segment of a name\<close>

lemma last_colons_pair: "last_colons (CHR '':'' # CHR '':'' # s) i acc = last_colons s (i + 2) (Some i)"
  by simp

lemma last_colons_other:
  "\<not> (c = CHR '':'' \<and> d = CHR '':'') \<Longrightarrow> last_colons (c # d # s) i acc = last_colons (d # s) (i + 1) acc"
  by (subst last_colons.simps) (rule if_not_P)

declare last_colons.simps(1) [simp del]

lemma last_colons_acc: "last_colons s i acc = (case last_colons s i None of None \<Rightarrow> acc | Some c \<Rightarrow> Some c)"
proof (induction s i acc rule: last_colons.induct)
  case (1 c d s i acc)
  show ?case
  proof (cases "c = CHR '':'' \<and> d = CHR '':''")
    case True
    then show ?thesis using 1(1) [OF True] by (simp add: last_colons_pair split: option.splits)
  next
    case False
    then show ?thesis using 1(2) [OF False] unfolding last_colons_other [OF False] by simp
  qed
qed simp_all

lemma last_colons_bound: "last_colons s i acc = Some c \<Longrightarrow> acc = Some c \<or> (i \<le> c \<and> c + 2 \<le> i + length s)"
proof (induction s i acc rule: last_colons.induct)
  case (1 ch d s i acc)
  show ?case
  proof (cases "ch = CHR '':'' \<and> d = CHR '':''")
    case True
    then show ?thesis using 1(1) [OF True] 1(3) by (auto simp: last_colons_pair)
  next
    case False
    then show ?thesis using 1(2) [OF False] 1(3) unfolding last_colons_other [OF False] by auto
  qed
qed simp_all

lemma last_colons_shift: "last_colons s (k + i) (map_option ((+) k) acc) = map_option ((+) k) (last_colons s i acc)"
proof (induction s i acc rule: last_colons.induct)
  case (1 ch d s i acc)
  show ?case
  proof (cases "ch = CHR '':'' \<and> d = CHR '':''")
    case True
    then show ?thesis using 1(1) [OF True] by (simp add: last_colons_pair add.assoc)
  next
    case False
    then show ?thesis using 1(2) [OF False] unfolding last_colons_other [OF False] by (simp add: add.assoc)
  qed
qed simp_all

lemma last_colons_dot: "last_colons (x @ CHR ''.'' # s) i acc = last_colons s (i + length x + 1) (last_colons x i acc)"
proof (induction x i acc rule: last_colons.induct)
  case (1 c d x i acc)
  show ?case
  proof (cases "c = CHR '':'' \<and> d = CHR '':''")
    case True
    then show ?thesis using 1(1) [OF True] by (simp add: last_colons_pair)
  next
    case False
    then show ?thesis using 1(2) [OF False] by (simp add: last_colons_other [OF False])
  qed
next
  case (2 c i acc)
  then show ?case by (cases s) (simp_all add: last_colons_other)
next
  case (3 i acc)
  then show ?case by (cases s) (simp_all add: last_colons_other)
qed

lemma strrchr_dot: "strrchr (x @ CHR ''.'' # s) CHR ''.'' =
    Some (case strrchr s CHR ''.'' of Some j \<Rightarrow> length x + 1 + j | None \<Rightarrow> length x)"
  by (induction x) (auto split: option.splits)

lemma simple_name_dot: "simple_name (x @ CHR ''.'' # s) = simple_name s"
proof -
  define a where "a = (case strrchr s CHR ''.'' of Some i \<Rightarrow> i + 1 | None \<Rightarrow> 0)"
  have seg: "(case strrchr (x @ CHR ''.'' # s) CHR ''.'' of Some i \<Rightarrow> i + 1 | None \<Rightarrow> 0) = length x + 1 + a"
    by (simp add: strrchr_dot a_def split: option.splits)
  have shift: "last_colons s (length x + 1) None = map_option ((+) (length x + 1)) (last_colons s 0 None)"
    using last_colons_shift [of s "length x + 1" 0 None] by simp
  have cols: "last_colons (x @ CHR ''.'' # s) 0 None =
      (case last_colons s 0 None of Some c \<Rightarrow> Some (length x + 1 + c) | None \<Rightarrow> last_colons x 0 None)"
    using last_colons_acc [of s "length x + 1" "last_colons x 0 None"] shift
    by (simp add: last_colons_dot split: option.splits)
  show ?thesis
  proof (cases "last_colons s 0 None")
    case None
    moreover have "c + 2 \<le> length x" if "last_colons x 0 None = Some c" for c using last_colons_bound [OF that] by simp
    ultimately show ?thesis unfolding simple_name_def Let_def seg cols
      by (auto simp: a_def [symmetric] split: option.splits)
  next
    case (Some c)
    then show ?thesis unfolding simple_name_def Let_def seg cols by (auto simp: a_def [symmetric] numeral_3_eq_3)
  qed
qed

section \<open>The fallback on suffixes\<close>

lemma suffix_matches_iff: "suffix_matches rd ds q \<longleftrightarrow> (\<exists>mid. q = rd @ mid @ ds)"
proof
  assume m: "suffix_matches rd ds q"
  define t where "t = drop (length rd) q"
  have q: "q = rd @ t" using m append_take_drop_id [of "length rd" q] by (simp add: suffix_matches_def t_def)
  then have "length ds \<le> length t" using m by (simp add: suffix_matches_def)
  then have "drop (length t - length ds) t = ds" using m q by (simp add: suffix_matches_def)
  then have "t = take (length t - length ds) t @ ds" by (metis append_take_drop_id)
  then show "\<exists>mid. q = rd @ mid @ ds" using q by blast
qed (auto simp: suffix_matches_def)

text \<open>
  C16. Probing is as good as scanning. When an imported module does not define the callee directly, the code looks
  for a registered name that starts with the module and ends with the rest of the callee, but only among the
  names with the same last segment. It finds one exactly when a scan of all registered names would, and
  what it finds is such a name.
\<close>

theorem import_suffix_complete:
  assumes inv: "r = registry_of defs" and key: "import_lookup st imports prefx = Some resolved" "imports \<noteq> []"
    and suff: "suff \<noteq> []" "length suff \<le> 254" "length resolved \<le> 510"
    and direct: "exact r (snprintf_into CBM_SZ_512 (resolved @ ''.'' @ suff)) = None"
  shows "(qualified_name (resolve_import_map r prefx (Some suff) imports st) \<noteq> None \<longleftrightarrow>
      (\<exists>q mid. exact r q \<noteq> None \<and> q = resolved @ ''.'' @ mid @ ''.'' @ suff)) \<and>
    (\<forall>q. qualified_name (resolve_import_map r prefx (Some suff) imports st) = Some q \<longrightarrow>
      exact r q \<noteq> None \<and> (\<exists>mid. q = resolved @ ''.'' @ mid @ ''.'' @ suff))"
proof -
  let ?rd = "resolved @ ''.''" and ?ds = "''.'' @ suff"
  have sm: "suffix_matches ?rd ?ds q \<longleftrightarrow> (\<exists>mid. q = resolved @ ''.'' @ mid @ ''.'' @ suff)" for q
    by (simp add: suffix_matches_iff)
  have last: "simple_name (resolved @ ''.'' @ mid @ ''.'' @ suff) = simple_name suff" for mid
    using simple_name_dot [of "resolved @ ''.'' @ mid" suff] by simp
  have names: "set (qn_entries (by_name r) k) = {q. exact r q \<noteq> None \<and> simple_name q = k}" for k
    using reg_inv_registry_of [of defs] by (auto simp: inv reg_inv_def exact_index_def)
  have res: "resolve_import_map r prefx (Some suff) imports st =
      (case find (suffix_matches ?rd ?ds) (qn_entries (by_name r) (simple_name suff)) of
         Some q \<Rightarrow> found q ''import_map_suffix'' (85 / 100) 1 | None \<Rightarrow> empty_result)"
    using key suff direct by (simp add: resolve_import_map_def Let_def snprintf_into_def CBM_SZ_512_def CBM_SZ_256_def)
  show ?thesis
  proof (cases "find (suffix_matches ?rd ?ds) (qn_entries (by_name r) (simple_name suff))")
    case None
    then have "\<not> suffix_matches ?rd ?ds q" if "exact r q \<noteq> None" "simple_name q = simple_name suff" for q
      using names that by (auto simp: find_None_iff)
    then have "\<not> (\<exists>q mid. exact r q \<noteq> None \<and> q = resolved @ ''.'' @ mid @ ''.'' @ suff)"
      using sm last by blast
    then show ?thesis using None by (simp add: res empty_result_def)
  next
    case (Some q)
    then have "suffix_matches ?rd ?ds q" "q \<in> set (qn_entries (by_name r) (simple_name suff))"
      by (auto simp: find_Some_iff)
    then show ?thesis using Some sm names by (auto simp: res found_def)
  qed
qed

theorem import_suffix_complete_witness:
  "qualified_name (resolve_import_map (registry_of [(Some ''m.C.f'', Some ''Method'')]) ''mod'' (Some ''f'') [(''mod'', ''m'')] no_caches) \<noteq> None \<longleftrightarrow>
     (\<exists>q mid. exact (registry_of [(Some ''m.C.f'', Some ''Method'')]) q \<noteq> None \<and> q = ''m'' @ ''.'' @ mid @ ''.'' @ ''f'')"
proof -
  have "import_lookup no_caches [(''mod'', ''m'')] ''mod'' = Some ''m''" by (simp add: import_lookup_def no_caches_def)
  moreover have "exact (registry_of [(Some ''m.C.f'', Some ''Method'')]) (snprintf_into CBM_SZ_512 (''m'' @ ''.'' @ ''f'')) = None"
    by (simp add: exact_registry_of given_def snprintf_into_def CBM_SZ_512_def)
  ultimately show ?thesis
    using import_suffix_complete [OF refl, of no_caches "[(''mod'', ''m'')]" "''mod''" "''m''" "''f''" "[(Some ''m.C.f'', Some ''Method'')]"] by simp
qed

section \<open>The best candidate\<close>

lemma best_loop_spec:
  assumes "\<And>b. best = Some b \<Longrightarrow> score = int (candidate_score b m)" and "best = None \<Longrightarrow> score = - 1"
  shows "(cs \<noteq> [] \<or> best \<noteq> None \<longrightarrow> best_loop cs m best score \<noteq> None) \<and>
    (\<forall>b. best_loop cs m best score = Some b \<longrightarrow> (b \<in> set cs \<or> best = Some b) \<and> score \<le> int (candidate_score b m) \<and>
       (\<forall>c \<in> set cs. candidate_score c m \<le> candidate_score b m))"
  using assms
proof (induction cs arbitrary: best score)
  case Nil
  then show ?case by simp
next
  case (Cons c cs)
  show ?case
  proof (cases "int (candidate_score c m) > score")
    case True
    then show ?thesis using Cons.IH [of "Some c" "int (candidate_score c m)"] by (auto simp: Let_def)
  next
    case False
    then have some: "best \<noteq> None" using Cons.prems(2) by (cases best) auto
    note ih = Cons.IH [of best score, OF Cons.prems]
    have "candidate_score c m \<le> candidate_score b m" if "best_loop cs m best score = Some b" for b using ih that False by force
    then show ?thesis using ih some False by (auto simp: Let_def)
  qed
qed

lemma best_spec:
  "cs \<noteq> [] \<Longrightarrow> \<exists>b. best_by_import_distance cs m = Some b"
  "best_by_import_distance cs m = Some b \<Longrightarrow> b \<in> set cs \<and> (\<forall>c \<in> set cs. candidate_score c m \<le> candidate_score b m)"
  using best_loop_spec [of None "- 1" m cs] by (auto simp: best_by_import_distance_def)

lemma penalty_bounds:
  assumes "0 < base" and "1 \<le> count"
  shows "0 < candidate_count_penalty base count \<and> candidate_count_penalty base count \<le> base"
proof -
  define p where "p = min 1 (3 / rat_of_nat count)"
  have "0 < p" "p \<le> 1" using assms(2) by (simp_all add: p_def min_def)
  then have "0 < base * p" "base * p \<le> base" using assms(1) mult_left_le [of p base] by simp_all
  then show ?thesis using assms(1) by (simp add: candidate_count_penalty_def p_def [symmetric])
qed

section \<open>Resolution without caches\<close>

definition resolve_plain :: "cbm_registry \<Rightarrow> string \<Rightarrow> string \<Rightarrow> import_map \<Rightarrow> cbm_resolution_t" where
  "resolve_plain r callee_name module_qn imports = fst (resolve_chain r callee_name module_qn imports no_caches)"

lemma reachable_plain: "is_import_reachable q vals no_caches = (import_reachable q vals, no_caches)"
  by (simp add: is_import_reachable_def no_caches_def)

lemma filter_plain: "filter_import_reachable room cs vals no_caches = (take room (filter (\<lambda>c. import_reachable c vals) cs), no_caches)"
proof (induction cs arbitrary: room)
  case (Cons c cs)
  then show ?case by (cases room; cases "import_reachable c vals") (simp_all add: reachable_plain)
qed simp

definition good_result :: "cbm_registry \<Rightarrow> string \<Rightarrow> cbm_resolution_t \<Rightarrow> bool" where
  \<comment> \<open>a registered name with a positive confidence, of the right last segment where it was looked up by name\<close>
  "good_result r callee res \<longleftrightarrow> (\<exists>q how. qualified_name res = Some q \<and> strategy res = Some how \<and> exact r q \<noteq> None \<and>
     0 < confidence res \<and> confidence res \<le> 95 / 100 \<and> 1 \<le> candidate_count res \<and> candidate_count res \<le> REG_MAX_CANDIDATES \<and>
     (how = ''unique_name'' \<or> how = ''suffix_match'' \<longrightarrow> simple_name q = simple_name callee \<and> confidence res \<le> 75 / 100) \<and>
     (how = ''import_map'' \<or> how = ''import_map_suffix'' \<or> how = ''same_module'' \<longrightarrow> cbm_confidence_band (confidence res) = ''high''))"

lemma multi_good:
  assumes inv: "reg_inv r" and arr: "arr = qn_entries (by_name r) (simple_name callee)" "arr \<noteq> []" "length arr \<le> REG_MAX_CANDIDATES"
    and q: "q \<in> set arr" and n: "1 \<le> n" "n \<le> length arr" and base: "0 < base" "base \<le> 75 / 100"
  shows "good_result r callee (found q ''suffix_match'' (candidate_count_penalty base n) n)"
proof -
  have "exact r q \<noteq> None \<and> simple_name q = simple_name callee" using inv q by (auto simp: reg_inv_def exact_index_def arr(1))
  then show ?thesis using penalty_bounds [OF base(1) n(1)] base(2) n arr(3) by (simp add: good_result_def found_def)
qed

lemma multi_imports_good:
  assumes inv: "reg_inv r" and arr: "arr = qn_entries (by_name r) (simple_name callee)" "arr \<noteq> []" "length arr \<le> REG_MAX_CANDIDATES"
  shows "good_result r callee (fst (resolve_multi_with_imports arr m vals no_caches))" (is "good_result r callee ?res")
proof -
  note multi = multi_good [OF inv arr]
  have one: "1 \<le> length arr" using arr(2) by (cases arr) auto
  define fs where "fs = filter (\<lambda>c. import_reachable c vals) arr"
  have sub: "set fs \<subseteq> set arr" "length fs \<le> length arr" by (auto simp: fs_def)
  have take: "take CBM_SZ_256 fs = fs" using arr(3) sub(2) by (simp add: CBM_SZ_256_def REG_MAX_CANDIDATES_def)
  have res: "?res = (if length fs = 1 then found (hd fs) ''suffix_match'' (candidate_count_penalty (55 / 100) (length arr)) (length arr)
      else case (if length fs > 1 then best_by_import_distance fs m else None) of
          Some best \<Rightarrow> found best ''suffix_match'' (candidate_count_penalty (55 / 100) (length fs)) (length fs)
        | None \<Rightarrow> (case best_by_import_distance arr m of
               Some best \<Rightarrow> found best ''suffix_match'' (candidate_count_penalty (55 / 100 * (1 / 2)) (length arr)) (length arr)
             | None \<Rightarrow> empty_result))"
    by (simp add: resolve_multi_with_imports_def filter_plain fs_def [symmetric] take)
  consider "length fs = 1" | "length fs > 1" | "fs = []" by (cases "length fs") auto
  then show ?thesis
  proof cases
    case 1
    then have "hd fs \<in> set arr" using sub(1) hd_in_set [of fs] by fastforce
    then show ?thesis using res 1 multi [OF _ one le_refl, of "hd fs" "55 / 100"] by simp
  next
    case 2
    then obtain b where b: "best_by_import_distance fs m = Some b" "b \<in> set fs" using best_spec [of fs] by fastforce
    then show ?thesis using res 2 sub multi [of b "length fs" "55 / 100"] by auto
  next
    case 3
    obtain b where b: "best_by_import_distance arr m = Some b" "b \<in> set arr" using best_spec [of arr] arr(2) by blast
    then show ?thesis using res 3 multi [OF _ one le_refl, of b "55 / 100 * (1 / 2)"] by simp
  qed
qed

lemma lookup_good:
  assumes inv: "reg_inv r" and arr: "arr = qn_entries (by_name r) (simple_name callee)"
  shows "fst (resolve_name_lookup r callee m vals no_caches) = empty_result \<and> (arr = [] \<or> length arr > REG_MAX_CANDIDATES) \<or>
    good_result r callee (fst (resolve_name_lookup r callee m vals no_caches))"
proof -
  let ?res = "fst (resolve_name_lookup r callee m vals no_caches)"
  note res = resolve_name_lookup_def [of r callee m vals no_caches, folded arr, unfolded Let_def reachable_plain]
  consider "arr = [] \<or> length arr > REG_MAX_CANDIDATES" | "length arr = 1" | "length arr > 1" "length arr \<le> REG_MAX_CANDIDATES"
    by (cases "arr = []"; cases "length arr = 1"; cases "length arr > REG_MAX_CANDIDATES") (auto simp: Suc_lessI)
  then show ?thesis
  proof cases
    case 1
    then show ?thesis by (auto simp: res)
  next
    case 2
    have "hd arr \<in> set arr" using 2 by (cases arr) auto
    then have "exact r (hd arr) \<noteq> None \<and> simple_name (hd arr) = simple_name callee"
      using inv by (auto simp: reg_inv_def exact_index_def arr)
    moreover have "?res = found (hd arr) ''unique_name'' (75 / 100) 1 \<or> ?res = found (hd arr) ''unique_name'' (75 / 100 * (1 / 2)) 1"
      using 2 by (auto simp: res REG_MAX_CANDIDATES_def)
    ultimately show ?thesis by (auto simp: good_result_def found_def REG_MAX_CANDIDATES_def)
  next
    case 3
    then have ne: "arr \<noteq> []" by auto
    show ?thesis
    proof (cases "vals = []")
      case True
      obtain b where b: "best_by_import_distance arr m = Some b" "b \<in> set arr" using best_spec [of arr] ne by blast
      then have "?res = found b ''suffix_match'' (candidate_count_penalty (55 / 100) (length arr)) (length arr)"
        unfolding res using 3 ne True by simp
      then show ?thesis using multi_good [OF inv arr ne 3(2) b(2), of "length arr" "55 / 100"] 3(1) by simp
    next
      case False
      then have "?res = fst (resolve_multi_with_imports arr m vals no_caches)" using 3 ne by (simp add: res)
      then show ?thesis using multi_imports_good [OF inv arr ne 3(2)] by simp
    qed
  qed
qed

lemma high_good:
  assumes "exact r q \<noteq> None" and "how \<in> {''import_map'', ''import_map_suffix'', ''same_module''}" and "7 / 10 \<le> conf" "conf \<le> 95 / 100"
  shows "good_result r callee (found q how conf 1)"
proof -
  have "0 < conf" using assms(3) by (rule less_le_trans [rotated]) simp
  moreover have "how \<noteq> ''unique_name''" "how \<noteq> ''suffix_match''" using assms(2) by auto
  ultimately show ?thesis using assms(1,3,4) by (simp add: good_result_def found_def REG_MAX_CANDIDATES_def cbm_confidence_band_def)
qed

lemma import_map_good:
  assumes inv: "reg_inv r" and res: "is_resolved (resolve_import_map r prefx suff imports st)"
  shows "good_result r callee (resolve_import_map r prefx suff imports st)"
proof -
  have reg: "exact r q \<noteq> None" if "find P (qn_entries (by_name r) k) = Some q" for P k q
  proof -
    have "q \<in> set (qn_entries (by_name r) k)" using that by (auto simp: find_Some_iff)
    then show ?thesis using inv by (auto simp: reg_inv_def exact_index_def)
  qed
  have direct: "good_result r callee (found q ''import_map'' (95 / 100) 1)" if "exact r q \<noteq> None" for q
    by (rule high_good [OF that]) simp_all
  have fallback: "good_result r callee (found q ''import_map_suffix'' (85 / 100) 1)"
    if "find P (qn_entries (by_name r) k) = Some q" for P k q by (rule high_good [OF reg [OF that]]) simp_all
  define P where "P x \<longleftrightarrow> (is_resolved x \<longrightarrow> good_result r callee x)" for x
  have "P empty_result" by (simp add: P_def is_resolved_def empty_result_def)
  moreover have "P (found q ''import_map'' (95 / 100) 1)" if "exact r q \<noteq> None" for q using direct [OF that] by (simp only: P_def simp_thms)
  moreover have "P (found q ''import_map_suffix'' (85 / 100) 1)" if "find Q (qn_entries (by_name r) k) = Some q" for Q k q
    using fallback [OF that] by (simp only: P_def simp_thms)
  ultimately have "P (resolve_import_map r prefx suff imports st)"
    unfolding resolve_import_map_def Let_def by (simp only: split: if_split option.split) blast
  then show ?thesis using res by (simp only: P_def)
qed

lemma same_module_good:
  assumes "is_resolved (resolve_same_module r callee suff m)"
  shows "good_result r callee (resolve_same_module r callee suff m)"
proof -
  have "good_result r callee (found q ''same_module'' (90 / 100) 1)" if "exact r q \<noteq> None" for q
    by (rule high_good [OF that]) simp_all
  moreover have "\<not> is_resolved empty_result" by (simp add: is_resolved_def empty_result_def)
  ultimately show ?thesis using assms unfolding resolve_same_module_def Let_def by presburger
qed

text \<open>
  C14. Soundness of resolution. A callee that is resolved is resolved to a registered name, with a
  confidence above zero and at most 0.95 and a count of candidates of at most 256; what the lookup by name
  returns has the callee's last segment and a confidence of at most 0.75, and what the imports or the module
  resolve is in the high band. A callee stays unresolved only when no registered name has its last
  segment or more than 256 have.
\<close>

theorem registry_resolve_sound:
  "let r = registry_of defs; same = cbm_registry_find_by_name r (simple_name callee);
       res = fst (cbm_registry_resolve r (Some callee) module_qn imports no_caches)
   in good_result r callee res \<or> (res = empty_result \<and> (same = [] \<or> length same > REG_MAX_CANDIDATES))"
proof -
  define r where "r = registry_of defs"
  have inv: "reg_inv r" by (simp add: r_def reg_inv_registry_of)
  obtain prefx suff where sp: "split_callee callee = (prefx, suff)" by (cases "split_callee callee")
  have "fst (cbm_registry_resolve r (Some callee) module_qn imports no_caches) =
      fst (resolve_chain r callee module_qn imports no_caches)"
    by (simp add: cbm_registry_resolve_def no_caches_def case_prod_beta)
  then show ?thesis
    using lookup_good [OF inv refl, of callee module_qn "map snd imports"] import_map_good [OF inv] same_module_good
    by (auto simp: r_def [symmetric] resolve_chain_def sp Let_def cbm_registry_find_by_name_def)
qed

section \<open>The caches of a file\<close>

definition caches_ok :: "cbm_registry \<Rightarrow> string \<Rightarrow> import_map \<Rightarrow> reg_caches \<Rightarrow> bool" where
  "caches_ok r m imports st \<longleftrightarrow>
     (\<forall>c q b. reach_cache st = Some c \<longrightarrow> c q = Some b \<longrightarrow> b = import_reachable q (map snd imports)) \<and>
     (\<forall>c. import_map_cache st = Some c \<longrightarrow> c = map_of imports) \<and>
     (\<forall>c q res. resolve_cache st = Some c \<longrightarrow> c q = Some res \<longrightarrow> res = resolve_plain r q m imports)"

lemma reachable_cached:
  assumes "caches_ok r m imports st"
  shows "\<exists>st'. is_import_reachable q (map snd imports) st = (import_reachable q (map snd imports), st') \<and> caches_ok r m imports st' \<and>
    resolve_cache st' = resolve_cache st"
  using assms by (auto simp: is_import_reachable_def caches_ok_def split: option.splits)

lemma filter_cached:
  assumes "caches_ok r m imports st"
  shows "\<exists>st'. filter_import_reachable room cs (map snd imports) st =
      (take room (filter (\<lambda>c. import_reachable c (map snd imports)) cs), st') \<and> caches_ok r m imports st' \<and> resolve_cache st' = resolve_cache st"
  using assms
proof (induction cs arbitrary: room st)
  case (Cons c cs)
  obtain st' where st': "is_import_reachable c (map snd imports) st = (import_reachable c (map snd imports), st')"
    "caches_ok r m imports st'" "resolve_cache st' = resolve_cache st" using reachable_cached [OF Cons.prems] by blast
  obtain st'' where "filter_import_reachable (if import_reachable c (map snd imports) then room - 1 else room) cs (map snd imports) st' =
      (take (if import_reachable c (map snd imports) then room - 1 else room) (filter (\<lambda>c. import_reachable c (map snd imports)) cs), st'')"
    "caches_ok r m imports st''" "resolve_cache st'' = resolve_cache st"
    using Cons.IH [OF st'(2)] st'(3) by metis
  then show ?case using st' Cons.prems by (cases room; cases "import_reachable c (map snd imports)") auto
qed simp

lemma multi_cached:
  assumes "caches_ok r m imports st"
  shows "\<exists>st'. resolve_multi_with_imports arr md (map snd imports) st =
      (fst (resolve_multi_with_imports arr md (map snd imports) no_caches), st') \<and> caches_ok r m imports st' \<and> resolve_cache st' = resolve_cache st"
proof -
  obtain st' where "filter_import_reachable CBM_SZ_256 arr (map snd imports) st =
      (take CBM_SZ_256 (filter (\<lambda>c. import_reachable c (map snd imports)) arr), st')" "caches_ok r m imports st'" "resolve_cache st' = resolve_cache st"
    using filter_cached [OF assms] by blast
  then show ?thesis by (simp add: resolve_multi_with_imports_def filter_plain)
qed

lemma lookup_cached:
  assumes "caches_ok r m imports st"
  shows "\<exists>st'. resolve_name_lookup r callee md (map snd imports) st =
      (fst (resolve_name_lookup r callee md (map snd imports) no_caches), st') \<and> caches_ok r m imports st' \<and> resolve_cache st' = resolve_cache st"
proof -
  let ?arr = "qn_entries (by_name r) (simple_name callee)"
  obtain st1 where "is_import_reachable (hd ?arr) (map snd imports) st = (import_reachable (hd ?arr) (map snd imports), st1)"
    "caches_ok r m imports st1" "resolve_cache st1 = resolve_cache st" using reachable_cached [OF assms] by blast
  moreover obtain st2 where "resolve_multi_with_imports ?arr md (map snd imports) st =
      (fst (resolve_multi_with_imports ?arr md (map snd imports) no_caches), st2)" "caches_ok r m imports st2" "resolve_cache st2 = resolve_cache st"
    using multi_cached [OF assms] by blast
  ultimately show ?thesis using assms by (auto simp: resolve_name_lookup_def Let_def reachable_plain split: option.splits)
qed

lemma import_map_cached:
  assumes "caches_ok r m imports st"
  shows "resolve_import_map r prefx suff imports st = resolve_import_map r prefx suff imports no_caches"
proof -
  have "import_lookup st imports prefx = import_lookup no_caches imports prefx"
    using assms by (auto simp: caches_ok_def import_lookup_def no_caches_def split: option.splits)
  then show ?thesis by (simp add: resolve_import_map_def)
qed

lemma resolve_cached:
  assumes ok: "caches_ok r m imports st"
  shows "\<exists>st'. cbm_registry_resolve r (Some callee) m imports st = (resolve_plain r callee m imports, st') \<and> caches_ok r m imports st'"
proof -
  obtain prefx suff where sp: "split_callee callee = (prefx, suff)" by (cases "split_callee callee")
  obtain st1 where st1: "resolve_name_lookup r callee m (map snd imports) st =
      (fst (resolve_name_lookup r callee m (map snd imports) no_caches), st1)" "caches_ok r m imports st1" "resolve_cache st1 = resolve_cache st"
    using lookup_cached [OF ok] by blast
  define st' where "st' = snd (resolve_chain r callee m imports st)"
  have st': "resolve_chain r callee m imports st = (resolve_plain r callee m imports, st')" "caches_ok r m imports st'"
    "resolve_cache st' = resolve_cache st"
    using ok st1 by (simp_all add: st'_def resolve_chain_def resolve_plain_def sp Let_def import_map_cached [OF ok])
  have put: "caches_ok r m imports (st'\<lparr>resolve_cache := Some (c(callee \<mapsto> resolve_plain r callee m imports))\<rparr>)"
    if "resolve_cache st = Some c" for c using st'(2,3) that by (simp add: caches_ok_def)
  show ?thesis
  proof (cases "resolve_cache st")
    case None
    then show ?thesis using st' by (simp add: cbm_registry_resolve_def)
  next
    case (Some c)
    have hit: "res = resolve_plain r callee m imports" if "c callee = Some res" for res using ok Some that by (simp add: caches_ok_def)
    show ?thesis
    proof (cases "c callee")
      case None
      then show ?thesis using st' put [OF Some] Some by (simp add: cbm_registry_resolve_def)
    next
      case (Some res)
      then show ?thesis using hit [OF Some] \<open>resolve_cache st = Some c\<close> ok by (simp add: cbm_registry_resolve_def)
    qed
  qed
qed

fun resolve_calls :: "cbm_registry \<Rightarrow> string list \<Rightarrow> string \<Rightarrow> import_map \<Rightarrow> reg_caches \<Rightarrow> cbm_resolution_t list" where
  \<comment> \<open>the calls of a file, one after the other\<close>
  "resolve_calls r [] m imports st = []"
| "resolve_calls r (c # cs) m imports st =
     (case cbm_registry_resolve r (Some c) m imports st of (res, st) \<Rightarrow> res # resolve_calls r cs m imports st)"

definition begin_caches :: "import_map \<Rightarrow> reg_caches" where
  \<comment> \<open>the three caches as the resolving workers open them for a file\<close>
  "begin_caches imports =
     cbm_registry_resolve_cache_begin (cbm_registry_import_map_cache_begin imports (cbm_registry_reach_cache_begin no_caches))"

lemma resolve_calls_ok: "caches_ok r m imports st \<Longrightarrow> resolve_calls r cs m imports st = map (\<lambda>c. resolve_plain r c m imports) cs"
proof (induction cs arbitrary: st)
  case (Cons c cs)
  obtain st' where "cbm_registry_resolve r (Some c) m imports st = (resolve_plain r c m imports, st')" "caches_ok r m imports st'"
    using resolve_cached [OF Cons.prems] by blast
  then show ?case using Cons.IH by simp
qed simp

lemma foldl_map_of:
  assumes "distinct (map fst xs)"
  shows "foldl (\<lambda>m (k, v). m(k \<mapsto> v)) Map.empty xs = map_of xs"
  using assms
proof (induction xs rule: rev_induct)
  case (snoc x xs)
  obtain k v where x: "x = (k, v)" by (cases x)
  have "k \<notin> dom (map_of xs)" using snoc.prems by (simp add: x dom_map_of_conv_image_fst)
  then have "map_of xs k = None" by auto
  then have "map_of (xs @ [x]) = (map_of xs)(k \<mapsto> v)" by (auto simp: x fun_eq_iff map_add_def split: option.splits)
  then show ?case using snoc by (simp add: x)
qed simp

lemma begin_caches_ok: "distinct (map fst imports) \<Longrightarrow> caches_ok r m imports (begin_caches imports)"
  by (simp add: begin_caches_def caches_ok_def cbm_registry_resolve_cache_begin_def cbm_registry_import_map_cache_begin_def
      cbm_registry_reach_cache_begin_def no_caches_def foldl_map_of)

lemma no_caches_ok: "caches_ok r m imports no_caches"
  by (simp add: caches_ok_def no_caches_def)

text \<open>
  C15. The caches are transparent. When no import key is given twice, resolving the calls of a file one
  after the other with the cache of reachable names, the cache of the import map and the cache of results open
  gives the results that are computed with no cache at all. (With a key given twice the import map that is cached keeps
  the last value and the scan without the cache takes the first.)
\<close>

theorem registry_caches_transparent:
  assumes "distinct (map fst imports)"
  shows "resolve_calls r callees module_qn imports (begin_caches imports) =
    map (\<lambda>c. fst (cbm_registry_resolve r (Some c) module_qn imports no_caches)) callees"
proof -
  have "fst (cbm_registry_resolve r (Some c) module_qn imports no_caches) = resolve_plain r c module_qn imports" for c
    using resolve_cached [OF no_caches_ok] by (metis fst_conv)
  then show ?thesis using resolve_calls_ok [OF begin_caches_ok [OF assms]] by simp
qed

theorem registry_caches_transparent_witness:
  "resolve_calls (registry_of [(Some ''m.f'', Some ''Function'')]) [''mod.f'', ''mod.f''] ''x'' [(''mod'', ''m'')] (begin_caches [(''mod'', ''m'')]) =
   map (\<lambda>c. fst (cbm_registry_resolve (registry_of [(Some ''m.f'', Some ''Function'')]) (Some c) ''x'' [(''mod'', ''m'')] no_caches)) [''mod.f'', ''mod.f'']"
  by (rule registry_caches_transparent) simp

end
