(* ===== verification/DbWriter.thy ===== *)
theory DbWriter
  imports GraphBuffer
begin

text \<open>
  The database writer of \<open>internal/cbm/sqlite_writer.c\<close>: variable-length integers, records, cells, overflow pages,
  leaf and interior pages of the B-trees, sorting of the indexes, the schema page and the streaming interface.

  The file is a record of its size and its bytes by offset, with zeros in the holes that seeking leaves; the field
  \<open>pb_fp\<close> of a page builder is the state of the file the C field points to. A page in memory is a function from
  offsets to bytes. Page numbers and lengths are natural numbers: they are taken to stay in the range
  of \<open>uint32_t\<close> and \<open>int\<close>. Memory allocation and writing succeed, opening the file is an argument. A mark
  that the C program does not have is set when a cell is written outside of its page.
\<close>

section \<open>Constants\<close>

definition CBM_PAGE_SIZE :: nat where "CBM_PAGE_SIZE = 65536"
definition CBM_PENDING_BYTE_PAGE :: nat where "CBM_PENDING_BYTE_PAGE = 0x40000000 div CBM_PAGE_SIZE + 1"
definition SQLITE_HEADER_SIZE :: nat where "SQLITE_HEADER_SIZE = 100"
definition BTREE_HEADER_SIZE :: nat where "BTREE_HEADER_SIZE = 8"
definition BTREE_INTERIOR_HDR :: nat where "BTREE_INTERIOR_HDR = 12"
definition BTREE_PTR_SIZE :: nat where "BTREE_PTR_SIZE = 4"
definition CELL_PTR_SIZE :: nat where "CELL_PTR_SIZE = 2"
definition BTREE_LEAF_TABLE :: u8 where "BTREE_LEAF_TABLE = 0x0D"
definition BTREE_LEAF_INDEX :: u8 where "BTREE_LEAF_INDEX = 0x0A"
definition INTERIOR_TABLE_FLAG :: u8 where "INTERIOR_TABLE_FLAG = 0x05"
definition INTERIOR_INDEX_FLAG :: u8 where "INTERIOR_INDEX_FLAG = 0x02"
definition TABLE_OVERFLOW_MAX_LOCAL :: nat where "TABLE_OVERFLOW_MAX_LOCAL = 65501"
definition TABLE_OVERFLOW_MIN_LOCAL :: nat where "TABLE_OVERFLOW_MIN_LOCAL = 8199"
definition INDEX_OVERFLOW_MAX_LOCAL :: nat where "INDEX_OVERFLOW_MAX_LOCAL = 16422"
definition INDEX_OVERFLOW_MIN_LOCAL :: nat where "INDEX_OVERFLOW_MIN_LOCAL = 8199"
definition FIRST_DATA_PAGE :: nat where "FIRST_DATA_PAGE = 2"
definition ERR_WRITE_FAILED :: int where "ERR_WRITE_FAILED = -3"
definition ERR_MASTER_OVERFLOW :: int where "ERR_MASTER_OVERFLOW = -2"
definition ERR_SORT_FAILED :: int where "ERR_SORT_FAILED = -4"
definition CBM_NOT_FOUND :: int where "CBM_NOT_FOUND = -1"

definition cbm_skip_pending_byte :: "nat \<Rightarrow> nat" where
  "cbm_skip_pending_byte pgno = (if pgno = CBM_PENDING_BYTE_PAGE then pgno + 1 else pgno)"

section \<open>Numbers\<close>

fun varint_tmp :: "nat \<Rightarrow> nat list" where
  \<comment> \<open>groups of seven bits, the lowest first\<close>
  "varint_tmp v = (if v > 127 then v mod 128 # varint_tmp (v div 128) else [v])"

declare varint_tmp.simps [simp del]

definition put_varint :: "int \<Rightarrow> u8 list" where
  \<comment> \<open>the value is cast to \<open>uint64_t\<close>\<close>
  "put_varint value =
     (let tmp = varint_tmp (nat (value mod 2 ^ 64))
      in map (\<lambda>b. or (of_nat b) 0x80) (rev (tl tmp)) @ [of_nat (hd tmp)])"

fun varint_len_loop :: "nat \<Rightarrow> nat \<Rightarrow> nat" where
  "varint_len_loop v n = (if v > 127 then varint_len_loop (v div 128) (n + 1) else n)"

declare varint_len_loop.simps [simp del]

definition varint_len :: "int \<Rightarrow> nat" where
  "varint_len value = varint_len_loop (nat (value mod 2 ^ 64)) 1"

definition text_serial_type :: "int \<Rightarrow> int" where
  "text_serial_type len = to_int32 (len * 2 + 13)"

definition int_serial_type :: "int \<Rightarrow> int" where
  \<comment> \<open>the source returns the constants \<open>SERIAL_SIZE_INT48\<close> and \<open>SERIAL_SIZE_INT64\<close>, 6 and 8, in the last two branches\<close>
  "int_serial_type val =
     (if val = 0 then 8 else if val = 1 then 9
      else if -128 \<le> val \<and> val \<le> 127 then 1
      else if -32768 \<le> val \<and> val \<le> 32767 then 2
      else if -8388608 \<le> val \<and> val \<le> 8388607 then 3
      else if -2147483648 \<le> val \<and> val \<le> 2147483647 then 4
      else if -140737488355328 \<le> val \<and> val \<le> 140737488355327 then 6
      else 8)"

definition int_storage_bytes :: "int \<Rightarrow> nat" where
  "int_storage_bytes st =
     (if st = 1 then 1 else if st = 2 then 2 else if st = 3 then 3 else if st = 4 then 4
      else if st = 5 then 6 else if st = 6 then 8 else 0)"

fun put_int_be :: "int \<Rightarrow> nat \<Rightarrow> u8 list" where
  "put_int_be val 0 = []"
| "put_int_be val (Suc n) = put_int_be (val div 256) n @ [of_int val]"

definition put_u16 :: "nat \<Rightarrow> u8 list" where
  "put_u16 val = (let val = val mod 2 ^ 16 in [of_nat (val div 2 ^ 8), of_nat val])"

definition put_u32 :: "nat \<Rightarrow> u8 list" where
  "put_u32 val = (let val = val mod 2 ^ 32 in [of_nat (val div 2 ^ 24), of_nat (val div 2 ^ 16), of_nat (val div 2 ^ 8), of_nat val])"

fun varint_loop :: "(nat \<Rightarrow> u8) \<Rightarrow> nat \<Rightarrow> nat \<Rightarrow> nat \<Rightarrow> nat \<times> nat" where
  \<comment> \<open>the bytes, the turns left, the index and the value so far\<close>
  "varint_loop buf 0 i v = ((v * 256 + unat (buf i)) mod 2 ^ 64, i + 1)"
| "varint_loop buf (Suc n) i v =
     (let v = (v * 128 + unat (and (buf i) 0x7f)) mod 2 ^ 64
      in if and (buf i) 0x80 = 0 then (v, i + 1) else varint_loop buf n (i + 1) v)"

definition get_varint :: "(nat \<Rightarrow> u8) \<Rightarrow> nat \<times> nat" where
  "get_varint buf = varint_loop buf 8 0 0"

section \<open>Records\<close>

definition text_bytes :: "string \<Rightarrow> u8 list" where
  "text_bytes s = map (\<lambda>c. of_nat (byte c)) s"

record RecordBuilder =
  rec_header :: "u8 list"
  rec_body :: "u8 list"

definition rec_init :: RecordBuilder where
  "rec_init = \<lparr>rec_header = [], rec_body = []\<rparr>"

definition rec_add_null :: "RecordBuilder \<Rightarrow> RecordBuilder" where
  "rec_add_null r = r\<lparr>rec_header := rec_header r @ [0]\<rparr>"

definition rec_add_int :: "RecordBuilder \<Rightarrow> int \<Rightarrow> RecordBuilder" where
  "rec_add_int r val =
     (let st = int_serial_type val
      in r\<lparr>rec_header := rec_header r @ put_varint st,
           rec_body := rec_body r @ put_int_be val (int_storage_bytes st)\<rparr>)"

definition rec_add_text :: "RecordBuilder \<Rightarrow> cstr \<Rightarrow> RecordBuilder" where
  "rec_add_text r s =
     (let s = (case s of Some s \<Rightarrow> s | None \<Rightarrow> []);
          slen = to_int32 (int (length s))
      in r\<lparr>rec_header := rec_header r @ put_varint (text_serial_type slen),
           rec_body := rec_body r @ (if slen > 0 then take (nat slen) (text_bytes s) else [])\<rparr>)"

definition rec_add_blob :: "RecordBuilder \<Rightarrow> u8 list \<Rightarrow> RecordBuilder" where
  "rec_add_blob r data =
     (let len = length data; st = (if len > 0 then int len * 2 + 12 else 0)
      in r\<lparr>rec_header := rec_header r @ put_varint st, rec_body := rec_body r @ data\<rparr>)"

definition rec_finalize :: "RecordBuilder \<Rightarrow> u8 list" where
  "rec_finalize r =
     (let header_content_len = length (rec_header r);
          header_len_varint_len = varint_len (int (header_content_len + varint_len (int header_content_len)));
          total_header = header_len_varint_len + header_content_len;
          recalc = varint_len (int total_header);
          total_header = (if recalc \<noteq> header_len_varint_len then recalc + header_content_len else total_header)
      in put_varint (int total_header) @ rec_header r @ rec_body r)"

definition build_node_record :: "CBMDumpNode \<Rightarrow> u8 list" where
  "build_node_record n =
     (let r = rec_add_int rec_init (dmn_id n);
          r = rec_add_text r (Some (dmn_project n));
          r = rec_add_text r (Some (dmn_label n));
          r = rec_add_text r (Some (dmn_name n));
          r = rec_add_text r (Some (dmn_qn n));
          r = rec_add_text r (Some (dmn_file n));
          r = rec_add_int r (dmn_start n);
          r = rec_add_int r (dmn_end n);
          r = rec_add_text r (Some (case dmn_props n of Some p \<Rightarrow> p | None \<Rightarrow> ''{}''))
      in rec_finalize r)"

definition build_edge_record :: "CBMDumpEdge \<Rightarrow> u8 list" where
  "build_edge_record e =
     (let r = rec_add_int rec_init (dme_id e);
          r = rec_add_text r (Some (dme_project e));
          r = rec_add_int r (dme_source e);
          r = rec_add_int r (dme_target e);
          r = rec_add_text r (Some (dme_type e));
          r = rec_add_text r (Some (dme_props e))
      in rec_finalize r)"

definition build_vector_record :: "CBMDumpVector \<Rightarrow> u8 list" where
  "build_vector_record v =
     (let r = rec_add_int rec_init (dv_node v);
          r = rec_add_text r (Some (dv_project v));
          r = rec_add_blob r (dv_vector v)
      in rec_finalize r)"

definition build_token_vec_record :: "(u32 \<Rightarrow> int) \<Rightarrow> CBMDumpTokenVec \<Rightarrow> u8 list" where
  \<comment> \<open>the product of the float with 1000, as an integer, is an argument\<close>
  "build_token_vec_record idf_fixed tv =
     (let r = rec_add_int rec_init (int (tv_id tv));
          r = rec_add_text r (Some (tv_project tv));
          r = rec_add_text r (Some (tv_token tv));
          r = rec_add_blob r (tv_vector tv);
          r = rec_add_int r (idf_fixed (tv_idf tv))
      in rec_finalize r)"

definition build_project_record :: "string \<Rightarrow> string \<Rightarrow> string \<Rightarrow> u8 list" where
  "build_project_record name indexed_at root_path =
     rec_finalize (rec_add_text (rec_add_text (rec_add_text rec_init (Some name)) (Some indexed_at)) (Some root_path))"

section \<open>Memory and the file\<close>

type_synonym mem = "nat \<Rightarrow> u8"

definition store_bytes :: "mem \<Rightarrow> nat \<Rightarrow> u8 list \<Rightarrow> mem" where
  "store_bytes m off bs = (\<lambda>i. if off \<le> i \<and> i < off + length bs then bs ! (i - off) else m i)"

record FILE =
  f_size :: nat
  f_byte :: mem

definition empty_file :: FILE where
  "empty_file = \<lparr>f_size = 0, f_byte = (\<lambda>_. 0)\<rparr>"

definition fwrite_at :: "FILE \<Rightarrow> nat \<Rightarrow> nat \<Rightarrow> mem \<Rightarrow> FILE" where
  \<comment> \<open>\<open>fseek\<close> and \<open>fwrite\<close> of the given number of bytes\<close>
  "fwrite_at fp off n src =
     \<lparr>f_size = max (f_size fp) (off + n), f_byte = (\<lambda>i. if off \<le> i \<and> i < off + n then src (i - off) else f_byte fp i)\<rparr>"

definition page_offset :: "nat \<Rightarrow> nat" where
  "page_offset pnum = (pnum - 1) * CBM_PAGE_SIZE"

definition write_page :: "FILE \<Rightarrow> nat \<Rightarrow> mem \<Rightarrow> FILE" where
  "write_page fp pnum pg = fwrite_at fp (page_offset pnum) CBM_PAGE_SIZE pg"

section \<open>The page builder\<close>

record PageRef =
  page_num :: nat
  max_key :: int
  sep_cell :: "u8 list"

record PageBuilder =
  pb_fp :: FILE
  pb_next_page :: nat
  pb_page1_offset :: nat
  pb_is_index :: bool
  pb_page :: mem
  pb_cell_count :: nat
  pb_content_offset :: nat
  pb_ptr_offset :: nat
  pb_leaves :: "PageRef list"
  pb_ub :: bool

definition pb_init :: "FILE \<Rightarrow> nat \<Rightarrow> bool \<Rightarrow> PageBuilder" where
  "pb_init fp start_page is_index =
     (let page1_offset = (if start_page = 1 then SQLITE_HEADER_SIZE else 0)
      in \<lparr>pb_fp = fp, pb_next_page = start_page, pb_page1_offset = page1_offset, pb_is_index = is_index, pb_page = (\<lambda>_. 0),
          pb_cell_count = 0, pb_content_offset = CBM_PAGE_SIZE, pb_ptr_offset = page1_offset + BTREE_HEADER_SIZE,
          pb_leaves = [], pb_ub = False\<rparr>)"

definition page_header :: "mem \<Rightarrow> nat \<Rightarrow> u8 \<Rightarrow> nat \<Rightarrow> nat \<Rightarrow> mem" where
  \<comment> \<open>flag, first free block, number of cells, start of the cells, fragmented bytes\<close>
  "page_header pg hdr flag cell_count content_offset =
     store_bytes pg hdr (flag # put_u16 0 @ put_u16 cell_count @ put_u16 content_offset @ [0])"

definition pb_flush_leaf :: "PageBuilder \<Rightarrow> int \<Rightarrow> u8 list \<Rightarrow> PageBuilder" where
  \<comment> \<open>with the key and the separator that the caller has put into the next entry of \<open>leaves\<close>\<close>
  "pb_flush_leaf pb key sep =
     (if pb_cell_count pb = 0 then pb
      else let pg = page_header (pb_page pb) (pb_page1_offset pb) (if pb_is_index pb then BTREE_LEAF_INDEX else BTREE_LEAF_TABLE)
                      (pb_cell_count pb) (pb_content_offset pb);
               pnum = cbm_skip_pending_byte (pb_next_page pb)
           in pb\<lparr>pb_fp := write_page (pb_fp pb) pnum pg,
                 pb_leaves := pb_leaves pb @ [\<lparr>page_num = pnum, max_key = key, sep_cell = sep\<rparr>],
                 pb_next_page := pnum + 1, pb_cell_count := 0, pb_content_offset := CBM_PAGE_SIZE, pb_page1_offset := 0,
                 pb_ptr_offset := BTREE_HEADER_SIZE, pb_page := (\<lambda>_. 0)\<rparr>)"

definition pb_cell_fits :: "PageBuilder \<Rightarrow> nat \<Rightarrow> bool" where
  "pb_cell_fits pb cell_len \<longleftrightarrow> int cell_len \<le> int (pb_content_offset pb) - int (pb_ptr_offset pb) - int CELL_PTR_SIZE"

definition pb_add_cell :: "PageBuilder \<Rightarrow> u8 list \<Rightarrow> PageBuilder" where
  "pb_add_cell pb cell =
     (let content_offset = pb_content_offset pb - length cell
      in pb\<lparr>pb_page := store_bytes (store_bytes (pb_page pb) content_offset cell) (pb_ptr_offset pb) (put_u16 content_offset),
            pb_content_offset := content_offset, pb_ptr_offset := pb_ptr_offset pb + CELL_PTR_SIZE,
            pb_cell_count := pb_cell_count pb + 1,
            pb_ub := (pb_ub pb \<or> pb_content_offset pb < length cell \<or> CBM_PAGE_SIZE < pb_ptr_offset pb + CELL_PTR_SIZE)\<rparr>)"

section \<open>Interior pages\<close>

definition build_interior_cell :: "PageRef \<Rightarrow> bool \<Rightarrow> u8 list" where
  "build_interior_cell child is_index = put_u32 (page_num child) @ (if is_index then sep_cell child else put_varint (max_key child))"

record interior_page =
  ip_page :: mem
  ip_cell_count :: nat
  ip_content_offset :: nat
  ip_ptr_offset :: nat
  ip_ub :: bool

fun fill_interior_page :: "bool \<Rightarrow> PageRef list \<Rightarrow> interior_page \<Rightarrow> PageRef list \<times> interior_page" where
  \<comment> \<open>the children from the current one on; the last one never gets a cell\<close>
  "fill_interior_page is_index (c # d # cs) ip =
     (let cell = build_interior_cell c is_index
      in if int (length cell) > int (ip_content_offset ip) - int (ip_ptr_offset ip) - int CELL_PTR_SIZE \<and> ip_cell_count ip > 0
         then (c # d # cs, ip)
         else let content_offset = ip_content_offset ip - length cell
              in fill_interior_page is_index (d # cs)
                   \<lparr>ip_page = store_bytes (store_bytes (ip_page ip) content_offset cell) (ip_ptr_offset ip) (put_u16 content_offset),
                    ip_cell_count = ip_cell_count ip + 1, ip_content_offset = content_offset,
                    ip_ptr_offset = ip_ptr_offset ip + CELL_PTR_SIZE,
                    ip_ub = (ip_ub ip \<or> ip_content_offset ip < length cell)\<rparr>)"
| "fill_interior_page is_index cs ip = (cs, ip)"

definition write_interior_page :: "PageBuilder \<Rightarrow> bool \<Rightarrow> interior_page \<Rightarrow> PageRef \<Rightarrow> PageRef \<times> PageBuilder" where
  "write_interior_page pb is_index ip right =
     (let pnum = cbm_skip_pending_byte (pb_next_page pb);
          pg = page_header (ip_page ip) 0 (if is_index then INTERIOR_INDEX_FLAG else INTERIOR_TABLE_FLAG) (ip_cell_count ip) (ip_content_offset ip);
          pg = store_bytes pg BTREE_HEADER_SIZE (put_u32 (page_num right))
      in (\<lparr>page_num = pnum, max_key = max_key right, sep_cell = (if is_index then sep_cell right else [])\<rparr>,
          pb\<lparr>pb_fp := write_page (pb_fp pb) pnum pg, pb_next_page := pnum + 1, pb_ub := (pb_ub pb \<or> ip_ub ip)\<rparr>))"

definition empty_interior :: interior_page where
  "empty_interior = \<lparr>ip_page = (\<lambda>_. 0), ip_cell_count = 0, ip_content_offset = CBM_PAGE_SIZE, ip_ptr_offset = BTREE_INTERIOR_HDR, ip_ub = False\<rparr>"

lemma fill_interior_length: "length (fst (fill_interior_page is_index cs ip)) \<le> length cs"
proof (induction is_index cs ip rule: fill_interior_page.induct)
  case (1 is_index c d cs ip)
  then show ?case by (simp add: Let_def le_SucI)
qed simp_all

function interior_level :: "PageBuilder \<Rightarrow> bool \<Rightarrow> PageRef list \<Rightarrow> PageRef list \<times> PageBuilder" where
  \<comment> \<open>the pages above the given children\<close>
  "interior_level pb is_index children =
     (if children = [] then ([], pb)
      else case fill_interior_page is_index children empty_interior of
        (rest, ip) \<Rightarrow>
          (case write_interior_page pb is_index ip (hd rest) of
             (parent, pb) \<Rightarrow>
               (case interior_level pb is_index (tl rest) of (parents, pb) \<Rightarrow> (parent # parents, pb))))"
  by pat_completeness auto

termination
proof (relation "measure (\<lambda>(pb, is_index, children). length children)", goal_cases)
  case (2 pb is_index children rest ip)
  then have "length rest \<le> length children" using fill_interior_length [of is_index children empty_interior] by (metis fst_conv)
  then show ?case using 2(1) by (cases rest) auto
qed simp

declare interior_level.simps [simp del]

lemma fill_interior_first: "length (fst (fill_interior_page is_index (c # d # cs) empty_interior)) \<le> Suc (length cs)"
  using fill_interior_length [of is_index "d # cs"] by (simp add: empty_interior_def Let_def)

lemma interior_level_step:
  assumes "children \<noteq> []" "fill_interior_page is_index children empty_interior = (rest, ip)"
    and "write_interior_page pb is_index ip (hd rest) = (parent, pb')"
  shows "interior_level pb is_index children =
    (parent # fst (interior_level pb' is_index (tl rest)), snd (interior_level pb' is_index (tl rest)))"
  using assms by (subst interior_level.simps) (simp add: split_def)

lemma interior_level_length: "length (fst (interior_level pb is_index children)) \<le> (length children + 1) div 2"
proof (induction pb is_index children rule: interior_level.induct)
  case (1 pb is_index children)
  obtain rest ip where f: "fill_interior_page is_index children empty_interior = (rest, ip)" by fastforce
  obtain parent pb' where w: "write_interior_page pb is_index ip (hd rest) = (parent, pb')" by fastforce
  show ?case
  proof (cases children)
    case Nil
    then show ?thesis by (simp add: interior_level.simps [of pb])
  next
    case (Cons c cs)
    then have "length (fst (interior_level pb' is_index (tl rest))) \<le> (length (tl rest) + 1) div 2" using 1 f w by simp
    moreover have "Suc (length (tl rest)) \<le> Suc (length children - 2)"
    proof (cases cs)
      case Nil
      then show ?thesis using f Cons by auto
    next
      case (Cons d ds)
      then show ?thesis using fill_interior_first [of is_index c d ds] f \<open>children = c # cs\<close> by simp
    qed
    moreover have "fst (interior_level pb is_index children) = parent # fst (interior_level pb' is_index (tl rest))"
      using Cons f w by (simp add: interior_level_step)
    ultimately show ?thesis using Cons by simp
  qed
qed

lemma interior_level_shrinks: "(parents, pb') = interior_level pb is_index children \<Longrightarrow> 1 < length children \<Longrightarrow> length parents < length children"
  using interior_level_length [of pb is_index children] by (simp add: eq_commute [of "(parents, pb')"])

function build_levels :: "PageBuilder \<Rightarrow> bool \<Rightarrow> PageRef list \<Rightarrow> PageRef list \<times> PageBuilder" where
  \<comment> \<open>the loop over the levels, down to one page\<close>
  "build_levels pb is_index children =
     (if length children > 1
      then case interior_level pb is_index children of (parents, pb) \<Rightarrow> build_levels pb is_index parents
      else (children, pb))"
  by pat_completeness auto

termination
  by (relation "measure (\<lambda>(pb, is_index, children). length children)") (auto simp: interior_level_shrinks)

declare build_levels.simps [simp del]

definition pb_build_interior :: "PageBuilder \<Rightarrow> bool \<Rightarrow> nat \<times> PageBuilder" where
  "pb_build_interior pb is_index =
     (if pb_leaves pb = [] then (0, pb)
      else if length (pb_leaves pb) \<le> 1 then (page_num (hd (pb_leaves pb)), pb)
      else case build_levels pb is_index (pb_leaves pb) of
        (children, pb) \<Rightarrow> (if children = [] then 0 else page_num (hd children), pb))"

section \<open>Cells\<close>

definition build_table_cell :: "int \<Rightarrow> u8 list \<Rightarrow> u8 list" where
  "build_table_cell rowid payload = put_varint (int (length payload)) @ put_varint rowid @ payload"

definition build_table_cell_overflow :: "int \<Rightarrow> u8 list \<Rightarrow> nat \<Rightarrow> nat \<Rightarrow> u8 list" where
  "build_table_cell_overflow rowid payload local_len overflow_page =
     put_varint (int (length payload)) @ put_varint rowid @ take local_len payload @ put_u32 overflow_page"

definition per_page :: nat where
  "per_page = CBM_PAGE_SIZE - BTREE_PTR_SIZE"

function overflow_loop :: "FILE \<Rightarrow> nat \<Rightarrow> u8 list \<Rightarrow> nat \<Rightarrow> nat option \<Rightarrow> FILE \<times> nat \<times> nat" where
  \<comment> \<open>the data left, the first page and the offset of the pointer to be filled in\<close>
  "overflow_loop fp next_page data first_page prev_next_ptr_offset =
     (if data = [] then (fp, next_page, first_page)
      else let pnum = next_page;
               first_page = (if first_page = 0 then pnum else first_page);
               fp = (case prev_next_ptr_offset of
                       Some off \<Rightarrow> fwrite_at fp off BTREE_PTR_SIZE (\<lambda>i. put_u32 pnum ! i)
                     | None \<Rightarrow> fp);
               pg = store_bytes (store_bytes (\<lambda>_. 0) 0 (put_u32 0)) BTREE_PTR_SIZE (take per_page data);
               fp = write_page fp pnum pg
           in overflow_loop fp (next_page + 1) (drop per_page data) first_page (Some (page_offset pnum)))"
  by pat_completeness auto

termination
  by (relation "measure (\<lambda>(fp, next_page, data, first_page, prev). length data)")
    (auto simp: per_page_def CBM_PAGE_SIZE_def BTREE_PTR_SIZE_def)

declare overflow_loop.simps [simp del]

definition write_overflow_pages :: "FILE \<Rightarrow> nat \<Rightarrow> u8 list \<Rightarrow> FILE \<times> nat \<times> nat" where
  \<comment> \<open>with the next free page and the first page written\<close>
  "write_overflow_pages fp next_page data = overflow_loop fp next_page data 0 None"

definition index_cell :: "RecordBuilder \<Rightarrow> u8 list" where
  \<comment> \<open>the end of every builder of an index entry: the length and the record\<close>
  "index_cell r = (let payload = rec_finalize r in put_varint (int (length payload)) @ payload)"

definition build_index_entry_2text_rowid :: "cstr \<Rightarrow> cstr \<Rightarrow> int \<Rightarrow> u8 list" where
  "build_index_entry_2text_rowid col1 col2 rowid = index_cell (rec_add_int (rec_add_text (rec_add_text rec_init col1) col2) rowid)"

definition build_index_entry_int_text_rowid :: "int \<Rightarrow> cstr \<Rightarrow> int \<Rightarrow> u8 list" where
  "build_index_entry_int_text_rowid val txt rowid = index_cell (rec_add_int (rec_add_text (rec_add_int rec_init val) txt) rowid)"

definition build_index_entry_text_int_text_rowid :: "cstr \<Rightarrow> int \<Rightarrow> cstr \<Rightarrow> int \<Rightarrow> u8 list" where
  "build_index_entry_text_int_text_rowid t1 val t2 rowid =
     index_cell (rec_add_int (rec_add_text (rec_add_int (rec_add_text rec_init t1) val) t2) rowid)"

definition build_index_entry_unique_2int_text_rowid :: "int \<Rightarrow> int \<Rightarrow> cstr \<Rightarrow> int \<Rightarrow> u8 list" where
  "build_index_entry_unique_2int_text_rowid v1 v2 txt rowid =
     index_cell (rec_add_int (rec_add_text (rec_add_int (rec_add_int rec_init v1) v2) txt) rowid)"

definition index_local :: "nat \<Rightarrow> nat" where
  "index_local plen =
     (let k = INDEX_OVERFLOW_MIN_LOCAL + (plen - INDEX_OVERFLOW_MIN_LOCAL) mod per_page
      in if k \<le> INDEX_OVERFLOW_MAX_LOCAL then k else INDEX_OVERFLOW_MIN_LOCAL)"

definition overflowize_index_cell :: "FILE \<Rightarrow> nat \<Rightarrow> u8 list \<Rightarrow> u8 list \<times> FILE \<times> nat" where
  "overflowize_index_cell fp next_page cell =
     (case get_varint (\<lambda>i. cell ! i) of
        (plen, vlen) \<Rightarrow>
          (if plen \<le> INDEX_OVERFLOW_MAX_LOCAL then (cell, fp, next_page)
           else let loc = index_local plen
                in case write_overflow_pages fp next_page (take (plen - loc) (drop (vlen + loc) cell)) of
                     (fp, next_page, first_ovfl) \<Rightarrow> (take (vlen + loc) cell @ put_u32 first_ovfl, fp, next_page)))"

section \<open>Tables\<close>

definition table_local :: "nat \<Rightarrow> nat" where
  "table_local payload_len =
     (let local_len = TABLE_OVERFLOW_MIN_LOCAL + (payload_len - TABLE_OVERFLOW_MIN_LOCAL) mod per_page
      in if local_len > TABLE_OVERFLOW_MAX_LOCAL then TABLE_OVERFLOW_MIN_LOCAL else local_len)"

definition pb_place_cell :: "PageBuilder \<Rightarrow> int \<Rightarrow> u8 list \<Rightarrow> PageBuilder" where
  "pb_place_cell pb prev_rowid cell =
     pb_add_cell (if \<not> pb_cell_fits pb (length cell) \<and> pb_cell_count pb > 0 then pb_flush_leaf pb prev_rowid [] else pb) cell"

definition pb_add_table_cell_with_flush :: "PageBuilder \<Rightarrow> int \<Rightarrow> u8 list \<Rightarrow> int \<Rightarrow> PageBuilder" where
  "pb_add_table_cell_with_flush pb rowid payload prev_rowid =
     (if length payload > TABLE_OVERFLOW_MAX_LOCAL
      then let local_len = table_local (length payload)
           in case write_overflow_pages (pb_fp pb) (pb_next_page pb) (drop local_len payload) of
                (fp, next_page, overflow_page) \<Rightarrow>
                  (let pb = pb\<lparr>pb_fp := fp, pb_next_page := next_page\<rparr>
                   in if overflow_page = 0 then pb
                      else pb_place_cell pb prev_rowid (build_table_cell_overflow rowid payload local_len overflow_page))
      else pb_place_cell pb prev_rowid (build_table_cell rowid payload))"

definition pb_finalize_table :: "PageBuilder \<Rightarrow> int \<Rightarrow> FILE \<times> nat \<times> nat \<times> bool" where
  \<comment> \<open>the file, the next free page, the root and the mark\<close>
  "pb_finalize_table pb last_rowid =
     (let pb = (if pb_cell_count pb > 0 then pb_flush_leaf pb last_rowid [] else pb)
      in if length (pb_leaves pb) = 1 then (pb_fp pb, pb_next_page pb, page_num (hd (pb_leaves pb)), pb_ub pb)
         else if length (pb_leaves pb) > 1
         then case pb_build_interior pb False of (root, pb) \<Rightarrow> (pb_fp pb, pb_next_page pb, root, pb_ub pb)
         else (pb_fp pb, pb_next_page pb, 0, pb_ub pb))"

fun add_rows :: "PageBuilder \<Rightarrow> int \<Rightarrow> (int \<times> u8 list) list \<Rightarrow> PageBuilder" where
  \<comment> \<open>the loop over the rows, with the rowid before them\<close>
  "add_rows pb prev [] = pb"
| "add_rows pb prev ((rowid, payload) # rows) = add_rows (pb_add_table_cell_with_flush pb rowid payload prev) rowid rows"

definition write_empty_leaf :: "FILE \<Rightarrow> nat \<Rightarrow> nat \<Rightarrow> u8 \<Rightarrow> FILE \<times> nat \<times> nat" where
  "write_empty_leaf fp next_page hdr flag =
     (let pnum = cbm_skip_pending_byte next_page
      in (write_page fp pnum (page_header (\<lambda>_. 0) hdr flag 0 CBM_PAGE_SIZE), pnum + 1, pnum))"

definition write_table_btree :: "FILE \<Rightarrow> nat \<Rightarrow> (int \<times> u8 list) list \<Rightarrow> bool \<Rightarrow> FILE \<times> nat \<times> nat \<times> bool" where
  "write_table_btree fp next_page rows first_is_page1 =
     (let hdr = (if first_is_page1 then SQLITE_HEADER_SIZE else 0) in
      if rows = [] then (case write_empty_leaf fp next_page hdr BTREE_LEAF_TABLE of (fp, next_page, root) \<Rightarrow> (fp, next_page, root, False))
      else let pb = (pb_init fp next_page False)\<lparr>pb_page1_offset := hdr, pb_ptr_offset := hdr + BTREE_HEADER_SIZE\<rparr>
           in pb_finalize_table (add_rows pb 0 rows) (fst (last rows)))"

section \<open>Indexes\<close>

definition pb_promote_and_flush :: "PageBuilder \<Rightarrow> u8 list \<Rightarrow> PageBuilder" where
  "pb_promote_and_flush pb prev_cell =
     pb_flush_leaf (pb\<lparr>pb_cell_count := pb_cell_count pb - 1, pb_content_offset := pb_content_offset pb + length prev_cell,
       pb_ptr_offset := pb_ptr_offset pb - CELL_PTR_SIZE\<rparr>) 0 prev_cell"

fun overflowize_all :: "FILE \<Rightarrow> nat \<Rightarrow> u8 list list \<Rightarrow> u8 list list \<times> FILE \<times> nat" where
  "overflowize_all fp next_page [] = ([], fp, next_page)"
| "overflowize_all fp next_page (cell # cells) =
     (case overflowize_index_cell fp next_page cell of
        (cell, fp, next_page) \<Rightarrow>
          (case overflowize_all fp next_page cells of (cells, fp, next_page) \<Rightarrow> (cell # cells, fp, next_page)))"

fun add_index_cells :: "PageBuilder \<Rightarrow> u8 list \<Rightarrow> u8 list list \<Rightarrow> PageBuilder" where
  \<comment> \<open>the loop over the cells, with the one before them\<close>
  "add_index_cells pb prev [] = pb"
| "add_index_cells pb prev (cell # cells) =
     (let pb = (if \<not> pb_cell_fits pb (length cell) \<and> pb_cell_count pb > 0 then pb_promote_and_flush pb prev else pb)
      in add_index_cells (if pb_cell_fits pb (length cell) then pb_add_cell pb cell else pb) cell cells)"

definition write_index_btree :: "FILE \<Rightarrow> nat \<Rightarrow> u8 list list \<Rightarrow> FILE \<times> nat \<times> nat \<times> bool" where
  "write_index_btree fp next_page cells =
     (if cells = [] then (case write_empty_leaf fp next_page 0 BTREE_LEAF_INDEX of (fp, next_page, root) \<Rightarrow> (fp, next_page, root, False))
      else case overflowize_all fp next_page cells of
        (cells, fp, next_page) \<Rightarrow>
          (let pb = add_index_cells (pb_init fp next_page True) [] cells;
               pb = (if pb_cell_count pb > 0 then pb_flush_leaf pb 0 (last cells) else pb)
           in if pb_leaves pb = [] then (pb_fp pb, pb_next_page pb, 0, pb_ub pb)
              else if length (pb_leaves pb) = 1 then (pb_fp pb, pb_next_page pb, page_num (hd (pb_leaves pb)), pb_ub pb)
              else case pb_build_interior pb True of (root, pb) \<Rightarrow> (pb_fp pb, pb_next_page pb, root, pb_ub pb)))"

section \<open>Sorting\<close>

fun strcmp :: "string \<Rightarrow> string \<Rightarrow> int" where
  \<comment> \<open>the sign of \<open>strcmp\<close>\<close>
  "strcmp [] [] = 0"
| "strcmp [] (y # ys) = -1"
| "strcmp (x # xs) [] = 1"
| "strcmp (x # xs) (y # ys) = (if byte x < byte y then -1 else if byte y < byte x then 1 else strcmp xs ys)"

definition cmp_i64 :: "int \<Rightarrow> int \<Rightarrow> int" where
  "cmp_i64 a b = (if a > b then 1 else 0) - (if a < b then 1 else 0)"

definition first_of :: "int \<Rightarrow> int \<Rightarrow> int" where
  \<comment> \<open>\<open>if (c) { return c; }\<close>, then the next comparison\<close>
  "first_of c d = (if c \<noteq> 0 then c else d)"

definition cmp_node_by_label :: "CBMDumpNode list \<Rightarrow> nat \<Rightarrow> nat \<Rightarrow> int" where
  "cmp_node_by_label ns a b = first_of (strcmp (dmn_label (ns ! a)) (dmn_label (ns ! b))) (cmp_i64 (dmn_id (ns ! a)) (dmn_id (ns ! b)))"

definition cmp_node_by_name :: "CBMDumpNode list \<Rightarrow> nat \<Rightarrow> nat \<Rightarrow> int" where
  "cmp_node_by_name ns a b = first_of (strcmp (dmn_name (ns ! a)) (dmn_name (ns ! b))) (cmp_i64 (dmn_id (ns ! a)) (dmn_id (ns ! b)))"

definition cmp_node_by_file :: "CBMDumpNode list \<Rightarrow> nat \<Rightarrow> nat \<Rightarrow> int" where
  "cmp_node_by_file ns a b = first_of (strcmp (dmn_file (ns ! a)) (dmn_file (ns ! b))) (cmp_i64 (dmn_id (ns ! a)) (dmn_id (ns ! b)))"

definition cmp_node_by_qn :: "CBMDumpNode list \<Rightarrow> nat \<Rightarrow> nat \<Rightarrow> int" where
  "cmp_node_by_qn ns a b = first_of (strcmp (dmn_qn (ns ! a)) (dmn_qn (ns ! b))) (cmp_i64 (dmn_id (ns ! a)) (dmn_id (ns ! b)))"

definition cmp_edge_by_source_type :: "CBMDumpEdge list \<Rightarrow> nat \<Rightarrow> nat \<Rightarrow> int" where
  "cmp_edge_by_source_type es a b =
     first_of (cmp_i64 (dme_source (es ! a)) (dme_source (es ! b)))
       (first_of (strcmp (dme_type (es ! a)) (dme_type (es ! b))) (cmp_i64 (dme_id (es ! a)) (dme_id (es ! b))))"

definition cmp_edge_by_target_type :: "CBMDumpEdge list \<Rightarrow> nat \<Rightarrow> nat \<Rightarrow> int" where
  "cmp_edge_by_target_type es a b =
     first_of (cmp_i64 (dme_target (es ! a)) (dme_target (es ! b)))
       (first_of (strcmp (dme_type (es ! a)) (dme_type (es ! b))) (cmp_i64 (dme_id (es ! a)) (dme_id (es ! b))))"

definition cmp_edge_by_type :: "CBMDumpEdge list \<Rightarrow> nat \<Rightarrow> nat \<Rightarrow> int" where
  "cmp_edge_by_type es a b = first_of (strcmp (dme_type (es ! a)) (dme_type (es ! b))) (cmp_i64 (dme_id (es ! a)) (dme_id (es ! b)))"

definition cmp_edge_by_proj_target_type :: "CBMDumpEdge list \<Rightarrow> nat \<Rightarrow> nat \<Rightarrow> int" where
  "cmp_edge_by_proj_target_type es a b =
     first_of (cmp_i64 (dme_target (es ! a)) (dme_target (es ! b)))
       (first_of (strcmp (dme_type (es ! a)) (dme_type (es ! b))) (cmp_i64 (dme_id (es ! a)) (dme_id (es ! b))))"

definition cmp_edge_by_proj_source_type :: "CBMDumpEdge list \<Rightarrow> nat \<Rightarrow> nat \<Rightarrow> int" where
  "cmp_edge_by_proj_source_type es a b =
     first_of (cmp_i64 (dme_source (es ! a)) (dme_source (es ! b)))
       (first_of (strcmp (dme_type (es ! a)) (dme_type (es ! b))) (cmp_i64 (dme_id (es ! a)) (dme_id (es ! b))))"

definition cmp_edge_by_url_path :: "CBMDumpEdge list \<Rightarrow> nat \<Rightarrow> nat \<Rightarrow> int" where
  "cmp_edge_by_url_path es a b =
     (let ua = dme_url_path (es ! a); ub = dme_url_path (es ! b); ids = cmp_i64 (dme_id (es ! a)) (dme_id (es ! b))
      in if ua = [] \<and> ub = [] then ids else if ua = [] then -1 else if ub = [] then 1 else first_of (strcmp ua ub) ids)"

definition cmp_edge_by_src_tgt_type :: "CBMDumpEdge list \<Rightarrow> nat \<Rightarrow> nat \<Rightarrow> int" where
  "cmp_edge_by_src_tgt_type es a b =
     first_of (cmp_i64 (dme_source (es ! a)) (dme_source (es ! b)))
       (first_of (cmp_i64 (dme_target (es ! a)) (dme_target (es ! b)))
         (first_of (strcmp (dme_type (es ! a)) (dme_type (es ! b))) (cmp_i64 (dme_id (es ! a)) (dme_id (es ! b)))))"

type_synonym sorter = "(nat \<Rightarrow> nat \<Rightarrow> int) \<Rightarrow> nat list \<Rightarrow> nat list"

definition make_sorted_perm :: "sorter \<Rightarrow> nat \<Rightarrow> (nat \<Rightarrow> nat \<Rightarrow> int) \<Rightarrow> nat list" where
  "make_sorted_perm qsort n cmp = qsort cmp [0..<n]"

definition parallel_sort_indexes :: "sorter \<Rightarrow> nat \<Rightarrow> (nat \<Rightarrow> nat \<Rightarrow> int) list \<Rightarrow> nat list option list" where
  \<comment> \<open>the jobs do not share data; a job over no rows is not started\<close>
  "parallel_sort_indexes qsort count jobs = map (\<lambda>cmp. if count > 0 then Some (make_sorted_perm qsort count cmp) else None) jobs"

definition ecell_source :: "CBMDumpEdge \<Rightarrow> u8 list" where
  "ecell_source e = build_index_entry_int_text_rowid (dme_source e) (Some (dme_type e)) (dme_id e)"

definition ecell_target :: "CBMDumpEdge \<Rightarrow> u8 list" where
  "ecell_target e = build_index_entry_int_text_rowid (dme_target e) (Some (dme_type e)) (dme_id e)"

definition ecell_type :: "CBMDumpEdge \<Rightarrow> u8 list" where
  "ecell_type e = build_index_entry_2text_rowid (Some (dme_project e)) (Some (dme_type e)) (dme_id e)"

definition ecell_proj_target_type :: "CBMDumpEdge \<Rightarrow> u8 list" where
  "ecell_proj_target_type e = build_index_entry_text_int_text_rowid (Some (dme_project e)) (dme_target e) (Some (dme_type e)) (dme_id e)"

definition ecell_proj_source_type :: "CBMDumpEdge \<Rightarrow> u8 list" where
  "ecell_proj_source_type e = build_index_entry_text_int_text_rowid (Some (dme_project e)) (dme_source e) (Some (dme_type e)) (dme_id e)"

definition ecell_src_tgt_type :: "CBMDumpEdge \<Rightarrow> u8 list" where
  "ecell_src_tgt_type e = build_index_entry_unique_2int_text_rowid (dme_source e) (dme_target e) (Some (dme_type e)) (dme_id e)"

definition ecell_url_path :: "CBMDumpEdge \<Rightarrow> u8 list" where
  "ecell_url_path e =
     (let r = rec_add_text rec_init (Some (dme_project e));
          r = (if dme_url_path e \<noteq> [] then rec_add_text r (Some (dme_url_path e)) else rec_add_null r)
      in index_cell (rec_add_int r (dme_id e)))"

definition build_edge_index_sorted :: "FILE \<Rightarrow> nat \<Rightarrow> CBMDumpEdge list \<Rightarrow> nat list option \<Rightarrow> (CBMDumpEdge \<Rightarrow> u8 list) \<Rightarrow> FILE \<times> nat \<times> nat \<times> bool" where
  "build_edge_index_sorted fp next_page edges perm cell_fn =
     (if edges = [] then write_index_btree fp next_page []
      else case perm of
        None \<Rightarrow> (fp, next_page, 0, False)
      | Some perm \<Rightarrow> write_index_btree fp next_page (map (\<lambda>si. cell_fn (edges ! si)) perm))"

definition build_node_index_sorted :: "FILE \<Rightarrow> nat \<Rightarrow> CBMDumpNode list \<Rightarrow> nat list option \<Rightarrow> (CBMDumpNode \<Rightarrow> string) \<Rightarrow> FILE \<times> nat \<times> nat \<times> bool" where
  "build_node_index_sorted fp next_page nodes perm col_fn =
     (if nodes = [] then write_index_btree fp next_page []
      else case perm of
        None \<Rightarrow> (fp, next_page, 0, False)
      | Some perm \<Rightarrow>
          write_index_btree fp next_page
            (map (\<lambda>si. build_index_entry_2text_rowid (Some (dmn_project (nodes ! si))) (Some (col_fn (nodes ! si))) (dmn_id (nodes ! si))) perm))"

section \<open>The schema page\<close>

record MasterEntry =
  me_type :: string
  me_name :: string
  me_tbl_name :: string
  me_rootpage :: nat
  me_sql :: cstr

definition build_master_record :: "MasterEntry \<Rightarrow> u8 list" where
  "build_master_record e =
     (let r = rec_add_text rec_init (Some (me_type e));
          r = rec_add_text r (Some (me_name e));
          r = rec_add_text r (Some (me_tbl_name e));
          r = rec_add_int r (int (me_rootpage e));
          r = (case me_sql e of Some q \<Rightarrow> rec_add_text r (Some q) | None \<Rightarrow> rec_add_null r)
      in rec_finalize r)"

definition write_sqlite_file_header :: "mem \<Rightarrow> nat \<Rightarrow> mem" where
  "write_sqlite_file_header page1 total_pages =
     store_bytes page1 0
       (text_bytes ''SQLite format 3'' @ [0] @ put_u16 1 @ [1, 1, 0, 64, 32, 32] @ put_u32 1 @ put_u32 total_pages @ put_u32 0 @ put_u32 0 @
        put_u32 1 @ put_u32 4 @ put_u32 0 @ put_u32 0 @ put_u32 1 @ put_u32 0 @ put_u32 0 @ put_u32 0 @ replicate 20 0 @ put_u32 1 @
        put_u32 3046000)"

fun master_cells :: "mem \<Rightarrow> nat \<Rightarrow> nat \<Rightarrow> nat \<Rightarrow> (int \<times> u8 list) list \<Rightarrow> (mem \<times> nat \<times> nat) option" where
  \<comment> \<open>page, start of the cells, end of the pointers and number of cells so far; \<open>None\<close> when a cell does not fit\<close>
  "master_cells page1 content_off ptr_off mcell_count [] = Some (page1, content_off, mcell_count)"
| "master_cells page1 content_off ptr_off mcell_count ((rowid, payload) # rows) =
     (let cell = build_table_cell rowid payload
      in if int (length cell) > int content_off - int ptr_off - int CELL_PTR_SIZE then None
         else let content_off = content_off - length cell
              in master_cells (store_bytes (store_bytes page1 content_off cell) ptr_off (put_u16 content_off))
                   content_off (ptr_off + CELL_PTR_SIZE) (mcell_count + 1) rows)"

definition write_master_page1 :: "FILE \<Rightarrow> MasterEntry list \<Rightarrow> nat \<Rightarrow> int \<times> FILE" where
  "write_master_page1 fp master next_page =
     (let rows = zip (map int [1..<Suc (length master)]) (map build_master_record master);
          page1 = store_bytes (\<lambda>_. 0) SQLITE_HEADER_SIZE [BTREE_LEAF_TABLE]
      in case master_cells page1 CBM_PAGE_SIZE (SQLITE_HEADER_SIZE + BTREE_HEADER_SIZE) 0 rows of
           None \<Rightarrow> (ERR_MASTER_OVERFLOW, fp)
         | Some (page1, content_off, mcell_count) \<Rightarrow>
             (let page1 = page_header page1 SQLITE_HEADER_SIZE BTREE_LEAF_TABLE mcell_count content_off;
                  page1 = write_sqlite_file_header page1 (next_page - 1)
              in (0, fwrite_at fp 0 CBM_PAGE_SIZE page1)))"

definition pad_file_to_page_boundary :: "FILE \<Rightarrow> nat \<Rightarrow> FILE" where
  "pad_file_to_page_boundary fp next_page =
     (let expected_size = (next_page - 1) * CBM_PAGE_SIZE
      in if f_size fp < expected_size then fwrite_at fp (expected_size - 1) 1 (\<lambda>_. 0) else fp)"

section \<open>The whole file\<close>

record write_db_ctx_t =
  wc_fp :: FILE
  wc_next_page :: nat
  wc_project :: string
  wc_root_path :: string
  wc_indexed_at :: string
  wc_nodes :: "CBMDumpNode list"
  wc_edges :: "CBMDumpEdge list"
  wc_vectors :: "CBMDumpVector list"
  wc_token_vecs :: "CBMDumpTokenVec list"
  wc_ub :: bool

definition in_ctx :: "write_db_ctx_t \<Rightarrow> FILE \<times> nat \<times> nat \<times> bool \<Rightarrow> nat \<times> write_db_ctx_t" where
  \<comment> \<open>a B-tree has been written: its root, and the file and the next page in the context\<close>
  "in_ctx w res = (case res of (fp, next_page, root, ub) \<Rightarrow> (root, w\<lparr>wc_fp := fp, wc_next_page := next_page, wc_ub := (wc_ub w \<or> ub)\<rparr>))"

definition edge_rows :: "CBMDumpEdge list \<Rightarrow> (int \<times> u8 list) list" where
  "edge_rows es = map (\<lambda>e. (dme_id e, build_edge_record e)) es"

definition vector_rows :: "CBMDumpVector list \<Rightarrow> (int \<times> u8 list) list" where
  "vector_rows vs = map (\<lambda>v. (dv_node v, build_vector_record v)) vs"

definition token_vec_rows :: "(u32 \<Rightarrow> int) \<Rightarrow> CBMDumpTokenVec list \<Rightarrow> (int \<times> u8 list) list" where
  "token_vec_rows idf_fixed tvs = map (\<lambda>tv. (int (tv_id tv), build_token_vec_record idf_fixed tv)) tvs"

definition sequence_rows :: "write_db_ctx_t \<Rightarrow> (int \<times> u8 list) list" where
  "sequence_rows w =
     [(1, rec_finalize (rec_add_int (rec_add_text rec_init (Some ''nodes'')) (if wc_nodes w \<noteq> [] then dmn_id (last (wc_nodes w)) else 0))),
      (2, rec_finalize (rec_add_int (rec_add_text rec_init (Some ''edges'')) (if wc_edges w \<noteq> [] then dme_id (last (wc_edges w)) else 0)))]"

record db_roots =
  projects_root :: nat
  autoindex_projects_root :: nat
  file_hashes_root :: nat
  autoindex_file_hashes_root :: nat
  nodes_root :: nat
  autoindex_nodes_root :: nat
  idx_nodes_label_root :: nat
  idx_nodes_name_root :: nat
  idx_nodes_file_root :: nat
  edges_root :: nat
  autoindex_edges_root :: nat
  idx_edges_source_root :: nat
  idx_edges_target_root :: nat
  idx_edges_type_root :: nat
  idx_edges_target_type_root :: nat
  idx_edges_source_type_root :: nat
  idx_edges_url_path_root :: nat
  summaries_root :: nat
  autoindex_summaries_root :: nat
  vectors_root :: nat
  token_vecs_root :: nat
  sqlite_seq_root :: nat

definition nl_tabs :: "nat \<Rightarrow> string" where
  "nl_tabs n = CHR 0x0A # replicate n (CHR 0x09)"

definition entry :: "string \<Rightarrow> string \<Rightarrow> string \<Rightarrow> nat \<Rightarrow> cstr \<Rightarrow> MasterEntry" where
  "entry ty nam tbl root sql = \<lparr>me_type = ty, me_name = nam, me_tbl_name = tbl, me_rootpage = root, me_sql = sql\<rparr>"

definition master_entries :: "db_roots \<Rightarrow> MasterEntry list" where
  "master_entries r =
     [entry ''table'' ''projects'' ''projects'' (projects_root r)
        (Some (''CREATE TABLE projects ('' @ nl_tabs 2 @ ''name TEXT PRIMARY KEY,'' @ nl_tabs 2 @ ''indexed_at TEXT NOT NULL,'' @ 
         nl_tabs 2 @ ''root_path TEXT NOT NULL'' @ nl_tabs 1 @ '')'')),
      entry ''index'' ''sqlite_autoindex_projects_1'' ''projects'' (autoindex_projects_root r) None,
      entry ''table'' ''file_hashes'' ''file_hashes'' (file_hashes_root r)
        (Some (''CREATE TABLE file_hashes ('' @ nl_tabs 2 @ ''project TEXT NOT NULL REFERENCES projects(name) ON DELETE CASCADE,'' @ 
         nl_tabs 2 @ ''rel_path TEXT NOT NULL,'' @ nl_tabs 2 @ ''sha256 TEXT NOT NULL,'' @ nl_tabs 2 @ 
         ''mtime_ns INTEGER NOT NULL DEFAULT 0,'' @ nl_tabs 2 @ ''size INTEGER NOT NULL DEFAULT 0,'' @ nl_tabs 2 @ 
         ''PRIMARY KEY (project, rel_path)'' @ nl_tabs 1 @ '')'')),
      entry ''index'' ''sqlite_autoindex_file_hashes_1'' ''file_hashes'' (autoindex_file_hashes_root r) None,
      entry ''table'' ''nodes'' ''nodes'' (nodes_root r)
        (Some (''CREATE TABLE nodes ('' @ nl_tabs 2 @ ''id INTEGER PRIMARY KEY AUTOINCREMENT,'' @ nl_tabs 2 @ 
         ''project TEXT NOT NULL REFERENCES projects(name) ON DELETE CASCADE,'' @ nl_tabs 2 @ ''label TEXT NOT NULL,'' @ nl_tabs 2 @ 
         ''name TEXT NOT NULL,'' @ nl_tabs 2 @ ''qualified_name TEXT NOT NULL,'' @ nl_tabs 2 @ ''file_path TEXT DEFAULT '' @ 
         [CHR 0x27, CHR 0x27] @ '','' @ nl_tabs 2 @ ''start_line INTEGER DEFAULT 0,'' @ nl_tabs 2 @ ''end_line INTEGER DEFAULT 0,'' @ 
         nl_tabs 2 @ ''properties TEXT DEFAULT '' @ [CHR 0x27] @ ''{}'' @ [CHR 0x27] @ '','' @ nl_tabs 2 @ 
         ''UNIQUE(project, qualified_name)'' @ nl_tabs 1 @ '')'')),
      entry ''index'' ''sqlite_autoindex_nodes_1'' ''nodes'' (autoindex_nodes_root r) None,
      entry ''index'' ''idx_nodes_label'' ''nodes'' (idx_nodes_label_root r) (Some (''CREATE INDEX idx_nodes_label ON nodes(project, label)'')),
      entry ''index'' ''idx_nodes_name'' ''nodes'' (idx_nodes_name_root r) (Some (''CREATE INDEX idx_nodes_name ON nodes(project, name)'')),
      entry ''index'' ''idx_nodes_file'' ''nodes'' (idx_nodes_file_root r) (Some (''CREATE INDEX idx_nodes_file ON nodes(project, file_path)'')),
      entry ''table'' ''edges'' ''edges'' (edges_root r)
        (Some (''CREATE TABLE edges ('' @ nl_tabs 2 @ ''id INTEGER PRIMARY KEY AUTOINCREMENT,'' @ nl_tabs 2 @ 
         ''project TEXT NOT NULL REFERENCES projects(name) ON DELETE CASCADE,'' @ nl_tabs 2 @ 
         ''source_id INTEGER NOT NULL REFERENCES nodes(id) ON DELETE CASCADE,'' @ nl_tabs 2 @ 
         ''target_id INTEGER NOT NULL REFERENCES nodes(id) ON DELETE CASCADE,'' @ nl_tabs 2 @ ''type TEXT NOT NULL,'' @ nl_tabs 2 @ 
         ''properties TEXT DEFAULT '' @ [CHR 0x27] @ ''{}'' @ [CHR 0x27] @ '','' @ nl_tabs 2 @ 
         ''url_path_gen TEXT GENERATED ALWAYS AS (json_extract(properties,'' @ [CHR 0x27] @ ''$.url_path'' @ [CHR 0x27] @ '')),'' @ 
         nl_tabs 2 @ ''UNIQUE(source_id, target_id, type)'' @ nl_tabs 1 @ '')'')),
      entry ''index'' ''sqlite_autoindex_edges_1'' ''edges'' (autoindex_edges_root r) None,
      entry ''index'' ''idx_edges_source'' ''edges'' (idx_edges_source_root r) (Some (''CREATE INDEX idx_edges_source ON edges(source_id, type)'')),
      entry ''index'' ''idx_edges_target'' ''edges'' (idx_edges_target_root r) (Some (''CREATE INDEX idx_edges_target ON edges(target_id, type)'')),
      entry ''index'' ''idx_edges_type'' ''edges'' (idx_edges_type_root r) (Some (''CREATE INDEX idx_edges_type ON edges(project, type)'')),
      entry ''index'' ''idx_edges_target_type'' ''edges'' (idx_edges_target_type_root r) (Some (''CREATE INDEX idx_edges_target_type ON edges(project, target_id, type)'')),
      entry ''index'' ''idx_edges_source_type'' ''edges'' (idx_edges_source_type_root r) (Some (''CREATE INDEX idx_edges_source_type ON edges(project, source_id, type)'')),
      entry ''index'' ''idx_edges_url_path'' ''edges'' (idx_edges_url_path_root r) (Some (''CREATE INDEX idx_edges_url_path ON edges(project, url_path_gen)'')),
      entry ''table'' ''project_summaries'' ''project_summaries'' (summaries_root r)
        (Some (''CREATE TABLE project_summaries ('' @ nl_tabs 3 @ ''project TEXT PRIMARY KEY,'' @ nl_tabs 3 @ ''summary TEXT NOT NULL,'' @ 
         nl_tabs 3 @ ''source_hash TEXT NOT NULL,'' @ nl_tabs 3 @ ''created_at TEXT NOT NULL,'' @ nl_tabs 3 @ 
         ''updated_at TEXT NOT NULL'' @ nl_tabs 2 @ '')'')),
      entry ''index'' ''sqlite_autoindex_project_summaries_1'' ''project_summaries'' (autoindex_summaries_root r) None,
      entry ''table'' ''node_vectors'' ''node_vectors'' (vectors_root r)
        (Some (''CREATE TABLE node_vectors ('' @ nl_tabs 2 @ ''node_id INTEGER PRIMARY KEY,'' @ nl_tabs 2 @ ''project TEXT NOT NULL,'' @ 
         nl_tabs 2 @ ''vector BLOB NOT NULL'' @ nl_tabs 1 @ '')'')),
      entry ''table'' ''token_vectors'' ''token_vectors'' (token_vecs_root r)
        (Some (''CREATE TABLE token_vectors ('' @ nl_tabs 2 @ ''id INTEGER PRIMARY KEY,'' @ nl_tabs 2 @ ''project TEXT NOT NULL,'' @ 
         nl_tabs 2 @ ''token TEXT NOT NULL,'' @ nl_tabs 2 @ ''vector BLOB NOT NULL,'' @ nl_tabs 2 @ ''idf INTEGER NOT NULL'' @ nl_tabs 1 @ 
         '')'')),
      entry ''table'' ''sqlite_sequence'' ''sqlite_sequence'' (sqlite_seq_root r) (Some (''CREATE TABLE sqlite_sequence(name,seq)''))]"

type_synonym btree_step = "FILE \<Rightarrow> nat \<Rightarrow> FILE \<times> nat \<times> nat \<times> bool"

fun run_steps :: "write_db_ctx_t \<Rightarrow> btree_step list \<Rightarrow> nat list \<times> write_db_ctx_t" where
  \<comment> \<open>one B-tree after the other, with their roots\<close>
  "run_steps w [] = ([], w)"
| "run_steps w (s # ss) =
     (case in_ctx w (s (wc_fp w) (wc_next_page w)) of
        (root, w) \<Rightarrow> (case run_steps w ss of (roots, w) \<Rightarrow> (root # roots, w)))"

definition table_step :: "(int \<times> u8 list) list \<Rightarrow> btree_step" where
  "table_step rows fp next_page = write_table_btree fp next_page rows False"

definition write_one_table :: "(int \<times> u8 list) list \<Rightarrow> btree_step" where
  "write_one_table rows fp next_page =
     (if rows = [] then write_table_btree fp next_page [] False
      else pb_finalize_table (add_rows (pb_init fp next_page False) 0 rows) (fst (last rows)))"

definition write_metadata_tables :: "write_db_ctx_t \<Rightarrow> nat list \<times> write_db_ctx_t" where
  "write_metadata_tables w =
     run_steps w [table_step [(1, build_project_record (wc_project w) (wc_indexed_at w) (wc_root_path w))],
                  table_step [], table_step [], table_step (sequence_rows w)]"

definition node_jobs :: "CBMDumpNode list \<Rightarrow> (nat \<Rightarrow> nat \<Rightarrow> int) list" where
  "node_jobs ns = [cmp_node_by_label ns, cmp_node_by_name ns, cmp_node_by_file ns, cmp_node_by_qn ns]"

definition edge_jobs :: "CBMDumpEdge list \<Rightarrow> (nat \<Rightarrow> nat \<Rightarrow> int) list" where
  "edge_jobs es = [cmp_edge_by_source_type es, cmp_edge_by_target_type es, cmp_edge_by_type es, cmp_edge_by_proj_target_type es,
     cmp_edge_by_proj_source_type es, cmp_edge_by_url_path es, cmp_edge_by_src_tgt_type es]"

definition build_node_indexes :: "write_db_ctx_t \<Rightarrow> nat list option list \<Rightarrow> int \<times> nat list \<times> write_db_ctx_t" where
  "build_node_indexes w nsorts =
     (case run_steps w (map (\<lambda>(perm, col) fp next_page. build_node_index_sorted fp next_page (wc_nodes w) perm col)
             (zip nsorts [dmn_label, dmn_name, dmn_file, dmn_qn])) of
        (roots, w) \<Rightarrow> (if wc_nodes w \<noteq> [] \<and> 0 \<in> set roots then ERR_SORT_FAILED else 0, roots, w))"

definition build_edge_indexes :: "write_db_ctx_t \<Rightarrow> nat list option list \<Rightarrow> int \<times> nat list \<times> write_db_ctx_t" where
  "build_edge_indexes w esorts =
     (case run_steps w (map (\<lambda>(perm, cell_fn) fp next_page. build_edge_index_sorted fp next_page (wc_edges w) perm cell_fn)
             (zip esorts [ecell_source, ecell_target, ecell_type, ecell_proj_target_type, ecell_proj_source_type, ecell_url_path,
                          ecell_src_tgt_type])) of
        (roots, w) \<Rightarrow> (if wc_edges w \<noteq> [] \<and> 0 \<in> set roots then ERR_SORT_FAILED else 0, roots, w))"

definition roots_of :: "nat \<Rightarrow> nat list \<Rightarrow> nat list \<Rightarrow> nat list \<Rightarrow> nat list \<Rightarrow> nat list \<Rightarrow> db_roots" where
  "roots_of nodes data meta nidx eidx auto =
     \<lparr>projects_root = meta ! 0, autoindex_projects_root = auto ! 0, file_hashes_root = meta ! 1, autoindex_file_hashes_root = auto ! 1,
      nodes_root = nodes, autoindex_nodes_root = nidx ! 3, idx_nodes_label_root = nidx ! 0, idx_nodes_name_root = nidx ! 1,
      idx_nodes_file_root = nidx ! 2, edges_root = data ! 0, autoindex_edges_root = eidx ! 6, idx_edges_source_root = eidx ! 0,
      idx_edges_target_root = eidx ! 1, idx_edges_type_root = eidx ! 2, idx_edges_target_type_root = eidx ! 3,
      idx_edges_source_type_root = eidx ! 4, idx_edges_url_path_root = eidx ! 5, summaries_root = meta ! 2,
      autoindex_summaries_root = auto ! 2, vectors_root = data ! 1, token_vecs_root = data ! 2, sqlite_seq_root = meta ! 3\<rparr>"

definition write_db_after_nodes :: "(u32 \<Rightarrow> int) \<Rightarrow> sorter \<Rightarrow> write_db_ctx_t \<Rightarrow> nat \<Rightarrow> int \<times> write_db_ctx_t" where
  \<comment> \<open>with the context, the file in it, at the end\<close>
  "write_db_after_nodes idf_fixed qsort w nodes =
     (case run_steps w [write_one_table (edge_rows (wc_edges w)), write_one_table (vector_rows (wc_vectors w)),
                        write_one_table (token_vec_rows idf_fixed (wc_token_vecs w))] of
        (data, w) \<Rightarrow>
          (case write_metadata_tables w of
             (meta, w) \<Rightarrow>
               (case build_node_indexes w (parallel_sort_indexes qsort (length (wc_nodes w)) (node_jobs (wc_nodes w))) of
                  (nrc, nidx, w) \<Rightarrow>
                    (if nrc \<noteq> 0 then (nrc, w)
                     else case build_edge_indexes w (parallel_sort_indexes qsort (length (wc_edges w)) (edge_jobs (wc_edges w))) of
                       (erc, eidx, w) \<Rightarrow>
                         (if erc \<noteq> 0 then (erc, w)
                          else case run_steps w
                                 [\<lambda>fp next_page. write_index_btree fp next_page
                                    [index_cell (rec_add_int (rec_add_text rec_init (Some (wc_project w))) 1)],
                                  \<lambda>fp next_page. write_index_btree fp next_page [],
                                  \<lambda>fp next_page. write_index_btree fp next_page []] of
                            (auto, w) \<Rightarrow>
                              (case write_master_page1 (wc_fp w) (master_entries (roots_of nodes data meta nidx eidx auto)) (wc_next_page w) of
                                 (rc, fp) \<Rightarrow>
                                   (if rc \<noteq> 0 then (rc, w\<lparr>wc_fp := fp\<rparr>)
                                    else (0, w\<lparr>wc_fp := pad_file_to_page_boundary fp (wc_next_page w)\<rparr>))))))))"

section \<open>The streaming writer\<close>

record cbm_db_writer =
  dw_nodes_pb :: PageBuilder  \<comment> \<open>its file is the one of the context\<close>
  dw_next_page :: nat
  dw_last_node_rowid :: int
  dw_node_rows_written :: nat
  dw_err :: int

definition cbm_writer_open :: "bool \<Rightarrow> cbm_db_writer option" where
  \<comment> \<open>whether \<open>fopen\<close> succeeds\<close>
  "cbm_writer_open opened =
     (if \<not> opened then None
      else Some \<lparr>dw_nodes_pb = pb_init empty_file FIRST_DATA_PAGE False, dw_next_page = FIRST_DATA_PAGE, dw_last_node_rowid = 0,
                 dw_node_rows_written = 0, dw_err = 0\<rparr>)"

definition append_node :: "cbm_db_writer \<Rightarrow> CBMDumpNode \<Rightarrow> cbm_db_writer" where
  "append_node w n =
     w\<lparr>dw_nodes_pb := pb_add_table_cell_with_flush (dw_nodes_pb w) (dmn_id n) (build_node_record n) (dw_last_node_rowid w),
       dw_last_node_rowid := dmn_id n, dw_node_rows_written := dw_node_rows_written w + 1\<rparr>"

definition cbm_writer_append_nodes :: "cbm_db_writer option \<Rightarrow> CBMDumpNode list \<Rightarrow> int \<times> cbm_db_writer option" where
  "cbm_writer_append_nodes w nodes =
     (case w of
        None \<Rightarrow> (CBM_NOT_FOUND, None)
      | Some w \<Rightarrow> (if dw_err w \<noteq> 0 then (dw_err w, Some w) else (0, Some (foldl append_node w nodes))))"

definition cbm_writer_finalize :: "(u32 \<Rightarrow> int) \<Rightarrow> sorter \<Rightarrow> cbm_db_writer option \<Rightarrow> string \<Rightarrow> string \<Rightarrow> string \<Rightarrow>
    CBMDumpNode list \<Rightarrow> CBMDumpEdge list \<Rightarrow> CBMDumpVector list \<Rightarrow> CBMDumpTokenVec list \<Rightarrow> int \<times> write_db_ctx_t option" where
  "cbm_writer_finalize idf_fixed qsort w project root_path indexed_at nodes edges vectors token_vecs =
     (case w of
        None \<Rightarrow> (CBM_NOT_FOUND, None)
      | Some w \<Rightarrow>
          (case (if dw_err w \<noteq> 0 then (pb_fp (dw_nodes_pb w), dw_next_page w, 0, pb_ub (dw_nodes_pb w))
                 else if dw_node_rows_written w = 0 then write_table_btree (pb_fp (dw_nodes_pb w)) (dw_next_page w) [] False
                 else pb_finalize_table (dw_nodes_pb w) (dw_last_node_rowid w)) of
             (fp, next_page, root, ub) \<Rightarrow>
               (let wc = \<lparr>wc_fp = fp, wc_next_page = next_page, wc_project = project, wc_root_path = root_path, wc_indexed_at = indexed_at,
                          wc_nodes = nodes, wc_edges = edges, wc_vectors = vectors, wc_token_vecs = token_vecs, wc_ub = ub\<rparr>
                in if dw_err w \<noteq> 0 then (dw_err w, Some wc)
                   else case write_db_after_nodes idf_fixed qsort wc root of (rc, wc) \<Rightarrow> (rc, Some wc))))"

definition cbm_write_db :: "(u32 \<Rightarrow> int) \<Rightarrow> sorter \<Rightarrow> bool \<Rightarrow> string \<Rightarrow> string \<Rightarrow> string \<Rightarrow>
    CBMDumpNode list \<Rightarrow> CBMDumpEdge list \<Rightarrow> CBMDumpVector list \<Rightarrow> CBMDumpTokenVec list \<Rightarrow> int \<times> write_db_ctx_t option" where
  "cbm_write_db idf_fixed qsort opened project root_path indexed_at nodes edges vectors token_vecs =
     (case cbm_writer_open opened of
        None \<Rightarrow> (CBM_NOT_FOUND, None)
      | Some w \<Rightarrow>
          cbm_writer_finalize idf_fixed qsort (snd (cbm_writer_append_nodes (Some w) nodes)) project root_path indexed_at nodes edges vectors token_vecs)"

end
