(* ===== verification/DbFormat.thy ===== *)
theory DbFormat
  imports DbWriter
begin

text \<open>
  What a database file means. The first part reads variable-length integers and records the way the SQLite file
  format describes them and shows that the numbers and records of the writer are read back; integers
  beyond 48 bits are not. The second part reads B-trees: tables and indexes are lists of
  entries, each with the pages it occupies.
\<close>

section \<open>Variable-length integers\<close>

lemma unat_and_7f: "unat (and x 0x7f :: u8) = unat x mod 128"
proof -
  have "and x 0x7f = x mod 128" using take_bit_eq_mask [of 7 x] by (simp add: mask_eq_exp_minus_1 take_bit_eq_mod)
  then show ?thesis by (simp add: unat_mod)
qed

lemma and_80: "and x (0x80 :: u8) = 0 \<longleftrightarrow> unat x < 128"
proof -
  have "and x (2 ^ 7) = 0 \<longleftrightarrow> \<not> bit x 7" by (rule and_exp_eq_0_iff_not_bit)
  moreover have "bit x 7 \<longleftrightarrow> bit (unat x) 7" by (simp add: bit_unsigned_iff)
  moreover have "bit (unat x) 7 \<longleftrightarrow> \<not> unat x < 128"
  proof -
    have "unat x < 256" using unsigned_less [of x] by simp
    then have "unat x div 128 = (if unat x < 128 then 0 else 1)" by auto
    then show ?thesis by (simp add: bit_iff_odd)
  qed
  ultimately show ?thesis by simp
qed

lemma unat_or_80: "b < 128 \<Longrightarrow> unat (or (of_nat b) 0x80 :: u8) = b + 128"
proof -
  assume b: "b < 128"
  then have "and (of_nat b) (0x80 :: u8) = 0" by (simp add: and_80 unat_of_nat)
  then have "or (of_nat b) (0x80 :: u8) = of_nat (b + 128)" by (simp add: disjunctive_add_eq_or [symmetric])
  moreover have "unat (of_nat (b + 128) :: u8) = b + 128" using b by (subst unat_of_nat) simp
  ultimately show ?thesis by metis
qed

lemma varint_tmp_ne [simp]: "varint_tmp v \<noteq> []"
  by (subst varint_tmp.simps) simp

lemma varint_tmp_lt: "b \<in> set (varint_tmp v) \<Longrightarrow> b < 128"
proof (induction v rule: varint_tmp.induct)
  case (1 v)
  then show ?case by (subst (asm) (2) varint_tmp.simps) (auto split: if_splits)
qed

fun of_groups :: "nat list \<Rightarrow> nat" where
  "of_groups [] = 0"
| "of_groups (b # bs) = b + 128 * of_groups bs"

lemma of_groups_tmp: "of_groups (varint_tmp v) = v"
proof (induction v rule: varint_tmp.induct)
  case (1 v)
  then show ?case by (subst varint_tmp.simps) auto
qed

lemma of_groups_append: "of_groups (xs @ ys) = of_groups xs + 128 ^ length xs * of_groups ys"
  by (induction xs) (simp_all add: algebra_simps)

lemma varint_tmp_length: "v < 128 ^ n \<Longrightarrow> 0 < n \<Longrightarrow> length (varint_tmp v) \<le> n"
proof (induction v arbitrary: n rule: varint_tmp.induct)
  case (1 v)
  show ?case
  proof (cases "v > 127")
    case True
    then obtain k where n: "n = Suc k" "0 < k" using 1(2,3) by (cases n; cases "n - 1") auto
    then have "v div 128 < 128 ^ k" using 1(2) by (simp add: less_mult_imp_div_less mult.commute)
    then show ?thesis using 1(1) True n by (subst varint_tmp.simps) simp
  qed (use 1 in \<open>subst varint_tmp.simps, simp\<close>)
qed

lemma varint_len_loop: "varint_len_loop v n = n + length (varint_tmp v) - 1"
proof (induction v n rule: varint_len_loop.induct)
  case (1 v n)
  have "length (varint_tmp w) > 0" for w by simp
  then show ?case using 1 by (subst varint_len_loop.simps, subst varint_tmp.simps) (simp del: length_greater_0_conv)
qed

lemma varint_len: "varint_len v = length (put_varint v)"
proof -
  have "length (varint_tmp w) > 0" for w by simp
  then show ?thesis by (simp add: varint_len_def varint_len_loop put_varint_def Let_def del: length_greater_0_conv)
qed

lemma varint_loop_groups:
  assumes "\<forall>b \<in> set gs. b < 128" "b < 128" "length gs < n" "n \<le> 9" "v * 128 ^ Suc (length gs) + of_groups (b # rev gs) < 2 ^ 64"
    and "\<And>j. j < length gs \<Longrightarrow> buf (i + j) = or (of_nat (gs ! j)) 0x80" "buf (i + length gs) = of_nat b"
  shows "varint_loop buf n i v = (v * 128 ^ Suc (length gs) + of_groups (b # rev gs), i + Suc (length gs))"
  using assms
proof (induction gs arbitrary: n i v)
  case Nil
  then obtain m where "n = Suc m" by (cases n) auto
  then show ?case using Nil by (simp add: unat_and_7f and_80 unat_of_nat Let_def)
next
  case (Cons g gs)
  obtain m where m: "n = Suc m" using Cons.prems(3) by (cases n) auto
  have g: "g < 128" "buf i = or (of_nat g) 0x80" using Cons.prems(1) Cons.prems(6) [of 0] by auto
  let ?v = "v * 128 + g"
  have eq: "?v * 128 ^ Suc (length gs) + of_groups (b # rev gs) = v * 128 ^ Suc (length (g # gs)) + of_groups (b # rev (g # gs))"
    by (simp add: of_groups_append algebra_simps)
  have "?v \<le> ?v * 128 ^ Suc (length gs)" by simp
  then have v: "?v mod 2 ^ 64 = ?v" using Cons.prems(5) eq by (intro mod_less) linarith
  have "varint_loop buf m (Suc i) ?v = (?v * 128 ^ Suc (length gs) + of_groups (b # rev gs), Suc i + Suc (length gs))"
  proof (rule Cons.IH)
    show "?v * 128 ^ Suc (length gs) + of_groups (b # rev gs) < 2 ^ 64" using Cons.prems(5) unfolding eq .
    show "buf (Suc i + j) = or (of_nat (gs ! j)) 0x80" if "j < length gs" for j using Cons.prems(6) [of "Suc j"] that by simp
  qed (use Cons.prems m in auto)
  moreover have "unat (buf i) = g + 128" using unat_or_80 g by simp
  then have "varint_loop buf n i v = varint_loop buf m (Suc i) ?v" using v g(1) by (simp add: m unat_and_7f and_80 Let_def)
  ultimately show ?case unfolding eq by simp
qed

lemma put_varint_groups:
  "v < 2 ^ 64 \<Longrightarrow> put_varint (int v) = map (\<lambda>b. or (of_nat b) 0x80) (rev (tl (varint_tmp v))) @ [of_nat (hd (varint_tmp v))]"
  by (simp add: put_varint_def Let_def mod_pos_pos_trivial)

lemma get_put_varint:
  assumes "v < 2 ^ 56" and "\<And>i. i < length (put_varint (int v)) \<Longrightarrow> buf i = put_varint (int v) ! i"
  shows "get_varint buf = (v, length (put_varint (int v)))"
proof -
  let ?t = "varint_tmp v"
  note v = put_varint_groups [of v, OF order_less_trans [OF assms(1)], simplified]
  have len: "length (tl ?t) < 8" using varint_tmp_length [of v 8] assms(1) by simp
  have t: "of_groups (hd ?t # rev (rev (tl ?t))) = v" using of_groups_tmp [of v] by simp
  have "varint_loop buf 8 0 0 = (0 * 128 ^ Suc (length (rev (tl ?t))) + of_groups (hd ?t # rev (rev (tl ?t))), 0 + Suc (length (rev (tl ?t))))"
  proof (rule varint_loop_groups)
    show "\<forall>b \<in> set (rev (tl ?t)). b < 128" using varint_tmp_lt list.set_sel(2) [OF varint_tmp_ne] by auto
    show "hd ?t < 128" by (rule varint_tmp_lt [of _ v]) simp
    show "buf (0 + j) = or (of_nat (rev (tl ?t) ! j)) 0x80" if "j < length (rev (tl ?t))" for j
      using assms(2) [of j] that by (simp add: v nth_append)
    show "buf (0 + length (rev (tl ?t))) = of_nat (hd ?t)" using assms(2) [of "length (tl ?t)"] by (simp add: v nth_append)
  qed (use len t assms(1) in auto)
  then show ?thesis using t by (simp add: get_varint_def v)
qed

section \<open>Records\<close>

datatype sql_value = SqlNull | SqlInt int | SqlText "u8 list" | SqlBlob "u8 list"

definition be_nat :: "u8 list \<Rightarrow> nat" where
  "be_nat bs = foldl (\<lambda>v b. v * 256 + unat b) 0 bs"

definition be_int :: "u8 list \<Rightarrow> int" where
  \<comment> \<open>two's complement\<close>
  "be_int bs = (let v = int (be_nat bs); n = 256 ^ length bs in if 2 * v < n then v else v - n)"

definition serial_size :: "nat \<Rightarrow> nat" where
  "serial_size st =
     (if st \<le> 4 then st else if st = 5 then 6 else if st \<le> 7 then 8 else if st < 12 then 0 else (st - 12) div 2)"

definition serial_value :: "nat \<Rightarrow> u8 list \<Rightarrow> sql_value option" where
  \<comment> \<open>the types 7, 10 and 11, floating point and internal, do not occur in the files written here\<close>
  "serial_value st bs =
     (if st = 0 then Some SqlNull else if st = 8 then Some (SqlInt 0) else if st = 9 then Some (SqlInt 1)
      else if st \<le> 6 then Some (SqlInt (be_int bs)) else if st < 12 then None
      else Some (if even st then SqlBlob bs else SqlText bs))"

definition list_mem :: "u8 list \<Rightarrow> nat \<Rightarrow> u8" where
  "list_mem bs i = (if i < length bs then bs ! i else 0)"

lemma varint_loop_pos: "i < snd (varint_loop buf n i v)"
  by (induction buf n i v rule: varint_loop.induct) (auto simp: Let_def)

lemma get_varint_pos: "0 < snd (get_varint buf)"
  by (simp add: get_varint_def varint_loop_pos)

function serial_types :: "u8 list \<Rightarrow> nat list" where
  "serial_types bs = (if bs = [] then [] else case get_varint (list_mem bs) of (st, n) \<Rightarrow> st # serial_types (drop n bs))"
  by pat_completeness auto

termination
proof (relation "measure length", goal_cases)
  case (2 bs st n)
  then show ?case using get_varint_pos [of "list_mem bs"] by (simp add: 2(2) [symmetric])
qed simp

declare serial_types.simps [simp del]

fun read_values :: "nat list \<Rightarrow> u8 list \<Rightarrow> sql_value list option" where
  "read_values [] body = Some []"
| "read_values (st # sts) body =
     (if length body < serial_size st then None
      else case serial_value st (take (serial_size st) body) of
        None \<Rightarrow> None
      | Some v \<Rightarrow> map_option (\<lambda>vs. v # vs) (read_values sts (drop (serial_size st) body)))"

definition decode_record :: "u8 list \<Rightarrow> sql_value list option" where
  "decode_record bs =
     (case get_varint (list_mem bs) of
        (hlen, n) \<Rightarrow> (if hlen \<le> length bs then read_values (serial_types (drop n (take hlen bs))) (drop hlen bs) else None))"

definition builds :: "RecordBuilder \<Rightarrow> sql_value list \<Rightarrow> bool" where
  \<comment> \<open>the columns of a record under construction\<close>
  "builds r vs \<longleftrightarrow> (\<exists>sts. serial_types (rec_header r) = sts \<and> length (rec_header r) \<le> 9 * length vs \<and>
     (\<forall>rest. serial_types (rec_header r @ rest) = sts @ serial_types rest) \<and>
     (\<forall>sts' rest. read_values (sts @ sts') (rec_body r @ rest) = map_option (\<lambda>ws. vs @ ws) (read_values sts' rest)))"

lemma list_mem_append: "i < length xs \<Longrightarrow> list_mem (xs @ ys) i = xs ! i"
  by (simp add: list_mem_def nth_append)

lemma put_varint_ne [simp]: "put_varint v \<noteq> []"
  by (simp add: put_varint_def Let_def)

lemma get_varint_list: "v < 2 ^ 56 \<Longrightarrow> get_varint (list_mem (put_varint (int v) @ rest)) = (v, length (put_varint (int v)))"
  by (rule get_put_varint) (simp_all add: list_mem_append)

lemma serial_types_put: "v < 2 ^ 56 \<Longrightarrow> serial_types (put_varint (int v) @ rest) = v # serial_types rest"
  by (subst serial_types.simps) (simp add: get_varint_list)

lemma put_varint_small: "v < 128 \<Longrightarrow> put_varint (int v) = [of_nat v]"
  using put_varint_groups [of v] by (simp add: varint_tmp.simps)

lemma serial_types_0: "serial_types (0 # rest) = 0 # serial_types rest"
  using serial_types_put [of 0 rest] put_varint_small [of 0] by simp

lemma put_varint_length: "v < 2 ^ 56 \<Longrightarrow> length (put_varint (int v)) \<le> 8"
  using varint_tmp_length [of v 8] put_varint_groups [of v] by (simp add: Suc_le_eq)

lemma length_put_int_be [simp]: "length (put_int_be val n) = n"
  by (induction val n rule: put_int_be.induct) auto

lemma be_nat_snoc: "be_nat (bs @ [b]) = be_nat bs * 256 + unat b"
  by (simp add: be_nat_def)

lemma be_nat_put: "int (be_nat (put_int_be val n)) = val mod 256 ^ n"
proof (induction val n rule: put_int_be.induct)
  case (2 val n)
  have "int (unat (of_int val :: u8)) = val mod 256" by (simp add: unat_eq_nat_uint word_of_int_eq_iff uint_word_of_int)
  then show ?case using 2 by (simp add: be_nat_snoc zmod_zmult2_eq)
qed (simp add: be_nat_def)

lemma be_int_put: "- (256 ^ n) \<le> 2 * val \<Longrightarrow> 2 * val < 256 ^ n \<Longrightarrow> be_int (put_int_be val n) = val"
proof -
  assume v: "- (256 ^ n) \<le> 2 * val" "2 * val < 256 ^ n"
  have "val mod 256 ^ n = (if 0 \<le> val then val else val + 256 ^ n)"
  proof (cases "0 \<le> val")
    case False
    have "(val + 256 ^ n) mod 256 ^ n = val + 256 ^ n" by (rule mod_pos_pos_trivial) (use v False in linarith)+
    then show ?thesis using False by simp
  qed (use v in \<open>simp add: mod_pos_pos_trivial\<close>)
  then show ?thesis using v by (auto simp: be_int_def be_nat_put Let_def)
qed

lemma builds_init: "builds rec_init []"
  by (auto simp: builds_def rec_init_def serial_types.simps map_option_case split: option.split)

lemma builds_column:
  assumes "builds r vs" and st: "st < 2 ^ 56" "length bs = serial_size st" "serial_value st bs = Some v"
  shows "builds (r\<lparr>rec_header := rec_header r @ put_varint (int st), rec_body := rec_body r @ bs\<rparr>) (vs @ [v])"
proof -
  obtain sts where r: "length (rec_header r) \<le> 9 * length vs" "\<And>rest. serial_types (rec_header r @ rest) = sts @ serial_types rest"
    "\<And>sts' rest. read_values (sts @ sts') (rec_body r @ rest) = map_option (\<lambda>ws. vs @ ws) (read_values sts' rest)"
    using assms(1) by (auto simp: builds_def)
  have nil: "serial_types [] = []" by (simp add: serial_types.simps)
  have h: "serial_types ((rec_header r @ put_varint (int st)) @ rest) = (sts @ [st]) @ serial_types rest" for rest
    using r(2) serial_types_put [OF st(1)] by simp
  have b: "read_values ((sts @ [st]) @ sts') ((rec_body r @ bs) @ rest) = map_option (\<lambda>ws. (vs @ [v]) @ ws) (read_values sts' rest)" for sts' rest
    using r(3) [of "st # sts'" "bs @ rest"] st(2,3) by (simp add: option.map_comp comp_def)
  have "(\<lambda>ws. vs @ v # ws) = (@) (vs @ [v])" by auto
  then show ?thesis unfolding builds_def
    using h [of "[]"] h b r(1) put_varint_length [OF st(1)] nil by (intro exI [of _ "sts @ [st]"]) simp
qed

lemma builds_null: "builds r vs \<Longrightarrow> builds (rec_add_null r) (vs @ [SqlNull])"
  using builds_column [of r vs 0 "[]" SqlNull] put_varint_small [of 0] by (simp add: rec_add_null_def serial_size_def serial_value_def)

lemma builds_int: "builds r vs \<Longrightarrow> - (2 ^ 47) \<le> v \<Longrightarrow> v < 2 ^ 47 \<Longrightarrow> builds (rec_add_int r v) (vs @ [SqlInt v])"
proof -
  assume "builds r vs" and v: "- (2 ^ 47) \<le> v" "v < 2 ^ 47"
  let ?st = "nat (int_serial_type v)" and ?n = "int_storage_bytes (int_serial_type v)"
  have st: "int ?st = int_serial_type v" "?st < 2 ^ 56" by (auto simp: int_serial_type_def)
  have n: "?n = serial_size ?st" by (simp add: int_storage_bytes_def int_serial_type_def serial_size_def)
  have "v = 0 \<and> int_serial_type v = 8 \<or> v = 1 \<and> int_serial_type v = 9 \<or> -128 \<le> v \<and> v \<le> 127 \<and> int_serial_type v = 1 \<or>
    -32768 \<le> v \<and> v \<le> 32767 \<and> int_serial_type v = 2 \<or> -8388608 \<le> v \<and> v \<le> 8388607 \<and> int_serial_type v = 3 \<or>
    -2147483648 \<le> v \<and> v \<le> 2147483647 \<and> int_serial_type v = 4 \<or> int_serial_type v = 6"
    using v by (auto simp: int_serial_type_def)
  then have "serial_value ?st (put_int_be v ?n) = Some (SqlInt v)"
    using v be_int_put [of 1 v] be_int_put [of 2 v] be_int_put [of 3 v] be_int_put [of 4 v] be_int_put [of 8 v]
    by (elim disjE conjE) (simp_all add: serial_value_def int_storage_bytes_def)
  then show ?thesis using builds_column [OF \<open>builds r vs\<close> st(2) _, of "put_int_be v ?n" "SqlInt v"] st(1) n
    by (simp add: rec_add_int_def Let_def)
qed

lemma length_text_bytes [simp]: "length (text_bytes s) = length s"
  by (simp add: text_bytes_def)

lemma builds_text: "builds r vs \<Longrightarrow> length s < 2 ^ 29 \<Longrightarrow> builds (rec_add_text r (Some s)) (vs @ [SqlText (text_bytes s)])"
proof -
  assume "builds r vs" and len: "length s < 2 ^ 29"
  have "to_int32 (int (length s)) = int (length s)" "to_int32 (int (length s) * 2 + 13) = int (length s) * 2 + 13"
    using len by (auto intro!: to_int32_id)
  moreover have "serial_value (length s * 2 + 13) (text_bytes s) = Some (SqlText (text_bytes s))" by (simp add: serial_value_def)
  ultimately show ?thesis
    using builds_column [OF \<open>builds r vs\<close>, of "length s * 2 + 13" "text_bytes s" "SqlText (text_bytes s)"] len
    by (auto simp: rec_add_text_def text_serial_type_def serial_size_def Let_def text_bytes_def)
qed

lemma builds_blob: "builds r vs \<Longrightarrow> bs \<noteq> [] \<Longrightarrow> length bs < 2 ^ 29 \<Longrightarrow> builds (rec_add_blob r bs) (vs @ [SqlBlob bs])"
  using builds_column [of r vs "length bs * 2 + 12" bs "SqlBlob bs"]
  by (simp add: rec_add_blob_def serial_size_def serial_value_def Let_def)

lemma decode_finalize: "builds r vs \<Longrightarrow> length vs \<le> 13 \<Longrightarrow> decode_record (rec_finalize r) = Some vs"
proof -
  assume "builds r vs" and len: "length vs \<le> 13"
  then obtain sts where r: "length (rec_header r) \<le> 9 * length vs" "serial_types (rec_header r) = sts"
    "read_values (sts @ []) (rec_body r @ []) = map_option (\<lambda>ws. vs @ ws) (read_values [] [])"
    unfolding builds_def by blast
  let ?h = "length (rec_header r)"
  have h: "?h \<le> 117" using r(1) len by simp
  have one: "n < 128 \<Longrightarrow> varint_len (int n) = 1" for n by (simp add: varint_len put_varint_small)
  have "rec_finalize r = put_varint (int (?h + 1)) @ rec_header r @ rec_body r"
    using one [of "?h + 1"] one [of ?h] h by (simp add: rec_finalize_def Let_def add.commute)
  moreover have "get_varint (list_mem (put_varint (int (?h + 1)) @ rec_header r @ rec_body r)) = (?h + 1, 1)"
    using get_varint_list [of "?h + 1"] h put_varint_small [of "?h + 1"] by simp
  ultimately show ?thesis using r put_varint_small [of "?h + 1"] h by (simp add: decode_record_def)
qed

section \<open>Pages\<close>

definition page_at :: "FILE \<Rightarrow> nat \<Rightarrow> mem" where
  "page_at fp pg i = (if i < CBM_PAGE_SIZE then f_byte fp (page_offset pg + i) else 0)"

definition u16_at :: "mem \<Rightarrow> nat \<Rightarrow> nat" where
  "u16_at m i = unat (m i) * 256 + unat (m (i + 1))"

definition u32_at :: "mem \<Rightarrow> nat \<Rightarrow> nat" where
  "u32_at m i = ((unat (m i) * 256 + unat (m (i + 1))) * 256 + unat (m (i + 2))) * 256 + unat (m (i + 3))"

definition bytes_at :: "mem \<Rightarrow> nat \<Rightarrow> nat \<Rightarrow> u8 list" where
  "bytes_at m i n = map m [i..<i + n]"

definition header_offset :: "nat \<Rightarrow> nat" where
  "header_offset pg = (if pg = 1 then 100 else 0)"

definition cell_offsets :: "mem \<Rightarrow> nat \<Rightarrow> nat \<Rightarrow> nat list" where
  \<comment> \<open>with the place of the page header and its length\<close>
  "cell_offsets m hdr len = map (\<lambda>k. u16_at m (hdr + len + 2 * k)) [0..<u16_at m (hdr + 3)]"

section \<open>Payloads\<close>

definition usable :: nat where
  "usable = 65536"

definition local_size :: "nat \<Rightarrow> nat \<Rightarrow> nat" where
  \<comment> \<open>how much of a payload that is longer than the limit stays in the cell\<close>
  "local_size limit plen =
     (let m = (usable - 12) * 32 div 255 - 23; k = m + (plen - m) mod (usable - 4) in if k \<le> limit then k else m)"

definition table_limit :: nat where
  "table_limit = usable - 35"

definition index_limit :: nat where
  "index_limit = (usable - 12) * 64 div 255 - 23"

function read_overflow :: "FILE \<Rightarrow> nat \<Rightarrow> nat \<Rightarrow> nat list \<times> u8 list" where
  \<comment> \<open>the pages of a chain and the given number of bytes from them\<close>
  "read_overflow fp pg n =
     (if n = 0 then ([], [])
      else let m = page_at fp pg; chunk = min n (usable - 4)
           in case read_overflow fp (u32_at m 0) (n - chunk) of (ps, bs) \<Rightarrow> (pg # ps, bytes_at m 4 chunk @ bs))"
  by pat_completeness auto

termination
  by (relation "measure (\<lambda>(fp, pg, n). n)") (auto simp: usable_def)

declare read_overflow.simps [simp del]

definition read_payload :: "FILE \<Rightarrow> nat \<Rightarrow> mem \<Rightarrow> nat \<Rightarrow> nat \<Rightarrow> nat list \<times> u8 list" where
  "read_payload fp limit m p plen =
     (if plen \<le> limit then ([], bytes_at m p plen)
      else let n = local_size limit plen
           in case read_overflow fp (u32_at m (p + n)) (plen - n) of (ps, bs) \<Rightarrow> (ps, bytes_at m p n @ bs))"

definition shift_mem :: "mem \<Rightarrow> nat \<Rightarrow> mem" where
  "shift_mem m p i = m (p + i)"

definition signed64 :: "nat \<Rightarrow> int" where
  "signed64 v = (if v < 2 ^ 63 then int v else int v - 2 ^ 64)"

definition table_cell :: "FILE \<Rightarrow> mem \<Rightarrow> nat \<Rightarrow> nat list \<times> (int \<times> u8 list)" where
  "table_cell fp m p =
     (case get_varint (shift_mem m p) of
        (plen, k) \<Rightarrow>
          (case get_varint (shift_mem m (p + k)) of
             (rowid, k') \<Rightarrow>
               (case read_payload fp table_limit m (p + k + k') plen of (ps, bs) \<Rightarrow> (ps, (signed64 rowid, bs)))))"

definition index_entry :: "FILE \<Rightarrow> mem \<Rightarrow> nat \<Rightarrow> nat list \<times> u8 list" where
  "index_entry fp m p = (case get_varint (shift_mem m p) of (plen, k) \<Rightarrow> read_payload fp index_limit m (p + k) plen)"

section \<open>B-trees\<close>

fun join_results :: "(nat list \<times> 'a list) option list \<Rightarrow> (nat list \<times> 'a list) option" where
  "join_results [] = Some ([], [])"
| "join_results (None # rs) = None"
| "join_results (Some (ps, es) # rs) = map_option (\<lambda>(ps', es'). (ps @ ps', es @ es')) (join_results rs)"

fun read_tree :: "u8 \<Rightarrow> u8 \<Rightarrow> (FILE \<Rightarrow> mem \<Rightarrow> nat \<Rightarrow> nat list \<times> 'a) \<Rightarrow> (FILE \<Rightarrow> mem \<Rightarrow> nat \<Rightarrow> nat list \<times> 'a list) \<Rightarrow>
    FILE \<Rightarrow> nat \<Rightarrow> nat \<Rightarrow> (nat list \<times> 'a list) option" where
  \<comment> \<open>the flags of leaf and interior pages, the entry in a cell of a leaf, the entries in a cell of an interior page, the file,
     a bound on the depth and the root; the result is the list of pages and the list of entries, in the order of the tree\<close>
  "read_tree lf nf leaf_cell inner_cell fp 0 pg = None"
| "read_tree lf nf leaf_cell inner_cell fp (Suc d) pg =
     (let m = page_at fp pg; hdr = header_offset pg in
      if m hdr = lf
      then map_option (\<lambda>(ps, es). (pg # ps, es))
             (join_results (map (\<lambda>p. case leaf_cell fp m p of (ps, e) \<Rightarrow> Some (ps, [e])) (cell_offsets m hdr 8)))
      else if m hdr = nf
      then map_option (\<lambda>(ps, es). (pg # ps, es))
             (join_results (concat (map (\<lambda>p. [read_tree lf nf leaf_cell inner_cell fp d (u32_at m p), Some (inner_cell fp m p)])
                (cell_offsets m hdr 12)) @ [read_tree lf nf leaf_cell inner_cell fp d (u32_at m (hdr + 8))]))
      else None)"

definition read_table :: "FILE \<Rightarrow> nat \<Rightarrow> nat \<Rightarrow> (nat list \<times> (int \<times> u8 list) list) option" where
  "read_table = read_tree 0x0D 0x05 table_cell (\<lambda>fp m p. ([], []))"

definition read_index :: "FILE \<Rightarrow> nat \<Rightarrow> nat \<Rightarrow> (nat list \<times> u8 list list) option" where
  "read_index = read_tree 0x0A 0x02 index_entry (\<lambda>fp m p. case index_entry fp m (p + 4) of (ps, e) \<Rightarrow> (ps, [e]))"

fun seek_table :: "FILE \<Rightarrow> nat \<Rightarrow> nat \<Rightarrow> int \<Rightarrow> u8 list option" where
  \<comment> \<open>the search for a row: into the left child of the first key that is not smaller\<close>
  "seek_table fp 0 pg x = None"
| "seek_table fp (Suc d) pg x =
     (let m = page_at fp pg; hdr = header_offset pg in
      if m hdr = 0x0D then map_of (map (\<lambda>p. snd (table_cell fp m p)) (cell_offsets m hdr 8)) x
      else if m hdr = 0x05
      then seek_table fp d
             (case find (\<lambda>p. x \<le> signed64 (fst (get_varint (shift_mem m (p + 4))))) (cell_offsets m hdr 12) of
                Some p \<Rightarrow> u32_at m p
              | None \<Rightarrow> u32_at m (hdr + 8)) x
      else None)"

end
