(* ===== verification/DbPages.thy ===== *)
theory DbPages
  imports DbFormat "HOL-Library.Multiset"
begin

text \<open>
  The pages that the writer puts into the file. A B-tree in a file is described by a value of type \<open>btree\<close>, with the page
  and the cells of each node, and \<open>tree_stored\<close> says that the pages of the file are those of the tree. The lemmas follow
  the page builder: cells are added to a page without disturbing the others, a flushed leaf is a
  stored tree, and the levels above the leaves turn a list of trees into one.
\<close>

section \<open>Memory\<close>

lemma PAGE [simp]: "CBM_PAGE_SIZE = 65536"
  by (simp add: CBM_PAGE_SIZE_def)

lemmas layout = BTREE_HEADER_SIZE_def BTREE_INTERIOR_HDR_def BTREE_PTR_SIZE_def CELL_PTR_SIZE_def

lemma length_puts [simp]: "length (put_u16 v) = 2" "length (put_u32 v) = 4"
  by (simp_all add: put_u16_def put_u32_def Let_def)

lemma bytes_at_same: "i < off \<or> off + length bs \<le> i \<Longrightarrow> store_bytes m off bs i = m i"
  by (auto simp: store_bytes_def)

lemma bytes_at_cong: "(\<And>j. i \<le> j \<Longrightarrow> j < i + n \<Longrightarrow> m j = m' j) \<Longrightarrow> bytes_at m i n = bytes_at m' i n"
  by (simp add: bytes_at_def)

lemma bytes_at_store: "bytes_at (store_bytes m off bs) off (length bs) = bs"
  by (rule nth_equalityI) (simp_all add: bytes_at_def store_bytes_def)

lemma bytes_at_disjoint: "i + n \<le> off \<or> off + length bs \<le> i \<Longrightarrow> bytes_at (store_bytes m off bs) i n = bytes_at m i n"
  by (rule bytes_at_cong) (auto simp: store_bytes_def)

lemma u16_bytes: "bytes_at m i 2 = put_u16 v \<Longrightarrow> v < 2 ^ 16 \<Longrightarrow> u16_at m i = v"
  by (auto simp: bytes_at_def upt_rec put_u16_def u16_at_def Let_def unat_of_nat)

lemma u32_bytes: "bytes_at m i 4 = put_u32 v \<Longrightarrow> v < 2 ^ 32 \<Longrightarrow> u32_at m i = v"
proof -
  assume "bytes_at m i 4 = put_u32 v" "v < 2 ^ 32"
  moreover have "[i..<i + 4] = [i, i + 1, i + 2, i + 3]" by (simp add: upt_rec)
  ultimately have "unat (m i) = v div 2 ^ 24 mod 256" "unat (m (i + 1)) = v div 2 ^ 16 mod 256" "unat (m (i + 2)) = v div 2 ^ 8 mod 256"
    "unat (m (i + 3)) = v mod 256"
    by (auto simp: bytes_at_def put_u32_def Let_def unat_of_nat)
  moreover have "v div 2 ^ 24 mod 256 = v div 256 div 256 div 256" "v div 2 ^ 16 = v div 256 div 256"
    using \<open>v < 2 ^ 32\<close> by (simp_all add: div_mult2_eq [symmetric])
  ultimately have "u32_at m i = ((v div 256 div 256 div 256 * 256 + v div 256 div 256 mod 256) * 256 + v div 256 mod 256) * 256 + v mod 256"
    by (simp add: u32_at_def)
  then show ?thesis by (simp only: div_mult_mod_eq)
qed

lemma u16_cong: "m i = m' i \<Longrightarrow> m (i + 1) = m' (i + 1) \<Longrightarrow> u16_at m i = u16_at m' i"
  by (simp add: u16_at_def)

lemma page_at_write: "0 < p \<Longrightarrow> 0 < q \<Longrightarrow> page_at (write_page fp p m) q = (if q = p then (\<lambda>i. if i < 65536 then m i else 0) else page_at fp q)"
proof -
  assume "0 < p" "0 < q"
  obtain p' q' where p: "p = Suc p'" "q = Suc q'" using \<open>0 < p\<close> \<open>0 < q\<close> by (cases p; cases q) auto
  have "q' * 65536 + i < p' * 65536 \<or> p' * 65536 + 65536 \<le> q' * 65536 + i" if "q' \<noteq> p'" "i < 65536" for i
    using that by (cases "q' < p'") auto
  then show ?thesis unfolding p by (intro ext) (auto simp: page_at_def write_page_def fwrite_at_def page_offset_def)
qed

section \<open>Cells on a page\<close>

definition cells_size :: "u8 list list \<Rightarrow> nat" where
  "cells_size cells = sum_list (map length cells)"

lemma size_simps [simp]: "cells_size [] = 0" "cells_size (c # cs) = length c + cells_size cs" "cells_size (cs @ ds) = cells_size cs + cells_size ds"
  by (simp_all add: cells_size_def)

definition offs :: "u8 list list \<Rightarrow> nat \<Rightarrow> nat" where
  "offs cells k = 65536 - cells_size (take (Suc k) cells)"

definition holds :: "mem \<Rightarrow> nat \<Rightarrow> u8 list list \<Rightarrow> bool" where
  \<comment> \<open>the pointers start at the given place and the cells grow from the end of the page\<close>
  "holds m p0 cells \<longleftrightarrow> p0 + 2 * length cells + cells_size cells \<le> 65536 \<and> [] \<notin> set cells \<and>
     (\<forall>k < length cells. bytes_at m (p0 + 2 * k) 2 = put_u16 (offs cells k) \<and>
                         bytes_at m (offs cells k) (length (cells ! k)) = cells ! k)"

lemma size_take_le: "cells_size (take k cells) \<le> cells_size cells"
  by (metis append_take_drop_id le_add1 size_simps(3))

lemma offs_bounds:
  assumes "holds m p0 cells" "k < length cells"
  shows "p0 + 2 * length cells \<le> offs cells k" "offs cells k + length (cells ! k) \<le> 65536" "offs cells k < 65536"
    "65536 - cells_size cells \<le> offs cells k"
proof -
  have t: "cells_size (take (Suc k) cells) = cells_size (take k cells) + length (cells ! k)" using assms(2) by (simp add: take_Suc_conv_app_nth)
  have le: "cells_size (take (Suc k) cells) \<le> cells_size cells" by (rule size_take_le)
  have "cells ! k \<noteq> []" using assms(1) nth_mem [OF assms(2)] unfolding holds_def by metis
  then show "p0 + 2 * length cells \<le> offs cells k" "offs cells k + length (cells ! k) \<le> 65536" "offs cells k < 65536"
    "65536 - cells_size cells \<le> offs cells k"
    using assms(1) t le by (auto simp: holds_def offs_def)
qed

lemma holds_cong:
  assumes "holds m p0 cells" "\<And>i. p0 \<le> i \<Longrightarrow> i < p0 + 2 * length cells \<or> 65536 - cells_size cells \<le> i \<and> i < 65536 \<Longrightarrow> m' i = m i"
  shows "holds m' p0 cells"
proof -
  have "bytes_at m' (p0 + 2 * k) 2 = bytes_at m (p0 + 2 * k) 2"
    "bytes_at m' (offs cells k) (length (cells ! k)) = bytes_at m (offs cells k) (length (cells ! k))" if "k < length cells" for k
    using that offs_bounds [OF assms(1) that] by (auto intro!: bytes_at_cong assms(2))
  then show ?thesis using assms(1) by (simp add: holds_def)
qed

lemma holds_snoc:
  assumes "holds m p0 cells" "c \<noteq> []" "p0 + 2 * length cells + 2 + cells_size cells + length c \<le> 65536"
  shows "holds (store_bytes (store_bytes m (65536 - cells_size cells - length c) c) (p0 + 2 * length cells) (put_u16 (65536 - cells_size cells - length c)))
    p0 (cells @ [c])"
proof -
  let ?co = "65536 - cells_size cells - length c" and ?po = "p0 + 2 * length cells"
  let ?m = "store_bytes (store_bytes m ?co c) ?po (put_u16 ?co)"
  have old: "holds ?m p0 cells" using assms by (intro holds_cong [OF assms(1)]) (auto simp: store_bytes_def)
  have "?po + length (put_u16 ?co) \<le> ?co" using assms(3) by simp
  then have "bytes_at ?m ?co (length c) = c" using bytes_at_disjoint [of ?co "length c" ?po] by (simp add: bytes_at_store)
  moreover have "bytes_at ?m ?po 2 = put_u16 ?co" using bytes_at_store [of _ ?po "put_u16 ?co"] by simp
  moreover have "offs (cells @ [c]) (length cells) = ?co" by (simp add: offs_def)
  moreover have "offs (cells @ [c]) k = offs cells k" if "k < length cells" for k using that by (simp add: offs_def)
  ultimately show ?thesis using old assms by (auto simp: holds_def nth_append less_Suc_eq)
qed

lemma holds_butlast: "holds m p0 (cells @ [c]) \<Longrightarrow> holds m p0 cells"
proof -
  assume h: "holds m p0 (cells @ [c])"
  have "offs (cells @ [c]) k = offs cells k" if "k < length cells" for k using that by (simp add: offs_def)
  then show ?thesis using h by (auto simp: holds_def nth_append less_Suc_eq split: if_splits)
qed

lemma holds_Nil: "p0 \<le> 65536 \<Longrightarrow> holds m p0 []"
  by (simp add: holds_def)

section \<open>Trees in a file\<close>

datatype btree = BLeaf nat "u8 list list" | BNode nat "(btree \<times> u8 list) list" btree

fun root :: "btree \<Rightarrow> nat" where
  "root (BLeaf pg cells) = pg"
| "root (BNode pg cs r) = pg"

fun tree_pages :: "btree \<Rightarrow> nat list" where
  "tree_pages (BLeaf pg cells) = [pg]"
| "tree_pages (BNode pg cs r) = pg # concat (map (\<lambda>(t, k). tree_pages t) cs) @ tree_pages r"

definition page_cells :: "mem \<Rightarrow> nat \<Rightarrow> u8 \<Rightarrow> nat \<Rightarrow> u8 list list \<Rightarrow> bool" where
  "page_cells m hdr flag len cells \<longleftrightarrow> m hdr = flag \<and> bytes_at m (hdr + 3) 2 = put_u16 (length cells) \<and> holds m (hdr + len) cells"

fun tree_stored :: "bool \<Rightarrow> FILE \<Rightarrow> btree \<Rightarrow> bool" where
  "tree_stored ix fp (BLeaf pg cells) \<longleftrightarrow> 1 < pg \<and> pg < 2 ^ 32 \<and> page_cells (page_at fp pg) 0 (if ix then 0x0A else 0x0D) 8 cells"
| "tree_stored ix fp (BNode pg cs r) \<longleftrightarrow> 1 < pg \<and> pg < 2 ^ 32 \<and>
     page_cells (page_at fp pg) 0 (if ix then 0x02 else 0x05) 12 (map (\<lambda>(t, k). put_u32 (root t) @ k) cs) \<and>
     bytes_at (page_at fp pg) 8 4 = put_u32 (root r) \<and> (\<forall>tk \<in> set cs. tree_stored ix fp (fst tk)) \<and> tree_stored ix fp r"

lemma root_pages: "root t \<in> set (tree_pages t)"
  by (cases t) auto

lemma tree_stored_root: "tree_stored ix fp t \<Longrightarrow> 1 < root t \<and> root t < 2 ^ 32"
  by (cases t) auto

lemma tree_stored_frame: "tree_stored ix fp t \<Longrightarrow> (\<And>p. p \<in> set (tree_pages t) \<Longrightarrow> page_at fp' p = page_at fp p) \<Longrightarrow> tree_stored ix fp' t"
proof (induction t)
  case (BNode pg cs r)
  have "tree_stored ix fp' (fst tk)" if "tk \<in> set cs" for tk
  proof (rule BNode.IH(1) [OF that])
    show "fst tk \<in> Basic_BNFs.fsts tk" by (cases tk) simp
    show "tree_stored ix fp (fst tk)" using BNode.prems(1) that by simp
    show "page_at fp' p = page_at fp p" if "p \<in> set (tree_pages (fst tk))" for p
      using BNode.prems(2) [of p] that \<open>tk \<in> set cs\<close> by (cases tk) force
  qed
  moreover have "tree_stored ix fp' r" using BNode by auto
  ultimately show ?case using BNode.prems by auto
qed auto

lemma page_cells_header:
  assumes "holds m (hdr + len) cells" "8 \<le> len" "co = 65536 - cells_size cells"
  shows "page_cells (page_header m hdr flag (length cells) co) hdr flag len cells"
proof -
  let ?h = "flag # put_u16 0 @ put_u16 (length cells) @ put_u16 co @ [0]"
  have h: "length ?h = 8" by simp
  have "holds (store_bytes m hdr ?h) (hdr + len) cells"
    by (rule holds_cong [OF assms(1)]) (use assms(2) in \<open>auto simp: store_bytes_def\<close>)
  moreover have "bytes_at (store_bytes m hdr ?h) (hdr + 3) 2 = put_u16 (length cells)"
    by (simp add: bytes_at_def store_bytes_def upt_rec put_u16_def Let_def nth_append)
  moreover have "store_bytes m hdr ?h hdr = flag" by (simp add: store_bytes_def)
  ultimately show ?thesis by (simp add: page_cells_def page_header_def)
qed

lemma page_cells_cong:
  assumes "page_cells m hdr flag len cells" "hdr + 8 \<le> 65536" "\<And>i. hdr \<le> i \<Longrightarrow> i < 65536 \<Longrightarrow> m' i = m i"
  shows "page_cells m' hdr flag len cells"
proof -
  have "bytes_at m' (hdr + 3) 2 = bytes_at m (hdr + 3) 2" by (rule bytes_at_cong) (use assms(2,3) in auto)
  moreover have h: "holds m (hdr + len) cells" using assms(1) by (simp add: page_cells_def)
  then have "hdr + len + 2 * length cells \<le> 65536" by (simp add: holds_def)
  then have "holds m' (hdr + len) cells" by (intro holds_cong [OF h]) (auto intro!: assms(3) simp: le_diff_conv)
  ultimately show ?thesis using assms by (simp add: page_cells_def)
qed

section \<open>Allocation of pages\<close>

definition alloc :: "nat \<Rightarrow> nat \<Rightarrow> nat list \<Rightarrow> bool" where
  \<comment> \<open>the pages in a range are used once, with the possible exception of the reserved one\<close>
  "alloc lo hi ps \<longleftrightarrow> distinct ps \<and> set ps \<subseteq> {lo..<hi} \<and> {lo..<hi} \<subseteq> insert CBM_PENDING_BYTE_PAGE (set ps)"

lemma alloc_Nil: "alloc lo lo []"
  by (simp add: alloc_def)

lemma alloc_mset: "mset ps = mset qs \<Longrightarrow> alloc lo hi ps \<Longrightarrow> alloc lo hi qs"
  by (metis alloc_def mset_eq_imp_distinct_iff mset_eq_setD)

lemma skip_bounds: "n \<le> cbm_skip_pending_byte n" "cbm_skip_pending_byte n \<le> Suc n" "n < cbm_skip_pending_byte n \<Longrightarrow> n = CBM_PENDING_BYTE_PAGE"
  by (auto simp: cbm_skip_pending_byte_def split: if_splits)

lemma alloc_snoc:
  assumes "alloc lo hi ps" "lo \<le> hi"
  shows "alloc lo (Suc (cbm_skip_pending_byte hi)) (ps @ [cbm_skip_pending_byte hi])"
proof -
  let ?n = "cbm_skip_pending_byte hi"
  have "x \<in> insert CBM_PENDING_BYTE_PAGE (insert ?n (set ps))" if "lo \<le> x" "x < Suc ?n" for x
    using assms(1) that skip_bounds [of hi] by (cases "x < hi") (auto simp: alloc_def dest!: subsetD)
  then have "{lo..<Suc ?n} \<subseteq> insert CBM_PENDING_BYTE_PAGE (insert ?n (set ps))" by (meson atLeastLessThan_iff subsetI)
  moreover have "?n \<notin> set ps" using assms(1) skip_bounds(1) [of hi] by (auto simp: alloc_def)
  moreover have "lo \<le> ?n" using assms(2) skip_bounds(1) [of hi] by simp
  moreover have "set ps \<subseteq> {lo..<Suc ?n}" using assms(1) skip_bounds(1) [of hi] by (force simp: alloc_def)
  ultimately show ?thesis using assms(1) by (simp add: alloc_def insert_commute)
qed

lemma alloc_append: "alloc lo mid ps \<Longrightarrow> alloc mid hi qs \<Longrightarrow> lo \<le> mid \<Longrightarrow> mid \<le> hi \<Longrightarrow> alloc lo hi (ps @ qs)"
  unfolding alloc_def by (auto simp: subset_iff) (meson not_le)+

lemma alloc_upt: "alloc lo hi [lo..<hi]"
  by (auto simp: alloc_def)

definition keeps :: "FILE \<Rightarrow> FILE \<Rightarrow> nat \<Rightarrow> bool" where
  \<comment> \<open>the pages of a file below a number do not change, the first one apart\<close>
  "keeps fp fp' hi \<longleftrightarrow> (\<forall>q. 1 < q \<longrightarrow> q < hi \<longrightarrow> page_at fp' q = page_at fp q)"

lemma keeps_refl [simp]: "keeps fp fp hi"
  by (simp add: keeps_def)

lemma keeps_trans: "keeps fp fp' hi \<Longrightarrow> keeps fp' fp'' hi' \<Longrightarrow> hi \<le> hi' \<Longrightarrow> keeps fp fp'' hi"
  by (simp add: keeps_def)

lemma keeps_write: "hi \<le> p \<Longrightarrow> 0 < p \<Longrightarrow> keeps fp (write_page fp p m) hi"
  by (simp add: keeps_def page_at_write)

lemma tree_stored_keeps: "tree_stored ix fp t \<Longrightarrow> keeps fp fp' hi \<Longrightarrow> set (tree_pages t) \<subseteq> {2..<hi} \<Longrightarrow> tree_stored ix fp' t"
  by (erule tree_stored_frame) (auto simp: keeps_def subset_iff)

section \<open>The page builder\<close>

type_synonym part = "btree \<times> int \<times> u8 list"  \<comment> \<open>a finished page with its key and its separator\<close>

definition ref_of :: "part \<Rightarrow> PageRef" where
  "ref_of l = \<lparr>page_num = root (fst l), max_key = fst (snd l), sep_cell = snd (snd l)\<rparr>"

definition parts_pages :: "part list \<Rightarrow> nat list" where
  "parts_pages ls = concat (map (\<lambda>l. tree_pages (fst l)) ls)"

lemma parts_pages_simps [simp]: "parts_pages [] = []" "parts_pages (l # ls) = tree_pages (fst l) @ parts_pages ls"
  "parts_pages (ls @ ls') = parts_pages ls @ parts_pages ls'"
  by (simp_all add: parts_pages_def)

definition parts_ok :: "bool \<Rightarrow> FILE \<Rightarrow> nat \<Rightarrow> part list \<Rightarrow> bool" where
  "parts_ok ix fp hi ls \<longleftrightarrow> (\<forall>l \<in> set ls. tree_stored ix fp (fst l) \<and> set (tree_pages (fst l)) \<subseteq> {2..<hi})"

lemma parts_ok_keeps: "parts_ok ix fp hi ls \<Longrightarrow> keeps fp fp' hi \<Longrightarrow> hi \<le> hi' \<Longrightarrow> parts_ok ix fp' hi' ls"
  by (force simp: parts_ok_def dest: tree_stored_keeps)

definition pb_rel :: "bool \<Rightarrow> nat \<Rightarrow> PageBuilder \<Rightarrow> part list \<Rightarrow> nat list \<Rightarrow> u8 list list \<Rightarrow> bool" where
  \<comment> \<open>a builder started at page \<open>lo\<close>, with its finished leaves, the overflow pages and the cells of the current page\<close>
  "pb_rel ix lo pb ls us cur \<longleftrightarrow>
     pb_is_index pb = ix \<and> pb_page1_offset pb = 0 \<and> pb_cell_count pb = length cur \<and> pb_content_offset pb = 65536 - cells_size cur \<and>
     pb_ptr_offset pb = 8 + 2 * length cur \<and> holds (pb_page pb) 8 cur \<and> \<not> pb_ub pb \<and> pb_leaves pb = map ref_of ls \<and>
     parts_ok ix (pb_fp pb) (pb_next_page pb) ls \<and> 2 \<le> lo \<and> lo \<le> pb_next_page pb \<and> alloc lo (pb_next_page pb) (parts_pages ls @ us)"

lemma pb_rel_init: "2 \<le> lo \<Longrightarrow> pb_rel ix lo (pb_init fp lo ix) [] [] []"
  by (simp add: pb_rel_def pb_init_def Let_def layout holds_Nil parts_ok_def alloc_Nil)

lemma pb_rel_add:
  assumes "pb_rel ix lo pb ls us cur" "pb_cell_fits pb (length c)" "c \<noteq> []"
  shows "pb_rel ix lo (pb_add_cell pb c) ls us (cur @ [c])"
proof -
  have fits: "8 + 2 * length cur + 2 + cells_size cur + length c \<le> 65536"
    using assms(1,2) by (auto simp: pb_rel_def pb_cell_fits_def layout holds_def)
  have "holds (pb_page (pb_add_cell pb c)) 8 (cur @ [c])"
    using holds_snoc [of "pb_page pb" 8 cur c] assms(1,3) fits by (simp add: pb_rel_def pb_add_cell_def Let_def)
  then show ?thesis using assms(1) fits by (simp add: pb_rel_def pb_add_cell_def Let_def layout)
qed

lemma pb_rel_flush:
  assumes "pb_rel ix lo pb ls us cur" "cur \<noteq> []" "cbm_skip_pending_byte (pb_next_page pb) < 2 ^ 32"
  shows "pb_rel ix lo (pb_flush_leaf pb key sep) (ls @ [(BLeaf (cbm_skip_pending_byte (pb_next_page pb)) cur, key, sep)]) us []"
    and "keeps (pb_fp pb) (pb_fp (pb_flush_leaf pb key sep)) (pb_next_page pb)"
proof -
  let ?n = "cbm_skip_pending_byte (pb_next_page pb)" and ?flag = "if ix then 0x0A else 0x0D :: u8"
  note r = assms(1) [unfolded pb_rel_def]
  let ?m = "page_header (pb_page pb) 0 ?flag (length cur) (65536 - cells_size cur)"
  let ?fp = "write_page (pb_fp pb) ?n ?m"
  have n: "pb_next_page pb \<le> ?n" "1 < ?n" using r skip_bounds(1) [of "pb_next_page pb"] by auto
  have fl: "pb_flush_leaf pb key sep = pb\<lparr>pb_fp := ?fp, pb_leaves := pb_leaves pb @ [\<lparr>page_num = ?n, max_key = key, sep_cell = sep\<rparr>],
      pb_next_page := ?n + 1, pb_cell_count := 0, pb_content_offset := 65536, pb_page1_offset := 0, pb_ptr_offset := 8, pb_page := (\<lambda>_. 0)\<rparr>"
    using r assms(2) by (simp add: pb_flush_leaf_def Let_def BTREE_LEAF_INDEX_def BTREE_LEAF_TABLE_def layout)
  have k: "keeps (pb_fp pb) ?fp (pb_next_page pb)" using n by (intro keeps_write) auto
  then show "keeps (pb_fp pb) (pb_fp (pb_flush_leaf pb key sep)) (pb_next_page pb)" by (simp add: fl)
  have "page_cells ?m 0 ?flag 8 cur" using page_cells_header [of "pb_page pb" 0 8 cur] r by simp
  then have "page_cells (page_at ?fp ?n) 0 ?flag 8 cur" by (rule page_cells_cong) (use n in \<open>auto simp: page_at_write\<close>)
  then have "parts_ok ix ?fp (Suc ?n) [(BLeaf ?n cur, key, sep)]" using n assms(3) by (simp add: parts_ok_def)
  moreover have "parts_ok ix ?fp (Suc ?n) ls" by (rule parts_ok_keeps [OF _ k]) (use r n in auto)
  moreover have "alloc lo (Suc ?n) ((parts_pages ls @ us) @ [?n])" by (rule alloc_snoc) (use r in auto)
  then have "alloc lo (Suc ?n) (parts_pages ls @ [?n] @ us)" by (rule alloc_mset [rotated]) simp
  ultimately show "pb_rel ix lo (pb_flush_leaf pb key sep) (ls @ [(BLeaf ?n cur, key, sep)]) us []"
    using r n unfolding pb_rel_def by (simp add: fl ref_of_def holds_Nil parts_ok_def ball_Un)
qed

lemma pb_rel_file:
  assumes "pb_rel ix lo pb ls us cur" "keeps (pb_fp pb) fp (pb_next_page pb)" "pb_next_page pb \<le> n" "alloc (pb_next_page pb) n vs"
  shows "pb_rel ix lo (pb\<lparr>pb_fp := fp, pb_next_page := n\<rparr>) ls (us @ vs) cur"
  using assms alloc_append [of lo "pb_next_page pb" "parts_pages ls @ us" n vs] parts_ok_keeps [of ix "pb_fp pb" "pb_next_page pb" ls fp n]
  by (simp add: pb_rel_def)

section \<open>Interior pages\<close>

definition key_part :: "bool \<Rightarrow> part \<Rightarrow> u8 list" where
  "key_part ix l = (if ix then snd (snd l) else put_varint (fst (snd l)))"

definition inner_cell :: "bool \<Rightarrow> part \<Rightarrow> u8 list" where
  "inner_cell ix l = put_u32 (root (fst l)) @ key_part ix l"

lemma build_interior_cell_ref: "build_interior_cell (ref_of l) ix = inner_cell ix l"
  by (simp add: build_interior_cell_def inner_cell_def key_part_def ref_of_def)

definition short_keys :: "bool \<Rightarrow> part list \<Rightarrow> bool" where
  "short_keys ix ls \<longleftrightarrow> (\<forall>l \<in> set ls. length (key_part ix l) \<le> 60000)"

definition ip_rel :: "interior_page \<Rightarrow> u8 list list \<Rightarrow> bool" where
  "ip_rel ip cells \<longleftrightarrow> ip_cell_count ip = length cells \<and> ip_content_offset ip = 65536 - cells_size cells \<and>
     ip_ptr_offset ip = 12 + 2 * length cells \<and> holds (ip_page ip) 12 cells \<and> \<not> ip_ub ip"

lemma ip_rel_empty: "ip_rel empty_interior []"
  by (simp add: ip_rel_def empty_interior_def layout holds_Nil)

lemma fill_spec:
  assumes "ip_rel ip cells" "short_keys ix ls"
  shows "\<exists>taken rest ip'. fill_interior_page ix (map ref_of ls) ip = (map ref_of rest, ip') \<and> ls = taken @ rest \<and>
    (ls \<noteq> [] \<longrightarrow> rest \<noteq> []) \<and> ip_rel ip' (cells @ map (inner_cell ix) taken)"
  using assms
proof (induction ls arbitrary: ip cells)
  case (Cons l ls)
  show ?case
  proof (cases ls)
    case Nil
    then show ?thesis using Cons.prems by (intro exI [of _ "[]"] exI [of _ "[l]"] exI [of _ ip]) simp
  next
    case (Cons l' ls')
    let ?c = "inner_cell ix l"
    let ?fits = "12 + 2 * length cells + 2 + cells_size cells + length ?c \<le> 65536"
    have h: "holds (ip_page ip) 12 cells" "12 + 2 * length cells + cells_size cells \<le> 65536" using Cons.prems(1) by (auto simp: ip_rel_def holds_def)
    have fits: "\<not> int (length ?c) > int (ip_content_offset ip) - int (ip_ptr_offset ip) - int CELL_PTR_SIZE \<longleftrightarrow> ?fits"
      using Cons.prems(1) h(2) by (auto simp: ip_rel_def layout)
    show ?thesis
    proof (cases ?fits)
      case True
      let ?co = "65536 - cells_size cells - length ?c"
      let ?ip = "\<lparr>ip_page = store_bytes (store_bytes (ip_page ip) ?co ?c) (12 + 2 * length cells) (put_u16 ?co), ip_cell_count = Suc (length cells),
        ip_content_offset = ?co, ip_ptr_offset = 12 + 2 * length cells + 2, ip_ub = False\<rparr>"
      have "(65536 - cells_size cells < length ?c) = False" using True by simp
      then have step: "fill_interior_page ix (map ref_of (l # ls)) ip = fill_interior_page ix (map ref_of ls) ?ip"
        using Cons.prems(1) fits True h(2) by (simp add: \<open>ls = l' # ls'\<close> build_interior_cell_ref Let_def ip_rel_def layout)
      have c: "?c \<noteq> []" by (simp add: inner_cell_def put_u32_def Let_def)
      have "ip_rel ?ip (cells @ [?c])" using holds_snoc [OF h(1) c True] by (simp add: ip_rel_def)
      moreover have "short_keys ix ls" using Cons.prems(2) by (simp add: short_keys_def)
      ultimately have ih: "\<exists>taken rest ip'. fill_interior_page ix (map ref_of ls) ?ip = (map ref_of rest, ip') \<and> ls = taken @ rest \<and>
        (ls \<noteq> [] \<longrightarrow> rest \<noteq> []) \<and> ip_rel ip' ((cells @ [?c]) @ map (inner_cell ix) taken)"
        by (rule Cons.IH)
      define ip2 where "ip2 = ?ip"
      obtain taken rest ip' where ls: "fill_interior_page ix (map ref_of ls) ip2 = (map ref_of rest, ip')" "ls = taken @ rest"
        "ls \<noteq> [] \<longrightarrow> rest \<noteq> []" "ip_rel ip' ((cells @ [?c]) @ map (inner_cell ix) taken)"
        using ih [folded ip2_def] by (elim exE conjE)
      have "rest \<noteq> []" using ls(3) \<open>ls = l' # ls'\<close> by simp
      then show ?thesis using ls unfolding step [folded ip2_def] by (intro exI [of _ "l # taken"] exI [of _ rest] exI [of _ ip']) simp
    next
      case False
      have "cells \<noteq> []"
      proof
        assume "cells = []"
        then show False using False Cons.prems(2) by (simp add: inner_cell_def short_keys_def)
      qed
      then have "fill_interior_page ix (map ref_of (l # ls)) ip = (map ref_of (l # ls), ip)"
        using Cons.prems(1) fits False by (simp add: \<open>ls = l' # ls'\<close> build_interior_cell_ref Let_def ip_rel_def)
      then show ?thesis using Cons.prems(1) by (intro exI [of _ "[]"] exI [of _ "l # ls"] exI [of _ ip]) simp
    qed
  qed
qed auto

definition parent_of :: "bool \<Rightarrow> nat \<Rightarrow> part list \<Rightarrow> part" where
  \<comment> \<open>the page above a group of pages; the key and the separator of the last one go up\<close>
  "parent_of ix pn g = (BNode pn (map (\<lambda>l. (fst l, key_part ix l)) (butlast g)) (fst (last g)), fst (snd (last g)),
     if ix then snd (snd (last g)) else [])"

lemma parent_of_pages: "g \<noteq> [] \<Longrightarrow> tree_pages (fst (parent_of ix pn g)) = pn # parts_pages g"
  by (cases g rule: rev_cases) (simp_all add: parent_of_def parts_pages_def comp_def)

lemma write_interior_spec:
  assumes "parts_ok ix (pb_fp pb) (pb_next_page pb) g" "ip_rel ip (map (inner_cell ix) (butlast g))" "g \<noteq> []" "2 \<le> pb_next_page pb"
    and "cbm_skip_pending_byte (pb_next_page pb) < 2 ^ 32"
  defines "pn \<equiv> cbm_skip_pending_byte (pb_next_page pb)"
  shows "\<exists>fp. write_interior_page pb ix ip (ref_of (last g)) = (ref_of (parent_of ix pn g), pb\<lparr>pb_fp := fp, pb_next_page := Suc pn\<rparr>) \<and>
    keeps (pb_fp pb) fp (pb_next_page pb) \<and> parts_ok ix fp (Suc pn) [parent_of ix pn g]"
proof -
  let ?flag = "if ix then 0x02 else 0x05 :: u8" and ?cells = "map (inner_cell ix) (butlast g)"
  let ?h = "page_header (ip_page ip) 0 ?flag (length ?cells) (65536 - cells_size ?cells)"
  let ?m = "store_bytes ?h 8 (put_u32 (root (fst (last g))))"
  let ?fp = "write_page (pb_fp pb) pn ?m"
  have pn: "pb_next_page pb \<le> pn" "1 < pn" using assms(4) skip_bounds(1) [of "pb_next_page pb"] by (auto simp: pn_def)
  have k: "keeps (pb_fp pb) ?fp (pb_next_page pb)" using pn by (intro keeps_write) auto
  have kids: "parts_ok ix ?fp (Suc pn) g" by (rule parts_ok_keeps [OF assms(1) k]) (use pn in simp)
  have h: "page_cells ?h 0 ?flag 12 ?cells" using page_cells_header [of "ip_page ip" 0 12 ?cells] assms(2) by (simp add: ip_rel_def)
  then have "holds ?h 12 ?cells" by (simp add: page_cells_def)
  then have "holds ?m 12 ?cells" by (rule holds_cong) (auto simp: store_bytes_def le_diff_conv holds_def)
  then have "page_cells ?m 0 ?flag 12 ?cells" using h by (simp add: page_cells_def bytes_at_same bytes_at_disjoint)
  then have "page_cells (page_at ?fp pn) 0 ?flag 12 ?cells" by (rule page_cells_cong) (use pn in \<open>auto simp: page_at_write\<close>)
  moreover have "bytes_at (page_at ?fp pn) 8 4 = put_u32 (root (fst (last g)))"
  proof -
    have "bytes_at (page_at ?fp pn) 8 4 = bytes_at ?m 8 4" by (rule bytes_at_cong) (use pn in \<open>auto simp: page_at_write\<close>)
    then show ?thesis using bytes_at_store [of ?h 8 "put_u32 (root (fst (last g)))"] by simp
  qed
  ultimately have "tree_stored ix ?fp (fst (parent_of ix pn g))"
    using kids pn assms(3,5) in_set_butlastD [of _ g]
    by (auto simp: parent_of_def parts_ok_def inner_cell_def [abs_def] comp_def pn_def [symmetric])
  then have "parts_ok ix ?fp (Suc pn) [parent_of ix pn g]"
    using kids pn assms(3) by (auto simp: parts_ok_def parent_of_pages parts_pages_def)
  moreover have "write_interior_page pb ix ip (ref_of (last g)) = (ref_of (parent_of ix pn g), pb\<lparr>pb_fp := ?fp, pb_next_page := Suc pn\<rparr>)"
    using assms(2) by (simp add: write_interior_page_def Let_def pn_def [symmetric] ip_rel_def ref_of_def parent_of_def INTERIOR_INDEX_FLAG_def
        INTERIOR_TABLE_FLAG_def layout)
  ultimately show ?thesis using k by blast
qed

definition above :: "bool \<Rightarrow> part list \<Rightarrow> nat list \<Rightarrow> part list \<Rightarrow> bool" where
  \<comment> \<open>a list of pages and the level over it\<close>
  "above ix ls pns ps \<longleftrightarrow> (\<exists>gs. ls = concat gs \<and> [] \<notin> set gs \<and> length pns = length gs \<and> ps = map2 (parent_of ix) pns gs)"

lemma above_Nil: "above ix [] [] []"
  by (auto simp: above_def intro: exI [of _ "[]"])

lemma above_Cons: "above ix ls pns ps \<Longrightarrow> g \<noteq> [] \<Longrightarrow> above ix (g @ ls) (pn # pns) (parent_of ix pn g # ps)"
  unfolding above_def by (elim exE) (rule_tac x = "g # gs" in exI, simp)

lemma above_replaces:
  assumes "above ix ls pns ps" "Q ls" and step: "\<And>xs g ys pn. g \<noteq> [] \<Longrightarrow> Q (xs @ g @ ys) \<Longrightarrow> Q (xs @ parent_of ix pn g # ys)"
  shows "Q ps"
proof -
  have "Q (xs @ map2 (parent_of ix) pns gs)" if "length pns = length gs" "[] \<notin> set gs" "Q (xs @ concat gs)" for xs gs pns
    using that
  proof (induction pns gs arbitrary: xs rule: list_induct2)
    case (Cons pn pns g gs)
    then have "Q (xs @ parent_of ix pn g # concat gs)" by (intro step) auto
    then show ?case using Cons.IH [of "xs @ [parent_of ix pn g]"] Cons.prems(1) by simp
  qed simp
  from this [of _ _ "[]"] show ?thesis using assms(1,2) by (auto simp: above_def)
qed

lemma above_pages:
  assumes "above ix ls pns ps"
  shows "mset (parts_pages ps) = mset (pns @ parts_pages ls)"
proof -
  have "mset (parts_pages (map2 (parent_of ix) pns gs)) = mset (pns @ parts_pages (concat gs))" if "length pns = length gs" "[] \<notin> set gs" for gs
    using that by (induction pns gs rule: list_induct2) (auto simp: parent_of_pages)
  then show ?thesis using assms by (auto simp: above_def)
qed

lemma above_length: "above ix ls pns ps \<Longrightarrow> ls \<noteq> [] \<Longrightarrow> ps \<noteq> []"
  by (auto simp: above_def)

lemma write_interior_mono: "pb_next_page pb \<le> pb_next_page (snd (write_interior_page pb ix ip r))"
  using skip_bounds(1) [of "pb_next_page pb"] by (simp add: write_interior_page_def Let_def)

lemma interior_level_mono: "pb_next_page pb \<le> pb_next_page (snd (interior_level pb ix cs))"
proof (induction pb ix cs rule: interior_level.induct)
  case (1 pb ix cs)
  show ?case
  proof (cases "cs = []")
    case False
    obtain rest ip where f: "fill_interior_page ix cs empty_interior = (rest, ip)" by fastforce
    obtain parent pb' where w: "write_interior_page pb ix ip (hd rest) = (parent, pb')" by fastforce
    have "pb_next_page pb \<le> pb_next_page pb'" using write_interior_mono [of pb ix ip "hd rest"] w by simp
    also have "\<dots> \<le> pb_next_page (snd (interior_level pb' ix (tl rest)))" using 1 False f w by simp
    finally show ?thesis using False f w by (simp add: interior_level_step)
  qed (simp add: interior_level.simps)
qed

definition wrote :: "bool \<Rightarrow> PageBuilder \<Rightarrow> FILE \<Rightarrow> nat \<Rightarrow> nat list \<Rightarrow> part list \<Rightarrow> bool" where
  \<comment> \<open>pages have been written behind those of the builder, and the given trees are in the file\<close>
  "wrote ix pb fp n pns ps \<longleftrightarrow> keeps (pb_fp pb) fp (pb_next_page pb) \<and> pb_next_page pb \<le> n \<and> alloc (pb_next_page pb) n pns \<and> parts_ok ix fp n ps"

lemma interior_level_spec:
  assumes "parts_ok ix (pb_fp pb) (pb_next_page pb) ls" "short_keys ix ls" "2 \<le> pb_next_page pb"
    and "pb_next_page (snd (interior_level pb ix (map ref_of ls))) \<le> 2 ^ 32"
  shows "\<exists>ps fp n pns. interior_level pb ix (map ref_of ls) = (map ref_of ps, pb\<lparr>pb_fp := fp, pb_next_page := n\<rparr>) \<and>
    wrote ix pb fp n pns ps \<and> above ix ls pns ps"
  using assms
proof (induction "length ls" arbitrary: pb ls rule: less_induct)
  case less
  show ?case
  proof (cases "ls = []")
    case True
    then show ?thesis using less.prems(1)
      by (intro exI [of _ "[]"] exI [of _ "pb_fp pb"] exI [of _ "pb_next_page pb"]) (simp add: interior_level.simps above_Nil wrote_def alloc_Nil)
  next
    case False
    obtain taken rest ip where f: "fill_interior_page ix (map ref_of ls) empty_interior = (map ref_of rest, ip)" "ls = taken @ rest"
      "ls \<noteq> [] \<longrightarrow> rest \<noteq> []" "ip_rel ip ([] @ map (inner_cell ix) taken)"
      using fill_spec [OF ip_rel_empty less.prems(2)] by (elim exE conjE)
    note f = f(1,2) mp [OF f(3) False] f(4) [simplified]
    let ?g = "taken @ [hd rest]" and ?pn = "cbm_skip_pending_byte (pb_next_page pb)"
    have ls: "ls = ?g @ tl rest" using f by simp
    have hd: "hd (map ref_of rest) = ref_of (last ?g)" "tl (map ref_of rest) = map ref_of (tl rest)" using f(3) by (simp_all add: hd_map map_tl)
    have g_ok: "parts_ok ix (pb_fp pb) (pb_next_page pb) ?g" "parts_ok ix (pb_fp pb) (pb_next_page pb) (tl rest)"
      using less.prems(1) by (simp_all add: ls parts_ok_def)
    obtain parent pb' where w: "write_interior_page pb ix ip (ref_of (last ?g)) = (parent, pb')" by fastforce
    have step: "interior_level pb ix (map ref_of ls) =
        (parent # fst (interior_level pb' ix (map ref_of (tl rest))), snd (interior_level pb' ix (map ref_of (tl rest))))"
      using interior_level_step [of "map ref_of ls"] f(1) w hd False by simp
    have "pb_next_page pb' = Suc ?pn" using w by (auto simp: write_interior_page_def Let_def)
    then have small: "?pn < 2 ^ 32" "pb_next_page (snd (interior_level pb' ix (map ref_of (tl rest)))) \<le> 2 ^ 32"
      using less.prems(4) interior_level_mono [of pb' ix "map ref_of (tl rest)"] by (simp_all add: step)
    obtain fp where fp: "parent = ref_of (parent_of ix ?pn ?g)" "pb' = pb\<lparr>pb_fp := fp, pb_next_page := Suc ?pn\<rparr>" "keeps (pb_fp pb) fp (pb_next_page pb)"
      "parts_ok ix fp (Suc ?pn) [parent_of ix ?pn ?g]"
      using write_interior_spec [OF g_ok(1), of ip] f(4) less.prems(3) small(1) w by auto
    have rest_ok: "parts_ok ix (pb_fp pb') (pb_next_page pb') (tl rest)"
      using parts_ok_keeps [OF g_ok(2) fp(3), of "Suc ?pn"] skip_bounds(1) [of "pb_next_page pb"] fp(2) by simp
    have "length (tl rest) < length ls" using f by (cases rest) auto
    from less.hyps [OF this rest_ok] obtain ps fp' n pns where
      ih: "interior_level pb' ix (map ref_of (tl rest)) = (map ref_of ps, pb'\<lparr>pb_fp := fp', pb_next_page := n\<rparr>)" "wrote ix pb' fp' n pns ps"
        "above ix (tl rest) pns ps"
      using less.prems(2,3) small(2) skip_bounds(1) [of "pb_next_page pb"] by (force simp: fp(2) short_keys_def ls)
    have "above ix ls (?pn # pns) (parent_of ix ?pn ?g # ps)" using above_Cons [OF ih(3), of ?g ?pn] ls by simp
    moreover have "wrote ix pb fp' n (?pn # pns) (parent_of ix ?pn ?g # ps)"
    proof -
      have k: "keeps fp fp' (Suc ?pn)" "Suc ?pn \<le> n" "alloc (Suc ?pn) n pns" "parts_ok ix fp' n ps" using ih(2) by (simp_all add: wrote_def fp(2))
      have "alloc (pb_next_page pb) n ([?pn] @ pns)"
        using alloc_append [OF alloc_snoc [OF alloc_Nil order_refl, of "pb_next_page pb", simplified] k(3)] k(2) skip_bounds(1) [of "pb_next_page pb"] by simp
      moreover have "parts_ok ix fp' n [parent_of ix ?pn ?g]" by (rule parts_ok_keeps [OF fp(4) k(1,2)])
      moreover have "keeps (pb_fp pb) fp' (pb_next_page pb)" by (rule keeps_trans [OF fp(3) k(1)]) (use skip_bounds(1) [of "pb_next_page pb"] in simp)
      ultimately show ?thesis using k skip_bounds(1) [of "pb_next_page pb"] by (simp add: wrote_def parts_ok_def)
    qed
    moreover have "interior_level pb ix (map ref_of ls) = (map ref_of (parent_of ix ?pn ?g # ps), pb\<lparr>pb_fp := fp', pb_next_page := n\<rparr>)"
      by (simp add: step ih(1) fp(1)) (simp add: fp(2))
    ultimately show ?thesis by blast
  qed
qed

section \<open>The levels of a tree\<close>

fun tree_cells :: "bool \<Rightarrow> btree \<Rightarrow> u8 list list" where
  \<comment> \<open>the cells with data: in an index the interior pages have some, too\<close>
  "tree_cells ix (BLeaf pg cells) = cells"
| "tree_cells ix (BNode pg cs r) = concat (map (\<lambda>(t, k). tree_cells ix t @ (if ix then [k] else [])) cs) @ tree_cells ix r"

fun height :: "btree \<Rightarrow> nat" where
  "height (BLeaf pg cells) = 1"
| "height (BNode pg cs r) = Suc (max (Max (insert 0 (set (map (\<lambda>(t, k). height t) cs)))) (height r))"

definition full :: "bool \<Rightarrow> part list \<Rightarrow> u8 list list" where
  "full ix ls = concat (map (\<lambda>l. tree_cells ix (fst l) @ (if ix then [snd (snd l)] else [])) ls)"

lemma full_simps [simp]: "full ix [] = []" "full ix (l # ls) = tree_cells ix (fst l) @ (if ix then [snd (snd l)] else []) @ full ix ls"
  "full ix (ls @ ls') = full ix ls @ full ix ls'"
  by (simp_all add: full_def)

lemma full_node: "g \<noteq> [] \<Longrightarrow> full ix [parent_of ix pn g] = full ix g"
  by (cases g rule: rev_cases) (auto simp: parent_of_def full_def key_part_def comp_def)

lemma above_full: "above ix ls pns ps \<Longrightarrow> full ix ps = full ix ls"
proof (erule above_replaces [where Q = "\<lambda>xs. full ix xs = full ix ls"])
  fix xs g ys pn assume "g \<noteq> []" "full ix (xs @ g @ ys) = full ix ls"
  moreover from \<open>g \<noteq> []\<close> have "full ix (xs @ [parent_of ix pn g] @ ys) = full ix (xs @ g @ ys)" by (simp only: full_node [OF \<open>g \<noteq> []\<close>] full_simps(3))
  ultimately show "full ix (xs @ parent_of ix pn g # ys) = full ix ls" by simp
qed simp

lemma height_node: "g \<noteq> [] \<Longrightarrow> \<forall>l \<in> set g. height (fst l) \<le> h \<Longrightarrow> height (fst (parent_of ix pn g)) \<le> Suc h"
  by (cases g rule: rev_cases) (auto simp: parent_of_def)

lemma above_height: "above ix ls pns ps \<Longrightarrow> \<forall>l \<in> set ls. height (fst l) \<le> h \<Longrightarrow> \<forall>l \<in> set ps. height (fst l) \<le> Suc h"
proof
  fix l assume "above ix ls pns ps" "\<forall>l \<in> set ls. height (fst l) \<le> h" "l \<in> set ps"
  then obtain gs where gs: "ls = concat gs" "[] \<notin> set gs" "l \<in> set (map2 (parent_of ix) pns gs)" by (auto simp: above_def)
  then obtain pn g where "(pn, g) \<in> set (zip pns gs)" "l = parent_of ix pn g" by auto
  then have g: "ls = concat gs" "[] \<notin> set gs" "g \<in> set gs" "l = parent_of ix pn g" using gs set_zip_rightD by fast+
  then have "g \<noteq> []" "set g \<subseteq> set ls" by auto
  then show "height (fst l) \<le> Suc h" unfolding g(4) by (intro height_node) (use \<open>\<forall>l \<in> set ls. height (fst l) \<le> h\<close> in auto)
qed

lemma above_short_keys: "above ix ls pns ps \<Longrightarrow> short_keys ix ls \<Longrightarrow> short_keys ix ps"
proof (erule above_replaces)
  fix xs g ys pn assume "g \<noteq> []" "short_keys ix (xs @ g @ ys)"
  moreover from \<open>g \<noteq> []\<close> have "key_part ix (parent_of ix pn g) = key_part ix (last g)" "last g \<in> set g" by (simp_all add: parent_of_def key_part_def)
  ultimately show "short_keys ix (xs @ parent_of ix pn g # ys)" by (auto simp: short_keys_def)
qed

lemma build_levels_mono: "pb_next_page pb \<le> pb_next_page (snd (build_levels pb ix cs))"
proof (induction pb ix cs rule: build_levels.induct)
  case (1 pb ix cs)
  show ?case
  proof (cases "length cs > 1")
    case True
    obtain ps pb' where l: "interior_level pb ix cs = (ps, pb')" by fastforce
    have "pb_next_page pb \<le> pb_next_page pb'" using interior_level_mono [of pb ix cs] l by simp
    also have "\<dots> \<le> pb_next_page (snd (build_levels pb' ix ps))" using 1 True l by simp
    finally show ?thesis using True l by (simp add: build_levels.simps [of pb])
  qed (simp add: build_levels.simps)
qed

lemma build_levels_spec:
  assumes "parts_ok ix (pb_fp pb) (pb_next_page pb) ls" "short_keys ix ls" "2 \<le> pb_next_page pb" "ls \<noteq> []"
    and "pb_next_page (snd (build_levels pb ix (map ref_of ls))) \<le> 2 ^ 32" "\<forall>l \<in> set ls. height (fst l) \<le> h" "Q ls"
    and step: "\<And>xs g ys pn. g \<noteq> [] \<Longrightarrow> Q (xs @ g @ ys) \<Longrightarrow> Q (xs @ parent_of ix pn g # ys)"
  shows "\<exists>t fp n vs. build_levels pb ix (map ref_of ls) = ([ref_of t], pb\<lparr>pb_fp := fp, pb_next_page := n\<rparr>) \<and> wrote ix pb fp n vs [t] \<and>
    mset (tree_pages (fst t)) = mset (vs @ parts_pages ls) \<and> full ix [t] = full ix ls \<and> height (fst t) < h + length ls \<and> Q [t]"
  using assms(1-7)
proof (induction "length ls" arbitrary: pb ls h rule: less_induct)
  case less
  show ?case
  proof (cases "length ls > 1")
    case False
    then obtain l where "ls = [l]" using less.prems(4) by (cases ls; cases "tl ls") auto
    then show ?thesis using less.prems
      by (intro exI [of _ l] exI [of _ "pb_fp pb"] exI [of _ "pb_next_page pb"] exI [of _ "[]"]) (simp add: build_levels.simps wrote_def alloc_Nil)
  next
    case True
    obtain ps0 pb' where l: "interior_level pb ix (map ref_of ls) = (ps0, pb')" by fastforce
    have bl: "build_levels pb ix (map ref_of ls) = build_levels pb' ix ps0" using True l by (simp add: build_levels.simps [of pb])
    have mid: "pb_next_page (snd (interior_level pb ix (map ref_of ls))) \<le> 2 ^ 32"
      using less.prems(5) build_levels_mono [of pb' ix ps0] unfolding bl l by simp
    obtain ps fp n pns where ps: "ps0 = map ref_of ps" "pb' = pb\<lparr>pb_fp := fp, pb_next_page := n\<rparr>" "wrote ix pb fp n pns ps" "above ix ls pns ps"
      using interior_level_spec [OF less.prems(1-3) mid] l by auto
    have "length ps < length ls" using interior_level_shrinks [OF l [symmetric]] True ps(1) by simp
    have ok: "parts_ok ix (pb_fp pb') (pb_next_page pb') ps" "2 \<le> pb_next_page pb'" using ps(3) less.prems(3) by (simp_all add: ps(2) wrote_def)
    have "Q ps" by (rule above_replaces [of ix ls pns ps Q, OF ps(4) less.prems(7) step])
    have n: "pb_next_page (snd (build_levels pb' ix (map ref_of ps))) \<le> 2 ^ 32" using less.prems(5) bl ps(1) by simp
    obtain t fp' n' vs where t: "build_levels pb' ix (map ref_of ps) = ([ref_of t], pb'\<lparr>pb_fp := fp', pb_next_page := n'\<rparr>)"
      "wrote ix pb' fp' n' vs [t]" "mset (tree_pages (fst t)) = mset (vs @ parts_pages ps)" "full ix [t] = full ix ps"
      "height (fst t) < Suc h + length ps" "Q [t]"
      using less.hyps [OF \<open>length ps < length ls\<close> ok(1) above_short_keys [OF ps(4) less.prems(2)] ok(2) above_length [OF ps(4) less.prems(4)] n
          above_height [OF ps(4) less.prems(6)] \<open>Q ps\<close>] by (elim exE conjE)
    have "wrote ix pb fp' n' (pns @ vs) [t]"
      using ps(3) t(2) keeps_trans [of "pb_fp pb" fp "pb_next_page pb" fp' n] alloc_append [of "pb_next_page pb" n pns n' vs]
      by (simp add: wrote_def ps(2))
    moreover have "mset (tree_pages (fst t)) = mset ((pns @ vs) @ parts_pages ls)" using t(3) above_pages [OF ps(4)] by simp
    moreover have "build_levels pb ix (map ref_of ls) = ([ref_of t], pb\<lparr>pb_fp := fp', pb_next_page := n'\<rparr>)" using bl t(1) by (simp add: ps(1,2))
    moreover have "height (fst t) < h + length ls" using t(5) \<open>length ps < length ls\<close> by simp
    ultimately show ?thesis using t(4,6) above_full [OF ps(4)]
      by (intro exI [of _ t] exI [of _ fp'] exI [of _ n'] exI [of _ "pns @ vs"]) simp
  qed
qed

end
