(* ===== verification/DbTrees.thy ===== *)
theory DbTrees
  imports DbPages
begin

text \<open>
  Reading what the writer has put into the file.
\<close>

section \<open>Reading a stored tree\<close>

lemma page_cells_offsets:
  assumes "page_cells m hdr flag len cells"
  shows "cell_offsets m hdr len = map (offs cells) [0..<length cells]"
    and "k < length cells \<Longrightarrow> bytes_at m (offs cells k) (length (cells ! k)) = cells ! k"
proof -
  have h: "holds m (hdr + len) cells" using assms by (simp add: page_cells_def)
  then have "length cells < 2 ^ 16" by (auto simp: holds_def)
  then have n: "u16_at m (hdr + 3) = length cells" using assms by (intro u16_bytes) (simp_all add: page_cells_def)
  have "u16_at m (hdr + len + 2 * k) = offs cells k" if "k < length cells" for k
    by (rule u16_bytes) (use h offs_bounds [OF h that] that in \<open>auto simp: holds_def\<close>)
  then show "cell_offsets m hdr len = map (offs cells) [0..<length cells]" by (simp add: cell_offsets_def n)
  show "k < length cells \<Longrightarrow> bytes_at m (offs cells k) (length (cells ! k)) = cells ! k" using h by (simp add: holds_def)
qed

lemma map_cells:
  assumes "page_cells m hdr flag len cells" "\<And>c p. c \<in> set cells \<Longrightarrow> bytes_at m p (length c) = c \<Longrightarrow> f p = g c"
  shows "map f (cell_offsets m hdr len) = map g cells"
  by (rule nth_equalityI) (use page_cells_offsets [OF assms(1)] assms(2) in auto)

lemma join_results_Some: "join_results (map Some rs) = Some (concat (map fst rs), concat (map snd rs))"
  by (induction rs) auto

lemma bytes_at_append: "bytes_at m p (length (xs @ ys)) = xs @ ys \<longleftrightarrow> bytes_at m p (length xs) = xs \<and> bytes_at m (p + length xs) (length ys) = ys"
proof -
  have "[p..<p + length (xs @ ys)] = [p..<p + length xs] @ [p + length xs..<p + length xs + length ys]"
    using upt_add_eq_append [of p "p + length xs" "length ys"] by (simp add: add.assoc)
  then show ?thesis by (simp add: bytes_at_def append_eq_append_conv)
qed

fun read_pages :: "bool \<Rightarrow> (u8 list \<Rightarrow> nat list \<times> 'a) \<Rightarrow> btree \<Rightarrow> nat list" where
  "read_pages ix val (BLeaf pg cells) = pg # concat (map (\<lambda>c. fst (val c)) cells)"
| "read_pages ix val (BNode pg cs r) =
     pg # concat (map (\<lambda>(t, k). read_pages ix val t @ (if ix then fst (val k) else [])) cs) @ read_pages ix val r"

lemma read_pages_mset: "mset (read_pages ix val t) = mset (tree_pages t @ concat (map (\<lambda>c. fst (val c)) (tree_cells ix t)))"
proof (induction t)
  case (BNode pg cs r)
  have "mset (concat (map (\<lambda>(t, k). read_pages ix val t @ (if ix then fst (val k) else [])) cs)) =
    mset (concat (map (\<lambda>(t, k). tree_pages t) cs) @
      concat (map (\<lambda>c. fst (val c)) (concat (map (\<lambda>(t, k). tree_cells ix t @ (if ix then [k] else [])) cs))))"
    using BNode.IH(1) by (induction cs) (force simp: ac_simps)+
  then show ?case using BNode.IH(2) by (simp add: ac_simps)
qed simp

lemma read_stored:
  assumes dc: "\<And>c m p. c \<in> C \<Longrightarrow> bytes_at m p (length c) = c \<Longrightarrow> dc fp m p = val c"
    and inner: "\<And>m p. inner fp m p = (if ix then (case dc fp m (p + 4) of (ps, e) \<Rightarrow> (ps, [e])) else ([], []))"
    and flags: "lf = (if ix then 0x0A else 0x0D)" "nf = (if ix then 0x02 else 0x05)"
  shows "tree_stored ix fp t \<Longrightarrow> set (tree_cells ix t) \<subseteq> C \<Longrightarrow> height t \<le> d \<Longrightarrow>
    read_tree lf nf dc inner fp d (root t) = Some (read_pages ix val t, map (\<lambda>c. snd (val c)) (tree_cells ix t))"
proof (induction t arbitrary: d)
  case (BLeaf pg cells)
  then obtain e where d: "d = Suc e" by (cases d) auto
  let ?m = "page_at fp pg"
  have pc: "page_cells ?m 0 lf 8 cells" "pg \<noteq> 1" using BLeaf.prems(1) flags by auto
  have "map (\<lambda>p. case dc fp ?m p of (ps, e) \<Rightarrow> Some (ps, [e])) (cell_offsets ?m 0 8) =
    map (\<lambda>c. Some (fst (val c), [snd (val c)])) cells"
    using BLeaf.prems(2) by (intro map_cells [OF pc(1)]) (auto simp: dc split_def)
  then have "join_results (map (\<lambda>p. case dc fp ?m p of (ps, e) \<Rightarrow> Some (ps, [e])) (cell_offsets ?m 0 8)) =
    Some (concat (map (\<lambda>c. fst (val c)) cells), map (\<lambda>c. snd (val c)) cells)"
    using join_results_Some [of "map (\<lambda>c. (fst (val c), [snd (val c)])) cells"] by (simp add: comp_def)
  then show ?case using pc by (simp add: d Let_def header_offset_def page_cells_def)
next
  case (BNode pg cs r)
  then obtain e where d: "d = Suc e" by (cases d) auto
  let ?m = "page_at fp pg" and ?cells = "map (\<lambda>(t, k). put_u32 (root t) @ k) cs"
  let ?rd = "\<lambda>t. (read_pages ix val t, map (\<lambda>c. snd (val c)) (tree_cells ix t))"
  let ?sep = "\<lambda>k. if ix then (fst (val k), [snd (val k)]) else ([], [])"
  have pc: "page_cells ?m 0 nf 12 ?cells" "pg \<noteq> 1" using BNode.prems(1) flags by auto
  have hs: "height (fst tk) \<le> e" if "tk \<in> set cs" for tk using BNode.prems(3) that by (auto simp: d split_def)
  have cs: "read_tree lf nf dc inner fp e (root (fst tk)) = Some (?rd (fst tk))" if "tk \<in> set cs" for tk
  proof (rule BNode.IH(1) [OF that])
    show "fst tk \<in> Basic_BNFs.fsts tk" by (cases tk) simp
    show "set (tree_cells ix (fst tk)) \<subseteq> C" using BNode.prems(2) that by (cases tk) force
  qed (use BNode.prems that hs in auto)
  have r: "read_tree lf nf dc inner fp e (root r) = Some (?rd r)" using BNode by (auto simp: d)
  have rr: "u32_at ?m 8 = root r" using BNode.prems(1) tree_stored_root [of ix fp r] by (intro u32_bytes) auto
  have "[read_tree lf nf dc inner fp e (u32_at ?m (offs ?cells i)), Some (inner fp ?m (offs ?cells i))] =
      [Some (?rd (fst (cs ! i))), Some (?sep (snd (cs ! i)))]" if "i < length cs" for i
  proof -
    obtain t k where ti: "cs ! i = (t, k)" by fastforce
    note tk = ti nth_mem [OF that, unfolded ti]
    let ?p = "offs ?cells i"
    have "bytes_at ?m ?p (length (put_u32 (root t) @ k)) = put_u32 (root t) @ k" using page_cells_offsets(2) [OF pc(1), of i] that tk(1) by simp
    then have b: "bytes_at ?m ?p 4 = put_u32 (root t)" "bytes_at ?m (?p + 4) (length k) = k" unfolding bytes_at_append by simp_all
    have "u32_at ?m ?p = root t" using b(1) BNode.prems(1) tk(2) tree_stored_root [of ix fp t] by (intro u32_bytes) auto
    moreover have "dc fp ?m (?p + 4) = val k" if ix using b(2) BNode.prems(2) tk(2) that by (intro dc) force+
    ultimately show ?thesis using cs [OF tk(2)] tk(1) by (auto simp: inner split_def)
  qed
  then have "map (\<lambda>p. [read_tree lf nf dc inner fp e (u32_at ?m p), Some (inner fp ?m p)]) (cell_offsets ?m 0 12) =
      map (\<lambda>(t, k). [Some (?rd t), Some (?sep k)]) cs"
    by (intro nth_equalityI) (simp_all add: page_cells_offsets(1) [OF pc(1)] split_def)
  moreover have "concat (map (\<lambda>(t, k). [Some (?rd t), Some (?sep k)]) cs) @ [Some (?rd r)] =
      map Some (concat (map (\<lambda>(t, k). [?rd t, ?sep k]) cs) @ [?rd r])"
    by (simp add: map_concat split_def comp_def)
  ultimately have "join_results (concat (map (\<lambda>p. [read_tree lf nf dc inner fp e (u32_at ?m p), Some (inner fp ?m p)]) (cell_offsets ?m 0 12)) @
      [read_tree lf nf dc inner fp e (u32_at ?m 8)]) =
      Some (concat (map fst (concat (map (\<lambda>(t, k). [?rd t, ?sep k]) cs) @ [?rd r])), concat (map snd (concat (map (\<lambda>(t, k). [?rd t, ?sep k]) cs) @ [?rd r])))"
    using join_results_Some [of "concat (map (\<lambda>(t, k). [?rd t, ?sep k]) cs) @ [?rd r]"] by (simp add: rr r)
  moreover have "lf \<noteq> nf" using flags by auto
  moreover have "concat (map fst (concat (map (\<lambda>(t, k). [?rd t, ?sep k]) cs))) =
      concat (map (\<lambda>(t, k). read_pages ix val t @ (if ix then fst (val k) else [])) cs)"
    "concat (map snd (concat (map (\<lambda>(t, k). [?rd t, ?sep k]) cs))) =
      map (\<lambda>c. snd (val c)) (concat (map (\<lambda>(t, k). tree_cells ix t @ (if ix then [k] else [])) cs))"
    by (induction cs) auto
  ultimately show ?case using pc by (simp add: d Let_def header_offset_def page_cells_def)
qed

section \<open>Overflow chains\<close>

lemma per_page [simp]: "per_page = 65532" "usable = 65536"
  by (simp_all add: per_page_def usable_def layout)

lemma page_at_pointer:
  assumes "0 < p" "0 < q"
  shows "page_at (fwrite_at fp (page_offset p) 4 (\<lambda>i. bs ! i)) q = (if q = p then (\<lambda>i. if i < 4 then bs ! i else page_at fp p i) else page_at fp q)"
proof -
  obtain p' q' where p: "p = Suc p'" "q = Suc q'" using assms by (cases p; cases q) auto
  have "q' * 65536 + i < p' * 65536 \<or> p' * 65536 + 4 \<le> q' * 65536 + i" if "q' \<noteq> p'" "i < 65536" for i
    using that by (cases "q' < p'") auto
  then show ?thesis unfolding p by (intro ext) (auto simp: page_at_def fwrite_at_def page_offset_def)
qed

definition chunk_page :: "u8 list \<Rightarrow> mem" where
  "chunk_page data = store_bytes (store_bytes (\<lambda>_. 0) 0 (put_u32 0)) BTREE_PTR_SIZE (take per_page data)"

lemma read_overflow_step:
  assumes "data \<noteq> []" "\<And>i. 4 \<le> i \<Longrightarrow> i < 65536 \<Longrightarrow> page_at fp pg i = chunk_page data i"
    and "drop per_page data \<noteq> [] \<longrightarrow> u32_at (page_at fp pg) 0 = Suc pg"
    and "read_overflow fp (Suc pg) (length (drop per_page data)) = (ps, drop per_page data)"
  shows "read_overflow fp pg (length data) = (pg # ps, data)"
proof -
  let ?c = "take per_page data" and ?r = "drop per_page data"
  have len: "length ?c = min (length data) (usable - 4)" "length data - min (length data) (usable - 4) = length ?r" by auto
  have "bytes_at (page_at fp pg) 4 (length ?c) = bytes_at (chunk_page data) 4 (length ?c)" by (rule bytes_at_cong) (auto intro: assms(2))
  also have "\<dots> = ?c" using bytes_at_store [of _ 4 ?c] by (simp add: chunk_page_def layout)
  finally have c: "bytes_at (page_at fp pg) 4 (min (length data) (usable - 4)) = ?c" unfolding len(1) [symmetric] .
  have "read_overflow fp (u32_at (page_at fp pg) 0) (length ?r) = (ps, ?r)"
  proof (cases "?r = []")
    case True
    then have "read_overflow fp x (length ?r) = ([], [])" for x by (simp add: read_overflow.simps)
    then show ?thesis using assms(4) by simp
  qed (use assms(3,4) in simp)
  then show ?thesis using assms(1) c by (subst read_overflow.simps) (simp add: Let_def len(2) del: per_page length_drop length_take)
qed

lemma overflow_chain:
  assumes "overflow_loop fp np data f (Some (page_offset p)) = (fp', np', f')" "np = Suc p" "1 < p" "f \<noteq> 0" "np' \<le> 2 ^ 32"
  shows "f' = f \<and> np \<le> np' \<and> keeps fp fp' p \<and> (\<forall>i. 4 \<le> i \<longrightarrow> page_at fp' p i = page_at fp p i) \<and> (data \<noteq> [] \<longrightarrow> u32_at (page_at fp' p) 0 = np) \<and>
    (\<forall>fp''. keeps fp' fp'' np' \<longrightarrow> read_overflow fp'' np (length data) = ([np..<np'], data))"
  using assms
proof (induction "length data" arbitrary: fp np data p rule: less_induct)
  case less
  show ?case
  proof (cases "data = []")
    case True
    then show ?thesis using less.prems by (simp add: overflow_loop.simps read_overflow.simps)
  next
    case False
    let ?fp1 = "fwrite_at fp (page_offset p) 4 (\<lambda>i. put_u32 np ! i)"
    let ?fp2 = "write_page ?fp1 np (chunk_page data)" and ?r = "drop per_page data"
    have step: "overflow_loop ?fp2 (Suc np) ?r f (Some (page_offset np)) = (fp', np', f')"
      using less.prems(1,4) False by (subst (asm) overflow_loop.simps) (simp add: Let_def chunk_page_def layout)
    have "length ?r < length data" using False by simp
    note ih = less.hyps [OF this step refl _ less.prems(4,5)]
    have np: "np < np'" "np < 2 ^ 32" "1 < np" using ih less.prems(2,3,5) by simp_all
    have k: "keeps ?fp2 fp' np" "\<And>i. 4 \<le> i \<Longrightarrow> page_at fp' np i = page_at ?fp2 np i" "?r \<noteq> [] \<longrightarrow> u32_at (page_at fp' np) 0 = Suc np"
      "\<And>fp''. keeps fp' fp'' np' \<Longrightarrow> read_overflow fp'' (Suc np) (length ?r) = ([Suc np..<np'], ?r)"
      using ih np by blast+
    have old: "page_at fp' q = (if q = p then (\<lambda>i. if i < 4 then put_u32 np ! i else page_at fp p i) else page_at fp q)" if "1 < q" "q \<le> p" for q
      using k(1) that less.prems(3) unfolding less.prems(2) by (simp add: keeps_def page_at_write page_at_pointer)
    have "bytes_at (page_at fp' p) 0 4 = put_u32 np"
      by (rule nth_equalityI) (use old [of p] less.prems(3) in \<open>auto simp: bytes_at_def\<close>)
    then have "u32_at (page_at fp' p) 0 = np" using np by (intro u32_bytes)
    moreover have "read_overflow fp'' np (length data) = ([np..<np'], data)" if kk: "keeps fp' fp'' np'" for fp''
    proof -
      have same: "page_at fp'' np = page_at fp' np" using kk np by (simp add: keeps_def)
      have "page_at fp'' np i = chunk_page data i" if "4 \<le> i" "i < 65536" for i using k(2) that np by (simp add: same page_at_write)
      then have "read_overflow fp'' np (length data) = (np # [Suc np..<np'], data)" using k(3) k(4) [OF kk] False
        by (intro read_overflow_step) (simp_all only: same, auto)
      then show ?thesis using np(1) by (simp add: upt_conv_Cons)
    qed
    moreover have "keeps fp fp' p" "\<forall>i. 4 \<le> i \<longrightarrow> page_at fp' p i = page_at fp p i" using old less.prems(3) by (simp_all add: keeps_def)
    moreover have "f' = f" using ih np(3) by blast
    ultimately show ?thesis using np(1) by simp
  qed
qed

lemma overflow_pages:
  assumes "write_overflow_pages fp np data = (fp', np', f)" "data \<noteq> []" "1 < np" "np' \<le> 2 ^ 32"
  shows "f = np" "np < np'" "keeps fp fp' np" "keeps fp' fp'' np' \<Longrightarrow> read_overflow fp'' np (length data) = ([np..<np'], data)"
proof -
  let ?fp = "write_page fp np (chunk_page data)" and ?r = "drop per_page data"
  have "overflow_loop ?fp (Suc np) ?r np (Some (page_offset np)) = (fp', np', f)"
    using assms(1,2) by (subst (asm) write_overflow_pages_def, subst (asm) overflow_loop.simps) (simp add: Let_def chunk_page_def)
  note c = overflow_chain [OF this refl assms(3) _ assms(4)]
  have k: "f = np" "np < np'" "keeps ?fp fp' np" "\<And>i. 4 \<le> i \<Longrightarrow> page_at fp' np i = page_at ?fp np i" "?r \<noteq> [] \<longrightarrow> u32_at (page_at fp' np) 0 = Suc np"
    "\<And>fp''. keeps fp' fp'' np' \<Longrightarrow> read_overflow fp'' (Suc np) (length ?r) = ([Suc np..<np'], ?r)"
    using c assms(3) by auto
  show "f = np" "np < np'" by fact+
  show "keeps fp fp' np" using keeps_trans [OF keeps_write [OF order_refl] k(3)] assms(3) by simp
  assume kk: "keeps fp' fp'' np'"
  have same: "page_at fp'' np = page_at fp' np" using kk k(2) assms(3) by (simp add: keeps_def)
  have "page_at fp'' np i = chunk_page data i" if "4 \<le> i" "i < 65536" for i using k(4) that assms(3) by (simp add: same page_at_write)
  then have "read_overflow fp'' np (length data) = (np # [Suc np..<np'], data)" using k(5) k(6) [OF kk] assms(2)
    by (intro read_overflow_step) (simp_all only: same, auto)
  then show "read_overflow fp'' np (length data) = ([np..<np'], data)" using k(2) by (simp add: upt_conv_Cons)
qed

section \<open>Cells\<close>

definition cell_reads :: "(FILE \<Rightarrow> mem \<Rightarrow> nat \<Rightarrow> nat list \<times> 'a) \<Rightarrow> FILE \<Rightarrow> nat \<Rightarrow> u8 list \<Rightarrow> nat list \<times> 'a \<Rightarrow> bool" where
  \<comment> \<open>a cell is read as the given value wherever it lies, and however the file grows\<close>
  "cell_reads dc fp hi c v \<longleftrightarrow> (\<forall>fp' m p. keeps fp fp' hi \<longrightarrow> bytes_at m p (length c) = c \<longrightarrow> dc fp' m p = v)"

definition means :: "(FILE \<Rightarrow> mem \<Rightarrow> nat \<Rightarrow> nat list \<times> 'a) \<Rightarrow> FILE \<Rightarrow> nat \<Rightarrow> u8 list list \<Rightarrow> nat list \<Rightarrow> 'a list \<Rightarrow> bool" where
  \<comment> \<open>the overflow pages and the entries of some cells\<close>
  "means dc fp hi cells us es \<longleftrightarrow> (\<exists>vs. list_all2 (cell_reads dc fp hi) cells vs \<and> us = concat (map fst vs) \<and> es = map snd vs)"

lemma cell_reads_keeps: "cell_reads dc fp hi c v \<Longrightarrow> keeps fp fp' hi \<Longrightarrow> hi \<le> hi' \<Longrightarrow> cell_reads dc fp' hi' c v"
  unfolding cell_reads_def using keeps_trans by blast

lemma means_keeps: "means dc fp hi cells us es \<Longrightarrow> keeps fp fp' hi \<Longrightarrow> hi \<le> hi' \<Longrightarrow> means dc fp' hi' cells us es"
  unfolding means_def using list_all2_mono [of "cell_reads dc fp hi" cells _ "cell_reads dc fp' hi'"] cell_reads_keeps by blast

lemma means_Nil: "means dc fp hi [] [] []"
  by (simp add: means_def)

lemma means_snoc: "means dc fp hi cells us es \<Longrightarrow> cell_reads dc fp hi c (ps, e) \<Longrightarrow> means dc fp hi (cells @ [c]) (us @ ps) (es @ [e])"
  unfolding means_def by (elim exE conjE) (rule_tac x = "vs @ [(ps, e)]" in exI, simp add: list_all2_appendI)

lemma get_varint_mem:
  assumes "bytes_at m p (length (put_varint (int v))) = put_varint (int v)" "v < 2 ^ 56"
  shows "get_varint (shift_mem m p) = (v, length (put_varint (int v)))"
proof (rule get_put_varint [OF assms(2)])
  fix i assume "i < length (put_varint (int v))"
  then have "bytes_at m p (length (put_varint (int v))) ! i = m (p + i)" by (simp add: bytes_at_def)
  then show "shift_mem m p i = put_varint (int v) ! i" unfolding assms(1) by (simp add: shift_mem_def)
qed

lemma put_varint_length10: "length (put_varint v) \<le> 10"
proof -
  have "nat (v mod 2 ^ 64) < 2 ^ 64" by simp
  then show ?thesis using varint_tmp_length [of "nat (v mod 2 ^ 64)" 10] by (simp add: put_varint_def Let_def Suc_le_eq)
qed

lemma limits: "table_limit = 65501" "index_limit = 16422" "TABLE_OVERFLOW_MAX_LOCAL = 65501" "INDEX_OVERFLOW_MAX_LOCAL = 16422"
  "local_size 65501 n = table_local n" "local_size 16422 n = index_local n"
  by (simp_all add: table_limit_def index_limit_def TABLE_OVERFLOW_MAX_LOCAL_def INDEX_OVERFLOW_MAX_LOCAL_def local_size_def
      table_local_def index_local_def TABLE_OVERFLOW_MIN_LOCAL_def INDEX_OVERFLOW_MIN_LOCAL_def Let_def not_le)

lemma local_bounds: "table_local n \<le> 65501" "index_local n \<le> 16422"
  by (simp_all add: table_local_def index_local_def TABLE_OVERFLOW_MAX_LOCAL_def TABLE_OVERFLOW_MIN_LOCAL_def
      INDEX_OVERFLOW_MAX_LOCAL_def INDEX_OVERFLOW_MIN_LOCAL_def Let_def)

lemma read_payload_overflow:
  assumes "limit < length payload" "local_size limit (length payload) \<le> limit"
    and "write_overflow_pages fp np (drop (local_size limit (length payload)) payload) = (fp', np', f)" "1 < np" "np' \<le> 2 ^ 32" "keeps fp' fp'' np'"
    and "bytes_at m p (length (take (local_size limit (length payload)) payload @ put_u32 f)) = take (local_size limit (length payload)) payload @ put_u32 f"
  shows "read_payload fp'' limit m p (length payload) = ([np..<np'], payload)"
proof -
  let ?n = "local_size limit (length payload)"
  have ne: "drop ?n payload \<noteq> []" using assms(1,2) by simp
  have "bytes_at m p ?n = take ?n payload" "bytes_at m (p + ?n) 4 = put_u32 f"
    using assms(7) [unfolded bytes_at_append] assms(1,2) by simp_all
  moreover from this(2) have "u32_at m (p + ?n) = np"
    using overflow_pages(1,2) [OF assms(3) ne assms(4,5)] assms(5) by (intro u32_bytes) auto
  moreover have "read_overflow fp'' np (length payload - ?n) = ([np..<np'], drop ?n payload)"
    using overflow_pages(4) [OF assms(3) ne assms(4,5,6)] by simp
  ultimately show ?thesis using assms(1) by (simp add: read_payload_def Let_def)
qed

lemma cell_reads_table_cell:
  assumes "length payload \<le> 65501" "0 \<le> rowid" "rowid < 2 ^ 56"
  shows "cell_reads table_cell fp hi (build_table_cell rowid payload) ([], (rowid, payload))"
proof -
  obtain r where r: "rowid = int r" "r < 2 ^ 56" using assms(2,3) by (metis nat_0_le of_nat_less_numeral_power_cancel_iff)
  have "table_cell fp' m p = ([], (rowid, payload))" if "bytes_at m p (length (build_table_cell rowid payload)) = build_table_cell rowid payload" for fp' m p
    using that assms(1) r get_varint_mem [of m p "length payload"] get_varint_mem [of m "p + length (put_varint (int (length payload)))" r]
    unfolding build_table_cell_def bytes_at_append by (simp add: table_cell_def read_payload_def limits signed64_def add.assoc)
  then show ?thesis by (simp add: cell_reads_def)
qed

lemma cell_reads_table_overflow:
  assumes "65501 < length payload" "length payload < 2 ^ 56" "0 \<le> rowid" "rowid < 2 ^ 56"
    and "write_overflow_pages fp np (drop (table_local (length payload)) payload) = (fp', np', f)" "1 < np" "np' \<le> 2 ^ 32"
  shows "cell_reads table_cell fp' np' (build_table_cell_overflow rowid payload (table_local (length payload)) f) ([np..<np'], (rowid, payload))"
proof -
  obtain r where r: "rowid = int r" "r < 2 ^ 56" using assms(3,4) by (metis nat_0_le of_nat_less_numeral_power_cancel_iff)
  let ?v = "put_varint (int (length payload))" and ?n = "table_local (length payload)"
  have "table_cell fp'' m p = ([np..<np'], (rowid, payload))"
    if k: "keeps fp' fp'' np'" and b: "bytes_at m p (length (build_table_cell_overflow rowid payload ?n f)) = build_table_cell_overflow rowid payload ?n f" for fp'' m p
  proof -
    have b': "bytes_at m p (length ?v) = ?v" "bytes_at m (p + length ?v) (length (put_varint rowid)) = put_varint rowid"
      "bytes_at m (p + length ?v + length (put_varint rowid)) (length (take ?n payload @ put_u32 f)) = take ?n payload @ put_u32 f"
      using b unfolding build_table_cell_overflow_def bytes_at_append by simp_all
    have "read_payload fp'' table_limit m (p + length ?v + length (put_varint rowid)) (length payload) = ([np..<np'], payload)"
      by (rule read_payload_overflow) (use assms k b'(3) local_bounds in \<open>auto simp: limits\<close>)
    then show ?thesis using b'(1,2) r assms(2) get_varint_mem [of m p "length payload"] get_varint_mem [of m "p + length ?v" r]
      by (simp add: table_cell_def signed64_def)
  qed
  then show ?thesis by (simp add: cell_reads_def)
qed

section \<open>The table writer\<close>

lemma add_cell_file [simp]: "pb_fp (pb_add_cell pb c) = pb_fp pb" "pb_next_page (pb_add_cell pb c) = pb_next_page pb"
  by (simp_all add: pb_add_cell_def Let_def)

lemma flush_mono: "pb_next_page pb \<le> pb_next_page (pb_flush_leaf pb key sep)"
  using skip_bounds(1) [of "pb_next_page pb"] by (simp add: pb_flush_leaf_def Let_def)

lemma overflow_loop_mono: "np \<le> fst (snd (overflow_loop fp np data f prev))"
proof (induction fp np data f prev rule: overflow_loop.induct)
  case (1 fp np data f prev)
  show ?case
  proof (cases "data = []")
    case False
    then show ?thesis using 1 [OF False refl refl refl refl refl] by (subst overflow_loop.simps) (simp add: Let_def)
  qed (simp add: overflow_loop.simps)
qed

lemma table_cell_mono: "pb_next_page pb \<le> pb_next_page (pb_add_table_cell_with_flush pb rowid payload prev)"
proof -
  have place: "pb_next_page pb \<le> pb_next_page (pb_place_cell pb prev c)" for pb c using flush_mono [of pb prev "[]"] by (simp add: pb_place_cell_def)
  obtain fp n f where w: "write_overflow_pages (pb_fp pb) (pb_next_page pb) (drop (table_local (length payload)) payload) = (fp, n, f)" by (metis prod_cases3)
  then have "pb_next_page pb \<le> n" using overflow_loop_mono [of "pb_next_page pb" "pb_fp pb" _ 0 None] unfolding write_overflow_pages_def by (metis fst_conv snd_conv)
  then show ?thesis using place [of pb] place [of "pb\<lparr>pb_fp := fp, pb_next_page := n\<rparr>"]
    by (auto simp: pb_add_table_cell_with_flush_def w Let_def intro: order_trans)
qed

lemma add_rows_mono: "pb_next_page pb \<le> pb_next_page (add_rows pb prev rows)"
  by (induction pb prev rows rule: add_rows.induct) (auto intro: order_trans [OF table_cell_mono])

lemma place_spec:
  assumes "pb_rel False lo pb ls us cur" "c \<noteq> []" "length c \<le> 65526" "pb_next_page (pb_place_cell pb prev c) \<le> 2 ^ 32"
  shows "\<exists>ls' cur'. pb_rel False lo (pb_place_cell pb prev c) ls' us cur' \<and>
    (ls' = ls \<and> cur' = cur @ [c] \<or> (\<exists>n. cur \<noteq> [] \<and> ls' = ls @ [(BLeaf n cur, prev, [])] \<and> cur' = [c])) \<and>
    keeps (pb_fp pb) (pb_fp (pb_place_cell pb prev c)) (pb_next_page pb)"
proof -
  have empty: "pb_cell_fits pb' (length c)" if "pb_rel False lo pb' ls' us []" for pb' ls'
    using that assms(3) by (simp add: pb_rel_def pb_cell_fits_def layout)
  show ?thesis
  proof (cases "pb_cell_fits pb (length c)")
    case True
    then show ?thesis using pb_rel_add [OF assms(1) True assms(2)]
      by (intro exI [of _ ls] exI [of _ "cur @ [c]"]) (simp add: pb_place_cell_def)
  next
    case False
    then have cur: "cur \<noteq> []" using empty assms(1) by auto
    then have "pb_cell_count pb > 0" using assms(1) by (simp add: pb_rel_def)
    then have p: "pb_place_cell pb prev c = pb_add_cell (pb_flush_leaf pb prev []) c" using False by (simp add: pb_place_cell_def)
    have "pb_next_page (pb_flush_leaf pb prev []) = Suc (cbm_skip_pending_byte (pb_next_page pb))"
      using \<open>pb_cell_count pb > 0\<close> by (simp add: pb_flush_leaf_def Let_def)
    then have "cbm_skip_pending_byte (pb_next_page pb) < 2 ^ 32" using assms(4) by (simp add: p)
    note f = pb_rel_flush [OF assms(1) cur this, of prev "[]"]
    show ?thesis using pb_rel_add [OF f(1) empty [OF f(1)] assms(2)] f(2) cur by (auto simp: p)
  qed
qed

definition last_reads :: "FILE \<Rightarrow> nat \<Rightarrow> u8 list list \<Rightarrow> int \<Rightarrow> bool" where
  "last_reads fp hi cells k \<longleftrightarrow> cells \<noteq> [] \<and> (\<exists>ps pl. cell_reads table_cell fp hi (last cells) (ps, k, pl))"

lemma last_reads_keeps: "last_reads fp hi cells k \<Longrightarrow> keeps fp fp' hi \<Longrightarrow> hi \<le> hi' \<Longrightarrow> last_reads fp' hi' cells k"
  unfolding last_reads_def using cell_reads_keeps by blast

definition table_inv :: "FILE \<Rightarrow> nat \<Rightarrow> PageBuilder \<Rightarrow> (int \<times> u8 list) list \<Rightarrow> int \<Rightarrow> part list \<Rightarrow> nat list \<Rightarrow> u8 list list \<Rightarrow> bool" where
  \<comment> \<open>the state of the table writer after some rows\<close>
  "table_inv fp0 lo pb rows prev ls us cur \<longleftrightarrow> pb_rel False lo pb ls us cur \<and> keeps fp0 (pb_fp pb) lo \<and>
     means table_cell (pb_fp pb) (pb_next_page pb) (full False ls @ cur) us rows \<and>
     (\<forall>l \<in> set ls. height (fst l) \<le> 1 \<and> last_reads (pb_fp pb) (pb_next_page pb) (tree_cells False (fst l)) (fst (snd l))) \<and>
     (cur \<noteq> [] \<longrightarrow> last_reads (pb_fp pb) (pb_next_page pb) cur prev) \<and> (rows \<noteq> [] \<longrightarrow> cur \<noteq> [])"

lemma table_inv_init: "2 \<le> lo \<Longrightarrow> table_inv fp lo (pb_init fp lo False) [] prev [] [] []"
  by (simp add: table_inv_def pb_rel_init means_Nil) (simp add: pb_init_def Let_def)

lemma table_inv_place:
  assumes inv: "table_inv fp0 lo pb rows prev ls us cur" and pb': "pb' = pb\<lparr>pb_fp := fp, pb_next_page := n\<rparr>"
    and grown: "keeps (pb_fp pb) fp (pb_next_page pb)" "pb_next_page pb \<le> n" "alloc (pb_next_page pb) n vs"
    and c: "cell_reads table_cell fp n c (vs, (rowid, payload))" "c \<noteq> []" "length c \<le> 65526"
    and n: "pb_next_page (pb_place_cell pb' prev c) \<le> 2 ^ 32"
  shows "\<exists>ls' us' cur'. table_inv fp0 lo (pb_place_cell pb' prev c) (rows @ [(rowid, payload)]) rowid ls' us' cur'"
proof -
  let ?pb = "pb_place_cell pb' prev c"
  note i = inv [unfolded table_inv_def]
  have "pb_rel False lo pb' ls (us @ vs) cur" unfolding pb' by (rule pb_rel_file) (use i grown in auto)
  then obtain ls' cur' where p: "pb_rel False lo ?pb ls' (us @ vs) cur'" "keeps fp (pb_fp ?pb) n"
    "ls' = ls \<and> cur' = cur @ [c] \<or> (\<exists>n. cur \<noteq> [] \<and> ls' = ls @ [(BLeaf n cur, prev, [])] \<and> cur' = [c])"
    using place_spec [of lo pb' ls "us @ vs" cur c prev] c(2,3) n by (auto simp: pb')
  have mono: "n \<le> pb_next_page ?pb" using flush_mono [of pb' prev "[]"] by (simp add: pb_place_cell_def pb')
  have k: "keeps (pb_fp pb) (pb_fp ?pb) (pb_next_page pb)" "pb_next_page pb \<le> pb_next_page ?pb" using keeps_trans [OF grown(1) p(2) grown(2)] mono grown(2) by auto
  have new: "cell_reads table_cell (pb_fp ?pb) (pb_next_page ?pb) c (vs, (rowid, payload))" by (rule cell_reads_keeps [OF c(1) p(2) mono])
  have cells: "full False ls' @ cur' = (full False ls @ cur) @ [c]" using p(3) by auto
  have old: "means table_cell (pb_fp ?pb) (pb_next_page ?pb) (full False ls @ cur) us rows" using means_keeps i k by blast
  then have "means table_cell (pb_fp ?pb) (pb_next_page ?pb) (full False ls' @ cur') (us @ vs) (rows @ [(rowid, payload)])"
    using means_snoc [OF old new] cells by simp
  moreover have "last_reads (pb_fp ?pb) (pb_next_page ?pb) cur' rowid" using p(3) by (auto simp: last_reads_def intro!: exI new)
  moreover have "\<forall>l \<in> set ls. height (fst l) \<le> 1 \<and> last_reads (pb_fp ?pb) (pb_next_page ?pb) (tree_cells False (fst l)) (fst (snd l))"
    "cur \<noteq> [] \<longrightarrow> last_reads (pb_fp ?pb) (pb_next_page ?pb) cur prev"
    using i last_reads_keeps [OF _ k] by blast+
  then have "\<forall>l \<in> set ls'. height (fst l) \<le> 1 \<and> last_reads (pb_fp ?pb) (pb_next_page ?pb) (tree_cells False (fst l)) (fst (snd l))"
    using p(3) by (elim disjE exE conjE) (simp_all del: split_paired_All)
  moreover have "cur' \<noteq> []" using p(3) by auto
  moreover have "keeps fp0 (pb_fp ?pb) lo" by (rule keeps_trans [OF _ k(1)]) (use i in \<open>auto simp: pb_rel_def\<close>)
  ultimately show ?thesis using p(1) unfolding table_inv_def by blast
qed

lemma table_inv_add:
  assumes inv: "table_inv fp0 lo pb rows prev ls us cur" and row: "0 \<le> rowid" "rowid < 2 ^ 56" "length payload < 2 ^ 56"
    and n: "pb_next_page (pb_add_table_cell_with_flush pb rowid payload prev) \<le> 2 ^ 32"
  shows "\<exists>ls' us' cur'. table_inv fp0 lo (pb_add_table_cell_with_flush pb rowid payload prev) (rows @ [(rowid, payload)]) rowid ls' us' cur'"
proof (cases "length payload > 65501")
  case False
  then have "pb_add_table_cell_with_flush pb rowid payload prev = pb_place_cell pb prev (build_table_cell rowid payload)"
    by (simp add: pb_add_table_cell_with_flush_def limits)
  moreover have "length (build_table_cell rowid payload) \<le> 65526"
    using False put_varint_length10 [of rowid] put_varint_length [of "length payload"] by (simp add: build_table_cell_def)
  moreover have "build_table_cell rowid payload \<noteq> []" by (simp add: build_table_cell_def)
  ultimately show ?thesis
    using table_inv_place [OF inv, where pb' = pb and fp = "pb_fp pb" and n = "pb_next_page pb" and vs = "[]"] cell_reads_table_cell [of payload rowid] False row n by (simp add: alloc_Nil)
next
  case True
  let ?loc = "table_local (length payload)"
  obtain fp n f where w: "write_overflow_pages (pb_fp pb) (pb_next_page pb) (drop ?loc payload) = (fp, n, f)" by (metis prod_cases3)
  let ?pb = "pb\<lparr>pb_fp := fp, pb_next_page := n\<rparr>"
  have lo: "1 < pb_next_page pb" using inv by (auto simp: table_inv_def pb_rel_def)
  have ne: "drop ?loc payload \<noteq> []" using True local_bounds(1) [of "length payload"] by simp
  have "n \<le> pb_next_page (pb_place_cell ?pb prev c)" for c using flush_mono [of ?pb prev "[]"] by (simp add: pb_place_cell_def)
  then have "n \<le> pb_next_page (pb_add_table_cell_with_flush pb rowid payload prev)" using True w by (auto simp: pb_add_table_cell_with_flush_def limits Let_def)
  then have n': "n \<le> 2 ^ 32" using n by simp
  note o = overflow_pages [OF w ne lo n']
  let ?c = "build_table_cell_overflow rowid payload ?loc f"
  have e: "pb_add_table_cell_with_flush pb rowid payload prev = pb_place_cell ?pb prev ?c"
    using True w o(1) lo by (simp add: pb_add_table_cell_with_flush_def limits Let_def)
  have "length ?c \<le> 65526"
    using local_bounds(1) [of "length payload"] put_varint_length10 [of rowid] put_varint_length [of "length payload"] row(3)
    by (simp add: build_table_cell_overflow_def)
  moreover have "?c \<noteq> []" by (simp add: build_table_cell_overflow_def)
  moreover have "cell_reads table_cell fp n ?c ([pb_next_page pb..<n], (rowid, payload))" by (rule cell_reads_table_overflow [OF True row(3,1,2) w lo n'])
  ultimately show ?thesis using table_inv_place [OF inv, where pb' = ?pb and fp = fp and n = n and vs = "[pb_next_page pb..<n]"] o(2,3) n alloc_upt unfolding e by simp
qed

lemma table_inv_rows:
  assumes "table_inv fp0 lo pb rows0 prev ls us cur" "\<forall>r \<in> set rows. 0 \<le> fst r \<and> fst r < 2 ^ 56 \<and> length (snd r) < 2 ^ 56"
    and "pb_next_page (add_rows pb prev rows) \<le> 2 ^ 32"
  shows "\<exists>ls' us' cur'. table_inv fp0 lo (add_rows pb prev rows) (rows0 @ rows) (if rows = [] then prev else fst (last rows)) ls' us' cur'"
  using assms
proof (induction rows arbitrary: pb prev rows0 ls us cur)
  case (Cons r rows)
  obtain rowid payload where r: "r = (rowid, payload)" by fastforce
  let ?pb = "pb_add_table_cell_with_flush pb rowid payload prev"
  have "pb_next_page ?pb \<le> 2 ^ 32" using Cons.prems(3) add_rows_mono [of ?pb rowid rows] by (simp add: r)
  then obtain ls' us' cur' where i: "table_inv fp0 lo ?pb (rows0 @ [(rowid, payload)]) rowid ls' us' cur'"
    using table_inv_add [OF Cons.prems(1), of rowid payload] Cons.prems(2) r by auto
  show ?case using Cons.IH [OF i] Cons.prems(2,3) by (cases "rows = []") (simp_all add: r)
qed auto

end
