(* ===== verification/DbTables.thy ===== *)
theory DbTables
  imports DbTrees
begin

text \<open>
  Tables: the rows that are written come back, and the keys on the interior pages lead to them.
\<close>

section \<open>Search keys\<close>

definition is_key :: "u8 list \<Rightarrow> bool" where
  "is_key k \<longleftrightarrow> (\<exists>v < 2 ^ 56. k = put_varint (int v))"

definition key_of :: "u8 list \<Rightarrow> int" where
  "key_of k = signed64 (fst (get_varint (list_mem k)))"

lemma key_of_put: "v < 2 ^ 56 \<Longrightarrow> key_of (put_varint (int v)) = int v"
  using get_varint_list [of v "[]"] by (simp add: key_of_def signed64_def)

lemma key_at: "is_key k \<Longrightarrow> bytes_at m p (length k) = k \<Longrightarrow> signed64 (fst (get_varint (shift_mem m p))) = key_of k"
  using key_of_put by (auto simp: is_key_def get_varint_mem signed64_def)

fun seekable :: "(u8 list \<Rightarrow> int) \<Rightarrow> btree \<Rightarrow> bool" where
  \<comment> \<open>the key of a cell separates the rows of its child from the later ones\<close>
  "seekable rid (BLeaf pg cells) \<longleftrightarrow> True"
| "seekable rid (BNode pg cs r) \<longleftrightarrow> (\<forall>tk \<in> set cs. seekable rid (fst tk)) \<and> seekable rid r \<and>
     (\<forall>(t, k) \<in> set cs. is_key k \<and> (\<forall>c \<in> set (tree_cells False t). rid c \<le> key_of k) \<and> (\<forall>c \<in> set (tree_cells False r). key_of k < rid c)) \<and>
     sorted_wrt (\<lambda>(t, k) (t', k'). \<forall>c \<in> set (tree_cells False t'). key_of k < rid c) cs"

definition child_for :: "(btree \<times> u8 list) list \<Rightarrow> btree \<Rightarrow> int \<Rightarrow> btree" where
  "child_for cs r x = (case find (\<lambda>tk. x \<le> key_of (snd tk)) cs of Some tk \<Rightarrow> fst tk | None \<Rightarrow> r)"

lemma child_for_Cons: "child_for (tk # cs) r x = (if x \<le> key_of (snd tk) then fst tk else child_for cs r x)"
  by (simp add: child_for_def)

lemma child_for_in: "child_for cs r x = r \<or> (\<exists>tk \<in> set cs. child_for cs r x = fst tk)"
  by (induction cs) (auto simp: child_for_def)

lemma seek_child:
  "list_all2 (\<lambda>p tk. K p = key_of (snd tk) \<and> U p = root (fst tk)) ps cs \<Longrightarrow>
     (case find (\<lambda>p. x \<le> K p) ps of Some p \<Rightarrow> U p | None \<Rightarrow> root r) = root (child_for cs r x)"
  by (induction ps cs rule: list_all2_induct) (auto simp: child_for_def)

lemma map_of_child:
  assumes "seekable rid (BNode pg cs r)" and row: "\<And>c. fst (row c) = rid c"
  shows "map_of (map row (tree_cells False (BNode pg cs r))) x = map_of (map row (tree_cells False (child_for cs r x))) x"
  using assms(1)
proof (induction cs)
  case (Cons tk cs)
  obtain t k where tk: "tk = (t, k)" by fastforce
  let ?rest = "tree_cells False (BNode pg cs r)"
  have le: "\<forall>c \<in> set (tree_cells False t). rid c \<le> key_of k" and gt: "\<forall>c \<in> set ?rest. key_of k < rid c"
    using Cons.prems by (auto simp: tk split_def)
  have none: "map_of (map row cells) x = None" if "\<forall>c \<in> set cells. rid c \<noteq> x" for cells
    using that row by (induction cells) auto
  show ?case
  proof (cases "x \<le> key_of k")
    case True
    then have "\<forall>c \<in> set ?rest. rid c \<noteq> x" using gt by (metis linorder_not_le)
    then have "map_of (map row ?rest) x = None" by (rule none)
    then show ?thesis using True by (simp add: tk child_for_Cons map_add_def split: option.split)
  next
    case False
    then have "map_of (map row (tree_cells False t)) x = None" using le by (intro none) auto
    moreover have "seekable rid (BNode pg cs r)" using Cons.prems by auto
    ultimately show ?thesis using False Cons.IH by (simp add: tk child_for_Cons map_add_def)
  qed
qed (simp add: child_for_def)

lemma seek_stored:
  assumes read: "\<And>c m p. c \<in> C \<Longrightarrow> bytes_at m p (length c) = c \<Longrightarrow> snd (table_cell fp m p) = row c" and row: "\<And>c. fst (row c) = rid c"
  shows "tree_stored False fp t \<Longrightarrow> seekable rid t \<Longrightarrow> set (tree_cells False t) \<subseteq> C \<Longrightarrow> height t \<le> d \<Longrightarrow>
    seek_table fp d (root t) x = map_of (map row (tree_cells False t)) x"
proof (induction t arbitrary: d)
  case (BLeaf pg cells)
  then obtain e where d: "d = Suc e" by (cases d) auto
  have pc: "page_cells (page_at fp pg) 0 0x0D 8 cells" "pg \<noteq> 1" using BLeaf.prems(1) by auto
  have "map (\<lambda>p. snd (table_cell fp (page_at fp pg) p)) (cell_offsets (page_at fp pg) 0 8) = map row cells"
    using BLeaf.prems(3) by (intro map_cells [OF pc(1)]) (auto simp: read)
  then show ?case using pc by (simp add: d Let_def header_offset_def page_cells_def)
next
  case (BNode pg cs r)
  then obtain e where d: "d = Suc e" by (cases d) auto
  let ?m = "page_at fp pg" and ?cells = "map (\<lambda>(t, k). put_u32 (root t) @ k) cs" and ?c = "child_for cs r x"
  have pc: "page_cells ?m 0 0x05 12 ?cells" "pg \<noteq> 1" using BNode.prems(1) by auto
  have rr: "u32_at ?m 8 = root r" using BNode.prems(1) tree_stored_root [of False fp r] by (intro u32_bytes) auto
  have "list_all2 (\<lambda>p tk. signed64 (fst (get_varint (shift_mem ?m (p + 4)))) = key_of (snd tk) \<and> u32_at ?m p = root (fst tk)) (cell_offsets ?m 0 12) cs"
  proof (rule list_all2_all_nthI)
    show "length (cell_offsets ?m 0 12) = length cs" by (simp add: page_cells_offsets(1) [OF pc(1)])
    fix i assume "i < length (cell_offsets ?m 0 12)"
    then have i: "i < length cs" by (simp add: page_cells_offsets(1) [OF pc(1)])
    obtain t k where ti: "cs ! i = (t, k)" by fastforce
    note tk = nth_mem [OF i, unfolded ti]
    have p: "cell_offsets ?m 0 12 ! i = offs ?cells i" using i by (simp add: page_cells_offsets(1) [OF pc(1)])
    have "bytes_at ?m (offs ?cells i) (length (put_u32 (root t) @ k)) = put_u32 (root t) @ k" using page_cells_offsets(2) [OF pc(1), of i] i ti by simp
    then have b: "bytes_at ?m (offs ?cells i) 4 = put_u32 (root t)" "bytes_at ?m (offs ?cells i + 4) (length k) = k" unfolding bytes_at_append by simp_all
    have "u32_at ?m (offs ?cells i) = root t" using b(1) BNode.prems(1) tk tree_stored_root [of False fp t] by (intro u32_bytes) auto
    moreover have "is_key k" using BNode.prems(2) tk by auto
    ultimately show "signed64 (fst (get_varint (shift_mem ?m (cell_offsets ?m 0 12 ! i + 4)))) = key_of (snd (cs ! i)) \<and>
        u32_at ?m (cell_offsets ?m 0 12 ! i) = root (fst (cs ! i))"
      using key_at [OF _ b(2)] unfolding p ti by simp
  qed
  from seek_child [OF this, where x = x and r = r] have "seek_table fp d (root (BNode pg cs r)) x = seek_table fp e (root ?c) x"
    using pc rr by (simp add: d Let_def header_offset_def page_cells_def cong: option.case_cong)
  also have "\<dots> = map_of (map row (tree_cells False ?c)) x"
  proof (cases "?c = r")
    case True
    then show ?thesis using BNode by (auto simp: d)
  next
    case False
    then obtain tk where tk: "tk \<in> set cs" "?c = fst tk" using child_for_in [of cs r x] by auto
    have "height (fst tk) \<le> e" using BNode.prems(4) tk(1) by (auto simp: d split_def)
    moreover have "fst tk \<in> Basic_BNFs.fsts tk" by (cases tk) simp
    moreover have "set (tree_cells False (fst tk)) \<subseteq> C" using BNode.prems(3) tk(1) by (cases tk) force
    moreover have "tree_stored False fp (fst tk)" "seekable rid (fst tk)" using BNode.prems(1,2) tk(1) by auto
    ultimately show ?thesis using BNode.IH(1) [OF tk(1)] by (simp add: tk(2))
  qed
  also have "\<dots> = map_of (map row (tree_cells False (BNode pg cs r))) x" using map_of_child [OF BNode.prems(2) row] by simp
  finally show ?case .
qed

definition in_order :: "(u8 list \<Rightarrow> int) \<Rightarrow> part list \<Rightarrow> bool" where
  "in_order rid ls \<longleftrightarrow> (\<forall>l \<in> set ls. seekable rid (fst l) \<and> 0 \<le> fst (snd l) \<and> fst (snd l) < 2 ^ 56 \<and> (\<forall>c \<in> set (tree_cells False (fst l)). rid c \<le> fst (snd l))) \<and>
     sorted_wrt (\<lambda>l l'. fst (snd l) \<le> fst (snd l') \<and> (\<forall>c \<in> set (tree_cells False (fst l')). fst (snd l) < rid c)) ls"

lemma in_order_node:
  assumes "g \<noteq> []" "in_order rid (xs @ g @ ys)"
  shows "in_order rid (xs @ parent_of False pn g # ys)"
proof -
  obtain h l where g: "g = h @ [l]" using assms(1) by (cases g rule: rev_cases) auto
  have key: "key_of (key_part False a) = fst (snd a)" "is_key (key_part False a)" if "a \<in> set g" for a
  proof -
    have "0 \<le> fst (snd a)" "fst (snd a) < 2 ^ 56" using assms(2) that by (auto simp: in_order_def)
    then obtain v where "fst (snd a) = int v" "v < 2 ^ 56" by (metis nat_0_le of_nat_less_numeral_power_cancel_iff)
    then show "key_of (key_part False a) = fst (snd a)" "is_key (key_part False a)" by (auto simp: key_part_def key_of_put is_key_def)
  qed
  let ?R = "\<lambda>l l'. fst (snd l) \<le> fst (snd l') \<and> (\<forall>c \<in> set (tree_cells False (fst l')). fst (snd l) < rid c)"
  have o: "sorted_wrt ?R h" "\<forall>a \<in> set h. ?R a l" "\<forall>a \<in> set g. seekable rid (fst a)" "\<forall>a \<in> set g. \<forall>c \<in> set (tree_cells False (fst a)). rid c \<le> fst (snd a)"
    using assms(2) by (simp_all add: in_order_def g sorted_wrt_append ball_Un)
  have "sorted_wrt (\<lambda>a b. \<forall>c \<in> set (tree_cells False (fst b)). key_of (key_part False a) < rid c) h"
    by (rule sorted_wrt_mono_rel [OF _ o(1)]) (simp add: key(1) g)
  then have "seekable rid (fst (parent_of False pn g))"
    using o(2-4) key unfolding g by (simp add: parent_of_def sorted_wrt_map split_def)
  moreover have "set (tree_cells False (fst (parent_of False pn g))) = (\<Union>a \<in> set g. set (tree_cells False (fst a)))"
    unfolding g by (auto simp: parent_of_def split_def)
  moreover have "fst (snd (parent_of False pn g)) = fst (snd l)" by (simp add: parent_of_def g)
  moreover have "\<forall>a \<in> set g. \<forall>c \<in> set (tree_cells False (fst a)). rid c \<le> fst (snd l)"
  proof (intro ballI)
    fix a c assume "a \<in> set g" "c \<in> set (tree_cells False (fst a))"
    then have "rid c \<le> fst (snd a)" "fst (snd a) \<le> fst (snd l)" using o(2,4) by (auto simp: g simp del: split_paired_All)
    then show "rid c \<le> fst (snd l)" by simp
  qed
  ultimately show ?thesis using assms(2) unfolding in_order_def by (simp add: sorted_wrt_append g ball_Un)
qed

section \<open>A whole table\<close>

definition cell_value :: "(FILE \<Rightarrow> mem \<Rightarrow> nat \<Rightarrow> nat list \<times> 'a) \<Rightarrow> FILE \<Rightarrow> u8 list \<Rightarrow> nat list \<times> 'a" where
  "cell_value dc fp c = dc fp (list_mem c) 0"

lemma cell_reads_value: "cell_reads dc fp hi c v \<Longrightarrow> keeps fp fp' hi \<Longrightarrow> cell_value dc fp' c = v"
proof -
  assume r: "cell_reads dc fp hi c v" "keeps fp fp' hi"
  have "bytes_at (list_mem c) 0 (length c) = c" by (rule nth_equalityI) (simp_all add: bytes_at_def list_mem_def)
  then show ?thesis using r unfolding cell_reads_def cell_value_def by blast
qed

lemma means_values:
  assumes "means dc fp hi cells us es"
  shows "us = concat (map (\<lambda>c. fst (cell_value dc fp c)) cells)" "es = map (\<lambda>c. snd (cell_value dc fp c)) cells"
    and "c \<in> set cells \<Longrightarrow> bytes_at m p (length c) = c \<Longrightarrow> dc fp m p = cell_value dc fp c"
    and "c \<in> set cells \<Longrightarrow> cell_reads dc fp hi c (cell_value dc fp c)"
proof -
  obtain vs where vs: "list_all2 (cell_reads dc fp hi) cells vs" "us = concat (map fst vs)" "es = map snd vs" using assms by (auto simp: means_def)
  have "vs = map (cell_value dc fp) cells"
    using vs(1) by (induction rule: list_all2_induct) (simp_all add: cell_reads_value [OF _ keeps_refl])
  then show "us = concat (map (\<lambda>c. fst (cell_value dc fp c)) cells)" "es = map (\<lambda>c. snd (cell_value dc fp c)) cells" using vs by (simp_all add: comp_def)
  show r: "c \<in> set cells \<Longrightarrow> cell_reads dc fp hi c (cell_value dc fp c)"
    using vs(1) \<open>vs = map (cell_value dc fp) cells\<close> by (auto simp: list_all2_map2 list_all2_same)
  show "c \<in> set cells \<Longrightarrow> bytes_at m p (length c) = c \<Longrightarrow> dc fp m p = cell_value dc fp c" using r unfolding cell_reads_def by (metis keeps_refl)
qed

definition rows_ok :: "(int \<times> u8 list) list \<Rightarrow> bool" where
  "rows_ok rows \<longleftrightarrow> (\<forall>r \<in> set rows. 0 \<le> fst r \<and> fst r < 2 ^ 56 \<and> length (snd r) < 2 ^ 56)"

definition row_key :: "FILE \<Rightarrow> u8 list \<Rightarrow> int" where
  "row_key fp c = fst (snd (cell_value table_cell fp c))"

definition table_at :: "FILE \<Rightarrow> nat \<Rightarrow> nat \<Rightarrow> nat \<Rightarrow> (int \<times> u8 list) list \<Rightarrow> bool" where
  \<comment> \<open>the pages from one number to another one are a table with the given root and rows\<close>
  "table_at fp lo n rt rows \<longleftrightarrow> (\<exists>t us. rt = root t \<and> tree_stored False fp t \<and> means table_cell fp n (tree_cells False t) us rows \<and>
     2 \<le> lo \<and> alloc lo n (tree_pages t @ us) \<and> height t \<le> Suc (length rows) \<and> (sorted_wrt (<) (map fst rows) \<longrightarrow> seekable (row_key fp) t))"

lemma seekable_cong: "seekable rid t \<Longrightarrow> (\<And>c. c \<in> set (tree_cells False t) \<Longrightarrow> rid' c = rid c) \<Longrightarrow> seekable rid' t"
proof (induction t)
  case (BNode pg cs r)
  have in_cs: "rid' c = rid c" if "tk \<in> set cs" "c \<in> set (tree_cells False (fst tk))" for tk c
    using BNode.prems(2) that by (cases tk) force
  have "seekable rid' (fst tk)" if "tk \<in> set cs" for tk
    by (rule BNode.IH(1) [OF that, of "fst tk"]) (use BNode.prems(1) in_cs that in \<open>auto simp: fsts.simps\<close>)
  moreover have "seekable rid' r" using BNode by auto
  moreover have "sorted_wrt (\<lambda>(t, k) (t', k'). \<forall>c \<in> set (tree_cells False t'). key_of k < rid' c) cs"
    by (rule sorted_wrt_mono_rel [where P = "\<lambda>(t, k) (t', k'). \<forall>c \<in> set (tree_cells False t'). key_of k < rid c"])
      (use BNode.prems(1) in_cs in \<open>force+\<close>)
  ultimately show ?case using BNode.prems in_cs by fastforce
qed simp

lemma table_at_keeps: "table_at fp lo n rt rows \<Longrightarrow> keeps fp fp' n \<Longrightarrow> table_at fp' lo n rt rows"
proof -
  assume "table_at fp lo n rt rows" and k: "keeps fp fp' n"
  then obtain t us where t: "rt = root t" "tree_stored False fp t" "means table_cell fp n (tree_cells False t) us rows" "2 \<le> lo" "alloc lo n (tree_pages t @ us)"
    "height t \<le> Suc (length rows)" "sorted_wrt (<) (map fst rows) \<longrightarrow> seekable (row_key fp) t"
    unfolding table_at_def by blast
  have "set (tree_pages t) \<subseteq> {2..<n}" using t(4,5) by (auto simp: alloc_def)
  then have "tree_stored False fp' t" by (rule tree_stored_keeps [OF t(2) k])
  moreover have "row_key fp' c = row_key fp c" if "c \<in> set (tree_cells False t)" for c
    using cell_reads_value [OF means_values(4) [OF t(3) that] k] by (simp add: row_key_def)
  ultimately show ?thesis using t means_keeps [OF t(3) k order_refl] seekable_cong [of "row_key fp" t "row_key fp'"] unfolding table_at_def by blast
qed

lemma table_at_read:
  assumes "table_at fp lo n rt rows" "Suc (length rows) \<le> d"
  shows "\<exists>ps. read_table fp d rt = Some (ps, rows) \<and> alloc lo n ps"
proof -
  obtain t us where t: "rt = root t" "tree_stored False fp t" "means table_cell fp n (tree_cells False t) us rows" "alloc lo n (tree_pages t @ us)"
    "height t \<le> Suc (length rows)"
    using assms(1) unfolding table_at_def by blast
  have "read_table fp d rt = Some (read_pages False (cell_value table_cell fp) t, map (\<lambda>c. snd (cell_value table_cell fp c)) (tree_cells False t))"
    unfolding read_table_def t(1)
    by (rule read_stored [where C = "set (tree_cells False t)" and ix = False]) (use t assms(2) means_values(3) [OF t(3)] in auto)
  moreover have "alloc lo n (read_pages False (cell_value table_cell fp) t)"
    by (rule alloc_mset [OF _ t(4)]) (simp add: read_pages_mset means_values(1) [OF t(3)])
  ultimately show ?thesis using means_values(2) [OF t(3)] by auto
qed

lemma table_at_seek:
  assumes "table_at fp lo n rt rows" "Suc (length rows) \<le> d" "sorted_wrt (<) (map fst rows)"
  shows "seek_table fp d rt x = map_of rows x"
proof -
  obtain t us where t: "rt = root t" "tree_stored False fp t" "means table_cell fp n (tree_cells False t) us rows" "height t \<le> Suc (length rows)"
    "seekable (row_key fp) t"
    using assms(1,3) unfolding table_at_def by blast
  have "seek_table fp d rt x = map_of (map (\<lambda>c. snd (cell_value table_cell fp c)) (tree_cells False t)) x"
    unfolding t(1) by (rule seek_stored [where C = "set (tree_cells False t)" and rid = "row_key fp"])
      (use t assms(2) means_values(3) [OF t(3)] in \<open>auto simp: row_key_def\<close>)
  then show ?thesis using means_values(2) [OF t(3)] by simp
qed

lemma height_pos [simp]: "height t \<noteq> 0"
  by (cases t) auto

lemma seekable_leaf: "height t \<le> 1 \<Longrightarrow> seekable rid t"
  by (cases t) auto

lemma in_order_leaves:
  assumes "sorted_wrt (<) (map rid (full False ls))"
    and "\<forall>l \<in> set ls. height (fst l) \<le> 1 \<and> tree_cells False (fst l) \<noteq> [] \<and> fst (snd l) = rid (last (tree_cells False (fst l)))"
    and "\<forall>c \<in> set (full False ls). 0 \<le> rid c \<and> rid c < 2 ^ 56"
  shows "in_order rid ls"
  using assms
proof (induction ls)
  case (Cons l ls)
  let ?cs = "tree_cells False (fst l)"
  have ne: "?cs \<noteq> []" "fst (snd l) = rid (last ?cs)" "last ?cs \<in> set ?cs" using Cons.prems(2) by simp_all
  have sorted: "sorted_wrt (<) (map rid ?cs)" "\<forall>c \<in> set ?cs. \<forall>d \<in> set (full False ls). rid c < rid d" "sorted_wrt (<) (map rid (full False ls))"
    using Cons.prems(1) by (simp_all add: sorted_wrt_append)
  have ih: "in_order rid ls" using Cons.IH sorted(3) Cons.prems(2,3) by simp
  have "rid c \<le> rid (last ?cs)" if "c \<in> set ?cs" for c
  proof -
    have "sorted_wrt (<) (map rid (butlast ?cs @ [last ?cs]))" using sorted(1) ne(1) by simp
    then have "\<forall>c \<in> set (butlast ?cs). rid c < rid (last ?cs)" by (simp add: sorted_wrt_append)
    moreover have "c \<in> set (butlast ?cs) \<or> c = last ?cs" using that ne(1) by (metis append_butlast_last_id in_set_conv_decomp insert_iff list.simps(15) rotate1.simps(2) set_rotate1)
    ultimately show ?thesis by auto
  qed
  moreover have later: "\<forall>l' \<in> set ls. \<forall>c \<in> set (tree_cells False (fst l')). rid (last ?cs) < rid c"
    using sorted(2) ne(3) by (auto simp: full_def)
  moreover have "rid (last ?cs) \<le> fst (snd l')" if "l' \<in> set ls" for l' using later that Cons.prems(2) by (simp add: less_imp_le)
  moreover have "0 \<le> rid (last ?cs) \<and> rid (last ?cs) < 2 ^ 56" using Cons.prems(3) ne(3) by simp
  moreover have "seekable rid (fst l)" using Cons.prems(2) seekable_leaf by simp
  ultimately show ?case using ih ne(2) by (simp add: in_order_def)
qed (simp add: in_order_def)

lemma build_levels_ne: "cs \<noteq> [] \<Longrightarrow> fst (build_levels pb ix cs) \<noteq> []"
proof (induction pb ix cs rule: build_levels.induct)
  case (1 pb ix cs)
  obtain rest ip where f: "fill_interior_page ix cs empty_interior = (rest, ip)" by fastforce
  obtain parent pb' where w: "write_interior_page pb ix ip (hd rest) = (parent, pb')" by fastforce
  have "fst (interior_level pb ix cs) \<noteq> []" using interior_level_step [OF 1(2) f w] by simp
  then show ?case using 1 by (subst build_levels.simps) (simp add: split_def)
qed

lemma finalize_levels:
  assumes "pb_cell_count pb > 0"
  shows "pb_finalize_table pb k =
    (case build_levels (pb_flush_leaf pb k []) False (pb_leaves (pb_flush_leaf pb k [])) of (cs, pb) \<Rightarrow> (pb_fp pb, pb_next_page pb, page_num (hd cs), pb_ub pb))"
proof -
  let ?pb = "pb_flush_leaf pb k []"
  have ne: "pb_leaves ?pb \<noteq> []" using assms by (simp add: pb_flush_leaf_def Let_def)
  show ?thesis
  proof (cases "length (pb_leaves ?pb) > 1")
    case True
    obtain cs pb' where b: "build_levels ?pb False (pb_leaves ?pb) = (cs, pb')" by fastforce
    have "cs \<noteq> []" using build_levels_ne [OF ne, of ?pb False] b by simp
    then have "pb_build_interior ?pb False = (page_num (hd cs), pb')" using True ne b by (simp add: pb_build_interior_def)
    then show ?thesis using True assms b by (simp add: pb_finalize_table_def Let_def)
  next
    case False
    then have "length (pb_leaves ?pb) = 1" using ne by (cases "pb_leaves ?pb") auto
    moreover have "build_levels ?pb False (pb_leaves ?pb) = (pb_leaves ?pb, ?pb)" using False by (subst build_levels.simps) simp
    ultimately show ?thesis using assms by (simp add: pb_finalize_table_def Let_def)
  qed
qed

lemma length_full: "\<forall>l \<in> set ls. tree_cells False (fst l) \<noteq> [] \<Longrightarrow> length ls \<le> length (full False ls)"
proof (induction ls)
  case (Cons l ls)
  then have "0 < length (tree_cells False (fst l))" "length ls \<le> length (full False ls)" by auto
  then show ?case by (simp add: full_def del: length_greater_0_conv)
qed simp

lemma last_reads_key: "last_reads fp hi cells k \<Longrightarrow> keeps fp fp' hi \<Longrightarrow> cells \<noteq> [] \<and> row_key fp' (last cells) = k"
  by (auto simp: last_reads_def row_key_def dest: cell_reads_value)

lemma overflow_loop_first: "f \<noteq> 0 \<Longrightarrow> snd (snd (overflow_loop fp np data f prev)) = f"
proof (induction fp np data f prev rule: overflow_loop.induct)
  case (1 fp np data f prev)
  show ?case
  proof (cases "data = []")
    case False
    then show ?thesis using 1(1) [OF False refl refl refl refl refl] 1(2) by (subst overflow_loop.simps) (simp add: Let_def)
  qed (simp add: overflow_loop.simps)
qed

lemma add_cell_count: "0 < pb_next_page pb \<Longrightarrow> 0 < pb_cell_count (pb_add_table_cell_with_flush pb rowid payload prev)"
proof -
  assume np: "0 < pb_next_page pb"
  have place: "0 < pb_cell_count (pb_place_cell pb prev c)" for pb c by (simp add: pb_place_cell_def pb_add_cell_def Let_def)
  show ?thesis
  proof (cases "length payload > 65501")
    case True
    let ?data = "drop (table_local (length payload)) payload"
    have "?data \<noteq> []" using True local_bounds(1) [of "length payload"] by simp
    then have "snd (snd (write_overflow_pages (pb_fp pb) (pb_next_page pb) ?data)) = pb_next_page pb"
      using np unfolding write_overflow_pages_def by (subst overflow_loop.simps) (simp add: Let_def overflow_loop_first)
    then show ?thesis using True np place by (simp add: pb_add_table_cell_with_flush_def limits Let_def split_def)
  qed (use place in \<open>simp add: pb_add_table_cell_with_flush_def limits\<close>)
qed

lemma add_rows_count: "0 < pb_next_page pb \<Longrightarrow> rows \<noteq> [] \<Longrightarrow> 0 < pb_cell_count (add_rows pb prev rows)"
proof (induction pb prev rows rule: add_rows.induct)
  case (2 pb prev rowid payload rows)
  then show ?case using add_cell_count [OF 2(2)] order.strict_trans2 [OF 2(2) table_cell_mono] by (cases rows) simp_all
qed simp

lemma table_tree:
  assumes "2 \<le> lo" "rows \<noteq> []" "rows_ok rows" "n \<le> 2 ^ 32"
    and fin: "pb_finalize_table (add_rows (pb_init fp lo False) 0 rows) (fst (last rows)) = (fp', n, rt, ub)"
  shows "table_at fp' lo n rt rows" "keeps fp fp' lo" "lo < n" "\<not> ub"
proof -
  let ?k = "fst (last rows)"
  have "0 < pb_next_page (pb_init fp lo False)" using assms(1) by (simp add: pb_init_def Let_def)
  note count = add_rows_count [OF this assms(2), of 0]
  define pb where "pb = add_rows (pb_init fp lo False) 0 rows"
  define pb1 where "pb1 = pb_flush_leaf pb ?k []"
  let ?pn = "cbm_skip_pending_byte (pb_next_page pb)"
  have lev: "build_levels pb1 False (pb_leaves pb1) = (cs, pb2) \<Longrightarrow> (fp', n, rt, ub) = (pb_fp pb2, pb_next_page pb2, page_num (hd cs), pb_ub pb2)" for cs pb2
    using fin finalize_levels [OF count] by (simp add: pb1_def pb_def)
  then have n: "pb_next_page (snd (build_levels pb1 False (pb_leaves pb1))) = n" by (metis prod.collapse prod.inject)
  have next1: "pb_next_page pb1 = Suc ?pn" using count by (simp add: pb1_def pb_def pb_flush_leaf_def Let_def)
  then have pn: "?pn < 2 ^ 32" "pb_next_page pb \<le> pb_next_page pb1" "pb_next_page pb1 \<le> n"
    using build_levels_mono [of pb1 False "pb_leaves pb1"] n assms(4) skip_bounds(1) [of "pb_next_page pb"] by auto
  have small: "pb_next_page (add_rows (pb_init fp lo False) 0 rows) \<le> 2 ^ 32" using pn assms(4) unfolding pb_def by simp
  obtain ls us cur where "table_inv fp lo pb rows ?k ls us cur"
    using table_inv_rows [OF table_inv_init [OF assms(1)] _ small] assms(2,3) unfolding rows_ok_def pb_def by auto
  note inv = this [unfolded table_inv_def]
  have "pb_rel False lo pb ls us cur" "cur \<noteq> []" using inv assms(2) by auto
  note fl = pb_rel_flush [OF this pn(1), of ?k "[]", folded pb1_def]
  let ?ls = "ls @ [(BLeaf ?pn cur, ?k, [])]"
  note r1 = fl(1) [unfolded pb_rel_def]
  have keys: "short_keys False ?ls" by (auto simp: short_keys_def key_part_def intro: order_trans [OF put_varint_length10])
  have hs: "\<forall>l \<in> set ?ls. height (fst l) \<le> 1" using inv by auto
  have "pb_next_page (snd (build_levels pb1 False (map ref_of ?ls))) \<le> 2 ^ 32" using n assms(4) r1 by simp
  then obtain t fp2 n2 vs where t: "build_levels pb1 False (map ref_of ?ls) = ([ref_of t], pb1\<lparr>pb_fp := fp2, pb_next_page := n2\<rparr>)"
    "wrote False pb1 fp2 n2 vs [t]" "mset (tree_pages (fst t)) = mset (vs @ parts_pages ?ls)" "full False [t] = full False ?ls"
    "height (fst t) < 1 + length ?ls" "\<forall>rid. in_order rid ?ls \<longrightarrow> in_order rid [t]"
    using build_levels_spec [of False pb1 ?ls 1 "\<lambda>xs. \<forall>rid. in_order rid ?ls \<longrightarrow> in_order rid xs"] r1 keys hs in_order_node by auto
  have res: "fp2 = fp'" "n2 = n" "rt = root (fst t)" "\<not> ub" using lev t(1) r1 by (auto simp: ref_of_def)
  show "\<not> ub" by fact
  note w = t(2) [unfolded wrote_def res]
  have k: "keeps (pb_fp pb) fp' (pb_next_page pb)" "pb_next_page pb \<le> n" using keeps_trans [OF fl(2) _ pn(2)] w pn by auto
  show "keeps fp fp' lo" by (rule keeps_trans [OF _ k(1)]) (use inv in \<open>auto simp: pb_rel_def\<close>)
  show "lo < n" using inv pn next1 skip_bounds(1) [of "pb_next_page pb"] by (auto simp: pb_rel_def)
  have cells: "tree_cells False (fst t) = full False ls @ cur" using t(4) by simp
  have m: "means table_cell fp' n (tree_cells False (fst t)) us rows" unfolding cells by (rule means_keeps [OF _ k]) (use inv in auto)
  have leaf: "\<forall>l \<in> set ?ls. tree_cells False (fst l) \<noteq> [] \<and> fst (snd l) = row_key fp' (last (tree_cells False (fst l)))"
  proof
    fix l assume "l \<in> set ?ls"
    then have "last_reads (pb_fp pb) (pb_next_page pb) (tree_cells False (fst l)) (fst (snd l))" using inv \<open>cur \<noteq> []\<close> by auto
    from last_reads_key [OF this k(1)] show "tree_cells False (fst l) \<noteq> [] \<and> fst (snd l) = row_key fp' (last (tree_cells False (fst l)))" by simp
  qed
  have "length ?ls \<le> length (full False ls @ cur)" using length_full [of ?ls] leaf by simp
  then have "height (fst t) \<le> Suc (length rows)" using t(5) means_values(2) [OF m] by (simp add: cells)
  moreover have "alloc lo n ((parts_pages ?ls @ us) @ vs)" by (rule alloc_append) (use r1 w in auto)
  then have "alloc lo n (tree_pages (fst t) @ us)" by (rule alloc_mset [rotated]) (simp add: t(3))
  moreover have "seekable (row_key fp') (fst t)" if sorted: "sorted_wrt (<) (map fst rows)"
  proof -
    have rows: "map (row_key fp') (full False ls @ cur) = map fst rows" using means_values(2) [OF m] by (simp add: cells row_key_def comp_def)
    then have range: "row_key fp' ` set (full False ls @ cur) = fst ` set rows" by (metis set_map)
    have "\<forall>c \<in> set (full False ls @ cur). 0 \<le> row_key fp' c \<and> row_key fp' c < 2 ^ 56"
    proof
      fix c assume "c \<in> set (full False ls @ cur)"
      then have "row_key fp' c \<in> fst ` set rows" unfolding range [symmetric] by (rule imageI)
      then show "0 \<le> row_key fp' c \<and> row_key fp' c < 2 ^ 56" using assms(3) unfolding rows_ok_def by (elim imageE) simp
    qed
    then have "in_order (row_key fp') ?ls" using sorted leaf hs rows by (intro in_order_leaves) auto
    then show ?thesis using t(6) by (simp add: in_order_def)
  qed
  moreover have "tree_stored False fp' (fst t)" using w by (simp add: parts_ok_def)
  ultimately show "table_at fp' lo n rt rows" using m res(3) assms(1) unfolding table_at_def by blast
qed

lemma empty_leaf:
  assumes "write_empty_leaf fp lo 0 (if ix then 0x0A else 0x0D) = (fp', n, rt)" "2 \<le> lo" "n \<le> 2 ^ 32"
  shows "rt = root (BLeaf rt [])" "tree_stored ix fp' (BLeaf rt [])" "alloc lo n [rt]" "keeps fp fp' lo" "lo < n"
proof -
  let ?p = "cbm_skip_pending_byte lo" and ?flag = "if ix then 0x0A else 0x0D :: u8"
  let ?m = "page_header (\<lambda>_. 0) 0 ?flag 0 65536"
  have r: "rt = ?p" "n = Suc ?p" "fp' = write_page fp ?p ?m" using assms(1) by (auto simp: write_empty_leaf_def Let_def)
  have p: "lo \<le> ?p" by (rule skip_bounds(1))
  have "page_cells ?m 0 ?flag 8 []" using page_cells_header [of "\<lambda>_. 0" 0 8 "[]" 65536 ?flag] by (simp add: holds_Nil)
  then have "page_cells (page_at fp' ?p) 0 ?flag 8 []" by (rule page_cells_cong) (use p assms(2) in \<open>auto simp: page_at_write r(3)\<close>)
  then show "tree_stored ix fp' (BLeaf rt [])" using p assms(2,3) r by auto
  show "alloc lo n [rt]" using alloc_snoc [OF alloc_Nil order_refl, of lo] r by simp
  show "keeps fp fp' lo" unfolding r(3) by (rule keeps_write) (use p assms(2) in auto)
qed (use skip_bounds(1) [of lo] assms(1) in \<open>auto simp: write_empty_leaf_def Let_def\<close>)

lemma write_one_table_at:
  assumes "write_one_table rows fp lo = (fp', n, rt, ub)" "2 \<le> lo" "rows_ok rows" "n \<le> 2 ^ 32"
  shows "table_at fp' lo n rt rows" "keeps fp fp' lo" "lo < n" "\<not> ub"
proof -
  have "table_at fp' lo n rt rows \<and> keeps fp fp' lo \<and> lo < n \<and> \<not> ub"
  proof (cases "rows = []")
    case True
    then have "write_empty_leaf fp lo 0 (if False then 0x0A else 0x0D) = (fp', n, rt)" and ub: "\<not> ub"
      using assms(1) by (auto simp: write_one_table_def write_table_btree_def BTREE_LEAF_TABLE_def split: prod.splits)
    from empty_leaf [OF this(1) assms(2,4)] show ?thesis using True assms(2) ub
      by (auto simp: table_at_def means_Nil intro!: exI [of _ "BLeaf rt []"] exI [of _ "[]"])
  next
    case False
    then show ?thesis using table_tree [OF assms(2) False assms(3,4)] assms(1) by (simp add: write_one_table_def)
  qed
  then show "table_at fp' lo n rt rows" "keeps fp fp' lo" "lo < n" "\<not> ub" by simp_all
qed

lemma write_table_btree_one: "2 \<le> lo \<Longrightarrow> write_table_btree fp lo rows False = write_one_table rows fp lo"
  by (auto simp: write_table_btree_def write_one_table_def pb_init_def Let_def)

end
