(* ===== verification/DbIndexes.thy ===== *)
theory DbIndexes
  imports DbTables
begin

text \<open>
  Indexes: the entries that are written come back in their order, those on the interior pages included.
\<close>

section \<open>Cells of an index\<close>

definition small_cells :: "u8 list list \<Rightarrow> bool" where
  "small_cells cells \<longleftrightarrow> (\<forall>c \<in> set cells. c \<noteq> [] \<and> length c \<le> 16434)"

definition entry_cell :: "u8 list \<Rightarrow> u8 list" where
  "entry_cell payload = put_varint (int (length payload)) @ payload"

lemma index_cell_entry: "index_cell r = entry_cell (rec_finalize r)"
  by (simp add: index_cell_def entry_cell_def Let_def)

lemma get_varint_cell: "length payload < 2 ^ 56 \<Longrightarrow> get_varint (\<lambda>i. entry_cell payload ! i) = (length payload, length (put_varint (int (length payload))))"
  by (rule get_put_varint) (simp_all add: entry_cell_def nth_append)

lemma overflowize_spec:
  assumes "overflowize_index_cell fp np (entry_cell payload) = (c, fp', np')" "length payload < 2 ^ 56" "1 < np" "np' \<le> 2 ^ 32"
  shows "np \<le> np' \<and> keeps fp fp' np \<and> small_cells [c] \<and> cell_reads index_entry fp' np' c ([np..<np'], payload)"
proof -
  let ?v = "put_varint (int (length payload))"
  have v: "length ?v \<le> 8" using put_varint_length [OF assms(2)] .
  show ?thesis
  proof (cases "length payload \<le> 16422")
    case True
    then have r: "c = entry_cell payload" "fp' = fp" "np' = np" using assms(1) get_varint_cell [OF assms(2)] by (simp_all add: overflowize_index_cell_def limits)
    have "index_entry f m p = ([], payload)" if "bytes_at m p (length (entry_cell payload)) = entry_cell payload" for f m p
      using that True get_varint_mem [of m p "length payload"] assms(2) unfolding entry_cell_def bytes_at_append by (simp add: index_entry_def read_payload_def limits)
    then show ?thesis using r v True by (simp add: cell_reads_def small_cells_def) (simp add: entry_cell_def)
  next
    case False
    let ?n = "index_local (length payload)"
    have n: "?n < length payload" using False local_bounds(2) [of "length payload"] by simp
    obtain f where w: "write_overflow_pages fp np (drop ?n payload) = (fp', np', f)" and c: "c = ?v @ take ?n payload @ put_u32 f"
      using assms(1) get_varint_cell [OF assms(2)] False n by (auto simp: overflowize_index_cell_def limits Let_def entry_cell_def split: prod.splits)
    have ne: "drop ?n payload \<noteq> []" using n by simp
    have "index_entry fp'' m p = ([np..<np'], payload)" if k: "keeps fp' fp'' np'" and b: "bytes_at m p (length c) = c" for fp'' m p
    proof -
      have b': "bytes_at m p (length ?v) = ?v" "bytes_at m (p + length ?v) (length (take ?n payload @ put_u32 f)) = take ?n payload @ put_u32 f"
        using b unfolding c bytes_at_append by simp_all
      have "read_payload fp'' index_limit m (p + length ?v) (length payload) = ([np..<np'], payload)"
        by (rule read_payload_overflow) (use assms(3,4) w k b'(2) False local_bounds in \<open>auto simp: limits\<close>)
      then show ?thesis using b'(1) assms(2) get_varint_mem [of m p "length payload"] by (simp add: index_entry_def)
    qed
    moreover have "small_cells [c]" using v local_bounds(2) [of "length payload"] by (simp add: small_cells_def c)
    ultimately show ?thesis using overflow_pages [OF w ne assms(3,4)] by (simp add: cell_reads_def)
  qed
qed

lemma overflowize_mono: "np \<le> snd (snd (overflowize_index_cell fp np cell))"
  using overflow_loop_mono [of np fp _ 0 None]
  by (auto simp: overflowize_index_cell_def write_overflow_pages_def Let_def split: prod.splits) (metis fst_conv snd_conv)

lemma overflowize_all_mono: "np \<le> snd (snd (overflowize_all fp np cells))"
proof (induction fp np cells rule: overflowize_all.induct)
  case (2 fp np cell cells)
  obtain c fp1 np1 where o: "overflowize_index_cell fp np cell = (c, fp1, np1)" by (metis prod_cases3)
  then show ?case using 2 [OF o [symmetric] refl] overflowize_mono [of np fp cell] by (simp add: split_def)
qed simp

lemma overflowize_all_spec:
  assumes "overflowize_all fp np (map entry_cell es) = (cells, fp', np')" "\<forall>e \<in> set es. length e < 2 ^ 56" "1 < np" "np' \<le> 2 ^ 32"
  shows "\<exists>us. np \<le> np' \<and> keeps fp fp' np \<and> small_cells cells \<and> means index_entry fp' np' cells us es \<and> alloc np np' us"
  using assms
proof (induction es arbitrary: fp np cells)
  case Nil
  then show ?case by (auto simp: small_cells_def intro!: exI [of _ "[]"] means_Nil alloc_Nil)
next
  case (Cons e es)
  obtain c fp1 np1 where o: "overflowize_index_cell fp np (entry_cell e) = (c, fp1, np1)" by (metis prod_cases3)
  obtain cs where r: "overflowize_all fp1 np1 (map entry_cell es) = (cs, fp', np')" and cells: "cells = c # cs"
    using Cons.prems(1) o by (auto split: prod.splits)
  have np1: "np1 \<le> 2 ^ 32" using overflowize_all_mono [of np1 fp1 "map entry_cell es"] r Cons.prems(4) by simp
  have c: "np \<le> np1" "keeps fp fp1 np" "small_cells [c]" "cell_reads index_entry fp1 np1 c ([np..<np1], e)"
    using overflowize_spec [OF o _ Cons.prems(3) np1] Cons.prems(2) by auto
  obtain us where ih: "np1 \<le> np'" "keeps fp1 fp' np1" "small_cells cs" "means index_entry fp' np' cs us es" "alloc np1 np' us"
    using Cons.IH [OF r _ _ Cons.prems(4)] Cons.prems(2,3) c(1) by auto
  have "means index_entry fp' np' cells ([np..<np1] @ us) (e # es)"
    using ih(4) cell_reads_keeps [OF c(4) ih(2,1)] unfolding means_def cells by (elim exE conjE) (rule_tac x = "([np..<np1], e) # vs" in exI, simp)
  moreover have "alloc np np' ([np..<np1] @ us)" by (rule alloc_append [OF alloc_upt ih(5) c(1) ih(1)])
  ultimately show ?case using ih c keeps_trans [OF c(2) ih(2) c(1)] by (auto simp: cells small_cells_def)
qed

section \<open>The index writer\<close>

lemma promote_spec:
  assumes "pb_rel True lo pb ls us cur" "1 < length cur" "pb_next_page (pb_promote_and_flush pb (last cur)) \<le> 2 ^ 32"
  defines "pn \<equiv> cbm_skip_pending_byte (pb_next_page pb)"
  shows "pb_rel True lo (pb_promote_and_flush pb (last cur)) (ls @ [(BLeaf pn (butlast cur), 0, last cur)]) us []"
    and "keeps (pb_fp pb) (pb_fp (pb_promote_and_flush pb (last cur))) (pb_next_page pb)"
proof -
  obtain cs c where cur: "cur = cs @ [c]" "cs \<noteq> []" using assms(2) by (cases cur rule: rev_cases) auto
  let ?pb = "pb\<lparr>pb_cell_count := pb_cell_count pb - 1, pb_content_offset := pb_content_offset pb + length c, pb_ptr_offset := pb_ptr_offset pb - CELL_PTR_SIZE\<rparr>"
  note r = assms(1) [unfolded pb_rel_def]
  have "cells_size cs + length c \<le> 65536" using r by (auto simp: holds_def cur)
  then have "pb_rel True lo ?pb ls us cs" using r holds_butlast [of "pb_page pb" 8 cs c] by (simp add: pb_rel_def cur layout)
  moreover have "pb_promote_and_flush pb (last cur) = pb_flush_leaf ?pb 0 c" by (simp add: pb_promote_and_flush_def cur)
  moreover from this have "cbm_skip_pending_byte (pb_next_page ?pb) < 2 ^ 32"
    using assms(3) cur(2) r by (simp add: pb_flush_leaf_def Let_def cur(1))
  ultimately show "pb_rel True lo (pb_promote_and_flush pb (last cur)) (ls @ [(BLeaf pn (butlast cur), 0, last cur)]) us []"
    "keeps (pb_fp pb) (pb_fp (pb_promote_and_flush pb (last cur))) (pb_next_page pb)"
    using pb_rel_flush [of True lo ?pb ls us cs 0 c] cur by (simp_all add: pn_def)
qed

lemma promote_mono: "pb_next_page pb \<le> pb_next_page (pb_promote_and_flush pb prev)"
  unfolding pb_promote_and_flush_def by (rule order_trans [OF _ flush_mono]) simp

lemma add_index_mono: "pb_next_page pb \<le> pb_next_page (add_index_cells pb prev cells)"
proof (induction pb prev cells rule: add_index_cells.induct)
  case (2 pb prev cell cells)
  let ?pb = "if \<not> pb_cell_fits pb (length cell) \<and> pb_cell_count pb > 0 then pb_promote_and_flush pb prev else pb"
  have "pb_next_page pb \<le> pb_next_page ?pb" using promote_mono by simp
  also have "\<dots> \<le> pb_next_page (add_index_cells pb prev (cell # cells))" using 2 [OF refl] by (simp add: Let_def if_distrib [of pb_next_page] cong: if_cong)
  finally show ?case .
qed simp

lemma size_bound: "small_cells cells \<Longrightarrow> cells_size cells \<le> 16434 * length cells"
  by (induction cells) (auto simp: small_cells_def)

definition index_inv :: "FILE \<Rightarrow> nat \<Rightarrow> PageBuilder \<Rightarrow> u8 list list \<Rightarrow> part list \<Rightarrow> u8 list list \<Rightarrow> bool" where
  \<comment> \<open>the state of the index writer after some cells\<close>
  "index_inv fp0 lo pb cells ls cur \<longleftrightarrow> pb_rel True lo pb ls [] cur \<and> keeps fp0 (pb_fp pb) lo \<and> full True ls @ cur = cells \<and>
     small_cells cells \<and> (\<forall>l \<in> set ls. height (fst l) \<le> 1) \<and> (cells \<noteq> [] \<longrightarrow> cur \<noteq> [])"

lemma index_inv_add:
  assumes inv: "index_inv fp0 lo pb cells ls cur" "small_cells [c]" "cells \<noteq> [] \<longrightarrow> prev = last cells"
  defines "pb' \<equiv> (if \<not> pb_cell_fits pb (length c) \<and> pb_cell_count pb > 0 then pb_promote_and_flush pb prev else pb)"
  assumes "pb_next_page pb' \<le> 2 ^ 32"
  shows "pb_cell_fits pb' (length c) \<and> (\<exists>ls' cur'. index_inv fp0 lo (pb_add_cell pb' c) (cells @ [c]) ls' cur')"
proof -
  note i = inv(1) [unfolded index_inv_def]
  have c: "c \<noteq> []" "length c \<le> 16434" using inv(2) by (auto simp: small_cells_def)
  have fits: "pb_cell_fits q (length c)" if "pb_rel True lo q ls' [] cs" "small_cells cs" "length cs \<le> 2" for q ls' cs
    using that(1,3) size_bound [OF that(2)] c(2) by (simp add: pb_rel_def pb_cell_fits_def layout)
  have small: "small_cells (cells @ [c])" "small_cells cur" using i inv(2) by (auto simp: small_cells_def)
  show ?thesis
  proof (cases "pb_cell_fits pb (length c)")
    case True
    then have "index_inv fp0 lo (pb_add_cell pb' c) (cells @ [c]) ls (cur @ [c])"
      using i small pb_rel_add [of True lo pb ls "[]" cur c] c(1) by (auto simp: index_inv_def pb'_def)
    then show ?thesis using True by (auto simp: pb'_def)
  next
    case False
    then have len: "2 < length cur" using fits small(2) i by (meson not_le)
    have "pb_cell_count pb = length cur" using i by (simp add: pb_rel_def)
    moreover have "prev = last cur" using inv(3) i len by auto
    ultimately have pb': "pb' = pb_promote_and_flush pb (last cur)" using False len by (auto simp: pb'_def)
    have "pb_rel True lo pb ls [] cur" "1 < length cur" using i len by auto
    note f = promote_spec [OF this assms(5) [unfolded pb'], folded pb']
    let ?l = "(BLeaf (cbm_skip_pending_byte (pb_next_page pb)) (butlast cur), 0, last cur) :: part"
    have ft: "pb_cell_fits pb' (length c)" by (rule fits [OF f(1)]) (simp_all add: small_cells_def)
    have "butlast cur @ [last cur] = cur" using len by (intro append_butlast_last_id) auto
    then have "full True (ls @ [?l]) @ [c] = cells @ [c]" using i by simp
    moreover have "keeps fp0 (pb_fp pb') lo" by (rule keeps_trans [OF _ f(2)]) (use i in \<open>auto simp: pb_rel_def\<close>)
    ultimately have "index_inv fp0 lo (pb_add_cell pb' c) (cells @ [c]) (ls @ [?l]) [c]"
      using i small pb_rel_add [OF f(1) ft c(1)] by (auto simp: index_inv_def)
    then show ?thesis using ft by blast
  qed
qed

lemma index_inv_cells:
  assumes "index_inv fp0 lo pb cells0 ls cur" "small_cells cells" "cells0 \<noteq> [] \<longrightarrow> prev = last cells0" "pb_next_page (add_index_cells pb prev cells) \<le> 2 ^ 32"
  shows "\<exists>ls' cur'. index_inv fp0 lo (add_index_cells pb prev cells) (cells0 @ cells) ls' cur'"
  using assms
proof (induction cells arbitrary: pb prev cells0 ls cur)
  case (Cons c cells)
  let ?pb = "if \<not> pb_cell_fits pb (length c) \<and> pb_cell_count pb > 0 then pb_promote_and_flush pb prev else pb"
  let ?pb' = "if pb_cell_fits ?pb (length c) then pb_add_cell ?pb c else ?pb"
  have step: "add_index_cells pb prev (c # cells) = add_index_cells ?pb' c cells" by (simp add: Let_def)
  have small: "small_cells [c]" "small_cells cells" using Cons.prems(2) by (auto simp: small_cells_def)
  have "pb_next_page ?pb \<le> 2 ^ 32"
    using Cons.prems(4) add_index_mono [of ?pb' c cells] unfolding step by (simp add: if_distrib [of pb_next_page] cong: if_cong)
  from index_inv_add [OF Cons.prems(1) small(1) Cons.prems(3) this] obtain ls' cur' where
    i: "index_inv fp0 lo ?pb' (cells0 @ [c]) ls' cur'" by (auto simp del: if_image_distrib)
  show ?case using Cons.IH [OF i small(2)] Cons.prems(4) unfolding step by simp
qed auto

section \<open>A whole index\<close>

definition index_at :: "FILE \<Rightarrow> nat \<Rightarrow> nat \<Rightarrow> nat \<Rightarrow> u8 list list \<Rightarrow> bool" where
  \<comment> \<open>the pages from one number to another one are an index with the given root and entries\<close>
  "index_at fp lo n rt es \<longleftrightarrow> (\<exists>t us. rt = root t \<and> tree_stored True fp t \<and> means index_entry fp n (tree_cells True t) us es \<and>
     2 \<le> lo \<and> alloc lo n (tree_pages t @ us) \<and> height t \<le> Suc (length es))"

lemma index_at_keeps: "index_at fp lo n rt es \<Longrightarrow> keeps fp fp' n \<Longrightarrow> index_at fp' lo n rt es"
proof -
  assume "index_at fp lo n rt es" and k: "keeps fp fp' n"
  then obtain t us where t: "rt = root t" "tree_stored True fp t" "means index_entry fp n (tree_cells True t) us es" "2 \<le> lo" "alloc lo n (tree_pages t @ us)"
    "height t \<le> Suc (length es)"
    unfolding index_at_def by blast
  have "set (tree_pages t) \<subseteq> {2..<n}" using t(4,5) by (auto simp: alloc_def)
  then have "tree_stored True fp' t" by (rule tree_stored_keeps [OF t(2) k])
  then show ?thesis using t means_keeps [OF t(3) k order_refl] unfolding index_at_def by blast
qed

lemma index_at_read:
  assumes "index_at fp lo n rt es" "Suc (length es) \<le> d"
  shows "\<exists>ps. read_index fp d rt = Some (ps, es) \<and> alloc lo n ps"
proof -
  obtain t us where t: "rt = root t" "tree_stored True fp t" "means index_entry fp n (tree_cells True t) us es" "alloc lo n (tree_pages t @ us)"
    "height t \<le> Suc (length es)"
    using assms(1) unfolding index_at_def by blast
  have "read_index fp d rt = Some (read_pages True (cell_value index_entry fp) t, map (\<lambda>c. snd (cell_value index_entry fp c)) (tree_cells True t))"
    unfolding read_index_def t(1)
    by (rule read_stored [where C = "set (tree_cells True t)" and ix = True]) (use t assms(2) means_values(3) [OF t(3)] in auto)
  moreover have "alloc lo n (read_pages True (cell_value index_entry fp) t)"
    by (rule alloc_mset [OF _ t(4)]) (simp add: read_pages_mset means_values(1) [OF t(3)])
  ultimately show ?thesis using means_values(2) [OF t(3)] by auto
qed

lemma length_full_True: "length ls \<le> length (full True ls)"
  by (induction ls) (auto simp: full_def)

lemma write_index_levels:
  assumes "cells \<noteq> []" "overflowize_all fp np cells = (cells', fp1, np1)" "0 < pb_cell_count (add_index_cells (pb_init fp1 np1 True) [] cells')"
  defines "pb \<equiv> pb_flush_leaf (add_index_cells (pb_init fp1 np1 True) [] cells') 0 (last cells')"
  shows "write_index_btree fp np cells = (case build_levels pb True (pb_leaves pb) of (cs, pb) \<Rightarrow> (pb_fp pb, pb_next_page pb, page_num (hd cs), pb_ub pb))"
proof -
  have ne: "pb_leaves pb \<noteq> []" using assms(3) by (simp add: pb_def pb_flush_leaf_def Let_def)
  show ?thesis
  proof (cases "length (pb_leaves pb) > 1")
    case True
    obtain cs pb' where b: "build_levels pb True (pb_leaves pb) = (cs, pb')" by fastforce
    have "cs \<noteq> []" using build_levels_ne [OF ne, of pb True] b by simp
    then have "pb_build_interior pb True = (page_num (hd cs), pb')" using True ne b by (simp add: pb_build_interior_def)
    then show ?thesis using True assms(1-3) b ne by (simp add: write_index_btree_def Let_def pb_def)
  next
    case False
    then have "length (pb_leaves pb) = 1" using ne by (cases "pb_leaves pb") auto
    moreover have "build_levels pb True (pb_leaves pb) = (pb_leaves pb, pb)" using False by (subst build_levels.simps) simp
    ultimately show ?thesis using assms(1-3) ne by (simp add: write_index_btree_def Let_def pb_def)
  qed
qed

lemma add_cell_count_pos: "0 < pb_cell_count (pb_add_cell pb c)"
  by (simp add: pb_add_cell_def Let_def)

lemma flush_next: "0 < pb_cell_count pb \<Longrightarrow> pb_next_page (pb_flush_leaf pb k sep) = Suc (cbm_skip_pending_byte (pb_next_page pb))"
  by (simp add: pb_flush_leaf_def Let_def)

lemma index_tree:
  assumes i: "index_inv fp lo pb cells ls cur" "cells \<noteq> []"
    and lev: "build_levels pb1 True (pb_leaves pb1) = (cs, pb2)" "pb1 = pb_flush_leaf pb 0 (last cells)" "pb_next_page pb2 \<le> 2 ^ 32"
  shows "\<exists>t. page_num (hd cs) = root t \<and> tree_stored True (pb_fp pb2) t \<and> tree_cells True t = cells \<and> alloc lo (pb_next_page pb2) (tree_pages t) \<and>
    height t \<le> Suc (length cells) \<and> keeps fp (pb_fp pb2) lo \<and> lo < pb_next_page pb2 \<and> \<not> pb_ub pb2"
proof -
  note inv = i(1) [unfolded index_inv_def]
  let ?pn = "cbm_skip_pending_byte (pb_next_page pb)" and ?n = "pb_next_page pb2"
  have "0 < pb_cell_count pb" using inv i(2) by (auto simp: pb_rel_def)
  then have next1: "pb_next_page pb1 = Suc ?pn" unfolding lev(2) by (rule flush_next)
  then have pn: "?pn < 2 ^ 32" "pb_next_page pb \<le> pb_next_page pb1" "pb_next_page pb1 \<le> ?n"
    using build_levels_mono [of pb1 True "pb_leaves pb1"] lev skip_bounds(1) [of "pb_next_page pb"] by auto
  have "pb_rel True lo pb ls [] cur" "cur \<noteq> []" using inv i(2) by auto
  note fl = pb_rel_flush [OF this pn(1), of 0 "last cells", folded lev(2)]
  let ?ls = "ls @ [(BLeaf ?pn cur, 0, last cells)]"
  note r1 = fl(1) [unfolded pb_rel_def]
  have fullc: "full True ?ls = cells @ [last cells]" using inv by simp
  have small: "small_cells (cells @ [last cells])" using inv i(2) by (auto simp: small_cells_def)
  have "snd (snd l) \<in> set (full True ?ls)" if "l \<in> set ?ls" for l using that unfolding full_def by auto
  then have keys: "short_keys True ?ls" using small unfolding fullc small_cells_def short_keys_def key_part_def by fastforce
  have hs: "\<forall>l \<in> set ?ls. height (fst l) \<le> 1" using inv by auto
  have "pb_next_page (snd (build_levels pb1 True (map ref_of ?ls))) \<le> 2 ^ 32" using lev r1 by simp
  then obtain t fp2 n2 vs where t: "build_levels pb1 True (map ref_of ?ls) = ([ref_of t], pb1\<lparr>pb_fp := fp2, pb_next_page := n2\<rparr>)"
    "wrote True pb1 fp2 n2 vs [t]" "mset (tree_pages (fst t)) = mset (vs @ parts_pages ?ls)" "full True [t] = full True ?ls"
    "height (fst t) < 1 + length ?ls"
    using build_levels_spec [of True pb1 ?ls 1 "\<lambda>_. True"] r1 keys hs by auto
  have res: "fp2 = pb_fp pb2" "n2 = ?n" "page_num (hd cs) = root (fst t)" "\<not> pb_ub pb2" using lev(1) t(1) r1 by (auto simp: ref_of_def)
  note w = t(2) [unfolded wrote_def res]
  have "tree_cells True (fst t) = cells" using t(4) unfolding fullc by simp
  moreover have "keeps fp (pb_fp pb2) lo"
    using keeps_trans [OF keeps_trans [OF _ fl(2), of fp lo] _, of "pb_fp pb2" "pb_next_page pb1"] inv w r1 by (auto simp: pb_rel_def)
  moreover have "lo < ?n" using inv pn next1 skip_bounds(1) [of "pb_next_page pb"] by (auto simp: pb_rel_def)
  moreover have "height (fst t) \<le> Suc (length cells)" using t(5) length_full_True [of ?ls] unfolding fullc by simp
  moreover have "alloc lo ?n ((parts_pages ?ls @ []) @ vs)" by (rule alloc_append) (use r1 w in auto)
  then have "alloc lo ?n (tree_pages (fst t))" by (rule alloc_mset [rotated]) (simp add: t(3))
  moreover have "tree_stored True (pb_fp pb2) (fst t)" using w by (simp add: parts_ok_def)
  ultimately show ?thesis using res(3,4) by blast
qed

lemma index_init: "2 \<le> np \<Longrightarrow> index_inv fp np (pb_init fp np True) [] [] []"
  by (simp add: index_inv_def pb_rel_init small_cells_def) (simp add: pb_init_def Let_def)

lemma add_index_count: "small_cells cells \<Longrightarrow> cells \<noteq> [] \<Longrightarrow> pb_next_page (add_index_cells (pb_init fp np True) [] cells) \<le> 2 ^ 32 \<Longrightarrow> 2 \<le> np \<Longrightarrow>
    \<exists>ls cur. index_inv fp np (add_index_cells (pb_init fp np True) [] cells) cells ls cur"
  using index_inv_cells [OF index_init, of np cells "[]" fp] by simp

lemma build_interior_mono: "pb_next_page pb \<le> pb_next_page (snd (pb_build_interior pb ix))"
  using build_levels_mono [of pb ix "pb_leaves pb"] by (auto simp: pb_build_interior_def split: prod.splits)

lemma write_index_mono:
  assumes "cells \<noteq> []" "overflowize_all fp np cells = (cells', fp1, np1)" "write_index_btree fp np cells = (fp', n, rt, ub)"
  shows "pb_next_page (add_index_cells (pb_init fp1 np1 True) [] cells') \<le> n"
proof -
  let ?pb = "add_index_cells (pb_init fp1 np1 True) [] cells'"
  let ?pb1 = "if pb_cell_count ?pb > 0 then pb_flush_leaf ?pb 0 (last cells') else ?pb"
  have "pb_next_page ?pb \<le> pb_next_page ?pb1" using flush_mono by simp
  also have "\<dots> \<le> n"
    using assms build_interior_mono [of ?pb1 True] unfolding write_index_btree_def by (auto simp: Let_def split: prod.splits if_splits)
  finally show ?thesis .
qed

lemma write_index_at:
  assumes w: "write_index_btree fp lo (map entry_cell es) = (fp', n, rt, ub)" and lo: "2 \<le> lo" "n \<le> 2 ^ 32" and es: "\<forall>e \<in> set es. length e < 2 ^ 56"
  shows "index_at fp' lo n rt es \<and> keeps fp fp' lo \<and> lo < n \<and> \<not> ub"
proof (cases "es = []")
  case True
  then have "write_empty_leaf fp lo 0 (if True then 0x0A else 0x0D) = (fp', n, rt)" and ub: "\<not> ub"
    using w by (auto simp: write_index_btree_def BTREE_LEAF_INDEX_def split: prod.splits)
  from empty_leaf [OF this(1) lo] show ?thesis using True lo(1) ub
    by (auto simp: index_at_def means_Nil intro!: exI [of _ "BLeaf rt []"] exI [of _ "[]"])
next
  case False
  obtain cells fp1 np1 where o: "overflowize_all fp lo (map entry_cell es) = (cells, fp1, np1)" by (metis prod_cases3)
  define pb where "pb = add_index_cells (pb_init fp1 np1 True) [] cells"
  have cells_ne: "cells \<noteq> []" using o False by (cases es) (auto split: prod.splits)
  have "pb_next_page pb \<le> n" unfolding pb_def by (rule write_index_mono [OF _ o w]) (use False in simp)
  moreover have "np1 \<le> pb_next_page pb" using add_index_mono [of "pb_init fp1 np1 True" "[]" cells] by (simp add: pb_def pb_init_def Let_def)
  ultimately have small: "pb_next_page pb \<le> 2 ^ 32" "np1 \<le> 2 ^ 32" using lo(2) by auto
  obtain us where us: "lo \<le> np1" "keeps fp fp1 lo" "small_cells cells" "means index_entry fp1 np1 cells us es" "alloc lo np1 us"
    using overflowize_all_spec [OF o es _ small(2)] lo(1) by auto
  obtain ls cur where inv: "index_inv fp1 np1 pb cells ls cur"
    using add_index_count [OF us(3) cells_ne, of fp1 np1] small(1) us(1) lo(1) unfolding pb_def by auto
  define pb1 where "pb1 = pb_flush_leaf pb 0 (last cells)"
  obtain cs pb2 where b: "build_levels pb1 True (pb_leaves pb1) = (cs, pb2)" by fastforce
  have "0 < pb_cell_count pb" using inv cells_ne by (auto simp: index_inv_def pb_rel_def)
  then have r: "fp' = pb_fp pb2" "n = pb_next_page pb2" "rt = page_num (hd cs)" "ub = pb_ub pb2"
    using write_index_levels [OF _ o, folded pb_def, folded pb1_def] b w False by simp_all
  obtain t where t: "rt = root t" "tree_stored True fp' t" "tree_cells True t = cells" "alloc np1 n (tree_pages t)" "height t \<le> Suc (length cells)"
    "keeps fp1 fp' np1" "np1 < n" "\<not> ub"
    using index_tree [OF inv cells_ne b pb1_def] lo(2) unfolding r by blast
  have m: "means index_entry fp' n cells us es" by (rule means_keeps [OF us(4) t(6)]) (use t(7) in simp)
  have "alloc lo n (us @ tree_pages t)" by (rule alloc_append [OF us(5) t(4) us(1)]) (use t(7) in simp)
  then have "alloc lo n (tree_pages t @ us)" by (rule alloc_mset [rotated]) simp
  moreover have "height t \<le> Suc (length es)" using t(5) means_values(2) [OF m] by simp
  ultimately have "index_at fp' lo n rt es" using t(1-3) m lo(1) unfolding index_at_def by blast
  then show ?thesis using keeps_trans [OF us(2) t(6) us(1)] t(7,8) us(1) by simp
qed

end
