(* ===== verification/DbFile.thy ===== *)
theory DbFile
  imports DbIndexes
begin

text \<open>
  The whole file. A step of the writer puts one B-tree behind the pages that are there already; the contract is the
  locale \<open>tree_writer\<close>, with the table writer and the index writer as its instances. A sequence of
  steps leaves all of its trees in the file, on pages of their own, and the schema page names their roots.
\<close>

section \<open>One B-tree after the other\<close>

datatype content = TableOf "(int \<times> u8 list) list" | IndexOf "u8 list list"

fun content_ok :: "content \<Rightarrow> bool" where
  "content_ok (TableOf rows) \<longleftrightarrow> rows_ok rows"
| "content_ok (IndexOf es) \<longleftrightarrow> (\<forall>e \<in> set es. length e < 2 ^ 56)"

fun tree_at :: "FILE \<Rightarrow> nat \<Rightarrow> nat \<Rightarrow> nat \<Rightarrow> content \<Rightarrow> bool" where
  "tree_at fp lo n rt (TableOf rows) \<longleftrightarrow> table_at fp lo n rt rows"
| "tree_at fp lo n rt (IndexOf es) \<longleftrightarrow> index_at fp lo n rt es"

fun reads_as :: "FILE \<Rightarrow> nat \<Rightarrow> content \<Rightarrow> nat list \<Rightarrow> bool" where
  \<comment> \<open>reading from a root gives the content, found on the given pages\<close>
  "reads_as fp rt (TableOf rows) ps \<longleftrightarrow> read_table fp (Suc (length rows)) rt = Some (ps, rows)"
| "reads_as fp rt (IndexOf es) ps \<longleftrightarrow> read_index fp (Suc (length es)) rt = Some (ps, es)"

lemma tree_at_keeps: "tree_at fp lo n rt c \<Longrightarrow> keeps fp fp' n \<Longrightarrow> tree_at fp' lo n rt c"
  by (cases c) (auto intro: table_at_keeps index_at_keeps)

lemma tree_at_read: "tree_at fp lo n rt c \<Longrightarrow> \<exists>ps. reads_as fp rt c ps \<and> alloc lo n ps"
  by (cases c) (auto dest: table_at_read index_at_read)

lemma tree_at_root: "tree_at fp lo n rt c \<Longrightarrow> lo \<le> rt \<and> rt < n"
proof -
  assume "tree_at fp lo n rt c"
  then obtain t us where "rt = root t" "alloc lo n (tree_pages t @ us)" by (cases c) (auto simp: table_at_def index_at_def)
  then show ?thesis using root_pages [of t] by (auto simp: alloc_def)
qed

locale tree_writer =
  fixes step :: btree_step and c :: content
  assumes step_mono: "2 \<le> lo \<Longrightarrow> lo \<le> fst (snd (step fp lo))"
    and step_writes: "step fp lo = (fp', n, rt, ub) \<Longrightarrow> 2 \<le> lo \<Longrightarrow> n \<le> 2 ^ 32 \<Longrightarrow> content_ok c \<Longrightarrow>
      tree_at fp' lo n rt c \<and> keeps fp fp' lo \<and> lo < n \<and> \<not> ub"
begin

lemma step_context:
  assumes "in_ctx w (step (wc_fp w) (wc_next_page w)) = (rt, w')" "2 \<le> wc_next_page w" "wc_next_page w' \<le> 2 ^ 32" "content_ok c"
  shows "tree_at (wc_fp w') (wc_next_page w) (wc_next_page w') rt c" "keeps (wc_fp w) (wc_fp w') (wc_next_page w)" "wc_next_page w < wc_next_page w'"
    "w' = w\<lparr>wc_fp := wc_fp w', wc_next_page := wc_next_page w'\<rparr>"
proof -
  obtain fp n r ub where s: "step (wc_fp w) (wc_next_page w) = (fp, n, r, ub)" by (metis prod_cases4)
  then have "w' = w\<lparr>wc_fp := fp, wc_next_page := n, wc_ub := wc_ub w \<or> ub\<rparr>" "r = rt" using assms(1) by (auto simp: in_ctx_def)
  then show "tree_at (wc_fp w') (wc_next_page w) (wc_next_page w') rt c" "keeps (wc_fp w) (wc_fp w') (wc_next_page w)" "wc_next_page w < wc_next_page w'"
    "w' = w\<lparr>wc_fp := wc_fp w', wc_next_page := wc_next_page w'\<rparr>"
    using step_writes [OF s assms(2) _ assms(4)] assms(3) by simp_all
qed

lemma context_mono: "2 \<le> wc_next_page w \<Longrightarrow> wc_next_page w \<le> wc_next_page (snd (in_ctx w (step (wc_fp w) (wc_next_page w))))"
  using step_mono [of "wc_next_page w" "wc_fp w"] by (simp add: in_ctx_def split_def)

end

lemma finalize_mono: "pb_next_page pb \<le> fst (snd (pb_finalize_table pb k))"
proof -
  let ?pb = "if pb_cell_count pb > 0 then pb_flush_leaf pb k [] else pb"
  have "pb_next_page pb \<le> pb_next_page ?pb" using flush_mono by simp
  also have "\<dots> \<le> fst (snd (pb_finalize_table pb k))"
    using build_interior_mono [of ?pb False] unfolding pb_finalize_table_def by (auto simp: Let_def split: prod.splits)
  finally show ?thesis .
qed

lemma empty_leaf_mono: "write_empty_leaf fp lo hdr flag = (fp', n, rt) \<Longrightarrow> lo \<le> n"
  using skip_bounds(1) [of lo] by (auto simp: write_empty_leaf_def Let_def)

lemma one_table_mono: "lo \<le> fst (snd (write_one_table rows fp lo))"
proof (cases "rows = []")
  case True
  then show ?thesis using empty_leaf_mono [of fp lo 0] by (auto simp: write_one_table_def write_table_btree_def split: prod.splits)
next
  case False
  have "lo \<le> pb_next_page (add_rows (pb_init fp lo False) 0 rows)" using add_rows_mono [of "pb_init fp lo False" 0 rows] by (simp add: pb_init_def Let_def)
  also have "\<dots> \<le> fst (snd (write_one_table rows fp lo))" using finalize_mono False by (simp add: write_one_table_def)
  finally show ?thesis .
qed

lemma index_mono: "lo \<le> fst (snd (write_index_btree fp lo cells))"
proof (cases "cells = []")
  case True
  then show ?thesis using empty_leaf_mono [of fp lo 0] by (auto simp: write_index_btree_def split: prod.splits)
next
  case False
  obtain cells' fp1 np1 where o: "overflowize_all fp lo cells = (cells', fp1, np1)" by (metis prod_cases3)
  obtain fp' n rt ub where w: "write_index_btree fp lo cells = (fp', n, rt, ub)" by (metis prod_cases4)
  have "lo \<le> np1" using overflowize_all_mono [of lo fp cells] o by simp
  also have "\<dots> \<le> pb_next_page (add_index_cells (pb_init fp1 np1 True) [] cells')"
    using add_index_mono [of "pb_init fp1 np1 True" "[]" cells'] by (simp add: pb_init_def Let_def)
  also have "\<dots> \<le> n" by (rule write_index_mono [OF False o w])
  finally show ?thesis using w by simp
qed

interpretation one_table: tree_writer "write_one_table rows" "TableOf rows" for rows
proof unfold_locales
  show "tree_at fp' lo n rt (TableOf rows) \<and> keeps fp fp' lo \<and> lo < n \<and> \<not> ub"
    if "write_one_table rows fp lo = (fp', n, rt, ub)" "2 \<le> lo" "n \<le> 2 ^ 32" "content_ok (TableOf rows)" for fp lo fp' n rt ub
    using write_one_table_at [OF that(1,2) _ that(3)] that(4) by simp
qed (rule one_table_mono)

interpretation index: tree_writer "\<lambda>fp np. write_index_btree fp np (map entry_cell es)" "IndexOf es" for es
proof unfold_locales
  show "tree_at fp' lo n rt (IndexOf es) \<and> keeps fp fp' lo \<and> lo < n \<and> \<not> ub"
    if "write_index_btree fp lo (map entry_cell es) = (fp', n, rt, ub)" "2 \<le> lo" "n \<le> 2 ^ 32" "content_ok (IndexOf es)" for fp lo fp' n rt ub
    using write_index_at [OF that(1-3)] that(4) by simp
qed (rule index_mono)

fun trees_at :: "FILE \<Rightarrow> nat \<Rightarrow> nat \<Rightarrow> nat list \<Rightarrow> content list \<Rightarrow> bool" where
  "trees_at fp lo n [] [] \<longleftrightarrow> lo = n"
| "trees_at fp lo n (r # rs) (c # cs) \<longleftrightarrow> (\<exists>mid. tree_at fp lo mid r c \<and> lo < mid \<and> mid \<le> n \<and> trees_at fp mid n rs cs)"
| "trees_at fp lo n _ _ \<longleftrightarrow> False"

lemma trees_at_keeps: "trees_at fp lo n rs cs \<Longrightarrow> keeps fp fp' n \<Longrightarrow> trees_at fp' lo n rs cs"
proof (induction fp lo n rs cs rule: trees_at.induct)
  case (2 fp lo n r rs c cs)
  then obtain mid where m: "tree_at fp lo mid r c" "lo < mid" "mid \<le> n" "trees_at fp mid n rs cs" by auto
  moreover have "keeps fp fp' mid" using "2.prems"(2) m(3) by (simp add: keeps_def)
  ultimately show ?case using 2 tree_at_keeps by (auto intro!: exI [of _ mid])
qed auto

lemma trees_at_le: "trees_at fp lo n rs cs \<Longrightarrow> lo \<le> n \<and> length rs = length cs"
  by (induction fp lo n rs cs rule: trees_at.induct) force+

lemma trees_at_append: "trees_at fp lo mid rs cs \<Longrightarrow> trees_at fp mid n rs' cs' \<Longrightarrow> trees_at fp lo n (rs @ rs') (cs @ cs')"
proof (induction fp lo mid rs cs rule: trees_at.induct)
  case (2 fp lo mid r rs c cs)
  then show ?case using trees_at_le [OF "2.prems"(2)] by (auto intro: order_trans)
qed auto

lemma trees_at_read: "trees_at fp lo n rs cs \<Longrightarrow> \<exists>pss. list_all2 (\<lambda>(r, c) ps. reads_as fp r c ps) (zip rs cs) pss \<and> alloc lo n (concat pss)"
proof (induction fp lo n rs cs rule: trees_at.induct)
  case (2 fp lo n r rs c cs)
  then obtain mid where m: "tree_at fp lo mid r c" "lo < mid" "mid \<le> n" "trees_at fp mid n rs cs" by auto
  obtain ps where "reads_as fp r c ps" "alloc lo mid ps" using tree_at_read [OF m(1)] by auto
  moreover obtain pss where "list_all2 (\<lambda>(r, c) ps. reads_as fp r c ps) (zip rs cs) pss" "alloc mid n (concat pss)" using 2 m(4) by auto
  ultimately show ?case using alloc_append [of lo mid ps n "concat pss"] m by (intro exI [of _ "ps # pss"]) simp
qed (auto simp: alloc_Nil)

lemma run_steps_mono: "list_all2 tree_writer steps cs \<Longrightarrow> 2 \<le> wc_next_page w \<Longrightarrow> wc_next_page w \<le> wc_next_page (snd (run_steps w steps))"
proof (induction steps cs arbitrary: w rule: list_all2_induct)
  case (Cons s ss c cs)
  obtain rt w1 where i: "in_ctx w (s (wc_fp w) (wc_next_page w)) = (rt, w1)" by fastforce
  have "wc_next_page w \<le> wc_next_page w1" using tree_writer.context_mono [OF Cons.hyps(1) Cons.prems] i by simp
  then show ?case using Cons.IH [of w1] Cons.prems i by (simp add: split_def)
qed simp

lemma run_steps_spec:
  assumes "list_all2 tree_writer steps cs" "list_all content_ok cs" "run_steps w steps = (rs, w')" "2 \<le> wc_next_page w" "wc_next_page w' \<le> 2 ^ 32"
  shows "trees_at (wc_fp w') (wc_next_page w) (wc_next_page w') rs cs \<and> keeps (wc_fp w) (wc_fp w') (wc_next_page w) \<and>
    w' = w\<lparr>wc_fp := wc_fp w', wc_next_page := wc_next_page w'\<rparr>"
  using assms
proof (induction steps cs arbitrary: w rs rule: list_all2_induct)
  case (Cons s ss c cs)
  obtain rt w1 where i: "in_ctx w (s (wc_fp w) (wc_next_page w)) = (rt, w1)" by fastforce
  obtain rs1 where r: "run_steps w1 ss = (rs1, w')" "rs = rt # rs1" using Cons.prems(2) i by (auto split: prod.splits)
  have "wc_next_page w \<le> wc_next_page w1" using tree_writer.context_mono [OF Cons.hyps(1) Cons.prems(3)] i by simp
  then have n: "2 \<le> wc_next_page w1" "wc_next_page w1 \<le> wc_next_page w'" using run_steps_mono [OF Cons.hyps(2), of w1] Cons.prems(3) r by auto
  note s = tree_writer.step_context [OF Cons.hyps(1) i Cons.prems(3)]
  have s1: "tree_at (wc_fp w1) (wc_next_page w) (wc_next_page w1) rt c" "keeps (wc_fp w) (wc_fp w1) (wc_next_page w)" "wc_next_page w < wc_next_page w1"
    "w1 = w\<lparr>wc_fp := wc_fp w1, wc_next_page := wc_next_page w1\<rparr>"
    using s n(2) Cons.prems(1,4) by auto
  have ih: "trees_at (wc_fp w') (wc_next_page w1) (wc_next_page w') rs1 cs" "keeps (wc_fp w1) (wc_fp w') (wc_next_page w1)"
    "w' = w1\<lparr>wc_fp := wc_fp w', wc_next_page := wc_next_page w'\<rparr>"
    using Cons.IH [OF _ r(1) n(1) Cons.prems(4)] Cons.prems(1) by auto
  have "w' = w\<lparr>wc_fp := wc_fp w', wc_next_page := wc_next_page w'\<rparr>" by (subst ih(3), subst s1(4)) simp
  moreover have "keeps (wc_fp w) (wc_fp w') (wc_next_page w)" using keeps_trans [OF s1(2) ih(2)] s1(3) by simp
  moreover have "tree_at (wc_fp w') (wc_next_page w) (wc_next_page w1) rt c" by (rule tree_at_keeps [OF s1(1) ih(2)])
  ultimately show ?case using ih(1) s1(3) n(2) r(2) by auto
qed simp

section \<open>The schema page\<close>

definition master_rows :: "MasterEntry list \<Rightarrow> (int \<times> u8 list) list" where
  "master_rows es = zip (map int [1..<Suc (length es)]) (map build_master_record es)"

lemma length_master_rows [simp]: "length (master_rows es) = length es"
  by (simp add: master_rows_def del: upt_Suc)

lemma master_cells_spec:
  assumes "holds m 108 cells" "108 + 2 * (length cells + length rows) + cells_size cells + sum_list (map (\<lambda>(k, p). length (build_table_cell k p)) rows) \<le> 65536"
  shows "\<exists>m'. master_cells m (65536 - cells_size cells) (108 + 2 * length cells) (length cells) rows =
      Some (m', 65536 - cells_size (cells @ map (\<lambda>(k, p). build_table_cell k p) rows), length cells + length rows) \<and>
    holds m' 108 (cells @ map (\<lambda>(k, p). build_table_cell k p) rows)"
  using assms
proof (induction rows arbitrary: m cells)
  case (Cons r rows)
  obtain k p where r: "r = (k, p)" by fastforce
  let ?c = "build_table_cell k p" and ?co = "65536 - cells_size cells - length (build_table_cell k p)"
  let ?m = "store_bytes (store_bytes m ?co ?c) (108 + 2 * length cells) (put_u16 ?co)"
  have "?c \<noteq> []" by (simp add: build_table_cell_def)
  then have h: "holds ?m 108 (cells @ [?c])" using Cons.prems by (intro holds_snoc) (auto simp: r)
  have fits: "\<not> int (length ?c) > int (65536 - cells_size cells) - int (108 + 2 * length cells) - int CELL_PTR_SIZE"
    using Cons.prems(2) by (simp add: r layout)
  have eqs: "65536 - cells_size (cells @ [?c]) = ?co" "108 + 2 * length (cells @ [?c]) = 108 + 2 * length cells + 2" "length (cells @ [?c]) = length cells + 1"
    by simp_all
  have step: "master_cells m (65536 - cells_size cells) (108 + 2 * length cells) (length cells) (r # rows) =
      master_cells ?m ?co (108 + 2 * length cells + 2) (length cells + 1) rows"
    using fits unfolding r by (simp only: master_cells.simps Let_def if_False CELL_PTR_SIZE_def)
  have "108 + 2 * (length (cells @ [?c]) + length rows) + cells_size (cells @ [?c]) + sum_list (map (\<lambda>(k, p). length (build_table_cell k p)) rows) \<le> 65536"
    using Cons.prems(2) by (simp add: r)
  from Cons.IH [OF h this] show ?case unfolding step eqs by (simp add: r)
qed simp

lemma bytes_at_shift: "(\<And>i. i < n \<Longrightarrow> m (p + i) = m' (q + i)) \<Longrightarrow> bytes_at m p n = bytes_at m' q n"
  by (rule nth_equalityI) (simp_all add: bytes_at_def)

lemma header_length: "length (text_bytes ''SQLite format 3'' @ [0] @ put_u16 1 @ [1, 1, 0, 64, 32, 32] @ put_u32 1 @ put_u32 total_pages @ put_u32 0 @ put_u32 0 @
        put_u32 1 @ put_u32 4 @ put_u32 0 @ put_u32 0 @ put_u32 1 @ put_u32 0 @ put_u32 0 @ put_u32 0 @ replicate 20 0 @ put_u32 1 @
        put_u32 3046000) = 100"
  by simp

lemma file_header_frame: "100 \<le> i \<Longrightarrow> write_sqlite_file_header m n i = m i"
  unfolding write_sqlite_file_header_def by (rule bytes_at_same) (simp only: header_length, simp)

lemma master_page_spec:
  assumes "108 + 2 * length es + sum_list (map (\<lambda>(k, p). length (build_table_cell k p)) (master_rows es)) \<le> 65536"
  shows "\<exists>m. write_master_page1 fp es next_page = (0, write_page fp 1 (write_sqlite_file_header m (next_page - 1))) \<and>
    page_cells m 100 0x0D 8 (map (\<lambda>(k, p). build_table_cell k p) (master_rows es))"
proof -
  let ?m0 = "store_bytes (\<lambda>_. 0) SQLITE_HEADER_SIZE [BTREE_LEAF_TABLE]"
  obtain m where m: "master_cells ?m0 65536 108 0 (master_rows es) =
      Some (m, 65536 - cells_size (map (\<lambda>(k, p). build_table_cell k p) (master_rows es)), length (master_rows es))"
    "holds m 108 (map (\<lambda>(k, p). build_table_cell k p) (master_rows es))"
    using master_cells_spec [of ?m0 "[]" "master_rows es"] assms by (auto simp: holds_Nil)
  have "write_master_page1 fp es next_page = (0, write_page fp 1 (write_sqlite_file_header
      (page_header m 100 0x0D (length (master_rows es)) (65536 - cells_size (map (\<lambda>(k, p). build_table_cell k p) (master_rows es)))) (next_page - 1)))"
    unfolding write_master_page1_def master_rows_def [symmetric] using m(1)
    by (simp add: Let_def SQLITE_HEADER_SIZE_def layout BTREE_LEAF_TABLE_def write_page_def page_offset_def)
  moreover have "page_cells (page_header m 100 0x0D (length (master_rows es)) (65536 - cells_size (map (\<lambda>(k, p). build_table_cell k p) (master_rows es))))
      100 0x0D 8 (map (\<lambda>(k, p). build_table_cell k p) (master_rows es))"
    using page_cells_header [of m 100 8 "map (\<lambda>(k, p). build_table_cell k p) (master_rows es)"] m(2) by simp
  ultimately show ?thesis by blast
qed

lemma length_rec_add:
  "length (rec_header (rec_add_int r v)) + length (rec_body (rec_add_int r v)) \<le> length (rec_header r) + length (rec_body r) + 18"
  "length s < 2 ^ 29 \<Longrightarrow>
    length (rec_header (rec_add_text r (Some s))) + length (rec_body (rec_add_text r (Some s))) \<le> length (rec_header r) + length (rec_body r) + length s + 10"
  "length (rec_header (rec_add_null r)) + length (rec_body (rec_add_null r)) = length (rec_header r) + length (rec_body r) + 1"
proof -
  show "length (rec_header (rec_add_int r v)) + length (rec_body (rec_add_int r v)) \<le> length (rec_header r) + length (rec_body r) + 18"
  proof -
    have "int_storage_bytes (int_serial_type v) \<le> 8" by (simp add: int_storage_bytes_def)
    then show ?thesis using put_varint_length10 [of "int_serial_type v"] by (simp add: rec_add_int_def Let_def)
  qed
  show "length s < 2 ^ 29 \<Longrightarrow>
    length (rec_header (rec_add_text r (Some s))) + length (rec_body (rec_add_text r (Some s))) \<le> length (rec_header r) + length (rec_body r) + length s + 10"
    using put_varint_length10 [of "text_serial_type (to_int32 (int (length s)))"] by (simp add: rec_add_text_def Let_def min_def)
qed (simp add: rec_add_null_def)

lemma length_finalize: "length (rec_finalize r) \<le> length (rec_header r) + length (rec_body r) + 10"
  using put_varint_length10 by (simp add: rec_finalize_def Let_def)

definition entry_size :: "MasterEntry \<Rightarrow> nat" where
  "entry_size e = length (me_type e) + length (me_name e) + length (me_tbl_name e) + (case me_sql e of Some q \<Rightarrow> length q | None \<Rightarrow> 0)"

lemma length_master_record: "entry_size e < 2 ^ 29 \<Longrightarrow> length (build_master_record e) \<le> entry_size e + 68"
proof -
  assume s: "entry_size e < 2 ^ 29"
  let ?r0 = "rec_add_text rec_init (Some (me_type e))" and ?n = "\<lambda>r. length (rec_header r) + length (rec_body r)"
  let ?r1 = "rec_add_text ?r0 (Some (me_name e))"
  let ?r2 = "rec_add_text ?r1 (Some (me_tbl_name e))"
  let ?r3 = "rec_add_int ?r2 (int (me_rootpage e))"
  let ?r4 = "case me_sql e of Some q \<Rightarrow> rec_add_text ?r3 (Some q) | None \<Rightarrow> rec_add_null ?r3"
  have sizes: "length (me_type e) < 2 ^ 29" "length (me_name e) < 2 ^ 29" "length (me_tbl_name e) < 2 ^ 29"
    using s by (simp_all add: entry_size_def)
  have "?n ?r3 \<le> length (me_type e) + length (me_name e) + length (me_tbl_name e) + 48"
    using length_rec_add(2) [OF sizes(1), of rec_init] length_rec_add(2) [OF sizes(2), of ?r0] length_rec_add(2) [OF sizes(3), of ?r1]
      length_rec_add(1) [of ?r2 "int (me_rootpage e)"] by (simp add: rec_init_def)
  then have "?n ?r4 \<le> entry_size e + 58"
    using length_rec_add(2) [of "the (me_sql e)" ?r3] length_rec_add(3) [of ?r3] s by (cases "me_sql e") (simp_all add: entry_size_def)
  moreover have "length (build_master_record e) \<le> ?n ?r4 + 10" unfolding build_master_record_def Let_def by (rule length_finalize)
  ultimately show ?thesis by simp
qed

lemma master_rows_size:
  assumes "\<forall>e \<in> set es. entry_size e < 2 ^ 29"
  shows "sum_list (map (\<lambda>(k, p). length (build_table_cell k p)) (master_rows es)) \<le> sum_list (map entry_size es) + 88 * length es"
proof -
  have cell: "length (build_table_cell k (build_master_record e)) \<le> entry_size e + 88" if "entry_size e < 2 ^ 29" for k e
    using length_master_record [of e] that put_varint_length10 [of k] put_varint_length10 [of "int (length (build_master_record e))"]
    by (simp add: build_table_cell_def)
  have "sum_list (map (\<lambda>(k, p). length (build_table_cell k p)) (zip ks (map build_master_record es))) \<le> sum_list (map (\<lambda>e. entry_size e + 88) es)"
    if "length ks = length es" for ks
    using that assms by (induction ks es rule: list_induct2) (auto intro!: add_mono cell [simplified])
  from this [of "map int [1..<Suc (length es)]"] show ?thesis
    unfolding master_rows_def by (simp add: sum_list_addf sum_list_triv mult.commute del: upt_Suc)
qed

lemma nl_tabs_length: "length (nl_tabs n) = Suc n"
  by (simp add: nl_tabs_def)

lemma master_entries_size: "sum_list (map entry_size (master_entries r)) \<le> 5000" "length (master_entries r) = 22"
  unfolding master_entries_def by (simp_all add: entry_size_def entry_def nl_tabs_length)

lemma sum_list_member: "x \<in> set xs \<Longrightarrow> x \<le> sum_list (xs :: nat list)"
  by (rule member_le_sum_list) simp_all

lemma master_entries_fit: "108 + 2 * length (master_entries r) + sum_list (map (\<lambda>(k, p). length (build_table_cell k p)) (master_rows (master_entries r))) \<le> 65536"
proof -
  have "entry_size e \<le> 5000" if "e \<in> set (master_entries r)" for e
    using sum_list_member [of "entry_size e" "map entry_size (master_entries r)"] that master_entries_size(1) [of r] by simp
  then have "\<forall>e \<in> set (master_entries r). entry_size e < 2 ^ 29" by fastforce
  from master_rows_size [OF this] show ?thesis using master_entries_size [of r] by simp
qed

end
