(* ===== verification/DbRows.thy ===== *)
theory DbRows
  imports DbFile "HOL-Library.List_Lexorder" "HOL-Library.Product_Lexorder"
begin

text \<open>
  The rows of the database: what the records of the tables and indexes mean, and the order of the indexes.
\<close>

section \<open>Records\<close>

definition wf_rec :: "RecordBuilder \<Rightarrow> sql_value list \<Rightarrow> bool" where
  "wf_rec r vs \<longleftrightarrow> builds r vs \<and> length (rec_header r) + length (rec_body r) \<le> length vs * 2 ^ 30"

lemma wf_init: "wf_rec rec_init []"
  by (simp add: wf_rec_def builds_init) (simp add: rec_init_def)

lemma wf_int: "wf_rec r vs \<Longrightarrow> - (2 ^ 47) \<le> v \<Longrightarrow> v < 2 ^ 47 \<Longrightarrow> wf_rec (rec_add_int r v) (vs @ [SqlInt v])"
  using length_rec_add(1) [of r v] builds_int [of r vs v] by (simp add: wf_rec_def)

lemma wf_text: "wf_rec r vs \<Longrightarrow> length s < 2 ^ 29 \<Longrightarrow> wf_rec (rec_add_text r (Some s)) (vs @ [SqlText (text_bytes s)])"
  using length_rec_add(2) [of s r] builds_text [of r vs s] by (simp add: wf_rec_def)

lemma wf_null: "wf_rec r vs \<Longrightarrow> wf_rec (rec_add_null r) (vs @ [SqlNull])"
  using length_rec_add(3) [of r] builds_null [of r vs] by (simp add: wf_rec_def)

lemma wf_blob: "wf_rec r vs \<Longrightarrow> bs \<noteq> [] \<Longrightarrow> length bs < 2 ^ 29 \<Longrightarrow> wf_rec (rec_add_blob r bs) (vs @ [SqlBlob bs])"
  using put_varint_length10 [of "int (length bs) * 2 + 12"] builds_blob [of r vs bs] by (simp add: wf_rec_def) (simp add: rec_add_blob_def Let_def)

lemma wf_finalize: "wf_rec r vs \<Longrightarrow> length vs \<le> 13 \<Longrightarrow> decode_record (rec_finalize r) = Some vs \<and> length (rec_finalize r) < 2 ^ 56"
  using decode_finalize [of r vs] length_finalize [of r] by (simp add: wf_rec_def)

abbreviation sql_string :: "string \<Rightarrow> sql_value" where
  "sql_string s \<equiv> SqlText (text_bytes s)"

definition node_values :: "CBMDumpNode \<Rightarrow> sql_value list" where
  "node_values n = [SqlInt (dmn_id n), sql_string (dmn_project n), sql_string (dmn_label n), sql_string (dmn_name n), sql_string (dmn_qn n),
     sql_string (dmn_file n), SqlInt (dmn_start n), SqlInt (dmn_end n), sql_string (case dmn_props n of Some p \<Rightarrow> p | None \<Rightarrow> ''{}'')]"

definition edge_values :: "CBMDumpEdge \<Rightarrow> sql_value list" where
  "edge_values e = [SqlInt (dme_id e), sql_string (dme_project e), SqlInt (dme_source e), SqlInt (dme_target e), sql_string (dme_type e), sql_string (dme_props e)]"

definition vector_values :: "CBMDumpVector \<Rightarrow> sql_value list" where
  "vector_values v = [SqlInt (dv_node v), sql_string (dv_project v), SqlBlob (dv_vector v)]"

definition token_values :: "(u32 \<Rightarrow> int) \<Rightarrow> CBMDumpTokenVec \<Rightarrow> sql_value list" where
  "token_values idf tv = [SqlInt (int (tv_id tv)), sql_string (tv_project tv), sql_string (tv_token tv), SqlBlob (tv_vector tv), SqlInt (idf (tv_idf tv))]"

definition int48 :: "int \<Rightarrow> bool" where
  "int48 v \<longleftrightarrow> - (2 ^ 47) \<le> v \<and> v < 2 ^ 47"

definition short_string :: "'a list \<Rightarrow> bool" where
  "short_string s \<longleftrightarrow> length s < 2 ^ 29"

definition node_fits :: "CBMDumpNode \<Rightarrow> bool" where
  "node_fits n \<longleftrightarrow> 0 \<le> dmn_id n \<and> int48 (dmn_id n) \<and> int48 (dmn_start n) \<and> int48 (dmn_end n) \<and>
     short_string (dmn_project n) \<and> short_string (dmn_label n) \<and> short_string (dmn_name n) \<and> short_string (dmn_qn n) \<and> short_string (dmn_file n) \<and>
     (case dmn_props n of Some p \<Rightarrow> short_string p | None \<Rightarrow> True)"

definition edge_fits :: "CBMDumpEdge \<Rightarrow> bool" where
  "edge_fits e \<longleftrightarrow> 0 \<le> dme_id e \<and> int48 (dme_id e) \<and> int48 (dme_source e) \<and> int48 (dme_target e) \<and>
     short_string (dme_project e) \<and> short_string (dme_type e) \<and> short_string (dme_props e) \<and> short_string (dme_url_path e)"

definition vector_fits :: "CBMDumpVector \<Rightarrow> bool" where
  "vector_fits v \<longleftrightarrow> 0 \<le> dv_node v \<and> int48 (dv_node v) \<and> short_string (dv_project v) \<and> dv_vector v \<noteq> [] \<and> short_string (dv_vector v)"

definition token_fits :: "(u32 \<Rightarrow> int) \<Rightarrow> CBMDumpTokenVec \<Rightarrow> bool" where
  "token_fits idf tv \<longleftrightarrow> int48 (int (tv_id tv)) \<and> short_string (tv_project tv) \<and> short_string (tv_token tv) \<and> tv_vector tv \<noteq> [] \<and>
     short_string (tv_vector tv) \<and> int48 (idf (tv_idf tv))"

lemma wf_int': "wf_rec r vs \<Longrightarrow> int48 v \<Longrightarrow> ws = vs @ [SqlInt v] \<Longrightarrow> wf_rec (rec_add_int r v) ws"
  by (simp add: wf_int int48_def)

lemma wf_text': "wf_rec r vs \<Longrightarrow> short_string s \<Longrightarrow> ws = vs @ [sql_string s] \<Longrightarrow> wf_rec (rec_add_text r (Some s)) ws"
  by (simp add: wf_text short_string_def)

lemma wf_blob': "wf_rec r vs \<Longrightarrow> bs \<noteq> [] \<Longrightarrow> short_string bs \<Longrightarrow> ws = vs @ [SqlBlob bs] \<Longrightarrow> wf_rec (rec_add_blob r bs) ws"
  by (simp add: wf_blob short_string_def)

lemma wf_null': "wf_rec r vs \<Longrightarrow> ws = vs @ [SqlNull] \<Longrightarrow> wf_rec (rec_add_null r) ws"
  by (simp add: wf_null)

lemmas wf_steps = wf_finalize wf_int' wf_text' wf_blob' wf_null'

lemma node_record: "node_fits n \<Longrightarrow> decode_record (build_node_record n) = Some (node_values n) \<and> length (build_node_record n) < 2 ^ 56"
  unfolding build_node_record_def Let_def node_values_def
  by (intro wf_steps) (auto simp: node_fits_def short_string_def wf_init split: option.splits)

lemma edge_record: "edge_fits e \<Longrightarrow> decode_record (build_edge_record e) = Some (edge_values e) \<and> length (build_edge_record e) < 2 ^ 56"
  unfolding build_edge_record_def Let_def edge_values_def by (intro wf_steps) (auto simp: edge_fits_def wf_init)

lemma vector_record: "vector_fits v \<Longrightarrow> decode_record (build_vector_record v) = Some (vector_values v) \<and> length (build_vector_record v) < 2 ^ 56"
  unfolding build_vector_record_def Let_def vector_values_def by (intro wf_steps) (auto simp: vector_fits_def wf_init)

lemma token_record:
  "token_fits idf tv \<Longrightarrow> decode_record (build_token_vec_record idf tv) = Some (token_values idf tv) \<and> length (build_token_vec_record idf tv) < 2 ^ 56"
  unfolding build_token_vec_record_def Let_def token_values_def by (intro wf_steps) (auto simp: token_fits_def wf_init)

section \<open>Index entries\<close>

definition node_entry :: "(CBMDumpNode \<Rightarrow> string) \<Rightarrow> CBMDumpNode \<Rightarrow> u8 list" where
  "node_entry col n = rec_finalize (rec_add_int (rec_add_text (rec_add_text rec_init (Some (dmn_project n))) (Some (col n))) (dmn_id n))"

definition node_entry_values :: "(CBMDumpNode \<Rightarrow> string) \<Rightarrow> CBMDumpNode \<Rightarrow> sql_value list" where
  "node_entry_values col n = [sql_string (dmn_project n), sql_string (col n), SqlInt (dmn_id n)]"

lemma node_entry:
  "node_fits n \<Longrightarrow> col \<in> {dmn_label, dmn_name, dmn_file, dmn_qn} \<Longrightarrow>
     decode_record (node_entry col n) = Some (node_entry_values col n) \<and> length (node_entry col n) < 2 ^ 56"
  unfolding node_entry_def node_entry_values_def by (intro wf_steps) (auto simp: node_fits_def wf_init)

definition edge_cells :: "(CBMDumpEdge \<Rightarrow> u8 list) list" where
  "edge_cells = [ecell_source, ecell_target, ecell_type, ecell_proj_target_type, ecell_proj_source_type, ecell_url_path, ecell_src_tgt_type]"

definition edge_key_cols :: "(CBMDumpEdge \<Rightarrow> sql_value list) list" where
  \<comment> \<open>the columns of the indexes, in the same order, with the row\<close>
  "edge_key_cols =
     [\<lambda>e. [SqlInt (dme_source e), sql_string (dme_type e), SqlInt (dme_id e)],
      \<lambda>e. [SqlInt (dme_target e), sql_string (dme_type e), SqlInt (dme_id e)],
      \<lambda>e. [sql_string (dme_project e), sql_string (dme_type e), SqlInt (dme_id e)],
      \<lambda>e. [sql_string (dme_project e), SqlInt (dme_target e), sql_string (dme_type e), SqlInt (dme_id e)],
      \<lambda>e. [sql_string (dme_project e), SqlInt (dme_source e), sql_string (dme_type e), SqlInt (dme_id e)],
      \<lambda>e. [sql_string (dme_project e), if dme_url_path e = [] then SqlNull else sql_string (dme_url_path e), SqlInt (dme_id e)],
      \<lambda>e. [SqlInt (dme_source e), SqlInt (dme_target e), sql_string (dme_type e), SqlInt (dme_id e)]]"

definition edge_recs :: "(CBMDumpEdge \<Rightarrow> RecordBuilder) list" where
  "edge_recs =
     [\<lambda>e. rec_add_int (rec_add_text (rec_add_int rec_init (dme_source e)) (Some (dme_type e))) (dme_id e),
      \<lambda>e. rec_add_int (rec_add_text (rec_add_int rec_init (dme_target e)) (Some (dme_type e))) (dme_id e),
      \<lambda>e. rec_add_int (rec_add_text (rec_add_text rec_init (Some (dme_project e))) (Some (dme_type e))) (dme_id e),
      \<lambda>e. rec_add_int (rec_add_text (rec_add_int (rec_add_text rec_init (Some (dme_project e))) (dme_target e)) (Some (dme_type e))) (dme_id e),
      \<lambda>e. rec_add_int (rec_add_text (rec_add_int (rec_add_text rec_init (Some (dme_project e))) (dme_source e)) (Some (dme_type e))) (dme_id e),
      \<lambda>e. rec_add_int (if dme_url_path e \<noteq> [] then rec_add_text (rec_add_text rec_init (Some (dme_project e))) (Some (dme_url_path e))
                        else rec_add_null (rec_add_text rec_init (Some (dme_project e)))) (dme_id e),
      \<lambda>e. rec_add_int (rec_add_text (rec_add_int (rec_add_int rec_init (dme_source e)) (dme_target e)) (Some (dme_type e))) (dme_id e)]"

lemmas cell_defs = ecell_source_def ecell_target_def ecell_type_def ecell_proj_target_type_def ecell_proj_source_type_def ecell_url_path_def
  ecell_src_tgt_type_def build_index_entry_2text_rowid_def build_index_entry_int_text_rowid_def build_index_entry_text_int_text_rowid_def
  build_index_entry_unique_2int_text_rowid_def

lemma edge_cells_recs: "edge_cells = map (\<lambda>r e. entry_cell (rec_finalize (r e))) edge_recs"
  by (simp add: edge_cells_def edge_recs_def fun_eq_iff cell_defs index_cell_entry Let_def)

lemma edge_recs_keys: "edge_fits e \<Longrightarrow> list_all2 (\<lambda>r vals. wf_rec (r e) (vals e)) edge_recs edge_key_cols"
  unfolding edge_recs_def edge_key_cols_def list_all2_Cons list_all2_Nil
  by (intro conjI wf_steps) (auto simp: edge_fits_def intro!: wf_steps wf_init)

section \<open>The order of an index\<close>

type_synonym sort_key = "(nat \<times> int \<times> nat list) list"

fun sql_key :: "sql_value \<Rightarrow> nat \<times> int \<times> nat list" where
  \<comment> \<open>nulls, numbers, texts, blobs; texts and blobs byte by byte\<close>
  "sql_key SqlNull = (0, 0, [])"
| "sql_key (SqlInt i) = (1, i, [])"
| "sql_key (SqlText bs) = (2, 0, map unat bs)"
| "sql_key (SqlBlob bs) = (3, 0, map unat bs)"

definition record_key :: "sql_value list \<Rightarrow> sort_key" where
  "record_key vs = map sql_key vs"

definition order_sign :: "sort_key \<Rightarrow> sort_key \<Rightarrow> int" where
  "order_sign x y = (if x < y then -1 else if y < x then 1 else 0)"

lemma order_sign_simps [simp]: "order_sign [] [] = 0" "order_sign (x # xs) (y # ys) = (if x < y then -1 else if y < x then 1 else order_sign xs ys)"
  by (auto simp: order_sign_def)

lemma strcmp_bytes: "strcmp s t = (if map byte s < map byte t then -1 else if map byte t < map byte s then 1 else 0)"
  by (induction s t rule: strcmp.induct) auto

lemma unat_text_bytes: "map unat (text_bytes s) = map byte s"
proof -
  have "byte c < 256" for c by (simp add: byte_def)
  then show ?thesis by (simp add: text_bytes_def unat_of_nat)
qed

lemma order_sign_string: "order_sign (sql_key (sql_string s) # xs) (sql_key (sql_string t) # ys) = first_of (strcmp s t) (order_sign xs ys)"
  unfolding order_sign_simps by (auto simp: strcmp_bytes unat_text_bytes first_of_def)

lemma order_sign_int: "order_sign (sql_key (SqlInt i) # xs) (sql_key (SqlInt j) # ys) = first_of (cmp_i64 i j) (order_sign xs ys)"
  unfolding order_sign_simps by (auto simp: cmp_i64_def first_of_def)

lemma order_sign_null:
  "order_sign (sql_key SqlNull # xs) (sql_key SqlNull # ys) = order_sign xs ys"
  "order_sign (sql_key SqlNull # xs) (sql_key (sql_string t) # ys) = -1"
  "order_sign (sql_key (sql_string t) # xs) (sql_key SqlNull # ys) = 1"
  unfolding order_sign_simps by simp_all

lemma first_of_0 [simp]: "first_of c 0 = c" "first_of 0 c = c"
  by (simp_all add: first_of_def)

lemma strcmp_same [simp]: "strcmp s s = 0"
  by (simp add: strcmp_bytes)

lemmas order_cols = record_key_def order_sign_string order_sign_int order_sign_null

definition node_cols :: "(CBMDumpNode \<Rightarrow> string) list" where
  "node_cols = [dmn_label, dmn_name, dmn_file, dmn_qn]"

lemma node_jobs_order:
  assumes "dmn_project (ns ! a) = dmn_project (ns ! b)"
  shows "list_all2 (\<lambda>cmp col. cmp a b = order_sign (record_key (node_entry_values col (ns ! a))) (record_key (node_entry_values col (ns ! b))))
    (node_jobs ns) node_cols"
  using assms by (simp add: node_jobs_def node_cols_def node_entry_values_def order_cols cmp_node_by_label_def cmp_node_by_name_def
      cmp_node_by_file_def cmp_node_by_qn_def del: sql_key.simps order_sign_simps(2))

lemma edge_jobs_order:
  assumes "dme_project (es ! a) = dme_project (es ! b)"
  shows "list_all2 (\<lambda>cmp vals. cmp a b = order_sign (record_key (vals (es ! a))) (record_key (vals (es ! b)))) (edge_jobs es) edge_key_cols"
  using assms by (simp add: edge_jobs_def edge_key_cols_def order_cols cmp_edge_by_source_type_def cmp_edge_by_target_type_def cmp_edge_by_type_def
      cmp_edge_by_proj_target_type_def cmp_edge_by_proj_source_type_def cmp_edge_by_src_tgt_type_def cmp_edge_by_url_path_def
      Let_def del: sql_key.simps order_sign_simps(2))

definition sorts :: "sorter \<Rightarrow> bool" where
  \<comment> \<open>the contract of \<open>qsort\<close>: the elements are permuted, and in order when the comparison is one by a key\<close>
  "sorts qsort \<longleftrightarrow> (\<forall>cmp xs. mset (qsort cmp xs) = mset xs \<and>
     (\<forall>key :: nat \<Rightarrow> sort_key. (\<forall>a \<in> set xs. \<forall>b \<in> set xs. cmp a b = order_sign (key a) (key b)) \<longrightarrow> sorted (map key (qsort cmp xs))))"

lemma sorts_perm: "sorts qsort \<Longrightarrow> mset (qsort cmp xs) = mset xs"
  by (simp add: sorts_def)

lemma sorts_set: "sorts qsort \<Longrightarrow> set (qsort cmp xs) = set xs"
  by (metis sorts_perm set_mset_mset)

lemma sorts_sorted: "sorts qsort \<Longrightarrow> \<forall>a \<in> set xs. \<forall>b \<in> set xs. cmp a b = order_sign (key a) (key b) \<Longrightarrow> sorted (map key (qsort cmp xs))"
  unfolding sorts_def by (drule spec [of _ cmp], drule spec [of _ xs], erule conjE, drule spec [of _ key], erule mp)

lemma sorts_rows:
  assumes "sorts qsort" "\<And>a b. a < length ns \<Longrightarrow> b < length ns \<Longrightarrow> cmp a b = order_sign (key (ns ! a)) (key (ns ! b))"
  shows "sorted (map key (map ((!) ns) (qsort cmp [0..<length ns])))" "mset (map ((!) ns) (qsort cmp [0..<length ns])) = mset ns"
proof -
  have c: "\<forall>a \<in> set [0..<length ns]. \<forall>b \<in> set [0..<length ns]. cmp a b = order_sign (key (ns ! a)) (key (ns ! b))" using assms(2) by simp
  show "sorted (map key (map ((!) ns) (qsort cmp [0..<length ns])))"
    using sorts_sorted [OF assms(1) c] by (simp only: map_map comp_def)
  have "mset (map ((!) ns) (qsort cmp [0..<length ns])) = mset (map ((!) ns) [0..<length ns])" unfolding mset_map sorts_perm [OF assms(1)] ..
  then show "mset (map ((!) ns) (qsort cmp [0..<length ns])) = mset ns" by (simp add: map_nth)
qed

end
