(* ===== verification/DbDatabase.thy ===== *)
theory DbDatabase
  imports DbRows
begin

text \<open>
  The database as a whole: after a call of the writer the schema page names the roots of all B-trees and each of
  them reads back as it was given; batches of nodes make no difference.
\<close>

section \<open>The contents\<close>

definition node_rows :: "CBMDumpNode list \<Rightarrow> (int \<times> u8 list) list" where
  "node_rows ns = map (\<lambda>n. (dmn_id n, build_node_record n)) ns"

definition node_index :: "sorter \<Rightarrow> CBMDumpNode list \<Rightarrow> (nat \<Rightarrow> nat \<Rightarrow> int) \<Rightarrow> (CBMDumpNode \<Rightarrow> string) \<Rightarrow> content" where
  "node_index qsort ns cmp col = IndexOf (map (\<lambda>i. node_entry col (ns ! i)) (qsort cmp [0..<length ns]))"

definition edge_index :: "sorter \<Rightarrow> CBMDumpEdge list \<Rightarrow> (nat \<Rightarrow> nat \<Rightarrow> int) \<Rightarrow> (CBMDumpEdge \<Rightarrow> RecordBuilder) \<Rightarrow> content" where
  "edge_index qsort es cmp r = IndexOf (map (\<lambda>i. rec_finalize (r (es ! i))) (qsort cmp [0..<length es]))"

definition data_contents :: "(u32 \<Rightarrow> int) \<Rightarrow> write_db_ctx_t \<Rightarrow> content list" where
  "data_contents idf w = [TableOf (edge_rows (wc_edges w)), TableOf (vector_rows (wc_vectors w)), TableOf (token_vec_rows idf (wc_token_vecs w))]"

definition meta_contents :: "write_db_ctx_t \<Rightarrow> content list" where
  "meta_contents w = [TableOf [(1, build_project_record (wc_project w) (wc_indexed_at w) (wc_root_path w))], TableOf [], TableOf [], TableOf (sequence_rows w)]"

definition node_indexes :: "sorter \<Rightarrow> CBMDumpNode list \<Rightarrow> content list" where
  "node_indexes qsort ns = map2 (node_index qsort ns) (node_jobs ns) node_cols"

definition edge_indexes :: "sorter \<Rightarrow> CBMDumpEdge list \<Rightarrow> content list" where
  "edge_indexes qsort es = map2 (edge_index qsort es) (edge_jobs es) edge_recs"

definition auto_contents :: "write_db_ctx_t \<Rightarrow> content list" where
  "auto_contents w = [IndexOf [rec_finalize (rec_add_int (rec_add_text rec_init (Some (wc_project w))) 1)], IndexOf [], IndexOf []]"

section \<open>The steps\<close>

interpretation btree_table: tree_writer "table_step rows" "TableOf rows" for rows
proof unfold_locales
  show "lo \<le> fst (snd (table_step rows fp lo))" if "2 \<le> lo" for lo fp
    using one_table.step_mono [OF that] by (simp add: table_step_def write_table_btree_one that)
  show "tree_at fp' lo n rt (TableOf rows) \<and> keeps fp fp' lo \<and> lo < n \<and> \<not> ub"
    if "table_step rows fp lo = (fp', n, rt, ub)" "2 \<le> lo" "n \<le> 2 ^ 32" "content_ok (TableOf rows)" for fp lo fp' n rt ub
    using one_table.step_writes [of rows fp lo] that by (simp add: table_step_def write_table_btree_one)
qed

lemma node_index_step:
  assumes "sorts qsort"
  shows "tree_writer (\<lambda>fp np. build_node_index_sorted fp np ns (if length ns > 0 then Some (make_sorted_perm qsort (length ns) cmp) else None) col)
    (node_index qsort ns cmp col)"
proof -
  have e: "qsort cmp [] = []" using sorts_perm [OF assms, of cmp "[]"] by simp
  have "(\<lambda>fp np. build_node_index_sorted fp np ns (if length ns > 0 then Some (make_sorted_perm qsort (length ns) cmp) else None) col) =
      (\<lambda>fp np. write_index_btree fp np (map entry_cell (map (\<lambda>i. node_entry col (ns ! i)) (qsort cmp [0..<length ns]))))"
    by (auto simp: fun_eq_iff build_node_index_sorted_def make_sorted_perm_def e comp_def node_entry_def build_index_entry_2text_rowid_def index_cell_entry)
  then show ?thesis unfolding node_index_def by (simp only: index.tree_writer_axioms)
qed

lemma edge_index_step:
  assumes "sorts qsort"
  shows "tree_writer (\<lambda>fp np. build_edge_index_sorted fp np es (if length es > 0 then Some (make_sorted_perm qsort (length es) cmp) else None)
    (\<lambda>e. entry_cell (rec_finalize (r e)))) (edge_index qsort es cmp r)"
proof -
  have e: "qsort cmp [] = []" using sorts_perm [OF assms, of cmp "[]"] by simp
  have "(\<lambda>fp np. build_edge_index_sorted fp np es (if length es > 0 then Some (make_sorted_perm qsort (length es) cmp) else None)
        (\<lambda>e. entry_cell (rec_finalize (r e)))) =
      (\<lambda>fp np. write_index_btree fp np (map entry_cell (map (\<lambda>i. rec_finalize (r (es ! i))) (qsort cmp [0..<length es]))))"
    by (auto simp: fun_eq_iff build_edge_index_sorted_def make_sorted_perm_def e comp_def)
  then show ?thesis unfolding edge_index_def by (simp only: index.tree_writer_axioms)
qed

lemma length_jobs: "length (node_jobs ns) = 4" "length node_cols = 4" "length (edge_jobs es) = 7" "length edge_recs = 7"
  by (simp_all add: node_jobs_def node_cols_def edge_jobs_def edge_recs_def)

lemma node_index_steps:
  assumes "sorts qsort"
  shows "list_all2 tree_writer (map (\<lambda>(perm, col) fp np. build_node_index_sorted fp np ns perm col)
    (zip (parallel_sort_indexes qsort (length ns) (node_jobs ns)) node_cols)) (node_indexes qsort ns)"
proof -
  have "list_all2 tree_writer (map (\<lambda>(perm, col) fp np. build_node_index_sorted fp np ns perm col)
    (zip (parallel_sort_indexes qsort (length ns) jobs) cols)) (map2 (node_index qsort ns) jobs cols)" if "length jobs = length cols" for jobs cols
    using that by (induction jobs cols rule: list_induct2) (simp_all add: parallel_sort_indexes_def node_index_step [OF assms, simplified])
  from this [of "node_jobs ns" node_cols] show ?thesis unfolding node_indexes_def by (simp add: length_jobs)
qed

lemma edge_index_steps:
  assumes "sorts qsort"
  shows "list_all2 tree_writer (map (\<lambda>(perm, cell) fp np. build_edge_index_sorted fp np es perm cell)
    (zip (parallel_sort_indexes qsort (length es) (edge_jobs es)) edge_cells)) (edge_indexes qsort es)"
proof -
  have "list_all2 tree_writer (map (\<lambda>(perm, cell) fp np. build_edge_index_sorted fp np es perm cell)
    (zip (parallel_sort_indexes qsort (length es) jobs) (map (\<lambda>r e. entry_cell (rec_finalize (r e))) rs))) (map2 (edge_index qsort es) jobs rs)"
    if "length jobs = length rs" for jobs rs
    using that by (induction jobs rs rule: list_induct2) (simp_all add: parallel_sort_indexes_def edge_index_step [OF assms, simplified])
  from this [of "edge_jobs es" edge_recs] show ?thesis unfolding edge_cells_recs edge_indexes_def by (simp add: length_jobs)
qed

section \<open>The file after the nodes\<close>

lemma trees_at_roots: "trees_at fp lo n rs cs \<Longrightarrow> r \<in> set rs \<Longrightarrow> lo \<le> r"
proof (induction fp lo n rs cs rule: trees_at.induct)
  case (2 fp lo n r' rs c cs)
  then obtain mid where m: "tree_at fp lo mid r' c" "lo < mid" "trees_at fp mid n rs cs" by auto
  have "mid \<le> r" if "r \<in> set rs" using "2.IH" [OF m(3) that] .
  then show ?case using tree_at_root [OF m(1)] m(2) "2.prems"(2) by fastforce
qed auto

lemma run_steps_snoc: "run_steps w (ss @ [s]) = (case run_steps w ss of (rs, w) \<Rightarrow> case in_ctx w (s (wc_fp w) (wc_next_page w)) of (r, w) \<Rightarrow> (rs @ [r], w))"
  by (induction w ss rule: run_steps.induct) (auto split: prod.splits)

lemma last_page_written:
  assumes "run_steps w (ss @ [\<lambda>fp np. write_index_btree fp np []]) = (rs, w')"
  shows "(wc_next_page w' - 1) * 65536 \<le> f_size (wc_fp w')"
proof -
  obtain rs1 w1 where "run_steps w ss = (rs1, w1)" by fastforce
  then have "w' = snd (in_ctx w1 (write_index_btree (wc_fp w1) (wc_next_page w1) []))" using assms by (auto simp: run_steps_snoc split: prod.splits)
  then show ?thesis
    by (auto simp: in_ctx_def write_index_btree_def write_empty_leaf_def Let_def write_page_def fwrite_at_def page_offset_def split: prod.splits)
qed

lemma join_cells: "join_results (map (\<lambda>c. Some (f c, [g c])) cs) = Some (concat (map f cs), map g cs)"
  by (induction cs) auto

lemma schema_page_read:
  assumes "write_master_page1 fp (master_entries r) n = (rc, fp')"
  shows "rc = 0" "read_table fp' (Suc d) 1 = Some ([1], master_rows (master_entries r))" "keeps fp fp' hi" "f_size fp \<le> f_size fp'"
proof -
  let ?rows = "master_rows (master_entries r)" and ?cells = "map (\<lambda>(k, p). build_table_cell k p) (master_rows (master_entries r))"
  obtain m where m: "rc = 0" "fp' = write_page fp 1 (write_sqlite_file_header m (n - 1))" "page_cells m 100 0x0D 8 ?cells"
    using master_page_spec [OF master_entries_fit [of r], of fp n] assms by auto
  show "rc = 0" "f_size fp \<le> f_size fp'" using m(1,2) by (simp_all add: write_page_def fwrite_at_def)
  show "keeps fp fp' hi" by (simp add: keeps_def m(2) page_at_write)
  have pc: "page_cells (page_at fp' 1) 100 0x0D 8 ?cells"
    by (rule page_cells_cong [OF m(3)]) (auto simp: m(2) page_at_write file_header_frame)
  have rows: "0 \<le> k \<and> k < 2 ^ 56 \<and> length p \<le> 65501" if mem: "(k, p) \<in> set ?rows" for k p
  proof -
    obtain i where i: "i < 22" "k = int (Suc i)" "p = build_master_record (master_entries r ! i)"
      using mem by (auto simp: master_rows_def in_set_zip master_entries_size simp del: upt_Suc)
    have "length (build_table_cell k p) \<in> set (map (\<lambda>(k, p). length (build_table_cell k p)) ?rows)" using mem by force
    from sum_list_member [OF this] have "length (build_table_cell k p) \<le> 65400" using master_entries_fit [of r] by (simp add: master_entries_size)
    then show ?thesis using i by (simp add: build_table_cell_def)
  qed
  have "means table_cell fp' 0 ?cells [] ?rows" unfolding means_def
    by (rule exI [of _ "map (\<lambda>x. ([], x)) ?rows"])
      (auto simp: list_all2_map1 list_all2_map2 list_all2_same concat_eq_Nil_conv comp_def intro!: cell_reads_table_cell dest: rows)
  note v = means_values [OF this]
  have "map (\<lambda>p. case table_cell fp' (page_at fp' 1) p of (ps, e) \<Rightarrow> Some (ps, [e])) (cell_offsets (page_at fp' 1) 100 8) =
      map (\<lambda>c. Some (fst (cell_value table_cell fp' c), [snd (cell_value table_cell fp' c)])) ?cells"
    by (rule map_cells [OF pc]) (simp add: v(3) split_def)
  then have "join_results (map (\<lambda>p. case table_cell fp' (page_at fp' 1) p of (ps, e) \<Rightarrow> Some (ps, [e])) (cell_offsets (page_at fp' 1) 100 8)) =
      Some (concat (map (\<lambda>c. fst (cell_value table_cell fp' c)) ?cells), map (\<lambda>c. snd (cell_value table_cell fp' c)) ?cells)"
    by (simp only: join_cells)
  then have "join_results (map (\<lambda>p. case table_cell fp' (page_at fp' 1) p of (ps, e) \<Rightarrow> Some (ps, [e])) (cell_offsets (page_at fp' 1) 100 8)) = Some ([], ?rows)"
    unfolding v(1) [symmetric] v(2) [symmetric] .
  then show "read_table fp' (Suc d) 1 = Some ([1], ?rows)"
    using pc by (simp add: read_table_def Let_def header_offset_def page_cells_def)
qed

definition rest_contents :: "(u32 \<Rightarrow> int) \<Rightarrow> sorter \<Rightarrow> write_db_ctx_t \<Rightarrow> content list" where
  \<comment> \<open>the B-trees behind the one of the nodes, in the order of the file\<close>
  "rest_contents idf qsort w =
     data_contents idf w @ meta_contents w @ node_indexes qsort (wc_nodes w) @ edge_indexes qsort (wc_edges w) @ auto_contents w"

lemma contents_fields [simp]:
  "data_contents idf (w\<lparr>wc_fp := fp, wc_next_page := n\<rparr>) = data_contents idf w"
  "meta_contents (w\<lparr>wc_fp := fp, wc_next_page := n\<rparr>) = meta_contents w"
  "auto_contents (w\<lparr>wc_fp := fp, wc_next_page := n\<rparr>) = auto_contents w"
  by (simp_all add: data_contents_def meta_contents_def auto_contents_def sequence_rows_def)

lemma data_steps: "list_all2 tree_writer [write_one_table (edge_rows (wc_edges w)), write_one_table (vector_rows (wc_vectors w)),
    write_one_table (token_vec_rows idf (wc_token_vecs w))] (data_contents idf w)"
  by (simp add: data_contents_def one_table.tree_writer_axioms)

lemma meta_steps: "list_all2 tree_writer [table_step [(1, build_project_record (wc_project w) (wc_indexed_at w) (wc_root_path w))],
    table_step [], table_step [], table_step (sequence_rows w)] (meta_contents w)"
  by (simp add: meta_contents_def btree_table.tree_writer_axioms)

lemma auto_steps: "list_all2 tree_writer [\<lambda>fp np. write_index_btree fp np [index_cell (rec_add_int (rec_add_text rec_init (Some (wc_project w))) 1)],
    \<lambda>fp np. write_index_btree fp np [], \<lambda>fp np. write_index_btree fp np []] (auto_contents w)"
  using index.tree_writer_axioms [of "[]"] index.tree_writer_axioms [of "[rec_finalize (rec_add_int (rec_add_text rec_init (Some (wc_project w))) 1)]"]
  by (simp add: auto_contents_def index_cell_entry)

lemma step_extends:
  assumes "trees_at (wc_fp w) 2 (wc_next_page w) rs cs" "run_steps w steps = (rs', w')" "list_all2 tree_writer steps cs'" "list_all content_ok cs'"
    and "wc_next_page w' \<le> 2 ^ 32"
  shows "trees_at (wc_fp w') 2 (wc_next_page w') (rs @ rs') (cs @ cs')" "wc_ub w' = wc_ub w"
    and "0 \<notin> set rs'" "length rs' = length cs'"
proof -
  have two: "2 \<le> wc_next_page w" using trees_at_le [OF assms(1)] by simp
  note r = run_steps_spec [OF assms(3,4,2) two assms(5)]
  show "trees_at (wc_fp w') 2 (wc_next_page w') (rs @ rs') (cs @ cs')"
    using trees_at_append [OF trees_at_keeps [OF assms(1)]] r by blast
  show "wc_ub w' = wc_ub w" using arg_cong [OF r [THEN conjunct2, THEN conjunct2], of wc_ub] by simp
  show "0 \<notin> set rs'" using trees_at_roots [of "wc_fp w'" "wc_next_page w" "wc_next_page w'" rs' cs' 0] r two by auto
  show "length rs' = length cs'" using trees_at_le [of "wc_fp w'" "wc_next_page w" "wc_next_page w'" rs' cs'] r by simp
qed

lemma step_next: "list_all2 tree_writer steps cs \<Longrightarrow> run_steps w steps = (rs, w') \<Longrightarrow> 2 \<le> wc_next_page w \<Longrightarrow> wc_next_page w \<le> wc_next_page w'"
  using run_steps_mono [of steps cs w] by simp

lemma pad_nothing: "(n - 1) * 65536 \<le> f_size fp \<Longrightarrow> pad_file_to_page_boundary fp n = fp"
  by (simp add: pad_file_to_page_boundary_def)

definition tree_roots :: "db_roots \<Rightarrow> nat list" where
  \<comment> \<open>in the order in which the B-trees are written\<close>
  "tree_roots r =
     [nodes_root r, edges_root r, vectors_root r, token_vecs_root r, projects_root r, file_hashes_root r, summaries_root r, sqlite_seq_root r,
      idx_nodes_label_root r, idx_nodes_name_root r, idx_nodes_file_root r, autoindex_nodes_root r, idx_edges_source_root r, idx_edges_target_root r,
      idx_edges_type_root r, idx_edges_target_type_root r, idx_edges_source_type_root r, idx_edges_url_path_root r, autoindex_edges_root r,
      autoindex_projects_root r, autoindex_file_hashes_root r, autoindex_summaries_root r]"

lemma list_lengths: "length xs = 3 \<Longrightarrow> xs = [xs ! 0, xs ! 1, xs ! 2]" "length xs = 4 \<Longrightarrow> xs = [xs ! 0, xs ! 1, xs ! 2, xs ! 3]"
  "length xs = 7 \<Longrightarrow> xs = [xs ! 0, xs ! 1, xs ! 2, xs ! 3, xs ! 4, xs ! 5, xs ! 6]"
  by (auto simp: numeral_eq_Suc length_Suc_conv)

lemma tree_roots_of:
  assumes "length data = 3" "length meta = 4" "length nidx = 4" "length eidx = 7" "length auto = 3"
  shows "tree_roots (roots_of nodes data meta nidx eidx auto) = nodes # data @ meta @ nidx @ eidx @ auto"
  using list_lengths(1) [OF assms(1)] list_lengths(2) [OF assms(2)] list_lengths(2) [OF assms(3)] list_lengths(3) [OF assms(4)] list_lengths(1) [OF assms(5)]
  unfolding tree_roots_def roots_of_def by (metis append_Cons append_Nil db_roots.simps)

lemma run_steps_fields:
  "run_steps w ss = (rs, w') \<Longrightarrow> wc_nodes w' = wc_nodes w \<and> wc_edges w' = wc_edges w \<and> wc_project w' = wc_project w \<and>
     meta_contents w' = meta_contents w \<and> auto_contents w' = auto_contents w"
proof (induction w ss arbitrary: rs rule: run_steps.induct)
  case (2 w s ss)
  obtain rt w1 where i: "in_ctx w (s (wc_fp w) (wc_next_page w)) = (rt, w1)" by fastforce
  obtain rs1 where r: "run_steps w1 ss = (rs1, w')" using "2.prems" i by (auto split: prod.splits)
  have "wc_nodes w1 = wc_nodes w \<and> wc_edges w1 = wc_edges w \<and> wc_project w1 = wc_project w \<and> meta_contents w1 = meta_contents w \<and> auto_contents w1 = auto_contents w"
    using i by (auto simp: in_ctx_def meta_contents_def auto_contents_def sequence_rows_def split: prod.splits)
  then show ?case using "2.IH" [OF i [symmetric] r] by simp
qed auto

lemma edge_cells_list: "[ecell_source, ecell_target, ecell_type, ecell_proj_target_type, ecell_proj_source_type, ecell_url_path, ecell_src_tgt_type] = edge_cells"
  by (simp add: edge_cells_def)

lemma node_cols_list: "[dmn_label, dmn_name, dmn_file, dmn_qn] = node_cols"
  by (simp add: node_cols_def)

lemma contents_lengths: "length (data_contents idf w) = 3" "length (meta_contents w) = 4" "length (node_indexes qsort ns) = 4" "length (edge_indexes qsort es) = 7"
  "length (auto_contents w) = 3"
  by (simp_all add: data_contents_def meta_contents_def auto_contents_def node_indexes_def edge_indexes_def length_jobs)

lemma after_nodes:
  assumes nodes: "tree_at (wc_fp w) 2 (wc_next_page w) nodes (TableOf rows)" "2 < wc_next_page w" and sorter: "sorts qsort"
    and ok: "list_all content_ok (rest_contents idf qsort w)"
    and run: "write_db_after_nodes idf qsort w nodes = (rc, w')" and n: "wc_next_page w' \<le> 2 ^ 32"
  shows "\<exists>r. rc = 0 \<and> wc_ub w' = wc_ub w \<and> read_table (wc_fp w') (Suc 0) 1 = Some ([1], master_rows (master_entries r)) \<and>
    trees_at (wc_fp w') 2 (wc_next_page w') (tree_roots r) (TableOf rows # rest_contents idf qsort w)"
proof -
  let ?ds = "[write_one_table (edge_rows (wc_edges w)), write_one_table (vector_rows (wc_vectors w)), write_one_table (token_vec_rows idf (wc_token_vecs w))]"
  let ?ns = "map (\<lambda>(perm, col) fp np. build_node_index_sorted fp np (wc_nodes w) perm col)
    (zip (parallel_sort_indexes qsort (length (wc_nodes w)) (node_jobs (wc_nodes w))) node_cols)"
  let ?es = "map (\<lambda>(perm, cell) fp np. build_edge_index_sorted fp np (wc_edges w) perm cell)
    (zip (parallel_sort_indexes qsort (length (wc_edges w)) (edge_jobs (wc_edges w))) edge_cells)"
  let ?as = "[\<lambda>fp np. write_index_btree fp np [index_cell (rec_add_int (rec_add_text rec_init (Some (wc_project w))) 1)],
    \<lambda>fp np. write_index_btree fp np [], \<lambda>fp np. write_index_btree fp np []]"
  have ok': "list_all content_ok (data_contents idf w)" "list_all content_ok (meta_contents w)" "list_all content_ok (node_indexes qsort (wc_nodes w))"
    "list_all content_ok (edge_indexes qsort (wc_edges w))" "list_all content_ok (auto_contents w)"
    using ok by (simp_all add: rest_contents_def)
  obtain data w1 where r1: "run_steps w ?ds = (data, w1)" by fastforce
  obtain meta w2 where r2: "write_metadata_tables w1 = (meta, w2)" by fastforce
  obtain nidx w3 where r3: "run_steps w2 ?ns = (nidx, w3)" by fastforce
  obtain eidx w4 where r4: "run_steps w3 ?es = (eidx, w4)" by fastforce
  obtain auto w5 where r5: "run_steps w4 ?as = (auto, w5)" by fastforce
  note f = run_steps_fields [OF r1] run_steps_fields [OF r2 [unfolded write_metadata_tables_def]] run_steps_fields [OF r3] run_steps_fields [OF r4]
  note s2 = meta_steps [of w1]
  note steps = data_steps [of w idf] s2 node_index_steps [OF sorter, of "wc_nodes w"] edge_index_steps [OF sorter, of "wc_edges w"] auto_steps [of w]
  have m: "2 \<le> wc_next_page w" "wc_next_page w \<le> wc_next_page w1" using nodes(2) step_next [OF steps(1) r1] by simp_all
  then have m2: "wc_next_page w1 \<le> wc_next_page w2" using step_next [OF s2 r2 [unfolded write_metadata_tables_def]] by simp
  have m3: "wc_next_page w2 \<le> wc_next_page w3" by (rule step_next [OF steps(3) r3]) (use m m2 in simp)
  have m4: "wc_next_page w3 \<le> wc_next_page w4" by (rule step_next [OF steps(4) r4]) (use m m2 m3 in simp)
  have m5: "wc_next_page w4 \<le> wc_next_page w5" by (rule step_next [OF steps(5) r5]) (use m m2 m3 m4 in simp)
  have n3: "build_node_indexes w2 (parallel_sort_indexes qsort (length (wc_nodes w2)) (node_jobs (wc_nodes w2))) =
      (if wc_nodes w3 \<noteq> [] \<and> 0 \<in> set nidx then ERR_SORT_FAILED else 0, nidx, w3)"
    using r3 f by (simp add: build_node_indexes_def node_cols_list)
  have n4: "build_edge_indexes w3 (parallel_sort_indexes qsort (length (wc_edges w3)) (edge_jobs (wc_edges w3))) =
      (if wc_edges w4 \<noteq> [] \<and> 0 \<in> set eidx then ERR_SORT_FAILED else 0, eidx, w4)"
    using r4 f by (simp add: build_edge_indexes_def edge_cells_list)
  obtain rc5 fp5 where r6: "write_master_page1 (wc_fp w5) (master_entries (roots_of nodes data meta nidx eidx auto)) (wc_next_page w5) = (rc5, fp5)" by fastforce
  have r5': "run_steps w4 [\<lambda>fp np. write_index_btree fp np [index_cell (rec_add_int (rec_add_text rec_init (Some (wc_project w4))) 1)],
      \<lambda>fp np. write_index_btree fp np [], \<lambda>fp np. write_index_btree fp np []] = (auto, w5)" using r5 f by simp
  note run' = run [unfolded write_db_after_nodes_def r1 prod.case r2 n3 n4 r5' r6]
  have b3: "wc_next_page w3 \<le> 2 ^ 32" using run' m4 m5 n by (auto split: if_splits)
  have "trees_at (wc_fp w) 2 (wc_next_page w) [nodes] [TableOf rows]" using nodes by auto
  note e1 = step_extends [OF this r1 steps(1) ok'(1)]
  have b1: "wc_next_page w1 \<le> 2 ^ 32" "wc_next_page w2 \<le> 2 ^ 32" using m2 m3 b3 by simp_all
  have c2: "meta_contents w1 = meta_contents w" using f by simp
  note e2 = step_extends [OF e1(1) [OF b1(1)] r2 [unfolded write_metadata_tables_def] s2 [unfolded c2] ok'(2) b1(2)]
  note e3 = step_extends [OF e2(1) r3 steps(3) ok'(3) b3]
  have b4: "wc_next_page w4 \<le> 2 ^ 32" using run' m5 n e3(3) by (auto split: if_splits)
  note e4 = step_extends [OF e3(1) r4 steps(4) ok'(4) b4]
  note page = schema_page_read [OF r6]
  have "(wc_next_page w5 - 1) * 65536 \<le> f_size (wc_fp w5)"
    by (rule last_page_written [of w4 "[\<lambda>fp np. write_index_btree fp np [index_cell (rec_add_int (rec_add_text rec_init (Some (wc_project w))) 1)],
      \<lambda>fp np. write_index_btree fp np []]"]) (use r5 in simp)
  then have pad: "pad_file_to_page_boundary fp5 (wc_next_page w5) = fp5" using page(4) by (intro pad_nothing) simp
  have w': "rc = 0" "w' = w5\<lparr>wc_fp := fp5\<rparr>" using run' e3(3) e4(3) page(1) pad by auto
  have b5: "wc_next_page w5 \<le> 2 ^ 32" using n w' by simp
  note e5 = step_extends [OF e4(1) r5 steps(5) ok'(5) b5]
  let ?r = "roots_of nodes data meta nidx eidx auto"
  have "tree_roots ?r = nodes # data @ meta @ nidx @ eidx @ auto"
    by (rule tree_roots_of) (use e1(4) [OF b1(1)] e2(4) e3(4) e4(4) e5(4) in \<open>simp_all add: contents_lengths\<close>)
  moreover have "trees_at fp5 2 (wc_next_page w5) (nodes # data @ meta @ nidx @ eidx @ auto) (TableOf rows # rest_contents idf qsort w)"
    using trees_at_keeps [OF e5(1) page(3)] by (simp only: rest_contents_def append_assoc append_Cons append_Nil)
  moreover have "wc_ub w5 = wc_ub w" using e1(2) [OF b1(1)] e2(2) e3(2) e4(2) e5(2) by simp
  ultimately show ?thesis using w' page(2) by (intro exI [of _ ?r]) simp
qed

lemma after_nodes_mono:
  assumes "sorts qsort" "2 \<le> wc_next_page w" "write_db_after_nodes idf qsort w nodes = (rc, w')"
  shows "wc_next_page w \<le> wc_next_page w'"
proof -
  obtain data w1 where r1: "run_steps w [write_one_table (edge_rows (wc_edges w)), write_one_table (vector_rows (wc_vectors w)),
      write_one_table (token_vec_rows idf (wc_token_vecs w))] = (data, w1)" by fastforce
  obtain meta w2 where r2: "write_metadata_tables w1 = (meta, w2)" by fastforce
  obtain nrc nidx w3 where r3: "build_node_indexes w2 (parallel_sort_indexes qsort (length (wc_nodes w2)) (node_jobs (wc_nodes w2))) = (nrc, nidx, w3)"
    by (metis prod_cases3)
  obtain erc eidx w4 where r4: "build_edge_indexes w3 (parallel_sort_indexes qsort (length (wc_edges w3)) (edge_jobs (wc_edges w3))) = (erc, eidx, w4)"
    by (metis prod_cases3)
  obtain auto w5 where r5: "run_steps w4 [\<lambda>fp np. write_index_btree fp np [index_cell (rec_add_int (rec_add_text rec_init (Some (wc_project w4))) 1)],
    \<lambda>fp np. write_index_btree fp np [], \<lambda>fp np. write_index_btree fp np []] = (auto, w5)" by fastforce
  have m1: "wc_next_page w \<le> wc_next_page w1" by (rule step_next [OF data_steps r1 assms(2)])
  have m2: "wc_next_page w1 \<le> wc_next_page w2" by (rule step_next [OF meta_steps r2 [unfolded write_metadata_tables_def]]) (use m1 assms(2) in simp)
  have m3: "wc_next_page w2 \<le> wc_next_page w3"
    by (rule step_next [OF node_index_steps [OF assms(1), of "wc_nodes w2"]])
      (use r3 m1 m2 assms(2) in \<open>auto simp: build_node_indexes_def node_cols_list split: prod.splits\<close>)
  have m4: "wc_next_page w3 \<le> wc_next_page w4"
    by (rule step_next [OF edge_index_steps [OF assms(1), of "wc_edges w3"]])
      (use r4 m1 m2 m3 assms(2) in \<open>auto simp: build_edge_indexes_def edge_cells_list split: prod.splits\<close>)
  have m5: "wc_next_page w4 \<le> wc_next_page w5" by (rule step_next [OF auto_steps r5]) (use m1 m2 m3 m4 assms(2) in simp)
  show ?thesis using assms(3) m1 m2 m3 m4 m5 unfolding write_db_after_nodes_def r1 prod.case r2 r3 r4 r5 by (auto split: if_splits prod.splits)
qed

section \<open>The streaming writer\<close>

lemma foldl_append_node:
  "foldl append_node w ns = w\<lparr>dw_nodes_pb := add_rows (dw_nodes_pb w) (dw_last_node_rowid w) (node_rows ns),
     dw_last_node_rowid := (if ns = [] then dw_last_node_rowid w else dmn_id (last ns)), dw_node_rows_written := dw_node_rows_written w + length ns\<rparr>"
proof (induction ns arbitrary: w)
  case (Cons n ns)
  then show ?case by (simp add: append_node_def node_rows_def)
qed (simp add: node_rows_def)

definition db_context :: "FILE \<times> nat \<times> nat \<times> bool \<Rightarrow> string \<Rightarrow> string \<Rightarrow> string \<Rightarrow> CBMDumpNode list \<Rightarrow> CBMDumpEdge list \<Rightarrow> CBMDumpVector list \<Rightarrow>
    CBMDumpTokenVec list \<Rightarrow> write_db_ctx_t" where
  "db_context res project root_path indexed_at nodes edges vectors token_vecs =
     (case res of (fp, next_page, rt, ub) \<Rightarrow>
        \<lparr>wc_fp = fp, wc_next_page = next_page, wc_project = project, wc_root_path = root_path, wc_indexed_at = indexed_at,
         wc_nodes = nodes, wc_edges = edges, wc_vectors = vectors, wc_token_vecs = token_vecs, wc_ub = ub\<rparr>)"

lemma write_db_steps:
  "cbm_write_db idf qsort True project root_path indexed_at nodes edges vectors tvs =
     (case write_db_after_nodes idf qsort (db_context (write_one_table (node_rows nodes) empty_file 2) project root_path indexed_at nodes edges vectors tvs)
             (fst (snd (snd (write_one_table (node_rows nodes) empty_file 2)))) of
        (rc, w) \<Rightarrow> (rc, Some w))"
proof -
  have "last (node_rows nodes) = (dmn_id (last nodes), build_node_record (last nodes))" "node_rows nodes \<noteq> []" if "nodes \<noteq> []"
    using that by (simp_all add: node_rows_def last_map)
  then show ?thesis
    by (auto simp: cbm_write_db_def cbm_writer_open_def cbm_writer_append_nodes_def cbm_writer_finalize_def foldl_append_node db_context_def
        FIRST_DATA_PAGE_def write_one_table_def node_rows_def pb_init_def Let_def split: prod.splits)
qed

section \<open>What a database holds\<close>

definition db_contents :: "(u32 \<Rightarrow> int) \<Rightarrow> sorter \<Rightarrow> string \<Rightarrow> string \<Rightarrow> string \<Rightarrow> CBMDumpNode list \<Rightarrow> CBMDumpEdge list \<Rightarrow> CBMDumpVector list \<Rightarrow>
    CBMDumpTokenVec list \<Rightarrow> content list" where
  "db_contents idf qsort project root_path indexed_at nodes edges vectors tvs =
     TableOf (node_rows nodes) #
       rest_contents idf qsort (db_context (empty_file, 2, 0, False) project root_path indexed_at nodes edges vectors tvs)"

definition db_fits :: "(u32 \<Rightarrow> int) \<Rightarrow> string \<Rightarrow> string \<Rightarrow> string \<Rightarrow> CBMDumpNode list \<Rightarrow> CBMDumpEdge list \<Rightarrow> CBMDumpVector list \<Rightarrow> CBMDumpTokenVec list \<Rightarrow> bool" where
  \<comment> \<open>numbers of at most 48 bits and strings of less than \<open>2 ^ 29\<close> bytes\<close>
  "db_fits idf project root_path indexed_at nodes edges vectors tvs \<longleftrightarrow>
     short_string project \<and> short_string root_path \<and> short_string indexed_at \<and>
     list_all node_fits nodes \<and> list_all edge_fits edges \<and> list_all vector_fits vectors \<and> list_all (token_fits idf) tvs"

lemma rest_contents_context:
  "rest_contents idf qsort (db_context res project root_path indexed_at nodes edges vectors tvs) =
   rest_contents idf qsort (db_context res' project root_path indexed_at nodes edges vectors tvs)"
  by (simp add: rest_contents_def data_contents_def meta_contents_def auto_contents_def sequence_rows_def db_context_def split: prod.splits)

lemma rec_ok: "wf_rec r vs \<Longrightarrow> length vs \<le> 13 \<Longrightarrow> length (rec_finalize r) < 2 ^ 56"
  using wf_finalize by blast

lemma int48_56: "0 \<le> v \<Longrightarrow> int48 v \<Longrightarrow> v < 2 ^ 56"
  by (simp add: int48_def)

lemma list_all_last: "list_all P xs \<Longrightarrow> xs \<noteq> [] \<Longrightarrow> P (last xs)"
  by (simp add: list_all_iff)

lemma tables_ok:
  "list_all node_fits nodes \<Longrightarrow> rows_ok (node_rows nodes)"
  "list_all edge_fits edges \<Longrightarrow> rows_ok (edge_rows edges)"
  "list_all vector_fits vectors \<Longrightarrow> rows_ok (vector_rows vectors)"
  using node_record edge_record vector_record int48_56
  by (auto simp: rows_ok_def node_rows_def edge_rows_def vector_rows_def list_all_iff node_fits_def edge_fits_def vector_fits_def)

lemma token_table_ok: "list_all (token_fits idf) tvs \<Longrightarrow> rows_ok (token_vec_rows idf tvs)"
  using token_record [of idf] by (auto simp: rows_ok_def token_vec_rows_def list_all_iff) (auto simp: token_fits_def int48_def)

lemma sequence_ok:
  assumes "list_all node_fits (wc_nodes w)" "list_all edge_fits (wc_edges w)"
  shows "rows_ok (sequence_rows w)"
proof -
  let ?n = "if wc_nodes w \<noteq> [] then dmn_id (last (wc_nodes w)) else 0" and ?e = "if wc_edges w \<noteq> [] then dme_id (last (wc_edges w)) else 0"
  have "int48 ?n" "int48 ?e" using list_all_last [OF assms(1)] list_all_last [OF assms(2)] by (auto simp: node_fits_def edge_fits_def int48_def)
  then have "wf_rec (rec_add_int (rec_add_text rec_init (Some ''nodes'')) ?n) [sql_string ''nodes'', SqlInt ?n]"
    "wf_rec (rec_add_int (rec_add_text rec_init (Some ''edges'')) ?e) [sql_string ''edges'', SqlInt ?e]"
    by (auto intro!: wf_steps wf_init simp: short_string_def)
  from rec_ok [OF this(1)] rec_ok [OF this(2)] show ?thesis by (simp add: rows_ok_def sequence_rows_def del: One_nat_def)
qed

lemma project_ok: "short_string project \<Longrightarrow> short_string indexed_at \<Longrightarrow> short_string root_path \<Longrightarrow> length (build_project_record project indexed_at root_path) < 2 ^ 56"
  unfolding build_project_record_def by (rule rec_ok [of _ "[sql_string project, sql_string indexed_at, sql_string root_path]"]) (auto intro!: wf_steps wf_init)

lemma auto_ok: "short_string project \<Longrightarrow> length (rec_finalize (rec_add_int (rec_add_text rec_init (Some project)) 1)) < 2 ^ 56"
  by (rule rec_ok [of _ "[sql_string project, SqlInt 1]"]) (auto intro!: wf_steps wf_init simp: int48_def)

lemma sorted_member: "sorts qsort \<Longrightarrow> i \<in> set (qsort cmp [0..<length xs]) \<Longrightarrow> list_all P xs \<Longrightarrow> P (xs ! i)"
  by (simp add: sorts_set list_all_length)

lemma list_all_map2: "length xs = length ys \<Longrightarrow> list_all P (map2 f xs ys) \<longleftrightarrow> list_all2 (\<lambda>x y. P (f x y)) xs ys"
  by (induction xs ys rule: list_induct2) auto

lemma list_all2_right: "length xs = length ys \<Longrightarrow> (\<And>x y. y \<in> set ys \<Longrightarrow> P x y) \<Longrightarrow> list_all2 P xs ys"
  by (induction xs ys rule: list_induct2) auto

lemma node_indexes_ok: "sorts qsort \<Longrightarrow> list_all node_fits ns \<Longrightarrow> list_all content_ok (node_indexes qsort ns)"
  unfolding node_indexes_def using node_entry
  by (subst list_all_map2) (auto simp: length_jobs node_index_def node_cols_def intro!: list_all2_right dest!: sorted_member)

lemma edge_indexes_ok:
  assumes "sorts qsort" "list_all edge_fits es"
  shows "list_all content_ok (edge_indexes qsort es)"
proof -
  have "length (rec_finalize (r e)) < 2 ^ 56" if re: "r \<in> set edge_recs" "edge_fits e" for r e
  proof -
    obtain vals where "wf_rec (r e) (vals e)" "vals \<in> set edge_key_cols"
      using edge_recs_keys [OF re(2)] re(1) by (metis (no_types, lifting) list_all2_conv_all_nth in_set_conv_nth)
    then show ?thesis by (intro rec_ok) (auto simp: edge_key_cols_def)
  qed
  then show ?thesis unfolding edge_indexes_def using assms
    by (subst list_all_map2) (auto simp: length_jobs edge_index_def intro!: list_all2_right dest!: sorted_member)
qed

lemma contents_ok:
  assumes "sorts qsort" "db_fits idf project root_path indexed_at nodes edges vectors tvs"
  shows "list_all content_ok (rest_contents idf qsort (db_context res project root_path indexed_at nodes edges vectors tvs))"
proof -
  let ?w = "db_context res project root_path indexed_at nodes edges vectors tvs"
  have w: "wc_nodes ?w = nodes" "wc_edges ?w = edges" "wc_vectors ?w = vectors" "wc_token_vecs ?w = tvs" "wc_project ?w = project"
    "wc_root_path ?w = root_path" "wc_indexed_at ?w = indexed_at"
    by (simp_all add: db_context_def split_def)
  have seq: "rows_ok (sequence_rows ?w)" by (rule sequence_ok) (use assms(2) w in \<open>simp_all add: db_fits_def\<close>)
  show ?thesis
    using assms tables_ok token_table_ok node_indexes_ok edge_indexes_ok project_ok auto_ok seq
    unfolding rest_contents_def data_contents_def meta_contents_def auto_contents_def w db_fits_def
    by (simp add: rows_ok_def [of "[]"] rows_ok_def [of "[_]"])
qed

lemma write_db:
  assumes "sorts qsort" "db_fits idf project root_path indexed_at nodes edges vectors tvs"
    and run: "cbm_write_db idf qsort True project root_path indexed_at nodes edges vectors tvs = (rc, Some w)" and n: "wc_next_page w \<le> 2 ^ 32"
  shows "\<exists>r. rc = 0 \<and> \<not> wc_ub w \<and> read_table (wc_fp w) (Suc 0) 1 = Some ([1], master_rows (master_entries r)) \<and>
    trees_at (wc_fp w) 2 (wc_next_page w) (tree_roots r) (db_contents idf qsort project root_path indexed_at nodes edges vectors tvs)"
proof -
  obtain fp n0 rt ub where t: "write_one_table (node_rows nodes) empty_file 2 = (fp, n0, rt, ub)" by (metis prod_cases4)
  let ?w = "db_context (fp, n0, rt, ub) project root_path indexed_at nodes edges vectors tvs"
  have a: "write_db_after_nodes idf qsort ?w rt = (rc, w)" using run by (auto simp: write_db_steps t split: prod.splits)
  have w: "wc_fp ?w = fp" "wc_next_page ?w = n0" "wc_ub ?w = ub" by (simp_all add: db_context_def)
  have "2 \<le> n0" using one_table_mono [of 2 "node_rows nodes" empty_file] t by simp
  then have "n0 \<le> 2 ^ 32" using after_nodes_mono [OF assms(1) _ a] n w by simp
  moreover have "rows_ok (node_rows nodes)" by (rule tables_ok(1)) (use assms(2) in \<open>simp add: db_fits_def\<close>)
  ultimately have "table_at fp 2 n0 rt (node_rows nodes)" "2 < n0" "\<not> ub" using write_one_table_at [OF t] by auto
  moreover have "rest_contents idf qsort (db_context (empty_file, 2, 0, False) project root_path indexed_at nodes edges vectors tvs) = rest_contents idf qsort ?w"
    by (rule rest_contents_context)
  ultimately show ?thesis using after_nodes [of ?w rt "node_rows nodes" qsort idf rc w] contents_ok [OF assms(1,2)] assms(1) a n w
    unfolding db_contents_def by simp
qed

end
