(* ===== verification/DbProperties.thy ===== *)
theory DbProperties
  imports DbDatabase
begin

text \<open>
  What the database writer promises: the properties of the component, with a small database as an example.
\<close>

section \<open>A sorting routine\<close>

fun ins_by :: "(nat \<Rightarrow> nat \<Rightarrow> int) \<Rightarrow> nat \<Rightarrow> nat list \<Rightarrow> nat list" where
  "ins_by cmp a [] = [a]"
| "ins_by cmp a (b # bs) = (if cmp a b \<le> 0 then a # b # bs else b # ins_by cmp a bs)"

definition isort :: sorter where
  "isort cmp xs = foldr (ins_by cmp) xs []"

lemma mset_ins_by: "mset (ins_by cmp a xs) = add_mset a (mset xs)"
  by (induction cmp a xs rule: ins_by.induct) auto

lemma mset_isort: "mset (isort cmp xs) = mset xs"
  by (induction xs) (simp_all add: isort_def mset_ins_by)

lemma order_sign_le: "order_sign x y \<le> 0 \<longleftrightarrow> x \<le> y"
  by (auto simp: order_sign_def)

lemma sorted_ins_by:
  "sorted (map key xs) \<Longrightarrow> \<forall>b \<in> set xs. cmp a b = order_sign (key a) (key b) \<Longrightarrow> sorted (map key (ins_by cmp a xs))"
proof (induction cmp a xs rule: ins_by.induct)
  case (2 cmp a b bs)
  have "set (ins_by cmp a bs) = insert a (set bs)" by (metis mset_ins_by set_mset_add_mset_insert set_mset_mset)
  then show ?case using 2 by (auto simp: order_sign_le)
qed simp

lemma isort_sorts: "sorts isort"
proof -
  have "sorted (map key (isort cmp xs))" if "\<forall>a \<in> set xs. \<forall>b \<in> set xs. cmp a b = order_sign (key a) (key b)" for cmp xs key
    using that
  proof (induction xs)
    case (Cons x xs)
    have "isort cmp (x # xs) = ins_by cmp x (isort cmp xs)" by (simp add: isort_def)
    moreover have "set (isort cmp xs) = set xs" by (metis mset_isort set_mset_mset)
    ultimately show ?case using Cons by (auto intro!: sorted_ins_by)
  qed (simp add: isort_def)
  then show ?thesis by (simp add: sorts_def mset_isort)
qed

section \<open>Small databases\<close>

lemma add_rows_one_page:
  "pb_ptr_offset pb + sum_list (map (\<lambda>r. length (snd r) + 22) rows) \<le> pb_content_offset pb \<Longrightarrow> \<forall>r \<in> set rows. length (snd r) \<le> 65501 \<Longrightarrow>
     pb_leaves (add_rows pb prev rows) = pb_leaves pb \<and> pb_next_page (add_rows pb prev rows) = pb_next_page pb"
proof (induction pb prev rows rule: add_rows.induct)
  case (2 pb prev rowid payload rows)
  let ?c = "build_table_cell rowid payload"
  have len: "length ?c \<le> length payload + 20"
    using put_varint_length10 [of rowid] put_varint_length10 [of "int (length payload)"] by (simp add: build_table_cell_def)
  then have e: "pb_add_table_cell_with_flush pb rowid payload prev = pb_add_cell pb ?c"
    using "2.prems" by (simp add: pb_add_table_cell_with_flush_def limits pb_place_cell_def pb_cell_fits_def layout)
  show ?case using 2 len by (simp add: e pb_add_cell_def Let_def layout)
qed simp

lemma one_page_table:
  assumes "sum_list (map (\<lambda>r. length (snd r) + 22) rows) \<le> 60000"
  shows "fst (snd (write_one_table rows fp lo)) \<le> lo + 2"
proof (cases "rows = []")
  case True
  then show ?thesis using skip_bounds(2) [of lo] by (simp add: write_one_table_def write_table_btree_def write_empty_leaf_def Let_def)
next
  case False
  let ?pb = "add_rows (pb_init fp lo False) 0 rows"
  have "length (snd r) \<le> 65501" if "r \<in> set rows" for r
    using member_le_sum_list [of "length (snd r) + 22" "map (\<lambda>r. length (snd r) + 22) rows"] that assms by force
  then have p: "pb_leaves ?pb = []" "pb_next_page ?pb = lo"
    using add_rows_one_page [of "pb_init fp lo False" rows 0] assms by (simp_all add: pb_init_def Let_def layout SQLITE_HEADER_SIZE_def)
  then show ?thesis using False skip_bounds(2) [of lo]
    by (simp add: write_one_table_def pb_finalize_table_def Let_def pb_flush_leaf_def)
qed

lemma one_page_index:
  assumes "list_all (\<lambda>e. length e \<le> 16422) es" "length es \<le> 1"
  shows "fst (snd (write_index_btree fp lo (map entry_cell es))) \<le> lo + 2"
proof (cases es)
  case Nil
  then show ?thesis using skip_bounds(2) [of lo] by (simp add: write_index_btree_def write_empty_leaf_def Let_def)
next
  case (Cons e es')
  then have es: "es = [e]" "length e \<le> 16422" using assms by simp_all
  have v: "length (entry_cell e) \<le> 16432" using es(2) put_varint_length10 [of "int (length e)"] by (simp add: entry_cell_def)
  have o: "overflowize_index_cell fp lo (entry_cell e) = (entry_cell e, fp, lo)"
    using es(2) get_varint_cell [of e] by (simp add: overflowize_index_cell_def limits)
  have "pb_cell_fits (pb_init fp lo True) (length (entry_cell e))"
    using v by (simp add: pb_cell_fits_def pb_init_def Let_def layout SQLITE_HEADER_SIZE_def)
  then show ?thesis using skip_bounds(2) [of lo]
    by (simp add: es(1) write_index_btree_def o Let_def pb_add_cell_def pb_flush_leaf_def pb_init_def)
qed

definition brief :: "btree_step \<Rightarrow> bool" where
  "brief s \<longleftrightarrow> (\<forall>fp lo. 2 \<le> lo \<longrightarrow> fst (snd (s fp lo)) \<le> lo + 2)"

lemma run_steps_brief:
  "list_all2 tree_writer ss cs \<Longrightarrow> list_all brief ss \<Longrightarrow> 2 \<le> wc_next_page w \<Longrightarrow> run_steps w ss = (rs, w') \<Longrightarrow>
     wc_next_page w' \<le> wc_next_page w + 2 * length ss \<and> 2 \<le> wc_next_page w'"
proof (induction ss cs arbitrary: w rs rule: list_all2_induct)
  case (Cons s ss c cs)
  obtain rt w1 where i: "in_ctx w (s (wc_fp w) (wc_next_page w)) = (rt, w1)" by fastforce
  obtain rs1 where r: "run_steps w1 ss = (rs1, w')" using Cons.prems(3) i by (auto split: prod.splits)
  have n: "wc_next_page w1 \<le> wc_next_page w + 2" using i Cons.prems(1,2) by (auto simp: in_ctx_def brief_def split: prod.splits) (metis fst_conv snd_conv)
  have "2 \<le> wc_next_page w1" using tree_writer.context_mono [OF Cons.hyps(1) Cons.prems(2)] i Cons.prems(2) by simp
  then show ?case using Cons.IH [OF _ _ r] Cons.prems(1) n by force
qed auto

definition tiny_node :: CBMDumpNode where
  "tiny_node = \<lparr>dmn_id = 1, dmn_project = ''p'', dmn_label = ''Function'', dmn_name = ''f'', dmn_qn = ''p.f'', dmn_file = ''f.c'', dmn_start = 1,
     dmn_end = 300, dmn_props = Some ''{}''\<rparr>"

definition tiny_edge :: CBMDumpEdge where
  "tiny_edge = \<lparr>dme_id = 1, dme_project = ''p'', dme_source = 1, dme_target = 1, dme_type = ''CALLS'', dme_props = ''{}'', dme_url_path = []\<rparr>"

lemma tiny_fits: "db_fits (\<lambda>_. 0) ''p'' ''r'' ''t'' [tiny_node] [tiny_edge] [] []"
  by (simp add: db_fits_def node_fits_def edge_fits_def tiny_node_def tiny_edge_def short_string_def int48_def)

definition tiny_rec :: "RecordBuilder \<Rightarrow> nat \<Rightarrow> bool" where
  "tiny_rec r n \<longleftrightarrow> length (rec_header r) + length (rec_body r) \<le> 100 * n"

lemma tiny_rec_steps:
  "tiny_rec r n \<Longrightarrow> n \<le> 9 \<Longrightarrow> length (rec_finalize r) \<le> 1000" "tiny_rec rec_init 0" "tiny_rec r n \<Longrightarrow> tiny_rec (rec_add_int r v) (Suc n)"
  "tiny_rec r n \<Longrightarrow> tiny_rec (rec_add_null r) (Suc n)" "tiny_rec r n \<Longrightarrow> length s \<le> 90 \<Longrightarrow> tiny_rec (rec_add_text r (Some s)) (Suc n)"
  using length_finalize [of r] length_rec_add(1) [of r v] length_rec_add(3) [of r] length_rec_add(2) [of s r] by (simp_all add: tiny_rec_def rec_init_def)

lemma tiny_sizes:
  "length (build_node_record tiny_node) \<le> 1000 \<and> length (build_edge_record tiny_edge) \<le> 1000 \<and> length (build_project_record ''p'' ''t'' ''r'') \<le> 1000 \<and>
   length (rec_finalize (rec_add_int (rec_add_text rec_init (Some ''p'')) 1)) \<le> 1000 \<and>
   length (rec_finalize (rec_add_int (rec_add_text rec_init (Some ''nodes'')) 1)) \<le> 1000 \<and>
   length (rec_finalize (rec_add_int (rec_add_text rec_init (Some ''edges'')) 1)) \<le> 1000"
  unfolding build_node_record_def build_edge_record_def build_project_record_def Let_def
  by (rule conjI tiny_rec_steps | simp add: tiny_node_def tiny_edge_def)+

lemma tiny_node_entries: "list_all (\<lambda>col. length (node_entry col tiny_node) \<le> 1000) node_cols"
  unfolding node_entry_def node_cols_def list.pred_inject by (rule conjI TrueI tiny_rec_steps | simp add: tiny_node_def)+

lemma tiny_edge_entries: "list_all (\<lambda>r. length (rec_finalize (r tiny_edge)) \<le> 1000) edge_recs"
proof -
  have url: "dme_url_path tiny_edge = []" by (simp add: tiny_edge_def)
  show ?thesis unfolding edge_recs_def list.pred_inject url simp_thms if_False by (rule conjI TrueI tiny_rec_steps | simp add: tiny_edge_def)+
qed

lemma brief_table: "sum_list (map (\<lambda>r. length (snd r) + 22) rows) \<le> 60000 \<Longrightarrow> brief (write_one_table rows) \<and> brief (table_step rows)"
  by (simp add: brief_def one_page_table [simplified] table_step_def write_table_btree_one)

lemma brief_index: "list_all (\<lambda>e. length e \<le> 16422) es \<Longrightarrow> length es \<le> 1 \<Longrightarrow> brief (\<lambda>fp np. write_index_btree fp np (map entry_cell es))"
  by (simp add: brief_def one_page_index [simplified])

lemma isort_one: "isort cmp [0..<Suc 0] = [0]"
  by (simp add: isort_def)

lemma brief_node_index:
  "length (node_entry col n) \<le> 1000 \<Longrightarrow> brief (\<lambda>fp np. build_node_index_sorted fp np [n] (Some (make_sorted_perm isort (Suc 0) cmp)) col)"
  using brief_index [of "[node_entry col n]"]
  by (simp add: build_node_index_sorted_def make_sorted_perm_def isort_def node_entry_def build_index_entry_2text_rowid_def index_cell_entry)

lemma brief_edge_index:
  "length (rec_finalize (r e)) \<le> 1000 \<Longrightarrow>
     brief (\<lambda>fp np. build_edge_index_sorted fp np [e] (Some (make_sorted_perm isort (Suc 0) cmp)) (\<lambda>e. entry_cell (rec_finalize (r e))))"
  using brief_index [of "[rec_finalize (r e)]"] by (simp add: build_edge_index_sorted_def make_sorted_perm_def isort_def)

lemma brief_node_steps: "list_all (\<lambda>col. length (node_entry col n) \<le> 1000) cols \<Longrightarrow>
    list_all brief (map (\<lambda>(perm, col) fp np. build_node_index_sorted fp np [n] perm col) (zip (parallel_sort_indexes isort (Suc 0) jobs) cols))"
  using brief_node_index by (induction jobs cols rule: list_induct2') (auto simp: parallel_sort_indexes_def)

lemma brief_edge_steps: "list_all (\<lambda>r. length (rec_finalize (r e)) \<le> 1000) rs \<Longrightarrow>
    list_all brief (map (\<lambda>(perm, cell) fp np. build_edge_index_sorted fp np [e] perm cell)
      (zip (parallel_sort_indexes isort (Suc 0) jobs) (map (\<lambda>r e. entry_cell (rec_finalize (r e))) rs)))"
  using brief_edge_index by (induction jobs rs rule: list_induct2') (auto simp: parallel_sort_indexes_def)

lemma tiny_after_nodes:
  assumes run: "write_db_after_nodes (\<lambda>_. 0) isort w nodes = (rc, w')" and two: "2 \<le> wc_next_page w"
    and w: "wc_nodes w = [tiny_node]" "wc_edges w = [tiny_edge]" "wc_vectors w = []" "wc_token_vecs w = []" "wc_project w = ''p''" "wc_root_path w = ''r''"
      "wc_indexed_at w = ''t''"
  shows "wc_next_page w' \<le> wc_next_page w + 100"
proof -
  let ?ds = "[write_one_table (edge_rows (wc_edges w)), write_one_table (vector_rows (wc_vectors w)), write_one_table (token_vec_rows (\<lambda>_. 0) (wc_token_vecs w))]"
  let ?ns = "map (\<lambda>(perm, col) fp np. build_node_index_sorted fp np [tiny_node] perm col)
    (zip (parallel_sort_indexes isort (length [tiny_node]) (node_jobs [tiny_node])) node_cols)"
  let ?es = "map (\<lambda>(perm, cell) fp np. build_edge_index_sorted fp np [tiny_edge] perm cell)
    (zip (parallel_sort_indexes isort (length [tiny_edge]) (edge_jobs [tiny_edge])) edge_cells)"
  obtain data w1 where r1: "run_steps w ?ds = (data, w1)" by fastforce
  obtain meta w2 where r2: "write_metadata_tables w1 = (meta, w2)" by fastforce
  obtain nidx w3 where r3: "run_steps w2 ?ns = (nidx, w3)" by fastforce
  obtain eidx w4 where r4: "run_steps w3 ?es = (eidx, w4)" by fastforce
  obtain auto w5 where r5: "run_steps w4 [\<lambda>fp np. write_index_btree fp np [index_cell (rec_add_int (rec_add_text rec_init (Some (wc_project w4))) 1)],
    \<lambda>fp np. write_index_btree fp np [], \<lambda>fp np. write_index_btree fp np []] = (auto, w5)" by fastforce
  note f = run_steps_fields [OF r1] run_steps_fields [OF r2 [unfolded write_metadata_tables_def]] run_steps_fields [OF r3] run_steps_fields [OF r4]
  have b1: "list_all brief ?ds" using tiny_sizes by (simp add: w edge_rows_def vector_rows_def token_vec_rows_def brief_table)
  note m1 = run_steps_brief [OF data_steps b1 two r1]
  have "meta_contents w1 = meta_contents w" using f by simp
  then have b2: "list_all brief [table_step [(1, build_project_record (wc_project w1) (wc_indexed_at w1) (wc_root_path w1))], table_step [], table_step [],
      table_step (sequence_rows w1)]"
    using tiny_sizes by (simp add: meta_contents_def w sequence_rows_def brief_table tiny_node_def tiny_edge_def)
  note m2 = run_steps_brief [OF meta_steps b2 _ r2 [unfolded write_metadata_tables_def]]
  note m3 = run_steps_brief [OF node_index_steps [OF isort_sorts, of "[tiny_node]"] _ _ r3]
  note m4 = run_steps_brief [OF edge_index_steps [OF isort_sorts, of "[tiny_edge]"] _ _ r4]
  have b3: "list_all brief ?ns" "list_all brief ?es"
    using brief_node_steps [OF tiny_node_entries] brief_edge_steps [OF tiny_edge_entries] unfolding edge_cells_recs by simp_all
  have b5: "list_all brief [\<lambda>fp np. write_index_btree fp np [index_cell (rec_add_int (rec_add_text rec_init (Some (wc_project w4))) 1)],
    \<lambda>fp np. write_index_btree fp np [], \<lambda>fp np. write_index_btree fp np []]"
    using tiny_sizes brief_index [of "[]"] brief_index [of "[rec_finalize (rec_add_int (rec_add_text rec_init (Some ''p'')) 1)]"] f w by (simp add: index_cell_entry)
  note m5 = run_steps_brief [OF auto_steps b5 _ r5]
  have n3: "build_node_indexes w2 (parallel_sort_indexes isort (length (wc_nodes w2)) (node_jobs (wc_nodes w2))) =
      (if wc_nodes w3 \<noteq> [] \<and> 0 \<in> set nidx then ERR_SORT_FAILED else 0, nidx, w3)"
    using r3 f w by (simp add: build_node_indexes_def node_cols_list)
  have n4: "build_edge_indexes w3 (parallel_sort_indexes isort (length (wc_edges w3)) (edge_jobs (wc_edges w3))) =
      (if wc_edges w4 \<noteq> [] \<and> 0 \<in> set eidx then ERR_SORT_FAILED else 0, eidx, w4)"
    using r4 f w by (simp add: build_edge_indexes_def edge_cells_list)
  show ?thesis using run m1 m2 m3 [OF b3(1)] m4 [OF b3(2)] m5
    unfolding write_db_after_nodes_def r1 prod.case r2 n3 n4 r5 by (auto simp: length_jobs parallel_sort_indexes_def edge_cells_def split: if_splits prod.splits)
qed

lemma tiny_database:
  "\<exists>rc w. cbm_write_db (\<lambda>_. 0) isort True ''p'' ''r'' ''t'' [tiny_node] [tiny_edge] [] [] = (rc, Some w) \<and> wc_next_page w \<le> 2 ^ 32"
proof -
  obtain fp n rt ub where t: "write_one_table (node_rows [tiny_node]) empty_file 2 = (fp, n, rt, ub)" by (metis prod_cases4)
  let ?w = "db_context (fp, n, rt, ub) ''p'' ''r'' ''t'' [tiny_node] [tiny_edge] [] []"
  obtain rc w where r: "write_db_after_nodes (\<lambda>_. 0) isort ?w rt = (rc, w)" by fastforce
  have "n \<le> 4" using one_page_table [of "node_rows [tiny_node]" empty_file 2] tiny_sizes t by (simp add: node_rows_def)
  moreover have "2 \<le> n" using one_table_mono [of 2 "node_rows [tiny_node]" empty_file] t by simp
  ultimately have "wc_next_page w \<le> 104" using tiny_after_nodes [OF r] by (simp add: db_context_def)
  then show ?thesis using r by (simp add: write_db_steps t)
qed

section \<open>Properties\<close>

text \<open>
  C8. The database that \<open>cbm_write_db\<close> writes reads back. The call succeeds and never writes outside of a page; the first
  page is a table with one row for each table and index of the schema, and from the root in this row a reader of the
  SQLite format finds the rows of each table and the entries of each index, completely and in the order in which they
  were given. No two of the 22 B-trees share a page, and no page lies behind the end of the file.
\<close>

theorem write_db_reads_back:
  assumes "sorts qsort" "db_fits idf project root_path indexed_at nodes edges vectors tvs"
    and "cbm_write_db idf qsort True project root_path indexed_at nodes edges vectors tvs = (rc, Some w)" "wc_next_page w \<le> 2 ^ 32"
  shows "rc = 0 \<and> \<not> wc_ub w \<and>
    (\<exists>r pss. read_table (wc_fp w) 1 1 = Some ([1], master_rows (master_entries r)) \<and>
       length (tree_roots r) = length (db_contents idf qsort project root_path indexed_at nodes edges vectors tvs) \<and>
       list_all2 (\<lambda>(rt, c) ps. reads_as (wc_fp w) rt c ps)
         (zip (tree_roots r) (db_contents idf qsort project root_path indexed_at nodes edges vectors tvs)) pss \<and>
       distinct (concat pss) \<and> set (concat pss) \<subseteq> {2..<wc_next_page w})"
proof -
  obtain r where r: "rc = 0" "\<not> wc_ub w" "read_table (wc_fp w) (Suc 0) 1 = Some ([1], master_rows (master_entries r))"
    "trees_at (wc_fp w) 2 (wc_next_page w) (tree_roots r) (db_contents idf qsort project root_path indexed_at nodes edges vectors tvs)"
    using write_db [OF assms] by blast
  from trees_at_read [OF r(4)] trees_at_le [OF r(4)] show ?thesis using r(1-3) by (auto simp: alloc_def)
qed

theorem write_db_reads_back_witness:
  "\<exists>w r pss. cbm_write_db (\<lambda>_. 0) isort True ''p'' ''r'' ''t'' [tiny_node] [tiny_edge] [] [] = (0, Some w) \<and>
     read_table (wc_fp w) 1 1 = Some ([1], master_rows (master_entries r)) \<and>
     list_all2 (\<lambda>(rt, c) ps. reads_as (wc_fp w) rt c ps) (zip (tree_roots r) (db_contents (\<lambda>_. 0) isort ''p'' ''r'' ''t'' [tiny_node] [tiny_edge] [] [])) pss"
proof -
  obtain rc w where "cbm_write_db (\<lambda>_. 0) isort True ''p'' ''r'' ''t'' [tiny_node] [tiny_edge] [] [] = (rc, Some w)" "wc_next_page w \<le> 2 ^ 32"
    using tiny_database by blast
  with write_db_reads_back [OF isort_sorts tiny_fits this] show ?thesis by blast
qed

text \<open>
  C9. Rows are found by their number. Where the numbers of the nodes grow, the search of the SQLite format, which
  compares the wanted number with the keys on the interior pages and descends into one child, leads from the
  root of the table of nodes to the record of each node, and the record decodes to the columns of the node.
\<close>

theorem write_db_seek_node:
  assumes "sorts qsort" "db_fits idf project root_path indexed_at nodes edges vectors tvs" "sorted_wrt (<) (map dmn_id nodes)"
    and "cbm_write_db idf qsort True project root_path indexed_at nodes edges vectors tvs = (rc, Some w)" "wc_next_page w \<le> 2 ^ 32"
  shows "\<exists>r. read_table (wc_fp w) 1 1 = Some ([1], master_rows (master_entries r)) \<and>
    list_all (\<lambda>n. map_option decode_record (seek_table (wc_fp w) (Suc (length nodes)) (nodes_root r) (dmn_id n)) = Some (Some (node_values n))) nodes"
proof -
  obtain r where r: "read_table (wc_fp w) (Suc 0) 1 = Some ([1], master_rows (master_entries r))"
    "trees_at (wc_fp w) 2 (wc_next_page w) (tree_roots r) (db_contents idf qsort project root_path indexed_at nodes edges vectors tvs)"
    using write_db [OF assms(1,2,4,5)] by blast
  then obtain mid where t: "table_at (wc_fp w) 2 mid (nodes_root r) (node_rows nodes)" by (auto simp: tree_roots_def db_contents_def)
  have ids: "map fst (node_rows nodes) = map dmn_id nodes" by (simp add: node_rows_def)
  then have "sorted_wrt (<) (map fst (node_rows nodes))" "distinct (map fst (node_rows nodes))"
    using assms(3) strict_sorted_iff [of "map dmn_id nodes"] by simp_all
  then have "seek_table (wc_fp w) (Suc (length nodes)) (nodes_root r) (dmn_id n) = Some (build_node_record n)" if "n \<in> set nodes" for n
    using table_at_seek [OF t, of "Suc (length nodes)" "dmn_id n"] that by (simp add: node_rows_def map_of_eq_Some_iff)
  moreover have "\<forall>n \<in> set nodes. decode_record (build_node_record n) = Some (node_values n)"
    using assms(2) node_record by (simp add: db_fits_def list_all_iff)
  ultimately show ?thesis using r(1) by (auto simp: list_all_iff)
qed

theorem write_db_seek_node_witness:
  "\<exists>rc w r. cbm_write_db (\<lambda>_. 0) isort True ''p'' ''r'' ''t'' [tiny_node] [tiny_edge] [] [] = (rc, Some w) \<and>
     read_table (wc_fp w) 1 1 = Some ([1], master_rows (master_entries r)) \<and>
     list_all (\<lambda>n. map_option decode_record (seek_table (wc_fp w) (Suc (length [tiny_node])) (nodes_root r) (dmn_id n)) = Some (Some (node_values n))) [tiny_node]"
proof -
  obtain rc w where w: "cbm_write_db (\<lambda>_. 0) isort True ''p'' ''r'' ''t'' [tiny_node] [tiny_edge] [] [] = (rc, Some w)" "wc_next_page w \<le> 2 ^ 32"
    using tiny_database by blast
  have "sorted_wrt (<) (map dmn_id [tiny_node])" by simp
  from write_db_seek_node [OF isort_sorts tiny_fits this w] w(1) show ?thesis by blast
qed

text \<open>
  The schema page decodes to the schema: the row of a table or an index has its kind, its name, the name of its table,
  the number of its root page and the statement that makes it, with a null in place of the statement for the
  indexes that SQLite makes itself.
\<close>

theorem schema_rows_decode:
  assumes "list_all (\<lambda>p. p < 2 ^ 32) (tree_roots r)"
  shows "map (\<lambda>(k, p). (k, decode_record p)) (master_rows (master_entries r)) =
    zip (map int [1..<23]) (map (\<lambda>e. Some [sql_string (me_type e), sql_string (me_name e), sql_string (me_tbl_name e), SqlInt (int (me_rootpage e)),
      case me_sql e of Some q \<Rightarrow> sql_string q | None \<Rightarrow> SqlNull]) (master_entries r))"
proof -
  have roots: "list_all (\<lambda>e. me_rootpage e < 2 ^ 32) (master_entries r)"
    using assms by (simp add: tree_roots_def master_entries_def entry_def)
  have "decode_record (build_master_record e) = Some [sql_string (me_type e), sql_string (me_name e), sql_string (me_tbl_name e), SqlInt (int (me_rootpage e)),
      case me_sql e of Some q \<Rightarrow> sql_string q | None \<Rightarrow> SqlNull]" if e: "e \<in> set (master_entries r)" for e
  proof -
    have "entry_size e \<le> 5000" using sum_list_member [of "entry_size e" "map entry_size (master_entries r)"] e master_entries_size(1) [of r] by simp
    then have s: "short_string (me_type e)" "short_string (me_name e)" "short_string (me_tbl_name e)" "int48 (int (me_rootpage e))"
      "case me_sql e of Some q \<Rightarrow> short_string q | None \<Rightarrow> True"
      using roots e by (auto simp: entry_size_def short_string_def int48_def list_all_iff split: option.split)
    let ?r = "rec_add_int (rec_add_text (rec_add_text (rec_add_text rec_init (Some (me_type e))) (Some (me_name e))) (Some (me_tbl_name e))) (int (me_rootpage e))"
    have "wf_rec ?r [sql_string (me_type e), sql_string (me_name e), sql_string (me_tbl_name e), SqlInt (int (me_rootpage e))]"
      by (intro wf_steps) (auto simp: wf_init s)
    then have "wf_rec (case me_sql e of Some q \<Rightarrow> rec_add_text ?r (Some q) | None \<Rightarrow> rec_add_null ?r)
        [sql_string (me_type e), sql_string (me_name e), sql_string (me_tbl_name e), SqlInt (int (me_rootpage e)),
         case me_sql e of Some q \<Rightarrow> sql_string q | None \<Rightarrow> SqlNull]"
      using s(5) by (cases "me_sql e") (auto intro!: wf_text' wf_null')
    from wf_finalize [OF this] show ?thesis by (simp add: build_master_record_def Let_def)
  qed
  then show ?thesis unfolding master_rows_def master_entries_size(2)
    by (auto simp: zip_map2 split_def comp_def dest: set_zip_rightD simp del: upt_Suc)
qed

theorem schema_rows_decode_witness:
  "map (\<lambda>(k, p). (k, decode_record p)) (master_rows (master_entries (roots_of 2 [3, 4, 5] [6, 7, 8, 9] [10, 11, 12, 13] [14, 15, 16, 17, 18, 19, 20] [21, 22, 23]))) =
    zip (map int [1..<23]) (map (\<lambda>e. Some [sql_string (me_type e), sql_string (me_name e), sql_string (me_tbl_name e), SqlInt (int (me_rootpage e)),
      case me_sql e of Some q \<Rightarrow> sql_string q | None \<Rightarrow> SqlNull])
      (master_entries (roots_of 2 [3, 4, 5] [6, 7, 8, 9] [10, 11, 12, 13] [14, 15, 16, 17, 18, 19, 20] [21, 22, 23])))"
  by (rule schema_rows_decode) (simp add: tree_roots_def roots_of_def)

text \<open>
  C10. The indexes are in the order in which SQLite searches them. Where all rows belong to one project and \<open>qsort\<close>
  sorts, each of the four indexes on nodes and of the seven indexes on edges has one entry for each row, the
  entries decode to the columns of the index and the number of the row, and they ascend in the order of
  SQLite: nulls before numbers before texts, texts byte by byte, column after column.
\<close>

theorem indexes_in_order:
  assumes "sorts qsort" "list_all node_fits nodes" "list_all edge_fits edges"
    and "list_all (\<lambda>n. dmn_project n = project) nodes" "list_all (\<lambda>e. dme_project e = project) edges"
  shows "list_all2 (\<lambda>c col. \<exists>ns. mset ns = mset nodes \<and> c = IndexOf (map (node_entry col) ns) \<and>
        map (\<lambda>n. decode_record (node_entry col n)) ns = map (\<lambda>n. Some (node_entry_values col n)) ns \<and>
        sorted (map (\<lambda>n. record_key (node_entry_values col n)) ns)) (node_indexes qsort nodes) node_cols \<and>
    list_all2 (\<lambda>c (rec, vals). \<exists>es. mset es = mset edges \<and> c = IndexOf (map (\<lambda>e. rec_finalize (rec e)) es) \<and>
        map (\<lambda>e. decode_record (rec_finalize (rec e))) es = map (\<lambda>e. Some (vals e)) es \<and>
        sorted (map (\<lambda>e. record_key (vals e)) es)) (edge_indexes qsort edges) (zip edge_recs edge_key_cols)"
proof (intro conjI list_all2_all_nthI)
  fix i assume "i < length (node_indexes qsort nodes)"
  then have i: "i < 4" by (simp add: contents_lengths)
  let ?cmp = "node_jobs nodes ! i" and ?col = "node_cols ! i"
  have cmp: "?cmp a b = order_sign (record_key (node_entry_values ?col (nodes ! a))) (record_key (node_entry_values ?col (nodes ! b)))"
    if "a < length nodes" "b < length nodes" for a b
    using node_jobs_order [of nodes a b] assms(4) that i by (simp add: list_all_length list_all2_conv_all_nth length_jobs)
  let ?ns = "map ((!) nodes) (qsort ?cmp [0..<length nodes])"
  note s = sorts_rows [OF assms(1), of nodes ?cmp "\<lambda>n. record_key (node_entry_values ?col n)", OF cmp]
  have "?col \<in> {dmn_label, dmn_name, dmn_file, dmn_qn}" 
  proof -
    have "?col \<in> set node_cols" by (rule nth_mem) (simp add: length_jobs i)
    moreover have "set node_cols = {dmn_label, dmn_name, dmn_file, dmn_qn}" by (simp add: node_cols_def)
    ultimately show ?thesis by simp
  qed
  then have "decode_record (node_entry ?col n) = Some (node_entry_values ?col n)" if "n \<in> set ?ns" for n
    using node_entry [of n ?col] assms(2) that mset_eq_setD [OF s(2)] by (simp add: list_all_iff)
  moreover have "node_indexes qsort nodes ! i = IndexOf (map (node_entry ?col) ?ns)" using i by (simp add: node_indexes_def node_index_def length_jobs comp_def)
  ultimately show "\<exists>ns. mset ns = mset nodes \<and> node_indexes qsort nodes ! i = IndexOf (map (node_entry ?col) ns) \<and>
        map (\<lambda>n. decode_record (node_entry ?col n)) ns = map (\<lambda>n. Some (node_entry_values ?col n)) ns \<and>
        sorted (map (\<lambda>n. record_key (node_entry_values ?col n)) ns)"
    using s by (intro exI [of _ ?ns]) auto
next
  fix i assume "i < length (edge_indexes qsort edges)"
  then have i: "i < 7" by (simp add: contents_lengths)
  let ?cmp = "edge_jobs edges ! i" and ?rec = "edge_recs ! i" and ?vals = "edge_key_cols ! i"
  have len: "length edge_key_cols = 7" by (simp add: edge_key_cols_def)
  have cmp: "?cmp a b = order_sign (record_key (?vals (edges ! a))) (record_key (?vals (edges ! b)))" if "a < length edges" "b < length edges" for a b
    using edge_jobs_order [of edges a b] assms(5) that i by (simp add: list_all_length list_all2_conv_all_nth length_jobs len)
  let ?es = "map ((!) edges) (qsort ?cmp [0..<length edges])"
  note s = sorts_rows [OF assms(1), of edges ?cmp "\<lambda>e. record_key (?vals e)", OF cmp]
  have "decode_record (rec_finalize (?rec e)) = Some (?vals e)" if "e \<in> set ?es" for e
  proof -
    have "edge_fits e" using assms(3) that mset_eq_setD [OF s(2)] by (simp add: list_all_iff)
    then have "wf_rec (?rec e) (?vals e)" using edge_recs_keys [of e] i by (simp add: list_all2_conv_all_nth length_jobs len)
    moreover have "length (?vals e) \<le> 13" using nth_mem [of i edge_key_cols] i len by (auto simp: edge_key_cols_def)
    ultimately show ?thesis using wf_finalize by blast
  qed
  moreover have "edge_indexes qsort edges ! i = IndexOf (map (\<lambda>e. rec_finalize (?rec e)) ?es)" using i by (simp add: edge_indexes_def edge_index_def length_jobs comp_def)
  ultimately have "\<exists>es. mset es = mset edges \<and> edge_indexes qsort edges ! i = IndexOf (map (\<lambda>e. rec_finalize (?rec e)) es) \<and>
        map (\<lambda>e. decode_record (rec_finalize (?rec e))) es = map (\<lambda>e. Some (?vals e)) es \<and> sorted (map (\<lambda>e. record_key (?vals e)) es)"
    using s by (intro exI [of _ ?es]) auto
  then show "case zip edge_recs edge_key_cols ! i of (rec, vals) \<Rightarrow> \<exists>es. mset es = mset edges \<and> edge_indexes qsort edges ! i = IndexOf (map (\<lambda>e. rec_finalize (rec e)) es) \<and>
        map (\<lambda>e. decode_record (rec_finalize (rec e))) es = map (\<lambda>e. Some (vals e)) es \<and> sorted (map (\<lambda>e. record_key (vals e)) es)"
    using i by (simp add: length_jobs len)
qed (simp_all add: contents_lengths length_jobs edge_key_cols_def)

theorem indexes_in_order_witness:
  "list_all2 (\<lambda>c col. \<exists>ns. mset ns = mset [tiny_node, tiny_node\<lparr>dmn_id := 2, dmn_qn := ''p.a''\<rparr>] \<and> c = IndexOf (map (node_entry col) ns) \<and>
        map (\<lambda>n. decode_record (node_entry col n)) ns = map (\<lambda>n. Some (node_entry_values col n)) ns \<and>
        sorted (map (\<lambda>n. record_key (node_entry_values col n)) ns)) (node_indexes isort [tiny_node, tiny_node\<lparr>dmn_id := 2, dmn_qn := ''p.a''\<rparr>]) node_cols"
  by (rule indexes_in_order [where edges = "[tiny_edge]" and project = "''p''", OF isort_sorts, THEN conjunct1])
    (simp_all add: node_fits_def edge_fits_def tiny_node_def tiny_edge_def short_string_def int48_def)

text \<open>
  Appending the nodes in batches makes no difference: any division of the nodes into batches, empty ones included,
  gives the same database, byte for byte, and the same result as the one-shot call.
\<close>

theorem streaming_batches:
  "cbm_writer_finalize idf qsort (foldl (\<lambda>w b. snd (cbm_writer_append_nodes w b)) (cbm_writer_open opened) batches)
      project root_path indexed_at (concat batches) edges vectors tvs =
   cbm_write_db idf qsort opened project root_path indexed_at (concat batches) edges vectors tvs"
proof -
  have "foldl (\<lambda>w b. snd (cbm_writer_append_nodes w b)) (Some w) bs = Some (foldl append_node w (concat bs))" if "dw_err w = 0" for w bs
    using that by (induction bs arbitrary: w) (simp_all add: cbm_writer_append_nodes_def foldl_append_node)
  moreover have "foldl (\<lambda>w b. snd (cbm_writer_append_nodes w b)) None bs = None" for bs
    by (induction bs) (simp_all add: cbm_writer_append_nodes_def)
  ultimately show ?thesis
    by (simp add: cbm_write_db_def cbm_writer_open_def cbm_writer_append_nodes_def cbm_writer_finalize_def)
qed

text \<open>
  C40. Integers of more than 48 bits are lost. A column with a number from \<open>-2 ^ 47\<close> to \<open>2 ^ 47 - 1\<close> decodes to this number,
  a column with any other 64-bit number decodes to 0: the branch for the longest numbers returns the constant 8, which
  in the format is not a number of eight bytes but the literal 0 without a body.
\<close>

theorem long_integers_become_zero:
  "decode_record (rec_finalize (rec_add_int rec_init v)) = Some [SqlInt (if - (2 ^ 47) \<le> v \<and> v < 2 ^ 47 then v else 0)]"
proof (cases "- (2 ^ 47) \<le> v \<and> v < 2 ^ 47")
  case True
  then have "wf_rec (rec_add_int rec_init v) ([] @ [SqlInt v])" by (intro wf_int wf_init) auto
  from wf_finalize [OF this] show ?thesis using True by simp
next
  case False
  then have "v < - 140737488355328 \<or> 140737488355328 \<le> v" by (simp add: not_le not_less)
  then have "int_serial_type v = 8" by (elim disjE) (simp_all add: int_serial_type_def)
  then have "rec_add_int rec_init v = rec_add_int rec_init 0" by (simp add: rec_add_int_def int_serial_type_def [of 0] int_storage_bytes_def)
  moreover have "wf_rec (rec_add_int rec_init 0) ([] @ [SqlInt 0])" by (intro wf_int wf_init) auto
  ultimately have "decode_record (rec_finalize (rec_add_int rec_init v)) = Some [SqlInt 0]" using wf_finalize by fastforce
  then show ?thesis by (simp only: False if_False)
qed

text \<open>
  The page of the pending byte is skipped by leaf pages and interior pages but not by overflow pages. SQLite
  never uses the page with the byte at \<open>0x40000000\<close>; the writer leaves it out when it puts down a leaf or an interior
  page, but a chain of overflow pages that starts there occupies it.
\<close>

theorem pending_byte_page_used:
  "page_num (fst (write_interior_page pb ix ip right)) \<noteq> CBM_PENDING_BYTE_PAGE \<and>
   (pb_cell_count pb \<noteq> 0 \<longrightarrow> page_num (last (pb_leaves (pb_flush_leaf pb key sep))) \<noteq> CBM_PENDING_BYTE_PAGE) \<and>
   (data \<noteq> [] \<longrightarrow> snd (snd (write_overflow_pages fp CBM_PENDING_BYTE_PAGE data)) = CBM_PENDING_BYTE_PAGE)"
proof -
  have skip: "cbm_skip_pending_byte n \<noteq> CBM_PENDING_BYTE_PAGE" for n by (simp add: cbm_skip_pending_byte_def)
  have "CBM_PENDING_BYTE_PAGE \<noteq> 0" by (simp add: CBM_PENDING_BYTE_PAGE_def)
  then have "snd (snd (write_overflow_pages fp CBM_PENDING_BYTE_PAGE data)) = CBM_PENDING_BYTE_PAGE" if "data \<noteq> []"
    unfolding write_overflow_pages_def using that by (subst overflow_loop.simps) (simp add: Let_def overflow_loop_first)
  then show ?thesis using skip by (simp add: write_interior_page_def pb_flush_leaf_def Let_def)
qed

theorem pending_byte_page_used_witness:
  "snd (snd (write_overflow_pages empty_file CBM_PENDING_BYTE_PAGE [7])) = CBM_PENDING_BYTE_PAGE \<and>
   page_num (last (pb_leaves (pb_flush_leaf (pb_add_cell (pb_init empty_file CBM_PENDING_BYTE_PAGE False) [1]) 0 []))) \<noteq> CBM_PENDING_BYTE_PAGE"
  using pending_byte_page_used [where data = "[7]" and fp = empty_file and pb = "pb_add_cell (pb_init empty_file CBM_PENDING_BYTE_PAGE False) [1]"
      and key = 0 and sep = "[]" and ix = False and ip = empty_interior and right = "\<lparr>page_num = 2, max_key = 0, sep_cell = []\<rparr>"]
    add_cell_count_pos [of "pb_init empty_file CBM_PENDING_BYTE_PAGE False" "[1]"] by simp

text \<open>
  C39. An interior page can be left without a cell. When a level has one child more than fits on its pages, the last page
  of the next level gets only a right child: with six children whose separators have 16000 bytes, four cells
  and a right child fill the first page and the second page has no cell, which SQLite takes for corruption.
\<close>

theorem interior_page_without_cell:
  assumes "length children = 6" "list_all (\<lambda>c. length (sep_cell c) = 16000) children" "1 < pb_next_page pb"
    and "interior_level pb True children = (parents, pb')"
  shows "length parents = 2 \<and> page_at (pb_fp pb') (page_num (parents ! 1)) 0 = 0x02 \<and> cell_offsets (page_at (pb_fp pb') (page_num (parents ! 1))) 0 12 = []"
proof -
  obtain c0 c1 c2 c3 c4 c5 where ch: "children = [c0, c1, c2, c3, c4, c5]" using assms(1) by (auto simp: numeral_eq_Suc length_Suc_conv)
  have "length (build_interior_cell c True) = 16004" if "length (sep_cell c) = 16000" for c using that by (simp add: build_interior_cell_def)
  then have len: "list_all (\<lambda>c. length (build_interior_cell c True) = 16004) children" using assms(2) by (simp add: list_all_iff)
  obtain ip where f1: "fill_interior_page True children empty_interior = ([c4, c5], ip)"
    using len by (simp add: ch Let_def empty_interior_def layout)
  obtain p1 pb1 where w1: "write_interior_page pb True ip c4 = (p1, pb1)" by fastforce
  obtain p2 pb2 where w2: "write_interior_page pb1 True empty_interior c5 = (p2, pb2)" by fastforce
  have "interior_level pb1 True [c5] = ([p2], pb2)"
    using w2 by (subst interior_level.simps) (simp add: interior_level.simps [of _ _ "[]"])
  then have r: "parents = [p1, p2]" "pb' = pb2" using assms(4) interior_level_step [of children True "[c4, c5]" ip pb p1 pb1] f1 w1 by (simp_all add: ch)
  have n: "0 < page_num p2" "page_at (pb_fp pb2) (page_num p2) = (\<lambda>i. if i < 65536 then store_bytes (page_header (\<lambda>_. 0) 0 0x02 0 65536) 8 (put_u32 (page_num c5)) i else 0)"
  proof -
    have "pb_next_page pb1 = Suc (cbm_skip_pending_byte (pb_next_page pb))" using w1 by (auto simp: write_interior_page_def Let_def)
    then have "0 < cbm_skip_pending_byte (pb_next_page pb1)" using skip_bounds(1) [of "pb_next_page pb1"] by simp
    then show "0 < page_num p2" "page_at (pb_fp pb2) (page_num p2) = (\<lambda>i. if i < 65536 then store_bytes (page_header (\<lambda>_. 0) 0 0x02 0 65536) 8 (put_u32 (page_num c5)) i else 0)"
      using w2 by (auto simp: write_interior_page_def Let_def page_at_write empty_interior_def INTERIOR_INDEX_FLAG_def layout)
  qed
  have "u16_at (page_at (pb_fp pb2) (page_num p2)) 3 = 0" "page_at (pb_fp pb2) (page_num p2) 0 = 0x02"
    unfolding n(2) by (simp_all add: u16_at_def store_bytes_def page_header_def put_u16_def put_u32_def Let_def)
  then show ?thesis by (simp add: r cell_offsets_def)
qed

theorem interior_page_without_cell_witness:
  "\<exists>parents pb'. interior_level (pb_init empty_file 2 True) True (replicate 6 \<lparr>page_num = 9, max_key = 0, sep_cell = replicate 16000 0\<rparr>) = (parents, pb') \<and>
     length parents = 2 \<and> page_at (pb_fp pb') (page_num (parents ! 1)) 0 = 0x02 \<and> cell_offsets (page_at (pb_fp pb') (page_num (parents ! 1))) 0 12 = []"
proof -
  let ?cs = "replicate 6 \<lparr>page_num = 9, max_key = 0, sep_cell = replicate 16000 0\<rparr>"
  obtain parents pb' where r: "interior_level (pb_init empty_file 2 True) True ?cs = (parents, pb')" by fastforce
  have "list_all (\<lambda>c. length (sep_cell c) = 16000) ?cs" "1 < pb_next_page (pb_init empty_file 2 True)"
    by (simp_all add: list_all_iff pb_init_def Let_def)
  from interior_page_without_cell [OF length_replicate this r] r show ?thesis by blast
qed

end
