(* ===== verification/DbDump.thy ===== *)
theory DbDump
  imports GraphDump DbProperties
begin

text \<open>
  The dump of a graph buffer into a database file: \<open>cbm_gbuf_dump_to_sqlite\<close> of \<open>graph_buffer/graph_buffer.c\<close> with the modelled
  writer of \<open>internal/cbm/sqlite_writer.c\<close> in the place of its argument. Dropping the properties of nodes that are
  already written, which the dump does when memory is short, does not change the file, and the tables
  of the file are the graph of the buffer.
\<close>

section \<open>The writer as an argument of the dump\<close>

definition sqlite_writer :: "(u32 \<Rightarrow> int) \<Rightarrow> sorter \<Rightarrow> bool \<Rightarrow> (cbm_db_writer + write_db_ctx_t) db_writer" where
  \<comment> \<open>a writer that takes nodes, or the context of a finished file\<close>
  "sqlite_writer idf qsort opened =
     \<lparr>writer_open = map_option Inl (cbm_writer_open opened),
      writer_append_nodes = (\<lambda>w ns.
        case w of
          Inl d \<Rightarrow> (case cbm_writer_append_nodes (Some d) ns of (rc, r) \<Rightarrow> (rc, case r of Some d' \<Rightarrow> Inl d' | None \<Rightarrow> w))
        | Inr c \<Rightarrow> (CBM_NOT_FOUND, w)),
      writer_finalize = (\<lambda>w project root_path indexed_at nodes edges vectors token_vecs.
        case w of
          Inl d \<Rightarrow> (case cbm_writer_finalize idf qsort (Some d) project root_path indexed_at nodes edges vectors token_vecs of
                     (rc, r) \<Rightarrow> (rc, case r of Some c \<Rightarrow> Inr c | None \<Rightarrow> w))
        | Inr c \<Rightarrow> (CBM_NOT_FOUND, w))\<rparr>"

definition db_file :: "write_db_ctx_t \<Rightarrow> FILE \<times> nat \<times> bool" where
  \<comment> \<open>the bytes, the number of the next page and the mark\<close>
  "db_file c = (wc_fp c, wc_next_page c, wc_ub c)"

section \<open>Properties of nodes are read once\<close>

definition light :: "CBMDumpNode \<Rightarrow> CBMDumpNode" where
  "light n = n\<lparr>dmn_props := None\<rparr>"

lemma light_simps [simp]:
  "dmn_id (light n) = dmn_id n" "dmn_project (light n) = dmn_project n" "dmn_label (light n) = dmn_label n" "dmn_name (light n) = dmn_name n"
  "dmn_qn (light n) = dmn_qn n" "dmn_file (light n) = dmn_file n"
  by (simp_all add: light_def)

lemma light_nth: "map light ns = map light ms \<Longrightarrow> light (ns ! i) = light (ms ! i)"
proof -
  assume a: "map light ns = map light ms"
  then have "length ns = length ms" by (metis length_map)
  then show ?thesis using a by (induction ns ms arbitrary: i rule: list_induct2) (auto simp: nth_Cons split: nat.split)
qed

lemma light_col: "map light ns = map light ms \<Longrightarrow> f (ns ! i) = f (ms ! i)" if "\<And>n. f (light n) = f n" for f
  using light_nth [of ns ms i] that by metis

lemmas light_cols = light_col [of dmn_id] light_col [of dmn_project] light_col [of dmn_label] light_col [of dmn_name] light_col [of dmn_qn] light_col [of dmn_file]

lemma light_length: "map light ns = map light ms \<Longrightarrow> length ns = length ms"
  by (metis length_map)

lemma light_jobs: "map light ns = map light ms \<Longrightarrow> node_jobs ns = node_jobs ms"
  using light_cols [of ns ms]
  by (simp add: node_jobs_def fun_eq_iff cmp_node_by_label_def cmp_node_by_name_def cmp_node_by_file_def cmp_node_by_qn_def)

lemma light_node_index:
  "map light ns = map light ms \<Longrightarrow> col \<in> {dmn_label, dmn_name, dmn_file, dmn_qn} \<Longrightarrow>
     build_node_index_sorted fp np ns perm col = build_node_index_sorted fp np ms perm col"
  using light_cols [of ns ms] light_length [of ns ms] by (auto simp: build_node_index_sorted_def cong: option.case_cong)

lemma in_ctx_nodes: "in_ctx (w\<lparr>wc_nodes := ns\<rparr>) res = (fst (in_ctx w res), (snd (in_ctx w res))\<lparr>wc_nodes := ns\<rparr>)"
  by (simp add: in_ctx_def split_def)

lemma run_steps_nodes: "run_steps (w\<lparr>wc_nodes := ns\<rparr>) ss = (fst (run_steps w ss), (snd (run_steps w ss))\<lparr>wc_nodes := ns\<rparr>)"
  by (induction ss arbitrary: w) (simp_all add: in_ctx_nodes split_def)

lemma run_steps_wc_nodes [simp]: "wc_nodes (snd (run_steps w ss)) = wc_nodes w"
  by (induction ss arbitrary: w) (simp_all add: in_ctx_def split_def)

lemma sequence_rows_light: "map light ns = map light (wc_nodes w) \<Longrightarrow> sequence_rows (w\<lparr>wc_nodes := ns\<rparr>) = sequence_rows w"
proof -
  assume a: "map light ns = map light (wc_nodes w)"
  then have "ns = [] \<longleftrightarrow> wc_nodes w = []" by (metis list.map_disc_iff)
  moreover have "dmn_id (last ns) = dmn_id (last (wc_nodes w))" if "ns \<noteq> []"
    using light_cols(1) [OF _ a, of "length ns - 1"] light_length [OF a] that calculation by (simp add: last_conv_nth)
  ultimately show ?thesis by (simp add: sequence_rows_def)
qed

lemma metadata_nodes:
  assumes "map light ns = map light (wc_nodes w)"
  shows "write_metadata_tables (w\<lparr>wc_nodes := ns\<rparr>) = (fst (write_metadata_tables w), (snd (write_metadata_tables w))\<lparr>wc_nodes := ns\<rparr>)"
  using run_steps_nodes [where w = w and ns = ns] by (simp add: write_metadata_tables_def sequence_rows_light [OF assms] del: run_steps.simps)

lemma node_indexes_nodes:
  assumes "map light ns = map light (wc_nodes w)"
  shows "build_node_indexes (w\<lparr>wc_nodes := ns\<rparr>) perms =
    (fst (build_node_indexes w perms), fst (snd (build_node_indexes w perms)), (snd (snd (build_node_indexes w perms)))\<lparr>wc_nodes := ns\<rparr>)"
proof -
  let ?steps = "\<lambda>ns. map (\<lambda>(perm, col) fp np. build_node_index_sorted fp np ns perm col) (zip perms [dmn_label, dmn_name, dmn_file, dmn_qn])"
  have s: "?steps ns = ?steps (wc_nodes w)"
    using light_node_index [OF assms] by (intro map_cong refl) (auto simp: fun_eq_iff dest!: set_zip_rightD)
  have "ns = [] \<longleftrightarrow> wc_nodes w = []" using light_length [OF assms] by auto
  moreover obtain rs w' where r: "run_steps w (?steps (wc_nodes w)) = (rs, w')" by fastforce
  moreover have "wc_nodes w' = wc_nodes w" using run_steps_wc_nodes r by (metis snd_conv)
  ultimately show ?thesis by (simp add: build_node_indexes_def s run_steps_nodes)
qed

lemma edge_indexes_nodes:
  "build_edge_indexes (w\<lparr>wc_nodes := ns\<rparr>) perms =
    (fst (build_edge_indexes w perms), fst (snd (build_edge_indexes w perms)), (snd (snd (build_edge_indexes w perms)))\<lparr>wc_nodes := ns\<rparr>)"
  using run_steps_nodes [where w = w and ns = ns] by (simp add: build_edge_indexes_def split_def)

lemma after_nodes_light:
  assumes l: "map light ns = map light (wc_nodes w)"
  shows "write_db_after_nodes idf qsort (w\<lparr>wc_nodes := ns\<rparr>) rt =
    (fst (write_db_after_nodes idf qsort w rt), (snd (write_db_after_nodes idf qsort w rt))\<lparr>wc_nodes := ns\<rparr>)"
proof -
  let ?ds = "[write_one_table (edge_rows (wc_edges w)), write_one_table (vector_rows (wc_vectors w)), write_one_table (token_vec_rows idf (wc_token_vecs w))]"
  obtain data w1 where r1: "run_steps w ?ds = (data, w1)" by fastforce
  have l1: "map light ns = map light (wc_nodes w1)" using l run_steps_wc_nodes [of w ?ds] r1 by simp
  obtain meta w2 where r2: "write_metadata_tables w1 = (meta, w2)" by fastforce
  have n2: "wc_nodes w2 = wc_nodes w1" using r2 run_steps_wc_nodes unfolding write_metadata_tables_def by (metis snd_conv)
  then have l2: "map light ns = map light (wc_nodes w2)" using l1 by simp
  let ?ps = "parallel_sort_indexes qsort (length (wc_nodes w2)) (node_jobs (wc_nodes w2))"
  have p: "parallel_sort_indexes qsort (length ns) (node_jobs ns) = ?ps" using light_length [OF l2] light_jobs [OF l2] by simp
  obtain nrc nidx w3 where r3: "build_node_indexes w2 ?ps = (nrc, nidx, w3)" by (metis prod_cases3)
  obtain erc eidx w4 where r4: "build_edge_indexes w3 (parallel_sort_indexes qsort (length (wc_edges w3)) (edge_jobs (wc_edges w3))) = (erc, eidx, w4)"
    by (metis prod_cases3)
  show ?thesis
    using run_steps_nodes [where w = w and ns = ns and ss = ?ds] metadata_nodes [OF l1] node_indexes_nodes [OF l2, of ?ps] edge_indexes_nodes [where w = w3 and ns = ns]
    unfolding write_db_after_nodes_def
    by (simp add: r1 r2 r3 r4 p run_steps_nodes split_def del: run_steps.simps)
qed

lemma finalize_light:
  assumes "map light ms = map light ns"
  shows "cbm_writer_finalize idf qsort (Some d) project root_path indexed_at ms edges vectors tvs =
    (case cbm_writer_finalize idf qsort (Some d) project root_path indexed_at ns edges vectors tvs of
       (rc, c) \<Rightarrow> (rc, map_option (\<lambda>c. c\<lparr>wc_nodes := ms\<rparr>) c))"
proof -
  have "write_db_after_nodes idf qsort \<lparr>wc_fp = fp, wc_next_page = n, wc_project = project, wc_root_path = root_path, wc_indexed_at = indexed_at,
      wc_nodes = ms, wc_edges = edges, wc_vectors = vectors, wc_token_vecs = tvs, wc_ub = ub\<rparr> rt =
    (let r = write_db_after_nodes idf qsort \<lparr>wc_fp = fp, wc_next_page = n, wc_project = project, wc_root_path = root_path, wc_indexed_at = indexed_at,
      wc_nodes = ns, wc_edges = edges, wc_vectors = vectors, wc_token_vecs = tvs, wc_ub = ub\<rparr> rt in (fst r, (snd r)\<lparr>wc_nodes := ms\<rparr>))" for fp n ub rt
    using after_nodes_light [of ms "\<lparr>wc_fp = fp, wc_next_page = n, wc_project = project, wc_root_path = root_path, wc_indexed_at = indexed_at,
      wc_nodes = ns, wc_edges = edges, wc_vectors = vectors, wc_token_vecs = tvs, wc_ub = ub\<rparr>"] assms by (simp add: Let_def)
  then show ?thesis by (simp add: cbm_writer_finalize_def Let_def split_def)
qed

section \<open>Streaming the nodes\<close>

lemma stream_rest:
  assumes "dw_err d = 0"
  shows "\<exists>ms ns. stream_nodes (sqlite_writer idf qsort opened) over k fh rows (Inl d) gb = (0, ms, Inl (foldl append_node d (map fst rows)), gb\<lparr>gb_nodes := ns\<rparr>) \<and>
    map light ms = map light (map fst rows)"
  using assms
proof (induction "length rows" arbitrary: k fh rows d gb rule: less_induct)
  case less
  show ?case
  proof (cases "rows = []")
    case True
    then show ?thesis by (intro exI [of _ "[]"] exI [of _ "gb_nodes gb"]) (simp add: stream_nodes.simps)
  next
    case False
    let ?P = "DUMP_PARTITION_NODES"
    let ?d = "foldl append_node d (map fst (take ?P rows))" and ?fh = "fh \<or> over k"
    let ?gb = "if ?fh then foldl drop_props gb (map snd (take ?P rows)) else gb"
    have "length (drop ?P rows) < length rows" using False by (simp add: DUMP_PARTITION_NODES_def)
    moreover have "dw_err ?d = 0" using less.prems by (simp add: foldl_append_node)
    ultimately obtain ms ns where ih: "stream_nodes (sqlite_writer idf qsort opened) over (k + 1) ?fh (drop ?P rows) (Inl ?d) ?gb =
        (0, ms, Inl (foldl append_node ?d (map fst (drop ?P rows))), ?gb\<lparr>gb_nodes := ns\<rparr>)" "map light ms = map light (map fst (drop ?P rows))"
      using less.hyps [of "drop ?P rows" ?d "k + 1" ?fh ?gb] by blast
    have "(foldl drop_props gb xs)\<lparr>gb_nodes := ns\<rparr> = gb\<lparr>gb_nodes := ns\<rparr>" for xs
      by (induction xs arbitrary: gb) (simp_all add: drop_props_def)
    then have gb: "?gb\<lparr>gb_nodes := ns\<rparr> = gb\<lparr>gb_nodes := ns\<rparr>" by simp
    have d: "foldl append_node ?d (map fst (drop ?P rows)) = foldl append_node d (map fst rows)"
      by (metis append_take_drop_id foldl_append map_append)
    have a: "writer_append_nodes (sqlite_writer idf qsort opened) (Inl d) (map fst (take ?P rows)) = (0, Inl ?d)"
      using less.prems by (simp add: sqlite_writer_def cbm_writer_append_nodes_def)
    let ?h = "if ?fh then map (\<lambda>r. (fst r)\<lparr>dmn_props := None\<rparr>) (take ?P rows) else map fst (take ?P rows)"
    have "map light (?h @ ms) = map light (map fst (take ?P rows @ drop ?P rows))" unfolding map_append ih(2) by (simp add: light_def)
    then have "map light (?h @ ms) = map light (map fst rows)" by simp
    moreover have "stream_nodes (sqlite_writer idf qsort opened) over k fh rows (Inl d) gb = (0, ?h @ ms, Inl (foldl append_node d (map fst rows)), gb\<lparr>gb_nodes := ns\<rparr>)"
      using False ih(1) a d gb by (subst stream_nodes.simps) (simp add: Let_def)
    ultimately show ?thesis by blast
  qed
qed

section \<open>The file of a dump\<close>

lemma gb_nodes_fields [simp]:
  "edges_of (gb\<lparr>gb_nodes := ns\<rparr>) xs = edges_of gb xs"
  by (simp add: edges_of_def)

lemma dump_edges_nodes [simp]: "build_dump_edges url_of (gb\<lparr>gb_nodes := ns\<rparr>) t2f mx = build_dump_edges url_of gb t2f mx"
proof -
  have "build_edge_rows url_of (gb\<lparr>gb_nodes := ns\<rparr>) t2f mx es idx = build_edge_rows url_of gb t2f mx es idx" for es idx
    by (induction es arbitrary: idx) (simp_all add: Let_def)
  then show ?thesis by (simp add: build_dump_edges_def)
qed

definition dump_tables :: "(string \<Rightarrow> string option) \<Rightarrow> (CBMDumpVector list \<Rightarrow> CBMDumpVector list) \<Rightarrow> cbm_gbuf \<Rightarrow>
    CBMDumpNode list \<times> CBMDumpEdge list \<times> CBMDumpVector list \<times> CBMDumpTokenVec list" where
  \<comment> \<open>the rows of the buffer, all properties included\<close>
  "dump_tables url_of vsort gb =
     (case build_dump_nodes gb (gb_next_id gb) of
        (rows, t2f) \<Rightarrow> (rows, build_dump_edges url_of gb t2f (gb_next_id gb), dump_vectors (remap_sort_dedup_vectors vsort gb t2f (gb_next_id gb)), dump_token_vecs gb))"

declare build_node_rows.simps(2) [simp del]

lemma length_node_rows: "length (fst (build_node_rows gb mx ns m idx)) = length (filter (live_node gb) ns)"
  by (induction ns arbitrary: m idx) (simp_all add: build_node_rows_Cons Let_def)

lemma dump_file:
  assumes t: "dump_tables url_of vsort gb = (rows, erows, vs, tvs)"
    and d: "cbm_gbuf_dump_to_sqlite url_of vsort (sqlite_writer idf qsort opened) over indexed_at gb = (rc, file, gb')"
    and w: "cbm_write_db idf qsort opened (gb_project gb) (gb_root gb) indexed_at rows erows vs tvs = (rc', c)"
  shows "rc = rc' \<and> (case c of None \<Rightarrow> file = None | Some c \<Rightarrow> \<exists>ms. file = Some (Inr (c\<lparr>wc_nodes := ms\<rparr>)))"
proof (cases opened)
  case False
  then show ?thesis using d w
    by (auto simp: cbm_gbuf_dump_to_sqlite_def sqlite_writer_def cbm_writer_open_def cbm_write_db_def CBM_NOT_FOUND_def Let_def split: prod.splits)
next
  case True
  obtain t2f where b: "build_dump_nodes gb (gb_next_id gb) = (rows, t2f)" and e: "erows = build_dump_edges url_of gb t2f (gb_next_id gb)"
    and v: "vs = dump_vectors (remap_sort_dedup_vectors vsort gb t2f (gb_next_id gb))" "tvs = dump_token_vecs gb"
    using t by (auto simp: dump_tables_def split: prod.splits)
  obtain d0 where o: "cbm_writer_open True = Some d0" "dw_err d0 = 0" by (simp add: cbm_writer_open_def)
  let ?is = "filter (\<lambda>i. live_node gb (gb_nodes gb ! i)) [0..<length (gb_nodes gb)]"
  have "length ?is = length (filter (live_node gb) (map ((!) (gb_nodes gb)) [0..<length (gb_nodes gb)]))" by (simp only: filter_map length_map comp_def)
  then have "length ?is = length rows" using b length_node_rows [of gb "gb_next_id gb" "gb_nodes gb" "\<lambda>_. 0" 0] by (simp add: build_dump_nodes_def map_nth)
  then have z: "map fst (zip rows ?is) = rows" by simp
  obtain ms ns where s: "stream_nodes (sqlite_writer idf qsort True) over 0 False (zip rows ?is) (Inl d0) gb = (0, ms, Inl (foldl append_node d0 rows), gb\<lparr>gb_nodes := ns\<rparr>)"
    "map light ms = map light rows"
    using stream_rest [OF o(2), of idf qsort True over 0 False "zip rows ?is" gb] unfolding z by blast
  let ?gb = "release_and_remap_vectors vsort (gb\<lparr>gb_nodes := ns\<rparr>) t2f (gb_next_id gb)"
  have g: "gb_project ?gb = gb_project gb" "gb_root ?gb = gb_root gb" "dump_vectors ?gb = vs" "dump_token_vecs ?gb = tvs"
    by (simp_all add: v release_and_remap_vectors_def release_gbuf_indexes_def remap_sort_dedup_vectors_def Let_def)
  have w': "cbm_writer_finalize idf qsort (Some (foldl append_node d0 rows)) (gb_project gb) (gb_root gb) indexed_at rows erows vs tvs = (rc', c)"
    using w True o by (simp add: cbm_write_db_def cbm_writer_append_nodes_def)
  then obtain c' where c: "c = Some c'" by (auto simp: cbm_writer_finalize_def Let_def split: prod.splits if_splits)
  have fin: "writer_finalize (sqlite_writer idf qsort True) (Inl (foldl append_node d0 rows)) (gb_project gb) (gb_root gb) indexed_at ms erows vs tvs = (rc', Inr (c'\<lparr>wc_nodes := ms\<rparr>))"
    using w' c by (simp add: sqlite_writer_def finalize_light [OF s(2)])
  have "writer_open (sqlite_writer idf qsort True) = Some (Inl d0)" using o by (simp add: sqlite_writer_def)
  then have "cbm_gbuf_dump_to_sqlite url_of vsort (sqlite_writer idf qsort True) over indexed_at gb = (rc', Some (Inr (c'\<lparr>wc_nodes := ms\<rparr>)), ?gb)"
    using fin g by (simp add: cbm_gbuf_dump_to_sqlite_def b s(1) e Let_def)
  then show ?thesis using d True c by auto
qed

section \<open>The graph in the file\<close>

definition text_col :: "nat \<Rightarrow> u8 list \<Rightarrow> u8 list option" where
  "text_col k p = (case decode_record p of Some vs \<Rightarrow> (case vs ! k of SqlText bs \<Rightarrow> Some bs | _ \<Rightarrow> None) | None \<Rightarrow> None)"

definition int_col :: "nat \<Rightarrow> u8 list \<Rightarrow> int" where
  "int_col k p = (case decode_record p of Some vs \<Rightarrow> (case vs ! k of SqlInt i \<Rightarrow> i | _ \<Rightarrow> 0) | None \<Rightarrow> 0)"

definition stored_name :: "(int \<times> u8 list) list \<Rightarrow> int \<Rightarrow> u8 list option" where
  \<comment> \<open>the qualified name in the row of the table of nodes with this number\<close>
  "stored_name nrs k = Option.bind (map_of nrs k) (text_col 4)"

lemma node_name_col:
  "node_fits n \<Longrightarrow> text_col 4 (build_node_record n) = Some (text_bytes (dmn_qn n))"
  using node_record [of n] by (simp add: text_col_def node_values_def)

lemma edge_cols:
  "edge_fits e \<Longrightarrow> int_col 2 (build_edge_record e) = dme_source e \<and> int_col 3 (build_edge_record e) = dme_target e \<and>
     text_col 4 (build_edge_record e) = Some (text_bytes (dme_type e))"
  using edge_record [of e] by (simp add: text_col_def int_col_def edge_values_def)

lemma stored_name_rows: "list_all node_fits rows \<Longrightarrow> stored_name (node_rows rows) k = map_option text_bytes (row_qn rows k)"
  by (induction rows) (auto simp: stored_name_def row_qn_def node_rows_def node_name_col)

lemma table_reads: "table_at fp lo n rt rows \<Longrightarrow> \<exists>ps. read_table fp (Suc (length rows)) rt = Some (ps, rows)"
  using tree_at_read [of fp lo n rt "TableOf rows"] by auto

lemma dump_graph:
  assumes inv: "gb_inv gb" "refs_ok gb" "id_counter_ok gb" and t: "dump_tables url_of vsort gb = (rows, erows, vs, tvs)"
    and fit: "list_all node_fits rows" "list_all edge_fits erows"
  shows "(\<lambda>(k, p). text_col 4 p) ` set (node_rows rows) = (\<lambda>q. Some (text_bytes q)) ` {q. cbm_gbuf_find_by_qn gb (Some q) \<noteq> None}"
    and "(\<lambda>(k, p). (stored_name (node_rows rows) (int_col 2 p), stored_name (node_rows rows) (int_col 3 p), text_col 4 p)) ` set (edge_rows erows) =
      (\<lambda>(a, b, ty). (map_option text_bytes a, map_option text_bytes b, Some (text_bytes ty))) ` abs_edges gb"
proof -
  have ok: "nodes_ok gb" using inv by (simp add: gb_inv_def)
  obtain t2f where b: "build_dump_nodes gb (gb_next_id gb) = (rows, t2f)" and e: "build_dump_edges url_of gb t2f (gb_next_id gb) = erows"
    using t by (auto simp: dump_tables_def split: prod.splits)
  have "(\<lambda>(k, p). text_col 4 p) ` set (node_rows rows) = (\<lambda>n. Some (text_bytes (dmn_qn n))) ` set rows"
    using fit(1) by (auto simp: node_rows_def node_name_col list_all_iff image_image intro!: image_cong)
  also have "\<dots> = (\<lambda>q. Some (text_bytes q)) ` {q. cbm_gbuf_find_by_qn gb (Some q) \<noteq> None}"
    unfolding dump_nodes_spec(3) [OF ok inv(3) b] using find_by_qn_set [OF ok] by (force simp: row_of_def image_iff)
  finally show "(\<lambda>(k, p). text_col 4 p) ` set (node_rows rows) = (\<lambda>q. Some (text_bytes q)) ` {q. cbm_gbuf_find_by_qn gb (Some q) \<noteq> None}" .
  have "(\<lambda>(k, p). (stored_name (node_rows rows) (int_col 2 p), stored_name (node_rows rows) (int_col 3 p), text_col 4 p)) ` set (edge_rows erows) =
      (\<lambda>e. (map_option text_bytes (row_qn rows (dme_source e)), map_option text_bytes (row_qn rows (dme_target e)), Some (text_bytes (dme_type e)))) ` set erows"
    using fit edge_cols by (auto simp: edge_rows_def stored_name_rows list_all_iff image_image intro!: image_cong)
  also have "\<dots> = (\<lambda>(a, b, ty). (map_option text_bytes a, map_option text_bytes b, Some (text_bytes ty))) ` abs_edges gb"
    unfolding dump_edges_spec(4) [OF ok inv(2,3) b e, symmetric] by (simp add: image_image)
  finally show "(\<lambda>(k, p). (stored_name (node_rows rows) (int_col 2 p), stored_name (node_rows rows) (int_col 3 p), text_col 4 p)) ` set (edge_rows erows) =
      (\<lambda>(a, b, ty). (map_option text_bytes a, map_option text_bytes b, Some (text_bytes ty))) ` abs_edges gb" .
qed

section \<open>A buffer with one function that calls itself\<close>

definition loop_node :: cbm_gbuf where
  "loop_node = snd (cbm_gbuf_upsert_node (cbm_gbuf_new (Some ''p'') (Some ''r'')) (Some ''Function'') (Some ''f'') (Some ''p.f'') (Some ''f.c'') 1 300 None)"

definition loop_gb :: cbm_gbuf where
  "loop_gb = snd (cbm_gbuf_insert_edge loop_node 1 1 (Some ''CALLS'') None)"

lemmas loop_defs = loop_gb_def loop_node_def demo_defs cbm_gbuf_insert_edge_def register_edge_in_indexes_def

lemma loop_tables: "dump_tables (\<lambda>_. None) id loop_gb = ([tiny_node], [tiny_edge], [], [])"
  by (simp add: loop_defs dump_tables_def build_dump_nodes_def build_node_rows_Cons live_node_def build_dump_edges_def edges_of_def remap_id_def
      extract_url_path_def remap_sort_dedup_vectors_def remap_vectors_def tiny_node_def tiny_edge_def)

lemma loop_fields: "gb_project loop_gb = ''p''" "gb_root loop_gb = ''r''" "id_counter_ok loop_gb" "next_of loop_node = 2" "live_ids loop_node = {1}"
  by (simp_all add: loop_defs id_counter_ok_def live_ids_def) force

lemma loop_inv: "gb_inv loop_gb" "refs_ok loop_gb"
proof -
  have new: "cbm_gbuf_find_by_qn (cbm_gbuf_new (Some ''p'') (Some ''r'')) (Some ''p.f'') = None" by (simp add: demo_defs)
  have "gb_reach UNIV loop_node" unfolding loop_node_def
    by (rule reach_upsert [OF gb_reach.new surjective_pairing]) (simp_all add: loop_fields new same_names_def LONG_MAX_def flip: loop_node_def)
  then have "gb_reach UNIV loop_gb" unfolding loop_gb_def
    by (rule reach_insert [OF _ surjective_pairing]) (simp_all add: loop_fields LONG_MAX_def)
  then show "gb_inv loop_gb" "refs_ok loop_gb" using reach_good by (auto simp: gb_good_def inv_good_def)
qed

lemma loop_dump:
  "\<exists>rc c gb'. cbm_gbuf_dump_to_sqlite (\<lambda>_. None) id (sqlite_writer (\<lambda>_. 0) isort True) over ''t'' loop_gb = (rc, Some (Inr c), gb') \<and> wc_next_page c \<le> 2 ^ 32"
proof -
  obtain rc c where w: "cbm_write_db (\<lambda>_. 0) isort True (gb_project loop_gb) (gb_root loop_gb) ''t'' [tiny_node] [tiny_edge] [] [] = (rc, Some c)" "wc_next_page c \<le> 2 ^ 32"
    using tiny_database by (auto simp: loop_fields)
  obtain rc' fl gb' where d: "cbm_gbuf_dump_to_sqlite (\<lambda>_. None) id (sqlite_writer (\<lambda>_. 0) isort True) over ''t'' loop_gb = (rc', fl, gb')" by (metis prod_cases3)
  show ?thesis using dump_file [OF loop_tables d w(1)] d w(2) by auto
qed

section \<open>Properties\<close>

definition dump_result :: "int \<times> (cbm_db_writer + write_db_ctx_t) option \<times> cbm_gbuf \<Rightarrow> int \<times> (FILE \<times> nat \<times> bool) option" where
  \<comment> \<open>the return value and the file\<close>
  "dump_result r = (case r of (rc, Some (Inr c), gb) \<Rightarrow> (rc, Some (db_file c)) | (rc, file, gb) \<Rightarrow> (rc, None))"

text \<open>
  C7. Memory pressure does not change the database. Whenever the budget is exceeded, the dump
  drops the properties of the nodes it has written, from the rows and from the buffer; the file and the
  result are the ones of the one-shot writer on the rows of the buffer with all their properties, also when
  the file cannot be opened.
\<close>

theorem dump_same_file:
  "dump_result (cbm_gbuf_dump_to_sqlite url_of vsort (sqlite_writer idf qsort opened) over indexed_at gb) =
     (case dump_tables url_of vsort gb of
        (rows, erows, vs, tvs) \<Rightarrow>
          (case cbm_write_db idf qsort opened (gb_project gb) (gb_root gb) indexed_at rows erows vs tvs of
             (rc, c) \<Rightarrow> (rc, map_option db_file c)))"
proof -
  obtain rows erows vs tvs where t: "dump_tables url_of vsort gb = (rows, erows, vs, tvs)" by (metis prod_cases4)
  obtain rc fl gb' where d: "cbm_gbuf_dump_to_sqlite url_of vsort (sqlite_writer idf qsort opened) over indexed_at gb = (rc, fl, gb')" by (metis prod_cases3)
  obtain rc' c where w: "cbm_write_db idf qsort opened (gb_project gb) (gb_root gb) indexed_at rows erows vs tvs = (rc', c)" by fastforce
  show ?thesis using dump_file [OF t d w] by (cases c) (auto simp: t d w dump_result_def db_file_def)
qed

text \<open>
  C6. The database of a dump is the graph of the buffer. For a buffer in a consistent state, the tables of nodes and edges
  that a reader finds in the file by way of the schema page hold one name for each node that the
  buffer finds by name, and the rows of the edges, with their numbers looked up in the table of nodes, are
  the edges of the buffer.
\<close>

theorem dump_database_graph:
  assumes "gb_inv gb" "refs_ok gb" "id_counter_ok gb" "sorts qsort" "dump_tables url_of vsort gb = (rows, erows, vs, tvs)"
    and "db_fits idf (gb_project gb) (gb_root gb) indexed_at rows erows vs tvs"
    and "cbm_gbuf_dump_to_sqlite url_of vsort (sqlite_writer idf qsort True) over indexed_at gb = (rc, Some (Inr c), gb')" "wc_next_page c \<le> 2 ^ 32"
  shows "rc = 0 \<and> (\<exists>r nps nrs eps ers. read_table (wc_fp c) 1 1 = Some ([1], master_rows (master_entries r)) \<and>
    read_table (wc_fp c) (Suc (length nrs)) (nodes_root r) = Some (nps, nrs) \<and> read_table (wc_fp c) (Suc (length ers)) (edges_root r) = Some (eps, ers) \<and>
    (\<lambda>(k, p). text_col 4 p) ` set nrs = (\<lambda>q. Some (text_bytes q)) ` {q. cbm_gbuf_find_by_qn gb (Some q) \<noteq> None} \<and>
    (\<lambda>(k, p). (stored_name nrs (int_col 2 p), stored_name nrs (int_col 3 p), text_col 4 p)) ` set ers =
      (\<lambda>(a, b, ty). (map_option text_bytes a, map_option text_bytes b, Some (text_bytes ty))) ` abs_edges gb)"
proof -
  obtain rc' c' where w: "cbm_write_db idf qsort True (gb_project gb) (gb_root gb) indexed_at rows erows vs tvs = (rc', Some c')"
    by (simp add: write_db_steps split_def)
  have same: "rc = rc'" "wc_fp c = wc_fp c'" "wc_next_page c = wc_next_page c'" using dump_file [OF assms(5,7) w] by auto
  obtain r where r: "rc' = 0" "read_table (wc_fp c) (Suc 0) 1 = Some ([1], master_rows (master_entries r))"
    "trees_at (wc_fp c) 2 (wc_next_page c) (tree_roots r) (db_contents idf qsort (gb_project gb) (gb_root gb) indexed_at rows erows vs tvs)"
    using write_db [OF assms(4,6) w] assms(8) same by auto
  then obtain m1 m2 where "table_at (wc_fp c) 2 m1 (nodes_root r) (node_rows rows)" "table_at (wc_fp c) m1 m2 (edges_root r) (edge_rows erows)"
    by (auto simp: tree_roots_def db_contents_def rest_contents_def data_contents_def db_context_def)
  then obtain nps eps where "read_table (wc_fp c) (Suc (length (node_rows rows))) (nodes_root r) = Some (nps, node_rows rows)"
    "read_table (wc_fp c) (Suc (length (edge_rows erows))) (edges_root r) = Some (eps, edge_rows erows)"
    using table_reads by metis
  moreover have "list_all node_fits rows" "list_all edge_fits erows" using assms(6) by (simp_all add: db_fits_def)
  note dump_graph [OF assms(1-3,5) this]
  ultimately show ?thesis using r(1,2) same(1) unfolding One_nat_def by blast
qed

theorem dump_database_graph_witness:
  "\<exists>rc c gb' r nps nrs eps ers. cbm_gbuf_dump_to_sqlite (\<lambda>_. None) id (sqlite_writer (\<lambda>_. 0) isort True) (\<lambda>_. True) ''t'' loop_gb = (rc, Some (Inr c), gb') \<and>
    read_table (wc_fp c) 1 1 = Some ([1], master_rows (master_entries r)) \<and>
    read_table (wc_fp c) (Suc (length nrs)) (nodes_root r) = Some (nps, nrs) \<and> read_table (wc_fp c) (Suc (length ers)) (edges_root r) = Some (eps, ers) \<and>
    (\<lambda>(k, p). (stored_name nrs (int_col 2 p), stored_name nrs (int_col 3 p), text_col 4 p)) ` set ers =
      (\<lambda>(a, b, ty). (map_option text_bytes a, map_option text_bytes b, Some (text_bytes ty))) ` abs_edges loop_gb"
proof -
  obtain rc c gb' where d: "cbm_gbuf_dump_to_sqlite (\<lambda>_. None) id (sqlite_writer (\<lambda>_. 0) isort True) (\<lambda>_. True) ''t'' loop_gb = (rc, Some (Inr c), gb')"
    "wc_next_page c \<le> 2 ^ 32" using loop_dump by blast
  have "db_fits (\<lambda>_. 0) (gb_project loop_gb) (gb_root loop_gb) ''t'' [tiny_node] [tiny_edge] [] []" using tiny_fits by (simp add: loop_fields)
  from dump_database_graph [OF loop_inv loop_fields(3) isort_sorts loop_tables this d]
  obtain r nps nrs eps ers where x: "read_table (wc_fp c) 1 1 = Some ([1], master_rows (master_entries r))" "read_table (wc_fp c) (Suc (length nrs)) (nodes_root r) = Some (nps, nrs)"
    "read_table (wc_fp c) (Suc (length ers)) (edges_root r) = Some (eps, ers)"
    "(\<lambda>(k, p). (stored_name nrs (int_col 2 p), stored_name nrs (int_col 3 p), text_col 4 p)) ` set ers =
      (\<lambda>(a, b, ty). (map_option text_bytes a, map_option text_bytes b, Some (text_bytes ty))) ` abs_edges loop_gb" by (elim conjE exE) (rule that)
  show ?thesis by (intro exI conjI) (rule d(1) x)+
qed

end
