(* ===== verification/Yaml.thy ===== *)
theory Yaml
  imports Prelude
begin

text \<open>
  The reader of configuration files of \<open>foundation/yaml.c\<close>. Nodes live in a heap, a list of records, and a
  pointer to a node is its index; the children of a node are an array of pointers, and the parser keeps a stack of
  pointers to the nodes that are still open. The text ends with a NUL, as in C, at which the
  count of leading spaces stops. Allocation succeeds.
\<close>

section \<open>Nodes\<close>

datatype yaml_type_t = YAML_MAP | YAML_LIST | YAML_SCALAR

record cbm_yaml_node =
  y_type :: yaml_type_t
  y_key :: cstr
  y_value :: cstr
  y_children :: "nat list"

type_synonym yaml_heap = "cbm_yaml_node list"

definition YAML_LIST_PREFIX :: nat where "YAML_LIST_PREFIX = 2"
definition YAML_ROOT_INDENT :: int where "YAML_ROOT_INDENT = -1"

definition node_new :: "yaml_type_t \<Rightarrow> cbm_yaml_node" where
  "node_new ty = \<lparr>y_type = ty, y_key = None, y_value = None, y_children = []\<rparr>"

definition node_add_child :: "yaml_heap \<Rightarrow> nat \<Rightarrow> cbm_yaml_node \<Rightarrow> yaml_heap" where
  \<comment> \<open>the new node gets the next address\<close>
  "node_add_child h parent child =
     h[parent := (h ! parent)\<lparr>y_children := y_children (h ! parent) @ [length h]\<rparr>] @ [child]"

section \<open>Strings\<close>

definition trim_dup :: "string \<Rightarrow> string" where
  "trim_dup s = dropWhile isspace (rev (dropWhile isspace (rev s)))"

definition leading_spaces :: "string \<Rightarrow> nat" where
  "leading_spaces line = length (takeWhile (\<lambda>c. c = CHR '' '') line)"

fun comment_at :: "string \<Rightarrow> nat option" where
  \<comment> \<open>where a hash mark follows a space\<close>
  "comment_at (a # b # cs) = (if a = CHR '' '' \<and> b = CHR ''#'' then Some 1 else map_option Suc (comment_at (b # cs)))"
| "comment_at cs = None"

definition strip_inline_comment :: "string \<Rightarrow> string" where
  "strip_inline_comment after =
     (if after \<noteq> [] \<and> hd after \<noteq> CHR 0x22 \<and> hd after \<noteq> CHR 0x27
      then case comment_at after of
             Some i \<Rightarrow> rev (dropWhile isspace (rev (take i after)))
           | None \<Rightarrow> after
      else after)"

definition line_of :: "string \<Rightarrow> string" where
  "line_of p = takeWhile (\<lambda>c. c \<noteq> CHR 0x0A) p"

definition after_line :: "string \<Rightarrow> string" where
  "after_line p = drop (Suc (length (line_of p))) p"

definition line_content :: "string \<Rightarrow> string" where
  \<comment> \<open>without the leading spaces and a carriage return at the end\<close>
  "line_content line =
     (let content = drop (leading_spaces line) line
      in if content \<noteq> [] \<and> last content = CHR 0x0D then butlast content else content)"

lemma after_line_less: "p \<noteq> [] \<Longrightarrow> length (after_line p) < length p"
  by (simp add: after_line_def)

section \<open>Parser\<close>

record yaml_state =
  ys_heap :: yaml_heap
  ys_stack :: "(nat \<times> int) list"  \<comment> \<open>node and indentation, the top first\<close>

definition parse_list_item :: "string \<Rightarrow> nat \<Rightarrow> yaml_heap \<Rightarrow> yaml_heap" where
  "parse_list_item content parent h =
     (let item = dropWhile isspace (drop YAML_LIST_PREFIX content);
          p = h ! parent;
          list_parent = (if y_type p = YAML_MAP \<and> y_children p \<noteq> [] \<and> y_type (h ! last (y_children p)) = YAML_LIST
                         then last (y_children p) else parent)
      in node_add_child h list_parent ((node_new YAML_SCALAR)\<lparr>y_value := Some (trim_dup item)\<rparr>))"

function peek_is_list :: "string \<Rightarrow> bool" where
  \<comment> \<open>the text behind the current line\<close>
  "peek_is_list peek =
     (if peek = [] then False
      else let pc = line_content (line_of peek)
           in if pc = [] \<or> hd pc = CHR ''#'' then peek_is_list (after_line peek) else hd pc = CHR ''-'')"
  by pat_completeness auto

termination
  by (relation "measure length") (simp_all add: after_line_less)

declare peek_is_list.simps [simp del]

definition parse_key_line :: "string \<Rightarrow> int \<Rightarrow> nat \<Rightarrow> string \<Rightarrow> yaml_state \<Rightarrow> yaml_state" where
  "parse_key_line content indent parent rest st =
     (case strchr content (CHR '':'') of
        None \<Rightarrow> st
      | Some colon \<Rightarrow>
          (let key = trim_dup (take colon content);
               after = strip_inline_comment (dropWhile isspace (drop (colon + 1) content));
               h = ys_heap st
           in if after \<noteq> []
              then st\<lparr>ys_heap := node_add_child h parent ((node_new YAML_SCALAR)\<lparr>y_key := Some key, y_value := Some (trim_dup after)\<rparr>)\<rparr>
              else let ty = (if peek_is_list rest then YAML_LIST else YAML_MAP)
                   in st\<lparr>ys_heap := node_add_child h parent ((node_new ty)\<lparr>y_key := Some key\<rparr>),
                         ys_stack := (if length (ys_stack st) < CBM_SZ_32 then (length h, indent) # ys_stack st else ys_stack st)\<rparr>))"

fun pop_stack :: "int \<Rightarrow> (nat \<times> int) list \<Rightarrow> (nat \<times> int) list" where
  "pop_stack indent (e # f # es) = (if snd e \<ge> indent then pop_stack indent (f # es) else e # f # es)"
| "pop_stack indent es = es"

definition parse_line :: "string \<Rightarrow> string \<Rightarrow> yaml_state \<Rightarrow> yaml_state" where
  \<comment> \<open>one turn of the loop, with the line and the text behind it\<close>
  "parse_line line rest st =
     (let indent = int (leading_spaces line);
          content = line_content line
      in if content = [] \<or> hd content = CHR ''#'' then st
         else let stack = pop_stack indent (ys_stack st);
                  st = st\<lparr>ys_stack := stack\<rparr>;
                  parent = fst (hd stack)
              in if hd content = CHR ''-'' \<and> length content \<ge> 2 \<and> content ! 1 = CHR '' ''
                 then st\<lparr>ys_heap := parse_list_item content parent (ys_heap st)\<rparr>
                 else parse_key_line content indent parent rest st)"

function parse_lines :: "string \<Rightarrow> yaml_state \<Rightarrow> yaml_state" where
  "parse_lines p st =
     (if p = [] then st else parse_lines (after_line p) (parse_line (line_of p) (after_line p) st))"
  by pat_completeness auto

termination
  by (relation "measure (\<lambda>(p, st). length p)") (simp_all add: after_line_less)

declare parse_lines.simps [simp del]

definition cbm_yaml_parse :: "cstr \<Rightarrow> yaml_heap" where
  \<comment> \<open>the heap, with the root at address 0\<close>
  "cbm_yaml_parse txt =
     (case txt of
        None \<Rightarrow> [node_new YAML_MAP]
      | Some s \<Rightarrow> ys_heap (parse_lines s \<lparr>ys_heap = [node_new YAML_MAP], ys_stack = [(0, YAML_ROOT_INDENT)]\<rparr>))"

section \<open>Queries\<close>

definition find_child :: "yaml_heap \<Rightarrow> nat \<Rightarrow> string \<Rightarrow> nat option" where
  "find_child h n key = find (\<lambda>c. y_key (h ! c) = Some key) (y_children (h ! n))"

function navigate_loop :: "yaml_heap \<Rightarrow> nat \<Rightarrow> string \<Rightarrow> nat option" where
  "navigate_loop h cur p =
     (if p = [] then Some cur
      else let seg_len = (case strchr p (CHR ''.'') of Some dot \<Rightarrow> dot | None \<Rightarrow> length p)
           in if seg_len = 0 \<or> seg_len \<ge> CBM_SZ_256 then None
              else case find_child h cur (take seg_len p) of
                     None \<Rightarrow> None
                   | Some c \<Rightarrow> navigate_loop h c (if drop seg_len p \<noteq> [] \<and> hd (drop seg_len p) = CHR ''.'' then drop (seg_len + 1) p
                                                  else drop seg_len p))"
  by pat_completeness auto

termination
  by (relation "measure (\<lambda>(h, cur, p). length p)") (auto split: option.splits if_splits)

declare navigate_loop.simps [simp del]

definition navigate :: "yaml_heap \<Rightarrow> nat option \<Rightarrow> cstr \<Rightarrow> nat option" where
  "navigate h root path =
     (case (root, path) of (Some r, Some p) \<Rightarrow> navigate_loop h r p | _ \<Rightarrow> None)"

definition cbm_yaml_get_str :: "yaml_heap \<Rightarrow> nat option \<Rightarrow> cstr \<Rightarrow> cstr" where
  "cbm_yaml_get_str h root path =
     (case navigate h root path of
        None \<Rightarrow> None
      | Some n \<Rightarrow> (if y_type (h ! n) \<noteq> YAML_SCALAR then None else y_value (h ! n)))"

definition cbm_yaml_get_float :: "(string \<Rightarrow> 'f option) \<Rightarrow> yaml_heap \<Rightarrow> nat option \<Rightarrow> cstr \<Rightarrow> 'f \<Rightarrow> 'f" where
  \<comment> \<open>\<open>strtod\<close> is an argument, with \<open>None\<close> for a text that does not start with a number\<close>
  "cbm_yaml_get_float strtod h root path default_val =
     (case cbm_yaml_get_str h root path of
        None \<Rightarrow> default_val
      | Some s \<Rightarrow> (case strtod s of None \<Rightarrow> default_val | Some v \<Rightarrow> v))"

definition cbm_yaml_get_bool :: "yaml_heap \<Rightarrow> nat option \<Rightarrow> cstr \<Rightarrow> bool \<Rightarrow> bool" where
  "cbm_yaml_get_bool h root path default_val =
     (case cbm_yaml_get_str h root path of
        None \<Rightarrow> default_val
      | Some s \<Rightarrow>
          (if strcasecmp_eq s ''true'' \<or> strcasecmp_eq s ''yes'' \<or> strcasecmp_eq s ''on'' \<or> s = ''1'' then True
           else if strcasecmp_eq s ''false'' \<or> strcasecmp_eq s ''no'' \<or> strcasecmp_eq s ''off'' \<or> s = ''0'' then False
           else default_val))"

fun collect_strs :: "yaml_heap \<Rightarrow> nat list \<Rightarrow> nat \<Rightarrow> string list" where
  \<comment> \<open>the room left in the output comes last\<close>
  "collect_strs h [] room = []"
| "collect_strs h (c # cs) room =
     (if room = 0 then []
      else case (y_type (h ! c), y_value (h ! c)) of
             (YAML_SCALAR, Some v) \<Rightarrow> v # collect_strs h cs (room - 1)
           | _ \<Rightarrow> collect_strs h cs room)"

definition cbm_yaml_get_str_list :: "yaml_heap \<Rightarrow> nat option \<Rightarrow> cstr \<Rightarrow> nat \<Rightarrow> string list" where
  \<comment> \<open>the pointers written to the output; the C function returns how many\<close>
  "cbm_yaml_get_str_list h root path max_out =
     (case navigate h root path of
        None \<Rightarrow> []
      | Some n \<Rightarrow> (if y_type (h ! n) \<noteq> YAML_LIST then [] else collect_strs h (y_children (h ! n)) max_out))"

definition cbm_yaml_has :: "yaml_heap \<Rightarrow> nat option \<Rightarrow> cstr \<Rightarrow> bool" where
  "cbm_yaml_has h root path \<longleftrightarrow> navigate h root path \<noteq> None"

end
