(* ===== verification/YamlProof.thy ===== *)
theory YamlProof
  imports Yaml "HOL-Library.Multiset"
begin

text \<open>
  What the reader of configuration files promises: for every layout of a document that \<open>renders\<close> allows, the queries
  answer as the document says. \<open>yrep\<close> relates a node of the heap to a document, and what lies above an address is
  not disturbed by the rest of the parser's work; for any text, the heap is a tree.
\<close>

section \<open>Documents and their layouts\<close>

datatype ydoc = YScalar string | YList "string list" | YMap "(string \<times> ydoc) list"

definition key_ok :: "string \<Rightarrow> bool" where
  "key_ok k \<longleftrightarrow> k \<noteq> [] \<and> CHR '':'' \<notin> set k \<and> CHR 0x0A \<notin> set k \<and> \<not> isspace (hd k) \<and> \<not> isspace (last k) \<and> hd k \<notin> {CHR ''#'', CHR ''-''}"

definition quoted :: "string \<Rightarrow> bool" where
  "quoted v \<longleftrightarrow> hd v \<in> {CHR 0x22, CHR 0x27}"

definition value_ok :: "string \<Rightarrow> bool" where
  "value_ok v \<longleftrightarrow> v \<noteq> [] \<and> CHR 0x0A \<notin> set v \<and> \<not> isspace (hd v) \<and> \<not> isspace (last v) \<and> (quoted v \<or> \<not> strstr v '' #'')"

definition item_ok :: "string \<Rightarrow> bool" where
  "item_ok v \<longleftrightarrow> CHR 0x0A \<notin> set v \<and> (v \<noteq> [] \<longrightarrow> \<not> isspace (hd v) \<and> \<not> isspace (last v))"

definition white :: "string \<Rightarrow> bool" where
  "white w \<longleftrightarrow> list_all isspace w \<and> CHR 0x0A \<notin> set w"

definition comment :: "string \<Rightarrow> bool" where
  \<comment> \<open>white space, a space and a hash mark, and the rest of the line\<close>
  "comment w \<longleftrightarrow> (\<exists>a b. w = a @ '' #'' @ b \<and> white a \<and> CHR 0x0A \<notin> set b)"

definition blank :: "string \<Rightarrow> bool" where
  \<comment> \<open>a line without content\<close>
  "blank l \<longleftrightarrow> CHR 0x0A \<notin> set l \<and> (\<exists>n x. l = replicate n (CHR '' '') @ x \<and> (x = [] \<or> x = [CHR 0x0D] \<or> (x \<noteq> [] \<and> hd x = CHR ''#'')))"

inductive items :: "nat \<Rightarrow> string list \<Rightarrow> string \<Rightarrow> bool" where
  "items j [] []"
| "blank l \<Longrightarrow> items j vs t \<Longrightarrow> items j vs (l @ CHR 0x0A # t)"
| "item_ok v \<Longrightarrow> white a \<Longrightarrow> white b \<Longrightarrow> items j vs t \<Longrightarrow>
     items j (v # vs) (replicate j (CHR '' '') @ ''- '' @ a @ v @ b @ CHR 0x0A # t)"

inductive renders :: "nat \<Rightarrow> (string \<times> ydoc) list \<Rightarrow> string \<Rightarrow> bool" where
  \<comment> \<open>the entries of a map, their common indentation and a text\<close>
  nil: "renders ind [] []"
| blank: "blank l \<Longrightarrow> renders ind es t \<Longrightarrow> renders ind es (l @ CHR 0x0A # t)"
| scalar: "key_ok k \<Longrightarrow> value_ok v \<Longrightarrow> white a \<Longrightarrow> white b \<Longrightarrow> white w \<or> (comment w \<and> \<not> quoted v) \<Longrightarrow> renders ind es t \<Longrightarrow>
     renders ind ((k, YScalar v) # es) (replicate ind (CHR '' '') @ k @ a @ '':'' @ b @ v @ w @ CHR 0x0A # t)"
| list: "key_ok k \<Longrightarrow> white a \<Longrightarrow> white b \<Longrightarrow> ind \<le> j \<Longrightarrow> vs \<noteq> [] \<Longrightarrow> items j vs u \<Longrightarrow> renders ind es t \<Longrightarrow>
     renders ind ((k, YList vs) # es) (replicate ind (CHR '' '') @ k @ a @ '':'' @ b @ CHR 0x0A # u @ t)"
| map: "key_ok k \<Longrightarrow> white a \<Longrightarrow> white b \<Longrightarrow> ind < j \<Longrightarrow> renders j ds u \<Longrightarrow> renders ind es t \<Longrightarrow>
     renders ind ((k, YMap ds) # es) (replicate ind (CHR '' '') @ k @ a @ '':'' @ b @ CHR 0x0A # u @ t)"

fun depth :: "ydoc \<Rightarrow> nat" where
  "depth (YScalar v) = 0"
| "depth (YList vs) = 1"
| "depth (YMap es) = Suc (Max (insert 0 (depth ` snd ` set es)))"

fun doc_at :: "ydoc \<Rightarrow> string list \<Rightarrow> ydoc option" where
  "doc_at d [] = Some d"
| "doc_at (YMap es) (k # ks) = (case map_of es k of Some d \<Rightarrow> doc_at d ks | None \<Rightarrow> None)"
| "doc_at d (k # ks) = None"

section \<open>Lines\<close>

lemma isspace_chars [simp]: "isspace (CHR '' '')" "isspace (CHR 0x0D)" "\<not> isspace (CHR '':'')" "\<not> isspace (CHR ''-'')" "\<not> isspace (CHR ''#'')"
  by (simp_all add: isspace_def byte_def)

lemma line_simps [simp]: "CHR 0x0A \<notin> set x \<Longrightarrow> line_of (x @ CHR 0x0A # t) = x" "CHR 0x0A \<notin> set x \<Longrightarrow> after_line (x @ CHR 0x0A # t) = t"
  by (auto simp: line_of_def after_line_def takeWhile_append)

lemma leading_replicate [simp]: "(x = [] \<or> hd x \<noteq> CHR '' '') \<Longrightarrow> leading_spaces (replicate n (CHR '' '') @ x) = n"
  by (cases x) (auto simp: leading_spaces_def takeWhile_append)

definition strip_cr :: "string \<Rightarrow> string" where
  "strip_cr w = (if w \<noteq> [] \<and> last w = CHR 0x0D then butlast w else w)"

lemma line_content_append:
  "x \<noteq> [] \<Longrightarrow> hd x \<noteq> CHR '' '' \<Longrightarrow> last x \<noteq> CHR 0x0D \<Longrightarrow> line_content (replicate n (CHR '' '') @ x @ w) = x @ strip_cr w"
  by (simp add: line_content_def Let_def strip_cr_def butlast_append)

lemma white_strip_cr: "white w \<Longrightarrow> white (strip_cr w)"
  by (auto simp: white_def strip_cr_def list_all_iff dest: in_set_butlastD)

lemma comment_strip_cr: "comment w \<Longrightarrow> comment (strip_cr w)"
proof -
  assume "comment w"
  then obtain a b where w: "w = a @ '' #'' @ b" "white a" "CHR 0x0A \<notin> set b" by (auto simp: comment_def)
  then have "strip_cr w = a @ '' #'' @ strip_cr b" by (simp add: strip_cr_def butlast_append)
  moreover have "CHR 0x0A \<notin> set (strip_cr b)" using w(3) by (auto simp: strip_cr_def dest: in_set_butlastD)
  ultimately show ?thesis using w(2) unfolding comment_def by blast
qed

lemma blank_content: "blank l \<Longrightarrow> line_content l = [] \<or> hd (line_content l) = CHR ''#''"
proof -
  assume "blank l"
  then obtain n x where l: "l = replicate n (CHR '' '') @ x" "x = [] \<or> x = [CHR 0x0D] \<or> (x \<noteq> [] \<and> hd x = CHR ''#'')" by (auto simp: blank_def)
  moreover have "leading_spaces l = n" unfolding l(1) by (rule leading_replicate) (use l(2) in auto)
  ultimately show ?thesis by (cases x) (auto simp: line_content_def Let_def)
qed

section \<open>Trimming\<close>

lemma dropWhile_white: "list_all isspace a \<Longrightarrow> v = [] \<or> \<not> isspace (hd v) \<Longrightarrow> dropWhile isspace (a @ v) = v"
  by (cases v) (auto simp: list_all_iff dropWhile_append)

lemma rstrip_white: "list_all isspace b \<Longrightarrow> v = [] \<or> \<not> isspace (last v) \<Longrightarrow> rev (dropWhile isspace (rev (v @ b))) = v"
  using dropWhile_white [of "rev b" "rev v"] by (simp add: hd_rev list_all_iff)

lemma trim_space: "list_all isspace s \<Longrightarrow> trim_dup s = []"
proof -
  assume "list_all isspace s"
  then have "dropWhile isspace (rev s) = []" by (simp add: list_all_iff)
  then show ?thesis unfolding trim_dup_def by (simp only: rev.simps dropWhile.simps)
qed

lemma trim_white:
  assumes "list_all isspace a" "list_all isspace b" "v = [] \<or> (\<not> isspace (hd v) \<and> \<not> isspace (last v))"
  shows "trim_dup (a @ v @ b) = v"
proof (cases "v = []")
  case True
  then show ?thesis using trim_space [of "a @ b"] assms(1,2) by simp
next
  case False
  then have "rev (dropWhile isspace (rev ((a @ v) @ b))) = a @ v" using rstrip_white [of b "a @ v"] assms by simp
  then show ?thesis using dropWhile_white [of a v] assms by (auto simp: trim_dup_def)
qed

lemma comment_at_strstr: "comment_at v = None \<longleftrightarrow> \<not> strstr v '' #''"
  by (induction v rule: comment_at.induct) auto

lemma plus_Suc_fun: "(+) (Suc n) = (\<lambda>i. Suc (n + i))"
  by auto

lemma comment_at_append:
  "comment_at v = None \<Longrightarrow> v \<noteq> [] \<Longrightarrow> last v \<noteq> CHR '' '' \<Longrightarrow> comment_at (v @ w) = map_option (\<lambda>i. length v + i) (comment_at w)"
  by (induction v rule: comment_at.induct; cases w) (auto simp: option.map_comp comp_def plus_Suc_fun split: if_splits)

lemma comment_at_white: "white a \<Longrightarrow> comment_at (a @ '' #'' @ b) = Some (Suc (length a)) \<and> comment_at a = None"
  by (induction a rule: comment_at.induct) (auto simp: white_def)

lemma strip_tail:
  assumes v: "value_ok v" and w: "white w \<or> (comment w \<and> \<not> quoted v)"
  shows "\<exists>w'. list_all isspace w' \<and> strip_inline_comment (v @ w) = v @ w'"
proof (cases "quoted v")
  case True
  then have "strip_inline_comment (v @ w) = v @ w" using v by (auto simp: strip_inline_comment_def quoted_def value_ok_def)
  then show ?thesis using w True by (auto simp: white_def)
next
  case False
  then have n: "comment_at v = None" "v \<noteq> []" "last v \<noteq> CHR '' ''" "\<not> isspace (last v)" using v by (auto simp: value_ok_def comment_at_strstr)
  have hd: "hd (v @ w) \<notin> {CHR 0x22, CHR 0x27}" using False n by (simp add: quoted_def)
  consider "white w" | a b where "w = a @ '' #'' @ b" "white a" using w by (auto simp: comment_def)
  then show ?thesis
  proof cases
    case 1
    then have "strip_inline_comment (v @ w) = v @ w" using hd comment_at_append [OF n(1-3), of w] comment_at_white [OF 1] n(2) by (simp add: strip_inline_comment_def)
    then show ?thesis using 1 by (auto simp: white_def)
  next
    case 2
    have "comment_at (v @ w) = Some (length v + Suc (length a))" using comment_at_append [OF n(1-3), of w] comment_at_white [OF 2(2), of b] by (simp add: 2(1))
    moreover have "take (length v + Suc (length a)) (v @ w) = v @ a @ '' ''" by (simp add: 2(1))
    moreover have "rev (dropWhile isspace (rev (v @ a @ '' ''))) = v" using rstrip_white [of "a @ '' ''" v] 2(2) n by (simp add: white_def)
    ultimately have "strip_inline_comment (v @ w) = v" using hd n(2) by (simp add: strip_inline_comment_def)
    then show ?thesis by (intro exI [of _ "[]"]) simp
  qed
qed

section \<open>One line of the parser\<close>

lemma key_line:
  assumes k: "key_ok k" "white a" and x: "CHR 0x0A \<notin> set x"
    and st: "pop_stack (int ind) (ys_stack st) = (m, i) # base"
  shows "parse_line (replicate ind (CHR '' '') @ k @ a @ '':'' @ x) rest st =
    parse_key_line (k @ a @ '':'' @ strip_cr x) (int ind) m rest (st\<lparr>ys_stack := (m, i) # base\<rparr>)"
proof -
  let ?c = "k @ a @ '':'' @ strip_cr x"
  have h: "hd k \<noteq> CHR '' ''" "k \<noteq> []" "hd k \<noteq> CHR ''#''" "hd k \<noteq> CHR ''-''" using k by (auto simp: key_ok_def)
  then have "line_content (replicate ind (CHR '' '') @ (k @ a @ '':'') @ x) = (k @ a @ '':'') @ strip_cr x" by (intro line_content_append) simp_all
  then have "line_content (replicate ind (CHR '' '') @ k @ a @ '':'' @ x) = ?c" by simp
  moreover have "leading_spaces (replicate ind (CHR '' '') @ k @ a @ '':'' @ x) = ind" by (rule leading_replicate) (use h in simp)
  ultimately show ?thesis using h st by (simp add: parse_line_def Let_def)
qed

lemma key_split: "key_ok k \<Longrightarrow> white a \<Longrightarrow> strchr (k @ a @ CHR '':'' # x) (CHR '':'') = Some (length (k @ a)) \<and> trim_dup (k @ a) = k"
proof -
  assume k: "key_ok k" "white a"
  then have "CHR '':'' \<notin> set (k @ a)" by (auto simp: key_ok_def white_def list_all_iff)
  from strchr_append_first [OF this, of x] have "strchr (k @ a @ CHR '':'' # x) (CHR '':'') = Some (length (k @ a))" by simp
  moreover have "trim_dup ([] @ k @ a) = k" by (rule trim_white) (use k in \<open>auto simp: key_ok_def white_def\<close>)
  ultimately show ?thesis by simp
qed

lemma scalar_line:
  assumes k: "key_ok k" "white a" and v: "value_ok v" "white b" "white w \<or> (comment w \<and> \<not> quoted v)"
    and st: "pop_stack (int ind) (ys_stack st) = (m, i) # base"
  shows "parse_line (replicate ind (CHR '' '') @ k @ a @ '':'' @ b @ v @ w) rest st =
    st\<lparr>ys_heap := node_add_child (ys_heap st) m ((node_new YAML_SCALAR)\<lparr>y_key := Some k, y_value := Some v\<rparr>), ys_stack := (m, i) # base\<rparr>"
proof -
  have nl: "CHR 0x0A \<notin> set (b @ v @ w)" using v by (auto simp: value_ok_def white_def comment_def)
  have "v \<noteq> []" "last v \<noteq> CHR 0x0D" using v(1) by (auto simp: value_ok_def)
  then have cr: "strip_cr (b @ v @ w) = b @ v @ strip_cr w" by (simp add: strip_cr_def butlast_append)
  have "white (strip_cr w) \<or> (comment (strip_cr w) \<and> \<not> quoted v)" using v(3) white_strip_cr comment_strip_cr by blast
  then obtain w' where w': "list_all isspace w'" "strip_inline_comment (v @ strip_cr w) = v @ w'" using strip_tail [OF v(1)] by blast
  have d: "dropWhile isspace (b @ v @ strip_cr w) = v @ strip_cr w"
    using dropWhile_white [of b "v @ strip_cr w"] v(1,2) by (simp add: value_ok_def white_def)
  have "trim_dup ([] @ v @ w') = v" by (rule trim_white) (use v(1) w'(1) in \<open>auto simp: value_ok_def\<close>)
  then show ?thesis using key_line [OF k nl st, of rest] key_split [OF k, of "b @ v @ strip_cr w"] d w' \<open>v \<noteq> []\<close>
    by (simp add: cr parse_key_line_def Let_def)
qed

lemma open_line:
  assumes k: "key_ok k" "white a" "white b" and st: "pop_stack (int ind) (ys_stack st) = (m, i) # base" and room: "Suc (length base) < 32"
  shows "parse_line (replicate ind (CHR '' '') @ k @ a @ '':'' @ b) rest st =
    st\<lparr>ys_heap := node_add_child (ys_heap st) m ((node_new (if peek_is_list rest then YAML_LIST else YAML_MAP))\<lparr>y_key := Some k\<rparr>),
       ys_stack := (length (ys_heap st), int ind) # (m, i) # base\<rparr>"
proof -
  have nl: "CHR 0x0A \<notin> set b" using k by (simp add: white_def)
  have "dropWhile isspace (strip_cr b) = []" using white_strip_cr [OF k(3)] by (simp add: white_def list_all_iff)
  then show ?thesis using key_line [OF k(1,2) nl st, of rest] key_split [OF k(1,2), of "strip_cr b"] room
    by (simp add: parse_key_line_def Let_def strip_inline_comment_def CBM_SZ_32_def)
qed

lemma trim_item:
  assumes "item_ok v" "white a" "white b"
  shows "trim_dup (dropWhile isspace (strip_cr (a @ v @ b))) = v"
proof (cases "v = []")
  case True
  have "white (strip_cr (a @ b))" by (rule white_strip_cr) (use assms in \<open>simp add: white_def\<close>)
  then have "list_all isspace (dropWhile isspace (strip_cr (a @ b)))" by (auto simp: white_def list_all_iff dest: set_dropWhileD)
  then show ?thesis using True trim_space by simp
next
  case False
  then have v: "\<not> isspace (hd v)" "\<not> isspace (last v)" "last v \<noteq> CHR 0x0D" using assms(1) by (auto simp: item_ok_def)
  have "strip_cr (a @ v @ b) = a @ v @ strip_cr b" using False v by (simp add: strip_cr_def butlast_append)
  moreover have "dropWhile isspace (a @ v @ strip_cr b) = v @ strip_cr b"
    using dropWhile_white [of a "v @ strip_cr b"] assms(2) v False by (simp add: white_def)
  moreover have "trim_dup ([] @ v @ strip_cr b) = v" by (rule trim_white) (use v white_strip_cr [OF assms(3)] in \<open>simp_all add: white_def\<close>)
  ultimately show ?thesis by simp
qed

lemma item_line:
  assumes v: "item_ok v" "white a" "white b" and st: "pop_stack (int j) (ys_stack st) = (m, i) # base"
    and lp: "lp = (if y_type (ys_heap st ! m) = YAML_MAP \<and> y_children (ys_heap st ! m) \<noteq> [] \<and> y_type (ys_heap st ! last (y_children (ys_heap st ! m))) = YAML_LIST
                   then last (y_children (ys_heap st ! m)) else m)"
  shows "parse_line (replicate j (CHR '' '') @ ''- '' @ a @ v @ b) rest st =
    st\<lparr>ys_heap := node_add_child (ys_heap st) lp ((node_new YAML_SCALAR)\<lparr>y_value := Some v\<rparr>), ys_stack := (m, i) # base\<rparr>"
proof -
  have "line_content (replicate j (CHR '' '') @ (''- '') @ a @ v @ b) = ''- '' @ strip_cr (a @ v @ b)" by (rule line_content_append) simp_all
  moreover have "leading_spaces (replicate j (CHR '' '') @ ''- '' @ a @ v @ b) = j" by (rule leading_replicate) simp
  moreover have "trim_dup (dropWhile isspace (strip_cr (a @ v @ b))) = v" by (rule trim_item) (use v in simp_all)
  ultimately show ?thesis using st by (simp add: parse_line_def Let_def parse_list_item_def YAML_LIST_PREFIX_def lp)
qed

section \<open>Documents in the heap\<close>

fun yrep :: "nat \<Rightarrow> yaml_heap \<Rightarrow> nat \<Rightarrow> cstr \<Rightarrow> ydoc \<Rightarrow> bool" where
  \<comment> \<open>a node with its key holds the document, all of it from the address \<open>lo\<close> on\<close>
  "yrep lo h n k (YScalar v) \<longleftrightarrow> lo \<le> n \<and> n < length h \<and> h ! n = \<lparr>y_type = YAML_SCALAR, y_key = k, y_value = Some v, y_children = []\<rparr>"
| "yrep lo h n k (YList vs) \<longleftrightarrow> lo \<le> n \<and> n < length h \<and>
     (\<exists>cs. h ! n = \<lparr>y_type = YAML_LIST, y_key = k, y_value = None, y_children = cs\<rparr> \<and>
        list_all2 (\<lambda>c v. lo \<le> c \<and> c < length h \<and> h ! c = \<lparr>y_type = YAML_SCALAR, y_key = None, y_value = Some v, y_children = []\<rparr>) cs vs)"
| "yrep lo h n k (YMap es) \<longleftrightarrow> lo \<le> n \<and> n < length h \<and>
     (\<exists>cs. h ! n = \<lparr>y_type = YAML_MAP, y_key = k, y_value = None, y_children = cs\<rparr> \<and> list_all2 (\<lambda>c e. yrep lo h c (Some (fst e)) (snd e)) cs es)"

definition entries_at :: "nat \<Rightarrow> yaml_heap \<Rightarrow> nat list \<Rightarrow> (string \<times> ydoc) list \<Rightarrow> bool" where
  "entries_at lo h cs es \<longleftrightarrow> list_all2 (\<lambda>c e. yrep lo h c (Some (fst e)) (snd e)) cs es"

definition keeps_from :: "nat \<Rightarrow> yaml_heap \<Rightarrow> yaml_heap \<Rightarrow> bool" where
  \<comment> \<open>the nodes from an address on are still there\<close>
  "keeps_from lo h h' \<longleftrightarrow> length h \<le> length h' \<and> (\<forall>i. lo \<le> i \<and> i < length h \<longrightarrow> h' ! i = h ! i)"

lemma yrep_keeps_from: "yrep lo h n k d \<Longrightarrow> keeps_from lo h h' \<Longrightarrow> yrep lo h' n k d"
proof (induction lo h n k d rule: yrep.induct)
  case (2 lo h n k vs)
  then obtain cs where cs: "h ! n = \<lparr>y_type = YAML_LIST, y_key = k, y_value = None, y_children = cs\<rparr>" and
    "list_all2 (\<lambda>c v. lo \<le> c \<and> c < length h \<and> h ! c = \<lparr>y_type = YAML_SCALAR, y_key = None, y_value = Some v, y_children = []\<rparr>) cs vs" by auto
  from this(2) have "list_all2 (\<lambda>c v. lo \<le> c \<and> c < length h' \<and> h' ! c = \<lparr>y_type = YAML_SCALAR, y_key = None, y_value = Some v, y_children = []\<rparr>) cs vs"
    by (rule list_all2_mono) (use 2(2) in \<open>auto simp: keeps_from_def\<close>)
  then show ?case using cs 2 by (auto simp: keeps_from_def)
next
  case (3 lo h n k es)
  then obtain cs where cs: "h ! n = \<lparr>y_type = YAML_MAP, y_key = k, y_value = None, y_children = cs\<rparr>" "list_all2 (\<lambda>c e. yrep lo h c (Some (fst e)) (snd e)) cs es" by auto
  from cs(2) have "list_all2 (\<lambda>c e. yrep lo h' c (Some (fst e)) (snd e)) cs es"
    by (rule list.rel_mono_strong) (use 3 in auto)
  then show ?case using cs(1) 3 by (auto simp: keeps_from_def)
qed (auto simp: keeps_from_def)

lemma yrep_lower: "yrep lo h n k d \<Longrightarrow> lo' \<le> lo \<Longrightarrow> yrep lo' h n k d"
proof (induction lo h n k d rule: yrep.induct)
  case (2 lo h n k vs)
  then show ?case by (auto elim!: list_all2_mono)
next
  case (3 lo h n k es)
  then obtain cs where cs: "h ! n = \<lparr>y_type = YAML_MAP, y_key = k, y_value = None, y_children = cs\<rparr>" "list_all2 (\<lambda>c e. yrep lo h c (Some (fst e)) (snd e)) cs es" by auto
  from cs(2) have "list_all2 (\<lambda>c e. yrep lo' h c (Some (fst e)) (snd e)) cs es" by (rule list.rel_mono_strong) (use 3 in auto)
  then show ?case using cs(1) 3 by auto
qed auto

lemma entries_mono: "entries_at lo h cs es \<Longrightarrow> keeps_from lo h h' \<Longrightarrow> lo' \<le> lo \<Longrightarrow> entries_at lo' h' cs es"
  unfolding entries_at_def by (erule list_all2_mono) (blast intro: yrep_keeps_from yrep_lower)

definition grown :: "yaml_heap \<Rightarrow> nat \<Rightarrow> nat list \<Rightarrow> yaml_heap \<Rightarrow> bool" where
  \<comment> \<open>one node got new children, the others are unchanged\<close>
  "grown h m cs h' \<longleftrightarrow> length h \<le> length h' \<and> h' ! m = (h ! m)\<lparr>y_children := y_children (h ! m) @ cs\<rparr> \<and>
     (\<forall>i < length h. i \<noteq> m \<longrightarrow> h' ! i = h ! i)"

lemma grown_add: "m < length h \<Longrightarrow> grown h m [length h] (node_add_child h m c) \<and> node_add_child h m c ! length h = c \<and> length (node_add_child h m c) = Suc (length h)"
  by (simp add: grown_def node_add_child_def nth_append)

lemma grown_refl: "grown h m [] h"
  by (simp add: grown_def)

lemma grown_trans: "grown h m cs h1 \<Longrightarrow> m < length h \<Longrightarrow> grown h1 m ds h2 \<Longrightarrow> grown h m (cs @ ds) h2"
  by (auto simp: grown_def)

lemma grown_keeps_from: "grown h m cs h' \<Longrightarrow> m < lo \<Longrightarrow> keeps_from lo h h'"
  by (auto simp: grown_def keeps_from_def)

section \<open>Looking ahead\<close>

lemma peek_line:
  "CHR 0x0A \<notin> set l \<Longrightarrow> peek_is_list (l @ CHR 0x0A # t) =
     (if line_content l = [] \<or> hd (line_content l) = CHR ''#'' then peek_is_list t else hd (line_content l) = CHR ''-'')"
  by (subst peek_is_list.simps) (simp add: Let_def)

lemma peek_blank: "blank l \<Longrightarrow> peek_is_list (l @ CHR 0x0A # t) = peek_is_list t"
  using peek_line [of l t] blank_content [of l] by (auto simp: blank_def)

lemma peek_key:
  assumes "key_ok k" "white a" "CHR 0x0A \<notin> set x"
  shows "\<not> peek_is_list (replicate ind (CHR '' '') @ k @ a @ CHR '':'' # x @ CHR 0x0A # t)"
proof -
  have h: "hd k \<noteq> CHR '' ''" "k \<noteq> []" "hd k \<noteq> CHR ''#''" "hd k \<noteq> CHR ''-''" using assms by (auto simp: key_ok_def)
  then have "line_content (replicate ind (CHR '' '') @ (k @ a @ '':'') @ x) = (k @ a @ '':'') @ strip_cr x" by (intro line_content_append) simp_all
  moreover have "CHR 0x0A \<notin> set (replicate ind (CHR '' '') @ (k @ a @ '':'') @ x)" using assms by (auto simp: key_ok_def white_def)
  ultimately show ?thesis using peek_line [of "replicate ind (CHR '' '') @ (k @ a @ '':'') @ x" t] h by simp
qed

lemma item_text: "item_ok v \<Longrightarrow> white a \<Longrightarrow> white b \<Longrightarrow> CHR 0x0A \<notin> set (replicate j (CHR '' '') @ ''- '' @ a @ v @ b)"
  by (auto simp: item_ok_def white_def)

lemma peek_items: "items j vs u \<Longrightarrow> vs \<noteq> [] \<Longrightarrow> peek_is_list (u @ t)"
proof (induction rule: items.induct)
  case (2 l j vs u)
  then show ?case by (simp add: peek_blank)
next
  case (3 v a b j vs u)
  have "line_content (replicate j (CHR '' '') @ (''- '') @ a @ v @ b) = ''- '' @ strip_cr (a @ v @ b)" by (rule line_content_append) simp_all
  then show ?case using peek_line [OF item_text [OF 3(1-3), of j], of "u @ t"] by simp
qed simp

lemma peek_renders: "renders ind es t \<Longrightarrow> \<not> peek_is_list rest \<Longrightarrow> \<not> peek_is_list (t @ rest)"
proof (induction rule: renders.induct)
  case (scalar k v a b w ind es t)
  have "CHR 0x0A \<notin> set (b @ v @ w)" using scalar by (auto simp: value_ok_def white_def comment_def)
  from peek_key [OF scalar(1,3) this] show ?case by simp
next
  case (list k a b ind j vs u es t)
  have "CHR 0x0A \<notin> set b" using list by (simp add: white_def)
  from peek_key [OF list(1,2) this] show ?case by simp
next
  case (map k a b ind j ds u es t)
  have "CHR 0x0A \<notin> set b" using map by (simp add: white_def)
  from peek_key [OF map(1,2) this] show ?case by simp
qed (simp_all add: peek_blank)

section \<open>The loop over the lines\<close>

lemma parse_lines_Cons: "CHR 0x0A \<notin> set l \<Longrightarrow> parse_lines (l @ CHR 0x0A # t) st = parse_lines t (parse_line l t st)"
  by (subst parse_lines.simps) simp

lemma parse_blank: "blank l \<Longrightarrow> parse_lines (l @ CHR 0x0A # t) st = parse_lines t st"
  using blank_content [of l] parse_lines_Cons [of l t st] by (auto simp: blank_def parse_line_def Let_def)

lemma pop_stack_extra: "\<forall>e \<in> set extra. ind \<le> snd e \<Longrightarrow> i < ind \<Longrightarrow> pop_stack ind (extra @ (m, i) # base) = (m, i) # base"
proof (induction extra)
  case Nil
  then show ?case by (cases base) simp_all
next
  case (Cons e extra)
  then show ?case by (cases extra) simp_all
qed

definition text_items :: "nat \<Rightarrow> yaml_heap \<Rightarrow> nat list \<Rightarrow> string list \<Rightarrow> bool" where
  "text_items lo h cs vs \<longleftrightarrow>
     list_all2 (\<lambda>c v. lo \<le> c \<and> c < length h \<and> h ! c = \<lparr>y_type = YAML_SCALAR, y_key = None, y_value = Some v, y_children = []\<rparr>) cs vs"

lemma parse_items:
  assumes "items j vs u" "ys_stack st = (n, int ind) # (m, i) # base \<or> ys_stack st = (m, i) # base" "ind \<le> j" "i < int ind"
    and "m < length (ys_heap st)" "n < length (ys_heap st)" "m \<noteq> n" "y_type (ys_heap st ! n) = YAML_LIST" "y_type (ys_heap st ! m) = YAML_MAP"
    and "y_children (ys_heap st ! m) \<noteq> []" "last (y_children (ys_heap st ! m)) = n"
  shows "\<exists>cs st'. parse_lines (u @ t) st = parse_lines t st' \<and> (ys_stack st' = (n, int ind) # (m, i) # base \<or> ys_stack st' = (m, i) # base) \<and>
    grown (ys_heap st) n cs (ys_heap st') \<and> text_items (length (ys_heap st)) (ys_heap st') cs vs"
  using assms
proof (induction arbitrary: st rule: items.induct)
  case (1 j)
  then show ?case by (intro exI [of _ "[]"] exI [of _ st]) (simp add: grown_refl text_items_def)
next
  case (2 l j vs u)
  from 2(3) [OF 2(4-)] show ?case by (simp add: parse_blank [OF 2(1)])
next
  case (3 v a b j vs u)
  let ?h = "ys_heap st" and ?c = "(node_new YAML_SCALAR)\<lparr>y_value := Some v\<rparr>"
  let ?l = "replicate j (CHR '' '') @ ''- '' @ a @ v @ b"
  obtain p q bs where p: "pop_stack (int j) (ys_stack st) = (p, q) # bs" "(p, q) # bs = (n, int ind) # (m, i) # base \<or> (p, q) # bs = (m, i) # base"
  proof -
    have "pop_stack (int j) ((m, i) # base) = (m, i) # base" using pop_stack_extra [of "[]" "int j" i m base] 3(7,8) by simp
    moreover have "pop_stack (int j) ((n, int ind) # (m, i) # base) \<in> {(n, int ind) # (m, i) # base, (m, i) # base}" using calculation by simp
    ultimately show thesis using that 3(6) by auto
  qed
  have lp: "n = (if y_type (?h ! p) = YAML_MAP \<and> y_children (?h ! p) \<noteq> [] \<and> y_type (?h ! last (y_children (?h ! p))) = YAML_LIST
      then last (y_children (?h ! p)) else p)" using p(2) 3 by auto
  let ?st = "st\<lparr>ys_heap := node_add_child ?h n ?c, ys_stack := (p, q) # bs\<rparr>"
  note l = item_line [OF 3(1-3) p(1) lp, of "u @ t"]
  note g = grown_add [OF \<open>n < length ?h\<close>, of ?c]
  have keep: "ys_heap ?st ! m = ?h ! m" "y_type (ys_heap ?st ! n) = YAML_LIST" using g 3 by (auto simp: grown_def)
  obtain cs st' where ih: "parse_lines (u @ t) ?st = parse_lines t st'" "ys_stack st' = (n, int ind) # (m, i) # base \<or> ys_stack st' = (m, i) # base"
    "grown (ys_heap ?st) n cs (ys_heap st')" "text_items (length (ys_heap ?st)) (ys_heap st') cs vs"
    using 3(5) [of ?st] p(2) keep 3(7-) g by auto
  have "grown ?h n (length ?h # cs) (ys_heap st')" using grown_trans [OF conjunct1 [OF g] \<open>n < length ?h\<close>, of cs] ih(3) by simp
  moreover have "ys_heap st' ! length ?h = ?c" "length ?h < length (ys_heap st')" using ih(3) g \<open>n < length ?h\<close> by (auto simp: grown_def)
  then have "text_items (length ?h) (ys_heap st') (length ?h # cs) (v # vs)"
    using ih(4) g unfolding text_items_def by (auto simp: node_new_def elim!: list_all2_mono)
  moreover have "parse_lines ((?l @ CHR 0x0A # u) @ t) st = parse_lines t st'"
    using parse_lines_Cons [OF item_text [OF 3(1-3), of j], of "u @ t" st] l ih(1) by simp
  ultimately show ?case using ih(2) by (intro exI [of _ "length ?h # cs"] exI [of _ st']) auto
qed

lemma open_grown:
  assumes m: "m < length h" and 1: "grown (node_add_child h m c) (length h) cs h1" and 2: "grown h1 m ds h2"
  shows "grown h m (length h # ds) h2" "keeps_from (length h) h1 h2" "h2 ! length h = c\<lparr>y_children := y_children c @ cs\<rparr>" "length h < length h1"
proof -
  note g = grown_add [OF m, of c]
  have h1: "h1 ! m = node_add_child h m c ! m" "h1 ! length h = c\<lparr>y_children := y_children c @ cs\<rparr>" "length h < length h1" using 1 g m by (auto simp: grown_def)
  then show "length h < length h1" "h2 ! length h = c\<lparr>y_children := y_children c @ cs\<rparr>" using 2 m by (auto simp: grown_def)
  show "keeps_from (length h) h1 h2" by (rule grown_keeps_from [OF 2 m])
  have "h2 ! m = (h ! m)\<lparr>y_children := y_children (h ! m) @ length h # ds\<rparr>" using 2 h1(1) g by (simp add: grown_def)
  moreover have "h2 ! i = h ! i" if "i < length h" "i \<noteq> m" for i
    using that 1 2 g by (auto simp: grown_def)
  ultimately show "grown h m (length h # ds) h2" using h1(3) 2 by (auto simp: grown_def)
qed

definition fits :: "nat \<Rightarrow> (string \<times> ydoc) list \<Rightarrow> bool" where
  \<comment> \<open>with so many entries on the stack, all documents still fit\<close>
  "fits k es \<longleftrightarrow> (\<forall>e \<in> set es. k + depth (snd e) \<le> 32)"

lemma fits_Cons: "fits k (e # es) \<longleftrightarrow> k + depth (snd e) \<le> 32 \<and> fits k es"
  by (auto simp: fits_def)

lemma fits_map: "k + depth (YMap ds) \<le> 32 \<Longrightarrow> fits (Suc k) ds"
proof -
  assume a: "k + depth (YMap ds) \<le> 32"
  have "depth (snd e) \<le> Max (insert 0 (depth ` snd ` set ds))" if "e \<in> set ds" for e using that by (intro Max_ge) auto
  then show ?thesis using a unfolding fits_def by fastforce
qed

definition ready_for :: "nat \<Rightarrow> nat \<Rightarrow> int \<Rightarrow> (nat \<times> int) list \<Rightarrow> yaml_state \<Rightarrow> bool" where
  \<comment> \<open>a line with this indentation belongs to the map \<open>m\<close>\<close>
  "ready_for ind m i base st \<longleftrightarrow> (\<exists>extra. ys_stack st = extra @ (m, i) # base \<and> (\<forall>e \<in> set extra. int ind \<le> snd e)) \<and> i < int ind \<and>
     m < length (ys_heap st) \<and> y_type (ys_heap st ! m) = YAML_MAP"

definition adds :: "yaml_state \<Rightarrow> nat \<Rightarrow> (string \<times> ydoc) list \<Rightarrow> yaml_state \<Rightarrow> bool" where
  "adds st m es st' \<longleftrightarrow> (\<exists>cs. grown (ys_heap st) m cs (ys_heap st') \<and> entries_at (length (ys_heap st)) (ys_heap st') cs es)"

definition parses :: "nat \<Rightarrow> (string \<times> ydoc) list \<Rightarrow> string \<Rightarrow> bool" where
  \<comment> \<open>the parser adds the entries to the map that the lines of the text belong to\<close>
  "parses ind es u \<longleftrightarrow> (\<forall>t st m i base. \<not> peek_is_list t \<longrightarrow> ready_for ind m i base st \<longrightarrow> fits (Suc (length base)) es \<longrightarrow>
     (\<exists>st'. parse_lines (u @ t) st = parse_lines t st' \<and> ready_for ind m i base st' \<and> adds st m es st'))"

lemma ready_pop: "ready_for ind m i base st \<Longrightarrow> pop_stack (int ind) (ys_stack st) = (m, i) # base"
  using pop_stack_extra by (auto simp: ready_for_def)

lemma ready_next:
  assumes r: "ready_for ind m i base st" and g: "grown (node_add_child (ys_heap st) m c) (length (ys_heap st)) cs (ys_heap st1)"
    and s: "ys_stack st1 = extra @ (m, i) # base" "\<forall>e \<in> set extra. int ind \<le> snd e"
  shows "ready_for ind m i base st1"
proof -
  have m: "m < length (ys_heap st)" "y_type (ys_heap st ! m) = YAML_MAP" "i < int ind" using r by (auto simp: ready_for_def)
  have "y_type (ys_heap st1 ! m) = YAML_MAP" "m < length (ys_heap st1)" using g grown_add [OF m(1), of c] m by (auto simp: grown_def)
  then show ?thesis using s m(3) unfolding ready_for_def by blast
qed

lemma parses_entry:
  assumes p: "parses ind es u" and t: "\<not> peek_is_list t" and r: "ready_for ind m i base st" "ready_for ind m i base st1" and f: "fits (Suc (length base)) es"
    and g: "grown (node_add_child (ys_heap st) m c) (length (ys_heap st)) cs (ys_heap st1)"
    and y: "yrep (length (ys_heap st)) (ys_heap st1) (length (ys_heap st)) (Some k) d"
    and x: "parse_lines (x @ u @ t) st = parse_lines (u @ t) st1"
  shows "\<exists>st'. parse_lines (x @ u @ t) st = parse_lines t st' \<and> ready_for ind m i base st' \<and> adds st m ((k, d) # es) st'"
proof -
  let ?n = "length (ys_heap st)"
  obtain st' where st': "parse_lines (u @ t) st1 = parse_lines t st'" "ready_for ind m i base st'" "adds st1 m es st'"
    using p t r(2) f unfolding parses_def by blast
  then obtain ds where ds: "grown (ys_heap st1) m ds (ys_heap st')" "entries_at (length (ys_heap st1)) (ys_heap st') ds es" by (auto simp: adds_def)
  have m: "m < ?n" using r by (simp add: ready_for_def)
  note o = open_grown [OF m g ds(1)]
  have "entries_at ?n (ys_heap st') (?n # ds) ((k, d) # es)"
    using yrep_keeps_from [OF y o(2)] entries_mono [OF ds(2), of "ys_heap st'" ?n] o(4) by (simp add: entries_at_def keeps_from_def)
  then show ?thesis using st' x o(1) by (auto simp: adds_def)
qed

lemma parses_scalar:
  assumes k: "key_ok k" "value_ok v" "white a" "white b" "white w \<or> (comment w \<and> \<not> quoted v)" and p: "parses ind es u"
  shows "parses ind ((k, YScalar v) # es) (replicate ind (CHR '' '') @ k @ a @ '':'' @ b @ v @ w @ CHR 0x0A # u)"
  unfolding parses_def
proof (intro allI impI)
  fix t st m i base assume t: "\<not> peek_is_list t" and r: "ready_for ind m i base st" and f: "fits (Suc (length base)) ((k, YScalar v) # es)"
  let ?c = "(node_new YAML_SCALAR)\<lparr>y_key := Some k, y_value := Some v\<rparr>" and ?l = "replicate ind (CHR '' '') @ k @ a @ '':'' @ b @ v @ w"
  let ?st = "st\<lparr>ys_heap := node_add_child (ys_heap st) m ?c, ys_stack := (m, i) # base\<rparr>"
  have nl: "CHR 0x0A \<notin> set ?l" using k by (auto simp: key_ok_def value_ok_def white_def comment_def)
  have x: "parse_lines ((?l @ [CHR 0x0A]) @ u @ t) st = parse_lines (u @ t) ?st"
    using parse_lines_Cons [OF nl, of "u @ t" st] scalar_line [OF k(1,3,2,4,5) ready_pop [OF r], of "u @ t"] by simp
  have g: "grown (node_add_child (ys_heap st) m ?c) (length (ys_heap st)) [] (ys_heap ?st)" by (simp add: grown_refl)
  have y: "yrep (length (ys_heap st)) (ys_heap ?st) (length (ys_heap st)) (Some k) (YScalar v)"
    using grown_add [of m "ys_heap st" ?c] r by (simp add: ready_for_def node_new_def)
  have "ready_for ind m i base ?st" using ready_next [OF r g, of "[]"] by simp
  from parses_entry [OF p t r this _ g y x] f
  show "\<exists>st'. parse_lines ((replicate ind (CHR '' '') @ k @ a @ '':'' @ b @ v @ w @ CHR 0x0A # u) @ t) st = parse_lines t st' \<and> ready_for ind m i base st' \<and>
      adds st m ((k, YScalar v) # es) st'" by (simp add: fits_Cons)
qed

lemma open_entry:
  assumes k: "key_ok k" "white a" "white b" and r: "ready_for ind m i base st" and room: "Suc (length base) < 32"
  shows "parse_lines ((replicate ind (CHR '' '') @ k @ a @ '':'' @ b) @ CHR 0x0A # rest) st =
    parse_lines rest (st\<lparr>ys_heap := node_add_child (ys_heap st) m ((node_new (if peek_is_list rest then YAML_LIST else YAML_MAP))\<lparr>y_key := Some k\<rparr>),
      ys_stack := (length (ys_heap st), int ind) # (m, i) # base\<rparr>)"
proof -
  have "CHR 0x0A \<notin> set (replicate ind (CHR '' '') @ k @ a @ '':'' @ b)" using k by (auto simp: key_ok_def white_def)
  from parse_lines_Cons [OF this, of rest st] show ?thesis unfolding open_line [OF k ready_pop [OF r] room, of rest] .
qed

lemma parses_list:
  assumes k: "key_ok k" "white a" "white b" "ind \<le> j" "vs \<noteq> []" "items j vs us" and p: "parses ind es u"
  shows "parses ind ((k, YList vs) # es) (replicate ind (CHR '' '') @ k @ a @ '':'' @ b @ CHR 0x0A # us @ u)"
  unfolding parses_def
proof (intro allI impI)
  fix t st m i base assume t: "\<not> peek_is_list t" and r: "ready_for ind m i base st" and f: "fits (Suc (length base)) ((k, YList vs) # es)"
  let ?c = "(node_new YAML_LIST)\<lparr>y_key := Some k\<rparr>" and ?l = "replicate ind (CHR '' '') @ k @ a @ '':'' @ b" and ?n = "length (ys_heap st)"
  let ?st = "st\<lparr>ys_heap := node_add_child (ys_heap st) m ?c, ys_stack := (?n, int ind) # (m, i) # base\<rparr>"
  have m: "m < ?n" "y_type (ys_heap st ! m) = YAML_MAP" "i < int ind" using r by (simp_all add: ready_for_def)
  note g = grown_add [OF m(1), of ?c]
  have "peek_is_list (us @ u @ t)" using peek_items [OF k(6,5)] by simp
  then have l: "parse_lines (?l @ CHR 0x0A # us @ u @ t) st = parse_lines (us @ u @ t) ?st"
    using open_entry [OF k(1-3) r, of "us @ u @ t"] f by (simp add: fits_Cons)
  obtain cs st1 where it: "parse_lines (us @ u @ t) ?st = parse_lines (u @ t) st1" "ys_stack st1 = (?n, int ind) # (m, i) # base \<or> ys_stack st1 = (m, i) # base"
    "grown (ys_heap ?st) ?n cs (ys_heap st1)" "text_items (length (ys_heap ?st)) (ys_heap st1) cs vs"
    using parse_items [OF k(6), of ?st ?n ind m i base "u @ t"] k(4) m g by (auto simp: grown_def node_new_def)
  have "\<exists>ext. ys_stack st1 = ext @ (m, i) # base \<and> (\<forall>e \<in> set ext. int ind \<le> snd e)" using it(2)
    by (elim disjE) (rule exI [of _ "[(?n, int ind)]"] exI [of _ "[]"], simp)+
  then have r1: "ready_for ind m i base st1" using ready_next [OF r, of ?c cs st1] it(3) by auto
  have "yrep ?n (ys_heap st1) ?n (Some k) (YList vs)" using it(3,4) g unfolding text_items_def by (auto simp: grown_def node_new_def elim!: list_all2_mono)
  from parses_entry [OF p t r r1 _ _ this, of ?c cs "?l @ CHR 0x0A # us"] it(1,3) l f
  show "\<exists>st'. parse_lines ((replicate ind (CHR '' '') @ k @ a @ '':'' @ b @ CHR 0x0A # us @ u) @ t) st = parse_lines t st' \<and> ready_for ind m i base st' \<and>
      adds st m ((k, YList vs) # es) st'" by (simp add: fits_Cons)
qed

lemma parses_map:
  assumes k: "key_ok k" "white a" "white b" "ind < j" and ks: "renders j ks us" "parses j ks us" and p: "renders ind es u" "parses ind es u"
  shows "parses ind ((k, YMap ks) # es) (replicate ind (CHR '' '') @ k @ a @ '':'' @ b @ CHR 0x0A # us @ u)"
  unfolding parses_def
proof (intro allI impI)
  fix t st m i base assume t: "\<not> peek_is_list t" and r: "ready_for ind m i base st" and f: "fits (Suc (length base)) ((k, YMap ks) # es)"
  let ?c = "(node_new YAML_MAP)\<lparr>y_key := Some k\<rparr>" and ?l = "replicate ind (CHR '' '') @ k @ a @ '':'' @ b" and ?n = "length (ys_heap st)"
  let ?st = "st\<lparr>ys_heap := node_add_child (ys_heap st) m ?c, ys_stack := (?n, int ind) # (m, i) # base\<rparr>"
  have m: "m < ?n" "y_type (ys_heap st ! m) = YAML_MAP" "i < int ind" using r by (simp_all add: ready_for_def)
  note g = grown_add [OF m(1), of ?c]
  have room: "Suc (length base) < 32" "fits (Suc (length ((m, i) # base))) ks" "fits (Suc (length base)) es"
    using f fits_map [of "Suc (length base)" ks] by (simp_all add: fits_Cons)
  have peek: "\<not> peek_is_list (u @ t)" "\<not> peek_is_list (us @ u @ t)" using peek_renders [OF p(1) t] peek_renders [OF ks(1)] by simp_all
  have l: "parse_lines (?l @ CHR 0x0A # us @ u @ t) st = parse_lines (us @ u @ t) ?st" using open_entry [OF k(1-3) r room(1), of "us @ u @ t"] peek(2) by simp
  have "ready_for j ?n (int ind) ((m, i) # base) ?st" using g k(4) unfolding ready_for_def by (auto simp: node_new_def)
  then obtain st1 where it: "parse_lines (us @ u @ t) ?st = parse_lines (u @ t) st1" "ready_for j ?n (int ind) ((m, i) # base) st1" "adds ?st ?n ks st1"
    using ks(2) peek(1) room(2) unfolding parses_def by blast
  obtain cs where cs: "grown (ys_heap ?st) ?n cs (ys_heap st1)" "entries_at (length (ys_heap ?st)) (ys_heap st1) cs ks" using it(3) by (auto simp: adds_def)
  obtain ext where "ys_stack st1 = ext @ (?n, int ind) # (m, i) # base" "\<forall>e \<in> set ext. int j \<le> snd e" using it(2) by (auto simp: ready_for_def)
  then have r1: "ready_for ind m i base st1" using ready_next [OF r, of ?c cs st1 "ext @ [(?n, int ind)]"] cs(1) k(4) by fastforce
  have "entries_at ?n (ys_heap st1) cs ks" using entries_mono [OF cs(2), of "ys_heap st1" ?n] g by (simp add: keeps_from_def)
  then have "yrep ?n (ys_heap st1) ?n (Some k) (YMap ks)" using cs(1) g unfolding entries_at_def by (auto simp: grown_def node_new_def)
  from parses_entry [OF p(2) t r r1 room(3) _ this, of ?c cs "?l @ CHR 0x0A # us"] it(1) cs(1) l
  show "\<exists>st'. parse_lines ((replicate ind (CHR '' '') @ k @ a @ '':'' @ b @ CHR 0x0A # us @ u) @ t) st = parse_lines t st' \<and> ready_for ind m i base st' \<and>
      adds st m ((k, YMap ks) # es) st'" by simp
qed

lemma renders_parses: "renders ind es u \<Longrightarrow> parses ind es u"
proof (induction rule: renders.induct)
  case (nil ind)
  have "adds st m [] st" for st m using grown_refl by (auto simp: adds_def entries_at_def)
  then show ?case unfolding parses_def by auto
next
  case (blank l ind es u)
  then show ?case unfolding parses_def by (simp add: parse_blank)
qed (blast intro: parses_scalar parses_list parses_map)+

section \<open>Queries\<close>

lemma find_child_yrep:
  assumes "yrep lo h n key d"
  shows "case doc_at d [k] of None \<Rightarrow> find_child h n k = None | Some e \<Rightarrow> \<exists>c. find_child h n k = Some c \<and> yrep lo h c (Some k) e"
proof (cases d)
  case (YScalar v)
  then show ?thesis using assms by (simp add: find_child_def)
next
  case (YList vs)
  then obtain cs where cs: "h ! n = \<lparr>y_type = YAML_LIST, y_key = key, y_value = None, y_children = cs\<rparr>" 
    "list_all2 (\<lambda>c v. lo \<le> c \<and> c < length h \<and> h ! c = \<lparr>y_type = YAML_SCALAR, y_key = None, y_value = Some v, y_children = []\<rparr>) cs vs" using assms by auto
  from cs(2) have "find (\<lambda>c. y_key (h ! c) = Some k) cs = None" by (induction rule: list_all2_induct) auto
  then show ?thesis using cs(1) YList by (simp add: find_child_def)
next
  case (YMap es)
  then obtain cs where cs: "h ! n = \<lparr>y_type = YAML_MAP, y_key = key, y_value = None, y_children = cs\<rparr>"
    "list_all2 (\<lambda>c e. yrep lo h c (Some (fst e)) (snd e)) cs es" using assms by auto
  have key: "y_key (h ! c) = q" if "yrep lo h c q e" for c q e using that by (cases e) auto
  from cs(2) have "case map_of es k of None \<Rightarrow> find (\<lambda>c. y_key (h ! c) = Some k) cs = None
      | Some e \<Rightarrow> \<exists>c. find (\<lambda>c. y_key (h ! c) = Some k) cs = Some c \<and> yrep lo h c (Some k) e"
  proof (induction rule: list_all2_induct)
    case (Cons c cs e es)
    then show ?case using key [of c "Some (fst e)" "snd e"] by (cases e) (auto split: option.splits)
  qed simp
  then show ?thesis using cs(1) YMap by (simp add: find_child_def split: option.splits)
qed

definition dotted_path :: "string list \<Rightarrow> string" where
  "dotted_path ks = concat (map (\<lambda>k. k @ ''.'') (butlast ks)) @ (if ks = [] then [] else last ks)"

lemma dotted_path_simps [simp]: "dotted_path [] = []" "dotted_path (k # ks) = (if ks = [] then k else k @ CHR ''.'' # dotted_path ks)"
  by (simp_all add: dotted_path_def)

definition segment :: "string \<Rightarrow> bool" where
  "segment k \<longleftrightarrow> k \<noteq> [] \<and> CHR ''.'' \<notin> set k \<and> length k < 256"

lemma navigate_segment:
  assumes k: "segment k" and ks: "list_all segment ks"
  shows "navigate_loop h n (dotted_path (k # ks)) = (case find_child h n k of None \<Rightarrow> None | Some c \<Rightarrow> navigate_loop h c (dotted_path ks))"
proof (cases "ks = []")
  case True
  have "strchr k (CHR ''.'') = None" using k by (simp add: strchr_None segment_def)
  then show ?thesis using k True by (subst navigate_loop.simps) (simp add: segment_def CBM_SZ_256_def Let_def split: option.split)
next
  case False
  have "strchr (k @ CHR ''.'' # dotted_path ks) (CHR ''.'') = Some (length k)" using k by (intro strchr_append_first) (simp add: segment_def)
  then show ?thesis using k False by (subst navigate_loop.simps) (simp add: segment_def CBM_SZ_256_def Let_def split: option.split)
qed

lemma navigate_yrep:
  assumes "yrep lo h n key d" "list_all segment ks"
  shows "case doc_at d ks of None \<Rightarrow> navigate_loop h n (dotted_path ks) = None
    | Some e \<Rightarrow> \<exists>c q. navigate_loop h n (dotted_path ks) = Some c \<and> yrep lo h c q e"
  using assms
proof (induction ks arbitrary: n key d)
  case Nil
  then show ?case by (subst navigate_loop.simps) auto
next
  case (Cons k ks)
  have nav: "navigate_loop h n (dotted_path (k # ks)) = (case find_child h n k of None \<Rightarrow> None | Some c \<Rightarrow> navigate_loop h c (dotted_path ks))"
    by (rule navigate_segment) (use Cons.prems in simp_all)
  have step: "doc_at d (k # ks) = (case doc_at d [k] of None \<Rightarrow> None | Some e \<Rightarrow> doc_at e ks)" by (cases d) (auto split: option.splits)
  show ?case
  proof (cases "doc_at d [k]")
    case None
    then show ?thesis using find_child_yrep [OF Cons.prems(1), of k] by (simp add: step nav del: dotted_path_simps)
  next
    case (Some e)
    then obtain c where "find_child h n k = Some c" "yrep lo h c (Some k) e" using find_child_yrep [OF Cons.prems(1), of k] by auto
    then show ?thesis using Cons.IH [of c "Some k" e] Cons.prems(2) by (simp add: step nav Some del: dotted_path_simps split: option.splits)
  qed
qed

lemma collect_items:
  "list_all2 (\<lambda>c v. c < length h \<and> h ! c = \<lparr>y_type = YAML_SCALAR, y_key = None, y_value = Some v, y_children = []\<rparr>) cs vs \<Longrightarrow>
     collect_strs h cs room = take room vs"
proof (induction arbitrary: room rule: list_all2_induct)
  case (Cons c cs v vs)
  then show ?case by (cases room) auto
qed simp

lemma parse_root:
  assumes "renders 0 es t" "depth (YMap es) \<le> 32"
  shows "yrep 0 (cbm_yaml_parse (Some t)) 0 None (YMap es)"
proof -
  let ?st = "\<lparr>ys_heap = [node_new YAML_MAP], ys_stack = [(0, YAML_ROOT_INDENT)]\<rparr>"
  have "ready_for 0 0 YAML_ROOT_INDENT [] ?st" by (simp add: ready_for_def YAML_ROOT_INDENT_def node_new_def)
  moreover have "fits (Suc 0) es" using fits_map [of 0 es] assms(2) by simp
  moreover have "\<not> peek_is_list []" by (subst peek_is_list.simps) simp
  ultimately obtain st' where st': "parse_lines (t @ []) ?st = parse_lines [] st'" "adds ?st 0 es st'"
    using renders_parses [OF assms(1)] unfolding parses_def by fastforce
  then obtain cs where cs: "grown [node_new YAML_MAP] 0 cs (ys_heap st')" "entries_at (Suc 0) (ys_heap st') cs es" by (auto simp: adds_def)
  have "entries_at 0 (ys_heap st') cs es" using entries_mono [OF cs(2), of "ys_heap st'" 0] by (simp add: keeps_from_def)
  moreover have "cbm_yaml_parse (Some t) = ys_heap st'" using st'(1) by (simp add: cbm_yaml_parse_def parse_lines.simps [of "[]"])
  ultimately show ?thesis using cs(1) by (auto simp: grown_def entries_at_def node_new_def)
qed

text \<open>
  C26. The reader answers as the document says. For every layout of a document (any indentation that
  increases with the nesting, list items at the level of their key or deeper, blank lines, comment lines, comments
  behind unquoted values, white space around keys and values, carriage returns) with at most 32 levels, the value at a
  dotted path is the value in the document, a list is read up to the room in the output, and a path exists in the tree when it
  does in the document.
\<close>

theorem yaml_reads_document:
  assumes "renders 0 es t" "depth (YMap es) \<le> 32" "list_all segment ks"
  shows "cbm_yaml_get_str (cbm_yaml_parse (Some t)) (Some 0) (Some (dotted_path ks)) = (case doc_at (YMap es) ks of Some (YScalar v) \<Rightarrow> Some v | _ \<Rightarrow> None) \<and>
    cbm_yaml_get_str_list (cbm_yaml_parse (Some t)) (Some 0) (Some (dotted_path ks)) room = (case doc_at (YMap es) ks of Some (YList vs) \<Rightarrow> take room vs | _ \<Rightarrow> []) \<and>
    cbm_yaml_has (cbm_yaml_parse (Some t)) (Some 0) (Some (dotted_path ks)) = (doc_at (YMap es) ks \<noteq> None)"
proof -
  let ?h = "cbm_yaml_parse (Some t)"
  note nav = navigate_yrep [OF parse_root [OF assms(1,2)] assms(3)]
  show ?thesis
  proof (cases "doc_at (YMap es) ks")
    case None
    then show ?thesis using nav by (simp add: cbm_yaml_get_str_def cbm_yaml_get_str_list_def cbm_yaml_has_def navigate_def)
  next
    case (Some d)
    then obtain c q where c: "navigate_loop ?h 0 (dotted_path ks) = Some c" "yrep 0 ?h c q d" using nav by auto
    then show ?thesis using Some by (cases d)
      (auto simp: cbm_yaml_get_str_def cbm_yaml_get_str_list_def cbm_yaml_has_def navigate_def collect_items)
  qed
qed

definition yaml_example :: string where
  "yaml_example = ''# limits'' @ [CHR 0x0A] @ ''http:'' @ [CHR 0x0A] @ ''    port: 80  # default'' @ [CHR 0x0A] @ ''    paths:'' @ [CHR 0x0A] @ ''    - /a b'' @ [CHR 0x0D, CHR 0x0A] @
     ''    -  /c'' @ [CHR 0x0A, CHR 0x0A] @ ''name : x'' @ [CHR 0x0A]"

definition yaml_example_doc :: "(string \<times> ydoc) list" where
  "yaml_example_doc = [(''http'', YMap [(''port'', YScalar ''80''), (''paths'', YList [''/a b'', ''/c''])]), (''name'', YScalar ''x'')]"

lemma yaml_example_renders: "renders 0 yaml_example_doc yaml_example"
proof -
  have b: "blank ''# limits''" "blank []" by (auto simp: blank_def intro!: exI [of _ 0])
  have i: "items 4 [''/a b'', ''/c''] (''    - /a b'' @ [CHR 0x0D, CHR 0x0A] @ ''    -  /c'' @ [CHR 0x0A, CHR 0x0A])"
    using items.intros(3) [of "''/a b''" "[]" "[CHR 0x0D]" 4, OF _ _ _ items.intros(3) [of "''/c''" "'' ''" "[]" 4, OF _ _ _ items.intros(2) [OF b(2) items.intros(1)]]]
    by (simp add: item_ok_def white_def eval_nat_numeral isspace_def byte_def)
  have p: "renders 4 [(''paths'', YList [''/a b'', ''/c''])] (''    paths:'' @ [CHR 0x0A] @ ''    - /a b'' @ [CHR 0x0D, CHR 0x0A] @ ''    -  /c'' @ [CHR 0x0A, CHR 0x0A])"
    using renders.list [of "''paths''" "[]" "[]" 4 4, OF _ _ _ _ _ i renders.nil] by (simp add: key_ok_def white_def eval_nat_numeral isspace_def byte_def)
  have "comment ''  # default''" unfolding comment_def by (intro exI [of _ "'' ''"] exI [of _ "'' default''"]) (simp add: white_def)
  then have m: "renders 4 [(''port'', YScalar ''80''), (''paths'', YList [''/a b'', ''/c''])] (''    port: 80  # default'' @ [CHR 0x0A] @
      ''    paths:'' @ [CHR 0x0A] @ ''    - /a b'' @ [CHR 0x0D, CHR 0x0A] @ ''    -  /c'' @ [CHR 0x0A, CHR 0x0A])"
    using renders.scalar [of "''port''" "''80''" "[]" "'' ''" "''  # default''", OF _ _ _ _ _ p]
    by (simp add: key_ok_def value_ok_def quoted_def white_def eval_nat_numeral isspace_def byte_def)
  have n: "renders 0 [(''name'', YScalar ''x'')] (''name : x'' @ [CHR 0x0A])"
    using renders.scalar [of "''name''" "''x''" "'' ''" "'' ''" "[]", OF _ _ _ _ _ renders.nil [of 0]]
    by (simp add: key_ok_def value_ok_def quoted_def white_def isspace_def byte_def)
  show ?thesis using renders.blank [OF b(1) renders.map [of "''http''" "[]" "[]" 0 4, OF _ _ _ _ m n]]
    by (simp add: yaml_example_def yaml_example_doc_def key_ok_def white_def isspace_def byte_def)
qed

theorem yaml_reads_document_witness:
  "cbm_yaml_get_str (cbm_yaml_parse (Some yaml_example)) (Some 0) (Some ''http.port'') = Some ''80'' \<and>
   cbm_yaml_get_str_list (cbm_yaml_parse (Some yaml_example)) (Some 0) (Some ''http.paths'') 5 = [''/a b'', ''/c''] \<and>
   \<not> cbm_yaml_has (cbm_yaml_parse (Some yaml_example)) (Some 0) (Some ''http.name'')"
proof -
  have d: "depth (YMap yaml_example_doc) \<le> 32" by (simp add: yaml_example_doc_def)
  show ?thesis
    using yaml_reads_document [OF yaml_example_renders d, of "[''http'', ''port'']"] yaml_reads_document [OF yaml_example_renders d, of "[''http'', ''paths'']" 5]
      yaml_reads_document [OF yaml_example_renders d, of "[''http'', ''name'']"]
    by (simp add: segment_def yaml_example_doc_def)
qed

section \<open>The tree\<close>

definition yaml_tree :: "yaml_heap \<Rightarrow> bool" where
  \<comment> \<open>every node but the root is the child of exactly one node, which comes before it; scalars are leaves with a value\<close>
  "yaml_tree h \<longleftrightarrow> mset (concat (map y_children h)) = mset [1..<length h] \<and> (\<forall>n < length h. \<forall>c \<in> set (y_children (h ! n)). n < c) \<and>
     (\<forall>n < length h. if y_type (h ! n) = YAML_SCALAR then y_value (h ! n) \<noteq> None \<and> y_children (h ! n) = [] else y_value (h ! n) = None)"

definition yaml_ok :: "yaml_state \<Rightarrow> bool" where
  "yaml_ok st \<longleftrightarrow> yaml_tree (ys_heap st) \<and> ys_stack st \<noteq> [] \<and> (\<forall>e \<in> set (ys_stack st). fst e < length (ys_heap st) \<and> y_type (ys_heap st ! fst e) \<noteq> YAML_SCALAR)"

lemma mset_children_update:
  "i < length h \<Longrightarrow> mset (concat (map y_children (h[i := (h ! i)\<lparr>y_children := y_children (h ! i) @ [c]\<rparr>]))) = add_mset c (mset (concat (map y_children h)))"
proof (induction h arbitrary: i)
  case (Cons n h)
  then show ?case by (cases i) simp_all
qed simp

lemma add_child_tree:
  assumes t: "yaml_tree h" and n: "n < length h" "y_type (h ! n) \<noteq> YAML_SCALAR"
    and c: "y_children c = []" "y_type c = YAML_SCALAR \<longleftrightarrow> y_value c \<noteq> None"
  shows "yaml_tree (node_add_child h n c)"
proof -
  have "1 \<le> length h" using n by linarith
  then have c1: "mset (concat (map y_children (node_add_child h n c))) = mset [1..<length (node_add_child h n c)]"
    using t mset_children_update [OF n(1), of "length h"] c by (simp add: node_add_child_def yaml_tree_def)
  have at: "node_add_child h n c ! i = (if i = n then (h ! n)\<lparr>y_children := y_children (h ! n) @ [length h]\<rparr> else if i < length h then h ! i else c)"
    if "i < Suc (length h)" for i using that n(1) by (auto simp: node_add_child_def nth_append less_Suc_eq)
  have c2: "\<forall>d \<in> set (y_children (node_add_child h n c ! i)). i < d" if "i < Suc (length h)" for i
    using t n(1) that c(1) unfolding yaml_tree_def at [OF that] by (auto simp: less_Suc_eq)
  have c3: "if y_type (node_add_child h n c ! i) = YAML_SCALAR then y_value (node_add_child h n c ! i) \<noteq> None \<and> y_children (node_add_child h n c ! i) = []
      else y_value (node_add_child h n c ! i) = None" if "i < Suc (length h)" for i
    using t n c that unfolding yaml_tree_def at [OF that] by (cases "i < length h") (auto simp: less_Suc_eq)
  have "length (node_add_child h n c) = Suc (length h)" by (simp add: node_add_child_def)
  then show ?thesis using c1 c2 c3 unfolding yaml_tree_def by (simp only:) blast
qed

lemma children_bound: "yaml_tree h \<Longrightarrow> n < length h \<Longrightarrow> c \<in> set (y_children (h ! n)) \<Longrightarrow> c < length h"
proof -
  assume "yaml_tree h" and n: "n < length h" "c \<in> set (y_children (h ! n))"
  then have "set (concat (map y_children h)) = set [1..<length h]" unfolding yaml_tree_def by (metis mset_eq_setD)
  moreover have "c \<in> set (concat (map y_children h))" using n by (auto intro!: bexI [of _ "h ! n"])
  ultimately show ?thesis by auto
qed

lemma add_child_nodes: "n < length h \<Longrightarrow> m < length h \<Longrightarrow> y_type (node_add_child h n c ! m) = y_type (h ! m) \<and> m < length (node_add_child h n c)"
  by (simp add: node_add_child_def nth_append nth_list_update)

lemma pop_stack_sub: "set (pop_stack i s) \<subseteq> set s \<and> (s \<noteq> [] \<longrightarrow> pop_stack i s \<noteq> [])"
  by (induction i s rule: pop_stack.induct) auto

lemma add_child_ok:
  "yaml_ok st \<Longrightarrow> n < length (ys_heap st) \<Longrightarrow> y_type (ys_heap st ! n) \<noteq> YAML_SCALAR \<Longrightarrow> y_children c = [] \<Longrightarrow> y_type c = YAML_SCALAR \<longleftrightarrow> y_value c \<noteq> None \<Longrightarrow>
     yaml_ok (st\<lparr>ys_heap := node_add_child (ys_heap st) n c\<rparr>)"
  using add_child_tree add_child_nodes by (auto simp: yaml_ok_def)

lemma parse_line_ok:
  assumes "yaml_ok st"
  shows "yaml_ok (parse_line line rest st)"
proof -
  define s where "s = pop_stack (int (leading_spaces line)) (ys_stack st)"
  let ?st = "st\<lparr>ys_stack := s\<rparr>"
  have st: "yaml_ok ?st" using assms pop_stack_sub [of _ "ys_stack st"] by (auto simp: yaml_ok_def s_def)
  then have p: "fst (hd s) < length (ys_heap st)" "y_type (ys_heap st ! fst (hd s)) \<noteq> YAML_SCALAR" by (auto simp: yaml_ok_def)
  have "yaml_ok (?st\<lparr>ys_heap := parse_list_item (line_content line) (fst (hd s)) (ys_heap st)\<rparr>)"
  proof -
    define lp where "lp = (if y_type (ys_heap st ! fst (hd s)) = YAML_MAP \<and> y_children (ys_heap st ! fst (hd s)) \<noteq> [] \<and>
      y_type (ys_heap st ! last (y_children (ys_heap st ! fst (hd s)))) = YAML_LIST then last (y_children (ys_heap st ! fst (hd s))) else fst (hd s))"
    have "lp < length (ys_heap st) \<and> y_type (ys_heap st ! lp) \<noteq> YAML_SCALAR"
      using p children_bound [of "ys_heap st" "fst (hd s)"] st by (auto simp: lp_def yaml_ok_def)
    then show ?thesis using add_child_ok [OF st, of lp] by (simp add: parse_list_item_def Let_def node_new_def flip: lp_def)
  qed
  moreover have "yaml_ok (parse_key_line (line_content line) (int (leading_spaces line)) (fst (hd s)) rest ?st)"
  proof -
    let ?h = "\<lambda>c. node_add_child (ys_heap st) (fst (hd s)) c"
    have add: "yaml_ok (st\<lparr>ys_heap := ?h c, ys_stack := s\<rparr>)" if "y_children c = []" "y_type c = YAML_SCALAR \<longleftrightarrow> y_value c \<noteq> None" for c
      using add_child_ok [OF st, of "fst (hd s)" c] p that by (simp add: yaml_ok_def)
    have push: "yaml_ok (st\<lparr>ys_heap := ?h c, ys_stack := (length (ys_heap st), i) # s\<rparr>)"
      if "y_children c = []" "y_type c \<noteq> YAML_SCALAR" "y_value c = None" for c i
      using add [of c] that grown_add [OF p(1), of c] by (simp add: yaml_ok_def)
    show ?thesis
    proof (cases "strchr (line_content line) (CHR '':'')")
      case (Some colon)
      then show ?thesis using add push add_child_ok [OF st, of "fst (hd s)"] p by (simp add: parse_key_line_def Let_def node_new_def)
    qed (use st in \<open>simp add: parse_key_line_def\<close>)
  qed
  ultimately show ?thesis using assms by (auto simp: parse_line_def Let_def simp flip: s_def)
qed

text \<open>
  C29. The nodes of a parsed text form a tree, whatever the text is: every node other than the root is
  in the array of children of exactly one node, which was made before it, so that there are no cycles and no shared nodes,
  exactly the scalars have a value, and they have no children.
\<close>

theorem yaml_parse_tree: "yaml_tree (cbm_yaml_parse txt)"
proof -
  have root: "yaml_tree [node_new YAML_MAP]" by (simp add: yaml_tree_def node_new_def)
  have "yaml_ok st \<Longrightarrow> yaml_ok (parse_lines p st)" for p st
  proof (induction p st rule: parse_lines.induct)
    case (1 p st)
    then show ?case by (subst parse_lines.simps) (simp add: parse_line_ok)
  qed
  then show ?thesis using root by (auto simp: cbm_yaml_parse_def yaml_ok_def node_new_def split: option.split)
qed

end
