(* ===== verification/PathAlias.thy ===== *)
theory PathAlias
  imports Prelude "HOL-Library.Multiset"
begin

text \<open>
  Path aliases of build tools, \<open>pipeline/path_alias.c\<close>: the walk over a repository that finds configuration files, the reading
  of their aliases, and the resolution of imports. The file system is a record of functions: the content of a file that can be
  opened, the entries of a directory, and the reader of JSON, whose values are a datatype. \<open>qsort\<close> is an argument.
  Both lookups scan an array sorted by length (locale \<open>longest_first\<close>). The theorems show that the most specific pattern wins and that a file
  uses the configuration of the nearest directory, and the bounded walk is shown to be the start of the full one.
\<close>

section \<open>Data\<close>

record cbm_path_alias_t =
  alias_prefix :: string
  alias_suffix :: string
  target_prefix :: string
  target_suffix :: string
  has_wildcard :: bool

record cbm_path_alias_map_t =
  pam_entries :: "cbm_path_alias_t list"
  pam_base_url :: cstr

record cbm_path_alias_scope_t =
  dir_prefix :: string
  scope_map :: cbm_path_alias_map_t

datatype json = JString string | JArray "json list" | JObject "(string \<times> json) list" | JOther

record file_system =
  fs_file :: "string \<Rightarrow> string option"
  fs_dir :: "string \<Rightarrow> (string \<times> bool) list option"  \<comment> \<open>names, and whether they are directories\<close>
  fs_json :: "string \<Rightarrow> json option"

definition CBM_PATH_ALIAS_MAX_ENTRIES :: nat where "CBM_PATH_ALIAS_MAX_ENTRIES = 256"
definition CBM_PATH_ALIAS_MAX_FILES :: nat where "CBM_PATH_ALIAS_MAX_FILES = 256"
definition CBM_PATH_ALIAS_MAX_FILE_BYTES :: nat where "CBM_PATH_ALIAS_MAX_FILE_BYTES = 64 * 1024"
definition CBM_PATH_ALIAS_MAX_DEPTH :: nat where "CBM_PATH_ALIAS_MAX_DEPTH = 32"

section \<open>Helpers\<close>

definition strip_resolved_ext :: "string \<Rightarrow> string" where
  "strip_resolved_ext path =
     (let len = length path
      in if len > 3 \<and> path ! (len - 3) = CHR ''.'' \<and> (path ! (len - 2) = CHR ''t'' \<or> path ! (len - 2) = CHR ''j'') \<and> path ! (len - 1) = CHR ''s''
         then take (len - 3) path
         else if len > 4 \<and> path ! (len - 4) = CHR ''.'' \<and> (path ! (len - 3) = CHR ''t'' \<or> path ! (len - 3) = CHR ''j'') \<and>
                path ! (len - 2) = CHR ''s'' \<and> path ! (len - 1) = CHR ''x''
         then take (len - 4) path
         else path)"

definition resolve_target_relative :: "string \<Rightarrow> string \<Rightarrow> string" where
  "resolve_target_relative dir target =
     (let t = (if take 2 target = ''./'' then drop 2 target else target)
      in if dir = [] then t else dir @ ''/'' @ t)"

definition cmp_alias_entry_by_specificity :: "cbm_path_alias_t \<Rightarrow> cbm_path_alias_t \<Rightarrow> int" where
  "cmp_alias_entry_by_specificity ea eb =
     (let la = length (alias_prefix ea); lb = length (alias_prefix eb) in if lb > la then 1 else if lb < la then -1 else 0)"

definition cmp_scope_by_specificity :: "cbm_path_alias_scope_t \<Rightarrow> cbm_path_alias_scope_t \<Rightarrow> int" where
  "cmp_scope_by_specificity sa sb =
     (let la = length (dir_prefix sa); lb = length (dir_prefix sb) in if lb > la then 1 else if lb < la then -1 else 0)"

section \<open>Configuration files\<close>

definition yyjson_obj_get :: "json \<Rightarrow> string \<Rightarrow> json option" where
  "yyjson_obj_get v key = (case v of JObject kvs \<Rightarrow> map_of kvs key | _ \<Rightarrow> None)"

definition yyjson_get_str :: "json \<Rightarrow> cstr" where
  "yyjson_get_str v = (case v of JString s \<Rightarrow> Some s | _ \<Rightarrow> None)"

definition split_alias :: "string \<Rightarrow> string \<Rightarrow> string \<Rightarrow> cbm_path_alias_t" where
  \<comment> \<open>the entry of a pattern and its target, both split at their first star\<close>
  "split_alias dir alias_pattern target_pattern =
     (case strchr target_pattern (CHR ''*'') of
        Some tstar \<Rightarrow>
          (case strchr alias_pattern (CHR ''*'') of
             Some star \<Rightarrow> \<lparr>alias_prefix = take star alias_pattern, alias_suffix = drop (star + 1) alias_pattern,
                           target_prefix = resolve_target_relative dir (take tstar target_pattern), target_suffix = drop (tstar + 1) target_pattern, has_wildcard = True\<rparr>
           | None \<Rightarrow> \<lparr>alias_prefix = alias_pattern, alias_suffix = [],
                      target_prefix = resolve_target_relative dir (take tstar target_pattern), target_suffix = drop (tstar + 1) target_pattern, has_wildcard = False\<rparr>)
      | None \<Rightarrow>
          (case strchr alias_pattern (CHR ''*'') of
             Some star \<Rightarrow> \<lparr>alias_prefix = take star alias_pattern, alias_suffix = drop (star + 1) alias_pattern,
                           target_prefix = resolve_target_relative dir target_pattern, target_suffix = [], has_wildcard = True\<rparr>
           | None \<Rightarrow> \<lparr>alias_prefix = alias_pattern, alias_suffix = [],
                      target_prefix = resolve_target_relative dir target_pattern, target_suffix = [], has_wildcard = False\<rparr>))"

fun read_aliases :: "string \<Rightarrow> nat \<Rightarrow> (string \<times> json) list \<Rightarrow> cbm_path_alias_t list" where
  \<comment> \<open>the loop over the object, with the room left in the array\<close>
  "read_aliases dir capacity [] = []"
| "read_aliases dir capacity ((alias_pattern, val) # kvs) =
     (if capacity = 0 then []
      else case val of
        JArray (v # vs) \<Rightarrow>
          (case yyjson_get_str v of
             Some target_pattern \<Rightarrow> split_alias dir alias_pattern target_pattern # read_aliases dir (capacity - 1) kvs
           | None \<Rightarrow> read_aliases dir capacity kvs)
      | _ \<Rightarrow> read_aliases dir capacity kvs)"

type_synonym 'a sort_fn = "('a \<Rightarrow> 'a \<Rightarrow> int) \<Rightarrow> 'a list \<Rightarrow> 'a list"

definition base_url_of :: "string \<Rightarrow> cstr \<Rightarrow> cstr" where
  "base_url_of dir base_url_str = (case base_url_str of
     None \<Rightarrow> None
   | Some b \<Rightarrow> (if b \<noteq> [] \<and> b \<noteq> ''.'' then Some (resolve_target_relative dir b)
               else if b = ''.'' \<and> dir \<noteq> [] then Some dir else None))"

definition entries_of :: "cbm_path_alias_t sort_fn \<Rightarrow> string \<Rightarrow> json option \<Rightarrow> cbm_path_alias_t list" where
  "entries_of qsort dir paths_obj = (case paths_obj of
     Some (JObject kvs) \<Rightarrow>
       (let capacity = (if length kvs > CBM_PATH_ALIAS_MAX_ENTRIES then CBM_PATH_ALIAS_MAX_ENTRIES else length kvs)
        in if capacity > 0 then qsort cmp_alias_entry_by_specificity (read_aliases dir capacity kvs) else [])
   | _ \<Rightarrow> [])"

definition load_tsconfig_file :: "file_system \<Rightarrow> cbm_path_alias_t sort_fn \<Rightarrow> string \<Rightarrow> string \<Rightarrow> cbm_path_alias_map_t option" where
  "load_tsconfig_file fs qsort abs_path dir =
     (case fs_file fs abs_path of
        None \<Rightarrow> None
      | Some buf \<Rightarrow>
          (if length buf = 0 \<or> length buf > CBM_PATH_ALIAS_MAX_FILE_BYTES then None
           else case Option.bind (fs_json fs buf) (\<lambda>root. yyjson_obj_get root ''compilerOptions'') of
             None \<Rightarrow> None
           | Some compiler_opts \<Rightarrow>
               (let base_url_str = Option.bind (yyjson_obj_get compiler_opts ''baseUrl'') yyjson_get_str;
                    paths_obj = yyjson_obj_get compiler_opts ''paths''
                in if paths_obj = None \<and> base_url_str = None then None
                   else Some \<lparr>pam_entries = entries_of qsort dir paths_obj, pam_base_url = base_url_of dir base_url_str\<rparr>)))"

section \<open>Resolution\<close>

definition try_alias :: "cbm_path_alias_t \<Rightarrow> string \<Rightarrow> string option" where
  \<comment> \<open>one turn of the loop over the entries\<close>
  "try_alias e module_path =
     (let mod_len = length module_path in
      if has_wildcard e
      then let prefix_len = length (alias_prefix e); suffix_len = length (alias_suffix e)
           in if mod_len < prefix_len + suffix_len then None
              else if take prefix_len module_path \<noteq> alias_prefix e then None
              else if suffix_len > 0 \<and> drop (mod_len - suffix_len) module_path \<noteq> alias_suffix e then None
              else let wild_len = mod_len - prefix_len - suffix_len
                   in Some (strip_resolved_ext (target_prefix e @ take wild_len (drop prefix_len module_path) @ target_suffix e))
      else if module_path = alias_prefix e then Some (strip_resolved_ext (target_prefix e))
      else None)"

fun first_alias :: "cbm_path_alias_t list \<Rightarrow> string \<Rightarrow> string option" where
  "first_alias [] module_path = None"
| "first_alias (e # es) module_path = (case try_alias e module_path of Some r \<Rightarrow> Some r | None \<Rightarrow> first_alias es module_path)"

definition cbm_path_alias_resolve :: "cbm_path_alias_map_t option \<Rightarrow> cstr \<Rightarrow> cstr" where
  "cbm_path_alias_resolve map_opt module_opt =
     (case (map_opt, module_opt) of
        (Some m, Some module_path) \<Rightarrow>
          (case first_alias (pam_entries m) module_path of
             Some r \<Rightarrow> Some r
           | None \<Rightarrow>
               (case pam_base_url m of
                  Some b \<Rightarrow> (if take 1 module_path \<noteq> ''.'' \<and> take 1 module_path \<noteq> ''@'' \<and> strchr module_path (CHR ''/'') \<noteq> None
                            then Some (strip_resolved_ext (b @ ''/'' @ module_path)) else None)
                | None \<Rightarrow> None))
      | _ \<Rightarrow> None)"

section \<open>The walk over the repository\<close>

record alias_config_hit_t =
  hit_abs :: string
  hit_rel :: string

definition TS_CONFIG_NAMES :: "string list" where
  "TS_CONFIG_NAMES = [''tsconfig.json'', ''jsconfig.json'']"

definition skipped_dir :: "string \<Rightarrow> bool" where
  "skipped_dir name \<longleftrightarrow> take 1 name = ''.'' \<or> name \<in> {''node_modules'', ''dist'', ''build'', ''.next'', ''coverage'', ''target''}"

fun find_config :: "file_system \<Rightarrow> string \<Rightarrow> string \<Rightarrow> string list \<Rightarrow> alias_config_hit_t list" where
  \<comment> \<open>at most one configuration file of a directory\<close>
  "find_config fs abs_dir rel_dir [] = []"
| "find_config fs abs_dir rel_dir (name # names) =
     (let check = snprintf_into CBM_SZ_512 (abs_dir @ ''/'' @ name)
      in if fs_file fs check \<noteq> None
         then [\<lparr>hit_abs = snprintf_into CBM_SZ_512 check, hit_rel = snprintf_into CBM_SZ_256 rel_dir\<rparr>]
         else find_config fs abs_dir rel_dir names)"

fun walk_entries :: "(string \<Rightarrow> string \<Rightarrow> alias_config_hit_t list \<Rightarrow> alias_config_hit_t list) \<Rightarrow> nat \<Rightarrow> string \<Rightarrow> string \<Rightarrow> (string \<times> bool) list \<Rightarrow>
    alias_config_hit_t list \<Rightarrow> alias_config_hit_t list" where
  \<comment> \<open>the loop over the entries of a directory, with the recursive call and the room in the output first and the files found so far last\<close>
  "walk_entries descend max_count abs_dir rel_dir [] out = out"
| "walk_entries descend max_count abs_dir rel_dir ((name, is_dir) # ents) out =
     (if length out \<ge> max_count then out
      else if \<not> is_dir \<or> skipped_dir name then walk_entries descend max_count abs_dir rel_dir ents out
      else let child_abs = snprintf_into CBM_SZ_512 (abs_dir @ ''/'' @ name);
               child_rel = snprintf_into CBM_SZ_256 (if rel_dir = [] then name else rel_dir @ ''/'' @ name)
           in walk_entries descend max_count abs_dir rel_dir ents (descend child_abs child_rel out))"

primrec find_alias_files :: "file_system \<Rightarrow> nat \<Rightarrow> nat \<Rightarrow> string \<Rightarrow> string \<Rightarrow> alias_config_hit_t list \<Rightarrow> alias_config_hit_t list" where
  \<comment> \<open>the third argument counts the levels left, \<open>CBM_PATH_ALIAS_MAX_DEPTH + 1\<close> less the depth of the source\<close>
  "find_alias_files fs max_count 0 = (\<lambda>abs_dir rel_dir out. out)"
| "find_alias_files fs max_count (Suc levels) = (\<lambda>abs_dir rel_dir out.
     if length out \<ge> max_count then out
     else case fs_dir fs abs_dir of
       None \<Rightarrow> out
     | Some ents \<Rightarrow> walk_entries (find_alias_files fs max_count levels) max_count abs_dir rel_dir ents (out @ find_config fs abs_dir rel_dir TS_CONFIG_NAMES))"

definition load_hits :: "file_system \<Rightarrow> cbm_path_alias_t sort_fn \<Rightarrow> alias_config_hit_t list \<Rightarrow> cbm_path_alias_scope_t list" where
  "load_hits fs qsort hits =
     concat (map (\<lambda>hit. case load_tsconfig_file fs qsort (hit_abs hit) (hit_rel hit) of
                          Some m \<Rightarrow> [\<lparr>dir_prefix = hit_rel hit, scope_map = m\<rparr>] | None \<Rightarrow> []) hits)"

definition cbm_load_path_aliases :: "file_system \<Rightarrow> cbm_path_alias_t sort_fn \<Rightarrow> cbm_path_alias_scope_t sort_fn \<Rightarrow> cstr \<Rightarrow> cbm_path_alias_scope_t list option" where
  "cbm_load_path_aliases fs qsort_entries qsort_scopes repo_path =
     (case repo_path of
        None \<Rightarrow> None
      | Some repo \<Rightarrow>
          (let hits = find_alias_files fs CBM_PATH_ALIAS_MAX_FILES (CBM_PATH_ALIAS_MAX_DEPTH + 1) repo [] []
           in if hits = [] then None
              else let scopes = load_hits fs qsort_entries hits
                   in if scopes = [] then None else Some (qsort_scopes cmp_scope_by_specificity scopes)))"

fun scope_for :: "cbm_path_alias_scope_t list \<Rightarrow> string \<Rightarrow> cbm_path_alias_map_t option" where
  "scope_for [] rel_path = None"
| "scope_for (s # ss) rel_path =
     (let prefix = dir_prefix s; plen = length prefix
      in if plen = 0 then Some (scope_map s)
         else if take plen rel_path = prefix \<and> (length rel_path = plen \<or> rel_path ! plen = CHR ''/'') then Some (scope_map s)
         else scope_for ss rel_path)"

definition cbm_path_alias_find_for_file :: "cbm_path_alias_scope_t list option \<Rightarrow> cstr \<Rightarrow> cbm_path_alias_map_t option" where
  "cbm_path_alias_find_for_file coll rel_path =
     (case (coll, rel_path) of (Some scopes, Some rel) \<Rightarrow> scope_for scopes rel | _ \<Rightarrow> None)"

section \<open>Sorting\<close>

definition consistent :: "('a \<Rightarrow> 'a \<Rightarrow> int) \<Rightarrow> bool" where
  "consistent cmp \<longleftrightarrow> (\<forall>a b. sgn (cmp a b) = - sgn (cmp b a)) \<and> (\<forall>a b c. cmp a b \<le> 0 \<longrightarrow> cmp b c \<le> 0 \<longrightarrow> cmp a c \<le> 0)"

definition puts_in_order :: "'a sort_fn \<Rightarrow> bool" where
  \<comment> \<open>the contract of \<open>qsort\<close>, which leaves the order of equal elements open\<close>
  "puts_in_order qsort \<longleftrightarrow> (\<forall>cmp xs. mset (qsort cmp xs) = mset xs \<and> (consistent cmp \<longrightarrow> sorted_wrt (\<lambda>a b. cmp a b \<le> 0) (qsort cmp xs)))"

lemma puts_in_order_set: "puts_in_order qsort \<Longrightarrow> set (qsort cmp xs) = set xs"
  unfolding puts_in_order_def by (metis set_mset_mset)

lemma sorted_by_length:
  assumes "puts_in_order qsort"
    and cmp: "\<And>a b. cmp a b = (let la = length (f a); lb = length (f b) in if lb > la then 1 else if lb < la then - 1 else 0)"
  shows "sorted_wrt (\<lambda>a b. length (f b) \<le> length (f a)) (qsort cmp xs)"
proof -
  have "consistent cmp" by (auto simp: consistent_def cmp Let_def split: if_splits)
  with assms(1) have "sorted_wrt (\<lambda>a b. cmp a b \<le> 0) (qsort cmp xs)" by (simp add: puts_in_order_def)
  moreover have "(\<lambda>a b. cmp a b \<le> 0) = (\<lambda>a b. length (f b) \<le> length (f a))" by (auto simp: fun_eq_iff cmp Let_def)
  ultimately show ?thesis by simp
qed

lemmas sorted_entries = sorted_by_length [OF _ cmp_alias_entry_by_specificity_def]
lemmas sorted_scopes = sorted_by_length [OF _ cmp_scope_by_specificity_def]

text \<open>
  Both lookups scan an array that is sorted by decreasing length of a key and stop at the first element that fits. The
  locale states what such a scan finds.
\<close>

locale longest_first =
  fixes key_length :: "'a \<Rightarrow> nat"
    and try_one :: "'a \<Rightarrow> 'b \<Rightarrow> 'c option"
    and scan :: "'a list \<Rightarrow> 'b \<Rightarrow> 'c option"
  assumes scan_nil: "scan [] q = None"
    and scan_cons: "scan (x # xs) q = (case try_one x q of Some r \<Rightarrow> Some r | None \<Rightarrow> scan xs q)"
begin

lemma scan_None: "scan xs q = None \<longleftrightarrow> (\<forall>x \<in> set xs. try_one x q = None)"
  by (induction xs) (auto simp: scan_nil scan_cons split: option.splits)

lemma scan_longest:
  assumes "scan xs q = Some r" "sorted_wrt (\<lambda>a b. key_length b \<le> key_length a) xs"
  obtains x where "x \<in> set xs" "try_one x q = Some r" "\<And>y. y \<in> set xs \<Longrightarrow> try_one y q \<noteq> None \<Longrightarrow> key_length y \<le> key_length x"
proof -
  have "\<exists>x \<in> set xs. try_one x q = Some r \<and> (\<forall>y \<in> set xs. try_one y q \<noteq> None \<longrightarrow> key_length y \<le> key_length x)"
    using assms by (induction xs) (auto simp: scan_nil scan_cons split: option.splits)
  then show ?thesis using that by blast
qed

end

definition covers :: "string \<Rightarrow> string \<Rightarrow> bool" where
  \<comment> \<open>the file or directory of the second path is in the directory of the first, \<open>[]\<close> being the root\<close>
  "covers dir rel \<longleftrightarrow> dir = [] \<or> rel = dir \<or> (\<exists>rest. rel = dir @ ''/'' @ rest)"

definition scope_hit :: "cbm_path_alias_scope_t \<Rightarrow> string \<Rightarrow> cbm_path_alias_map_t option" where
  "scope_hit s rel = (if covers (dir_prefix s) rel then Some (scope_map s) else None)"

lemma covers_code:
  "covers dir rel \<longleftrightarrow> dir = [] \<or> take (length dir) rel = dir \<and> (length rel = length dir \<or> rel ! length dir = CHR ''/'')"
proof -
  have "\<exists>rest. rel = dir @ ''/'' @ rest" if t: "take (length dir) rel = dir" and n: "length rel \<noteq> length dir" "rel ! length dir = CHR ''/''"
  proof -
    have "length dir < length rel" using t n(1) by (metis le_neq_implies_less length_take min.cobounded1)
    from id_take_nth_drop [OF this] t n(2) show ?thesis by auto
  qed
  moreover have "rel = dir" if "take (length dir) rel = dir" "length rel = length dir" using that by simp
  ultimately show ?thesis unfolding covers_def by (cases "length rel = length dir") auto
qed

interpretation aliases: longest_first "\<lambda>e. length (alias_prefix e)" try_alias first_alias
  by unfold_locales simp_all

interpretation scopes: longest_first "\<lambda>s. length (dir_prefix s)" scope_hit scope_for
  by unfold_locales (auto simp: scope_hit_def covers_code Let_def)

section \<open>Patterns\<close>

definition matches :: "string \<Rightarrow> string \<Rightarrow> string \<Rightarrow> bool" where
  \<comment> \<open>a pattern, what its star stands for, and a module path; a pattern without a star stands for itself\<close>
  "matches pat w p \<longleftrightarrow> (case strchr pat (CHR ''*'') of
     Some i \<Rightarrow> p = take i pat @ w @ drop (i + 1) pat
   | None \<Rightarrow> p = pat \<and> w = [])"

definition specificity :: "string \<Rightarrow> nat" where
  \<comment> \<open>the number of characters before the star\<close>
  "specificity pat = (case strchr pat (CHR ''*'') of Some i \<Rightarrow> i | None \<Rightarrow> length pat)"

definition fill_target :: "string \<Rightarrow> string \<Rightarrow> string \<Rightarrow> string \<Rightarrow> string" where
  \<comment> \<open>the target with its star replaced; for a pattern without a star, the target up to its star\<close>
  "fill_target dir pat target w =
     (let (before, after) = (case strchr target (CHR ''*'') of Some i \<Rightarrow> (take i target, drop (i + 1) target) | None \<Rightarrow> (target, []))
      in resolve_target_relative dir before @ (if CHR ''*'' \<in> set pat then w @ after else []))"

lemma wildcard_split:
  assumes "length pre + length suf \<le> length p" "take (length pre) p = pre" "length suf > 0 \<longrightarrow> drop (length p - length suf) p = suf"
  shows "p = pre @ take (length p - length pre - length suf) (drop (length pre) p) @ suf"
proof -
  let ?q = "drop (length pre) p"
  have p: "p = pre @ ?q" using assms(2) by (metis append_take_drop_id)
  have "drop (length p - length pre - length suf) ?q = suf"
    using assms(1,3) by (cases suf) (simp_all add: add.commute)
  then have "?q = take (length p - length pre - length suf) ?q @ suf" by (metis append_take_drop_id)
  with p show ?thesis by metis
qed

lemma try_wildcard:
  "try_alias \<lparr>alias_prefix = pre, alias_suffix = suf, target_prefix = tp, target_suffix = ts, has_wildcard = True\<rparr> p = Some r \<longleftrightarrow>
     (\<exists>w. p = pre @ w @ suf \<and> r = strip_resolved_ext (tp @ w @ ts))"
  (is "?l \<longleftrightarrow> ?r")
proof
  assume ?l
  then have "length pre + length suf \<le> length p" "take (length pre) p = pre" "length suf > 0 \<longrightarrow> drop (length p - length suf) p = suf"
    "r = strip_resolved_ext (tp @ take (length p - length pre - length suf) (drop (length pre) p) @ ts)"
    by (auto simp: try_alias_def Let_def split: if_splits)
  with wildcard_split [of pre suf p] show ?r by metis
next
  assume ?r
  then show ?l by (auto simp: try_alias_def Let_def)
qed

lemma try_split_alias:
  "try_alias (split_alias dir pat target) p = Some r \<longleftrightarrow> (\<exists>w. matches pat w p \<and> r = strip_resolved_ext (fill_target dir pat target w))"
proof (cases "strchr pat (CHR ''*'')")
  case None
  then have "CHR ''*'' \<notin> set pat" by (simp add: strchr_None)
  with None show ?thesis by (auto simp: try_alias_def split_alias_def matches_def fill_target_def split: option.splits)
next
  case (Some i)
  then have "CHR ''*'' \<in> set pat" by (metis option.distinct(1) strchr_None)
  with Some show ?thesis by (cases "strchr target (CHR ''*'')") (auto simp: split_alias_def matches_def fill_target_def try_wildcard)
qed

lemma try_split_None: "try_alias (split_alias dir pat target) p \<noteq> None \<longleftrightarrow> (\<exists>w. matches pat w p)"
  using try_split_alias by blast

lemma split_specificity: "length (alias_prefix (split_alias dir pat target)) = specificity pat"
  by (auto simp: split_alias_def specificity_def dest: strchr_lt split: option.splits)

section \<open>The aliases of a configuration file\<close>

definition declared :: "(string \<times> json) list \<Rightarrow> (string \<times> string) list" where
  \<comment> \<open>the patterns of an object that have an array as their value, with its first element\<close>
  "declared kvs = concat (map (\<lambda>(pat, v). case v of JArray (JString t # _) \<Rightarrow> [(pat, t)] | _ \<Rightarrow> []) kvs)"

definition config_options :: "file_system \<Rightarrow> string \<Rightarrow> json option" where
  "config_options fs path = Option.bind (fs_file fs path) (\<lambda>buf.
     if 0 < length buf \<and> length buf \<le> CBM_PATH_ALIAS_MAX_FILE_BYTES then Option.bind (fs_json fs buf) (\<lambda>root. yyjson_obj_get root ''compilerOptions'')
     else None)"

definition config_aliases :: "file_system \<Rightarrow> string \<Rightarrow> (string \<times> string) list" where
  "config_aliases fs path = (case Option.bind (config_options fs path) (\<lambda>opts. yyjson_obj_get opts ''paths'') of
     Some (JObject kvs) \<Rightarrow> take CBM_PATH_ALIAS_MAX_ENTRIES (declared kvs) | _ \<Rightarrow> [])"

definition config_base :: "file_system \<Rightarrow> string \<Rightarrow> string \<Rightarrow> string option" where
  \<comment> \<open>the directory of the option \<open>baseUrl\<close>, relative to the repository; the repository itself counts as none\<close>
  "config_base fs path dir = Option.bind (Option.bind (config_options fs path) (\<lambda>opts. yyjson_obj_get opts ''baseUrl''))
     (\<lambda>v. case v of JString b \<Rightarrow> (if b = [] \<or> b = ''.'' \<and> dir = [] then None else if b = ''.'' then Some dir else Some (resolve_target_relative dir b))
                   | _ \<Rightarrow> None)"

lemma read_aliases_declared: "read_aliases dir n kvs = map (\<lambda>(pat, t). split_alias dir pat t) (take n (declared kvs))"
proof (induction dir n kvs rule: read_aliases.induct)
  case (2 dir n pat val kvs)
  then show ?case
    by (cases n) (auto simp: declared_def yyjson_get_str_def split: json.splits list.splits)
qed (simp add: declared_def)

lemma length_declared: "length (declared kvs) \<le> length kvs"
  by (induction kvs) (auto simp: declared_def split: json.splits list.splits)

lemma load_tsconfig_some:
  assumes "load_tsconfig_file fs qsort path dir = Some m"
  shows "pam_base_url m = config_base fs path dir"
    and "pam_entries m = [] \<and> config_aliases fs path = [] \<or>
         pam_entries m = qsort cmp_alias_entry_by_specificity (map (\<lambda>(pat, t). split_alias dir pat t) (config_aliases fs path))"
proof -
  obtain opts where o: "config_options fs path = Some opts"
    and m: "m = \<lparr>pam_entries = entries_of qsort dir (yyjson_obj_get opts ''paths''),
                pam_base_url = base_url_of dir (Option.bind (yyjson_obj_get opts ''baseUrl'') yyjson_get_str)\<rparr>"
    using assms by (auto simp: load_tsconfig_file_def config_options_def Let_def split: option.splits if_splits)
  show "pam_base_url m = config_base fs path dir"
    unfolding m config_base_def o base_url_of_def
    by (cases "yyjson_obj_get opts ''baseUrl''") (auto simp: yyjson_get_str_def split: json.splits)
  have "take (if length kvs > n then n else length kvs) (declared kvs) = take n (declared kvs)" for kvs n
    using length_declared [of kvs] by simp
  then show "pam_entries m = [] \<and> config_aliases fs path = [] \<or>
      pam_entries m = qsort cmp_alias_entry_by_specificity (map (\<lambda>(pat, t). split_alias dir pat t) (config_aliases fs path))"
    unfolding m config_aliases_def o entries_of_def Let_def
    by (auto simp: read_aliases_declared declared_def split: option.splits json.splits)
qed

lemma load_tsconfig_entries:
  assumes q: "puts_in_order qsort" and l: "load_tsconfig_file fs qsort path dir = Some m"
  shows "set (pam_entries m) = (\<lambda>(pat, t). split_alias dir pat t) ` set (config_aliases fs path)"
    and "sorted_wrt (\<lambda>a b. length (alias_prefix b) \<le> length (alias_prefix a)) (pam_entries m)"
  using load_tsconfig_some(2) [OF l] puts_in_order_set [OF q] sorted_entries [OF q] by auto

lemma drop_last:
  "3 \<le> length p \<Longrightarrow> drop (length p - 3) p = [p ! (length p - 3), p ! (length p - 2), p ! (length p - 1)]"
  "4 \<le> length p \<Longrightarrow> drop (length p - 4) p = [p ! (length p - 4), p ! (length p - 3), p ! (length p - 2), p ! (length p - 1)]"
  by (simp_all add: Cons_nth_drop_Suc [symmetric] numeral_eq_Suc Suc_diff_Suc)

lemma strip_resolved_ext_spec:
  "strip_resolved_ext p =
     (if length p > 3 \<and> drop (length p - 3) p \<in> {''.ts'', ''.js''} then take (length p - 3) p
      else if length p > 4 \<and> drop (length p - 4) p \<in> {''.tsx'', ''.jsx''} then take (length p - 4) p else p)"
  using drop_last [of p] by (auto simp: strip_resolved_ext_def Let_def)

lemma load_hits_mem:
  "s \<in> set (load_hits fs qsort hits) \<longleftrightarrow> (\<exists>h \<in> set hits. load_tsconfig_file fs qsort (hit_abs h) (hit_rel h) = Some (scope_map s) \<and> dir_prefix s = hit_rel h)"
proof -
  have "s = \<lparr>dir_prefix = d, scope_map = m\<rparr> \<longleftrightarrow> m = scope_map s \<and> d = dir_prefix s" for d m by (cases s) auto
  then show ?thesis by (induction hits) (auto simp: load_hits_def split: option.splits)
qed

lemma resolve_unfold:
  "cbm_path_alias_resolve (Some m) (Some p) = (case first_alias (pam_entries m) p of Some r \<Rightarrow> Some r | None \<Rightarrow>
     Option.bind (pam_base_url m) (\<lambda>b. if take 1 p \<noteq> ''.'' \<and> take 1 p \<noteq> ''@'' \<and> CHR ''/'' \<in> set p then Some (strip_resolved_ext (b @ ''/'' @ p)) else None))"
  by (auto simp: cbm_path_alias_resolve_def strchr_None split: option.splits)

text \<open>
  C27. A module path is resolved by a most specific pattern of the configuration file. If some alias of the file matches the
  path, the result is the target of an alias that matches, with its star replaced and a script extension stripped, and no
  alias that matches has more characters before its star. If none matches, the result is the path below the base directory,
  for paths that contain a slash and do not start with a dot or an at sign, and otherwise nothing.
\<close>

theorem alias_most_specific:
  assumes q: "puts_in_order qsort" and l: "load_tsconfig_file fs qsort path dir = Some m"
  shows "if \<exists>(pat, t) \<in> set (config_aliases fs path). \<exists>w. matches pat w p
         then \<exists>pat t w. (pat, t) \<in> set (config_aliases fs path) \<and> matches pat w p \<and>
           cbm_path_alias_resolve (Some m) (Some p) = Some (strip_resolved_ext (fill_target dir pat t w)) \<and>
           (\<forall>(pat', t') \<in> set (config_aliases fs path). (\<exists>w'. matches pat' w' p) \<longrightarrow> specificity pat' \<le> specificity pat)
         else cbm_path_alias_resolve (Some m) (Some p) = Option.bind (config_base fs path dir) (\<lambda>b.
           if take 1 p \<noteq> ''.'' \<and> take 1 p \<noteq> ''@'' \<and> CHR ''/'' \<in> set p then Some (strip_resolved_ext (b @ ''/'' @ p)) else None)"
proof (cases "first_alias (pam_entries m) p")
  case None
  then have "try_alias (split_alias dir pat t) p = None" if "(pat, t) \<in> set (config_aliases fs path)" for pat t
    using that unfolding aliases.scan_None load_tsconfig_entries(1) [OF q l] by force
  then have "\<not> (\<exists>(pat, t) \<in> set (config_aliases fs path). \<exists>w. matches pat w p)"
    by auto (metis try_split_None)
  then show ?thesis by (simp add: resolve_unfold None load_tsconfig_some(1) [OF l])
next
  case (Some r)
  from aliases.scan_longest [OF Some load_tsconfig_entries(2) [OF q l]] obtain e
    where e: "e \<in> set (pam_entries m)" "try_alias e p = Some r"
      "\<And>y. y \<in> set (pam_entries m) \<Longrightarrow> try_alias y p \<noteq> None \<Longrightarrow> length (alias_prefix y) \<le> length (alias_prefix e)" by blast
  from e(1) obtain pat t where pt: "(pat, t) \<in> set (config_aliases fs path)" "e = split_alias dir pat t"
    unfolding load_tsconfig_entries(1) [OF q l] by auto
  from e(2) obtain w where w: "matches pat w p" "r = strip_resolved_ext (fill_target dir pat t w)" unfolding pt(2) try_split_alias by blast
  have "\<forall>(pat', t') \<in> set (config_aliases fs path). (\<exists>w'. matches pat' w' p) \<longrightarrow> specificity pat' \<le> specificity pat"
  proof (clarify)
    fix pat' t' w' assume a: "(pat', t') \<in> set (config_aliases fs path)" "matches pat' w' p"
    then have "split_alias dir pat' t' \<in> set (pam_entries m)" unfolding load_tsconfig_entries(1) [OF q l] by force
    from e(3) [OF this] a(2) show "specificity pat' \<le> specificity pat" unfolding pt(2) split_specificity try_split_None by blast
  qed
  moreover have "cbm_path_alias_resolve (Some m) (Some p) = Some r" by (simp add: resolve_unfold Some)
  ultimately show ?thesis using pt(1) w by auto
qed

definition usable_hit :: "file_system \<Rightarrow> cbm_path_alias_t sort_fn \<Rightarrow> alias_config_hit_t list \<Rightarrow> string \<Rightarrow> alias_config_hit_t \<Rightarrow> cbm_path_alias_map_t \<Rightarrow> bool" where
  \<comment> \<open>a configuration file that was found, can be read and is in a directory that contains a path\<close>
  "usable_hit fs qsort hits rel h m \<longleftrightarrow> h \<in> set hits \<and> load_tsconfig_file fs qsort (hit_abs h) (hit_rel h) = Some m \<and> covers (hit_rel h) rel"

lemma scope_for_nearest:
  assumes q: "puts_in_order qsort_scopes" and c: "coll = qsort_scopes cmp_scope_by_specificity (load_hits fs qsort_entries hits)"
  shows "scope_for coll rel = None \<Longrightarrow> \<not> (\<exists>h m. usable_hit fs qsort_entries hits rel h m)"
    and "scope_for coll rel = Some m \<Longrightarrow> \<exists>h. usable_hit fs qsort_entries hits rel h m \<and> (\<forall>h' m'. usable_hit fs qsort_entries hits rel h' m' \<longrightarrow> length (hit_rel h') \<le> length (hit_rel h))"
proof -
  have mem: "s \<in> set coll \<longleftrightarrow> s \<in> set (load_hits fs qsort_entries hits)" for s by (simp add: c puts_in_order_set [OF q])
  have scope: "\<lparr>dir_prefix = hit_rel h, scope_map = m\<rparr> \<in> set coll" "scope_hit \<lparr>dir_prefix = hit_rel h, scope_map = m\<rparr> rel = Some m"
    if "usable_hit fs qsort_entries hits rel h m" for h m
    using that by (auto simp: mem load_hits_mem usable_hit_def scope_hit_def)
  show "\<not> (\<exists>h m. usable_hit fs qsort_entries hits rel h m)" if "scope_for coll rel = None"
    using that scope unfolding scopes.scan_None by fastforce
  assume some: "scope_for coll rel = Some m"
  have "sorted_wrt (\<lambda>a b. length (dir_prefix b) \<le> length (dir_prefix a)) coll" unfolding c by (rule sorted_scopes [OF q])
  from scopes.scan_longest [OF some this] obtain s
    where s: "s \<in> set coll" "scope_hit s rel = Some m"
      "\<And>y. y \<in> set coll \<Longrightarrow> scope_hit y rel \<noteq> None \<Longrightarrow> length (dir_prefix y) \<le> length (dir_prefix s)" by blast
  from s(1) obtain h where h: "h \<in> set hits" "load_tsconfig_file fs qsort_entries (hit_abs h) (hit_rel h) = Some (scope_map s)" "dir_prefix s = hit_rel h"
    unfolding mem load_hits_mem by blast
  have "usable_hit fs qsort_entries hits rel h m" using h s(2) by (auto simp: usable_hit_def scope_hit_def split: if_splits)
  moreover have "length (hit_rel h') \<le> length (hit_rel h)" if "usable_hit fs qsort_entries hits rel h' m'" for h' m'
    using s(3) [OF scope(1) [OF that]] scope(2) [OF that] h(3) by simp
  ultimately show "\<exists>h. usable_hit fs qsort_entries hits rel h m \<and> (\<forall>h' m'. usable_hit fs qsort_entries hits rel h' m' \<longrightarrow> length (hit_rel h') \<le> length (hit_rel h))" by blast
qed

text \<open>
  A base directory that is written as \<open>./\<close> in the configuration of the root resolves to paths that start with a slash: only the
  spellings \<open>.\<close> and the empty string count as the root.
\<close>

lemma base_url_dot_slash: "cbm_path_alias_resolve (Some \<lparr>pam_entries = [], pam_base_url = base_url_of [] (Some ''./'')\<rparr>) (Some ''src/x'') = Some ''/src/x''"
  by (simp add: cbm_path_alias_resolve_def base_url_of_def resolve_target_relative_def strip_resolved_ext_def)

section \<open>Completeness of the walk\<close>

definition child_abs :: "string \<Rightarrow> string \<Rightarrow> string" where
  "child_abs abs_dir name = snprintf_into CBM_SZ_512 (abs_dir @ ''/'' @ name)"

definition child_rel :: "string \<Rightarrow> string \<Rightarrow> string" where
  "child_rel rel_dir name = snprintf_into CBM_SZ_256 (if rel_dir = [] then name else rel_dir @ ''/'' @ name)"

inductive below :: "file_system \<Rightarrow> string \<Rightarrow> string \<Rightarrow> nat \<Rightarrow> string \<Rightarrow> string \<Rightarrow> bool" for fs where
  \<comment> \<open>the directories under one, with their depth, that are not reached through a directory to skip\<close>
  here: "below fs a r 0 a r"
| down: "fs_dir fs a = Some ents \<Longrightarrow> (name, True) \<in> set ents \<Longrightarrow> \<not> skipped_dir name \<Longrightarrow>
         below fs (child_abs a name) (child_rel r name) n a' r' \<Longrightarrow> below fs a r (Suc n) a' r'"

inductive_simps below_0: "below fs a r 0 a' r'"
inductive_simps below_Suc: "below fs a r (Suc n) a' r'"

definition config_of :: "file_system \<Rightarrow> string \<Rightarrow> string \<Rightarrow> alias_config_hit_t \<Rightarrow> bool" where
  \<comment> \<open>the configuration file of a directory that can be listed: \<open>tsconfig.json\<close>, or without it \<open>jsconfig.json\<close>\<close>
  "config_of fs a r h \<longleftrightarrow> fs_dir fs a \<noteq> None \<and> hit_rel h = snprintf_into CBM_SZ_256 r \<and> fs_file fs (hit_abs h) \<noteq> None \<and>
     (hit_abs h = child_abs a ''tsconfig.json'' \<or> hit_abs h = child_abs a ''jsconfig.json'' \<and> fs_file fs (child_abs a ''tsconfig.json'') = None)"

primrec all_hits :: "file_system \<Rightarrow> nat \<Rightarrow> string \<Rightarrow> string \<Rightarrow> alias_config_hit_t list" where
  \<comment> \<open>the walk without a limit on the number of files\<close>
  "all_hits fs 0 = (\<lambda>a r. [])"
| "all_hits fs (Suc levels) = (\<lambda>a r. case fs_dir fs a of None \<Rightarrow> [] | Some ents \<Rightarrow>
     find_config fs a r TS_CONFIG_NAMES @
     concat (map (\<lambda>(name, is_dir). if is_dir \<and> \<not> skipped_dir name then all_hits fs levels (child_abs a name) (child_rel r name) else []) ents))"

lemma snprintf_twice: "snprintf_into n (snprintf_into n s) = snprintf_into n s"
  by (simp add: snprintf_into_def)

lemma find_config_iff:
  "fs_dir fs a \<noteq> None \<Longrightarrow> h \<in> set (find_config fs a r TS_CONFIG_NAMES) \<longleftrightarrow> config_of fs a r h"
  by (cases h) (auto simp: TS_CONFIG_NAMES_def config_of_def child_abs_def Let_def snprintf_twice)

lemma length_find_config: "length (find_config fs a r names) \<le> 1"
  by (induction names) (simp_all add: Let_def)

lemma room_left: "n - (a + min b (n - a)) = n - (a + b)" for n :: nat
  by auto

lemma walk_entries_take:
  assumes "\<And>name out. length out \<le> n \<Longrightarrow> descend (child_abs a name) (child_rel r name) out = take n (out @ hits_in name)" "length out \<le> n"
  shows "walk_entries descend n a r ents out = take n (out @ concat (map (\<lambda>(name, is_dir). if is_dir \<and> \<not> skipped_dir name then hits_in name else []) ents))"
  using assms(2)
proof (induction ents arbitrary: out)
  case (Cons ent ents)
  show ?case
  proof (cases "length out \<ge> n")
    case False
    then show ?thesis using Cons assms(1) by (cases ent) (auto simp: child_abs_def child_rel_def Let_def room_left)
  qed (use Cons in \<open>cases ent; simp\<close>)
qed simp

lemma find_alias_files_take:
  "length out \<le> n \<Longrightarrow> find_alias_files fs n levels a r out = take n (out @ all_hits fs levels a r)"
proof (induction levels arbitrary: a r out)
  case (Suc levels)
  show ?case
  proof (cases "length out \<ge> n \<or> fs_dir fs a = None")
    case False
    then have "length (out @ find_config fs a r TS_CONFIG_NAMES) \<le> n" using length_find_config [of fs a r TS_CONFIG_NAMES] by simp
    from walk_entries_take [OF Suc.IH this] False show ?thesis by auto
  qed (use Suc.prems in auto)
qed simp

lemma all_hits_below:
  "h \<in> set (all_hits fs levels a r) \<longleftrightarrow> (\<exists>n a' r'. n < levels \<and> below fs a r n a' r' \<and> config_of fs a' r' h)"
proof (induction levels arbitrary: a r)
  case (Suc levels)
  have d: "(\<exists>n a' r'. n < Suc levels \<and> below fs a r n a' r' \<and> config_of fs a' r' h) \<longleftrightarrow>
      config_of fs a r h \<or> (\<exists>n a' r'. n < levels \<and> below fs a r (Suc n) a' r' \<and> config_of fs a' r' h)"
    by (auto simp: less_Suc_eq_0_disj below_0)
  show ?case
  proof (cases "fs_dir fs a")
    case None
    then show ?thesis unfolding d by (auto simp: below_Suc config_of_def)
  next
    case (Some ents)
    then have mem: "h \<in> set (all_hits fs (Suc levels) a r) \<longleftrightarrow> config_of fs a r h \<or>
        (\<exists>name. (name, True) \<in> set ents \<and> \<not> skipped_dir name \<and> h \<in> set (all_hits fs levels (child_abs a name) (child_rel r name)))"
      by (auto simp: find_config_iff split: if_splits)
    show ?thesis unfolding mem d Suc.IH below_Suc using Some by auto
  qed
qed simp

text \<open>
  The walk finds the configuration files of the repository. It returns at most the number of files that its array holds, each of
  them the configuration file of a directory of the repository within the limit on the depth, and when the array is not filled,
  all of them. A directory with both kinds of configuration file contributes \<open>tsconfig.json\<close>.
\<close>

lemma alias_walk_complete:
  "let hits = find_alias_files fs max_count (Suc max_depth) repo [] []
   in length hits \<le> max_count \<and>
      (\<forall>h \<in> set hits. \<exists>n a r. n \<le> max_depth \<and> below fs repo [] n a r \<and> config_of fs a r h) \<and>
      (length hits < max_count \<longrightarrow> (\<forall>n a r h. n \<le> max_depth \<longrightarrow> below fs repo [] n a r \<longrightarrow> config_of fs a r h \<longrightarrow> h \<in> set hits))"
proof -
  have hits: "find_alias_files fs max_count (Suc max_depth) repo [] [] = take max_count (all_hits fs (Suc max_depth) repo [])"
    by (simp add: find_alias_files_take del: find_alias_files.simps all_hits.simps)
  have "\<forall>h \<in> set (take max_count (all_hits fs (Suc max_depth) repo [])). \<exists>n a r. n \<le> max_depth \<and> below fs repo [] n a r \<and> config_of fs a r h"
    by (auto simp: all_hits_below less_Suc_eq_le simp del: all_hits.simps dest!: in_set_takeD)
  moreover have "h \<in> set (take max_count (all_hits fs (Suc max_depth) repo []))"
    if "length (take max_count (all_hits fs (Suc max_depth) repo [])) < max_count" "n \<le> max_depth" "below fs repo [] n a r" "config_of fs a r h" for n a r h
    using that all_hits_below [of h fs "Suc max_depth" repo "[]"] by (auto simp: less_Suc_eq_le simp del: all_hits.simps)
  ultimately show ?thesis unfolding hits Let_def by simp
qed

definition usable_config :: "file_system \<Rightarrow> cbm_path_alias_t sort_fn \<Rightarrow> string \<Rightarrow> string \<Rightarrow> string \<Rightarrow> cbm_path_alias_map_t \<Rightarrow> bool" where
  \<comment> \<open>a directory of the repository that contains a path, with the map of its configuration file\<close>
  "usable_config fs qsort repo rel dir m \<longleftrightarrow> (\<exists>n a r h. n \<le> CBM_PATH_ALIAS_MAX_DEPTH \<and> below fs repo [] n a r \<and> config_of fs a r h \<and>
     hit_rel h = dir \<and> load_tsconfig_file fs qsort (hit_abs h) dir = Some m \<and> covers dir rel)"

lemma usable_config_hits:
  assumes "length (find_alias_files fs CBM_PATH_ALIAS_MAX_FILES (CBM_PATH_ALIAS_MAX_DEPTH + 1) repo [] []) < CBM_PATH_ALIAS_MAX_FILES"
  shows "usable_config fs qsort repo rel dir m \<longleftrightarrow>
    (\<exists>h. usable_hit fs qsort (find_alias_files fs CBM_PATH_ALIAS_MAX_FILES (CBM_PATH_ALIAS_MAX_DEPTH + 1) repo [] []) rel h m \<and> hit_rel h = dir)"
  using assms alias_walk_complete [of fs CBM_PATH_ALIAS_MAX_FILES CBM_PATH_ALIAS_MAX_DEPTH repo]
  unfolding usable_config_def usable_hit_def Let_def Suc_eq_plus1 by blast

text \<open>
  C28. A file uses the configuration of its nearest directory. In a repository with fewer configuration files than the walk collects,
  the map found for a file is the one of a directory of the repository that contains the file and has a configuration file that can be
  read, and no such directory is deeper. No map is found exactly when there is no such directory. The directories of the repository are
  those within the limit on the depth that are not below a directory to skip, and of two configuration
  files in one directory \<open>tsconfig.json\<close> counts.
\<close>

theorem alias_scope_nearest:
  assumes q: "puts_in_order qsort_scopes" and l: "cbm_load_path_aliases fs qsort_entries qsort_scopes (Some repo) = Some coll"
    and n: "length (find_alias_files fs CBM_PATH_ALIAS_MAX_FILES (CBM_PATH_ALIAS_MAX_DEPTH + 1) repo [] []) < CBM_PATH_ALIAS_MAX_FILES"
  shows "case cbm_path_alias_find_for_file (Some coll) (Some rel) of
           None \<Rightarrow> \<not> (\<exists>dir m. usable_config fs qsort_entries repo rel dir m)
         | Some m \<Rightarrow> \<exists>dir. usable_config fs qsort_entries repo rel dir m \<and> (\<forall>dir' m'. usable_config fs qsort_entries repo rel dir' m' \<longrightarrow> length dir' \<le> length dir)"
proof -
  let ?hits = "find_alias_files fs CBM_PATH_ALIAS_MAX_FILES (CBM_PATH_ALIAS_MAX_DEPTH + 1) repo [] []"
  have c: "coll = qsort_scopes cmp_scope_by_specificity (load_hits fs qsort_entries ?hits)"
    using l by (simp add: cbm_load_path_aliases_def Let_def split: if_splits del: find_alias_files.simps)
  have f: "cbm_path_alias_find_for_file (Some coll) (Some rel) = scope_for coll rel" by (simp add: cbm_path_alias_find_for_file_def)
  show ?thesis
  proof (cases "scope_for coll rel")
    case None
    from scope_for_nearest(1) [OF q c None] show ?thesis unfolding f None option.case usable_config_hits [OF n] by blast
  next
    case (Some m)
    from scope_for_nearest(2) [OF q c Some] show ?thesis unfolding f Some option.case usable_config_hits [OF n] by blast
  qed
qed

section \<open>An example\<close>

primrec ins_sort :: "('a \<Rightarrow> 'a \<Rightarrow> int) \<Rightarrow> 'a \<Rightarrow> 'a list \<Rightarrow> 'a list" where
  "ins_sort cmp x [] = [x]"
| "ins_sort cmp x (y # ys) = (if cmp x y \<le> 0 then x # y # ys else y # ins_sort cmp x ys)"

definition insertion_sort :: "'a sort_fn" where
  "insertion_sort cmp xs = foldr (ins_sort cmp) xs []"

lemma mset_ins_sort: "mset (ins_sort cmp x ys) = add_mset x (mset ys)"
  by (induction ys) simp_all

lemma set_ins_sort: "set (ins_sort cmp x ys) = insert x (set ys)"
  by (metis mset_ins_sort set_mset_mset set_mset_add_mset_insert)

lemma consistent_linear:
  assumes "consistent cmp" "\<not> cmp a b \<le> 0"
  shows "cmp b a \<le> 0"
proof -
  have "sgn (cmp b a) = - sgn (cmp a b)" using assms(1) unfolding consistent_def by blast
  with assms(2) show ?thesis by (simp add: sgn_if split: if_splits)
qed

lemma ins_sort_sorted:
  assumes "consistent cmp"
  shows "sorted_wrt (\<lambda>a b. cmp a b \<le> 0) ys \<Longrightarrow> sorted_wrt (\<lambda>a b. cmp a b \<le> 0) (ins_sort cmp x ys)"
proof (induction ys)
  case (Cons y ys)
  have trans: "cmp x z \<le> 0" if "cmp x y \<le> 0" "cmp y z \<le> 0" for z using assms that unfolding consistent_def by blast
  from Cons show ?case using trans consistent_linear [OF assms, of x y] by (auto simp: set_ins_sort)
qed simp

lemma insertion_sort_puts_in_order: "puts_in_order insertion_sort"
proof -
  have "mset (insertion_sort cmp xs) = mset xs" for cmp and xs :: "'a list"
    by (induction xs) (simp_all add: insertion_sort_def mset_ins_sort)
  moreover have "sorted_wrt (\<lambda>a b. cmp a b \<le> 0) (insertion_sort cmp xs)" if "consistent cmp" for cmp and xs :: "'a list"
    using ins_sort_sorted [OF that] by (induction xs) (simp_all add: insertion_sort_def)
  ultimately show ?thesis by (simp add: puts_in_order_def)
qed

definition demo_fs :: file_system where
  "demo_fs = \<lparr>
     fs_file = [''/r/tsconfig.json'' \<mapsto> ''R'', ''/r/web/jsconfig.json'' \<mapsto> ''W''],
     fs_dir = [''/r'' \<mapsto> [(''a.ts'', False), (''node_modules'', True), (''web'', True)], ''/r/web'' \<mapsto> []],
     fs_json = [''R'' \<mapsto> JObject [(''compilerOptions'', JObject [(''baseUrl'', JString ''lib''),
         (''paths'', JObject [(''@/*'', JArray [JString ''./src/*'']), (''@/ui/*'', JArray [JString ''ui/*.tsx'']), (''x'', JOther)])])],
       ''W'' \<mapsto> JObject [(''compilerOptions'', JObject [(''paths'', JObject [(''~'', JArray [JString ''./index.ts''])])])]]\<rparr>"

lemma demo_aliases: "config_aliases demo_fs ''/r/tsconfig.json'' = [(''@/*'', ''./src/*''), (''@/ui/*'', ''ui/*.tsx'')]"
  by (simp add: config_aliases_def config_options_def demo_fs_def yyjson_obj_get_def declared_def CBM_PATH_ALIAS_MAX_FILE_BYTES_def CBM_PATH_ALIAS_MAX_ENTRIES_def)

lemma demo_load: "load_tsconfig_file demo_fs qsort ''/r/tsconfig.json'' dir \<noteq> None" "load_tsconfig_file demo_fs qsort ''/r/web/jsconfig.json'' dir \<noteq> None"
  by (simp_all add: load_tsconfig_file_def demo_fs_def yyjson_obj_get_def CBM_PATH_ALIAS_MAX_FILE_BYTES_def Let_def)

theorem alias_most_specific_witness:
  "\<exists>m. load_tsconfig_file demo_fs insertion_sort ''/r/tsconfig.json'' [] = Some m \<and> cbm_path_alias_resolve (Some m) (Some ''@/ui/b'') = Some ''ui/b''"
proof -
  obtain m where m: "load_tsconfig_file demo_fs insertion_sort ''/r/tsconfig.json'' [] = Some m" using demo_load by blast
  have "matches ''@/ui/*'' ''b'' ''@/ui/b''" by (simp add: matches_def)
  then have c: "\<exists>(pat, t) \<in> set (config_aliases demo_fs ''/r/tsconfig.json''). \<exists>w. matches pat w ''@/ui/b''" unfolding demo_aliases by auto
  from alias_most_specific [OF insertion_sort_puts_in_order m, of "''@/ui/b''"] \<open>matches ''@/ui/*'' ''b'' ''@/ui/b''\<close>
  obtain pat t w where "(pat, t) \<in> set [(''@/*'', ''./src/*''), (''@/ui/*'', ''ui/*.tsx'')]" "matches pat w ''@/ui/b''" "specificity ''@/ui/*'' \<le> specificity pat"
    "cbm_path_alias_resolve (Some m) (Some ''@/ui/b'') = Some (strip_resolved_ext (fill_target [] pat t w))"
    unfolding if_P [OF c] unfolding demo_aliases by auto
  with m show ?thesis
    by (auto simp: specificity_def matches_def fill_target_def resolve_target_relative_def strip_resolved_ext_def)
qed

lemma demo_hits:
  "find_alias_files demo_fs CBM_PATH_ALIAS_MAX_FILES (CBM_PATH_ALIAS_MAX_DEPTH + 1) ''/r'' [] [] =
     [\<lparr>hit_abs = ''/r/tsconfig.json'', hit_rel = []\<rparr>, \<lparr>hit_abs = ''/r/web/jsconfig.json'', hit_rel = ''web''\<rparr>]"
proof -
  have "find_alias_files demo_fs CBM_PATH_ALIAS_MAX_FILES (Suc (Suc n)) ''/r'' [] [] =
      [\<lparr>hit_abs = ''/r/tsconfig.json'', hit_rel = []\<rparr>, \<lparr>hit_abs = ''/r/web/jsconfig.json'', hit_rel = ''web''\<rparr>]" for n
    by (simp add: CBM_PATH_ALIAS_MAX_FILES_def demo_fs_def skipped_dir_def TS_CONFIG_NAMES_def Let_def snprintf_into_def CBM_SZ_512_def CBM_SZ_256_def)
  moreover have "CBM_PATH_ALIAS_MAX_DEPTH + 1 = Suc (Suc 31)" by (simp add: CBM_PATH_ALIAS_MAX_DEPTH_def)
  ultimately show ?thesis by metis
qed

lemma demo_usable:
  assumes "load_tsconfig_file demo_fs insertion_sort ''/r/web/jsconfig.json'' ''web'' = Some m2"
  shows "usable_config demo_fs insertion_sort ''/r'' ''web/app.ts'' ''web'' m2"
    and "usable_config demo_fs insertion_sort ''/r'' ''web/app.ts'' dir m \<Longrightarrow> 3 \<le> length dir \<Longrightarrow> m = m2"
proof -
  have n: "length (find_alias_files demo_fs CBM_PATH_ALIAS_MAX_FILES (CBM_PATH_ALIAS_MAX_DEPTH + 1) ''/r'' [] []) < CBM_PATH_ALIAS_MAX_FILES"
    unfolding demo_hits by (simp add: CBM_PATH_ALIAS_MAX_FILES_def)
  show "usable_config demo_fs insertion_sort ''/r'' ''web/app.ts'' ''web'' m2"
    using assms unfolding usable_config_hits [OF n] demo_hits
    by (intro exI [of _ "\<lparr>hit_abs = ''/r/web/jsconfig.json'', hit_rel = ''web''\<rparr>"]) (simp add: usable_hit_def covers_def)
  show "m = m2" if "usable_config demo_fs insertion_sort ''/r'' ''web/app.ts'' dir m" "3 \<le> length dir"
    using that assms unfolding usable_config_hits [OF n] demo_hits by (auto simp: usable_hit_def)
qed

theorem alias_scope_nearest_witness:
  "\<exists>coll m. cbm_load_path_aliases demo_fs insertion_sort insertion_sort (Some ''/r'') = Some coll \<and>
     cbm_path_alias_find_for_file (Some coll) (Some ''web/app.ts'') = Some m \<and>
     load_tsconfig_file demo_fs insertion_sort ''/r/web/jsconfig.json'' ''web'' = Some m"
proof -
  obtain m1 m2 where m: "load_tsconfig_file demo_fs insertion_sort ''/r/tsconfig.json'' [] = Some m1"
    "load_tsconfig_file demo_fs insertion_sort ''/r/web/jsconfig.json'' ''web'' = Some m2" using demo_load by blast
  then obtain coll where c: "cbm_load_path_aliases demo_fs insertion_sort insertion_sort (Some ''/r'') = Some coll"
    by (simp add: cbm_load_path_aliases_def demo_hits [folded Suc_eq_plus1] load_hits_def Let_def del: find_alias_files.simps)
  note u = demo_usable [OF m(2)]
  have n: "length (find_alias_files demo_fs CBM_PATH_ALIAS_MAX_FILES (CBM_PATH_ALIAS_MAX_DEPTH + 1) ''/r'' [] []) < CBM_PATH_ALIAS_MAX_FILES"
    unfolding demo_hits by (simp add: CBM_PATH_ALIAS_MAX_FILES_def)
  note near = alias_scope_nearest [OF insertion_sort_puts_in_order c n, of "''web/app.ts''"]
  obtain m' where f: "cbm_path_alias_find_for_file (Some coll) (Some ''web/app.ts'') = Some m'"
    using near u(1) by (cases "cbm_path_alias_find_for_file (Some coll) (Some ''web/app.ts'')") auto
  with near obtain dir where d: "usable_config demo_fs insertion_sort ''/r'' ''web/app.ts'' dir m'"
    "\<forall>dir' m'. usable_config demo_fs insertion_sort ''/r'' ''web/app.ts'' dir' m' \<longrightarrow> length dir' \<le> length dir" by auto
  from d(2) u(1) have "3 \<le> length dir" by fastforce
  with u(2) [OF d(1)] f c m show ?thesis by auto
qed

end
