(* ===== verification/Slab.thy ===== *)
theory Slab
  imports Prelude "HOL-Library.Monad_Syntax"
begin

text \<open>
  The slab allocator, \<open>foundation/slab_alloc.c\<close>. Memory is a function from addresses to bytes together with the blocks that the
  heap has handed out; the list of pages and the free list are linked through pointers in that memory, as in the
  source. An operation has the value \<open>None\<close> when it leaves the allocated memory, frees something that is not a block or does not
  return. The addresses that \<open>malloc\<close> and \<open>realloc\<close> return are arguments (\<open>None\<close> is a null pointer).
\<close>

section \<open>Memory\<close>

record slab_env =
  sl_mem :: "nat \<Rightarrow> u8"
  sl_blocks :: "(nat \<times> nat) list"  \<comment> \<open>address and size of the blocks of the heap\<close>
  sl_pages :: nat
  sl_freelist :: nat
  sl_installed :: bool

definition accessible :: "slab_env \<Rightarrow> nat \<Rightarrow> nat \<Rightarrow> bool" where
  "accessible st a n \<longleftrightarrow> (\<exists>(b, s) \<in> set (sl_blocks st). b \<le> a \<and> a + n \<le> b + s)"

definition ptr_at :: "(nat \<Rightarrow> u8) \<Rightarrow> nat \<Rightarrow> nat" where
  \<comment> \<open>the pointer that eight bytes of memory hold, low byte first\<close>
  "ptr_at m a = (\<Sum>i<8. unat (m (a + i)) * 256 ^ i)"

definition put_ptr :: "(nat \<Rightarrow> u8) \<Rightarrow> nat \<Rightarrow> nat \<Rightarrow> nat \<Rightarrow> u8" where
  "put_ptr m a p = (\<lambda>x. if a \<le> x \<and> x < a + 8 then word_of_nat (p div 256 ^ (x - a)) else m x)"

definition load_ptr :: "slab_env \<Rightarrow> nat \<Rightarrow> nat option" where
  "load_ptr st a = (if accessible st a 8 then Some (ptr_at (sl_mem st) a) else None)"

definition store_ptr :: "slab_env \<Rightarrow> nat \<Rightarrow> nat \<Rightarrow> slab_env option" where
  "store_ptr st a p = (if accessible st a 8 then Some (st\<lparr>sl_mem := put_ptr (sl_mem st) a p\<rparr>) else None)"

definition memset_zero :: "slab_env \<Rightarrow> nat \<Rightarrow> nat \<Rightarrow> slab_env option" where
  "memset_zero st a n = (if n = 0 \<or> accessible st a n then Some (st\<lparr>sl_mem := (\<lambda>x. if a \<le> x \<and> x < a + n then 0 else sl_mem st x)\<rparr>) else None)"

definition memcpy :: "slab_env \<Rightarrow> nat \<Rightarrow> nat \<Rightarrow> nat \<Rightarrow> slab_env option" where
  "memcpy st dst src n =
     (if accessible st dst n \<and> accessible st src n \<and> (dst + n \<le> src \<or> src + n \<le> dst)
      then Some (st\<lparr>sl_mem := (\<lambda>x. if dst \<le> x \<and> x < dst + n then sl_mem st (src + (x - dst)) else sl_mem st x)\<rparr>) else None)"

definition libc_malloc :: "nat option \<Rightarrow> nat \<Rightarrow> slab_env \<Rightarrow> nat \<times> slab_env" where
  "libc_malloc choice n st = (case choice of None \<Rightarrow> (0, st) | Some a \<Rightarrow> (a, st\<lparr>sl_blocks := (a, n) # sl_blocks st\<rparr>))"

definition libc_free :: "nat \<Rightarrow> slab_env \<Rightarrow> slab_env option" where
  "libc_free p st = (if p \<in> fst ` set (sl_blocks st) then Some (st\<lparr>sl_blocks := filter (\<lambda>(b, s). b \<noteq> p) (sl_blocks st)\<rparr>) else None)"

definition libc_realloc :: "nat option \<Rightarrow> nat \<Rightarrow> nat \<Rightarrow> slab_env \<Rightarrow> (nat \<times> slab_env) option" where
  "libc_realloc choice p n st =
     (case map_of (sl_blocks st) p of
        None \<Rightarrow> None
      | Some old \<Rightarrow>
          (case choice of
             None \<Rightarrow> Some (0, st)
           | Some a \<Rightarrow> Some (a, st\<lparr>sl_blocks := (a, n) # filter (\<lambda>(b, s). b \<noteq> p) (sl_blocks st),
                                  sl_mem := (\<lambda>x. if a \<le> x \<and> x < a + min old n then sl_mem st (p + (x - a)) else sl_mem st x)\<rparr>)))"

section \<open>The allocator\<close>

definition SLAB_CHUNK_SIZE :: nat where "SLAB_CHUNK_SIZE = 64"
definition SLAB_PAGE_CHUNKS :: nat where "SLAB_PAGE_CHUNKS = 1024"
definition SLAB_PAGE_SIZE :: nat where "SLAB_PAGE_SIZE = SLAB_CHUNK_SIZE * SLAB_PAGE_CHUNKS"

definition page_data :: "nat \<Rightarrow> nat" where
  \<comment> \<open>\<open>page->data\<close>, behind the pointer to the next page\<close>
  "page_data page = page + 8"

definition sizeof_slab_page_t :: nat where "sizeof_slab_page_t = 8 + SLAB_PAGE_SIZE"

fun thread_chunks :: "nat list \<Rightarrow> slab_env \<Rightarrow> slab_env option" where
  \<comment> \<open>the loop that puts the chunks of a page on the free list\<close>
  "thread_chunks [] st = Some st"
| "thread_chunks (node # nodes) st = do {
     st \<leftarrow> store_ptr st node (sl_freelist st);
     thread_chunks nodes (st\<lparr>sl_freelist := node\<rparr>) }"

definition page_chunks :: "nat \<Rightarrow> nat list" where
  "page_chunks page = map (\<lambda>i. page_data page + i * SLAB_CHUNK_SIZE) [0..<SLAB_PAGE_CHUNKS]"

partial_function (option) rebuild_pages :: "nat \<Rightarrow> slab_env \<Rightarrow> slab_env option" where
  "rebuild_pages p st =
     (if p = 0 then Some st
      else do { st \<leftarrow> thread_chunks (page_chunks p) st; next \<leftarrow> load_ptr st p; rebuild_pages next st })"

definition slab_rebuild_freelist :: "slab_env \<Rightarrow> slab_env option" where
  "slab_rebuild_freelist st = rebuild_pages (sl_pages st) (st\<lparr>sl_freelist := 0\<rparr>)"

definition slab_grow :: "nat option \<Rightarrow> slab_env \<Rightarrow> (bool \<times> slab_env) option" where
  "slab_grow choice st =
     (case libc_malloc choice sizeof_slab_page_t st of
        (page, st) \<Rightarrow>
          (if page = 0 then Some (False, st)
           else do {
             st \<leftarrow> store_ptr st page (sl_pages st);
             st \<leftarrow> thread_chunks (page_chunks page) (st\<lparr>sl_pages := page\<rparr>);
             Some (True, st) }))"

partial_function (option) owns_loop :: "nat \<Rightarrow> slab_env \<Rightarrow> nat \<Rightarrow> bool option" where
  "owns_loop page st p =
     (if page = 0 then Some False
      else if p \<ge> page_data page \<and> p < page_data page + SLAB_PAGE_SIZE then Some True
      else do { next \<leftarrow> load_ptr st page; owns_loop next st p })"

definition slab_owns :: "slab_env \<Rightarrow> nat \<Rightarrow> bool option" where
  "slab_owns st p = owns_loop (sl_pages st) st p"

definition slab_malloc :: "nat option \<Rightarrow> nat option \<Rightarrow> nat \<Rightarrow> slab_env \<Rightarrow> (nat \<times> slab_env) option" where
  \<comment> \<open>the first choice is for a new page, the second for a block of the heap\<close>
  "slab_malloc grow_choice heap_choice sz st =
     (let sz = (if sz = 0 then 1 else sz)
      in if sz \<le> SLAB_CHUNK_SIZE
         then do {
           (grown, st) \<leftarrow> (if sl_freelist st = 0 then slab_grow grow_choice st else Some (True, st));
           if \<not> grown then Some (libc_malloc heap_choice sz st)
           else do {
             next \<leftarrow> load_ptr st (sl_freelist st);
             Some (sl_freelist st, st\<lparr>sl_freelist := next\<rparr>) } }
         else Some (libc_malloc heap_choice sz st))"

definition SIZE_MAX :: nat where "SIZE_MAX = 2 ^ 64 - 1"

definition slab_calloc :: "nat option \<Rightarrow> nat option \<Rightarrow> nat \<Rightarrow> nat \<Rightarrow> slab_env \<Rightarrow> (nat \<times> slab_env) option" where
  "slab_calloc grow_choice heap_choice count sz st =
     (if count > 0 \<and> sz > SIZE_MAX div count then Some (0, st)
      else let total = count * sz mod 2 ^ 64
           in do {
             (p, st) \<leftarrow> slab_malloc grow_choice heap_choice total st;
             if p \<noteq> 0 then do { st \<leftarrow> memset_zero st p total; Some (p, st) } else Some (p, st) })"

definition push_free :: "nat \<Rightarrow> slab_env \<Rightarrow> slab_env option" where
  \<comment> \<open>puts a chunk back on the free list\<close>
  "push_free p st = do { st \<leftarrow> store_ptr st p (sl_freelist st); Some (st\<lparr>sl_freelist := p\<rparr>) }"

definition slab_free :: "nat \<Rightarrow> slab_env \<Rightarrow> slab_env option" where
  "slab_free p st =
     (if p = 0 then Some st
      else do { owned \<leftarrow> slab_owns st p; if owned then push_free p st else libc_free p st })"

definition slab_realloc :: "nat option \<Rightarrow> nat option \<Rightarrow> nat \<Rightarrow> nat \<Rightarrow> slab_env \<Rightarrow> (nat \<times> slab_env) option" where
  "slab_realloc grow_choice heap_choice p new_size st =
     (if p = 0 then slab_malloc grow_choice heap_choice new_size st
      else if new_size = 0
      then do {
        owned \<leftarrow> slab_owns st p;
        st \<leftarrow> (if owned then push_free p st else libc_free p st);
        Some (0, st) }
      else do {
        owned \<leftarrow> slab_owns st p;
        if owned
        then if new_size \<le> SLAB_CHUNK_SIZE then Some (p, st)
             else (case libc_malloc heap_choice new_size st of
                     (new_ptr, st) \<Rightarrow>
                       (if new_ptr = 0 then Some (0, st)
                        else do {
                          st \<leftarrow> memcpy st new_ptr p SLAB_CHUNK_SIZE;
                          st \<leftarrow> push_free p st;
                          Some (new_ptr, st) }))
        else libc_realloc heap_choice p new_size st })"

definition cbm_slab_reset_thread :: "slab_env \<Rightarrow> slab_env option" where
  "cbm_slab_reset_thread st = (if sl_pages st = 0 then Some st else slab_rebuild_freelist st)"

partial_function (option) free_pages :: "nat \<Rightarrow> slab_env \<Rightarrow> slab_env option" where
  "free_pages p st =
     (if p = 0 then Some st
      else do { next \<leftarrow> load_ptr st p; st \<leftarrow> libc_free p st; free_pages next st })"

definition cbm_slab_destroy_thread :: "slab_env \<Rightarrow> slab_env option" where
  "cbm_slab_destroy_thread st = do {
     st \<leftarrow> free_pages (sl_pages st) st;
     Some (st\<lparr>sl_pages := 0, sl_freelist := 0, sl_installed := False\<rparr>) }"

definition cbm_slab_reclaim :: "slab_env \<Rightarrow> slab_env option" where
  "cbm_slab_reclaim st = do {
     st \<leftarrow> free_pages (sl_pages st) st;
     Some (st\<lparr>sl_pages := 0, sl_freelist := 0\<rparr>) }"

section \<open>Clients\<close>

text \<open>
  A client calls the operations and writes into the blocks it holds. The list of blocks it holds, with the sizes it asked for, is
  kept beside the state of the program.
\<close>

datatype slab_op =
  Malloc "nat option" "nat option" nat
| Calloc "nat option" "nat option" nat nat
| Realloc "nat option" "nat option" nat nat
| Free nat
| Write nat u8
| Reset | Reclaim | Destroy

fun run_op :: "slab_op \<Rightarrow> slab_env \<Rightarrow> (nat \<times> slab_env) option" where
  "run_op (Malloc g h n) st = slab_malloc g h n st"
| "run_op (Calloc g h c n) st = slab_calloc g h c n st"
| "run_op (Realloc g h p n) st = slab_realloc g h p n st"
| "run_op (Free p) st = map_option (Pair 0) (slab_free p st)"
| "run_op (Write a v) st = Some (0, st\<lparr>sl_mem := (sl_mem st)(a := v)\<rparr>)"
| "run_op Reset st = map_option (Pair 0) (cbm_slab_reset_thread st)"
| "run_op Reclaim st = map_option (Pair 0) (cbm_slab_reclaim st)"
| "run_op Destroy st = map_option (Pair 0) (cbm_slab_destroy_thread st)"

definition separate :: "nat \<times> nat \<Rightarrow> nat \<times> nat \<Rightarrow> bool" where
  "separate x y \<longleftrightarrow> fst x + snd x \<le> fst y \<or> fst y + snd y \<le> fst x"

definition fresh_block :: "(nat \<times> nat) list \<Rightarrow> nat \<Rightarrow> nat option \<Rightarrow> bool" where
  \<comment> \<open>what the heap promises: an aligned block in memory that overlaps no other\<close>
  "fresh_block blocks n choice \<longleftrightarrow>
     (case choice of None \<Rightarrow> True | Some a \<Rightarrow> 0 < a \<and> a mod 16 = 0 \<and> a + n \<le> 2 ^ 64 \<and> (\<forall>b \<in> set blocks. separate (a, n) b))"

fun allowed :: "slab_op \<Rightarrow> slab_env \<Rightarrow> (nat \<times> nat) list \<Rightarrow> bool" where
  "allowed (Malloc g h n) st live \<longleftrightarrow> fresh_block (sl_blocks st) sizeof_slab_page_t g \<and> fresh_block (sl_blocks st) (max 1 n) h"
| "allowed (Calloc g h c n) st live \<longleftrightarrow> fresh_block (sl_blocks st) sizeof_slab_page_t g \<and> fresh_block (sl_blocks st) (max 1 (c * n)) h"
| "allowed (Realloc g h p n) st live \<longleftrightarrow> (p = 0 \<or> p \<in> fst ` set live) \<and> fresh_block (sl_blocks st) sizeof_slab_page_t g \<and>
     fresh_block (filter (\<lambda>(b, s). b \<noteq> p) (sl_blocks st)) (max 1 n) h"
| "allowed (Free p) st live \<longleftrightarrow> p = 0 \<or> p \<in> fst ` set live"
| "allowed (Write a v) st live \<longleftrightarrow> (\<exists>(p, n) \<in> set live. p \<le> a \<and> a < p + n)"
| "allowed Reset st live \<longleftrightarrow> live = []"
| "allowed Reclaim st live \<longleftrightarrow> live = []"
| "allowed Destroy st live \<longleftrightarrow> live = []"

definition hand_out :: "nat \<Rightarrow> nat \<Rightarrow> (nat \<times> nat) list \<Rightarrow> (nat \<times> nat) list" where
  "hand_out p n live = (if p = 0 then live else (p, n) # live)"

definition give_back :: "nat \<Rightarrow> (nat \<times> nat) list \<Rightarrow> (nat \<times> nat) list" where
  "give_back p live = filter (\<lambda>(q, n). q \<noteq> p) live"

fun live_after :: "slab_op \<Rightarrow> nat \<Rightarrow> (nat \<times> nat) list \<Rightarrow> (nat \<times> nat) list" where
  \<comment> \<open>the blocks that the client holds, after an operation with a result\<close>
  "live_after (Malloc g h n) r live = hand_out r n live"
| "live_after (Calloc g h c n) r live = hand_out r (c * n) live"
| "live_after (Realloc g h p n) r live = (if r = 0 \<and> n \<noteq> 0 then live else hand_out r n (give_back p live))"
| "live_after (Free p) r live = give_back p live"
| "live_after _ r live = live"

inductive slab_reach :: "slab_env \<Rightarrow> (nat \<times> nat) list \<Rightarrow> bool" where
  start: "(\<forall>(b, s) \<in> set blocks. 0 < b \<and> 0 < s \<and> b mod 16 = 0 \<and> b + s \<le> 2 ^ 64) \<Longrightarrow> sorted_wrt separate blocks \<Longrightarrow>
    slab_reach \<lparr>sl_mem = m, sl_blocks = blocks, sl_pages = 0, sl_freelist = 0, sl_installed = False\<rparr> []"
| step: "slab_reach st live \<Longrightarrow> allowed op st live \<Longrightarrow> run_op op st = Some (r, st') \<Longrightarrow> slab_reach st' (live_after op r live)"

end
