(* ===== verification/SlabProof.thy ===== *)
theory SlabProof
  imports Slab
begin

text \<open>
  Correctness of the slab allocator: whatever a client does within the rules, no operation leaves the allocated memory or
  runs forever, the blocks it holds do not overlap, and their contents stay as they are.
\<close>

section \<open>Pointers in memory\<close>

lemma digits_sum: "(\<Sum>i<n. (p div b ^ i mod b) * b ^ i) = p mod b ^ n" for p b :: nat
proof (induction n)
  case (Suc n)
  have "p mod b ^ Suc n = b ^ n * (p div b ^ n mod b) + p mod b ^ n" unfolding power_Suc2 by (rule mod_mult2_eq)
  with Suc show ?case by simp
qed simp

lemma ptr_at_put: "p < 2 ^ 64 \<Longrightarrow> ptr_at (put_ptr m a p) a = p"
  using digits_sum [of p 256 8] by (simp add: ptr_at_def put_ptr_def unat_of_nat)

definition agree :: "(nat \<Rightarrow> u8) \<Rightarrow> (nat \<Rightarrow> u8) \<Rightarrow> nat \<times> nat \<Rightarrow> bool" where
  "agree m m' r \<longleftrightarrow> (\<forall>x. fst r \<le> x \<longrightarrow> x < fst r + snd r \<longrightarrow> m' x = m x)"

lemma agree_refl [simp]: "agree m m r"
  by (simp add: agree_def)

lemma agree_trans: "agree m m1 r \<Longrightarrow> agree m1 m2 r \<Longrightarrow> agree m m2 r"
  by (simp add: agree_def)

lemma agree_mono: "agree m m' (a, n) \<Longrightarrow> k \<le> n \<Longrightarrow> agree m m' (a, k)"
  by (auto simp: agree_def)

lemma separate_sym: "separate x y \<longleftrightarrow> separate y x"
  by (auto simp: separate_def)

lemma separate_mono: "separate (a, s) (b, t) \<Longrightarrow> n \<le> s \<Longrightarrow> k \<le> t \<Longrightarrow> separate (a, n) (b, k)"
  by (auto simp: separate_def)

lemma agree_put_ptr: "separate r (a, 8) \<Longrightarrow> agree m (put_ptr m a p) r"
  by (auto simp: agree_def put_ptr_def separate_def)

lemma ptr_at_agree: "agree m m' (a, 8) \<Longrightarrow> ptr_at m' a = ptr_at m a"
  by (simp add: agree_def ptr_at_def)

primrec chain :: "(nat \<Rightarrow> u8) \<Rightarrow> nat \<Rightarrow> nat list \<Rightarrow> bool" where
  \<comment> \<open>a linked list in memory\<close>
  "chain m a [] \<longleftrightarrow> a = 0"
| "chain m a (x # xs) \<longleftrightarrow> a = x \<and> x \<noteq> 0 \<and> chain m (ptr_at m x) xs"

lemma chain_0 [simp]: "chain m 0 xs \<longleftrightarrow> xs = []"
  by (cases xs) auto

lemma chain_agree: "chain m a xs \<Longrightarrow> (\<And>x. x \<in> set xs \<Longrightarrow> agree m m' (x, 8)) \<Longrightarrow> chain m' a xs"
proof (induction xs arbitrary: a)
  case (Cons x xs)
  then show ?case using ptr_at_agree [of m m' x] by auto
qed simp

lemma accessible_upd [simp]: "accessible (st\<lparr>sl_mem := m\<rparr>) a n = accessible st a n" "accessible (st\<lparr>sl_freelist := f\<rparr>) a n = accessible st a n"
  "accessible (st\<lparr>sl_pages := f\<rparr>) a n = accessible st a n"
  by (simp_all add: accessible_def)

lemma thread_chunks_spec:
  assumes "chain (sl_mem st) (sl_freelist st) fs" "sl_freelist st < 2 ^ 64"
    "\<forall>x \<in> set nodes. 0 < x \<and> x < 2 ^ 64 \<and> accessible st x 8"
    "sorted_wrt (\<lambda>x y. separate (x, 64) (y, 64)) nodes" "\<forall>x \<in> set nodes. \<forall>y \<in> set fs. separate (x, 64) (y, 64)"
  shows "\<exists>m' f. thread_chunks nodes st = Some (st\<lparr>sl_mem := m', sl_freelist := f\<rparr>) \<and> chain m' f (rev nodes @ fs) \<and>
           (\<forall>r. (\<forall>x \<in> set nodes. separate r (x, 64)) \<longrightarrow> agree (sl_mem st) m' r)"
  using assms
proof (induction nodes arbitrary: st fs)
  case Nil
  then show ?case by (intro exI [of _ "sl_mem st"] exI [of _ "sl_freelist st"]) simp
next
  case (Cons x nodes)
  let ?m = "put_ptr (sl_mem st) x (sl_freelist st)"
  let ?st = "st\<lparr>sl_mem := ?m, sl_freelist := x\<rparr>"
  have 8: "separate r (x, 8)" if "separate r (x, 64)" for r using that by (cases r) (auto intro: separate_mono)
  have "chain ?m (sl_freelist st) fs"
  proof (rule chain_agree [OF Cons.prems(1)])
    fix y assume "y \<in> set fs"
    then have "separate (y, 64) (x, 64)" using Cons.prems(5) by (auto simp: separate_def)
    then show "agree (sl_mem st) ?m (y, 8)" using separate_mono [of y 64 x 64 8 8] by (simp add: agree_put_ptr)
  qed
  then have c: "chain (sl_mem ?st) (sl_freelist ?st) (x # fs)" using Cons.prems(2,3) by (simp add: ptr_at_put)
  have ih: "\<exists>m' f. thread_chunks nodes ?st = Some (?st\<lparr>sl_mem := m', sl_freelist := f\<rparr>) \<and> chain m' f (rev nodes @ x # fs) \<and>
       (\<forall>r. (\<forall>x \<in> set nodes. separate r (x, 64)) \<longrightarrow> agree (sl_mem ?st) m' r)"
    using Cons.prems by (intro Cons.IH [OF c]) (auto simp: separate_sym)
  then obtain m' f where m': "thread_chunks nodes ?st = Some (?st\<lparr>sl_mem := m', sl_freelist := f\<rparr>)" "chain m' f (rev nodes @ x # fs)"
    "\<And>r. \<forall>x \<in> set nodes. separate r (x, 64) \<Longrightarrow> agree ?m m' r" by auto
  have "agree (sl_mem st) m' r" if "\<forall>x \<in> set (x # nodes). separate r (x, 64)" for r
    using agree_trans [OF agree_put_ptr m'(3)] that 8 by auto
  with m' Cons.prems(3) show ?case by (intro exI [of _ m'] exI [of _ f]) (simp add: store_ptr_def)
qed

section \<open>The invariant\<close>

definition blocks_ok :: "(nat \<times> nat) list \<Rightarrow> bool" where
  "blocks_ok blocks \<longleftrightarrow> (\<forall>(b, s) \<in> set blocks. 0 < b \<and> 0 < s \<and> b mod 16 = 0 \<and> b + s \<le> 2 ^ 64) \<and> sorted_wrt separate blocks"

definition chunks_of :: "nat list \<Rightarrow> nat set" where
  "chunks_of ps = (\<Union>p \<in> set ps. set (page_chunks p))"

definition slab_inv :: "slab_env \<Rightarrow> nat list \<Rightarrow> nat list \<Rightarrow> (nat \<times> nat) list \<Rightarrow> bool" where
  \<comment> \<open>the pages, the chunks on the free list and the blocks of the client\<close>
  "slab_inv st ps fs live \<longleftrightarrow> blocks_ok (sl_blocks st) \<and>
     chain (sl_mem st) (sl_pages st) ps \<and> chain (sl_mem st) (sl_freelist st) fs \<and> distinct ps \<and> distinct fs \<and>
     (\<forall>p \<in> set ps. (p, sizeof_slab_page_t) \<in> set (sl_blocks st)) \<and> set fs \<subseteq> chunks_of ps \<and> distinct (map fst live) \<and>
     (\<forall>(a, n) \<in> set live. a \<notin> set fs \<and> (a \<in> chunks_of ps \<and> n \<le> 64 \<or> a \<notin> set ps \<and> (\<exists>s. (a, s) \<in> set (sl_blocks st) \<and> n \<le> s)))"

lemma sizes: "sizeof_slab_page_t = 65544" "SLAB_CHUNK_SIZE = 64" "SLAB_PAGE_SIZE = 65536"
  by (simp_all add: sizeof_slab_page_t_def SLAB_PAGE_SIZE_def SLAB_CHUNK_SIZE_def SLAB_PAGE_CHUNKS_def)

lemma mem_page_chunks: "a \<in> set (page_chunks p) \<longleftrightarrow> (\<exists>i < 1024. a = p + 8 + i * 64)"
  by (auto simp: page_chunks_def page_data_def SLAB_CHUNK_SIZE_def SLAB_PAGE_CHUNKS_def)

definition regions :: "(nat \<times> nat) list \<Rightarrow> nat list \<Rightarrow> (nat \<times> nat) set" where
  \<comment> \<open>the headers and chunks of the pages, and the other blocks\<close>
  "regions blocks ps = (\<lambda>p. (p, 8)) ` set ps \<union> (\<lambda>a. (a, 64)) ` chunks_of ps \<union> {(b, s) \<in> set blocks. b \<notin> set ps}"

lemma blocks_apart: "blocks_ok blocks \<Longrightarrow> x \<in> set blocks \<Longrightarrow> y \<in> set blocks \<Longrightarrow> x \<noteq> y \<Longrightarrow> separate x y"
proof -
  have "sorted_wrt separate xs \<Longrightarrow> x \<in> set xs \<Longrightarrow> y \<in> set xs \<Longrightarrow> x \<noteq> y \<Longrightarrow> separate x y" for xs
    by (induction xs) (auto simp: separate_sym)
  then show "blocks_ok blocks \<Longrightarrow> x \<in> set blocks \<Longrightarrow> y \<in> set blocks \<Longrightarrow> x \<noteq> y \<Longrightarrow> separate x y" unfolding blocks_ok_def by blast
qed

lemma block_bounds: "blocks_ok blocks \<Longrightarrow> (b, s) \<in> set blocks \<Longrightarrow> 0 < b \<and> 0 < s \<and> b mod 16 = 0 \<and> b + s \<le> 2 ^ 64"
  by (auto simp: blocks_ok_def)

lemma block_unique: "blocks_ok blocks \<Longrightarrow> (b, s) \<in> set blocks \<Longrightarrow> (b, t) \<in> set blocks \<Longrightarrow> s = t"
  using blocks_apart [of blocks "(b, s)" "(b, t)"] block_bounds [of blocks b] by (force simp: separate_def)

lemma region_in_block:
  assumes "(a, n) \<in> regions blocks ps" "\<forall>p \<in> set ps. (p, sizeof_slab_page_t) \<in> set blocks"
  obtains b s where "(b, s) \<in> set blocks" "b \<le> a" "a + n \<le> b + s" "b \<notin> set ps \<longrightarrow> (b, s) = (a, n)"
    "b \<in> set ps \<longrightarrow> s = 65544 \<and> ((a, n) = (b, 8) \<or> (\<exists>i < 1024. (a, n) = (b + 8 + i * 64, 64)))"
  using assms by (fastforce simp: regions_def chunks_of_def mem_page_chunks sizes)

lemma regions_apart:
  assumes b: "blocks_ok blocks" and p: "\<forall>p \<in> set ps. (p, sizeof_slab_page_t) \<in> set blocks"
    and "x \<in> regions blocks ps" "y \<in> regions blocks ps" "x \<noteq> y"
  shows "separate x y"
proof -
  obtain a n a' n' where xy: "x = (a, n)" "y = (a', n')" by (metis prod.exhaust)
  obtain c s where x: "(c, s) \<in> set blocks" "c \<le> a" "a + n \<le> c + s" "c \<notin> set ps \<longrightarrow> (c, s) = (a, n)"
    "c \<in> set ps \<longrightarrow> s = 65544 \<and> ((a, n) = (c, 8) \<or> (\<exists>i < 1024. (a, n) = (c + 8 + i * 64, 64)))"
    by (rule region_in_block [OF assms(3) [unfolded xy(1)] p])
  obtain d t where y: "(d, t) \<in> set blocks" "d \<le> a'" "a' + n' \<le> d + t" "d \<notin> set ps \<longrightarrow> (d, t) = (a', n')"
    "d \<in> set ps \<longrightarrow> t = 65544 \<and> ((a', n') = (d, 8) \<or> (\<exists>i < 1024. (a', n') = (d + 8 + i * 64, 64)))"
    by (rule region_in_block [OF assms(4) [unfolded xy(2)] p])
  show ?thesis
  proof (cases "(c, s) = (d, t)")
    case False
    then show ?thesis using blocks_apart [OF b x(1) y(1)] x(2,3) y(2,3) by (auto simp: xy separate_def)
  next
    case True
    then have "c \<in> set ps" using x(4) y(4) assms(5) xy by auto
    with True x(5) y(5) assms(5) show ?thesis by (auto simp: xy separate_def)
  qed
qed

lemma chunk_region: "a \<in> chunks_of ps \<Longrightarrow> (a, 64) \<in> regions blocks ps"
  and header_region: "p \<in> set ps \<Longrightarrow> (p, 8) \<in> regions blocks ps"
  and block_region: "(b, s) \<in> set blocks \<Longrightarrow> b \<notin> set ps \<Longrightarrow> (b, s) \<in> regions blocks ps"
  by (auto simp: regions_def)

lemma inv_parts:
  assumes "slab_inv st ps fs live"
  shows inv_blocks: "blocks_ok (sl_blocks st)" and inv_pages: "\<forall>p \<in> set ps. (p, sizeof_slab_page_t) \<in> set (sl_blocks st)"
    and inv_free: "set fs \<subseteq> chunks_of ps" and inv_chains: "chain (sl_mem st) (sl_pages st) ps" "chain (sl_mem st) (sl_freelist st) fs"
    and inv_distinct: "distinct ps" "distinct fs" "distinct (map fst live)"
    and inv_live: "\<And>a n. (a, n) \<in> set live \<Longrightarrow> a \<notin> set fs \<and> (a \<in> chunks_of ps \<and> n \<le> 64 \<or> a \<notin> set ps \<and> (\<exists>s. (a, s) \<in> set (sl_blocks st) \<and> n \<le> s))"
  using assms by (auto simp: slab_inv_def)

lemma inv_regions_apart:
  "slab_inv st ps fs live \<Longrightarrow> x \<in> regions (sl_blocks st) ps \<Longrightarrow> y \<in> regions (sl_blocks st) ps \<Longrightarrow> x \<noteq> y \<Longrightarrow> separate x y"
  using regions_apart inv_blocks inv_pages by metis

lemma region_accessible:
  assumes "slab_inv st ps fs live" "(a, n) \<in> regions (sl_blocks st) ps"
  shows "accessible st a n" "0 < a" "0 < n" "a + n \<le> 2 ^ 64"
proof -
  obtain b s where b: "(b, s) \<in> set (sl_blocks st)" "b \<le> a" "a + n \<le> b + s" "b \<notin> set ps \<longrightarrow> (b, s) = (a, n)"
    "b \<in> set ps \<longrightarrow> s = 65544 \<and> ((a, n) = (b, 8) \<or> (\<exists>i < 1024. (a, n) = (b + 8 + i * 64, 64)))"
    by (rule region_in_block [OF assms(2) inv_pages [OF assms(1)]])
  show "accessible st a n" using b(1-3) by (auto simp: accessible_def)
  note bb = block_bounds [OF inv_blocks [OF assms(1)] b(1)]
  show "0 < a" "a + n \<le> 2 ^ 64" using bb b(2,3) by linarith+
  show "0 < n" using bb b(4,5) by (cases "b \<in> set ps") auto
qed

lemma live_region:
  assumes "slab_inv st ps fs live" "(a, n) \<in> set live"
  obtains s where "(a, s) \<in> regions (sl_blocks st) ps" "n \<le> s" "a \<notin> set ps" "a \<notin> set fs"
proof -
  have "a \<notin> set ps" if c: "a \<in> chunks_of ps"
  proof
    assume "a \<in> set ps"
    then have "separate (a, 64) (a, 8)" using inv_regions_apart [OF assms(1) chunk_region [OF c] header_region] by simp
    then show False by (simp add: separate_def)
  qed
  with inv_live [OF assms] show ?thesis using that chunk_region block_region by metis
qed

lemma live_apart:
  assumes i: "slab_inv st ps fs live" and x: "(a, n) \<in> set live" "(b, k) \<in> set live" "a \<noteq> b"
  shows "separate (a, n) (b, k)"
proof -
  obtain s where s: "(a, s) \<in> regions (sl_blocks st) ps" "n \<le> s" by (rule live_region [OF i x(1)])
  obtain t where t: "(b, t) \<in> regions (sl_blocks st) ps" "k \<le> t" by (rule live_region [OF i x(2)])
  show ?thesis using inv_regions_apart [OF i s(1) t(1)] x(3) separate_mono s(2) t(2) by blast
qed

lemma live_free_apart:
  assumes i: "slab_inv st ps fs live" and x: "(a, n) \<in> set live" "c \<in> chunks_of ps" "c \<noteq> a"
  shows "separate (a, n) (c, 64)"
proof -
  obtain s where s: "(a, s) \<in> regions (sl_blocks st) ps" "n \<le> s" by (rule live_region [OF i x(1)])
  show ?thesis using inv_regions_apart [OF i s(1) chunk_region [OF x(2)]] x(3) separate_mono s(2) by blast
qed

text \<open>
  Changes to memory that leave the headers of the pages and the chunks on the free list alone keep the invariant.
\<close>

lemma inv_mem:
  assumes i: "slab_inv st ps fs live"
    and h: "\<And>p. p \<in> set ps \<Longrightarrow> agree (sl_mem st) m' (p, 8)" "\<And>f. f \<in> set fs \<Longrightarrow> agree (sl_mem st) m' (f, 8)"
  shows "slab_inv (st\<lparr>sl_mem := m'\<rparr>) ps fs live"
  using i chain_agree [OF inv_chains(1) [OF i] h(1)] chain_agree [OF inv_chains(2) [OF i] h(2)] by (auto simp: slab_inv_def)

lemma inv_mem_live:
  assumes i: "slab_inv st ps fs live" and l: "(a, n) \<in> set live" and m: "\<And>x. m' x \<noteq> sl_mem st x \<Longrightarrow> a \<le> x \<and> x < a + n"
  shows "slab_inv (st\<lparr>sl_mem := m'\<rparr>) ps fs live" "(b, k) \<in> set live \<Longrightarrow> b \<noteq> a \<Longrightarrow> agree (sl_mem st) m' (b, k)"
proof -
  have agr: "agree (sl_mem st) m' r" if "separate (a, n) r" for r
    using that m by (force simp: agree_def separate_def)
  obtain s where s: "(a, s) \<in> regions (sl_blocks st) ps" "n \<le> s" "a \<notin> set ps" "a \<notin> set fs" by (rule live_region [OF i l])
  have "agree (sl_mem st) m' (p, 8)" if "p \<in> set ps" for p
  proof -
    have "(a, s) \<noteq> (p, 8)" using s(3) that by auto
    from separate_mono [OF inv_regions_apart [OF i s(1) header_region [OF that] this] s(2) order_refl] show ?thesis by (rule agr)
  qed
  moreover have "agree (sl_mem st) m' (f, 8)" if f: "f \<in> set fs" for f
  proof -
    have "f \<in> chunks_of ps" using f inv_free [OF i] by blast
    moreover have "(a, s) \<noteq> (f, 64)" using s(4) f by auto
    ultimately have "separate (a, s) (f, 64)" using inv_regions_apart [OF i s(1) chunk_region] by blast
    from separate_mono [OF this s(2), of 8] show ?thesis by (intro agr) simp
  qed
  ultimately show "slab_inv (st\<lparr>sl_mem := m'\<rparr>) ps fs live" by (rule inv_mem [OF i])
  show "agree (sl_mem st) m' (b, k)" if "(b, k) \<in> set live" "b \<noteq> a"
    using live_apart [OF i l that(1)] that(2) by (intro agr) auto
qed

lemma inv_subset: "slab_inv st ps fs live \<Longrightarrow> set live' \<subseteq> set live \<Longrightarrow> distinct (map fst live') \<Longrightarrow> slab_inv st ps fs live'"
  unfolding slab_inv_def by blast

lemma inv_give_back: "slab_inv st ps fs live \<Longrightarrow> slab_inv st ps fs (give_back p live)"
  by (rule inv_subset) (auto simp: give_back_def intro: distinct_map_filter dest: inv_distinct(3))

section \<open>The steps of the operations\<close>

lemma owns_loop_chain:
  "chain (sl_mem st) page ps \<Longrightarrow> (\<And>p. p \<in> set ps \<Longrightarrow> accessible st p 8) \<Longrightarrow> owns_loop page st a = Some (\<exists>p \<in> set ps. p + 8 \<le> a \<and> a < p + 8 + 65536)"
proof (induction ps arbitrary: page)
  case (Cons p ps)
  then show ?case by (subst owns_loop.simps) (auto simp: load_ptr_def page_data_def sizes)
qed (simp add: owns_loop.simps)

lemma slab_owns_spec: "slab_inv st ps fs live \<Longrightarrow> slab_owns st a = Some (\<exists>p \<in> set ps. p + 8 \<le> a \<and> a < p + 8 + 65536)"
  unfolding slab_owns_def by (rule owns_loop_chain) (auto intro: inv_chains region_accessible(1) header_region)

lemma owns_live:
  assumes i: "slab_inv st ps fs live" and l: "(a, n) \<in> set live"
  shows "a \<in> chunks_of ps \<and> n \<le> 64 \<and> slab_owns st a = Some True \<or>
    (\<exists>s. (a, s) \<in> set (sl_blocks st) \<and> n \<le> s \<and> a \<notin> set ps \<and> a \<notin> chunks_of ps) \<and> slab_owns st a = Some False"
proof (cases "a \<in> chunks_of ps")
  case True
  have "n \<le> 64"
  proof -
    obtain s where s: "(a, s) \<in> regions (sl_blocks st) ps" "n \<le> s" by (rule live_region [OF i l])
    have "separate (a, s) (a, 64)" if "s \<noteq> 64" using inv_regions_apart [OF i s(1) chunk_region [OF True]] that by blast
    then show ?thesis using s(2) region_accessible(3) [OF i s(1)] by (cases "s = 64") (auto simp: separate_def)
  qed
  moreover obtain p k where "p \<in> set ps" "k < 1024" "a = p + 8 + k * 64" using True by (auto simp: chunks_of_def mem_page_chunks)
  then have "\<exists>p \<in> set ps. p + 8 \<le> a \<and> a < p + 8 + 65536" by (intro bexI [of _ p]) auto
  ultimately show ?thesis using True by (simp add: slab_owns_spec [OF i])
next
  case False
  then obtain s where s: "(a, s) \<in> set (sl_blocks st)" "n \<le> s" "a \<notin> set ps" using inv_live [OF i l] by blast
  have "\<not> (p + 8 \<le> a \<and> a < p + 8 + 65536)" if p: "p \<in> set ps" for p
  proof -
    have "(p, 65544) \<in> set (sl_blocks st)" using inv_pages [OF i] p by (simp add: sizes)
    moreover from s(3) p have "(a, s) \<noteq> (p, 65544)" by auto
    ultimately have "separate (a, s) (p, 65544)" using blocks_apart [OF inv_blocks [OF i] s(1)] by blast
    then show ?thesis using block_bounds [OF inv_blocks [OF i] s(1)] by (auto simp: separate_def)
  qed
  with s False show ?thesis by (auto simp: slab_owns_spec [OF i])
qed

lemma freelist_bound:
  assumes "slab_inv st ps fs live"
  shows "sl_freelist st < 2 ^ 64"
proof (cases fs)
  case (Cons f fs')
  then have "f \<in> chunks_of ps" using inv_free [OF assms] by auto
  from region_accessible(3,4) [OF assms chunk_region [OF this]] show ?thesis using inv_chains(2) [OF assms] Cons by simp
qed (use inv_chains(2) [OF assms] in simp)

lemma pages_bound:
  assumes "slab_inv st ps fs live"
  shows "sl_pages st < 2 ^ 64"
proof (cases ps)
  case (Cons p ps')
  then have "(p, 8) \<in> regions (sl_blocks st) ps" by (intro header_region) simp
  from region_accessible(3,4) [OF assms this] show ?thesis using inv_chains(1) [OF assms] Cons by simp
qed (use inv_chains(1) [OF assms] in simp)

lemma inv_pop:
  assumes i: "slab_inv st ps (f # fs) live" and n: "n \<le> 64"
  shows "slab_inv (st\<lparr>sl_freelist := ptr_at (sl_mem st) f\<rparr>) ps fs ((f, n) # live)"
  using i n unfolding slab_inv_def by (auto simp: image_iff)

lemma inv_push:
  assumes i: "slab_inv st ps fs live" and c: "c \<in> chunks_of ps" "c \<notin> set fs" "c \<notin> fst ` set live"
  shows "\<exists>m'. push_free c st = Some (st\<lparr>sl_mem := m', sl_freelist := c\<rparr>) \<and> slab_inv (st\<lparr>sl_mem := m', sl_freelist := c\<rparr>) ps (c # fs) live \<and>
    (\<forall>(a, n) \<in> set live. agree (sl_mem st) m' (a, n))"
proof -
  let ?m = "put_ptr (sl_mem st) c (sl_freelist st)"
  note r = region_accessible [OF i chunk_region [OF c(1)]]
  have acc: "accessible st c 8" using r(1) by (force simp: accessible_def)
  have agr: "agree (sl_mem st) ?m (a, n)" if "separate (a, n) (c, 64)" for a n
    using separate_mono [OF that, of n 8] by (intro agree_put_ptr) simp
  have hd: "agree (sl_mem st) ?m (p, 8)" if "p \<in> set ps" for p
    using inv_regions_apart [OF i header_region [OF that] chunk_region [OF c(1)]] by (intro agr) simp
  have fr: "agree (sl_mem st) ?m (f, 8)" if f: "f \<in> set fs" for f
  proof -
    have "f \<in> chunks_of ps" "(f, 64) \<noteq> (c, 64)" using f c(2) inv_free [OF i] by auto
    then have "separate (f, 64) (c, 64)" using inv_regions_apart [OF i chunk_region chunk_region [OF c(1)]] by blast
    then show ?thesis using separate_mono [of f 64 c 64 8 64] by (intro agr) simp
  qed
  have "slab_inv (st\<lparr>sl_mem := ?m\<rparr>) ps fs live" by (rule inv_mem [OF i hd fr])
  then have "slab_inv (st\<lparr>sl_mem := ?m, sl_freelist := c\<rparr>) ps (c # fs) live"
    using c r(2) freelist_bound [OF i] by (force simp: slab_inv_def ptr_at_put)
  moreover have "agree (sl_mem st) ?m (a, n)" if "(a, n) \<in> set live" for a n
    using live_free_apart [OF i that c(1)] c(3) that by (intro agr) force
  ultimately show ?thesis using acc by (auto simp: push_free_def store_ptr_def)
qed

lemma fresh_not_region:
  assumes i: "slab_inv st ps fs live" and f: "fresh_block (sl_blocks st) k (Some a)" "0 < k" and r: "(x, s) \<in> regions (sl_blocks st) ps"
  shows "x \<noteq> a"
proof -
  obtain b t where b: "(b, t) \<in> set (sl_blocks st)" "b \<le> x" "x + s \<le> b + t" by (rule region_in_block [OF r inv_pages [OF i]])
  have "separate (a, k) (b, t)" using f(1) b(1) by (auto simp: fresh_block_def)
  then show ?thesis using b(2,3) f(2) region_accessible(3) [OF i r] by (auto simp: separate_def)
qed

lemma inv_heap_malloc:
  assumes i: "slab_inv st ps fs live" and f: "fresh_block (sl_blocks st) k (Some a)" and n: "n \<le> k" "0 < k"
  shows "slab_inv (st\<lparr>sl_blocks := (a, k) # sl_blocks st\<rparr>) ps fs ((a, n) # live)"
proof -
  note new = fresh_not_region [OF i f n(2)]
  have ps: "a \<notin> set ps" using new header_region by blast
  have fs: "a \<notin> set fs" using new chunk_region inv_free [OF i] by blast
  have "a \<notin> fst ` set live"
  proof
    assume "a \<in> fst ` set live"
    then obtain n' where "(a, n') \<in> set live" by auto
    then obtain s where "(a, s) \<in> regions (sl_blocks st) ps" by (rule live_region [OF i])
    from new [OF this] show False by simp
  qed
  moreover have "blocks_ok ((a, k) # sl_blocks st)" using f n(2) inv_blocks [OF i] by (auto simp: fresh_block_def blocks_ok_def)
  ultimately show ?thesis using i n ps fs unfolding slab_inv_def by auto
qed

lemma inv_heap_free:
  assumes i: "slab_inv st ps fs live" and a: "(a, s) \<in> set (sl_blocks st)" "a \<notin> set ps" "a \<notin> fst ` set live"
  shows "libc_free a st = Some (st\<lparr>sl_blocks := filter (\<lambda>(b, s). b \<noteq> a) (sl_blocks st)\<rparr>)"
    "slab_inv (st\<lparr>sl_blocks := filter (\<lambda>(b, s). b \<noteq> a) (sl_blocks st)\<rparr>) ps fs live"
proof -
  show "libc_free a st = Some (st\<lparr>sl_blocks := filter (\<lambda>(b, s). b \<noteq> a) (sl_blocks st)\<rparr>)" using a(1) by (force simp: libc_free_def)
  have "blocks_ok (filter (\<lambda>(b, s). b \<noteq> a) (sl_blocks st))"
    using inv_blocks [OF i] by (auto simp: blocks_ok_def sorted_wrt_filter)
  moreover have "a' \<noteq> a" if "(a', n) \<in> set live" for a' n using a(3) that by force
  ultimately show "slab_inv (st\<lparr>sl_blocks := filter (\<lambda>(b, s). b \<noteq> a) (sl_blocks st)\<rparr>) ps fs live"
    using i a(2) unfolding slab_inv_def by fastforce
qed

lemma page_chunks_apart: "sorted_wrt (\<lambda>x y. separate (x, 64) (y, 64)) (page_chunks p)"
  by (auto simp: page_chunks_def page_data_def sizes sorted_wrt_map separate_def intro!: sorted_wrt_mono_rel [OF _ sorted_wrt_upt])

lemma distinct_chunks: "distinct (page_chunks p)"
  by (auto simp: page_chunks_def page_data_def sizes distinct_map inj_on_def)

lemma chunks_of_Cons: "chunks_of (p # ps) = set (page_chunks p) \<union> chunks_of ps"
  by (simp add: chunks_of_def)

lemma inv_new_page:
  assumes i: "slab_inv st ps fs ((page, 65544) # live)" and b: "(page, 65544) \<in> set (sl_blocks st)" and h: "ptr_at (sl_mem st) page = sl_pages st"
  shows "\<exists>st'. thread_chunks (page_chunks page) (st\<lparr>sl_pages := page\<rparr>) = Some st' \<and> slab_inv st' (page # ps) (rev (page_chunks page) @ fs) live \<and>
       (\<forall>(a, n) \<in> set live. agree (sl_mem st) (sl_mem st') (a, n))"
proof -
  have new: "page \<notin> set ps" "page \<notin> set fs" "page \<notin> chunks_of ps"
    using owns_live [OF i, of page 65544] inv_live [OF i, of page 65544] by auto
  have out: "separate (a, n) (c, 64)" if "separate (a, n) (page, 65544)" "c \<in> set (page_chunks page)" for a n c
    using that by (auto simp: separate_def mem_page_chunks)
  have reg: "separate x (page, 65544)" if "x \<in> regions (sl_blocks st) ps" "fst x \<noteq> page" for x
    using inv_regions_apart [OF i that(1) block_region [OF b new(1)]] that(2) by (metis fst_conv)
  have fs: "separate (f, 64) (page, 65544)" if "f \<in> set fs" for f
    using reg [OF chunk_region [of f]] inv_free [OF i] new(2) that by auto
  have ap: "\<forall>x \<in> set (page_chunks page). \<forall>y \<in> set fs. separate (x, 64) (y, 64)" using out [OF fs] separate_sym by blast
  have "chain (sl_mem st) (sl_freelist st) fs" by (rule inv_chains(2) [OF i])
  moreover have "sl_freelist st < 2 ^ 64" by (rule freelist_bound [OF i])
  moreover have "0 < x \<and> x < 2 ^ 64 \<and> accessible st x 8" if "x \<in> set (page_chunks page)" for x
  proof -
    obtain k where "k < 1024" "x = page + 8 + k * 64" using \<open>x \<in> set (page_chunks page)\<close> by (auto simp: mem_page_chunks)
    then show ?thesis using block_bounds [OF inv_blocks [OF i] b] b unfolding accessible_def by (auto intro!: bexI [of _ "(page, 65544)"])
  qed
  ultimately obtain m' f where m': "thread_chunks (page_chunks page) (st\<lparr>sl_pages := page\<rparr>) = Some (st\<lparr>sl_pages := page, sl_mem := m', sl_freelist := f\<rparr>)"
    "chain m' f (rev (page_chunks page) @ fs)" "\<And>r. \<forall>x \<in> set (page_chunks page). separate r (x, 64) \<Longrightarrow> agree (sl_mem st) m' r"
    using thread_chunks_spec [of "st\<lparr>sl_pages := page\<rparr>" fs "page_chunks page"] page_chunks_apart ap by auto
  have agr: "agree (sl_mem st) m' (a, n)" if "separate (a, n) (page, 65544)" for a n using m'(3) out [OF that] by blast
  have "agree (sl_mem st) m' (page, 8)" by (intro m'(3)) (auto simp: separate_def mem_page_chunks)
  from ptr_at_agree [OF this] have "ptr_at m' page = sl_pages st" by (simp add: h)
  moreover have "chain m' (sl_pages st) ps"
  proof (rule chain_agree [OF inv_chains(1) [OF i]])
    fix p assume p: "p \<in> set ps"
    then have "p \<noteq> page" using new(1) by auto
    then show "agree (sl_mem st) m' (p, 8)" using reg [OF header_region [OF p]] by (intro agr) simp
  qed
  ultimately have "chain m' page (page # ps)" using block_bounds [OF inv_blocks [OF i] b] by simp
  moreover have "distinct (rev (page_chunks page) @ fs)"
    using distinct_chunks inv_distinct(2) [OF i] ap by (fastforce simp: separate_def)
  moreover have live: "a \<notin> set (page_chunks page)" "a \<noteq> page" "separate (a, n) (page, 65544)" if "(a, n) \<in> set live" for a n
  proof -
    show "separate (a, n) (page, 65544)" using live_apart [OF i, of a n page 65544] that inv_distinct(3) [OF i] by force
    have "(a, n) \<in> set ((page, 65544) # live)" using that by simp
    then obtain s where "(a, s) \<in> regions (sl_blocks st) ps" by (rule live_region [OF i])
    moreover show "a \<noteq> page" using that inv_distinct(3) [OF i] by force
    ultimately show "a \<notin> set (page_chunks page)" using reg region_accessible(3) [OF i] by (fastforce simp: separate_def mem_page_chunks)
  qed
  moreover have "\<forall>(a, n) \<in> set live. a \<notin> set (rev (page_chunks page) @ fs) \<and>
      (a \<in> chunks_of (page # ps) \<and> n \<le> 64 \<or> a \<notin> set (page # ps) \<and> (\<exists>s. (a, s) \<in> set (sl_blocks st) \<and> n \<le> s))"
  proof (clarify, intro conjI)
    fix a n assume l: "(a, n) \<in> set live"
    note ia = inv_live [OF i, of a n]
    show "a \<notin> set (rev (page_chunks page) @ fs)" using live(1) [OF l] ia l by simp
    show "a \<in> chunks_of (page # ps) \<and> n \<le> 64 \<or> a \<notin> set (page # ps) \<and> (\<exists>s. (a, s) \<in> set (sl_blocks st) \<and> n \<le> s)"
      using live(2) [OF l] ia l by (auto simp: chunks_of_Cons)
  qed
  moreover have "set (rev (page_chunks page) @ fs) \<subseteq> chunks_of (page # ps)" using inv_free [OF i] by (auto simp: chunks_of_Cons)
  ultimately have "slab_inv (st\<lparr>sl_pages := page, sl_mem := m', sl_freelist := f\<rparr>) (page # ps) (rev (page_chunks page) @ fs) live"
    using inv_parts(1-2,6,8) [OF i] b m'(2) new(1) unfolding slab_inv_def by (simp add: sizes)
  with m'(1) live(3) agr show ?thesis by auto
qed

lemma inv_grow:
  assumes i: "slab_inv st ps fs live" and f: "fresh_block (sl_blocks st) sizeof_slab_page_t choice"
  shows "slab_grow choice st = Some (False, st) \<or>
    (\<exists>page st'. slab_grow choice st = Some (True, st') \<and> slab_inv st' (page # ps) (rev (page_chunks page) @ fs) live \<and>
       (\<forall>(a, n) \<in> set live. agree (sl_mem st) (sl_mem st') (a, n)))"
proof (cases choice)
  case None
  then show ?thesis by (simp add: slab_grow_def libc_malloc_def)
next
  case (Some page)
  let ?st = "st\<lparr>sl_blocks := (page, 65544) # sl_blocks st\<rparr>" and ?m = "put_ptr (sl_mem st) page (sl_pages st)"
  have i1: "slab_inv ?st ps fs ((page, 65544) # live)" using inv_heap_malloc [OF i, of 65544 page 65544] f Some by (simp add: sizes)
  have chg: "page \<le> x \<and> x < page + 65544" if "?m x \<noteq> sl_mem ?st x" for x using that by (auto simp: put_ptr_def split: if_splits)
  have i2: "slab_inv (?st\<lparr>sl_mem := ?m\<rparr>) ps fs ((page, 65544) # live)" by (rule inv_mem_live(1) [OF i1 list.set_intros(1) chg])
  have d: "a \<noteq> page" if "(a, n) \<in> set live" for a n using that inv_distinct(3) [OF i1] by force
  have keep: "agree (sl_mem st) ?m (a, n)" if "(a, n) \<in> set live" for a n
    using inv_mem_live(2) [OF i1 list.set_intros(1) chg, where b = a and k = n] that d by simp
  obtain st' where st': "thread_chunks (page_chunks page) (?st\<lparr>sl_mem := ?m, sl_pages := page\<rparr>) = Some st'"
    "slab_inv st' (page # ps) (rev (page_chunks page) @ fs) live" "\<forall>(a, n) \<in> set live. agree ?m (sl_mem st') (a, n)"
    using inv_new_page [OF i2] by (auto simp: ptr_at_put [OF pages_bound [OF i]])
  moreover have "page \<noteq> 0" "store_ptr ?st page (sl_pages st) = Some (?st\<lparr>sl_mem := ?m\<rparr>)"
    using f Some by (auto simp: fresh_block_def store_ptr_def accessible_def)
  ultimately have "slab_grow choice st = Some (True, st')" by (simp add: slab_grow_def libc_malloc_def Some sizes)
  with st'(2,3) keep show ?thesis by (blast intro: agree_trans)
qed

definition keeps_live :: "slab_env \<Rightarrow> slab_env \<Rightarrow> (nat \<times> nat) list \<Rightarrow> bool" where
  "keeps_live st st' live \<longleftrightarrow> (\<forall>(a, n) \<in> set live. agree (sl_mem st) (sl_mem st') (a, n))"

lemma inv_heap_choice:
  assumes i: "slab_inv st ps fs live" and f: "fresh_block (sl_blocks st) k choice" and n: "n \<le> k" "0 < k"
  shows "case libc_malloc choice k st of (r, st') \<Rightarrow> slab_inv st' ps fs (hand_out r n live) \<and> sl_mem st' = sl_mem st \<and> (r \<noteq> 0 \<longrightarrow> accessible st' r k)"
  using i inv_heap_malloc [OF i _ n] f by (cases choice) (auto simp: libc_malloc_def hand_out_def fresh_block_def accessible_def)

lemma inv_malloc:
  assumes i: "slab_inv st ps fs live" and g: "fresh_block (sl_blocks st) sizeof_slab_page_t g" and h: "fresh_block (sl_blocks st) (max 1 n) h"
  shows "\<exists>r st' ps' fs'. slab_malloc g h n st = Some (r, st') \<and> slab_inv st' ps' fs' (hand_out r n live) \<and> keeps_live st st' live"
proof -
  let ?n = "max 1 n"
  have n: "(if n = 0 then 1 else n) = ?n" by simp
  have heap: "\<exists>r st' ps' fs'. Some (libc_malloc h ?n st) = Some (r, st') \<and> slab_inv st' ps' fs' (hand_out r n live) \<and> keeps_live st st' live"
    using inv_heap_choice [OF i h, of n] by (cases "libc_malloc h ?n st") (auto simp: keeps_live_def max_def split: if_splits)
  have pop: "\<exists>r st'' ps' fs'. (do { next \<leftarrow> load_ptr st' (sl_freelist st'); Some (sl_freelist st', st'\<lparr>sl_freelist := next\<rparr>) }) = Some (r, st'') \<and>
      slab_inv st'' ps' fs' (hand_out r n live) \<and> keeps_live st st'' live"
    if i': "slab_inv st' ps' (f # fs') live" and k: "keeps_live st st' live" and le: "n \<le> 64" for st' ps' f fs'
  proof -
    have f: "sl_freelist st' = f" "f \<noteq> 0" "f \<in> chunks_of ps'" using inv_chains(2) [OF i'] inv_free [OF i'] by auto
    from region_accessible(1) [OF i' chunk_region [OF f(3)]] have "accessible st' f 8" by (force simp: accessible_def)
    then show ?thesis using inv_pop [OF i' le] f k by (auto simp: load_ptr_def hand_out_def keeps_live_def)
  qed
  show ?thesis
  proof (cases "?n \<le> 64")
    case False
    then show ?thesis using heap by (simp add: slab_malloc_def n sizes del: max_def)
  next
    case le: True
    show ?thesis
    proof (cases "sl_freelist st = 0")
      case False
      then obtain f fs' where "fs = f # fs'" using inv_chains(2) [OF i] by (cases fs) auto
      from pop [of st ps f fs'] i this le False show ?thesis by (simp add: slab_malloc_def n sizes keeps_live_def)
    next
      case True
      then have fs: "fs = []" using inv_chains(2) [OF i] by simp
      from inv_grow [OF i g] show ?thesis
      proof
        assume "slab_grow g st = Some (False, st)"
        then show ?thesis using heap le True by (simp add: slab_malloc_def n sizes)
      next
        assume "\<exists>page st'. slab_grow g st = Some (True, st') \<and> slab_inv st' (page # ps) (rev (page_chunks page) @ fs) live \<and>
          (\<forall>(a, n) \<in> set live. agree (sl_mem st) (sl_mem st') (a, n))"
        then obtain page st' where st': "slab_grow g st = Some (True, st')" "slab_inv st' (page # ps) (rev (page_chunks page)) live" "keeps_live st st' live"
          by (auto simp: fs keeps_live_def)
        have "rev (page_chunks page) \<noteq> []" by (simp add: page_chunks_def SLAB_PAGE_CHUNKS_def)
        then obtain f fs' where "rev (page_chunks page) = f # fs'" by (meson list.exhaust)
        with st' pop [of st' "page # ps" f fs'] le True show ?thesis by (simp add: slab_malloc_def n sizes)
      qed
    qed
  qed
qed

lemma live_accessible: "slab_inv st ps fs live \<Longrightarrow> (a, n) \<in> set live \<Longrightarrow> accessible st a n"
  by (rule live_region, assumption+) (use region_accessible(1) in \<open>force simp: accessible_def\<close>)

lemma inv_calloc:
  assumes i: "slab_inv st ps fs live" and g: "fresh_block (sl_blocks st) sizeof_slab_page_t g" and h: "fresh_block (sl_blocks st) (max 1 (c * n)) h"
  shows "\<exists>r st' ps' fs'. slab_calloc g h c n st = Some (r, st') \<and> slab_inv st' ps' fs' (hand_out r (c * n) live) \<and> keeps_live st st' live \<and>
    (r \<noteq> 0 \<longrightarrow> (\<forall>x < c * n. sl_mem st' (r + x) = 0))"
proof (cases "c > 0 \<and> n > SIZE_MAX div c")
  case True
  then show ?thesis using i by (auto simp: slab_calloc_def hand_out_def keeps_live_def)
next
  case False
  then have "c * n \<le> SIZE_MAX" by (metis le_zero_eq mult_is_0 not_le less_eq_div_iff_mult_less_eq mult.commute zero_le)
  then have total: "c * n mod 2 ^ 64 = c * n" by (simp add: SIZE_MAX_def)
  have calloc: "slab_calloc g h c n st = do { (p, st) \<leftarrow> slab_malloc g h (c * n) st;
      if p \<noteq> 0 then do { st \<leftarrow> memset_zero st p (c * n); Some (p, st) } else Some (p, st) }"
    unfolding slab_calloc_def Let_def total if_not_P [OF False] by (rule refl)
  obtain r st' ps' fs' where r: "slab_malloc g h (c * n) st = Some (r, st')" "slab_inv st' ps' fs' (hand_out r (c * n) live)" "keeps_live st st' live"
    using inv_malloc [OF i g h] by blast
  show ?thesis
  proof (cases "r = 0")
    case True
    with r show ?thesis by (auto simp: calloc)
  next
    case nz: False
    let ?m = "\<lambda>x. if r \<le> x \<and> x < r + c * n then 0 else sl_mem st' x"
    have l: "(r, c * n) \<in> set (hand_out r (c * n) live)" using nz by (simp add: hand_out_def)
    have chg: "r \<le> x \<and> x < r + c * n" if "?m x \<noteq> sl_mem st' x" for x using that by (auto split: if_splits)
    have "agree (sl_mem st') ?m (a, k)" if "(a, k) \<in> set live" for a k
      using inv_mem_live(2) [OF r(2) l chg, where b = a and k = k] that inv_distinct(3) [OF r(2)] nz by (force simp: hand_out_def)
    then have "keeps_live st (st'\<lparr>sl_mem := ?m\<rparr>) live" using r(3) by (auto simp: keeps_live_def intro: agree_trans)
    moreover have "memset_zero st' r (c * n) = Some (st'\<lparr>sl_mem := ?m\<rparr>)" using live_accessible [OF r(2) l] by (simp add: memset_zero_def)
    moreover have "slab_inv (st'\<lparr>sl_mem := ?m\<rparr>) ps' fs' (hand_out r (c * n) live)" by (rule inv_mem_live(1) [OF r(2) l chg])
    ultimately show ?thesis using r(1) nz by (auto simp: calloc)
  qed
qed

lemma give_back_mem: "(a, n) \<in> set (give_back p live) \<longleftrightarrow> (a, n) \<in> set live \<and> a \<noteq> p" "p \<notin> fst ` set (give_back p live)"
  by (auto simp: give_back_def)

lemma give_back_id: "p \<notin> fst ` set live \<Longrightarrow> give_back p live = live"
  by (force simp: give_back_def filter_id_conv)

lemma inv_release:
  assumes i: "slab_inv st ps fs live" and p: "(p, n) \<in> set live"
  shows "\<exists>st' fs'. (do { owned \<leftarrow> slab_owns st p; if owned then push_free p st else libc_free p st }) = Some st' \<and>
    slab_inv st' ps fs' (give_back p live) \<and> keeps_live st st' (give_back p live)"
proof (cases "p \<in> chunks_of ps")
  case True
  then have o: "slab_owns st p = Some True" using owns_live [OF i p] by auto
  have "p \<notin> set fs" using inv_live [OF i p] by blast
  from inv_push [OF inv_give_back [OF i] True this give_back_mem(2)] o show ?thesis by (auto simp: keeps_live_def)
next
  case False
  then obtain s where s: "(p, s) \<in> set (sl_blocks st)" "p \<notin> set ps" and o: "slab_owns st p = Some False" using owns_live [OF i p] by auto
  from inv_heap_free [OF inv_give_back [OF i] s give_back_mem(2)] o show ?thesis by (auto simp: keeps_live_def)
qed

lemma live_nonzero:
  assumes i: "slab_inv st ps fs live"
  shows "0 \<notin> fst ` set live"
proof
  assume "0 \<in> fst ` set live"
  then obtain n where "(0, n) \<in> set live" by auto
  then obtain s where "(0, s) \<in> regions (sl_blocks st) ps" by (rule live_region [OF i])
  from region_accessible(2) [OF i this] show False by simp
qed

lemma inv_free_op:
  assumes i: "slab_inv st ps fs live" and p: "p = 0 \<or> p \<in> fst ` set live"
  shows "\<exists>st' fs'. slab_free p st = Some st' \<and> slab_inv st' ps fs' (give_back p live) \<and> keeps_live st st' (give_back p live)"
proof (cases "p = 0")
  case True
  then show ?thesis using i by (auto simp: slab_free_def keeps_live_def give_back_id [OF live_nonzero [OF i]])
next
  case False
  then obtain n where "(p, n) \<in> set live" using p by auto
  from inv_release [OF i this] False show ?thesis by (simp add: slab_free_def)
qed

lemma inv_new_block_write:
  assumes i: "slab_inv st ps fs live" and f: "fresh_block (sl_blocks st) k (Some a)" and k: "0 < k"
    and m: "\<And>x. m' x \<noteq> sl_mem st x \<Longrightarrow> a \<le> x \<and> x < a + k"
  shows "slab_inv (st\<lparr>sl_blocks := (a, k) # sl_blocks st, sl_mem := m'\<rparr>) ps fs ((a, k) # live)" "keeps_live st (st\<lparr>sl_blocks := bs, sl_mem := m'\<rparr>) live"
proof -
  have i1: "slab_inv (st\<lparr>sl_blocks := (a, k) # sl_blocks st\<rparr>) ps fs ((a, k) # live)" by (rule inv_heap_malloc [OF i f order_refl k])
  from inv_mem_live(1) [OF i1 list.set_intros(1), of m'] m
  show "slab_inv (st\<lparr>sl_blocks := (a, k) # sl_blocks st, sl_mem := m'\<rparr>) ps fs ((a, k) # live)" by simp
  have "agree (sl_mem st) m' (b, n)" if "(b, n) \<in> set live" for b n
    using inv_mem_live(2) [OF i1 list.set_intros(1), of m' b n] m that inv_distinct(3) [OF i1] by force
  then show "keeps_live st (st\<lparr>sl_blocks := bs, sl_mem := m'\<rparr>) live" by (auto simp: keeps_live_def)
qed

definition moved :: "slab_env \<Rightarrow> slab_env \<Rightarrow> nat \<Rightarrow> nat \<Rightarrow> nat \<Rightarrow> bool" where
  \<comment> \<open>a number of bytes is at a new address\<close>
  "moved st st' p r n \<longleftrightarrow> (\<forall>x < n. sl_mem st' (r + x) = sl_mem st (p + x))"

lemma inv_promote:
  assumes i: "slab_inv st ps fs live" and p: "(p, k) \<in> set live" "p \<in> chunks_of ps" and f: "fresh_block (sl_blocks st) n (Some a)" and n: "64 < n"
  shows "\<exists>st' fs'. (do { st1 \<leftarrow> memcpy (st\<lparr>sl_blocks := (a, n) # sl_blocks st\<rparr>) a p SLAB_CHUNK_SIZE; st2 \<leftarrow> push_free p st1; Some (a, st2) }) = Some (a, st') \<and>
    slab_inv st' ps fs' ((a, n) # give_back p live) \<and> keeps_live st st' (give_back p live) \<and> moved st st' p a k"
proof -
  let ?b = "(a, n) # sl_blocks st" and ?m = "\<lambda>x. if a \<le> x \<and> x < a + 64 then sl_mem st (p + (x - a)) else sl_mem st x"
  let ?st = "st\<lparr>sl_blocks := ?b, sl_mem := ?m\<rparr>"
  have chg: "a \<le> x \<and> x < a + n" if "?m x \<noteq> sl_mem st x" for x using that n by (auto split: if_splits)
  have "0 < n" using n by simp
  note w = inv_new_block_write [OF i f this, of ?m, OF chg]
  have pa: "p \<noteq> a" using fresh_not_region [OF i f _ chunk_region [OF p(2)]] n by simp
  have ip: "slab_inv ?st ps fs ((a, n) # give_back p live)" using inv_give_back [OF w(1), of p] pa by (simp add: give_back_def)
  have ap: "separate (a, n) (p, 64)" using live_free_apart [OF ip, of a n p] p(2) pa by simp
  have "accessible st p 64" by (rule region_accessible(1) [OF i chunk_region [OF p(2)]])
  then have "accessible (st\<lparr>sl_blocks := ?b\<rparr>) p 64" "accessible (st\<lparr>sl_blocks := ?b\<rparr>) a 64" using n by (auto simp: accessible_def)
  then have c: "memcpy (st\<lparr>sl_blocks := ?b\<rparr>) a p 64 = Some ?st" using ap n by (auto simp: memcpy_def separate_def cong: if_cong)
  have "p \<notin> set fs" using inv_live [OF i p(1)] by blast
  moreover have "p \<notin> fst ` set ((a, n) # give_back p live)" using pa give_back_mem(2) by auto
  ultimately obtain m' where m': "push_free p ?st = Some (?st\<lparr>sl_mem := m', sl_freelist := p\<rparr>)"
    "slab_inv (?st\<lparr>sl_mem := m', sl_freelist := p\<rparr>) ps (p # fs) ((a, n) # give_back p live)"
    "\<forall>(b, k) \<in> set ((a, n) # give_back p live). agree ?m m' (b, k)"
    using inv_push [OF ip p(2)] by auto
  have "keeps_live st (?st\<lparr>sl_mem := m', sl_freelist := p\<rparr>) (give_back p live)"
    using w(2) [of ?b] m'(3) by (fastforce simp: keeps_live_def give_back_mem intro: agree_trans)
  moreover have "moved st (?st\<lparr>sl_mem := m', sl_freelist := p\<rparr>) p a k"
  proof -
    have "k \<le> 64" using owns_live [OF i p(1)] p(2) by auto
    moreover have "agree ?m m' (a, n)" using m'(3) by simp
    ultimately show ?thesis using n by (auto simp: moved_def agree_def)
  qed
  ultimately show ?thesis using c m' by (auto simp: sizes)
qed

lemma inv_heap_realloc:
  assumes i: "slab_inv st ps fs live" and p: "(p, k) \<in> set live" "(p, s) \<in> set (sl_blocks st)" "k \<le> s" "p \<notin> set ps"
    and f: "fresh_block (filter (\<lambda>(b, s). b \<noteq> p) (sl_blocks st)) n (Some a)" and n: "0 < n"
  shows "\<exists>st'. libc_realloc (Some a) p n st = Some (a, st') \<and> slab_inv st' ps fs ((a, n) # give_back p live) \<and> keeps_live st st' (give_back p live) \<and>
    moved st st' p a (min k n)"
proof -
  let ?b = "filter (\<lambda>(b, s). b \<noteq> p) (sl_blocks st)" and ?m = "\<lambda>x. if a \<le> x \<and> x < a + min s n then sl_mem st (p + (x - a)) else sl_mem st x"
  have i1: "slab_inv (st\<lparr>sl_blocks := ?b\<rparr>) ps fs (give_back p live)" by (rule inv_heap_free(2) [OF inv_give_back [OF i] p(2,4) give_back_mem(2)])
  have chg: "a \<le> x \<and> x < a + n" if "?m x \<noteq> sl_mem (st\<lparr>sl_blocks := ?b\<rparr>) x" for x using that by (auto split: if_splits)
  note w = inv_new_block_write [OF i1 _ n, of a ?m, OF _ chg]
  have "map_of (sl_blocks st) p = Some s"
    using block_unique [OF inv_blocks [OF i] p(2)] p(2) by (metis map_of_SomeD weak_map_of_SomeI)
  then have "libc_realloc (Some a) p n st = Some (a, st\<lparr>sl_blocks := (a, n) # ?b, sl_mem := ?m\<rparr>)" by (simp add: libc_realloc_def)
  moreover have "moved st (st\<lparr>sl_blocks := (a, n) # ?b, sl_mem := ?m\<rparr>) p a (min k n)" using p(3) by (auto simp: moved_def)
  ultimately show ?thesis using w(1) w(2) [of "(a, n) # ?b"] f by (auto simp: keeps_live_def)
qed

lemma chunk_not_block:
  assumes i: "slab_inv st ps fs live" and p: "p \<in> chunks_of ps"
  shows "p \<notin> fst ` set (sl_blocks st)"
proof
  assume "p \<in> fst ` set (sl_blocks st)"
  then obtain s where s: "(p, s) \<in> set (sl_blocks st)" by auto
  from p obtain q k where q: "q \<in> set ps" "k < 1024" "p = q + 8 + k * 64" by (auto simp: chunks_of_def mem_page_chunks)
  then have "(q, 65544) \<in> set (sl_blocks st)" "(p, s) \<noteq> (q, 65544)" using inv_pages [OF i] by (auto simp: sizes)
  then have "separate (p, s) (q, 65544)" using blocks_apart [OF inv_blocks [OF i] s] by blast
  then show False using q block_bounds [OF inv_blocks [OF i] s] by (auto simp: separate_def)
qed

definition realloc_ok :: "slab_env \<Rightarrow> (nat \<times> nat) list \<Rightarrow> nat option \<Rightarrow> nat option \<Rightarrow> nat \<Rightarrow> nat \<Rightarrow> bool" where
  "realloc_ok st live g h p n \<longleftrightarrow> (\<exists>r st' ps' fs'. slab_realloc g h p n st = Some (r, st') \<and>
     slab_inv st' ps' fs' (live_after (Realloc g h p n) r live) \<and> keeps_live st st' (give_back p live) \<and>
     (\<forall>k. (p, k) \<in> set live \<longrightarrow> n \<noteq> 0 \<longrightarrow> (if r = 0 then st' = st else moved st st' p r (min k n))))"

lemma realloc_okI:
  assumes "slab_realloc g h p n st = Some (r, st')" "slab_inv st' ps' fs' (live_after (Realloc g h p n) r live)" "keeps_live st st' (give_back p live)"
    "\<And>k. (p, k) \<in> set live \<Longrightarrow> n \<noteq> 0 \<Longrightarrow> if r = 0 then st' = st else moved st st' p r (min k n)"
  shows "realloc_ok st live g h p n"
  using assms unfolding realloc_ok_def by blast

lemma live_unique: "slab_inv st ps fs live \<Longrightarrow> (p, k) \<in> set live \<Longrightarrow> (p, k') \<in> set live \<Longrightarrow> k' = k"
  by (meson eq_key_imp_eq_value inv_distinct(3))

lemma realloc_null:
  assumes i: "slab_inv st ps fs live" and g: "fresh_block (sl_blocks st) sizeof_slab_page_t g"
    and h: "fresh_block (filter (\<lambda>(b, s). b \<noteq> 0) (sl_blocks st)) (max 1 n) h"
  shows "realloc_ok st live g h 0 n"
proof -
  have gb: "give_back 0 live = live" by (rule give_back_id [OF live_nonzero [OF i]])
  have "filter (\<lambda>(b, s). b \<noteq> 0) (sl_blocks st) = sl_blocks st"
    using block_bounds [OF inv_blocks [OF i]] by (force simp: filter_id_conv)
  with h have "fresh_block (sl_blocks st) (max 1 n) h" by simp
  from inv_malloc [OF i g this] obtain r st' ps' fs' where r: "slab_malloc g h n st = Some (r, st')" "slab_inv st' ps' fs' (hand_out r n live)"
    "keeps_live st st' live" by blast
  have "(0, k) \<notin> set live" for k using live_nonzero [OF i] by force
  with r gb show ?thesis by (intro realloc_okI [of _ _ _ _ _ r st' ps' fs']) (auto simp: slab_realloc_def hand_out_def)
qed

lemma realloc_chunk:
  assumes i: "slab_inv st ps fs live" and k: "(p, k) \<in> set live" "p \<in> chunks_of ps" and n: "0 < n" and h: "fresh_block (sl_blocks st) n h"
  shows "realloc_ok st live g h p n"
proof -
  have o: "slab_owns st p = Some True" "k \<le> 64" "p \<noteq> 0" using owns_live [OF i k(1)] k live_nonzero [OF i] by force+
  have p: "p \<notin> set fs" using inv_live [OF i k(1)] by blast
  consider "n \<le> 64" | "64 < n" "h = None" | a where "64 < n" "h = Some a" by (cases h) fastforce+
  then show ?thesis
  proof cases
    case 1
    have "slab_inv st ps fs ((p, n) # give_back p live)"
      using inv_give_back [OF i, of p] k(2) 1 p give_back_mem(2) [of p live] by (auto simp: slab_inv_def)
    with o n 1 show ?thesis by (intro realloc_okI [of _ _ _ _ _ p st ps fs]) (auto simp: slab_realloc_def sizes hand_out_def keeps_live_def moved_def)
  next
    case 2
    with o n i show ?thesis by (intro realloc_okI [of _ _ _ _ _ 0 st ps fs]) (auto simp: slab_realloc_def sizes libc_malloc_def keeps_live_def)
  next
    case 3
    then have a: "a \<noteq> 0" using h by (auto simp: fresh_block_def)
    obtain st' fs' where "(do { st1 \<leftarrow> memcpy (st\<lparr>sl_blocks := (a, n) # sl_blocks st\<rparr>) a p SLAB_CHUNK_SIZE; st2 \<leftarrow> push_free p st1; Some (a, st2) }) = Some (a, st')"
      and st': "slab_inv st' ps fs' ((a, n) # give_back p live)" "keeps_live st st' (give_back p live)" "moved st st' p a k"
      using inv_promote [OF i k, of n a] h 3 by auto
    then have "slab_realloc g h p n st = Some (a, st')" using o n 3 a by (simp add: slab_realloc_def sizes libc_malloc_def)
    with st' a live_unique [OF i k(1)] o(2) 3 show ?thesis
      by (intro realloc_okI [of _ _ _ _ _ a st' ps fs']) (auto simp: hand_out_def min_def)
  qed
qed

lemma realloc_heap:
  assumes i: "slab_inv st ps fs live" and k: "(p, k) \<in> set live" "p \<notin> chunks_of ps" and n: "0 < n"
    and h: "fresh_block (filter (\<lambda>(b, s). b \<noteq> p) (sl_blocks st)) n h"
  shows "realloc_ok st live g h p n"
proof -
  obtain s where s: "(p, s) \<in> set (sl_blocks st)" "k \<le> s" "p \<notin> set ps" and o: "slab_owns st p = Some False" using owns_live [OF i k(1)] k(2) by auto
  have p: "p \<noteq> 0" using live_nonzero [OF i] k(1) by force
  show ?thesis
  proof (cases h)
    case None
    have "map_of (sl_blocks st) p \<noteq> None" using s(1) weak_map_of_SomeI by fastforce
    with None o p n i show ?thesis by (intro realloc_okI [of _ _ _ _ _ 0 st ps fs]) (auto simp: slab_realloc_def libc_realloc_def keeps_live_def)
  next
    case (Some a)
    then have a: "a \<noteq> 0" using h by (auto simp: fresh_block_def)
    from inv_heap_realloc [OF i k(1) s h [unfolded Some] n] obtain st' where "libc_realloc (Some a) p n st = Some (a, st')"
      "slab_inv st' ps fs ((a, n) # give_back p live)" "keeps_live st st' (give_back p live)" "moved st st' p a (min k n)" by auto
    with Some a o p n live_unique [OF i k(1)] show ?thesis
      by (intro realloc_okI [of _ _ _ _ _ a st' ps fs]) (auto simp: slab_realloc_def hand_out_def)
  qed
qed

lemma inv_realloc:
  assumes i: "slab_inv st ps fs live" and p: "p = 0 \<or> p \<in> fst ` set live"
    and g: "fresh_block (sl_blocks st) sizeof_slab_page_t g" and h: "fresh_block (filter (\<lambda>(b, s). b \<noteq> p) (sl_blocks st)) (max 1 n) h"
  shows "realloc_ok st live g h p n"
proof -
  consider "p = 0" | k where "p \<noteq> 0" "(p, k) \<in> set live" "n = 0" | k where "(p, k) \<in> set live" "0 < n"
    using p by (cases "p = 0"; cases n) auto
  then show ?thesis
  proof cases
    case 1
    then show ?thesis using realloc_null [OF i g] h by simp
  next
    case 2
    then have "slab_realloc g h p n st = (do { owned \<leftarrow> slab_owns st p; if owned then push_free p st else libc_free p st }) \<bind> (\<lambda>st. Some (0, st))"
      by (simp add: slab_realloc_def)
    moreover from inv_release [OF i 2(2)] obtain st' fs' where
      "(do { owned \<leftarrow> slab_owns st p; if owned then push_free p st else libc_free p st }) = Some st'"
      "slab_inv st' ps fs' (give_back p live)" "keeps_live st st' (give_back p live)" by blast
    ultimately show ?thesis using 2 by (intro realloc_okI [of _ _ _ _ _ 0 st' ps fs']) (auto simp: hand_out_def)
  next
    case 3
    show ?thesis
    proof (cases "p \<in> chunks_of ps")
      case True
      have "filter (\<lambda>(b, s). b \<noteq> p) (sl_blocks st) = sl_blocks st" using chunk_not_block [OF i True] by (force simp: filter_id_conv)
      then show ?thesis using realloc_chunk [OF i 3(1) True 3(2)] h 3(2) by simp
    next
      case False
      then show ?thesis using realloc_heap [OF i 3(1) False 3(2)] h 3(2) by simp
    qed
  qed
qed

lemma chunk_page_unique:
  assumes i: "slab_inv st ps fs live" and p: "p \<in> set ps" "q \<in> set ps" and a: "a \<in> set (page_chunks p)" "a \<in> set (page_chunks q)"
  shows "p = q"
proof (rule ccontr)
  assume "p \<noteq> q"
  then have "separate (p, 65544) (q, 65544)" using blocks_apart [OF inv_blocks [OF i]] inv_pages [OF i] p by (auto simp: sizes)
  then show False using a by (auto simp: separate_def mem_page_chunks)
qed

lemma rethread_page:
  assumes i: "slab_inv st ps fs []" and q: "q \<in> set ps" and new: "\<And>x. x \<in> set (page_chunks q) \<Longrightarrow> x \<notin> set fs"
  shows "\<exists>m' f. thread_chunks (page_chunks q) st = Some (st\<lparr>sl_mem := m', sl_freelist := f\<rparr>) \<and>
    slab_inv (st\<lparr>sl_mem := m', sl_freelist := f\<rparr>) ps (rev (page_chunks q) @ fs) [] \<and> (\<forall>p \<in> set ps. agree (sl_mem st) m' (p, 8))"
proof -
  have ch: "x \<in> chunks_of ps" if "x \<in> set (page_chunks q)" for x using that q by (auto simp: chunks_of_def)
  have "\<forall>x \<in> set (page_chunks q). \<forall>y \<in> set fs. separate (x, 64) (y, 64)"
    using inv_regions_apart [OF i chunk_region chunk_region] ch new inv_free [OF i] by blast
  moreover have "\<forall>x \<in> set (page_chunks q). 0 < x \<and> x < 2 ^ 64 \<and> accessible st x 8"
    using region_accessible [OF i chunk_region [OF ch]] by (force simp: accessible_def)
  ultimately obtain m' f where m': "thread_chunks (page_chunks q) st = Some (st\<lparr>sl_mem := m', sl_freelist := f\<rparr>)" "chain m' f (rev (page_chunks q) @ fs)"
    "\<And>r. \<forall>x \<in> set (page_chunks q). separate r (x, 64) \<Longrightarrow> agree (sl_mem st) m' r"
    using thread_chunks_spec [OF inv_chains(2) [OF i] freelist_bound [OF i] _ page_chunks_apart [of q]] by auto
  have hd: "agree (sl_mem st) m' (x, 8)" if "x \<in> set ps" for x
    using inv_regions_apart [OF i header_region [OF that] chunk_region [OF ch]] by (intro m'(3)) auto
  have "distinct (rev (page_chunks q) @ fs)" using distinct_chunks inv_distinct(2) [OF i] new by auto
  moreover have "set (rev (page_chunks q) @ fs) \<subseteq> chunks_of ps" using ch inv_free [OF i] by auto
  moreover have "chain m' (sl_pages st) ps" by (rule chain_agree [OF inv_chains(1) [OF i] hd])
  ultimately have "slab_inv (st\<lparr>sl_mem := m', sl_freelist := f\<rparr>) ps (rev (page_chunks q) @ fs) []"
    using inv_parts(1,2,6) [OF i] m'(2) by (simp add: slab_inv_def)
  with m'(1) hd show ?thesis by blast
qed

lemma rebuild_pages_ok:
  "slab_inv st (ps1 @ ps2) fs [] \<Longrightarrow> set fs \<subseteq> chunks_of ps1 \<Longrightarrow> chain (sl_mem st) p ps2 \<Longrightarrow>
     \<exists>st' fs'. rebuild_pages p st = Some st' \<and> slab_inv st' (ps1 @ ps2) fs' [] \<and> set fs' = set fs \<union> chunks_of ps2"
proof (induction ps2 arbitrary: ps1 p st fs)
  case Nil
  then show ?case by (auto simp: rebuild_pages.simps chunks_of_def)
next
  case (Cons q ps2)
  note i = Cons.prems(1)
  have q: "p = q" "q \<noteq> 0" "chain (sl_mem st) (ptr_at (sl_mem st) q) ps2" "q \<in> set (ps1 @ q # ps2)" using Cons.prems(3) by auto
  have "x \<notin> set fs" if "x \<in> set (page_chunks q)" for x
    using that Cons.prems(2) chunk_page_unique [OF i q(4)] inv_distinct(1) [OF i] by (fastforce simp: chunks_of_def)
  from rethread_page [OF i q(4) this] obtain m' f where m': "thread_chunks (page_chunks q) st = Some (st\<lparr>sl_mem := m', sl_freelist := f\<rparr>)"
    "slab_inv (st\<lparr>sl_mem := m', sl_freelist := f\<rparr>) (ps1 @ q # ps2) (rev (page_chunks q) @ fs) []"
    "\<And>p. p \<in> set (ps1 @ q # ps2) \<Longrightarrow> agree (sl_mem st) m' (p, 8)" by blast
  let ?st = "st\<lparr>sl_mem := m', sl_freelist := f\<rparr>" and ?fs = "rev (page_chunks q) @ fs"
  have "set ?fs \<subseteq> chunks_of (ps1 @ [q])" using Cons.prems(2) by (auto simp: chunks_of_def)
  moreover have "chain (sl_mem ?st) (ptr_at m' q) ps2"
    using chain_agree [OF q(3), of m'] m'(3) ptr_at_agree [OF m'(3) [OF q(4)]] by simp
  moreover have "slab_inv ?st ((ps1 @ [q]) @ ps2) ?fs []" using m'(2) by simp
  ultimately have "\<exists>st' fs'. rebuild_pages (ptr_at m' q) ?st = Some st' \<and> slab_inv st' ((ps1 @ [q]) @ ps2) fs' [] \<and> set fs' = set ?fs \<union> chunks_of ps2"
    by (intro Cons.IH)
  moreover have "load_ptr ?st q = Some (ptr_at m' q)"
    using region_accessible(1) [OF i header_region [OF q(4)]] by (simp add: load_ptr_def)
  ultimately show ?case using q(1,2) m'(1) by (auto simp: rebuild_pages.simps [of q st] chunks_of_Cons)
qed

lemma inv_reset:
  assumes i: "slab_inv st ps fs []"
  shows "\<exists>st' fs'. cbm_slab_reset_thread st = Some st' \<and> slab_inv st' ps fs' [] \<and> set fs' = chunks_of ps"
proof (cases "sl_pages st = 0")
  case True
  then have "ps = []" using inv_chains(1) [OF i] by simp
  then show ?thesis using i True inv_free [OF i] by (auto simp: cbm_slab_reset_thread_def chunks_of_def)
next
  case False
  have "slab_inv (st\<lparr>sl_freelist := 0\<rparr>) ([] @ ps) [] []" using i by (simp add: slab_inv_def)
  from rebuild_pages_ok [OF this, of "sl_pages st"] inv_chains(1) [OF i] False show ?thesis
    by (auto simp: cbm_slab_reset_thread_def slab_rebuild_freelist_def)
qed

lemma free_pages_ok:
  "chain (sl_mem st) p ps \<Longrightarrow> distinct ps \<Longrightarrow> \<forall>q \<in> set ps. (q, sizeof_slab_page_t) \<in> set (sl_blocks st) \<Longrightarrow>
     free_pages p st = Some (st\<lparr>sl_blocks := filter (\<lambda>(b, s). b \<notin> set ps) (sl_blocks st)\<rparr>)"
proof (induction ps arbitrary: p st)
  case Nil
  then show ?case by (simp add: free_pages.simps split_def)
next
  case (Cons q ps)
  let ?st = "st\<lparr>sl_blocks := filter (\<lambda>(b, s). b \<noteq> q) (sl_blocks st)\<rparr>"
  have q: "p = q" "q \<noteq> 0" "chain (sl_mem ?st) (ptr_at (sl_mem st) q) ps" "(q, sizeof_slab_page_t) \<in> set (sl_blocks st)" using Cons.prems(1,3) by auto
  have "accessible st q 8" using q(4) unfolding accessible_def by (intro bexI [of _ "(q, sizeof_slab_page_t)"]) (simp_all add: sizes)
  then have "load_ptr st q = Some (ptr_at (sl_mem st) q)" by (simp add: load_ptr_def)
  moreover have "libc_free q st = Some ?st" using q(4) by (force simp: libc_free_def)
  moreover have "free_pages (ptr_at (sl_mem st) q) ?st = Some (?st\<lparr>sl_blocks := filter (\<lambda>(b, s). b \<notin> set ps) (sl_blocks ?st)\<rparr>)"
    using Cons.prems(2,3) by (intro Cons.IH [OF q(3)]) auto
  moreover have "filter (\<lambda>(b, s). b \<notin> set ps) (sl_blocks ?st) = filter (\<lambda>(b, s). b \<notin> set (q # ps)) (sl_blocks st)"
    by (auto simp: filter_filter intro!: filter_cong)
  ultimately show ?case using q(1,2) by (subst free_pages.simps) simp
qed

lemma inv_free_pages:
  assumes i: "slab_inv st ps fs []"
  shows "\<exists>st'. free_pages (sl_pages st) st = Some st' \<and> slab_inv (st'\<lparr>sl_pages := 0, sl_freelist := 0\<rparr>) [] [] [] \<and>
    slab_inv (st'\<lparr>sl_pages := 0, sl_freelist := 0, sl_installed := False\<rparr>) [] [] []"
  using free_pages_ok [OF inv_chains(1) [OF i] inv_distinct(1) [OF i] inv_pages [OF i]] inv_blocks [OF i]
  by (auto simp: slab_inv_def blocks_ok_def sorted_wrt_filter)

section \<open>Clients\<close>

fun others :: "slab_op \<Rightarrow> (nat \<times> nat) list \<Rightarrow> (nat \<times> nat) list" where
  \<comment> \<open>the blocks that an operation is not about\<close>
  "others (Realloc g h p n) live = give_back p live"
| "others (Free p) live = give_back p live"
| "others (Write a v) live = filter (\<lambda>(p, n). \<not> (p \<le> a \<and> a < p + n)) live"
| "others _ live = live"

fun effect :: "slab_op \<Rightarrow> slab_env \<Rightarrow> (nat \<times> nat) list \<Rightarrow> nat \<Rightarrow> slab_env \<Rightarrow> bool" where
  \<comment> \<open>what an operation does to the contents of its own block\<close>
  "effect (Calloc g h c n) st live r st' \<longleftrightarrow> (r \<noteq> 0 \<longrightarrow> (\<forall>x < c * n. sl_mem st' (r + x) = 0))"
| "effect (Realloc g h p n) st live r st' \<longleftrightarrow>
     (\<forall>k. (p, k) \<in> set live \<longrightarrow> n \<noteq> 0 \<longrightarrow> (if r = 0 then st' = st else moved st st' p r (min k n)))"
| "effect (Write a v) st live r st' \<longleftrightarrow> sl_mem st' a = v"
| "effect _ st live r st' \<longleftrightarrow> True"

definition op_ok :: "slab_op \<Rightarrow> slab_env \<Rightarrow> (nat \<times> nat) list \<Rightarrow> bool" where
  "op_ok op st live \<longleftrightarrow> (\<exists>r st' ps' fs'. run_op op st = Some (r, st') \<and> slab_inv st' ps' fs' (live_after op r live) \<and>
     keeps_live st st' (others op live) \<and> effect op st live r st')"

lemma write_ok:
  assumes i: "slab_inv st ps fs live" and a: "allowed (Write a v) st live"
  shows "op_ok (Write a v) st live"
proof -
  from a obtain p n where p: "(p, n) \<in> set live" "p \<le> a" "a < p + n" by auto
  have "slab_inv (st\<lparr>sl_mem := (sl_mem st)(a := v)\<rparr>) ps fs live" by (rule inv_mem_live(1) [OF i p(1)]) (use p in \<open>auto split: if_splits\<close>)
  then show ?thesis by (auto simp: op_ok_def keeps_live_def agree_def)
qed

lemma step_ok:
  assumes i: "slab_inv st ps fs live" and a: "allowed op st live"
  shows "op_ok op st live"
proof (cases op)
  case (Malloc g h n)
  then show ?thesis using inv_malloc [OF i, of g n h] a by (auto simp: op_ok_def)
next
  case (Calloc g h c n)
  then show ?thesis using inv_calloc [OF i, of g c n h] a by (auto simp: op_ok_def)
next
  case (Realloc g h p n)
  then have "realloc_ok st live g h p n" using inv_realloc [OF i] a by simp
  then show ?thesis using Realloc unfolding realloc_ok_def op_ok_def by simp
next
  case (Free p)
  then show ?thesis using inv_free_op [OF i, of p] a by (auto simp: op_ok_def)
next
  case (Write x v)
  then show ?thesis using write_ok [OF i] a by simp
next
  case Reset
  then show ?thesis using inv_reset a i by (fastforce simp: op_ok_def keeps_live_def)
next
  case Reclaim
  then show ?thesis using inv_free_pages a i by (fastforce simp: op_ok_def keeps_live_def cbm_slab_reclaim_def)
next
  case Destroy
  then show ?thesis using inv_free_pages a i by (fastforce simp: op_ok_def keeps_live_def cbm_slab_destroy_thread_def)
qed

lemma reach_inv: "slab_reach st live \<Longrightarrow> \<exists>ps fs. slab_inv st ps fs live"
proof (induction rule: slab_reach.induct)
  case (start blocks m)
  then have "slab_inv \<lparr>sl_mem = m, sl_blocks = blocks, sl_pages = 0, sl_freelist = 0, sl_installed = False\<rparr> [] [] []"
    by (simp add: slab_inv_def blocks_ok_def chunks_of_def)
  then show ?case by blast
next
  case (step st live op r st')
  then show ?case using step_ok unfolding op_ok_def by fastforce
qed

lemma chunk_alignment: "slab_inv st ps fs live \<Longrightarrow> a \<in> chunks_of ps \<Longrightarrow> a mod 16 = 8"
proof -
  assume i: "slab_inv st ps fs live" and "a \<in> chunks_of ps"
  then obtain p k where p: "p \<in> set ps" "a = p + 8 + k * 64" by (auto simp: chunks_of_def mem_page_chunks)
  then have "p mod 16 = 0" using block_bounds [OF inv_blocks [OF i]] inv_pages [OF i] by blast
  then have "16 dvd p" by (simp add: mod_eq_0_iff_dvd)
  then obtain j where "p = 16 * j" by (rule dvdE)
  then have "a = 8 + 16 * (j + 4 * k)" using p(2) by simp
  then show ?thesis using mod_mult_self2 [of 8 16 "j + 4 * k"] by (simp only:) simp
qed

lemma live_blocks:
  assumes i: "slab_inv st ps fs live"
  shows "\<forall>(a, n) \<in> set live. 0 < a \<and> a mod 8 = 0 \<and> accessible st a n" "sorted_wrt separate live" "distinct (map fst live)"
proof -
  show d: "distinct (map fst live)" by (rule inv_distinct(3) [OF i])
  have "a mod 8 = 0" if l: "(a, n) \<in> set live" for a n
  proof (cases "a \<in> chunks_of ps")
    case True
    from chunk_alignment [OF i True] show ?thesis by presburger
  next
    case False
    then obtain s where "(a, s) \<in> set (sl_blocks st)" using inv_live [OF i l] by blast
    from block_bounds [OF inv_blocks [OF i] this] show ?thesis by presburger
  qed
  then show "\<forall>(a, n) \<in> set live. 0 < a \<and> a mod 8 = 0 \<and> accessible st a n"
    using live_nonzero [OF i] live_accessible [OF i] by force
  show "sorted_wrt separate live"
    unfolding sorted_wrt_iff_nth_less
  proof (intro allI impI)
    fix x y assume xy: "x < y" "y < length live"
    then have "fst (live ! x) \<noteq> fst (live ! y)" using d by (auto simp: distinct_conv_nth)
    moreover have "live ! x \<in> set live" "live ! y \<in> set live" using xy by auto
    ultimately show "separate (live ! x) (live ! y)" using live_apart [OF i] by (metis prod.collapse)
  qed
qed

text \<open>
  C2. The allocator is safe for every client that keeps to the rules of \<open>malloc\<close>. In every state that a client reaches, each operation returns, and
  it neither leaves the allocated memory nor frees what is not a block. Afterwards the blocks that the client holds are aligned to eight bytes,
  lie in allocated memory and do not overlap; the contents of the blocks the operation is not about are unchanged, cleared
  memory is zero, and a reallocated block keeps its contents up to the smaller of the two sizes, or is left as it was when the new one cannot be had.
\<close>

theorem slab_allocator_safe:
  assumes "slab_reach st live" "allowed op st live"
  shows "\<exists>r st'. run_op op st = Some (r, st') \<and>
    (let live' = live_after op r live
     in (\<forall>(a, n) \<in> set live'. 0 < a \<and> a mod 8 = 0 \<and> accessible st' a n) \<and> sorted_wrt separate live' \<and> distinct (map fst live')) \<and>
    (\<forall>(a, n) \<in> set (others op live). \<forall>x < n. sl_mem st' (a + x) = sl_mem st (a + x)) \<and> effect op st live r st'"
proof -
  from reach_inv [OF assms(1)] obtain ps fs where "slab_inv st ps fs live" by blast
  from step_ok [OF this assms(2)] obtain r st' ps' fs' where r: "run_op op st = Some (r, st')" "slab_inv st' ps' fs' (live_after op r live)"
    "keeps_live st st' (others op live)" "effect op st live r st'" unfolding op_ok_def by blast
  have "\<forall>(a, n) \<in> set (others op live). \<forall>x < n. sl_mem st' (a + x) = sl_mem st (a + x)" using r(3) by (auto simp: keeps_live_def agree_def)
  with r(1,4) live_blocks [OF r(2)] show ?thesis by (auto simp: Let_def)
qed

theorem slab_allocator_safe_witness:
  "\<exists>st r st'. slab_reach st [(4096, 100)] \<and> sl_mem st 4096 = 7 \<and> run_op (Calloc (Some 65536) None 2 8) st = Some (r, st') \<and>
     sl_mem st' 4096 = 7 \<and> (r \<noteq> 0 \<longrightarrow> sl_mem st' (r + 15) = 0)"
proof -
  let ?init = "\<lparr>sl_mem = \<lambda>_. 7, sl_blocks = [], sl_pages = 0, sl_freelist = 0, sl_installed = False\<rparr>"
  let ?st = "?init\<lparr>sl_blocks := [(4096, 100)]\<rparr>" and ?op = "Calloc (Some 65536) None 2 8"
  have "slab_reach ?init []" by (rule slab_reach.start) simp_all
  moreover have "run_op (Malloc None (Some 4096) 100) ?init = Some (4096, ?st)" by (simp add: slab_malloc_def libc_malloc_def SLAB_CHUNK_SIZE_def)
  ultimately have reach: "slab_reach ?st [(4096, 100)]"
    using slab_reach.step [of ?init "[]" "Malloc None (Some 4096) 100" 4096 ?st] by (simp add: fresh_block_def hand_out_def)
  have "allowed ?op ?st [(4096, 100)]" by (simp add: fresh_block_def sizes separate_def)
  from slab_allocator_safe [OF reach this] obtain r st' where r: "run_op ?op ?st = Some (r, st')"
    "\<forall>(a, n) \<in> set [(4096 :: nat, 100)]. \<forall>x < n. sl_mem st' (a + x) = sl_mem ?st (a + x)" "effect ?op ?st [(4096, 100)] r st'" by auto
  then have "sl_mem st' 4096 = 7" by force
  with r reach show ?thesis by (intro exI [of _ ?st]) auto
qed

end
