(* ===== verification/Spec2Isabelle.thy ===== *)
theory Spec2Isabelle
  imports StrUtil StrIntern Fqn Gitignore AhoCorasickProof CypherPrint CypherBounds GraphDump RegistryProof DbDump YamlProof PathAlias SlabProof
begin

text \<open>
  A verification library for the code graph server: a C program that indexes a repository into a graph
  of symbols, stores the graph in a database and answers queries about it.

  \<^bold>\<open>The program.\<close> An indexing run discovers files (\<open>src/src/discover\<close>, which asks the ignore rules),
  extracts definitions and calls from syntax trees (\<open>src/internal/cbm\<close>), names every symbol by a
  qualified name (\<open>src/src/pipeline/fqn.c\<close>) and collects nodes and edges in a graph buffer
  (\<open>src/src/graph_buffer\<close>); workers fill buffers of their own, which are merged into the main one. The
  calls in a file are resolved to symbols by a registry (\<open>src/src/pipeline/registry.c\<close>), and imports through the aliases of build
  tools (\<open>src/src/pipeline/path_alias.c\<close>). The
  buffer is dumped as rows into a database file, which a writer (\<open>src/internal/cbm/sqlite_writer.c\<close>) lays out page
  by page in the format of SQLite. Later runs load the graph back, delete what belongs to
  changed files and index those again. Queries in a subset of Cypher are lexed, parsed and executed
  (\<open>src/src/cypher\<close>) with lookups in the database. Below all of this lie an arena allocator, a slab allocator, an interning
  pool, a reader of configuration files and string functions (\<open>src/src/foundation\<close>) and a multi-pattern matcher (\<open>src/internal/cbm/ac.c\<close>).

  \<^bold>\<open>The theories\<close>, each with its program first and its proofs after or in the theory named next to it:

  \<^item> \<open>Prelude\<close>: the C library functions the sources use, bytes as \<open>char\<close>, strings without their NUL, nullable
    pointers as \<open>option\<close>, machine integers as words, printed numbers, generic lemmas.
  \<^item> \<open>Arena\<close> (\<open>foundation/arena.c\<close>): the record \<open>CBMArena\<close> with its blocks and their bytes; sizes are 64-bit
    words, the outcome of \<open>malloc\<close> is an argument. Regions handed out are aligned, in bounds and disjoint, and a
    string stored once stays readable; a request within 7 bytes of the largest size wraps around. The locale
    \<open>string_store\<close> is what the string functions rely on.
  \<^item> \<open>Slab\<close>, \<open>SlabProof\<close> (\<open>foundation/slab_alloc.c\<close>): the allocator of the parser library, with its pages and its free list linked through pointers in a
    memory of bytes. The value \<open>None\<close> of an operation is an access outside the blocks of the heap, a wrong \<open>free\<close> or a loop over a list that does not end. For
    the clients of the inductive relation \<open>slab_reach\<close>, which keep to the rules of \<open>malloc\<close> and write only into their blocks, this does not happen, and their
    blocks are disjoint and keep their contents.
  \<^item> \<open>StrUtil\<close> (\<open>foundation/str_util.c\<close> and the path normalisation of \<open>foundation/platform.c\<close>): paths, splitting,
    validation, JSON escaping. Splitting and joining are inverse, joining paths concatenates components,
    escaped text fits its buffer and stands for its source up to where the buffer is full, without the control bytes that are dropped.
  \<^item> \<open>StrIntern\<close> (\<open>foundation/str_intern.c\<close>): the open-addressing table with its hash function, growth and
    arena. The probing loop has no bound in the source, so \<open>probe\<close> is a partial function whose value
    \<open>None\<close> means that the loop does not end; it is shown to end while a slot is free, and not to end on a
    full table. The pool refines a map from strings to pointers; the locale \<open>interner\<close> states the contract. Over
    a sequence of calls whose larger tables can be allocated, pointer equality is string equality, and NULL comes from a failed allocation of the arena only.
  \<^item> \<open>Yaml\<close>, \<open>YamlProof\<close> (\<open>foundation/yaml.c\<close>): the line-oriented reader of configuration files with its stack of open nodes. Nodes are
    records in a heap, as the parser changes nodes it points to. For every layout of a document (the relation \<open>renders\<close>) the queries answer as the
    document says, and any text gives a tree.
  \<^item> \<open>Fqn\<close> (\<open>pipeline/fqn.c\<close>): qualified names, relative imports and project names. Names are joined path
    components, import resolution is a walk over a stack of directories and stays in its buffer, project names
    pass the validator.
  \<^item> \<open>Gitignore\<close> (\<open>discover/gitignore.c\<close>): patterns, the backtracking matcher, parsing and matching of rules. The
    matcher accepts exactly the strings that \<open>tokens_match\<close> gives to the tokens of a pattern (\<open>glob_tokens\<close>, with character classes as lists of characters and ranges); the last applicable rule decides.
  \<^item> \<open>AhoCorasick\<close>, \<open>AhoCorasickProof\<close> (\<open>internal/cbm/ac.c\<close>): construction of the automaton with its tables and
    queue, scanning, batches and compressed batches (the decompressor is an argument). The state after a
    text is the longest suffix that is a prefix of a pattern (locale \<open>suffix_automaton\<close>), so exactly the
    occurring patterns are reported. The breadth-first loop has the number of states as its fuel, since each
    state is queued once, and so has the walk along output links, which gets shorter with every step.
  \<^item> \<open>CypherLexer\<close>, \<open>CypherParser\<close>, \<open>CypherCursor\<close>, \<open>CypherPrint\<close> (\<open>cypher/cypher.c\<close> up to \<open>cbm_cypher_parse\<close>, \<open>cypher.h\<close>): tokens,
    the recursive-descent parser with its error messages, the discipline of its cursor (it stays in the
    token array and moves forward, from which termination with the fuel \<open>parse_fuel\<close>, the number of tokens times
    the depth of the grammar, follows), and printing: lexing printed tokens and parsing a printed query give them
    back. The locale \<open>binop_level\<close> covers the three levels of binary operators.
  \<^item> \<open>CypherExec\<close> (\<open>cypher/cypher.c\<close> from the bindings to \<open>cbm_cypher_execute\<close>): evaluation of conditions, matching of patterns,
    \<open>WITH\<close>, \<open>RETURN\<close>, aggregates, sorting, paging and \<open>UNION\<close>. The record \<open>cbm_env\<close> holds what the executor asks the store,
    the regular expressions and the floating point unit. A mark that the C program does not have becomes true when the
    code leaves an array or follows a null pointer.
    \<open>CypherRows\<close>: sorting (locale \<open>bubble_order\<close>) and the shape of results. \<open>CypherGroups\<close>: groups and counts.
    \<open>CypherMatch\<close>: for a store that answers about one graph (\<open>store_laws\<close>), a pattern matches the walks that fit it, and what
    the early test of \<open>WHERE\<close> loses. \<open>CypherBounds\<close>: the queries that stay inside the arrays of the executor and
    an \<open>OPTIONAL MATCH\<close> that does not.
  \<^item> \<open>MultiIndex\<close>: the contract of an index from a key to an array of entries, as the locales \<open>push_index\<close> and
    \<open>multi_index\<close> (which adds removal); the graph buffer and the registry interpret them on their own tables.
  \<^item> \<open>GraphBuffer\<close>, \<open>GraphInvariant\<close>, \<open>GraphMerge\<close>, \<open>GraphReach\<close>, \<open>GraphDump\<close> (\<open>graph_buffer/graph_buffer.c\<close>): the buffer as a
    record of two heaps, arrays and indexes, with every operation. The inductive relation \<open>gb_reach\<close> is every history of public operations up to the
    dump, together with the promises it has kept (ids that rise, no deletion by label, edges between nodes of the buffer, names that stay); each part of the
    invariant (\<open>edge_inv\<close>, \<open>gb_inv\<close>, \<open>refs_ok\<close>, \<open>names_ok\<close>) holds under the promises it needs; merging is a union of graphs over qualified names; the rows of a dump are the
    graph, and its vectors are ordered as the writer needs. Two lemmas show where the indexes go stale.
  \<^item> \<open>DbWriter\<close> (\<open>internal/cbm/sqlite_writer.c\<close>): the database writer, from variable-length integers and records over cells, overflow pages,
    leaves and interior pages to \<open>cbm_write_db\<close> and the streaming interface. The file is a record of its size and its
    bytes; loops over levels and overflow pages have termination proofs. \<open>qsort\<close> is an argument with the contract \<open>sorts\<close>, and so is the conversion of the one
    column that is a float. \<open>DbFormat\<close>: the meaning of the bytes as a reader of the documented
    format, which decodes records (\<open>decode_record\<close>), walks B-trees (\<open>read_table\<close>, \<open>read_index\<close>, with the height of the tree as its fuel) and searches
    tables (\<open>seek_table\<close>). \<open>DbPages\<close>, \<open>DbTrees\<close>, \<open>DbTables\<close>, \<open>DbIndexes\<close>: the pages written so far are the nodes of a tree of type \<open>btree\<close> (\<open>tree_stored\<close>),
    later pages leave them alone (\<open>keeps\<close>), and the finished tree has exactly the given rows. \<open>DbFile\<close>: the contract of one
    tree after the other in a file, as the locale \<open>tree_writer\<close>, with its interpretations on tables and indexes. \<open>DbRows\<close>: records of the
    rows and the order of the comparators. \<open>DbDatabase\<close>, \<open>DbProperties\<close>: the whole database, for numbers of at most 48 bits,
    strings below \<open>2 ^ 29\<close> bytes and at most \<open>2 ^ 32\<close> pages, and three ways in which it goes wrong. \<open>DbDump\<close>: the dump of a graph buffer
    with this writer in the place of its argument; what a reader finds in the file is the graph of the buffer.
  \<^item> \<open>Registry\<close>, \<open>RegistryProof\<close> (\<open>pipeline/registry.c\<close>): registration and the chain of strategies that resolves a callee (imports,
    same module, unique name, best candidate), fuzzy resolution, and the three caches of a file as a record that
    is passed along. The index by name is exact, a resolved callee is a registered name with a bounded
    confidence, probing the index finds what a scan would, and the caches do not change an answer.
  \<^item> \<open>PathAlias\<close> (\<open>pipeline/path_alias.c\<close>): aliases of build tools, from the walk over the repository that finds configuration files to the
    resolution of an import. The file system and the reader of JSON are an argument (the record \<open>file_system\<close>), the recursion over directories is by the
    number of levels that the limit on the depth leaves. The locale \<open>longest_first\<close> covers the two scans of sorted arrays: the most specific
    pattern resolves an import, and the nearest directory decides for a file.

  \<^bold>\<open>Conventions.\<close> State is passed explicitly and returned; a loop is a recursive function, by structure where the
  source counts through an array and with fuel or as a partial function otherwise; errors are \<open>option\<close> or
  sum values with the messages of the source. Memory allocation is taken to succeed except in \<open>Arena\<close>, \<open>Slab\<close>, \<open>StrIntern\<close>
  and the decompression buffer of \<open>AhoCorasick\<close>, where its failure is an argument. What the sources call but
  do not contain (decompression, JSON, SQLite rows, \<open>qsort\<close>) is an argument, with named hypotheses where a
  theorem needs them. Functions that only release memory have no counterpart.

  \<^bold>\<open>Not modelled.\<close> The store, which is SQL; the extractors and type resolvers over tree-sitter trees; the indexing passes, which
  drive threads and files; semantic search and layout in floating point; the server, command line, watcher and
  the wrappers of the operating system. The hash table is a wrapper around a vendored header and is modelled as
  a map where it is used.
\<close>

end
